(* ===== verification/Prelude.thy ===== *)
theory Prelude
  imports Main "HOL-Library.Word" "HOL-Library.Monad_Syntax"
begin

unbundle bit_operations_syntax

text \<open>
  Shared vocabulary of the development: machine integer types and the checked arithmetic of the
  Rust standard library that the sources call, results and state-passing operations with errors,
  byte slices, and the lemma collections the component theories extend.

  The program supports 64-bit targets only, so a \<^verbatim>\<open>usize\<close> is a natural number bounded by
  \<open>usize_max\<close>. Values that the code takes apart bitwise are machine words; lengths, offsets
  and counters that the code only adds, subtracts and compares are natural numbers, with every
  \<^verbatim>\<open>checked_*\<close> call of the source written as an explicit bound check.
\<close>

section \<open>Lemma collections\<close>

named_theorems slice_simps \<open>reading and writing byte ranges\<close>
named_theorems num_bounds \<open>the width bounds of the integer types\<close>
named_theorems result_simps \<open>unfolding results and state-passing operations\<close>

section \<open>Machine integers\<close>

type_synonym u8 = "8 word"
type_synonym u16 = "16 word"
type_synonym u32 = "32 word"
type_synonym u64 = "64 word"
type_synonym bytes = "u8 list"

definition u8_max :: nat where "u8_max = 2 ^ 8 - 1"
definition u32_max :: nat where "u32_max = 2 ^ 32 - 1"
definition u64_max :: nat where "u64_max = 2 ^ 64 - 1"
definition usize_max :: nat where "usize_max = 2 ^ 64 - 1"
definition isize_max :: nat where "isize_max = 2 ^ 63 - 1"

lemmas [num_bounds] = u8_max_def u32_max_def u64_max_def usize_max_def isize_max_def

text \<open>\<^verbatim>\<open>checked_add\<close>, \<^verbatim>\<open>checked_sub\<close>, \<^verbatim>\<open>checked_mul\<close> at a width given by its maximum.\<close>

definition checked_add :: "nat \<Rightarrow> nat \<Rightarrow> nat \<Rightarrow> nat option" where
  "checked_add mx a b = (if a + b \<le> mx then Some (a + b) else None)"

definition checked_sub :: "nat \<Rightarrow> nat \<Rightarrow> nat option" where
  "checked_sub a b = (if b \<le> a then Some (a - b) else None)"

definition checked_mul :: "nat \<Rightarrow> nat \<Rightarrow> nat \<Rightarrow> nat option" where
  "checked_mul mx a b = (if a * b \<le> mx then Some (a * b) else None)"

definition saturating_add :: "nat \<Rightarrow> nat \<Rightarrow> nat \<Rightarrow> nat" where
  "saturating_add mx a b = min mx (a + b)"

definition div_ceil :: "nat \<Rightarrow> nat \<Rightarrow> nat" where
  "div_ceil a b = a div b + (if a mod b = 0 then 0 else 1)"

text \<open>\<^verbatim>\<open>T::try_from\<close> between unsigned integer types: the value if it fits.\<close>

definition try_from :: "nat \<Rightarrow> nat \<Rightarrow> nat option" where
  "try_from mx a = (if a \<le> mx then Some a else None)"

lemma checked_add_eq_Some [simp]:
  "checked_add mx a b = Some c \<longleftrightarrow> c = a + b \<and> a + b \<le> mx"
  by (auto simp: checked_add_def)

lemma checked_add_eq_None [simp]: "checked_add mx a b = None \<longleftrightarrow> mx < a + b"
  by (auto simp: checked_add_def)

lemma checked_sub_eq_Some [simp]: "checked_sub a b = Some c \<longleftrightarrow> c = a - b \<and> b \<le> a"
  by (auto simp: checked_sub_def)

lemma checked_sub_eq_None [simp]: "checked_sub a b = None \<longleftrightarrow> a < b"
  by (auto simp: checked_sub_def)

lemma checked_mul_eq_Some [simp]:
  "checked_mul mx a b = Some c \<longleftrightarrow> c = a * b \<and> a * b \<le> mx"
  by (auto simp: checked_mul_def)

lemma checked_mul_eq_None [simp]: "checked_mul mx a b = None \<longleftrightarrow> mx < a * b"
  by (auto simp: checked_mul_def)

lemma try_from_eq_Some [simp]: "try_from mx a = Some c \<longleftrightarrow> c = a \<and> a \<le> mx"
  by (auto simp: try_from_def)

lemma try_from_eq_None [simp]: "try_from mx a = None \<longleftrightarrow> mx < a"
  by (auto simp: try_from_def)

text \<open>\<^verbatim>\<open>div_ceil\<close> is the least multiple count that covers the value.\<close>

lemma div_ceil_mult_ge: "0 < b \<Longrightarrow> a \<le> div_ceil a b * b"
proof -
  assume b: "0 < b"
  have "a = a div b * b + a mod b" by simp
  moreover have "a mod b < b" using b by simp
  ultimately have "a \<le> a div b * b + b" by linarith
  then show ?thesis
    by (auto simp: div_ceil_def add_mult_distrib)
qed

lemma div_ceil_le_iff:
  assumes "0 < b" shows "div_ceil a b \<le> k \<longleftrightarrow> a \<le> k * b"
proof
  assume "div_ceil a b \<le> k"
  then have "div_ceil a b * b \<le> k * b" by simp
  with div_ceil_mult_ge [OF assms] show "a \<le> k * b" by (rule le_trans)
next
  assume le: "a \<le> k * b"
  show "div_ceil a b \<le> k"
  proof (cases "a mod b = 0")
    case True
    from le have "a div b \<le> k * b div b" by (rule div_le_mono)
    with True assms show ?thesis by (simp add: div_ceil_def)
  next
    case False
    then have "a \<noteq> k * b" by auto
    with le have "a < k * b" by simp
    then have "a div b < k" using assms by (simp add: less_mult_imp_div_less)
    with False show ?thesis by (simp add: div_ceil_def)
  qed
qed

text \<open>Powers of two and the position of the highest set bit.\<close>

fun ilog2 :: "nat \<Rightarrow> nat" where
  "ilog2 n = (if n < 2 then 0 else Suc (ilog2 (n div 2)))"

declare ilog2.simps [simp del]

lemma ilog2_bounds: "0 < n \<Longrightarrow> 2 ^ ilog2 n \<le> n \<and> n < 2 ^ Suc (ilog2 n)"
proof (induction n rule: ilog2.induct)
  case (1 n)
  show ?case
  proof (cases "n < 2")
    case True
    with "1.prems" have "n = 1" by simp
    then show ?thesis by (simp add: ilog2.simps)
  next
    case False
    with "1.IH" have IH: "2 ^ ilog2 (n div 2) \<le> n div 2" "n div 2 < 2 ^ Suc (ilog2 (n div 2))"
      by simp_all
    have "2 * (n div 2) \<le> n" and "n < 2 * (n div 2) + 2" by simp_all
    with IH have "2 * 2 ^ ilog2 (n div 2) \<le> n" and "n < 2 * 2 ^ Suc (ilog2 (n div 2))"
      by linarith+
    with False show ?thesis by (simp add: ilog2.simps [of n])
  qed
qed

lemma ilog2_unique: "2 ^ k \<le> n \<Longrightarrow> n < 2 ^ Suc k \<Longrightarrow> ilog2 n = k"
proof -
  assume a: "2 ^ k \<le> n" "n < 2 ^ Suc k"
  then have "0 < n" by (metis gr0I not_le power_eq_0_iff zero_less_numeral zero_less_power)
  from ilog2_bounds [OF this] a have "(2::nat) ^ k < 2 ^ Suc (ilog2 n)" "(2::nat) ^ ilog2 n < 2 ^ Suc k"
    by linarith+
  then have "k < Suc (ilog2 n)" and "ilog2 n < Suc k"
    by (simp_all only: power_strict_increasing_iff one_less_numeral_iff semiring_norm)
  then show ?thesis by simp
qed

definition is_power_of_two :: "nat \<Rightarrow> bool" where
  "is_power_of_two n \<longleftrightarrow> n \<noteq> 0 \<and> n = 2 ^ ilog2 n"

lemma is_power_of_two_iff: "is_power_of_two n \<longleftrightarrow> (\<exists>k. n = 2 ^ k)"
proof
  assume "\<exists>k. n = 2 ^ k"
  then obtain k where n: "n = 2 ^ k" by blast
  then have "ilog2 n = k" by (intro ilog2_unique) simp_all
  with n show "is_power_of_two n" by (simp add: is_power_of_two_def)
qed (auto simp: is_power_of_two_def)

text \<open>\<^verbatim>\<open>leading_zeros\<close> at a width of \<open>w\<close> bits.\<close>

definition leading_zeros :: "nat \<Rightarrow> nat \<Rightarrow> nat" where
  "leading_zeros w n = (if n = 0 then w else w - 1 - ilog2 n)"

lemma ilog2_le: "0 < n \<Longrightarrow> n < 2 ^ Suc w \<Longrightarrow> ilog2 n \<le> w"
proof -
  assume "0 < n" "n < 2 ^ Suc w"
  then have "(2::nat) ^ ilog2 n < 2 ^ Suc w" using ilog2_bounds [of n] by linarith
  then have "ilog2 n < Suc w"
    by (simp only: power_strict_increasing_iff one_less_numeral_iff semiring_norm)
  then show ?thesis by simp
qed

lemma leading_zeros_ilog2:
  assumes "0 < n" and "n < 2 ^ w" shows "w - 1 - leading_zeros w n = ilog2 n"
proof -
  from assms have "w \<noteq> 0" by (cases w) auto
  then obtain v where "w = Suc v" by (cases w) auto
  with ilog2_le [of n v] assms show ?thesis by (simp add: leading_zeros_def)
qed

section \<open>Bit fields\<close>

text \<open>
  The code extracts a field as \<^verbatim>\<open>(w >> s) & mask\<close>; the three lemmas read one field of a
  disjunction of shifted fields.
\<close>

named_theorems field_bits \<open>reading one bit field of a packed word\<close>

lemma field_same [field_bits]:
  fixes x :: "'a::len word"
  shows "s + n \<le> LENGTH('a) \<Longrightarrow> take_bit n (drop_bit s (push_bit s x)) = take_bit n x"
  by (rule bit_word_eqI) (auto simp: bit_simps)

lemma field_above [field_bits]:
  fixes x :: "'a::len word"
  shows "s + n \<le> t \<Longrightarrow> take_bit n (drop_bit s (push_bit t x)) = 0"
  by (rule bit_word_eqI) (auto simp: bit_simps)

lemma take_bit_self_bit: "take_bit m x = (x :: 'a::len word) \<Longrightarrow> bit x i \<Longrightarrow> i < m"
  by (metis bit_take_bit_iff)

lemma field_below [field_bits]:
  fixes x :: "'a::len word"
  shows "take_bit m x = x \<Longrightarrow> t + m \<le> s \<Longrightarrow> take_bit n (drop_bit s (push_bit t x)) = 0"
  by (rule bit_word_eqI) (auto simp: bit_simps dest: take_bit_self_bit)

lemma field_low_below [field_bits]:
  fixes x :: "'a::len word"
  shows "take_bit m x = x \<Longrightarrow> m \<le> s \<Longrightarrow> take_bit n (drop_bit s x) = 0"
  by (rule bit_word_eqI) (auto simp: bit_simps dest: take_bit_self_bit)

lemma field_low_above [field_bits]:
  fixes x :: "'a::len word"
  shows "n \<le> t \<Longrightarrow> take_bit n (push_bit t x) = 0"
  by (rule bit_word_eqI) (auto simp: bit_simps)

lemma take_bit_self_unat:
  fixes w :: "'a::len word"
  assumes "unat w < 2 ^ n" shows "take_bit n w = w"
proof (rule word_unat_eq_iff [THEN iffD2])
  from assms show "unat (take_bit n w) = unat w"
    by (simp add: unsigned_take_bit_eq take_bit_nat_eq_self)
qed

lemma unat_take_bit_less: "n < LENGTH('a) \<Longrightarrow> unat (take_bit n (w :: 'a::len word)) < 2 ^ n"
  by (simp add: unsigned_take_bit_eq)

section \<open>Results and state-passing operations\<close>

text \<open>
  \<^verbatim>\<open>Result<T, E>\<close> is \<open>'e + 'a\<close>, \<open>Inl\<close> for the error. A method on \<^verbatim>\<open>&mut self\<close>
  that can fail is a function from the state to the result and the state it leaves behind: the
  Rust code may have changed \<^verbatim>\<open>self\<close> before it returns an error.
\<close>

type_synonym ('s, 'e, 'a) operation = "'s \<Rightarrow> ('e + 'a) \<times> 's"

definition ok_or :: "'e \<Rightarrow> 'a option \<Rightarrow> 'e + 'a" where
  "ok_or e r = (case r of None \<Rightarrow> Inl e | Some a \<Rightarrow> Inr a)"

definition bind_result :: "'e + 'a \<Rightarrow> ('a \<Rightarrow> 'e + 'b) \<Rightarrow> 'e + 'b" where
  "bind_result r f = (case r of Inl e \<Rightarrow> Inl e | Inr a \<Rightarrow> f a)"

definition map_err :: "('e \<Rightarrow> 'f) \<Rightarrow> 'e + 'a \<Rightarrow> 'f + 'a" where
  "map_err f r = (case r of Inl e \<Rightarrow> Inl (f e) | Inr a \<Rightarrow> Inr a)"

definition is_ok :: "'e + 'a \<Rightarrow> bool" where
  "is_ok r = (case r of Inl e \<Rightarrow> False | Inr a \<Rightarrow> True)"

definition bind_op ::
    "('s, 'e, 'a) operation \<Rightarrow> ('a \<Rightarrow> ('s, 'e, 'b) operation) \<Rightarrow> ('s, 'e, 'b) operation" where
  "bind_op m f s = (case m s of (Inl e, s') \<Rightarrow> (Inl e, s') | (Inr a, s') \<Rightarrow> f a s')"

lemma ok_or_simps [simp, result_simps]:
  "ok_or e None = Inl e" "ok_or e (Some a) = Inr a"
  by (simp_all add: ok_or_def)

lemma ok_or_eq_Inr [simp]: "ok_or e r = Inr a \<longleftrightarrow> r = Some a"
  by (cases r) simp_all

lemma ok_or_eq_Inl [simp]: "ok_or e r = Inl e' \<longleftrightarrow> r = None \<and> e' = e"
  by (cases r) auto

lemma bind_result_simps [simp, result_simps]:
  "bind_result (Inl e) f = Inl e" "bind_result (Inr a) f = f a"
  by (simp_all add: bind_result_def)

lemma bind_result_eq_Inr [simp]:
  "bind_result r f = Inr b \<longleftrightarrow> (\<exists>a. r = Inr a \<and> f a = Inr b)"
  by (cases r) simp_all

lemma map_err_simps [simp, result_simps]:
  "map_err f (Inl e) = Inl (f e)" "map_err f (Inr a) = Inr a"
  by (simp_all add: map_err_def)

lemma map_err_eq_Inr [simp]: "map_err f r = Inr a \<longleftrightarrow> r = Inr a"
  by (cases r) simp_all

lemma is_ok_simps [simp]: "is_ok (Inr a)" "\<not> is_ok (Inl e)"
  by (simp_all add: is_ok_def)

lemma bind_op_eq_Inr [simp]:
  "bind_op m f s = (Inr b, s'') \<longleftrightarrow> (\<exists>a s'. m s = (Inr a, s') \<and> f a s' = (Inr b, s''))"
  by (auto simp: bind_op_def split: prod.splits sum.splits)

section \<open>Byte ranges\<close>

text \<open>
  \<open>slice_at xs a b\<close> is \<^verbatim>\<open>xs.get(a..b)\<close>; \<open>overwrite xs a bs\<close> writes \<open>bs\<close> over the range
  that starts at \<open>a\<close>, and \<open>write_range\<close> is \<^verbatim>\<open>xs[a..a+n].copy_from_slice(bs)\<close>, with \<open>None\<close>
  for the panic of a range outside the buffer.
\<close>

definition slice_at :: "'a list \<Rightarrow> nat \<Rightarrow> nat \<Rightarrow> 'a list option" where
  "slice_at xs a b = (if a \<le> b \<and> b \<le> length xs then Some (take (b - a) (drop a xs)) else None)"

definition overwrite :: "'a list \<Rightarrow> nat \<Rightarrow> 'a list \<Rightarrow> 'a list" where
  "overwrite xs a bs = take a xs @ bs @ drop (a + length bs) xs"

definition write_range :: "'a list \<Rightarrow> nat \<Rightarrow> 'a list \<Rightarrow> 'a list option" where
  "write_range xs a bs = (if a + length bs \<le> length xs then Some (overwrite xs a bs) else None)"

lemma length_overwrite [simp, slice_simps]:
  "a + length bs \<le> length xs \<Longrightarrow> length (overwrite xs a bs) = length xs"
  by (simp add: overwrite_def)

lemma slice_overwrite_same [simp, slice_simps]:
  "a + length bs \<le> length xs \<Longrightarrow> b = a + length bs \<Longrightarrow> slice_at (overwrite xs a bs) a b = Some bs"
  by (simp add: slice_at_def overwrite_def)

lemma overwrite_nth:
  assumes "a + length bs \<le> length xs" and "i < length xs"
  shows "overwrite xs a bs ! i = (if a \<le> i \<and> i < a + length bs then bs ! (i - a) else xs ! i)"
proof -
  have "length (take a xs) = a" using assms by simp
  then show ?thesis
    using assms by (auto simp: overwrite_def nth_append)
qed

lemma slice_overwrite_other [slice_simps]:
  assumes "a + length bs \<le> length xs" and "d \<le> a \<or> a + length bs \<le> c"
  shows "slice_at (overwrite xs a bs) c d = slice_at xs c d"
proof (cases "c \<le> d \<and> d \<le> length xs")
  case True
  have "take (d - c) (drop c (overwrite xs a bs)) = take (d - c) (drop c xs)"
    using assms True by (intro nth_equalityI) (auto simp: overwrite_nth)
  with True assms show ?thesis by (simp add: slice_at_def)
next
  case False
  with assms show ?thesis by (auto simp: slice_at_def)
qed

lemma take_overwrite [simp, slice_simps]:
  "n \<le> a \<Longrightarrow> a \<le> length xs \<Longrightarrow> take n (overwrite xs a bs) = take n xs"
  by (simp add: overwrite_def min_absorb1)

lemma drop_overwrite [simp, slice_simps]:
  "a + length bs \<le> n \<Longrightarrow> a + length bs \<le> length xs \<Longrightarrow> drop n (overwrite xs a bs) = drop n xs"
  by (rule nth_equalityI) (auto simp: overwrite_nth)

lemma write_range_eq_Some [simp]:
  "write_range xs a bs = Some ys \<longleftrightarrow> a + length bs \<le> length xs \<and> ys = overwrite xs a bs"
  by (auto simp: write_range_def)

lemma slice_at_length: "slice_at xs a b = Some ys \<Longrightarrow> length ys = b - a"
  by (auto simp: slice_at_def split: if_splits)

section \<open>Lists\<close>

lemma nth_list_update_if:
  "i < length xs \<Longrightarrow> xs[i := v] ! j = (if i = j then v else xs ! j)"
  by (simp add: nth_list_update)

lemma fold_update_nth:
  "j < length xs \<Longrightarrow> fold (\<lambda>i ys. ys[i := f i]) is xs ! j = (if j \<in> set is then f j else xs ! j)"
  by (induction "is" arbitrary: xs) (auto simp: nth_list_update)

text \<open>\<open>get_at\<close> is \<^verbatim>\<open>xs.get(i)\<close>.\<close>

definition get_at :: "'a list \<Rightarrow> nat \<Rightarrow> 'a option" where
  "get_at xs i = (if i < length xs then Some (xs ! i) else None)"

lemma get_at_eq_Some [simp]: "get_at xs i = Some v \<longleftrightarrow> i < length xs \<and> xs ! i = v"
  by (auto simp: get_at_def)

lemma get_at_eq_None [simp]: "get_at xs i = None \<longleftrightarrow> length xs \<le> i"
  by (auto simp: get_at_def)

text \<open>\<^verbatim>\<open>Vec::swap_remove\<close>.\<close>

definition swap_remove :: "'a list \<Rightarrow> nat \<Rightarrow> 'a list" where
  "swap_remove xs i = butlast (xs[i := last xs])"

text \<open>Removing by swapping moves only the last element, to the place of the removed one.\<close>

lemma swap_remove_nth:
  assumes "i < length xs"
  shows "length (swap_remove xs i) = length xs - 1"
    "\<And>k. k < length xs - 1 \<Longrightarrow> swap_remove xs i ! k = (if k = i then last xs else xs ! k)"
  using assms by (auto simp: swap_remove_def nth_butlast nth_list_update)

lemma set_swap_remove_distinct:
  assumes "i < length xs" "distinct xs"
  shows "distinct (swap_remove xs i)" "set (swap_remove xs i) = set xs - {xs ! i}"
proof -
  obtain ys y where xs: "xs = ys @ [y]" using assms(1) by (cases xs rule: rev_cases) auto
  have e: "swap_remove xs i = (if i = length ys then ys else ys[i := y])"
    using assms(1) by (auto simp: swap_remove_def xs list_update_append)
  show "distinct (swap_remove xs i)" using assms unfolding e by (auto simp: xs intro: distinct_list_update)
  show "set (swap_remove xs i) = set xs - {xs ! i}"
    using assms unfolding e by (auto simp: xs set_update_distinct nth_append)
qed

section \<open>Sequences of operations\<close>

text \<open>
  A component driven by a sequence of operations: an invariant that every allowed operation keeps
  holds after every sequence, and a rank that no operation lowers is monotone along it.
\<close>

locale event_system =
  fixes run :: "'e \<Rightarrow> 's \<Rightarrow> 's" and allowed :: "'e \<Rightarrow> bool" and inv :: "'s \<Rightarrow> bool"
  assumes step_inv: "allowed e \<Longrightarrow> inv s \<Longrightarrow> inv (run e s)"
begin

lemma run_all_inv: "list_all allowed es \<Longrightarrow> inv s \<Longrightarrow> inv (fold run es s)"
  by (induction es arbitrary: s) (simp_all add: step_inv)

end

locale ranked_event_system = event_system +
  fixes rank :: "'s \<Rightarrow> nat"
  assumes step_rank: "allowed e \<Longrightarrow> inv s \<Longrightarrow> rank s \<le> rank (run e s)"
begin

lemma run_all_rank: "list_all allowed es \<Longrightarrow> inv s \<Longrightarrow> rank s \<le> rank (fold run es s)"
proof (induction es arbitrary: s)
  case (Cons e es)
  then have "rank s \<le> rank (run e s)" "rank (run e s) \<le> rank (fold run es (run e s))"
    by (simp_all add: step_rank step_inv)
  then show ?case by simp
qed simp

end

end
