(* ===== verification/Codec.thy ===== *)
theory Codec
  imports Prelude
begin

unbundle bit_operations_syntax

text \<open>
  The little-endian field codecs of \<^verbatim>\<open>cache2/src/codec.rs\<close> and the checksum wrapper of
  \<^verbatim>\<open>cache2/src/checksum.rs\<close>. The three readers and writers satisfy one contract, the locale
  \<open>field_codec\<close>: a field written in range reads back, every byte outside it is kept, and a
  read outside the buffer is refused. The on-disk formats (record header, index page) use the
  facts of its three interpretations.
\<close>

section \<open>Little-endian bytes of a word\<close>

primrec to_le :: "nat \<Rightarrow> 'a::len word \<Rightarrow> bytes" where
  "to_le 0 w = []"
| "to_le (Suc n) w = ucast w # to_le n (drop_bit 8 w)"

primrec from_le :: "bytes \<Rightarrow> 'a::len word" where
  "from_le [] = 0"
| "from_le (b # bs) = ucast b OR push_bit 8 (from_le bs)"

lemma length_to_le [simp]: "length (to_le n w) = n"
  by (induction n arbitrary: w) simp_all

lemma nth_to_le: "i < n \<Longrightarrow> to_le n w ! i = ucast (drop_bit (8 * i) w)"
proof (induction n arbitrary: i w)
  case (Suc n)
  then show ?case by (cases i) (simp_all add: add.commute)
qed simp

lemma bit_from_le:
  "bit (from_le bs :: 'a::len word) i \<longleftrightarrow>
     i < LENGTH('a) \<and> i div 8 < length bs \<and> bit (bs ! (i div 8)) (i mod 8)"
proof (induction bs arbitrary: i)
  case (Cons b bs)
  show ?case
  proof (cases "i < 8")
    case True
    then show ?thesis by (auto simp: bit_simps)
  next
    case False
    then have *: "i div 8 = Suc ((i - 8) div 8)" "i mod 8 = (i - 8) mod 8"
      by (simp_all add: div_if [of i] mod_if [of i])
    from False have "\<not> bit b i" using bit_imp_le_length [of b i] by auto
    with False show ?thesis by (auto simp: bit_simps Cons.IH *)
  qed
qed simp

lemma from_le_to_le:
  assumes "LENGTH('a) = 8 * n" shows "from_le (to_le n w) = (w :: 'a::len word)"
proof (rule bit_word_eqI)
  fix i assume i: "i < LENGTH('a)"
  with assms have "i div 8 < n" by auto
  with i show "bit (from_le (to_le n w) :: 'a word) i = bit w i"
    by (simp add: bit_from_le nth_to_le bit_simps)
qed

lemma to_le_from_le:
  assumes "length bs = n" and "LENGTH('a) = 8 * n"
  shows "to_le n (from_le bs :: 'a::len word) = bs"
proof (rule nth_equalityI)
  fix i assume "i < length (to_le n (from_le bs :: 'a word))"
  then have i: "i < n" by simp
  show "to_le n (from_le bs :: 'a word) ! i = bs ! i"
  proof (rule bit_word_eqI)
    fix j assume j: "j < LENGTH(8)"
    then have j8: "j < 8" by simp
    from i j8 assms have "8 * i + j < LENGTH('a)" by simp
    then show "bit (to_le n (from_le bs :: 'a word) ! i) j = bit (bs ! i) j"
      using i j8 assms by (simp add: nth_to_le bit_simps bit_from_le)
  qed
qed (use assms in simp)

section \<open>Field readers and writers\<close>

definition get_u16 :: "bytes \<Rightarrow> nat \<Rightarrow> u16 option" where
  "get_u16 input offset = do {
     end \<leftarrow> checked_add usize_max offset 2;
     field \<leftarrow> slice_at input offset end;
     Some (from_le field)
   }"

definition get_u32 :: "bytes \<Rightarrow> nat \<Rightarrow> u32 option" where
  "get_u32 input offset = do {
     end \<leftarrow> checked_add usize_max offset 4;
     field \<leftarrow> slice_at input offset end;
     Some (from_le field)
   }"

definition get_u64 :: "bytes \<Rightarrow> nat \<Rightarrow> u64 option" where
  "get_u64 input offset = do {
     end \<leftarrow> checked_add usize_max offset 8;
     field \<leftarrow> slice_at input offset end;
     Some (from_le field)
   }"

text \<open>The writers panic when the field leaves the buffer; \<open>None\<close> is that panic.\<close>

definition put_u16 :: "bytes \<Rightarrow> nat \<Rightarrow> u16 \<Rightarrow> bytes option" where
  "put_u16 output offset value = write_range output offset (to_le 2 value)"

definition put_u32 :: "bytes \<Rightarrow> nat \<Rightarrow> u32 \<Rightarrow> bytes option" where
  "put_u32 output offset value = write_range output offset (to_le 4 value)"

definition put_u64 :: "bytes \<Rightarrow> nat \<Rightarrow> u64 \<Rightarrow> bytes option" where
  "put_u64 output offset value = write_range output offset (to_le 8 value)"

section \<open>The contract of a fixed-width field\<close>

locale field_codec =
  fixes width :: nat
    and encode_field :: "'v \<Rightarrow> bytes"
    and get :: "bytes \<Rightarrow> nat \<Rightarrow> 'v option"
    and put :: "bytes \<Rightarrow> nat \<Rightarrow> 'v \<Rightarrow> bytes option"
  assumes encoded_length: "length (encode_field v) = width"
    and put_eq: "put xs off v = write_range xs off (encode_field v)"
    and get_encoded: "off + width \<le> usize_max \<Longrightarrow>
          slice_at xs off (off + width) = Some (encode_field v) \<Longrightarrow> get xs off = Some v"
    and get_local: "slice_at xs off (off + width) = slice_at ys off (off + width) \<Longrightarrow>
          get xs off = get ys off"
    and get_total: "length xs \<le> usize_max \<Longrightarrow>
          (get xs off = None) \<longleftrightarrow> length xs < off + width"
begin

lemma put_defined: "off + width \<le> length xs \<Longrightarrow> put xs off v = Some (overwrite xs off (encode_field v))"
  by (simp add: put_eq encoded_length write_range_def)

lemma put_panics: "put xs off v = None \<longleftrightarrow> length xs < off + width"
  by (auto simp: put_eq encoded_length write_range_def)

lemma get_overwrite_same:
  "off + width \<le> length xs \<Longrightarrow> length xs \<le> usize_max \<Longrightarrow>
   get (overwrite xs off (encode_field v)) off = Some v"
  by (intro get_encoded slice_overwrite_same) (simp_all add: encoded_length)

lemma get_overwrite_other:
  "a + length bs \<le> length xs \<Longrightarrow> off + width \<le> a \<or> a + length bs \<le> off \<Longrightarrow>
   get (overwrite xs a bs) off = get xs off"
  by (intro get_local slice_overwrite_other)

lemma get_take:
  assumes "off + width \<le> n" shows "get (take n xs) off = get xs off"
proof (rule get_local)
  show "slice_at (take n xs) off (off + width) = slice_at xs off (off + width)"
    using assms by (auto simp: slice_at_def min_def drop_take)
qed

lemma get_put_same:
  "put xs off v = Some ys \<Longrightarrow> length xs \<le> usize_max \<Longrightarrow> get ys off = Some v"
  by (auto simp: put_eq encoded_length intro: get_overwrite_same)

lemma length_put: "put xs off v = Some ys \<Longrightarrow> length ys = length xs"
  by (auto simp: put_eq encoded_length)

end

lemma slice_overflow: "slice_at xs a b = Some ys \<Longrightarrow> b \<le> length xs"
  by (auto simp: slice_at_def split: if_splits)

text \<open>
  A buffer is at most \<open>isize_max\<close> bytes, so the \<^verbatim>\<open>checked_add\<close> of a reader only fails
  where the range is outside the buffer anyway.
\<close>

interpretation f16: field_codec 2 "to_le 2 :: u16 \<Rightarrow> bytes" get_u16 put_u16
  by unfold_locales
     (auto simp: put_u16_def get_u16_def from_le_to_le Option.bind_eq_None_conv checked_add_def
        slice_at_def split: Option.bind_splits if_splits)

interpretation f32: field_codec 4 "to_le 4 :: u32 \<Rightarrow> bytes" get_u32 put_u32
  by unfold_locales
     (auto simp: put_u32_def get_u32_def from_le_to_le Option.bind_eq_None_conv checked_add_def
        slice_at_def split: Option.bind_splits if_splits)

interpretation f64: field_codec 8 "to_le 8 :: u64 \<Rightarrow> bytes" get_u64 put_u64
  by unfold_locales
     (auto simp: put_u64_def get_u64_def from_le_to_le Option.bind_eq_None_conv checked_add_def
        slice_at_def split: Option.bind_splits if_splits)

lemmas field_simps_rw =
  f16.put_defined f32.put_defined f64.put_defined
  f16.get_overwrite_same f32.get_overwrite_same f64.get_overwrite_same
  f16.get_overwrite_other f32.get_overwrite_other f64.get_overwrite_other

section \<open>Checksums\<close>

text \<open>
  The CRC implementation is the external crate \<^verbatim>\<open>hashcrew\<close>. Its streaming object is a
  parameter: the digest after a sequence of \<^verbatim>\<open>update\<close> calls, as a function of the segments fed
  to it.
\<close>

type_synonym crc_stream = "bytes list \<Rightarrow> u32"

fun crc_feed :: "bytes list \<Rightarrow> bytes list \<Rightarrow> bytes list" where
  "crc_feed fed [] = fed"
| "crc_feed fed (part # parts) = crc_feed (fed @ [part]) parts"

definition crc32c :: "crc_stream \<Rightarrow> bytes list \<Rightarrow> u32" where
  "crc32c digest parts = digest (crc_feed [] parts)"

lemma crc_feed_append: "crc_feed fed parts = fed @ parts"
  by (induction fed parts rule: crc_feed.induct) simp_all

lemma crc32c_eq: "crc32c digest parts = digest parts"
  by (simp add: crc32c_def crc_feed_append)

end
