(* ===== verification/Packed.thy ===== *)
theory Packed
  imports Codec
begin

unbundle bit_operations_syntax

text \<open>
  \<^verbatim>\<open>cache2/src/region/index/packed.rs\<close>: record locations packed into one machine word, the
  one-byte record-size classes and the routing of hashes to index partitions.
\<close>

section \<open>Packed locations\<close>

definition OFFSET_ALIGNMENT :: nat where "OFFSET_ALIGNMENT = 32"
definition RECORD_LEN_ALIGNMENT :: nat where "RECORD_LEN_ALIGNMENT = 32"
definition REGION_BITS :: nat where "REGION_BITS = 20"
definition OFFSET_BITS :: nat where "OFFSET_BITS = 20"
definition RECORD_LEN_BITS :: nat where "RECORD_LEN_BITS = 20"
definition OFFSET_SHIFT :: nat where "OFFSET_SHIFT = 0 + REGION_BITS"
definition RECORD_LEN_SHIFT :: nat where "RECORD_LEN_SHIFT = OFFSET_SHIFT + OFFSET_BITS"
definition REGION_MASK :: u64 where "REGION_MASK = push_bit REGION_BITS 1 - 1"
definition OFFSET_MASK :: u64 where "OFFSET_MASK = push_bit OFFSET_BITS 1 - 1"
definition RECORD_LEN_MASK :: u64 where "RECORD_LEN_MASK = push_bit RECORD_LEN_BITS 1 - 1"
definition MAX_REGION_ID :: nat where "MAX_REGION_ID = unat REGION_MASK"
definition MAX_REGION_OFFSET :: nat where "MAX_REGION_OFFSET = unat OFFSET_MASK * OFFSET_ALIGNMENT"
definition MAX_RECORD_LEN :: nat where
  "MAX_RECORD_LEN = (unat RECORD_LEN_MASK + 1) * RECORD_LEN_ALIGNMENT"
definition MAX_PACKED_REGION_COUNT :: nat where "MAX_PACKED_REGION_COUNT = MAX_REGION_ID + 1"
definition MAX_PACKED_REGION_SIZE :: nat where
  "MAX_PACKED_REGION_SIZE = MAX_REGION_OFFSET + OFFSET_ALIGNMENT"
definition INDEX_CANDIDATES :: nat where "INDEX_CANDIDATES = 4"
definition MAX_INDEX_PARTITIONS :: nat where "MAX_INDEX_PARTITIONS = 4096"

lemmas packed_widths = OFFSET_ALIGNMENT_def RECORD_LEN_ALIGNMENT_def REGION_BITS_def OFFSET_BITS_def
  RECORD_LEN_BITS_def OFFSET_SHIFT_def RECORD_LEN_SHIFT_def

datatype packed_location = PackedLocation (raw: u64)

datatype packed_location_error =
    RegionOutOfRange | OffsetUnaligned | OffsetOutOfRange
  | RecordLengthZero | RecordLengthUnaligned | RecordLengthOutOfRange

record index_entry =
  location :: packed_location

definition location_new :: "u32 \<Rightarrow> u32 \<Rightarrow> u32 \<Rightarrow> packed_location_error + packed_location" where
  "location_new region_id offset record_len =
     (if unat region_id > MAX_REGION_ID then Inl RegionOutOfRange
      else if unat offset mod OFFSET_ALIGNMENT \<noteq> 0 then Inl OffsetUnaligned
      else if unat offset > MAX_REGION_OFFSET then Inl OffsetOutOfRange
      else if record_len = 0 then Inl RecordLengthZero
      else if unat record_len mod RECORD_LEN_ALIGNMENT \<noteq> 0 then Inl RecordLengthUnaligned
      else if unat record_len > MAX_RECORD_LEN then Inl RecordLengthOutOfRange
      else (let offset_units = ucast (offset div of_nat OFFSET_ALIGNMENT) :: u64;
                record_len_units = ucast (record_len div of_nat RECORD_LEN_ALIGNMENT - 1) :: u64
            in Inr (PackedLocation
                 (ucast region_id OR push_bit OFFSET_SHIFT offset_units
                    OR push_bit RECORD_LEN_SHIFT record_len_units))))"

definition region_id :: "packed_location \<Rightarrow> u32" where
  "region_id p = ucast (drop_bit 0 (raw p) AND REGION_MASK)"

definition offset :: "packed_location \<Rightarrow> u32" where
  "offset p = ucast (drop_bit OFFSET_SHIFT (raw p) AND OFFSET_MASK) * of_nat OFFSET_ALIGNMENT"

definition record_len :: "packed_location \<Rightarrow> u32" where
  "record_len p =
     (ucast (drop_bit RECORD_LEN_SHIFT (raw p) AND RECORD_LEN_MASK) + 1) * of_nat RECORD_LEN_ALIGNMENT"

section \<open>Record size classes\<close>

definition EXACT_SIZE_CLASS_UNITS :: nat where "EXACT_SIZE_CLASS_UNITS = 32"
definition TRANSITION_SIZE_CLASS_UNITS :: nat where "TRANSITION_SIZE_CLASS_UNITS = 64"
definition TRANSITION_SIZE_CLASS_STEPS :: nat where "TRANSITION_SIZE_CLASS_STEPS = 13"
definition LOG_SIZE_CLASS_FIRST_CODE :: nat where "LOG_SIZE_CLASS_FIRST_CODE = 46"
definition LOG_SIZE_CLASS_FIRST_EXPONENT :: nat where "LOG_SIZE_CLASS_FIRST_EXPONENT = 6"
definition LOG_SIZE_CLASS_STEPS :: nat where "LOG_SIZE_CLASS_STEPS = 15"

lemmas size_class_consts = EXACT_SIZE_CLASS_UNITS_def TRANSITION_SIZE_CLASS_UNITS_def
  TRANSITION_SIZE_CLASS_STEPS_def LOG_SIZE_CLASS_FIRST_CODE_def LOG_SIZE_CLASS_FIRST_EXPONENT_def
  LOG_SIZE_CLASS_STEPS_def

definition size_class_code :: "nat \<Rightarrow> nat" where
  "size_class_code units =
     (if units \<le> EXACT_SIZE_CLASS_UNITS then units
      else if units \<le> TRANSITION_SIZE_CLASS_UNITS then
        (let step = (units - EXACT_SIZE_CLASS_UNITS - 1) * TRANSITION_SIZE_CLASS_STEPS
                      div EXACT_SIZE_CLASS_UNITS + 1
         in EXACT_SIZE_CLASS_UNITS + step)
      else
        (let exponent = 32 - 1 - leading_zeros 32 (units - 1);
             base = 2 ^ exponent;
             step = (units - base - 1) * LOG_SIZE_CLASS_STEPS div base + 1
         in LOG_SIZE_CLASS_FIRST_CODE
              + (exponent - LOG_SIZE_CLASS_FIRST_EXPONENT) * LOG_SIZE_CLASS_STEPS + step - 1))"

definition record_size_class :: "nat \<Rightarrow> nat option" where
  "record_size_class len =
     (if len = 0 \<or> len > MAX_RECORD_LEN \<or> len mod RECORD_LEN_ALIGNMENT \<noteq> 0 then None
      else try_from u8_max (size_class_code (len div RECORD_LEN_ALIGNMENT)))"

definition size_class_units :: "nat \<Rightarrow> nat" where
  "size_class_units class =
     (if class \<le> EXACT_SIZE_CLASS_UNITS then class
      else if class < LOG_SIZE_CLASS_FIRST_CODE then
        (let step = class - EXACT_SIZE_CLASS_UNITS
         in EXACT_SIZE_CLASS_UNITS + div_ceil (step * EXACT_SIZE_CLASS_UNITS) TRANSITION_SIZE_CLASS_STEPS)
      else
        (let ordinal = class - LOG_SIZE_CLASS_FIRST_CODE;
             exponent = LOG_SIZE_CLASS_FIRST_EXPONENT + ordinal div LOG_SIZE_CLASS_STEPS;
             step = ordinal mod LOG_SIZE_CLASS_STEPS + 1;
             base = 2 ^ exponent
         in base + div_ceil (step * base) LOG_SIZE_CLASS_STEPS))"

definition build_record_size_class_upper_bounds :: "nat list" where
  "build_record_size_class_upper_bounds =
     fold (\<lambda>class bounds. bounds[class := size_class_units class * RECORD_LEN_ALIGNMENT])
       [1..<u8_max + 1] (replicate 256 0)"

definition record_size_class_upper_bound :: "nat \<Rightarrow> nat option" where
  "record_size_class_upper_bound class =
     (let upper = build_record_size_class_upper_bounds ! class
      in if upper \<noteq> 0 then Some upper else None)"

text \<open>
  \<^verbatim>\<open>index_size_class\<close> unwraps the class with \<^verbatim>\<open>expect\<close>; that the class always exists is
  \<open>record_size_class_location\<close> below, so the unwrapped \<open>None\<close> never occurs.
\<close>

definition index_size_class :: "packed_location \<Rightarrow> nat" where
  "index_size_class p = the (record_size_class (unat (record_len p)))"

definition index_equivalent :: "packed_location \<Rightarrow> packed_location \<Rightarrow> bool" where
  "index_equivalent p q \<longleftrightarrow>
     region_id p = region_id q \<and> offset p = offset q \<and> index_size_class p = index_size_class q"

section \<open>Partition routing\<close>

definition mix_for_partition :: "u64 \<Rightarrow> u64" where
  "mix_for_partition h0 =
     (let h1 = h0 XOR drop_bit 33 h0;
          h2 = h1 * 0xff51afd7ed558ccd;
          h3 = h2 XOR drop_bit 33 h2;
          h4 = h3 * 0xc4ceb9fe1a85ec53
      in h4 XOR drop_bit 33 h4)"

fun trailing_zeros :: "nat \<Rightarrow> nat \<Rightarrow> nat" where
  "trailing_zeros 0 n = 0"
| "trailing_zeros (Suc w) n = (if odd n then 0 else Suc (trailing_zeros w (n div 2)))"

definition index_partition_for :: "u64 \<Rightarrow> nat \<Rightarrow> nat" where
  "index_partition_for hash partition_count =
     (if partition_count = 1 then 0
      else (let partition_bits = trailing_zeros 64 partition_count
            in unat (drop_bit (64 - partition_bits) (mix_for_partition hash))))"

section \<open>Lemmas on packed locations\<close>

lemma masks [simp]:
  "REGION_MASK = mask 20" "OFFSET_MASK = mask 20" "RECORD_LEN_MASK = mask 20"
  by (simp_all add: REGION_MASK_def OFFSET_MASK_def RECORD_LEN_MASK_def packed_widths
      mask_eq_decr_exp flip: push_bit_eq_mult)

lemma packed_limits:
  "MAX_REGION_ID = 2 ^ 20 - 1" "MAX_REGION_OFFSET = (2 ^ 20 - 1) * 32" "MAX_RECORD_LEN = 2 ^ 25"
  by (simp_all add: MAX_REGION_ID_def MAX_REGION_OFFSET_def MAX_RECORD_LEN_def packed_widths
      mask_eq_exp_minus_1)

lemma region_id_eq: "region_id p = ucast (take_bit 20 (raw p))"
  by (simp add: region_id_def take_bit_eq_mask)

lemma offset_eq: "offset p = ucast (take_bit 20 (drop_bit 20 (raw p))) * 32"
  by (simp add: offset_def packed_widths take_bit_eq_mask)

lemma record_len_eq: "record_len p = (ucast (take_bit 20 (drop_bit 40 (raw p))) + 1) * 32"
  by (simp add: record_len_def packed_widths take_bit_eq_mask)

lemma unat_ucast_small: "unat (w :: 64 word) < 2 ^ 32 \<Longrightarrow> unat (ucast w :: u32) = unat w"
  by (simp add: unsigned_ucast_eq take_bit_nat_eq_self)

lemma unat_region_id: "unat (region_id p) = unat (take_bit 20 (raw p))"
  using unat_take_bit_less [of 20 "raw p"] by (simp add: region_id_eq unat_ucast_small)

lemma unat_offset: "unat (offset p) = unat (take_bit 20 (drop_bit 20 (raw p))) * 32"
proof -
  let ?u = "take_bit 20 (drop_bit 20 (raw p))"
  have u: "unat ?u < 2 ^ 20" by (rule unat_take_bit_less) simp
  then have "unat (ucast ?u :: u32) = unat ?u" by (intro unat_ucast_small) simp
  with u show ?thesis by (simp add: offset_eq unat_word_ariths)
qed

lemma unat_record_len: "unat (record_len p) = (unat (take_bit 20 (drop_bit 40 (raw p))) + 1) * 32"
proof -
  let ?u = "take_bit 20 (drop_bit 40 (raw p))"
  have u: "unat ?u < 2 ^ 20" by (rule unat_take_bit_less) simp
  then have "unat (ucast ?u :: u32) = unat ?u" by (intro unat_ucast_small) simp
  with u show ?thesis by (simp add: record_len_eq unat_word_ariths)
qed

lemma location_bounds:
  "unat (region_id p) \<le> MAX_REGION_ID"
  "unat (offset p) \<le> MAX_REGION_OFFSET" "unat (offset p) mod OFFSET_ALIGNMENT = 0"
  "0 < unat (record_len p)" "unat (record_len p) \<le> MAX_RECORD_LEN"
  "unat (record_len p) mod RECORD_LEN_ALIGNMENT = 0"
proof -
  have "unat (take_bit 20 (raw p)) < 2 ^ 20" by (rule unat_take_bit_less) simp
  then show "unat (region_id p) \<le> MAX_REGION_ID"
    unfolding unat_region_id packed_limits by simp
  have "unat (take_bit 20 (drop_bit 20 (raw p))) < 2 ^ 20" by (rule unat_take_bit_less) simp
  then show "unat (offset p) \<le> MAX_REGION_OFFSET"
    unfolding unat_offset packed_limits by simp
  have "unat (take_bit 20 (drop_bit 40 (raw p))) < 2 ^ 20" by (rule unat_take_bit_less) simp
  then show "unat (record_len p) \<le> MAX_RECORD_LEN"
    unfolding unat_record_len packed_limits by simp
  show "unat (offset p) mod OFFSET_ALIGNMENT = 0"
    unfolding unat_offset OFFSET_ALIGNMENT_def by simp
  show "0 < unat (record_len p)" and "unat (record_len p) mod RECORD_LEN_ALIGNMENT = 0"
    unfolding unat_record_len RECORD_LEN_ALIGNMENT_def by simp_all
qed

lemma location_new_ok:
  assumes "location_new r off len = Inr p"
  shows "unat r \<le> MAX_REGION_ID" "unat off mod 32 = 0" "unat off \<le> MAX_REGION_OFFSET"
    "0 < unat len" "unat len mod 32 = 0" "unat len \<le> MAX_RECORD_LEN"
  using assms
  by (auto simp: location_new_def Let_def OFFSET_ALIGNMENT_def RECORD_LEN_ALIGNMENT_def
      unat_gt_0 split: if_splits)

lemma location_new_raw:
  assumes "location_new r off len = Inr p"
  shows "take_bit 20 (raw p) = ucast r"
    and "take_bit 20 (drop_bit 20 (raw p)) = ucast (off div 32)"
    and "take_bit 20 (drop_bit 40 (raw p)) = ucast (len div 32 - 1)"
proof -
  note ok = location_new_ok [OF assms, unfolded packed_limits]
  let ?o = "ucast (off div 32) :: u64" and ?l = "ucast (len div 32 - 1) :: u64"
  have p: "raw p = ucast r OR push_bit 20 ?o OR push_bit 40 ?l"
    using assms by (auto simp: location_new_def Let_def packed_widths split: if_splits)
  have r: "take_bit 20 (ucast r :: u64) = ucast r"
    using ok(1) by (intro take_bit_self_unat) (simp add: unsigned_ucast_eq take_bit_nat_eq_self)
  have o: "take_bit 20 ?o = ?o"
    using ok(3) by (intro take_bit_self_unat)
      (simp add: unsigned_ucast_eq unat_div take_bit_nat_eq_self)
  have "1 \<le> len div 32"
    using ok(4,5) by (simp add: word_le_nat_alt unat_div) presburger
  then have "unat (len div 32 - 1) = unat len div 32 - 1"
    by (simp add: unat_sub unat_div)
  then have l: "take_bit 20 ?l = ?l"
    using ok(6) by (intro take_bit_self_unat)
      (simp add: unsigned_ucast_eq take_bit_nat_eq_self)
  show "take_bit 20 (raw p) = ucast r"
    by (simp add: p field_bits r take_bit_push_bit)
  show "take_bit 20 (drop_bit 20 (raw p)) = ?o"
    by (simp add: p field_bits r o drop_bit_or take_bit_or field_low_below [OF r])
  show "take_bit 20 (drop_bit 40 (raw p)) = ?l"
    by (simp add: p field_bits r o l drop_bit_or take_bit_or field_low_below [OF r] field_below [OF o])
qed

lemma word_div_mult_32:
  fixes w :: u32 assumes "unat w mod 32 = 0" shows "w div 32 * 32 = w"
proof (rule word_unat_eq_iff [THEN iffD2])
  have "unat w < 2 ^ 32" using unsigned_less [of w] by simp
  moreover have "unat w div 32 * 32 = unat w" using assms by presburger
  ultimately show "unat (w div 32 * 32) = unat w"
    by (simp add: unat_word_ariths unat_div mod_mult_left_eq)
qed

text \<open>The constructor round-trips: the packed word gives back exactly what was packed.\<close>

lemma location_new_roundtrip:
  assumes "location_new r off len = Inr p"
  shows "region_id p = r" "offset p = off" "record_len p = len"
proof -
  note ok = location_new_ok [OF assms] and rw = location_new_raw [OF assms]
  show "region_id p = r" by (simp add: region_id_eq rw ucast_up_ucast_id is_up)
  have "offset p = off div 32 * 32" by (simp add: offset_eq rw ucast_up_ucast_id is_up)
  also have "\<dots> = off" using ok(2) by (rule word_div_mult_32)
  finally show "offset p = off" .
  have "record_len p = len div 32 * 32" by (simp add: record_len_eq rw ucast_up_ucast_id is_up)
  also have "\<dots> = len" using ok(5) by (rule word_div_mult_32)
  finally show "record_len p = len" .
qed

lemma location_new_total:
  assumes "unat r \<le> MAX_REGION_ID" "unat off mod OFFSET_ALIGNMENT = 0" "unat off \<le> MAX_REGION_OFFSET"
    "0 < unat len" "unat len mod RECORD_LEN_ALIGNMENT = 0" "unat len \<le> MAX_RECORD_LEN"
  shows "\<exists>p. location_new r off len = Inr p"
  using assms by (auto simp: location_new_def Let_def unat_gt_0)

section \<open>Lemmas on size classes\<close>

text \<open>
  Both stepped ranges of the size classes have the same shape: \<open>base + 1 \<dots> 2 * base\<close> units cut into
  \<open>n\<close> steps. \<open>cut_step\<close> is the step of a unit count and \<open>cut_top\<close> the largest unit count
  of a step.
\<close>

definition cut_step :: "nat \<Rightarrow> nat \<Rightarrow> nat \<Rightarrow> nat" where
  "cut_step n base u = (u - base - 1) * n div base + 1"

definition cut_top :: "nat \<Rightarrow> nat \<Rightarrow> nat \<Rightarrow> nat" where
  "cut_top n base step = base + div_ceil (step * base) n"

lemma cut_step_range:
  assumes "0 < base" "base < u" "u \<le> 2 * base"
  shows "1 \<le> cut_step n base u" and "0 < n \<Longrightarrow> cut_step n base u \<le> n"
proof -
  assume n: "0 < n"
  have "(u - base - 1) * n < base * n" using assms n by simp
  then have "(u - base - 1) * n div base < n"
    by (simp add: less_mult_imp_div_less mult.commute)
  then show "cut_step n base u \<le> n" by (simp add: cut_step_def)
qed (simp add: cut_step_def)

lemma cut_step_bound:
  assumes "0 < base" "base < u"
  shows "(u - base - 1) * n < cut_step n base u * base"
    and "cut_step n base u * base \<le> (u - base - 1) * n + base"
proof -
  let ?d = "(u - base - 1) * n"
  have "?d div base * base + ?d mod base = ?d" by (rule div_mult_mod_eq)
  moreover have "?d mod base < base" using assms by simp
  moreover have "cut_step n base u * base = ?d div base * base + base"
    by (simp add: cut_step_def)
  ultimately show "?d < cut_step n base u * base" and "cut_step n base u * base \<le> ?d + base"
    by linarith+
qed

lemma cut_top_ge:
  assumes "0 < base" "base < u" "0 < n"
  shows "u \<le> cut_top n base (cut_step n base u)"
proof -
  let ?s = "cut_step n base u * base"
  have "\<not> div_ceil ?s n \<le> u - base - 1"
    using cut_step_bound(1) [OF assms(1,2), of n] assms(3) by (simp add: div_ceil_le_iff)
  with assms show ?thesis by (simp add: cut_top_def)
qed

lemma cut_top_less:
  assumes "0 < n" "0 < s" "0 < base"
  shows "(cut_top n base s - base - 1) * n < s * base"
proof -
  have "div_ceil (s * base) n \<noteq> 0"
    using assms div_ceil_mult_ge [of n "s * base"] by (cases "div_ceil (s * base) n") auto
  then have "\<not> div_ceil (s * base) n \<le> div_ceil (s * base) n - 1" by simp
  then have "(div_ceil (s * base) n - 1) * n < s * base"
    using assms by (simp add: div_ceil_le_iff del: One_nat_def)
  then show ?thesis by (simp add: cut_top_def)
qed

lemma cut_step_top:
  assumes "0 < base" "base < u" "0 < n"
  shows "cut_step n base (cut_top n base (cut_step n base u)) = cut_step n base u"
proof -
  define s where "s = cut_step n base u"
  let ?t = "cut_top n base s"
  have s: "0 < s" by (simp add: s_def cut_step_def)
  have "(?t - base - 1) * n div base < s"
    using cut_top_less [OF assms(3) s assms(1)] by (simp add: less_mult_imp_div_less)
  moreover have "(u - base - 1) * n div base \<le> (?t - base - 1) * n div base"
    using cut_top_ge [OF assms, folded s_def] by (intro div_le_mono mult_le_mono1) simp
  ultimately show ?thesis
    using s unfolding s_def [symmetric] by (simp add: cut_step_def s_def)
qed

lemma cut_top_overhead:
  assumes "0 < base" "base < u" "0 < n"
  shows "cut_top n base (cut_step n base u) * n \<le> u * n + base - 1"
proof -
  let ?s = "cut_step n base u"
  have s: "0 < ?s" by (simp add: cut_step_def)
  let ?t = "cut_top n base ?s"
  have "base < ?t" using cut_top_ge [OF assms] assms(2) by simp
  then obtain k where k: "?t = base + 1 + k" by (metis add.assoc less_iff_Suc_add Suc_eq_plus1 add.commute)
  have "k * n < (u - base - 1) * n + base"
    using cut_top_less [OF assms(3) s assms(1)] cut_step_bound(2) [OF assms(1,2), of n] k by simp
  moreover obtain d where d: "u = base + 1 + d" using assms(2)
    by (metis add.assoc less_iff_Suc_add Suc_eq_plus1 add.commute)
  ultimately show ?thesis using k by (simp add: algebra_simps)
qed

lemma log_exponent:
  assumes "64 < u" "u \<le> 2 ^ 20"
  defines "e \<equiv> ilog2 (u - 1)"
  shows "32 - 1 - leading_zeros 32 (u - 1) = e" "6 \<le> e" "e \<le> 19" "2 ^ e < u" "u \<le> 2 * 2 ^ e"
proof -
  have "0 < u - 1" using assms by simp
  note b = ilog2_bounds [OF this, folded e_def]
  show "32 - 1 - leading_zeros 32 (u - 1) = e"
    using assms leading_zeros_ilog2 [of "u - 1" 32] by simp
  show "2 ^ e < u" "u \<le> 2 * 2 ^ e" using b assms by auto
  have "(2::nat) ^ 6 \<le> u - 1" using assms by simp
  with b have "(2::nat) ^ 6 < 2 ^ Suc e" by linarith
  then show "6 \<le> e"
    by (simp only: power_strict_increasing_iff one_less_numeral_iff semiring_norm less_Suc_eq_le)
  have "u - 1 < 2 ^ 20" using assms by simp
  with b have "(2::nat) ^ e < 2 ^ 20" by linarith
  then have "e < 20"
    by (simp only: power_strict_increasing_iff one_less_numeral_iff semiring_norm)
  then show "e \<le> 19" by simp
qed

lemma size_class_code_log:
  assumes "64 < u" "u \<le> 2 ^ 20"
  shows "size_class_code u = 45 + (ilog2 (u - 1) - 6) * 15 + cut_step 15 (2 ^ ilog2 (u - 1)) u"
  using assms log_exponent(1) [OF assms]
  by (simp add: size_class_code_def size_class_consts Let_def cut_step_def)

lemma size_class_units_log:
  assumes "6 \<le> e" "1 \<le> s" "s \<le> 15"
  shows "size_class_units (45 + (e - 6) * 15 + s) = cut_top 15 (2 ^ e) s"
proof -
  from assms obtain t where t: "s = Suc t" "t < 15" by (cases s) auto
  have "45 + (e - 6) * 15 + s - 46 = (e - 6) * 15 + t" using t by simp
  moreover have "((e - 6) * 15 + t) div 15 = e - 6" "((e - 6) * 15 + t) mod 15 = t"
    using t by simp_all
  ultimately show ?thesis
    using assms t by (simp add: size_class_units_def size_class_consts Let_def cut_top_def)
qed

text \<open>The class of a unit count, as the three ranges of the source compute it.\<close>

lemma size_class_code_cases:
  assumes "1 \<le> u" "u \<le> 2 ^ 20"
  obtains (exact) "u \<le> 32" "size_class_code u = u"
  | (transition) "32 < u" "u \<le> 64" "size_class_code u = 32 + cut_step 13 32 u"
  | (log) e where "64 < u" "6 \<le> e" "e \<le> 19" "2 ^ e < u" "u \<le> 2 * 2 ^ e"
      "e = ilog2 (u - 1)" "size_class_code u = 45 + (e - 6) * 15 + cut_step 15 (2 ^ e) u"
proof -
  consider "u \<le> 32" | "32 < u" "u \<le> 64" | "64 < u" by linarith
  then show ?thesis
  proof cases
    case 1
    then show ?thesis by (intro exact) (simp_all add: size_class_code_def size_class_consts)
  next
    case 2
    then show ?thesis
      by (intro transition) (simp_all add: size_class_code_def size_class_consts Let_def cut_step_def)
  next
    case 3
    with assms(2) log_exponent [OF 3 assms(2)] size_class_code_log [OF 3 assms(2)] show ?thesis
      by (intro log [of "ilog2 (u - 1)"]) simp_all
  qed
qed

lemma size_class_units_transition:
  assumes "1 \<le> s" "s \<le> 13" shows "size_class_units (32 + s) = cut_top 13 32 s"
  using assms by (simp add: size_class_units_def size_class_consts Let_def cut_top_def)

lemma cut_top_le:
  assumes "s \<le> n" "0 < n" shows "cut_top n base s \<le> 2 * base"
proof -
  have "div_ceil (s * base) n \<le> base"
    using assms by (simp add: div_ceil_le_iff mult.commute)
  then show ?thesis by (simp add: cut_top_def)
qed

lemma size_class_correct:
  assumes u: "1 \<le> u" "u \<le> 2 ^ 20"
  defines "c \<equiv> size_class_code u"
  shows "1 \<le> c \<and> c \<le> 255"
    and "u \<le> size_class_units c"
    and "size_class_units c \<le> 2 ^ 20"
    and "size_class_code (size_class_units c) = c"
    and "u \<le> 32 \<Longrightarrow> size_class_units c = u"
    and "32 < u \<Longrightarrow> size_class_units c * 100 < u * 107"
proof -
  have "(1 \<le> c \<and> c \<le> 255) \<and> u \<le> size_class_units c \<and> size_class_units c \<le> 2 ^ 20
      \<and> size_class_code (size_class_units c) = c \<and> (u \<le> 32 \<longrightarrow> size_class_units c = u)
      \<and> (32 < u \<longrightarrow> size_class_units c * 100 < u * 107)"
    using u
  proof (cases rule: size_class_code_cases)
    case exact
    with u show ?thesis
      by (simp add: c_def size_class_units_def size_class_code_def size_class_consts)
  next
    case transition
    define s where "s = cut_step 13 32 u"
    have s: "1 \<le> s" "s \<le> 13"
      using cut_step_range [of 32 u 13] transition by (simp_all add: s_def)
    have units: "size_class_units c = cut_top 13 32 s"
      using s transition by (simp add: c_def s_def size_class_units_transition)
    have ge: "u \<le> cut_top 13 32 s" and le: "cut_top 13 32 s \<le> 64"
      and step: "cut_step 13 32 (cut_top 13 32 s) = s"
      and over: "cut_top 13 32 s * 13 \<le> u * 13 + 31"
      using cut_top_ge [of 32 u 13] cut_top_le [of s 13 32] cut_step_top [of 32 u 13]
        cut_top_overhead [of 32 u 13] transition s by (simp_all add: s_def)
    have code: "size_class_code (cut_top 13 32 s) = 32 + s"
      using ge le transition step
      by (simp add: size_class_code_def size_class_consts Let_def cut_step_def)
    have "cut_top 13 32 s * 100 < u * 107"
    proof (cases "u \<le> 34")
      case True
      then have "u = 33 \<or> u = 34" using transition by auto
      then show ?thesis by (auto simp: s_def cut_top_def cut_step_def div_ceil_def)
    next
      case False
      with over show ?thesis by linarith
    qed
    with s ge le code transition units show ?thesis by (simp add: c_def s_def)
  next
    case (log e)
    define s where "s = cut_step 15 (2 ^ e) u"
    let ?t = "cut_top 15 (2 ^ e) s"
    have b: "(0::nat) < 2 ^ e" by simp
    have s: "1 \<le> s" "s \<le> 15"
      using cut_step_range [OF b log(4,5)] by (simp_all add: s_def)
    have units: "size_class_units c = ?t"
      using s log by (simp add: c_def s_def size_class_units_log)
    have ge: "u \<le> ?t" and le: "?t \<le> 2 * 2 ^ e" and step: "cut_step 15 (2 ^ e) ?t = s"
      and over: "?t * 15 \<le> u * 15 + 2 ^ e - 1"
      using cut_top_ge [OF b log(4), of 15] cut_top_le [of s 15 "2 ^ e"]
        cut_step_top [OF b log(4), of 15] cut_top_overhead [OF b log(4), of 15] s
      by (simp_all add: s_def)
    have "(2::nat) ^ e \<le> 2 ^ 19" using log(3) by (intro power_increasing) simp_all
    with le have t20: "?t \<le> 2 ^ 20" by simp
    have e: "ilog2 (?t - 1) = e"
      using ge le log(1,4) by (intro ilog2_unique; simp; linarith)
    have code: "size_class_code ?t = 45 + (e - 6) * 15 + s"
      using size_class_code_log [of ?t] ge log t20 step e by simp
    have "?t * 100 < u * 107" using over log(4) by linarith
    moreover have "45 + (e - 6) * 15 + s \<le> 255" using s log(3) by linarith
    ultimately show ?thesis
      using s ge t20 code units log by (simp add: c_def s_def)
  qed
  then show "1 \<le> c \<and> c \<le> 255" "u \<le> size_class_units c" "size_class_units c \<le> 2 ^ 20"
    "size_class_code (size_class_units c) = c" "u \<le> 32 \<Longrightarrow> size_class_units c = u"
    "32 < u \<Longrightarrow> size_class_units c * 100 < u * 107"
    by blast+
qed

lemma upper_bounds_nth:
  assumes "c \<le> 255"
  shows "build_record_size_class_upper_bounds ! c = (if c = 0 then 0 else size_class_units c * 32)"
proof -
  have "set [1..<u8_max + 1] = {1..255}" by (auto simp: u8_max_def)
  moreover have "c < length (replicate 256 (0::nat))" using assms by simp
  ultimately show ?thesis
    using assms unfolding build_record_size_class_upper_bounds_def RECORD_LEN_ALIGNMENT_def
    by (simp only: fold_update_nth) (auto simp: nth_replicate)
qed

lemma record_size_class_eq:
  assumes "0 < len" "len \<le> MAX_RECORD_LEN" "len mod 32 = 0"
  shows "record_size_class len = Some (size_class_code (len div 32))"
    and "1 \<le> len div 32" and "len div 32 \<le> 2 ^ 20"
proof -
  show u: "1 \<le> len div 32" "len div 32 \<le> 2 ^ 20"
    using assms unfolding packed_limits by (presburger, simp)
  then show "record_size_class len = Some (size_class_code (len div 32))"
    using assms size_class_correct(1) [OF u]
    by (simp add: record_size_class_def RECORD_LEN_ALIGNMENT_def u8_max_def)
qed

lemma record_size_class_Some:
  assumes "record_size_class len = Some c"
  shows "0 < len" "len \<le> MAX_RECORD_LEN" "len mod 32 = 0" "c = size_class_code (len div 32)"
  using assms by (auto simp: record_size_class_def RECORD_LEN_ALIGNMENT_def split: if_splits)

lemma record_size_class_upper_bound_eq:
  assumes "1 \<le> c" "c \<le> 255" "0 < size_class_units c"
  shows "record_size_class_upper_bound c = Some (size_class_units c * 32)"
  using assms by (simp add: record_size_class_upper_bound_def upper_bounds_nth Let_def)

text \<open>The class and its upper bound, the facts the index storage rests on.\<close>

lemma record_size_class_upper:
  assumes "record_size_class len = Some c"
  obtains upper where "1 \<le> c" "c \<le> 255"
    "record_size_class_upper_bound c = Some upper" "len \<le> upper" "upper \<le> MAX_RECORD_LEN"
    "upper mod 32 = 0" "record_size_class upper = Some c"
    "len \<le> 1024 \<longrightarrow> upper = len" "1024 < len \<longrightarrow> upper * 100 < len * 107"
proof -
  note len = record_size_class_Some [OF assms]
  define u where "u = len div 32"
  have u: "1 \<le> u" "u \<le> 2 ^ 20" and lu: "len = u * 32"
    using record_size_class_eq(2,3) [OF len(1-3)] len(3) by (auto simp: u_def)
  have c: "c = size_class_code u" using len(4) by (simp add: u_def)
  note sc = size_class_correct [OF u, folded c]
  let ?upper = "size_class_units c * 32"
  have "record_size_class ?upper = Some c"
    using record_size_class_eq(1) [of ?upper] sc u by (simp add: packed_limits)
  moreover have "record_size_class_upper_bound c = Some ?upper"
    using sc u by (intro record_size_class_upper_bound_eq) simp_all
  ultimately show ?thesis
    using sc lu by (intro that [of ?upper]) (auto simp: packed_limits mult.commute)
qed

lemma record_size_class_location:
  obtains c where "record_size_class (unat (record_len p)) = Some c" "index_size_class p = c"
    "1 \<le> c" "c \<le> 255"
proof -
  note b = location_bounds(4-6) [of p, unfolded RECORD_LEN_ALIGNMENT_def]
  have "record_size_class (unat (record_len p)) = Some (index_size_class p)"
    using record_size_class_eq(1) [OF b] by (simp add: index_size_class_def)
  moreover from this obtain "1 \<le> index_size_class p" "index_size_class p \<le> 255"
    by (rule record_size_class_upper)
  ultimately show ?thesis using that by blast
qed

lemma record_size_class_zero: "record_size_class 0 = None" "record_size_class_upper_bound 0 = None"
  by (simp_all add: record_size_class_def record_size_class_upper_bound_def upper_bounds_nth)

section \<open>Lemmas on partition routing\<close>

lemma trailing_zeros_power: "k \<le> w \<Longrightarrow> trailing_zeros w (2 ^ k) = k"
proof (induction w arbitrary: k)
  case (Suc w)
  then show ?case by (cases k) simp_all
qed simp

lemma unat_drop_bit_less:
  fixes w :: u64 assumes "k \<le> 64" shows "unat (drop_bit (64 - k) w) < 2 ^ k"
proof -
  have w: "unat w < 2 ^ 64" using unsigned_less [of w] by simp
  then have "unat (drop_bit (64 - k) w) = unat w div 2 ^ (64 - k)"
    by (simp only: unsigned_drop_bit_eq len_num1 len_bit0 len_of_numeral_defs)
       (simp add: take_bit_nat_eq_self drop_bit_nat_def)
  moreover have "(2::nat) ^ 64 = 2 ^ k * 2 ^ (64 - k)" using assms by (simp flip: power_add)
  ultimately show ?thesis using w by (simp only: less_mult_imp_div_less)
qed

lemma index_partition_for_less:
  assumes "is_power_of_two n" "n \<le> MAX_INDEX_PARTITIONS"
  shows "index_partition_for h n < n"
proof -
  from assms(1) obtain k where n: "n = 2 ^ k" by (auto simp: is_power_of_two_iff)
  with assms(2) have "(2::nat) ^ k \<le> 2 ^ 12" by (simp add: MAX_INDEX_PARTITIONS_def)
  then have "k \<le> 12" by (simp only: power_increasing_iff one_less_numeral_iff semiring_norm)
  then show ?thesis
    using n unat_drop_bit_less [of k]
    by (auto simp: index_partition_for_def Let_def trailing_zeros_power)
qed

section \<open>Properties\<close>

text \<open>
  \<^verbatim>\<open>PackedLocation::new\<close> accepts exactly the Region ids below \<open>2^20\<close>, the 32-byte
  aligned offsets that fit 20 units and the positive aligned lengths up to 32 MiB, and for those
  the accessors \<^verbatim>\<open>region_id\<close>, \<^verbatim>\<open>offset\<close> and \<^verbatim>\<open>record_len\<close> return exactly what was packed.
\<close>
theorem packed_location_roundtrip:
  "(\<exists>p. location_new r off len = Inr p \<and> region_id p = r \<and> offset p = off \<and> record_len p = len)
     \<longleftrightarrow> unat r < 2 ^ 20 \<and> 32 dvd unat off \<and> unat off \<le> (2 ^ 20 - 1) * 32
        \<and> 0 < unat len \<and> 32 dvd unat len \<and> unat len \<le> 2 ^ 25"
    (is "?L \<longleftrightarrow> ?R")
proof
  assume ?L
  then obtain p where p: "location_new r off len = Inr p" by blast
  show ?R
    using location_new_ok [OF p] by (auto simp: packed_limits mod_eq_0_iff_dvd)
next
  assume r: ?R
  then obtain p where p: "location_new r off len = Inr p"
    using location_new_total [of r off len]
    by (auto simp: packed_limits OFFSET_ALIGNMENT_def RECORD_LEN_ALIGNMENT_def mod_eq_0_iff_dvd)
  with location_new_roundtrip [OF p] show ?L by blast
qed

text \<open>
  Every legal record length has a one-byte size class whose upper bound covers the
  record, stays within the 32 MiB limit and maps back to the same class; lengths up to 1 KiB are
  kept exactly and longer ones are over-read by less than seven percent.
\<close>
theorem size_class_covers:
  assumes "0 < len" "len \<le> 2 ^ 25" "32 dvd len"
  shows "\<exists>c upper. record_size_class len = Some c \<and> c < 256
     \<and> record_size_class_upper_bound c = Some upper \<and> len \<le> upper \<and> upper \<le> 2 ^ 25
     \<and> record_size_class upper = Some c
     \<and> (if len \<le> 1024 then upper = len else upper * 100 < len * 107)"
proof -
  have len: "0 < len" "len \<le> MAX_RECORD_LEN" "len mod 32 = 0"
    using assms by (simp_all add: packed_limits mod_eq_0_iff_dvd)
  from record_size_class_eq(1) [OF len] show ?thesis
    by (rule record_size_class_upper) (auto simp: packed_limits record_size_class_eq(1) [OF len])
qed

text \<open>
  For every power-of-two partition count the index can have, a hash is routed to a
  partition that exists.
\<close>
theorem partition_routing_in_range:
  assumes "is_power_of_two n" "n \<le> MAX_INDEX_PARTITIONS"
  shows "index_partition_for h n < n"
  using assms by (rule index_partition_for_less)

theorem partition_routing_in_range_witness: "index_partition_for 0x0123456789abcdef 4096 < 4096"
  by (rule partition_routing_in_range)
     (auto simp: is_power_of_two_iff MAX_INDEX_PARTITIONS_def intro: exI [of _ 12])

end
