(* ===== verification/Record_Header.thy ===== *)
theory Record_Header
  imports Packed
begin

unbundle bit_operations_syntax

text \<open>
  \<^verbatim>\<open>cache2/src/region/record/mod.rs\<close>: the 48-byte record header, its aligned length and its
  self-checking encoding. The checksum implementation is a parameter (see theory \<open>Codec\<close>).
\<close>

section \<open>Format constants\<close>

definition RECORD_FORMAT_VERSION :: u16 where "RECORD_FORMAT_VERSION = 1"
definition RECORD_HEADER_SIZE :: nat where "RECORD_HEADER_SIZE = 48"
definition RECORD_ALIGNMENT :: nat where "RECORD_ALIGNMENT = 32"
definition MAX_KEY_SIZE :: nat where "MAX_KEY_SIZE = 4 * 1024"
definition RECORD_HEADER_MAGIC :: bytes where "RECORD_HEADER_MAGIC = [0x43, 0x52, 0x43, 0x44]"
definition RECORD_HEADER_CRC_OFFSET :: nat where "RECORD_HEADER_CRC_OFFSET = RECORD_HEADER_SIZE - 4"
definition RECORD_VERSION_OFFSET :: nat where "RECORD_VERSION_OFFSET = 4"
definition RECORD_KEY_LEN_OFFSET :: nat where "RECORD_KEY_LEN_OFFSET = 6"
definition RECORD_VALUE_LEN_OFFSET :: nat where "RECORD_VALUE_LEN_OFFSET = 8"
definition RECORD_SEQNO_OFFSET :: nat where "RECORD_SEQNO_OFFSET = 12"
definition RECORD_KEY_HASH_OFFSET :: nat where "RECORD_KEY_HASH_OFFSET = 20"
definition RECORD_PAYLOAD_CRC_OFFSET :: nat where "RECORD_PAYLOAD_CRC_OFFSET = 28"
definition RECORD_REGION_GENERATION_OFFSET :: nat where "RECORD_REGION_GENERATION_OFFSET = 32"
definition RECORD_LEN_OFFSET :: nat where "RECORD_LEN_OFFSET = 40"

lemmas record_consts = RECORD_FORMAT_VERSION_def RECORD_HEADER_SIZE_def
  RECORD_HEADER_CRC_OFFSET_def RECORD_VERSION_OFFSET_def RECORD_KEY_LEN_OFFSET_def
  RECORD_VALUE_LEN_OFFSET_def RECORD_SEQNO_OFFSET_def RECORD_KEY_HASH_OFFSET_def
  RECORD_PAYLOAD_CRC_OFFSET_def RECORD_REGION_GENERATION_OFFSET_def RECORD_LEN_OFFSET_def

section \<open>The record header\<close>

record record_header =
  hdr_key_len :: u16
  hdr_value_len :: u32
  hdr_seqno :: u64
  hdr_key_hash :: u64
  hdr_payload_crc :: u32
  hdr_region_generation :: u64
  hdr_record_len :: u32

text \<open>\<^verbatim>\<open>rounded & !(alignment - 1)\<close> on a 64-bit \<^verbatim>\<open>usize\<close>.\<close>

definition checked_align_up :: "nat \<Rightarrow> nat \<Rightarrow> nat option" where
  "checked_align_up value alignment =
     (if \<not> is_power_of_two alignment then None
      else do {
        below \<leftarrow> checked_sub alignment 1;
        rounded \<leftarrow> checked_add usize_max value below;
        Some (unat ((of_nat rounded :: u64) AND NOT (of_nat (alignment - 1))))
      })"

definition aligned_len :: "nat \<Rightarrow> nat \<Rightarrow> nat option" where
  "aligned_len key_len value_len = do {
     with_key \<leftarrow> checked_add usize_max RECORD_HEADER_SIZE key_len;
     unaligned \<leftarrow> checked_add usize_max with_key value_len;
     aligned \<leftarrow> checked_align_up unaligned RECORD_ALIGNMENT;
     try_from u32_max aligned
   }"

definition header_crc :: "crc_stream \<Rightarrow> bytes \<Rightarrow> u32 option" where
  "header_crc digest header = do {
     covered \<leftarrow> slice_at header 0 RECORD_HEADER_CRC_OFFSET;
     Some (crc32c digest [covered, replicate 4 0])
   }"

definition encode_header :: "crc_stream \<Rightarrow> record_header \<Rightarrow> bytes option" where
  "encode_header digest h = do {
     output \<leftarrow> write_range (replicate RECORD_HEADER_SIZE 0) 0 RECORD_HEADER_MAGIC;
     output \<leftarrow> put_u16 output RECORD_VERSION_OFFSET RECORD_FORMAT_VERSION;
     output \<leftarrow> put_u16 output RECORD_KEY_LEN_OFFSET (hdr_key_len h);
     output \<leftarrow> put_u32 output RECORD_VALUE_LEN_OFFSET (hdr_value_len h);
     output \<leftarrow> put_u64 output RECORD_SEQNO_OFFSET (hdr_seqno h);
     output \<leftarrow> put_u64 output RECORD_KEY_HASH_OFFSET (hdr_key_hash h);
     output \<leftarrow> put_u32 output RECORD_PAYLOAD_CRC_OFFSET (hdr_payload_crc h);
     output \<leftarrow> put_u64 output RECORD_REGION_GENERATION_OFFSET (hdr_region_generation h);
     output \<leftarrow> put_u32 output RECORD_LEN_OFFSET (hdr_record_len h);
     checksum \<leftarrow> header_crc digest output;
     put_u32 output RECORD_HEADER_CRC_OFFSET checksum
   }"

definition has_valid_lengths :: "record_header \<Rightarrow> bool" where
  "has_valid_lengths h =
     (let key_len = unat (hdr_key_len h); value_len = unat (hdr_value_len h) in
      if key_len > MAX_KEY_SIZE \<or> hdr_region_generation h = 0 \<or> hdr_seqno h = 0 then False
      else (case aligned_len key_len value_len of
              None \<Rightarrow> False
            | Some minimum \<Rightarrow> unat (hdr_record_len h) \<ge> minimum \<and> hdr_record_len h \<noteq> 0
                \<and> unat (hdr_record_len h) mod RECORD_ALIGNMENT = 0))"

definition decode_header :: "crc_stream \<Rightarrow> bytes \<Rightarrow> record_header option" where
  "decode_header digest input =
     (if length input \<noteq> RECORD_HEADER_SIZE then None
      else do {
        magic \<leftarrow> slice_at input 0 (length RECORD_HEADER_MAGIC);
        if magic \<noteq> RECORD_HEADER_MAGIC then None else do {
        version \<leftarrow> get_u16 input RECORD_VERSION_OFFSET;
        if version \<noteq> RECORD_FORMAT_VERSION then None else do {
        stored \<leftarrow> get_u32 input RECORD_HEADER_CRC_OFFSET;
        computed \<leftarrow> header_crc digest input;
        if stored \<noteq> computed then None else do {
        key_len \<leftarrow> get_u16 input RECORD_KEY_LEN_OFFSET;
        value_len \<leftarrow> get_u32 input RECORD_VALUE_LEN_OFFSET;
        seqno \<leftarrow> get_u64 input RECORD_SEQNO_OFFSET;
        key_hash \<leftarrow> get_u64 input RECORD_KEY_HASH_OFFSET;
        payload_crc \<leftarrow> get_u32 input RECORD_PAYLOAD_CRC_OFFSET;
        region_generation \<leftarrow> get_u64 input RECORD_REGION_GENERATION_OFFSET;
        record_len \<leftarrow> get_u32 input RECORD_LEN_OFFSET;
        let header = \<lparr>hdr_key_len = key_len, hdr_value_len = value_len, hdr_seqno = seqno,
          hdr_key_hash = key_hash, hdr_payload_crc = payload_crc,
          hdr_region_generation = region_generation, hdr_record_len = record_len\<rparr>;
        if \<not> has_valid_lengths header then None else Some header
      }}}})"

section \<open>Alignment\<close>

lemma and_not_mask_unat:
  fixes w :: u64 shows "unat (w AND NOT (mask k)) = unat w div 2 ^ k * 2 ^ k"
proof -
  have "w AND NOT (mask k) = push_bit k (drop_bit k w)"
    by (rule bit_word_eqI) (auto simp: bit_simps)
  also have "unat \<dots> = push_bit k (drop_bit k (unat w))"
    by (rule bit_eqI) (auto simp: bit_simps bit_unsigned_iff dest: bit_imp_le_length)
  finally show ?thesis by (simp add: push_bit_nat_def drop_bit_nat_def)
qed

lemma checked_align_up_32:
  "checked_align_up v 32 = (if v + 31 \<le> usize_max then Some ((v + 31) div 32 * 32) else None)"
proof -
  have p: "is_power_of_two 32" by (auto simp: is_power_of_two_iff intro: exI [of _ 5])
  have m: "(31 :: u64) = mask 5" by (simp add: mask_eq_exp_minus_1)
  show ?thesis
  proof (cases "v + 31 \<le> usize_max")
    case True
    then have "unat (of_nat (v + 31) :: u64) = v + 31"
      by (simp only: unat_of_nat) (simp add: num_bounds)
    with True p and_not_mask_unat [of "of_nat (v + 31)" 5] show ?thesis
      by (simp add: checked_align_up_def m checked_sub_def checked_add_def)
  qed (use p in \<open>simp add: checked_align_up_def checked_sub_def checked_add_def\<close>)
qed

lemma align_32:
  "n \<le> (n + 31) div 32 * 32" "(n + 31) div 32 * 32 < n + 32" for n :: nat
  by presburger+

lemma aligned_len_eq_Some:
  "aligned_len k v = Some m \<longleftrightarrow> m = (48 + k + v + 31) div 32 * 32 \<and> m \<le> u32_max"
proof -
  let ?n = "48 + k + v"
  have le: "79 + (k + v) \<le> usize_max" if "(79 + (k + v)) div 32 * 32 \<le> u32_max"
    using that align_32 [of ?n] by (simp add: num_bounds)
  show ?thesis
    by (auto simp: aligned_len_def RECORD_HEADER_SIZE_def RECORD_ALIGNMENT_def checked_align_up_32
        checked_add_def bind_eq_Some_conv dest: le)
qed

section \<open>The encoded bytes\<close>

lemma length_magic [simp]: "length RECORD_HEADER_MAGIC = 4"
  by (simp add: RECORD_HEADER_MAGIC_def)

text \<open>The header without its checksum, as the chain of field writes leaves it.\<close>

definition header_body :: "record_header \<Rightarrow> bytes" where
  "header_body h =
     overwrite (overwrite (overwrite (overwrite (overwrite (overwrite (overwrite (overwrite (overwrite
       (replicate 48 0) 0 [0x43, 0x52, 0x43, 0x44])
       4 (to_le 2 (1 :: u16))) 6 (to_le 2 (hdr_key_len h))) 8 (to_le 4 (hdr_value_len h)))
       12 (to_le 8 (hdr_seqno h))) 20 (to_le 8 (hdr_key_hash h))) 28 (to_le 4 (hdr_payload_crc h)))
       32 (to_le 8 (hdr_region_generation h))) 40 (to_le 4 (hdr_record_len h))"

lemma length_header_body [simp]: "length (header_body h) = 48"
  by (simp add: header_body_def)

lemma encode_header_eq:
  "encode_header digest h =
     Some (overwrite (header_body h) 44
       (to_le 4 (crc32c digest [take 44 (header_body h), replicate 4 0])))"
proof -
  have "header_crc digest (header_body h) = Some (crc32c digest [take 44 (header_body h), replicate 4 0])"
    by (simp add: header_crc_def record_consts slice_at_def)
  then show ?thesis
    unfolding encode_header_def record_consts RECORD_HEADER_MAGIC_def
    by (simp add: write_range_def f16.put_defined f32.put_defined f64.put_defined flip: header_body_def)
qed

lemma header_body_fields:
  "slice_at (header_body h) 0 4 = Some RECORD_HEADER_MAGIC"
  "get_u16 (header_body h) 4 = Some 1"
  "get_u16 (header_body h) 6 = Some (hdr_key_len h)"
  "get_u32 (header_body h) 8 = Some (hdr_value_len h)"
  "get_u64 (header_body h) 12 = Some (hdr_seqno h)"
  "get_u64 (header_body h) 20 = Some (hdr_key_hash h)"
  "get_u32 (header_body h) 28 = Some (hdr_payload_crc h)"
  "get_u64 (header_body h) 32 = Some (hdr_region_generation h)"
  "get_u32 (header_body h) 40 = Some (hdr_record_len h)"
  unfolding header_body_def
  by (simp_all add: field_simps_rw slice_overwrite_other usize_max_def RECORD_HEADER_MAGIC_def)

lemma decode_encode_header:
  assumes "encode_header digest h = Some bs"
  shows "decode_header digest bs = (if has_valid_lengths h then Some h else None)"
proof -
  let ?crc = "crc32c digest [take 44 (header_body h), replicate 4 0]"
  from assms have bs: "bs = overwrite (header_body h) 44 (to_le 4 ?crc)"
    by (simp add: encode_header_eq)
  have "header_crc digest bs = Some ?crc"
    by (simp add: header_crc_def record_consts slice_at_def bs)
  moreover have "get_u32 bs 44 = Some ?crc"
    by (simp add: bs f32.get_overwrite_same usize_max_def)
  moreover have "slice_at bs 0 4 = slice_at (header_body h) 0 4"
    "get_u16 bs 4 = get_u16 (header_body h) 4" "get_u16 bs 6 = get_u16 (header_body h) 6"
    "get_u32 bs 8 = get_u32 (header_body h) 8" "get_u64 bs 12 = get_u64 (header_body h) 12"
    "get_u64 bs 20 = get_u64 (header_body h) 20" "get_u32 bs 28 = get_u32 (header_body h) 28"
    "get_u64 bs 32 = get_u64 (header_body h) 32" "get_u32 bs 40 = get_u32 (header_body h) 40"
    by (simp_all add: bs field_simps_rw slice_overwrite_other)
  moreover have "length bs = 48" by (simp add: bs)
  ultimately show ?thesis
    unfolding decode_header_def
    by (cases h) (simp add: header_body_fields record_consts Let_def)
qed

text \<open>
  Conversely the accepted bytes are exactly the encoding of the decoded header: the fields tile
  the 48 bytes, so no byte of an accepted header is unchecked.
\<close>

lemma field_tiles:
  assumes "length bs = 48"
  shows "bs = take 4 bs @ take 2 (drop 4 bs) @ take 2 (drop 6 bs) @ take 4 (drop 8 bs)
    @ take 8 (drop 12 bs) @ take 8 (drop 20 bs) @ take 4 (drop 28 bs) @ take 8 (drop 32 bs)
    @ take 4 (drop 40 bs) @ drop 44 bs"
proof -
  have split: "drop a bs = take n (drop a bs) @ drop (a + n) bs" for a n
    by (metis add.commute append_take_drop_id drop_drop)
  show ?thesis
    using split [of 0 4] split [of 4 2] split [of 6 2] split [of 8 4] split [of 12 8] split [of 20 8]
      split [of 28 4] split [of 32 8] split [of 40 4] by simp
qed

lemma header_body_concat:
  "header_body h = RECORD_HEADER_MAGIC @ to_le 2 (1 :: u16) @ to_le 2 (hdr_key_len h)
     @ to_le 4 (hdr_value_len h) @ to_le 8 (hdr_seqno h) @ to_le 8 (hdr_key_hash h)
     @ to_le 4 (hdr_payload_crc h) @ to_le 8 (hdr_region_generation h) @ to_le 4 (hdr_record_len h)
     @ replicate 4 0"
  by (simp add: header_body_def overwrite_def RECORD_HEADER_MAGIC_def)

lemma get_u16_bytes:
  "get_u16 bs off = Some v \<Longrightarrow> take 2 (drop off bs) = to_le 2 v \<and> off + 2 \<le> length bs"
  by (auto simp: get_u16_def slice_at_def bind_eq_Some_conv to_le_from_le split: if_splits)

lemma get_u32_bytes:
  "get_u32 bs off = Some v \<Longrightarrow> take 4 (drop off bs) = to_le 4 v \<and> off + 4 \<le> length bs"
  by (auto simp: get_u32_def slice_at_def bind_eq_Some_conv to_le_from_le split: if_splits)

lemma get_u64_bytes:
  "get_u64 bs off = Some v \<Longrightarrow> take 8 (drop off bs) = to_le 8 v \<and> off + 8 \<le> length bs"
  by (auto simp: get_u64_def slice_at_def bind_eq_Some_conv to_le_from_le split: if_splits)

lemma decode_header_fields:
  assumes "decode_header digest bs = Some h"
  shows "length bs = 48" "take 4 bs = RECORD_HEADER_MAGIC" "get_u16 bs 4 = Some 1"
    "get_u32 bs 44 = Some (crc32c digest [take 44 bs, replicate 4 0])"
    "get_u16 bs 6 = Some (hdr_key_len h)" "get_u32 bs 8 = Some (hdr_value_len h)"
    "get_u64 bs 12 = Some (hdr_seqno h)" "get_u64 bs 20 = Some (hdr_key_hash h)"
    "get_u32 bs 28 = Some (hdr_payload_crc h)" "get_u64 bs 32 = Some (hdr_region_generation h)"
    "get_u32 bs 40 = Some (hdr_record_len h)" "has_valid_lengths h"
  using assms
  by (auto simp: decode_header_def header_crc_def record_consts slice_at_def Let_def
      bind_eq_Some_conv split: if_splits)

lemma encode_decode_header:
  assumes "decode_header digest bs = Some h" shows "encode_header digest h = Some bs"
proof -
  note f = decode_header_fields [OF assms]
  let ?body = "RECORD_HEADER_MAGIC @ to_le 2 (1 :: u16) @ to_le 2 (hdr_key_len h)
     @ to_le 4 (hdr_value_len h) @ to_le 8 (hdr_seqno h) @ to_le 8 (hdr_key_hash h)
     @ to_le 4 (hdr_payload_crc h) @ to_le 8 (hdr_region_generation h) @ to_le 4 (hdr_record_len h)"
  have len: "length ?body = 44" by simp
  have bs: "bs = ?body @ drop 44 bs"
    using field_tiles [OF f(1)] f(2) get_u16_bytes [OF f(3)] get_u16_bytes [OF f(5)]
      get_u32_bytes [OF f(6)] get_u64_bytes [OF f(7)] get_u64_bytes [OF f(8)]
      get_u32_bytes [OF f(9)] get_u64_bytes [OF f(10)] get_u32_bytes [OF f(11)] by simp
  have "take 44 bs = ?body" by (subst bs) simp
  moreover have "drop 44 bs = to_le 4 (crc32c digest [take 44 bs, replicate 4 0])"
    using get_u32_bytes [OF f(4)] f(1) by simp
  moreover have "header_body h = ?body @ replicate 4 0" by (simp add: header_body_concat)
  ultimately show ?thesis
    using bs len by (simp add: encode_header_eq overwrite_def del: append_assoc)
qed

section \<open>Properties\<close>

text \<open>
  C35 (roundtrip): the bytes \<^verbatim>\<open>RecordHeader::decode\<close> accepts as a header are exactly the bytes
  \<^verbatim>\<open>RecordHeader::encode\<close> produces for it, and only headers with valid lengths, sequence number
  and generation are accepted, whatever checksum function is used; encoding never panics.
\<close>
theorem record_header_codec:
  "(decode_header digest bs = Some h \<longleftrightarrow> encode_header digest h = Some bs \<and> has_valid_lengths h)
   \<and> (\<exists>out. encode_header digest h = Some out \<and> length out = RECORD_HEADER_SIZE)"
  using encode_decode_header [of digest bs h] decode_encode_header [of digest h bs]
    decode_header_fields(12) [of digest bs h]
  by (auto simp: encode_header_eq RECORD_HEADER_SIZE_def)

text \<open>
  \<^verbatim>\<open>RecordHeader::aligned_len\<close> returns the least multiple of 32 that holds the
  header, key and value, and fails exactly when that does not fit 32 bits.
\<close>
theorem aligned_len_least:
  "aligned_len k v = Some m \<longleftrightarrow>
     m \<le> u32_max \<and> m mod RECORD_ALIGNMENT = 0 \<and> RECORD_HEADER_SIZE + k + v \<le> m
     \<and> m < RECORD_HEADER_SIZE + k + v + RECORD_ALIGNMENT"
proof -
  have "m = (n + 31) div 32 * 32" if "m mod 32 = 0" "n \<le> m" "m < n + 32" for n
  proof -
    from that(1) obtain j where j: "m = 32 * j" by auto
    have "(n + 31) div 32 = j" using that j by (intro div_nat_eqI) simp_all
    with j show ?thesis by simp
  qed
  from this [of "48 + k + v"] align_32 [of "48 + k + v"] show ?thesis
    unfolding aligned_len_eq_Some RECORD_ALIGNMENT_def RECORD_HEADER_SIZE_def by auto
qed

end
