(* ===== verification/Index_Layout.thy ===== *)
theory Index_Layout
  imports Packed
begin

text \<open>
  The fixed geometry of the index image in \<^verbatim>\<open>cache2/src/region/index/storage/mod.rs\<close> (lines
  40 to 243 and 1662 to 1690): errors, pages, and the canonical directory of page-aligned
  partitions. The main result, \<open>canonical_ranges_correct\<close>, says that the directory exists for
  every representable slot count and tiles the image: pages and slots of consecutive partitions
  are adjacent, and no partition is smaller than one candidate window.

  \<^verbatim>\<open>try_reserve_exact\<close> can fail at any time; \<open>allocator\<close> says for which element counts it
  succeeds.
\<close>

section \<open>Errors\<close>

type_synonym allocator = "nat \<Rightarrow> bool"

datatype io_error_kind = OutOfMemory | InvalidInput | InvalidData | WouldBlockKind | TimedOut | Interrupted
  | BrokenPipe | UnexpectedEof | OtherIo
datatype io_error = IoError io_error_kind string

datatype index_slot_semantic_error =
    NonCanonicalMarker | InvalidLocation packed_location_error

datatype corrupt_page_reason =
    InvalidMagic
  | UnsupportedVersion u16
  | InvalidHeaderSize u16
  | InvalidSlotSize u16
  | InvalidSlotsPerPage u16
  | WrongPageIndex u64 u64
  | WrongFirstSlot u64 u64
  | WrongValidSlotCount u32 u32
  | UnsupportedFlags u32
  | WrongGeneration u64 u64
  | WrongImageTag u64 u64
  | ReservedBytesNonZero
  | ChecksumMismatch u32 u32
  | PreviouslyRejected

datatype index_storage_error =
    Io io_error
  | InvalidArgument string
  | InvalidSlot index_slot_semantic_error
  | SizeOverflow
  | SlotOutOfBounds nat nat
  | PageOutOfBounds nat nat
  | PageBusy nat
  | PartitionBusy nat
  | PartitionPoisoned nat
  | CorruptPage nat corrupt_page_reason
  | CorruptSlot nat index_slot_semantic_error
  | InvalidPhysicalStats

section \<open>Pages and partitions\<close>

definition INDEX_IMAGE_PAGE_SIZE :: nat where "INDEX_IMAGE_PAGE_SIZE = 4096"
definition INDEX_IMAGE_PAGE_HEADER_SIZE :: nat where "INDEX_IMAGE_PAGE_HEADER_SIZE = 64"
definition INDEX_IMAGE_SLOT_SIZE :: nat where "INDEX_IMAGE_SLOT_SIZE = 8"
definition INDEX_IMAGE_SLOTS_PER_PAGE :: nat where
  "INDEX_IMAGE_SLOTS_PER_PAGE =
     (INDEX_IMAGE_PAGE_SIZE - INDEX_IMAGE_PAGE_HEADER_SIZE) div INDEX_IMAGE_SLOT_SIZE"

lemma slots_per_page: "INDEX_IMAGE_SLOTS_PER_PAGE = 504"
  by (simp add: INDEX_IMAGE_SLOTS_PER_PAGE_def INDEX_IMAGE_PAGE_SIZE_def
      INDEX_IMAGE_PAGE_HEADER_SIZE_def INDEX_IMAGE_SLOT_SIZE_def)

lemmas image_sizes = slots_per_page INDEX_IMAGE_PAGE_SIZE_def INDEX_IMAGE_PAGE_HEADER_SIZE_def
  INDEX_IMAGE_SLOT_SIZE_def

record image_layout =
  layout_page_count :: nat
  layout_image_len :: nat

definition image_layout_new :: "nat \<Rightarrow> index_storage_error + image_layout" where
  "image_layout_new slot_count =
     (if slot_count = 0 then Inl (InvalidArgument ''index storage requires at least one slot'')
      else bind_result (ok_or SizeOverflow (checked_add usize_max slot_count (INDEX_IMAGE_SLOTS_PER_PAGE - 1)))
        (\<lambda>rounded. let page_count = rounded div INDEX_IMAGE_SLOTS_PER_PAGE in
          bind_result (ok_or SizeOverflow (checked_mul usize_max page_count INDEX_IMAGE_PAGE_SIZE))
            (\<lambda>image_len. if image_len > isize_max then Inl SizeOverflow
               else Inr \<lparr>layout_page_count = page_count, layout_image_len = image_len\<rparr>)))"

record index_partition_range =
  partition_id :: nat
  first_page :: nat
  page_count :: nat
  first_slot :: nat
  slot_count :: nat

definition range_global_slot :: "index_partition_range \<Rightarrow> nat \<Rightarrow> index_storage_error + nat" where
  "range_global_slot r slot =
     (if slot \<ge> slot_count r then Inl (SlotOutOfBounds slot (slot_count r))
      else ok_or SizeOverflow (checked_add usize_max (first_slot r) slot))"

definition validated_index_image_layout :: "nat \<Rightarrow> index_storage_error + image_layout" where
  "validated_index_image_layout slots =
     (if slots < INDEX_CANDIDATES
      then Inl (InvalidArgument ''partitioned index storage requires at least 4 buckets'')
      else image_layout_new slots)"

definition greatest_power_of_two :: "nat \<Rightarrow> nat" where
  "greatest_power_of_two limit = 2 ^ (64 - 1 - leading_zeros 64 limit)"

definition final_partition_slots :: "nat \<Rightarrow> nat \<Rightarrow> nat \<Rightarrow> index_storage_error + nat" where
  "final_partition_slots slots pages partition_count =
     (let base_pages = pages div partition_count;
          extra_pages = pages mod partition_count;
          final_pages = base_pages + (if extra_pages \<noteq> 0 then 1 else 0)
      in bind_result (ok_or SizeOverflow (checked_sub pages final_pages)) (\<lambda>first_page.
         bind_result (ok_or SizeOverflow (checked_mul usize_max first_page INDEX_IMAGE_SLOTS_PER_PAGE))
           (\<lambda>first_slot. ok_or SizeOverflow (checked_sub slots first_slot))))"

text \<open>The loop that halves the partition count while the final partition is too small.\<close>

fun shrink_partition_count :: "nat \<Rightarrow> nat \<Rightarrow> nat \<Rightarrow> index_storage_error + nat" where
  "shrink_partition_count slots pages n =
     (if n > 1 then
        (case final_partition_slots slots pages n of
           Inl e \<Rightarrow> Inl e
         | Inr final \<Rightarrow> if final < INDEX_CANDIDATES then shrink_partition_count slots pages (n div 2) else Inr n)
      else Inr n)"

declare shrink_partition_count.simps [simp del]

text \<open>The loop over partition ids that pushes one range per iteration.\<close>

function build_partition_ranges ::
    "nat \<Rightarrow> nat \<Rightarrow> nat \<Rightarrow> nat \<Rightarrow> nat \<Rightarrow> nat \<Rightarrow> index_storage_error + index_partition_range list" where
  "build_partition_ranges slots base_pages first_extra partition_count pid first =
     (if pid < partition_count then
        (let pages = base_pages + (if pid \<ge> first_extra then 1 else 0) in
         bind_result (ok_or SizeOverflow (checked_mul usize_max first INDEX_IMAGE_SLOTS_PER_PAGE)) (\<lambda>fslot.
         bind_result (ok_or SizeOverflow (checked_mul usize_max pages INDEX_IMAGE_SLOTS_PER_PAGE)) (\<lambda>range_capacity.
         bind_result (ok_or SizeOverflow (checked_sub slots fslot)) (\<lambda>slots_remaining.
         let range_slot_count = min slots_remaining range_capacity in
         if pages = 0 \<or> range_slot_count < INDEX_CANDIDATES
         then Inl (InvalidArgument ''canonical index partition contains fewer than 4 buckets'')
         else bind_result (ok_or SizeOverflow (checked_add usize_max first pages)) (\<lambda>next_first.
              bind_result (build_partition_ranges slots base_pages first_extra partition_count
                             (Suc pid) next_first) (\<lambda>rest.
              Inr (\<lparr>partition_id = pid, first_page = first, page_count = pages,
                    first_slot = fslot, slot_count = range_slot_count\<rparr> # rest)))))))
      else Inr [])"
  by pat_completeness auto
termination
  by (relation "measure (\<lambda>(slots, base, fe, n, pid, first). n - pid)") auto

declare build_partition_ranges.simps [simp del]

definition canonical_index_partition_ranges ::
    "allocator \<Rightarrow> nat \<Rightarrow> index_storage_error + index_partition_range list" where
  "canonical_index_partition_ranges alloc slots =
     bind_result (validated_index_image_layout slots) (\<lambda>layout.
     let maximum = min (layout_page_count layout) MAX_INDEX_PARTITIONS in
     bind_result (shrink_partition_count slots (layout_page_count layout) (greatest_power_of_two maximum))
       (\<lambda>partition_count.
        let base_pages = layout_page_count layout div partition_count;
            extra_pages = layout_page_count layout mod partition_count;
            first_extra = partition_count - extra_pages
        in if \<not> alloc partition_count
           then Inl (Io (IoError OutOfMemory ''unable to allocate canonical index partition directory''))
           else build_partition_ranges slots base_pages first_extra partition_count 0 0))"

definition validated_index_partition_ranges ::
    "allocator \<Rightarrow> nat \<Rightarrow> index_storage_error + index_partition_range list" where
  "validated_index_partition_ranges alloc slots =
     bind_result (canonical_index_partition_ranges alloc slots) (\<lambda>ranges.
       if list_ex (\<lambda>r. slot_count r > u32_max) ranges
       then Inl (InvalidArgument ''index partition exceeds the v1 recovery counter'')
       else Inr ranges)"

section \<open>What a well-formed directory is\<close>

fun tiles :: "nat \<Rightarrow> nat \<Rightarrow> nat \<Rightarrow> index_partition_range list \<Rightarrow> nat \<Rightarrow> nat \<Rightarrow> bool" where
  "tiles pid page slot [] pages slots \<longleftrightarrow> page = pages \<and> slot = slots"
| "tiles pid page slot (r # rs) pages slots \<longleftrightarrow>
     partition_id r = pid \<and> first_page r = page \<and> first_slot r = slot
     \<and> first_slot r = first_page r * INDEX_IMAGE_SLOTS_PER_PAGE
     \<and> 1 \<le> page_count r \<and> INDEX_CANDIDATES \<le> slot_count r
     \<and> slot_count r \<le> page_count r * INDEX_IMAGE_SLOTS_PER_PAGE
     \<and> tiles (Suc pid) (page + page_count r) (slot + slot_count r) rs pages slots"

section \<open>The layout exists\<close>

definition representable_slots :: "nat \<Rightarrow> bool" where
  "representable_slots slots \<longleftrightarrow> 4 \<le> slots \<and> (slots + 503) div 504 * 4096 \<le> isize_max"

lemma page_round_up:
  fixes n :: nat
  shows "n \<le> (n + 503) div 504 * 504" and "(n + 503) div 504 * 504 \<le> n + 503"
proof -
  have "(n + 503) div 504 * 504 + (n + 503) mod 504 = n + 503" by (rule div_mult_mod_eq)
  moreover have "(n + 503) mod 504 < 504" by simp
  ultimately show "n \<le> (n + 503) div 504 * 504" "(n + 503) div 504 * 504 \<le> n + 503"
    by linarith+
qed

lemma image_layout_new_eq:
  assumes "representable_slots slots"
  shows "image_layout_new slots =
    Inr \<lparr>layout_page_count = (slots + 503) div 504, layout_image_len = (slots + 503) div 504 * 4096\<rparr>"
proof -
  let ?p = "(slots + 503) div 504"
  have "slots \<le> ?p * 504" by (rule page_round_up)
  moreover have "?p * 4096 \<le> isize_max" "slots \<noteq> 0" using assms by (auto simp: representable_slots_def)
  ultimately have "slots + 503 \<le> usize_max" "?p * 4096 \<le> usize_max" "\<not> isize_max < ?p * 4096"
    by (simp_all add: num_bounds)
  with \<open>slots \<noteq> 0\<close> show ?thesis
    by (simp add: image_layout_new_def image_sizes checked_add_def checked_mul_def Let_def)
qed

lemma pages_bounds:
  assumes "representable_slots slots" and "pages = (slots + 503) div 504"
  shows "1 \<le> pages" "(pages - 1) * 504 < slots" "slots \<le> pages * 504" "pages * 504 \<le> usize_max"
proof -
  from assms have s: "4 \<le> slots" "pages * 4096 \<le> isize_max" by (auto simp: representable_slots_def)
  have r: "slots \<le> pages * 504" "pages * 504 \<le> slots + 503"
    using page_round_up [of slots] assms(2) by simp_all
  with s(1) show "1 \<le> pages" "slots \<le> pages * 504" by (cases pages; simp)+
  then show "(pages - 1) * 504 < slots" using r by (simp add: diff_mult_distrib)
  show "pages * 504 \<le> usize_max" using s(2) by (simp add: num_bounds)
qed

lemma greatest_power_of_two_eq:
  assumes "0 < n" "n < 2 ^ 64"
  shows "is_power_of_two (greatest_power_of_two n)" "1 \<le> greatest_power_of_two n"
    "greatest_power_of_two n \<le> n"
proof -
  have "greatest_power_of_two n = 2 ^ ilog2 n"
    using leading_zeros_ilog2 [OF assms] by (simp add: greatest_power_of_two_def)
  then show "is_power_of_two (greatest_power_of_two n)" "1 \<le> greatest_power_of_two n"
    "greatest_power_of_two n \<le> n"
    using ilog2_bounds [OF assms(1)] by (auto simp: is_power_of_two_iff)
qed

lemma final_pages_le:
  fixes pages n :: nat assumes "1 \<le> n" "n \<le> pages"
  shows "1 \<le> pages div n" and "pages div n + (if pages mod n \<noteq> 0 then 1 else 0) \<le> pages"
proof -
  show d: "1 \<le> pages div n" using assms div_le_mono [of n pages n] by simp
  show "pages div n + (if pages mod n \<noteq> 0 then 1 else 0) \<le> pages"
  proof (cases "pages mod n = 0")
    case False
    then have "n \<noteq> 1" by auto
    with assms have "2 \<le> n" by simp
    then have "pages div n * 2 \<le> pages div n * n" by simp
    also have "\<dots> \<le> pages" by simp
    finally show ?thesis using d by (simp split: if_split)
  qed simp
qed

lemma final_partition_slots_eq:
  assumes rep: "representable_slots slots" and pages: "pages = (slots + 503) div 504"
    and n: "1 \<le> n" "n \<le> pages"
  defines "final_pages \<equiv> pages div n + (if pages mod n \<noteq> 0 then 1 else 0)"
  shows "final_partition_slots slots pages n = Inr (slots - (pages - final_pages) * 504)"
    and "(pages - final_pages) * 504 < slots"
proof -
  note pb = pages_bounds [OF rep pages]
  have fp: "1 \<le> final_pages" "final_pages \<le> pages"
    using final_pages_le [OF n] by (auto simp: final_pages_def)
  then have "(pages - final_pages) * 504 \<le> (pages - 1) * 504" by simp
  with pb show lt: "(pages - final_pages) * 504 < slots" by linarith
  moreover have "(pages - final_pages) * 504 \<le> usize_max" using pb fp by simp
  ultimately show "final_partition_slots slots pages n = Inr (slots - (pages - final_pages) * 504)"
    using fp unfolding final_partition_slots_def Let_def slots_per_page final_pages_def [symmetric]
    by (simp add: checked_sub_def checked_mul_def)
qed

lemma is_power_of_two_half: "is_power_of_two n \<Longrightarrow> 1 < n \<Longrightarrow> is_power_of_two (n div 2)"
proof -
  assume "is_power_of_two n" "1 < n"
  then obtain k where k: "n = 2 ^ k" by (auto simp: is_power_of_two_iff)
  with \<open>1 < n\<close> obtain j where "k = Suc j" by (cases k) auto
  with k show ?thesis by (auto simp: is_power_of_two_iff)
qed

text \<open>The halving loop ends with a power of two whose final partition is large enough.\<close>

lemma shrink_partition_count_ok:
  assumes rep: "representable_slots slots" and pages: "pages = (slots + 503) div 504"
  shows "is_power_of_two n \<Longrightarrow> n \<le> pages \<Longrightarrow> n \<le> mx \<Longrightarrow>
    \<exists>m. shrink_partition_count slots pages n = Inr m \<and> is_power_of_two m \<and> 1 \<le> m \<and> m \<le> pages
      \<and> m \<le> mx \<and> (m = 1 \<or> (\<exists>k. final_partition_slots slots pages m = Inr k \<and> 4 \<le> k))"
proof (induction n rule: less_induct)
  case (less n)
  have n: "1 \<le> n" using less.prems(1) by (auto simp: is_power_of_two_def)
  obtain k where k: "final_partition_slots slots pages n = Inr k"
    using final_partition_slots_eq(1) [OF rep pages n less.prems(2)] by blast
  show ?case
  proof (cases "1 < n \<and> k < 4")
    case True
    then have "n div 2 < n" by simp
    moreover have "is_power_of_two (n div 2)" using True less.prems(1) by (auto intro: is_power_of_two_half)
    ultimately show ?thesis
      using less.IH [of "n div 2"] less.prems k True
      by (simp add: shrink_partition_count.simps [of slots pages n] INDEX_CANDIDATES_def)
  next
    case False
    with k n less.prems show ?thesis
      by (auto simp: shrink_partition_count.simps [of slots pages n] INDEX_CANDIDATES_def)
  qed
qed

section \<open>The ranges tile the image\<close>

lemma build_partition_ranges_tiles:
  assumes rep: "representable_slots slots" and pages: "pages = (slots + 503) div 504"
    and n: "1 \<le> n" "n \<le> pages"
    and final: "final_partition_slots slots pages n = Inr k" "4 \<le> k"
  defines "base \<equiv> pages div n" and "fe \<equiv> n - pages mod n"
  shows "pid \<le> n \<Longrightarrow> first = pid * base + (pid - fe) \<Longrightarrow>
    \<exists>rs. build_partition_ranges slots base fe n pid first = Inr rs \<and> length rs = n - pid
      \<and> tiles pid first (if pid < n then first * 504 else slots) rs pages slots"
proof (induction "n - pid" arbitrary: pid first)
  case 0
  then have "pid = n" by simp
  moreover have "n * base + (n - fe) = pages"
    using n mod_less_divisor [of n pages] by (simp add: base_def fe_def mult.commute)
  ultimately show ?case using "0.prems" by (simp add: build_partition_ranges.simps)
next
  case (Suc d)
  then have pid: "pid < n" by simp
  note pb = pages_bounds [OF rep pages]
  define here where "here = base + (if fe \<le> pid then 1 else 0)"
  define first' where "first' = first + here"
  have base: "1 \<le> base" using final_pages_le(1) [OF n] by (simp add: base_def)
  have total: "n * base + (n - fe) = pages"
    using n mod_less_divisor [of n pages] by (simp add: base_def fe_def mult.commute)
  have first': "first' = Suc pid * base + (Suc pid - fe)"
    using Suc.prems(2) by (auto simp: first'_def here_def Suc_diff_le)
  have le: "first' \<le> pages"
  proof -
    have "Suc pid * base \<le> n * base" "Suc pid - fe \<le> n - fe"
      using pid by (auto intro!: mult_le_mono1 diff_le_mono simp del: mult_Suc)
    then show ?thesis using first' total by linarith
  qed
  have small: "first * 504 \<le> usize_max" "here * 504 \<le> usize_max" "first + here \<le> usize_max"
    using le pb(4) by (simp_all add: first'_def)
  let ?count = "min (slots - first * 504) (here * 504)"
  have count: "first * 504 \<le> slots \<and> 4 \<le> ?count
      \<and> first * 504 + ?count = (if Suc pid < n then first' * 504 else slots)"
  proof (cases "Suc pid < n")
    case True
    have "Suc (Suc pid) * base \<le> n * base" "Suc (Suc pid) - fe \<le> n - fe"
      using True by (auto intro!: mult_le_mono1 diff_le_mono simp del: mult_Suc)
    then have "first' + 1 \<le> pages" using first' total base by simp
    then have "first' * 504 \<le> (pages - 1) * 504" by simp
    with pb(2) have "first' * 504 < slots" by linarith
    with True base show ?thesis by (auto simp: first'_def here_def add_mult_distrib)
  next
    case False
    with pid have last: "Suc pid = n" by simp
    with first' total have "first' = pages" by simp
    moreover have "here = pages div n + (if pages mod n \<noteq> 0 then 1 else 0)"
      using last n by (auto simp: here_def base_def fe_def)
    ultimately have first: "first = pages - (pages div n + (if pages mod n \<noteq> 0 then 1 else 0))"
      and "first + here = pages" by (simp_all add: first'_def)
    then have kf: "k = slots - first * 504" "first * 504 < slots"
      using final_partition_slots_eq [OF rep pages n] final(1) by simp_all
    have "pages * 504 = first * 504 + here * 504"
      using \<open>first + here = pages\<close> by (simp flip: add_mult_distrib)
    with pb(3) have "?count = slots - first * 504" by linarith
    with kf final(2) last show ?thesis by simp
  qed
  obtain rs where rs: "build_partition_ranges slots base fe n (Suc pid) first' = Inr rs"
    "length rs = n - Suc pid"
    "tiles (Suc pid) first' (if Suc pid < n then first' * 504 else slots) rs pages slots"
    using Suc.hyps(1) [OF _ _ first'] Suc.hyps(2) pid by fastforce
  show ?case
    using pid small count rs base
    by (simp add: build_partition_ranges.simps [of slots base fe n pid first] Let_def slots_per_page
        checked_mul_def checked_add_def checked_sub_def INDEX_CANDIDATES_def first'_def
        flip: here_def) linarith
qed

lemma final_partition_slots_one:
  assumes "representable_slots slots" and "pages = (slots + 503) div 504"
  shows "final_partition_slots slots pages 1 = Inr slots"
  using final_partition_slots_eq(1) [OF assms, of 1] pages_bounds(1) [OF assms] by simp

text \<open>
  The directory is built for every representable slot count; the only failure left is the
  allocation of the directory itself.
\<close>

lemma canonical_ranges_ok:
  assumes rep: "representable_slots slots" and alloc: "\<And>n. n \<le> MAX_INDEX_PARTITIONS \<Longrightarrow> alloc n"
  obtains rs where "canonical_index_partition_ranges alloc slots = Inr rs"
    "tiles 0 0 0 rs ((slots + 503) div 504) slots"
    "is_power_of_two (length rs)" "length rs \<le> MAX_INDEX_PARTITIONS" "length rs \<le> (slots + 503) div 504"
proof -
  define pages where "pages = (slots + 503) div 504"
  note pb = pages_bounds [OF rep pages_def]
  let ?mx = "min pages MAX_INDEX_PARTITIONS"
  have mx: "0 < ?mx" "?mx < 2 ^ 64" using pb(1) by (simp_all add: MAX_INDEX_PARTITIONS_def)
  have g: "is_power_of_two (greatest_power_of_two ?mx)" "greatest_power_of_two ?mx \<le> ?mx"
    using greatest_power_of_two_eq [OF mx] by blast+
  then obtain n where n: "shrink_partition_count slots pages (greatest_power_of_two ?mx) = Inr n"
    "is_power_of_two n" "1 \<le> n" "n \<le> pages" "n \<le> ?mx"
    "n = 1 \<or> (\<exists>k. final_partition_slots slots pages n = Inr k \<and> 4 \<le> k)"
    using shrink_partition_count_ok [OF rep pages_def g(1), of ?mx] by auto
  have "4 \<le> slots" using rep by (simp add: representable_slots_def)
  then obtain k where k: "final_partition_slots slots pages n = Inr k" "4 \<le> k"
    using n(6) final_partition_slots_one [OF rep pages_def] by auto
  obtain rs where rs: "build_partition_ranges slots (pages div n) (n - pages mod n) n 0 0 = Inr rs"
    "length rs = n" "tiles 0 0 0 rs pages slots"
    using build_partition_ranges_tiles [OF rep pages_def n(3,4) k, of 0 0] n(3) by auto
  have "validated_index_image_layout slots =
      Inr \<lparr>layout_page_count = pages, layout_image_len = pages * 4096\<rparr>"
    using image_layout_new_eq [OF rep] \<open>4 \<le> slots\<close>
    by (simp add: validated_index_image_layout_def INDEX_CANDIDATES_def pages_def)
  then have "canonical_index_partition_ranges alloc slots = Inr rs"
    using n rs alloc by (simp add: canonical_index_partition_ranges_def Let_def)
  with rs n that show ?thesis unfolding pages_def by simp
qed

text \<open>Facts about a tiling that its clients use.\<close>

lemma tiles_nth:
  assumes "tiles pid page slot rs pages slots" "i < length rs"
  shows "partition_id (rs ! i) = pid + i" "INDEX_CANDIDATES \<le> slot_count (rs ! i)"
    "first_slot (rs ! i) = first_page (rs ! i) * INDEX_IMAGE_SLOTS_PER_PAGE"
    "slot_count (rs ! i) \<le> page_count (rs ! i) * INDEX_IMAGE_SLOTS_PER_PAGE"
    "slot \<le> first_slot (rs ! i)" "first_slot (rs ! i) + slot_count (rs ! i) \<le> slots"
    "page \<le> first_page (rs ! i)" "first_page (rs ! i) + page_count (rs ! i) \<le> pages"
proof -
  have "tiles pid page slot rs pages slots \<Longrightarrow> slot \<le> slots \<and> page \<le> pages" for pid page slot rs
    by (induction pid page slot rs pages slots rule: tiles.induct) auto
  then have "\<And>i. i < length rs \<Longrightarrow> partition_id (rs ! i) = pid + i \<and> INDEX_CANDIDATES \<le> slot_count (rs ! i)
    \<and> first_slot (rs ! i) = first_page (rs ! i) * INDEX_IMAGE_SLOTS_PER_PAGE
    \<and> slot_count (rs ! i) \<le> page_count (rs ! i) * INDEX_IMAGE_SLOTS_PER_PAGE
    \<and> slot \<le> first_slot (rs ! i) \<and> first_slot (rs ! i) + slot_count (rs ! i) \<le> slots
    \<and> page \<le> first_page (rs ! i) \<and> first_page (rs ! i) + page_count (rs ! i) \<le> pages"
    using assms(1)
  proof (induction pid page slot rs pages slots rule: tiles.induct)
    case (2 pid page slot r rs pages slots)
    then show ?case by (cases i) fastforce+
  qed simp
  with assms(2) show "partition_id (rs ! i) = pid + i" "INDEX_CANDIDATES \<le> slot_count (rs ! i)"
    "first_slot (rs ! i) = first_page (rs ! i) * INDEX_IMAGE_SLOTS_PER_PAGE"
    "slot_count (rs ! i) \<le> page_count (rs ! i) * INDEX_IMAGE_SLOTS_PER_PAGE"
    "slot \<le> first_slot (rs ! i)" "first_slot (rs ! i) + slot_count (rs ! i) \<le> slots"
    "page \<le> first_page (rs ! i)" "first_page (rs ! i) + page_count (rs ! i) \<le> pages"
    by blast+
qed

text \<open>Every slot belongs to exactly one partition.\<close>

lemma tiles_unique_owner:
  assumes "tiles pid page slot rs pages slots" "slot \<le> g" "g < slots"
  shows "\<exists>!i. i < length rs \<and> first_slot (rs ! i) \<le> g \<and> g < first_slot (rs ! i) + slot_count (rs ! i)"
  using assms
proof (induction pid page slot rs pages slots rule: tiles.induct)
  case (2 pid page slot r rs pages slots)
  show ?case
  proof (cases "g < slot + slot_count r")
    case True
    have "\<not> first_slot (rs ! j) \<le> g" if "j < length rs" for j
      using tiles_nth(5) [of _ _ _ rs _ _ j] that True "2.prems"(1) by fastforce
    with True "2.prems" show ?thesis
      by (intro ex1I [of _ 0]) (auto simp: nth_Cons split: nat.splits)
  next
    case False
    let ?own = "\<lambda>rs i. i < length rs \<and> first_slot (rs ! i) \<le> g
      \<and> g < first_slot (rs ! i) + slot_count (rs ! i)"
    have "\<exists>!i. ?own rs i" using "2.IH" "2.prems" False by simp
    then obtain i where i: "?own rs i" and unique: "\<And>j. ?own rs j \<Longrightarrow> j = i" by (rule ex1E) blast
    show ?thesis
    proof (rule ex1I [of _ "Suc i"])
      show "?own (r # rs) (Suc i)" using i by simp
      fix j assume j: "?own (r # rs) j"
      with False "2.prems"(1) obtain k where "j = Suc k" by (cases j) auto
      with j unique [of k] show "j = Suc i" by simp
    qed
  qed
qed simp

section \<open>Properties\<close>

text \<open>
  C36 (functional): for every slot count whose image fits the address space, the canonical
  partition directory is built (unless the allocation of the directory itself fails): a power of
  two of at most 4096 page-aligned partitions that tile all pages and slots in order, each with at
  least one candidate window, so that every slot is owned by exactly one partition.
\<close>
theorem canonical_ranges_correct:
  assumes "representable_slots slots" "\<And>n. n \<le> MAX_INDEX_PARTITIONS \<Longrightarrow> alloc n"
  shows "\<exists>rs. canonical_index_partition_ranges alloc slots = Inr rs
     \<and> tiles 0 0 0 rs ((slots + 503) div 504) slots
     \<and> is_power_of_two (length rs) \<and> length rs \<le> MAX_INDEX_PARTITIONS
     \<and> (\<forall>g < slots. \<exists>!i. i < length rs \<and> first_slot (rs ! i) \<le> g
           \<and> g < first_slot (rs ! i) + slot_count (rs ! i))"
proof -
  from assms obtain rs where rs: "canonical_index_partition_ranges alloc slots = Inr rs"
    "tiles 0 0 0 rs ((slots + 503) div 504) slots"
    "is_power_of_two (length rs)" "length rs \<le> MAX_INDEX_PARTITIONS"
    by (rule canonical_ranges_ok)
  with tiles_unique_owner [OF rs(2)] show ?thesis by auto
qed

theorem canonical_ranges_correct_witness:
  "\<exists>rs. canonical_index_partition_ranges (\<lambda>_. True) 1300 = Inr rs
     \<and> tiles 0 0 0 rs ((1300 + 503) div 504) 1300
     \<and> is_power_of_two (length rs) \<and> length rs \<le> MAX_INDEX_PARTITIONS
     \<and> (\<forall>g < 1300. \<exists>!i. i < length rs \<and> first_slot (rs ! i) \<le> g
           \<and> g < first_slot (rs ! i) + slot_count (rs ! i))"
  by (rule canonical_ranges_correct) (simp_all add: representable_slots_def isize_max_def)

end
