(* ===== verification/Region_Metadata.thy ===== *)
theory Region_Metadata
  imports Index_Layout
begin

text \<open>
  The clean-image Region table of \<^verbatim>\<open>cache2/src/region/recovery/metadata.rs\<close>: the root and its
  per-Region and per-partition records, the eager validation that runs before a recovered manager
  becomes visible (\<open>validate_metadata\<close>), and the rebinding of recovered Active Regions to another
  number of append shards (\<open>rebind_append_shards\<close>). \<open>validate_regions_iff\<close> says what the
  three bitmap passes of the code establish: the queue ordinals of each Region state are a
  permutation of the queue positions. Rebinding a valid table gives a valid table.
\<close>

section \<open>Data\<close>

datatype persistent_id = PersistentId bytes

definition persistent_id_from_bytes :: "bytes \<Rightarrow> persistent_id option" where
  "persistent_id_from_bytes bs = (if bs \<noteq> replicate 16 0 then Some (PersistentId bs) else None)"

primrec persistent_id_to_bytes :: "persistent_id \<Rightarrow> bytes" where
  "persistent_id_to_bytes (PersistentId bs) = bs"

datatype region_state = Free | Active | Sealed

record region_metadata_root =
  cache_uuid :: persistent_id
  data_identity :: persistent_id
  data_superblock_generation :: nat
  image_identity :: persistent_id
  image_generation :: nat
  storage_fingerprint :: nat
  index_slots :: nat
  index_page_count :: nat
  region_size :: nat
  region_count :: nat
  partition_count :: nat
  shard_count :: nat
  max_seqno :: nat
  free_region_count :: nat
  active_region_count :: nat
  sealed_region_count :: nat

record region_metadata_record =
  rec_state :: region_state
  queue_ordinal :: nat
  rec_created_seqno :: nat
  durable_used_offset :: nat
  rec_physical_record_count :: nat

record partition_metadata_record =
  part_id :: nat
  part_first_index_page :: nat
  part_index_page_count :: nat
  part_first_slot :: nat
  part_slot_count :: nat
  physical_value_slots :: nat
  physical_deleted_slots :: nat

record region_metadata =
  md_root :: region_metadata_root
  md_regions :: "region_metadata_record list"
  md_partitions :: "partition_metadata_record list"

datatype region_metadata_error =
    InvalidLength
  | InvalidPageMagic
  | UnsupportedPageVersion u16
  | PageChecksumMismatch
  | InvalidField string
  | ArithmeticOverflow
  | Allocation

definition REGION_METADATA_PAGE_SIZE :: nat where "REGION_METADATA_PAGE_SIZE = 4096"
definition RECOVERY_PAGE_SIZE :: nat where "RECOVERY_PAGE_SIZE = 4096"
definition REGION_METADATA_REGIONS_PER_PAGE :: nat where
  "REGION_METADATA_REGIONS_PER_PAGE = (REGION_METADATA_PAGE_SIZE - 64) div 21"
definition REGION_METADATA_PARTITIONS_PER_PAGE :: nat where
  "REGION_METADATA_PARTITIONS_PER_PAGE = (REGION_METADATA_PAGE_SIZE - 64) div 16"
definition MIN_ENCODED_RECORD_SIZE :: nat where "MIN_ENCODED_RECORD_SIZE = 64"
definition MAX_SHARDS :: nat where "MAX_SHARDS = 256"

section \<open>Layout of the encoded section\<close>

record metadata_layout =
  region_first_page :: nat
  region_page_count :: nat
  partition_first_page :: nat
  partition_page_count :: nat
  encoded_len :: nat

definition pages_for_records :: "nat \<Rightarrow> nat \<Rightarrow> region_metadata_error + nat" where
  "pages_for_records records per_page =
     bind_result (ok_or ArithmeticOverflow (checked_add u64_max records (per_page - 1))) (\<lambda>n.
       ok_or ArithmeticOverflow (try_from u32_max (n div per_page)))"

definition metadata_layout_new :: "nat \<Rightarrow> nat \<Rightarrow> region_metadata_error + metadata_layout" where
  "metadata_layout_new regions partitions =
     (if regions = 0 \<or> partitions = 0 then Inl (InvalidField ''record_count'')
      else
        bind_result (pages_for_records regions REGION_METADATA_REGIONS_PER_PAGE) (\<lambda>rpc.
        bind_result (pages_for_records partitions REGION_METADATA_PARTITIONS_PER_PAGE) (\<lambda>ppc.
        let rfp = 1 in
        bind_result (ok_or ArithmeticOverflow (checked_add u32_max rfp rpc)) (\<lambda>pfp.
        bind_result (ok_or ArithmeticOverflow (checked_add u32_max pfp ppc)) (\<lambda>pages.
        bind_result (ok_or ArithmeticOverflow (checked_mul u64_max pages REGION_METADATA_PAGE_SIZE)) (\<lambda>len.
        Inr \<lparr>region_first_page = rfp, region_page_count = rpc, partition_first_page = pfp,
             partition_page_count = ppc, encoded_len = len\<rparr>))))))"

definition encoded_len_for_counts :: "nat \<Rightarrow> nat \<Rightarrow> region_metadata_error + nat" where
  "encoded_len_for_counts regions partitions =
     bind_result (metadata_layout_new regions partitions) (\<lambda>l. Inr (encoded_len l))"

section \<open>Validation\<close>

definition index_layout_metadata_error :: "index_storage_error \<Rightarrow> region_metadata_error" where
  "index_layout_metadata_error e = (case e of
       SizeOverflow \<Rightarrow> ArithmeticOverflow
     | Io io \<Rightarrow> Allocation
     | _ \<Rightarrow> InvalidField ''canonical_partition_directory'')"

definition root_fields_invalid :: "region_metadata_root \<Rightarrow> bool" where
  "root_fields_invalid root \<longleftrightarrow>
     data_superblock_generation root = 0
     \<or> image_generation root = 0
     \<or> index_page_count root \<noteq> div_ceil (index_slots root) INDEX_IMAGE_SLOTS_PER_PAGE
     \<or> region_size root < RECOVERY_PAGE_SIZE
     \<or> region_size root > MAX_PACKED_REGION_SIZE
     \<or> region_size root mod RECOVERY_PAGE_SIZE \<noteq> 0
     \<or> region_count root = 0
     \<or> region_count root > MAX_PACKED_REGION_COUNT
     \<or> partition_count root = 0
     \<or> partition_count root > MAX_INDEX_PARTITIONS
     \<or> \<not> is_power_of_two (partition_count root)
     \<or> partition_count root > index_page_count root
     \<or> shard_count root = 0
     \<or> shard_count root > MAX_SHARDS
     \<or> shard_count root \<ge> region_count root
     \<or> max_seqno root = u64_max
     \<or> active_region_count root \<noteq> shard_count root
     \<or> Option.bind (checked_add u32_max (free_region_count root) (active_region_count root))
         (\<lambda>count. checked_add u32_max count (sealed_region_count root)) \<noteq> Some (region_count root)"

definition validate_root_directory ::
    "allocator \<Rightarrow> region_metadata_root \<Rightarrow> metadata_layout \<Rightarrow> region_metadata_error + unit" where
  "validate_root_directory alloc root layout =
     (if index_slots root < 8 then Inl (InvalidField ''root'')
      else
        bind_result (ok_or ArithmeticOverflow (try_from usize_max (index_slots root))) (\<lambda>slots.
        bind_result (map_err index_layout_metadata_error (validated_index_partition_ranges alloc slots)) (\<lambda>_.
        if root_fields_invalid root then Inl (InvalidField ''root'')
        else if region_first_page layout \<noteq> 1 then Inl (InvalidField ''section_directory'')
        else
          bind_result (ok_or ArithmeticOverflow
              (checked_add u32_max (region_first_page layout) (region_page_count layout))) (\<lambda>next.
          if partition_first_page layout \<noteq> next then Inl (InvalidField ''section_directory'')
          else Inr ()))))"

definition zeroed_bytes :: "allocator \<Rightarrow> nat \<Rightarrow> region_metadata_error + bool list" where
  "zeroed_bytes alloc len = (if alloc len then Inr (replicate len False) else Inl Allocation)"

definition minimum_bytes_fit :: "nat \<Rightarrow> nat \<Rightarrow> region_metadata_error + bool" where
  "minimum_bytes_fit count used =
     bind_result (ok_or ArithmeticOverflow (checked_mul u64_max count MIN_ENCODED_RECORD_SIZE))
       (\<lambda>n. Inr (n \<le> used))"

definition state_count :: "region_metadata_root \<Rightarrow> region_state \<Rightarrow> nat" where
  "state_count root s = (case s of
       Free \<Rightarrow> free_region_count root
     | Active \<Rightarrow> active_region_count root
     | Sealed \<Rightarrow> sealed_region_count root)"

text \<open>The checks of an allocated (Active or Sealed) Region, in source order.\<close>

definition validate_allocated_region ::
    "region_metadata_root \<Rightarrow> region_metadata_record \<Rightarrow> region_metadata_error + unit" where
  "validate_allocated_region root r =
     (let used = durable_used_offset r in
      if rec_created_seqno r = 0 \<or> rec_created_seqno r > max_seqno root
         \<or> (used = 0) \<noteq> (rec_physical_record_count r = 0)
      then Inl (InvalidField ''allocated_region'')
      else bind_result (minimum_bytes_fit (rec_physical_record_count r) used) (\<lambda>fits.
        if fits then Inr () else Inl (InvalidField ''allocated_region'')))"

text \<open>
  One iteration per Region record; \<open>seen s\<close> is the bitmap of the queue positions of state
  \<open>s\<close> that some earlier record has taken.
\<close>

fun validate_region_records ::
    "region_metadata_root \<Rightarrow> (region_state \<Rightarrow> bool list) \<Rightarrow> region_metadata_record list
     \<Rightarrow> region_metadata_error + (region_state \<Rightarrow> bool list)" where
  "validate_region_records root seen [] = Inr seen"
| "validate_region_records root seen (r # rs) =
     (if durable_used_offset r > region_size root \<or> durable_used_offset r mod 32 \<noteq> 0
      then Inl (InvalidField ''region_geometry'')
      else if queue_ordinal r \<ge> state_count root (rec_state r) \<or> seen (rec_state r) ! queue_ordinal r
      then Inl (InvalidField ''region_queue_ordinal'')
      else
        let seen' = seen(rec_state r := (seen (rec_state r))[queue_ordinal r := True]) in
        if rec_state r = Free
        then if rec_created_seqno r \<noteq> 0 \<or> durable_used_offset r \<noteq> 0 \<or> rec_physical_record_count r \<noteq> 0
             then Inl (InvalidField ''free_region'')
             else validate_region_records root seen' rs
        else bind_result (validate_allocated_region root r) (\<lambda>_.
             validate_region_records root seen' rs))"

definition validate_regions ::
    "allocator \<Rightarrow> region_metadata_root \<Rightarrow> region_metadata_record list \<Rightarrow> region_metadata_error + unit" where
  "validate_regions alloc root regions =
     bind_result (zeroed_bytes alloc (free_region_count root)) (\<lambda>free_seen.
     bind_result (zeroed_bytes alloc (active_region_count root)) (\<lambda>active_seen.
     bind_result (zeroed_bytes alloc (sealed_region_count root)) (\<lambda>sealed_seen.
     bind_result (validate_region_records root
         (\<lambda>s. case s of Free \<Rightarrow> free_seen | Active \<Rightarrow> active_seen | Sealed \<Rightarrow> sealed_seen) regions) (\<lambda>seen.
     if list_ex Not (seen Free @ seen Active @ seen Sealed)
     then Inl (InvalidField ''region_queue_permutation'')
     else Inr ()))))"

fun validate_partition_records ::
    "partition_metadata_record list \<Rightarrow> index_partition_range list \<Rightarrow> region_metadata_error + unit" where
  "validate_partition_records (p # ps) (e # es) =
     bind_result (ok_or ArithmeticOverflow (try_from u64_max (first_page e))) (\<lambda>expected_first_page.
     bind_result (ok_or ArithmeticOverflow (try_from u64_max (page_count e))) (\<lambda>expected_page_count.
     bind_result (ok_or ArithmeticOverflow (try_from u64_max (first_slot e))) (\<lambda>expected_first_slot.
     bind_result (ok_or ArithmeticOverflow (try_from u64_max (slot_count e))) (\<lambda>expected_slot_count.
     if part_id p \<noteq> partition_id e
        \<or> part_first_index_page p \<noteq> expected_first_page
        \<or> part_index_page_count p \<noteq> expected_page_count
        \<or> part_first_slot p \<noteq> expected_first_slot
        \<or> part_slot_count p \<noteq> expected_slot_count
     then Inl (InvalidField ''canonical_partition_directory'')
     else if physical_deleted_slots p \<noteq> 0 then Inl (InvalidField ''partition_deleted_slots'')
     else if physical_value_slots p > part_slot_count p then Inl (InvalidField ''partition'')
     else validate_partition_records ps es))))"
| "validate_partition_records _ _ = Inr ()"

definition validate_partitions ::
    "allocator \<Rightarrow> region_metadata_root \<Rightarrow> partition_metadata_record list \<Rightarrow> region_metadata_error + unit" where
  "validate_partitions alloc root partitions =
     bind_result (ok_or ArithmeticOverflow (try_from usize_max (index_slots root))) (\<lambda>slots.
     bind_result (map_err index_layout_metadata_error (canonical_index_partition_ranges alloc slots)) (\<lambda>canonical.
     if length canonical \<noteq> length partitions
     then Inl (InvalidField ''canonical_partition_directory'')
     else validate_partition_records partitions canonical))"

definition validate_metadata :: "allocator \<Rightarrow> region_metadata \<Rightarrow> region_metadata_error + unit" where
  "validate_metadata alloc md =
     bind_result (metadata_layout_new (region_count (md_root md)) (partition_count (md_root md))) (\<lambda>layout.
     bind_result (validate_root_directory alloc (md_root md) layout) (\<lambda>_.
     if length (md_regions md) \<noteq> region_count (md_root md) then Inl (InvalidField ''region_count'')
     else if length (md_partitions md) \<noteq> partition_count (md_root md)
     then Inl (InvalidField ''partition_count'')
     else bind_result (validate_regions alloc (md_root md) (md_regions md)) (\<lambda>_.
          validate_partitions alloc (md_root md) (md_partitions md))))"

section \<open>Rebinding the append shards\<close>

text \<open>The loop bodies update the record in place; a failing addition leaves its earlier stores behind.\<close>

definition seal_excess_active ::
    "nat \<Rightarrow> nat \<Rightarrow> (region_metadata_record, region_metadata_error, unit) operation" where
  "seal_excess_active shards first_new_sealed r =
     (if rec_state r = Active \<and> queue_ordinal r \<ge> shards
      then let removed_ordinal = queue_ordinal r - shards; r1 = r\<lparr>rec_state := Sealed\<rparr> in
           (case checked_add u32_max first_new_sealed removed_ordinal of
              None \<Rightarrow> (Inl ArithmeticOverflow, r1)
            | Some ordinal \<Rightarrow> (Inr (), r1\<lparr>queue_ordinal := ordinal\<rparr>))
      else (Inr (), r))"

definition activate_last_free ::
    "nat \<Rightarrow> nat \<Rightarrow> nat \<Rightarrow> (region_metadata_record, region_metadata_error, unit) operation" where
  "activate_last_free old_shards new_free_count first_seqno r =
     (if rec_state r = Free \<and> queue_ordinal r \<ge> new_free_count
      then let added_ordinal = queue_ordinal r - new_free_count; r1 = r\<lparr>rec_state := Active\<rparr> in
           (case checked_add u32_max old_shards added_ordinal of
              None \<Rightarrow> (Inl ArithmeticOverflow, r1)
            | Some ordinal \<Rightarrow>
                let r2 = r1\<lparr>queue_ordinal := ordinal\<rparr> in
           (case checked_add u64_max first_seqno added_ordinal of
              None \<Rightarrow> (Inl ArithmeticOverflow, r2)
            | Some seqno \<Rightarrow> (Inr (), r2\<lparr>rec_created_seqno := seqno\<rparr>)))
      else (Inr (), r))"

text \<open>The loop over \<^verbatim>\<open>&mut self.regions\<close>; an error stops it where it is.\<close>

fun update_records :: "('r, 'e, unit) operation \<Rightarrow> 'r list \<Rightarrow> ('e + unit) \<times> 'r list" where
  "update_records f [] = (Inr (), [])"
| "update_records f (r # rs) = (case f r of
       (Inl e, r') \<Rightarrow> (Inl e, r' # rs)
     | (Inr _, r') \<Rightarrow> (case update_records f rs of (res, rs') \<Rightarrow> (res, r' # rs')))"

definition rebind_append_shards ::
    "allocator \<Rightarrow> nat \<Rightarrow> (region_metadata, region_metadata_error, unit) operation" where
  "rebind_append_shards alloc shards md =
     (let root = md_root md; old = shard_count root in
      if shards = old then (Inr (), md)
      else if shards = 0 \<or> shards > MAX_SHARDS \<or> shards \<ge> region_count root
      then (Inl (InvalidField ''append_shards''), md)
      else if shards < old then
        (let removed = old - shards; first_new_sealed = sealed_region_count root in
         case checked_add u32_max first_new_sealed removed of
           None \<Rightarrow> (Inl ArithmeticOverflow, md)
         | Some sealed \<Rightarrow>
             (case update_records (seal_excess_active shards first_new_sealed) (md_regions md) of
                (Inl e, rs) \<Rightarrow> (Inl e, md\<lparr>md_regions := rs\<rparr>)
              | (Inr _, rs) \<Rightarrow>
                  let md' = md\<lparr>md_regions := rs,
                               md_root := root\<lparr>shard_count := shards, active_region_count := shards,
                                               sealed_region_count := sealed\<rparr>\<rparr>
                  in (validate_metadata alloc md', md')))
      else
        (let added = shards - old in
         case checked_sub (free_region_count root) added of
           None \<Rightarrow> (Inl (InvalidField ''append_shards_free_capacity''), md)
         | Some free \<Rightarrow>
             (case checked_add u64_max (max_seqno root) added of
                None \<Rightarrow> (Inl ArithmeticOverflow, md)
              | Some seqno \<Rightarrow>
                  if seqno = u64_max then (Inl ArithmeticOverflow, md)
                  else (case checked_add u64_max (max_seqno root) 1 of
                     None \<Rightarrow> (Inl ArithmeticOverflow, md)
                   | Some first_seqno \<Rightarrow>
                       (case update_records (activate_last_free old free first_seqno) (md_regions md) of
                          (Inl e, rs) \<Rightarrow> (Inl e, md\<lparr>md_regions := rs\<rparr>)
                        | (Inr _, rs) \<Rightarrow>
                            let md' = md\<lparr>md_regions := rs,
                                         md_root := root\<lparr>shard_count := shards, active_region_count := shards,
                                                         free_region_count := free, max_seqno := seqno\<rparr>\<rparr>
                            in (validate_metadata alloc md', md'))))))"

section \<open>What validation establishes\<close>

definition region_record_ok :: "region_metadata_root \<Rightarrow> region_metadata_record \<Rightarrow> bool" where
  "region_record_ok root r \<longleftrightarrow>
     durable_used_offset r \<le> region_size root \<and> durable_used_offset r mod 32 = 0
     \<and> (if rec_state r = Free
        then rec_created_seqno r = 0 \<and> durable_used_offset r = 0 \<and> rec_physical_record_count r = 0
        else 0 < rec_created_seqno r \<and> rec_created_seqno r \<le> max_seqno root
             \<and> (durable_used_offset r = 0 \<longleftrightarrow> rec_physical_record_count r = 0)
             \<and> rec_physical_record_count r * 64 \<le> durable_used_offset r)"

definition queue_key :: "region_metadata_record \<Rightarrow> region_state \<times> nat" where
  "queue_key r = (rec_state r, queue_ordinal r)"

definition queue_positions :: "region_metadata_root \<Rightarrow> (region_state \<times> nat) set" where
  "queue_positions root = {(s, i). i < state_count root s}"

definition queues_permuted :: "region_metadata_root \<Rightarrow> region_metadata_record list \<Rightarrow> bool" where
  "queues_permuted root rs \<longleftrightarrow>
     distinct (map queue_key rs) \<and> set (map queue_key rs) = queue_positions root"

lemma validate_allocated_region_ok:
  assumes "durable_used_offset r \<le> u64_max"
  shows "validate_allocated_region root r = Inr () \<longleftrightarrow>
     0 < rec_created_seqno r \<and> rec_created_seqno r \<le> max_seqno root
     \<and> (durable_used_offset r = 0 \<longleftrightarrow> rec_physical_record_count r = 0)
     \<and> rec_physical_record_count r * 64 \<le> durable_used_offset r"
  using assms
  by (auto simp: validate_allocated_region_def minimum_bytes_fit_def MIN_ENCODED_RECORD_SIZE_def Let_def)

lemma validate_region_records_step:
  assumes "region_size root \<le> u64_max"
    and "seen' = seen(rec_state r := (seen (rec_state r))[queue_ordinal r := True])"
  shows "validate_region_records root seen (r # rs) = Inr out \<longleftrightarrow>
     region_record_ok root r \<and> queue_key r \<in> queue_positions root
     \<and> \<not> seen (rec_state r) ! queue_ordinal r \<and> validate_region_records root seen' rs = Inr out"
  using assms validate_allocated_region_ok [of r root]
  by (auto simp: region_record_ok_def queue_key_def queue_positions_def Let_def)

lemma validate_region_records_marks:
  assumes "region_size root \<le> u64_max"
  shows "validate_region_records root seen rs = Inr out \<Longrightarrow>
     (\<And>s. length (seen s) = state_count root s) \<Longrightarrow>
     length (out s) = state_count root s \<and>
     (i < state_count root s \<longrightarrow> out s ! i = (seen s ! i \<or> (s, i) \<in> queue_key ` set rs))"
proof (induction rs arbitrary: seen)
  case (Cons r rs)
  define seen' where "seen' = seen(rec_state r := (seen (rec_state r))[queue_ordinal r := True])"
  note step = validate_region_records_step [OF assms seen'_def]
  have "length (seen' s) = state_count root s" for s using Cons.prems(2) by (simp add: seen'_def)
  with Cons.IH [of seen'] Cons.prems(1) [unfolded step]
  have "length (out s) = state_count root s"
    and "i < state_count root s \<longrightarrow> out s ! i = (seen' s ! i \<or> (s, i) \<in> queue_key ` set rs)"
    and "queue_key r \<in> queue_positions root"
    by simp_all
  then show ?case
    using Cons.prems(2) by (auto simp: seen'_def queue_key_def queue_positions_def nth_list_update)
qed simp

lemma validate_region_records_ok:
  assumes "region_size root \<le> u64_max"
  shows "(\<And>s. length (seen s) = state_count root s) \<Longrightarrow>
     (\<exists>out. validate_region_records root seen rs = Inr out) \<longleftrightarrow>
     (\<forall>r \<in> set rs. region_record_ok root r \<and> queue_key r \<in> queue_positions root
        \<and> \<not> seen (rec_state r) ! queue_ordinal r)
     \<and> distinct (map queue_key rs)"
proof (induction rs arbitrary: seen)
  case (Cons r rs)
  define seen' where "seen' = seen(rec_state r := (seen (rec_state r))[queue_ordinal r := True])"
  note step = validate_region_records_step [OF assms seen'_def]
  have len: "length (seen' s) = state_count root s" for s using Cons.prems by (simp add: seen'_def)
  have fresh: "(\<not> seen' (rec_state q) ! queue_ordinal q) \<longleftrightarrow>
      \<not> seen (rec_state q) ! queue_ordinal q \<and> queue_key q \<noteq> queue_key r"
    if "queue_key r \<in> queue_positions root" for q
    using that Cons.prems by (auto simp: seen'_def queue_key_def queue_positions_def nth_list_update)
  have "(\<exists>out. validate_region_records root seen (r # rs) = Inr out) \<longleftrightarrow>
     region_record_ok root r \<and> queue_key r \<in> queue_positions root
     \<and> \<not> seen (rec_state r) ! queue_ordinal r \<and> (\<exists>out. validate_region_records root seen' rs = Inr out)"
    unfolding step by blast
  also have "\<dots> \<longleftrightarrow> (\<forall>q \<in> set (r # rs). region_record_ok root q \<and> queue_key q \<in> queue_positions root
        \<and> \<not> seen (rec_state q) ! queue_ordinal q) \<and> distinct (map queue_key (r # rs))"
    unfolding Cons.IH [OF len] using fresh
    by (cases "queue_key r \<in> queue_positions root") (auto intro: rev_image_eqI)
  finally show ?case .
qed simp

lemma all_marked_iff:
  "list_ex Not (seen Free @ seen Active @ seen Sealed) \<longleftrightarrow> \<not> (\<forall>s. \<forall>i < length (seen s). seen s ! i)"
proof -
  have all: "(\<forall>s. P s) \<longleftrightarrow> P Free \<and> P Active \<and> P Sealed" for P by (metis region_state.exhaust)
  have one: "list_ex Not xs \<longleftrightarrow> \<not> (\<forall>i < length xs. xs ! i)" for xs
    by (induction xs) (auto simp: less_Suc_eq_0_disj)
  show ?thesis unfolding all [of "\<lambda>s. \<forall>i < length (seen s). seen s ! i"] list_ex_append one by blast
qed

lemma validate_regions_iff:
  assumes alloc: "\<And>s. alloc (state_count root s)" and "region_size root \<le> u64_max"
  shows "validate_regions alloc root rs = Inr () \<longleftrightarrow>
     (\<forall>r \<in> set rs. region_record_ok root r) \<and> queues_permuted root rs"
proof -
  define seen0 where "seen0 = (\<lambda>s. replicate (state_count root s) False)"
  have len: "length (seen0 s) = state_count root s" for s by (simp add: seen0_def)
  have table: "(\<lambda>s. case s of Free \<Rightarrow> replicate (free_region_count root) False
      | Active \<Rightarrow> replicate (active_region_count root) False
      | Sealed \<Rightarrow> replicate (sealed_region_count root) False) = seen0"
    by (auto simp: seen0_def state_count_def fun_eq_iff split: region_state.splits)
  have eq: "validate_regions alloc root rs = Inr () \<longleftrightarrow>
      (\<exists>seen. validate_region_records root seen0 rs = Inr seen \<and> (\<forall>s. \<forall>i < length (seen s). seen s ! i))"
    using alloc [of Free] alloc [of Active] alloc [of Sealed]
    by (simp add: validate_regions_def zeroed_bytes_def state_count_def table all_marked_iff
        del: list_ex_append) metis
  have unmarked: "\<not> seen0 (fst k) ! snd k" if "k \<in> queue_positions root" for k
    using that by (auto simp: seen0_def queue_positions_def)
  have marked: "(\<forall>s. \<forall>i < length (seen s). seen s ! i) \<longleftrightarrow> queue_positions root \<subseteq> queue_key ` set rs"
    if "validate_region_records root seen0 rs = Inr seen" for seen
    using validate_region_records_marks [OF assms(2) that len] unmarked
    by (auto simp: queue_positions_def subset_iff)
  have key: "queue_key r \<in> queue_positions root \<Longrightarrow> \<not> seen0 (rec_state r) ! queue_ordinal r" for r
    using unmarked [of "queue_key r"] by (simp add: queue_key_def)
  have "validate_regions alloc root rs = Inr () \<longleftrightarrow>
      (\<exists>seen. validate_region_records root seen0 rs = Inr seen) \<and> queue_positions root \<subseteq> queue_key ` set rs"
    unfolding eq using marked by blast
  also have "\<dots> \<longleftrightarrow> (\<forall>r \<in> set rs. region_record_ok root r) \<and> queues_permuted root rs"
    unfolding validate_region_records_ok [OF assms(2) len] queues_permuted_def using key by auto
  finally show ?thesis .
qed

text \<open>The whole section is valid when its four independent parts are.\<close>

definition index_directory_valid :: "allocator \<Rightarrow> region_metadata_root \<Rightarrow> partition_metadata_record list \<Rightarrow> bool" where
  "index_directory_valid alloc root ps \<longleftrightarrow>
     8 \<le> index_slots root \<and> index_slots root \<le> usize_max
     \<and> is_ok (validated_index_partition_ranges alloc (index_slots root))
     \<and> length ps = partition_count root
     \<and> validate_partitions alloc root ps = Inr ()"

lemmas region_limits = MAX_PACKED_REGION_COUNT_def MAX_PACKED_REGION_SIZE_def packed_limits
  OFFSET_ALIGNMENT_def RECOVERY_PAGE_SIZE_def MAX_SHARDS_def MAX_INDEX_PARTITIONS_def

lemma root_fields_bounds:
  assumes "\<not> root_fields_invalid root"
  shows "region_size root \<le> 2 ^ 25" "region_size root mod 4096 = 0" "4096 \<le> region_size root"
    "0 < region_count root" "region_count root \<le> 2 ^ 20" "0 < partition_count root"
    "partition_count root \<le> 4096" "0 < shard_count root" "shard_count root \<le> 256"
    "shard_count root < region_count root" "active_region_count root = shard_count root"
    "free_region_count root + active_region_count root + sealed_region_count root = region_count root"
  using assms by (auto simp: root_fields_invalid_def region_limits Option.bind_eq_Some_conv)

lemma metadata_layout_new_ok:
  assumes "0 < regions" "regions \<le> 2 ^ 20" "0 < parts" "parts \<le> 4096"
  shows "metadata_layout_new regions parts =
     Inr \<lparr>region_first_page = 1, region_page_count = (regions + 191) div 192,
          partition_first_page = 1 + (regions + 191) div 192,
          partition_page_count = (parts + 251) div 252,
          encoded_len = (1 + (regions + 191) div 192 + (parts + 251) div 252) * 4096\<rparr>"
proof -
  have "(regions + 191) div 192 \<le> 2 ^ 20" "(parts + 251) div 252 \<le> 4096"
    using assms by (simp_all add: div_le_mono le_trans [OF div_le_dividend] less_mult_imp_div_less)
  then show ?thesis
    using assms
    by (simp add: metadata_layout_new_def pages_for_records_def REGION_METADATA_REGIONS_PER_PAGE_def
        REGION_METADATA_PARTITIONS_PER_PAGE_def REGION_METADATA_PAGE_SIZE_def checked_add_def
        checked_mul_def try_from_def num_bounds Let_def)
qed

lemma validate_metadata_split:
  "validate_metadata alloc md = Inr () \<longleftrightarrow>
     \<not> root_fields_invalid (md_root md)
     \<and> index_directory_valid alloc (md_root md) (md_partitions md)
     \<and> length (md_regions md) = region_count (md_root md)
     \<and> validate_regions alloc (md_root md) (md_regions md) = Inr ()"
proof (cases "root_fields_invalid (md_root md)")
  case True
  then show ?thesis by (auto simp: validate_metadata_def validate_root_directory_def split: if_splits)
next
  case False
  note b = root_fields_bounds [OF False]
  have ok: "is_ok r \<longleftrightarrow> (\<exists>a. r = Inr a)" for r :: "'e + 'a" by (cases r) simp_all
  have "(region_count (md_root md) + 191) div 192 \<le> 2 ^ 20"
    using b by (simp add: le_trans [OF div_le_dividend] less_mult_imp_div_less)
  then show ?thesis
    using False metadata_layout_new_ok [OF b(4-7)]
    by (auto simp: validate_metadata_def validate_root_directory_def index_directory_valid_def
        u32_max_def ok)
qed

definition allocates :: "allocator \<Rightarrow> bool" where
  "allocates alloc \<longleftrightarrow> (\<forall>n \<le> MAX_PACKED_REGION_COUNT. alloc n)"

lemma validate_metadata_iff:
  assumes "allocates alloc"
  shows "validate_metadata alloc md = Inr () \<longleftrightarrow>
     \<not> root_fields_invalid (md_root md)
     \<and> index_directory_valid alloc (md_root md) (md_partitions md)
     \<and> length (md_regions md) = region_count (md_root md)
     \<and> (\<forall>r \<in> set (md_regions md). region_record_ok (md_root md) r)
     \<and> queues_permuted (md_root md) (md_regions md)"
proof (cases "root_fields_invalid (md_root md)")
  case False
  note b = root_fields_bounds [OF False]
  have "alloc (state_count (md_root md) s)" for s
    using b by (intro assms [unfolded allocates_def, rule_format])
      (auto simp: state_count_def region_limits split: region_state.splits)
  moreover have "region_size (md_root md) \<le> u64_max" using b by (simp add: u64_max_def)
  ultimately show ?thesis by (simp add: validate_metadata_split validate_regions_iff)
qed (simp add: validate_metadata_split)

section \<open>Rebinding keeps the table valid\<close>

lemma update_records_map:
  "(\<And>r. r \<in> set rs \<Longrightarrow> f r = (Inr (), g r)) \<Longrightarrow> update_records f rs = (Inr (), map g rs)"
  by (induction rs) simp_all

lemma queues_permuted_map:
  assumes "queues_permuted root rs"
    and key: "\<And>r. r \<in> set rs \<Longrightarrow> queue_key (g r) = \<phi> (queue_key r)"
    and bij: "bij_betw \<phi> (queue_positions root) (queue_positions root')"
  shows "queues_permuted root' (map g rs)"
proof -
  have eq: "map queue_key (map g rs) = map \<phi> (map queue_key rs)" using key by simp
  have "distinct (map queue_key (map g rs))" "set (map queue_key (map g rs)) = \<phi> ` set (map queue_key rs)"
    using assms(1) bij unfolding eq queues_permuted_def
    by (simp_all only: distinct_map [of \<phi>] bij_betw_def set_map)
  then show ?thesis using assms(1) bij by (simp only: queues_permuted_def bij_betw_def)
qed

definition sealed_excess :: "nat \<Rightarrow> nat \<Rightarrow> region_metadata_record \<Rightarrow> region_metadata_record" where
  "sealed_excess shards base r =
     (if rec_state r = Active \<and> shards \<le> queue_ordinal r
      then r\<lparr>rec_state := Sealed, queue_ordinal := base + (queue_ordinal r - shards)\<rparr> else r)"

definition activated_free :: "nat \<Rightarrow> nat \<Rightarrow> nat \<Rightarrow> region_metadata_record \<Rightarrow> region_metadata_record" where
  "activated_free old free first_seqno r =
     (if rec_state r = Free \<and> free \<le> queue_ordinal r
      then r\<lparr>rec_state := Active, queue_ordinal := old + (queue_ordinal r - free),
             rec_created_seqno := first_seqno + (queue_ordinal r - free)\<rparr> else r)"

text \<open>Both directions move a suffix of one queue to the back of another.\<close>

definition move_suffix :: "region_state \<Rightarrow> nat \<Rightarrow> region_state \<Rightarrow> nat \<Rightarrow> region_state \<times> nat \<Rightarrow> region_state \<times> nat" where
  "move_suffix from_q start to_q base k =
     (if fst k = from_q \<and> start \<le> snd k then (to_q, base + (snd k - start)) else k)"

lemma move_suffix_bij:
  assumes "from_q \<noteq> to_q" "state_count root from_q = start + n" "state_count root to_q = base"
    and "state_count root' from_q = start" "state_count root' to_q = base + n"
    and "\<And>s. s \<noteq> from_q \<Longrightarrow> s \<noteq> to_q \<Longrightarrow> state_count root' s = state_count root s"
  shows "bij_betw (move_suffix from_q start to_q base) (queue_positions root) (queue_positions root')"
proof (rule bij_betw_byWitness [where f' = "move_suffix to_q base from_q start"])
  have cases: "s = from_q \<or> s = to_q \<or> state_count root' s = state_count root s" for s
    using assms(6) by blast
  show "move_suffix from_q start to_q base ` queue_positions root \<subseteq> queue_positions root'"
  proof (rule image_subsetI)
    fix k assume "k \<in> queue_positions root"
    then show "move_suffix from_q start to_q base k \<in> queue_positions root'"
      using assms(1-5) cases [of "fst k"] by (auto simp: queue_positions_def move_suffix_def)
  qed
  show "move_suffix to_q base from_q start ` queue_positions root' \<subseteq> queue_positions root"
  proof (rule image_subsetI)
    fix k assume "k \<in> queue_positions root'"
    then show "move_suffix to_q base from_q start k \<in> queue_positions root"
      using assms(1-5) cases [of "fst k"] by (auto simp: queue_positions_def move_suffix_def)
  qed
qed (use assms(1-5) in \<open>auto simp: queue_positions_def move_suffix_def\<close>)

text \<open>
  A rewrite of the records that moves a suffix of one queue behind another, under a root whose
  counters say so, keeps a valid table valid.
\<close>

lemma moved_suffix_valid:
  assumes valid: "validate_metadata alloc md = Inr ()" and alloc: "allocates alloc"
    and fields: "\<not> root_fields_invalid root'"
    and root: "region_count root' = region_count (md_root md)" "index_slots root' = index_slots (md_root md)"
      "partition_count root' = partition_count (md_root md)"
    and key: "\<And>r. queue_key (g r) = move_suffix from_q start to_q base (queue_key r)"
    and ok: "\<And>r. r \<in> set (md_regions md) \<Longrightarrow> queue_key r \<in> queue_positions (md_root md) \<Longrightarrow>
               region_record_ok (md_root md) r \<Longrightarrow> region_record_ok root' (g r)"
    and counts: "from_q \<noteq> to_q" "state_count (md_root md) from_q = start + n"
      "state_count (md_root md) to_q = base" "state_count root' from_q = start"
      "state_count root' to_q = base + n"
      "\<And>s. s \<noteq> from_q \<Longrightarrow> s \<noteq> to_q \<Longrightarrow> state_count root' s = state_count (md_root md) s"
  shows "validate_metadata alloc (md\<lparr>md_regions := map g (md_regions md), md_root := root'\<rparr>) = Inr ()"
proof -
  note v = valid [unfolded validate_metadata_iff [OF alloc]]
  then have perm: "queues_permuted (md_root md) (md_regions md)" by blast
  have bij: "bij_betw (move_suffix from_q start to_q base)
      (queue_positions (md_root md)) (queue_positions root')"
    by (rule move_suffix_bij [OF counts])
  have "queues_permuted root' (map g (md_regions md))"
    by (rule queues_permuted_map [OF perm key bij])
  moreover have "queue_key r \<in> queue_positions (md_root md)" if "r \<in> set (md_regions md)" for r
    using perm that by (auto simp: queues_permuted_def)
  moreover have "validate_partitions alloc root' (md_partitions md)
      = validate_partitions alloc (md_root md) (md_partitions md)"
    using root by (simp add: validate_partitions_def)
  with v root have "index_directory_valid alloc root' (md_partitions md)"
    by (simp add: index_directory_valid_def)
  ultimately show ?thesis
    unfolding validate_metadata_iff [OF alloc] using fields v root ok by simp
qed

lemma valid_ordinal:
  assumes "validate_metadata alloc md = Inr ()" "allocates alloc" "r \<in> set (md_regions md)"
  shows "queue_ordinal r < state_count (md_root md) (rec_state r)"
proof -
  have "queue_key r \<in> queue_positions (md_root md)"
    using assms by (auto simp: validate_metadata_iff queues_permuted_def)
  then show ?thesis by (simp add: queue_key_def queue_positions_def)
qed

lemma rebind_shrink:
  assumes valid: "validate_metadata alloc md = Inr ()" and alloc: "allocates alloc"
    and shards: "0 < shards" "shards < shard_count (md_root md)"
    and root: "root = md_root md" "base = sealed_region_count root"
    and md': "md' = md\<lparr>md_regions := map (sealed_excess shards base) (md_regions md),
       md_root := root\<lparr>shard_count := shards, active_region_count := shards,
                       sealed_region_count := base + (shard_count root - shards)\<rparr>\<rparr>"
  shows "rebind_append_shards alloc shards md = (Inr (), md')"
    and "validate_metadata alloc md' = Inr ()"
proof -
  have nf: "\<not> root_fields_invalid root" using valid root by (simp add: validate_metadata_split)
  note b = root_fields_bounds [OF nf]
  show valid': "validate_metadata alloc md' = Inr ()"
    unfolding md'
  proof (rule moved_suffix_valid [OF valid alloc, where from_q = Active and to_q = Sealed
        and start = shards and base = base and n = "shard_count root - shards"])
    show "\<not> root_fields_invalid (root\<lparr>shard_count := shards, active_region_count := shards,
        sealed_region_count := base + (shard_count root - shards)\<rparr>)"
      using nf b shards root
      by (auto simp: root_fields_invalid_def region_limits Option.bind_eq_Some_conv)
  qed (use b shards root in \<open>auto simp: state_count_def queue_key_def sealed_excess_def move_suffix_def
      region_record_ok_def split: region_state.splits\<close>)
  have seal: "seal_excess_active shards base r = (Inr (), sealed_excess shards base r)"
    if "r \<in> set (md_regions md)" for r
  proof -
    have "base + (queue_ordinal r - shards) \<le> u32_max" if "rec_state r = Active"
      using valid_ordinal [OF valid alloc \<open>r \<in> set (md_regions md)\<close>] that b root
      by (simp add: state_count_def u32_max_def)
    then show ?thesis by (auto simp: seal_excess_active_def sealed_excess_def checked_add_def Let_def)
  qed
  have upd: "update_records (seal_excess_active shards base) (md_regions md)
      = (Inr (), map (sealed_excess shards base) (md_regions md))"
    by (rule update_records_map) (rule seal)
  have "base + (shard_count root - shards) \<le> u32_max" using b root by (simp add: u32_max_def)
  with upd shards valid' b root show "rebind_append_shards alloc shards md = (Inr (), md')"
    by (simp add: rebind_append_shards_def Let_def checked_add_def md' region_limits)
qed

lemma rebind_grow:
  assumes valid: "validate_metadata alloc md = Inr ()" and alloc: "allocates alloc"
    and shards: "shards \<le> MAX_SHARDS" "shards < region_count root" "shard_count root < shards"
    and free: "shards - shard_count root \<le> free_region_count root"
    and seq: "max_seqno root + (shards - shard_count root) < u64_max"
    and root: "root = md_root md" "old = shard_count root" "free = free_region_count root - (shards - old)"
    and md': "md' = md\<lparr>md_regions := map (activated_free old free (max_seqno root + 1)) (md_regions md),
       md_root := root\<lparr>shard_count := shards, active_region_count := shards,
                       free_region_count := free, max_seqno := max_seqno root + (shards - old)\<rparr>\<rparr>"
  shows "rebind_append_shards alloc shards md = (Inr (), md')"
    and "validate_metadata alloc md' = Inr ()"
proof -
  have nf: "\<not> root_fields_invalid root" using valid root by (simp add: validate_metadata_split)
  note b = root_fields_bounds [OF nf]
  have ordinal: "queue_ordinal r - free < shards - old" "queue_ordinal r < free_region_count root"
    if "r \<in> set (md_regions md)" "rec_state r = Free" for r
    using valid_ordinal [OF valid alloc that(1)] that(2) root free shards by (auto simp: state_count_def)
  show valid': "validate_metadata alloc md' = Inr ()"
    unfolding md'
  proof (rule moved_suffix_valid [OF valid alloc, where from_q = Free and to_q = Active
        and start = free and base = old and n = "shards - old"])
    show "\<not> root_fields_invalid (root\<lparr>shard_count := shards, active_region_count := shards,
        free_region_count := free, max_seqno := max_seqno root + (shards - old)\<rparr>)"
      using nf b shards root free seq
      by (auto simp: root_fields_invalid_def region_limits Option.bind_eq_Some_conv)
    show "region_record_ok (root\<lparr>shard_count := shards, active_region_count := shards,
        free_region_count := free, max_seqno := max_seqno root + (shards - old)\<rparr>)
        (activated_free old free (max_seqno root + 1) r)"
      if "r \<in> set (md_regions md)" "region_record_ok (md_root md) r" for r
      using that ordinal [of r] root by (auto simp: region_record_ok_def activated_free_def)
  qed (use b shards root free in \<open>auto simp: state_count_def queue_key_def activated_free_def move_suffix_def
      split: region_state.splits\<close>)
  have act: "activate_last_free old free (max_seqno root + 1) r
      = (Inr (), activated_free old free (max_seqno root + 1) r)" if "r \<in> set (md_regions md)" for r
  proof -
    have "old + (queue_ordinal r - free) \<le> u32_max"
      "max_seqno root + 1 + (queue_ordinal r - free) \<le> u64_max" if "rec_state r = Free"
      using ordinal [OF \<open>r \<in> set (md_regions md)\<close> that] b root shards seq
      by (simp_all add: u32_max_def)
    then show ?thesis by (auto simp: activate_last_free_def activated_free_def checked_add_def Let_def)
  qed
  have upd: "update_records (activate_last_free old free (max_seqno root + 1)) (md_regions md)
      = (Inr (), map (activated_free old free (max_seqno root + 1)) (md_regions md))"
    by (rule update_records_map) (rule act)
  with shards valid' b root free seq show "rebind_append_shards alloc shards md = (Inr (), md')"
    by (simp add: rebind_append_shards_def Let_def checked_add_def checked_sub_def md' region_limits)
qed

lemma queue_position_unique:
  assumes "queues_permuted root rs" "i < state_count root s"
  shows "\<exists>!k. k < length rs \<and> rec_state (rs ! k) = s \<and> queue_ordinal (rs ! k) = i"
proof -
  from assms have "(s, i) \<in> set (map queue_key rs)" and d: "distinct (map queue_key rs)"
    by (auto simp: queues_permuted_def queue_positions_def)
  then obtain k where k: "k < length rs" "queue_key (rs ! k) = (s, i)"
    by (auto simp: in_set_conv_nth)
  show ?thesis
  proof (rule ex1I [of _ k])
    show "k < length rs \<and> rec_state (rs ! k) = s \<and> queue_ordinal (rs ! k) = i"
      using k by (simp add: queue_key_def)
    fix j assume "j < length rs \<and> rec_state (rs ! j) = s \<and> queue_ordinal (rs ! j) = i"
    with k d show "j = k" by (auto simp: queue_key_def distinct_conv_nth)
  qed
qed

section \<open>Properties\<close>

text \<open>
  C34 (functional): \<^verbatim>\<open>RegionMetadata::validate\<close> accepts a section only if every queue position of
  every Region state (free FIFO position, shard, sealed FIFO position) is held by exactly one
  Region, each Region's ordinal is one of those positions, its used prefix is aligned and within
  the Region, an allocated Region has a creation sequence number the root covers, and its record
  count fits its used bytes.
\<close>
theorem validated_queues:
  assumes "validate_metadata alloc md = Inr ()" "allocates alloc"
  shows "(\<forall>s. \<forall>i < state_count (md_root md) s.
            \<exists>!k. k < length (md_regions md) \<and> rec_state (md_regions md ! k) = s
                 \<and> queue_ordinal (md_regions md ! k) = i)
       \<and> (\<forall>r \<in> set (md_regions md).
            queue_ordinal r < state_count (md_root md) (rec_state r)
            \<and> durable_used_offset r \<le> region_size (md_root md) \<and> durable_used_offset r mod 32 = 0
            \<and> rec_physical_record_count r * MIN_ENCODED_RECORD_SIZE \<le> durable_used_offset r
            \<and> (rec_created_seqno r = 0 \<longleftrightarrow> rec_state r = Free)
            \<and> rec_created_seqno r \<le> max_seqno (md_root md))"
proof (intro conjI allI impI ballI)
  have v: "queues_permuted (md_root md) (md_regions md)"
    "\<forall>r \<in> set (md_regions md). region_record_ok (md_root md) r"
    using assms by (simp_all add: validate_metadata_iff)
  fix s i assume "i < state_count (md_root md) s"
  with v show "\<exists>!k. k < length (md_regions md) \<and> rec_state (md_regions md ! k) = s
      \<and> queue_ordinal (md_regions md ! k) = i"
    by (intro queue_position_unique)
next
  fix r assume r: "r \<in> set (md_regions md)"
  then show "queue_ordinal r < state_count (md_root md) (rec_state r)"
    by (rule valid_ordinal [OF assms])
  from r assms have "region_record_ok (md_root md) r" by (simp add: validate_metadata_iff)
  then show "durable_used_offset r \<le> region_size (md_root md)" "durable_used_offset r mod 32 = 0"
    "rec_physical_record_count r * MIN_ENCODED_RECORD_SIZE \<le> durable_used_offset r"
    "rec_created_seqno r = 0 \<longleftrightarrow> rec_state r = Free" "rec_created_seqno r \<le> max_seqno (md_root md)"
    by (auto simp: region_record_ok_def MIN_ENCODED_RECORD_SIZE_def split: if_splits)
qed

text \<open>A concrete valid section: four Regions, two append shards, eight index slots.\<close>

definition sample_metadata :: region_metadata where
  "sample_metadata = \<lparr>
     md_root = \<lparr>cache_uuid = PersistentId (replicate 16 1), data_identity = PersistentId (replicate 16 2),
       data_superblock_generation = 1, image_identity = PersistentId (replicate 16 3),
       image_generation = 1, storage_fingerprint = 7, index_slots = 8, index_page_count = 1,
       region_size = 8192, region_count = 4, partition_count = 1, shard_count = 2, max_seqno = 9,
       free_region_count = 1, active_region_count = 2, sealed_region_count = 1\<rparr>,
     md_regions =
       [\<lparr>rec_state = Sealed, queue_ordinal = 0, rec_created_seqno = 1, durable_used_offset = 4096,
         rec_physical_record_count = 2\<rparr>,
        \<lparr>rec_state = Active, queue_ordinal = 1, rec_created_seqno = 4, durable_used_offset = 4096,
         rec_physical_record_count = 1\<rparr>,
        \<lparr>rec_state = Free, queue_ordinal = 0, rec_created_seqno = 0, durable_used_offset = 0,
         rec_physical_record_count = 0\<rparr>,
        \<lparr>rec_state = Active, queue_ordinal = 0, rec_created_seqno = 8, durable_used_offset = 0,
         rec_physical_record_count = 0\<rparr>],
     md_partitions =
       [\<lparr>part_id = 0, part_first_index_page = 0, part_index_page_count = 1, part_first_slot = 0,
         part_slot_count = 8, physical_value_slots = 3, physical_deleted_slots = 0\<rparr>]\<rparr>"

lemma ilog2_small: "ilog2 (Suc 0) = 0" "ilog2 2 = 1"
  by (rule ilog2_unique; simp)+

lemma shrink_one: "shrink_partition_count s p (Suc 0) = Inr 1"
  by (simp add: shrink_partition_count.simps)

lemma sample_directory:
  "canonical_index_partition_ranges (\<lambda>_. True) 8 =
     Inr [\<lparr>partition_id = 0, first_page = 0, page_count = 1, first_slot = 0, slot_count = 8\<rparr>]"
  by (simp add: canonical_index_partition_ranges_def validated_index_image_layout_def image_layout_new_def
      INDEX_CANDIDATES_def image_sizes greatest_power_of_two_def leading_zeros_def ilog2_small
      MAX_INDEX_PARTITIONS_def shrink_one build_partition_ranges.simps
      checked_add_def checked_mul_def checked_sub_def num_bounds Let_def)

lemma sample_root: "\<not> root_fields_invalid (md_root sample_metadata)"
  by (simp add: sample_metadata_def root_fields_invalid_def region_limits num_bounds div_ceil_def image_sizes is_power_of_two_def
      ilog2_small checked_add_def)

lemma sample_index_directory: "index_directory_valid (\<lambda>_. True) (md_root sample_metadata) (md_partitions sample_metadata)"
  by (simp add: sample_metadata_def index_directory_valid_def validated_index_partition_ranges_def sample_directory
    num_bounds validate_partitions_def try_from_def)

lemma sample_regions: "validate_regions (\<lambda>_. True) (md_root sample_metadata) (md_regions sample_metadata) = Inr ()"
  by (simp add: sample_metadata_def validate_regions_def zeroed_bytes_def
      state_count_def validate_allocated_region_def minimum_bytes_fit_def MIN_ENCODED_RECORD_SIZE_def
      Let_def num_bounds checked_mul_def) (simp add: numeral_2_eq_2)

lemma sample_metadata_valid: "validate_metadata (\<lambda>_. True) sample_metadata = Inr ()"
  using sample_root sample_index_directory sample_regions by (simp add: validate_metadata_split) (simp add: sample_metadata_def)

lemma sample_allocates: "allocates (\<lambda>_. True)"
  by (simp add: allocates_def)

theorem validated_queues_witness:
  "queue_ordinal (md_regions sample_metadata ! 1) < state_count (md_root sample_metadata) Active
   \<and> (\<exists>!k. k < length (md_regions sample_metadata) \<and> rec_state (md_regions sample_metadata ! k) = Sealed
          \<and> queue_ordinal (md_regions sample_metadata ! k) = 0)"
  using validated_queues [OF sample_metadata_valid sample_allocates, THEN conjunct1, rule_format,
      of 0 Sealed]
  by (simp add: sample_metadata_def state_count_def)

text \<open>
  C33 (invariant): rebinding a valid section to another number of append shards either changes
  nothing and reports why (an impossible shard count, too few free Regions, or sequence numbers
  exhausted), or gives a section that is again valid, with the requested shards, every Region's
  stored bytes and record count untouched, and no other change of the partition directory.
\<close>
theorem rebind_append_shards_correct:
  assumes "validate_metadata alloc md = Inr ()" "allocates alloc"
  shows "case rebind_append_shards alloc shards md of
      (Inr _, md') \<Rightarrow>
        validate_metadata alloc md' = Inr () \<and> shard_count (md_root md') = shards
        \<and> md_partitions md' = md_partitions md
        \<and> map durable_used_offset (md_regions md') = map durable_used_offset (md_regions md)
        \<and> map rec_physical_record_count (md_regions md') = map rec_physical_record_count (md_regions md)
    | (Inl e, md') \<Rightarrow>
        md' = md \<and>
        (e = InvalidField ''append_shards''
           \<and> (shards = 0 \<or> MAX_SHARDS < shards \<or> region_count (md_root md) \<le> shards)
         \<or> e = InvalidField ''append_shards_free_capacity''
           \<and> free_region_count (md_root md) < shards - shard_count (md_root md)
         \<or> e = ArithmeticOverflow
           \<and> u64_max \<le> max_seqno (md_root md) + (shards - shard_count (md_root md)))"
proof -
  let ?root = "md_root md" and ?old = "shard_count (md_root md)"
  note shrink = rebind_shrink [OF assms _ _ refl refl refl]
  note grow = rebind_grow [OF assms _ _ _ _ _ refl refl refl refl]
  have maps: "durable_used_offset (sealed_excess s b r) = durable_used_offset r"
    "rec_physical_record_count (sealed_excess s b r) = rec_physical_record_count r"
    "durable_used_offset (activated_free s b q r) = durable_used_offset r"
    "rec_physical_record_count (activated_free s b q r) = rec_physical_record_count r" for s b q r
    by (simp_all add: sealed_excess_def activated_free_def)
  consider (same) "shards = ?old"
    | (refused) "shards \<noteq> ?old" "shards = 0 \<or> MAX_SHARDS < shards \<or> region_count ?root \<le> shards"
    | (shrink) "0 < shards" "shards < ?old"
    | (grow) "?old < shards" "shards \<le> MAX_SHARDS" "shards < region_count ?root"
    by linarith
  then show ?thesis
  proof cases
    case same
    with assms show ?thesis by (simp add: rebind_append_shards_def)
  next
    case refused
    then show ?thesis by (auto simp: rebind_append_shards_def Let_def)
  next
    case shrink
    with rebind_shrink [OF assms shrink refl refl refl] show ?thesis by (simp add: maps)
  next
    case grow
    consider (nofree) "free_region_count ?root < shards - ?old"
      | (noseq) "shards - ?old \<le> free_region_count ?root" "u64_max \<le> max_seqno ?root + (shards - ?old)"
      | (ok) "shards - ?old \<le> free_region_count ?root" "max_seqno ?root + (shards - ?old) < u64_max"
      by linarith
    then show ?thesis
    proof cases
      case ok
      with rebind_grow [OF assms grow(2,3,1) ok refl refl refl refl] show ?thesis by (simp add: maps)
    qed (use grow in \<open>auto simp: rebind_append_shards_def Let_def checked_sub_def checked_add_def\<close>)
  qed
qed

theorem rebind_append_shards_correct_witness:
  "validate_metadata (\<lambda>_. True) (snd (rebind_append_shards (\<lambda>_. True) 3 sample_metadata)) = Inr ()
   \<and> validate_metadata (\<lambda>_. True) (snd (rebind_append_shards (\<lambda>_. True) 1 sample_metadata)) = Inr ()"
proof -
  note fields = sample_metadata_def MAX_SHARDS_def u64_max_def
  from rebind_append_shards_correct [OF sample_metadata_valid sample_allocates, of 3]
  have "validate_metadata (\<lambda>_. True) (snd (rebind_append_shards (\<lambda>_. True) 3 sample_metadata)) = Inr ()"
    by (auto simp: fields split: prod.splits sum.splits)
  moreover from rebind_append_shards_correct [OF sample_metadata_valid sample_allocates, of 1]
  have "validate_metadata (\<lambda>_. True) (snd (rebind_append_shards (\<lambda>_. True) 1 sample_metadata)) = Inr ()"
    by (auto simp: fields split: prod.splits sum.splits)
  ultimately show ?thesis by simp
qed

end
