(* ===== verification/Region_Manager.thy ===== *)
theory Region_Manager
  imports Record_Header Region_Metadata "HOL-Library.Multiset"
begin

unbundle bit_operations_syntax

text \<open>
  The in-memory Region authority of \<^verbatim>\<open>cache2/src/region/manager.rs\<close>: reconstruction from a
  validated clean image, tail reservations, staging spans, direct-I/O padding, write completion,
  Region rotation, reclaim, and the freeze of a quiescent manager into a new image. Every method
  on \<^verbatim>\<open>&mut self\<close> is an operation that returns its result together with the manager it leaves.

  Receipts are plain records, as in the source: the model can be called with any receipt, and what
  an operation does with a stale one is part of the model.
\<close>

section \<open>Receipts and state\<close>

definition DIRECT_IO_ALIGNMENT :: nat where "DIRECT_IO_ALIGNMENT = 4096"
definition UNASSIGNED_REGION :: nat where "UNASSIGNED_REGION = u32_max"

record metadata_binding =
  b_cache_uuid :: persistent_id
  b_data_identity :: persistent_id
  b_data_superblock_generation :: nat
  b_image_identity :: persistent_id
  b_image_generation :: nat
  b_storage_fingerprint :: nat

datatype region_mutation_error =
    InvalidShard
  | InvalidRecordLength
  | WouldBlock
  | FlushBeforeRotation
  | RegionFull
  | StaleReceipt
  | SequenceExhausted
  | MutationOverflow
  | Invariant string

record append_reservation =
  ra_shard_id :: nat
  ra_region_id :: nat
  ra_region_created_seqno :: nat
  ra_offset :: nat
  ra_record_bytes :: nat
  ra_seqno :: nat

definition reservation_end_offset :: "append_reservation \<Rightarrow> nat option" where
  "reservation_end_offset r = checked_add u64_max (ra_offset r) (ra_record_bytes r)"

record padding_receipt =
  rp_shard_id :: nat
  rp_region_id :: nat
  rp_span_start_offset :: nat
  rp_unpadded_end_offset :: nat
  rp_padded_end_offset :: nat
  rp_record_count :: nat
  rp_max_seqno :: nat

definition padding_bytes :: "padding_receipt \<Rightarrow> nat option" where
  "padding_bytes p =
     Option.bind (checked_sub (rp_padded_end_offset p) (rp_unpadded_end_offset p)) (try_from u32_max)"

record write_span =
  ws_shard_id :: nat
  ws_region_id :: nat
  ws_start_offset :: nat
  ws_end_offset :: nat
  ws_record_count :: nat
  ws_max_seqno :: nat

record rotation_receipt =
  rr_shard_id :: nat
  rr_sealed_region_id :: nat
  rr_activated_region_id :: nat
  rr_activated_created_seqno :: nat

record reclaim_receipt =
  rc_region_id :: nat
  rc_created_seqno :: nat
  rc_used_offset :: nat
  rc_physical_record_count :: nat

record rotation_candidate =
  cand_shard_id :: nat
  cand_victim_region_id :: nat
  cand_victim_created_seqno :: nat

record rotation_selection =
  sel_candidate :: rotation_candidate
  sel_old_index :: nat
  sel_victim_index :: nat

record open_write_span =
  os_region_id :: nat
  os_start_offset :: nat
  os_end_offset :: nat
  os_record_count :: nat
  os_max_seqno :: nat

record append_shard_state =
  tail :: "append_reservation option"
  open_span :: "open_write_span option"
  pending_padding :: "padding_receipt option"
  submitted_span :: "write_span option"
  rotation_requested :: bool
  rotation :: "rotation_receipt option"

definition default_shard_state :: append_shard_state where
  "default_shard_state = \<lparr>tail = None, open_span = None, pending_padding = None,
     submitted_span = None, rotation_requested = False, rotation = None\<rparr>"

definition is_quiescent :: "append_shard_state \<Rightarrow> bool" where
  "is_quiescent sh \<longleftrightarrow> tail sh = None \<and> open_span sh = None \<and> pending_padding sh = None
     \<and> submitted_span sh = None \<and> rotation sh = None"

record region_desc =
  d_state :: region_state
  d_created_seqno :: nat
  completed_used :: nat
  reserved_used :: nat
  d_physical_record_count :: nat

record region_manager =
  binding :: metadata_binding
  rm_region_size :: nat
  next_seqno :: nat
  regions :: "region_desc list"
  active_regions :: "nat list"
  append_states :: "append_shard_state list"
  free_regions :: "nat list"
  sealed_regions :: "nat list"
  reclaiming :: "reclaim_receipt list"
  reclaim_limit :: nat
  queue_capacity :: nat
  rotations :: nat

type_synonym 'a manager_op = "(region_manager, region_mutation_error, 'a) operation"

section \<open>Recovery\<close>

definition try_vec :: "allocator \<Rightarrow> nat \<Rightarrow> region_metadata_error + 'a list" where
  "try_vec alloc capacity = (if alloc capacity then Inr [] else Inl Allocation)"

definition try_unassigned_vec :: "allocator \<Rightarrow> nat \<Rightarrow> region_metadata_error + nat list" where
  "try_unassigned_vec alloc n =
     bind_result (try_vec alloc n) (\<lambda>values. Inr (values @ replicate n UNASSIGNED_REGION))"

definition try_unassigned_queue :: "allocator \<Rightarrow> nat \<Rightarrow> nat \<Rightarrow> region_metadata_error + nat list" where
  "try_unassigned_queue alloc n capacity =
     (if alloc capacity then Inr (replicate n UNASSIGNED_REGION) else Inl Allocation)"

text \<open>One position of the queue of the Region's state; the other two queues are untouched.\<close>

definition install_recovered_queue_entry ::
    "region_state \<Rightarrow> nat \<Rightarrow> nat \<Rightarrow> (region_state \<Rightarrow> nat list) \<Rightarrow> region_metadata_error + (region_state \<Rightarrow> nat list)" where
  "install_recovered_queue_entry s ordinal rid queues =
     (case get_at (queues s) ordinal of
        None \<Rightarrow> Inl (InvalidField ''region_queue_ordinal'')
      | Some slot \<Rightarrow>
          if slot \<noteq> UNASSIGNED_REGION then Inl (InvalidField ''region_queue_ordinal'')
          else Inr (queues(s := (queues s)[ordinal := rid])))"

definition recovered_desc :: "region_metadata_record \<Rightarrow> region_desc" where
  "recovered_desc r = \<lparr>d_state = rec_state r, d_created_seqno = rec_created_seqno r,
     completed_used = durable_used_offset r, reserved_used = durable_used_offset r,
     d_physical_record_count = rec_physical_record_count r\<rparr>"

fun install_recovered_regions ::
    "nat \<Rightarrow> region_metadata_record list \<Rightarrow> region_desc list \<Rightarrow> (region_state \<Rightarrow> nat list)
     \<Rightarrow> region_metadata_error + (region_desc list \<times> (region_state \<Rightarrow> nat list))" where
  "install_recovered_regions rid [] descs queues = Inr (descs, queues)"
| "install_recovered_regions rid (encoded # rest) descs queues =
     bind_result (ok_or ArithmeticOverflow (try_from u32_max rid)) (\<lambda>rid32.
     bind_result (install_recovered_queue_entry (rec_state encoded) (queue_ordinal encoded) rid32 queues)
       (\<lambda>queues'. install_recovered_regions (Suc rid) rest (descs @ [recovered_desc encoded]) queues'))"

definition from_metadata :: "allocator \<Rightarrow> region_metadata \<Rightarrow> region_metadata_error + region_manager" where
  "from_metadata alloc md =
     bind_result (validate_metadata alloc md) (\<lambda>_.
     let root = md_root md in
     bind_result (ok_or ArithmeticOverflow (checked_sub (region_count root) (shard_count root))) (\<lambda>sealed_capacity.
     bind_result (try_vec alloc (region_count root)) (\<lambda>descs.
     bind_result (try_unassigned_vec alloc (shard_count root)) (\<lambda>active.
     bind_result (try_vec alloc (shard_count root)) (\<lambda>states.
     bind_result (try_unassigned_queue alloc (free_region_count root)
         (max (free_region_count root) (shard_count root))) (\<lambda>free.
     bind_result (try_unassigned_queue alloc (sealed_region_count root) sealed_capacity) (\<lambda>sealed.
     bind_result (try_vec alloc 1) (\<lambda>reclaim.
     bind_result (install_recovered_regions 0 (md_regions md) descs
         (\<lambda>s. case s of Active \<Rightarrow> active | Free \<Rightarrow> free | Sealed \<Rightarrow> sealed)) (\<lambda>(descs', queues).
     if length descs' \<noteq> region_count root
        \<or> UNASSIGNED_REGION \<in> set (queues Active) \<or> UNASSIGNED_REGION \<in> set (queues Free)
        \<or> UNASSIGNED_REGION \<in> set (queues Sealed)
     then Inl (InvalidField ''region_queue_permutation'')
     else
       bind_result (ok_or ArithmeticOverflow (checked_add u64_max (max_seqno root) 1)) (\<lambda>next.
       Inr \<lparr>binding = \<lparr>b_cache_uuid = cache_uuid root, b_data_identity = data_identity root,
              b_data_superblock_generation = data_superblock_generation root,
              b_image_identity = image_identity root, b_image_generation = image_generation root,
              b_storage_fingerprint = storage_fingerprint root\<rparr>,
            rm_region_size = region_size root, next_seqno = next, regions = descs',
            active_regions = queues Active,
            append_states = states @ replicate (shard_count root) default_shard_state,
            free_regions = queues Free, sealed_regions = queues Sealed, reclaiming = reclaim,
            reclaim_limit = 1, queue_capacity = sealed_capacity, rotations = 0\<rparr>))))))))))"

section \<open>Appending\<close>

text \<open>\<^verbatim>\<open>n.wrapping_neg() & (DIRECT_IO_ALIGNMENT - 1)\<close>\<close>

definition align_padding :: "nat \<Rightarrow> nat" where
  "align_padding n = unat ((- (of_nat n :: u64)) AND of_nat (DIRECT_IO_ALIGNMENT - 1))"

definition update_shard :: "nat \<Rightarrow> (append_shard_state \<Rightarrow> append_shard_state) \<Rightarrow> region_manager \<Rightarrow> region_manager" where
  "update_shard k f m = m\<lparr>append_states := (append_states m)[k := f (append_states m ! k)]\<rparr>"

definition update_region :: "nat \<Rightarrow> (region_desc \<Rightarrow> region_desc) \<Rightarrow> region_manager \<Rightarrow> region_manager" where
  "update_region i f m = m\<lparr>regions := (regions m)[i := f (regions m ! i)]\<rparr>"

definition rotation_is_requested :: "region_manager \<Rightarrow> nat \<Rightarrow> region_mutation_error + bool" where
  "rotation_is_requested m k =
     ok_or InvalidShard (map_option rotation_requested (get_at (append_states m) k))"

definition request_rotation_for_append :: "nat \<Rightarrow> nat \<Rightarrow> bool manager_op" where
  "request_rotation_for_append k record_bytes m =
     (case get_at (active_regions m) k of
        None \<Rightarrow> (Inl InvalidShard, m)
      | Some rid \<Rightarrow>
     (case get_at (regions m) rid of
        None \<Rightarrow> (Inl (Invariant ''active Region id is out of bounds''), m)
      | Some region \<Rightarrow>
          if d_state region \<noteq> Active
          then (Inl (Invariant ''data shard does not own an Active Region''), m)
          else
     (case Option.bind (checked_add u64_max (reserved_used region) (align_padding (reserved_used region)))
             (\<lambda>e. checked_add u64_max e record_bytes) of
        None \<Rightarrow> (Inl MutationOverflow, m)
      | Some end_offset \<Rightarrow>
          if end_offset > rm_region_size m
          then (case get_at (append_states m) k of
                  None \<Rightarrow> (Inl InvalidShard, m)
                | Some sh \<Rightarrow> (Inr True, update_shard k (\<lambda>sh. sh\<lparr>rotation_requested := True\<rparr>) m))
          else (Inr False, m))))"

definition allocate_seqno :: "nat manager_op" where
  "allocate_seqno m =
     (if next_seqno m = u64_max then (Inl SequenceExhausted, m)
      else (Inr (next_seqno m), m\<lparr>next_seqno := next_seqno m + 1\<rparr>))"

definition reserve_append :: "nat \<Rightarrow> nat \<Rightarrow> append_reservation manager_op" where
  "reserve_append k record_bytes m =
     (if record_bytes = 0 \<or> record_bytes mod RECORD_ALIGNMENT \<noteq> 0 then (Inl InvalidRecordLength, m)
      else
     (case get_at (append_states m) k of
        None \<Rightarrow> (Inl InvalidShard, m)
      | Some sh \<Rightarrow>
          if tail sh \<noteq> None \<or> pending_padding sh \<noteq> None \<or> rotation sh \<noteq> None then (Inl WouldBlock, m)
          else
     (case get_at (active_regions m) k of
        None \<Rightarrow> (Inl InvalidShard, m)
      | Some rid \<Rightarrow>
     (case get_at (regions m) rid of
        None \<Rightarrow> (Inl (Invariant ''active Region id is out of bounds''), m)
      | Some region \<Rightarrow>
          if d_state region \<noteq> Active
          then (Inl (Invariant ''data shard does not own an Active Region''), m)
          else
     (case checked_add u64_max (reserved_used region) record_bytes of
        None \<Rightarrow> (Inl MutationOverflow, m)
      | Some end_offset \<Rightarrow>
          if end_offset > rm_region_size m
          then (Inl (if open_span sh \<noteq> None \<or> submitted_span sh \<noteq> None
                     then FlushBeforeRotation else RegionFull),
                update_shard k (\<lambda>sh. sh\<lparr>rotation_requested := True\<rparr>) m)
          else
     (case try_from u32_max (reserved_used region) of
        None \<Rightarrow> (Inl MutationOverflow, m)
      | Some off \<Rightarrow>
     (case allocate_seqno m of
        (Inl e, m') \<Rightarrow> (Inl e, m')
      | (Inr seqno, m') \<Rightarrow>
          let receipt = \<lparr>ra_shard_id = k, ra_region_id = rid,
                ra_region_created_seqno = d_created_seqno region, ra_offset = off,
                ra_record_bytes = record_bytes, ra_seqno = seqno\<rparr>
          in (Inr receipt,
              update_shard k (\<lambda>sh. sh\<lparr>tail := Some receipt\<rparr>)
                (update_region rid (\<lambda>d. d\<lparr>reserved_used := end_offset\<rparr>) m')))))))))"

text \<open>The span that results from adding a staged record to the open span, if any.\<close>

definition extend_open_span ::
    "append_reservation \<Rightarrow> nat \<Rightarrow> open_write_span option \<Rightarrow> region_mutation_error + open_write_span" where
  "extend_open_span receipt end_offset sp =
     (case sp of
        None \<Rightarrow> Inr \<lparr>os_region_id = ra_region_id receipt, os_start_offset = ra_offset receipt,
                     os_end_offset = end_offset, os_record_count = 1, os_max_seqno = ra_seqno receipt\<rparr>
      | Some span \<Rightarrow>
          if os_region_id span = ra_region_id receipt \<and> os_end_offset span = ra_offset receipt
             \<and> os_max_seqno span < ra_seqno receipt
          then bind_result (ok_or MutationOverflow (checked_add u64_max (os_record_count span) 1)) (\<lambda>count.
               Inr (span\<lparr>os_end_offset := end_offset, os_record_count := count,
                         os_max_seqno := max (os_max_seqno span) (ra_seqno receipt)\<rparr>))
          else Inl (Invariant ''staged reservations are not contiguous''))"

definition stage_reservation :: "append_reservation \<Rightarrow> unit manager_op" where
  "stage_reservation receipt m =
     (case get_at (append_states m) (ra_shard_id receipt) of
        None \<Rightarrow> (Inl InvalidShard, m)
      | Some sh \<Rightarrow>
          if tail sh \<noteq> Some receipt then (Inl StaleReceipt, m)
          else
     (case reservation_end_offset receipt of
        None \<Rightarrow> (Inl MutationOverflow, m)
      | Some end_offset \<Rightarrow>
     (case extend_open_span receipt end_offset (open_span sh) of
        Inl e \<Rightarrow> (Inl e, m)
      | Inr span \<Rightarrow>
          (Inr (), update_shard (ra_shard_id receipt)
             (\<lambda>sh. sh\<lparr>open_span := Some span, tail := None\<rparr>) m))))"

definition reserve_write_padding :: "nat \<Rightarrow> padding_receipt option manager_op" where
  "reserve_write_padding k m =
     (case get_at (append_states m) k of
        None \<Rightarrow> (Inl InvalidShard, m)
      | Some sh \<Rightarrow>
          if tail sh \<noteq> None \<or> pending_padding sh \<noteq> None \<or> submitted_span sh \<noteq> None \<or> rotation sh \<noteq> None
          then (Inl WouldBlock, m)
          else
     (case open_span sh of
        None \<Rightarrow> (Inl (Invariant ''data shard has no staged records''), m)
      | Some sp \<Rightarrow>
          if os_start_offset sp \<ge> os_end_offset sp
             \<or> os_start_offset sp mod DIRECT_IO_ALIGNMENT \<noteq> 0
             \<or> os_end_offset sp mod RECORD_ALIGNMENT \<noteq> 0
             \<or> os_record_count sp = 0 \<or> os_max_seqno sp = 0
          then (Inl (Invariant ''open write span identity is invalid''), m)
          else
     (case get_at (regions m) (os_region_id sp) of
        None \<Rightarrow> (Inl (Invariant ''open write span Region is out of bounds''), m)
      | Some region \<Rightarrow>
          if get_at (active_regions m) k \<noteq> Some (os_region_id sp) \<or> d_state region \<noteq> Active
             \<or> os_max_seqno sp < d_created_seqno region \<or> reserved_used region \<noteq> os_end_offset sp
          then (Inl (Invariant ''open write span lost its Region authority''), m)
          else
            let padding = align_padding (os_end_offset sp) in
            if padding = 0 then (Inr None, m)
            else
     (case checked_add u64_max (os_end_offset sp) padding of
        None \<Rightarrow> (Inl MutationOverflow, m)
      | Some padded \<Rightarrow>
          if padding \<ge> DIRECT_IO_ALIGNMENT \<or> padding mod RECORD_ALIGNMENT \<noteq> 0
             \<or> padded mod DIRECT_IO_ALIGNMENT \<noteq> 0 \<or> padded > rm_region_size m
          then (Inl (Invariant ''write span padding is invalid''), m)
          else
            let receipt = \<lparr>rp_shard_id = k, rp_region_id = os_region_id sp,
                  rp_span_start_offset = os_start_offset sp, rp_unpadded_end_offset = os_end_offset sp,
                  rp_padded_end_offset = padded, rp_record_count = os_record_count sp,
                  rp_max_seqno = os_max_seqno sp\<rparr>
            in (Inr (Some receipt),
                update_shard k (\<lambda>sh. sh\<lparr>pending_padding := Some receipt\<rparr>)
                  (update_region (os_region_id sp) (\<lambda>d. d\<lparr>reserved_used := padded\<rparr>) m))))))"

definition submit_open_span :: "nat \<Rightarrow> nat \<Rightarrow> write_span manager_op" where
  "submit_open_span k end_offset m =
     (case get_at (append_states m) k of
        None \<Rightarrow> (Inl InvalidShard, m)
      | Some sh \<Rightarrow>
     (case open_span sh of
        None \<Rightarrow> (Inl (Invariant ''data shard has no staged records''), m)
      | Some sp \<Rightarrow>
          if os_start_offset sp mod DIRECT_IO_ALIGNMENT \<noteq> 0 \<or> end_offset mod DIRECT_IO_ALIGNMENT \<noteq> 0
             \<or> end_offset \<le> os_start_offset sp
          then (Inl (Invariant ''submitted write span is not direct-I/O aligned''), m)
          else
            let receipt = \<lparr>ws_shard_id = k, ws_region_id = os_region_id sp,
                  ws_start_offset = os_start_offset sp, ws_end_offset = end_offset,
                  ws_record_count = os_record_count sp, ws_max_seqno = os_max_seqno sp\<rparr>
            in (Inr receipt,
                update_shard k (\<lambda>sh. sh\<lparr>open_span := None, pending_padding := None,
                                        submitted_span := Some receipt\<rparr>) m)))"

definition seal_write_span :: "nat \<Rightarrow> write_span manager_op" where
  "seal_write_span k m =
     (case get_at (append_states m) k of
        None \<Rightarrow> (Inl InvalidShard, m)
      | Some sh \<Rightarrow>
          if tail sh \<noteq> None \<or> pending_padding sh \<noteq> None \<or> rotation sh \<noteq> None \<or> submitted_span sh \<noteq> None
          then (Inl WouldBlock, m)
          else
     (case open_span sh of
        None \<Rightarrow> (Inl (Invariant ''data shard has no staged records''), m)
      | Some sp \<Rightarrow> submit_open_span k (os_end_offset sp) m))"

definition padding_matches_span :: "padding_receipt \<Rightarrow> open_write_span \<Rightarrow> bool" where
  "padding_matches_span p sp \<longleftrightarrow>
     os_region_id sp = rp_region_id p \<and> os_start_offset sp = rp_span_start_offset p
     \<and> os_end_offset sp = rp_unpadded_end_offset p \<and> os_record_count sp = rp_record_count p
     \<and> os_max_seqno sp = rp_max_seqno p
     \<and> (case padding_bytes p of None \<Rightarrow> False | Some n \<Rightarrow> n \<noteq> 0 \<and> n < DIRECT_IO_ALIGNMENT)
     \<and> rp_padded_end_offset p mod DIRECT_IO_ALIGNMENT = 0"

definition seal_write_span_with_padding :: "padding_receipt \<Rightarrow> write_span manager_op" where
  "seal_write_span_with_padding p m =
     (case get_at (append_states m) (rp_shard_id p) of
        None \<Rightarrow> (Inl InvalidShard, m)
      | Some sh \<Rightarrow>
          if tail sh \<noteq> None \<or> rotation sh \<noteq> None \<or> submitted_span sh \<noteq> None \<or> pending_padding sh \<noteq> Some p
          then (Inl StaleReceipt, m)
          else
     (case open_span sh of
        None \<Rightarrow> (Inl StaleReceipt, m)
      | Some sp \<Rightarrow>
          if \<not> padding_matches_span p sp then (Inl StaleReceipt, m)
          else
     (case get_at (regions m) (rp_region_id p) of
        None \<Rightarrow> (Inl StaleReceipt, m)
      | Some region \<Rightarrow>
          if get_at (active_regions m) (rp_shard_id p) \<noteq> Some (rp_region_id p)
             \<or> d_state region \<noteq> Active \<or> rp_max_seqno p < d_created_seqno region
             \<or> reserved_used region \<noteq> rp_padded_end_offset p
          then (Inl StaleReceipt, m)
          else submit_open_span (rp_shard_id p) (rp_padded_end_offset p) m)))"

definition complete_write_span :: "write_span \<Rightarrow> unit manager_op" where
  "complete_write_span receipt m =
     (case get_at (append_states m) (ws_shard_id receipt) of
        None \<Rightarrow> (Inl InvalidShard, m)
      | Some sh \<Rightarrow>
          if submitted_span sh \<noteq> Some receipt then (Inl StaleReceipt, m)
          else
     (case get_at (regions m) (ws_region_id receipt) of
        None \<Rightarrow> (Inl StaleReceipt, m)
      | Some region \<Rightarrow>
          if get_at (active_regions m) (ws_shard_id receipt) \<noteq> Some (ws_region_id receipt)
             \<or> d_state region \<noteq> Active
             \<or> ws_max_seqno receipt < d_created_seqno region
             \<or> completed_used region \<noteq> ws_start_offset receipt
             \<or> ws_end_offset receipt > reserved_used region
             \<or> ws_start_offset receipt \<ge> ws_end_offset receipt
             \<or> ws_record_count receipt = 0
          then (Inl StaleReceipt, m)
          else
     (case checked_add u64_max (d_physical_record_count region) (ws_record_count receipt) of
        None \<Rightarrow> (Inl MutationOverflow, m)
      | Some record_total \<Rightarrow>
          (Inr (), update_shard (ws_shard_id receipt) (\<lambda>sh. sh\<lparr>submitted_span := None\<rparr>)
             (update_region (ws_region_id receipt)
                (\<lambda>d. d\<lparr>completed_used := ws_end_offset receipt, d_physical_record_count := record_total\<rparr>) m)))))"

section \<open>Rotation\<close>

definition select_rotation :: "region_manager \<Rightarrow> nat \<Rightarrow> region_mutation_error + rotation_selection" where
  "select_rotation m k =
     bind_result (ok_or InvalidShard (get_at (append_states m) k)) (\<lambda>sh.
     if \<not> rotation_requested sh \<or> tail sh \<noteq> None \<or> open_span sh \<noteq> None \<or> pending_padding sh \<noteq> None
        \<or> submitted_span sh \<noteq> None \<or> rotation sh \<noteq> None
     then Inl WouldBlock
     else
       bind_result (ok_or InvalidShard (get_at (active_regions m) k)) (\<lambda>old_id.
       bind_result (ok_or (Invariant ''active Region id is out of bounds'') (get_at (regions m) old_id)) (\<lambda>old.
       if d_state old \<noteq> Active \<or> reserved_used old \<noteq> completed_used old then Inl WouldBlock
       else
         bind_result (ok_or WouldBlock (get_at (free_regions m) 0)) (\<lambda>victim_id.
         bind_result (ok_or (Invariant ''rotation victim id is out of bounds'') (get_at (regions m) victim_id)) (\<lambda>victim.
         if d_state victim \<noteq> Free \<or> victim_id = old_id
         then Inl (Invariant ''rotation victim queue is inconsistent'')
         else Inr \<lparr>sel_candidate = \<lparr>cand_shard_id = k, cand_victim_region_id = victim_id,
                       cand_victim_created_seqno = d_created_seqno victim\<rparr>,
                   sel_old_index = old_id, sel_victim_index = victim_id\<rparr>)))))"

definition get_rotation_candidate :: "region_manager \<Rightarrow> nat \<Rightarrow> region_mutation_error + rotation_candidate" where
  "get_rotation_candidate m k = bind_result (select_rotation m k) (\<lambda>sel. Inr (sel_candidate sel))"

definition begin_rotation :: "rotation_candidate \<Rightarrow> rotation_receipt manager_op" where
  "begin_rotation candidate m =
     (case select_rotation m (cand_shard_id candidate) of
        Inl e \<Rightarrow> (Inl e, m)
      | Inr sel \<Rightarrow>
          if sel_candidate sel \<noteq> candidate then (Inl StaleReceipt, m)
          else
            let k = cand_shard_id candidate; victim_id = cand_victim_region_id candidate in
     (case allocate_seqno m of
        (Inl e, m1) \<Rightarrow> (Inl e, m1)
      | (Inr created, m1) \<Rightarrow>
          let m2 = m1\<lparr>free_regions := tl (free_regions m1)\<rparr> in
          if get_at (free_regions m1) 0 \<noteq> Some victim_id
          then (Inl (Invariant ''rotation victim changed during selection''), m2)
          else
            let m3 = update_region (sel_old_index sel) (\<lambda>d. d\<lparr>d_state := Sealed\<rparr>) m2;
                m4 = update_region (sel_victim_index sel)
                       (\<lambda>_. \<lparr>d_state = Active, d_created_seqno = created, completed_used = 0,
                             reserved_used = 0, d_physical_record_count = 0\<rparr>) m3;
                m5 = m4\<lparr>active_regions := (active_regions m4)[k := victim_id]\<rparr>
            in
     (case try_from u32_max (sel_old_index sel) of
        None \<Rightarrow> (Inl MutationOverflow, m5)
      | Some old_id \<Rightarrow>
          let receipt = \<lparr>rr_shard_id = k, rr_sealed_region_id = old_id,
                rr_activated_region_id = victim_id, rr_activated_created_seqno = created\<rparr>
          in (Inr receipt,
              update_shard k (\<lambda>sh. sh\<lparr>rotation_requested := False, rotation := Some receipt\<rparr>) m5))))"

definition finish_rotation :: "rotation_receipt \<Rightarrow> unit manager_op" where
  "finish_rotation receipt m =
     (case get_at (append_states m) (rr_shard_id receipt) of
        None \<Rightarrow> (Inl InvalidShard, m)
      | Some sh \<Rightarrow>
          if rotation sh \<noteq> Some receipt then (Inl StaleReceipt, m)
          else
     (case get_at (regions m) (rr_sealed_region_id receipt) of
        None \<Rightarrow> (Inl StaleReceipt, m)
      | Some sealed \<Rightarrow>
     (case get_at (regions m) (rr_activated_region_id receipt) of
        None \<Rightarrow> (Inl StaleReceipt, m)
      | Some activated \<Rightarrow>
          if get_at (active_regions m) (rr_shard_id receipt) \<noteq> Some (rr_activated_region_id receipt)
             \<or> d_state sealed \<noteq> Sealed \<or> d_state activated \<noteq> Active
             \<or> d_created_seqno activated \<noteq> rr_activated_created_seqno receipt
          then (Inl StaleReceipt, m)
          else if saturating_add usize_max (length (free_regions m)) (length (sealed_regions m))
                    \<ge> queue_capacity m
          then (Inl (Invariant ''sealed Region queue exceeded its reserved capacity''), m)
          else (Inr (),
            update_shard (rr_shard_id receipt) (\<lambda>sh. sh\<lparr>rotation := None\<rparr>)
              (m\<lparr>sealed_regions := sealed_regions m @ [rr_sealed_region_id receipt],
                 rotations := saturating_add u64_max (rotations m) 1\<rparr>)))))"

section \<open>Reclaim\<close>

text \<open>
  \<open>Vec::capacity\<close> of the receipt list is not observable, so growing it is the allocation of
  \<open>workers\<close> further entries or nothing, as the caller of the model chooses.
\<close>

definition configure_reclaim_workers ::
    "allocator \<Rightarrow> nat \<Rightarrow> nat \<Rightarrow> (region_manager, region_metadata_error, unit) operation" where
  "configure_reclaim_workers alloc capacity workers m =
     (if workers = 0 \<or> workers > length (active_regions m) \<or> reclaiming m \<noteq> []
      then (Inl (InvalidField ''reclaim_workers''), m)
      else if capacity < workers \<and> \<not> alloc workers then (Inl Allocation, m)
      else (Inr (), m\<lparr>reclaim_limit := workers\<rparr>))"

definition reclaim_needed :: "region_manager \<Rightarrow> bool" where
  "reclaim_needed m \<longleftrightarrow>
     length (reclaiming m) < reclaim_limit m \<and> sealed_regions m \<noteq> []
     \<and> saturating_add usize_max (length (free_regions m)) (length (reclaiming m))
         < max (length (active_regions m)) 1"

definition reclaim_can_reinsert :: "region_manager \<Rightarrow> bool" where
  "reclaim_can_reinsert m \<longleftrightarrow> free_regions m \<noteq> []"

definition begin_reclaim :: "reclaim_receipt option manager_op" where
  "begin_reclaim m =
     (if \<not> reclaim_needed m then (Inr None, m)
      else
     (case sealed_regions m of
        [] \<Rightarrow> (Inl (Invariant ''reclaim selection lost its sealed Region''), m)
      | rid # rest \<Rightarrow>
          let m1 = m\<lparr>sealed_regions := rest\<rparr> in
     (case get_at (regions m1) rid of
        None \<Rightarrow> (Inl (Invariant ''reclaim Region id is out of bounds''), m1)
      | Some region \<Rightarrow>
          if d_state region \<noteq> Sealed \<or> completed_used region \<noteq> reserved_used region
          then (Inl (Invariant ''reclaim victim is not a completed sealed Region''), m1)
          else
            let receipt = \<lparr>rc_region_id = rid, rc_created_seqno = d_created_seqno region,
                  rc_used_offset = completed_used region,
                  rc_physical_record_count = d_physical_record_count region\<rparr>
            in (Inr (Some receipt), m1\<lparr>reclaiming := reclaiming m1 @ [receipt]\<rparr>))))"

text \<open>\<^verbatim>\<open>iter().position\<close>.\<close>

fun position :: "('a \<Rightarrow> bool) \<Rightarrow> 'a list \<Rightarrow> nat option" where
  "position P [] = None"
| "position P (x # xs) = (if P x then Some 0 else map_option Suc (position P xs))"

definition free_desc :: region_desc where
  "free_desc = \<lparr>d_state = Free, d_created_seqno = 0, completed_used = 0, reserved_used = 0,
     d_physical_record_count = 0\<rparr>"

definition finish_reclaim :: "reclaim_receipt \<Rightarrow> unit manager_op" where
  "finish_reclaim receipt m =
     (case position (\<lambda>current. current = receipt) (reclaiming m) of
        None \<Rightarrow> (Inl StaleReceipt, m)
      | Some i \<Rightarrow>
     (case get_at (regions m) (rc_region_id receipt) of
        None \<Rightarrow> (Inl StaleReceipt, m)
      | Some region \<Rightarrow>
          if d_state region \<noteq> Sealed \<or> d_created_seqno region \<noteq> rc_created_seqno receipt
             \<or> completed_used region \<noteq> rc_used_offset receipt
             \<or> d_physical_record_count region \<noteq> rc_physical_record_count receipt
          then (Inl StaleReceipt, m)
          else if saturating_add usize_max (length (free_regions m)) (length (sealed_regions m))
                    \<ge> queue_capacity m
          then (Inl (Invariant ''free Region queue exceeded its reserved capacity''), m)
          else
            let m1 = update_region (rc_region_id receipt) (\<lambda>_. free_desc) m
            in (Inr (), m1\<lparr>free_regions := free_regions m1 @ [rc_region_id receipt],
                           reclaiming := swap_remove (reclaiming m1) i\<rparr>)))"

section \<open>Freezing a clean image\<close>

record partition_totals =
  tot_partition_count :: nat
  tot_page_count :: nat
  tot_slot_count :: nat

fun add_partition_totals ::
    "partition_totals \<Rightarrow> partition_metadata_record list \<Rightarrow> region_metadata_error + partition_totals" where
  "add_partition_totals t [] = Inr t"
| "add_partition_totals t (p # ps) =
     bind_result (ok_or ArithmeticOverflow (checked_add u64_max (tot_page_count t) (part_index_page_count p))) (\<lambda>pages.
     bind_result (ok_or ArithmeticOverflow (checked_add u64_max (tot_slot_count t) (part_slot_count p))) (\<lambda>slots.
     add_partition_totals (t\<lparr>tot_page_count := pages, tot_slot_count := slots\<rparr>) ps))"

definition partition_totals_from_records ::
    "partition_metadata_record list \<Rightarrow> region_metadata_error + partition_totals" where
  "partition_totals_from_records ps =
     bind_result (ok_or ArithmeticOverflow (try_from u32_max (length ps))) (\<lambda>n.
     add_partition_totals \<lparr>tot_partition_count = n, tot_page_count = 0, tot_slot_count = 0\<rparr> ps)"

fun install_live_queue ::
    "region_desc list \<Rightarrow> region_state \<Rightarrow> nat \<Rightarrow> nat list \<Rightarrow> nat list \<Rightarrow> region_metadata_error + nat list" where
  "install_live_queue descs s ordinal [] ordinals = Inr ordinals"
| "install_live_queue descs s ordinal (rid # rest) ordinals =
     bind_result (ok_or (InvalidField ''live_region_queue'') (get_at descs rid)) (\<lambda>region.
     bind_result (ok_or ArithmeticOverflow (try_from u32_max ordinal)) (\<lambda>ordinal32.
     if d_state region \<noteq> s \<or> ordinals ! rid \<noteq> UNASSIGNED_REGION
     then Inl (InvalidField ''live_region_queue_permutation'')
     else install_live_queue descs s (Suc ordinal) rest (ordinals[rid := ordinal32])))"

definition freeze_queue_ordinals :: "allocator \<Rightarrow> region_manager \<Rightarrow> region_metadata_error + nat list" where
  "freeze_queue_ordinals alloc m =
     bind_result (try_unassigned_vec alloc (length (regions m))) (\<lambda>o0.
     bind_result (install_live_queue (regions m) Active 0 (active_regions m) o0) (\<lambda>o1.
     bind_result (install_live_queue (regions m) Free 0 (free_regions m) o1) (\<lambda>o2.
     bind_result (install_live_queue (regions m) Sealed 0 (sealed_regions m) o2) (\<lambda>o3.
     if UNASSIGNED_REGION \<in> set o3 then Inl (InvalidField ''live_region_queue_permutation'')
     else Inr o3))))"

fun freeze_records :: "region_desc list \<Rightarrow> nat list \<Rightarrow> region_metadata_error + region_metadata_record list" where
  "freeze_records [] ordinals = Inr []"
| "freeze_records (d # ds) ordinals =
     (if reserved_used d \<noteq> completed_used d then Inl (InvalidField ''live_region_authority'')
      else bind_result (freeze_records ds (tl ordinals)) (\<lambda>rest.
        Inr (\<lparr>rec_state = d_state d, queue_ordinal = hd ordinals, rec_created_seqno = d_created_seqno d,
              durable_used_offset = completed_used d,
              rec_physical_record_count = d_physical_record_count d\<rparr> # rest)))"

definition freeze_metadata ::
    "allocator \<Rightarrow> partition_metadata_record list \<Rightarrow> region_manager \<Rightarrow> region_metadata_error + region_metadata" where
  "freeze_metadata alloc partitions m =
     (if reclaiming m \<noteq> [] \<or> list_ex (\<lambda>sh. \<not> is_quiescent sh) (append_states m)
      then Inl (InvalidField ''live_region_authority'')
      else
        bind_result (partition_totals_from_records partitions) (\<lambda>totals.
        bind_result (freeze_queue_ordinals alloc m) (\<lambda>ordinals.
        bind_result (try_vec alloc (length (regions m)) :: _ + region_metadata_record list) (\<lambda>_.
        bind_result (freeze_records (regions m) ordinals) (\<lambda>records.
        bind_result (ok_or ArithmeticOverflow (try_from u32_max (length (regions m)))) (\<lambda>rcount.
        bind_result (ok_or ArithmeticOverflow (try_from u32_max (length (active_regions m)))) (\<lambda>shards.
        bind_result (ok_or ArithmeticOverflow (try_from u32_max (length (free_regions m)))) (\<lambda>frees.
        bind_result (ok_or ArithmeticOverflow (try_from u32_max (length (sealed_regions m)))) (\<lambda>sealeds.
        bind_result (ok_or ArithmeticOverflow (checked_sub (next_seqno m) 1)) (\<lambda>seqno.
        let b = binding m;
            md = \<lparr>md_root = \<lparr>cache_uuid = b_cache_uuid b, data_identity = b_data_identity b,
                    data_superblock_generation = b_data_superblock_generation b,
                    image_identity = b_image_identity b, image_generation = b_image_generation b,
                    storage_fingerprint = b_storage_fingerprint b,
                    index_slots = tot_slot_count totals, index_page_count = tot_page_count totals,
                    region_size = rm_region_size m, region_count = rcount,
                    partition_count = tot_partition_count totals, shard_count = shards,
                    max_seqno = seqno, free_region_count = frees, active_region_count = shards,
                    sealed_region_count = sealeds\<rparr>,
                  md_regions = records, md_partitions = partitions\<rparr>
        in bind_result (validate_metadata alloc md) (\<lambda>_. Inr md)))))))))))"

record region_snapshot =
  capacity_bytes :: nat
  append_shard_count :: nat
  snap_active_region_count :: nat
  snap_free_region_count :: nat
  snap_sealed_region_count :: nat
  reclaiming_region_count :: nat
  snap_rotations :: nat
  snap_physical_record_count :: nat
  physical_bytes :: nat

definition take_region_snapshot :: "region_manager \<Rightarrow> region_metadata_error + region_snapshot" where
  "take_region_snapshot m =
     bind_result (ok_or ArithmeticOverflow (Option.bind (try_from u64_max (length (regions m)))
        (\<lambda>n. checked_mul u64_max n (rm_region_size m)))) (\<lambda>capacity.
     bind_result (ok_or ArithmeticOverflow (try_from u32_max (length (active_regions m)))) (\<lambda>actives.
     bind_result (ok_or ArithmeticOverflow (try_from u32_max (length (free_regions m)))) (\<lambda>frees.
     bind_result (ok_or ArithmeticOverflow (try_from u32_max (length (sealed_regions m)))) (\<lambda>sealeds.
     bind_result (ok_or ArithmeticOverflow (try_from u32_max (length (reclaiming m)))) (\<lambda>reclaims.
     Inr (fold (\<lambda>d snap. snap\<lparr>
              snap_physical_record_count :=
                saturating_add u64_max (snap_physical_record_count snap) (d_physical_record_count d),
              physical_bytes := saturating_add u64_max (physical_bytes snap) (completed_used d)\<rparr>)
            (regions m)
            \<lparr>capacity_bytes = capacity, append_shard_count = actives, snap_active_region_count = actives,
             snap_free_region_count = frees, snap_sealed_region_count = sealeds,
             reclaiming_region_count = reclaims, snap_rotations = rotations m,
             snap_physical_record_count = 0, physical_bytes = 0\<rparr>))))))"

end
