(* ===== verification/Region_Invariant.thy ===== *)
theory Region_Invariant
  imports Region_Manager
begin

unbundle bit_operations_syntax

text \<open>
  The invariant of the Region manager and its preservation. Every Region has exactly one owner:
  an append shard, the free FIFO, the sealed FIFO, a reclaim receipt, or a shard's unfinished
  rotation. Within the Active Region of a shard the byte ranges are laid out in order without
  gaps: completed prefix, submitted span, open span, then either one reserved tail or one padding
  range up to the reservation cursor.
\<close>

section \<open>The invariant\<close>

definition desc_ok :: "nat \<Rightarrow> nat \<Rightarrow> region_desc \<Rightarrow> bool" where
  "desc_ok rsize next d \<longleftrightarrow>
     completed_used d \<le> reserved_used d \<and> reserved_used d \<le> rsize \<and> reserved_used d mod 32 = 0
     \<and> completed_used d mod 32 = 0
     \<and> d_created_seqno d < next
     \<and> (d_state d = Free \<longleftrightarrow> d_created_seqno d = 0)
     \<and> d_physical_record_count d * MIN_ENCODED_RECORD_SIZE \<le> completed_used d
     \<and> (completed_used d = 0 \<longleftrightarrow> d_physical_record_count d = 0)"

text \<open>Where the submitted span ends and where the open span ends, if there are any.\<close>

definition submitted_end :: "region_desc \<Rightarrow> append_shard_state \<Rightarrow> nat" where
  "submitted_end d sh = (case submitted_span sh of None \<Rightarrow> completed_used d | Some w \<Rightarrow> ws_end_offset w)"

definition open_end :: "region_desc \<Rightarrow> append_shard_state \<Rightarrow> nat" where
  "open_end d sh = (case open_span sh of None \<Rightarrow> submitted_end d sh | Some sp \<Rightarrow> os_end_offset sp)"

definition submitted_ok :: "nat \<Rightarrow> nat \<Rightarrow> nat \<Rightarrow> region_desc \<Rightarrow> write_span \<Rightarrow> bool" where
  "submitted_ok next k a d w \<longleftrightarrow>
     ws_shard_id w = k \<and> ws_region_id w = a \<and> ws_start_offset w = completed_used d
     \<and> ws_start_offset w < ws_end_offset w \<and> ws_end_offset w mod DIRECT_IO_ALIGNMENT = 0
     \<and> 0 < ws_record_count w
     \<and> ws_record_count w * MIN_ENCODED_RECORD_SIZE \<le> ws_end_offset w - ws_start_offset w
     \<and> d_created_seqno d \<le> ws_max_seqno w \<and> ws_max_seqno w < next"

definition open_ok :: "nat \<Rightarrow> nat \<Rightarrow> nat \<Rightarrow> region_desc \<Rightarrow> open_write_span \<Rightarrow> bool" where
  "open_ok next start a d sp \<longleftrightarrow>
     os_region_id sp = a \<and> os_start_offset sp = start \<and> os_start_offset sp < os_end_offset sp
     \<and> os_end_offset sp mod RECORD_ALIGNMENT = 0 \<and> 0 < os_record_count sp
     \<and> os_record_count sp * MIN_ENCODED_RECORD_SIZE \<le> os_end_offset sp - os_start_offset sp
     \<and> d_created_seqno d \<le> os_max_seqno sp \<and> os_max_seqno sp < next"

definition tail_ok :: "nat \<Rightarrow> nat \<Rightarrow> nat \<Rightarrow> region_desc \<Rightarrow> append_shard_state \<Rightarrow> append_reservation \<Rightarrow> bool" where
  "tail_ok next k a d sh t \<longleftrightarrow>
     ra_shard_id t = k \<and> ra_region_id t = a \<and> ra_region_created_seqno t = d_created_seqno d
     \<and> ra_offset t = open_end d sh \<and> ra_offset t + ra_record_bytes t = reserved_used d
     \<and> MIN_ENCODED_RECORD_SIZE \<le> ra_record_bytes t \<and> ra_record_bytes t mod RECORD_ALIGNMENT = 0
     \<and> d_created_seqno d \<le> ra_seqno t \<and> ra_seqno t < next
     \<and> (\<forall>sp. open_span sh = Some sp \<longrightarrow> os_max_seqno sp < ra_seqno t)
     \<and> pending_padding sh = None \<and> rotation sh = None"

definition padding_ok :: "nat \<Rightarrow> nat \<Rightarrow> region_desc \<Rightarrow> append_shard_state \<Rightarrow> padding_receipt \<Rightarrow> bool" where
  "padding_ok k a d sh p \<longleftrightarrow>
     rp_shard_id p = k \<and> rp_region_id p = a \<and> rp_padded_end_offset p = reserved_used d
     \<and> tail sh = None \<and> rotation sh = None \<and> submitted_span sh = None
     \<and> (case open_span sh of None \<Rightarrow> False | Some sp \<Rightarrow> padding_matches_span p sp)"

definition rotation_ok :: "nat \<Rightarrow> nat \<Rightarrow> region_desc \<Rightarrow> append_shard_state \<Rightarrow> rotation_receipt \<Rightarrow> bool" where
  "rotation_ok k a d sh r \<longleftrightarrow>
     rr_shard_id r = k \<and> rr_activated_region_id r = a \<and> rr_activated_created_seqno r = d_created_seqno d
     \<and> tail sh = None \<and> open_span sh = None \<and> pending_padding sh = None \<and> submitted_span sh = None"

definition shard_ok :: "nat \<Rightarrow> nat \<Rightarrow> nat \<Rightarrow> region_desc \<Rightarrow> append_shard_state \<Rightarrow> bool" where
  "shard_ok next k a d sh \<longleftrightarrow>
     d_state d = Active \<and> completed_used d mod DIRECT_IO_ALIGNMENT = 0
     \<and> pred_option (submitted_ok next k a d) (submitted_span sh)
     \<and> pred_option (open_ok next (submitted_end d sh) a d) (open_span sh)
     \<and> pred_option (tail_ok next k a d sh) (tail sh)
     \<and> pred_option (padding_ok k a d sh) (pending_padding sh)
     \<and> pred_option (rotation_ok k a d sh) (rotation sh)
     \<and> (tail sh = None \<and> pending_padding sh = None \<longrightarrow> reserved_used d = open_end d sh)"

definition rotating :: "append_shard_state \<Rightarrow> nat list" where
  "rotating sh = (case rotation sh of None \<Rightarrow> [] | Some r \<Rightarrow> [rr_sealed_region_id r])"

definition idle_regions :: "region_manager \<Rightarrow> nat list" where
  "idle_regions m = sealed_regions m @ map rc_region_id (reclaiming m) @ concat (map rotating (append_states m))"

definition owners :: "region_manager \<Rightarrow> nat list" where
  "owners m = active_regions m @ free_regions m @ idle_regions m"

definition receipt_ok :: "region_desc list \<Rightarrow> reclaim_receipt \<Rightarrow> bool" where
  "receipt_ok ds r \<longleftrightarrow>
     rc_created_seqno r = d_created_seqno (ds ! rc_region_id r)
     \<and> rc_used_offset r = completed_used (ds ! rc_region_id r)
     \<and> rc_physical_record_count r = d_physical_record_count (ds ! rc_region_id r)"

definition manager_shape :: "region_manager \<Rightarrow> bool" where
  "manager_shape m \<longleftrightarrow>
     0 < length (active_regions m) \<and> length (append_states m) = length (active_regions m)
     \<and> length (regions m) \<le> 2 ^ 20
     \<and> queue_capacity m = length (regions m) - length (active_regions m)
     \<and> rm_region_size m \<le> 2 ^ 25 \<and> rm_region_size m mod DIRECT_IO_ALIGNMENT = 0
     \<and> 0 < next_seqno m \<and> next_seqno m \<le> u64_max
     \<and> 0 < reclaim_limit m \<and> reclaim_limit m \<le> length (active_regions m)
     \<and> length (reclaiming m) \<le> reclaim_limit m"

definition manager_wf :: "region_manager \<Rightarrow> bool" where
  "manager_wf m \<longleftrightarrow>
     manager_shape m
     \<and> mset (owners m) = mset [0..<length (regions m)]
     \<and> (\<forall>d \<in> set (regions m). desc_ok (rm_region_size m) (next_seqno m) d)
     \<and> (\<forall>k < length (active_regions m).
          shard_ok (next_seqno m) k (active_regions m ! k) (regions m ! (active_regions m ! k))
            (append_states m ! k))
     \<and> (\<forall>i \<in> set (free_regions m). regions m ! i = free_desc)
     \<and> (\<forall>i \<in> set (idle_regions m). d_state (regions m ! i) = Sealed
          \<and> completed_used (regions m ! i) = reserved_used (regions m ! i))
     \<and> (\<forall>r \<in> set (reclaiming m). receipt_ok (regions m) r)"

lemmas shard_parts = submitted_ok_def open_ok_def tail_ok_def padding_ok_def rotation_ok_def
lemmas io_sizes = DIRECT_IO_ALIGNMENT_def RECORD_ALIGNMENT_def MIN_ENCODED_RECORD_SIZE_def

section \<open>Consequences\<close>

lemma owners_facts:
  assumes "manager_wf m"
  shows "distinct (owners m)" and "set (owners m) = {..< length (regions m)}"
    and "length (active_regions m) + length (free_regions m) + length (idle_regions m)
           = length (regions m)"
proof -
  have eq: "mset (owners m) = mset [0..<length (regions m)]" using assms by (simp add: manager_wf_def)
  show "distinct (owners m)" using mset_eq_imp_distinct_iff [OF eq] by (simp only: distinct_upt)
  show "set (owners m) = {..< length (regions m)}" using mset_eq_setD [OF eq] by (simp only: set_upt atLeast0LessThan)
  show "length (active_regions m) + length (free_regions m) + length (idle_regions m)
           = length (regions m)"
    using mset_eq_length [OF eq] by (simp only: owners_def length_append length_upt)
qed

lemma active_lookup:
  assumes "manager_wf m" "k < length (active_regions m)"
  shows "active_regions m ! k < length (regions m)"
    and "active_regions m ! k \<notin> set (free_regions m)"
    and "active_regions m ! k \<notin> set (idle_regions m)"
    and "j < length (active_regions m) \<Longrightarrow> active_regions m ! j = active_regions m ! k \<longleftrightarrow> j = k"
proof -
  have mem: "active_regions m ! k \<in> set (active_regions m)" using assms(2) by simp
  with owners_facts [OF assms(1)] show "active_regions m ! k < length (regions m)"
    "active_regions m ! k \<notin> set (free_regions m)" "active_regions m ! k \<notin> set (idle_regions m)"
    by (auto simp: owners_def)
  show "active_regions m ! j = active_regions m ! k \<longleftrightarrow> j = k" if "j < length (active_regions m)"
    using owners_facts(1) [OF assms(1)] that assms(2) by (simp add: owners_def nth_eq_iff_index_eq)
qed

lemma shard_ok_mono: "shard_ok next k a d sh \<Longrightarrow> next \<le> next' \<Longrightarrow> shard_ok next' k a d sh"
  by (auto simp: shard_ok_def submitted_ok_def open_ok_def tail_ok_def option.pred_set)

lemma desc_ok_mono: "desc_ok rsize next d \<Longrightarrow> next \<le> next' \<Longrightarrow> desc_ok rsize next' d"
  by (auto simp: desc_ok_def)

lemma mset_concat_update:
  "k < length xs \<Longrightarrow>
   mset (concat (map f (xs[k := y]))) + mset (f (xs ! k)) = mset (concat (map f xs)) + mset (f y)"
proof (induction xs arbitrary: k)
  case (Cons x xs)
  then show ?case by (cases k) (simp_all add: ac_simps)
qed simp

lemma concat_update_same:
  "k < length xs \<Longrightarrow> f y = f (xs ! k) \<Longrightarrow> map f (xs[k := y]) = map f xs"
  by (simp add: map_update list_update_same_conv)

text \<open>An operation that touches one shard and its Active Region only.\<close>

lemma wf_update_shard:
  assumes wf: "manager_wf m" and k: "k < length (active_regions m)"
    and a: "a = active_regions m ! k"
    and same: "active_regions m' = active_regions m" "free_regions m' = free_regions m"
      "sealed_regions m' = sealed_regions m" "reclaiming m' = reclaiming m"
      "reclaim_limit m' = reclaim_limit m" "queue_capacity m' = queue_capacity m"
      "rm_region_size m' = rm_region_size m"
    and seq: "next_seqno m \<le> next_seqno m'" "next_seqno m' \<le> u64_max"
    and upd: "regions m' = (regions m)[a := d]" "append_states m' = (append_states m)[k := sh]"
    and rot: "rotation sh = rotation (append_states m ! k)"
    and d: "desc_ok (rm_region_size m) (next_seqno m') d"
    and sh: "shard_ok (next_seqno m') k a d sh"
  shows "manager_wf m'"
proof -
  note w = wf [unfolded manager_wf_def]
  note al = active_lookup [OF wf k, folded a]
  have lens: "length (append_states m) = length (active_regions m)" using w by (simp add: manager_shape_def)
  have "map rotating (append_states m') = map rotating (append_states m)"
    unfolding upd using k lens rot by (intro concat_update_same) (simp_all add: rotating_def)
  then have idle: "idle_regions m' = idle_regions m" by (simp add: idle_regions_def same)
  have kept: "regions m' ! i = regions m ! i" if "i \<noteq> a" for i using that by (simp add: upd)
  have shards: "shard_ok (next_seqno m') j (active_regions m' ! j) (regions m' ! (active_regions m' ! j))
      (append_states m' ! j)" if "j < length (active_regions m')" for j
  proof (cases "j = k")
    case True
    then show ?thesis using sh k lens al(1) a by (simp add: same upd)
  next
    case False
    then have "active_regions m ! j \<noteq> a" using al(4) [of j] that by (simp add: same)
    moreover have "shard_ok (next_seqno m) j (active_regions m ! j) (regions m ! (active_regions m ! j))
        (append_states m ! j)" using w that same by simp
    ultimately show ?thesis
      using False seq(1) by (simp add: same upd) (blast intro: shard_ok_mono)
  qed
  have descs: "desc_ok (rm_region_size m') (next_seqno m') e" if "e \<in> set (regions m')" for e
  proof -
    have "e = d \<or> e \<in> set (regions m)" using that upd set_update_subset_insert by fastforce
    then show ?thesis using d w seq(1) same desc_ok_mono by (metis (no_types, lifting))
  qed
  have receipts: "receipt_ok (regions m') r" if "r \<in> set (reclaiming m')" for r
  proof -
    have "rc_region_id r \<in> set (idle_regions m)" using that same by (auto simp: idle_regions_def)
    then have "rc_region_id r \<noteq> a" using al(3) by blast
    then show ?thesis using w that same kept by (simp add: receipt_ok_def)
  qed
  have "manager_shape m'" using w same seq lens upd by (auto simp: manager_shape_def)
  moreover have "mset (owners m') = mset [0..<length (regions m')]"
    using w idle same upd by (simp add: owners_def)
  moreover have "\<forall>i \<in> set (free_regions m'). regions m' ! i = free_desc"
    using w al(2) same kept by metis
  moreover have "\<forall>i \<in> set (idle_regions m'). d_state (regions m' ! i) = Sealed
      \<and> completed_used (regions m' ! i) = reserved_used (regions m' ! i)"
    using w al(3) idle kept by metis
  ultimately show ?thesis unfolding manager_wf_def using shards descs receipts by blast
qed

lemma shard_lookup:
  assumes "manager_wf m"
  shows "length (append_states m) = length (active_regions m)"
    and "k < length (active_regions m) \<Longrightarrow>
      shard_ok (next_seqno m) k (active_regions m ! k) (regions m ! (active_regions m ! k)) (append_states m ! k)"
    and "i < length (regions m) \<Longrightarrow> desc_ok (rm_region_size m) (next_seqno m) (regions m ! i)"
  using assms by (simp_all add: manager_wf_def manager_shape_def)

section \<open>Alignment\<close>

lemma align_padding_int: "int (align_padding n) = (- int n) mod 4096"
proof -
  have "(of_nat (DIRECT_IO_ALIGNMENT - 1) :: u64) = mask 12"
    by (simp add: DIRECT_IO_ALIGNMENT_def mask_eq_exp_minus_1)
  then have "align_padding n = unat (take_bit 12 (- (of_nat n :: u64)))"
    by (simp add: align_padding_def take_bit_eq_mask)
  then have "int (align_padding n) = uint (take_bit 12 (- (of_nat n :: u64)))" by simp
  also have "\<dots> = take_bit 12 (uint (word_of_int (- int n) :: u64))"
    by (simp only: unsigned_take_bit_eq of_int_minus of_int_of_nat_eq)
  also have "\<dots> = (- int n) mod 2 ^ 64 mod 2 ^ 12" 
    by (simp only: uint_word_of_int take_bit_eq_mod) simp
  also have "\<dots> = (- int n) mod 2 ^ 12" by (rule mod_mod_cancel) simp
  finally show ?thesis by simp
qed

lemma align_padding_less: "align_padding n < 4096"
proof -
  have "int (align_padding n) < 4096" unfolding align_padding_int by simp
  then show ?thesis by simp
qed

lemma align_padding_sum: "(n + align_padding n) mod 4096 = 0"
proof -
  have "int (n + align_padding n) mod 4096 = (int n + - int n) mod 4096"
    unfolding of_nat_add align_padding_int mod_add_right_eq ..
  then have "int ((n + align_padding n) mod 4096) = 0" by (simp add: zmod_int)
  then show ?thesis by simp
qed

lemma align_padding_32: "n mod 32 = 0 \<Longrightarrow> align_padding n mod 32 = 0"
proof -
  assume "n mod 32 = 0"
  moreover have "(32::nat) dvd n + align_padding n"
  proof (rule dvd_trans)
    show "(4096::nat) dvd n + align_padding n" using align_padding_sum [of n] by (rule mod_0_imp_dvd)
  qed simp
  ultimately show ?thesis by (simp add: mod_eq_0_iff_dvd dvd_add_right_iff)
qed

lemma align_padding_fits:
  assumes "n \<le> s" "s mod 4096 = 0" shows "n + align_padding n \<le> s"
proof -
  from assms(2) obtain q where q: "s = 4096 * q" by auto
  obtain p where p: "n + align_padding n = 4096 * p" using align_padding_sum [of n] by auto
  have "4096 * p < 4096 * q + 4096" using assms(1) q p align_padding_less [of n] by linarith
  then have "p \<le> q" by simp
  then show ?thesis using p q by simp
qed

lemma shard_ok_request [simp]:
  "shard_ok next k a d (sh\<lparr>rotation_requested := b\<rparr>) = shard_ok next k a d sh"
proof -
  have "submitted_end d (sh\<lparr>rotation_requested := b\<rparr>) = submitted_end d sh"
    "open_end d (sh\<lparr>rotation_requested := b\<rparr>) = open_end d sh"
    by (simp_all add: submitted_end_def open_end_def split: option.split)
  moreover from this have "tail_ok next k a d (sh\<lparr>rotation_requested := b\<rparr>) = tail_ok next k a d sh"
    "padding_ok k a d (sh\<lparr>rotation_requested := b\<rparr>) = padding_ok k a d sh"
    "rotation_ok k a d (sh\<lparr>rotation_requested := b\<rparr>) = rotation_ok k a d sh"
    by (simp_all add: fun_eq_iff shard_parts)
  ultimately show ?thesis by (simp add: shard_ok_def)
qed

text \<open>What the code reads of a shard in a well-formed manager.\<close>

lemma wf_lookup:
  assumes "manager_wf m" "k < length (append_states m)"
  shows "k < length (active_regions m)" "active_regions m ! k < length (regions m)"
    "d_state (regions m ! (active_regions m ! k)) = Active"
    "reserved_used (regions m ! (active_regions m ! k)) \<le> rm_region_size m"
    "completed_used (regions m ! (active_regions m ! k)) \<le> reserved_used (regions m ! (active_regions m ! k))"
    "rm_region_size m \<le> 2 ^ 25" "rm_region_size m mod 4096 = 0"
proof -
  show k: "k < length (active_regions m)" using assms shard_lookup(1) by simp
  show a: "active_regions m ! k < length (regions m)" by (rule active_lookup(1) [OF assms(1) k])
  show "d_state (regions m ! (active_regions m ! k)) = Active"
    using shard_lookup(2) [OF assms(1) k] by (simp add: shard_ok_def)
  show "reserved_used (regions m ! (active_regions m ! k)) \<le> rm_region_size m"
    "completed_used (regions m ! (active_regions m ! k)) \<le> reserved_used (regions m ! (active_regions m ! k))"
    using shard_lookup(3) [OF assms(1) a] by (simp_all add: desc_ok_def)
  show "rm_region_size m \<le> 2 ^ 25" "rm_region_size m mod 4096 = 0"
    using assms(1) by (simp_all add: manager_wf_def manager_shape_def DIRECT_IO_ALIGNMENT_def)
qed

lemma wf_request:
  assumes wf: "manager_wf m" and k: "k < length (append_states m)"
  shows "manager_wf (update_shard k (\<lambda>sh. sh\<lparr>rotation_requested := True\<rparr>) m)"
proof -
  note l = wf_lookup [OF assms]
  show ?thesis
    by (rule wf_update_shard [OF wf l(1) refl, where d = "regions m ! (active_regions m ! k)"
        and sh = "(append_states m ! k)\<lparr>rotation_requested := True\<rparr>"])
      (use wf shard_lookup(2) [OF wf l(1)] shard_lookup(3) [OF wf l(2)] in
        \<open>simp_all add: update_shard_def manager_wf_def manager_shape_def\<close>)
qed

lemma request_rotation_wf:
  assumes "manager_wf m"
  shows "manager_wf (snd (request_rotation_for_append k n m))"
  using assms wf_request [OF assms, of k]
  by (auto simp: request_rotation_for_append_def split: option.split)

lemma next_seqno_bound: "manager_wf m \<Longrightarrow> next_seqno m \<le> u64_max"
  by (simp add: manager_wf_def manager_shape_def)

lemma reserve_append_success:
  assumes "reserve_append k n m = (Inr t, m')" "manager_wf m"
  defines "a \<equiv> active_regions m ! k"
  defines "d \<equiv> regions m ! a" and "sh \<equiv> append_states m ! k"
  shows "k < length (append_states m)" "0 < n" "n mod 32 = 0"
    "tail sh = None" "pending_padding sh = None" "rotation sh = None"
    "t = \<lparr>ra_shard_id = k, ra_region_id = a, ra_region_created_seqno = d_created_seqno d,
           ra_offset = reserved_used d, ra_record_bytes = n, ra_seqno = next_seqno m\<rparr>"
    "reserved_used d + n \<le> rm_region_size m" "next_seqno m < u64_max"
    "m' = m\<lparr>next_seqno := next_seqno m + 1, regions := (regions m)[a := d\<lparr>reserved_used := reserved_used d + n\<rparr>],
            append_states := (append_states m)[k := sh\<lparr>tail := Some t\<rparr>]\<rparr>"
  using assms next_seqno_bound [OF assms(2)]
  by (auto simp: reserve_append_def allocate_seqno_def update_shard_def update_region_def RECORD_ALIGNMENT_def
      Let_def split: if_splits option.splits)

text \<open>A failed reservation changes at most the rotation request of its shard.\<close>

lemma reserve_append_failure:
  assumes "reserve_append k n m = (Inl e, m')" "manager_wf m"
  shows "m' = m \<or> k < length (append_states m)
           \<and> m' = update_shard k (\<lambda>sh. sh\<lparr>rotation_requested := True\<rparr>) m"
  using assms by (auto simp: reserve_append_def allocate_seqno_def Let_def split: if_splits option.splits)

lemma reserve_append_wf:
  assumes wf: "manager_wf m" and n: "MIN_ENCODED_RECORD_SIZE \<le> n"
  shows "manager_wf (snd (reserve_append k n m))"
proof (cases "reserve_append k n m")
  case (Pair res m')
  show ?thesis
  proof (cases res)
    case (Inl e)
    with reserve_append_failure [OF _ wf] Pair wf_request [OF wf] wf show ?thesis by fastforce
  next
    case (Inr t)
    with Pair have ok: "reserve_append k n m = (Inr t, m')" by simp
    note r = reserve_append_success [OF ok wf]
    note l = wf_lookup [OF wf r(1)]
    let ?d = "regions m ! (active_regions m ! k)" and ?sh = "append_states m ! k"
    note s = shard_lookup(2) [OF wf l(1)] and dd = shard_lookup(3) [OF wf l(2)]
    have "manager_wf m'"
    proof (rule wf_update_shard [OF wf l(1) refl, where d = "?d\<lparr>reserved_used := reserved_used ?d + n\<rparr>"
          and sh = "?sh\<lparr>tail := Some t\<rparr>"])
      show "desc_ok (rm_region_size m) (next_seqno m') (?d\<lparr>reserved_used := reserved_used ?d + n\<rparr>)"
        using dd r(3,8,10) by (auto simp: desc_ok_def)
      show "shard_ok (next_seqno m') k (active_regions m ! k) (?d\<lparr>reserved_used := reserved_used ?d + n\<rparr>)
          (?sh\<lparr>tail := Some t\<rparr>)"
        using s r n dd by (auto simp: shard_ok_def shard_parts submitted_end_def open_end_def io_sizes
            desc_ok_def option.pred_set split: option.splits)
    qed (use r in simp_all)
    with Pair show ?thesis by simp
  qed
qed

section \<open>Staging, padding, sealing, completing\<close>

lemma stage_reservation_ok:
  assumes wf: "manager_wf m" and k: "ra_shard_id t < length (append_states m)"
    and t: "tail (append_states m ! ra_shard_id t) = Some t"
  obtains sp where
    "stage_reservation t m = (Inr (), update_shard (ra_shard_id t) (\<lambda>sh. sh\<lparr>open_span := Some sp, tail := None\<rparr>) m)"
    "open_ok (next_seqno m) (submitted_end (regions m ! ra_region_id t) (append_states m ! ra_shard_id t))
       (ra_region_id t) (regions m ! ra_region_id t) sp"
    "os_end_offset sp = ra_offset t + ra_record_bytes t"
proof -
  let ?k = "ra_shard_id t" and ?a = "ra_region_id t"
  let ?d = "regions m ! ?a" and ?sh = "append_states m ! ?k"
  note l = wf_lookup [OF wf k]
  note s = shard_lookup(2) [OF wf l(1)]
  have a: "active_regions m ! ?k = ?a" using s t by (simp add: shard_ok_def tail_ok_def)
  have tk: "tail_ok (next_seqno m) ?k ?a ?d ?sh t" using s t a by (simp add: shard_ok_def)
  have r32: "reserved_used ?d mod 32 = 0" using shard_lookup(3) [OF wf l(2)] a by (simp add: desc_ok_def)
  have bound: "ra_offset t + ra_record_bytes t \<le> 2 ^ 25" using tk l a by (simp add: tail_ok_def)
  have op: "pred_option (open_ok (next_seqno m) (submitted_end ?d ?sh) ?a ?d) (open_span ?sh)"
    using s a by (simp add: shard_ok_def)
  have "\<exists>sp. extend_open_span t (ra_offset t + ra_record_bytes t) (open_span ?sh) = Inr sp
      \<and> open_ok (next_seqno m) (submitted_end ?d ?sh) ?a ?d sp \<and> os_end_offset sp = ra_offset t + ra_record_bytes t"
  proof (cases "open_span ?sh")
    case None
    then show ?thesis using tk s a r32
      by (auto simp: extend_open_span_def shard_parts open_end_def io_sizes)
  next
    case (Some sp)
    then have sp: "open_ok (next_seqno m) (submitted_end ?d ?sh) ?a ?d sp" using op by simp
    have "os_record_count sp * 64 \<le> os_end_offset sp" "os_end_offset sp \<le> 2 ^ 25"
      using sp tk Some bound by (auto simp: shard_parts open_end_def io_sizes)
    then have "os_record_count sp + 1 \<le> u64_max" by (simp add: u64_max_def)
    with sp tk Some r32 show ?thesis
      by (auto simp: extend_open_span_def shard_parts open_end_def io_sizes checked_add_def)
  qed
  then obtain sp where sp: "extend_open_span t (ra_offset t + ra_record_bytes t) (open_span ?sh) = Inr sp"
    "open_ok (next_seqno m) (submitted_end ?d ?sh) ?a ?d sp" "os_end_offset sp = ra_offset t + ra_record_bytes t"
    by blast
  show thesis
    by (rule that [OF _ sp(2,3)])
      (use sp(1) k t bound in \<open>simp add: stage_reservation_def reservation_end_offset_def checked_add_def
         get_at_def u64_max_def\<close>)
qed

lemma stage_reservation_wf:
  assumes wf: "manager_wf m" shows "manager_wf (snd (stage_reservation t m))"
proof (cases "ra_shard_id t < length (append_states m) \<and> tail (append_states m ! ra_shard_id t) = Some t")
  case True
  let ?k = "ra_shard_id t" and ?a = "ra_region_id t"
  let ?d = "regions m ! ?a" and ?sh = "append_states m ! ?k"
  obtain sp where sp: "stage_reservation t m = (Inr (), update_shard ?k (\<lambda>sh. sh\<lparr>open_span := Some sp, tail := None\<rparr>) m)"
    "open_ok (next_seqno m) (submitted_end ?d ?sh) ?a ?d sp" "os_end_offset sp = ra_offset t + ra_record_bytes t"
    using stage_reservation_ok [OF wf] True by blast
  note l = wf_lookup [OF wf True [THEN conjunct1]]
  note s = shard_lookup(2) [OF wf l(1)] and dd = shard_lookup(3) [OF wf l(2)]
  have a: "active_regions m ! ?k = ?a" using s True by (simp add: shard_ok_def tail_ok_def)
  have "manager_wf (update_shard ?k (\<lambda>sh. sh\<lparr>open_span := Some sp, tail := None\<rparr>) m)"
  proof (rule wf_update_shard [OF wf l(1) refl, where d = ?d and sh = "?sh\<lparr>open_span := Some sp, tail := None\<rparr>"])
    show "shard_ok (next_seqno (update_shard ?k (\<lambda>sh. sh\<lparr>open_span := Some sp, tail := None\<rparr>) m)) ?k
        (active_regions m ! ?k) ?d (?sh\<lparr>open_span := Some sp, tail := None\<rparr>)"
      using s sp(2,3) True a
      by (auto simp: update_shard_def shard_ok_def submitted_end_def open_end_def tail_ok_def padding_ok_def
          rotation_ok_def option.pred_set)
  qed (use l a dd next_seqno_bound [OF wf] in \<open>simp_all add: update_shard_def\<close>)
  with sp(1) show ?thesis by simp
next
  case False
  then have "snd (stage_reservation t m) = m"
    by (auto simp: stage_reservation_def split: option.split)
  with wf show ?thesis by simp
qed

text \<open>On a well-formed manager, padding is refused only with \<open>WouldBlock\<close> or without staged records.\<close>

lemma reserve_write_padding_ok:
  assumes wf: "manager_wf m" and k: "k < length (append_states m)"
    and sh: "tail (append_states m ! k) = None" "pending_padding (append_states m ! k) = None"
      "submitted_span (append_states m ! k) = None" "rotation (append_states m ! k) = None"
      "open_span (append_states m ! k) = Some sp"
  defines "pad \<equiv> align_padding (os_end_offset sp)"
  defines "p \<equiv> \<lparr>rp_shard_id = k, rp_region_id = os_region_id sp, rp_span_start_offset = os_start_offset sp,
      rp_unpadded_end_offset = os_end_offset sp, rp_padded_end_offset = os_end_offset sp + pad,
      rp_record_count = os_record_count sp, rp_max_seqno = os_max_seqno sp\<rparr>"
  shows "reserve_write_padding k m =
    (if pad = 0 then (Inr None, m)
     else (Inr (Some p), update_shard k (\<lambda>sh. sh\<lparr>pending_padding := Some p\<rparr>)
             (update_region (os_region_id sp) (\<lambda>d. d\<lparr>reserved_used := os_end_offset sp + pad\<rparr>) m)))"
    and "os_region_id sp = active_regions m ! k"
    and "reserved_used (regions m ! (active_regions m ! k)) = os_end_offset sp"
    and "os_end_offset sp + pad \<le> rm_region_size m"
proof -
  note l = wf_lookup [OF wf k]
  note s = shard_lookup(2) [OF wf l(1)] and dd = shard_lookup(3) [OF wf l(2)]
  have op: "open_ok (next_seqno m) (completed_used (regions m ! (active_regions m ! k)))
      (active_regions m ! k) (regions m ! (active_regions m ! k)) sp"
    using s sh by (simp add: shard_ok_def submitted_end_def)
  show a: "os_region_id sp = active_regions m ! k" using op by (simp add: open_ok_def)
  show res: "reserved_used (regions m ! (active_regions m ! k)) = os_end_offset sp"
    using s sh by (simp add: shard_ok_def open_end_def)
  show fits: "os_end_offset sp + pad \<le> rm_region_size m"
    unfolding pad_def using align_padding_fits l res by simp
  have "0 < d_created_seqno (regions m ! (active_regions m ! k))" using dd l(3) by (auto simp: desc_ok_def)
  moreover have "pad < 4096" "(os_end_offset sp + pad) mod 4096 = 0" "pad mod 32 = 0"
    using align_padding_less align_padding_sum align_padding_32 [of "os_end_offset sp"] op
    by (simp_all add: pad_def open_ok_def RECORD_ALIGNMENT_def)
  moreover have "os_end_offset sp + pad \<le> u64_max" using fits l(6) by (simp add: u64_max_def)
  moreover have "completed_used (regions m ! (active_regions m ! k)) mod 4096 = 0"
    using s by (simp add: shard_ok_def DIRECT_IO_ALIGNMENT_def)
  ultimately show "reserve_write_padding k m =
    (if pad = 0 then (Inr None, m)
     else (Inr (Some p), update_shard k (\<lambda>sh. sh\<lparr>pending_padding := Some p\<rparr>)
             (update_region (os_region_id sp) (\<lambda>d. d\<lparr>reserved_used := os_end_offset sp + pad\<rparr>) m)))"
    using k sh a res op l fits
    by (simp add: reserve_write_padding_def get_at_def open_ok_def io_sizes Let_def checked_add_def
        pad_def [symmetric] p_def)
qed


lemma reserve_write_padding_blocked:
  assumes wf: "manager_wf m"
    and no: "\<not> (k < length (append_states m) \<and> tail (append_states m ! k) = None
      \<and> pending_padding (append_states m ! k) = None \<and> submitted_span (append_states m ! k) = None
      \<and> rotation (append_states m ! k) = None \<and> open_span (append_states m ! k) \<noteq> None)"
  shows "\<exists>e. reserve_write_padding k m = (Inl e, m)
     \<and> (e = InvalidShard \<or> e = WouldBlock \<or> e = Invariant ''data shard has no staged records'')"
  using no by (auto simp: reserve_write_padding_def split: option.split)

lemma reserve_write_padding_wf:
  assumes wf: "manager_wf m" shows "manager_wf (snd (reserve_write_padding k m))"
proof (cases "k < length (append_states m) \<and> tail (append_states m ! k) = None
      \<and> pending_padding (append_states m ! k) = None \<and> submitted_span (append_states m ! k) = None
      \<and> rotation (append_states m ! k) = None \<and> open_span (append_states m ! k) \<noteq> None")
  case False
  then obtain e where "reserve_write_padding k m = (Inl e, m)"
    using reserve_write_padding_blocked [OF wf] by blast
  with wf show ?thesis by simp
next
  case True
  then obtain sp where sp: "open_span (append_states m ! k) = Some sp" and k: "k < length (append_states m)"
    by blast
  let ?a = "active_regions m ! k"
  let ?d = "regions m ! ?a" and ?sh = "append_states m ! k" and ?pad = "align_padding (os_end_offset sp)"
  note l = wf_lookup [OF wf k]
  note s = shard_lookup(2) [OF wf l(1)] and dd = shard_lookup(3) [OF wf l(2)]
  note w = reserve_write_padding_ok [OF wf k _ _ _ _ sp]
  have op: "open_ok (next_seqno m) (submitted_end ?d ?sh) ?a ?d sp" using s sp by (simp add: shard_ok_def)
  have sum: "(os_end_offset sp + ?pad) mod 4096 = 0" and less: "?pad < 4096"
    by (rule align_padding_sum) (rule align_padding_less)
  then have "(32::nat) dvd os_end_offset sp + ?pad"
    using dvd_trans [of 32 "4096::nat"] by (simp add: mod_eq_0_iff_dvd)
  then have m32: "(os_end_offset sp + ?pad) mod 32 = 0" by simp
  show ?thesis
  proof (cases "?pad = 0")
    case True
    with w(1) \<open>k < _ \<and> _\<close> wf show ?thesis by simp
  next
    case False
    define p where "p = \<lparr>rp_shard_id = k, rp_region_id = os_region_id sp, rp_span_start_offset = os_start_offset sp,
      rp_unpadded_end_offset = os_end_offset sp, rp_padded_end_offset = os_end_offset sp + ?pad,
      rp_record_count = os_record_count sp, rp_max_seqno = os_max_seqno sp\<rparr>"
    define m' where "m' = update_shard k (\<lambda>sh. sh\<lparr>pending_padding := Some p\<rparr>)
             (update_region ?a (\<lambda>d. d\<lparr>reserved_used := os_end_offset sp + ?pad\<rparr>) m)"
    have eq: "snd (reserve_write_padding k m) = m'"
      using w(1,2) \<open>k < _ \<and> _\<close> False by (simp add: m'_def p_def)
    have mp: "padding_matches_span p sp"
      using False less sum by (simp add: padding_matches_span_def p_def padding_bytes_def checked_sub_def
          try_from_def u32_max_def DIRECT_IO_ALIGNMENT_def)
    have "manager_wf m'"
    proof (rule wf_update_shard [OF wf l(1) refl, where d = "?d\<lparr>reserved_used := os_end_offset sp + ?pad\<rparr>"
          and sh = "?sh\<lparr>pending_padding := Some p\<rparr>"])
      show "desc_ok (rm_region_size m) (next_seqno m') (?d\<lparr>reserved_used := os_end_offset sp + ?pad\<rparr>)"
        using dd w(3,4) \<open>k < _ \<and> _\<close> m32 by (auto simp: desc_ok_def m'_def update_shard_def update_region_def)
      show "shard_ok (next_seqno m') k ?a (?d\<lparr>reserved_used := os_end_offset sp + ?pad\<rparr>)
          (?sh\<lparr>pending_padding := Some p\<rparr>)"
        using s \<open>k < _ \<and> _\<close> sp mp op
        by (simp add: shard_ok_def submitted_end_def open_end_def m'_def update_shard_def update_region_def
            padding_ok_def open_ok_def p_def)
    qed (use l next_seqno_bound [OF wf] in \<open>simp_all add: m'_def update_shard_def update_region_def\<close>)
    with eq show ?thesis by simp
  qed
qed


lemma submit_open_span_wf:
  assumes wf: "manager_wf m" and k: "k < length (append_states m)"
    and sh: "tail (append_states m ! k) = None" "submitted_span (append_states m ! k) = None"
      "rotation (append_states m ! k) = None" "open_span (append_states m ! k) = Some sp"
    and e: "e = reserved_used (regions m ! (active_regions m ! k))" "os_end_offset sp \<le> e"
  shows "manager_wf (snd (submit_open_span k e m))"
    and "e mod 4096 = 0 \<Longrightarrow> \<exists>w. fst (submit_open_span k e m) = Inr w \<and> ws_end_offset w = e
      \<and> ws_region_id w = os_region_id sp \<and> ws_start_offset w = os_start_offset sp"
proof -
  let ?a = "active_regions m ! k"
  let ?d = "regions m ! ?a" and ?sh = "append_states m ! k"
  note l = wf_lookup [OF wf k]
  note s = shard_lookup(2) [OF wf l(1)] and dd = shard_lookup(3) [OF wf l(2)]
  have op: "open_ok (next_seqno m) (completed_used ?d) ?a ?d sp"
    using s sh by (simp add: shard_ok_def submitted_end_def)
  define w where "w = \<lparr>ws_shard_id = k, ws_region_id = os_region_id sp, ws_start_offset = os_start_offset sp,
      ws_end_offset = e, ws_record_count = os_record_count sp, ws_max_seqno = os_max_seqno sp\<rparr>"
  define m' where "m' = update_shard k (\<lambda>sh. sh\<lparr>open_span := None, pending_padding := None,
      submitted_span := Some w\<rparr>) m"
  have st: "os_start_offset sp mod 4096 = 0" "os_start_offset sp < e"
    using op s e by (auto simp: open_ok_def shard_ok_def DIRECT_IO_ALIGNMENT_def)
  have eq: "submit_open_span k e m = (if e mod 4096 = 0 then (Inr w, m') else
      (Inl (Invariant ''submitted write span is not direct-I/O aligned''), m))"
    using k sh(4) st by (simp add: submit_open_span_def get_at_def m'_def w_def DIRECT_IO_ALIGNMENT_def Let_def)
  then show "e mod 4096 = 0 \<Longrightarrow> \<exists>w. fst (submit_open_span k e m) = Inr w \<and> ws_end_offset w = e
      \<and> ws_region_id w = os_region_id sp \<and> ws_start_offset w = os_start_offset sp"
    by (simp add: w_def)
  have "manager_wf m'" if "e mod 4096 = 0"
  proof (rule wf_update_shard [OF wf l(1) refl, where d = ?d
        and sh = "?sh\<lparr>open_span := None, pending_padding := None, submitted_span := Some w\<rparr>"])
    show "shard_ok (next_seqno m') k ?a ?d (?sh\<lparr>open_span := None, pending_padding := None, submitted_span := Some w\<rparr>)"
      using s sh op that e
      by (auto simp: shard_ok_def submitted_end_def open_end_def submitted_ok_def open_ok_def m'_def
          update_shard_def DIRECT_IO_ALIGNMENT_def w_def)
  qed (use l dd next_seqno_bound [OF wf] in \<open>simp_all add: m'_def update_shard_def\<close>)
  with eq wf show "manager_wf (snd (submit_open_span k e m))" by simp
qed

lemma seal_write_span_wf:
  assumes wf: "manager_wf m" shows "manager_wf (snd (seal_write_span k m))"
proof (cases "k < length (append_states m) \<and> tail (append_states m ! k) = None
      \<and> pending_padding (append_states m ! k) = None \<and> submitted_span (append_states m ! k) = None
      \<and> rotation (append_states m ! k) = None \<and> open_span (append_states m ! k) \<noteq> None")
  case True
  then obtain sp where sp: "open_span (append_states m ! k) = Some sp" by blast
  have k: "k < length (append_states m)" using True by blast
  have "seal_write_span k m = submit_open_span k (os_end_offset sp) m"
    using True sp by (simp add: seal_write_span_def get_at_def)
  moreover have "os_end_offset sp = reserved_used (regions m ! (active_regions m ! k))"
    using shard_lookup(2) [OF wf] wf_lookup(1) [OF wf k] True sp by (simp add: shard_ok_def open_end_def)
  ultimately show ?thesis using submit_open_span_wf(1) [OF wf k _ _ _ sp] True by simp
next
  case False
  then have "snd (seal_write_span k m) = m" by (auto simp: seal_write_span_def split: option.split)
  with wf show ?thesis by simp
qed

text \<open>A pending padding receipt is always accepted once the previous span has completed.\<close>

lemma seal_with_padding_ok:
  assumes wf: "manager_wf m" and k: "rp_shard_id p < length (append_states m)"
    and p: "pending_padding (append_states m ! rp_shard_id p) = Some p"
  shows "seal_write_span_with_padding p m = submit_open_span (rp_shard_id p) (rp_padded_end_offset p) m"
    and "manager_wf (snd (seal_write_span_with_padding p m))"
    and "\<exists>w. fst (seal_write_span_with_padding p m) = Inr w \<and> ws_end_offset w = rp_padded_end_offset p"
proof -
  let ?k = "rp_shard_id p"
  let ?a = "active_regions m ! ?k"
  let ?d = "regions m ! ?a" and ?sh = "append_states m ! ?k"
  note l = wf_lookup [OF wf k]
  note s = shard_lookup(2) [OF wf l(1)]
  have pk: "padding_ok ?k ?a ?d ?sh p" using s p by (simp add: shard_ok_def)
  then obtain sp where sp: "open_span ?sh = Some sp" "padding_matches_span p sp"
    by (auto simp: padding_ok_def split: option.splits)
  have op: "open_ok (next_seqno m) (submitted_end ?d ?sh) ?a ?d sp" using s sp by (simp add: shard_ok_def)
  show eq: "seal_write_span_with_padding p m = submit_open_span ?k (rp_padded_end_offset p) m"
    using k p pk sp op l
    by (auto simp: seal_write_span_with_padding_def get_at_def padding_ok_def open_ok_def padding_matches_span_def)
  have pad: "rp_padded_end_offset p = reserved_used ?d" "rp_padded_end_offset p mod 4096 = 0"
    "os_end_offset sp \<le> rp_padded_end_offset p"
    using pk sp by (auto simp: padding_ok_def padding_matches_span_def DIRECT_IO_ALIGNMENT_def padding_bytes_def
        Option.bind_eq_Some_conv split: option.splits)
  have sh: "tail ?sh = None" "submitted_span ?sh = None" "rotation ?sh = None"
    using pk by (simp_all add: padding_ok_def)
  note sub = submit_open_span_wf [OF wf k sh sp(1) pad(1,3)]
  show "manager_wf (snd (seal_write_span_with_padding p m))" using sub(1) eq by simp
  show "\<exists>w. fst (seal_write_span_with_padding p m) = Inr w \<and> ws_end_offset w = rp_padded_end_offset p"
    using sub(2) [OF pad(2)] eq by auto
qed

lemma seal_with_padding_wf:
  assumes wf: "manager_wf m" shows "manager_wf (snd (seal_write_span_with_padding p m))"
proof (cases "rp_shard_id p < length (append_states m) \<and> pending_padding (append_states m ! rp_shard_id p) = Some p")
  case True
  with seal_with_padding_ok(2) [OF wf] show ?thesis by blast
next
  case False
  then have "snd (seal_write_span_with_padding p m) = m"
    by (auto simp: seal_write_span_with_padding_def split: option.split)
  with wf show ?thesis by simp
qed

lemma shard_open_end: "shard_ok next k a d sh \<Longrightarrow> open_end d sh \<le> reserved_used d"
  by (cases "tail sh"; cases "pending_padding sh")
    (auto simp: shard_ok_def tail_ok_def padding_ok_def padding_matches_span_def padding_bytes_def
      open_end_def Option.bind_eq_Some_conv split: option.splits)

text \<open>The completion of the submitted span is always accepted and moves the completed prefix.\<close>

lemma complete_write_span_ok:
  assumes wf: "manager_wf m" and k: "ws_shard_id w < length (append_states m)"
    and w: "submitted_span (append_states m ! ws_shard_id w) = Some w"
  shows "complete_write_span w m =
    (Inr (), update_shard (ws_shard_id w) (\<lambda>sh. sh\<lparr>submitted_span := None\<rparr>)
       (update_region (ws_region_id w) (\<lambda>d. d\<lparr>completed_used := ws_end_offset w,
          d_physical_record_count := d_physical_record_count d + ws_record_count w\<rparr>) m))"
    and "manager_wf (snd (complete_write_span w m))"
proof -
  let ?k = "ws_shard_id w"
  let ?a = "active_regions m ! ?k"
  let ?d = "regions m ! ?a" and ?sh = "append_states m ! ?k"
  note l = wf_lookup [OF wf k]
  note s = shard_lookup(2) [OF wf l(1)] and dd = shard_lookup(3) [OF wf l(2)]
  have wk: "submitted_ok (next_seqno m) ?k ?a ?d w" using s w by (simp add: shard_ok_def)
  have ends: "ws_end_offset w \<le> open_end ?d ?sh" "open_end ?d ?sh \<le> reserved_used ?d"
    using s w shard_open_end [OF s]
    by (auto simp: shard_ok_def open_end_def submitted_end_def open_ok_def split: option.splits)
  have count: "(d_physical_record_count ?d + ws_record_count w) * 64 \<le> ws_end_offset w"
    using dd wk by (auto simp: desc_ok_def submitted_ok_def io_sizes add_mult_distrib)
  have "d_physical_record_count ?d + ws_record_count w \<le> u64_max"
    using count ends l by (simp add: u64_max_def)
  then show eq: "complete_write_span w m =
    (Inr (), update_shard (ws_shard_id w) (\<lambda>sh. sh\<lparr>submitted_span := None\<rparr>)
       (update_region (ws_region_id w) (\<lambda>d. d\<lparr>completed_used := ws_end_offset w,
          d_physical_record_count := d_physical_record_count d + ws_record_count w\<rparr>) m))"
    using k w wk l ends
    by (simp add: complete_write_span_def get_at_def submitted_ok_def checked_add_def update_region_def)
  have al: "ws_end_offset w mod 32 = 0"
    using wk dvd_trans [of 32 "4096::nat"] by (simp add: submitted_ok_def io_sizes mod_eq_0_iff_dvd)
  have "manager_wf (update_shard ?k (\<lambda>sh. sh\<lparr>submitted_span := None\<rparr>)
       (update_region (ws_region_id w) (\<lambda>d. d\<lparr>completed_used := ws_end_offset w,
          d_physical_record_count := d_physical_record_count d + ws_record_count w\<rparr>) m))" (is "manager_wf ?m'")
  proof (rule wf_update_shard [OF wf l(1) refl, where sh = "?sh\<lparr>submitted_span := None\<rparr>"
        and d = "?d\<lparr>completed_used := ws_end_offset w,
          d_physical_record_count := d_physical_record_count ?d + ws_record_count w\<rparr>"])
    show "desc_ok (rm_region_size m) (next_seqno ?m') (?d\<lparr>completed_used := ws_end_offset w,
          d_physical_record_count := d_physical_record_count ?d + ws_record_count w\<rparr>)"
      using dd wk ends count al
      by (auto simp: desc_ok_def update_shard_def update_region_def submitted_ok_def io_sizes)
    show "shard_ok (next_seqno ?m') ?k ?a (?d\<lparr>completed_used := ws_end_offset w,
          d_physical_record_count := d_physical_record_count ?d + ws_record_count w\<rparr>) (?sh\<lparr>submitted_span := None\<rparr>)"
      using s w wk
      by (auto simp: shard_ok_def open_end_def submitted_end_def submitted_ok_def open_ok_def tail_ok_def
          padding_ok_def rotation_ok_def update_shard_def update_region_def option.pred_set split: option.splits)
  qed (use l wk next_seqno_bound [OF wf] in \<open>simp_all add: update_shard_def update_region_def submitted_ok_def\<close>)
  with eq show "manager_wf (snd (complete_write_span w m))" by simp
qed

lemma complete_write_span_wf:
  assumes wf: "manager_wf m" shows "manager_wf (snd (complete_write_span w m))"
proof (cases "ws_shard_id w < length (append_states m) \<and> submitted_span (append_states m ! ws_shard_id w) = Some w")
  case True
  with complete_write_span_ok(2) [OF wf] show ?thesis by blast
next
  case False
  then have "snd (complete_write_span w m) = m"
    by (auto simp: complete_write_span_def split: option.split)
  with wf show ?thesis by simp
qed

end
