(* ===== verification/Region_Lifecycle.thy ===== *)
theory Region_Lifecycle
  imports Region_Invariant
begin

text \<open>
  Rotation and reclaim of Regions keep the manager invariant: each Region changes its one owner
  along the cycle free, active, rotating, sealed, reclaiming, free.
\<close>

section \<open>Rotation\<close>

lemma manager_wfI:
  assumes "manager_shape m" "mset (owners m) = mset [0..<length (regions m)]"
    and "\<And>i. i < length (regions m) \<Longrightarrow> desc_ok (rm_region_size m) (next_seqno m) (regions m ! i)"
    and "\<And>k. k < length (active_regions m) \<Longrightarrow>
          shard_ok (next_seqno m) k (active_regions m ! k) (regions m ! (active_regions m ! k)) (append_states m ! k)"
    and "\<And>i. i \<in> set (free_regions m) \<Longrightarrow> regions m ! i = free_desc"
    and "\<And>i. i \<in> set (idle_regions m) \<Longrightarrow> d_state (regions m ! i) = Sealed
          \<and> completed_used (regions m ! i) = reserved_used (regions m ! i)"
    and "\<And>r. r \<in> set (reclaiming m) \<Longrightarrow> receipt_ok (regions m) r"
  shows "manager_wf m"
  using assms by (auto simp: manager_wf_def all_set_conv_all_nth)

lemma wf_owned:
  assumes "manager_wf m"
  shows "i \<in> set (free_regions m) \<Longrightarrow> i < length (regions m) \<and> regions m ! i = free_desc
           \<and> i \<notin> set (active_regions m) \<and> i \<notin> set (idle_regions m)"
    and "i \<in> set (idle_regions m) \<Longrightarrow> i < length (regions m) \<and> d_state (regions m ! i) = Sealed
           \<and> completed_used (regions m ! i) = reserved_used (regions m ! i) \<and> i \<notin> set (active_regions m)"
    and "r \<in> set (reclaiming m) \<Longrightarrow> receipt_ok (regions m) r \<and> rc_region_id r \<in> set (idle_regions m)"
  using assms owners_facts(1,2) [OF assms]
  by (auto simp: manager_wf_def owners_def idle_regions_def)

lemma select_rotation_Inr:
  assumes "select_rotation m k = Inr sel" "manager_wf m"
  defines "a \<equiv> active_regions m ! k" and "sh \<equiv> append_states m ! k"
  shows "k < length (append_states m)" "is_quiescent sh" "reserved_used (regions m ! a) = completed_used (regions m ! a)"
    "free_regions m \<noteq> []" "sel_old_index sel = a" "sel_victim_index sel = hd (free_regions m)"
    "sel_candidate sel = \<lparr>cand_shard_id = k, cand_victim_region_id = hd (free_regions m),
       cand_victim_created_seqno = d_created_seqno (regions m ! hd (free_regions m))\<rparr>"
  using assms by (auto simp: select_rotation_def is_quiescent_def hd_conv_nth split: if_splits)

text \<open>On a well-formed manager the selection fails only because it has to wait.\<close>

lemma select_rotation_Inl:
  assumes "manager_wf m" "select_rotation m k = Inl e"
  shows "e = InvalidShard \<and> length (append_states m) \<le> k \<or> e = WouldBlock"
proof (cases "k < length (append_states m)")
  case True
  note l = wf_lookup [OF assms(1) True]
  have free: "free_regions m ! 0 < length (regions m)" "d_state (regions m ! (free_regions m ! 0)) = Free"
    "free_regions m ! 0 \<noteq> active_regions m ! k" if "free_regions m \<noteq> []"
    using wf_owned(1) [OF assms(1), of "free_regions m ! 0"] that l(1) nth_mem
    by (auto simp: free_desc_def)
  show ?thesis using assms(2) True l free
    by (auto simp: select_rotation_def get_at_def split: if_splits)
qed (use assms in \<open>auto simp: select_rotation_def get_at_def\<close>)

lemma begin_rotation_success:
  assumes "begin_rotation c m = (Inr r, m')" "manager_wf m"
  defines "k \<equiv> cand_shard_id c" and "v \<equiv> hd (free_regions m)" 
  defines "a \<equiv> active_regions m ! k" and "sh \<equiv> append_states m ! k"
  shows "k < length (append_states m)" "is_quiescent sh"
    "reserved_used (regions m ! a) = completed_used (regions m ! a)" "free_regions m \<noteq> []"
    "next_seqno m < u64_max"
    "r = \<lparr>rr_shard_id = k, rr_sealed_region_id = a, rr_activated_region_id = v,
          rr_activated_created_seqno = next_seqno m\<rparr>"
    "m' = m\<lparr>next_seqno := next_seqno m + 1, free_regions := tl (free_regions m),
        regions := (regions m)[a := (regions m ! a)\<lparr>d_state := Sealed\<rparr>,
          v := \<lparr>d_state = Active, d_created_seqno = next_seqno m, completed_used = 0, reserved_used = 0,
                d_physical_record_count = 0\<rparr>],
        active_regions := (active_regions m)[k := v],
        append_states := (append_states m)[k := sh\<lparr>rotation_requested := False, rotation := Some r\<rparr>]\<rparr>"
proof -
  obtain sel where sel: "select_rotation m k = Inr sel" "sel_candidate sel = c"
    using assms(1) by (auto simp: begin_rotation_def k_def split: sum.splits if_splits)
  note s = select_rotation_Inr [OF sel(1) assms(2)]
  show "k < length (append_states m)" "is_quiescent sh"
    "reserved_used (regions m ! a) = completed_used (regions m ! a)" "free_regions m \<noteq> []"
    using s by (simp_all add: a_def sh_def)
  have c: "cand_victim_region_id c = v" using s(7) sel(2) by (auto simp: v_def)
  show "next_seqno m < u64_max" "r = \<lparr>rr_shard_id = k, rr_sealed_region_id = a, rr_activated_region_id = v,
          rr_activated_created_seqno = next_seqno m\<rparr>"
    "m' = m\<lparr>next_seqno := next_seqno m + 1, free_regions := tl (free_regions m),
        regions := (regions m)[a := (regions m ! a)\<lparr>d_state := Sealed\<rparr>,
          v := \<lparr>d_state = Active, d_created_seqno = next_seqno m, completed_used = 0, reserved_used = 0,
                d_physical_record_count = 0\<rparr>],
        active_regions := (active_regions m)[k := v],
        append_states := (append_states m)[k := sh\<lparr>rotation_requested := False, rotation := Some r\<rparr>]\<rparr>"
    using assms(1) sel s c next_seqno_bound [OF assms(2)]
    by (auto simp: begin_rotation_def allocate_seqno_def update_region_def update_shard_def Let_def
        k_def [symmetric] a_def [symmetric] sh_def [symmetric] v_def [symmetric]
        split: if_splits option.splits)
qed

lemma begin_rotation_failure:
  assumes "begin_rotation c m = (Inl e, m')" "manager_wf m"
  shows "m' = m" "e = InvalidShard \<or> e = WouldBlock \<or> e = StaleReceipt \<or> e = SequenceExhausted"
proof -
  have "m' = m \<and> (e = InvalidShard \<or> e = WouldBlock \<or> e = StaleReceipt \<or> e = SequenceExhausted)"
  proof (cases "select_rotation m (cand_shard_id c)")
    case (Inl x)
    with select_rotation_Inl [OF assms(2) this] assms(1) show ?thesis by (auto simp: begin_rotation_def)
  next
    case (Inr sel)
    note s = select_rotation_Inr [OF Inr assms(2)]
    have "active_regions m ! cand_shard_id c \<le> u32_max"
    proof -
      have "active_regions m ! cand_shard_id c < length (regions m)" "length (regions m) \<le> 2 ^ 20"
        using wf_lookup(2) [OF assms(2) s(1)] assms(2) by (simp_all add: manager_wf_def manager_shape_def)
      then show ?thesis by (simp add: u32_max_def)
    qed
    moreover have "cand_victim_region_id (sel_candidate sel) = hd (free_regions m)" using s(7) by simp
    ultimately show ?thesis using assms(1) Inr s(1-6)
      by (auto simp: begin_rotation_def allocate_seqno_def update_region_def update_shard_def Let_def
          hd_conv_nth get_at_def split: if_splits option.splits)
  qed
  then show "m' = m" "e = InvalidShard \<or> e = WouldBlock \<or> e = StaleReceipt \<or> e = SequenceExhausted" by auto
qed


text \<open>Ownership moves: the oldest free Region to the shard, the shard's Region to its rotation.\<close>

lemma rotate_owners:
  assumes "k < length xs" "f \<noteq> []"
  shows "mset (xs[k := hd f]) + mset (tl f) + add_mset (xs ! k) R = mset xs + mset f + R"
proof -
  obtain A where A: "mset xs = add_mset (xs ! k) A" using assms(1) by (metis mset_add nth_mem_mset)
  then have "mset (xs[k := hd f]) = add_mset (hd f) A" using assms(1) by (simp add: mset_update)
  moreover have "mset f = add_mset (hd f) (mset (tl f))" using assms(2) by (cases f) simp_all
  ultimately show ?thesis using A by simp
qed

lemma begin_rotation_wf_success:
  assumes ok: "begin_rotation c m = (Inr r, m')" and wf: "manager_wf m"
  shows "manager_wf m'"
proof -
  define k where "k = cand_shard_id c"
  define v where "v = hd (free_regions m)"
  define a where "a = active_regions m ! k"
  define sh where "sh = append_states m ! k"
  define fresh where "fresh = \<lparr>d_state = Active, d_created_seqno = next_seqno m, completed_used = 0,
    reserved_used = 0, d_physical_record_count = 0\<rparr>"
  note b = begin_rotation_success [OF ok wf, folded k_def v_def, folded a_def sh_def]
  note l = wf_lookup [OF wf b(1), folded a_def]
  have lens: "length (append_states m) = length (active_regions m)" by (rule shard_lookup(1) [OF wf])
  have v: "v \<in> set (free_regions m)" using b(4) by (simp add: v_def)
  note vo = wf_owned(1) [OF wf v]
  have aa: "a \<in> set (active_regions m)" using l(1) by (simp add: a_def)
  then have av: "a \<noteq> v" "a \<notin> set (free_regions m)" "a \<notin> set (idle_regions m)"
    using vo wf_owned(1,2) [OF wf, of a] by auto
  have sep: "j \<noteq> k \<Longrightarrow> j < length (active_regions m) \<Longrightarrow> active_regions m ! j \<noteq> a \<and> active_regions m ! j \<noteq> v" for j
    using active_lookup(4) [OF wf l(1), of j] vo nth_mem [of j "active_regions m"] by (auto simp: a_def)
  have reg: "regions m' = (regions m)[a := (regions m ! a)\<lparr>d_state := Sealed\<rparr>, v := fresh]"
    by (simp add: b(7) fresh_def)
  have f: "rm_region_size m' = rm_region_size m" "next_seqno m' = next_seqno m + 1"
    "active_regions m' = (active_regions m)[k := v]" "free_regions m' = tl (free_regions m)"
    "append_states m' = (append_states m)[k := sh\<lparr>rotation_requested := False, rotation := Some r\<rparr>]"
    "reclaiming m' = reclaiming m"
    by (simp_all add: b(7))
  have at: "regions m' ! i = (if i = v then fresh else if i = a then (regions m ! a)\<lparr>d_state := Sealed\<rparr>
      else regions m ! i)" if "i < length (regions m)" for i
    using that av by (auto simp: reg nth_list_update)
  have rot: "mset (concat (map rotating (append_states m'))) = add_mset a (mset (concat (map rotating (append_states m))))"
    using mset_concat_update [of k "append_states m" rotating "sh\<lparr>rotation_requested := False, rotation := Some r\<rparr>"]
      b(1,2,6) by (simp add: b(7) rotating_def sh_def is_quiescent_def)
  have idle: "mset (idle_regions m') = add_mset a (mset (idle_regions m))"
    using rot by (simp add: idle_regions_def b(7))
  have own: "mset (owners m') = mset (owners m)"
    using rotate_owners [OF l(1) b(4), of "mset (idle_regions m)"] idle
    by (simp add: owners_def b(7) a_def [symmetric] v_def [symmetric] ac_simps)
  have idle_set: "set (idle_regions m') = insert a (set (idle_regions m))"
    using arg_cong [OF idle, of set_mset] by simp
  have vi: "v \<notin> set (idle_regions m)" "v \<notin> set (tl (free_regions m))"
    using vo owners_facts(1) [OF wf] b(4) by (auto simp: owners_def v_def) (cases "free_regions m"; simp)
  show ?thesis
  proof (rule manager_wfI)
    show "manager_shape m'" using wf b(5) by (auto simp: manager_wf_def manager_shape_def b(7))
    show "mset (owners m') = mset [0..<length (regions m')]"
      using own wf by (simp add: manager_wf_def b(7))
    show "desc_ok (rm_region_size m') (next_seqno m') (regions m' ! i)" if "i < length (regions m')" for i
    proof -
      have i: "i < length (regions m)" using that by (simp add: reg)
      have "0 < next_seqno m" using wf by (simp add: manager_wf_def manager_shape_def)
      then show ?thesis
        unfolding at [OF i] f using shard_lookup(3) [OF wf i] shard_lookup(3) [OF wf l(2)] l(3)
        by (auto simp: desc_ok_def fresh_def)
    qed
    show "shard_ok (next_seqno m') j (active_regions m' ! j) (regions m' ! (active_regions m' ! j)) (append_states m' ! j)"
      if "j < length (active_regions m')" for j
    proof (cases "j = k")
      case True
      have "shard_ok (next_seqno m + 1) k v fresh (sh\<lparr>rotation_requested := False, rotation := Some r\<rparr>)"
        using b(2,6) by (simp add: shard_ok_def is_quiescent_def fresh_def submitted_end_def open_end_def rotation_ok_def)
      then show ?thesis using True l(1) vo b(1) at [of v] by (simp add: f)
    next
      case False
      have j: "j < length (active_regions m)" using that by (simp add: f)
      have "shard_ok (next_seqno m + 1) j (active_regions m ! j) (regions m ! (active_regions m ! j)) (append_states m ! j)"
        using shard_lookup(2) [OF wf j] by (rule shard_ok_mono) simp
      moreover have "regions m' ! (active_regions m ! j) = regions m ! (active_regions m ! j)"
        using at [of "active_regions m ! j"] sep [OF False j] active_lookup(1) [OF wf j] by simp
      ultimately show ?thesis using False by (simp add: f)
    qed
    show "regions m' ! i = free_desc" if "i \<in> set (free_regions m')" for i
    proof -
      have i: "i \<in> set (tl (free_regions m))" using that by (simp add: f)
      then have "i \<in> set (free_regions m)" by (rule list.set_sel(2) [OF b(4)])
      with i vi(2) av(2) wf_owned(1) [OF wf, of i] at [of i] show ?thesis by auto
    qed
    show "d_state (regions m' ! i) = Sealed \<and> completed_used (regions m' ! i) = reserved_used (regions m' ! i)"
      if "i \<in> set (idle_regions m')" for i
      using that idle_set wf_owned(2) [OF wf, of i] at [of i] l(2) av(1) b(3) vi(1) by auto
    show "receipt_ok (regions m') q" if "q \<in> set (reclaiming m')" for q
    proof -
      have "q \<in> set (reclaiming m)" using that by (simp add: f)
      with wf_owned(2,3) [OF wf] at vi(1) av(3) show ?thesis by (auto simp: receipt_ok_def)
    qed
  qed
qed

lemma begin_rotation_wf: "manager_wf m \<Longrightarrow> manager_wf (snd (begin_rotation c m))"
  using begin_rotation_wf_success begin_rotation_failure(1)
  by (cases "begin_rotation c m"; cases "fst (begin_rotation c m)") fastforce+

text \<open>
  An operation that only moves Regions between the sealed FIFO, the reclaim receipts and the
  unfinished rotations.
\<close>

lemma wf_move_idle:
  assumes wf: "manager_wf m" and shape: "manager_shape m'"
    and same: "regions m' = regions m" "active_regions m' = active_regions m"
      "free_regions m' = free_regions m" "next_seqno m' = next_seqno m" "rm_region_size m' = rm_region_size m"
    and idle: "mset (idle_regions m') = mset (idle_regions m)"
    and shards: "\<And>k. k < length (active_regions m) \<Longrightarrow>
      shard_ok (next_seqno m) k (active_regions m ! k) (regions m ! (active_regions m ! k)) (append_states m' ! k)"
    and receipts: "\<And>r. r \<in> set (reclaiming m') \<Longrightarrow> receipt_ok (regions m) r"
  shows "manager_wf m'"
proof (rule manager_wfI [OF shape])
  show "mset (owners m') = mset [0..<length (regions m')]"
    using wf idle by (simp add: manager_wf_def owners_def same)
  show "d_state (regions m' ! i) = Sealed \<and> completed_used (regions m' ! i) = reserved_used (regions m' ! i)"
    if "i \<in> set (idle_regions m')" for i
    using that mset_eq_setD [OF idle] wf_owned(2) [OF wf, of i] by (simp add: same)
qed (use wf shards receipts in \<open>simp_all add: same manager_wf_def\<close>)

text \<open>A Region that is neither free nor sealed nor active leaves room in the two FIFOs.\<close>

lemma queue_room:
  assumes "manager_wf m" "length (sealed_regions m) < length (idle_regions m)"
  shows "\<not> queue_capacity m \<le> saturating_add usize_max (length (free_regions m)) (length (sealed_regions m))"
proof -
  have "queue_capacity m = length (regions m) - length (active_regions m)"
    using assms(1) by (simp add: manager_wf_def manager_shape_def)
  with owners_facts(3) [OF assms(1)] assms(2)
  have "length (free_regions m) + length (sealed_regions m) < queue_capacity m" by linarith
  then show ?thesis by (simp add: saturating_add_def)
qed

lemma finish_rotation_ok:
  assumes wf: "manager_wf m" and k: "rr_shard_id r < length (append_states m)"
    and r: "rotation (append_states m ! rr_shard_id r) = Some r"
  shows "finish_rotation r m = (Inr (), update_shard (rr_shard_id r) (\<lambda>sh. sh\<lparr>rotation := None\<rparr>)
      (m\<lparr>sealed_regions := sealed_regions m @ [rr_sealed_region_id r],
         rotations := saturating_add u64_max (rotations m) 1\<rparr>))"
    and "manager_wf (snd (finish_rotation r m))"
proof -
  let ?k = "rr_shard_id r"
  let ?a = "active_regions m ! ?k" and ?sh = "append_states m ! rr_shard_id r"
  note l = wf_lookup [OF wf k]
  note s = shard_lookup(2) [OF wf l(1)]
  have rk: "rotation_ok ?k ?a (regions m ! ?a) ?sh r" using s r by (simp add: shard_ok_def)
  have len: "length (append_states m) = length (active_regions m)" by (rule shard_lookup(1) [OF wf])
  have "rr_sealed_region_id r \<in> set (concat (map rotating (append_states m)))"
    using k r by (auto simp: rotating_def intro!: bexI [of _ ?sh])
  then have mem: "rr_sealed_region_id r \<in> set (idle_regions m)" by (simp add: idle_regions_def)
  have "0 < length (concat (map rotating (append_states m)))"
    using \<open>_ \<in> set (concat _)\<close> by (rule length_pos_if_in_set)
  then have "length (sealed_regions m) < length (idle_regions m)" by (simp only: idle_regions_def length_append)
  from queue_room [OF wf this]
  show eq: "finish_rotation r m = (Inr (), update_shard ?k (\<lambda>sh. sh\<lparr>rotation := None\<rparr>)
      (m\<lparr>sealed_regions := sealed_regions m @ [rr_sealed_region_id r],
         rotations := saturating_add u64_max (rotations m) 1\<rparr>))"
    using k r l rk wf_owned(2) [OF wf mem]
    by (simp add: finish_rotation_def get_at_def rotation_ok_def)
  have idle: "mset (concat (map rotating ((append_states m)[?k := ?sh\<lparr>rotation := None\<rparr>]))) + {#rr_sealed_region_id r#}
      = mset (concat (map rotating (append_states m)))"
    using mset_concat_update [OF k, of rotating "?sh\<lparr>rotation := None\<rparr>"] r by (simp add: rotating_def)
  have "manager_wf (update_shard ?k (\<lambda>sh. sh\<lparr>rotation := None\<rparr>)
      (m\<lparr>sealed_regions := sealed_regions m @ [rr_sealed_region_id r],
         rotations := saturating_add u64_max (rotations m) 1\<rparr>))" (is "manager_wf ?m'")
  proof (rule wf_move_idle [OF wf])
    show "manager_shape ?m'" using wf by (simp add: manager_wf_def manager_shape_def update_shard_def)
    show "mset (idle_regions ?m') = mset (idle_regions m)"
      using idle [symmetric] by (simp add: idle_regions_def update_shard_def ac_simps)
    show "shard_ok (next_seqno m) j (active_regions m ! j) (regions m ! (active_regions m ! j)) (append_states ?m' ! j)"
      if "j < length (active_regions m)" for j
    proof (cases "j = ?k")
      case True
      have "shard_ok (next_seqno m) ?k ?a (regions m ! ?a) (?sh\<lparr>rotation := None\<rparr>)"
        using s rk by (simp add: shard_ok_def rotation_ok_def submitted_end_def open_end_def)
      then show ?thesis using True k by (simp add: update_shard_def)
    next
      case False
      then show ?thesis using shard_lookup(2) [OF wf that] by (simp add: update_shard_def)
    qed
  qed (use wf in \<open>simp_all add: update_shard_def manager_wf_def\<close>)
  with eq show "manager_wf (snd (finish_rotation r m))" by simp
qed

lemma finish_rotation_stale:
  assumes "\<not> (rr_shard_id r < length (append_states m) \<and> rotation (append_states m ! rr_shard_id r) = Some r)"
  shows "snd (finish_rotation r m) = m" "\<exists>e. fst (finish_rotation r m) = Inl e \<and> (e = InvalidShard \<or> e = StaleReceipt)"
  using assms by (auto simp: finish_rotation_def split: option.split)

lemma finish_rotation_wf: "manager_wf m \<Longrightarrow> manager_wf (snd (finish_rotation r m))"
  using finish_rotation_ok(2) finish_rotation_stale(1) by metis

section \<open>Reclaim\<close>

lemma begin_reclaim_eq:
  assumes wf: "manager_wf m"
  shows "begin_reclaim m =
    (if reclaim_needed m
     then let rid = hd (sealed_regions m); d = regions m ! rid;
              q = \<lparr>rc_region_id = rid, rc_created_seqno = d_created_seqno d, rc_used_offset = completed_used d,
                   rc_physical_record_count = d_physical_record_count d\<rparr>
          in (Inr (Some q), m\<lparr>sealed_regions := tl (sealed_regions m), reclaiming := reclaiming m @ [q]\<rparr>)
     else (Inr None, m))"
proof (cases "reclaim_needed m")
  case True
  then obtain rid rest where sealed: "sealed_regions m = rid # rest"
    by (auto simp: reclaim_needed_def neq_Nil_conv)
  then have "rid \<in> set (idle_regions m)" by (simp add: idle_regions_def)
  from wf_owned(2) [OF wf this] True sealed show ?thesis
    by (simp add: begin_reclaim_def get_at_def Let_def)
qed (simp add: begin_reclaim_def)

lemma begin_reclaim_wf:
  assumes wf: "manager_wf m" shows "manager_wf (snd (begin_reclaim m))"
proof (cases "reclaim_needed m")
  case True
  then have ne: "sealed_regions m \<noteq> []" "length (reclaiming m) < reclaim_limit m"
    by (auto simp: reclaim_needed_def)
  then obtain rid rest where sealed: "sealed_regions m = rid # rest" by (cases "sealed_regions m") auto
  show ?thesis
  proof (rule wf_move_idle [OF wf])
    show "manager_shape (snd (begin_reclaim m))"
      using wf ne True unfolding begin_reclaim_eq [OF wf] by (simp add: manager_wf_def manager_shape_def Let_def)
  qed (use wf True sealed shard_lookup(2) [OF wf] in
      \<open>auto simp: begin_reclaim_eq [OF wf] Let_def idle_regions_def receipt_ok_def manager_wf_def\<close>)
qed (use wf in \<open>simp add: begin_reclaim_def\<close>)

lemma position_Some: "position P xs = Some i \<Longrightarrow> i < length xs \<and> P (xs ! i)"
  by (induction xs arbitrary: i) (auto split: if_splits)

lemma position_None: "position P xs = None \<longleftrightarrow> (\<forall>x \<in> set xs. \<not> P x)"
  by (induction xs) auto

lemma mset_swap_remove: "i < length xs \<Longrightarrow> add_mset (xs ! i) (mset (swap_remove xs i)) = mset xs"
proof (cases "i = length xs - 1")
  case True
  assume i: "i < length xs"
  then have "xs \<noteq> []" by auto
  with True have last: "xs ! i = last xs" by (simp add: last_conv_nth)
  then have "swap_remove xs i = butlast xs" by (metis swap_remove_def list_update_id)
  moreover have "mset xs = mset (butlast xs @ [last xs])" using \<open>xs \<noteq> []\<close> by simp
  ultimately show ?thesis using last by simp
next
  case False
  assume i: "i < length xs"
  then have ne: "xs \<noteq> []" by auto
  let ?b = "butlast xs"
  have ib: "i < length ?b" and "?b ! i = xs ! i" using i False by (auto simp: nth_butlast)
  have "swap_remove xs i = ?b[i := last xs]"
    using ib ne by (simp add: swap_remove_def butlast_list_update)
  then have "add_mset (xs ! i) (mset (swap_remove xs i)) = add_mset (last xs) (mset ?b)"
    using ib \<open>?b ! i = xs ! i\<close> nth_mem_mset [OF ib] by (simp add: mset_update insert_DiffM)
  also have "\<dots> = mset (?b @ [last xs])" by simp
  finally show ?thesis using ne by simp
qed

lemma set_swap_remove: "i < length xs \<Longrightarrow> set (swap_remove xs i) \<subseteq> set xs"
  using mset_swap_remove [of i xs] by (metis insert_iff set_mset_add_mset_insert set_mset_mset subsetI)

lemma finish_reclaim_ok:
  assumes wf: "manager_wf m" and q: "q \<in> set (reclaiming m)"
  obtains i where "i < length (reclaiming m)" "reclaiming m ! i = q"
    "finish_reclaim q m = (Inr (), (update_region (rc_region_id q) (\<lambda>_. free_desc) m)
       \<lparr>free_regions := free_regions m @ [rc_region_id q], reclaiming := swap_remove (reclaiming m) i\<rparr>)"
proof -
  obtain i where i: "position (\<lambda>c. c = q) (reclaiming m) = Some i"
    using q position_None [of "\<lambda>c. c = q" "reclaiming m"] by (cases "position (\<lambda>c. c = q) (reclaiming m)") auto
  note p = position_Some [OF i]
  note o = wf_owned(3) [OF wf q]
  have "0 < length (reclaiming m)" using q length_pos_if_in_set by fast
  then have "length (sealed_regions m) < length (idle_regions m)" by (simp add: idle_regions_def)
  note room = queue_room [OF wf this]
  with i o room wf_owned(2) [OF wf o [THEN conjunct2]]
  have "finish_reclaim q m = (Inr (), (update_region (rc_region_id q) (\<lambda>_. free_desc) m)
       \<lparr>free_regions := free_regions m @ [rc_region_id q], reclaiming := swap_remove (reclaiming m) i\<rparr>)"
    by (simp add: finish_reclaim_def get_at_def receipt_ok_def update_region_def Let_def)
  with p that show thesis by blast
qed

lemma finish_reclaim_stale:
  "q \<notin> set (reclaiming m) \<Longrightarrow> finish_reclaim q m = (Inl StaleReceipt, m)"
  using position_None [of "\<lambda>c. c = q" "reclaiming m"] by (auto simp: finish_reclaim_def)


lemma next_seqno_pos: "manager_wf m \<Longrightarrow> 0 < next_seqno m"
  by (simp add: manager_wf_def manager_shape_def)

lemma finish_reclaim_wf:
  assumes wf: "manager_wf m" shows "manager_wf (snd (finish_reclaim q m))"
proof (cases "q \<in> set (reclaiming m)")
  case False
  with wf show ?thesis by (simp add: finish_reclaim_stale)
next
  case True
  let ?a = "rc_region_id q"
  obtain i where i: "i < length (reclaiming m)" "reclaiming m ! i = q"
    and eq: "finish_reclaim q m = (Inr (), (update_region ?a (\<lambda>_. free_desc) m)
       \<lparr>free_regions := free_regions m @ [?a], reclaiming := swap_remove (reclaiming m) i\<rparr>)"
    by (rule finish_reclaim_ok [OF wf True])
  define m' where "m' = snd (finish_reclaim q m)"
  have f: "regions m' = (regions m)[?a := free_desc]" "active_regions m' = active_regions m"
    "free_regions m' = free_regions m @ [?a]" "next_seqno m' = next_seqno m" "rm_region_size m' = rm_region_size m"
    "append_states m' = append_states m" "reclaiming m' = swap_remove (reclaiming m) i"
    by (simp_all add: m'_def eq update_region_def)
  note o = wf_owned(3) [OF wf True]
  note oo = wf_owned(2) [OF wf o [THEN conjunct2]]
  have af: "?a \<notin> set (free_regions m)" using o wf_owned(1) [OF wf, of ?a] by blast
  have rec: "add_mset q (mset (reclaiming m')) = mset (reclaiming m)"
    using mset_swap_remove [OF i(1)] i(2) by (simp add: f)
  then have ids: "add_mset ?a (mset (map rc_region_id (reclaiming m'))) = mset (map rc_region_id (reclaiming m))"
    by (metis image_mset_add_mset mset_map)
  have idle: "add_mset ?a (mset (idle_regions m')) = mset (idle_regions m)"
    using ids [symmetric] by (simp add: idle_regions_def f m'_def eq update_region_def)
  have dist: "distinct (idle_regions m)" using owners_facts(1) [OF wf] by (simp add: owners_def)
  have "count (mset (idle_regions m)) ?a = 1" using dist o by (simp add: distinct_count_atmost_1)
  then have "count (mset (idle_regions m')) ?a = 0" unfolding idle [symmetric] by simp
  then have idle': "set (idle_regions m) = insert ?a (set (idle_regions m'))" "?a \<notin> set (idle_regions m')"
    using arg_cong [OF idle, of set_mset] by (simp_all add: count_mset_0_iff)
  have kept: "regions m' ! j = regions m ! j" if "j \<noteq> ?a" for j using that by (simp add: f)
  show ?thesis
    unfolding m'_def [symmetric]
  proof (rule manager_wfI)
    have "length (reclaiming m') < length (reclaiming m)" using arg_cong [OF rec, of size] by simp
    then show "manager_shape m'"
      using wf by (simp add: manager_wf_def manager_shape_def m'_def eq update_region_def)
    show "mset (owners m') = mset [0..<length (regions m')]"
      using wf idle [symmetric] by (simp add: manager_wf_def owners_def f)
    show "desc_ok (rm_region_size m') (next_seqno m') (regions m' ! j)" if "j < length (regions m')" for j
      using that shard_lookup(3) [OF wf, of j] kept [of j] next_seqno_pos [OF wf]
      by (cases "j = ?a") (auto simp: f desc_ok_def free_desc_def)
    show "shard_ok (next_seqno m') j (active_regions m' ! j) (regions m' ! (active_regions m' ! j)) (append_states m' ! j)"
      if "j < length (active_regions m')" for j
    proof -
      have "active_regions m ! j \<noteq> ?a" using oo that f(2) nth_mem by metis
      then show ?thesis using shard_lookup(2) [OF wf, of j] that kept by (simp add: f)
    qed
    show "regions m' ! j = free_desc" if "j \<in> set (free_regions m')" for j
      using that wf_owned(1) [OF wf, of j] oo by (auto simp: f nth_list_update)
    show "d_state (regions m' ! j) = Sealed \<and> completed_used (regions m' ! j) = reserved_used (regions m' ! j)"
      if "j \<in> set (idle_regions m')" for j
    proof -
      have "j \<noteq> ?a" and "j \<in> set (idle_regions m)" using that idle' by blast+
      then show ?thesis using wf_owned(2) [OF wf, of j] kept [of j] by simp
    qed
    show "receipt_ok (regions m') p" if "p \<in> set (reclaiming m')" for p
    proof -
      have "rc_region_id p \<noteq> ?a" using that idle'(2) by (auto simp: idle_regions_def image_iff)
      moreover have "p \<in> set (reclaiming m)" using that set_swap_remove [OF i(1)] by (auto simp: f)
      ultimately show ?thesis using wf_owned(3) [OF wf, of p] kept by (simp add: receipt_ok_def)
    qed
  qed
qed

lemma configure_reclaim_workers_wf:
  "manager_wf m \<Longrightarrow> manager_wf (snd (configure_reclaim_workers alloc cap w m))"
  by (auto simp: configure_reclaim_workers_def manager_wf_def manager_shape_def owners_def idle_regions_def)

lemma allocate_seqno_wf:
  assumes wf: "manager_wf m" shows "manager_wf (snd (allocate_seqno m))"
proof (cases "next_seqno m = u64_max")
  case False
  let ?m' = "m\<lparr>next_seqno := next_seqno m + 1\<rparr>"
  have "manager_wf ?m'"
  proof (rule manager_wfI)
    show "manager_shape ?m'" using wf False by (simp add: manager_wf_def manager_shape_def)
    show "shard_ok (next_seqno ?m') k (active_regions ?m' ! k) (regions ?m' ! (active_regions ?m' ! k))
        (append_states ?m' ! k)" if "k < length (active_regions ?m')" for k
      using shard_ok_mono [OF shard_lookup(2) [OF wf, of k], of "next_seqno ?m'"] that by simp
    show "desc_ok (rm_region_size ?m') (next_seqno ?m') (regions ?m' ! i)" if "i < length (regions ?m')" for i
      using desc_ok_mono [OF shard_lookup(3) [OF wf, of i], of "next_seqno ?m'"] that by simp
  qed (use wf in \<open>simp_all add: manager_wf_def owners_def idle_regions_def\<close>)
  with False show ?thesis by (simp add: allocate_seqno_def)
qed (use wf in \<open>simp add: allocate_seqno_def\<close>)

end
