(* ===== verification/Region_Freeze.thy ===== *)
theory Region_Freeze
  imports Region_Lifecycle
begin

text \<open>
  Recovery of a manager from a clean image and the freeze of a quiescent manager into the next
  image: recovery establishes the manager invariant, a freeze of a quiescent manager succeeds
  with a valid image, and recovering that image gives the same Regions and the same queues.
\<close>

section \<open>Recovery\<close>

text \<open>
  The recovery loop puts the id of every record at the queue position its key names and leaves
  every other position alone.
\<close>

lemma install_recovered_regions_ok:
  assumes "distinct (map queue_key rs)" "rid + length rs \<le> u32_max"
    and "\<And>r. r \<in> set rs \<Longrightarrow> queue_ordinal r < length (queues (rec_state r))
           \<and> queues (rec_state r) ! queue_ordinal r = UNASSIGNED_REGION"
  shows "\<exists>queues'. install_recovered_regions rid rs descs queues = Inr (descs @ map recovered_desc rs, queues')
     \<and> (\<forall>s. length (queues' s) = length (queues s))
     \<and> (\<forall>j < length rs. queues' (rec_state (rs ! j)) ! queue_ordinal (rs ! j) = rid + j)
     \<and> (\<forall>s i. (s, i) \<notin> queue_key ` set rs \<longrightarrow> queues' s ! i = queues s ! i)"
  using assms
proof (induction rs arbitrary: rid descs queues)
  case (Cons r rs)
  define queues1 where "queues1 = queues(rec_state r := (queues (rec_state r))[queue_ordinal r := rid])"
  have r: "queue_ordinal r < length (queues (rec_state r))"
    "queues (rec_state r) ! queue_ordinal r = UNASSIGNED_REGION"
    using Cons.prems(3) by simp_all
  have fresh: "queue_key r \<notin> queue_key ` set rs" using Cons.prems(1) by simp
  have "queues1 (rec_state q) ! queue_ordinal q = UNASSIGNED_REGION
      \<and> queue_ordinal q < length (queues1 (rec_state q))" if "q \<in> set rs" for q
  proof -
    have "queue_key q \<noteq> queue_key r" using that fresh by (metis imageI)
    then show ?thesis using that Cons.prems(3) [of q] by (auto simp: queues1_def queue_key_def nth_list_update)
  qed
  then obtain queues' where q: "install_recovered_regions (Suc rid) rs (descs @ [recovered_desc r]) queues1
        = Inr ((descs @ [recovered_desc r]) @ map recovered_desc rs, queues')"
    "\<And>s. length (queues' s) = length (queues1 s)"
    "\<And>j. j < length rs \<Longrightarrow> queues' (rec_state (rs ! j)) ! queue_ordinal (rs ! j) = Suc rid + j"
    "\<And>s i. (s, i) \<notin> queue_key ` set rs \<Longrightarrow> queues' s ! i = queues1 s ! i"
    using Cons.IH [of "Suc rid" queues1 "descs @ [recovered_desc r]"] Cons.prems(1,2) by auto
  have "install_recovered_queue_entry (rec_state r) (queue_ordinal r) rid queues = Inr queues1"
    using r by (simp add: install_recovered_queue_entry_def get_at_def queues1_def)
  then have run: "install_recovered_regions rid (r # rs) descs queues
      = Inr (descs @ map recovered_desc (r # rs), queues')"
    using q(1) Cons.prems(2) by (simp add: try_from_def)
  have "queues' (rec_state r) ! queue_ordinal r = rid"
    using q(4) [of "rec_state r" "queue_ordinal r"] fresh r(1) by (simp add: queue_key_def queues1_def)
  then have "\<forall>j < length (r # rs). queues' (rec_state ((r # rs) ! j)) ! queue_ordinal ((r # rs) ! j) = rid + j"
    using q(3) by (auto simp: nth_Cons split: nat.split)
  moreover have "queues' s ! i = queues s ! i" if "(s, i) \<notin> queue_key ` set (r # rs)" for s i
    using q(4) [of s i] that by (auto simp: queues1_def queue_key_def nth_list_update)
  moreover have "length (queues' s) = length (queues s)" for s using q(2) by (simp add: queues1_def)
  ultimately show ?case using run by blast
qed simp

definition queue_of :: "region_manager \<Rightarrow> region_state \<Rightarrow> nat list" where
  "queue_of m s = (case s of Active \<Rightarrow> active_regions m | Free \<Rightarrow> free_regions m | Sealed \<Rightarrow> sealed_regions m)"

text \<open>A family of queues that hold every Region id once, at the position the Region's key names.\<close>

definition queues_index :: "(region_state \<times> nat) list \<Rightarrow> (region_state \<Rightarrow> nat list) \<Rightarrow> bool" where
  "queues_index keys q \<longleftrightarrow>
     (\<forall>s i. i < length (q s) \<longrightarrow> q s ! i < length keys \<and> keys ! (q s ! i) = (s, i))
     \<and> (\<forall>j < length keys. snd (keys ! j) < length (q (fst (keys ! j)))
          \<and> q (fst (keys ! j)) ! snd (keys ! j) = j)"

lemma queues_index_perm:
  assumes "queues_index keys q"
  shows "mset (q Active @ q Free @ q Sealed) = mset [0..<length keys]"
proof -
  have at: "q s ! i < length keys" "keys ! (q s ! i) = (s, i)" if "i < length (q s)" for s i
    using assms that by (auto simp: queues_index_def)
  have key: "\<exists>i. keys ! j = (s, i)" "j < length keys" if "j \<in> set (q s)" for j s
    using that at by (auto simp: in_set_conv_nth)
  have dist: "distinct (q s)" for s
    unfolding distinct_conv_nth by (metis at(2) prod.inject)
  have "set (q s) \<inter> set (q t) = {}" if "s \<noteq> t" for s t
    using key(1) [of _ s] key(1) [of _ t] that by fastforce
  then have "distinct (q Active @ q Free @ q Sealed)"
    using dist by (simp add: Int_Un_distrib)
  moreover have "set (q Active @ q Free @ q Sealed) = set [0..<length keys]"
  proof (intro equalityI subsetI)
    fix j assume "j \<in> set [0..<length keys]"
    then have "j \<in> set (q (fst (keys ! j)))" using assms nth_mem by (fastforce simp: queues_index_def)
    then show "j \<in> set (q Active @ q Free @ q Sealed)" by (cases "fst (keys ! j)") auto
  qed (use key(2) in auto)
  ultimately show ?thesis by (subst set_eq_iff_mset_eq_distinct [symmetric]) simp_all
qed

lemma queues_index_unique:
  assumes "queues_index keys q" "queues_index keys q'" "\<And>s. length (q s) = length (q' s)"
  shows "q = q'"
proof
  fix s
  show "q s = q' s"
  proof (rule nth_equalityI)
    fix i assume i: "i < length (q s)"
    then have "q s ! i < length keys" "keys ! (q s ! i) = (s, i)" using assms(1) by (auto simp: queues_index_def)
    then show "q s ! i = q' s ! i" using assms(2) unfolding queues_index_def by (metis fst_conv snd_conv)
  qed (rule assms(3))
qed

definition recovered_manager :: "region_metadata \<Rightarrow> (region_state \<Rightarrow> nat list) \<Rightarrow> region_manager" where
  "recovered_manager md q = (let root = md_root md in
     \<lparr>binding = \<lparr>b_cache_uuid = cache_uuid root, b_data_identity = data_identity root,
        b_data_superblock_generation = data_superblock_generation root,
        b_image_identity = image_identity root, b_image_generation = image_generation root,
        b_storage_fingerprint = storage_fingerprint root\<rparr>,
      rm_region_size = region_size root, next_seqno = max_seqno root + 1,
      regions = map recovered_desc (md_regions md), active_regions = q Active,
      append_states = replicate (shard_count root) default_shard_state,
      free_regions = q Free, sealed_regions = q Sealed, reclaiming = [],
      reclaim_limit = 1, queue_capacity = region_count root - shard_count root, rotations = 0\<rparr>)"

lemma from_metadata_ok:
  assumes valid: "validate_metadata alloc md = Inr ()" and alloc: "allocates alloc"
    and seq: "max_seqno (md_root md) < u64_max"
  obtains q where "from_metadata alloc md = Inr (recovered_manager md q)"
    "\<And>s. length (q s) = state_count (md_root md) s"
    "queues_index (map queue_key (md_regions md)) q"
proof -
  define root where "root = md_root md"
  define rs where "rs = md_regions md"
  note v = valid [unfolded validate_metadata_iff [OF alloc], folded root_def rs_def]
  have nf: "\<not> root_fields_invalid root" using v by blast
  note b = root_fields_bounds [OF nf]
  have perm: "distinct (map queue_key rs)" "set (map queue_key rs) = queue_positions root"
    using v by (simp_all add: queues_permuted_def)
  define q0 where "q0 = (\<lambda>s. replicate (state_count root s) UNASSIGNED_REGION)"
  have key: "queue_ordinal r < state_count root (rec_state r)" if "r \<in> set rs" for r
  proof -
    have "queue_key r \<in> queue_positions root" using perm(2) that by auto
    then show ?thesis by (simp add: queue_positions_def queue_key_def)
  qed
  have len: "length rs = region_count root" "length rs \<le> 2 ^ 20" using v b by auto
  obtain q where q: "install_recovered_regions 0 rs [] q0 = Inr ([] @ map recovered_desc rs, q)"
    "\<And>s. length (q s) = length (q0 s)"
    "\<And>j. j < length rs \<Longrightarrow> q (rec_state (rs ! j)) ! queue_ordinal (rs ! j) = 0 + j"
    using install_recovered_regions_ok [OF perm(1), of 0 q0 "[]"] key len
    by (auto simp: q0_def u32_max_def)
  have qlen: "length (q s) = state_count root s" for s using q(2) by (simp add: q0_def)
  have idx: "queues_index (map queue_key rs) q"
    unfolding queues_index_def
  proof (intro conjI allI impI)
    fix s i assume "i < length (q s)"
    then have "(s, i) \<in> set (map queue_key rs)" unfolding perm(2) by (simp add: queue_positions_def qlen)
    then obtain j where j: "j < length rs" "queue_key (rs ! j) = (s, i)" by (auto simp: in_set_conv_nth)
    then have "q s ! i = j" using q(3) [of j] by (simp add: queue_key_def)
    with j show "q s ! i < length (map queue_key rs)" "map queue_key rs ! (q s ! i) = (s, i)" by simp_all
  next
    fix j assume "j < length (map queue_key rs)"
    then show "snd (map queue_key rs ! j) < length (q (fst (map queue_key rs ! j)))"
      "q (fst (map queue_key rs ! j)) ! snd (map queue_key rs ! j) = j"
      using q(3) [of j] key [of "rs ! j"] by (simp_all add: queue_key_def qlen)
  qed
  have un: "UNASSIGNED_REGION \<notin> set (q s)" for s
    using idx len by (fastforce simp: queues_index_def in_set_conv_nth UNASSIGNED_REGION_def u32_max_def)
  have q0: "(\<lambda>s. case s of Active \<Rightarrow> replicate (shard_count root) UNASSIGNED_REGION
      | Free \<Rightarrow> replicate (free_region_count root) UNASSIGNED_REGION
      | Sealed \<Rightarrow> replicate (sealed_region_count root) UNASSIGNED_REGION) = q0"
    using b by (auto simp: q0_def state_count_def fun_eq_iff split: region_state.split)
  have al: "alloc n" if "n \<le> 2 ^ 20" for n
    using alloc that by (simp add: allocates_def region_limits)
  have "from_metadata alloc md = Inr (recovered_manager md q)"
    using valid b seq al un q(1) len
    by (simp add: from_metadata_def root_def [symmetric] rs_def [symmetric] Let_def checked_sub_def try_vec_def
        try_unassigned_vec_def try_unassigned_queue_def q0 checked_add_def recovered_manager_def)
  then show thesis by (rule that) (use qlen idx in \<open>simp_all add: root_def rs_def\<close>)
qed

text \<open>
  Images written by \<^verbatim>\<open>freeze_metadata\<close> have Active Regions that end on a direct-I/O boundary;
  \<^verbatim>\<open>validate\<close> does not check it.
\<close>

definition active_aligned :: "region_metadata \<Rightarrow> bool" where
  "active_aligned md \<longleftrightarrow> (\<forall>r \<in> set (md_regions md).
     rec_state r = Active \<longrightarrow> durable_used_offset r mod DIRECT_IO_ALIGNMENT = 0)"

lemma queues_index_mem:
  assumes "queues_index keys q" "j \<in> set (q s)"
  shows "j < length keys \<and> fst (keys ! j) = s"
proof -
  obtain i where "i < length (q s)" "q s ! i = j" using assms(2) by (auto simp: in_set_conv_nth)
  with assms(1) have "j < length keys" "keys ! j = (s, i)" unfolding queues_index_def by blast+
  then show ?thesis by simp
qed

lemma recovered_wf:
  assumes valid: "validate_metadata alloc md = Inr ()" and alloc: "allocates alloc"
    and seq: "max_seqno (md_root md) < u64_max" and al: "active_aligned md"
    and q: "\<And>s. length (q s) = state_count (md_root md) s" "queues_index (map queue_key (md_regions md)) q"
  shows "manager_wf (recovered_manager md q)"
proof -
  define root where "root = md_root md"
  define rs where "rs = md_regions md"
  define m where "m = recovered_manager md q"
  note v = valid [unfolded validate_metadata_iff [OF alloc], folded root_def rs_def]
  have nf: "\<not> root_fields_invalid root" using v by blast
  note b = root_fields_bounds [OF nf]
  have f: "rm_region_size m = region_size root" "next_seqno m = max_seqno root + 1"
    "regions m = map recovered_desc rs" "active_regions m = q Active" "free_regions m = q Free"
    "sealed_regions m = q Sealed" "reclaiming m = []" "reclaim_limit m = 1"
    "append_states m = replicate (shard_count root) default_shard_state"
    "queue_capacity m = region_count root - shard_count root"
    by (simp_all add: m_def recovered_manager_def root_def rs_def Let_def)
  have idle: "idle_regions m = q Sealed"
    by (simp add: idle_regions_def f rotating_def default_shard_state_def)
  have at: "j < length rs \<and> rec_state (rs ! j) = s" if "j \<in> set (q s)" for j s
    using queues_index_mem [OF q(2) that] by (auto simp: rs_def queue_key_def)
  have ok: "region_record_ok root (rs ! j)" if "j < length rs" for j using v that by simp
  have "manager_wf m"
  proof (rule manager_wfI)
    show "manager_shape m"
      using b q(1) [of Active] seq v
      by (simp add: manager_shape_def f state_count_def root_def [symmetric] DIRECT_IO_ALIGNMENT_def u64_max_def
          del: One_nat_def)
    show "mset (owners m) = mset [0..<length (regions m)]"
      using queues_index_perm [OF q(2)] by (simp add: owners_def idle f rs_def)
    show "desc_ok (rm_region_size m) (next_seqno m) (regions m ! i)" if "i < length (regions m)" for i
      using that ok [of i] by (auto simp: f desc_ok_def recovered_desc_def region_record_ok_def
          MIN_ENCODED_RECORD_SIZE_def split: if_splits)
    show "shard_ok (next_seqno m) k (active_regions m ! k) (regions m ! (active_regions m ! k)) (append_states m ! k)"
      if "k < length (active_regions m)" for k
    proof -
      have "k < length (q Active)" using that by (simp add: f)
      then have *: "q Active ! k < length rs \<and> rec_state (rs ! (q Active ! k)) = Active"
        by (intro at nth_mem)
      then have "durable_used_offset (rs ! (q Active ! k)) mod DIRECT_IO_ALIGNMENT = 0"
        using al by (simp add: active_aligned_def rs_def)
      moreover have "k < shard_count root" using that q(1) [of Active] b by (simp add: f state_count_def root_def)
      ultimately show ?thesis
        using * by (simp add: f shard_ok_def default_shard_state_def recovered_desc_def submitted_end_def open_end_def)
    qed
    show "regions m ! i = free_desc" if "i \<in> set (free_regions m)" for i
      using at [of i Free] ok [of i] that by (simp add: f recovered_desc_def free_desc_def region_record_ok_def)
    show "d_state (regions m ! i) = Sealed \<and> completed_used (regions m ! i) = reserved_used (regions m ! i)"
      if "i \<in> set (idle_regions m)" for i
      using at [of i Sealed] that by (simp add: f idle recovered_desc_def)
  qed (simp add: f)
  then show ?thesis by (simp add: m_def)
qed

section \<open>Freezing\<close>

lemma install_live_queue_ok:
  assumes "distinct ids" "start + length ids \<le> u32_max"
    and "\<And>i. i \<in> set ids \<Longrightarrow> i < length ds \<and> d_state (ds ! i) = s \<and> ordinals ! i = UNASSIGNED_REGION"
    and "length ordinals = length ds"
  shows "\<exists>out. install_live_queue ds s start ids ordinals = Inr out \<and> length out = length ds
     \<and> (\<forall>j < length ids. out ! (ids ! j) = start + j)
     \<and> (\<forall>i. i \<notin> set ids \<longrightarrow> out ! i = ordinals ! i)"
  using assms
proof (induction ids arbitrary: start ordinals)
  case (Cons i ids)
  let ?o = "ordinals[i := start]"
  have i: "i < length ds" "d_state (ds ! i) = s" "ordinals ! i = UNASSIGNED_REGION" using Cons.prems(3) by simp_all
  have ids: "j < length ds \<and> d_state (ds ! j) = s \<and> ?o ! j = UNASSIGNED_REGION" if "j \<in> set ids" for j
  proof -
    have "j \<noteq> i" using that Cons.prems(1) by auto
    then show ?thesis using that Cons.prems(3) [of j] by simp
  qed
  obtain out where out: "install_live_queue ds s (Suc start) ids ?o = Inr out" "length out = length ds"
    "\<forall>j < length ids. out ! (ids ! j) = Suc start + j" "\<forall>i. i \<notin> set ids \<longrightarrow> out ! i = ?o ! i"
    using Cons.IH [of "Suc start" ?o] Cons.prems ids by auto
  have "install_live_queue ds s start (i # ids) ordinals = Inr out"
    using out(1) i Cons.prems(2) by (simp add: get_at_def try_from_def)
  moreover have "out ! ((i # ids) ! j) = start + j" if "j < length (i # ids)" for j
    using that out(3,4) Cons.prems(1,4) i(1) by (cases j) auto
  moreover have "out ! j = ordinals ! j" if "j \<notin> set (i # ids)" for j
    using that out(4) by simp
  ultimately show ?case using out(2) by blast
qed simp

lemma freeze_records_eq:
  "list_all (\<lambda>d. reserved_used d = completed_used d) ds \<Longrightarrow> length ordinals = length ds \<Longrightarrow>
   freeze_records ds ordinals = Inr (map2 (\<lambda>d n. \<lparr>rec_state = d_state d, queue_ordinal = n,
      rec_created_seqno = d_created_seqno d, durable_used_offset = completed_used d,
      rec_physical_record_count = d_physical_record_count d\<rparr>) ds ordinals)"
proof (induction ds arbitrary: ordinals)
  case (Cons d ds)
  then show ?case by (cases ordinals) simp_all
qed simp

definition manager_quiescent :: "region_manager \<Rightarrow> bool" where
  "manager_quiescent m \<longleftrightarrow> reclaiming m = [] \<and> list_all is_quiescent (append_states m)"

lemma quiescent_idle:
  assumes "manager_quiescent m" shows "idle_regions m = sealed_regions m"
  using assms by (auto simp: manager_quiescent_def idle_regions_def rotating_def is_quiescent_def list_all_iff)

lemma quiescent_completed:
  assumes wf: "manager_wf m" and q: "manager_quiescent m" and i: "i < length (regions m)"
  shows "reserved_used (regions m ! i) = completed_used (regions m ! i)"
proof -
  have "i \<in> set (owners m)" using owners_facts(2) [OF wf] i by simp
  then consider (active) k where "k < length (active_regions m)" "active_regions m ! k = i"
    | (free) "i \<in> set (free_regions m)" | (idle) "i \<in> set (idle_regions m)"
    by (auto simp: owners_def in_set_conv_nth)
  then show ?thesis
  proof cases
    case active
    have "is_quiescent (append_states m ! k)"
      using q active(1) shard_lookup(1) [OF wf] by (simp add: manager_quiescent_def list_all_length)
    then show ?thesis using shard_lookup(2) [OF wf active(1)] active(2)
      by (simp add: shard_ok_def is_quiescent_def open_end_def submitted_end_def)
  next
    case free
    then show ?thesis using wf_owned(1) [OF wf] by (simp add: free_desc_def)
  next
    case idle
    then show ?thesis using wf_owned(2) [OF wf] by simp
  qed
qed


lemma queue_of_state:
  assumes wf: "manager_wf m" and q: "manager_quiescent m" and i: "i \<in> set (queue_of m s)"
  shows "i < length (regions m)" "d_state (regions m ! i) = s"
proof -
  have "i \<in> set (owners m)" using i quiescent_idle [OF q] by (cases s) (auto simp: owners_def queue_of_def)
  then show "i < length (regions m)" using owners_facts(2) [OF wf] by simp
  show "d_state (regions m ! i) = s"
  proof (cases s)
    case Active
    then obtain k where "k < length (active_regions m)" "active_regions m ! k = i"
      using i by (auto simp: queue_of_def in_set_conv_nth)
    with Active shard_lookup(2) [OF wf] show ?thesis by (auto simp: shard_ok_def)
  next
    case Free
    with i wf_owned(1) [OF wf] show ?thesis by (simp add: queue_of_def free_desc_def)
  next
    case Sealed
    with i wf_owned(2) [OF wf] quiescent_idle [OF q] show ?thesis by (simp add: queue_of_def)
  qed
qed

lemma queue_of_distinct:
  assumes wf: "manager_wf m" and q: "manager_quiescent m"
  shows "distinct (queue_of m s)" "length (queue_of m s) \<le> length (regions m)"
    and "s \<noteq> t \<Longrightarrow> set (queue_of m s) \<inter> set (queue_of m t) = {}"
    and "i < length (regions m) \<Longrightarrow> \<exists>s. i \<in> set (queue_of m s)"
proof -
  note o = owners_facts [OF wf]
  show "distinct (queue_of m s)" "length (queue_of m s) \<le> length (regions m)"
    using o quiescent_idle [OF q] by (cases s; simp add: owners_def queue_of_def)+
  show "set (queue_of m s) \<inter> set (queue_of m t) = {}" if "s \<noteq> t"
    using queue_of_state(2) [OF wf q] that by blast
  show "\<exists>s. i \<in> set (queue_of m s)" if "i < length (regions m)"
  proof -
    have "i \<in> set (owners m)" using o(2) that by simp
    then show ?thesis
      unfolding owners_def quiescent_idle [OF q]
      by (auto intro: exI [of _ Active] exI [of _ Free] exI [of _ Sealed] simp: queue_of_def)
  qed
qed

lemma freeze_queue_ordinals_ok:
  assumes wf: "manager_wf m" and q: "manager_quiescent m" and alloc: "allocates alloc"
  obtains out where "freeze_queue_ordinals alloc m = Inr out" "length out = length (regions m)"
    "\<And>s j. j < length (queue_of m s) \<Longrightarrow> out ! (queue_of m s ! j) = j"
proof -
  let ?N = "length (regions m)"
  have N: "?N \<le> 2 ^ 20" using wf by (simp add: manager_wf_def manager_shape_def)
  note st = queue_of_state [OF wf q] and di = queue_of_distinct [OF wf q]
  have len: "0 + length (queue_of m s) \<le> u32_max" for s using di(2) [of s] N by (simp add: u32_max_def)
  define o0 where "o0 = replicate ?N UNASSIGNED_REGION"
  have o0: "length o0 = ?N" "\<And>i. i < ?N \<Longrightarrow> o0 ! i = UNASSIGNED_REGION" by (simp_all add: o0_def)
  obtain o1 where o1: "install_live_queue (regions m) Active 0 (queue_of m Active) o0 = Inr o1" "length o1 = ?N"
    "\<forall>j < length (queue_of m Active). o1 ! (queue_of m Active ! j) = 0 + j"
    "\<forall>i. i \<notin> set (queue_of m Active) \<longrightarrow> o1 ! i = o0 ! i"
    using install_live_queue_ok [OF di(1) len, of Active "regions m" Active o0] st o0 by auto
  have u1: "o1 ! i = UNASSIGNED_REGION" if "i \<in> set (queue_of m Free) \<union> set (queue_of m Sealed)" for i
    using that o1(4) o0(2) st(1) di(3) [of Active Free] di(3) [of Active Sealed] by auto
  obtain o2 where o2: "install_live_queue (regions m) Free 0 (queue_of m Free) o1 = Inr o2" "length o2 = ?N"
    "\<forall>j < length (queue_of m Free). o2 ! (queue_of m Free ! j) = 0 + j"
    "\<forall>i. i \<notin> set (queue_of m Free) \<longrightarrow> o2 ! i = o1 ! i"
    using install_live_queue_ok [OF di(1) len, of Free "regions m" Free o1] st u1 o1(2) by auto
  have u2: "o2 ! i = UNASSIGNED_REGION" if "i \<in> set (queue_of m Sealed)" for i
    using that o2(4) u1 di(3) [of Free Sealed] by auto
  obtain o3 where o3: "install_live_queue (regions m) Sealed 0 (queue_of m Sealed) o2 = Inr o3" "length o3 = ?N"
    "\<forall>j < length (queue_of m Sealed). o3 ! (queue_of m Sealed ! j) = 0 + j"
    "\<forall>i. i \<notin> set (queue_of m Sealed) \<longrightarrow> o3 ! i = o2 ! i"
    using install_live_queue_ok [OF di(1) len, of Sealed "regions m" Sealed o2] st u2 o2(2) by auto
  have at: "o3 ! (queue_of m s ! j) = j" if j: "j < length (queue_of m s)" for s j
  proof -
    have other: "queue_of m s ! j \<notin> set (queue_of m t)" if "s \<noteq> t" for t
      using di(3) [OF that] nth_mem [OF j] by blast
    show ?thesis
    proof (cases s)
      case Active
      then show ?thesis using other [of Free] other [of Sealed] j o3(4) o2(4) o1(3) by simp
    next
      case Free
      then show ?thesis using other [of Sealed] j o3(4) o2(3) by simp
    next
      case Sealed
      then show ?thesis using j o3(3) by simp
    qed
  qed
  have "UNASSIGNED_REGION \<notin> set o3"
  proof
    assume "UNASSIGNED_REGION \<in> set o3"
    then obtain i where i: "i < ?N" "o3 ! i = UNASSIGNED_REGION" using o3(2) by (auto simp: in_set_conv_nth)
    then obtain s j where "j < length (queue_of m s)" "queue_of m s ! j = i"
      using di(4) by (metis in_set_conv_nth)
    with at i(2) have "j = UNASSIGNED_REGION" "j < ?N" using di(2) [of s] by fastforce+
    then show False using N by (simp add: UNASSIGNED_REGION_def u32_max_def)
  qed
  moreover have "alloc ?N" using alloc N by (simp add: allocates_def region_limits)
  ultimately have "freeze_queue_ordinals alloc m = Inr o3"
    using o1(1) o2(1) o3(1)
    by (simp add: freeze_queue_ordinals_def try_unassigned_vec_def try_vec_def o0_def [symmetric] queue_of_def)
  then show thesis using o3(2) at that by blast
qed

text \<open>The partition directory of a valid image adds up to the whole index.\<close>

lemma tiles_sums:
  "tiles pid page slot rs pages slots \<Longrightarrow>
     page + sum_list (map page_count rs) = pages \<and> slot + sum_list (map slot_count rs) = slots"
  by (induction pid page slot rs pages slots rule: tiles.induct) auto

lemma canonical_representable:
  assumes "canonical_index_partition_ranges alloc slots = Inr rs" shows "representable_slots slots"
  using assms
  by (auto simp: canonical_index_partition_ranges_def validated_index_image_layout_def image_layout_new_def
      representable_slots_def INDEX_CANDIDATES_def image_sizes Let_def split: if_splits)

lemma div_ceil_504: "div_ceil n 504 = (n + 503) div 504"
proof (rule antisym)
  show "div_ceil n 504 \<le> (n + 503) div 504"
    using page_round_up(1) [of n] by (simp add: div_ceil_le_iff)
  have "(n + 503) div 504 * 504 \<le> n + 503" by (rule page_round_up(2))
  also have "\<dots> \<le> div_ceil n 504 * 504 + 503" using div_ceil_mult_ge [of 504 n] by simp
  finally have "(n + 503) div 504 * 504 < Suc (div_ceil n 504) * 504" by simp
  then show "(n + 503) div 504 \<le> div_ceil n 504" by simp
qed

lemma validate_partition_records_sums:
  assumes "validate_partition_records ps es = Inr ()" "length ps = length es"
  shows "map part_slot_count ps = map slot_count es" "map part_index_page_count ps = map page_count es"
  using assms(2,1) by (induction ps es rule: list_induct2) (auto split: if_splits)

lemma add_partition_totals_ok:
  "tot_page_count t + sum_list (map part_index_page_count ps) \<le> u64_max \<Longrightarrow>
   tot_slot_count t + sum_list (map part_slot_count ps) \<le> u64_max \<Longrightarrow>
   add_partition_totals t ps = Inr (t\<lparr>
     tot_page_count := tot_page_count t + sum_list (map part_index_page_count ps),
     tot_slot_count := tot_slot_count t + sum_list (map part_slot_count ps)\<rparr>)"
  by (induction ps arbitrary: t) (simp_all add: checked_add_def)

lemma directory_totals:
  assumes dir: "index_directory_valid alloc root ps" and alloc: "allocates alloc"
    and n: "partition_count root \<le> MAX_INDEX_PARTITIONS"
  shows "partition_totals_from_records ps = Inr \<lparr>tot_partition_count = partition_count root,
     tot_page_count = div_ceil (index_slots root) INDEX_IMAGE_SLOTS_PER_PAGE, tot_slot_count = index_slots root\<rparr>"
proof -
  let ?slots = "index_slots root"
  obtain es where es: "canonical_index_partition_ranges alloc ?slots = Inr es" "length es = length ps"
    "validate_partition_records ps es = Inr ()"
    using dir by (auto simp: index_directory_valid_def validate_partitions_def split: if_splits)
  have rep: "representable_slots ?slots" by (rule canonical_representable [OF es(1)])
  have a: "alloc k" if "k \<le> MAX_INDEX_PARTITIONS" for k
    using alloc that by (auto simp: allocates_def region_limits)
  obtain rs where rs: "canonical_index_partition_ranges alloc ?slots = Inr rs"
    "tiles 0 0 0 rs ((?slots + 503) div 504) ?slots"
    by (rule canonical_ranges_ok [OF rep a])
  note sums = tiles_sums [OF rs(2)] validate_partition_records_sums [OF es(3) es(2) [symmetric]]
  have p: "sum_list (map part_index_page_count ps) = (?slots + 503) div 504" 
    "sum_list (map part_slot_count ps) = ?slots" using sums rs(1) es(1) by simp_all
  have "?slots \<le> u64_max" using dir by (simp add: index_directory_valid_def num_bounds)
  moreover have "(?slots + 503) div 504 \<le> u64_max"
    using pages_bounds(4) [OF rep refl] by (simp add: num_bounds)
  moreover have "length ps = partition_count root" "length ps \<le> u32_max"
    using dir n by (simp_all add: index_directory_valid_def MAX_INDEX_PARTITIONS_def u32_max_def)
  ultimately show ?thesis
    by (simp add: partition_totals_from_records_def add_partition_totals_ok p slots_per_page div_ceil_504 try_from_def)
qed

text \<open>What a manager needs besides its invariant to be written as a clean image.\<close>

definition manager_ready :: "region_manager \<Rightarrow> bool" where
  "manager_ready m \<longleftrightarrow>
     b_data_superblock_generation (binding m) \<noteq> 0 \<and> b_image_generation (binding m) \<noteq> 0
     \<and> RECOVERY_PAGE_SIZE \<le> rm_region_size m
     \<and> length (active_regions m) \<le> MAX_SHARDS \<and> length (active_regions m) < length (regions m)"

definition frozen_root :: "region_manager \<Rightarrow> nat \<Rightarrow> nat \<Rightarrow> region_metadata_root" where
  "frozen_root m slots parts = (let b = binding m in
     \<lparr>cache_uuid = b_cache_uuid b, data_identity = b_data_identity b,
      data_superblock_generation = b_data_superblock_generation b, image_identity = b_image_identity b,
      image_generation = b_image_generation b, storage_fingerprint = b_storage_fingerprint b,
      index_slots = slots, index_page_count = div_ceil slots INDEX_IMAGE_SLOTS_PER_PAGE,
      region_size = rm_region_size m, region_count = length (regions m), partition_count = parts,
      shard_count = length (active_regions m), max_seqno = next_seqno m - 1,
      free_region_count = length (free_regions m), active_region_count = length (active_regions m),
      sealed_region_count = length (sealed_regions m)\<rparr>)"

lemma frozen_counts: "state_count (frozen_root m slots parts) s = length (queue_of m s)"
  by (cases s) (simp_all add: state_count_def frozen_root_def queue_of_def Let_def)

lemma freeze_queues_index:
  assumes wf: "manager_wf m" and q: "manager_quiescent m"
    and out: "length out = length (regions m)" "\<And>s j. j < length (queue_of m s) \<Longrightarrow> out ! (queue_of m s ! j) = j"
  shows "queues_index (map2 (\<lambda>d n. (d_state d, n)) (regions m) out) (queue_of m)"
proof -
  note st = queue_of_state [OF wf q]
  have pos: "out ! i < length (queue_of m (d_state (regions m ! i))) \<and> queue_of m (d_state (regions m ! i)) ! (out ! i) = i"
    if i: "i < length (regions m)" for i
  proof -
    obtain s where s: "i \<in> set (queue_of m s)" using queue_of_distinct(4) [OF wf q i] by blast
    then obtain j where j: "j < length (queue_of m s)" "queue_of m s ! j = i" by (auto simp: in_set_conv_nth)
    then show ?thesis using st(2) [OF s] out(2) [OF j(1)] by simp
  qed
  show ?thesis
    unfolding queues_index_def
  proof (intro conjI allI impI)
    fix s i assume i: "i < length (queue_of m s)"
    have mem: "queue_of m s ! i \<in> set (queue_of m s)" using i by simp
    show "queue_of m s ! i < length (map2 (\<lambda>d n. (d_state d, n)) (regions m) out)"
      "map2 (\<lambda>d n. (d_state d, n)) (regions m) out ! (queue_of m s ! i) = (s, i)"
      using st [OF mem] out i by simp_all
  qed (use pos out(1) in simp_all)
qed

lemma frozen_root_valid:
  assumes wf: "manager_wf m" and q: "manager_quiescent m" and ready: "manager_ready m"
    and parts: "0 < parts" "parts \<le> MAX_INDEX_PARTITIONS" "is_power_of_two parts"
      "parts \<le> div_ceil slots INDEX_IMAGE_SLOTS_PER_PAGE"
  shows "\<not> root_fields_invalid (frozen_root m slots parts)"
proof -
  have sum: "length (free_regions m) + length (active_regions m) + length (sealed_regions m) = length (regions m)"
    using owners_facts(3) [OF wf] quiescent_idle [OF q] by simp
  have "0 < length (active_regions m)" "length (regions m) \<le> 2 ^ 20" "rm_region_size m \<le> 2 ^ 25"
    "rm_region_size m mod 4096 = 0" "0 < next_seqno m" "next_seqno m \<le> u64_max"
    using wf by (simp_all add: manager_wf_def manager_shape_def DIRECT_IO_ALIGNMENT_def)
  moreover from this have "next_seqno m - 1 \<noteq> u64_max" by linarith
  moreover have "regions m \<noteq> []" using ready by (auto simp: manager_ready_def)
  ultimately show ?thesis
    using ready parts sum
    by (simp add: root_fields_invalid_def frozen_root_def Let_def manager_ready_def region_limits checked_add_def
        u32_max_def)
qed


definition frozen_record :: "region_desc \<Rightarrow> nat \<Rightarrow> region_metadata_record" where
  "frozen_record d n = \<lparr>rec_state = d_state d, queue_ordinal = n, rec_created_seqno = d_created_seqno d,
     durable_used_offset = completed_used d, rec_physical_record_count = d_physical_record_count d\<rparr>"

lemma frozen_record_facts:
  "queue_key (frozen_record d n) = (d_state d, n)"
  "reserved_used d = completed_used d \<Longrightarrow> recovered_desc (frozen_record d n) = d"
  by (simp_all add: frozen_record_def queue_key_def recovered_desc_def)

lemma frozen_keys: "map queue_key (map2 frozen_record ds out) = map2 (\<lambda>d n. (d_state d, n)) ds out"
  by (auto simp: frozen_record_facts)

lemma queues_index_keys:
  assumes "queues_index keys q"
  shows "distinct keys" "set keys = {(s, i). i < length (q s)}"
proof -
  show "distinct keys"
    using assms unfolding distinct_conv_nth queues_index_def by metis
  show "set keys = {(s, i). i < length (q s)}"
  proof (intro equalityI subsetI)
    fix k assume "k \<in> set keys"
    then obtain j where "j < length keys" "keys ! j = k" by (metis in_set_conv_nth)
    with assms show "k \<in> {(s, i). i < length (q s)}" by (cases k) (auto simp: queues_index_def)
  next
    fix k assume "k \<in> {(s, i). i < length (q s)}"
    then obtain s i where "k = (s, i)" "i < length (q s)" by blast
    with assms show "k \<in> set keys" unfolding queues_index_def by (metis nth_mem)
  qed
qed

text \<open>The record that is frozen for each Region of a quiescent manager passes validation.\<close>

lemma frozen_record_ok:
  assumes wf: "manager_wf m" and q: "manager_quiescent m" and i: "i < length (regions m)"
  shows "region_record_ok (frozen_root m slots parts) (frozen_record (regions m ! i) n)"
    and "d_state (regions m ! i) = Active \<Longrightarrow> completed_used (regions m ! i) mod DIRECT_IO_ALIGNMENT = 0"
proof -
  have mem: "i \<in> set (queue_of m (d_state (regions m ! i)))"
    using queue_of_distinct(4) [OF wf q i] queue_of_state(2) [OF wf q] by metis
  note ok = shard_lookup(3) [OF wf i, unfolded desc_ok_def]
  show "region_record_ok (frozen_root m slots parts) (frozen_record (regions m ! i) n)"
  proof (cases "d_state (regions m ! i) = Free")
    case True
    with mem have "regions m ! i = free_desc" using wf_owned(1) [OF wf, of i] by (simp add: queue_of_def)
    then show ?thesis by (simp add: region_record_ok_def free_desc_def frozen_record_def)
  next
    case False
    with ok show ?thesis
      by (auto simp: region_record_ok_def frozen_root_def frozen_record_def Let_def MIN_ENCODED_RECORD_SIZE_def)
  qed
  assume "d_state (regions m ! i) = Active"
  with mem obtain k where "k < length (active_regions m)" "active_regions m ! k = i"
    by (auto simp: queue_of_def in_set_conv_nth)
  then show "completed_used (regions m ! i) mod DIRECT_IO_ALIGNMENT = 0"
    using shard_lookup(2) [OF wf] by (metis shard_ok_def)
qed

lemma frozen_table_valid:
  assumes wf: "manager_wf m" and q: "manager_quiescent m" and ready: "manager_ready m" and alloc: "allocates alloc"
    and parts: "length ps \<le> MAX_INDEX_PARTITIONS" "is_power_of_two (length ps)"
      "length ps \<le> div_ceil slots INDEX_IMAGE_SLOTS_PER_PAGE"
    and dir: "index_directory_valid alloc (frozen_root m slots (length ps)) ps"
    and out: "length out = length (regions m)" "\<And>s j. j < length (queue_of m s) \<Longrightarrow> out ! (queue_of m s ! j) = j"
    and md: "md = \<lparr>md_root = frozen_root m slots (length ps), md_regions = map2 frozen_record (regions m) out,
      md_partitions = ps\<rparr>"
  shows "validate_metadata alloc md = Inr ()" "active_aligned md"
    "map recovered_desc (md_regions md) = regions m"
    "queues_index (map queue_key (md_regions md)) (queue_of m)"
proof -
  let ?root = "frozen_root m slots (length ps)" and ?rs = "map2 frozen_record (regions m) out"
  have at: "?rs ! i = frozen_record (regions m ! i) (out ! i)" if "i < length (regions m)" for i
    using that out(1) by simp
  show idx: "queues_index (map queue_key (md_regions md)) (queue_of m)"
    unfolding md region_metadata.simps frozen_keys by (rule freeze_queues_index [OF wf q out])
  have perm: "queues_permuted ?root ?rs"
    using queues_index_keys [OF idx] unfolding queues_permuted_def queue_positions_def frozen_counts md by simp
  have rec: "\<exists>i < length (regions m). r = frozen_record (regions m ! i) (out ! i)" if "r \<in> set ?rs" for r
    using that out(1) at by (auto simp: in_set_conv_nth set_zip)
  have "\<not> root_fields_invalid ?root"
    using parts by (intro frozen_root_valid [OF wf q ready]) (auto simp: is_power_of_two_def)
  moreover have "\<forall>r \<in> set ?rs. region_record_ok ?root r"
    using rec frozen_record_ok(1) [OF wf q] by fastforce
  moreover have "length ?rs = region_count ?root" using out(1) by (simp add: frozen_root_def Let_def)
  ultimately show "validate_metadata alloc md = Inr ()"
    unfolding validate_metadata_iff [OF alloc] md region_metadata.simps using dir perm by blast
  show "active_aligned md"
    unfolding active_aligned_def md region_metadata.simps
  proof (intro ballI impI)
    fix r assume "r \<in> set ?rs" "rec_state r = Active"
    with rec frozen_record_ok(2) [OF wf q] show "durable_used_offset r mod DIRECT_IO_ALIGNMENT = 0"
      by (fastforce simp: frozen_record_def)
  qed
  show "map recovered_desc (md_regions md) = regions m"
    using out(1) quiescent_completed [OF wf q]
    by (intro nth_equalityI) (simp_all add: md frozen_record_facts)
qed

lemma freeze_ok:
  assumes wf: "manager_wf m" and q: "manager_quiescent m" and ready: "manager_ready m" and alloc: "allocates alloc"
    and parts: "length ps \<le> MAX_INDEX_PARTITIONS" "is_power_of_two (length ps)"
      "length ps \<le> div_ceil slots INDEX_IMAGE_SLOTS_PER_PAGE"
    and dir: "index_directory_valid alloc (frozen_root m slots (length ps)) ps"
  obtains md where "freeze_metadata alloc ps m = Inr md" "validate_metadata alloc md = Inr ()"
    "md_root md = frozen_root m slots (length ps)" "md_partitions md = ps"
    "map recovered_desc (md_regions md) = regions m" "active_aligned md"
    "queues_index (map queue_key (md_regions md)) (queue_of m)"
proof -
  obtain out where out: "freeze_queue_ordinals alloc m = Inr out" "length out = length (regions m)"
    "\<And>s j. j < length (queue_of m s) \<Longrightarrow> out ! (queue_of m s ! j) = j"
    by (rule freeze_queue_ordinals_ok [OF wf q alloc]) blast
  define md where "md = \<lparr>md_root = frozen_root m slots (length ps),
    md_regions = map2 frozen_record (regions m) out, md_partitions = ps\<rparr>"
  note valid = frozen_table_valid [OF wf q ready alloc parts dir out(2,3) md_def]
  have "list_all (\<lambda>d. reserved_used d = completed_used d) (regions m)"
    using quiescent_completed [OF wf q] by (simp add: list_all_length)
  note records = freeze_records_eq [OF this out(2), folded frozen_record_def]
  have bounds: "length (regions m) \<le> 2 ^ 20" "0 < next_seqno m"
    using wf by (simp_all add: manager_wf_def manager_shape_def)
  have "length (queue_of m s) \<le> u32_max" for s
    using queue_of_distinct(2) [OF wf q, of s] bounds(1) by (simp add: u32_max_def)
  from this [of Active] this [of Free] this [of Sealed]
  have "length (active_regions m) \<le> u32_max" "length (free_regions m) \<le> u32_max"
    "length (sealed_regions m) \<le> u32_max" by (simp_all add: queue_of_def)
  moreover have "\<not> list_ex (\<lambda>sh. \<not> is_quiescent sh) (append_states m)" "reclaiming m = []"
    using q by (auto simp: manager_quiescent_def list_all_iff list_ex_iff)
  moreover have "alloc (length (regions m))" "length (regions m) \<le> u32_max"
    using alloc bounds by (simp_all add: allocates_def region_limits u32_max_def)
  moreover have "partition_totals_from_records ps = Inr \<lparr>tot_partition_count = length ps,
      tot_page_count = div_ceil slots INDEX_IMAGE_SLOTS_PER_PAGE, tot_slot_count = slots\<rparr>"
    using directory_totals [OF dir alloc] parts(1) by (simp add: frozen_root_def Let_def)
  ultimately have "freeze_metadata alloc ps m = Inr md"
    using out(1) records bounds valid(1)
    by (simp add: freeze_metadata_def try_vec_def try_from_def checked_sub_def Let_def md_def frozen_root_def)
  then show thesis
    by (rule that) (use valid in \<open>simp_all add: md_def\<close>)
qed

end
