(* ===== verification/Region_Steps.thy ===== *)
theory Region_Steps
  imports Region_Freeze
begin

text \<open>
  The Region manager as a state machine: sequences of its operations in any order and with any
  receipts, and the properties that follow from its invariant.
\<close>

section \<open>Operations as events\<close>

datatype manager_event =
    RequestRotation nat nat
  | AllocateSeqno
  | ReserveAppend nat nat
  | StageReservation append_reservation
  | ReserveWritePadding nat
  | SealWriteSpan nat
  | SealWriteSpanWithPadding padding_receipt
  | CompleteWriteSpan write_span
  | BeginRotation rotation_candidate
  | FinishRotation rotation_receipt
  | BeginReclaim
  | FinishReclaim reclaim_receipt
  | ConfigureReclaim allocator nat nat

fun run_event :: "manager_event \<Rightarrow> region_manager \<Rightarrow> region_manager" where
  "run_event (RequestRotation k n) m = snd (request_rotation_for_append k n m)"
| "run_event AllocateSeqno m = snd (allocate_seqno m)"
| "run_event (ReserveAppend k n) m = snd (reserve_append k n m)"
| "run_event (StageReservation t) m = snd (stage_reservation t m)"
| "run_event (ReserveWritePadding k) m = snd (reserve_write_padding k m)"
| "run_event (SealWriteSpan k) m = snd (seal_write_span k m)"
| "run_event (SealWriteSpanWithPadding p) m = snd (seal_write_span_with_padding p m)"
| "run_event (CompleteWriteSpan w) m = snd (complete_write_span w m)"
| "run_event (BeginRotation c) m = snd (begin_rotation c m)"
| "run_event (FinishRotation r) m = snd (finish_rotation r m)"
| "run_event BeginReclaim m = snd (begin_reclaim m)"
| "run_event (FinishReclaim q) m = snd (finish_reclaim q m)"
| "run_event (ConfigureReclaim alloc capacity workers) m = snd (configure_reclaim_workers alloc capacity workers m)"

text \<open>Record lengths are u32, and the appender reserves encoded records, never shorter than 64 bytes.\<close>

fun event_allowed :: "manager_event \<Rightarrow> bool" where
  "event_allowed (ReserveAppend k n) \<longleftrightarrow> MIN_ENCODED_RECORD_SIZE \<le> n \<and> n \<le> u32_max"
| "event_allowed (RequestRotation k n) \<longleftrightarrow> n \<le> u32_max"
| "event_allowed _ \<longleftrightarrow> True"

definition manager_identity :: "region_manager \<Rightarrow> metadata_binding \<times> nat \<times> nat \<times> nat" where
  "manager_identity m = (binding m, rm_region_size m, length (active_regions m), length (regions m))"

lemma update_identity [simp]:
  "manager_identity (update_shard k f m) = manager_identity m"
  "manager_identity (update_region i g m) = manager_identity m"
  "next_seqno (update_shard k f m) = next_seqno m" "next_seqno (update_region i g m) = next_seqno m"
  by (simp_all add: manager_identity_def update_shard_def update_region_def)

lemma update_fields_identity [simp]:
  "manager_identity (m\<lparr>next_seqno := n\<rparr>) = manager_identity m"
  "manager_identity (m\<lparr>free_regions := f\<rparr>) = manager_identity m"
  "manager_identity (m\<lparr>sealed_regions := f\<rparr>) = manager_identity m"
  "manager_identity (m\<lparr>reclaiming := r\<rparr>) = manager_identity m"
  "manager_identity (m\<lparr>rotations := n\<rparr>) = manager_identity m"
  "manager_identity (m\<lparr>reclaim_limit := n\<rparr>) = manager_identity m"
  "manager_identity (m\<lparr>active_regions := (active_regions m)[k := v]\<rparr>) = manager_identity m"
  by (simp_all add: manager_identity_def)

lemma step_identity: "manager_identity (run_event e m) = manager_identity m \<and> next_seqno m \<le> next_seqno (run_event e m)"
  by (cases e)
    (auto simp: request_rotation_for_append_def allocate_seqno_def reserve_append_def stage_reservation_def
      reserve_write_padding_def seal_write_span_def seal_write_span_with_padding_def submit_open_span_def
      complete_write_span_def begin_rotation_def finish_rotation_def begin_reclaim_def finish_reclaim_def
      configure_reclaim_workers_def Let_def
      split: option.split sum.split list.split)

lemma step_wf: "event_allowed e \<Longrightarrow> manager_wf m \<Longrightarrow> manager_wf (run_event e m)"
  by (cases e) (simp_all add: request_rotation_wf allocate_seqno_wf reserve_append_wf stage_reservation_wf
      reserve_write_padding_wf seal_write_span_wf seal_with_padding_wf complete_write_span_wf begin_rotation_wf
      finish_rotation_wf begin_reclaim_wf finish_reclaim_wf configure_reclaim_workers_wf)

interpretation manager: ranked_event_system run_event event_allowed manager_wf next_seqno
  by unfold_locales (simp_all add: step_wf step_identity)

section \<open>Restart\<close>

text \<open>
  A manager after a restart: the same Regions, queues and sequence numbers; the append shards are
  idle, and the reclaim configuration and the rotation counter start over.
\<close>

definition restarted :: "region_manager \<Rightarrow> region_manager" where
  "restarted m = m\<lparr>append_states := replicate (length (active_regions m)) default_shard_state,
     reclaiming := [], reclaim_limit := 1, rotations := 0\<rparr>"

lemma ready_identity: "manager_identity m' = manager_identity m \<Longrightarrow> manager_ready m' = manager_ready m"
  by (simp add: manager_identity_def manager_ready_def)

lemma recovered_ready:
  assumes "validate_metadata alloc md = Inr ()" "\<And>s. length (q s) = state_count (md_root md) s"
  shows "manager_ready (recovered_manager md q)"
proof -
  have nf: "\<not> root_fields_invalid (md_root md)" "length (md_regions md) = region_count (md_root md)"
    using assms(1) by (auto simp: validate_metadata_split)
  with root_fields_bounds [OF nf(1)] assms(2) [of Active] show ?thesis
    by (auto simp: manager_ready_def recovered_manager_def root_fields_invalid_def state_count_def region_limits Let_def)
qed

lemma recover_frozen:
  assumes alloc: "allocates alloc" and wf: "manager_wf m" and valid: "validate_metadata alloc md = Inr ()"
    and md: "md_root md = frozen_root m slots parts" "map recovered_desc (md_regions md) = regions m"
      "queues_index (map queue_key (md_regions md)) (queue_of m)"
  shows "from_metadata alloc md = Inr (restarted m)"
proof -
  have seq: "max_seqno (md_root md) < u64_max" "max_seqno (md_root md) + 1 = next_seqno m"
    using next_seqno_bound [OF wf] next_seqno_pos [OF wf] by (simp_all add: md frozen_root_def Let_def)
  obtain q where q: "from_metadata alloc md = Inr (recovered_manager md q)"
    "\<And>s. length (q s) = state_count (md_root md) s" "queues_index (map queue_key (md_regions md)) q"
    using from_metadata_ok [OF valid alloc seq(1)] by metis
  have "q = queue_of m"
    by (rule queues_index_unique [OF q(3) md(3)]) (simp add: q(2) md(1) frozen_counts)
  moreover have "queue_capacity m = length (regions m) - length (active_regions m)"
    using wf by (simp add: manager_wf_def manager_shape_def)
  ultimately have "recovered_manager md q = restarted m"
    using md(2) seq(2) next_seqno_pos [OF wf]
    by (cases m; cases "binding m")
      (simp add: recovered_manager_def restarted_def md(1) frozen_root_def queue_of_def Let_def)
  with q(1) show ?thesis by simp
qed

lemma index_keys_unique:
  assumes "queues_index keys q" "queues_index keys' q" shows "keys = keys'"
proof -
  have mem: "\<exists>s i. i < length (q s) \<and> q s ! i = j" if "j < length ks" "queues_index ks q" for j ks
    using that unfolding queues_index_def by blast
  have sub: "length ks \<le> length ks'" if k: "queues_index ks q" and k': "queues_index ks' q" for ks ks'
  proof (rule ccontr)
    assume "\<not> length ks \<le> length ks'"
    then obtain s i where "i < length (q s)" "q s ! i = length ks'" using mem [of "length ks'" ks] k by (metis not_le)
    with k' show False unfolding queues_index_def by (metis less_irrefl)
  qed
  show ?thesis
  proof (rule nth_equalityI)
    show "length keys = length keys'" using sub assms by (meson le_antisym)
    fix j assume "j < length keys"
    then obtain s i where "i < length (q s)" "q s ! i = j" using mem assms(1) by blast
    then show "keys ! j = keys' ! j" using assms unfolding queues_index_def by metis
  qed
qed

lemma record_eqI:
  "recovered_desc r = recovered_desc r' \<Longrightarrow> queue_key r = queue_key r' \<Longrightarrow> r = r'"
  by (cases r; cases r') (simp add: recovered_desc_def queue_key_def)

lemma frozen_root_recovered:
  assumes valid: "validate_metadata alloc md = Inr ()" 
    and q: "\<And>s. length (q s) = state_count (md_root md) s"
  shows "frozen_root (recovered_manager md q) (index_slots (md_root md)) (partition_count (md_root md)) = md_root md"
proof -
  have nf: "\<not> root_fields_invalid (md_root md)" "length (md_regions md) = region_count (md_root md)"
    using valid by (auto simp: validate_metadata_split)
  have "index_page_count (md_root md) = div_ceil (index_slots (md_root md)) INDEX_IMAGE_SLOTS_PER_PAGE"
    "active_region_count (md_root md) = shard_count (md_root md)"
    using nf(1) by (auto simp: root_fields_invalid_def)
  with nf(2) q [of Active] q [of Free] q [of Sealed] show ?thesis
    by (cases "md_root md") (simp add: frozen_root_def recovered_manager_def Let_def state_count_def)
qed

section \<open>Receipts\<close>

text \<open>
  The contract of an operation that consumes a receipt: it accepts exactly the receipt the state
  holds, spends it, and otherwise refuses without a change.
\<close>

definition spends_once :: "('s \<Rightarrow> 'r \<Rightarrow> bool) \<Rightarrow> ('r \<Rightarrow> 's \<Rightarrow> ('e + 'a) \<times> 's) \<Rightarrow> 's \<Rightarrow> 'r \<Rightarrow> bool" where
  "spends_once holds consume s r \<longleftrightarrow>
     (is_ok (fst (consume r s)) \<longleftrightarrow> holds s r)
     \<and> (\<not> is_ok (fst (consume r s)) \<longrightarrow> snd (consume r s) = s)
     \<and> \<not> is_ok (fst (consume r (snd (consume r s))))
     \<and> snd (consume r (snd (consume r s))) = snd (consume r s)"

locale receipt_protocol =
  fixes wf :: "'s \<Rightarrow> bool" and holds :: "'s \<Rightarrow> 'r \<Rightarrow> bool"
    and consume :: "'r \<Rightarrow> 's \<Rightarrow> ('e + 'a) \<times> 's"
  assumes accept: "wf s \<Longrightarrow> holds s r \<Longrightarrow> is_ok (fst (consume r s))"
    and refuse: "\<not> holds s r \<Longrightarrow> \<not> is_ok (fst (consume r s)) \<and> snd (consume r s) = s"
    and spend: "wf s \<Longrightarrow> holds s r \<Longrightarrow> \<not> holds (snd (consume r s)) r"
begin

lemma accepted_iff: "wf s \<Longrightarrow> is_ok (fst (consume r s)) \<longleftrightarrow> holds s r"
  using accept refuse by blast

lemma at_most_once:
  "wf s \<Longrightarrow> \<not> is_ok (fst (consume r (snd (consume r s)))) \<and> snd (consume r (snd (consume r s))) = snd (consume r s)"
  using refuse spend by metis

lemma contract: "wf s \<Longrightarrow> spends_once holds consume s r"
  unfolding spends_once_def using accepted_iff refuse at_most_once by metis

end

definition holds_tail :: "region_manager \<Rightarrow> append_reservation \<Rightarrow> bool" where
  "holds_tail m t \<longleftrightarrow> ra_shard_id t < length (append_states m) \<and> tail (append_states m ! ra_shard_id t) = Some t"

definition holds_padding :: "region_manager \<Rightarrow> padding_receipt \<Rightarrow> bool" where
  "holds_padding m p \<longleftrightarrow> rp_shard_id p < length (append_states m)
     \<and> pending_padding (append_states m ! rp_shard_id p) = Some p"

definition holds_span :: "region_manager \<Rightarrow> write_span \<Rightarrow> bool" where
  "holds_span m w \<longleftrightarrow> ws_shard_id w < length (append_states m)
     \<and> submitted_span (append_states m ! ws_shard_id w) = Some w"

definition holds_rotation :: "region_manager \<Rightarrow> rotation_receipt \<Rightarrow> bool" where
  "holds_rotation m r \<longleftrightarrow> rr_shard_id r < length (append_states m)
     \<and> rotation (append_states m ! rr_shard_id r) = Some r"

definition holds_reclaim :: "region_manager \<Rightarrow> reclaim_receipt \<Rightarrow> bool" where
  "holds_reclaim m q \<longleftrightarrow> q \<in> set (reclaiming m)"

interpretation staged: receipt_protocol manager_wf holds_tail stage_reservation
proof
  fix m t assume wf: "manager_wf m" and t: "holds_tail m t"
  obtain sp where "stage_reservation t m
      = (Inr (), update_shard (ra_shard_id t) (\<lambda>sh. sh\<lparr>open_span := Some sp, tail := None\<rparr>) m)"
    using stage_reservation_ok [OF wf] t unfolding holds_tail_def by metis
  then show "is_ok (fst (stage_reservation t m))" "\<not> holds_tail (snd (stage_reservation t m)) t"
    by (auto simp: holds_tail_def update_shard_def)
qed (auto simp: stage_reservation_def holds_tail_def split: option.split)

interpretation padded: receipt_protocol manager_wf holds_padding seal_write_span_with_padding
proof
  fix m p assume wf: "manager_wf m" and p: "holds_padding m p"
  note ok = seal_with_padding_ok [OF wf]
  from ok(3) p show "is_ok (fst (seal_write_span_with_padding p m))" by (fastforce simp: holds_padding_def)
  then show "\<not> holds_padding (snd (seal_write_span_with_padding p m)) p"
    using ok(1) p
    by (auto simp: holds_padding_def submit_open_span_def update_shard_def Let_def split: option.splits)
qed (auto simp: seal_write_span_with_padding_def holds_padding_def split: option.split)

interpretation completed: receipt_protocol manager_wf holds_span complete_write_span
proof
  fix m w assume wf: "manager_wf m" and w: "holds_span m w"
  then have "complete_write_span w m =
    (Inr (), update_shard (ws_shard_id w) (\<lambda>sh. sh\<lparr>submitted_span := None\<rparr>)
       (update_region (ws_region_id w) (\<lambda>d. d\<lparr>completed_used := ws_end_offset w,
          d_physical_record_count := d_physical_record_count d + ws_record_count w\<rparr>) m))"
    by (intro complete_write_span_ok(1)) (simp_all add: holds_span_def)
  then show "is_ok (fst (complete_write_span w m))" "\<not> holds_span (snd (complete_write_span w m)) w"
    by (auto simp: holds_span_def update_shard_def update_region_def)
qed (auto simp: complete_write_span_def holds_span_def split: option.split)

interpretation rotated: receipt_protocol manager_wf holds_rotation finish_rotation
proof
  fix m r assume wf: "manager_wf m" and r: "holds_rotation m r"
  note ok = finish_rotation_ok(1) [OF wf]
  from ok r show "is_ok (fst (finish_rotation r m))" "\<not> holds_rotation (snd (finish_rotation r m)) r"
    by (auto simp: holds_rotation_def update_shard_def)
next
  fix m r assume "\<not> holds_rotation m r"
  then show "\<not> is_ok (fst (finish_rotation r m)) \<and> snd (finish_rotation r m) = m"
    using finish_rotation_stale [of r m] by (auto simp: holds_rotation_def)
qed

interpretation reclaimed: receipt_protocol manager_wf holds_reclaim finish_reclaim
proof
  fix m q assume wf: "manager_wf m" and q: "holds_reclaim m q"
  then obtain i where i: "i < length (reclaiming m)" "reclaiming m ! i = q"
    and eq: "finish_reclaim q m = (Inr (), (update_region (rc_region_id q) (\<lambda>_. free_desc) m)
       \<lparr>free_regions := free_regions m @ [rc_region_id q], reclaiming := swap_remove (reclaiming m) i\<rparr>)"
    using finish_reclaim_ok [OF wf] unfolding holds_reclaim_def by metis
  have "distinct (map rc_region_id (reclaiming m))"
    using owners_facts(1) [OF wf] by (simp add: owners_def idle_regions_def)
  then have "count (mset (reclaiming m)) q \<le> 1"
    using distinct_count_atmost_1 [of "reclaiming m"] by (auto simp: distinct_map)
  moreover have "add_mset q (mset (swap_remove (reclaiming m) i)) = mset (reclaiming m)"
    using mset_swap_remove [OF i(1)] i(2) by simp
  ultimately have "count (mset (swap_remove (reclaiming m) i)) q = 0"
    by (metis count_add_mset Suc_le_mono One_nat_def le_zero_eq)
  then show "is_ok (fst (finish_reclaim q m))" "\<not> holds_reclaim (snd (finish_reclaim q m)) q"
    using eq by (simp_all add: holds_reclaim_def count_mset_0_iff)
qed (auto simp: holds_reclaim_def finish_reclaim_stale)

text \<open>The manager of the sample image, for concrete instances.\<close>

definition sample_state :: region_manager where
  "sample_state = \<lparr>
     binding = \<lparr>b_cache_uuid = PersistentId (replicate 16 1), b_data_identity = PersistentId (replicate 16 2),
       b_data_superblock_generation = 1, b_image_identity = PersistentId (replicate 16 3),
       b_image_generation = 1, b_storage_fingerprint = 7\<rparr>,
     rm_region_size = 8192, next_seqno = 10, regions = map recovered_desc (md_regions sample_metadata),
     active_regions = [3, 1], append_states = [default_shard_state, default_shard_state],
     free_regions = [2], sealed_regions = [0], reclaiming = [], reclaim_limit = 1, queue_capacity = 2,
     rotations = 0\<rparr>"

lemma sample_from_metadata: "from_metadata (\<lambda>_. True) sample_metadata = Inr sample_state"
proof -
  have two: "replicate 2 x = [x, x]" for x :: 'a by (simp add: numeral_2_eq_2)
  show ?thesis
    by (simp add: from_metadata_def sample_metadata_valid) (simp add: sample_metadata_def sample_state_def Let_def
        checked_sub_def try_vec_def try_unassigned_vec_def try_unassigned_queue_def two checked_add_def u64_max_def
        install_recovered_queue_entry_def get_at_def try_from_def u32_max_def UNASSIGNED_REGION_def)
qed


lemma sample_facts:
  "manager_wf sample_state" "manager_ready sample_state" "manager_quiescent sample_state"
  "active_aligned sample_metadata" "max_seqno (md_root sample_metadata) \<le> u64_max"
proof -
  show al: "active_aligned sample_metadata" and "max_seqno (md_root sample_metadata) \<le> u64_max"
    by (simp_all add: sample_metadata_def u64_max_def active_aligned_def io_sizes)
  have seq: "max_seqno (md_root sample_metadata) < u64_max" by (simp add: sample_metadata_def u64_max_def)
  obtain q where q: "from_metadata (\<lambda>_. True) sample_metadata = Inr (recovered_manager sample_metadata q)"
    "\<And>s. length (q s) = state_count (md_root sample_metadata) s"
    "queues_index (map queue_key (md_regions sample_metadata)) q"
    using from_metadata_ok [OF sample_metadata_valid sample_allocates seq] by metis
  then have eq: "recovered_manager sample_metadata q = sample_state" by (simp add: sample_from_metadata)
  show "manager_wf sample_state"
    using recovered_wf [OF sample_metadata_valid sample_allocates seq al q(2,3)] by (simp add: eq)
  show "manager_ready sample_state" using recovered_ready [OF sample_metadata_valid q(2)] by (simp add: eq)
  show "manager_quiescent sample_state"
    by (simp add: sample_state_def manager_quiescent_def is_quiescent_def default_shard_state_def)
qed

lemma sample_reserve:
  "reserve_append 0 64 sample_state =
     (Inr \<lparr>ra_shard_id = 0, ra_region_id = 3, ra_region_created_seqno = 8, ra_offset = 0, ra_record_bytes = 64,
           ra_seqno = 10\<rparr>, snd (reserve_append 0 64 sample_state))"
  by (simp add: reserve_append_def sample_state_def sample_metadata_def recovered_desc_def default_shard_state_def
      get_at_def RECORD_ALIGNMENT_def checked_add_def try_from_def num_bounds allocate_seqno_def Let_def)

section \<open>Properties\<close>

text \<open>
  C9 (invariant): starting from the manager recovered from any valid clean image whose Active Regions
  end at a multiple of the direct I/O alignment (every image the code writes is so, and \<^verbatim>\<open>validate\<close> does not check it),
  every sequence of operations, the configuration of the reclaim workers among them, with whatever receipts and in whatever
  order they arrive, where every append reserves at least the 64 bytes of the shortest record, keeps the invariant: each
  Region has exactly one owner among shards, free FIFO, sealed FIFO, reclaim receipts and
  unfinished rotations, and the cursors of each Active Region are ordered and within the Region.
\<close>
theorem manager_invariant:
  assumes "validate_metadata alloc md = Inr ()" "allocates alloc" "max_seqno (md_root md) \<le> u64_max"
    and "active_aligned md" "list_all event_allowed events"
  shows "\<exists>m. from_metadata alloc md = Inr m \<and> manager_wf (fold run_event events m)
     \<and> distinct (owners (fold run_event events m))
     \<and> set (owners (fold run_event events m)) = {..< region_count (md_root md)}"
proof -
  have nf: "\<not> root_fields_invalid (md_root md)" "length (md_regions md) = region_count (md_root md)"
    using assms(1) by (auto simp: validate_metadata_split)
  have "max_seqno (md_root md) < u64_max" using nf(1) assms(3) by (auto simp: root_fields_invalid_def)
  then obtain q where q: "from_metadata alloc md = Inr (recovered_manager md q)"
    "\<And>s. length (q s) = state_count (md_root md) s" "queues_index (map queue_key (md_regions md)) q"
    "manager_wf (recovered_manager md q)"
    using from_metadata_ok [OF assms(1,2)] recovered_wf [OF assms(1,2) _ assms(4)] by metis
  let ?m = "fold run_event events (recovered_manager md q)"
  have wf: "manager_wf ?m" by (rule manager.run_all_inv [OF assms(5) q(4)])
  have "manager_identity ?m = manager_identity (recovered_manager md q)"
    by (induction events arbitrary: q rule: rev_induct) (simp_all add: step_identity)
  then have "length (regions ?m) = region_count (md_root md)"
    using nf(2) by (simp add: manager_identity_def recovered_manager_def Let_def)
  with owners_facts [OF wf] q(1) wf show ?thesis by auto
qed


theorem manager_invariant_witness:
  "manager_wf (fold run_event [ConfigureReclaim (\<lambda>_. True) 1 2, ReserveAppend 0 64, BeginReclaim] sample_state)"
proof -
  have "list_all event_allowed [ConfigureReclaim (\<lambda>_. True) 1 2, ReserveAppend 0 64, BeginReclaim]" by (simp add: io_sizes u32_max_def)
  from manager_invariant [OF sample_metadata_valid sample_allocates sample_facts(5,4) this]
  show ?thesis by (simp add: sample_from_metadata)
qed

text \<open>
  C14 (safety): a receipt is worth exactly one transition. Staging, sealing with padding, write
  completion, the end of a rotation and the end of a reclaim each accept precisely the receipt the
  manager currently holds for that purpose; any other receipt (stale, forged, duplicated, late) is
  refused without changing the manager, and presenting an accepted receipt again is refused.
\<close>
theorem receipts_exactly_once:
  assumes "manager_wf m"
  shows "spends_once holds_tail stage_reservation m t
     \<and> spends_once holds_padding seal_write_span_with_padding m p
     \<and> spends_once holds_span complete_write_span m w
     \<and> spends_once holds_rotation finish_rotation m r
     \<and> spends_once holds_reclaim finish_reclaim m q"
  using staged.contract [OF assms] padded.contract [OF assms] completed.contract [OF assms]
    rotated.contract [OF assms] reclaimed.contract [OF assms] by blast

theorem receipts_exactly_once_witness:
  "\<not> is_ok (fst (complete_write_span \<lparr>ws_shard_id = 0, ws_region_id = 3, ws_start_offset = 0, ws_end_offset = 4096,
      ws_record_count = 1, ws_max_seqno = 9\<rparr> sample_state))"
proof -
  let ?w = "\<lparr>ws_shard_id = 0, ws_region_id = 3, ws_start_offset = 0, ws_end_offset = 4096,
      ws_record_count = 1, ws_max_seqno = 9\<rparr>"
  have "\<not> holds_span sample_state ?w" by (simp add: holds_span_def sample_state_def default_shard_state_def)
  with receipts_exactly_once [OF sample_facts(1), of _ _ ?w] show ?thesis by (simp add: spends_once_def)
qed

text \<open>
  C20 (safety): a successful reservation is exclusive. It starts at the end of everything
  completed, submitted or staged in its Region, ends inside the Region, is aligned, no other shard,
  queue or receipt owns the Region, and its sequence number is new.
\<close>
theorem reservation_exclusive:
  assumes "manager_wf m" "reserve_append k n m = (Inr t, m')"
  shows "ra_region_id t = active_regions m ! k \<and> ra_record_bytes t = n
     \<and> ra_offset t mod RECORD_ALIGNMENT = 0
     \<and> open_end (regions m ! ra_region_id t) (append_states m ! k) = ra_offset t
     \<and> ra_offset t + n \<le> rm_region_size m
     \<and> (\<forall>j < length (active_regions m). active_regions m ! j = ra_region_id t \<longrightarrow> j = k)
     \<and> ra_region_id t \<notin> set (free_regions m @ idle_regions m)
     \<and> ra_region_created_seqno t < ra_seqno t
     \<and> ra_seqno t = next_seqno m \<and> next_seqno m' = next_seqno m + 1"
proof -
  note r = reserve_append_success [OF assms(2,1)]
  note l = wf_lookup [OF assms(1) r(1)]
  note s = shard_lookup(2) [OF assms(1) l(1)] and d = shard_lookup(3) [OF assms(1) l(2)]
  have "reserved_used (regions m ! (active_regions m ! k))
      = open_end (regions m ! (active_regions m ! k)) (append_states m ! k)"
    using s r(4,5) by (simp add: shard_ok_def)
  with r active_lookup [OF assms(1) l(1)] d show ?thesis
    by (simp add: desc_ok_def RECORD_ALIGNMENT_def)
qed

theorem reservation_exclusive_witness:
  "open_end (regions sample_state ! 3) (append_states sample_state ! 0) = 0 \<and> 0 + 64 \<le> rm_region_size sample_state"
  using reservation_exclusive [OF sample_facts(1) sample_reserve] by simp

text \<open>
  Sequence numbers are never reused: of two successful reservations, with any
  sequence of operations in between, the later one carries the larger number.
\<close>
theorem seqnos_increase:
  assumes "manager_wf m" "reserve_append k n m = (Inr t, m1)" "MIN_ENCODED_RECORD_SIZE \<le> n"
    and "list_all event_allowed events" "reserve_append k' n' (fold run_event events m1) = (Inr t', m2)"
  shows "ra_seqno t < ra_seqno t'"
proof -
  have wf1: "manager_wf m1" using reserve_append_wf [OF assms(1,3), of k] assms(2) by simp
  have wf2: "manager_wf (fold run_event events m1)" by (rule manager.run_all_inv [OF assms(4) wf1])
  have "ra_seqno t < next_seqno m1" using reserve_append_success(7,10) [OF assms(2,1)] by simp
  also have "\<dots> \<le> next_seqno (fold run_event events m1)" by (rule manager.run_all_rank [OF assms(4) wf1])
  also have "\<dots> = ra_seqno t'" using reserve_append_success(7) [OF assms(5) wf2] by simp
  finally show ?thesis .
qed

theorem seqnos_increase_witness:
  "\<exists>t'. fst (reserve_append 1 96 (fold run_event [BeginReclaim] (snd (reserve_append 0 64 sample_state)))) = Inr t'
     \<and> 10 < ra_seqno t'"
proof -
  let ?m1 = "snd (reserve_append 0 64 sample_state)"
  let ?m2 = "fold run_event [BeginReclaim] ?m1"
  obtain t' where t': "fst (reserve_append 1 96 ?m2) = Inr t'"
    by (simp add: reserve_append_def begin_reclaim_def reclaim_needed_def saturating_add_def sample_state_def
        sample_metadata_def recovered_desc_def default_shard_state_def update_shard_def update_region_def
        get_at_def RECORD_ALIGNMENT_def checked_add_def try_from_def num_bounds allocate_seqno_def Let_def)
  then have second: "reserve_append 1 96 ?m2 = (Inr t', snd (reserve_append 1 96 ?m2))" by (metis prod.collapse)
  have allowed: "MIN_ENCODED_RECORD_SIZE \<le> 64" "list_all event_allowed [BeginReclaim]" by (simp_all add: io_sizes)
  have "10 < ra_seqno t'"
    using seqnos_increase [OF sample_facts(1) sample_reserve allowed second] by simp
  with t' show ?thesis by blast
qed

text \<open>
  C17 (roundtrip): a quiescent manager always freezes into a valid clean image, and recovering that
  image gives back the same manager: the same Regions, the same three queues in the same order and
  the same next sequence number, with idle append shards.
\<close>
theorem freeze_then_recover:
  assumes "manager_wf m" "manager_quiescent m" "manager_ready m" "allocates alloc"
    and "length ps \<le> MAX_INDEX_PARTITIONS" "is_power_of_two (length ps)"
    and "length ps \<le> div_ceil slots INDEX_IMAGE_SLOTS_PER_PAGE"
    and "index_directory_valid alloc (frozen_root m slots (length ps)) ps"
  shows "\<exists>md. freeze_metadata alloc ps m = Inr md \<and> validate_metadata alloc md = Inr ()
     \<and> md_partitions md = ps \<and> from_metadata alloc md = Inr (restarted m)"
proof -
  obtain md where md: "freeze_metadata alloc ps m = Inr md" "validate_metadata alloc md = Inr ()"
    "md_root md = frozen_root m slots (length ps)" "md_partitions md = ps"
    "map recovered_desc (md_regions md) = regions m" "active_aligned md"
    "queues_index (map queue_key (md_regions md)) (queue_of m)"
    by (rule freeze_ok [OF assms])
  with recover_frozen [OF assms(4,1) md(2,3,5,7)] show ?thesis by blast
qed

theorem freeze_then_recover_witness:
  "\<exists>md. freeze_metadata (\<lambda>_. True) (md_partitions sample_metadata) sample_state = Inr md
     \<and> from_metadata (\<lambda>_. True) md = Inr sample_state"
proof -
  have parts: "length (md_partitions sample_metadata) \<le> MAX_INDEX_PARTITIONS"
    "is_power_of_two (length (md_partitions sample_metadata))"
    "length (md_partitions sample_metadata) \<le> div_ceil 8 INDEX_IMAGE_SLOTS_PER_PAGE"
    by (simp_all add: sample_metadata_def MAX_INDEX_PARTITIONS_def is_power_of_two_def ilog2_small div_ceil_def
        slots_per_page)
  have "frozen_root sample_state 8 (length (md_partitions sample_metadata)) = md_root sample_metadata"
    by (simp add: frozen_root_def sample_state_def sample_metadata_def Let_def div_ceil_def slots_per_page)
  then have dir: "index_directory_valid (\<lambda>_. True)
      (frozen_root sample_state 8 (length (md_partitions sample_metadata))) (md_partitions sample_metadata)"
    by (simp add: sample_index_directory)
  have "restarted sample_state = sample_state"
    by (simp add: restarted_def sample_state_def numeral_2_eq_2)
  then show ?thesis
    using freeze_then_recover [OF sample_facts(1,3,2) sample_allocates parts dir] by auto
qed

text \<open>
  C18 (roundtrip): recovering a valid clean image and freezing the manager again, with the same
  partition directory, reproduces the image exactly. The Active Regions of the image end at a multiple of the
  direct I/O alignment, as in every image the code writes (\<^verbatim>\<open>validate\<close> does not check it).
\<close>
theorem recover_then_freeze:
  assumes "validate_metadata alloc md = Inr ()" "allocates alloc" "max_seqno (md_root md) \<le> u64_max"
    and "active_aligned md"
  shows "\<exists>m. from_metadata alloc md = Inr m \<and> freeze_metadata alloc (md_partitions md) m = Inr md"
proof -
  have v: "\<not> root_fields_invalid (md_root md)" "index_directory_valid alloc (md_root md) (md_partitions md)"
    using assms(1) by (auto simp: validate_metadata_split)
  have parts: "length (md_partitions md) = partition_count (md_root md)"
    using v(2) by (simp add: index_directory_valid_def)
  have "max_seqno (md_root md) < u64_max" using v(1) assms(3) by (auto simp: root_fields_invalid_def)
  then obtain q where q: "from_metadata alloc md = Inr (recovered_manager md q)"
    "\<And>s. length (q s) = state_count (md_root md) s" "queues_index (map queue_key (md_regions md)) q"
    "manager_wf (recovered_manager md q)"
    using from_metadata_ok [OF assms(1,2)] recovered_wf [OF assms(1,2) _ assms(4)] by metis
  define m where "m = recovered_manager md q"
  have quiet: "manager_quiescent m"
    by (simp add: m_def recovered_manager_def manager_quiescent_def is_quiescent_def default_shard_state_def
        list_all_iff Let_def)
  note root = frozen_root_recovered [OF assms(1) q(2), folded m_def]
  obtain md' where md': "freeze_metadata alloc (md_partitions md) m = Inr md'"
    "md_root md' = frozen_root m (index_slots (md_root md)) (length (md_partitions md))"
    "md_partitions md' = md_partitions md" "map recovered_desc (md_regions md') = regions m"
    "queues_index (map queue_key (md_regions md')) (queue_of m)"
    by (rule freeze_ok [OF q(4) [folded m_def] quiet recovered_ready [OF assms(1) q(2), folded m_def] assms(2),
          of "md_partitions md" "index_slots (md_root md)"])
      (use v parts root in \<open>auto simp: root_fields_invalid_def\<close>)
  have "queue_of m = q"
    by (rule ext) (simp add: queue_of_def m_def recovered_manager_def Let_def split: region_state.split)
  then have keys: "map queue_key (md_regions md') = map queue_key (md_regions md)"
    using index_keys_unique md'(5) q(3) by metis
  have descs: "map recovered_desc (md_regions md') = map recovered_desc (md_regions md)"
    using md'(4) by (simp add: m_def recovered_manager_def Let_def)
  have "md_regions md' = md_regions md"
  proof (rule nth_equalityI)
    show len: "length (md_regions md') = length (md_regions md)" using keys by (rule map_eq_imp_length_eq)
    fix j assume "j < length (md_regions md')"
    with len keys descs show "md_regions md' ! j = md_regions md ! j"
      by (intro record_eqI) (metis nth_map)+
  qed
  then have "md' = md" using md'(2,3) root parts by (cases md; cases md') simp
  with q(1) md'(1) show ?thesis by (auto simp: m_def)
qed


theorem recover_then_freeze_witness:
  "freeze_metadata (\<lambda>_. True) (md_partitions sample_metadata) sample_state = Inr sample_metadata"
  using recover_then_freeze [OF sample_metadata_valid sample_allocates sample_facts(5,4)]
  by (simp add: sample_from_metadata)

definition err_of :: "'e + 'a \<Rightarrow> 'e option" where
  "err_of r = (case r of Inl e \<Rightarrow> Some e | Inr _ \<Rightarrow> None)"

lemma err_of_simps [simp]: "err_of (Inl e) = Some e" "err_of (Inr a) = None"
  by (simp_all add: err_of_def)

text \<open>The configuration of the reclaim workers refuses with an error of the metadata kind.\<close>

fun event_error :: "manager_event \<Rightarrow> region_manager \<Rightarrow> region_mutation_error option" where
  "event_error (RequestRotation k n) m = err_of (fst (request_rotation_for_append k n m))"
| "event_error AllocateSeqno m = err_of (fst (allocate_seqno m))"
| "event_error (ReserveAppend k n) m = err_of (fst (reserve_append k n m))"
| "event_error (StageReservation t) m = err_of (fst (stage_reservation t m))"
| "event_error (ReserveWritePadding k) m = err_of (fst (reserve_write_padding k m))"
| "event_error (SealWriteSpan k) m = err_of (fst (seal_write_span k m))"
| "event_error (SealWriteSpanWithPadding p) m = err_of (fst (seal_write_span_with_padding p m))"
| "event_error (CompleteWriteSpan w) m = err_of (fst (complete_write_span w m))"
| "event_error (BeginRotation c) m = err_of (fst (begin_rotation c m))"
| "event_error (FinishRotation r) m = err_of (fst (finish_rotation r m))"
| "event_error BeginReclaim m = err_of (fst (begin_reclaim m))"
| "event_error (FinishReclaim q) m = err_of (fst (finish_reclaim q m))"
| "event_error (ConfigureReclaim alloc capacity workers) m = None"

text \<open>The errors that report a broken invariant of the manager itself.\<close>

definition internal_error :: "region_mutation_error \<Rightarrow> bool" where
  "internal_error e \<longleftrightarrow> e = MutationOverflow
     \<or> (\<exists>msg. e = Invariant msg \<and> msg \<noteq> ''data shard has no staged records''
              \<and> msg \<noteq> ''submitted write span is not direct-I/O aligned'')"

lemma internal_error_simps [simp]:
  "\<not> internal_error InvalidShard" "\<not> internal_error InvalidRecordLength" "\<not> internal_error WouldBlock"
  "\<not> internal_error FlushBeforeRotation" "\<not> internal_error RegionFull" "\<not> internal_error StaleReceipt"
  "\<not> internal_error SequenceExhausted" "\<not> internal_error (Invariant ''data shard has no staged records'')"
  "\<not> internal_error (Invariant ''submitted write span is not direct-I/O aligned'')"
  by (simp_all add: internal_error_def)

lemma ok_no_error: "is_ok r \<Longrightarrow> err_of r = None"
  by (cases r) simp_all

lemma append_no_internal:
  assumes wf: "manager_wf m" and n: "n \<le> u32_max"
  shows "pred_option (Not \<circ> internal_error) (err_of (fst (reserve_append k n m)))"
    and "pred_option (Not \<circ> internal_error) (err_of (fst (request_rotation_for_append k n m)))"
proof -
  have len: "length (append_states m) = length (active_regions m)" by (rule shard_lookup(1) [OF wf])
  {
    assume k: "k < length (append_states m)"
    note l = wf_lookup [OF wf k]
    let ?r = "reserved_used (regions m ! (active_regions m ! k))"
    have small: "?r \<le> 2 ^ 25" using l by linarith
    have "?r + align_padding ?r \<le> 2 ^ 25" using align_padding_fits [OF l(4)] l by simp
    then have "?r + align_padding ?r + n \<le> u64_max" "?r + n \<le> u64_max" "?r \<le> u32_max"
      using small n by (simp_all add: num_bounds)
    note l this
  } note facts = this
  show "pred_option (Not \<circ> internal_error) (err_of (fst (reserve_append k n m)))"
    using facts len by (auto simp: reserve_append_def allocate_seqno_def Let_def split: option.split)
  show "pred_option (Not \<circ> internal_error) (err_of (fst (request_rotation_for_append k n m)))"
    using facts len
    by (auto simp: request_rotation_for_append_def checked_add_def split: option.split)
qed

lemma padding_no_internal:
  assumes wf: "manager_wf m"
  shows "pred_option (Not \<circ> internal_error) (err_of (fst (reserve_write_padding k m)))"
proof (cases "k < length (append_states m) \<and> tail (append_states m ! k) = None
      \<and> pending_padding (append_states m ! k) = None \<and> submitted_span (append_states m ! k) = None
      \<and> rotation (append_states m ! k) = None \<and> open_span (append_states m ! k) \<noteq> None")
  case True
  then obtain sp where "open_span (append_states m ! k) = Some sp" by blast
  with True show ?thesis by (simp add: reserve_write_padding_ok(1) [OF wf])
next
  case False
  from reserve_write_padding_blocked [OF wf False] show ?thesis by auto
qed

lemma stale_no_internal:
  "\<not> holds_tail m t \<Longrightarrow> pred_option (Not \<circ> internal_error) (err_of (fst (stage_reservation t m)))"
  "\<not> holds_padding m p \<Longrightarrow> pred_option (Not \<circ> internal_error) (err_of (fst (seal_write_span_with_padding p m)))"
  "\<not> holds_span m w \<Longrightarrow> pred_option (Not \<circ> internal_error) (err_of (fst (complete_write_span w m)))"
  "\<not> holds_rotation m r \<Longrightarrow> pred_option (Not \<circ> internal_error) (err_of (fst (finish_rotation r m)))"
  "\<not> holds_reclaim m q \<Longrightarrow> pred_option (Not \<circ> internal_error) (err_of (fst (finish_reclaim q m)))"
  by (auto simp: stage_reservation_def holds_tail_def seal_write_span_with_padding_def holds_padding_def
      complete_write_span_def holds_span_def finish_rotation_def holds_rotation_def holds_reclaim_def
      finish_reclaim_stale split: option.split)

lemma receipt_no_internal:
  assumes wf: "manager_wf m"
  shows "pred_option (Not \<circ> internal_error) (err_of (fst (stage_reservation t m)))"
    "pred_option (Not \<circ> internal_error) (err_of (fst (seal_write_span_with_padding p m)))"
    "pred_option (Not \<circ> internal_error) (err_of (fst (complete_write_span w m)))"
    "pred_option (Not \<circ> internal_error) (err_of (fst (finish_rotation r m)))"
    "pred_option (Not \<circ> internal_error) (err_of (fst (finish_reclaim q m)))"
  using stale_no_internal staged.accept [OF wf] padded.accept [OF wf] completed.accept [OF wf]
    rotated.accept [OF wf] reclaimed.accept [OF wf]
  by (metis ok_no_error option.pred_inject(1))+

lemma rotation_no_internal:
  assumes wf: "manager_wf m"
  shows "pred_option (Not \<circ> internal_error) (err_of (fst (begin_rotation c m)))"
  using begin_rotation_failure(2) [OF _ wf, of c]
  by (cases "begin_rotation c m"; cases "fst (begin_rotation c m)") fastforce+

text \<open>
  C19 (safety): the defensive checks never fire. On a well-formed manager no operation, on any
  arguments, reports an arithmetic overflow or one of the \<^verbatim>\<open>Invariant\<close> errors about lost
  ownership, inconsistent queues, exceeded queue capacity or invalid spans; the only
  \<^verbatim>\<open>Invariant\<close> errors left are the two that report a flush without staged records or without
  its padding.
\<close>
theorem no_internal_error:
  assumes "manager_wf m" "event_allowed e" "event_error e m = Some err"
  shows "\<not> internal_error err"
proof (cases e)
  case (SealWriteSpan k)
  with assms(3) show ?thesis
    by (auto simp: seal_write_span_def submit_open_span_def Let_def split: option.splits if_splits)
next
  case BeginReclaim
  with assms(1,3) show ?thesis by (simp add: begin_reclaim_eq Let_def split: if_splits)
next
  case AllocateSeqno
  with assms(3) show ?thesis by (auto simp: allocate_seqno_def split: if_splits)
next
  case (ConfigureReclaim alloc capacity workers)
  with assms(3) show ?thesis by simp
qed (use assms append_no_internal [OF assms(1)] padding_no_internal [OF assms(1)] receipt_no_internal [OF assms(1)]
    rotation_no_internal [OF assms(1)] in \<open>fastforce simp: option.pred_set\<close>)+

theorem no_internal_error_witness:
  "\<not> internal_error RegionFull \<and> event_error (ReserveAppend 0 8224) sample_state = Some RegionFull"
proof -
  have "event_error (ReserveAppend 0 8224) sample_state = Some RegionFull"
    by (simp add: reserve_append_def sample_state_def sample_metadata_def recovered_desc_def default_shard_state_def
        get_at_def RECORD_ALIGNMENT_def checked_add_def num_bounds)
  moreover from no_internal_error [OF sample_facts(1) _ this] have "\<not> internal_error RegionFull"
    by (simp add: io_sizes u32_max_def)
  ultimately show ?thesis by blast
qed

text \<open>
  C21 (functional): the flush protocol of a shard produces direct-I/O spans. When padding is
  granted (or none is needed), sealing then succeeds, and the submitted span starts at the
  completed prefix and covers whole 4096-byte blocks inside the Region.
\<close>
theorem flush_protocol:
  assumes "manager_wf m" "reserve_write_padding k m = (Inr pad, m')"
  shows "\<exists>w. fst (case pad of None \<Rightarrow> seal_write_span k m' | Some p \<Rightarrow> seal_write_span_with_padding p m') = Inr w
     \<and> ws_region_id w = active_regions m ! k
     \<and> ws_start_offset w = completed_used (regions m ! ws_region_id w)
     \<and> ws_start_offset w mod DIRECT_IO_ALIGNMENT = 0 \<and> ws_end_offset w mod DIRECT_IO_ALIGNMENT = 0
     \<and> ws_start_offset w < ws_end_offset w \<and> ws_end_offset w \<le> rm_region_size m"
proof -
  have "k < length (append_states m) \<and> tail (append_states m ! k) = None
      \<and> pending_padding (append_states m ! k) = None \<and> submitted_span (append_states m ! k) = None
      \<and> rotation (append_states m ! k) = None \<and> open_span (append_states m ! k) \<noteq> None" (is "?free")
    using reserve_write_padding_blocked [OF assms(1), of k] assms(2) by (metis Inl_Inr_False prod.inject)
  then obtain sp where sp: "open_span (append_states m ! k) = Some sp" and k: "k < length (append_states m)"
    by blast
  let ?a = "active_regions m ! k" and ?pad = "align_padding (os_end_offset sp)"
  note l = wf_lookup [OF assms(1) k]
  note s = shard_lookup(2) [OF assms(1) l(1)]
  have free: "tail (append_states m ! k) = None" "pending_padding (append_states m ! k) = None"
    "submitted_span (append_states m ! k) = None" "rotation (append_states m ! k) = None" using \<open>?free\<close> by auto
  note w = reserve_write_padding_ok [OF assms(1) k free sp]
  have st: "os_start_offset sp = completed_used (regions m ! ?a)" "os_start_offset sp mod 4096 = 0"
    "os_start_offset sp < os_end_offset sp"
    using s sp free by (auto simp: shard_ok_def open_ok_def submitted_end_def DIRECT_IO_ALIGNMENT_def)
  have wf': "manager_wf m'" using reserve_write_padding_wf [OF assms(1), of k] assms(2) by simp
  have sum: "(os_end_offset sp + ?pad) mod 4096 = 0" by (rule align_padding_sum)
  have "\<exists>w. fst (case pad of None \<Rightarrow> seal_write_span k m' | Some p \<Rightarrow> seal_write_span_with_padding p m') = Inr w
     \<and> ws_end_offset w = os_end_offset sp + ?pad \<and> ws_region_id w = os_region_id sp
     \<and> ws_start_offset w = os_start_offset sp"
  proof (cases "?pad = 0")
    case True
    then have eq: "pad = None" "m' = m" using w(1) assms(2) by auto
    have "seal_write_span k m = submit_open_span k (os_end_offset sp) m"
      using k sp free by (simp add: seal_write_span_def get_at_def)
    with submit_open_span_wf(2) [OF assms(1) k free(1,3,4) sp] w(3) True sum eq show ?thesis by simp
  next
    case False
    define p where "p = \<lparr>rp_shard_id = k, rp_region_id = os_region_id sp, rp_span_start_offset = os_start_offset sp,
      rp_unpadded_end_offset = os_end_offset sp, rp_padded_end_offset = os_end_offset sp + ?pad,
      rp_record_count = os_record_count sp, rp_max_seqno = os_max_seqno sp\<rparr>"
    have eq: "pad = Some p" and m': "m' = update_shard k (\<lambda>sh. sh\<lparr>pending_padding := Some p\<rparr>)
             (update_region ?a (\<lambda>d. d\<lparr>reserved_used := os_end_offset sp + ?pad\<rparr>) m)"
      using w(1,2) assms(2) False by (auto simp: p_def)
    have sh: "k < length (append_states m')" "open_span (append_states m' ! k) = Some sp"
      "tail (append_states m' ! k) = None" "submitted_span (append_states m' ! k) = None"
      "rotation (append_states m' ! k) = None" "pending_padding (append_states m' ! k) = Some p"
      "reserved_used (regions m' ! (active_regions m' ! k)) = os_end_offset sp + ?pad"
      using k sp free l by (simp_all add: m' update_shard_def update_region_def)
    have "seal_write_span_with_padding p m' = submit_open_span k (os_end_offset sp + ?pad) m'"
      using seal_with_padding_ok(1) [OF wf', of p] sh by (simp add: p_def)
    with submit_open_span_wf(2) [OF wf' sh(1,3,4,5,2) sh(7) [symmetric]] sum eq show ?thesis by simp
  qed
  then show ?thesis using st w(2,4) sum by (fastforce simp: DIRECT_IO_ALIGNMENT_def)
qed


theorem flush_protocol_witness:
  "\<exists>k m w. manager_wf m \<and> fst (case fst (reserve_write_padding k m) of
       Inr None \<Rightarrow> seal_write_span k (snd (reserve_write_padding k m))
     | Inr (Some p) \<Rightarrow> seal_write_span_with_padding p (snd (reserve_write_padding k m))
     | Inl e \<Rightarrow> (Inl e, m)) = Inr w \<and> ws_end_offset w mod DIRECT_IO_ALIGNMENT = 0"
proof -
  define t where "t = \<lparr>ra_shard_id = 0, ra_region_id = 3, ra_region_created_seqno = 8, ra_offset = 0,
    ra_record_bytes = 64, ra_seqno = 10\<rparr>"
  define m where "m = snd (stage_reservation t (snd (reserve_append 0 64 sample_state)))"
  have "MIN_ENCODED_RECORD_SIZE \<le> 64" by (simp add: io_sizes)
  then have wf: "manager_wf m"
    unfolding m_def by (intro stage_reservation_wf reserve_append_wf sample_facts(1))
  have sh: "0 < length (append_states m)" "tail (append_states m ! 0) = None"
    "pending_padding (append_states m ! 0) = None" "submitted_span (append_states m ! 0) = None"
    "rotation (append_states m ! 0) = None" "open_span (append_states m ! 0) = Some
      \<lparr>os_region_id = 3, os_start_offset = 0, os_end_offset = 64, os_record_count = 1, os_max_seqno = 10\<rparr>"
    by (simp_all add: m_def t_def stage_reservation_def reserve_append_def extend_open_span_def reservation_end_offset_def
        sample_state_def sample_metadata_def recovered_desc_def default_shard_state_def update_shard_def
        update_region_def get_at_def RECORD_ALIGNMENT_def checked_add_def try_from_def num_bounds allocate_seqno_def Let_def)
  obtain pad where fst_pad: "fst (reserve_write_padding 0 m) = Inr pad"
    using reserve_write_padding_ok(1) [OF wf sh] by (simp split: if_splits)
  have pad: "reserve_write_padding 0 m = (Inr pad, snd (reserve_write_padding 0 m))"
    unfolding fst_pad [symmetric] by simp
  from flush_protocol [OF wf pad] show ?thesis
  proof (elim exE conjE)
    fix w
    assume "fst (case pad of None \<Rightarrow> seal_write_span 0 (snd (reserve_write_padding 0 m))
       | Some p \<Rightarrow> seal_write_span_with_padding p (snd (reserve_write_padding 0 m))) = Inr w"
      and "ws_end_offset w mod DIRECT_IO_ALIGNMENT = 0"
    with wf fst_pad show ?thesis
      by (intro exI [of _ 0] exI [of _ m] exI [of _ w]) simp
  qed
qed

end
