(* ===== verification/Index_Slot.thy ===== *)
theory Index_Slot
  imports Index_Layout
begin

unbundle bit_operations_syntax

text \<open>
  The eight-byte index bucket and the physical counters of
  \<^verbatim>\<open>cache2/src/region/index/storage/mod.rs\<close> (lines 247 to 440). A bucket keeps the Region,
  the offset, a 14-bit fingerprint and a two-bit displacement exactly and replaces the record
  length by the upper bound of its size class; \<open>quantize\<close> is that loss.
\<close>

section \<open>Buckets\<close>

datatype index_slot = IndexSlot (encoded: u64)

datatype index_slot_state = Empty | Value u16 u8 index_entry

datatype slot_physical_kind = EmptyKind | ValueKind

definition SLOT_REGION_BITS :: nat where "SLOT_REGION_BITS = 20"
definition SLOT_OFFSET_BITS :: nat where "SLOT_OFFSET_BITS = 20"
definition SLOT_SIZE_CLASS_BITS :: nat where "SLOT_SIZE_CLASS_BITS = 8"
definition SLOT_FINGERPRINT_BITS :: nat where "SLOT_FINGERPRINT_BITS = 14"
definition SLOT_DISPLACEMENT_BITS :: nat where "SLOT_DISPLACEMENT_BITS = 2"
definition SLOT_OFFSET_SHIFT :: nat where "SLOT_OFFSET_SHIFT = 0 + SLOT_REGION_BITS"
definition SLOT_SIZE_CLASS_SHIFT :: nat where
  "SLOT_SIZE_CLASS_SHIFT = SLOT_OFFSET_SHIFT + SLOT_OFFSET_BITS"
definition SLOT_FINGERPRINT_SHIFT :: nat where
  "SLOT_FINGERPRINT_SHIFT = SLOT_SIZE_CLASS_SHIFT + SLOT_SIZE_CLASS_BITS"
definition SLOT_DISPLACEMENT_SHIFT :: nat where
  "SLOT_DISPLACEMENT_SHIFT = SLOT_FINGERPRINT_SHIFT + SLOT_FINGERPRINT_BITS"
definition slot_mask :: "nat \<Rightarrow> u64" where "slot_mask bits = push_bit bits 1 - 1"

lemmas slot_widths = SLOT_REGION_BITS_def SLOT_OFFSET_BITS_def SLOT_SIZE_CLASS_BITS_def
  SLOT_FINGERPRINT_BITS_def SLOT_DISPLACEMENT_BITS_def SLOT_OFFSET_SHIFT_def
  SLOT_SIZE_CLASS_SHIFT_def SLOT_FINGERPRINT_SHIFT_def SLOT_DISPLACEMENT_SHIFT_def

definition from_state :: "index_slot_state \<Rightarrow> index_slot" where
  "from_state state =
     (case state of
        Empty \<Rightarrow> IndexSlot 0
      | Value fingerprint displacement entry \<Rightarrow>
          (let loc = location entry; offset_units = ucast (offset loc div 32) :: u64
           in IndexSlot
             (ucast (region_id loc)
              OR push_bit SLOT_OFFSET_SHIFT offset_units
              OR push_bit SLOT_SIZE_CLASS_SHIFT (of_nat (index_size_class loc))
              OR push_bit SLOT_FINGERPRINT_SHIFT (ucast fingerprint AND slot_mask SLOT_FINGERPRINT_BITS)
              OR push_bit SLOT_DISPLACEMENT_SHIFT
                   (ucast displacement AND slot_mask SLOT_DISPLACEMENT_BITS))))"

definition runtime_state :: "index_slot \<Rightarrow> index_slot_semantic_error + index_slot_state" where
  "runtime_state slot =
     (let w = encoded slot in
      if w = 0 then Inr Empty
      else (let size_class = unat (drop_bit SLOT_SIZE_CLASS_SHIFT w AND slot_mask SLOT_SIZE_CLASS_BITS)
            in bind_result (ok_or NonCanonicalMarker (record_size_class_upper_bound size_class)) (\<lambda>len.
               let rid = ucast (drop_bit 0 w AND slot_mask SLOT_REGION_BITS) :: u32;
                   offset_units = ucast (drop_bit SLOT_OFFSET_SHIFT w AND slot_mask SLOT_OFFSET_BITS) :: u32;
                   off = offset_units * 32
               in bind_result (map_err InvalidLocation (location_new rid off (of_nat len))) (\<lambda>loc.
                  Inr (Value
                    (ucast (drop_bit SLOT_FINGERPRINT_SHIFT w AND slot_mask SLOT_FINGERPRINT_BITS))
                    (ucast (drop_bit SLOT_DISPLACEMENT_SHIFT w AND slot_mask SLOT_DISPLACEMENT_BITS))
                    \<lparr>location = loc\<rparr>)))))"

definition physical_kind :: "index_slot \<Rightarrow> slot_physical_kind" where
  "physical_kind slot = (if encoded slot = 0 then EmptyKind else ValueKind)"

text \<open>\<^verbatim>\<open>IndexSlot::encode\<close> and \<^verbatim>\<open>decode\<close>: the little-endian bytes of the word.\<close>

definition slot_encode :: "index_slot \<Rightarrow> bytes" where
  "slot_encode slot = to_le 8 (encoded slot)"

definition slot_decode :: "bytes \<Rightarrow> index_slot option" where
  "slot_decode input = map_option IndexSlot (get_u64 input 0)"

section \<open>Image binding and physical counters\<close>

record index_image_binding =
  generation :: u64
  image_tag :: u64

definition binding_is_valid :: "index_image_binding \<Rightarrow> bool" where
  "binding_is_valid b \<longleftrightarrow> generation b \<noteq> 0 \<and> image_tag b \<noteq> 0"

record index_physical_stats =
  stat_value :: nat
  stat_deleted :: nat

definition default_stats :: index_physical_stats where
  "default_stats = \<lparr>stat_value = 0, stat_deleted = 0\<rparr>"

definition stats_total :: "index_physical_stats \<Rightarrow> nat option" where
  "stats_total s = checked_add u64_max (stat_value s) (stat_deleted s)"

definition stats_is_valid_for :: "index_physical_stats \<Rightarrow> nat \<Rightarrow> bool" where
  "stats_is_valid_for s slots =
     (case try_from u64_max slots of
        None \<Rightarrow> False
      | Some n \<Rightarrow> stat_deleted s = 0 \<and> (case stats_total s of None \<Rightarrow> False | Some t \<Rightarrow> t \<le> n))"

definition stats_decrement :: "index_physical_stats \<Rightarrow> slot_physical_kind \<Rightarrow> index_physical_stats option" where
  "stats_decrement s kind =
     (case kind of
        EmptyKind \<Rightarrow> Some s
      | ValueKind \<Rightarrow> map_option (\<lambda>v. s\<lparr>stat_value := v\<rparr>) (checked_sub (stat_value s) 1))"

definition stats_increment :: "index_physical_stats \<Rightarrow> slot_physical_kind \<Rightarrow> index_physical_stats option" where
  "stats_increment s kind =
     (case kind of
        EmptyKind \<Rightarrow> Some s
      | ValueKind \<Rightarrow> map_option (\<lambda>v. s\<lparr>stat_value := v\<rparr>) (checked_add u64_max (stat_value s) 1))"

definition stats_transitioned ::
    "index_physical_stats \<Rightarrow> slot_physical_kind \<Rightarrow> slot_physical_kind \<Rightarrow> nat \<Rightarrow> index_physical_stats option" where
  "stats_transitioned s old new slots = do {
     next \<leftarrow> stats_decrement s old;
     next \<leftarrow> stats_increment next new;
     (if stats_is_valid_for next slots then Some next else None)
   }"

definition checked_add_physical_stats ::
    "index_physical_stats \<Rightarrow> index_physical_stats \<Rightarrow> index_storage_error + index_physical_stats" where
  "checked_add_physical_stats l r =
     bind_result (ok_or InvalidPhysicalStats (checked_add u64_max (stat_value l) (stat_value r))) (\<lambda>v.
     bind_result (ok_or InvalidPhysicalStats (checked_add u64_max (stat_deleted l) (stat_deleted r))) (\<lambda>d.
     Inr \<lparr>stat_value = v, stat_deleted = d\<rparr>))"

section \<open>The quantization a bucket applies\<close>

definition quantize_location :: "packed_location \<Rightarrow> packed_location" where
  "quantize_location loc =
     (case location_new (region_id loc) (offset loc)
             (of_nat (the (record_size_class_upper_bound (index_size_class loc)))) of
        Inl e \<Rightarrow> loc | Inr p \<Rightarrow> p)"

definition quantize :: "index_slot_state \<Rightarrow> index_slot_state" where
  "quantize state =
     (case state of Empty \<Rightarrow> Empty
      | Value f d e \<Rightarrow> Value (f AND mask 14) (d AND mask 2) (e\<lparr>location := quantize_location (location e)\<rparr>))"

lemma slot_mask_eq [simp]: "n \<le> 20 \<Longrightarrow> slot_mask n = mask n"
  by (simp add: slot_mask_def mask_eq_decr_exp flip: push_bit_eq_mult)

lemma quantize_location_new:
  obtains upper where
    "record_size_class_upper_bound (index_size_class loc) = Some upper"
    "location_new (region_id loc) (offset loc) (of_nat upper) = Inr (quantize_location loc)"
    "unat (record_len loc) \<le> upper" "upper \<le> MAX_RECORD_LEN"
    "record_size_class upper = Some (index_size_class loc)"
    "unat (record_len loc) \<le> 1024 \<longrightarrow> upper = unat (record_len loc)"
    "1024 < unat (record_len loc) \<longrightarrow> upper * 100 < unat (record_len loc) * 107"
proof -
  obtain c where c: "record_size_class (unat (record_len loc)) = Some c" "index_size_class loc = c"
    by (rule record_size_class_location [of loc])
  from c(1) obtain upper where u: "record_size_class_upper_bound c = Some upper"
    "unat (record_len loc) \<le> upper" "upper \<le> MAX_RECORD_LEN" "upper mod 32 = 0"
    "record_size_class upper = Some c"
    "unat (record_len loc) \<le> 1024 \<longrightarrow> upper = unat (record_len loc)"
    "1024 < unat (record_len loc) \<longrightarrow> upper * 100 < unat (record_len loc) * 107"
    by (rule record_size_class_upper)
  have "unat (of_nat upper :: u32) = upper"
    using u(3) by (simp add: packed_limits unat_of_nat)
  with u location_bounds [of loc] obtain p where
    p: "location_new (region_id loc) (offset loc) (of_nat upper) = Inr p"
    using location_new_total [of "region_id loc" "offset loc" "of_nat upper"]
    by (auto simp: RECORD_LEN_ALIGNMENT_def)
  then have "quantize_location loc = p" using u(1) c(2) by (simp add: quantize_location_def)
  with p u c(2) show ?thesis by (intro that [of upper]) simp_all
qed

lemma quantize_location_fields:
  "region_id (quantize_location loc) = region_id loc" "offset (quantize_location loc) = offset loc"
  "index_size_class (quantize_location loc) = index_size_class loc"
  "unat (record_len loc) \<le> unat (record_len (quantize_location loc))"
proof -
  obtain upper where u: "location_new (region_id loc) (offset loc) (of_nat upper) = Inr (quantize_location loc)"
    "unat (record_len loc) \<le> upper" "upper \<le> MAX_RECORD_LEN"
    "record_size_class upper = Some (index_size_class loc)"
    by (rule quantize_location_new)
  have "unat (of_nat upper :: u32) = upper" using u(3) by (simp add: packed_limits unat_of_nat)
  with location_new_roundtrip [OF u(1)] u show
    "region_id (quantize_location loc) = region_id loc" "offset (quantize_location loc) = offset loc"
    "index_size_class (quantize_location loc) = index_size_class loc"
    "unat (record_len loc) \<le> unat (record_len (quantize_location loc))"
    by (simp_all add: index_size_class_def)
qed

lemma quantize_location_len:
  "record_size_class_upper_bound (index_size_class loc) = Some (unat (record_len (quantize_location loc)))"
proof -
  obtain upper where u: "record_size_class_upper_bound (index_size_class loc) = Some upper"
    "location_new (region_id loc) (offset loc) (of_nat upper) = Inr (quantize_location loc)" "upper \<le> MAX_RECORD_LEN"
    by (rule quantize_location_new)
  have "unat (of_nat upper :: u32) = upper" using u(3) by (simp add: packed_limits unat_of_nat)
  with location_new_roundtrip [OF u(2)] u(1) show ?thesis by simp
qed

lemma quantize_index_equivalent: "index_equivalent loc (quantize_location loc)"
  by (simp add: index_equivalent_def quantize_location_fields)

lemma quantize_location_idem [simp]: "quantize_location (quantize_location loc) = quantize_location loc"
  by (simp add: quantize_location_def [of "quantize_location loc"] quantize_location_fields)
     (metis (no_types, lifting) option.sel quantize_location_new sum.case(2))

section \<open>The bucket codec\<close>

lemma from_state_fields:
  fixes f :: u16 and d :: u8 and e :: index_entry
  defines "w \<equiv> encoded (from_state (Value f d e))" and "loc \<equiv> location e"
  shows "take_bit 20 w = ucast (region_id loc)"
    and "take_bit 20 (drop_bit 20 w) = ucast (offset loc div 32)"
    and "take_bit 8 (drop_bit 40 w) = of_nat (index_size_class loc)"
    and "take_bit 14 (drop_bit 48 w) = take_bit 14 (ucast f)"
    and "take_bit 2 (drop_bit 62 w) = take_bit 2 (ucast d)"
proof -
  let ?r = "ucast (region_id loc) :: u64" and ?o = "ucast (offset loc div 32) :: u64"
    and ?c = "of_nat (index_size_class loc) :: u64" and ?f = "take_bit 14 (ucast f) :: u64"
    and ?d = "take_bit 2 (ucast d) :: u64"
  have w: "w = ?r OR push_bit 20 ?o OR push_bit 40 ?c OR push_bit 48 ?f OR push_bit 62 ?d"
    by (simp add: w_def from_state_def Let_def loc_def slot_widths take_bit_eq_mask)
  note b = location_bounds [of loc, unfolded packed_limits]
  have r: "take_bit 20 ?r = ?r"
    using b(1) by (intro take_bit_self_unat) (simp add: unsigned_ucast_eq take_bit_nat_eq_self)
  have o: "take_bit 20 ?o = ?o"
    using b(2) by (intro take_bit_self_unat)
      (simp add: unsigned_ucast_eq unat_div take_bit_nat_eq_self)
  obtain "index_size_class loc \<le> 255" by (rule record_size_class_location [of loc]) simp
  then have c: "take_bit 8 ?c = ?c"
    by (intro take_bit_self_unat) (simp add: unat_of_nat)
  have f: "take_bit 14 ?f = ?f" and d: "take_bit 2 ?d = ?d" by simp_all
  note below = field_low_below [OF r] field_below [OF o] field_below [OF c] field_below [OF f]
  show "take_bit 20 w = ?r"
    by (simp add: w r take_bit_or field_low_above)
  show "take_bit 20 (drop_bit 20 w) = ?o"
    by (simp add: w o take_bit_or drop_bit_or field_same field_above below)
  show "take_bit 8 (drop_bit 40 w) = ?c"
    by (simp add: w c take_bit_or drop_bit_or field_same field_above below)
  show "take_bit 14 (drop_bit 48 w) = ?f"
    by (simp add: w take_bit_or drop_bit_or field_same field_above below)
  show "take_bit 2 (drop_bit 62 w) = ?d"
    by (simp add: w take_bit_or drop_bit_or field_same field_above below)
qed

lemma ucast_take_bit_down:
  fixes w :: "'a::len word"
  assumes "n \<le> LENGTH('a)" "n \<le> LENGTH('b)" "LENGTH('a) \<le> LENGTH('b)"
  shows "(ucast (take_bit n (ucast w :: 'b::len word)) :: 'a word) = take_bit n w"
  using assms by (intro bit_word_eqI) (auto simp: bit_simps)

text \<open>A stored state reads back as its quantization; nothing else is lost.\<close>

lemma runtime_from_state: "runtime_state (from_state s) = Inr (quantize s)"
proof (cases s)
  case Empty
  then show ?thesis by (simp add: runtime_state_def from_state_def quantize_def)
next
  case (Value f d e)
  let ?w = "encoded (from_state (Value f d e))" and ?loc = "location e"
  note fl = from_state_fields [of f d e]
  obtain upper where u: "record_size_class_upper_bound (index_size_class ?loc) = Some upper"
    "location_new (region_id ?loc) (offset ?loc) (of_nat upper) = Inr (quantize_location ?loc)"
    by (rule quantize_location_new)
  obtain cb: "1 \<le> index_size_class ?loc" "index_size_class ?loc \<le> 255"
    by (rule record_size_class_location [of ?loc]) simp
  have of_class: "unat (of_nat (index_size_class ?loc) :: u64) = index_size_class ?loc"
    using cb by (simp add: unat_of_nat)
  then have cls: "unat (take_bit 8 (drop_bit 40 ?w)) = index_size_class ?loc" by (simp add: fl)
  have entry: "\<lparr>location = q\<rparr> = e\<lparr>location := q\<rparr>" for q by (cases e) simp
  from cls cb have "?w \<noteq> 0" by (metis drop_bit_of_0 not_one_le_zero take_bit_of_0 unsigned_0)
  have off: "ucast (ucast (offset ?loc div 32) :: u64) * 32 = offset ?loc"
    using word_div_mult_32 [of "offset ?loc"] location_bounds(3) [of ?loc, unfolded OFFSET_ALIGNMENT_def]
    by (simp add: ucast_up_ucast_id is_up)
  have rid: "ucast (ucast (region_id ?loc) :: u64) = region_id ?loc"
    by (simp add: ucast_up_ucast_id is_up)
  show ?thesis
    using \<open>?w \<noteq> 0\<close> u off rid
    by (simp add: Value runtime_state_def Let_def slot_widths flip: take_bit_eq_mask)
       (simp add: fl of_class entry quantize_def ucast_take_bit_down flip: take_bit_eq_mask)
qed

lemma physical_kind_from_state:
  "physical_kind (from_state s) = (case s of Empty \<Rightarrow> EmptyKind | Value f d e \<Rightarrow> ValueKind)"
proof (cases s)
  case (Value f d e)
  have "encoded (from_state s) \<noteq> 0"
  proof
    assume "encoded (from_state s) = 0"
    then have "runtime_state (from_state s) = Inr Empty" by (simp add: runtime_state_def)
    then show False by (simp add: runtime_from_state quantize_def Value)
  qed
  then show ?thesis by (simp add: physical_kind_def Value)
qed (simp add: physical_kind_def from_state_def)

lemma slot_decode_encode: "slot_decode (slot_encode slot) = Some slot"
proof -
  have "get_u64 (to_le 8 (encoded slot)) 0 = Some (encoded slot)"
    by (rule f64.get_encoded) (simp_all add: num_bounds slice_at_def)
  then show ?thesis by (simp add: slot_decode_def slot_encode_def)
qed

lemma quantize_idem [simp]: "quantize (quantize s) = quantize s"
  by (cases s) (simp_all add: quantize_def and.assoc)

section \<open>Properties\<close>

text \<open>
  C37 (roundtrip): a value bucket encoded to its eight bytes and decoded again has the same
  fingerprint, displacement, Region and offset; its record length becomes the upper bound of its
  size class, which covers the record and is address-equivalent to the original for the index.
\<close>
theorem index_slot_roundtrip:
  assumes "unat f < 2 ^ 14" "unat d < 4"
  shows "\<exists>slot loc. slot_decode (slot_encode (from_state (Value f d e))) = Some slot
     \<and> runtime_state slot = Inr (Value f d \<lparr>location = loc\<rparr>)
     \<and> region_id loc = region_id (location e) \<and> offset loc = offset (location e)
     \<and> record_size_class_upper_bound (index_size_class (location e)) = Some (unat (record_len loc))
     \<and> unat (record_len (location e)) \<le> unat (record_len loc)
     \<and> index_equivalent (location e) loc"
proof -
  have f: "f AND mask 14 = f" and d: "d AND mask 2 = d"
    using assms take_bit_self_unat [of f 14] take_bit_self_unat [of d 2]
    by (simp_all add: take_bit_eq_mask)
  have "e\<lparr>location := quantize_location (location e)\<rparr> = \<lparr>location = quantize_location (location e)\<rparr>"
    by (cases e) simp
  then show ?thesis
    using f d quantize_location_fields [of "location e"] quantize_index_equivalent [of "location e"]
    by (intro exI [of _ "from_state (Value f d e)"] exI [of _ "quantize_location (location e)"])
       (simp add: slot_decode_encode runtime_from_state quantize_def quantize_location_len)
qed

theorem index_slot_roundtrip_witness:
  "\<exists>slot loc. slot_decode (slot_encode (from_state (Value 77 3 \<lparr>location = PackedLocation 12345678901\<rparr>))) = Some slot
     \<and> runtime_state slot = Inr (Value 77 3 \<lparr>location = loc\<rparr>)
     \<and> region_id loc = region_id (location \<lparr>location = PackedLocation 12345678901\<rparr>)
     \<and> offset loc = offset (location \<lparr>location = PackedLocation 12345678901\<rparr>)
     \<and> record_size_class_upper_bound (index_size_class (location \<lparr>location = PackedLocation 12345678901\<rparr>))
         = Some (unat (record_len loc))
     \<and> unat (record_len (location \<lparr>location = PackedLocation 12345678901\<rparr>)) \<le> unat (record_len loc)
     \<and> index_equivalent (location \<lparr>location = PackedLocation 12345678901\<rparr>) loc"
  by (rule index_slot_roundtrip) simp_all

end
