(* ===== verification/Page_Format.thy ===== *)
theory Page_Format
  imports Record_Header Index_Slot
begin

text \<open>
  \<^verbatim>\<open>cache2/src/region/index/storage/page_format.rs\<close>: the 64-byte header of a 4 KiB index page,
  its writer, its validator and the page checksum. A page is a byte list of length 4096 (the
  source's array type fixes that length); \<open>None\<close> is the panic of an \<^verbatim>\<open>expect\<close> or of a slice
  out of range. The validator accepts exactly what the writer produces.
\<close>

section \<open>The code\<close>

definition PAGE_MAGIC :: bytes where
  "PAGE_MAGIC = [0x43, 0x32, 0x53, 0x49, 0x44, 0x58, 0x31, 0]"
definition PAGE_FORMAT_VERSION :: u16 where "PAGE_FORMAT_VERSION = 1"
definition PAGE_VERSION_OFFSET :: nat where "PAGE_VERSION_OFFSET = 8"
definition PAGE_HEADER_SIZE_OFFSET :: nat where "PAGE_HEADER_SIZE_OFFSET = 10"
definition PAGE_SLOT_SIZE_OFFSET :: nat where "PAGE_SLOT_SIZE_OFFSET = 12"
definition PAGE_SLOTS_PER_PAGE_OFFSET :: nat where "PAGE_SLOTS_PER_PAGE_OFFSET = 14"
definition PAGE_INDEX_OFFSET :: nat where "PAGE_INDEX_OFFSET = 16"
definition PAGE_FIRST_SLOT_OFFSET :: nat where "PAGE_FIRST_SLOT_OFFSET = 24"
definition PAGE_VALID_SLOTS_OFFSET :: nat where "PAGE_VALID_SLOTS_OFFSET = 32"
definition PAGE_FLAGS_OFFSET :: nat where "PAGE_FLAGS_OFFSET = 36"
definition PAGE_GENERATION_OFFSET :: nat where "PAGE_GENERATION_OFFSET = 40"
definition PAGE_IMAGE_TAG_OFFSET :: nat where "PAGE_IMAGE_TAG_OFFSET = 48"
definition PAGE_CHECKSUM_OFFSET :: nat where "PAGE_CHECKSUM_OFFSET = 56"
definition PAGE_TRAILING_RESERVED_OFFSET :: nat where "PAGE_TRAILING_RESERVED_OFFSET = 60"
definition PAGE_FLAG_NONE :: u32 where "PAGE_FLAG_NONE = 0"

lemmas page_consts = PAGE_FORMAT_VERSION_def PAGE_VERSION_OFFSET_def PAGE_HEADER_SIZE_OFFSET_def
  PAGE_SLOT_SIZE_OFFSET_def PAGE_SLOTS_PER_PAGE_OFFSET_def PAGE_INDEX_OFFSET_def
  PAGE_FIRST_SLOT_OFFSET_def PAGE_VALID_SLOTS_OFFSET_def PAGE_FLAGS_OFFSET_def
  PAGE_GENERATION_OFFSET_def PAGE_IMAGE_TAG_OFFSET_def PAGE_CHECKSUM_OFFSET_def
  PAGE_TRAILING_RESERVED_OFFSET_def PAGE_FLAG_NONE_def

definition encode_page_header ::
    "bytes \<Rightarrow> nat \<Rightarrow> nat \<Rightarrow> nat \<Rightarrow> index_image_binding \<Rightarrow> (index_storage_error + bytes) option" where
  "encode_page_header page page_index first valid_slots binding = do {
     page \<leftarrow> write_range page 0 PAGE_MAGIC;
     page \<leftarrow> put_u16 page PAGE_VERSION_OFFSET PAGE_FORMAT_VERSION;
     page \<leftarrow> put_u16 page PAGE_HEADER_SIZE_OFFSET (of_nat INDEX_IMAGE_PAGE_HEADER_SIZE);
     page \<leftarrow> put_u16 page PAGE_SLOT_SIZE_OFFSET (of_nat INDEX_IMAGE_SLOT_SIZE);
     page \<leftarrow> put_u16 page PAGE_SLOTS_PER_PAGE_OFFSET (of_nat INDEX_IMAGE_SLOTS_PER_PAGE);
     (case try_from u64_max page_index of None \<Rightarrow> Some (Inl SizeOverflow) | Some page_index \<Rightarrow> do {
     page \<leftarrow> put_u64 page PAGE_INDEX_OFFSET (of_nat page_index);
     (case try_from u64_max first of None \<Rightarrow> Some (Inl SizeOverflow) | Some first \<Rightarrow> do {
     page \<leftarrow> put_u64 page PAGE_FIRST_SLOT_OFFSET (of_nat first);
     (case try_from u32_max valid_slots of None \<Rightarrow> Some (Inl SizeOverflow) | Some valid_slots \<Rightarrow> do {
     page \<leftarrow> put_u32 page PAGE_VALID_SLOTS_OFFSET (of_nat valid_slots);
     page \<leftarrow> put_u32 page PAGE_FLAGS_OFFSET PAGE_FLAG_NONE;
     page \<leftarrow> put_u64 page PAGE_GENERATION_OFFSET (generation binding);
     page \<leftarrow> put_u64 page PAGE_IMAGE_TAG_OFFSET (image_tag binding);
     page \<leftarrow> put_u32 page PAGE_CHECKSUM_OFFSET 0;
     Some (Inr page)
     })})})}"

definition page_checksum :: "crc_stream \<Rightarrow> bytes \<Rightarrow> u32 option" where
  "page_checksum digest page = do {
     before \<leftarrow> slice_at page 0 PAGE_CHECKSUM_OFFSET;
     rest \<leftarrow> slice_at page (PAGE_CHECKSUM_OFFSET + 4) (length page);
     Some (crc32c digest [before, replicate 4 0, rest])
   }"

text \<open>The checks of the header, in the order of the source; each stops with its own reason.\<close>

definition validate_page_header ::
    "crc_stream \<Rightarrow> bytes \<Rightarrow> nat \<Rightarrow> nat \<Rightarrow> nat \<Rightarrow> index_image_binding \<Rightarrow> (corrupt_page_reason + unit) option" where
  "validate_page_header digest page expected_page_index expected_first_slot expected_valid_slots binding = do {
     magic \<leftarrow> slice_at page 0 8;
     if magic \<noteq> PAGE_MAGIC then Some (Inl InvalidMagic) else do {
     version \<leftarrow> get_u16 page PAGE_VERSION_OFFSET;
     if version \<noteq> PAGE_FORMAT_VERSION then Some (Inl (UnsupportedVersion version)) else do {
     header_size \<leftarrow> get_u16 page PAGE_HEADER_SIZE_OFFSET;
     if header_size \<noteq> of_nat INDEX_IMAGE_PAGE_HEADER_SIZE then Some (Inl (InvalidHeaderSize header_size)) else do {
     slot_size \<leftarrow> get_u16 page PAGE_SLOT_SIZE_OFFSET;
     if slot_size \<noteq> of_nat INDEX_IMAGE_SLOT_SIZE then Some (Inl (InvalidSlotSize slot_size)) else do {
     slots_per_page \<leftarrow> get_u16 page PAGE_SLOTS_PER_PAGE_OFFSET;
     if slots_per_page \<noteq> of_nat INDEX_IMAGE_SLOTS_PER_PAGE
     then Some (Inl (InvalidSlotsPerPage slots_per_page)) else do {
     actual_page_index \<leftarrow> get_u64 page PAGE_INDEX_OFFSET;
     (case try_from u64_max expected_page_index of
        None \<Rightarrow> Some (Inl (WrongPageIndex (- 1) actual_page_index))
      | Some expected_page_index \<Rightarrow>
     if actual_page_index \<noteq> of_nat expected_page_index
     then Some (Inl (WrongPageIndex (of_nat expected_page_index) actual_page_index)) else do {
     actual_first_slot \<leftarrow> get_u64 page PAGE_FIRST_SLOT_OFFSET;
     (case try_from u64_max expected_first_slot of
        None \<Rightarrow> Some (Inl (WrongFirstSlot (- 1) actual_first_slot))
      | Some expected_first_slot \<Rightarrow>
     if actual_first_slot \<noteq> of_nat expected_first_slot
     then Some (Inl (WrongFirstSlot (of_nat expected_first_slot) actual_first_slot)) else do {
     actual_valid_slots \<leftarrow> get_u32 page PAGE_VALID_SLOTS_OFFSET;
     (case try_from u32_max expected_valid_slots of
        None \<Rightarrow> Some (Inl (WrongValidSlotCount (- 1) actual_valid_slots))
      | Some expected_valid_slots \<Rightarrow>
     if actual_valid_slots \<noteq> of_nat expected_valid_slots
     then Some (Inl (WrongValidSlotCount (of_nat expected_valid_slots) actual_valid_slots)) else do {
     flags \<leftarrow> get_u32 page PAGE_FLAGS_OFFSET;
     if flags \<noteq> PAGE_FLAG_NONE then Some (Inl (UnsupportedFlags flags)) else do {
     actual_generation \<leftarrow> get_u64 page PAGE_GENERATION_OFFSET;
     if actual_generation \<noteq> generation binding
     then Some (Inl (WrongGeneration (generation binding) actual_generation)) else do {
     actual_image_tag \<leftarrow> get_u64 page PAGE_IMAGE_TAG_OFFSET;
     if actual_image_tag \<noteq> image_tag binding
     then Some (Inl (WrongImageTag (image_tag binding) actual_image_tag)) else do {
     reserved \<leftarrow> slice_at page PAGE_TRAILING_RESERVED_OFFSET INDEX_IMAGE_PAGE_HEADER_SIZE;
     if list_ex (\<lambda>byte. byte \<noteq> 0) reserved then Some (Inl ReservedBytesNonZero) else do {
     stored \<leftarrow> get_u32 page PAGE_CHECKSUM_OFFSET;
     computed \<leftarrow> page_checksum digest page;
     if stored \<noteq> computed then Some (Inl (ChecksumMismatch stored computed)) else Some (Inr ())
     }}}}})})})}}}}}}"

section \<open>What the writer produces\<close>

text \<open>The header as the concatenation of its fields, for a given stored checksum.\<close>

definition header_fields :: "nat \<Rightarrow> nat \<Rightarrow> nat \<Rightarrow> index_image_binding \<Rightarrow> bytes" where
  "header_fields page_index first valid_slots b =
     PAGE_MAGIC @ to_le 2 (1 :: u16) @ to_le 2 (64 :: u16) @ to_le 2 (8 :: u16) @ to_le 2 (504 :: u16)
     @ to_le 8 (of_nat page_index :: u64) @ to_le 8 (of_nat first :: u64) @ to_le 4 (of_nat valid_slots :: u32)
     @ to_le 4 (0 :: u32) @ to_le 8 (generation b) @ to_le 8 (image_tag b)"

lemma length_header_fields [simp]: "length (header_fields pi fs vs b) = 56"
  by (simp add: header_fields_def PAGE_MAGIC_def)

lemma encode_page_header_eq:
  assumes "length page = 4096" "pi \<le> u64_max" "fs \<le> u64_max" "vs \<le> u32_max"
  shows "encode_page_header page pi fs vs b =
    Some (Inr (header_fields pi fs vs b @ replicate 4 0 @ drop 60 page))"
proof -
  let ?chain = "overwrite (overwrite (overwrite (overwrite (overwrite (overwrite (overwrite (overwrite (overwrite
      (overwrite (overwrite (overwrite page 0 PAGE_MAGIC) 8 (to_le 2 (1 :: u16))) 10 (to_le 2 (64 :: u16)))
      12 (to_le 2 (8 :: u16))) 14 (to_le 2 (504 :: u16))) 16 (to_le 8 (of_nat pi :: u64)))
      24 (to_le 8 (of_nat fs :: u64))) 32 (to_le 4 (of_nat vs :: u32))) 36 (to_le 4 (0 :: u32)))
      40 (to_le 8 (generation b))) 48 (to_le 8 (image_tag b))) 56 (to_le 4 (0 :: u32))"
  have m: "length PAGE_MAGIC = 8" by (simp add: PAGE_MAGIC_def)
  have "encode_page_header page pi fs vs b = Some (Inr ?chain)"
    using assms m
    by (simp add: encode_page_header_def write_range_def try_from_def f16.put_defined f32.put_defined
        f64.put_defined page_consts image_sizes)
  moreover have "?chain = header_fields pi fs vs b @ to_le 4 (0 :: u32) @ drop 60 page"
    using assms(1) m by (simp add: overwrite_def header_fields_def)
  moreover have "to_le 4 (0 :: u32) = replicate 4 0" by (simp add: eval_nat_numeral)
  ultimately show ?thesis by (simp only:)
qed

section \<open>What the validator accepts\<close>

lemma get_u16_take: "off + 2 \<le> length bs \<Longrightarrow> length bs \<le> usize_max \<Longrightarrow> get_u16 bs off = Some (from_le (take 2 (drop off bs)))"
  by (simp add: get_u16_def slice_at_def checked_add_def)

lemma get_u32_take: "off + 4 \<le> length bs \<Longrightarrow> length bs \<le> usize_max \<Longrightarrow> get_u32 bs off = Some (from_le (take 4 (drop off bs)))"
  by (simp add: get_u32_def slice_at_def checked_add_def)

lemma get_u64_take: "off + 8 \<le> length bs \<Longrightarrow> length bs \<le> usize_max \<Longrightarrow> get_u64 bs off = Some (from_le (take 8 (drop off bs)))"
  by (simp add: get_u64_def slice_at_def checked_add_def)

lemma from_le_iff:
  "length bs = 2 \<Longrightarrow> from_le bs = (v :: u16) \<longleftrightarrow> bs = to_le 2 v"
  "length bs = 4 \<Longrightarrow> from_le bs = (w :: u32) \<longleftrightarrow> bs = to_le 4 w"
  "length bs = 8 \<Longrightarrow> from_le bs = (x :: u64) \<longleftrightarrow> bs = to_le 8 x"
  by (auto simp: to_le_from_le from_le_to_le)

lemma page_checksum_eq:
  "length page = 4096 \<Longrightarrow>
   page_checksum digest page = Some (crc32c digest [take 56 page, replicate 4 0, drop 60 page])"
  by (simp add: page_checksum_def slice_at_def page_consts)

lemma not_all_zero: "length bs = n \<Longrightarrow> list_ex (\<lambda>byte. byte \<noteq> 0) bs \<longleftrightarrow> bs \<noteq> replicate n 0"
  unfolding list_ex_iff by (metis in_set_replicate replicate_eqI)

lemma validate_fields:
  assumes "length page = 4096" "pi \<le> u64_max" "fs \<le> u64_max" "vs \<le> u32_max"
  shows "validate_page_header digest page pi fs vs b = Some (Inr ()) \<longleftrightarrow>
    take 8 page = PAGE_MAGIC \<and> take 2 (drop 8 page) = to_le 2 (1 :: u16) \<and> take 2 (drop 10 page) = to_le 2 (64 :: u16)
    \<and> take 2 (drop 12 page) = to_le 2 (8 :: u16) \<and> take 2 (drop 14 page) = to_le 2 (504 :: u16)
    \<and> take 8 (drop 16 page) = to_le 8 (of_nat pi :: u64) \<and> take 8 (drop 24 page) = to_le 8 (of_nat fs :: u64)
    \<and> take 4 (drop 32 page) = to_le 4 (of_nat vs :: u32) \<and> take 4 (drop 36 page) = to_le 4 (0 :: u32)
    \<and> take 8 (drop 40 page) = to_le 8 (generation b) \<and> take 8 (drop 48 page) = to_le 8 (image_tag b)
    \<and> take 4 (drop 60 page) = replicate 4 0
    \<and> take 4 (drop 56 page) = to_le 4 (crc32c digest [take 56 page, replicate 4 0, drop 60 page])"
proof -
  have u: "length page \<le> usize_max" using assms(1) by (simp add: usize_max_def)
  have z: "list_ex (\<lambda>byte. byte \<noteq> 0) (take 4 (drop 60 page)) \<longleftrightarrow> take 4 (drop 60 page) \<noteq> replicate 4 0"
    using assms(1) by (intro not_all_zero) simp
  have f16: "from_le (take 2 (drop o1 page)) = (v :: u16) \<longleftrightarrow> take 2 (drop o1 page) = to_le 2 v" if "o1 + 2 \<le> 4096" for o1 v
    using that assms(1) by (intro from_le_iff(1)) simp
  have f32: "from_le (take 4 (drop o1 page)) = (v :: u32) \<longleftrightarrow> take 4 (drop o1 page) = to_le 4 v" if "o1 + 4 \<le> 4096" for o1 v
    using that assms(1) by (intro from_le_iff(2)) simp
  have f64: "from_le (take 8 (drop o1 page)) = (v :: u64) \<longleftrightarrow> take 8 (drop o1 page) = to_le 8 v" if "o1 + 8 \<le> 4096" for o1 v
    using that assms(1) by (intro from_le_iff(3)) simp
  show ?thesis
    using assms u
    by (simp add: validate_page_header_def slice_at_def try_from_def get_u16_take get_u32_take get_u64_take
        page_consts image_sizes page_checksum_eq f16 f32 f64 z)
qed

lemma page_tiles:
  assumes "length page = 4096"
  shows "page = take 8 page @ take 2 (drop 8 page) @ take 2 (drop 10 page) @ take 2 (drop 12 page)
    @ take 2 (drop 14 page) @ take 8 (drop 16 page) @ take 8 (drop 24 page) @ take 4 (drop 32 page)
    @ take 4 (drop 36 page) @ take 8 (drop 40 page) @ take 8 (drop 48 page) @ take 4 (drop 56 page)
    @ take 4 (drop 60 page) @ drop 64 page"
proof -
  have split: "drop a page = take n (drop a page) @ drop (a + n) page" for a n
    by (metis add.commute append_take_drop_id drop_drop)
  show ?thesis
    using split [of 0 8] split [of 8 2] split [of 10 2] split [of 12 2] split [of 14 2] split [of 16 8]
      split [of 24 8] split [of 32 4] split [of 36 4] split [of 40 8] split [of 48 8] split [of 56 4]
      split [of 60 4] by simp
qed

text \<open>A page whose header is the one the writer produces, sealed with the checksum of the page.\<close>

definition sealed_page :: "crc_stream \<Rightarrow> nat \<Rightarrow> nat \<Rightarrow> nat \<Rightarrow> index_image_binding \<Rightarrow> bytes \<Rightarrow> bytes" where
  "sealed_page digest pi fs vs b body =
     header_fields pi fs vs b
     @ to_le 4 (crc32c digest [header_fields pi fs vs b, replicate 4 0, replicate 4 0 @ body])
     @ replicate 4 0 @ body"

lemma validate_iff_sealed:
  assumes "length page = 4096" "pi \<le> u64_max" "fs \<le> u64_max" "vs \<le> u32_max"
  shows "validate_page_header digest page pi fs vs b = Some (Inr ()) \<longleftrightarrow>
    page = sealed_page digest pi fs vs b (drop 64 page)"
proof
  assume "validate_page_header digest page pi fs vs b = Some (Inr ())"
  note f = this [unfolded validate_fields [OF assms]]
  have page: "page = header_fields pi fs vs b @ take 4 (drop 56 page) @ replicate 4 0 @ drop 64 page"
    using page_tiles [OF assms(1)] f by (simp add: header_fields_def)
  moreover obtain c where c: "take 4 (drop 56 page) = c" "length c = 4" using assms(1) by simp
  moreover obtain body where "drop 64 page = body" by simp
  ultimately have "take 56 page = header_fields pi fs vs b" "drop 60 page = replicate 4 0 @ drop 64 page"
    by simp_all
  with page f show "page = sealed_page digest pi fs vs b (drop 64 page)"
    by (simp add: sealed_page_def)
next
  assume eq: "page = sealed_page digest pi fs vs b (drop 64 page)"
  define body where "body = drop 64 page"
  have "page = sealed_page digest pi fs vs b body" "length body = 4032"
    using eq assms(1) by (simp_all add: body_def)
  then show "validate_page_header digest page pi fs vs b = Some (Inr ())"
    unfolding validate_fields [OF assms]
    by (simp add: sealed_page_def header_fields_def PAGE_MAGIC_def)
qed

lemma write_page_eq:
  assumes "length body = 4032" "pi \<le> u64_max" "fs \<le> u64_max" "vs \<le> u32_max"
  shows "\<exists>p c. encode_page_header (replicate 64 0 @ body) pi fs vs b = Some (Inr p)
    \<and> page_checksum digest p = Some c \<and> length p = 4096
    \<and> put_u32 p PAGE_CHECKSUM_OFFSET c = Some (sealed_page digest pi fs vs b body)"
proof -
  let ?p = "header_fields pi fs vs b @ replicate 4 0 @ replicate 4 0 @ body"
  let ?c = "crc32c digest [header_fields pi fs vs b, replicate 4 0, replicate 4 0 @ body]"
  have len: "length ?p = 4096" using assms(1) by simp
  have "encode_page_header (replicate 64 0 @ body) pi fs vs b = Some (Inr ?p)"
    using assms by (simp add: encode_page_header_eq)
  moreover have "page_checksum digest ?p = Some ?c"
    using page_checksum_eq [OF len, of digest] by simp
  moreover have "put_u32 ?p PAGE_CHECKSUM_OFFSET ?c = Some (sealed_page digest pi fs vs b body)"
    using assms(1) by (simp add: PAGE_CHECKSUM_OFFSET_def f32.put_defined overwrite_def sealed_page_def)
  ultimately show ?thesis using len by blast
qed

lemma validate_total:
  "length page = 4096 \<Longrightarrow> \<exists>r. validate_page_header digest page pi fs vs b = Some r"
proof -
  assume a: "length page = 4096"
  then have "length page \<le> usize_max" by (simp add: usize_max_def)
  with a show ?thesis
    by (simp add: validate_page_header_def slice_at_def get_u16_take get_u32_take get_u64_take
        page_consts image_sizes page_checksum_eq split: option.splits)
qed

section \<open>Properties\<close>

text \<open>
  C31 (roundtrip): a 4 KiB page is accepted by \<^verbatim>\<open>validate_page_header\<close> for a page number, slot
  range and image binding exactly when it is the zero header filled in by \<^verbatim>\<open>encode_page_header\<close> for
  the same arguments and sealed with \<^verbatim>\<open>page_checksum\<close>, whatever the slot bytes behind it; and the
  validator never panics on a page.
\<close>

theorem page_header_codec:
  assumes "length page = INDEX_IMAGE_PAGE_SIZE" "pi \<le> u64_max" "fs \<le> u64_max" "vs \<le> u32_max"
  shows "(validate_page_header digest page pi fs vs b = Some (Inr ()) \<longleftrightarrow>
      (\<exists>p c. encode_page_header (replicate INDEX_IMAGE_PAGE_HEADER_SIZE 0 @ drop INDEX_IMAGE_PAGE_HEADER_SIZE page)
           pi fs vs b = Some (Inr p)
         \<and> page_checksum digest p = Some c \<and> put_u32 p PAGE_CHECKSUM_OFFSET c = Some page))
    \<and> validate_page_header digest page pi fs vs b \<noteq> None"
proof -
  have len: "length page = 4096" "length (drop 64 page) = 4032" using assms(1) by (simp_all add: image_sizes)
  from write_page_eq [OF len(2) assms(2-4)] obtain p c where pc:
    "encode_page_header (replicate 64 0 @ drop 64 page) pi fs vs b = Some (Inr p)"
    "page_checksum digest p = Some c"
    "put_u32 p PAGE_CHECKSUM_OFFSET c = Some (sealed_page digest pi fs vs b (drop 64 page))" by blast
  show ?thesis
    using validate_iff_sealed [OF len(1) assms(2-4)] validate_total [OF len(1)] pc
    by (auto simp: image_sizes)
qed

theorem page_header_codec_witness:
  "validate_page_header (\<lambda>_. 5) (sealed_page (\<lambda>_. 5) 3 1512 7 \<lparr>generation = 9, image_tag = 11\<rparr> (replicate 4032 0))
     3 1512 7 \<lparr>generation = 9, image_tag = 11\<rparr> = Some (Inr ())"
proof -
  let ?b = "\<lparr>generation = 9, image_tag = 11\<rparr>" and ?page = "sealed_page (\<lambda>_. 5) 3 1512 7 \<lparr>generation = 9, image_tag = 11\<rparr> (replicate 4032 0)"
  have len: "length ?page = INDEX_IMAGE_PAGE_SIZE" by (simp add: sealed_page_def image_sizes)
  have body: "drop INDEX_IMAGE_PAGE_HEADER_SIZE ?page = replicate 4032 0" by (simp add: sealed_page_def image_sizes)
  have b: "3 \<le> u64_max" "1512 \<le> u64_max" "7 \<le> u32_max" "length (replicate 4032 (0 :: u8)) = 4032"
    by (simp_all add: num_bounds)
  show ?thesis
    using page_header_codec [OF len b(1-3), of "\<lambda>_. 5" ?b] write_page_eq [OF b(4,1-3), of ?b "\<lambda>_. 5"]
    unfolding body by (auto simp: INDEX_IMAGE_PAGE_HEADER_SIZE_def)
qed

end
