(* ===== verification/Partial_Ops.thy ===== *)
theory Partial_Ops
  imports Prelude
begin

text \<open>
  Fallible operations on a state that may also panic or read outside their memory: the result of
  running one is \<open>None\<close> for a panic or an access out of bounds, and otherwise the Rust result with
  the state it leaves. \<open>returns P m Q\<close> is total correctness: from a state in \<open>P\<close> the operation
  neither panics nor fails, and its value and state satisfy \<open>Q\<close>. \<open>safe P m Q\<close> is the weaker
  statement that it does not panic and keeps \<open>Q\<close> whether it succeeds or fails.
\<close>

type_synonym ('s, 'e, 'a) partial_op = "'s \<Rightarrow> (('e + 'a) \<times> 's) option"

definition preturn :: "'a \<Rightarrow> ('s, 'e, 'a) partial_op" where
  "preturn a s = Some (Inr a, s)"

definition pfail :: "'e \<Rightarrow> ('s, 'e, 'a) partial_op" where
  "pfail e s = Some (Inl e, s)"

definition pbind :: "('s, 'e, 'a) partial_op \<Rightarrow> ('a \<Rightarrow> ('s, 'e, 'b) partial_op) \<Rightarrow> ('s, 'e, 'b) partial_op" where
  "pbind m f s =
     (case m s of None \<Rightarrow> None | Some (Inl e, s') \<Rightarrow> Some (Inl e, s') | Some (Inr a, s') \<Rightarrow> f a s')"

text \<open>A result computed without touching the state, a value that may panic, and reading the state.\<close>

definition plift :: "'e + 'a \<Rightarrow> ('s, 'e, 'a) partial_op" where
  "plift r s = Some (r, s)"

definition ppanic :: "'a option \<Rightarrow> ('s, 'e, 'a) partial_op" where
  "ppanic r s = (case r of None \<Rightarrow> None | Some a \<Rightarrow> Some (Inr a, s))"

definition pget :: "('s \<Rightarrow> 'a) \<Rightarrow> ('s, 'e, 'a) partial_op" where
  "pget f s = Some (Inr (f s), s)"

definition pmodify :: "('s \<Rightarrow> 's) \<Rightarrow> ('s, 'e, unit) partial_op" where
  "pmodify f s = Some (Inr (), f s)"

text \<open>An operation on a part of the state.\<close>

definition pzoom :: "('s \<Rightarrow> 't) \<Rightarrow> ('t \<Rightarrow> 's \<Rightarrow> 's) \<Rightarrow> ('t, 'e, 'a) partial_op \<Rightarrow> ('s, 'e, 'a) partial_op" where
  "pzoom sel upd m s = (case m (sel s) of None \<Rightarrow> None | Some (r, t) \<Rightarrow> Some (r, upd t s))"

lemma partial_op_simps [simp, result_simps]:
  "preturn a s = Some (Inr a, s)" "pfail e s = Some (Inl e, s)"
  "plift r s = Some (r, s)" "ppanic (Some b) s = Some (Inr b, s)" "ppanic None s = None"
  "pget f s = Some (Inr (f s), s)" "pmodify g s = Some (Inr (), g s)"
  by (simp_all add: preturn_def pfail_def plift_def ppanic_def pget_def pmodify_def)

lemma pbind_eq:
  "m s = Some (Inr a, s') \<Longrightarrow> pbind m f s = f a s'"
  "m s = Some (Inl e, s') \<Longrightarrow> pbind m f s = Some (Inl e, s')"
  "m s = None \<Longrightarrow> pbind m f s = None"
  by (simp_all add: pbind_def)

lemma pbind_simps [simp, result_simps]:
  "pbind (preturn a) f s = f a s" "pbind (pfail e) f s = Some (Inl e, s)"
  "pbind (plift (Inr a)) f s = f a s" "pbind (plift (Inl e)) f s = Some (Inl e, s)"
  "pbind (ppanic (Some a)) f s = f a s" "pbind (ppanic None) f s = None"
  "pbind (pget g) f s = f (g s) s" "pbind (pmodify h) f' s = f' () (h s)"
  by (simp_all add: pbind_def)

section \<open>Total correctness\<close>

definition returns :: "('s \<Rightarrow> bool) \<Rightarrow> ('s, 'e, 'a) partial_op \<Rightarrow> ('a \<Rightarrow> 's \<Rightarrow> bool) \<Rightarrow> bool" where
  "returns P m Q \<longleftrightarrow> (\<forall>s. P s \<longrightarrow> (\<exists>a s'. m s = Some (Inr a, s') \<and> Q a s'))"

lemma returnsD:
  assumes "returns P m Q" "P s"
  obtains a s' where "m s = Some (Inr a, s')" "Q a s'"
  using assms by (auto simp: returns_def)

lemma returns_bind:
  assumes "returns P m Q" "\<And>a. returns (Q a) (f a) R"
  shows "returns P (pbind m f) R"
  unfolding returns_def
proof (intro allI impI)
  fix s assume "P s"
  with assms(1) obtain a s' where 1: "m s = Some (Inr a, s')" "Q a s'" by (rule returnsD)
  from assms(2) 1(2) obtain b s'' where "f a s' = Some (Inr b, s'')" "R b s''" by (rule returnsD)
  with 1 show "\<exists>b s'. pbind m f s = Some (Inr b, s') \<and> R b s'" by (simp add: pbind_def)
qed

lemma returns_weaken:
  "returns P m Q \<Longrightarrow> (\<And>s. P' s \<Longrightarrow> P s) \<Longrightarrow> (\<And>a s. Q a s \<Longrightarrow> Q' a s) \<Longrightarrow> returns P' m Q'"
  by (fastforce simp: returns_def)

lemma returns_preturn: "(\<And>s. P s \<Longrightarrow> Q a s) \<Longrightarrow> returns P (preturn a) Q"
  by (simp add: returns_def)

lemma returns_pget: "(\<And>s. P s \<Longrightarrow> Q (f s) s) \<Longrightarrow> returns P (pget f) Q"
  by (simp add: returns_def)

lemma returns_pmodify: "(\<And>s. P s \<Longrightarrow> Q () (f s)) \<Longrightarrow> returns P (pmodify f) Q"
  by (simp add: returns_def)

lemma returns_plift: "(\<And>s. P s \<Longrightarrow> \<exists>a. r = Inr a \<and> Q a s) \<Longrightarrow> returns P (plift r) Q"
  by (fastforce simp: returns_def)

lemma returns_ppanic: "(\<And>s. P s \<Longrightarrow> \<exists>a. r = Some a \<and> Q a s) \<Longrightarrow> returns P (ppanic r) Q"
  by (fastforce simp: returns_def)

lemma returns_pure: "(C \<Longrightarrow> returns P m Q) \<Longrightarrow> returns (\<lambda>s. C \<and> P s) m Q"
  by (auto simp: returns_def)

lemma returns_if:
  "(b \<Longrightarrow> returns P m Q) \<Longrightarrow> (\<not> b \<Longrightarrow> returns P n Q) \<Longrightarrow> returns P (if b then m else n) Q"
  by simp

lemmas returns_rules = returns_preturn returns_pget returns_pmodify returns_plift returns_ppanic

section \<open>No panic, whatever the outcome\<close>

definition safe :: "('s \<Rightarrow> bool) \<Rightarrow> ('s, 'e, 'a) partial_op \<Rightarrow> ('s \<Rightarrow> bool) \<Rightarrow> bool" where
  "safe P m Q \<longleftrightarrow> (\<forall>s. P s \<longrightarrow> (\<exists>r s'. m s = Some (r, s') \<and> Q s'))"

lemma safe_bind:
  assumes "safe P m P" "\<And>a. safe P (f a) P" shows "safe P (pbind m f) P"
  unfolding safe_def
proof (intro allI impI)
  fix s assume "P s"
  with assms(1) obtain r s' where 1: "m s = Some (r, s')" "P s'" by (auto simp: safe_def)
  show "\<exists>r s'. pbind m f s = Some (r, s') \<and> P s'"
  proof (cases r)
    case (Inl e)
    with 1 show ?thesis by (simp add: pbind_def)
  next
    case (Inr a)
    from assms(2) [of a] 1 obtain r2 s2 where "f a s' = Some (r2, s2)" "P s2" by (auto simp: safe_def)
    with Inr 1 show ?thesis by (simp add: pbind_def)
  qed
qed

lemma safe_simple:
  "safe P (preturn a) P" "safe P (pfail e) P" "safe P (plift r) P" "safe P (pget f) P"
  by (simp_all add: safe_def)

end
