(* ===== verification/Index_Storage.thy ===== *)
theory Index_Storage
  imports Page_Format Partial_Ops
begin

text \<open>
  The runtime of \<^verbatim>\<open>cache2/src/region/index/storage/mod.rs\<close>: one byte image shared by the canonical
  partitions, pages of a mapped image validated when they are first touched, the sticky rejection of
  a corrupt image, the per-partition counters, and the writer of the warm image.

  Correspondence. \<open>index_core\<close> is \<^verbatim>\<open>IndexStorageCore\<close>; its byte list is the mapping from
  \<^verbatim>\<open>data_offset\<close> on, and a pointer access outside it is a panic of the model. The atomics are
  plain fields, because one partition lock serialises the operations on a page; a compare-and-swap
  therefore succeeds. A partition lock is its poison flag, and \<open>contended\<close> says which partitions a
  \<^verbatim>\<open>try_\<close> call finds locked. The operating system is a parameter: whether \<^verbatim>\<open>mmap\<close> and the
  metadata call succeed, the bytes of the file, and which writes of the image file fail.
\<close>

section \<open>The shared image\<close>

definition PAGE_STATE_UNCHECKED :: u8 where "PAGE_STATE_UNCHECKED = 0"
definition PAGE_STATE_VALIDATING :: u8 where "PAGE_STATE_VALIDATING = 1"
definition PAGE_STATE_VALID :: u8 where "PAGE_STATE_VALID = 2"
definition PAGE_STATE_REJECTED :: u8 where "PAGE_STATE_REJECTED = 3"
definition IMAGE_STATE_USABLE :: u8 where "IMAGE_STATE_USABLE = 0"
definition IMAGE_STATE_REJECTED :: u8 where "IMAGE_STATE_REJECTED = 1"
definition WARM_IMAGE_WRITE_BATCH_BYTES :: nat where "WARM_IMAGE_WRITE_BATCH_BYTES = 1024 * 1024"

lemmas state_codes = PAGE_STATE_UNCHECKED_def PAGE_STATE_VALIDATING_def PAGE_STATE_VALID_def
  PAGE_STATE_REJECTED_def IMAGE_STATE_USABLE_def IMAGE_STATE_REJECTED_def

record index_core =
  core_data :: bytes
  core_slot_count :: nat
  core_page_count :: nat
  expected_binding :: "index_image_binding option"
  image_state :: u8
  page_states :: "u8 list"

type_synonym 'a core_op = "(index_core, index_storage_error, 'a) partial_op"

definition image_is_rejected :: "index_core \<Rightarrow> bool" where
  "image_is_rejected c \<longleftrightarrow> image_state c = IMAGE_STATE_REJECTED"

definition ensure_image_usable :: "nat \<Rightarrow> unit core_op" where
  "ensure_image_usable page_index = pbind (pget image_is_rejected) (\<lambda>rejected.
     if rejected then pfail (CorruptPage page_index PreviouslyRejected) else preturn ())"

definition reject_image :: "index_core \<Rightarrow> index_core" where
  "reject_image c = c\<lparr>image_state := IMAGE_STATE_REJECTED\<rparr>"

definition store_page_state :: "nat \<Rightarrow> u8 \<Rightarrow> index_core \<Rightarrow> index_core" where
  "store_page_state page state c = c\<lparr>page_states := (page_states c)[page := state]\<rparr>"

definition valid_slots_in_page :: "index_core \<Rightarrow> nat \<Rightarrow> nat" where
  "valid_slots_in_page c page =
     min (core_slot_count c - page * INDEX_IMAGE_SLOTS_PER_PAGE) INDEX_IMAGE_SLOTS_PER_PAGE"

definition decode_at :: "index_core \<Rightarrow> nat \<Rightarrow> index_slot option" where
  "decode_at c off = do {
     encoded \<leftarrow> slice_at (core_data c) off (off + INDEX_IMAGE_SLOT_SIZE);
     slot_decode encoded
   }"

definition slot_offset_in_page :: "nat \<Rightarrow> nat option" where
  "slot_offset_in_page slot_in_page = do {
     relative \<leftarrow> checked_mul usize_max slot_in_page INDEX_IMAGE_SLOT_SIZE;
     checked_add usize_max INDEX_IMAGE_PAGE_HEADER_SIZE relative
   }"

text \<open>The loop over the slots of a page that has a valid header.\<close>

fun validate_slots :: "bytes \<Rightarrow> nat \<Rightarrow> nat list \<Rightarrow> (index_storage_error + unit) option" where
  "validate_slots page first [] = Some (Inr ())"
| "validate_slots page first (slot_in_page # rest) =
     (case checked_add usize_max first slot_in_page of
        None \<Rightarrow> Some (Inl SizeOverflow)
      | Some slot_index \<Rightarrow>
     (case slot_offset_in_page slot_in_page of
        None \<Rightarrow> Some (Inl SizeOverflow)
      | Some off \<Rightarrow> do {
          encoded \<leftarrow> slice_at page off (off + INDEX_IMAGE_SLOT_SIZE);
          slot \<leftarrow> slot_decode encoded;
          (case runtime_state slot of
             Inl reason \<Rightarrow> Some (Inl (CorruptSlot slot_index reason))
           | Inr state \<Rightarrow> validate_slots page first rest)
        }))"

definition validate_mapped_page :: "crc_stream \<Rightarrow> index_core \<Rightarrow> nat \<Rightarrow> (index_storage_error + unit) option" where
  "validate_mapped_page digest c page_index =
     (case expected_binding c of
        None \<Rightarrow> Some (Inl (InvalidArgument ''anonymous index page unexpectedly requires validation''))
      | Some binding \<Rightarrow>
     (case checked_mul usize_max page_index INDEX_IMAGE_PAGE_SIZE of
        None \<Rightarrow> Some (Inl SizeOverflow)
      | Some off \<Rightarrow> do {
     page \<leftarrow> slice_at (core_data c) off (off + INDEX_IMAGE_PAGE_SIZE);
     (case checked_mul usize_max page_index INDEX_IMAGE_SLOTS_PER_PAGE of
        None \<Rightarrow> Some (Inl SizeOverflow)
      | Some expected_first_slot \<Rightarrow> do {
     header \<leftarrow> validate_page_header digest page page_index expected_first_slot
                 (valid_slots_in_page c page_index) binding;
     (case header of
        Inl reason \<Rightarrow> Some (Inl (CorruptPage page_index reason))
      | Inr _ \<Rightarrow> validate_slots page expected_first_slot [0..<valid_slots_in_page c page_index])
     })}))"

definition check_unchecked_page :: "crc_stream \<Rightarrow> nat \<Rightarrow> unit core_op" where
  "check_unchecked_page digest page c =
     (let c = store_page_state page PAGE_STATE_VALIDATING c in
      case validate_mapped_page digest c page of
        None \<Rightarrow> None
      | Some (Inr _) \<Rightarrow> ensure_image_usable page (store_page_state page PAGE_STATE_VALID c)
      | Some (Inl e) \<Rightarrow> Some (Inl e, store_page_state page PAGE_STATE_REJECTED (reject_image c)))"

definition ensure_page_valid :: "crc_stream \<Rightarrow> nat \<Rightarrow> unit core_op" where
  "ensure_page_valid digest page c =
     (case get_at (page_states c) page of
        None \<Rightarrow> pfail (PageOutOfBounds page (core_page_count c)) c
      | Some state \<Rightarrow> pbind (ensure_image_usable page) (\<lambda>_ c.
          if state = PAGE_STATE_VALID then preturn () c
          else if state = PAGE_STATE_REJECTED then pfail (CorruptPage page PreviouslyRejected) c
          else if state = PAGE_STATE_UNCHECKED then check_unchecked_page digest page c
          else if state = PAGE_STATE_VALIDATING then pfail (PageBusy page) c
          else pfail (CorruptPage page PreviouslyRejected)
                 (store_page_state page PAGE_STATE_REJECTED (reject_image c))) c)"

definition slot_address :: "index_core \<Rightarrow> nat \<Rightarrow> index_storage_error + nat \<times> nat" where
  "slot_address c slot =
     (if slot \<ge> core_slot_count c then Inl (SlotOutOfBounds slot (core_slot_count c))
      else let page = slot div INDEX_IMAGE_SLOTS_PER_PAGE;
               slot_in_page = slot mod INDEX_IMAGE_SLOTS_PER_PAGE
      in bind_result (ok_or SizeOverflow (do {
           base \<leftarrow> checked_mul usize_max page INDEX_IMAGE_PAGE_SIZE;
           base \<leftarrow> checked_add usize_max base INDEX_IMAGE_PAGE_HEADER_SIZE;
           relative \<leftarrow> checked_mul usize_max slot_in_page INDEX_IMAGE_SLOT_SIZE;
           checked_add usize_max base relative
         })) (\<lambda>off. Inr (page, off)))"

definition core_write_slot :: "crc_stream \<Rightarrow> nat \<Rightarrow> index_slot \<Rightarrow> unit core_op" where
  "core_write_slot digest slot v =
     pbind (pget (\<lambda>c. slot_address c slot)) (\<lambda>address.
     pbind (plift address) (\<lambda>(page, off).
     pbind (ensure_page_valid digest page) (\<lambda>_.
     pbind (\<lambda>c. case write_range (core_data c) off (slot_encode v) of
                   None \<Rightarrow> None | Some d \<Rightarrow> Some (Inr (), c\<lparr>core_data := d\<rparr>)) (\<lambda>_.
     ensure_image_usable page))))"

section \<open>One partition of the image\<close>

record index_storage =
  is_core :: index_core
  is_range :: index_partition_range
  is_stats :: index_physical_stats

definition on_core :: "'a core_op \<Rightarrow> (index_storage, index_storage_error, 'a) partial_op" where
  "on_core = pzoom is_core (\<lambda>c s. s\<lparr>is_core := c\<rparr>)"

definition state_at :: "crc_stream \<Rightarrow> nat \<Rightarrow> (index_storage, index_storage_error, index_slot_state) partial_op" where
  "state_at digest slot =
     pbind (pget (\<lambda>s. range_global_slot (is_range s) slot)) (\<lambda>global.
     pbind (plift global) (\<lambda>global_slot.
     pbind (pget (\<lambda>s. slot_address (is_core s) global_slot)) (\<lambda>address.
     pbind (plift address) (\<lambda>(page, off).
     pbind (on_core (ensure_page_valid digest page)) (\<lambda>_.
     pbind (pget (\<lambda>s. decode_at (is_core s) off)) (\<lambda>decoded.
     pbind (ppanic decoded) (\<lambda>slot_value.
     case runtime_state slot_value of
       Inl reason \<Rightarrow> pbind (pmodify (\<lambda>s. s\<lparr>is_core := reject_image (is_core s)\<rparr>)) (\<lambda>_.
         pfail (CorruptSlot global_slot reason))
     | Inr state \<Rightarrow> pbind (on_core (ensure_image_usable page)) (\<lambda>_. preturn state))))))))"

definition kind_of_state :: "index_slot_state \<Rightarrow> slot_physical_kind" where
  "kind_of_state state = (case state of Empty \<Rightarrow> EmptyKind | Value _ _ _ \<Rightarrow> ValueKind)"

definition replace_observed_state ::
    "crc_stream \<Rightarrow> nat \<Rightarrow> index_slot_state \<Rightarrow> index_slot_state \<Rightarrow> (index_storage, index_storage_error, unit) partial_op" where
  "replace_observed_state digest slot previous state =
     pbind (pget (\<lambda>s. range_global_slot (is_range s) slot)) (\<lambda>global.
     pbind (plift global) (\<lambda>global_slot.
     let previous_kind = kind_of_state previous; v = from_state state in
     pbind (pget (\<lambda>s. ok_or InvalidPhysicalStats
              (stats_transitioned (is_stats s) previous_kind (physical_kind v) (slot_count (is_range s))))) (\<lambda>r.
     pbind (plift r) (\<lambda>next_stats.
     pbind (on_core (core_write_slot digest global_slot v)) (\<lambda>_.
     pmodify (\<lambda>s. s\<lparr>is_stats := next_stats\<rparr>))))))"

section \<open>The partitions\<close>

record index_partition =
  part_range :: index_partition_range
  part_stats :: index_physical_stats
  part_poisoned :: bool

record partitioned_index_storage =
  pis_slot_count :: nat
  pis_ranges :: "index_partition_range list"
  pis_core :: index_core
  pis_partitions :: "index_partition list"

type_synonym 'a storage_op = "(partitioned_index_storage, index_storage_error, 'a) partial_op"

text \<open>
  A guard is the number of the partition it locks; the methods of the two guard types run on that
  partition's view of the image. An index outside the partition array is a panic.
\<close>

definition partition_view :: "partitioned_index_storage \<Rightarrow> nat \<Rightarrow> index_storage" where
  "partition_view s p =
     \<lparr>is_core = pis_core s, is_range = part_range (pis_partitions s ! p), is_stats = part_stats (pis_partitions s ! p)\<rparr>"

definition store_view :: "nat \<Rightarrow> index_storage \<Rightarrow> partitioned_index_storage \<Rightarrow> partitioned_index_storage" where
  "store_view p v s = s\<lparr>pis_core := is_core v,
     pis_partitions := (pis_partitions s)[p := (pis_partitions s ! p)\<lparr>part_stats := is_stats v\<rparr>]\<rparr>"

definition on_partition :: "nat \<Rightarrow> (index_storage, index_storage_error, 'a) partial_op \<Rightarrow> 'a storage_op" where
  "on_partition p m s =
     (if p < length (pis_partitions s) then pzoom (\<lambda>s. partition_view s p) (store_view p) m s else None)"

definition guard_slot_count :: "partitioned_index_storage \<Rightarrow> nat \<Rightarrow> nat option" where
  "guard_slot_count s p = map_option slot_count (get_at (pis_ranges s) p)"

definition guard_slot_state :: "crc_stream \<Rightarrow> nat \<Rightarrow> nat \<Rightarrow> index_slot_state storage_op" where
  "guard_slot_state digest p slot = on_partition p (state_at digest slot)"

definition guard_global_slot :: "nat \<Rightarrow> nat \<Rightarrow> nat storage_op" where
  "guard_global_slot p slot =
     pbind (pget (\<lambda>s. get_at (pis_ranges s) p)) (\<lambda>range.
     pbind (ppanic range) (\<lambda>range. plift (range_global_slot range slot)))"

definition guard_replace_observed ::
    "crc_stream \<Rightarrow> nat \<Rightarrow> nat \<Rightarrow> index_slot_state \<Rightarrow> index_slot_state \<Rightarrow> unit storage_op" where
  "guard_replace_observed digest p slot previous state =
     on_partition p (replace_observed_state digest slot previous state)"

definition lock_partition :: "nat \<Rightarrow> nat storage_op" where
  "lock_partition p =
     pbind (pget (\<lambda>s. get_at (pis_partitions s) p)) (\<lambda>part.
     pbind (ppanic part) (\<lambda>part.
     if part_poisoned part then pfail (PartitionPoisoned p) else preturn p))"

definition write_hash_partition :: "u64 \<Rightarrow> nat storage_op" where
  "write_hash_partition hash =
     pbind (pget (\<lambda>s. index_partition_for hash (length (pis_partitions s)))) lock_partition"

text \<open>\<^verbatim>\<open>try_lock\<close> reports a poisoned lock only when it is free.\<close>

definition try_hash_partition :: "(nat \<Rightarrow> bool) \<Rightarrow> u64 \<Rightarrow> nat storage_op" where
  "try_hash_partition contended hash =
     pbind (pget (\<lambda>s. index_partition_for hash (length (pis_partitions s)))) (\<lambda>p.
     if contended p then pfail (PartitionBusy p) else lock_partition p)"

definition checked_sum_physical_stats :: "index_physical_stats list \<Rightarrow> index_storage_error + index_physical_stats" where
  "checked_sum_physical_stats stats =
     fold (\<lambda>s acc. bind_result acc (\<lambda>total. checked_add_physical_stats total s)) stats (Inr default_stats)"

text \<open>The partitions are read in order; the first poisoned one is reported.\<close>

fun read_partitions :: "nat \<Rightarrow> index_partition list \<Rightarrow> index_storage_error + index_physical_stats list" where
  "read_partitions p [] = Inr []"
| "read_partitions p (part # parts) =
     (if part_poisoned part then Inl (PartitionPoisoned p)
      else bind_result (read_partitions (Suc p) parts) (\<lambda>stats. Inr (part_stats part # stats)))"

fun sum_partitions :: "nat \<Rightarrow> index_physical_stats \<Rightarrow> index_partition list \<Rightarrow> index_storage_error + index_physical_stats" where
  "sum_partitions p acc [] = Inr acc"
| "sum_partitions p acc (part # parts) =
     (if part_poisoned part then Inl (PartitionPoisoned p)
      else bind_result (checked_add_physical_stats acc (part_stats part)) (\<lambda>acc. sum_partitions (Suc p) acc parts))"

definition physical_stats :: "partitioned_index_storage \<Rightarrow> index_storage_error + index_physical_stats" where
  "physical_stats s =
     bind_result (sum_partitions 0 default_stats (pis_partitions s)) (\<lambda>stats.
       if stats_is_valid_for stats (pis_slot_count s) then Inr stats else Inl InvalidPhysicalStats)"

definition partition_stats :: "allocator \<Rightarrow> partitioned_index_storage \<Rightarrow> index_storage_error + index_physical_stats list" where
  "partition_stats alloc s =
     (if \<not> alloc (length (pis_partitions s))
      then Inl (Io (IoError OutOfMemory ''unable to allocate index partition statistics''))
      else read_partitions 0 (pis_partitions s))"

section \<open>Opening an image\<close>

definition allocate_page_states :: "allocator \<Rightarrow> nat \<Rightarrow> u8 \<Rightarrow> index_storage_error + u8 list" where
  "allocate_page_states alloc pages initial =
     (if alloc pages then Inr (replicate pages initial)
      else Inl (Io (IoError OutOfMemory ''unable to allocate index page validation bitmap'')))"

text \<open>\<open>map_anonymous\<close> and \<open>map_file\<close> say whether the mapping of a length fails.\<close>

definition core_anonymous ::
    "allocator \<Rightarrow> (nat \<Rightarrow> io_error option) \<Rightarrow> nat \<Rightarrow> index_storage_error + index_core" where
  "core_anonymous alloc map_anonymous slots =
     bind_result (image_layout_new slots) (\<lambda>layout.
     case map_anonymous (layout_image_len layout) of
       Some e \<Rightarrow> Inl (Io e)
     | None \<Rightarrow>
       bind_result (allocate_page_states alloc (layout_page_count layout) PAGE_STATE_VALID) (\<lambda>states.
       Inr \<lparr>core_data = replicate (layout_image_len layout) 0, core_slot_count = slots,
            core_page_count = layout_page_count layout, expected_binding = None,
            image_state = IMAGE_STATE_USABLE, page_states = states\<rparr>))"

definition core_map_private ::
    "allocator \<Rightarrow> (nat \<Rightarrow> io_error option) \<Rightarrow> io_error + bytes \<Rightarrow> nat \<Rightarrow> nat \<Rightarrow> index_image_binding
     \<Rightarrow> index_physical_stats \<Rightarrow> index_storage_error + index_core" where
  "core_map_private alloc map_file file file_offset slots binding stats =
     (if \<not> binding_is_valid binding
      then Inl (InvalidArgument ''mapped index image binding must be non-zero'')
      else if \<not> stats_is_valid_for stats slots then Inl InvalidPhysicalStats
      else if file_offset mod INDEX_IMAGE_PAGE_SIZE \<noteq> 0
      then Inl (InvalidArgument ''index image file offset must be 4 KiB aligned'')
      else bind_result (image_layout_new slots) (\<lambda>layout.
        bind_result (ok_or SizeOverflow (try_from usize_max file_offset)) (\<lambda>data_offset.
        bind_result (ok_or SizeOverflow (checked_add usize_max data_offset (layout_image_len layout))) (\<lambda>mapping_len.
        if mapping_len > isize_max then Inl SizeOverflow
        else bind_result (ok_or SizeOverflow (try_from u64_max mapping_len)) (\<lambda>required_len.
        bind_result (map_err Io file) (\<lambda>content.
        if length content < required_len
        then Inl (Io (IoError UnexpectedEof ''index image range extends past the end of the file''))
        else (case map_file mapping_len of
          Some e \<Rightarrow> Inl (Io e)
        | None \<Rightarrow>
          bind_result (allocate_page_states alloc (layout_page_count layout) PAGE_STATE_UNCHECKED) (\<lambda>states.
          Inr \<lparr>core_data = drop data_offset (take mapping_len content), core_slot_count = slots,
               core_page_count = layout_page_count layout, expected_binding = Some binding,
               image_state = IMAGE_STATE_USABLE, page_states = states\<rparr>))))))))"

definition from_core ::
    "allocator \<Rightarrow> nat \<Rightarrow> index_partition_range list \<Rightarrow> index_core \<Rightarrow> index_physical_stats list option
     \<Rightarrow> index_storage_error + partitioned_index_storage" where
  "from_core alloc slots ranges c stats =
     (if core_slot_count c \<noteq> slots \<or> ranges = []
      then Inl (InvalidArgument ''index partition directory does not match the shared image'')
      else if \<not> alloc (length ranges)
      then Inl (Io (IoError OutOfMemory ''unable to allocate index partition locks''))
      else Inr \<lparr>pis_slot_count = slots, pis_ranges = ranges, pis_core = c,
        pis_partitions = map (\<lambda>(index, range).
          \<lparr>part_range = range,
           part_stats = (case stats of None \<Rightarrow> default_stats | Some stats \<Rightarrow> stats ! index),
           part_poisoned = False\<rparr>) (enumerate 0 ranges)\<rparr>)"

definition storage_anonymous ::
    "allocator \<Rightarrow> (nat \<Rightarrow> io_error option) \<Rightarrow> nat \<Rightarrow> index_storage_error + partitioned_index_storage" where
  "storage_anonymous alloc map_anonymous slots =
     bind_result (canonical_index_partition_ranges alloc slots) (\<lambda>ranges.
     bind_result (core_anonymous alloc map_anonymous slots) (\<lambda>c.
     from_core alloc slots ranges c None))"

definition storage_map_private ::
    "allocator \<Rightarrow> (nat \<Rightarrow> io_error option) \<Rightarrow> io_error + bytes \<Rightarrow> nat \<Rightarrow> nat \<Rightarrow> index_image_binding
     \<Rightarrow> index_physical_stats list \<Rightarrow> index_storage_error + partitioned_index_storage" where
  "storage_map_private alloc map_file file file_offset slots binding stats =
     bind_result (canonical_index_partition_ranges alloc slots) (\<lambda>ranges.
     if length stats \<noteq> length ranges then Inl InvalidPhysicalStats
     else if \<not> list_all (\<lambda>(range, st). stats_is_valid_for st (slot_count range)) (zip ranges stats)
     then Inl InvalidPhysicalStats
     else bind_result (checked_sum_physical_stats stats) (\<lambda>sum.
       if \<not> stats_is_valid_for sum slots then Inl InvalidPhysicalStats
       else bind_result (core_map_private alloc map_file file file_offset slots binding sum) (\<lambda>c.
         from_core alloc slots ranges c (Some stats))))"

end
