(* ===== verification/Index_Table.thy ===== *)
theory Index_Table
  imports Index_Storage
begin

text \<open>
  A healthy image as a table of bucket states. \<open>core_ok\<close> is the invariant of the shared image:
  every page is either validated or would validate, and every bucket has a meaning;
  \<open>core_view\<close> is the table of those meanings. Reads return the table entry, writes update exactly
  one entry, whichever pages have been validated so far.
\<close>

section \<open>Addresses\<close>

definition slot_off :: "nat \<Rightarrow> nat" where
  "slot_off i = i div 504 * 4096 + 64 + i mod 504 * 8"

lemma slot_off_page:
  "i div 504 * 4096 + 64 \<le> slot_off i" "slot_off i + 8 \<le> i div 504 * 4096 + 4096"
proof -
  have "i mod 504 < 504" by simp
  then show "i div 504 * 4096 + 64 \<le> slot_off i" "slot_off i + 8 \<le> i div 504 * 4096 + 4096"
    unfolding slot_off_def by linarith+
qed

lemma page_less:
  fixes i :: nat assumes "i < n" shows "i div 504 < (n + 503) div 504"
proof -
  have "i div 504 * 504 \<le> i" by simp
  then have "(i div 504) * 504 < (n + 503) div 504 * 504"
    using assms page_round_up(1) [of n] by linarith
  then show ?thesis by simp
qed

lemma slot_off_bound:
  assumes "i < n" "pages = (n + 503) div 504" shows "slot_off i + 8 \<le> pages * 4096"
proof -
  have "i div 504 + 1 \<le> pages" using page_less [OF assms(1)] assms(2) by simp
  then have "(i div 504 + 1) * 4096 \<le> pages * 4096" by (rule mult_le_mono1)
  then show ?thesis using slot_off_page(2) [of i] by simp
qed

lemma slot_off_disjoint:
  assumes "i \<noteq> j" shows "slot_off i + 8 \<le> slot_off j \<or> slot_off j + 8 \<le> slot_off i"
proof (cases "i div 504 = j div 504")
  case True
  then have "i mod 504 \<noteq> j mod 504" using assms by (metis div_mult_mod_eq)
  then show ?thesis unfolding slot_off_def True by linarith
next
  case False
  then consider "i div 504 + 1 \<le> j div 504" | "j div 504 + 1 \<le> i div 504" by linarith
  then show ?thesis
  proof cases
    case 1
    then have "(i div 504 + 1) * 4096 \<le> j div 504 * 4096" by (rule mult_le_mono1)
    then show ?thesis using slot_off_page [of i] slot_off_page [of j] by simp
  next
    case 2
    then have "(j div 504 + 1) * 4096 \<le> i div 504 * 4096" by (rule mult_le_mono1)
    then show ?thesis using slot_off_page [of i] slot_off_page [of j] by simp
  qed
qed

section \<open>The invariant of the shared image\<close>

definition slot_meaning :: "index_core \<Rightarrow> nat \<Rightarrow> index_slot_state option" where
  "slot_meaning c i =
     (case decode_at c (slot_off i) of
        None \<Rightarrow> None
      | Some slot \<Rightarrow> (case runtime_state slot of Inl e \<Rightarrow> None | Inr state \<Rightarrow> Some state))"

definition core_shape :: "index_core \<Rightarrow> bool" where
  "core_shape c \<longleftrightarrow>
     core_page_count c = (core_slot_count c + 503) div 504
     \<and> core_page_count c * 4096 \<le> isize_max
     \<and> length (core_data c) = core_page_count c * 4096
     \<and> length (page_states c) = core_page_count c"

definition page_ok :: "crc_stream \<Rightarrow> index_core \<Rightarrow> nat \<Rightarrow> bool" where
  "page_ok digest c p \<longleftrightarrow>
     page_states c ! p = PAGE_STATE_VALID
     \<or> page_states c ! p = PAGE_STATE_UNCHECKED \<and> validate_mapped_page digest c p = Some (Inr ())"

definition core_ok :: "crc_stream \<Rightarrow> index_core \<Rightarrow> bool" where
  "core_ok digest c \<longleftrightarrow>
     core_shape c \<and> image_state c = IMAGE_STATE_USABLE
     \<and> (\<forall>p < core_page_count c. page_ok digest c p)
     \<and> (\<forall>i < core_slot_count c. slot_meaning c i \<noteq> None)"

definition core_view :: "index_core \<Rightarrow> index_slot_state list" where
  "core_view c = map (\<lambda>i. the (slot_meaning c i)) [0..<core_slot_count c]"

text \<open>What never changes after an image is opened.\<close>

definition same_image :: "index_core \<Rightarrow> index_core \<Rightarrow> bool" where
  "same_image c c' \<longleftrightarrow>
     core_slot_count c' = core_slot_count c \<and> core_page_count c' = core_page_count c
     \<and> expected_binding c' = expected_binding c"

lemma same_image_trans: "same_image a b \<Longrightarrow> same_image b c \<Longrightarrow> same_image a c"
  by (simp add: same_image_def)

lemma slot_meaning_data:
  "core_data c' = core_data c \<Longrightarrow> slot_meaning c' i = slot_meaning c i"
  by (simp add: slot_meaning_def decode_at_def)

lemma usable: "image_state c = IMAGE_STATE_USABLE \<Longrightarrow> ensure_image_usable page c = Some (Inr (), c)"
  by (simp add: ensure_image_usable_def image_is_rejected_def state_codes)

text \<open>Validation of a page reads only that page, the binding and the slot count.\<close>

lemma validate_mapped_page_cong:
  assumes "same_image c c'"
    and "slice_at (core_data c') (p * 4096) (p * 4096 + 4096) = slice_at (core_data c) (p * 4096) (p * 4096 + 4096)"
  shows "validate_mapped_page digest c' p = validate_mapped_page digest c p"
proof -
  have "valid_slots_in_page c' p = valid_slots_in_page c p" "expected_binding c' = expected_binding c"
    using assms(1) by (simp_all add: same_image_def valid_slots_in_page_def)
  then show ?thesis using assms(2)
    by (simp add: validate_mapped_page_def INDEX_IMAGE_PAGE_SIZE_def checked_mul_def split: option.splits)
qed

section \<open>Touching a page\<close>

lemma store_page_state_fields [simp]:
  "core_data (store_page_state p st c) = core_data c"
  "core_slot_count (store_page_state p st c) = core_slot_count c"
  "core_page_count (store_page_state p st c) = core_page_count c"
  "expected_binding (store_page_state p st c) = expected_binding c"
  "image_state (store_page_state p st c) = image_state c"
  "page_states (store_page_state p st c) = (page_states c)[p := st]"
  by (simp_all add: store_page_state_def)

lemma store_page_state_twice [simp]:
  "store_page_state p st (store_page_state p st' c) = store_page_state p st c"
  by (simp add: store_page_state_def)

lemma store_page_state_view [simp]: "core_view (store_page_state p st c) = core_view c"
  by (simp add: core_view_def slot_meaning_data [of "store_page_state p st c" c])

lemma same_image_store [simp]: "same_image c (store_page_state p st c)"
  by (simp add: same_image_def)

lemma validate_store [simp]:
  "validate_mapped_page digest (store_page_state p st c) q = validate_mapped_page digest c q"
  by (rule validate_mapped_page_cong) simp_all

lemma store_valid_ok:
  assumes "core_ok digest c" shows "core_ok digest (store_page_state p PAGE_STATE_VALID c)"
proof -
  have "page_ok digest (store_page_state p PAGE_STATE_VALID c) q" if "q < core_page_count c" for q
  proof -
    from assms that have "page_ok digest c q" "q < length (page_states c)" by (simp_all add: core_ok_def core_shape_def)
    then show ?thesis by (cases "q = p") (simp_all add: page_ok_def)
  qed
  with assms show ?thesis
    by (auto simp: core_ok_def core_shape_def slot_meaning_data [of "store_page_state _ _ c" c])
qed

lemma ensure_page_valid_ok:
  assumes ok: "core_ok digest c" and p: "p < core_page_count c"
  shows "ensure_page_valid digest p c = Some (Inr (), store_page_state p PAGE_STATE_VALID c)"
proof -
  have len: "p < length (page_states c)" and us: "image_state c = IMAGE_STATE_USABLE"
    using ok p by (simp_all add: core_ok_def core_shape_def)
  from ok p have "page_ok digest c p" by (simp add: core_ok_def)
  then consider (valid) "page_states c ! p = PAGE_STATE_VALID"
    | (fresh) "page_states c ! p = PAGE_STATE_UNCHECKED" "validate_mapped_page digest c p = Some (Inr ())"
    by (auto simp: page_ok_def)
  then show ?thesis
  proof cases
    case valid
    then have "store_page_state p PAGE_STATE_VALID c = c"
      using list_update_id [of "page_states c" p] by (simp add: store_page_state_def)
    then show ?thesis using valid len usable [OF us] by (simp add: ensure_page_valid_def get_at_def pbind_def)
  next
    case fresh
    have "check_unchecked_page digest p c = Some (Inr (), store_page_state p PAGE_STATE_VALID c)"
      using fresh us by (simp add: check_unchecked_page_def usable)
    then show ?thesis using fresh len usable [OF us]
      by (simp add: ensure_page_valid_def get_at_def pbind_def state_codes)
  qed
qed

lemma slot_address_ok:
  assumes "core_shape c" "i < core_slot_count c"
  shows "slot_address c i = Inr (i div 504, slot_off i)" "i div 504 < core_page_count c"
proof -
  show p: "i div 504 < core_page_count c" using assms page_less by (simp add: core_shape_def)
  have "slot_off i + 8 \<le> core_page_count c * 4096"
    using assms slot_off_bound by (simp add: core_shape_def)
  also have "\<dots> \<le> isize_max" using assms by (simp add: core_shape_def)
  finally have b: "slot_off i \<le> usize_max" by (simp add: num_bounds)
  then have "i div 504 * 4096 \<le> usize_max" "i div 504 * 4096 + 64 \<le> usize_max" "i mod 504 * 8 \<le> usize_max"
    unfolding slot_off_def by linarith+
  with assms b show "slot_address c i = Inr (i div 504, slot_off i)"
    by (simp add: slot_address_def image_sizes Let_def checked_mul_def checked_add_def slot_off_def)
qed

section \<open>Writing a bucket\<close>

lemma length_slot_encode [simp]: "length (slot_encode v) = 8"
  by (simp add: slot_encode_def)

definition put_slot :: "nat \<Rightarrow> index_slot \<Rightarrow> index_core \<Rightarrow> index_core" where
  "put_slot i v c = c\<lparr>core_data := overwrite (core_data c) (slot_off i) (slot_encode v)\<rparr>"

lemma put_slot_fields [simp]:
  "core_slot_count (put_slot i v c) = core_slot_count c" "core_page_count (put_slot i v c) = core_page_count c"
  "expected_binding (put_slot i v c) = expected_binding c" "image_state (put_slot i v c) = image_state c"
  "page_states (put_slot i v c) = page_states c"
  "core_data (put_slot i v c) = overwrite (core_data c) (slot_off i) (slot_encode v)"
  by (simp_all add: put_slot_def)

lemma slot_in_bounds:
  "core_shape c \<Longrightarrow> i < core_slot_count c \<Longrightarrow> slot_off i + 8 \<le> length (core_data c)"
  using slot_off_bound by (simp add: core_shape_def)

lemma put_slot_meaning:
  assumes "core_shape c" "i < core_slot_count c" "runtime_state v = Inr st" "j < core_slot_count c"
  shows "slot_meaning (put_slot i v c) j = (if j = i then Some st else slot_meaning c j)"
proof -
  have i: "slot_off i + 8 \<le> length (core_data c)" by (rule slot_in_bounds [OF assms(1,2)])
  show ?thesis
  proof (cases "j = i")
    case True
    have "decode_at (put_slot i v c) (slot_off i) = Some v"
      using i by (simp add: decode_at_def image_sizes slot_decode_encode)
    with True assms(3) show ?thesis by (simp add: slot_meaning_def)
  next
    case False
    then have "decode_at (put_slot i v c) (slot_off j) = decode_at c (slot_off j)"
      using i slot_off_disjoint [of i j]
      by (auto simp: decode_at_def image_sizes slice_overwrite_other)
    with False show ?thesis by (simp add: slot_meaning_def)
  qed
qed

lemma put_slot_ok:
  assumes ok: "core_ok digest c" and i: "i < core_slot_count c" and st: "runtime_state v = Inr st"
    and valid: "page_states c ! (i div 504) = PAGE_STATE_VALID"
  shows "core_ok digest (put_slot i v c)" "core_view (put_slot i v c) = (core_view c)[i := st]"
proof -
  have sh: "core_shape c" using ok by (simp add: core_ok_def)
  note bound = slot_in_bounds [OF sh i]
  have "page_ok digest (put_slot i v c) p" if p: "p < core_page_count c" for p
  proof (cases "p = i div 504")
    case True
    then show ?thesis using valid by (simp add: page_ok_def)
  next
    case False
    then have "p * 4096 + 4096 \<le> slot_off i \<or> slot_off i + 8 \<le> p * 4096"
      using slot_off_page [of i] by linarith
    then have "slice_at (core_data (put_slot i v c)) (p * 4096) (p * 4096 + 4096) = slice_at (core_data c) (p * 4096) (p * 4096 + 4096)"
      using bound by (simp add: slice_overwrite_other)
    then have "validate_mapped_page digest (put_slot i v c) p = validate_mapped_page digest c p"
      by (intro validate_mapped_page_cong) (simp_all add: same_image_def)
    with ok p show ?thesis by (simp add: core_ok_def page_ok_def)
  qed
  moreover have "core_shape (put_slot i v c)" using sh bound by (simp add: core_shape_def)
  moreover have m: "slot_meaning (put_slot i v c) j = (if j = i then Some st else slot_meaning c j)"
    if "j < core_slot_count c" for j
    using put_slot_meaning [OF sh i st that] .
  ultimately show "core_ok digest (put_slot i v c)" using ok by (simp add: core_ok_def)
  show "core_view (put_slot i v c) = (core_view c)[i := st]"
    by (rule nth_equalityI) (auto simp: core_view_def m nth_list_update)
qed

lemma core_write_slot_ok:
  assumes ok: "core_ok digest c" and i: "i < core_slot_count c" and st: "runtime_state v = Inr st"
  shows "\<exists>c'. core_write_slot digest i v c = Some (Inr (), c') \<and> core_ok digest c'
    \<and> core_view c' = (core_view c)[i := st] \<and> same_image c c'"
proof -
  have sh: "core_shape c" using ok by (simp add: core_ok_def)
  let ?p = "i div 504" let ?c1 = "store_page_state ?p PAGE_STATE_VALID c"
  note a = slot_address_ok [OF sh i]
  have ok1: "core_ok digest ?c1" by (rule store_valid_ok [OF ok])
  have v: "page_states ?c1 ! ?p = PAGE_STATE_VALID" using a(2) sh by (simp add: core_shape_def)
  have i1: "i < core_slot_count ?c1" using i by simp
  note w = put_slot_ok [OF ok1 i1 st v]
  have us: "image_state (put_slot i v ?c1) = IMAGE_STATE_USABLE" using ok by (simp add: core_ok_def)
  have "core_write_slot digest i v c = Some (Inr (), put_slot i v ?c1)"
    unfolding core_write_slot_def
    using a(1) ensure_page_valid_ok [OF ok a(2)] slot_in_bounds [OF sh i] usable [OF us] by (simp add: pbind_def put_slot_def write_range_def)
  with w show ?thesis by (auto simp: same_image_def)
qed

section \<open>One partition\<close>

text \<open>A range of the image, and its counters.\<close>

definition range_ok :: "index_core \<Rightarrow> index_partition_range \<Rightarrow> bool" where
  "range_ok c r \<longleftrightarrow> 0 < slot_count r \<and> first_slot r + slot_count r \<le> core_slot_count c"

definition range_view :: "index_core \<Rightarrow> index_partition_range \<Rightarrow> index_slot_state list" where
  "range_view c r = take (slot_count r) (drop (first_slot r) (core_view c))"

definition occupied :: "index_slot_state list \<Rightarrow> nat" where
  "occupied table = length (filter (\<lambda>s. s \<noteq> Empty) table)"

definition exact_stats :: "index_slot_state list \<Rightarrow> index_physical_stats" where
  "exact_stats table = \<lparr>stat_value = occupied table, stat_deleted = 0\<rparr>"

lemma length_core_view [simp]: "length (core_view c) = core_slot_count c"
  by (simp add: core_view_def)

lemma length_range_view: "range_ok c r \<Longrightarrow> length (range_view c r) = slot_count r"
  by (auto simp: range_view_def range_ok_def)

lemma range_view_nth:
  "range_ok c r \<Longrightarrow> i < slot_count r \<Longrightarrow> range_view c r ! i = core_view c ! (first_slot r + i)"
  by (simp add: range_view_def range_ok_def)

lemma core_bounds: "core_shape c \<Longrightarrow> core_slot_count c \<le> usize_max"
proof -
  assume "core_shape c"
  then have "core_slot_count c \<le> core_page_count c * 504" "core_page_count c * 4096 \<le> isize_max"
    using page_round_up(1) by (simp_all add: core_shape_def)
  then show ?thesis by (simp add: num_bounds)
qed

lemma range_global_slot_ok:
  assumes "core_shape c" "range_ok c r" "i < slot_count r"
  shows "range_global_slot r i = Inr (first_slot r + i)"
  using assms core_bounds [OF assms(1)] by (simp add: range_global_slot_def range_ok_def checked_add_def)

lemma state_at_ok:
  assumes ok: "core_ok digest (is_core s)" and r: "range_ok (is_core s) (is_range s)" and i: "i < slot_count (is_range s)"
  shows "\<exists>c'. state_at digest i s = Some (Inr (range_view (is_core s) (is_range s) ! i), s\<lparr>is_core := c'\<rparr>)
    \<and> core_ok digest c' \<and> core_view c' = core_view (is_core s) \<and> same_image (is_core s) c'"
proof -
  let ?c = "is_core s" and ?g = "first_slot (is_range s) + i"
  have sh: "core_shape ?c" using ok by (simp add: core_ok_def)
  have g: "?g < core_slot_count ?c" using r i by (simp add: range_ok_def)
  let ?c1 = "store_page_state (?g div 504) PAGE_STATE_VALID ?c"
  note a = slot_address_ok [OF sh g]
  obtain st where m: "slot_meaning ?c ?g = Some st" using ok g by (auto simp: core_ok_def)
  then obtain v where v: "decode_at ?c (slot_off ?g) = Some v" "runtime_state v = Inr st"
    by (auto simp: slot_meaning_def split: option.splits sum.splits)
  have d: "decode_at ?c1 (slot_off ?g) = Some v" using v(1) by (simp add: decode_at_def)
  have us: "image_state ?c1 = IMAGE_STATE_USABLE" using ok by (simp add: core_ok_def)
  have view: "range_view ?c (is_range s) ! i = st"
    using range_view_nth [OF r i] g m by (simp add: core_view_def)
  have "state_at digest i s = Some (Inr st, s\<lparr>is_core := ?c1\<rparr>)"
    unfolding state_at_def
    using range_global_slot_ok [OF sh r i] a(1) ensure_page_valid_ok [OF ok a(2)] d v(2) usable [OF us]
    by (simp add: pbind_def on_core_def pzoom_def)
  with view store_valid_ok [OF ok] show ?thesis by auto
qed

lemma kind_quantize: "quantize s = Empty \<longleftrightarrow> s = Empty"
  by (cases s) (simp_all add: quantize_def)

lemma physical_kind_kind: "physical_kind (from_state s) = kind_of_state s"
  by (simp add: physical_kind_from_state kind_of_state_def)

lemma occupied_le: "occupied table \<le> length table"
  by (simp add: occupied_def)

lemma occupied_update:
  assumes "i < length table"
  shows "occupied (table[i := st]) + (if table ! i = Empty then 0 else 1)
    = occupied table + (if st = Empty then 0 else 1)"
  using assms
proof (induction table arbitrary: i)
  case (Cons x xs)
  show ?case
  proof (cases i)
    case (Suc j)
    with Cons.IH [of j] Cons.prems show ?thesis by (auto simp: occupied_def split: if_splits)
  qed (simp add: occupied_def)
qed simp

lemma transition_ok:
  assumes "i < length table" "kind_of_state prev = kind_of_state (table ! i)" "length table \<le> usize_max"
  shows "stats_transitioned (exact_stats table) (kind_of_state prev) (physical_kind (from_state st)) (length table)
    = Some (exact_stats (table[i := quantize st]))"
proof -
  note u = occupied_update [OF assms(1), of "quantize st"]
  have le: "occupied (table[i := quantize st]) \<le> length table"
    using occupied_le [of "table[i := quantize st]"] by simp
  have b: "length table \<le> u64_max" "occupied table \<le> u64_max"
    using assms(3) occupied_le [of table] by (simp_all add: num_bounds)
  have pos: "table ! i \<noteq> Empty \<Longrightarrow> 0 < occupied table"
    using assms(1) by (auto simp: occupied_def filter_empty_conv intro: nth_mem)
  have "kind_of_state prev = (if table ! i = Empty then EmptyKind else ValueKind)"
    using assms(2) by (simp add: kind_of_state_def split: index_slot_state.splits)
  moreover have "physical_kind (from_state st) = (if st = Empty then EmptyKind else ValueKind)"
    by (simp add: physical_kind_kind kind_of_state_def split: index_slot_state.splits)
  ultimately show ?thesis
    using u le b pos
    by (auto simp: stats_transitioned_def stats_decrement_def stats_increment_def exact_stats_def checked_sub_def
        checked_add_def stats_is_valid_for_def try_from_def stats_total_def kind_quantize split: if_splits)
qed

text \<open>Writing through one range leaves every other range alone.\<close>

lemma range_view_update:
  assumes "range_ok c r" "i < slot_count r" "core_view c' = (core_view c)[first_slot r + i := st]" "same_image c c'"
  shows "range_view c' r = (range_view c r)[i := st]"
    and "range_ok c r2 \<Longrightarrow> first_slot r2 + slot_count r2 \<le> first_slot r + i \<or> first_slot r + i < first_slot r2 \<Longrightarrow>
      range_view c' r2 = range_view c r2"
proof -
  have n: "core_slot_count c' = core_slot_count c" using assms(4) by (simp add: same_image_def)
  have ok': "range_ok c' r" using assms(1) n by (simp add: range_ok_def)
  show "range_view c' r = (range_view c r)[i := st]"
    using assms(1-3) ok' n
    by (intro nth_equalityI) (auto simp: length_range_view range_view_nth nth_list_update range_ok_def)
  assume r2: "range_ok c r2" "first_slot r2 + slot_count r2 \<le> first_slot r + i \<or> first_slot r + i < first_slot r2"
  then have "range_ok c' r2" using n by (simp add: range_ok_def)
  with r2 assms(3) show "range_view c' r2 = range_view c r2"
    by (intro nth_equalityI) (auto simp: length_range_view range_view_nth)
qed

lemma replace_observed_state_ok:
  assumes ok: "core_ok digest (is_core s)" and r: "range_ok (is_core s) (is_range s)" and i: "i < slot_count (is_range s)"
    and st: "is_stats s = exact_stats (range_view (is_core s) (is_range s))"
    and prev: "kind_of_state prev = kind_of_state (range_view (is_core s) (is_range s) ! i)"
  shows "\<exists>c'. replace_observed_state digest i prev state s =
      Some (Inr (), s\<lparr>is_core := c', is_stats := exact_stats (range_view c' (is_range s))\<rparr>)
    \<and> core_ok digest c' \<and> core_view c' = (core_view (is_core s))[first_slot (is_range s) + i := quantize state]
    \<and> same_image (is_core s) c'"
proof -
  let ?c = "is_core s" and ?r = "is_range s" and ?g = "first_slot (is_range s) + i" and ?t = "range_view (is_core s) (is_range s)"
  have sh: "core_shape ?c" using ok by (simp add: core_ok_def)
  have g: "?g < core_slot_count ?c" using r i by (simp add: range_ok_def)
  have len: "length ?t = slot_count ?r" by (rule length_range_view [OF r])
  have "slot_count ?r \<le> usize_max" using r core_bounds [OF sh] by (simp add: range_ok_def)
  then have tr: "stats_transitioned (is_stats s) (kind_of_state prev) (physical_kind (from_state state)) (slot_count ?r)
      = Some (exact_stats (?t[i := quantize state]))"
    using transition_ok [of i ?t prev state] i len prev st by simp
  from core_write_slot_ok [OF ok g runtime_from_state] obtain c' where c':
    "core_write_slot digest ?g (from_state state) ?c = Some (Inr (), c')" "core_ok digest c'"
    "core_view c' = (core_view ?c)[?g := quantize state]" "same_image ?c c'" by blast
  have "replace_observed_state digest i prev state s =
      Some (Inr (), s\<lparr>is_core := c', is_stats := exact_stats (?t[i := quantize state])\<rparr>)"
    unfolding replace_observed_state_def
    using range_global_slot_ok [OF sh r i] tr c'(1) by (simp add: Let_def pbind_def on_core_def pzoom_def)
  with c' range_view_update(1) [OF r i c'(3,4)] show ?thesis by (intro exI [of _ c']) simp
qed

section \<open>The partitioned table\<close>

definition storage_ok :: "crc_stream \<Rightarrow> partitioned_index_storage \<Rightarrow> bool" where
  "storage_ok digest s \<longleftrightarrow>
     core_ok digest (pis_core s)
     \<and> pis_slot_count s = core_slot_count (pis_core s)
     \<and> tiles 0 0 0 (pis_ranges s) (core_page_count (pis_core s)) (pis_slot_count s)
     \<and> is_power_of_two (length (pis_ranges s)) \<and> length (pis_ranges s) \<le> MAX_INDEX_PARTITIONS
     \<and> map part_range (pis_partitions s) = pis_ranges s
     \<and> (\<forall>p < length (pis_partitions s). \<not> part_poisoned (pis_partitions s ! p)
          \<and> part_stats (pis_partitions s ! p) = exact_stats (range_view (pis_core s) (pis_ranges s ! p)))"

definition tables :: "partitioned_index_storage \<Rightarrow> index_slot_state list list" where
  "tables s = map (range_view (pis_core s)) (pis_ranges s)"

lemma length_tables [simp]: "length (tables s) = length (pis_ranges s)"
  by (simp add: tables_def)

lemma storage_ok_facts:
  assumes "storage_ok digest s"
  shows "length (pis_partitions s) = length (pis_ranges s)"
    "p < length (pis_ranges s) \<Longrightarrow> part_range (pis_partitions s ! p) = pis_ranges s ! p"
    "p < length (pis_ranges s) \<Longrightarrow> range_ok (pis_core s) (pis_ranges s ! p)"
    "p < length (pis_ranges s) \<Longrightarrow> 4 \<le> slot_count (pis_ranges s ! p)"
    "p < length (pis_ranges s) \<Longrightarrow> length (tables s ! p) = slot_count (pis_ranges s ! p)"
    "index_partition_for h (length (pis_partitions s)) < length (pis_ranges s)"
proof -
  have m: "map part_range (pis_partitions s) = pis_ranges s"
    and t: "tiles 0 0 0 (pis_ranges s) (core_page_count (pis_core s)) (pis_slot_count s)"
    and n: "pis_slot_count s = core_slot_count (pis_core s)"
    and pw: "is_power_of_two (length (pis_ranges s))" "length (pis_ranges s) \<le> MAX_INDEX_PARTITIONS"
    using assms unfolding storage_ok_def by blast+
  show len: "length (pis_partitions s) = length (pis_ranges s)" using m by (metis length_map)
  show "p < length (pis_ranges s) \<Longrightarrow> part_range (pis_partitions s ! p) = pis_ranges s ! p"
    using m len by (metis nth_map)
  show "p < length (pis_ranges s) \<Longrightarrow> 4 \<le> slot_count (pis_ranges s ! p)"
    using tiles_nth(2) [OF t] by (simp add: INDEX_CANDIDATES_def)
  then show r: "p < length (pis_ranges s) \<Longrightarrow> range_ok (pis_core s) (pis_ranges s ! p)"
    using tiles_nth(6) [OF t, of p] n by (simp add: range_ok_def)
  then show "p < length (pis_ranges s) \<Longrightarrow> length (tables s ! p) = slot_count (pis_ranges s ! p)"
    by (simp add: tables_def length_range_view)
  show "index_partition_for h (length (pis_partitions s)) < length (pis_ranges s)"
    using index_partition_for_less [OF pw] len by simp
qed

lemma tiles_ordered:
  assumes "tiles pid page slot rs pages slots" "p < length rs" "q < length rs" "p < q"
  shows "first_slot (rs ! p) + slot_count (rs ! p) \<le> first_slot (rs ! q)"
  using assms
proof (induction pid page slot rs pages slots arbitrary: p q rule: tiles.induct)
  case (2 pid page slot r rs pages slots)
  show ?case
  proof (cases p)
    case 0
    with "2.prems" obtain k where k: "q = Suc k" "k < length rs" by (cases q) auto
    have "tiles (Suc pid) (page + page_count r) (slot + slot_count r) rs pages slots" "first_slot r = slot"
      using "2.prems"(1) by simp_all
    with tiles_nth(5) [OF this(1) k(2)] k(1) 0 show ?thesis by simp
  next
    case (Suc j)
    with "2.prems" obtain k where "q = Suc k" by (cases q) auto
    with "2.IH" [of j k] "2.prems" Suc show ?thesis by simp
  qed
qed simp

lemma storage_frame:
  assumes ok: "storage_ok digest s" and c': "core_ok digest c'" "core_view c' = core_view (pis_core s)"
    "same_image (pis_core s) c'" and st: "map part_stats parts = map part_stats (pis_partitions s)"
    "map part_range parts = map part_range (pis_partitions s)"
    "map part_poisoned parts = map part_poisoned (pis_partitions s)"
  shows "storage_ok digest (s\<lparr>pis_core := c', pis_partitions := parts\<rparr>)"
    "tables (s\<lparr>pis_core := c', pis_partitions := parts\<rparr>) = tables s"
proof -
  have len: "length parts = length (pis_partitions s)" using st(1) by (metis length_map)
  have v: "range_view c' r = range_view (pis_core s) r" for r by (simp add: range_view_def c'(2))
  have "part_stats (parts ! p) = part_stats (pis_partitions s ! p)"
    "part_poisoned (parts ! p) = part_poisoned (pis_partitions s ! p)" if "p < length parts" for p
    using st(1,3) that len by (metis nth_map)+
  then show "storage_ok digest (s\<lparr>pis_core := c', pis_partitions := parts\<rparr>)"
    using ok c'(1,3) st(2) len by (auto simp: storage_ok_def same_image_def v)
  show "tables (s\<lparr>pis_core := c', pis_partitions := parts\<rparr>) = tables s"
    by (simp add: tables_def v)
qed

text \<open>
  A sequence of bucket reads and read-then-replace updates, on the storage and on the plain tables.
\<close>

datatype bucket_op = ReadBucket nat nat | WriteBucket nat nat index_slot_state

fun bucket_run :: "(nat \<Rightarrow> nat \<Rightarrow> ('s, 'e, index_slot_state) partial_op)
    \<Rightarrow> (nat \<Rightarrow> nat \<Rightarrow> index_slot_state \<Rightarrow> index_slot_state \<Rightarrow> ('s, 'e, unit) partial_op)
    \<Rightarrow> bucket_op list \<Rightarrow> ('s, 'e, index_slot_state list) partial_op" where
  "bucket_run slot_state replace [] = preturn []"
| "bucket_run slot_state replace (ReadBucket p i # ops) =
     pbind (slot_state p i) (\<lambda>st. pbind (bucket_run slot_state replace ops) (\<lambda>sts. preturn (st # sts)))"
| "bucket_run slot_state replace (WriteBucket p i new # ops) =
     pbind (slot_state p i) (\<lambda>prev. pbind (replace p i prev new) (\<lambda>_. bucket_run slot_state replace ops))"

fun table_run :: "bucket_op list \<Rightarrow> index_slot_state list list \<Rightarrow> index_slot_state list \<times> index_slot_state list list" where
  "table_run [] ts = ([], ts)"
| "table_run (ReadBucket p i # ops) ts = (case table_run ops ts of (sts, ts') \<Rightarrow> (ts ! p ! i # sts, ts'))"
| "table_run (WriteBucket p i new # ops) ts = table_run ops (ts[p := (ts ! p)[i := quantize new]])"

fun bucket_in_range :: "index_slot_state list list \<Rightarrow> bucket_op \<Rightarrow> bool" where
  "bucket_in_range ts (ReadBucket p i) \<longleftrightarrow> p < length ts \<and> i < length (ts ! p)"
| "bucket_in_range ts (WriteBucket p i new) \<longleftrightarrow> p < length ts \<and> i < length (ts ! p)"

lemma bucket_in_range_update:
  "bucket_in_range (ts[p := (ts ! p)[i := st]]) op \<longleftrightarrow> bucket_in_range ts op"
proof -
  have "length (ts[p := (ts ! p)[i := st]] ! q) = length (ts ! q)" if "q < length ts" for q
    using that by (cases "q = p") simp_all
  then show ?thesis by (cases op) auto
qed

text \<open>What the index relies on: the partition a hash selects is a table of bucket states.\<close>

locale bucket_table =
  fixes ok :: "'s \<Rightarrow> bool" and view :: "'s \<Rightarrow> index_slot_state list list" and globals :: "'s \<Rightarrow> nat list"
    and slot_state :: "nat \<Rightarrow> nat \<Rightarrow> ('s, 'e, index_slot_state) partial_op"
    and replace :: "nat \<Rightarrow> nat \<Rightarrow> index_slot_state \<Rightarrow> index_slot_state \<Rightarrow> ('s, 'e, unit) partial_op"
    and global_slot :: "nat \<Rightarrow> nat \<Rightarrow> ('s, 'e, nat) partial_op"
  assumes read_law: "ok s \<Longrightarrow> p < length (view s) \<Longrightarrow> i < length (view s ! p) \<Longrightarrow>
      \<exists>s'. slot_state p i s = Some (Inr (view s ! p ! i), s') \<and> ok s' \<and> view s' = view s \<and> globals s' = globals s"
    and write_law: "ok s \<Longrightarrow> p < length (view s) \<Longrightarrow> i < length (view s ! p) \<Longrightarrow>
      kind_of_state prev = kind_of_state (view s ! p ! i) \<Longrightarrow>
      \<exists>s'. replace p i prev state s = Some (Inr (), s') \<and> ok s'
        \<and> view s' = (view s)[p := (view s ! p)[i := quantize state]] \<and> globals s' = globals s"
    and global_law: "ok s \<Longrightarrow> p < length (view s) \<Longrightarrow> i < length (view s ! p) \<Longrightarrow>
      global_slot p i s = Some (Inr (globals s ! p + i), s)"
begin

lemma bucket_run_refines:
  assumes "ok s" "list_all (bucket_in_range (view s)) ops"
  shows "\<exists>s'. bucket_run slot_state replace ops s = Some (Inr (fst (table_run ops (view s))), s')
    \<and> ok s' \<and> view s' = snd (table_run ops (view s))"
  using assms
proof (induction ops arbitrary: s)
  case (Cons op ops)
  show ?case
  proof (cases op)
    case (ReadBucket p i)
    with Cons.prems read_law [of s p i] obtain t where t: "slot_state p i s = Some (Inr (view s ! p ! i), t)"
      "ok t" "view t = view s" by auto
    with Cons.IH [OF t(2)] Cons.prems(2) obtain s' where "bucket_run slot_state replace ops t = Some (Inr (fst (table_run ops (view s))), s')"
      "ok s'" "view s' = snd (table_run ops (view s))" by auto
    with t show ?thesis by (simp add: ReadBucket pbind_def split: prod.splits)
  next
    case (WriteBucket p i new)
    with Cons.prems read_law [of s p i] obtain t where t: "slot_state p i s = Some (Inr (view s ! p ! i), t)"
      "ok t" "view t = view s" by auto
    let ?ts = "(view s)[p := (view s ! p)[i := quantize new]]"
    from t write_law [of t p i "view s ! p ! i" new] WriteBucket Cons.prems obtain u where
      u: "replace p i (view s ! p ! i) new t = Some (Inr (), u)" "ok u" "view u = ?ts" by auto
    have "list_all (bucket_in_range (view u)) ops"
      using Cons.prems(2) by (simp add: u(3) list_all_iff bucket_in_range_update)
    from Cons.IH [OF u(2) this] t u show ?thesis by (simp add: WriteBucket pbind_def)
  qed
qed simp

end

lemma guard_slot_state_ok:
  assumes ok: "storage_ok digest s" and p: "p < length (tables s)" and i: "i < length (tables s ! p)"
  shows "\<exists>s'. guard_slot_state digest p i s = Some (Inr (tables s ! p ! i), s')
    \<and> storage_ok digest s' \<and> tables s' = tables s \<and> pis_ranges s' = pis_ranges s"
proof -
  note f = storage_ok_facts [OF ok]
  let ?v = "partition_view s p"
  have pr: "p < length (pis_ranges s)" using p by simp
  have rng: "is_range ?v = pis_ranges s ! p" "is_core ?v = pis_core s"
    using f(2) [OF pr] by (simp_all add: partition_view_def)
  have c: "core_ok digest (is_core ?v)" using ok by (simp add: storage_ok_def rng)
  have r: "range_ok (is_core ?v) (is_range ?v)" using f(3) [OF pr] by (simp add: rng)
  have i': "i < slot_count (is_range ?v)" using i f(5) [OF pr] by (simp add: rng)
  from state_at_ok [OF c r i'] obtain c' where c':
    "state_at digest i ?v = Some (Inr (tables s ! p ! i), ?v\<lparr>is_core := c'\<rparr>)" "core_ok digest c'"
    "core_view c' = core_view (pis_core s)" "same_image (pis_core s) c'"
    using pr by (auto simp: rng tables_def)
  have same: "store_view p (?v\<lparr>is_core := c'\<rparr>) s = s\<lparr>pis_core := c', pis_partitions := pis_partitions s\<rparr>"
    using pr f(1) list_update_id [of "pis_partitions s" p] by (simp add: store_view_def partition_view_def)
  have "guard_slot_state digest p i s =
      Some (Inr (tables s ! p ! i), s\<lparr>pis_core := c', pis_partitions := pis_partitions s\<rparr>)"
    using c'(1) pr f(1) same by (simp add: guard_slot_state_def on_partition_def pzoom_def)
  with storage_frame [OF ok c'(2-4) refl refl refl] show ?thesis by simp
qed

lemma guard_replace_observed_ok:
  assumes ok: "storage_ok digest s" and p: "p < length (tables s)" and i: "i < length (tables s ! p)"
    and prev: "kind_of_state prev = kind_of_state (tables s ! p ! i)"
  shows "\<exists>s'. guard_replace_observed digest p i prev state s = Some (Inr (), s') \<and> storage_ok digest s'
    \<and> tables s' = (tables s)[p := (tables s ! p)[i := quantize state]] \<and> pis_ranges s' = pis_ranges s"
proof -
  note f = storage_ok_facts [OF ok]
  let ?v = "partition_view s p"
  have pr: "p < length (pis_ranges s)" using p by simp
  have rng: "is_range ?v = pis_ranges s ! p" "is_core ?v = pis_core s"
    using f(2) [OF pr] by (simp_all add: partition_view_def)
  have c: "core_ok digest (is_core ?v)" using ok by (simp add: storage_ok_def rng)
  have r: "range_ok (is_core ?v) (is_range ?v)" using f(3) [OF pr] by (simp add: rng)
  have i': "i < slot_count (is_range ?v)" using i f(5) [OF pr] by (simp add: rng)
  have st: "is_stats ?v = exact_stats (range_view (is_core ?v) (is_range ?v))"
    using ok pr f(1) unfolding rng by (simp add: storage_ok_def partition_view_def)
  have pv: "kind_of_state prev = kind_of_state (range_view (is_core ?v) (is_range ?v) ! i)"
    using prev pr by (simp add: rng tables_def)
  from replace_observed_state_ok [OF c r i' st pv, of state] obtain c' where c':
    "replace_observed_state digest i prev state ?v =
       Some (Inr (), ?v\<lparr>is_core := c', is_stats := exact_stats (range_view c' (pis_ranges s ! p))\<rparr>)"
    "core_ok digest c'" "core_view c' = (core_view (pis_core s))[first_slot (pis_ranges s ! p) + i := quantize state]"
    "same_image (pis_core s) c'" unfolding rng by blast
  let ?part = "(pis_partitions s ! p)\<lparr>part_stats := exact_stats (range_view c' (pis_ranges s ! p))\<rparr>"
  let ?s = "s\<lparr>pis_core := c', pis_partitions := (pis_partitions s)[p := ?part]\<rparr>"
  have run: "guard_replace_observed digest p i prev state s = Some (Inr (), ?s)"
    using c'(1) pr f(1) by (simp add: guard_replace_observed_def on_partition_def pzoom_def store_view_def)
  have t: "tiles 0 0 0 (pis_ranges s) (core_page_count (pis_core s)) (pis_slot_count s)"
    using ok unfolding storage_ok_def by blast
  note rp = f(3) [OF pr]
  have ip: "i < slot_count (pis_ranges s ! p)" using i' by (simp add: rng)
  have other: "range_view c' (pis_ranges s ! q) = range_view (pis_core s) (pis_ranges s ! q)"
    if q: "q < length (pis_ranges s)" "q \<noteq> p" for q
  proof -
    have "first_slot (pis_ranges s ! q) + slot_count (pis_ranges s ! q) \<le> first_slot (pis_ranges s ! p) + i
      \<or> first_slot (pis_ranges s ! p) + i < first_slot (pis_ranges s ! q)"
      using q pr tiles_ordered [OF t, of q p] tiles_ordered [OF t, of p q] ip by (cases "q < p") auto
    then show ?thesis by (rule range_view_update(2) [OF rp ip c'(3,4) f(3) [OF q(1)]])
  qed
  have mine: "range_view c' (pis_ranges s ! p) = (tables s ! p)[i := quantize state]"
    using range_view_update(1) [OF rp ip c'(3,4)] pr by (simp add: tables_def)
  have "map part_range ((pis_partitions s)[p := ?part]) = map part_range (pis_partitions s)"
    using pr f(1) by (intro nth_equalityI) (auto simp: nth_list_update)
  then have "storage_ok digest ?s"
    using ok c'(2,4) pr f(1) other
    by (auto simp: storage_ok_def same_image_def nth_list_update)
  moreover have "tables ?s = (tables s)[p := (tables s ! p)[i := quantize state]]"
    using other mine pr by (intro nth_equalityI) (auto simp: tables_def nth_list_update)
  ultimately show ?thesis using run by auto
qed

interpretation partitioned: bucket_table "storage_ok digest" tables "\<lambda>s. map first_slot (pis_ranges s)"
  "guard_slot_state digest" "guard_replace_observed digest" guard_global_slot for digest
proof (unfold_locales, goal_cases)
  case (1 s p i)
  then show ?case using guard_slot_state_ok by fastforce
next
  case (2 s p i prev state)
  from guard_replace_observed_ok [OF this, of state] show ?case by auto
next
  case (3 s p i)
  note f = storage_ok_facts [OF 3(1)]
  have "core_shape (pis_core s)" using 3(1) by (simp add: storage_ok_def core_ok_def)
  with range_global_slot_ok f(3,5) 3(2,3) show ?case
    by (auto simp: guard_global_slot_def get_at_def)
qed

section \<open>Opening a new image\<close>

lemma runtime_state_zero: "runtime_state (IndexSlot 0) = Inr Empty"
  by (simp add: runtime_state_def)

lemma slot_decode_zero: "slot_decode (replicate 8 0) = Some (IndexSlot 0)"
proof -
  have z: "slot_encode (IndexSlot 0) = replicate 8 0" by (simp add: slot_encode_def eval_nat_numeral)
  show ?thesis using slot_decode_encode [of "IndexSlot 0"] unfolding z .
qed

lemma zero_core:
  assumes "core_shape c" "core_data c = replicate (core_page_count c * 4096) 0" "i < core_slot_count c"
  shows "slot_meaning c i = Some Empty"
proof -
  have "slot_off i + 8 \<le> core_page_count c * 4096"
    using slot_in_bounds [OF assms(1,3)] assms(1) by (simp add: core_shape_def)
  then have "slice_at (core_data c) (slot_off i) (slot_off i + 8) = Some (replicate 8 0)"
    by (simp add: slice_at_def assms(2) min_def)
  then show ?thesis by (simp add: slot_meaning_def decode_at_def image_sizes slot_decode_zero runtime_state_zero)
qed

lemma from_core_fields:
  assumes "from_core alloc slots ranges c stats = Inr s"
  shows "pis_slot_count s = slots" "pis_ranges s = ranges" "pis_core s = c" "core_slot_count c = slots"
    "map part_range (pis_partitions s) = ranges" "length (pis_partitions s) = length ranges"
    "p < length ranges \<Longrightarrow> part_stats (pis_partitions s ! p) = (case stats of None \<Rightarrow> default_stats | Some st \<Rightarrow> st ! p)
       \<and> \<not> part_poisoned (pis_partitions s ! p)"
proof -
  have s: "s = \<lparr>pis_slot_count = slots, pis_ranges = ranges, pis_core = c,
        pis_partitions = map (\<lambda>(index, range).
          \<lparr>part_range = range,
           part_stats = (case stats of None \<Rightarrow> default_stats | Some stats \<Rightarrow> stats ! index),
           part_poisoned = False\<rparr>) (enumerate 0 ranges)\<rparr>" "core_slot_count c = slots"
    using assms by (auto simp: from_core_def split: if_splits)
  show "pis_slot_count s = slots" "pis_ranges s = ranges" "pis_core s = c" "core_slot_count c = slots"
    "length (pis_partitions s) = length ranges" using s by simp_all
  show "map part_range (pis_partitions s) = ranges"
    unfolding s(1) by (intro nth_equalityI) (simp_all add: nth_enumerate_eq)
  show "p < length ranges \<Longrightarrow> part_stats (pis_partitions s ! p) = (case stats of None \<Rightarrow> default_stats | Some st \<Rightarrow> st ! p)
       \<and> \<not> part_poisoned (pis_partitions s ! p)"
    unfolding s(1) by (simp add: nth_enumerate_eq)
qed

lemma anonymous_ok:
  assumes rep: "representable_slots slots" and alloc: "\<And>n. alloc n" and mm: "\<And>n. map_anonymous n = None"
  shows "\<exists>s. storage_anonymous alloc map_anonymous slots = Inr s \<and> storage_ok digest s
    \<and> pis_slot_count s = slots \<and> (\<forall>table \<in> set (tables s). \<forall>st \<in> set table. st = Empty)"
proof -
  let ?pages = "(slots + 503) div 504"
  from canonical_ranges_ok [OF rep, of alloc] alloc obtain rs where rs:
    "canonical_index_partition_ranges alloc slots = Inr rs" "tiles 0 0 0 rs ?pages slots"
    "is_power_of_two (length rs)" "length rs \<le> MAX_INDEX_PARTITIONS" by blast
  let ?c = "\<lparr>core_data = replicate (?pages * 4096) 0, core_slot_count = slots, core_page_count = ?pages,
     expected_binding = None, image_state = IMAGE_STATE_USABLE, page_states = replicate ?pages PAGE_STATE_VALID\<rparr>"
  have c: "core_anonymous alloc map_anonymous slots = Inr ?c"
    using image_layout_new_eq [OF rep] alloc mm
    by (simp add: core_anonymous_def allocate_page_states_def)
  have ne: "rs \<noteq> []" using rs(3) by (auto simp: is_power_of_two_def)
  then obtain s where s: "from_core alloc slots rs ?c None = Inr s"
    using alloc by (simp add: from_core_def)
  note f = from_core_fields [OF s]
  have sh: "core_shape ?c" using rep by (simp add: core_shape_def representable_slots_def)
  have em: "slot_meaning ?c i = Some Empty" if "i < slots" for i
    using zero_core [OF sh] that by simp
  have ok: "core_ok digest ?c"
    using sh em by (simp add: core_ok_def page_ok_def)
  have view: "core_view ?c = replicate slots Empty"
    by (intro nth_equalityI) (simp_all add: core_view_def em)
  have rv: "st = Empty" if "st \<in> set (range_view ?c r)" for r st
    using that by (auto simp: range_view_def view dest: in_set_takeD in_set_dropD)
  then have "exact_stats (range_view ?c r) = default_stats" for r
    by (auto simp: exact_stats_def default_stats_def occupied_def filter_empty_conv)
  with ok rs f have "storage_ok digest s" by (simp add: storage_ok_def)
  moreover have "storage_anonymous alloc map_anonymous slots = Inr s"
    using rs(1) c s by (simp add: storage_anonymous_def)
  ultimately show ?thesis using f(1-3) rv by (auto simp: tables_def)
qed

section \<open>Exact counters\<close>

lemma sum_partitions_ok:
  assumes "\<And>p. p < length parts \<Longrightarrow> \<not> part_poisoned (parts ! p) \<and> part_stats (parts ! p) = exact_stats (ts ! p)"
    and "length ts = length parts" "stat_deleted acc = 0" "stat_value acc + occupied (concat ts) \<le> u64_max"
  shows "sum_partitions n acc parts = Inr \<lparr>stat_value = stat_value acc + occupied (concat ts), stat_deleted = 0\<rparr>"
  using assms
proof (induction parts arbitrary: n acc ts)
  case (Cons part parts)
  then obtain t ts' where ts: "ts = t # ts'" by (cases ts) auto
  have part: "\<not> part_poisoned part" "part_stats part = exact_stats t" using Cons.prems(1) [of 0] by (simp_all add: ts)
  have rest: "\<not> part_poisoned (parts ! p) \<and> part_stats (parts ! p) = exact_stats (ts' ! p)" if "p < length parts" for p
    using Cons.prems(1) [of "Suc p"] that by (simp add: ts)
  have sum: "occupied (concat ts) = occupied t + occupied (concat ts')" by (simp add: ts occupied_def)
  with Cons.prems(3,4) part have "checked_add_physical_stats acc (part_stats part) =
      Inr \<lparr>stat_value = stat_value acc + occupied t, stat_deleted = 0\<rparr>"
    by (simp add: checked_add_physical_stats_def exact_stats_def checked_add_def)
  with Cons.IH [OF rest, of "\<lparr>stat_value = stat_value acc + occupied t, stat_deleted = 0\<rparr>" "Suc n"] part sum Cons.prems(2,4)
  show ?case by (simp add: ts)
next
  case Nil
  then show ?case by (cases acc) (simp add: occupied_def)
qed

lemma tiles_sum:
  assumes "tiles pid page slot rs pages slots" shows "slot + sum_list (map slot_count rs) = slots"
  using assms by (induction pid page slot rs pages slots rule: tiles.induct) auto

lemma slot_capacity:
  assumes "storage_ok digest s"
  shows "occupied (concat (tables s)) \<le> pis_slot_count s" "pis_slot_count s \<le> u64_max"
proof -
  have t: "tiles 0 0 0 (pis_ranges s) (core_page_count (pis_core s)) (pis_slot_count s)"
    and n: "pis_slot_count s = core_slot_count (pis_core s)" and sh: "core_shape (pis_core s)"
    using assms unfolding storage_ok_def core_ok_def by blast+
  have "map length (tables s) = map slot_count (pis_ranges s)"
    using storage_ok_facts(5) [OF assms] by (intro nth_equalityI) simp_all
  then have "length (concat (tables s)) = pis_slot_count s" using tiles_sum [OF t] by (simp add: length_concat)
  then show "occupied (concat (tables s)) \<le> pis_slot_count s" using occupied_le [of "concat (tables s)"] by simp
  show "pis_slot_count s \<le> u64_max" using core_bounds [OF sh] n by (simp add: num_bounds)
qed

lemma physical_stats_exact:
  assumes "storage_ok digest s"
  shows "physical_stats s = Inr \<lparr>stat_value = occupied (concat (tables s)), stat_deleted = 0\<rparr>"
proof -
  note f = storage_ok_facts [OF assms] and le = slot_capacity [OF assms]
  have parts: "\<not> part_poisoned (pis_partitions s ! p) \<and> part_stats (pis_partitions s ! p) = exact_stats (tables s ! p)"
    if "p < length (pis_partitions s)" for p
    using assms that f(1) by (auto simp: storage_ok_def tables_def)
  have "sum_partitions 0 default_stats (pis_partitions s) = Inr \<lparr>stat_value = stat_value default_stats + occupied (concat (tables s)), stat_deleted = 0\<rparr>"
    by (rule sum_partitions_ok) (use parts f(1) le in \<open>simp_all add: default_stats_def\<close>)
  with le show ?thesis
    by (simp add: physical_stats_def default_stats_def stats_is_valid_for_def try_from_def stats_total_def checked_add_def)
qed

section \<open>A rejected image\<close>

lemma rejected_usable: "image_is_rejected c \<Longrightarrow> ensure_image_usable page c = Some (Inl (CorruptPage page PreviouslyRejected), c)"
  by (simp add: ensure_image_usable_def)

lemma rejected_page: "image_is_rejected c \<Longrightarrow> \<exists>e. ensure_page_valid digest page c = Some (Inl e, c)"
  by (cases "page < length (page_states c)") (simp_all add: ensure_page_valid_def get_at_def pbind_def rejected_usable)

lemma rejected_state_at:
  assumes "image_is_rejected (is_core v)" shows "\<exists>e. state_at digest i v = Some (Inl e, v)"
proof (cases "range_global_slot (is_range v) i")
  case (Inr g)
  show ?thesis
  proof (cases "slot_address (is_core v) g")
    case (Inr a)
    from rejected_page [OF assms, of digest "fst a"] obtain e where
      "ensure_page_valid digest (fst a) (is_core v) = Some (Inl e, is_core v)" ..
    with Inr \<open>range_global_slot (is_range v) i = Inr g\<close> show ?thesis
      by (cases a) (simp add: state_at_def pbind_def on_core_def pzoom_def)
  qed (simp add: state_at_def Inr)
qed (simp add: state_at_def)

lemma rejected_write:
  assumes "image_is_rejected c" shows "\<exists>e. core_write_slot digest i v c = Some (Inl e, c)"
proof (cases "slot_address c i")
  case (Inr a)
  from rejected_page [OF assms, of digest "fst a"] obtain e where "ensure_page_valid digest (fst a) c = Some (Inl e, c)" ..
  with Inr show ?thesis by (cases a) (simp add: core_write_slot_def pbind_def)
qed (simp add: core_write_slot_def)

lemma rejected_replace:
  assumes "image_is_rejected (is_core v)" shows "\<exists>e. replace_observed_state digest i prev state v = Some (Inl e, v)"
proof (cases "range_global_slot (is_range v) i")
  case (Inr g)
  from rejected_write [OF assms, of digest g "from_state state"] obtain e where
    "core_write_slot digest g (from_state state) (is_core v) = Some (Inl e, is_core v)" ..
  with Inr show ?thesis
    by (cases "stats_transitioned (is_stats v) (kind_of_state prev) (physical_kind (from_state state)) (slot_count (is_range v))")
       (simp_all add: replace_observed_state_def Let_def pbind_def on_core_def pzoom_def)
qed (simp add: replace_observed_state_def Let_def)

lemma store_view_same: "p < length (pis_partitions s) \<Longrightarrow> store_view p (partition_view s p) s = s"
  by (simp add: store_view_def partition_view_def)

lemma rejected_partition:
  assumes "image_is_rejected (pis_core s)" "p < length (pis_partitions s)"
  shows "\<exists>e. guard_slot_state digest p i s = Some (Inl e, s)"
    "\<exists>e. guard_replace_observed digest p i prev state s = Some (Inl e, s)"
proof -
  have r: "image_is_rejected (is_core (partition_view s p))" using assms(1) by (simp add: partition_view_def)
  from rejected_state_at [OF r, of digest i] rejected_replace [OF r, of digest i prev state] assms(2)
  show "\<exists>e. guard_slot_state digest p i s = Some (Inl e, s)"
    "\<exists>e. guard_replace_observed digest p i prev state s = Some (Inl e, s)"
    by (auto simp: guard_slot_state_def guard_replace_observed_def on_partition_def pzoom_def store_view_same)
qed

lemma reject_fields [simp]:
  "image_is_rejected (reject_image c)" "image_is_rejected (store_page_state p st c) = image_is_rejected c"
  by (simp_all add: image_is_rejected_def reject_image_def)

lemma corrupt_page_read:
  assumes "core_shape (is_core v)" "range_ok (is_core v) (is_range v)" "i < slot_count (is_range v)"
    and "image_state (is_core v) = IMAGE_STATE_USABLE"
    and "page_states (is_core v) ! ((first_slot (is_range v) + i) div 504) = PAGE_STATE_UNCHECKED"
    and "validate_mapped_page digest (is_core v) ((first_slot (is_range v) + i) div 504) = Some (Inl e)"
  shows "\<exists>c'. state_at digest i v = Some (Inl e, v\<lparr>is_core := c'\<rparr>) \<and> image_is_rejected c' \<and> core_data c' = core_data (is_core v)"
proof -
  let ?c = "is_core v" and ?g = "first_slot (is_range v) + i"
  have g: "?g < core_slot_count ?c" using assms(2,3) by (simp add: range_ok_def)
  note a = slot_address_ok [OF assms(1) g]
  let ?c' = "store_page_state (?g div 504) PAGE_STATE_REJECTED (reject_image (store_page_state (?g div 504) PAGE_STATE_VALIDATING ?c))"
  have "ensure_page_valid digest (?g div 504) ?c = Some (Inl e, ?c')"
    using a(2) assms(1,4-6) usable [OF assms(4)]
    by (simp add: ensure_page_valid_def get_at_def core_shape_def pbind_def check_unchecked_page_def state_codes)
  then have "state_at digest i v = Some (Inl e, v\<lparr>is_core := ?c'\<rparr>)"
    using range_global_slot_ok [OF assms(1-3)] a(1) by (simp add: state_at_def pbind_def on_core_def pzoom_def)
  then show ?thesis by (intro exI [of _ ?c']) (simp add: reject_image_def image_is_rejected_def)
qed

section \<open>Properties\<close>

text \<open>
  C22 (refinement): a newly opened index image is a table of Empty buckets, one list per canonical
  partition, and the partition guards implement that table: reading a bucket returns its table
  entry and changes no entry, replacing an observed bucket changes exactly that entry (to the
  quantized state), and every other bucket of every partition and the exact physical counters are
  kept. Nothing panics or fails.
\<close>

theorem index_storage_refines_table:
  assumes "representable_slots slots" "\<And>n. alloc n" "\<And>n. map_anonymous n = None"
  shows "\<exists>s. storage_anonymous alloc map_anonymous slots = Inr s
    \<and> (\<forall>table \<in> set (tables s). \<forall>st \<in> set table. st = Empty)
    \<and> (\<forall>ops. list_all (bucket_in_range (tables s)) ops \<longrightarrow>
         (\<exists>s'. bucket_run (guard_slot_state digest) (guard_replace_observed digest) ops s
             = Some (Inr (fst (table_run ops (tables s))), s')
           \<and> tables s' = snd (table_run ops (tables s))
           \<and> physical_stats s' = Inr \<lparr>stat_value = occupied (concat (tables s')), stat_deleted = 0\<rparr>))"
proof -
  from anonymous_ok [of slots alloc map_anonymous digest] assms obtain s where s: "storage_anonymous alloc map_anonymous slots = Inr s" "storage_ok digest s"
    "\<forall>table \<in> set (tables s). \<forall>st \<in> set table. st = Empty" by blast
  show ?thesis using s partitioned.bucket_run_refines [OF s(2)] physical_stats_exact by blast
qed

theorem index_storage_refines_table_witness:
  "\<exists>s s'. storage_anonymous (\<lambda>_. True) (\<lambda>_. None) 1300 = Inr s
     \<and> bucket_run (guard_slot_state (\<lambda>_. 0)) (guard_replace_observed (\<lambda>_. 0))
         [WriteBucket 0 2 (Value 5 1 \<lparr>location = PackedLocation 32\<rparr>), ReadBucket 0 2] s
       = Some (Inr [quantize (Value 5 1 \<lparr>location = PackedLocation 32\<rparr>)], s')"
proof -
  have rep: "representable_slots 1300" by (simp add: representable_slots_def isize_max_def)
  let ?ops = "[WriteBucket 0 2 (Value 5 1 \<lparr>location = PackedLocation 32\<rparr>), ReadBucket 0 2]"
  from index_storage_refines_table [OF rep, of "\<lambda>_. True" "\<lambda>_. None" "\<lambda>_. 0"] obtain s where
    s: "storage_anonymous (\<lambda>_. True) (\<lambda>_. None) 1300 = Inr s"
    "\<And>ops. list_all (bucket_in_range (tables s)) ops \<Longrightarrow>
       \<exists>s'. bucket_run (guard_slot_state (\<lambda>_. 0)) (guard_replace_observed (\<lambda>_. 0)) ops s
             = Some (Inr (fst (table_run ops (tables s))), s')" by blast
  have ok: "storage_ok (\<lambda>_. 0) s"
    using anonymous_ok [OF rep, of "\<lambda>_. True" "\<lambda>_. None" "\<lambda>_. 0"] s(1) by auto
  have "0 < length (pis_ranges s)" using ok by (auto simp: storage_ok_def is_power_of_two_def)
  with storage_ok_facts(4,5) [OF ok, of 0] have p: "0 < length (tables s)" "2 < length (tables s ! 0)" by simp_all
  then have "fst (table_run ?ops (tables s)) = [quantize (Value 5 1 \<lparr>location = PackedLocation 32\<rparr>)]" by simp
  with s(2) [of ?ops] s(1) p show ?thesis by auto
qed

text \<open>
  C30 (error): the first read of a page of a mapped image that does not validate returns the reason
  and rejects the image: from then on every read and every write of every partition fails and
  changes nothing, so no bucket of a corrupt image is ever served or modified.
\<close>

theorem corrupt_page_rejects_image:
  assumes "core_shape (pis_core s)" "p < length (pis_partitions s)"
    and "range_ok (pis_core s) (part_range (pis_partitions s ! p))" "i < slot_count (part_range (pis_partitions s ! p))"
    and "image_state (pis_core s) = IMAGE_STATE_USABLE"
    and "page_states (pis_core s) ! ((first_slot (part_range (pis_partitions s ! p)) + i) div 504) = PAGE_STATE_UNCHECKED"
    and "validate_mapped_page digest (pis_core s) ((first_slot (part_range (pis_partitions s ! p)) + i) div 504) = Some (Inl e)"
  shows "\<exists>s'. guard_slot_state digest p i s = Some (Inl e, s') \<and> image_is_rejected (pis_core s')
    \<and> core_data (pis_core s') = core_data (pis_core s)
    \<and> (\<forall>q j prev state. q < length (pis_partitions s') \<longrightarrow>
         (\<exists>e. guard_slot_state digest q j s' = Some (Inl e, s'))
         \<and> (\<exists>e. guard_replace_observed digest q j prev state s' = Some (Inl e, s')))"
proof -
  let ?v = "partition_view s p"
  have v: "is_core ?v = pis_core s" "is_range ?v = part_range (pis_partitions s ! p)" by (simp_all add: partition_view_def)
  from corrupt_page_read [of ?v i digest e] assms(1,3-7) obtain c' where
    c': "state_at digest i ?v = Some (Inl e, ?v\<lparr>is_core := c'\<rparr>)" "image_is_rejected c'" "core_data c' = core_data (pis_core s)"
    unfolding v by blast
  let ?s = "store_view p (?v\<lparr>is_core := c'\<rparr>) s"
  have "guard_slot_state digest p i s = Some (Inl e, ?s)"
    using c'(1) assms(2) by (simp add: guard_slot_state_def on_partition_def pzoom_def)
  moreover have "image_is_rejected (pis_core ?s)" "core_data (pis_core ?s) = core_data (pis_core s)"
    using c'(2,3) by (simp_all add: store_view_def)
  ultimately show ?thesis using rejected_partition by blast
qed

definition zero_image :: partitioned_index_storage where
  "zero_image =
     (let r = \<lparr>partition_id = 0, first_page = 0, page_count = 1, first_slot = 0, slot_count = 4\<rparr> in
      \<lparr>pis_slot_count = 4, pis_ranges = [r],
       pis_core = \<lparr>core_data = replicate 4096 0, core_slot_count = 4, core_page_count = 1,
         expected_binding = Some \<lparr>generation = 1, image_tag = 1\<rparr>, image_state = IMAGE_STATE_USABLE,
         page_states = [PAGE_STATE_UNCHECKED]\<rparr>,
       pis_partitions = [\<lparr>part_range = r, part_stats = default_stats, part_poisoned = False\<rparr>]\<rparr>)"

theorem corrupt_page_rejects_image_witness:
  "\<exists>s'. guard_slot_state (\<lambda>_. 0) 0 3 zero_image = Some (Inl (CorruptPage 0 InvalidMagic), s')
     \<and> image_is_rejected (pis_core s')"
proof -
  have v: "validate_mapped_page (\<lambda>_. 0) (pis_core zero_image) 0 = Some (Inl (CorruptPage 0 InvalidMagic))"
  proof -
    have "hd (replicate 8 (0 :: u8)) \<noteq> hd PAGE_MAGIC" by (simp add: PAGE_MAGIC_def)
    then have "replicate 8 (0 :: u8) \<noteq> PAGE_MAGIC" by metis
    then show ?thesis
      by (simp add: zero_image_def Let_def validate_mapped_page_def checked_mul_def slice_at_def image_sizes
          validate_page_header_def)
  qed
  have "\<exists>s'. guard_slot_state (\<lambda>_. 0) 0 3 zero_image = Some (Inl (CorruptPage 0 InvalidMagic), s') \<and> image_is_rejected (pis_core s')
    \<and> core_data (pis_core s') = core_data (pis_core zero_image)
    \<and> (\<forall>q j prev state. q < length (pis_partitions s') \<longrightarrow>
         (\<exists>e. guard_slot_state (\<lambda>_. 0) q j s' = Some (Inl e, s'))
         \<and> (\<exists>e. guard_replace_observed (\<lambda>_. 0) q j prev state s' = Some (Inl e, s')))"
    by (rule corrupt_page_rejects_image)
       (use v in \<open>simp_all add: zero_image_def Let_def core_shape_def range_ok_def isize_max_def\<close>)
  then show ?thesis by blast
qed

end
