(* ===== verification/Fixed_Map.thy ===== *)
theory Fixed_Map
  imports Prelude
begin

unbundle bit_operations_syntax

text \<open>
  The fixed-capacity directory of \<^verbatim>\<open>cache2/src/hashing.rs\<close>: open addressing with a window of
  at most 64 linear probes, tombstones, and compaction of a deletion hole. The directory is keyed
  by a 32-bit fingerprint of the hash; \<open>directory\<close> is the finite map it stands for, and the
  three operations refine lookup, update and deletion of that map.
\<close>

section \<open>The code\<close>

definition EMPTY_VALUE :: u32 where "EMPTY_VALUE = - 1"
definition DELETED_VALUE :: u32 where "DELETED_VALUE = - 1 - 1"
definition MAX_FIXED_MAP_PROBES :: nat where "MAX_FIXED_MAP_PROBES = 64"

record fixed_map_slot =
  slot_fingerprint :: u32
  slot_value :: u32

definition default_slot :: fixed_map_slot where
  "default_slot = \<lparr>slot_fingerprint = 0, slot_value = EMPTY_VALUE\<rparr>"

type_synonym fixed_map = "fixed_map_slot list"

definition fixed_map_fingerprint :: "u64 \<Rightarrow> u32" where
  "fixed_map_fingerprint hash = word_rotl 13 (ucast hash) XOR ucast (drop_bit 32 hash)"

definition fixed_map_fingerprint_start :: "u32 \<Rightarrow> nat \<Rightarrow> nat" where
  "fixed_map_fingerprint_start fp slots = (unat (fp * 0x9e3779b9) * slots) div 2 ^ 32"

definition fixed_map_start :: "u64 \<Rightarrow> nat \<Rightarrow> nat" where
  "fixed_map_start hash slots = fixed_map_fingerprint_start (fixed_map_fingerprint hash) slots"

definition probe_index :: "nat \<Rightarrow> nat \<Rightarrow> nat \<Rightarrow> nat" where
  "probe_index start step slots =
     (let remaining = slots - start in if step < remaining then start + step else step - remaining)"

definition next_probe_index :: "nat \<Rightarrow> nat \<Rightarrow> nat" where
  "next_probe_index index slots = (if index + 1 = slots then 0 else index + 1)"

definition probe_distance :: "nat \<Rightarrow> nat \<Rightarrow> nat \<Rightarrow> nat" where
  "probe_distance home index slots = (if index \<ge> home then index - home else slots - (home - index))"

datatype fixed_map_error = FixedMapTooLarge | FixedMapOutOfMemory

definition fixed_map_slot_count :: "nat \<Rightarrow> fixed_map_error + nat" where
  "fixed_map_slot_count maximum_entries =
     (if maximum_entries = 0 then Inr 0
      else ok_or FixedMapTooLarge (checked_mul usize_max maximum_entries 2))"

definition fixed_map_try_new :: "(nat \<Rightarrow> bool) \<Rightarrow> nat \<Rightarrow> fixed_map_error + fixed_map" where
  "fixed_map_try_new alloc maximum_entries =
     bind_result (fixed_map_slot_count maximum_entries) (\<lambda>n.
       if alloc n then Inr (replicate n default_slot) else Inl FixedMapOutOfMemory)"

definition fixed_map_allocation_bytes :: "nat \<Rightarrow> fixed_map_error + nat" where
  "fixed_map_allocation_bytes maximum_entries =
     bind_result (fixed_map_slot_count maximum_entries) (\<lambda>n.
       ok_or FixedMapTooLarge (checked_mul usize_max n 8))"

definition probe_limit :: "fixed_map \<Rightarrow> nat" where
  "probe_limit slots = min (length slots) MAX_FIXED_MAP_PROBES"

text \<open>The loops run over the steps \<^verbatim>\<open>0..slots.len().min(MAX_FIXED_MAP_PROBES)\<close>.\<close>

fun get_loop :: "fixed_map \<Rightarrow> u32 \<Rightarrow> nat \<Rightarrow> nat list \<Rightarrow> u32 option" where
  "get_loop slots fp start [] = None"
| "get_loop slots fp start (step # steps) =
     (let slot = slots ! probe_index start step (length slots) in
      if slot_value slot = EMPTY_VALUE then None
      else if slot_value slot \<noteq> DELETED_VALUE \<and> slot_fingerprint slot = fp then Some (slot_value slot)
      else get_loop slots fp start steps)"

definition fixed_map_get :: "fixed_map \<Rightarrow> u64 \<Rightarrow> u32 option" where
  "fixed_map_get slots hash =
     (if slots = [] then None
      else get_loop slots (fixed_map_fingerprint hash) (fixed_map_start hash (length slots))
             [0..<probe_limit slots])"

fun upsert_loop :: "fixed_map \<Rightarrow> u32 \<Rightarrow> nat \<Rightarrow> nat option \<Rightarrow> nat list \<Rightarrow> (nat \<times> u32 option) option" where
  "upsert_loop slots fp start deleted [] = map_option (\<lambda>index. (index, None)) deleted"
| "upsert_loop slots fp start deleted (step # steps) =
     (let index = probe_index start step (length slots); slot = slots ! index in
      if slot_value slot = EMPTY_VALUE
      then Some (case deleted of Some d \<Rightarrow> d | None \<Rightarrow> index, None)
      else if slot_value slot = DELETED_VALUE
      then upsert_loop slots fp start (case deleted of Some d \<Rightarrow> Some d | None \<Rightarrow> Some index) steps
      else if slot_fingerprint slot = fp then Some (index, Some (slot_value slot))
      else upsert_loop slots fp start deleted steps)"

definition find_upsert_slot :: "fixed_map \<Rightarrow> u64 \<Rightarrow> (nat \<times> u32 option) option" where
  "find_upsert_slot slots hash =
     (if slots = [] then None
      else upsert_loop slots (fixed_map_fingerprint hash) (fixed_map_start hash (length slots)) None
             [0..<probe_limit slots])"

definition can_upsert :: "fixed_map \<Rightarrow> u64 \<Rightarrow> bool" where
  "can_upsert slots hash \<longleftrightarrow> find_upsert_slot slots hash \<noteq> None"

definition fixed_map_insert :: "u64 \<Rightarrow> u32 \<Rightarrow> fixed_map \<Rightarrow> u32 option option \<times> fixed_map" where
  "fixed_map_insert hash v slots =
     (case find_upsert_slot slots hash of
        None \<Rightarrow> (None, slots)
      | Some (index, previous) \<Rightarrow>
          (Some previous,
           slots[index := \<lparr>slot_fingerprint = fixed_map_fingerprint hash, slot_value = v\<rparr>]))"

primrec compact_loop :: "nat \<Rightarrow> nat \<Rightarrow> nat \<Rightarrow> fixed_map \<Rightarrow> fixed_map" where
  "compact_loop 0 hole cursor slots = slots"
| "compact_loop (Suc budget) hole cursor slots =
     (let slot_count = length slots; candidate = slots ! cursor in
      if slot_value candidate = EMPTY_VALUE then slots[hole := default_slot]
      else if slot_value candidate \<noteq> DELETED_VALUE
              \<and> probe_distance (fixed_map_fingerprint_start (slot_fingerprint candidate) slot_count) hole slot_count
                < probe_distance (fixed_map_fingerprint_start (slot_fingerprint candidate) slot_count) cursor slot_count
      then compact_loop budget cursor (next_probe_index cursor slot_count)
             (slots[hole := candidate, cursor := candidate\<lparr>slot_value := DELETED_VALUE\<rparr>])
      else compact_loop budget hole (next_probe_index cursor slot_count) slots)"

definition compact_deleted :: "nat \<Rightarrow> fixed_map \<Rightarrow> fixed_map" where
  "compact_deleted hole slots =
     compact_loop (min (length slots - 1) MAX_FIXED_MAP_PROBES) hole
       (next_probe_index hole (length slots)) slots"

fun remove_loop :: "fixed_map \<Rightarrow> u32 \<Rightarrow> nat \<Rightarrow> nat list \<Rightarrow> u32 option \<times> fixed_map" where
  "remove_loop slots fp start [] = (None, slots)"
| "remove_loop slots fp start (step # steps) =
     (let index = probe_index start step (length slots); slot = slots ! index in
      if slot_value slot = EMPTY_VALUE then (None, slots)
      else if slot_value slot \<noteq> DELETED_VALUE \<and> slot_fingerprint slot = fp
      then (Some (slot_value slot),
            compact_deleted index (slots[index := slot\<lparr>slot_value := DELETED_VALUE\<rparr>]))
      else remove_loop slots fp start steps)"

definition fixed_map_remove :: "u64 \<Rightarrow> fixed_map \<Rightarrow> u32 option \<times> fixed_map" where
  "fixed_map_remove hash slots =
     (if slots = [] then (None, slots)
      else remove_loop slots (fixed_map_fingerprint hash) (fixed_map_start hash (length slots))
             [0..<probe_limit slots])"

definition route_hash :: "u64 \<Rightarrow> nat \<Rightarrow> nat" where
  "route_hash hash buckets =
     (if is_power_of_two buckets then unat (hash AND (of_nat buckets - 1))
      else unat hash mod buckets)"

section \<open>Probe arithmetic\<close>

lemma start_less: "0 < n \<Longrightarrow> fixed_map_fingerprint_start fp n < n"
proof -
  assume n: "0 < n"
  have "unat (fp * 0x9e3779b9) < 2 ^ 32" using unsigned_less [of "fp * 0x9e3779b9"] by simp
  then have "unat (fp * 0x9e3779b9) * n < 2 ^ 32 * n" using n by simp
  then show ?thesis by (simp add: fixed_map_fingerprint_start_def less_mult_imp_div_less mult.commute)
qed

lemma probe_index_less: "h < n \<Longrightarrow> s < n \<Longrightarrow> probe_index h s n < n"
  by (auto simp: probe_index_def Let_def)

lemma distance_index: "h < n \<Longrightarrow> s < n \<Longrightarrow> probe_distance h (probe_index h s n) n = s"
  by (auto simp: probe_index_def probe_distance_def Let_def)

lemma index_distance: "h < n \<Longrightarrow> i < n \<Longrightarrow> probe_index h (probe_distance h i n) n = i"
  by (auto simp: probe_index_def probe_distance_def Let_def)

lemma distance_less: "h < n \<Longrightarrow> i < n \<Longrightarrow> probe_distance h i n < n"
  by (auto simp: probe_distance_def)

lemma distance_inj: "h < n \<Longrightarrow> i < n \<Longrightarrow> j < n \<Longrightarrow> probe_distance h i n = probe_distance h j n \<Longrightarrow> i = j"
  by (metis index_distance)

section \<open>Invariant and abstraction\<close>

definition live :: "fixed_map_slot \<Rightarrow> bool" where
  "live s \<longleftrightarrow> slot_value s \<noteq> EMPTY_VALUE \<and> slot_value s \<noteq> DELETED_VALUE"

definition home :: "fixed_map \<Rightarrow> nat \<Rightarrow> nat" where
  "home slots i = fixed_map_fingerprint_start (slot_fingerprint (slots ! i)) (length slots)"

definition dist :: "fixed_map \<Rightarrow> nat \<Rightarrow> nat \<Rightarrow> nat" where
  "dist slots h i = probe_distance h i (length slots)"

text \<open>
  Every live slot lies within the probe window of its home and no slot before it on its probe
  path is Empty; no fingerprint occurs twice.
\<close>

definition reachable_slot :: "fixed_map \<Rightarrow> nat \<Rightarrow> bool" where
  "reachable_slot slots i \<longleftrightarrow>
     dist slots (home slots i) i < probe_limit slots
     \<and> (\<forall>j < length slots. dist slots (home slots i) j < dist slots (home slots i) i
          \<longrightarrow> slot_value (slots ! j) \<noteq> EMPTY_VALUE)"

definition map_wf :: "fixed_map \<Rightarrow> bool" where
  "map_wf slots \<longleftrightarrow>
     (\<forall>i < length slots. live (slots ! i) \<longrightarrow> reachable_slot slots i)
     \<and> (\<forall>i < length slots. \<forall>j < length slots. live (slots ! i) \<longrightarrow> live (slots ! j) \<longrightarrow>
          slot_fingerprint (slots ! i) = slot_fingerprint (slots ! j) \<longrightarrow> i = j)"

definition directory :: "fixed_map \<Rightarrow> u32 \<rightharpoonup> u32" where
  "directory slots fp = map_option slot_value (find (\<lambda>s. live s \<and> slot_fingerprint s = fp) slots)"

lemma directory_None:
  "directory slots fp = None \<longleftrightarrow> (\<forall>i < length slots. live (slots ! i) \<longrightarrow> slot_fingerprint (slots ! i) \<noteq> fp)"
  by (auto simp: directory_def find_None_iff in_set_conv_nth)

lemma directory_at:
  assumes "map_wf slots" "i < length slots" "live (slots ! i)"
  shows "directory slots (slot_fingerprint (slots ! i)) = Some (slot_value (slots ! i))"
proof -
  let ?P = "\<lambda>s. live s \<and> slot_fingerprint s = slot_fingerprint (slots ! i)"
  obtain s where s: "find ?P slots = Some s"
    using assms(2,3) find_None_iff [of ?P slots] by (cases "find ?P slots") auto
  then obtain j where "j < length slots" "s = slots ! j" "?P s" by (auto simp: find_Some_iff)
  with assms have "j = i" by (auto simp: map_wf_def)
  with s \<open>s = slots ! j\<close> show ?thesis by (simp add: directory_def)
qed

text \<open>
  Two tables with the same live entries, wherever they are, stand for the same directory; this is
  how moving entries is justified.
\<close>

definition entries :: "fixed_map \<Rightarrow> (u32 \<times> u32) set" where
  "entries slots = {(slot_fingerprint s, slot_value s) |s. s \<in> set slots \<and> live s}"

lemma entries_nth:
  "entries slots = {(slot_fingerprint (slots ! i), slot_value (slots ! i)) |i. i < length slots \<and> live (slots ! i)}"
  by (auto simp: entries_def in_set_conv_nth)

lemma directory_entries:
  assumes "map_wf slots" shows "directory slots fp = Some v \<longleftrightarrow> (fp, v) \<in> entries slots"
proof
  assume "directory slots fp = Some v"
  then show "(fp, v) \<in> entries slots"
    by (auto simp: directory_def entries_def find_Some_iff)
next
  assume "(fp, v) \<in> entries slots"
  then show "directory slots fp = Some v" using directory_at [OF assms] by (auto simp: entries_nth)
qed

lemma directory_eqI:
  assumes "map_wf slots" "map_wf slots'" "entries slots' = entries slots"
  shows "directory slots' = directory slots"
proof
  fix fp
  show "directory slots' fp = directory slots fp"
    using directory_entries [OF assms(1)] directory_entries [OF assms(2)] assms(3)
    by (cases "directory slots fp"; cases "directory slots' fp") (metis option.distinct(1) option.inject)+
qed

section \<open>Lookup\<close>

definition stops :: "fixed_map \<Rightarrow> u32 \<Rightarrow> nat \<Rightarrow> nat \<Rightarrow> bool" where
  "stops slots fp start step \<longleftrightarrow>
     (let s = slots ! probe_index start step (length slots) in
      slot_value s = EMPTY_VALUE \<or> live s \<and> slot_fingerprint s = fp)"

lemma get_loop_find:
  "get_loop slots fp start steps =
     (case find (stops slots fp start) steps of
        None \<Rightarrow> None
      | Some step \<Rightarrow> let s = slots ! probe_index start step (length slots) in
          if slot_value s = EMPTY_VALUE then None else Some (slot_value s))"
  by (induction steps) (auto simp: stops_def live_def Let_def)

lemma find_upt_Some:
  "find P [0..<n] = Some k \<longleftrightarrow> k < n \<and> P k \<and> (\<forall>j < k. \<not> P j)"
  by (auto simp: find_Some_iff)

lemma find_upt_None: "find P [0..<n] = None \<longleftrightarrow> (\<forall>j < n. \<not> P j)"
  by (auto simp: find_None_iff)

text \<open>An entry is met by its own probe sequence before any Empty slot.\<close>

lemma entry_found:
  assumes wf: "map_wf slots" and i: "i < length slots" "live (slots ! i)" "slot_fingerprint (slots ! i) = fp"
    and h: "h = fixed_map_fingerprint_start fp (length slots)"
  shows "find (stops slots fp h) [0..<probe_limit slots] = Some (probe_distance h i (length slots))"
proof -
  let ?n = "length slots" and ?d = "probe_distance h i (length slots)"
  have n: "0 < ?n" using i(1) by linarith
  have hn: "h < ?n" using start_less [OF n] h by simp
  have hm: "home slots i = h" using i(3) h by (simp add: home_def)
  have r: "reachable_slot slots i" using wf i by (simp add: map_wf_def)
  have d: "?d < probe_limit slots" using r by (simp add: reachable_slot_def hm dist_def)
  have lim: "probe_limit slots \<le> ?n" by (simp add: probe_limit_def)
  show ?thesis
    unfolding find_upt_Some
  proof (intro conjI allI impI)
    show "?d < probe_limit slots" by (rule d)
    show "stops slots fp h ?d" using i hn by (simp add: stops_def index_distance)
    fix j assume j: "j < ?d"
    let ?p = "probe_index h j ?n"
    have jn: "j < ?n" using j d lim by linarith
    have p: "?p < ?n" "probe_distance h ?p ?n = j" using hn jn probe_index_less distance_index by simp_all
    then have "slot_value (slots ! ?p) \<noteq> EMPTY_VALUE" using r j by (simp add: reachable_slot_def hm dist_def)
    moreover have "\<not> (live (slots ! ?p) \<and> slot_fingerprint (slots ! ?p) = fp)"
    proof
      assume "live (slots ! ?p) \<and> slot_fingerprint (slots ! ?p) = fp"
      then have "?p = i" using wf i p(1) by (auto simp: map_wf_def)
      with p(2) j show False by simp
    qed
    ultimately show "\<not> stops slots fp h j" by (simp add: stops_def Let_def)
  qed
qed

lemma get_correct:
  assumes wf: "map_wf slots" shows "fixed_map_get slots hash = directory slots (fixed_map_fingerprint hash)"
proof (cases "slots = []")
  case False
  let ?fp = "fixed_map_fingerprint hash"
  let ?h = "fixed_map_fingerprint_start ?fp (length slots)"
  have get: "fixed_map_get slots hash = get_loop slots ?fp ?h [0..<probe_limit slots]"
    using False by (simp add: fixed_map_get_def fixed_map_start_def)
  have hn: "?h < length slots" using False start_less by simp
  show ?thesis
  proof (cases "directory slots ?fp")
    case None
    have "get_loop slots ?fp ?h [0..<probe_limit slots] = None"
    proof (cases "find (stops slots ?fp ?h) [0..<probe_limit slots]")
      case (Some step)
      then have "stops slots ?fp ?h step" "step < length slots"
        by (auto simp: find_upt_Some probe_limit_def)
      with None probe_index_less [OF hn] show ?thesis
        by (auto simp: get_loop_find Some stops_def directory_None Let_def)
    qed (simp add: get_loop_find)
    with get None show ?thesis by simp
  next
    case (Some v)
    then obtain i where i: "i < length slots" "live (slots ! i)" "slot_fingerprint (slots ! i) = ?fp"
      "slot_value (slots ! i) = v"
      using directory_entries [OF wf] by (auto simp: entries_nth)
    have "get_loop slots ?fp ?h [0..<probe_limit slots] = Some v"
      using entry_found [OF wf i(1,2,3) refl] i hn
      by (simp add: get_loop_find index_distance Let_def live_def)
    with get Some show ?thesis by simp
  qed
qed (simp add: fixed_map_get_def directory_def)

section \<open>Insertion\<close>

text \<open>What the upsert scan has established when it returns an index.\<close>

definition upsert_result :: "fixed_map \<Rightarrow> u32 \<Rightarrow> nat \<Rightarrow> nat \<Rightarrow> nat \<times> u32 option \<Rightarrow> bool" where
  "upsert_result slots fp start lim r \<longleftrightarrow>
     (\<exists>step < lim. fst r = probe_index start step (length slots) \<and> (\<forall>j < step. \<not> stops slots fp start j))
     \<and> (case snd r of
          Some v \<Rightarrow> live (slots ! fst r) \<and> slot_fingerprint (slots ! fst r) = fp \<and> slot_value (slots ! fst r) = v
        | None \<Rightarrow> \<not> live (slots ! fst r)
            \<and> (\<forall>step < lim. (\<forall>j < step. \<not> stops slots fp start j) \<longrightarrow>
                 \<not> (live (slots ! probe_index start step (length slots))
                    \<and> slot_fingerprint (slots ! probe_index start step (length slots)) = fp)))"

lemma stops_hit:
  "live (slots ! probe_index start j (length slots)) \<and> slot_fingerprint (slots ! probe_index start j (length slots)) = fp
   \<Longrightarrow> stops slots fp start j"
  by (simp add: stops_def Let_def)

lemma upsert_result_None:
  assumes "s < lim" "i = probe_index start s (length slots)" "\<And>j. j < s \<Longrightarrow> \<not> stops slots fp start j"
    and "\<not> live (slots ! i)"
    and "\<And>step. step < lim \<Longrightarrow> \<forall>j < step. \<not> stops slots fp start j \<Longrightarrow>
          \<not> (live (slots ! probe_index start step (length slots))
             \<and> slot_fingerprint (slots ! probe_index start step (length slots)) = fp)"
  shows "upsert_result slots fp start lim (i, None)"
  using assms unfolding upsert_result_def by auto

lemma upsert_loop_ok:
  assumes "upsert_loop slots fp start deleted [k..<lim] = Some r" "k \<le> lim"
    and "\<And>j. j < k \<Longrightarrow> \<not> stops slots fp start j"
    and "\<And>d. deleted = Some d \<Longrightarrow> \<exists>s < k. d = probe_index start s (length slots) \<and> slot_value (slots ! d) = DELETED_VALUE"
  shows "upsert_result slots fp start lim r"
  using assms
proof (induction "lim - k" arbitrary: k deleted)
  case 0
  then obtain d where d: "deleted = Some d" "r = (d, None)" by auto
  with 0 obtain s where "s < k" "d = probe_index start s (length slots)" "slot_value (slots ! d) = DELETED_VALUE" by blast
  moreover have "k = lim" using 0 by simp
  ultimately show ?case
    unfolding d(2) using 0(4) stops_hit by (intro upsert_result_None [of s]) (auto simp: live_def)
next
  case (Suc m)
  let ?i = "probe_index start k (length slots)"
  let ?s = "slots ! ?i"
  have upt: "[k..<lim] = k # [Suc k..<lim]" using Suc.hyps(2) by (simp add: upt_conv_Cons)
  have m: "m = lim - Suc k" "Suc k \<le> lim" using Suc.hyps(2) by auto
  note run = Suc.prems(1) [unfolded upt upsert_loop.simps Let_def]
  consider (empty) "slot_value ?s = EMPTY_VALUE" | (deleted) "slot_value ?s = DELETED_VALUE" "slot_value ?s \<noteq> EMPTY_VALUE"
    | (hit) "live ?s" "slot_fingerprint ?s = fp" | (other) "live ?s" "slot_fingerprint ?s \<noteq> fp"
    unfolding live_def by metis
  then show ?case
  proof cases
    case empty
    have no: "\<not> (live (slots ! probe_index start step (length slots))
        \<and> slot_fingerprint (slots ! probe_index start step (length slots)) = fp)"
      if "\<forall>j < step. \<not> stops slots fp start j" for step
    proof (cases step k rule: linorder_cases)
      case less
      then show ?thesis using Suc.prems(3) by (auto simp: stops_def Let_def)
    next
      case greater
      then show ?thesis using that empty by (auto simp: stops_def Let_def)
    qed (use empty in \<open>simp add: live_def\<close>)
    show ?thesis
    proof (cases deleted)
      case None
      then have "r = (?i, None)" using run empty by simp
      moreover have "upsert_result slots fp start lim (?i, None)"
        by (rule upsert_result_None [of k, OF _ refl Suc.prems(3) _ no]) (use m empty in \<open>simp_all add: live_def\<close>)
      ultimately show ?thesis by simp
    next
      case (Some d)
      then obtain s where s: "s < k" "d = probe_index start s (length slots)" "slot_value (slots ! d) = DELETED_VALUE"
        using Suc.prems(4) by blast
      have "upsert_result slots fp start lim (d, None)"
        by (rule upsert_result_None [OF _ s(2) _ _ no]) (use m s Suc.prems(3) in \<open>simp_all add: live_def\<close>)
      moreover have "r = (d, None)" using run empty Some by simp
      ultimately show ?thesis by simp
    qed
  next
    case deleted
    let ?del = "case deleted of Some d \<Rightarrow> Some d | None \<Rightarrow> Some ?i"
    have "\<not> stops slots fp start k" using deleted by (simp add: stops_def live_def Let_def)
    then have pre: "\<not> stops slots fp start j" if "j < Suc k" for j using that Suc.prems(3) less_Suc_eq by metis
    show ?thesis
    proof (rule Suc.hyps(1) [OF m(1) _ m(2) pre])
      show "upsert_loop slots fp start ?del [Suc k..<lim] = Some r" using run deleted by simp
      fix d assume "?del = Some d"
      then show "\<exists>s < Suc k. d = probe_index start s (length slots) \<and> slot_value (slots ! d) = DELETED_VALUE"
        using Suc.prems(4) deleted(1) by (auto split: option.splits intro: exI [of _ k]) (metis less_SucI)
    qed
  next
    case hit
    then have "r = (?i, Some (slot_value ?s))" using run by (simp add: live_def)
    then show ?thesis using hit m Suc.prems(3) by (auto simp: upsert_result_def intro: exI [of _ k])
  next
    case other
    have "\<not> stops slots fp start k" using other by (simp add: stops_def live_def Let_def)
    then have pre: "\<not> stops slots fp start j" if "j < Suc k" for j using that Suc.prems(3) less_Suc_eq by metis
    show ?thesis
    proof (rule Suc.hyps(1) [OF m(1) _ m(2) pre, of deleted])
      show "upsert_loop slots fp start deleted [Suc k..<lim] = Some r" using run other by (simp add: live_def)
      fix d assume "deleted = Some d"
      then show "\<exists>s < Suc k. d = probe_index start s (length slots) \<and> slot_value (slots ! d) = DELETED_VALUE"
        using Suc.prems(4) less_SucI by metis
    qed
  qed
qed


lemma upsert_prev:
  assumes wf: "map_wf slots" and ne: "slots \<noteq> []" and up: "find_upsert_slot slots hash = Some (i, prev)"
  defines "fp \<equiv> fixed_map_fingerprint hash"
  shows "i < length slots" "prev = directory slots fp"
    and "probe_distance (fixed_map_fingerprint_start fp (length slots)) i (length slots) < probe_limit slots"
    and "\<And>j. j < length slots \<Longrightarrow>
      probe_distance (fixed_map_fingerprint_start fp (length slots)) j (length slots)
      < probe_distance (fixed_map_fingerprint_start fp (length slots)) i (length slots) \<Longrightarrow>
      slot_value (slots ! j) \<noteq> EMPTY_VALUE"
    and "prev = None \<Longrightarrow> \<not> live (slots ! i)"
    and "prev \<noteq> None \<Longrightarrow> live (slots ! i) \<and> slot_fingerprint (slots ! i) = fp"
proof -
  let ?n = "length slots" and ?h = "fixed_map_fingerprint_start fp (length slots)" and ?lim = "probe_limit slots"
  have n: "0 < ?n" using ne by simp
  have hn: "?h < ?n" by (rule start_less [OF n])
  have "upsert_loop slots fp ?h None [0..<?lim] = Some (i, prev)"
    using up ne by (simp add: find_upsert_slot_def fixed_map_start_def fp_def)
  then have r: "upsert_result slots fp ?h ?lim (i, prev)" by (rule upsert_loop_ok) simp_all
  then obtain step where st: "step < ?lim" "i = probe_index ?h step ?n" "\<forall>j < step. \<not> stops slots fp ?h j"
    by (auto simp: upsert_result_def)
  have sn: "step < ?n" using st(1) by (simp add: probe_limit_def)
  show i: "i < ?n" using st(2) probe_index_less [OF hn sn] by simp
  have d: "probe_distance ?h i ?n = step" using st(2) distance_index [OF hn sn] by simp
  then show "probe_distance ?h i ?n < ?lim" using st(1) by simp
  show "slot_value (slots ! j) \<noteq> EMPTY_VALUE" if j: "j < ?n" "probe_distance ?h j ?n < probe_distance ?h i ?n" for j
  proof -
    have "\<not> stops slots fp ?h (probe_distance ?h j ?n)" using st(3) j(2) d by simp
    then show ?thesis using index_distance [OF hn j(1)] by (simp add: stops_def Let_def)
  qed
  show "prev = None \<Longrightarrow> \<not> live (slots ! i)" using r by (simp add: upsert_result_def)
  show hit: "prev \<noteq> None \<Longrightarrow> live (slots ! i) \<and> slot_fingerprint (slots ! i) = fp"
    using r by (auto simp: upsert_result_def)
  show "prev = directory slots fp"
  proof (cases prev)
    case None
    have "directory slots fp = None"
    proof (rule ccontr)
      assume "directory slots fp \<noteq> None"
      then obtain k where k: "k < ?n" "live (slots ! k)" "slot_fingerprint (slots ! k) = fp"
        by (auto simp: directory_None)
      from entry_found [OF wf k refl]
      have "probe_distance ?h k ?n < ?lim" "\<forall>j < probe_distance ?h k ?n. \<not> stops slots fp ?h j"
        by (simp_all add: find_upt_Some)
      with r None k hn show False by (auto simp: upsert_result_def index_distance)
    qed
    with None show ?thesis by simp
  next
    case (Some v)
    with r have "slot_value (slots ! i) = v" by (simp add: upsert_result_def)
    with hit Some directory_at [OF wf i] show ?thesis by auto
  qed
qed

text \<open>Storing a live slot where its probe sequence reaches it keeps the table well-formed.\<close>

lemma store_wf:
  assumes wf: "map_wf slots" and i: "i < length slots" and x: "live x"
    and reach: "probe_distance (fixed_map_fingerprint_start (slot_fingerprint x) (length slots)) i (length slots) < probe_limit slots"
      "\<And>j. j < length slots \<Longrightarrow>
        probe_distance (fixed_map_fingerprint_start (slot_fingerprint x) (length slots)) j (length slots)
        < probe_distance (fixed_map_fingerprint_start (slot_fingerprint x) (length slots)) i (length slots) \<Longrightarrow>
        slot_value (slots ! j) \<noteq> EMPTY_VALUE"
    and uniq: "\<And>j. j < length slots \<Longrightarrow> j \<noteq> i \<Longrightarrow> live (slots ! j) \<Longrightarrow> slot_fingerprint (slots ! j) \<noteq> slot_fingerprint x"
  shows "map_wf (slots[i := x])"
proof -
  let ?s = "slots[i := x]"
  have lim: "probe_limit ?s = probe_limit slots" by (simp add: probe_limit_def)
  have ne: "slot_value (?s ! j) \<noteq> EMPTY_VALUE" if "slot_value (slots ! j) \<noteq> EMPTY_VALUE" for j
    using that x i by (cases "i = j") (simp_all add: live_def)
  have "reachable_slot ?s k" if k: "k < length slots" "live (?s ! k)" for k
  proof (cases "k = i")
    case True
    then show ?thesis using reach i ne by (simp add: reachable_slot_def home_def dist_def lim)
  next
    case False
    then have "reachable_slot slots k" using wf k by (simp add: map_wf_def)
    with False k ne show ?thesis by (simp add: reachable_slot_def home_def dist_def lim)
  qed
  moreover have "j = k" if "j < length slots" "k < length slots" "live (?s ! j)" "live (?s ! k)"
    "slot_fingerprint (?s ! j) = slot_fingerprint (?s ! k)" for j k
    using that uniq wf i by (cases "j = i"; cases "k = i") (auto simp: map_wf_def)
  ultimately show ?thesis by (auto simp: map_wf_def)
qed

lemma directory_cong:
  assumes "map_wf s" "map_wf t" "\<And>w. (f, w) \<in> entries s \<longleftrightarrow> (f, w) \<in> entries t"
  shows "directory s f = directory t f"
  using directory_entries [OF assms(1)] directory_entries [OF assms(2)] assms(3)
  by (cases "directory s f"; cases "directory t f") (metis option.distinct(1) option.inject)+

lemma directory_store:
  assumes wf: "map_wf slots" and wf': "map_wf (slots[i := x])" and i: "i < length slots" and x: "live x"
    and old: "live (slots ! i) \<Longrightarrow> slot_fingerprint (slots ! i) = slot_fingerprint x"
  shows "directory (slots[i := x]) = (directory slots)(slot_fingerprint x \<mapsto> slot_value x)"
proof
  fix f
  show "directory (slots[i := x]) f = ((directory slots)(slot_fingerprint x \<mapsto> slot_value x)) f"
  proof (cases "f = slot_fingerprint x")
    case True
    then show ?thesis using directory_at [OF wf', of i] i x by simp
  next
    case False
    have "(f, w) \<in> entries (slots[i := x]) \<longleftrightarrow> (f, w) \<in> entries slots" for w
      using False x i old by (auto simp: entries_nth nth_list_update) (metis+)
    then show ?thesis using False directory_cong [OF wf' wf] by simp
  qed
qed

lemma insert_correct:
  assumes wf: "map_wf slots" and v: "v < DELETED_VALUE"
    and ins: "fixed_map_insert hash v slots = (Some prev, slots')"
  defines "fp \<equiv> fixed_map_fingerprint hash"
  shows "map_wf slots'" "prev = directory slots fp" "directory slots' = (directory slots)(fp \<mapsto> v)"
    "length slots' = length slots"
proof -
  obtain i where up: "find_upsert_slot slots hash = Some (i, prev)"
    and s': "slots' = slots[i := \<lparr>slot_fingerprint = fp, slot_value = v\<rparr>]"
    using ins by (auto simp: fixed_map_insert_def fp_def split: option.splits)
  have ne: "slots \<noteq> []" using up by (auto simp: find_upsert_slot_def)
  note u = upsert_prev [OF wf ne up, folded fp_def]
  let ?x = "\<lparr>slot_fingerprint = fp, slot_value = v\<rparr>"
  have "v \<noteq> EMPTY_VALUE" "v \<noteq> DELETED_VALUE"
    using v by (auto simp: EMPTY_VALUE_def DELETED_VALUE_def)
  then have x: "live ?x" by (simp add: live_def)
  show "prev = directory slots fp" by (rule u(2))
  show len: "length slots' = length slots" by (simp add: s')
  have uniq: "slot_fingerprint (slots ! j) \<noteq> fp" if "j < length slots" "j \<noteq> i" "live (slots ! j)" for j
  proof
    assume fpj: "slot_fingerprint (slots ! j) = fp"
    with that(1,3) have "directory slots fp \<noteq> None" by (auto simp: directory_None)
    with u(2,6) have "live (slots ! i) \<and> slot_fingerprint (slots ! i) = fp" by simp
    with wf that u(1) fpj show False by (auto simp: map_wf_def)
  qed
  show wf': "map_wf slots'"
    unfolding s' by (rule store_wf [OF wf u(1) x]) (use u(3,4) uniq in simp_all)
  have "live (slots ! i) \<Longrightarrow> slot_fingerprint (slots ! i) = slot_fingerprint ?x" using u(5,6) by auto
  from directory_store [OF wf wf' [unfolded s'] u(1) x this]
  show "directory slots' = (directory slots)(fp \<mapsto> v)" by (simp add: s')
qed

section \<open>Deletion\<close>

lemma delete_wf:
  assumes wf: "map_wf slots" and i: "i < length slots" and x: "slot_value x = DELETED_VALUE"
  shows "map_wf (slots[i := x])"
proof -
  let ?s = "slots[i := x]"
  have x': "\<not> live x" "slot_value x \<noteq> EMPTY_VALUE" using x by (simp_all add: live_def EMPTY_VALUE_def DELETED_VALUE_def)
  have ne: "slot_value (slots ! j) \<noteq> EMPTY_VALUE \<Longrightarrow> slot_value (?s ! j) \<noteq> EMPTY_VALUE" for j
    using x'(2) i by (cases "i = j") simp_all
  have at: "live (?s ! k) \<Longrightarrow> k < length slots \<Longrightarrow> ?s ! k = slots ! k \<and> live (slots ! k)" for k
    using x'(1) by (cases "i = k") simp_all
  have lim: "probe_limit ?s = probe_limit slots" by (simp add: probe_limit_def)
  have "reachable_slot ?s k" if "k < length slots" "live (?s ! k)" for k
    using at [OF that(2,1)] that(1) wf ne by (simp add: reachable_slot_def home_def dist_def lim map_wf_def)
  then show ?thesis using at wf by (auto simp: map_wf_def)
qed

lemma directory_delete:
  assumes wf: "map_wf slots" and i: "i < length slots" and l: "live (slots ! i)"
    and x: "slot_value x = DELETED_VALUE"
  shows "directory (slots[i := x]) = (directory slots)(slot_fingerprint (slots ! i) := None)"
proof
  fix f
  have x': "\<not> live x" using x by (simp add: live_def)
  have uniq: "live (slots ! j) \<Longrightarrow> slot_fingerprint (slots ! j) = slot_fingerprint (slots ! i) \<Longrightarrow>
      j < length slots \<Longrightarrow> j = i" for j
    using wf i l by (auto simp: map_wf_def)
  show "directory (slots[i := x]) f = ((directory slots)(slot_fingerprint (slots ! i) := None)) f"
  proof (cases "f = slot_fingerprint (slots ! i)")
    case True
    have "directory (slots[i := x]) f = None"
      unfolding directory_None
    proof (intro allI impI)
      fix j assume "j < length (slots[i := x])" "live (slots[i := x] ! j)"
      then show "slot_fingerprint (slots[i := x] ! j) \<noteq> f" using x' uniq True by (cases "j = i") auto
    qed
    with True show ?thesis by simp
  next
    case False
    have "(f, w) \<in> entries (slots[i := x]) \<longleftrightarrow> (f, w) \<in> entries slots" for w
      using False x' i by (auto simp: entries_nth nth_list_update)
    then show ?thesis using False directory_cong [OF delete_wf [OF wf i x] wf] by simp
  qed
qed

lemma distance_diff:
  assumes "h < n" "a < n" "b < n" "probe_distance h a n \<le> probe_distance h b n"
  shows "probe_distance a b n = probe_distance h b n - probe_distance h a n"
  using assms by (auto simp: probe_distance_def split: if_splits)

lemma distance_next:
  assumes "h < n" "a < n"
  shows "probe_distance h (next_probe_index a n) n =
    (if probe_distance h a n + 1 < n then probe_distance h a n + 1 else 0)"
  using assms by (auto simp: probe_distance_def next_probe_index_def split: if_splits)

lemma next_less: "a < n \<Longrightarrow> next_probe_index a n < n"
  by (auto simp: next_probe_index_def)

text \<open>
  The cluster behind a deletion hole, up to the cursor, holds no Empty slot and no live slot that
  would be allowed to move into the hole.
\<close>

definition scanned :: "fixed_map \<Rightarrow> nat \<Rightarrow> nat \<Rightarrow> bool" where
  "scanned slots hole cursor \<longleftrightarrow>
     (\<forall>p < length slots. 0 < dist slots hole p \<longrightarrow> dist slots hole p < dist slots hole cursor \<longrightarrow>
        live (slots ! p) \<longrightarrow> \<not> dist slots (home slots p) hole < dist slots (home slots p) p)"

lemma hole_removed_wf:
  assumes wf: "map_wf slots" and hole: "hole < length slots" "slot_value (slots ! hole) = DELETED_VALUE"
    and cur: "cursor < length slots" "slot_value (slots ! cursor) = EMPTY_VALUE"
    and sc: "scanned slots hole cursor"
  shows "map_wf (slots[hole := default_slot])" "directory (slots[hole := default_slot]) = directory slots"
proof -
  let ?n = "length slots" and ?s = "slots[hole := default_slot]"
  have dead: "\<not> live default_slot" "\<not> live (slots ! hole)" using hole(2) by (simp_all add: live_def default_slot_def)
  have at: "live (?s ! k) \<Longrightarrow> k < ?n \<Longrightarrow> k \<noteq> hole \<and> ?s ! k = slots ! k \<and> live (slots ! k)" for k
    using dead(1) by (cases "hole = k") simp_all
  have lim: "probe_limit ?s = probe_limit slots" by (simp add: probe_limit_def)
  have "reachable_slot ?s k" if k: "k < ?n" "live (?s ! k)" for k
  proof -
    let ?h = "home slots k"
    have lk: "k \<noteq> hole" "live (slots ! k)" using at k by auto
    have hn: "?h < ?n" using start_less k(1) by (cases ?n) (simp_all add: home_def)
    have r: "reachable_slot slots k" using wf k lk by (simp add: map_wf_def)
    have off: "\<not> dist slots ?h hole < dist slots ?h k"
    proof
      assume before: "dist slots ?h hole < dist slots ?h k"
      have "\<not> dist slots ?h cursor < dist slots ?h k" using r cur by (auto simp: reachable_slot_def)
      moreover have "k \<noteq> cursor" using lk(2) cur(2) by (auto simp: live_def)
      ultimately have after: "dist slots ?h k < dist slots ?h cursor"
        using distance_inj [OF hn k(1) cur(1)] unfolding dist_def by (meson linorder_neqE_nat)
      have "dist slots hole k = dist slots ?h k - dist slots ?h hole"
        "dist slots hole cursor = dist slots ?h cursor - dist slots ?h hole"
        using before after distance_diff [OF hn hole(1)] k(1) cur(1) by (simp_all add: dist_def)
      then have "0 < dist slots hole k" "dist slots hole k < dist slots hole cursor"
        using before after by simp_all
      then show False using sc before lk(2) k(1) unfolding scanned_def by blast
    qed
    show ?thesis
      using r off k(1) lk(1) hole(1)
      by (auto simp: reachable_slot_def home_def dist_def lim nth_list_update)
  qed
  then show wf': "map_wf ?s" using at wf by (auto simp: map_wf_def)
  have "entries ?s = entries slots"
    using dead hole(1) by (auto simp: entries_nth nth_list_update)
  then show "directory ?s = directory slots" by (rule directory_eqI [OF wf wf'])
qed


text \<open>Moving an entry back into a hole on its own probe path changes nothing of the directory.\<close>

lemma move_into_hole:
  assumes wf: "map_wf slots" and hole: "hole < length slots" "slot_value (slots ! hole) = DELETED_VALUE"
    and cur: "cursor < length slots" "live (slots ! cursor)"
    and nearer: "dist slots (home slots cursor) hole < dist slots (home slots cursor) cursor"
  defines "s' \<equiv> slots[hole := slots ! cursor, cursor := (slots ! cursor)\<lparr>slot_value := DELETED_VALUE\<rparr>]"
  shows "map_wf s'" "directory s' = directory slots"
proof -
  let ?c = "slots ! cursor" and ?s1 = "slots[cursor := (slots ! cursor)\<lparr>slot_value := DELETED_VALUE\<rparr>]"
  have ne: "hole \<noteq> cursor" using nearer by auto
  have s': "s' = ?s1[hole := ?c]" unfolding s'_def using ne by (rule list_update_swap)
  have wf1: "map_wf ?s1" by (rule delete_wf [OF wf cur(1)]) simp
  have d1: "directory ?s1 = (directory slots)(slot_fingerprint ?c := None)"
    by (rule directory_delete [OF wf cur]) simp
  have r: "reachable_slot slots cursor" using wf cur by (simp add: map_wf_def)
  have lim: "probe_limit ?s1 = probe_limit slots" by (simp add: probe_limit_def)
  have full: "slot_value (slots ! j) \<noteq> EMPTY_VALUE \<Longrightarrow> slot_value (?s1 ! j) \<noteq> EMPTY_VALUE" for j
    using cur(1) by (cases "j = cursor") (simp_all add: EMPTY_VALUE_def DELETED_VALUE_def)
  have gone: "slot_fingerprint (?s1 ! j) \<noteq> slot_fingerprint ?c" if "j < length ?s1" "live (?s1 ! j)" for j
    using d1 that directory_None [of ?s1 "slot_fingerprint ?c"] by simp
  show wf': "map_wf s'" unfolding s'
  proof (rule store_wf [OF wf1 _ cur(2)])
    show "probe_distance (fixed_map_fingerprint_start (slot_fingerprint ?c) (length ?s1)) hole (length ?s1) < probe_limit ?s1"
      using r nearer by (simp add: lim reachable_slot_def home_def dist_def)
  next
    fix j assume "j < length ?s1"
      "probe_distance (fixed_map_fingerprint_start (slot_fingerprint ?c) (length ?s1)) j (length ?s1)
       < probe_distance (fixed_map_fingerprint_start (slot_fingerprint ?c) (length ?s1)) hole (length ?s1)"
    with r nearer have "slot_value (slots ! j) \<noteq> EMPTY_VALUE" by (simp add: reachable_slot_def home_def dist_def)
    then show "slot_value (?s1 ! j) \<noteq> EMPTY_VALUE" by (rule full)
  qed (use hole(1) gone in simp_all)
  have "\<not> live (?s1 ! hole)" using hole(2) ne by (simp add: live_def)
  then have "directory s' = (directory ?s1)(slot_fingerprint ?c \<mapsto> slot_value ?c)"
    unfolding s' by (intro directory_store [OF wf1 wf' [unfolded s'] _ cur(2)]) (use hole(1) in simp_all)
  then show "directory s' = directory slots" using d1 directory_at [OF wf cur] by (simp add: fun_upd_idem)
qed

lemma scanned_next:
  assumes "scanned slots hole cursor" "hole < length slots" "cursor < length slots"
    and "dist slots hole cursor + 1 < length slots"
    and "live (slots ! cursor) \<Longrightarrow> \<not> dist slots (home slots cursor) hole < dist slots (home slots cursor) cursor"
  shows "scanned slots hole (next_probe_index cursor (length slots))"
  unfolding scanned_def
proof (intro allI impI)
  fix p assume p: "p < length slots" "0 < dist slots hole p"
    "dist slots hole p < dist slots hole (next_probe_index cursor (length slots))" "live (slots ! p)"
  then have "dist slots hole p \<le> dist slots hole cursor"
    using assms(2-4) by (simp add: dist_def distance_next)
  then consider "dist slots hole p < dist slots hole cursor" | "p = cursor"
    using distance_inj [OF assms(2) p(1) assms(3)] by (auto simp: dist_def le_less)
  then show "\<not> dist slots (home slots p) hole < dist slots (home slots p) p"
    by cases (use assms(1,5) p in \<open>auto simp: scanned_def\<close>)
qed

lemma compact_loop_ok:
  assumes "map_wf slots" "hole < length slots" "slot_value (slots ! hole) = DELETED_VALUE" "cursor < length slots"
    and "0 < budget \<Longrightarrow> scanned slots hole cursor \<and> 0 < dist slots hole cursor
           \<and> dist slots hole cursor + budget \<le> length slots"
  shows "map_wf (compact_loop budget hole cursor slots)
    \<and> directory (compact_loop budget hole cursor slots) = directory slots
    \<and> length (compact_loop budget hole cursor slots) = length slots"
  using assms
proof (induction budget arbitrary: hole cursor slots)
  case 0
  then show ?case by simp
next
  case (Suc b)
  let ?n = "length slots" and ?c = "slots ! cursor"
  from Suc.prems(5) have sc: "scanned slots hole cursor" "0 < dist slots hole cursor" "dist slots hole cursor + Suc b \<le> ?n"
    by simp_all
  have nx: "next_probe_index cursor ?n < ?n" using Suc.prems(4) by (rule next_less)
  consider (stop) "slot_value ?c = EMPTY_VALUE"
    | (move) "live ?c" "dist slots (home slots cursor) hole < dist slots (home slots cursor) cursor"
    | (skip) "slot_value ?c \<noteq> EMPTY_VALUE"
        "live ?c \<Longrightarrow> \<not> dist slots (home slots cursor) hole < dist slots (home slots cursor) cursor"
    by (auto simp: live_def)
  then show ?case
  proof cases
    case stop
    then show ?thesis using hole_removed_wf [OF Suc.prems(1-3) Suc.prems(4) stop sc(1)] by (simp add: Let_def)
  next
    case move
    let ?s = "slots[hole := ?c, cursor := ?c\<lparr>slot_value := DELETED_VALUE\<rparr>]"
    note m = move_into_hole [OF Suc.prems(1-4) move]
    have one: "dist ?s cursor (next_probe_index cursor ?n) = 1"
      using Suc.prems(2,4) sc(2,3) distance_less [of hole ?n cursor]
      by (auto simp: dist_def probe_distance_def next_probe_index_def split: if_splits)
    have "map_wf (compact_loop b cursor (next_probe_index cursor ?n) ?s)
      \<and> directory (compact_loop b cursor (next_probe_index cursor ?n) ?s) = directory ?s
      \<and> length (compact_loop b cursor (next_probe_index cursor ?n) ?s) = length ?s"
      by (rule Suc.IH) (use m(1) Suc.prems(4) nx one sc(2,3) in \<open>simp_all add: scanned_def\<close>)
    then show ?thesis using m(2) move by (simp add: Let_def live_def home_def dist_def)
  next
    case skip
    have "map_wf (compact_loop b hole (next_probe_index cursor ?n) slots)
      \<and> directory (compact_loop b hole (next_probe_index cursor ?n) slots) = directory slots
      \<and> length (compact_loop b hole (next_probe_index cursor ?n) slots) = length slots"
    proof (rule Suc.IH [OF Suc.prems(1-3) nx])
      assume "0 < b"
      then have d: "dist slots hole cursor + 1 < ?n" using sc(3) by simp
      have "scanned slots hole (next_probe_index cursor ?n)"
        using skip(2) by (rule scanned_next [OF sc(1) Suc.prems(2,4) d])
      moreover have "dist slots hole (next_probe_index cursor ?n) = dist slots hole cursor + 1"
        using d Suc.prems(2,4) by (simp add: dist_def distance_next)
      ultimately show "scanned slots hole (next_probe_index cursor ?n) \<and> 0 < dist slots hole (next_probe_index cursor ?n)
        \<and> dist slots hole (next_probe_index cursor ?n) + b \<le> ?n" using sc(3) by simp
    qed
    moreover have "compact_loop (Suc b) hole cursor slots = compact_loop b hole (next_probe_index cursor ?n) slots"
      using skip by (auto simp: Let_def live_def home_def dist_def)
    ultimately show ?thesis by simp
  qed
qed

lemma compact_deleted_ok:
  assumes "map_wf slots" "hole < length slots" "slot_value (slots ! hole) = DELETED_VALUE"
  shows "map_wf (compact_deleted hole slots)" "directory (compact_deleted hole slots) = directory slots"
    "length (compact_deleted hole slots) = length slots"
proof -
  let ?n = "length slots" and ?b = "min (length slots - 1) MAX_FIXED_MAP_PROBES"
  have one: "0 < ?b \<Longrightarrow> dist slots hole (next_probe_index hole ?n) = 1"
    using assms(2) by (auto simp: dist_def probe_distance_def next_probe_index_def)
  have "0 < ?b \<Longrightarrow> scanned slots hole (next_probe_index hole ?n)
    \<and> 0 < dist slots hole (next_probe_index hole ?n) \<and> dist slots hole (next_probe_index hole ?n) + ?b \<le> ?n"
    using one by (auto simp: scanned_def)
  from compact_loop_ok [OF assms next_less [OF assms(2)] this]
  show "map_wf (compact_deleted hole slots)" "directory (compact_deleted hole slots) = directory slots"
    "length (compact_deleted hole slots) = length slots"
    by (simp_all add: compact_deleted_def)
qed

lemma remove_loop_find:
  "remove_loop slots fp start steps =
     (case find (stops slots fp start) steps of
        None \<Rightarrow> (None, slots)
      | Some step \<Rightarrow> let index = probe_index start step (length slots); s = slots ! index in
          if slot_value s = EMPTY_VALUE then (None, slots)
          else (Some (slot_value s), compact_deleted index (slots[index := s\<lparr>slot_value := DELETED_VALUE\<rparr>])))"
  by (induction steps) (auto simp: stops_def live_def Let_def)

lemma remove_correct:
  assumes wf: "map_wf slots" and rem: "fixed_map_remove hash slots = (prev, slots')"
  defines "fp \<equiv> fixed_map_fingerprint hash"
  shows "prev = directory slots fp" "map_wf slots'" "directory slots' = (directory slots)(fp := None)"
    "length slots' = length slots"
proof -
  let ?n = "length slots" and ?h = "fixed_map_fingerprint_start fp (length slots)"
  have main: "prev = directory slots fp \<and> map_wf slots' \<and> directory slots' = (directory slots)(fp := None)
    \<and> length slots' = ?n"
  proof (cases "directory slots fp")
    case None
    then have absent: "\<not> (live (slots ! i) \<and> slot_fingerprint (slots ! i) = fp)" if "i < ?n" for i
      using that by (auto simp: directory_None)
    have "(prev, slots') = (None, slots)"
    proof (cases "slots = []")
      case True
      then show ?thesis using rem by (simp add: fixed_map_remove_def)
    next
      case False
      then have hn: "?h < ?n" by (simp add: start_less)
      show ?thesis
      proof (cases "find (stops slots fp ?h) [0..<probe_limit slots]")
        case None
        then show ?thesis using rem False
          by (simp add: fixed_map_remove_def remove_loop_find fp_def fixed_map_start_def)
      next
        case (Some k)
        then have k: "k < ?n" "stops slots fp ?h k" by (auto simp: find_upt_Some probe_limit_def)
        with absent [OF probe_index_less [OF hn k(1)]]
        have "slot_value (slots ! probe_index ?h k ?n) = EMPTY_VALUE" by (auto simp: stops_def Let_def)
        then show ?thesis using rem False Some
          by (simp add: fixed_map_remove_def remove_loop_find fp_def fixed_map_start_def)
      qed
    qed
    with None wf show ?thesis by (simp add: fun_upd_idem)
  next
    case (Some v)
    then obtain i where i: "i < ?n" "live (slots ! i)" "slot_fingerprint (slots ! i) = fp"
      using directory_None [of slots fp] by auto
    have hn: "?h < ?n" using i(1) by (intro start_less) linarith
    let ?s = "slots[i := (slots ! i)\<lparr>slot_value := DELETED_VALUE\<rparr>]"
    have "slots \<noteq> []" using i(1) by auto
    then have "(prev, slots') = remove_loop slots fp ?h [0..<probe_limit slots]"
      using rem by (simp add: fixed_map_remove_def fp_def fixed_map_start_def)
    also have "\<dots> = (Some (slot_value (slots ! i)), compact_deleted i ?s)"
      using i(2) by (simp add: remove_loop_find entry_found [OF wf i refl] index_distance [OF hn i(1)] live_def Let_def)
    finally have r: "prev = Some (slot_value (slots ! i))" "slots' = compact_deleted i ?s" by simp_all
    have "map_wf ?s" by (rule delete_wf [OF wf i(1)]) simp
    note c = compact_deleted_ok [OF this, of i]
    have "directory ?s = (directory slots)(fp := None)"
      using directory_delete [OF wf i(1,2), of "(slots ! i)\<lparr>slot_value := DELETED_VALUE\<rparr>"] i(3) by simp
    with c i(1) r directory_at [OF wf i(1,2)] i(3) show ?thesis by simp
  qed
  then show "prev = directory slots fp" "map_wf slots'" "directory slots' = (directory slots)(fp := None)"
    "length slots' = length slots" by blast+
qed

section \<open>The directory as a bounded map\<close>

text \<open>
  What a user of a directory relies on: lookups, replacements and removals are those of a finite
  map on keys, except that an insertion may be refused, in which case nothing changes.
\<close>

datatype ('h, 'v) directory_op = DirGet 'h | DirInsert 'h 'v | DirRemove 'h
datatype 'v directory_result = Found "'v option" | Inserted "'v option" | Refused | Removed "'v option"

fun spec_step :: "('h \<Rightarrow> 'k) \<Rightarrow> ('h, 'v) directory_op \<Rightarrow> 'v directory_result \<Rightarrow> ('k \<rightharpoonup> 'v) \<Rightarrow> ('k \<rightharpoonup> 'v) option" where
  "spec_step key (DirGet h) (Found r) m = (if r = m (key h) then Some m else None)"
| "spec_step key (DirInsert h v) (Inserted p) m = (if p = m (key h) then Some (m(key h \<mapsto> v)) else None)"
| "spec_step key (DirInsert h v) Refused m = (if m (key h) = None then Some m else None)"
| "spec_step key (DirRemove h) (Removed p) m = (if p = m (key h) then Some (m(key h := None)) else None)"
| "spec_step key _ _ m = None"

text \<open>A trace of operations and results that a finite map explains, with the map it ends in.\<close>

fun spec_run :: "('h \<Rightarrow> 'k) \<Rightarrow> (('h, 'v) directory_op \<times> 'v directory_result) list \<Rightarrow> ('k \<rightharpoonup> 'v) \<Rightarrow> ('k \<rightharpoonup> 'v) option" where
  "spec_run key [] m = Some m"
| "spec_run key ((op, r) # trace) m =
     (case spec_step key op r m of None \<Rightarrow> None | Some m' \<Rightarrow> spec_run key trace m')"

fun inserts_ok :: "('v \<Rightarrow> bool) \<Rightarrow> ('h, 'v) directory_op \<Rightarrow> bool" where
  "inserts_ok ok (DirInsert h v) = ok v"
| "inserts_ok ok _ = True"

fun dir_step :: "('s \<Rightarrow> 'h \<Rightarrow> 'v option) \<Rightarrow> ('h \<Rightarrow> 'v \<Rightarrow> 's \<Rightarrow> 'v option option \<times> 's) \<Rightarrow> ('h \<Rightarrow> 's \<Rightarrow> 'v option \<times> 's)
    \<Rightarrow> ('h, 'v) directory_op \<Rightarrow> 's \<Rightarrow> 'v directory_result \<times> 's" where
  "dir_step lookup ins rem (DirGet h) s = (Found (lookup s h), s)"
| "dir_step lookup ins rem (DirInsert h v) s =
     (case ins h v s of (None, s') \<Rightarrow> (Refused, s') | (Some p, s') \<Rightarrow> (Inserted p, s'))"
| "dir_step lookup ins rem (DirRemove h) s = (case rem h s of (p, s') \<Rightarrow> (Removed p, s'))"

primrec dir_run :: "('s \<Rightarrow> 'h \<Rightarrow> 'v option) \<Rightarrow> ('h \<Rightarrow> 'v \<Rightarrow> 's \<Rightarrow> 'v option option \<times> 's) \<Rightarrow> ('h \<Rightarrow> 's \<Rightarrow> 'v option \<times> 's)
    \<Rightarrow> ('h, 'v) directory_op list \<Rightarrow> 's \<Rightarrow> 'v directory_result list \<times> 's" where
  "dir_run lookup ins rem [] s = ([], s)"
| "dir_run lookup ins rem (op # ops) s =
     (case dir_step lookup ins rem op s of (r, s') \<Rightarrow>
        case dir_run lookup ins rem ops s' of (rs, s'') \<Rightarrow> (r # rs, s''))"

locale bounded_directory =
  fixes inv :: "'s \<Rightarrow> bool" and abs :: "'s \<Rightarrow> 'k \<rightharpoonup> 'v" and key :: "'h \<Rightarrow> 'k" and ok :: "'v \<Rightarrow> bool"
    and lookup :: "'s \<Rightarrow> 'h \<Rightarrow> 'v option" and ins :: "'h \<Rightarrow> 'v \<Rightarrow> 's \<Rightarrow> 'v option option \<times> 's"
    and rem :: "'h \<Rightarrow> 's \<Rightarrow> 'v option \<times> 's"
  assumes lookup_law: "inv s \<Longrightarrow> lookup s h = abs s (key h)"
    and insert_law: "inv s \<Longrightarrow> ok v \<Longrightarrow> ins h v s = (Some p, s') \<Longrightarrow>
           inv s' \<and> p = abs s (key h) \<and> abs s' = (abs s)(key h \<mapsto> v)"
    and refuse_law: "inv s \<Longrightarrow> ins h v s = (None, s') \<Longrightarrow> s' = s \<and> abs s (key h) = None"
    and remove_law: "inv s \<Longrightarrow> rem h s = (p, s') \<Longrightarrow>
           inv s' \<and> p = abs s (key h) \<and> abs s' = (abs s)(key h := None)"
begin

lemma dir_step_refines:
  assumes "inv s" "inserts_ok ok op" "dir_step lookup ins rem op s = (r, s')"
  shows "inv s' \<and> spec_step key op r (abs s) = Some (abs s')"
proof (cases op)
  case (DirGet h)
  then show ?thesis using assms by (auto simp: lookup_law)
next
  case (DirInsert h v)
  obtain q t where ins: "ins h v s = (q, t)" by (cases "ins h v s")
  show ?thesis
  proof (cases q)
    case None
    then show ?thesis using DirInsert assms ins refuse_law [OF assms(1), of h v t] by auto
  next
    case (Some p)
    then show ?thesis using DirInsert assms ins insert_law [OF assms(1), of v h p t] by auto
  qed
next
  case (DirRemove h)
  obtain p t where "rem h s = (p, t)" by (cases "rem h s")
  then show ?thesis using DirRemove assms remove_law [OF assms(1), of h p t] by auto
qed

lemma dir_run_refines:
  assumes "inv s" "list_all (inserts_ok ok) ops" "dir_run lookup ins rem ops s = (rs, s')"
  shows "inv s' \<and> spec_run key (zip ops rs) (abs s) = Some (abs s')"
  using assms
proof (induction ops arbitrary: s rs)
  case (Cons op ops)
  obtain r t where st: "dir_step lookup ins rem op s = (r, t)" by (cases "dir_step lookup ins rem op s")
  obtain rs' where run: "dir_run lookup ins rem ops t = (rs', s')" "rs = r # rs'"
    using Cons.prems(3) st by (auto split: prod.splits)
  from dir_step_refines [OF Cons.prems(1) _ st] Cons.prems(2)
  have "inv t" "spec_step key op r (abs s) = Some (abs t)" by simp_all
  with Cons.IH [OF _ _ run(1)] Cons.prems(2) run(2) show ?case by simp
qed simp

end

text \<open>An insertion is refused exactly when every slot of the probe window holds another key.\<close>

lemma upsert_loop_None:
  "upsert_loop slots fp start deleted steps = None \<longleftrightarrow>
     deleted = None \<and> (\<forall>step \<in> set steps. live (slots ! probe_index start step (length slots))
       \<and> slot_fingerprint (slots ! probe_index start step (length slots)) \<noteq> fp)"
  by (induction steps arbitrary: deleted) (auto simp: live_def Let_def split: option.splits)

lemma upsert_refused:
  assumes wf: "map_wf slots" and ref: "find_upsert_slot slots hash = None"
  shows "directory slots (fixed_map_fingerprint hash) = None"
proof (rule ccontr)
  let ?fp = "fixed_map_fingerprint hash"
  let ?h = "fixed_map_fingerprint_start ?fp (length slots)"
  assume "directory slots ?fp \<noteq> None"
  then obtain i where i: "i < length slots" "live (slots ! i)" "slot_fingerprint (slots ! i) = ?fp"
    by (auto simp: directory_None)
  have hn: "?h < length slots" using i(1) by (intro start_less) linarith
  have "probe_distance ?h i (length slots) < probe_limit slots"
    using entry_found [OF wf i refl] by (simp add: find_upt_Some)
  moreover have "slots \<noteq> []" using i(1) by auto
  ultimately have "slot_fingerprint (slots ! probe_index ?h (probe_distance ?h i (length slots)) (length slots)) \<noteq> ?fp"
    using ref by (simp add: find_upsert_slot_def fixed_map_start_def upsert_loop_None)
  then show False using i(3) index_distance [OF hn i(1)] by simp
qed

lemma insert_refused:
  assumes wf: "map_wf slots" and ref: "fixed_map_insert hash v slots = (None, slots')"
  shows "slots' = slots \<and> directory slots (fixed_map_fingerprint hash) = None"
  using upsert_refused [OF wf] ref by (auto simp: fixed_map_insert_def split: option.splits)

interpretation fixed_map: bounded_directory map_wf directory fixed_map_fingerprint "\<lambda>v. v < DELETED_VALUE"
  fixed_map_get fixed_map_insert fixed_map_remove
proof (unfold_locales, goal_cases)
  case (1 s h)
  then show ?case by (rule get_correct)
next
  case (2 s v h p s')
  then show ?case using insert_correct by simp
next
  case (3 s h v s')
  then show ?case by (rule insert_refused)
next
  case (4 s h p s')
  then show ?case using remove_correct by simp
qed

lemma try_new_empty:
  assumes "fixed_map_try_new alloc n = Inr slots"
  shows "map_wf slots" "directory slots = (\<lambda>_. None)" "length slots = 2 * n" "list_all (\<lambda>s. s = default_slot) slots"
proof -
  have s: "slots = replicate (2 * n) default_slot"
    using assms by (auto simp: fixed_map_try_new_def fixed_map_slot_count_def checked_mul_def ok_or_def bind_result_def
        mult.commute split: if_splits option.splits sum.splits)
  show "map_wf slots" "directory slots = (\<lambda>_. None)" "length slots = 2 * n" "list_all (\<lambda>s. s = default_slot) slots"
    by (auto simp: s map_wf_def live_def default_slot_def fun_eq_iff directory_None list_all_iff)
qed

abbreviation fixed_map_run :: "(u64, u32) directory_op list \<Rightarrow> fixed_map \<Rightarrow> u32 directory_result list \<times> fixed_map" where
  "fixed_map_run \<equiv> dir_run fixed_map_get fixed_map_insert fixed_map_remove"

text \<open>
  C38 (refinement): any sequence of lookups, insertions of values below the two markers and
  removals on a newly built table behaves as on a finite map from fingerprints to values: every
  result is the one the map gives, an insertion is refused only for a key that is absent, and
  every later lookup reads the final map. Compaction after a removal never loses, duplicates or
  hides an entry, whatever the collisions and wrap-arounds.
\<close>

theorem fixed_map_refines_map:
  assumes "fixed_map_try_new alloc maximum_entries = Inr slots"
    and "list_all (inserts_ok (\<lambda>v. v < DELETED_VALUE)) ops"
    and "fixed_map_run ops slots = (results, slots')"
  shows "\<exists>m. spec_run fixed_map_fingerprint (zip ops results) (\<lambda>_. None) = Some m
    \<and> (\<forall>hash. fixed_map_get slots' hash = m (fixed_map_fingerprint hash))
    \<and> map_wf slots'"
  using fixed_map.dir_run_refines [OF try_new_empty(1) [OF assms(1)] assms(2,3)] try_new_empty(2) [OF assms(1)]
  by (auto simp: get_correct)

theorem fixed_map_refines_map_witness:
  "\<exists>slots m. fixed_map_try_new (\<lambda>_. True) 1 = Inr slots
     \<and> spec_run fixed_map_fingerprint
         (zip [DirInsert 5 7, DirInsert 6 8, DirRemove 5, DirGet 6]
              (fst (fixed_map_run [DirInsert 5 7, DirInsert 6 8, DirRemove 5, DirGet 6] slots))) (\<lambda>_. None) = Some m"
proof -
  let ?ops = "[DirInsert 5 7, DirInsert 6 8, DirRemove 5, DirGet 6] :: (u64, u32) directory_op list"
  have new: "fixed_map_try_new (\<lambda>_. True) 1 = Inr (replicate 2 default_slot)"
    by (simp add: fixed_map_try_new_def fixed_map_slot_count_def checked_mul_def ok_or_def usize_max_def)
  obtain rs s' where run: "fixed_map_run ?ops (replicate 2 default_slot) = (rs, s')" by force
  have ok: "list_all (inserts_ok (\<lambda>v. v < DELETED_VALUE)) ?ops" by (simp add: DELETED_VALUE_def)
  show ?thesis using new run fixed_map_refines_map [OF new ok run] by auto
qed

text \<open>
  An insertion is refused exactly when every slot of its probe window holds a
  live entry of another key; a refused insertion changes nothing, and replacing the value of a
  present key always succeeds.
\<close>

theorem fixed_map_insert_total:
  assumes "map_wf slots"
  shows "(case fixed_map_insert hash v slots of
      (None, slots') \<Rightarrow> slots' = slots \<and> fixed_map_get slots hash = None \<and>
        (\<forall>step < probe_limit slots.
          let s = slots ! probe_index (fixed_map_start hash (length slots)) step (length slots) in
          live s \<and> slot_fingerprint s \<noteq> fixed_map_fingerprint hash)
    | (Some prev, slots') \<Rightarrow> prev = fixed_map_get slots hash \<and> can_upsert slots hash)"
proof (cases "find_upsert_slot slots hash")
  case None
  have "\<forall>step < probe_limit slots.
      let s = slots ! probe_index (fixed_map_start hash (length slots)) step (length slots) in
      live s \<and> slot_fingerprint s \<noteq> fixed_map_fingerprint hash"
    using None by (cases "slots = []") (simp_all add: find_upsert_slot_def upsert_loop_None probe_limit_def Let_def)
  with None upsert_refused [OF assms None] show ?thesis by (simp add: fixed_map_insert_def get_correct [OF assms])
next
  case (Some r)
  obtain i prev where r: "r = (i, prev)" by (cases r)
  have "slots \<noteq> []" using Some by (auto simp: find_upsert_slot_def)
  from upsert_prev(2) [OF assms this Some [unfolded r]] show ?thesis
    using Some by (simp add: fixed_map_insert_def r can_upsert_def get_correct [OF assms])
qed

theorem fixed_map_insert_total_witness:
  "(case fixed_map_insert 5 7 (replicate 2 default_slot) of
      (None, slots') \<Rightarrow> slots' = replicate 2 default_slot
    | (Some prev, slots') \<Rightarrow> prev = fixed_map_get (replicate 2 default_slot) 5)"
proof -
  have "fixed_map_try_new (\<lambda>_. True) 1 = Inr (replicate 2 default_slot)"
    by (simp add: fixed_map_try_new_def fixed_map_slot_count_def checked_mul_def ok_or_def usize_max_def)
  from fixed_map_insert_total [OF try_new_empty(1) [OF this], of 5 7] show ?thesis
    by (auto split: option.splits prod.splits)
qed

text \<open>The shard or worker a hash is routed to is in range, and is the remainder for any bucket count.\<close>

lemma route_hash_mod:
  assumes "0 < buckets"
  shows "route_hash hash buckets = unat hash mod buckets" "route_hash hash buckets < buckets"
proof -
  show eq: "route_hash hash buckets = unat hash mod buckets"
  proof (cases "is_power_of_two buckets")
    case True
    then obtain k where k: "buckets = 2 ^ k" by (auto simp: is_power_of_two_def)
    then have "of_nat buckets - (1 :: u64) = mask k" by (simp add: mask_eq_decr_exp)
    then have "unat (hash AND (of_nat buckets - 1)) = unat (take_bit k hash)"
      by (simp only: take_bit_eq_mask)
    also have "\<dots> = take_bit k (unat hash)" by (rule unsigned_take_bit_eq)
    also have "\<dots> = unat hash mod buckets" by (simp only: take_bit_eq_mod k)
    finally have "unat (hash AND (of_nat buckets - 1)) = unat hash mod buckets" .
    with True show ?thesis by (simp add: route_hash_def)
  qed (simp add: route_hash_def)
  show "route_hash hash buckets < buckets" using assms by (simp add: eq)
qed

end
