(* ===== verification/Region_Index.thy ===== *)
theory Region_Index
  imports Index_Table Fixed_Map
begin

unbundle bit_operations_syntax

text \<open>
  \<^verbatim>\<open>cache2/src/region/index/mod.rs\<close>: the fixed-candidate point index. A key has four candidate
  buckets in the partition its hash selects; an insertion replaces, fills an empty candidate,
  relocates one or two occupants, or evicts one candidate. Two bitmaps record the heat of a bucket.
  Benchmark counters are left out. This theory holds the code; its correctness is in
  \<open>Index_Map\<close> and \<open>Index_Upsert\<close>.
\<close>

section \<open>Heat bitmaps\<close>

definition CANDIDATE_OFFSETS :: "nat list" where "CANDIDATE_OFFSETS = [0, 23, 61, 97]"
definition FINGERPRINT_MASK :: u16 where "FINGERPRINT_MASK = push_bit 14 1 - 1"
definition REFERENCE_WORD_BITS :: nat where "REFERENCE_WORD_BITS = 64"

definition heat_memory_bytes :: "nat \<Rightarrow> nat option" where
  "heat_memory_bytes slots = do {
     bitmap_bytes \<leftarrow> checked_mul usize_max (div_ceil slots REFERENCE_WORD_BITS) 8;
     checked_mul usize_max bitmap_bytes 2
   }"

record slot_heat =
  heat_seen :: "u64 list"
  heat_hot :: "u64 list"

definition heat_try_new :: "allocator \<Rightarrow> nat \<Rightarrow> index_storage_error + slot_heat" where
  "heat_try_new alloc slots =
     (let word_count = div_ceil slots REFERENCE_WORD_BITS in
      if alloc word_count then Inr \<lparr>heat_seen = replicate word_count 0, heat_hot = replicate word_count 0\<rparr>
      else Inl (Io (IoError OutOfMemory ''unable to allocate index heat bitmap'')))"

definition heat_mask :: "nat \<Rightarrow> u64" where
  "heat_mask slot = push_bit (slot mod REFERENCE_WORD_BITS) 1"

definition heat_mark :: "nat \<Rightarrow> slot_heat \<Rightarrow> slot_heat" where
  "heat_mark slot h =
     (let word = slot div REFERENCE_WORD_BITS; m = heat_mask slot in
      case (get_at (heat_seen h) word, get_at (heat_hot h) word) of
        (Some seen, Some hot) \<Rightarrow>
          if hot AND m \<noteq> 0 then h
          else if seen AND m = 0 then h\<lparr>heat_seen := (heat_seen h)[word := seen OR m]\<rparr>
          else h\<lparr>heat_hot := (heat_hot h)[word := hot OR m]\<rparr>
      | _ \<Rightarrow> h)"

definition heat_take_hot :: "nat \<Rightarrow> slot_heat \<Rightarrow> bool \<times> slot_heat" where
  "heat_take_hot slot h =
     (let word = slot div REFERENCE_WORD_BITS; m = heat_mask slot;
          (was_hot, h) = (case get_at (heat_hot h) word of
              None \<Rightarrow> (False, h)
            | Some hot \<Rightarrow> if hot AND m \<noteq> 0 then (True, h\<lparr>heat_hot := (heat_hot h)[word := hot AND NOT m]\<rparr>) else (False, h));
          h = (case get_at (heat_seen h) word of
              None \<Rightarrow> h
            | Some seen \<Rightarrow> if seen AND m \<noteq> 0 then h\<lparr>heat_seen := (heat_seen h)[word := seen AND NOT m]\<rparr> else h)
      in (was_hot, h))"

definition heat_clear :: "nat \<Rightarrow> slot_heat \<Rightarrow> slot_heat" where
  "heat_clear slot h = snd (heat_take_hot slot h)"

section \<open>Keys and candidates\<close>

definition candidate_offset :: "nat \<Rightarrow> nat \<Rightarrow> nat" where
  "candidate_offset displacement slots =
     (let off = CANDIDATE_OFFSETS ! displacement in if off < slots then off else off mod slots)"

definition slot_from_home :: "nat \<Rightarrow> nat \<Rightarrow> nat \<Rightarrow> nat" where
  "slot_from_home h displacement slots =
     (let slot = h + candidate_offset displacement slots in if slot \<ge> slots then slot - slots else slot)"

definition home_from_slot :: "nat \<Rightarrow> nat \<Rightarrow> nat \<Rightarrow> nat" where
  "home_from_slot slot displacement slots =
     (let off = candidate_offset displacement slots in if slot \<ge> off then slot - off else slots - (off - slot))"

definition index_fingerprint :: "u64 \<Rightarrow> u16" where
  "index_fingerprint hash =
     (let mixed = hash XOR word_rotl 19 hash XOR word_rotr 23 hash in ucast (drop_bit 17 mixed) AND FINGERPRINT_MASK)"

definition candidate_home :: "u64 \<Rightarrow> nat \<Rightarrow> nat" where
  "candidate_home hash slots = route_hash (word_rotl 32 hash) slots"

definition candidate_slots :: "u64 \<Rightarrow> nat \<Rightarrow> nat list" where
  "candidate_slots hash slots =
     map (\<lambda>displacement. slot_from_home (candidate_home hash slots) displacement slots) [0..<INDEX_CANDIDATES]"

definition value_state :: "u16 \<Rightarrow> nat \<Rightarrow> index_entry \<Rightarrow> index_slot_state" where
  "value_state fp displacement entry = Value fp (of_nat displacement) entry"

definition token_matches :: "index_slot_state \<Rightarrow> u16 \<Rightarrow> nat \<Rightarrow> bool" where
  "token_matches state fp displacement =
     (case state of Empty \<Rightarrow> False | Value current d entry \<Rightarrow> current = fp \<and> unat d = displacement)"

definition token_location_matches :: "index_slot_state \<Rightarrow> u16 \<Rightarrow> nat \<Rightarrow> packed_location \<Rightarrow> bool" where
  "token_location_matches state fp displacement loc =
     (case state of Empty \<Rightarrow> False
      | Value current d entry \<Rightarrow> current = fp \<and> unat d = displacement \<and> index_equivalent (location entry) loc)"

section \<open>The index\<close>

datatype reclaim_index_action = ReclaimMissing | ReclaimRemoved | ReclaimReinsert

record region_index =
  ri_storage :: partitioned_index_storage
  ri_heat :: slot_heat
  ri_activity_counters_enabled :: bool
  ri_relocations :: u64
  ri_overflow_evictions :: u64
  ri_conditional_remove_misses :: u64
  ri_conditional_replace_misses :: u64

type_synonym 'a index_op = "(region_index, index_storage_error, 'a) partial_op"

definition index_from_storage :: "allocator \<Rightarrow> partitioned_index_storage \<Rightarrow> index_storage_error + region_index" where
  "index_from_storage alloc storage =
     bind_result (heat_try_new alloc (pis_slot_count storage)) (\<lambda>heat.
     Inr \<lparr>ri_storage = storage, ri_heat = heat, ri_activity_counters_enabled = False, ri_relocations = 0,
          ri_overflow_evictions = 0, ri_conditional_remove_misses = 0, ri_conditional_replace_misses = 0\<rparr>)"

definition set_activity_counters_enabled :: "bool \<Rightarrow> region_index \<Rightarrow> region_index" where
  "set_activity_counters_enabled enabled x = x\<lparr>ri_activity_counters_enabled := enabled\<rparr>"

record cache_index_snapshot =
  snap_slot_capacity :: nat
  snap_physical_value_slots :: nat
  snap_empty_slots :: nat
  snap_relocations :: u64
  snap_overflow_evictions :: u64
  snap_conditional_remove_misses :: u64
  snap_conditional_replace_misses :: u64

definition index_snapshot :: "region_index \<Rightarrow> index_storage_error + cache_index_snapshot" where
  "index_snapshot x =
     bind_result (physical_stats (ri_storage x)) (\<lambda>physical.
     bind_result (ok_or SizeOverflow (try_from u64_max (pis_slot_count (ri_storage x)))) (\<lambda>slot_capacity.
     bind_result (ok_or InvalidPhysicalStats (checked_sub slot_capacity (stat_value physical))) (\<lambda>empty_slots.
     Inr \<lparr>snap_slot_capacity = slot_capacity, snap_physical_value_slots = stat_value physical,
          snap_empty_slots = empty_slots, snap_relocations = ri_relocations x,
          snap_overflow_evictions = ri_overflow_evictions x,
          snap_conditional_remove_misses = ri_conditional_remove_misses x,
          snap_conditional_replace_misses = ri_conditional_replace_misses x\<rparr>)))"

definition on_storage :: "'a storage_op \<Rightarrow> 'a index_op" where
  "on_storage = pzoom ri_storage (\<lambda>st x. x\<lparr>ri_storage := st\<rparr>)"

definition on_heat :: "(slot_heat \<Rightarrow> 'a \<times> slot_heat) \<Rightarrow> 'a index_op" where
  "on_heat f x = (case f (ri_heat x) of (a, h) \<Rightarrow> Some (Inr a, x\<lparr>ri_heat := h\<rparr>))"

definition guard_slots :: "nat \<Rightarrow> nat index_op" where
  "guard_slots p = pbind (pget (\<lambda>x. guard_slot_count (ri_storage x) p)) ppanic"

definition counted :: "(region_index \<Rightarrow> region_index) \<Rightarrow> unit index_op" where
  "counted bump = pmodify (\<lambda>x. if ri_activity_counters_enabled x then bump x else x)"

text \<open>\<^verbatim>\<open>candidates[..displacement].contains(&slot)\<close>: an earlier candidate is the same bucket.\<close>

definition duplicate_candidate :: "nat list \<Rightarrow> nat \<Rightarrow> bool" where
  "duplicate_candidate candidates displacement \<longleftrightarrow>
     candidates ! displacement \<in> set (take displacement candidates)"

definition replace_slot ::
    "crc_stream \<Rightarrow> nat \<Rightarrow> nat \<Rightarrow> index_slot_state \<Rightarrow> index_slot_state \<Rightarrow> unit index_op" where
  "replace_slot digest p slot previous new =
     pbind (on_storage (guard_global_slot p slot)) (\<lambda>global_slot.
     pbind (on_storage (guard_replace_observed digest p slot previous new)) (\<lambda>_.
     on_heat (\<lambda>h. ((), heat_clear global_slot h))))"

section \<open>Lookup\<close>

fun lookup_loop :: "crc_stream \<Rightarrow> nat \<Rightarrow> u16 \<Rightarrow> nat list \<Rightarrow> nat list \<Rightarrow> index_entry option index_op" where
  "lookup_loop digest p fp candidates [] = preturn None"
| "lookup_loop digest p fp candidates (d # ds) =
     (if duplicate_candidate candidates d then lookup_loop digest p fp candidates ds
      else pbind (on_storage (guard_slot_state digest p (candidates ! d))) (\<lambda>state.
        case state of
          Empty \<Rightarrow> lookup_loop digest p fp candidates ds
        | Value current current_displacement entry \<Rightarrow>
            if current = fp \<and> unat current_displacement = d
            then pbind (on_storage (guard_global_slot p (candidates ! d))) (\<lambda>global_slot.
                 pbind (on_heat (\<lambda>h. ((), heat_mark global_slot h))) (\<lambda>_.
                 preturn (Some entry)))
            else lookup_loop digest p fp candidates ds))"

definition lookup_raw :: "crc_stream \<Rightarrow> (nat \<Rightarrow> bool) \<Rightarrow> u64 \<Rightarrow> index_entry option index_op" where
  "lookup_raw digest contended hash =
     pbind (on_storage (try_hash_partition contended hash)) (\<lambda>p.
     pbind (guard_slots p) (\<lambda>slots.
     lookup_loop digest p (index_fingerprint hash) (candidate_slots hash slots) [0..<INDEX_CANDIDATES]))"

section \<open>Insertion\<close>

text \<open>
  The scan of the four candidates: \<open>None\<close> when it has replaced the entry of the key, otherwise the
  states it observed and the first empty candidate.
\<close>

fun upsert_scan :: "crc_stream \<Rightarrow> nat \<Rightarrow> u16 \<Rightarrow> nat list \<Rightarrow> index_entry \<Rightarrow> nat list
    \<Rightarrow> index_slot_state list \<Rightarrow> nat option \<Rightarrow> (index_slot_state list \<times> nat option) option index_op" where
  "upsert_scan digest p fp candidates supplied [] observed first_empty = preturn (Some (observed, first_empty))"
| "upsert_scan digest p fp candidates supplied (d # ds) observed first_empty =
     (if duplicate_candidate candidates d
      then upsert_scan digest p fp candidates supplied ds observed first_empty
      else pbind (on_storage (guard_slot_state digest p (candidates ! d))) (\<lambda>state.
        let observed = observed[d := state] in
        case state of
          Empty \<Rightarrow> upsert_scan digest p fp candidates supplied ds observed
            (case first_empty of None \<Rightarrow> Some d | Some e \<Rightarrow> Some e)
        | Value current current_displacement entry \<Rightarrow>
            if current = fp \<and> unat current_displacement = d
            then pbind (replace_slot digest p (candidates ! d) state (value_state fp d supplied)) (\<lambda>_. preturn None)
            else upsert_scan digest p fp candidates supplied ds observed first_empty))"

definition displacement_error :: index_storage_error where
  "displacement_error = InvalidArgument ''index bucket displacement is out of range''"

text \<open>One hop: the first candidate whose occupant has an empty bucket of its own.\<close>

fun one_hop_targets :: "crc_stream \<Rightarrow> nat \<Rightarrow> nat \<Rightarrow> u16 \<Rightarrow> index_entry \<Rightarrow> nat \<Rightarrow> nat \<Rightarrow> index_slot_state
    \<Rightarrow> u16 \<Rightarrow> nat \<Rightarrow> index_entry \<Rightarrow> nat \<Rightarrow> nat list \<Rightarrow> bool index_op" where
  "one_hop_targets digest p slots fp supplied source_displacement source_slot source
     occupant_fp occupant_displacement occupant_entry occupant_home [] = preturn False"
| "one_hop_targets digest p slots fp supplied source_displacement source_slot source
     occupant_fp occupant_displacement occupant_entry occupant_home (t # ts) =
     (let again = one_hop_targets digest p slots fp supplied source_displacement source_slot source
                    occupant_fp occupant_displacement occupant_entry occupant_home ts;
          target_slot = slot_from_home occupant_home t slots in
      if t = occupant_displacement then again
      else if target_slot = source_slot then again
      else pbind (on_storage (guard_slot_state digest p target_slot)) (\<lambda>state.
        if state \<noteq> Empty then again
        else pbind (replace_slot digest p target_slot Empty (value_state occupant_fp t occupant_entry)) (\<lambda>_.
             pbind (replace_slot digest p source_slot source (value_state fp source_displacement supplied)) (\<lambda>_.
             pbind (counted (\<lambda>x. x\<lparr>ri_relocations := ri_relocations x + 1\<rparr>)) (\<lambda>_.
             preturn True)))))"

fun one_hop :: "crc_stream \<Rightarrow> nat \<Rightarrow> nat \<Rightarrow> u16 \<Rightarrow> index_entry \<Rightarrow> nat list \<Rightarrow> index_slot_state list \<Rightarrow> nat list \<Rightarrow> bool index_op" where
  "one_hop digest p slots fp supplied candidates observed [] = preturn False"
| "one_hop digest p slots fp supplied candidates observed (d # ds) =
     (let again = one_hop digest p slots fp supplied candidates observed ds in
      if duplicate_candidate candidates d then again
      else case observed ! d of
        Empty \<Rightarrow> again
      | Value occupant_fp od occupant_entry \<Rightarrow>
          if unat od \<ge> INDEX_CANDIDATES then pfail displacement_error
          else pbind (one_hop_targets digest p slots fp supplied d (candidates ! d) (observed ! d)
                        occupant_fp (unat od) occupant_entry (home_from_slot (candidates ! d) (unat od) slots)
                        [0..<INDEX_CANDIDATES]) (\<lambda>finished.
               if finished then preturn True else again))"

text \<open>Two hops: the occupant moves into a bucket whose own occupant has an empty bucket.\<close>

fun two_hop_targets :: "crc_stream \<Rightarrow> nat \<Rightarrow> nat \<Rightarrow> u16 \<Rightarrow> index_entry \<Rightarrow> nat \<Rightarrow> nat \<Rightarrow> index_slot_state
    \<Rightarrow> u16 \<Rightarrow> index_entry \<Rightarrow> nat \<Rightarrow> nat \<Rightarrow> index_slot_state \<Rightarrow> u16 \<Rightarrow> nat \<Rightarrow> index_entry \<Rightarrow> nat \<Rightarrow> nat list \<Rightarrow> bool index_op" where
  "two_hop_targets digest p slots fp supplied source_displacement source_slot source source_fp source_entry
     middle_displacement middle_slot middle middle_fp middle_current middle_entry middle_home [] = preturn False"
| "two_hop_targets digest p slots fp supplied source_displacement source_slot source source_fp source_entry
     middle_displacement middle_slot middle middle_fp middle_current middle_entry middle_home (t # ts) =
     (let again = two_hop_targets digest p slots fp supplied source_displacement source_slot source source_fp
                    source_entry middle_displacement middle_slot middle middle_fp middle_current middle_entry middle_home ts;
          target_slot = slot_from_home middle_home t slots in
      if t = middle_current then again
      else if target_slot = source_slot \<or> target_slot = middle_slot then again
      else pbind (on_storage (guard_slot_state digest p target_slot)) (\<lambda>state.
        if state \<noteq> Empty then again
        else pbind (replace_slot digest p target_slot Empty (value_state middle_fp t middle_entry)) (\<lambda>_.
             pbind (replace_slot digest p middle_slot middle (value_state source_fp middle_displacement source_entry)) (\<lambda>_.
             pbind (replace_slot digest p source_slot source (value_state fp source_displacement supplied)) (\<lambda>_.
             pbind (counted (\<lambda>x. x\<lparr>ri_relocations := ri_relocations x + 2\<rparr>)) (\<lambda>_.
             preturn True))))))"

fun two_hop_middles :: "crc_stream \<Rightarrow> nat \<Rightarrow> nat \<Rightarrow> u16 \<Rightarrow> index_entry \<Rightarrow> nat \<Rightarrow> nat \<Rightarrow> index_slot_state
    \<Rightarrow> u16 \<Rightarrow> nat \<Rightarrow> index_entry \<Rightarrow> nat \<Rightarrow> nat list \<Rightarrow> bool index_op" where
  "two_hop_middles digest p slots fp supplied source_displacement source_slot source source_fp source_current
     source_entry source_home [] = preturn False"
| "two_hop_middles digest p slots fp supplied source_displacement source_slot source source_fp source_current
     source_entry source_home (m # ms) =
     (let again = two_hop_middles digest p slots fp supplied source_displacement source_slot source source_fp
                    source_current source_entry source_home ms;
          middle_slot = slot_from_home source_home m slots in
      if m = source_current then again
      else if middle_slot = source_slot then again
      else pbind (on_storage (guard_slot_state digest p middle_slot)) (\<lambda>middle.
        case middle of
          Empty \<Rightarrow> again
        | Value middle_fp md middle_entry \<Rightarrow>
            if unat md \<ge> INDEX_CANDIDATES then pfail displacement_error
            else pbind (two_hop_targets digest p slots fp supplied source_displacement source_slot source source_fp
                          source_entry m middle_slot middle middle_fp (unat md) middle_entry
                          (home_from_slot middle_slot (unat md) slots) [0..<INDEX_CANDIDATES]) (\<lambda>finished.
                 if finished then preturn True else again)))"

fun two_hop :: "crc_stream \<Rightarrow> nat \<Rightarrow> nat \<Rightarrow> u16 \<Rightarrow> index_entry \<Rightarrow> nat list \<Rightarrow> index_slot_state list \<Rightarrow> nat list \<Rightarrow> bool index_op" where
  "two_hop digest p slots fp supplied candidates observed [] = preturn False"
| "two_hop digest p slots fp supplied candidates observed (d # ds) =
     (let again = two_hop digest p slots fp supplied candidates observed ds in
      if duplicate_candidate candidates d then again
      else case observed ! d of
        Empty \<Rightarrow> again
      | Value source_fp sd source_entry \<Rightarrow>
          if unat sd \<ge> INDEX_CANDIDATES then pfail displacement_error
          else pbind (two_hop_middles digest p slots fp supplied d (candidates ! d) (observed ! d) source_fp
                        (unat sd) source_entry (home_from_slot (candidates ! d) (unat sd) slots)
                        [0..<INDEX_CANDIDATES]) (\<lambda>finished.
               if finished then preturn True else again))"

text \<open>
  \<^verbatim>\<open>rotate_left(17) as usize & (INDEX_CANDIDATES - 1)\<close> and the search from there for a candidate
  that is not a duplicate; the \<^verbatim>\<open>expect\<close> of the source is the \<open>None\<close> case.
\<close>

definition victim_displacement :: "u64 \<Rightarrow> nat list \<Rightarrow> nat option" where
  "victim_displacement hash candidates =
     (let start = unat (word_rotl 17 hash AND of_nat (INDEX_CANDIDATES - 1)) in
      find (\<lambda>d. \<not> duplicate_candidate candidates d)
        (map (\<lambda>step. (start + step) mod INDEX_CANDIDATES) [0..<INDEX_CANDIDATES]))"

definition evict_candidate ::
    "crc_stream \<Rightarrow> nat \<Rightarrow> u64 \<Rightarrow> u16 \<Rightarrow> index_entry \<Rightarrow> nat list \<Rightarrow> index_slot_state list \<Rightarrow> bool index_op" where
  "evict_candidate digest p hash fp supplied candidates observed =
     pbind (ppanic (victim_displacement hash candidates)) (\<lambda>v.
     pbind (replace_slot digest p (candidates ! v) (observed ! v) (value_state fp v supplied)) (\<lambda>_.
     pbind (counted (\<lambda>x. x\<lparr>ri_overflow_evictions := ri_overflow_evictions x + 1\<rparr>)) (\<lambda>_.
     preturn True)))"

definition place_new ::
    "crc_stream \<Rightarrow> nat \<Rightarrow> nat \<Rightarrow> u64 \<Rightarrow> u16 \<Rightarrow> index_entry \<Rightarrow> nat list \<Rightarrow> index_slot_state list \<Rightarrow> nat option \<Rightarrow> bool index_op" where
  "place_new digest p slots hash fp supplied candidates observed first_empty =
     (case first_empty of
        Some d \<Rightarrow> pbind (replace_slot digest p (candidates ! d) Empty (value_state fp d supplied)) (\<lambda>_. preturn True)
      | None \<Rightarrow>
          pbind (one_hop digest p slots fp supplied candidates observed [0..<INDEX_CANDIDATES]) (\<lambda>finished.
          if finished then preturn True
          else pbind (two_hop digest p slots fp supplied candidates observed [0..<INDEX_CANDIDATES]) (\<lambda>finished.
          if finished then preturn True
          else evict_candidate digest p hash fp supplied candidates observed)))"

definition upsert :: "crc_stream \<Rightarrow> u64 \<Rightarrow> index_entry \<Rightarrow> bool index_op" where
  "upsert digest hash supplied =
     pbind (on_storage (write_hash_partition hash)) (\<lambda>p.
     pbind (guard_slots p) (\<lambda>slots.
     let fp = index_fingerprint hash; candidates = candidate_slots hash slots in
     pbind (upsert_scan digest p fp candidates supplied [0..<INDEX_CANDIDATES] (replicate INDEX_CANDIDATES Empty) None) (\<lambda>scan.
     case scan of
       None \<Rightarrow> preturn True
     | Some (observed, first_empty) \<Rightarrow>
         place_new digest p slots hash fp supplied candidates observed first_empty)))"

section \<open>Conditional changes\<close>

definition record_conditional_remove_miss :: "unit index_op" where
  "record_conditional_remove_miss =
     counted (\<lambda>x. x\<lparr>ri_conditional_remove_misses := ri_conditional_remove_misses x + 1\<rparr>)"

fun remove_loop_index :: "crc_stream \<Rightarrow> nat \<Rightarrow> u16 \<Rightarrow> nat list \<Rightarrow> packed_location option \<Rightarrow> nat list \<Rightarrow> bool index_op" where
  "remove_loop_index digest p fp candidates expected [] = preturn False"
| "remove_loop_index digest p fp candidates expected (d # ds) =
     (if duplicate_candidate candidates d then remove_loop_index digest p fp candidates expected ds
      else pbind (on_storage (guard_slot_state digest p (candidates ! d))) (\<lambda>state.
        if (case expected of Some loc \<Rightarrow> token_location_matches state fp d loc | None \<Rightarrow> token_matches state fp d)
        then pbind (replace_slot digest p (candidates ! d) state Empty) (\<lambda>_. preturn True)
        else remove_loop_index digest p fp candidates expected ds))"

definition remove_matching ::
    "crc_stream \<Rightarrow> (nat \<Rightarrow> bool) \<Rightarrow> u64 \<Rightarrow> packed_location option \<Rightarrow> bool \<Rightarrow> bool index_op" where
  "remove_matching digest contended hash expected non_waiting =
     pbind (on_storage (if non_waiting then try_hash_partition contended hash else write_hash_partition hash)) (\<lambda>p.
     pbind (guard_slots p) (\<lambda>slots.
     pbind (remove_loop_index digest p (index_fingerprint hash) (candidate_slots hash slots) expected
              [0..<INDEX_CANDIDATES]) (\<lambda>removed.
     if removed then preturn True
     else pbind (if expected \<noteq> None then record_conditional_remove_miss else preturn ()) (\<lambda>_. preturn False))))"

definition try_delete :: "crc_stream \<Rightarrow> (nat \<Rightarrow> bool) \<Rightarrow> u64 \<Rightarrow> bool index_op" where
  "try_delete digest contended hash = remove_matching digest contended hash None True"

definition remove_if_match :: "crc_stream \<Rightarrow> u64 \<Rightarrow> packed_location \<Rightarrow> bool index_op" where
  "remove_if_match digest hash old = remove_matching digest (\<lambda>_. False) hash (Some old) False"

fun prepare_reclaim_loop :: "crc_stream \<Rightarrow> nat \<Rightarrow> u16 \<Rightarrow> nat list \<Rightarrow> packed_location \<Rightarrow> nat list \<Rightarrow> reclaim_index_action option index_op" where
  "prepare_reclaim_loop digest p fp candidates old [] = preturn None"
| "prepare_reclaim_loop digest p fp candidates old (d # ds) =
     (if duplicate_candidate candidates d then prepare_reclaim_loop digest p fp candidates old ds
      else pbind (on_storage (guard_slot_state digest p (candidates ! d))) (\<lambda>state.
        if \<not> token_location_matches state fp d old then prepare_reclaim_loop digest p fp candidates old ds
        else pbind (on_storage (guard_global_slot p (candidates ! d))) (\<lambda>global_slot.
             pbind (on_heat (heat_take_hot global_slot)) (\<lambda>hot.
             if hot then preturn (Some ReclaimReinsert)
             else pbind (replace_slot digest p (candidates ! d) state Empty) (\<lambda>_. preturn (Some ReclaimRemoved))))))"

definition prepare_reclaim :: "crc_stream \<Rightarrow> u64 \<Rightarrow> packed_location \<Rightarrow> reclaim_index_action index_op" where
  "prepare_reclaim digest hash old =
     pbind (on_storage (write_hash_partition hash)) (\<lambda>p.
     pbind (guard_slots p) (\<lambda>slots.
     pbind (prepare_reclaim_loop digest p (index_fingerprint hash) (candidate_slots hash slots) old [0..<INDEX_CANDIDATES]) (\<lambda>action.
     case action of
       Some a \<Rightarrow> preturn a
     | None \<Rightarrow> pbind record_conditional_remove_miss (\<lambda>_. preturn ReclaimMissing))))"

fun replace_loop :: "crc_stream \<Rightarrow> nat \<Rightarrow> u16 \<Rightarrow> nat list \<Rightarrow> packed_location \<Rightarrow> index_entry \<Rightarrow> nat list \<Rightarrow> bool index_op" where
  "replace_loop digest p fp candidates old replacement [] = preturn False"
| "replace_loop digest p fp candidates old replacement (d # ds) =
     (if duplicate_candidate candidates d then replace_loop digest p fp candidates old replacement ds
      else pbind (on_storage (guard_slot_state digest p (candidates ! d))) (\<lambda>state.
        if token_location_matches state fp d old
        then pbind (replace_slot digest p (candidates ! d) state (value_state fp d replacement)) (\<lambda>_. preturn True)
        else replace_loop digest p fp candidates old replacement ds))"

definition replace_if_match :: "crc_stream \<Rightarrow> u64 \<Rightarrow> packed_location \<Rightarrow> index_entry \<Rightarrow> bool index_op" where
  "replace_if_match digest hash old replacement =
     pbind (on_storage (write_hash_partition hash)) (\<lambda>p.
     pbind (guard_slots p) (\<lambda>slots.
     pbind (replace_loop digest p (index_fingerprint hash) (candidate_slots hash slots) old replacement
              [0..<INDEX_CANDIDATES]) (\<lambda>replaced.
     if replaced then preturn True
     else pbind (counted (\<lambda>x. x\<lparr>ri_conditional_replace_misses := ri_conditional_replace_misses x + 1\<rparr>)) (\<lambda>_. preturn False))))"

end
