(* ===== verification/Index_Map.thy ===== *)
theory Index_Map
  imports Region_Index
begin

text \<open>
  A partition table as a finite map. Every occupied bucket names its key: the home bucket its
  displacement points back to, and its fingerprint. \<open>table_wf\<close> says that no key occurs twice and
  that displacements are canonical (the first of several that address the same bucket);
  \<open>table_map\<close> is the map. Storing, clearing and moving buckets are updates of that map.
\<close>

section \<open>Displacements\<close>

definition canonical :: "nat \<Rightarrow> nat \<Rightarrow> bool" where
  "canonical n d \<longleftrightarrow> d < 4 \<and> (\<forall>d' < d. candidate_offset d' n \<noteq> candidate_offset d n)"

lemma candidate_offset_less: "0 < n \<Longrightarrow> candidate_offset d n < n"
  by (simp add: candidate_offset_def Let_def)

lemma slot_from_home_less: "h < n \<Longrightarrow> slot_from_home h d n < n"
  using candidate_offset_less [of n d] by (auto simp: slot_from_home_def Let_def)

lemma home_from_slot_less: "i < n \<Longrightarrow> home_from_slot i d n < n"
  using candidate_offset_less [of n d] by (auto simp: home_from_slot_def Let_def)

lemma home_of_slot: "h < n \<Longrightarrow> home_from_slot (slot_from_home h d n) d n = h"
  using candidate_offset_less [of n d] by (auto simp: home_from_slot_def slot_from_home_def Let_def)

lemma slot_of_home: "i < n \<Longrightarrow> slot_from_home (home_from_slot i d n) d n = i"
  using candidate_offset_less [of n d] by (auto simp: home_from_slot_def slot_from_home_def Let_def)

lemma slot_eq_iff:
  "h < n \<Longrightarrow> slot_from_home h d n = slot_from_home h d' n \<longleftrightarrow> candidate_offset d n = candidate_offset d' n"
  using candidate_offset_less [of n d] candidate_offset_less [of n d'] by (auto simp: slot_from_home_def Let_def)

lemma canonical_unique:
  assumes "canonical n d" "canonical n d'" "h < n" "slot_from_home h d n = slot_from_home h d' n"
  shows "d = d'"
proof -
  have "candidate_offset d n = candidate_offset d' n" using assms slot_eq_iff by simp
  then show ?thesis using assms(1,2) by (metis canonical_def linorder_neqE_nat)
qed

lemma candidate_home_less: "0 < n \<Longrightarrow> candidate_home hash n < n"
  by (simp add: candidate_home_def route_hash_mod)

lemma candidate_slots_nth:
  "d < 4 \<Longrightarrow> candidate_slots hash n ! d = slot_from_home (candidate_home hash n) d n"
  "length (candidate_slots hash n) = 4"
  by (simp_all add: candidate_slots_def INDEX_CANDIDATES_def)

lemma duplicate_iff:
  assumes "0 < n" "d < 4" shows "duplicate_candidate (candidate_slots hash n) d \<longleftrightarrow> \<not> canonical n d"
proof -
  have h: "candidate_home hash n < n" by (rule candidate_home_less [OF assms(1)])
  have "set (take d (candidate_slots hash n)) = {slot_from_home (candidate_home hash n) d' n |d'. d' < d}"
    using assms(2) by (auto simp: candidate_slots_def INDEX_CANDIDATES_def take_map)
  then have "duplicate_candidate (candidate_slots hash n) d \<longleftrightarrow> (\<exists>d' < d. candidate_offset d n = candidate_offset d' n)"
    using assms(2) h by (auto simp: duplicate_candidate_def candidate_slots_nth slot_eq_iff)
  then show ?thesis using assms(2) unfolding canonical_def by metis
qed

section \<open>Keys\<close>

type_synonym index_key = "nat \<times> u16"

fun slot_kv :: "nat \<Rightarrow> nat \<Rightarrow> index_slot_state \<Rightarrow> (index_key \<times> index_entry) option" where
  "slot_kv n i Empty = None"
| "slot_kv n i (Value f d e) = Some ((home_from_slot i (unat d) n, f), e)"

definition bucket_kv :: "index_slot_state list \<Rightarrow> nat \<Rightarrow> (index_key \<times> index_entry) option" where
  "bucket_kv t i = slot_kv (length t) i (t ! i)"

definition bucket_key :: "index_slot_state list \<Rightarrow> nat \<Rightarrow> index_key option" where
  "bucket_key t i = map_option fst (bucket_kv t i)"

text \<open>A state a bucket can hold and that a move keeps: quantized, with a canonical displacement.\<close>

definition state_wf :: "nat \<Rightarrow> index_slot_state \<Rightarrow> bool" where
  "state_wf n st \<longleftrightarrow> quantize st = st \<and> (case st of Empty \<Rightarrow> True | Value f d e \<Rightarrow> canonical n (unat d))"

definition table_wf :: "index_slot_state list \<Rightarrow> bool" where
  "table_wf t \<longleftrightarrow> 4 \<le> length t
     \<and> (\<forall>i < length t. state_wf (length t) (t ! i))
     \<and> (\<forall>i < length t. \<forall>j < length t. bucket_key t i \<noteq> None \<longrightarrow> bucket_key t i = bucket_key t j \<longrightarrow> i = j)"

definition table_map :: "index_slot_state list \<Rightarrow> index_key \<rightharpoonup> index_entry" where
  "table_map t = map_of (List.map_filter (bucket_kv t) [0..<length t])"

lemma in_map_filter: "y \<in> set (List.map_filter f xs) \<longleftrightarrow> (\<exists>x \<in> set xs. f x = Some y)"
  by (induction xs) (auto simp: List.map_filter_simps split: option.splits)

lemma table_map_None:
  "table_map t k = None \<longleftrightarrow> (\<forall>i < length t. bucket_key t i \<noteq> Some k)"
  by (auto simp: table_map_def map_of_eq_None_iff in_map_filter bucket_key_def image_iff Bex_def)

lemma table_map_SomeD:
  "table_map t k = Some e \<Longrightarrow> \<exists>i < length t. bucket_kv t i = Some (k, e)"
  by (auto simp: table_map_def in_map_filter dest!: map_of_SomeD) blast

lemma table_map_at:
  assumes "table_wf t" "i < length t" "bucket_kv t i = Some (k, e)"
  shows "table_map t k = Some e"
proof -
  have k: "bucket_key t i = Some k" using assms(3) by (simp add: bucket_key_def)
  then obtain e' where e': "table_map t k = Some e'"
    using assms(2) table_map_None [of t k] by auto
  then obtain j where j: "j < length t" "bucket_kv t j = Some (k, e')" by (auto dest: table_map_SomeD)
  then have "bucket_key t j = Some k" by (simp add: bucket_key_def)
  with assms(1,2) k j(1) have "i = j" by (simp add: table_wf_def)
  with assms(3) j(2) e' show ?thesis by simp
qed

lemma table_map_iff:
  assumes "table_wf t" shows "table_map t k = Some e \<longleftrightarrow> (\<exists>i < length t. bucket_kv t i = Some (k, e))"
  using table_map_SomeD table_map_at [OF assms] by blast

lemma table_map_eqI:
  assumes "table_wf t" "\<And>k e. m k = Some e \<longleftrightarrow> (\<exists>i < length t. bucket_kv t i = Some (k, e))"
  shows "table_map t = m"
proof
  fix k
  show "table_map t k = m k"
    using table_map_iff [OF assms(1), of k] assms(2) [of k]
    by (cases "table_map t k"; cases "m k") (metis option.distinct(1) option.inject)+
qed

section \<open>Updates\<close>

definition drop_key :: "'k option \<Rightarrow> ('k \<rightharpoonup> 'v) \<Rightarrow> ('k \<rightharpoonup> 'v)" where
  "drop_key k m = (case k of None \<Rightarrow> m | Some k \<Rightarrow> m(k := None))"

lemma bucket_kv_update:
  "i < length t \<Longrightarrow> bucket_kv (t[i := st]) j = (if j = i then slot_kv (length t) i st else bucket_kv t j)"
  by (simp add: bucket_kv_def nth_list_update)

lemma store_bucket:
  assumes wf: "table_wf t" and i: "i < length t" and st: "state_wf (length t) st"
    and free: "\<And>j k. j < length t \<Longrightarrow> j \<noteq> i \<Longrightarrow> map_option fst (slot_kv (length t) i st) = Some k \<Longrightarrow> bucket_key t j \<noteq> Some k"
  shows "table_wf (t[i := st])"
    "table_map (t[i := st]) =
       (case slot_kv (length t) i st of None \<Rightarrow> drop_key (bucket_key t i) (table_map t)
        | Some (k, e) \<Rightarrow> (drop_key (bucket_key t i) (table_map t))(k \<mapsto> e))"
proof -
  let ?t = "t[i := st]"
  have key: "bucket_key ?t j = (if j = i then map_option fst (slot_kv (length t) i st) else bucket_key t j)" for j
    using i by (simp add: bucket_key_def bucket_kv_update)
  have inj: "x = y" if "x < length t" "y < length t" "bucket_key ?t x \<noteq> None" "bucket_key ?t x = bucket_key ?t y" for x y
  proof (cases "x = i \<or> y = i")
    case True
    then show ?thesis using that key [of x] key [of y] free [of x] free [of y] by (auto split: if_splits)
  next
    case False
    then have "bucket_key t x \<noteq> None" "bucket_key t x = bucket_key t y" using that key [of x] key [of y] by simp_all
    with wf that(1,2) show ?thesis unfolding table_wf_def by blast
  qed
  have "state_wf (length t) (?t ! x)" if "x < length t" for x
    using that wf i st by (cases "x = i") (simp_all add: table_wf_def)
  with inj show wf': "table_wf ?t" using wf unfolding table_wf_def length_list_update by blast
  have others: "(\<exists>j < length t. j \<noteq> i \<and> bucket_kv t j = Some (k, e)) \<longleftrightarrow> drop_key (bucket_key t i) (table_map t) k = Some e" for k e
  proof
    assume "\<exists>j < length t. j \<noteq> i \<and> bucket_kv t j = Some (k, e)"
    then obtain j where j: "j < length t" "j \<noteq> i" "bucket_kv t j = Some (k, e)" by blast
    then have "bucket_key t i \<noteq> Some k" using wf i by (auto simp: table_wf_def bucket_key_def)
    with table_map_at [OF wf j(1,3)] show "drop_key (bucket_key t i) (table_map t) k = Some e"
      by (auto simp: drop_key_def split: option.splits)
  next
    assume d: "drop_key (bucket_key t i) (table_map t) k = Some e"
    then have "table_map t k = Some e" "bucket_key t i \<noteq> Some k"
      by (auto simp: drop_key_def split: option.splits if_splits)
    then obtain j where j: "j < length t" "bucket_kv t j = Some (k, e)" by (auto dest: table_map_SomeD)
    then have "j \<noteq> i" using \<open>bucket_key t i \<noteq> Some k\<close> by (cases "j = i") (simp_all add: bucket_key_def)
    with j show "\<exists>j < length t. j \<noteq> i \<and> bucket_kv t j = Some (k, e)" by blast
  qed
  have all: "(\<exists>j < length ?t. bucket_kv ?t j = Some (k, e)) \<longleftrightarrow>
      slot_kv (length t) i st = Some (k, e) \<or> drop_key (bucket_key t i) (table_map t) k = Some e" for k e
    using i others [of k e] by (auto simp: bucket_kv_update)
  have absent: "drop_key (bucket_key t i) (table_map t) k = None" if "slot_kv (length t) i st = Some (k, e)" for k e
  proof (rule ccontr)
    assume "drop_key (bucket_key t i) (table_map t) k \<noteq> None"
    then obtain j e' where "j < length t" "j \<noteq> i" "bucket_kv t j = Some (k, e')" using others [of k] by blast
    with free [of j k] that show False by (simp add: bucket_key_def)
  qed
  show "table_map ?t = (case slot_kv (length t) i st of None \<Rightarrow> drop_key (bucket_key t i) (table_map t)
        | Some (k, e) \<Rightarrow> (drop_key (bucket_key t i) (table_map t))(k \<mapsto> e))"
  proof (rule table_map_eqI [OF wf'])
    fix k e
    show "(case slot_kv (length t) i st of None \<Rightarrow> drop_key (bucket_key t i) (table_map t)
        | Some (k, e) \<Rightarrow> (drop_key (bucket_key t i) (table_map t))(k \<mapsto> e)) k = Some e \<longleftrightarrow>
        (\<exists>j < length ?t. bucket_kv ?t j = Some (k, e))"
      unfolding all using absent by (cases "slot_kv (length t) i st") (auto split: prod.splits)
  qed
qed

lemma clear_bucket:
  assumes "table_wf t" "i < length t"
  shows "table_wf (t[i := Empty])" "table_map (t[i := Empty]) = drop_key (bucket_key t i) (table_map t)"
  using store_bucket [OF assms, of Empty] by (simp_all add: state_wf_def quantize_def)

lemma table_map_key_at:
  assumes "table_wf t" "i < length t" "table_map t k = Some e" "bucket_key t i = Some k"
  shows "bucket_kv t i = Some (k, e)"
  using assms table_map_at [OF assms(1,2)] by (cases "bucket_kv t i") (auto simp: bucket_key_def)

text \<open>Storing a key that is nowhere else.\<close>

lemma store_value:
  assumes wf: "table_wf t" and i: "i < length t" and st: "state_wf (length t) (Value f d e)"
    and home: "home_from_slot i (unat d) (length t) = h"
    and free: "drop_key (bucket_key t i) (table_map t) (h, f) = None"
  shows "table_wf (t[i := Value f d e])"
    "table_map (t[i := Value f d e]) = (drop_key (bucket_key t i) (table_map t))((h, f) \<mapsto> e)"
proof -
  have fr: "bucket_key t j \<noteq> Some k" if "j < length t" "j \<noteq> i" "k = (h, f)" for j k
  proof
    assume kj: "bucket_key t j = Some k"
    then obtain e' where "bucket_kv t j = Some (k, e')" by (auto simp: bucket_key_def)
    with table_map_at [OF wf that(1)] have "table_map t k = Some e'" by blast
    with free that(3) have "bucket_key t i = Some k" by (auto simp: drop_key_def split: option.splits if_splits)
    with kj wf i that show False by (auto simp: table_wf_def)
  qed
  have "map_option fst (slot_kv (length t) i (Value f d e)) = Some (h, f)" using home by simp
  with store_bucket [OF wf i st] fr home
  show "table_wf (t[i := Value f d e])"
    "table_map (t[i := Value f d e]) = (drop_key (bucket_key t i) (table_map t))((h, f) \<mapsto> e)"
    by auto
qed

text \<open>Moving an entry to an empty bucket of the same key leaves the map as it is.\<close>

lemma move_bucket:
  assumes wf: "table_wf t" and i: "i < length t" and j: "j < length t" and ne: "i \<noteq> j"
    and src: "t ! i = Value f d e" and dst: "t ! j = Empty"
    and st: "state_wf (length t) (Value f d' e)"
    and home: "home_from_slot j (unat d') (length t) = home_from_slot i (unat d) (length t)"
  shows "table_wf (t[i := Empty, j := Value f d' e])" "table_map (t[i := Empty, j := Value f d' e]) = table_map t"
proof -
  let ?t = "t[i := Empty]" and ?k = "(home_from_slot i (unat d) (length t), f)"
  have kv: "bucket_kv t i = Some (?k, e)" by (simp add: bucket_kv_def src)
  note c = clear_bucket [OF wf i]
  have kj: "bucket_key ?t j = None" using dst ne by (simp add: bucket_key_def bucket_kv_def)
  have m: "table_map ?t = (table_map t)(?k := None)" using c(2) kv by (simp add: drop_key_def bucket_key_def)
  have st': "state_wf (length ?t) (Value f d' e)" and home': "home_from_slot j (unat d') (length ?t) = home_from_slot i (unat d) (length t)"
    and j': "j < length ?t" using st home j by simp_all
  have free: "drop_key (bucket_key ?t j) (table_map ?t) (home_from_slot i (unat d) (length t), f) = None"
    by (simp add: kj m drop_key_def)
  note s = store_value [OF c(1) j' st' home' free]
  show "table_wf (t[i := Empty, j := Value f d' e])" by (rule s(1))
  show "table_map (t[i := Empty, j := Value f d' e]) = table_map t"
    using s(2) table_map_at [OF wf i kv] by (simp add: kj m drop_key_def fun_upd_idem)
qed

end
