(* ===== verification/Index_Upsert.thy ===== *)
theory Index_Upsert
  imports Index_Map
begin

text \<open>
  Correctness of the index operations on a healthy image: symbolic execution of the code of
  \<open>Region_Index\<close> over the table interface of \<open>Index_Table\<close>, and the map of \<open>Index_Map\<close>.
\<close>

section \<open>Symbolic execution\<close>

definition holds :: "crc_stream \<Rightarrow> index_slot_state list list \<Rightarrow> region_index \<Rightarrow> bool" where
  "holds digest ts x \<longleftrightarrow> storage_ok digest (ri_storage x) \<and> tables (ri_storage x) = ts"

lemma pzoom_storage:
  "m (ri_storage x) = Some (r, st) \<Longrightarrow> on_storage m x = Some (r, x\<lparr>ri_storage := st\<rparr>)"
  by (simp add: on_storage_def pzoom_def)

lemma run_read:
  assumes "p < length ts" "i < length (ts ! p)" "returns (holds digest ts) (f (ts ! p ! i)) Q"
  shows "returns (holds digest ts) (pbind (on_storage (guard_slot_state digest p i)) f) Q"
proof (rule returns_bind)
  show "returns (holds digest ts) (on_storage (guard_slot_state digest p i)) (\<lambda>st x. st = ts ! p ! i \<and> holds digest ts x)"
    unfolding returns_def
  proof (intro allI impI)
    fix x assume x: "holds digest ts x"
    then obtain s' where "guard_slot_state digest p i (ri_storage x) = Some (Inr (ts ! p ! i), s')"
      "storage_ok digest s'" "tables s' = ts"
      using partitioned.read_law [of digest "ri_storage x" p i] assms(1,2) by (auto simp: holds_def)
    then show "\<exists>a s'. on_storage (guard_slot_state digest p i) x = Some (Inr a, s') \<and> a = ts ! p ! i \<and> holds digest ts s'"
      by (simp add: pzoom_storage holds_def)
  qed
  fix st show "returns (\<lambda>x. st = ts ! p ! i \<and> holds digest ts x) (f st) Q"
    by (rule returns_pure) (use assms(3) in simp)
qed

lemma run_global:
  assumes "p < length ts" "i < length (ts ! p)" "\<And>g. returns (holds digest ts) (f g) Q"
  shows "returns (holds digest ts) (pbind (on_storage (guard_global_slot p i)) f) Q"
proof (rule returns_bind [where Q = "\<lambda>_. holds digest ts", OF _ assms(3)])
  show "returns (holds digest ts) (on_storage (guard_global_slot p i)) (\<lambda>_. holds digest ts)"
    unfolding returns_def
  proof (intro allI impI)
    fix x assume x: "holds digest ts x"
    then have "guard_global_slot p i (ri_storage x) =
        Some (Inr (map first_slot (pis_ranges (ri_storage x)) ! p + i), ri_storage x)"
      using partitioned.global_law [of digest "ri_storage x" p i] assms(1,2) by (simp add: holds_def)
    with x show "\<exists>a s'. on_storage (guard_global_slot p i) x = Some (Inr a, s') \<and> holds digest ts s'"
      by (simp add: pzoom_storage holds_def)
  qed
qed

lemma run_heat:
  assumes "\<And>a. returns (holds digest ts) (f a) Q"
  shows "returns (holds digest ts) (pbind (on_heat g) f) Q"
  by (rule returns_bind [where Q = "\<lambda>_. holds digest ts", OF _ assms])
     (auto simp: returns_def on_heat_def holds_def split: prod.splits)

lemma run_counted:
  assumes "returns (holds digest ts) (f ()) Q"
    and "\<And>x. ri_storage (bump x) = ri_storage x"
  shows "returns (holds digest ts) (pbind (counted bump) f) Q"
proof (rule returns_bind [where Q = "\<lambda>_. holds digest ts"])
  show "returns (holds digest ts) (counted bump) (\<lambda>_. holds digest ts)"
    using assms(2) by (simp add: returns_def counted_def holds_def)
qed (use assms(1) in simp)

lemma run_replace:
  assumes "p < length ts" "i < length (ts ! p)" "kind_of_state prev = kind_of_state (ts ! p ! i)"
    and "returns (holds digest (ts[p := (ts ! p)[i := quantize new]])) (f ()) Q"
  shows "returns (holds digest ts) (pbind (replace_slot digest p i prev new) f) Q"
proof (rule returns_bind)
  let ?ts = "ts[p := (ts ! p)[i := quantize new]]"
  have "returns (holds digest ts) (on_storage (guard_replace_observed digest p i prev new)) (\<lambda>_. holds digest ?ts)"
    unfolding returns_def
  proof (intro allI impI)
    fix x assume x: "holds digest ts x"
    then obtain s' where "guard_replace_observed digest p i prev new (ri_storage x) = Some (Inr (), s')"
      "storage_ok digest s'" "tables s' = ?ts"
      using partitioned.write_law [of digest "ri_storage x" p i prev new] assms(1-3) by (auto simp: holds_def)
    then show "\<exists>a s'. on_storage (guard_replace_observed digest p i prev new) x = Some (Inr a, s') \<and> holds digest ?ts s'"
      by (simp add: pzoom_storage holds_def)
  qed
  then have "returns (holds digest ts) (pbind (on_storage (guard_replace_observed digest p i prev new))
      (\<lambda>_. on_heat (\<lambda>h. ((), heat_clear g h)))) (\<lambda>_. holds digest ?ts)" for g
    by (rule returns_bind) (simp add: returns_def on_heat_def holds_def)
  then show "returns (holds digest ts) (replace_slot digest p i prev new) (\<lambda>_. holds digest ?ts)"
    unfolding replace_slot_def by (intro run_global assms)
qed (use assms(4) in simp)

lemma run_write_partition:
  assumes "\<And>p. p = index_partition_for hash (length ts) \<Longrightarrow> p < length ts \<Longrightarrow> returns (holds digest ts) (f p) Q"
  shows "returns (holds digest ts) (pbind (on_storage (write_hash_partition hash)) f) Q"
proof (rule returns_bind)
  let ?p = "index_partition_for hash (length ts)"
  show "returns (holds digest ts) (on_storage (write_hash_partition hash)) (\<lambda>p x. (p = ?p \<and> p < length ts) \<and> holds digest ts x)"
    unfolding returns_def
  proof (intro allI impI)
    fix x assume x: "holds digest ts x"
    then have ok: "storage_ok digest (ri_storage x)" and ts: "length ts = length (pis_ranges (ri_storage x))" by (auto simp: holds_def)
    note f = storage_ok_facts [OF ok]
    have p: "?p < length (pis_partitions (ri_storage x))" using f(1,6) ts by simp
    then have "\<not> part_poisoned (pis_partitions (ri_storage x) ! ?p)" using ok by (simp add: storage_ok_def)
    with p f(1) ts have "write_hash_partition hash (ri_storage x) = Some (Inr ?p, ri_storage x)"
      by (simp add: write_hash_partition_def lock_partition_def get_at_def)
    with x p f(1) ts show "\<exists>a s'. on_storage (write_hash_partition hash) x = Some (Inr a, s') \<and> (a = ?p \<and> a < length ts) \<and> holds digest ts s'"
      by (simp add: pzoom_storage)
  qed
  fix p show "returns (\<lambda>x. (p = ?p \<and> p < length ts) \<and> holds digest ts x) (f p) Q"
    by (rule returns_pure) (use assms in simp)
qed

lemma try_write_same:
  "\<not> contended (index_partition_for hash (length (pis_partitions s))) \<Longrightarrow>
   try_hash_partition contended hash s = write_hash_partition hash s"
  by (simp add: try_hash_partition_def write_hash_partition_def)

lemma run_try_partition:
  assumes "\<not> contended (index_partition_for hash (length ts))"
    and "\<And>p. p = index_partition_for hash (length ts) \<Longrightarrow> p < length ts \<Longrightarrow> returns (holds digest ts) (f p) Q"
  shows "returns (holds digest ts) (pbind (on_storage (try_hash_partition contended hash)) f) Q"
proof -
  have "on_storage (try_hash_partition contended hash) x = on_storage (write_hash_partition hash) x" if x: "holds digest ts x" for x
  proof -
    have "length (pis_partitions (ri_storage x)) = length ts"
      using x storage_ok_facts(1) by (auto simp: holds_def)
    with assms(1) show ?thesis by (simp add: on_storage_def pzoom_def try_write_same)
  qed
  then show ?thesis using run_write_partition [of hash ts digest f Q] assms(2) unfolding returns_def pbind_def by simp
qed

lemma run_guard_slots:
  assumes "p < length ts" "returns (holds digest ts) (f (length (ts ! p))) Q"
  shows "returns (holds digest ts) (pbind (guard_slots p) f) Q"
proof (rule returns_bind)
  show "returns (holds digest ts) (guard_slots p) (\<lambda>n x. n = length (ts ! p) \<and> holds digest ts x)"
    unfolding returns_def
  proof (intro allI impI)
    fix x assume x: "holds digest ts x"
    then have "p < length (pis_ranges (ri_storage x))" using assms(1) by (auto simp: holds_def)
    with x storage_ok_facts(5) [of digest "ri_storage x" p]
    show "\<exists>a s'. guard_slots p x = Some (Inr a, s') \<and> a = length (ts ! p) \<and> holds digest ts s'"
      by (auto simp: guard_slots_def guard_slot_count_def get_at_def holds_def)
  qed
  fix n show "returns (\<lambda>x. n = length (ts ! p) \<and> holds digest ts x) (f n) Q"
    by (rule returns_pure) (use assms(2) in simp)
qed

lemma run_return: "(\<And>x. holds digest ts x \<Longrightarrow> Q a x) \<Longrightarrow> returns (holds digest ts) (preturn a) Q"
  by (rule returns_preturn)

section \<open>Lookup\<close>

definition hit :: "index_slot_state list \<Rightarrow> u16 \<Rightarrow> nat list \<Rightarrow> nat \<Rightarrow> bool" where
  "hit t fp candidates d \<longleftrightarrow> \<not> duplicate_candidate candidates d \<and> token_matches (t ! (candidates ! d)) fp d"

fun state_entry :: "index_slot_state \<Rightarrow> index_entry option" where
  "state_entry Empty = None"
| "state_entry (Value f d e) = Some e"

lemma lookup_loop_returns:
  assumes "p < length ts" "\<And>d. d \<in> set ds \<Longrightarrow> candidates ! d < length (ts ! p)"
  shows "returns (holds digest ts) (lookup_loop digest p fp candidates ds)
    (\<lambda>r x. r = (case find (hit (ts ! p) fp candidates) ds of None \<Rightarrow> None | Some d \<Rightarrow> state_entry (ts ! p ! (candidates ! d)))
       \<and> holds digest ts x)"
  using assms(2)
proof (induction ds)
  case Nil
  then show ?case by (simp add: returns_def)
next
  case (Cons d ds)
  note IH = Cons.IH [OF Cons.prems, OF list.set_intros(2)]
  show ?case
  proof (cases "duplicate_candidate candidates d")
    case True
    then show ?thesis using IH by (simp add: hit_def)
  next
    case False
    have d: "candidates ! d < length (ts ! p)" using Cons.prems by simp
    show ?thesis
    proof (cases "ts ! p ! (candidates ! d)")
      case Empty
      then show ?thesis using False IH d by (auto simp: hit_def token_matches_def intro!: run_read assms(1))
    next
      case (Value f d' e)
      show ?thesis
      proof (cases "f = fp \<and> unat d' = d")
        case True
        then show ?thesis using False Value d
          by (auto simp: hit_def token_matches_def intro!: run_read run_global run_heat run_return assms(1))
      next
        case no: False
        then show ?thesis using False Value IH d
          by (auto simp: hit_def token_matches_def intro!: run_read assms(1))
      qed
    qed
  qed
qed

text \<open>A hit is the bucket that holds the key.\<close>

definition hash_key_of :: "u64 \<Rightarrow> nat \<Rightarrow> index_key" where
  "hash_key_of hash n = (candidate_home hash n, index_fingerprint hash)"

lemma candidate_less: "0 < n \<Longrightarrow> d < 4 \<Longrightarrow> candidate_slots hash n ! d < n"
  by (simp add: candidate_slots_nth slot_from_home_less candidate_home_less)

lemma hit_key:
  assumes "0 < length t" "d < 4" "hit t (index_fingerprint hash) (candidate_slots hash (length t)) d"
  shows "bucket_key t (candidate_slots hash (length t) ! d) = Some (hash_key_of hash (length t))"
    "canonical (length t) d" "t ! (candidate_slots hash (length t) ! d) \<noteq> Empty"
proof -
  let ?n = "length t" and ?i = "candidate_slots hash (length t) ! d"
  show "canonical ?n d" using assms duplicate_iff [OF assms(1,2)] by (simp add: hit_def)
  from assms(3) obtain d' e where v: "t ! ?i = Value (index_fingerprint hash) d' e" "unat d' = d"
    by (auto simp: hit_def token_matches_def split: index_slot_state.splits)
  then show "t ! ?i \<noteq> Empty" by simp
  show "bucket_key t ?i = Some (hash_key_of hash ?n)"
    using v home_of_slot [OF candidate_home_less [OF assms(1)], of hash d] assms(2)
    by (simp add: bucket_key_def bucket_kv_def hash_key_of_def candidate_slots_nth)
qed

lemma key_hit:
  assumes wf: "table_wf t" and i: "i < length t" and k: "bucket_key t i = Some (hash_key_of hash (length t))"
  shows "\<exists>d < 4. hit t (index_fingerprint hash) (candidate_slots hash (length t)) d \<and> i = candidate_slots hash (length t) ! d"
proof -
  let ?n = "length t"
  have n: "0 < ?n" using i by linarith
  from k obtain d' e where v: "t ! i = Value (index_fingerprint hash) d' e" "home_from_slot i (unat d') ?n = candidate_home hash ?n"
    by (cases "t ! i") (auto simp: bucket_key_def bucket_kv_def hash_key_of_def)
  have c: "canonical ?n (unat d')" using wf i v(1) by (auto simp: table_wf_def state_wf_def split: index_slot_state.splits)
  then have d: "unat d' < 4" by (simp add: canonical_def)
  have "i = candidate_slots hash ?n ! unat d'"
    using slot_of_home [OF i, of "unat d'"] v(2) d by (simp add: candidate_slots_nth)
  then show ?thesis using v c d duplicate_iff [OF n d] by (auto simp: hit_def token_matches_def intro!: exI [of _ "unat d'"])
qed

lemma hit_unique:
  assumes "table_wf t" "d < 4" "d' < 4" "hit t (index_fingerprint hash) (candidate_slots hash (length t)) d"
    "hit t (index_fingerprint hash) (candidate_slots hash (length t)) d'"
  shows "d = d'"
proof -
  let ?n = "length t"
  have n: "0 < ?n" using assms(1) by (auto simp: table_wf_def)
  note k = hit_key(1) [OF n assms(2,4)] hit_key(1) [OF n assms(3,5)]
  then have "candidate_slots hash ?n ! d = candidate_slots hash ?n ! d'"
    using assms(1) candidate_less [OF n] assms(2,3) unfolding table_wf_def by (metis option.distinct(1))
  then show ?thesis
    using canonical_unique [OF hit_key(2) [OF n assms(2,4)] hit_key(2) [OF n assms(3,5)] candidate_home_less [OF n, of hash]] assms(2,3)
    by (simp add: candidate_slots_nth)
qed

lemma find_hit:
  assumes wf: "table_wf t"
  shows "table_map t (hash_key_of hash (length t)) =
    (case find (hit t (index_fingerprint hash) (candidate_slots hash (length t))) [0..<4] of
       None \<Rightarrow> None | Some d \<Rightarrow> state_entry (t ! (candidate_slots hash (length t) ! d)))"
proof -
  let ?n = "length t" and ?k = "hash_key_of hash (length t)" and ?c = "candidate_slots hash (length t)"
  have n: "0 < ?n" using wf by (auto simp: table_wf_def)
  show ?thesis
  proof (cases "find (hit t (index_fingerprint hash) ?c) [0..<4]")
    case None
    then have "\<not> hit t (index_fingerprint hash) ?c d" if "d < 4" for d using that by (simp add: find_upt_None)
    then have "table_map t ?k = None" using key_hit [OF wf] unfolding table_map_None by blast
    with None show ?thesis by simp
  next
    case (Some d)
    then have d: "d < 4" "hit t (index_fingerprint hash) ?c d" by (simp_all add: find_upt_Some)
    note h = hit_key [OF n d]
    obtain e where "bucket_kv t (?c ! d) = Some (?k, e)" using h(1) by (auto simp: bucket_key_def)
    moreover from this have "state_entry (t ! (?c ! d)) = Some e" by (cases "t ! (?c ! d)") (auto simp: bucket_kv_def)
    ultimately show ?thesis using table_map_at [OF wf candidate_less [OF n d(1)]] Some by simp
  qed
qed

section \<open>Installing the new entry\<close>

definition quantize_entry :: "index_entry \<Rightarrow> index_entry" where
  "quantize_entry e = e\<lparr>location := quantize_location (location e)\<rparr>"

lemma quantize_value:
  assumes "d < 4" "f AND mask 14 = f"
  shows "quantize (value_state f d e) = Value f (of_nat d) (quantize_entry e)" "unat (of_nat d :: u8) = d"
proof -
  show u: "unat (of_nat d :: u8) = d" using assms(1) by (simp add: unat_of_nat)
  have "take_bit 2 (of_nat d :: u8) = of_nat d" by (rule take_bit_self_unat) (use assms(1) u in simp)
  then show "quantize (value_state f d e) = Value f (of_nat d) (quantize_entry e)"
    using assms(2) by (simp add: quantize_def value_state_def quantize_entry_def take_bit_eq_mask)
qed

lemma fingerprint_mask: "index_fingerprint hash AND mask 14 = index_fingerprint hash"
proof -
  have "FINGERPRINT_MASK = mask 14" by (simp add: FINGERPRINT_MASK_def mask_eq_exp_minus_1)
  then show ?thesis by (simp add: index_fingerprint_def Let_def and.assoc)
qed

lemma state_wf_value:
  assumes "canonical n d" "f AND mask 14 = f"
  shows "state_wf n (quantize (value_state f d e))"
proof -
  have "d < 4" using assms(1) by (simp add: canonical_def)
  note q = quantize_value [OF this assms(2)]
  have "quantize (Value f (of_nat d) (quantize_entry e)) = Value f (of_nat d) (quantize_entry e)"
    using quantize_idem [of "value_state f d e"] by (simp only: q(1))
  then show ?thesis using assms(1) q(2) by (simp add: q(1) state_wf_def)
qed

text \<open>The entry a hash stores in a candidate bucket.\<close>

lemma install:
  assumes wf: "table_wf t" and d: "canonical (length t) d" "i = candidate_slots hash (length t) ! d"
    and free: "drop_key (bucket_key t i) (table_map t) (hash_key_of hash (length t)) = None"
  shows "table_wf (t[i := quantize (value_state (index_fingerprint hash) d e)])"
    "table_map (t[i := quantize (value_state (index_fingerprint hash) d e)]) =
       (drop_key (bucket_key t i) (table_map t))(hash_key_of hash (length t) \<mapsto> quantize_entry e)"
proof -
  let ?n = "length t"
  have n: "0 < ?n" and d4: "d < 4" using wf d(1) by (auto simp: table_wf_def canonical_def)
  note q = quantize_value [OF d4 fingerprint_mask]
  have i: "i < ?n" using candidate_less [OF n d4] d(2) by simp
  have home: "home_from_slot i (unat (of_nat d :: u8)) ?n = candidate_home hash ?n"
    using home_of_slot [OF candidate_home_less [OF n], of hash d] d(2) d4 by (simp add: q(2) candidate_slots_nth)
  have st: "state_wf ?n (Value (index_fingerprint hash) (of_nat d) (quantize_entry e))"
    using state_wf_value [OF d(1) fingerprint_mask, of hash e] by (simp add: q(1))
  from store_value [OF wf i st home] free
  show "table_wf (t[i := quantize (value_state (index_fingerprint hash) d e)])"
    "table_map (t[i := quantize (value_state (index_fingerprint hash) d e)]) =
       (drop_key (bucket_key t i) (table_map t))(hash_key_of hash ?n \<mapsto> quantize_entry e)"
    by (simp_all add: q(1) hash_key_of_def)
qed

lemma drop_key_absent: "m k = None \<Longrightarrow> drop_key x m k = None"
  by (simp add: drop_key_def split: option.splits)

lemma drop_key_same: "drop_key (Some k) m k = None" "(drop_key (Some k) m)(k \<mapsto> v) = m(k \<mapsto> v)"
  by (simp_all add: drop_key_def)

lemma bucket_key_Empty: "t ! i = Empty \<Longrightarrow> bucket_key t i = None"
  by (simp add: bucket_key_def bucket_kv_def)

section \<open>Relocation\<close>

definition installs :: "u64 \<Rightarrow> index_entry \<Rightarrow> index_slot_state list \<Rightarrow> index_slot_state list \<Rightarrow> bool" where
  "installs hash e t t' \<longleftrightarrow> table_wf t' \<and> length t' = length t
     \<and> table_map t' = (table_map t)(hash_key_of hash (length t) \<mapsto> quantize_entry e)"

lemma bucket_state:
  assumes "table_wf t" "i < length t" "t ! i = Value f d e"
  shows "canonical (length t) (unat d)" "f AND mask 14 = f" "quantize_entry e = e"
proof -
  have st: "state_wf (length t) (Value f d e)" using assms unfolding table_wf_def by metis
  then show "canonical (length t) (unat d)" by (simp add: state_wf_def)
  from st show "f AND mask 14 = f" "quantize_entry e = e"
    by (simp_all add: state_wf_def quantize_def quantize_entry_def)
qed

lemma moved_state:
  assumes "table_wf t" "i < length t" "t ! i = Value f d e" "canonical (length t) u"
  shows "quantize (value_state f u e) = Value f (of_nat u) e" "unat (of_nat u :: u8) = u"
    "state_wf (length t) (Value f (of_nat u) e)"
proof -
  have "u < 4" using assms(4) by (simp add: canonical_def)
  note q = quantize_value [OF this bucket_state(2) [OF assms(1-3)]]
  show "quantize (value_state f u e) = Value f (of_nat u) e" "unat (of_nat u :: u8) = u"
    using q bucket_state(3) [OF assms(1-3)] by simp_all
  then show "state_wf (length t) (Value f (of_nat u) e)"
    using state_wf_value [OF assms(4) bucket_state(2) [OF assms(1-3)], of e] by simp
qed

lemma relocate_one:
  assumes wf: "table_wf t" and i: "i < length t" "t ! i = Value f d e" and j: "t ! j = Empty" "i \<noteq> j"
    and u: "canonical (length t) u" "j = slot_from_home (home_from_slot i (unat d) (length t)) u (length t)"
    and sd: "canonical (length t) sd" "i = candidate_slots hash (length t) ! sd"
    and absent: "table_map t (hash_key_of hash (length t)) = None"
  shows "installs hash s t (t[j := quantize (value_state f u e), i := quantize (value_state (index_fingerprint hash) sd s)])"
proof -
  let ?n = "length t" and ?new = "quantize (value_state (index_fingerprint hash) sd s)"
  note q = moved_state [OF wf i u(1)]
  have hn: "home_from_slot i (unat d) ?n < ?n" by (rule home_from_slot_less [OF i(1)])
  have jn: "j < ?n" using slot_from_home_less [OF hn] u(2) by simp
  have home: "home_from_slot j (unat (of_nat u :: u8)) ?n = home_from_slot i (unat d) ?n"
    using home_of_slot [OF hn] u(2) q(2) by simp
  let ?t = "t[i := Empty, j := Value f (of_nat u) e]"
  note m = move_bucket [OF wf i(1) jn j(2) i(2) j(1) q(3) home]
  have ti: "bucket_key ?t i = None" using j(2) i(1) by (intro bucket_key_Empty) simp
  have sd': "canonical (length ?t) sd" "i = candidate_slots hash (length ?t) ! sd" using sd by simp_all
  have "drop_key (bucket_key ?t i) (table_map ?t) (hash_key_of hash (length ?t)) = None"
    using absent by (simp add: ti m(2) drop_key_def)
  note ins = install [OF m(1) sd' this]
  have "table_wf (?t[i := ?new])" by (rule ins(1))
  moreover have "table_map (?t[i := ?new]) = (table_map t)(hash_key_of hash ?n \<mapsto> quantize_entry s)"
    unfolding ins(2) by (simp add: ti m(2) drop_key_def)
  moreover have "?t[i := ?new] = t[j := Value f (of_nat u) e, i := ?new]"
    using j(2) by (simp add: list_update_swap [of i j])
  ultimately show ?thesis by (simp add: installs_def q(1))
qed

lemma relocate_two:
  assumes wf: "table_wf t" and i: "i < length t" "t ! i = Value f d e" and j: "j < length t" "t ! j = Value g c b"
    and k: "t ! k = Empty" and ne: "i \<noteq> j" "k \<noteq> i" "k \<noteq> j"
    and u: "canonical (length t) u" "k = slot_from_home (home_from_slot j (unat c) (length t)) u (length t)"
    and m: "canonical (length t) m" "j = slot_from_home (home_from_slot i (unat d) (length t)) m (length t)"
    and sd: "canonical (length t) sd" "i = candidate_slots hash (length t) ! sd"
    and absent: "table_map t (hash_key_of hash (length t)) = None"
  shows "installs hash s t (t[k := quantize (value_state g u b), j := quantize (value_state f m e),
      i := quantize (value_state (index_fingerprint hash) sd s)])"
proof -
  let ?n = "length t" and ?B = "Value g (of_nat u) b"
  note q = moved_state [OF wf j u(1)]
  have hn: "home_from_slot j (unat c) ?n < ?n" by (rule home_from_slot_less [OF j(1)])
  have kn: "k < ?n" using slot_from_home_less [OF hn] u(2) by simp
  have home: "home_from_slot k (unat (of_nat u :: u8)) ?n = home_from_slot j (unat c) ?n"
    using home_of_slot [OF hn] u(2) q(2) by simp
  let ?t = "t[j := Empty, k := ?B]"
  note mv = move_bucket [OF wf j(1) kn ne(3) [symmetric] j(2) k q(3) home]
  have "installs hash s ?t (?t[j := quantize (value_state f m e), i := quantize (value_state (index_fingerprint hash) sd s)])"
    by (rule relocate_one [OF mv(1), of i f d e j m sd hash s])
       (use i j ne m sd absent mv(2) kn in simp_all)
  moreover have "?t[j := x] = t[k := ?B, j := x]" for x using ne(3) by (simp add: list_update_swap)
  ultimately show ?thesis using mv(2) by (simp add: installs_def q(1))
qed

text \<open>The displacement a move picks is the first that addresses its bucket.\<close>

lemma first_target_canonical:
  assumes h: "h < n" and u: "u < 4" "slot_from_home h u n \<noteq> src"
    and cur: "slot_from_home h cur n = src" and ok: "P (slot_from_home h u n)"
    and skipped: "\<And>v. v < u \<Longrightarrow> v = cur \<or> slot_from_home h v n = src \<or> \<not> P (slot_from_home h v n)"
  shows "canonical n u"
proof -
  have "candidate_offset v n \<noteq> candidate_offset u n" if "v < u" for v
  proof
    assume "candidate_offset v n = candidate_offset u n"
    then have "slot_from_home h v n = slot_from_home h u n" using slot_eq_iff [OF h] by simp
    with skipped [OF that] u(2) ok cur show False by auto
  qed
  with u(1) show ?thesis by (simp add: canonical_def)
qed

section \<open>The code of an insertion\<close>

text \<open>What the scan reports after it has looked at the candidates \<open>ds\<close>.\<close>

definition scan_post :: "crc_stream \<Rightarrow> index_slot_state list list \<Rightarrow> nat \<Rightarrow> u16 \<Rightarrow> nat list \<Rightarrow> index_entry \<Rightarrow> nat list
    \<Rightarrow> index_slot_state list \<Rightarrow> nat option \<Rightarrow> (index_slot_state list \<times> nat option) option \<Rightarrow> region_index \<Rightarrow> bool" where
  "scan_post digest ts p fp candidates supplied ds observed first_empty r x \<longleftrightarrow>
     (case r of
       None \<Rightarrow> \<exists>d \<in> set ds. hit (ts ! p) fp candidates d
         \<and> holds digest (ts[p := (ts ! p)[candidates ! d := quantize (value_state fp d supplied)]]) x
     | Some (obs, fe) \<Rightarrow> holds digest ts x \<and> (\<forall>d \<in> set ds. \<not> hit (ts ! p) fp candidates d) \<and> length obs = 4
         \<and> (\<forall>d < 4. obs ! d = (if d \<in> set ds \<and> \<not> duplicate_candidate candidates d then ts ! p ! (candidates ! d) else observed ! d))
         \<and> fe = (case first_empty of Some e \<Rightarrow> Some e
                 | None \<Rightarrow> find (\<lambda>d. \<not> duplicate_candidate candidates d \<and> ts ! p ! (candidates ! d) = Empty) ds))"

lemma scan_post_duplicate:
  assumes "duplicate_candidate candidates d"
    "scan_post digest ts p fp candidates supplied ds observed first_empty r x"
  shows "scan_post digest ts p fp candidates supplied (d # ds) observed first_empty r x"
proof -
  have nh: "\<not> hit (ts ! p) fp candidates d" using assms(1) by (simp add: hit_def)
  show ?thesis
    using assms nh by (auto simp: scan_post_def split: option.splits prod.splits)
qed

lemma scan_post_step:
  assumes "\<not> duplicate_candidate candidates d" "\<not> hit (ts ! p) fp candidates d" "d < 4" "d \<notin> set ds" "length observed = 4"
    and "scan_post digest ts p fp candidates supplied ds (observed[d := ts ! p ! (candidates ! d)])
      (if ts ! p ! (candidates ! d) = Empty then (case first_empty of None \<Rightarrow> Some d | Some e \<Rightarrow> Some e) else first_empty) r x"
  shows "scan_post digest ts p fp candidates supplied (d # ds) observed first_empty r x"
proof (cases r)
  case None
  then show ?thesis using assms(6) by (auto simp: scan_post_def)
next
  case (Some q)
  obtain obs fe where q: "q = (obs, fe)" by (cases q)
  let ?st = "ts ! p ! (candidates ! d)"
  have post: "holds digest ts x" "\<forall>d \<in> set ds. \<not> hit (ts ! p) fp candidates d" "length obs = 4"
    "\<And>u. u < 4 \<Longrightarrow> obs ! u = (if u \<in> set ds \<and> \<not> duplicate_candidate candidates u then ts ! p ! (candidates ! u) else observed[d := ?st] ! u)"
    and fe: "fe = (case if ?st = Empty then (case first_empty of None \<Rightarrow> Some d | Some e \<Rightarrow> Some e) else first_empty of Some e \<Rightarrow> Some e
                 | None \<Rightarrow> find (\<lambda>d. \<not> duplicate_candidate candidates d \<and> ts ! p ! (candidates ! d) = Empty) ds)"
    using assms(6) by (auto simp: scan_post_def Some q)
  have "obs ! u = (if u \<in> set (d # ds) \<and> \<not> duplicate_candidate candidates u then ts ! p ! (candidates ! u) else observed ! u)" if "u < 4" for u
    using post(4) [OF that] assms(1,3-5) by (cases "u = d") simp_all
  moreover have "fe = (case first_empty of Some e \<Rightarrow> Some e
      | None \<Rightarrow> find (\<lambda>d. \<not> duplicate_candidate candidates d \<and> ts ! p ! (candidates ! d) = Empty) (d # ds))"
    using fe assms(1) by (cases first_empty) simp_all
  ultimately show ?thesis using post(1-3) assms(2) by (simp add: scan_post_def Some q)
qed

lemma upsert_scan_returns:
  assumes "p < length ts" "\<And>d. d < 4 \<Longrightarrow> candidates ! d < length (ts ! p)"
    and "set ds \<subseteq> {0..<4}" "distinct ds" "length observed = 4"
  shows "returns (holds digest ts) (upsert_scan digest p fp candidates supplied ds observed first_empty)
    (scan_post digest ts p fp candidates supplied ds observed first_empty)"
  using assms(3-5)
proof (induction ds arbitrary: observed first_empty)
  case Nil
  then show ?case by (simp add: returns_def scan_post_def split: option.splits)
next
  case (Cons d ds)
  have d: "d < 4" "candidates ! d < length (ts ! p)" "d \<notin> set ds" using Cons.prems assms(2) by auto
  show ?case
  proof (cases "duplicate_candidate candidates d")
    case True
    have "returns (holds digest ts) (upsert_scan digest p fp candidates supplied ds observed first_empty)
        (scan_post digest ts p fp candidates supplied ds observed first_empty)"
      using Cons.IH [of observed first_empty] Cons.prems by simp
    then have "returns (holds digest ts) (upsert_scan digest p fp candidates supplied ds observed first_empty)
        (scan_post digest ts p fp candidates supplied (d # ds) observed first_empty)"
      by (rule returns_weaken) (simp_all add: scan_post_duplicate [OF True])
    then show ?thesis using True by simp
  next
    case False
    let ?st = "ts ! p ! (candidates ! d)"
    have IH: "returns (holds digest ts) (upsert_scan digest p fp candidates supplied ds (observed[d := ?st]) fe)
        (scan_post digest ts p fp candidates supplied (d # ds) observed first_empty)"
      if "\<not> hit (ts ! p) fp candidates d"
        "fe = (if ?st = Empty then (case first_empty of None \<Rightarrow> Some d | Some e \<Rightarrow> Some e) else first_empty)" for fe
    proof -
      have r: "returns (holds digest ts) (upsert_scan digest p fp candidates supplied ds (observed[d := ?st]) fe)
          (scan_post digest ts p fp candidates supplied ds (observed[d := ?st]) fe)"
        by (rule Cons.IH) (use Cons.prems in simp_all)
      show ?thesis
      proof (rule returns_weaken [OF r])
        fix a x assume "scan_post digest ts p fp candidates supplied ds (observed[d := ?st]) fe a x"
        then show "scan_post digest ts p fp candidates supplied (d # ds) observed first_empty a x"
          unfolding that(2) by (rule scan_post_step [OF False that(1) d(1,3) Cons.prems(3)])
      qed
    qed
    show ?thesis
      unfolding upsert_scan.simps if_not_P [OF False]
    proof (rule run_read [OF assms(1) d(2)], cases ?st)
      case Empty
      then have "\<not> hit (ts ! p) fp candidates d" by (simp add: hit_def token_matches_def)
      from IH [OF this refl] Empty show "returns (holds digest ts)
        (let observed = observed[d := ?st] in case ?st of
           Empty \<Rightarrow> upsert_scan digest p fp candidates supplied ds observed (case first_empty of None \<Rightarrow> Some d | Some e \<Rightarrow> Some e)
         | Value current current_displacement entry \<Rightarrow>
             if current = fp \<and> unat current_displacement = d
             then pbind (replace_slot digest p (candidates ! d) ?st (value_state fp d supplied)) (\<lambda>_. preturn None)
             else upsert_scan digest p fp candidates supplied ds observed first_empty)
        (scan_post digest ts p fp candidates supplied (d # ds) observed first_empty)"
        by (simp add: Let_def)
    next
      case (Value f d' e)
      show "returns (holds digest ts)
        (let observed = observed[d := ?st] in case ?st of
           Empty \<Rightarrow> upsert_scan digest p fp candidates supplied ds observed (case first_empty of None \<Rightarrow> Some d | Some e \<Rightarrow> Some e)
         | Value current current_displacement entry \<Rightarrow>
             if current = fp \<and> unat current_displacement = d
             then pbind (replace_slot digest p (candidates ! d) ?st (value_state fp d supplied)) (\<lambda>_. preturn None)
             else upsert_scan digest p fp candidates supplied ds observed first_empty)
        (scan_post digest ts p fp candidates supplied (d # ds) observed first_empty)"
      proof (cases "f = fp \<and> unat d' = d")
        case True
        have h: "hit (ts ! p) fp candidates d" using True False Value by (simp add: hit_def token_matches_def)
        have "returns (holds digest ts)
            (pbind (replace_slot digest p (candidates ! d) ?st (value_state fp d supplied)) (\<lambda>_. preturn None))
            (scan_post digest ts p fp candidates supplied (d # ds) observed first_empty)"
          by (intro run_replace [OF assms(1) d(2) refl] returns_preturn) (use h in \<open>auto simp: scan_post_def\<close>)
        then show ?thesis using True Value by (simp add: Let_def)
      next
        case no: False
        then have "\<not> hit (ts ! p) fp candidates d" using Value by (auto simp: hit_def token_matches_def)
        from IH [OF this refl] no Value show ?thesis by (auto simp: Let_def)
      qed
    qed
  qed
qed

end
