(* ===== verification/Index_Ops.thy ===== *)
theory Index_Ops
  imports Index_Upsert
begin

text \<open>
  The relocation loops, the whole insertion, and the conditional operations of the index, as
  operations on the map of the partition; the properties of the index.
\<close>

section \<open>Relocation loops\<close>

definition hop_post :: "crc_stream \<Rightarrow> index_slot_state list list \<Rightarrow> nat \<Rightarrow> u64 \<Rightarrow> index_entry \<Rightarrow> bool \<Rightarrow> region_index \<Rightarrow> bool" where
  "hop_post digest ts p hash supplied finished x \<longleftrightarrow>
     (if finished then \<exists>t'. installs hash supplied (ts ! p) t' \<and> holds digest (ts[p := t']) x
      else holds digest ts x)"

text \<open>The situation in which the relocation loops run: no candidate holds the key.\<close>

definition full_window :: "index_slot_state list list \<Rightarrow> nat \<Rightarrow> u64 \<Rightarrow> index_slot_state list \<Rightarrow> bool" where
  "full_window ts p hash observed \<longleftrightarrow>
     p < length ts \<and> table_wf (ts ! p) \<and> table_map (ts ! p) (hash_key_of hash (length (ts ! p))) = None
     \<and> (\<forall>d < 4. \<not> duplicate_candidate (candidate_slots hash (length (ts ! p))) d \<longrightarrow>
          observed ! d = ts ! p ! (candidate_slots hash (length (ts ! p)) ! d))"

lemma hop_bind:
  assumes "returns (holds digest ts) m (hop_post digest ts p hash supplied)"
    "returns (holds digest ts) again (hop_post digest ts p hash supplied)"
  shows "returns (holds digest ts) (pbind m (\<lambda>finished. if finished then preturn True else again)) (hop_post digest ts p hash supplied)"
proof (rule returns_bind [OF assms(1)])
  fix finished
  show "returns (hop_post digest ts p hash supplied finished) (if finished then preturn True else again) (hop_post digest ts p hash supplied)"
  proof (cases finished)
    case True
    then show ?thesis by (auto simp: hop_post_def intro: returns_preturn)
  next
    case False
    then have "hop_post digest ts p hash supplied finished = holds digest ts" by (simp add: hop_post_def fun_eq_iff)
    with False assms(2) show ?thesis by simp
  qed
qed

lemma one_hop_targets_returns:
  assumes p: "p < length ts" and wf: "table_wf (ts ! p)"
    and absent: "table_map (ts ! p) (hash_key_of hash (length (ts ! p))) = None"
    and sd: "canonical (length (ts ! p)) sd" "i = candidate_slots hash (length (ts ! p)) ! sd"
    and src: "ts ! p ! i = Value f d e" and h: "h = home_from_slot i (unat d) (length (ts ! p))"
    and skipped: "\<And>v. v < k \<Longrightarrow> v = unat d \<or> slot_from_home h v (length (ts ! p)) = i
        \<or> ts ! p ! slot_from_home h v (length (ts ! p)) \<noteq> Empty"
  shows "returns (holds digest ts)
    (one_hop_targets digest p (length (ts ! p)) (index_fingerprint hash) supplied sd i (Value f d e) f (unat d) e h [k..<4])
    (hop_post digest ts p hash supplied)"
  using skipped
proof (induction "4 - k" arbitrary: k)
  case 0
  then have nil: "[k..<4] = []" by simp
  show ?case unfolding nil one_hop_targets.simps by (rule returns_preturn) (simp add: hop_post_def)
next
  case (Suc m)
  let ?t = "ts ! p" and ?n = "length (ts ! p)"
  let ?j = "slot_from_home h k (length (ts ! p))"
  have k: "k < 4" "[k..<4] = k # [Suc k..<4]" using Suc.hyps(2) by (simp_all add: upt_conv_Cons)
  have n: "0 < ?n" using wf by (auto simp: table_wf_def)
  have i: "i < ?n" using sd candidate_less [OF n] by (auto simp: canonical_def)
  have hn: "h < ?n" using home_from_slot_less [OF i] h by simp
  have j: "?j < ?n" by (rule slot_from_home_less [OF hn])
  have again: "returns (holds digest ts)
      (one_hop_targets digest p ?n (index_fingerprint hash) supplied sd i (Value f d e) f (unat d) e h [Suc k..<4])
      (hop_post digest ts p hash supplied)"
    if "k = unat d \<or> ?j = i \<or> ?t ! ?j \<noteq> Empty"
    by (rule Suc.hyps(1)) (use Suc.hyps(2) Suc.prems that less_Suc_eq in auto)
  show ?case
  proof (cases "k = unat d \<or> ?j = i")
    case True
    then show ?thesis using again unfolding k(2) by (auto simp: Let_def)
  next
    case False
    have "returns (holds digest ts)
         (pbind (replace_slot digest p ?j Empty (value_state f k e)) (\<lambda>_.
          pbind (replace_slot digest p i (Value f d e) (value_state (index_fingerprint hash) sd supplied)) (\<lambda>_.
          pbind (counted (\<lambda>x. x\<lparr>ri_relocations := ri_relocations x + 1\<rparr>)) (\<lambda>_.
          preturn True))))
         (hop_post digest ts p hash supplied)" if Empty: "?t ! ?j = Empty"
    proof -
      have u: "canonical ?n k"
        by (rule first_target_canonical [where P = "\<lambda>s. ?t ! s = Empty" and src = i and cur = "unat d", OF hn k(1)])
           (use False Empty Suc.prems slot_of_home [OF i] h in auto)
      have "installs hash supplied ?t (?t[?j := quantize (value_state f k e),
          i := quantize (value_state (index_fingerprint hash) sd supplied)])"
        by (rule relocate_one [OF wf i src Empty]) (use False u h sd absent in auto)
      then show ?thesis
        using p i j False Empty src
        by (auto simp: hop_post_def intro!: run_replace run_counted returns_preturn)
    qed
    with False again show ?thesis
      unfolding k(2) by (auto simp: Let_def intro!: run_read [OF p j])
  qed
qed

lemma one_hop_returns:
  assumes "full_window ts p hash observed" "k \<le> 4"
  shows "returns (holds digest ts)
    (one_hop digest p (length (ts ! p)) (index_fingerprint hash) supplied (candidate_slots hash (length (ts ! p))) observed [k..<4])
    (hop_post digest ts p hash supplied)"
  using assms(2)
proof (induction "4 - k" arbitrary: k)
  case 0
  then have nil: "[k..<4] = []" by simp
  show ?case unfolding nil one_hop.simps by (rule returns_preturn) (simp add: hop_post_def)
next
  case (Suc m)
  let ?t = "ts ! p" and ?n = "length (ts ! p)" and ?c = "candidate_slots hash (length (ts ! p))"
  have k: "k < 4" "[k..<4] = k # [Suc k..<4]" using Suc.hyps(2) by (simp_all add: upt_conv_Cons)
  have w: "p < length ts" "table_wf ?t" "table_map ?t (hash_key_of hash ?n) = None"
    "\<not> duplicate_candidate ?c k \<Longrightarrow> observed ! k = ?t ! (?c ! k)"
    using assms(1) k(1) by (simp_all add: full_window_def)
  have n: "0 < ?n" using w(2) by (auto simp: table_wf_def)
  have again: "returns (holds digest ts) (one_hop digest p ?n (index_fingerprint hash) supplied ?c observed [Suc k..<4])
      (hop_post digest ts p hash supplied)"
    by (rule Suc.hyps(1)) (use Suc.hyps(2) in auto)
  show ?case
  proof (cases "duplicate_candidate ?c k")
    case True
    then show ?thesis using again unfolding k(2) by (simp add: Let_def)
  next
    case False
    show ?thesis
    proof (cases "observed ! k")
      case Empty
      then show ?thesis using again False unfolding k(2) by (simp add: Let_def)
    next
      case (Value f d e)
      have src: "?t ! (?c ! k) = Value f d e" using w(4) [OF False] Value by simp
      have can: "canonical ?n k" using False duplicate_iff [OF n k(1)] by simp
      have "unat d < 4"
        using bucket_state(1) [OF w(2) candidate_less [OF n k(1)] src] by (simp add: canonical_def)
      moreover have "returns (holds digest ts)
          (one_hop_targets digest p ?n (index_fingerprint hash) supplied k (?c ! k) (Value f d e) f (unat d) e
            (home_from_slot (?c ! k) (unat d) ?n) [0..<4]) (hop_post digest ts p hash supplied)"
        by (rule one_hop_targets_returns [OF w(1-3) can refl src refl]) simp
      then have "returns (holds digest ts)
          (pbind (one_hop_targets digest p ?n (index_fingerprint hash) supplied k (?c ! k) (Value f d e) f (unat d) e
            (home_from_slot (?c ! k) (unat d) ?n) [0..<4])
             (\<lambda>finished. if finished then preturn True
                else one_hop digest p ?n (index_fingerprint hash) supplied ?c observed [Suc k..<4]))
          (hop_post digest ts p hash supplied)"
        by (rule hop_bind [OF _ again])
      ultimately show ?thesis using False Value unfolding k(2) by (simp add: Let_def INDEX_CANDIDATES_def)
    qed
  qed
qed

text \<open>The inner loop of two hops; when it gives up there was no empty bucket for the middle entry.\<close>

definition no_target :: "index_slot_state list \<Rightarrow> nat \<Rightarrow> nat \<Rightarrow> nat \<Rightarrow> bool" where
  "no_target t i j k \<longleftrightarrow>
     (case t ! j of Empty \<Rightarrow> True
      | Value g c b \<Rightarrow> \<forall>v < k. let s = slot_from_home (home_from_slot j (unat c) (length t)) v (length t) in
          v = unat c \<or> s = i \<or> s = j \<or> t ! s \<noteq> Empty)"

lemma two_hop_targets_returns:
  assumes p: "p < length ts" and wf: "table_wf (ts ! p)"
    and absent: "table_map (ts ! p) (hash_key_of hash (length (ts ! p))) = None"
    and sd: "canonical (length (ts ! p)) sd" "i = candidate_slots hash (length (ts ! p)) ! sd"
    and src: "ts ! p ! i = Value f d e"
    and mid: "ts ! p ! j = Value g c b" "j = slot_from_home (home_from_slot i (unat d) (length (ts ! p))) m (length (ts ! p))" "i \<noteq> j"
    and can: "\<not> no_target (ts ! p) i j 4 \<Longrightarrow> canonical (length (ts ! p)) m"
    and h: "h = home_from_slot j (unat c) (length (ts ! p))" and skipped: "no_target (ts ! p) i j k" and k4: "k \<le> 4"
  shows "returns (holds digest ts)
    (two_hop_targets digest p (length (ts ! p)) (index_fingerprint hash) supplied sd i (Value f d e) f e m j (Value g c b) g (unat c) b h [k..<4])
    (\<lambda>finished x. hop_post digest ts p hash supplied finished x \<and> (finished \<or> no_target (ts ! p) i j 4))"
  using skipped k4
proof (induction "4 - k" arbitrary: k)
  case 0
  then have nil: "[k..<4] = []" "k = 4" by simp_all
  show ?case unfolding nil(1) two_hop_targets.simps
    by (rule returns_preturn) (use 0(2) nil(2) in \<open>simp add: hop_post_def\<close>)
next
  case (Suc l)
  let ?t = "ts ! p" and ?n = "length (ts ! p)" and ?s = "slot_from_home h k (length (ts ! p))"
  let ?post = "\<lambda>finished x. hop_post digest ts p hash supplied finished x \<and> (finished \<or> no_target ?t i j 4)"
  let ?loop = "two_hop_targets digest p ?n (index_fingerprint hash) supplied sd i (Value f d e) f e m j (Value g c b) g (unat c) b h"
  have k: "k < 4" "[k..<4] = k # [Suc k..<4]" using Suc.hyps(2) by (simp_all add: upt_conv_Cons)
  have n: "0 < ?n" using wf by (auto simp: table_wf_def)
  have i: "i < ?n" using sd candidate_less [OF n] by (auto simp: canonical_def)
  have j: "j < ?n" using mid(2) slot_from_home_less [OF home_from_slot_less [OF i]] by simp
  have hn: "h < ?n" using home_from_slot_less [OF j] h by simp
  have s: "?s < ?n" by (rule slot_from_home_less [OF hn])
  have skip: "v = unat c \<or> slot_from_home h v ?n = i \<or> slot_from_home h v ?n = j \<or> ?t ! slot_from_home h v ?n \<noteq> Empty" if "v < k" for v
    using Suc.prems(1) that mid(1) by (simp add: no_target_def h Let_def)
  have again: "returns (holds digest ts) (?loop [Suc k..<4]) ?post" if "k = unat c \<or> ?s = i \<or> ?s = j \<or> ?t ! ?s \<noteq> Empty"
  proof (rule Suc.hyps(1))
    show "no_target ?t i j (Suc k)"
      using skip that mid(1) by (auto simp: no_target_def h Let_def less_Suc_eq)
  qed (use Suc.hyps(2) in auto)
  show ?case
  proof (cases "k = unat c \<or> ?s = i \<or> ?s = j")
    case True
    then show ?thesis using again unfolding k(2) by (auto simp: Let_def)
  next
    case False
    have "returns (holds digest ts)
         (pbind (replace_slot digest p ?s Empty (value_state g k b)) (\<lambda>_.
          pbind (replace_slot digest p j (Value g c b) (value_state f m e)) (\<lambda>_.
          pbind (replace_slot digest p i (Value f d e) (value_state (index_fingerprint hash) sd supplied)) (\<lambda>_.
          pbind (counted (\<lambda>x. x\<lparr>ri_relocations := ri_relocations x + 2\<rparr>)) (\<lambda>_.
          preturn True))))) ?post" if Empty: "?t ! ?s = Empty"
    proof -
      have u: "canonical ?n k"
        by (rule first_target_canonical [where P = "\<lambda>s. s \<noteq> i \<and> ?t ! s = Empty" and src = j and cur = "unat c", OF hn k(1)])
           (use False Empty skip slot_of_home [OF j] h in auto)
      have "\<not> no_target ?t i j 4"
        using False Empty k(1) mid(1) by (auto simp: no_target_def h Let_def)
      then have m: "canonical ?n m" by (rule can)
      have "installs hash supplied ?t (?t[?s := quantize (value_state g k b), j := quantize (value_state f m e),
          i := quantize (value_state (index_fingerprint hash) sd supplied)])"
        by (rule relocate_two [OF wf i src j mid(1) Empty]) (use False u m h sd absent mid in auto)
      then show ?thesis
        using p i j s False Empty src mid
        by (auto simp: hop_post_def intro!: run_replace run_counted returns_preturn)
    qed
    with False again show ?thesis
      unfolding k(2) by (auto simp: Let_def intro!: run_read [OF p s])
  qed
qed

lemma two_hop_middles_returns:
  assumes p: "p < length ts" and wf: "table_wf (ts ! p)"
    and absent: "table_map (ts ! p) (hash_key_of hash (length (ts ! p))) = None"
    and sd: "canonical (length (ts ! p)) sd" "i = candidate_slots hash (length (ts ! p)) ! sd"
    and src: "ts ! p ! i = Value f d e" and h: "h = home_from_slot i (unat d) (length (ts ! p))"
    and skipped: "\<And>v. v < k \<Longrightarrow> v = unat d \<or> slot_from_home h v (length (ts ! p)) = i
        \<or> no_target (ts ! p) i (slot_from_home h v (length (ts ! p))) 4"
  shows "returns (holds digest ts)
    (two_hop_middles digest p (length (ts ! p)) (index_fingerprint hash) supplied sd i (Value f d e) f (unat d) e h [k..<4])
    (hop_post digest ts p hash supplied)"
  using skipped
proof (induction "4 - k" arbitrary: k)
  case 0
  then have nil: "[k..<4] = []" by simp
  show ?case unfolding nil two_hop_middles.simps by (rule returns_preturn) (simp add: hop_post_def)
next
  case (Suc l)
  let ?t = "ts ! p" and ?n = "length (ts ! p)" and ?j = "slot_from_home h k (length (ts ! p))"
  let ?loop = "two_hop_middles digest p ?n (index_fingerprint hash) supplied sd i (Value f d e) f (unat d) e h"
  have k: "k < 4" "[k..<4] = k # [Suc k..<4]" using Suc.hyps(2) by (simp_all add: upt_conv_Cons)
  have n: "0 < ?n" using wf by (auto simp: table_wf_def)
  have i: "i < ?n" using sd candidate_less [OF n] by (auto simp: canonical_def)
  have hn: "h < ?n" using home_from_slot_less [OF i] h by simp
  have j: "?j < ?n" by (rule slot_from_home_less [OF hn])
  have again: "returns (holds digest ts) (?loop [Suc k..<4]) (hop_post digest ts p hash supplied)"
    if "k = unat d \<or> ?j = i \<or> no_target ?t i ?j 4"
    by (rule Suc.hyps(1)) (use Suc.hyps(2) Suc.prems that less_Suc_eq in auto)
  show ?case
  proof (cases "k = unat d \<or> ?j = i")
    case True
    then show ?thesis using again unfolding k(2) by (auto simp: Let_def)
  next
    case False
    show ?thesis
    proof (cases "?t ! ?j")
      case Empty
      then have "no_target ?t i ?j 4" by (simp add: no_target_def)
      with False Empty again show ?thesis unfolding k(2) by (auto simp: Let_def intro!: run_read [OF p j])
    next
      case (Value g c b)
      have c4: "unat c < 4" using bucket_state(1) [OF wf j Value] by (simp add: canonical_def)
      have can: "canonical ?n k" if "\<not> no_target ?t i ?j 4"
        by (rule first_target_canonical [where P = "\<lambda>s. \<not> no_target ?t i s 4" and src = i and cur = "unat d", OF hn k(1)])
           (use False that Suc.prems slot_of_home [OF i] h in auto)
      let ?inner = "two_hop_targets digest p ?n (index_fingerprint hash) supplied sd i (Value f d e) f e k ?j (Value g c b) g (unat c) b
          (home_from_slot ?j (unat c) ?n) [0..<4]"
      have inner: "returns (holds digest ts) ?inner
          (\<lambda>finished x. hop_post digest ts p hash supplied finished x \<and> (finished \<or> no_target ?t i ?j 4))"
        by (rule two_hop_targets_returns [OF p wf absent sd src Value])
           (use h False can Value in \<open>auto simp: no_target_def\<close>)
      have "returns (holds digest ts) (pbind ?inner (\<lambda>finished. if finished then preturn True else ?loop [Suc k..<4]))
          (hop_post digest ts p hash supplied)"
      proof (rule returns_bind [OF inner])
        fix finished
        show "returns (\<lambda>x. hop_post digest ts p hash supplied finished x \<and> (finished \<or> no_target ?t i ?j 4))
            (if finished then preturn True else ?loop [Suc k..<4]) (hop_post digest ts p hash supplied)"
        proof (cases finished)
          case True
          then show ?thesis by (auto intro: returns_preturn)
        next
          case no: False
          have "returns (\<lambda>x. no_target ?t i ?j 4 \<and> holds digest ts x) (?loop [Suc k..<4]) (hop_post digest ts p hash supplied)"
            by (rule returns_pure) (use again in simp)
          with no show ?thesis by (simp add: hop_post_def conj_commute)
        qed
      qed
      with False c4 Value show ?thesis
        unfolding k(2) by (auto simp: Let_def INDEX_CANDIDATES_def intro!: run_read [OF p j])
    qed
  qed
qed

lemma two_hop_returns:
  assumes "full_window ts p hash observed" "k \<le> 4"
  shows "returns (holds digest ts)
    (two_hop digest p (length (ts ! p)) (index_fingerprint hash) supplied (candidate_slots hash (length (ts ! p))) observed [k..<4])
    (hop_post digest ts p hash supplied)"
  using assms(2)
proof (induction "4 - k" arbitrary: k)
  case 0
  then have nil: "[k..<4] = []" by simp
  show ?case unfolding nil two_hop.simps by (rule returns_preturn) (simp add: hop_post_def)
next
  case (Suc m)
  let ?t = "ts ! p" and ?n = "length (ts ! p)" and ?c = "candidate_slots hash (length (ts ! p))"
  have k: "k < 4" "[k..<4] = k # [Suc k..<4]" using Suc.hyps(2) by (simp_all add: upt_conv_Cons)
  have w: "p < length ts" "table_wf ?t" "table_map ?t (hash_key_of hash ?n) = None"
    "\<not> duplicate_candidate ?c k \<Longrightarrow> observed ! k = ?t ! (?c ! k)"
    using assms(1) k(1) by (simp_all add: full_window_def)
  have n: "0 < ?n" using w(2) by (auto simp: table_wf_def)
  have again: "returns (holds digest ts) (two_hop digest p ?n (index_fingerprint hash) supplied ?c observed [Suc k..<4])
      (hop_post digest ts p hash supplied)"
    by (rule Suc.hyps(1)) (use Suc.hyps(2) in auto)
  consider (skip) "duplicate_candidate ?c k \<or> observed ! k = Empty"
    | (taken) f d e where "\<not> duplicate_candidate ?c k" "observed ! k = Value f d e"
    by (cases "observed ! k") auto
  then show ?case
  proof cases
    case skip
    then show ?thesis using again unfolding k(2) by (auto simp: Let_def)
  next
    case (taken f d e)
    have src: "?t ! (?c ! k) = Value f d e" using w(4) taken by simp
    have can: "canonical ?n k" using taken(1) duplicate_iff [OF n k(1)] by simp
    have "unat d < 4"
      using bucket_state(1) [OF w(2) candidate_less [OF n k(1)] src] by (simp add: canonical_def)
    moreover have "returns (holds digest ts)
        (two_hop_middles digest p ?n (index_fingerprint hash) supplied k (?c ! k) (Value f d e) f (unat d) e
          (home_from_slot (?c ! k) (unat d) ?n) [0..<4]) (hop_post digest ts p hash supplied)"
      by (rule two_hop_middles_returns [OF w(1-3) can refl src refl]) simp
    note hop_bind [OF this again]
    ultimately show ?thesis using taken unfolding k(2) by (simp add: Let_def INDEX_CANDIDATES_def)
  qed
qed

section \<open>Insertion\<close>

lemma canonical_0: "canonical n 0"
  by (simp add: canonical_def)

lemma victim_exists:
  assumes "0 < n"
  obtains v where "victim_displacement hash (candidate_slots hash n) = Some v" "v < 4" "canonical n v"
proof -
  let ?c = "candidate_slots hash n" and ?start = "unat (word_rotl 17 hash AND (3 :: u64))"
  let ?steps = "map (\<lambda>step. (?start + step) mod 4) [0..<4]"
  have "\<not> duplicate_candidate ?c 0" using duplicate_iff [OF assms, of 0] canonical_0 by simp
  moreover have "0 \<in> set ?steps"
  proof -
    have "?start = unat (take_bit 2 (word_rotl 17 hash))"
      by (simp add: take_bit_eq_mask mask_eq_exp_minus_1)
    then have "?start < 4" using unat_take_bit_less [of 2 "word_rotl 17 hash"] by simp
    then have "(?start + (4 - ?start) mod 4) mod 4 = 0" "(4 - ?start) mod 4 < 4" by (auto simp: mod_if)
    then show ?thesis unfolding set_map by (intro image_eqI [of _ _ "(4 - ?start) mod 4"]) simp_all
  qed
  ultimately obtain v where v: "find (\<lambda>d. \<not> duplicate_candidate ?c d) ?steps = Some v"
    by (cases "find (\<lambda>d. \<not> duplicate_candidate ?c d) ?steps") (auto simp: find_None_iff)
  then have "v \<in> set ?steps" "\<not> duplicate_candidate ?c v" by (auto simp: find_Some_iff nth_mem)
  then have "v < 4" "canonical n v" using duplicate_iff [OF assms, of v hash] by auto
  moreover have "victim_displacement hash ?c = Some v"
    using v by (simp add: victim_displacement_def INDEX_CANDIDATES_def)
  ultimately show ?thesis using that by blast
qed

text \<open>
  What an insertion does to the map of the partition: the key is set, and at most one other entry
  is dropped, which happens only for a new key all of whose candidates are occupied.
\<close>

definition upserts :: "u64 \<Rightarrow> index_entry \<Rightarrow> index_slot_state list \<Rightarrow> index_slot_state list \<Rightarrow> bool" where
  "upserts hash e t t' \<longleftrightarrow> table_wf t' \<and> length t' = length t \<and>
     (\<exists>victim. table_map t' = (drop_key victim (table_map t))(hash_key_of hash (length t) \<mapsto> quantize_entry e)
       \<and> (victim \<noteq> None \<longrightarrow> table_map t (hash_key_of hash (length t)) = None
            \<and> (\<forall>d < 4. t ! (candidate_slots hash (length t) ! d) \<noteq> Empty)))"

lemma installs_upserts: "installs hash e t t' \<Longrightarrow> upserts hash e t t'"
  by (auto simp: installs_def upserts_def drop_key_def intro: exI [of _ None])

lemma canonical_representative:
  assumes "0 < n" "d < 4" shows "\<exists>d' < 4. canonical n d' \<and> candidate_slots hash n ! d' = candidate_slots hash n ! d"
  using assms(2)
proof (induction d rule: less_induct)
  case (less d)
  show ?case
  proof (cases "canonical n d")
    case False
    with less.prems obtain d' where d': "d' < d" "candidate_offset d' n = candidate_offset d n" by (auto simp: canonical_def)
    with less.IH [of d'] less.prems obtain d2 where "d2 < 4" "canonical n d2" "candidate_slots hash n ! d2 = candidate_slots hash n ! d'" by auto
    moreover have "candidate_slots hash n ! d' = candidate_slots hash n ! d"
      using d' less.prems slot_eq_iff [OF candidate_home_less [OF assms(1)]] by (simp add: candidate_slots_nth)
    ultimately show ?thesis by auto
  qed (use less.prems in blast)
qed

lemma place_new_returns:
  assumes w: "full_window ts p hash observed"
    and fe: "first_empty = find (\<lambda>d. \<not> duplicate_candidate (candidate_slots hash (length (ts ! p))) d
        \<and> ts ! p ! (candidate_slots hash (length (ts ! p)) ! d) = Empty) [0..<4]"
  shows "returns (holds digest ts)
    (place_new digest p (length (ts ! p)) hash (index_fingerprint hash) supplied (candidate_slots hash (length (ts ! p))) observed first_empty)
    (\<lambda>r x. r \<and> (\<exists>t'. upserts hash supplied (ts ! p) t' \<and> holds digest (ts[p := t']) x))"
proof -
  let ?t = "ts ! p" and ?n = "length (ts ! p)" and ?c = "candidate_slots hash (length (ts ! p))"
  let ?post = "\<lambda>r x. r \<and> (\<exists>t'. upserts hash supplied ?t t' \<and> holds digest (ts[p := t']) x)"
  have p: "p < length ts" and wf: "table_wf ?t" and absent: "table_map ?t (hash_key_of hash ?n) = None"
    using w by (simp_all add: full_window_def)
  have n: "0 < ?n" using wf by (auto simp: table_wf_def)
  have obs: "observed ! d = ?t ! (?c ! d)" if "d < 4" "canonical ?n d" for d
    using w that duplicate_iff [OF n that(1), of hash] by (simp add: full_window_def)
  show ?thesis
  proof (cases first_empty)
    case (Some d)
    then have d: "d < 4" "canonical ?n d" "?t ! (?c ! d) = Empty"
      using fe duplicate_iff [OF n, of d] by (simp_all add: find_upt_Some)
    have "installs hash supplied ?t (?t[?c ! d := quantize (value_state (index_fingerprint hash) d supplied)])"
      using install [OF wf d(2) refl] absent by (simp add: installs_def bucket_key_Empty [of ?t, OF d(3)] drop_key_def)
    then have "upserts hash supplied ?t (?t[?c ! d := quantize (value_state (index_fingerprint hash) d supplied)])"
      by (rule installs_upserts)
    then show ?thesis unfolding place_new_def Some
      using p candidate_less [OF n d(1)] d(3) by (auto intro!: run_replace returns_preturn)
  next
    case None
    have full: "?t ! (?c ! d) \<noteq> Empty" if d: "d < 4" for d
    proof -
      obtain d' where d': "d' < 4" "canonical ?n d'" "?c ! d' = ?c ! d"
        using canonical_representative [OF n d, of hash] by blast
      have "?t ! (?c ! d') \<noteq> Empty"
        using fe [symmetric, unfolded None find_upt_None] d'(1,2) duplicate_iff [OF n d'(1), of hash] by blast
      with d'(3) show ?thesis by simp
    qed
    obtain v where v: "victim_displacement hash ?c = Some v" "v < 4" "canonical ?n v" by (rule victim_exists [OF n])
    let ?t' = "?t[?c ! v := quantize (value_state (index_fingerprint hash) v supplied)]"
    have "upserts hash supplied ?t ?t'"
      using install [OF wf v(3) refl] drop_key_absent [where m = "table_map ?t", OF absent] absent full
      by (auto simp: upserts_def intro!: exI [of _ "bucket_key ?t (?c ! v)"])
    then have evict: "returns (holds digest ts) (evict_candidate digest p hash (index_fingerprint hash) supplied ?c observed) ?post"
      unfolding evict_candidate_def v(1)
      using p candidate_less [OF n v(2)] obs [OF v(2,3)]
      by (intro returns_bind [OF returns_ppanic [where Q = "\<lambda>a x. a = v \<and> holds digest ts x"]] returns_pure)
         (auto intro!: run_replace run_counted returns_preturn)
    have post: "returns (hop_post digest ts p hash supplied finished) (if finished then preturn True else m) ?post"
      if "returns (holds digest ts) m ?post" for m finished
    proof (cases finished)
      case True
      then show ?thesis using installs_upserts by (fastforce simp: hop_post_def intro!: returns_preturn)
    next
      case False
      then have "hop_post digest ts p hash supplied finished = holds digest ts" by (simp add: hop_post_def fun_eq_iff)
      with False that show ?thesis by simp
    qed
    have c4: "[0..<INDEX_CANDIDATES] = [0..<4]" by (simp add: INDEX_CANDIDATES_def)
    show ?thesis unfolding place_new_def None option.case c4
      by (rule returns_bind [OF one_hop_returns [OF w]] post returns_bind [OF two_hop_returns [OF w]] evict le0 | simp)+
  qed
qed

lemma upsert_returns:
  assumes "list_all table_wf ts"
  shows "returns (holds digest ts) (upsert digest hash supplied)
    (\<lambda>r x. r \<and> (\<exists>t'. upserts hash supplied (ts ! index_partition_for hash (length ts)) t'
       \<and> holds digest (ts[index_partition_for hash (length ts) := t']) x))"
  unfolding upsert_def
proof (intro run_write_partition run_guard_slots)
  fix p assume p: "p = index_partition_for hash (length ts)" "p < length ts"
  show "p < length ts" by (rule p)
  let ?t = "ts ! p" and ?n = "length (ts ! p)" and ?c = "candidate_slots hash (length (ts ! p))" and ?fp = "index_fingerprint hash"
  let ?post = "\<lambda>r x. r \<and> (\<exists>t'. upserts hash supplied ?t t' \<and> holds digest (ts[p := t']) x)"
  have wf: "table_wf ?t" using assms p(2) by (simp add: list_all_length)
  have n: "0 < ?n" using wf by (auto simp: table_wf_def)
  have c: "?c ! d < ?n" if "d < 4" for d using candidate_less [OF n that] .
  have scan: "returns (holds digest ts) (upsert_scan digest p ?fp ?c supplied [0..<4] (replicate 4 Empty) None)
      (scan_post digest ts p ?fp ?c supplied [0..<4] (replicate 4 Empty) None)"
    by (rule upsert_scan_returns [OF p(2) c]) auto
  have "returns (holds digest ts) (pbind (upsert_scan digest p ?fp ?c supplied [0..<4] (replicate 4 Empty) None) (\<lambda>scan.
      case scan of None \<Rightarrow> preturn True
      | Some (observed, first_empty) \<Rightarrow> place_new digest p ?n hash ?fp supplied ?c observed first_empty)) ?post"
  proof (rule returns_bind [OF scan])
    fix r
    show "returns (scan_post digest ts p ?fp ?c supplied [0..<4] (replicate 4 Empty) None r)
      (case r of None \<Rightarrow> preturn True
       | Some (observed, first_empty) \<Rightarrow> place_new digest p ?n hash ?fp supplied ?c observed first_empty) ?post"
    proof (cases r)
      case None
      have "upserts hash supplied ?t (?t[?c ! d := quantize (value_state ?fp d supplied)])" if "d < 4" "hit ?t ?fp ?c d" for d
        using install [OF wf hit_key(2) [OF n that] refl] hit_key(1) [OF n that]
        by (auto simp: upserts_def drop_key_def intro!: exI [of _ None])
      then show ?thesis unfolding None by (fastforce simp: scan_post_def intro!: returns_preturn)
    next
      case (Some q)
      obtain obs fe where q: "q = (obs, fe)" by (cases q)
      have "returns (\<lambda>x. (full_window ts p hash obs \<and> fe = find (\<lambda>d. \<not> duplicate_candidate ?c d \<and> ?t ! (?c ! d) = Empty) [0..<4])
          \<and> holds digest ts x) (place_new digest p ?n hash ?fp supplied ?c obs fe) ?post"
        by (rule returns_pure) (use place_new_returns in blast)
      then have "returns (scan_post digest ts p ?fp ?c supplied [0..<4] (replicate 4 Empty) None r)
          (place_new digest p ?n hash ?fp supplied ?c obs fe) ?post"
      proof (rule returns_weaken)
        fix x assume post: "scan_post digest ts p ?fp ?c supplied [0..<4] (replicate 4 Empty) None r x"
        then have "\<not> hit ?t ?fp ?c d" if "d < 4" for d using that by (simp add: scan_post_def Some q)
        then have "find (hit ?t ?fp ?c) [0..<4] = None" by (simp add: find_upt_None)
        then have "table_map ?t (hash_key_of hash ?n) = None" using find_hit [OF wf, of hash] by simp
        then show "(full_window ts p hash obs \<and> fe = find (\<lambda>d. \<not> duplicate_candidate ?c d \<and> ?t ! (?c ! d) = Empty) [0..<4])
          \<and> holds digest ts x"
          using post p(2) wf by (simp add: scan_post_def Some q full_window_def)
      qed
      then show ?thesis by (simp add: Some q)
    qed
  qed
  then show "returns (holds digest ts) (let fp = ?fp; candidates = ?c in
      pbind (upsert_scan digest p fp candidates supplied [0..<INDEX_CANDIDATES] (replicate INDEX_CANDIDATES Empty) None) (\<lambda>scan.
      case scan of None \<Rightarrow> preturn True
      | Some (observed, first_empty) \<Rightarrow> place_new digest p ?n hash fp supplied candidates observed first_empty))
    (\<lambda>r x. r \<and> (\<exists>t'. upserts hash supplied (ts ! index_partition_for hash (length ts)) t'
       \<and> holds digest (ts[index_partition_for hash (length ts) := t']) x))"
    unfolding p(1) by (simp add: Let_def INDEX_CANDIDATES_def)
qed

section \<open>Lookup and the conditional operations\<close>

lemma lookup_raw_returns:
  assumes "list_all table_wf ts" "\<not> contended (index_partition_for hash (length ts))"
  shows "returns (holds digest ts) (lookup_raw digest contended hash)
    (\<lambda>r x. r = table_map (ts ! index_partition_for hash (length ts))
               (hash_key_of hash (length (ts ! index_partition_for hash (length ts)))) \<and> holds digest ts x)"
  unfolding lookup_raw_def
proof (intro run_try_partition [where contended = contended, OF assms(2)] run_guard_slots)
  fix p assume p: "p = index_partition_for hash (length ts)" "p < length ts"
  show "p < length ts" by (rule p)
  have wf: "table_wf (ts ! p)" using assms(1) p(2) by (simp add: list_all_length)
  have n: "0 < length (ts ! p)" using wf by (auto simp: table_wf_def)
  show "returns (holds digest ts) (lookup_loop digest p (index_fingerprint hash) (candidate_slots hash (length (ts ! p))) [0..<INDEX_CANDIDATES])
    (\<lambda>r x. r = table_map (ts ! index_partition_for hash (length ts))
               (hash_key_of hash (length (ts ! index_partition_for hash (length ts)))) \<and> holds digest ts x)"
    using lookup_loop_returns [OF p(2), of "[0..<4]" "candidate_slots hash (length (ts ! p))" digest "index_fingerprint hash"]
      candidate_less [OF n] by (simp add: find_hit [OF wf] INDEX_CANDIDATES_def flip: p(1))
qed

text \<open>The entry a conditional operation expects.\<close>

definition expected_ok :: "packed_location option \<Rightarrow> index_entry \<Rightarrow> bool" where
  "expected_ok expected e = (case expected of None \<Rightarrow> True | Some loc \<Rightarrow> index_equivalent (location e) loc)"

definition cond_hit :: "index_slot_state list \<Rightarrow> u16 \<Rightarrow> nat list \<Rightarrow> packed_location option \<Rightarrow> nat \<Rightarrow> bool" where
  "cond_hit t fp candidates expected d \<longleftrightarrow>
     hit t fp candidates d \<and> (\<exists>e. state_entry (t ! (candidates ! d)) = Some e \<and> expected_ok expected e)"

lemma token_cond:
  "\<not> duplicate_candidate candidates d \<Longrightarrow>
   (case expected of Some loc \<Rightarrow> token_location_matches (t ! (candidates ! d)) fp d loc
    | None \<Rightarrow> token_matches (t ! (candidates ! d)) fp d) \<longleftrightarrow> cond_hit t fp candidates expected d"
  "\<not> duplicate_candidate candidates d \<Longrightarrow>
   token_location_matches (t ! (candidates ! d)) fp d loc \<longleftrightarrow> cond_hit t fp candidates (Some loc) d"
  by (auto simp: cond_hit_def hit_def expected_ok_def token_matches_def token_location_matches_def
      split: option.splits index_slot_state.splits)

lemma duplicate_cond: "duplicate_candidate candidates d \<Longrightarrow> \<not> cond_hit t fp candidates expected d"
  by (simp add: cond_hit_def hit_def)

definition matches_key :: "index_slot_state list \<Rightarrow> u64 \<Rightarrow> packed_location option \<Rightarrow> bool" where
  "matches_key t hash expected \<longleftrightarrow>
     (\<exists>e. table_map t (hash_key_of hash (length t)) = Some e \<and> expected_ok expected e)"

lemma find_cond:
  assumes wf: "table_wf t"
  shows "find (cond_hit t (index_fingerprint hash) (candidate_slots hash (length t)) expected) [0..<4] = None
      \<longleftrightarrow> \<not> matches_key t hash expected"
    "find (cond_hit t (index_fingerprint hash) (candidate_slots hash (length t)) expected) [0..<4] = Some d \<Longrightarrow>
      d < 4 \<and> hit t (index_fingerprint hash) (candidate_slots hash (length t)) d \<and> matches_key t hash expected"
proof -
  let ?c = "candidate_slots hash (length t)" and ?fp = "index_fingerprint hash"
  have map: "table_map t (hash_key_of hash (length t)) = state_entry (t ! (?c ! d))" if dd: "d < 4" "hit t ?fp ?c d" for d
  proof -
    obtain d' where d': "find (hit t ?fp ?c) [0..<4] = Some d'"
      using dd find_upt_None [of "hit t ?fp ?c" 4] by blast
    then have "d' = d" using hit_unique [OF wf _ dd(1) _ dd(2)] by (simp add: find_upt_Some)
    with d' find_hit [OF wf, of hash] show ?thesis by simp
  qed
  have some: "\<exists>d < 4. hit t ?fp ?c d" if "table_map t (hash_key_of hash (length t)) = Some e" for e
    using find_hit [OF wf, of hash] that by (auto simp: find_upt_Some split: option.splits)
  show "find (cond_hit t ?fp ?c expected) [0..<4] = None \<longleftrightarrow> \<not> matches_key t hash expected"
    using map some by (fastforce simp: find_upt_None cond_hit_def matches_key_def)
  show "find (cond_hit t ?fp ?c expected) [0..<4] = Some d \<Longrightarrow> d < 4 \<and> hit t ?fp ?c d \<and> matches_key t hash expected"
    using map by (auto simp: find_upt_Some cond_hit_def matches_key_def)
qed

lemma remove_loop_returns:
  assumes p: "p < length ts" and c: "\<And>d. d \<in> set ds \<Longrightarrow> candidates ! d < length (ts ! p)"
  shows "returns (holds digest ts) (remove_loop_index digest p fp candidates expected ds)
    (\<lambda>r x. case find (cond_hit (ts ! p) fp candidates expected) ds of
       None \<Rightarrow> \<not> r \<and> holds digest ts x
     | Some d \<Rightarrow> r \<and> holds digest (ts[p := (ts ! p)[candidates ! d := Empty]]) x)"
  using c
proof (induction ds)
  case Nil
  show ?case unfolding remove_loop_index.simps by (rule returns_preturn) simp
next
  case (Cons d ds)
  note IH = Cons.IH [OF Cons.prems, OF list.set_intros(2)]
  have d: "candidates ! d < length (ts ! p)" using Cons.prems by simp
  have q: "quantize Empty = Empty" by (simp add: quantize_def)
  show ?case
  proof (cases "duplicate_candidate candidates d")
    case True
    then show ?thesis using IH by (simp add: duplicate_cond)
  next
    case False
    then show ?thesis using IH
      by (auto simp: token_cond(1) q intro!: run_read [OF p d] run_replace [OF p d] returns_preturn)
  qed
qed

lemma replace_loop_returns:
  assumes p: "p < length ts" and c: "\<And>d. d \<in> set ds \<Longrightarrow> candidates ! d < length (ts ! p)"
  shows "returns (holds digest ts) (replace_loop digest p fp candidates old replacement ds)
    (\<lambda>r x. case find (cond_hit (ts ! p) fp candidates (Some old)) ds of
       None \<Rightarrow> \<not> r \<and> holds digest ts x
     | Some d \<Rightarrow> r \<and> holds digest (ts[p := (ts ! p)[candidates ! d := quantize (value_state fp d replacement)]]) x)"
  using c
proof (induction ds)
  case Nil
  show ?case unfolding replace_loop.simps by (rule returns_preturn) simp
next
  case (Cons d ds)
  note IH = Cons.IH [OF Cons.prems, OF list.set_intros(2)]
  have d: "candidates ! d < length (ts ! p)" using Cons.prems by simp
  show ?case
  proof (cases "duplicate_candidate candidates d")
    case True
    then show ?thesis using IH by (simp add: duplicate_cond)
  next
    case False
    then show ?thesis using IH
      by (auto simp: token_cond(2) intro!: run_read [OF p d] run_replace [OF p d] returns_preturn)
  qed
qed

lemma prepare_reclaim_loop_returns:
  assumes p: "p < length ts" and c: "\<And>d. d \<in> set ds \<Longrightarrow> candidates ! d < length (ts ! p)"
  shows "returns (holds digest ts) (prepare_reclaim_loop digest p fp candidates old ds)
    (\<lambda>r x. case find (cond_hit (ts ! p) fp candidates (Some old)) ds of
       None \<Rightarrow> r = None \<and> holds digest ts x
     | Some d \<Rightarrow> r = Some ReclaimReinsert \<and> holds digest ts x
         \<or> r = Some ReclaimRemoved \<and> holds digest (ts[p := (ts ! p)[candidates ! d := Empty]]) x)"
  using c
proof (induction ds)
  case Nil
  show ?case unfolding prepare_reclaim_loop.simps by (rule returns_preturn) simp
next
  case (Cons d ds)
  note IH = Cons.IH [OF Cons.prems, OF list.set_intros(2)]
  have d: "candidates ! d < length (ts ! p)" using Cons.prems by simp
  have q: "quantize Empty = Empty" by (simp add: quantize_def)
  show ?case
  proof (cases "duplicate_candidate candidates d")
    case True
    then show ?thesis using IH by (simp add: duplicate_cond)
  next
    case False
    then show ?thesis using IH
      by (auto simp: token_cond(2) q intro!: run_read [OF p d] run_global [OF p d] run_heat run_replace [OF p d] returns_preturn)
  qed
qed

lemma hit_update:
  assumes wf: "table_wf t" and d: "d < 4" "hit t (index_fingerprint hash) (candidate_slots hash (length t)) d"
  defines "i \<equiv> candidate_slots hash (length t) ! d"
  shows "table_wf (t[i := Empty])" "table_map (t[i := Empty]) = (table_map t)(hash_key_of hash (length t) := None)"
    "table_wf (t[i := quantize (value_state (index_fingerprint hash) d e)])"
    "table_map (t[i := quantize (value_state (index_fingerprint hash) d e)]) =
       (table_map t)(hash_key_of hash (length t) \<mapsto> quantize_entry e)"
proof -
  have n: "0 < length t" using wf by (auto simp: table_wf_def)
  note k = hit_key [OF n d, folded i_def]
  have i: "i < length t" using candidate_less [OF n d(1)] by (simp add: i_def)
  show "table_wf (t[i := Empty])" "table_map (t[i := Empty]) = (table_map t)(hash_key_of hash (length t) := None)"
    using clear_bucket [OF wf i] k(1) by (simp_all add: drop_key_def)
  have eq: "i = candidate_slots hash (length t) ! d" by (simp add: i_def)
  from install [OF wf k(2) eq] k(1)
  show "table_wf (t[i := quantize (value_state (index_fingerprint hash) d e)])"
    "table_map (t[i := quantize (value_state (index_fingerprint hash) d e)]) =
       (table_map t)(hash_key_of hash (length t) \<mapsto> quantize_entry e)"
    by (simp_all add: drop_key_def)
qed

text \<open>One partition changes as a map.\<close>

definition changes :: "crc_stream \<Rightarrow> index_slot_state list list \<Rightarrow> nat \<Rightarrow> (index_key \<rightharpoonup> index_entry) \<Rightarrow> region_index \<Rightarrow> bool" where
  "changes digest ts p m x \<longleftrightarrow>
     (\<exists>t'. holds digest (ts[p := t']) x \<and> table_wf t' \<and> length t' = length (ts ! p) \<and> table_map t' = m)"

lemma changes_same: "table_wf (ts ! p) \<Longrightarrow> holds digest ts x \<Longrightarrow> changes digest ts p (table_map (ts ! p)) x"
  unfolding changes_def by (intro exI [of _ "ts ! p"]) simp

lemma changes_intro:
  "holds digest (ts[p := (ts ! p)[i := st]]) x \<Longrightarrow> table_wf ((ts ! p)[i := st]) \<Longrightarrow> table_map ((ts ! p)[i := st]) = m \<Longrightarrow>
   changes digest ts p m x"
  unfolding changes_def by (intro exI [of _ "(ts ! p)[i := st]"]) simp

lemma remove_matching_returns:
  fixes digest ts hash
  defines "p \<equiv> index_partition_for hash (length ts)"
  defines "k \<equiv> hash_key_of hash (length (ts ! p))"
  assumes wf: "list_all table_wf ts" and free: "non_waiting \<Longrightarrow> \<not> contended p"
  shows "returns (holds digest ts) (remove_matching digest contended hash expected non_waiting)
    (\<lambda>r x. r = matches_key (ts ! p) hash expected
       \<and> changes digest ts p (if r then (table_map (ts ! p))(k := None) else table_map (ts ! p)) x)"
proof -
  let ?post = "\<lambda>r x. r = matches_key (ts ! p) hash expected
       \<and> changes digest ts p (if r then (table_map (ts ! p))(k := None) else table_map (ts ! p)) x"
  let ?c = "candidate_slots hash (length (ts ! p))" and ?fp = "index_fingerprint hash"
  have body: "returns (holds digest ts)
     (pbind (remove_loop_index digest p ?fp ?c expected [0..<INDEX_CANDIDATES]) (\<lambda>removed.
       if removed then preturn True
       else pbind (if expected \<noteq> None then record_conditional_remove_miss else preturn ()) (\<lambda>_. preturn False))) ?post"
    if p: "p < length ts"
  proof -
    have t: "table_wf (ts ! p)" using wf p by (simp add: list_all_length)
    have n: "0 < length (ts ! p)" using t by (auto simp: table_wf_def)
    have c4: "[0..<INDEX_CANDIDATES] = [0..<4]" by (simp add: INDEX_CANDIDATES_def)
    have loop: "returns (holds digest ts) (remove_loop_index digest p ?fp ?c expected [0..<4])
      (\<lambda>r x. case find (cond_hit (ts ! p) ?fp ?c expected) [0..<4] of
         None \<Rightarrow> \<not> r \<and> holds digest ts x | Some d \<Rightarrow> r \<and> holds digest (ts[p := (ts ! p)[?c ! d := Empty]]) x)"
      by (rule remove_loop_returns [OF p]) (use candidate_less [OF n] in simp)
    show ?thesis unfolding c4
    proof (rule returns_bind [OF loop])
      fix r
      show "returns (\<lambda>x. case find (cond_hit (ts ! p) ?fp ?c expected) [0..<4] of
           None \<Rightarrow> \<not> r \<and> holds digest ts x | Some d \<Rightarrow> r \<and> holds digest (ts[p := (ts ! p)[?c ! d := Empty]]) x)
         (if r then preturn True
          else pbind (if expected \<noteq> None then record_conditional_remove_miss else preturn ()) (\<lambda>_. preturn False)) ?post"
      proof (cases "find (cond_hit (ts ! p) ?fp ?c expected) [0..<4]")
        case None
        then have nm: "\<not> matches_key (ts ! p) hash expected" using find_cond(1) [OF t] by simp
        have "returns (\<lambda>x. \<not> r \<and> holds digest ts x) (if r then preturn True
          else pbind (if expected \<noteq> None then record_conditional_remove_miss else preturn ()) (\<lambda>_. preturn False)) ?post"
          using nm changes_same [OF t]
          by (auto simp: returns_def record_conditional_remove_miss_def counted_def holds_def)
        then show ?thesis by (simp add: None)
      next
        case (Some d)
        from find_cond(2) [OF t Some] have d: "d < 4" "hit (ts ! p) ?fp ?c d" "matches_key (ts ! p) hash expected" by blast+
        note u = hit_update [OF t d(1,2)]
        have "returns (\<lambda>x. r \<and> holds digest (ts[p := (ts ! p)[?c ! d := Empty]]) x) (if r then preturn True
          else pbind (if expected \<noteq> None then record_conditional_remove_miss else preturn ()) (\<lambda>_. preturn False)) ?post"
          using d(3) changes_intro [OF _ u(1,2)] by (auto simp: returns_def k_def)
        then show ?thesis by (simp add: Some)
      qed
    qed
  qed
  show ?thesis
  proof (cases non_waiting)
    case True
    with free have "\<not> contended (index_partition_for hash (length ts))" by (simp add: p_def)
    then show ?thesis unfolding remove_matching_def if_P [OF True]
      by (intro run_try_partition [where contended = contended] run_guard_slots) (use body p_def in auto)
  next
    case False
    show ?thesis unfolding remove_matching_def if_not_P [OF False]
      by (intro run_write_partition run_guard_slots) (use body p_def in auto)
  qed
qed

lemma replace_if_match_returns:
  fixes digest ts hash
  defines "p \<equiv> index_partition_for hash (length ts)"
  defines "k \<equiv> hash_key_of hash (length (ts ! p))"
  assumes wf: "list_all table_wf ts"
  shows "returns (holds digest ts) (replace_if_match digest hash old replacement)
    (\<lambda>r x. r = matches_key (ts ! p) hash (Some old)
       \<and> changes digest ts p (if r then (table_map (ts ! p))(k \<mapsto> quantize_entry replacement) else table_map (ts ! p)) x)"
  unfolding replace_if_match_def
proof (intro run_write_partition run_guard_slots)
  fix q assume "q = index_partition_for hash (length ts)" "q < length ts"
  then have q: "q = p" and p: "p < length ts" by (simp_all add: p_def)
  show "q < length ts" using p q by simp
  let ?post = "\<lambda>r x. r = matches_key (ts ! p) hash (Some old)
       \<and> changes digest ts p (if r then (table_map (ts ! p))(k \<mapsto> quantize_entry replacement) else table_map (ts ! p)) x"
  let ?c = "candidate_slots hash (length (ts ! p))" and ?fp = "index_fingerprint hash"
  have t: "table_wf (ts ! p)" using wf p by (simp add: list_all_length)
  have n: "0 < length (ts ! p)" using t by (auto simp: table_wf_def)
  have c4: "[0..<INDEX_CANDIDATES] = [0..<4]" by (simp add: INDEX_CANDIDATES_def)
  have loop: "returns (holds digest ts) (replace_loop digest p ?fp ?c old replacement [0..<4])
    (\<lambda>r x. case find (cond_hit (ts ! p) ?fp ?c (Some old)) [0..<4] of
       None \<Rightarrow> \<not> r \<and> holds digest ts x
     | Some d \<Rightarrow> r \<and> holds digest (ts[p := (ts ! p)[?c ! d := quantize (value_state ?fp d replacement)]]) x)"
    by (rule replace_loop_returns [OF p]) (use candidate_less [OF n] in simp)
  have "returns (\<lambda>x. case find (cond_hit (ts ! p) ?fp ?c (Some old)) [0..<4] of
       None \<Rightarrow> \<not> r \<and> holds digest ts x
     | Some d \<Rightarrow> r \<and> holds digest (ts[p := (ts ! p)[?c ! d := quantize (value_state ?fp d replacement)]]) x)
    (if r then preturn True
     else pbind (counted (\<lambda>x. x\<lparr>ri_conditional_replace_misses := ri_conditional_replace_misses x + 1\<rparr>)) (\<lambda>_. preturn False)) ?post" for r
  proof (cases "find (cond_hit (ts ! p) ?fp ?c (Some old)) [0..<4]")
    case None
    then have nm: "\<not> matches_key (ts ! p) hash (Some old)" using find_cond(1) [OF t] by simp
    have "returns (\<lambda>x. \<not> r \<and> holds digest ts x) (if r then preturn True
      else pbind (counted (\<lambda>x. x\<lparr>ri_conditional_replace_misses := ri_conditional_replace_misses x + 1\<rparr>)) (\<lambda>_. preturn False)) ?post"
      using nm changes_same [OF t] by (auto simp: returns_def counted_def holds_def)
    then show ?thesis by (simp add: None)
  next
    case (Some d)
    from find_cond(2) [OF t Some] have d: "d < 4" "hit (ts ! p) ?fp ?c d" "matches_key (ts ! p) hash (Some old)" by blast+
    note u = hit_update [OF t d(1,2)]
    have "returns (\<lambda>x. r \<and> holds digest (ts[p := (ts ! p)[?c ! d := quantize (value_state ?fp d replacement)]]) x) (if r then preturn True
      else pbind (counted (\<lambda>x. x\<lparr>ri_conditional_replace_misses := ri_conditional_replace_misses x + 1\<rparr>)) (\<lambda>_. preturn False)) ?post"
      using d(3) changes_intro [OF _ u(3,4)] by (auto simp: returns_def k_def)
    then show ?thesis by (simp add: Some)
  qed
  then show "returns (holds digest ts) (pbind (replace_loop digest q ?fp (candidate_slots hash (length (ts ! q))) old replacement [0..<INDEX_CANDIDATES])
      (\<lambda>replaced. if replaced then preturn True
        else pbind (counted (\<lambda>x. x\<lparr>ri_conditional_replace_misses := ri_conditional_replace_misses x + 1\<rparr>)) (\<lambda>_. preturn False))) ?post"
    unfolding q c4 by (rule returns_bind [OF loop])
qed

lemma prepare_reclaim_returns:
  fixes digest ts hash
  defines "p \<equiv> index_partition_for hash (length ts)"
  defines "k \<equiv> hash_key_of hash (length (ts ! p))"
  assumes wf: "list_all table_wf ts"
  shows "returns (holds digest ts) (prepare_reclaim digest hash old)
    (\<lambda>r x. (r \<noteq> ReclaimMissing \<longleftrightarrow> matches_key (ts ! p) hash (Some old))
       \<and> changes digest ts p (if r = ReclaimRemoved then (table_map (ts ! p))(k := None) else table_map (ts ! p)) x)"
  unfolding prepare_reclaim_def
proof (intro run_write_partition run_guard_slots)
  fix q assume "q = index_partition_for hash (length ts)" "q < length ts"
  then have q: "q = p" and p: "p < length ts" by (simp_all add: p_def)
  show "q < length ts" using p q by simp
  let ?post = "\<lambda>r x. (r \<noteq> ReclaimMissing \<longleftrightarrow> matches_key (ts ! p) hash (Some old))
       \<and> changes digest ts p (if r = ReclaimRemoved then (table_map (ts ! p))(k := None) else table_map (ts ! p)) x"
  let ?c = "candidate_slots hash (length (ts ! p))" and ?fp = "index_fingerprint hash"
  have t: "table_wf (ts ! p)" using wf p by (simp add: list_all_length)
  have n: "0 < length (ts ! p)" using t by (auto simp: table_wf_def)
  have c4: "[0..<INDEX_CANDIDATES] = [0..<4]" by (simp add: INDEX_CANDIDATES_def)
  have loop: "returns (holds digest ts) (prepare_reclaim_loop digest p ?fp ?c old [0..<4])
    (\<lambda>r x. case find (cond_hit (ts ! p) ?fp ?c (Some old)) [0..<4] of
       None \<Rightarrow> r = None \<and> holds digest ts x
     | Some d \<Rightarrow> r = Some ReclaimReinsert \<and> holds digest ts x
         \<or> r = Some ReclaimRemoved \<and> holds digest (ts[p := (ts ! p)[?c ! d := Empty]]) x)"
    by (rule prepare_reclaim_loop_returns [OF p]) (use candidate_less [OF n] in simp)
  have "returns (\<lambda>x. case find (cond_hit (ts ! p) ?fp ?c (Some old)) [0..<4] of
       None \<Rightarrow> r = None \<and> holds digest ts x
     | Some d \<Rightarrow> r = Some ReclaimReinsert \<and> holds digest ts x
         \<or> r = Some ReclaimRemoved \<and> holds digest (ts[p := (ts ! p)[?c ! d := Empty]]) x)
    (case r of Some a \<Rightarrow> preturn a | None \<Rightarrow> pbind record_conditional_remove_miss (\<lambda>_. preturn ReclaimMissing)) ?post" for r
  proof (cases "find (cond_hit (ts ! p) ?fp ?c (Some old)) [0..<4]")
    case None
    then have nm: "\<not> matches_key (ts ! p) hash (Some old)" using find_cond(1) [OF t] by simp
    have "returns (\<lambda>x. r = None \<and> holds digest ts x)
      (case r of Some a \<Rightarrow> preturn a | None \<Rightarrow> pbind record_conditional_remove_miss (\<lambda>_. preturn ReclaimMissing)) ?post"
      using nm changes_same [OF t] by (auto simp: returns_def record_conditional_remove_miss_def counted_def holds_def)
    then show ?thesis by (simp add: None)
  next
    case (Some d)
    from find_cond(2) [OF t Some] have d: "d < 4" "hit (ts ! p) ?fp ?c d" "matches_key (ts ! p) hash (Some old)" by blast+
    note u = hit_update [OF t d(1,2)]
    show ?thesis using d(3) changes_same [OF t] changes_intro [OF _ u(1,2)] by (auto simp: Some returns_def k_def)
  qed
  then show "returns (holds digest ts) (pbind (prepare_reclaim_loop digest q ?fp (candidate_slots hash (length (ts ! q))) old [0..<INDEX_CANDIDATES])
      (\<lambda>action. case action of Some a \<Rightarrow> preturn a
        | None \<Rightarrow> pbind record_conditional_remove_miss (\<lambda>_. preturn ReclaimMissing))) ?post"
    unfolding q c4 by (rule returns_bind [OF loop])
qed

end
