(* ===== verification/Index_Properties.thy ===== *)
theory Index_Properties
  imports Index_Ops
begin

text \<open>
  The Region index as one finite map over all partitions, and its contract as a lossy map: every
  operation of \<open>Region_Index\<close> changes the map at the key of its hash only, except that an insertion
  may drop one other key. What a lookup returns is therefore never out of date.
\<close>

section \<open>The map of an index\<close>

type_synonym index_token = "nat \<times> index_key"

definition index_ok :: "crc_stream \<Rightarrow> region_index \<Rightarrow> bool" where
  "index_ok digest x \<longleftrightarrow> storage_ok digest (ri_storage x) \<and> list_all table_wf (tables (ri_storage x))"

definition index_shape :: "region_index \<Rightarrow> nat list" where
  "index_shape x = map length (tables (ri_storage x))"

text \<open>The token of a hash: its partition, home bucket and fingerprint.\<close>

definition token :: "nat list \<Rightarrow> u64 \<Rightarrow> index_token" where
  "token shape hash =
     (let p = index_partition_for hash (length shape) in (p, hash_key_of hash (shape ! p)))"

definition index_map :: "region_index \<Rightarrow> index_token \<rightharpoonup> index_entry" where
  "index_map x = (\<lambda>(p, k). let ts = tables (ri_storage x) in if p < length ts then table_map (ts ! p) k else None)"

definition at_partition :: "nat \<Rightarrow> (index_key \<rightharpoonup> index_entry) \<Rightarrow> (index_token \<rightharpoonup> index_entry) \<Rightarrow> (index_token \<rightharpoonup> index_entry)" where
  "at_partition p m g = (\<lambda>(q, k). if q = p then m k else g (q, k))"

lemma partition_in_range:
  assumes "storage_ok digest (ri_storage x)"
  shows "index_partition_for hash (length (tables (ri_storage x))) < length (tables (ri_storage x))"
  using storage_ok_facts(1) [OF assms] storage_ok_facts(6) [OF assms, of hash] by simp

lemma token_parts:
  fixes x hash
  assumes "storage_ok digest (ri_storage x)"
  defines "ts \<equiv> tables (ri_storage x)"
  defines "p \<equiv> index_partition_for hash (length ts)"
  shows "token (index_shape x) hash = (p, hash_key_of hash (length (ts ! p)))"
    "index_map x (token (index_shape x) hash) = table_map (ts ! p) (hash_key_of hash (length (ts ! p)))"
  using partition_in_range [OF assms(1), of hash]
  by (simp_all add: token_def index_shape_def index_map_def ts_def p_def Let_def)

lemma changed_index:
  assumes ok: "index_ok digest x" and p: "p < length (tables (ri_storage x))"
    and c: "changes digest (tables (ri_storage x)) p m x'"
  shows "index_ok digest x'" "index_shape x' = index_shape x" "index_map x' = at_partition p m (index_map x)"
proof -
  let ?ts = "tables (ri_storage x)"
  from c obtain t' where t': "storage_ok digest (ri_storage x')" "tables (ri_storage x') = ?ts[p := t']"
    "table_wf t'" "length t' = length (?ts ! p)" "table_map t' = m"
    by (auto simp: changes_def holds_def)
  have "list_all table_wf (?ts[p := t'])"
    using ok t'(3) p by (auto simp: index_ok_def list_all_length nth_list_update)
  with t' show "index_ok digest x'" by (simp add: index_ok_def)
  have "map length (?ts[p := t']) = (map length ?ts)[p := map length ?ts ! p]" using t'(4) p by (simp add: map_update)
  then show "index_shape x' = index_shape x" unfolding index_shape_def t'(2) by (simp only: list_update_id)
  show "index_map x' = at_partition p m (index_map x)"
    using t'(2,5) p by (auto simp: fun_eq_iff index_map_def at_partition_def Let_def nth_list_update)
qed

lemma same_tables:
  "tables (ri_storage x') = tables (ri_storage x) \<Longrightarrow> index_shape x' = index_shape x \<and> index_map x' = index_map x"
  unfolding index_shape_def index_map_def by simp

lemma index_ok_holds: "index_ok digest x \<Longrightarrow> holds digest (tables (ri_storage x)) x"
  by (simp add: index_ok_def holds_def)

lemma at_partition_upd:
  "at_partition p ((\<lambda>k. g (p, k))(k := v)) g = g((p, k) := v)"
  "at_partition p (\<lambda>k. g (p, k)) g = g"
  by (auto simp: at_partition_def fun_eq_iff)

lemma table_of_map:
  "p < length (tables (ri_storage x)) \<Longrightarrow> table_map (tables (ri_storage x) ! p) = (\<lambda>k. index_map x (p, k))"
  by (simp add: index_map_def)

text \<open>From the partition to the whole index: a conditional change at the token of the hash.\<close>

abbreviation hash_partition :: "region_index \<Rightarrow> u64 \<Rightarrow> nat" where
  "hash_partition x hash \<equiv> index_partition_for hash (length (tables (ri_storage x)))"

abbreviation hash_table :: "region_index \<Rightarrow> u64 \<Rightarrow> index_slot_state list" where
  "hash_table x hash \<equiv> tables (ri_storage x) ! hash_partition x hash"

lemma lift_change:
  assumes ok: "index_ok digest x"
    and ret: "returns (holds digest (tables (ri_storage x))) m (\<lambda>r x'. C r
      \<and> changes digest (tables (ri_storage x)) (hash_partition x hash)
          (if B r then (table_map (hash_table x hash))(hash_key_of hash (length (hash_table x hash)) := v)
           else table_map (hash_table x hash)) x')"
  shows "\<exists>r x'. m x = Some (Inr r, x') \<and> C r \<and> index_ok digest x' \<and> index_shape x' = index_shape x
    \<and> index_map x' = (if B r then (index_map x)(token (index_shape x) hash := v) else index_map x)"
proof -
  from returnsD [OF ret index_ok_holds [OF ok]] obtain r x' where r: "m x = Some (Inr r, x')" "C r"
    and c: "changes digest (tables (ri_storage x)) (hash_partition x hash)
          (if B r then (table_map (hash_table x hash))(hash_key_of hash (length (hash_table x hash)) := v)
           else table_map (hash_table x hash)) x'" by blast
  have s: "storage_ok digest (ri_storage x)" using ok by (simp add: index_ok_def)
  note p = partition_in_range [OF s, of hash] and tok = token_parts(1) [OF s, of hash]
  note u = changed_index [OF ok p c]
  have "index_map x' = (if B r then (index_map x)(token (index_shape x) hash := v) else index_map x)"
    unfolding u(3) tok table_of_map [OF p] by (cases "B r") (simp_all only: at_partition_upd if_True if_False)
  with r u(1,2) show ?thesis by blast
qed

section \<open>The operations on the map\<close>

lemma matches_token:
  assumes "index_ok digest x"
  shows "matches_key (hash_table x hash) hash expected
    \<longleftrightarrow> (\<exists>e. index_map x (token (index_shape x) hash) = Some e \<and> expected_ok expected e)"
  using token_parts(2) [of digest x hash] assms by (simp add: matches_key_def index_ok_def)

lemma expected_location: "expected_ok (Some old) e = index_equivalent (location e) old"
  by (simp add: expected_ok_def)

lemma remove_matching_map:
  assumes ok: "index_ok digest x"
    and free: "non_waiting \<longrightarrow> \<not> contended (hash_partition x hash)"
  shows "\<exists>b x'. remove_matching digest contended hash expected non_waiting x = Some (Inr b, x')
    \<and> b = (\<exists>e. index_map x (token (index_shape x) hash) = Some e \<and> expected_ok expected e)
    \<and> index_ok digest x' \<and> index_shape x' = index_shape x
    \<and> index_map x' = (if b then (index_map x)(token (index_shape x) hash := None) else index_map x)"
  unfolding matches_token [OF ok, symmetric]
  by (rule lift_change [OF ok remove_matching_returns]) (use ok free in \<open>simp_all add: index_ok_def\<close>)

lemma replace_if_match_map:
  assumes ok: "index_ok digest x"
  shows "\<exists>b x'. replace_if_match digest hash old replacement x = Some (Inr b, x')
    \<and> b = (\<exists>e. index_map x (token (index_shape x) hash) = Some e \<and> index_equivalent (location e) old)
    \<and> index_ok digest x' \<and> index_shape x' = index_shape x
    \<and> index_map x' = (if b then (index_map x)(token (index_shape x) hash \<mapsto> quantize_entry replacement) else index_map x)"
  unfolding expected_location [symmetric] matches_token [OF ok, symmetric]
  by (rule lift_change [OF ok replace_if_match_returns]) (use ok in \<open>simp add: index_ok_def\<close>)

lemma prepare_reclaim_map:
  assumes ok: "index_ok digest x"
  shows "\<exists>r x'. prepare_reclaim digest hash old x = Some (Inr r, x')
    \<and> (r \<noteq> ReclaimMissing) = (\<exists>e. index_map x (token (index_shape x) hash) = Some e \<and> index_equivalent (location e) old)
    \<and> index_ok digest x' \<and> index_shape x' = index_shape x
    \<and> index_map x' = (if r = ReclaimRemoved then (index_map x)(token (index_shape x) hash := None) else index_map x)"
  unfolding expected_location [symmetric] matches_token [OF ok, symmetric]
  by (rule lift_change [OF ok prepare_reclaim_returns]) (use ok in \<open>simp add: index_ok_def\<close>)

lemma lookup_raw_map:
  assumes ok: "index_ok digest x" and free: "\<not> contended (hash_partition x hash)"
  shows "\<exists>x'. lookup_raw digest contended hash x = Some (Inr (index_map x (token (index_shape x) hash)), x')
    \<and> index_ok digest x' \<and> index_shape x' = index_shape x \<and> index_map x' = index_map x"
proof -
  have wf: "list_all table_wf (tables (ri_storage x))" and s: "storage_ok digest (ri_storage x)"
    using ok by (simp_all add: index_ok_def)
  from returnsD [OF lookup_raw_returns [where contended = contended, OF wf free] index_ok_holds [OF ok]] obtain x' where
    "lookup_raw digest contended hash x = Some (Inr (index_map x (token (index_shape x) hash)), x')"
    "holds digest (tables (ri_storage x)) x'"
    unfolding token_parts(2) [OF s] by blast
  with ok same_tables [of x' x] show ?thesis by (simp add: holds_def index_ok_def)
qed

text \<open>An occupied window: the four candidate buckets of the hash all hold an entry.\<close>

definition window_full :: "region_index \<Rightarrow> u64 \<Rightarrow> bool" where
  "window_full x hash \<longleftrightarrow>
     (let ts = tables (ri_storage x); t = ts ! index_partition_for hash (length ts) in
      \<forall>d < 4. t ! (candidate_slots hash (length t) ! d) \<noteq> Empty)"

lemma upsert_map:
  assumes ok: "index_ok digest x"
  obtains x' victim where "upsert digest hash e x = Some (Inr True, x')"
    "index_ok digest x'" "index_shape x' = index_shape x"
    "index_map x' = (drop_key victim (index_map x))(token (index_shape x) hash \<mapsto> quantize_entry e)"
    "victim \<noteq> None \<Longrightarrow> index_map x (token (index_shape x) hash) = None \<and> window_full x hash"
proof -
  define ts where "ts = tables (ri_storage x)"
  define p where "p = index_partition_for hash (length ts)"
  define k where "k = hash_key_of hash (length (ts ! p))"
  have wf: "list_all table_wf ts" and s: "storage_ok digest (ri_storage x)" using ok by (simp_all add: index_ok_def ts_def)
  have p: "p < length ts" using partition_in_range [OF s] by (simp add: p_def ts_def)
  have tok: "token (index_shape x) hash = (p, k)" using token_parts(1) [OF s] by (simp add: p_def k_def ts_def)
  have m: "table_map (ts ! p) = (\<lambda>k. index_map x (p, k))" using p by (simp add: ts_def table_of_map)
  from returnsD [OF upsert_returns [OF wf] index_ok_holds [OF ok, folded ts_def]] obtain x' t' where
    run: "upsert digest hash e x = Some (Inr True, x')" and u: "upserts hash e (ts ! p) t'" "holds digest (ts[p := t']) x'"
    unfolding p_def by metis
  from u(1) obtain v where v: "table_map t' = (drop_key v (table_map (ts ! p)))(k \<mapsto> quantize_entry e)"
    "v \<noteq> None \<Longrightarrow> table_map (ts ! p) k = None \<and> (\<forall>d < 4. ts ! p ! (candidate_slots hash (length (ts ! p)) ! d) \<noteq> Empty)"
    and t': "table_wf t'" "length t' = length (ts ! p)"
    unfolding upserts_def k_def by blast
  have "changes digest ts p ((drop_key v (table_map (ts ! p)))(k \<mapsto> quantize_entry e)) x'"
    using u(2) t' v(1) by (auto simp: changes_def)
  note c = changed_index [OF ok p [unfolded ts_def] this [unfolded ts_def], folded ts_def]
  have "at_partition p ((drop_key v (table_map (ts ! p)))(k \<mapsto> quantize_entry e)) (index_map x)
      = (drop_key (map_option (Pair p) v) (index_map x))((p, k) \<mapsto> quantize_entry e)"
    unfolding m by (cases v) (auto simp: at_partition_def drop_key_def fun_eq_iff)
  with c tok have im: "index_map x' = (drop_key (map_option (Pair p) v) (index_map x))(token (index_shape x) hash \<mapsto> quantize_entry e)"
    by simp
  show ?thesis
  proof (rule that [OF run c(1,2) im])
    assume "map_option (Pair p) v \<noteq> None"
    then show "index_map x (token (index_shape x) hash) = None \<and> window_full x hash"
      using v(2) m tok by (simp add: window_full_def Let_def flip: ts_def p_def)
  qed
qed

section \<open>The lossy map contract\<close>

text \<open>
  A store that may forget entries on its own but never keeps one the caller has replaced or
  removed. \<open>effect\<close> is what a call that answered \<open>r\<close> does to a map that forgets nothing.
\<close>

fun run_calls :: "('call \<Rightarrow> 's \<Rightarrow> ('r \<times> 's) option) \<Rightarrow> 'call list \<Rightarrow> 's \<Rightarrow> ('r list \<times> 's) option" where
  "run_calls exec [] s = Some ([], s)"
| "run_calls exec (c # cs) s =
     (case exec c s of None \<Rightarrow> None
      | Some (r, s') \<Rightarrow> map_option (\<lambda>(rs, s''). (r # rs, s'')) (run_calls exec cs s'))"

fun ghost_after :: "('call \<Rightarrow> 'r \<Rightarrow> 'm \<Rightarrow> 'm) \<Rightarrow> ('call \<times> 'r) list \<Rightarrow> 'm \<Rightarrow> 'm" where
  "ghost_after effect [] m = m"
| "ghost_after effect ((c, r) # crs) m = ghost_after effect crs (effect c r m)"

locale lossy_map =
  fixes ok :: "'s \<Rightarrow> bool" and view :: "'s \<Rightarrow> ('k \<rightharpoonup> 'v)"
    and exec :: "'call \<Rightarrow> 's \<Rightarrow> ('r \<times> 's) option"
    and effect :: "'call \<Rightarrow> 'r \<Rightarrow> ('k \<rightharpoonup> 'v) \<Rightarrow> ('k \<rightharpoonup> 'v)"
  assumes exec_law: "ok s \<Longrightarrow> \<exists>r s'. exec c s = Some (r, s') \<and> ok s' \<and> view s' \<subseteq>\<^sub>m effect c r (view s)"
    and effect_mono: "m \<subseteq>\<^sub>m m' \<Longrightarrow> effect c r m \<subseteq>\<^sub>m effect c r m'"
begin

lemma never_stale:
  assumes "ok s" "view s \<subseteq>\<^sub>m ghost"
  shows "\<exists>rs s'. run_calls exec cs s = Some (rs, s') \<and> ok s' \<and> length rs = length cs
    \<and> view s' \<subseteq>\<^sub>m ghost_after effect (zip cs rs) ghost"
  using assms
proof (induction cs arbitrary: s ghost)
  case (Cons c cs)
  from exec_law [OF Cons.prems(1)] obtain r s' where
    1: "exec c s = Some (r, s')" "ok s'" "view s' \<subseteq>\<^sub>m effect c r (view s)" by blast
  have "view s' \<subseteq>\<^sub>m effect c r ghost" using 1(3) effect_mono [OF Cons.prems(2)] map_le_trans by blast
  from Cons.IH [OF 1(2) this] 1(1) show ?case by fastforce
qed simp

end

section \<open>The calls of the cache on the index\<close>

datatype index_call =
    CallUpsert u64 index_entry
  | CallLookup "nat \<Rightarrow> bool" u64
  | CallDelete "nat \<Rightarrow> bool" u64
  | CallRemoveIf u64 packed_location
  | CallReplaceIf u64 packed_location index_entry
  | CallReclaim u64 packed_location

datatype index_reply =
    Failed index_storage_error
  | Changed bool
  | Found "index_entry option"
  | Reclaimed reclaim_index_action

definition answer :: "('a \<Rightarrow> index_reply) \<Rightarrow> ((index_storage_error + 'a) \<times> region_index) option \<Rightarrow> (index_reply \<times> region_index) option" where
  "answer f = map_option (\<lambda>(r, x). (case_sum Failed f r, x))"

lemma answer_simps [simp]:
  "answer f (Some (Inr a, x)) = Some (f a, x)" "answer f (Some (Inl e, x)) = Some (Failed e, x)"
  by (simp_all add: answer_def)

fun index_exec :: "crc_stream \<Rightarrow> index_call \<Rightarrow> region_index \<Rightarrow> (index_reply \<times> region_index) option" where
  "index_exec digest (CallUpsert h e) x = answer Changed (upsert digest h e x)"
| "index_exec digest (CallLookup contended h) x = answer Found (lookup_raw digest contended h x)"
| "index_exec digest (CallDelete contended h) x = answer Changed (try_delete digest contended h x)"
| "index_exec digest (CallRemoveIf h old) x = answer Changed (remove_if_match digest h old x)"
| "index_exec digest (CallReplaceIf h old e) x = answer Changed (replace_if_match digest h old e x)"
| "index_exec digest (CallReclaim h old) x = answer Reclaimed (prepare_reclaim digest h old x)"

text \<open>What a map that forgets nothing holds after a call answered as it did.\<close>

fun index_effect :: "nat list \<Rightarrow> index_call \<Rightarrow> index_reply \<Rightarrow> (index_token \<rightharpoonup> index_entry) \<Rightarrow> (index_token \<rightharpoonup> index_entry)" where
  "index_effect shape (CallUpsert h e) (Changed True) m = m(token shape h \<mapsto> quantize_entry e)"
| "index_effect shape (CallDelete contended h) (Changed b) m = m(token shape h := None)"
| "index_effect shape (CallRemoveIf h old) (Changed True) m = m(token shape h := None)"
| "index_effect shape (CallReplaceIf h old e) (Changed True) m = m(token shape h \<mapsto> quantize_entry e)"
| "index_effect shape (CallReclaim h old) (Reclaimed ReclaimRemoved) m = m(token shape h := None)"
| "index_effect shape call reply m = m"

lemma index_effect_changed:
  "index_effect shape (CallRemoveIf h old) (Changed b) m = (if b then m(token shape h := None) else m)"
  "index_effect shape (CallReplaceIf h old e) (Changed b) m = (if b then m(token shape h \<mapsto> quantize_entry e) else m)"
  by (cases b; simp)+

lemma map_le_upd_mono: "m \<subseteq>\<^sub>m m' \<Longrightarrow> m(k := v) \<subseteq>\<^sub>m m'(k := v)"
  by (auto simp: map_le_def)

lemma index_effect_mono: "m \<subseteq>\<^sub>m m' \<Longrightarrow> index_effect shape c r m \<subseteq>\<^sub>m index_effect shape c r m'"
  by (cases "(shape, c, r, m)" rule: index_effect.cases) (simp_all add: map_le_upd_mono)

text \<open>A busy partition turns a non-waiting call away before it touches anything.\<close>

lemma busy_calls:
  assumes "index_ok digest x" "contended (hash_partition x hash)"
  shows "lookup_raw digest contended hash x = Some (Inl (PartitionBusy (hash_partition x hash)), x)"
    "remove_matching digest contended hash expected True x = Some (Inl (PartitionBusy (hash_partition x hash)), x)"
proof -
  have "length (pis_partitions (ri_storage x)) = length (tables (ri_storage x))"
    using assms(1) storage_ok_facts(1) [of digest] unfolding index_ok_def by simp
  then have "try_hash_partition contended hash (ri_storage x) = Some (Inl (PartitionBusy (hash_partition x hash)), ri_storage x)"
    using assms(2) by (simp add: try_hash_partition_def del: length_tables)
  then have "on_storage (try_hash_partition contended hash) x = Some (Inl (PartitionBusy (hash_partition x hash)), x)"
    by (simp add: on_storage_def pzoom_def)
  then show "lookup_raw digest contended hash x = Some (Inl (PartitionBusy (hash_partition x hash)), x)"
    "remove_matching digest contended hash expected True x = Some (Inl (PartitionBusy (hash_partition x hash)), x)"
    by (simp_all add: lookup_raw_def remove_matching_def pbind_eq(2) del: length_tables)
qed

definition index_at :: "crc_stream \<Rightarrow> nat list \<Rightarrow> region_index \<Rightarrow> bool" where
  "index_at digest shape x \<longleftrightarrow> index_ok digest x \<and> index_shape x = shape"

lemma drop_key_le: "drop_key v m \<subseteq>\<^sub>m m"
  by (auto simp: drop_key_def map_le_def split: option.splits)

lemma index_exec_law:
  assumes "index_at digest shape x"
  shows "\<exists>r x'. index_exec digest c x = Some (r, x') \<and> index_at digest shape x'
    \<and> index_map x' \<subseteq>\<^sub>m index_effect shape c r (index_map x)"
proof -
  from assms have ok: "index_ok digest x" and sh: "index_shape x = shape" by (simp_all add: index_at_def)
  show ?thesis
  proof (cases c)
    case (CallUpsert h e)
    show ?thesis
      by (rule upsert_map [OF ok, of h e]) (use CallUpsert sh map_le_upd_mono [OF drop_key_le] in \<open>auto simp: index_at_def\<close>)
  next
    case (CallLookup contended h)
    then show ?thesis using lookup_raw_map [OF ok, of contended h] busy_calls(1) [OF ok, of contended h] assms sh
      by (cases "contended (hash_partition x h)") (auto simp: index_at_def)
  next
    case (CallDelete contended h)
    show ?thesis
    proof (cases "contended (hash_partition x h)")
      case True
      then show ?thesis using CallDelete busy_calls(2) [OF ok, of contended h None] assms by (simp add: try_delete_def)
    next
      case False
      then show ?thesis using CallDelete remove_matching_map [OF ok, of True contended h None] sh
        by (force simp: index_at_def try_delete_def expected_ok_def map_le_def)
    qed
  next
    case (CallRemoveIf h old)
    then show ?thesis using remove_matching_map [OF ok, of False "\<lambda>_. False" h "Some old"] sh
      by (auto simp: index_at_def remove_if_match_def index_effect_changed)
  next
    case (CallReplaceIf h old e)
    then show ?thesis using replace_if_match_map [OF ok, of h old e] sh by (auto simp: index_at_def index_effect_changed)
  next
    case (CallReclaim h old)
    from prepare_reclaim_map [OF ok, of h old] obtain r x' where
      r: "prepare_reclaim digest h old x = Some (Inr r, x')" "index_ok digest x'" "index_shape x' = index_shape x"
      "index_map x' = (if r = ReclaimRemoved then (index_map x)(token (index_shape x) h := None) else index_map x)" by blast
    then show ?thesis using CallReclaim sh by (cases r) (simp_all add: index_at_def)
  qed
qed

interpretation region_index: lossy_map "index_at digest shape" index_map "index_exec digest" "index_effect shape"
  for digest shape
  by unfold_locales (use index_exec_law index_effect_mono in blast)+

section \<open>A fresh index\<close>

definition fresh_index :: "allocator \<Rightarrow> (nat \<Rightarrow> io_error option) \<Rightarrow> nat \<Rightarrow> index_storage_error + region_index" where
  "fresh_index alloc map_anonymous slots =
     bind_result (storage_anonymous alloc map_anonymous slots) (index_from_storage alloc)"

lemma empty_table:
  assumes "4 \<le> length t" "\<forall>st \<in> set t. st = Empty"
  shows "table_wf t" "table_map t = Map.empty"
proof -
  have e: "t ! i = Empty" if "i < length t" for i using assms(2) that by (simp add: nth_mem)
  then show "table_wf t" using assms(1) by (simp add: table_wf_def state_wf_def quantize_def bucket_key_def bucket_kv_def)
  show "table_map t = Map.empty" using e by (auto simp: fun_eq_iff table_map_None bucket_key_def bucket_kv_def)
qed

lemma index_of_empty_storage:
  assumes ok: "storage_ok digest s" and e: "\<forall>table \<in> set (tables s). \<forall>st \<in> set table. st = Empty" and alloc: "\<And>n. alloc n"
  obtains x where "index_from_storage alloc s = Inr x" "index_ok digest x" "index_map x = Map.empty"
proof -
  from alloc obtain x where x: "index_from_storage alloc s = Inr x" "ri_storage x = s"
    by (simp add: index_from_storage_def heat_try_new_def Let_def)
  have t: "table_wf (tables s ! p) \<and> table_map (tables s ! p) = Map.empty" if "p < length (tables s)" for p
    using empty_table [of "tables s ! p"] storage_ok_facts(4,5) [OF ok, of p] that e nth_mem [OF that] by simp
  then have "list_all table_wf (tables s)" by (simp add: list_all_length)
  moreover have "index_map x = Map.empty" using t x(2) by (auto simp: fun_eq_iff index_map_def Let_def)
  ultimately show ?thesis using that x ok by (simp add: index_ok_def)
qed

lemma ri_storage_from_storage: "index_from_storage alloc s = Inr x \<Longrightarrow> ri_storage x = s"
  by (auto simp: index_from_storage_def)

lemma fresh_index_ok:
  assumes rep: "representable_slots slots" and alloc: "\<And>n. alloc n" and mm: "\<And>n. map_anonymous n = None"
  shows "\<exists>x. fresh_index alloc map_anonymous slots = Inr x \<and> index_ok digest x \<and> index_map x = Map.empty
    \<and> pis_slot_count (ri_storage x) = slots"
proof -
  from anonymous_ok [of slots alloc map_anonymous digest] assms obtain s where
    s: "storage_anonymous alloc map_anonymous slots = Inr s" "storage_ok digest s" "pis_slot_count s = slots"
    and e: "\<forall>table \<in> set (tables s). \<forall>st \<in> set table. st = Empty" by blast
  obtain x where x: "index_from_storage alloc s = Inr x" "index_ok digest x" "index_map x = Map.empty"
    by (rule index_of_empty_storage [OF s(2) e alloc])
  then show ?thesis using s ri_storage_from_storage [OF x(1)] by (simp add: fresh_index_def)
qed

section \<open>Counting entries\<close>

lemma bucket_kv_None: "i < length t \<Longrightarrow> bucket_kv t i = None \<longleftrightarrow> t ! i = Empty"
  by (cases "t ! i") (simp_all add: bucket_kv_def)

lemma dom_table_map: "dom (table_map t) = (\<lambda>i. fst (the (bucket_kv t i))) ` {i. i < length t \<and> t ! i \<noteq> Empty}"
proof -
  have "k \<in> dom (table_map t) \<longleftrightarrow> (\<exists>i < length t. bucket_key t i = Some k)" for k
    using table_map_None [of t k] by auto
  moreover have "bucket_key t i = Some k \<longleftrightarrow> t ! i \<noteq> Empty \<and> k = fst (the (bucket_kv t i))" if "i < length t" for i k
    using bucket_kv_None [OF that] by (cases "bucket_kv t i") (auto simp: bucket_key_def)
  ultimately show ?thesis by blast
qed

lemma card_table_map:
  assumes wf: "table_wf t" shows "card (dom (table_map t)) = occupied t"
proof -
  have "inj_on (\<lambda>i. fst (the (bucket_kv t i))) {i. i < length t \<and> t ! i \<noteq> Empty}"
  proof (rule inj_onI)
    fix i j assume i: "i \<in> {i. i < length t \<and> t ! i \<noteq> Empty}" and j: "j \<in> {i. i < length t \<and> t ! i \<noteq> Empty}"
      and eq: "fst (the (bucket_kv t i)) = fst (the (bucket_kv t j))"
    from i j obtain a b where "bucket_kv t i = Some a" "bucket_kv t j = Some b"
      using bucket_kv_None by (metis (mono_tags, lifting) mem_Collect_eq option.exhaust)
    with eq have "bucket_key t i \<noteq> None" "bucket_key t i = bucket_key t j" by (simp_all add: bucket_key_def)
    with wf i j show "i = j" by (simp add: table_wf_def)
  qed
  then show ?thesis by (simp add: dom_table_map card_image occupied_def length_filter_conv_card)
qed

lemma card_index_map:
  assumes ok: "index_ok digest x" shows "card (dom (index_map x)) = occupied (concat (tables (ri_storage x)))"
proof -
  let ?ts = "tables (ri_storage x)"
  have d: "dom (index_map x) = (SIGMA p : {..<length ?ts}. dom (table_map (?ts ! p)))"
    by (auto simp: index_map_def Let_def split: if_splits)
  have fin: "finite (dom (table_map t))" for t by (simp add: dom_table_map)
  have "card (dom (index_map x)) = (\<Sum>p < length ?ts. occupied (?ts ! p))"
    unfolding d using ok fin by (subst card_SigmaI) (auto simp: index_ok_def list_all_length card_table_map)
  also have "\<dots> = sum_list (map occupied ?ts)" by (simp add: sum_list_sum_nth lessThan_atLeast0)
  also have "\<dots> = occupied (concat ?ts)" by (simp add: occupied_def [abs_def] filter_concat length_concat o_def)
  finally show ?thesis .
qed

section \<open>Properties\<close>

text \<open>
  C12 (safety): the index never serves a stale entry. From a fresh index, whatever calls follow, in
  any order and with any partitions contended, every call returns, the bucket tables stay well
  formed, and every entry the index holds is the last one written for its token and not removed
  since; so a lookup answers that entry, or nothing.
\<close>

theorem index_never_stale:
  assumes "representable_slots slots" "\<And>n. alloc n" "\<And>n. map_anonymous n = None"
  shows "\<exists>x. fresh_index alloc map_anonymous slots = Inr x \<and> (\<forall>calls. \<exists>replies x'.
      run_calls (index_exec digest) calls x = Some (replies, x') \<and> length replies = length calls
      \<and> index_ok digest x'
      \<and> index_map x' \<subseteq>\<^sub>m ghost_after (index_effect (index_shape x)) (zip calls replies) Map.empty
      \<and> (\<forall>contended hash e x''. lookup_raw digest contended hash x' = Some (Inr (Some e), x'') \<longrightarrow>
           ghost_after (index_effect (index_shape x)) (zip calls replies) Map.empty (token (index_shape x) hash) = Some e))"
proof -
  from fresh_index_ok [of slots alloc map_anonymous digest] assms obtain x where
    x: "fresh_index alloc map_anonymous slots = Inr x" "index_ok digest x" "index_map x = Map.empty" by blast
  have "\<exists>replies x'. run_calls (index_exec digest) calls x = Some (replies, x') \<and> length replies = length calls
      \<and> index_ok digest x'
      \<and> index_map x' \<subseteq>\<^sub>m ghost_after (index_effect (index_shape x)) (zip calls replies) Map.empty
      \<and> (\<forall>contended hash e x''. lookup_raw digest contended hash x' = Some (Inr (Some e), x'') \<longrightarrow>
           ghost_after (index_effect (index_shape x)) (zip calls replies) Map.empty (token (index_shape x) hash) = Some e)" for calls
  proof -
    have "index_at digest (index_shape x) x" using x(2) by (simp add: index_at_def)
    from region_index.never_stale [OF this, of Map.empty calls] x(3) obtain rs x' where
      r: "run_calls (index_exec digest) calls x = Some (rs, x')" "length rs = length calls" "index_ok digest x'"
      "index_shape x' = index_shape x"
      and le: "index_map x' \<subseteq>\<^sub>m ghost_after (index_effect (index_shape x)) (zip calls rs) Map.empty"
      by (auto simp: index_at_def)
    have "index_map x' (token (index_shape x) hash) = Some e"
      if "lookup_raw digest contended hash x' = Some (Inr (Some e), x'')" for contended hash e x''
      using lookup_raw_map [OF r(3), of contended hash] busy_calls(1) [OF r(3), of contended hash] that r(4)
      by (cases "contended (hash_partition x' hash)") auto
    with le have "ghost_after (index_effect (index_shape x)) (zip calls rs) Map.empty (token (index_shape x) hash) = Some e"
      if "lookup_raw digest contended hash x' = Some (Inr (Some e), x'')" for contended hash e x''
      using that by (metis domI map_le_def)
    with r le show ?thesis by blast
  qed
  with x(1) show ?thesis by blast
qed

theorem index_never_stale_witness:
  "\<exists>x replies x'. fresh_index (\<lambda>_. True) (\<lambda>_. None) 1300 = Inr x
     \<and> run_calls (index_exec (\<lambda>_. 0))
         [CallUpsert 7 \<lparr>location = PackedLocation 32\<rparr>, CallDelete (\<lambda>_. False) 7] x = Some (replies, x')
     \<and> index_ok (\<lambda>_. 0) x'"
proof -
  have "representable_slots 1300" by (simp add: representable_slots_def isize_max_def)
  from index_never_stale [OF this, of "\<lambda>_. True" "\<lambda>_. None" "\<lambda>_. 0"] show ?thesis by (metis (no_types))
qed

text \<open>
  C13 (functional): an insertion into a healthy index always succeeds and is visible at once: the
  next lookup of the hash returns the entry. Nothing else changes, except that at most one other
  entry is dropped, and then only when the token was new and its four candidate buckets were all
  occupied: relocations lose nothing.
\<close>

theorem index_upsert_exact:
  assumes "index_ok digest x"
  shows "\<exists>x' victim. upsert digest hash e x = Some (Inr True, x') \<and> index_ok digest x'
    \<and> index_map x' = (drop_key victim (index_map x))(token (index_shape x) hash \<mapsto> quantize_entry e)
    \<and> (victim \<noteq> None \<longrightarrow> index_map x (token (index_shape x) hash) = None \<and> window_full x hash)
    \<and> (\<exists>x''. lookup_raw digest (\<lambda>_. False) hash x' = Some (Inr (Some (quantize_entry e)), x''))"
proof (rule upsert_map [OF assms, of hash e])
  fix x' victim
  assume u: "upsert digest hash e x = Some (Inr True, x')" "index_ok digest x'" "index_shape x' = index_shape x"
    "index_map x' = (drop_key victim (index_map x))(token (index_shape x) hash \<mapsto> quantize_entry e)"
    and v: "victim \<noteq> None \<Longrightarrow> index_map x (token (index_shape x) hash) = None \<and> window_full x hash"
  from lookup_raw_map [OF u(2), of "\<lambda>_. False" hash]
  have "\<exists>x''. lookup_raw digest (\<lambda>_. False) hash x' = Some (Inr (Some (quantize_entry e)), x'')"
    using u(3,4) by auto
  with u v show ?thesis by blast
qed

lemma healthy_index: "\<exists>x. index_ok (\<lambda>_. 0) x \<and> index_map x = Map.empty"
proof -
  have "representable_slots 1300" by (simp add: representable_slots_def isize_max_def)
  from fresh_index_ok [OF this, of "\<lambda>_. True" "\<lambda>_. None" "\<lambda>_. 0"] show ?thesis by auto
qed

theorem index_upsert_exact_witness:
  "\<exists>x x' x''. index_ok (\<lambda>_. 0) x \<and> upsert (\<lambda>_. 0) 7 \<lparr>location = PackedLocation 32\<rparr> x = Some (Inr True, x')
     \<and> lookup_raw (\<lambda>_. 0) (\<lambda>_. False) 7 x' = Some (Inr (Some (quantize_entry \<lparr>location = PackedLocation 32\<rparr>)), x'')"
proof -
  from healthy_index obtain x where "index_ok (\<lambda>_. 0) x" by blast
  with index_upsert_exact [OF this, of 7 "\<lparr>location = PackedLocation 32\<rparr>"] show ?thesis by blast
qed

text \<open>
  C29 (functional): the conditional replacement is a compare-and-swap on the map. It answers true
  exactly when the token is present at a location equivalent to the expected one, and then stores
  the replacement; otherwise the map is unchanged.
\<close>

theorem index_compare_and_swap:
  assumes "index_ok digest x"
  shows "\<exists>b x'. replace_if_match digest hash old replacement x = Some (Inr b, x') \<and> index_ok digest x'
    \<and> (b \<longleftrightarrow> (\<exists>e. index_map x (token (index_shape x) hash) = Some e \<and> index_equivalent (location e) old))
    \<and> index_map x' = (if b then (index_map x)(token (index_shape x) hash \<mapsto> quantize_entry replacement) else index_map x)"
  using replace_if_match_map [OF assms, of hash old replacement] by blast

theorem index_compare_and_swap_witness:
  "\<exists>x x'. index_ok (\<lambda>_. 0) x
     \<and> replace_if_match (\<lambda>_. 0) 7 (PackedLocation 32) \<lparr>location = PackedLocation 64\<rparr> x = Some (Inr False, x')
     \<and> index_map x' = Map.empty"
proof -
  from healthy_index obtain x where "index_ok (\<lambda>_. 0) x" "index_map x = Map.empty" by blast
  with index_compare_and_swap [OF this(1), of 7 "PackedLocation 32" "\<lparr>location = PackedLocation 64\<rparr>"] show ?thesis by auto
qed

text \<open>
  C32 (functional): the snapshot is exact: its value count is the number of tokens the index maps,
  and values and empty buckets together are the capacity.
\<close>

theorem index_snapshot_exact:
  assumes "index_ok digest x"
  shows "\<exists>snap. index_snapshot x = Inr snap \<and> snap_slot_capacity snap = pis_slot_count (ri_storage x)
    \<and> snap_physical_value_slots snap = card (dom (index_map x))
    \<and> snap_physical_value_slots snap + snap_empty_slots snap = pis_slot_count (ri_storage x)"
proof -
  have s: "storage_ok digest (ri_storage x)" using assms by (simp add: index_ok_def)
  have cap: "occupied (concat (tables (ri_storage x))) \<le> pis_slot_count (ri_storage x)" "pis_slot_count (ri_storage x) \<le> u64_max"
    using slot_capacity [OF s] by simp_all
  then show ?thesis
    by (simp add: index_snapshot_def physical_stats_exact [OF s] try_from_def checked_sub_def card_index_map [OF assms])
qed

theorem index_snapshot_exact_witness:
  "\<exists>x snap. index_ok (\<lambda>_. 0) x \<and> index_snapshot x = Inr snap \<and> snap_physical_value_slots snap = 0"
proof -
  from healthy_index obtain x where "index_ok (\<lambda>_. 0) x" "index_map x = Map.empty" by blast
  with index_snapshot_exact [OF this(1)] show ?thesis by fastforce
qed

end
