(* ===== verification/Index_Heat.thy ===== *)
theory Index_Heat
  imports Index_Properties
begin

text \<open>
  The heat of the index: the two bitmaps of \<^verbatim>\<open>SlotHeat\<close> as a counter per bucket, the bucket that holds a
  token, and what a lookup, a reclaim decision and a change of a bucket do to its counter.
\<close>

section \<open>Heat\<close>

definition bit_at :: "u64 list \<Rightarrow> nat \<Rightarrow> bool" where
  "bit_at ws slot \<longleftrightarrow> slot div 64 < length ws \<and> bit (ws ! (slot div 64)) (slot mod 64)"

text \<open>How often a bucket was looked up since it was last written or reclaimed, up to two.\<close>

definition temperature :: "slot_heat \<Rightarrow> nat \<Rightarrow> nat" where
  "temperature h slot = (if bit_at (heat_hot h) slot then 2 else if bit_at (heat_seen h) slot then 1 else 0)"

lemma mask_bit: "(w AND heat_mask slot \<noteq> 0) = bit (w :: u64) (slot mod 64)"
proof
  assume "bit w (slot mod 64)"
  then have "bit (w AND heat_mask slot) (slot mod 64)"
    by (simp add: heat_mask_def REFERENCE_WORD_BITS_def bit_simps)
  then show "w AND heat_mask slot \<noteq> 0" by (metis bit_0_eq bot_apply bot_bool_def)
next
  assume "w AND heat_mask slot \<noteq> 0"
  then obtain n where "bit (w AND heat_mask slot) n" by (auto simp: bit_eq_iff)
  then show "bit w (slot mod 64)" by (auto simp: heat_mask_def REFERENCE_WORD_BITS_def bit_simps)
qed

lemma bit_at_update:
  assumes "slot div 64 < length ws"
  shows "bit_at (ws[slot div 64 := ws ! (slot div 64) OR heat_mask slot]) j = (j = slot \<or> bit_at ws j)"
    "bit_at (ws[slot div 64 := ws ! (slot div 64) AND NOT (heat_mask slot)]) j = (j \<noteq> slot \<and> bit_at ws j)"
proof -
  have same: "j = slot \<longleftrightarrow> j div 64 = slot div 64 \<and> j mod 64 = slot mod 64" by (metis div_mult_mod_eq)
  have m: "bit (heat_mask slot) (j mod 64) \<longleftrightarrow> j mod 64 = slot mod 64"
    by (auto simp: heat_mask_def REFERENCE_WORD_BITS_def bit_simps)
  show "bit_at (ws[slot div 64 := ws ! (slot div 64) OR heat_mask slot]) j = (j = slot \<or> bit_at ws j)"
    using assms same m by (cases "j div 64 = slot div 64") (auto simp: bit_at_def bit_or_iff nth_list_update)
  show "bit_at (ws[slot div 64 := ws ! (slot div 64) AND NOT (heat_mask slot)]) j = (j \<noteq> slot \<and> bit_at ws j)"
    using assms same m by (cases "j div 64 = slot div 64") (auto simp: bit_at_def bit_and_iff bit_not_iff nth_list_update)
qed

definition heat_capacity :: "slot_heat \<Rightarrow> nat" where
  "heat_capacity h = 64 * min (length (heat_seen h)) (length (heat_hot h))"

lemma heat_words:
  assumes "slot < heat_capacity h"
  shows "slot div 64 < length (heat_seen h)" "slot div 64 < length (heat_hot h)"
  using assms by (auto simp: heat_capacity_def less_mult_imp_div_less mult.commute)

lemma temperature_mark:
  assumes "slot < heat_capacity h"
  shows "temperature (heat_mark slot h) = (temperature h)(slot := min 2 (temperature h slot + 1))"
proof
  fix j
  note w = heat_words [OF assms]
  have bits: "bit_at (heat_hot h) slot = bit (heat_hot h ! (slot div 64)) (slot mod 64)"
    "bit_at (heat_seen h) slot = bit (heat_seen h ! (slot div 64)) (slot mod 64)"
    using w by (simp_all add: bit_at_def)
  have z: "(heat_seen h ! (slot div 64) AND heat_mask slot = 0) = (\<not> bit (heat_seen h ! (slot div 64)) (slot mod 64))"
    using mask_bit by metis
  show "temperature (heat_mark slot h) j = ((temperature h)(slot := min 2 (temperature h slot + 1))) j"
    using w bits bit_at_update(1) [OF w(1)] bit_at_update(1) [OF w(2)]
    by (auto simp: heat_mark_def Let_def get_at_def mask_bit z temperature_def REFERENCE_WORD_BITS_def)
qed

lemma bit_at_clear:
  "bit_at (case get_at ws (slot div 64) of None \<Rightarrow> ws
      | Some w \<Rightarrow> if w AND heat_mask slot \<noteq> 0 then ws[slot div 64 := w AND NOT (heat_mask slot)] else ws) j
    = (j \<noteq> slot \<and> bit_at ws j)"
  using bit_at_update(2) [of slot ws j] mask_bit [of "ws ! (slot div 64)" slot]
  by (cases "j = slot"; cases "slot div 64 < length ws") (auto simp: get_at_def bit_at_def)

lemma take_hot_parts:
  "fst (heat_take_hot slot h) = bit_at (heat_hot h) slot"
  "heat_hot (snd (heat_take_hot slot h)) = (case get_at (heat_hot h) (slot div 64) of None \<Rightarrow> heat_hot h
      | Some w \<Rightarrow> if w AND heat_mask slot \<noteq> 0 then (heat_hot h)[slot div 64 := w AND NOT (heat_mask slot)] else heat_hot h)"
  "heat_seen (snd (heat_take_hot slot h)) = (case get_at (heat_seen h) (slot div 64) of None \<Rightarrow> heat_seen h
      | Some w \<Rightarrow> if w AND heat_mask slot \<noteq> 0 then (heat_seen h)[slot div 64 := w AND NOT (heat_mask slot)] else heat_seen h)"
  by (auto simp: heat_take_hot_def Let_def REFERENCE_WORD_BITS_def bit_at_def get_at_def mask_bit split: option.splits prod.splits)

lemma temperature_take:
  "fst (heat_take_hot slot h) = (temperature h slot = 2)"
  "temperature (snd (heat_take_hot slot h)) = (temperature h)(slot := 0)"
  unfolding temperature_def [abs_def] take_hot_parts bit_at_clear by (auto simp: fun_eq_iff)

lemma temperature_clear: "temperature (heat_clear slot h) = (temperature h)(slot := 0)"
  by (simp add: heat_clear_def temperature_take(2))

lemma heat_capacity_kept [simp]:
  "heat_capacity (heat_mark slot h) = heat_capacity h"
  "heat_capacity (snd (heat_take_hot slot h)) = heat_capacity h"
  "heat_capacity (heat_clear slot h) = heat_capacity h"
  by (auto simp: heat_capacity_def heat_mark_def heat_clear_def take_hot_parts Let_def split: option.splits)

section \<open>The bucket of a token\<close>

lemma find_upt_SomeD: "find P [0..<n] = Some j \<Longrightarrow> j < n \<and> P j"
  by (auto simp: find_Some_iff)


definition entry_bucket :: "region_index \<Rightarrow> index_token \<Rightarrow> nat option" where
  "entry_bucket x tok =
     (let t = tables (ri_storage x) ! fst tok in find (\<lambda>i. bucket_key t i = Some (snd tok)) [0..<length t])"

text \<open>The number of the bucket in the whole index, by which the bitmaps are addressed.\<close>

definition entry_slot :: "region_index \<Rightarrow> index_token \<Rightarrow> nat" where
  "entry_slot x tok = first_slot (pis_ranges (ri_storage x) ! fst tok) + the (entry_bucket x tok)"

definition entry_heat :: "region_index \<Rightarrow> index_token \<Rightarrow> nat" where
  "entry_heat x tok = (if entry_bucket x tok = None then 0 else temperature (ri_heat x) (entry_slot x tok))"

lemma entry_bucket_hit:
  assumes ok: "index_ok digest x" and d: "d < 4"
    "hit (hash_table x hash) (index_fingerprint hash) (candidate_slots hash (length (hash_table x hash))) d"
  shows "entry_bucket x (token (index_shape x) hash) = Some (candidate_slots hash (length (hash_table x hash)) ! d)"
proof -
  let ?t = "hash_table x hash" and ?c = "candidate_slots hash (length (hash_table x hash))"
  have s: "storage_ok digest (ri_storage x)" and wf: "table_wf ?t"
    using ok partition_in_range [of digest x hash] by (simp_all add: index_ok_def list_all_length)
  have n: "0 < length ?t" using wf by (auto simp: table_wf_def)
  note k = hit_key(1) [OF n d] and i = candidate_less [OF n d(1), of hash]
  let ?P = "\<lambda>i. bucket_key ?t i = Some (hash_key_of hash (length ?t))"
  have u: "j = ?c ! d" if "j < length ?t" "?P j" for j
    using wf that k i unfolding table_wf_def by (metis option.distinct(1))
  have "find ?P [0..<length ?t] = Some (?c ! d)"
  proof (cases "find ?P [0..<length ?t]")
    case None
    then show ?thesis using k i unfolding find_upt_None by blast
  next
    case (Some j)
    from find_upt_SomeD [OF this] u have "j = ?c ! d" by blast
    with Some show ?thesis by simp
  qed
  then show ?thesis by (simp add: entry_bucket_def token_parts(1) [OF s])
qed

section \<open>Symbolic execution with the heat\<close>

definition located :: "crc_stream \<Rightarrow> index_slot_state list list \<Rightarrow> nat list \<Rightarrow> slot_heat \<Rightarrow> region_index \<Rightarrow> bool" where
  "located digest ts fs h x \<longleftrightarrow> holds digest ts x \<and> map first_slot (pis_ranges (ri_storage x)) = fs \<and> ri_heat x = h"

lemma returns_step:
  assumes "\<And>x. P x \<Longrightarrow> \<exists>x'. m x = Some (Inr a, x') \<and> R x'" "returns R (f a) Q"
  shows "returns P (pbind m f) Q"
  using assms unfolding returns_def pbind_def by fastforce

lemma at_read:
  assumes "p < length ts" "i < length (ts ! p)" "returns (located digest ts fs h) (f (ts ! p ! i)) Q"
  shows "returns (located digest ts fs h) (pbind (on_storage (guard_slot_state digest p i)) f) Q"
proof (rule returns_step [where R = "located digest ts fs h"])
  fix x assume x: "located digest ts fs h x"
  then obtain s' where "guard_slot_state digest p i (ri_storage x) = Some (Inr (ts ! p ! i), s')"
    "storage_ok digest s'" "tables s' = ts" "map first_slot (pis_ranges s') = fs"
    using partitioned.read_law [of digest "ri_storage x" p i] assms(1,2) by (auto simp: located_def holds_def)
  with x show "\<exists>x'. on_storage (guard_slot_state digest p i) x = Some (Inr (ts ! p ! i), x') \<and> located digest ts fs h x'"
    by (simp add: pzoom_storage located_def holds_def)
qed (rule assms(3))

lemma global_at:
  assumes "located digest ts fs h x" "p < length ts" "i < length (ts ! p)"
  shows "guard_global_slot p i (ri_storage x) = Some (Inr (fs ! p + i), ri_storage x)"
  using partitioned.global_law [of digest "ri_storage x" p i] assms by (auto simp: located_def holds_def)

lemma at_global:
  assumes "p < length ts" "i < length (ts ! p)" "returns (located digest ts fs h) (f (fs ! p + i)) Q"
  shows "returns (located digest ts fs h) (pbind (on_storage (guard_global_slot p i)) f) Q"
  by (rule returns_step [where f = f, OF _ assms(3)]) (simp add: on_storage_def pzoom_def global_at [OF _ assms(1,2)])

lemma at_heat:
  assumes "returns (located digest ts fs (snd (g h))) (f (fst (g h))) Q"
  shows "returns (located digest ts fs h) (pbind (on_heat g) f) Q"
  by (rule returns_step [where f = f, OF _ assms]) (auto simp: on_heat_def located_def holds_def split: prod.splits)

lemma at_replace:
  assumes "p < length ts" "i < length (ts ! p)" "kind_of_state prev = kind_of_state (ts ! p ! i)"
    and "returns (located digest (ts[p := (ts ! p)[i := quantize new]]) fs (heat_clear (fs ! p + i) h)) (f ()) Q"
  shows "returns (located digest ts fs h) (pbind (replace_slot digest p i prev new) f) Q"
proof (rule returns_step [where f = f, OF _ assms(4)])
  fix x assume x: "located digest ts fs h x"
  note g = global_at [OF x assms(1,2)]
  let ?ts = "ts[p := (ts ! p)[i := quantize new]]"
  from x obtain s' where s': "guard_replace_observed digest p i prev new (ri_storage x) = Some (Inr (), s')"
    "storage_ok digest s'" "tables s' = ?ts" "map first_slot (pis_ranges s') = fs"
    using partitioned.write_law [of digest "ri_storage x" p i prev new] assms(1-3) by (auto simp: located_def holds_def)
  let ?x = "x\<lparr>ri_storage := s', ri_heat := heat_clear (fs ! p + i) h\<rparr>"
  have "replace_slot digest p i prev new x = Some (Inr (), ?x)"
    using x g s'(1) by (simp add: replace_slot_def pbind_def on_storage_def pzoom_def on_heat_def located_def)
  moreover have "located digest ?ts fs (heat_clear (fs ! p + i) h) ?x" using s'(2-4) by (simp add: located_def holds_def)
  ultimately show "\<exists>x'. replace_slot digest p i prev new x = Some (Inr (), x') \<and> located digest ?ts fs (heat_clear (fs ! p + i) h) x'"
    by blast
qed

lemma at_partition_start:
  assumes "storage_ok digest (ri_storage x)"
  shows "on_storage (write_hash_partition hash) x = Some (Inr (hash_partition x hash), x)"
    "on_storage (try_hash_partition (\<lambda>_. False) hash) x = Some (Inr (hash_partition x hash), x)"
    "guard_slots (hash_partition x hash) x = Some (Inr (length (hash_table x hash)), x)"
proof -
  let ?s = "ri_storage x"
  note f = storage_ok_facts [OF assms]
  have p: "hash_partition x hash < length (pis_partitions ?s)" using f(1) f(6) [of hash] by simp
  then have "\<not> part_poisoned (pis_partitions ?s ! hash_partition x hash)" using assms by (simp add: storage_ok_def)
  with p f(1) show w: "on_storage (write_hash_partition hash) x = Some (Inr (hash_partition x hash), x)"
    by (simp add: on_storage_def pzoom_def write_hash_partition_def lock_partition_def get_at_def)
  show "on_storage (try_hash_partition (\<lambda>_. False) hash) x = Some (Inr (hash_partition x hash), x)"
    using w by (simp add: on_storage_def pzoom_def try_write_same)
  show "guard_slots (hash_partition x hash) x = Some (Inr (length (hash_table x hash)), x)"
    using f(5) [of "hash_partition x hash"] p f(1) by (simp add: guard_slots_def guard_slot_count_def get_at_def)
qed

lemma located_self:
  "storage_ok digest (ri_storage x) \<Longrightarrow>
   located digest (tables (ri_storage x)) (map first_slot (pis_ranges (ri_storage x))) (ri_heat x) x"
  by (simp add: located_def holds_def)

section \<open>The reclaim decision\<close>

lemma prepare_reclaim_loop_heat:
  assumes p: "p < length ts" and c: "\<And>d. d \<in> set ds \<Longrightarrow> candidates ! d < length (ts ! p)"
  shows "returns (located digest ts fs h) (prepare_reclaim_loop digest p fp candidates old ds)
    (\<lambda>r x. case find (cond_hit (ts ! p) fp candidates (Some old)) ds of
       None \<Rightarrow> r = None \<and> ri_heat x = h
     | Some d \<Rightarrow> r = Some (if temperature h (fs ! p + candidates ! d) = 2 then ReclaimReinsert else ReclaimRemoved)
         \<and> temperature (ri_heat x) = (temperature h)(fs ! p + candidates ! d := 0)
         \<and> (r = Some ReclaimReinsert \<longrightarrow> located digest ts fs (ri_heat x) x))"
  using c
proof (induction ds)
  case Nil
  show ?case unfolding prepare_reclaim_loop.simps by (rule returns_preturn) (simp add: located_def)
next
  case (Cons d ds)
  note IH = Cons.IH [OF Cons.prems, OF list.set_intros(2)]
  have d: "candidates ! d < length (ts ! p)" using Cons.prems by simp
  show ?case
  proof (cases "duplicate_candidate candidates d")
    case True
    then show ?thesis using IH by (simp add: duplicate_cond)
  next
    case False
    let ?g = "fs ! p + candidates ! d" and ?st = "ts ! p ! (candidates ! d)"
    show ?thesis
    proof (cases "cond_hit (ts ! p) fp candidates (Some old) d")
      case hit: True
      then have "token_location_matches ?st fp d old" using token_cond(2) False by metis
      moreover have "returns (located digest ts fs h) (pbind (on_heat (heat_take_hot ?g)) (\<lambda>hot.
          if hot then preturn (Some ReclaimReinsert)
          else pbind (replace_slot digest p (candidates ! d) ?st Empty) (\<lambda>_. preturn (Some ReclaimRemoved))))
        (\<lambda>r x. r = Some (if temperature h ?g = 2 then ReclaimReinsert else ReclaimRemoved)
           \<and> temperature (ri_heat x) = (temperature h)(?g := 0)
           \<and> (r = Some ReclaimReinsert \<longrightarrow> located digest ts fs (ri_heat x) x))"
        by (cases "temperature h ?g = 2")
           (auto simp: temperature_take temperature_clear located_def intro!: at_heat at_replace [OF p d] returns_preturn)
      ultimately show ?thesis using hit False
        by (simp del: fun_upd_apply split del: if_split) (rule at_read [OF p d], simp split del: if_split, rule at_global [OF p d])
    next
      case no: False
      then have "\<not> token_location_matches ?st fp d old" using token_cond(2) False by metis
      then show ?thesis using no False IH
        by (simp del: fun_upd_apply split del: if_split) (rule at_read [OF p d], simp split del: if_split)
    qed
  qed
qed

lemma prepare_reclaim_heat:
  assumes ok: "index_ok digest x"
    and run: "prepare_reclaim digest hash old x = Some (Inr r, x')"
  defines "tok \<equiv> token (index_shape x) hash"
  shows "if \<exists>e. index_map x tok = Some e \<and> index_equivalent (location e) old
     then r = (if entry_heat x tok = 2 then ReclaimReinsert else ReclaimRemoved)
       \<and> temperature (ri_heat x') = (temperature (ri_heat x))(entry_slot x tok := 0) \<and> entry_bucket x tok \<noteq> None
       \<and> (r = ReclaimReinsert \<longrightarrow> located digest (tables (ri_storage x)) (map first_slot (pis_ranges (ri_storage x))) (ri_heat x') x')
     else r = ReclaimMissing \<and> ri_heat x' = ri_heat x"
proof -
  let ?t = "hash_table x hash" and ?fp = "index_fingerprint hash" and ?fs = "map first_slot (pis_ranges (ri_storage x))"
  let ?c = "candidate_slots hash (length ?t)" and ?p = "hash_partition x hash"
  have s: "storage_ok digest (ri_storage x)" and p: "?p < length (tables (ri_storage x))" and wf: "table_wf ?t"
    using ok partition_in_range [of digest x hash] by (simp_all add: index_ok_def list_all_length)
  have n: "0 < length ?t" using wf by (auto simp: table_wf_def)
  have c4: "[0..<INDEX_CANDIDATES] = [0..<4]" by (simp add: INDEX_CANDIDATES_def)
  have "returns (located digest (tables (ri_storage x)) ?fs (ri_heat x)) (prepare_reclaim_loop digest ?p ?fp ?c old [0..<4])
    (\<lambda>r x'. case find (cond_hit ?t ?fp ?c (Some old)) [0..<4] of
       None \<Rightarrow> r = None \<and> ri_heat x' = ri_heat x
     | Some d \<Rightarrow> r = Some (if temperature (ri_heat x) (?fs ! ?p + ?c ! d) = 2 then ReclaimReinsert else ReclaimRemoved)
         \<and> temperature (ri_heat x') = (temperature (ri_heat x))(?fs ! ?p + ?c ! d := 0)
         \<and> (r = Some ReclaimReinsert \<longrightarrow> located digest (tables (ri_storage x)) ?fs (ri_heat x') x'))"
    by (rule prepare_reclaim_loop_heat [OF p]) (use candidate_less [OF n] in simp)
  from returnsD [OF this located_self [OF s]] obtain a y where
    a: "prepare_reclaim_loop digest ?p ?fp ?c old [0..<4] x = Some (Inr a, y)"
    and q: "case find (cond_hit ?t ?fp ?c (Some old)) [0..<4] of
       None \<Rightarrow> a = None \<and> ri_heat y = ri_heat x
     | Some d \<Rightarrow> a = Some (if temperature (ri_heat x) (?fs ! ?p + ?c ! d) = 2 then ReclaimReinsert else ReclaimRemoved)
         \<and> temperature (ri_heat y) = (temperature (ri_heat x))(?fs ! ?p + ?c ! d := 0)
         \<and> (a = Some ReclaimReinsert \<longrightarrow> located digest (tables (ri_storage x)) ?fs (ri_heat y) y)" by blast
  have out: "(case a of Some b \<Rightarrow> preturn b | None \<Rightarrow> pbind record_conditional_remove_miss (\<lambda>_. preturn ReclaimMissing)) y = Some (Inr r, x')"
    using run a by (simp add: prepare_reclaim_def pbind_def at_partition_start [OF s] c4 del: length_tables)
  have m: "(\<exists>e. index_map x tok = Some e \<and> index_equivalent (location e) old) = matches_key ?t hash (Some old)"
    unfolding tok_def expected_location [symmetric] matches_token [OF ok] ..
  show ?thesis
  proof (cases "find (cond_hit ?t ?fp ?c (Some old)) [0..<4]")
    case None
    then have "\<not> matches_key ?t hash (Some old)" using find_cond(1) [OF wf] by simp
    with None q out show ?thesis unfolding m
      by (auto simp: pbind_def record_conditional_remove_miss_def counted_def split: if_splits)
  next
    case (Some d)
    from find_cond(2) [OF wf Some] have d: "d < 4" "hit ?t ?fp ?c d" "matches_key ?t hash (Some old)" by blast+
    have "entry_bucket x tok = Some (?c ! d)" unfolding tok_def by (rule entry_bucket_hit [OF ok d(1,2)])
    moreover from this have "entry_slot x tok = ?fs ! ?p + ?c ! d"
      using p by (simp add: entry_slot_def tok_def token_parts(1) [OF s])
    ultimately show ?thesis using Some q out d(3) unfolding m by (auto simp: entry_heat_def split: if_splits)
  qed
qed


section \<open>The heat of a lookup\<close>

text \<open>The bitmaps cover every bucket of every partition.\<close>

definition heat_covers :: "region_index \<Rightarrow> bool" where
  "heat_covers x \<longleftrightarrow> pis_slot_count (ri_storage x) \<le> heat_capacity (ri_heat x)"

lemma lookup_loop_heat:
  assumes p: "p < length ts" and c: "\<And>d. d \<in> set ds \<Longrightarrow> candidates ! d < length (ts ! p)"
  shows "returns (located digest ts fs h) (lookup_loop digest p fp candidates ds)
    (\<lambda>r x. case find (hit (ts ! p) fp candidates) ds of
       None \<Rightarrow> located digest ts fs h x
     | Some d \<Rightarrow> located digest ts fs (heat_mark (fs ! p + candidates ! d) h) x)"
  using c
proof (induction ds)
  case Nil
  show ?case unfolding lookup_loop.simps by (rule returns_preturn) simp
next
  case (Cons d ds)
  note IH = Cons.IH [OF Cons.prems, OF list.set_intros(2)]
  have d: "candidates ! d < length (ts ! p)" using Cons.prems by simp
  show ?case
  proof (cases "duplicate_candidate candidates d")
    case True
    then show ?thesis using IH by (simp add: hit_def)
  next
    case False
    show ?thesis
    proof (cases "ts ! p ! (candidates ! d)")
      case Empty
      then have "\<not> hit (ts ! p) fp candidates d" by (simp add: hit_def token_matches_def)
      with Empty False IH show ?thesis by simp (rule at_read [OF p d], simp)
    next
      case (Value f d' e)
      then have h: "hit (ts ! p) fp candidates d \<longleftrightarrow> f = fp \<and> unat d' = d" using False by (simp add: hit_def token_matches_def)
      show ?thesis
      proof (cases "f = fp \<and> unat d' = d")
        case True
        with Value False h show ?thesis
          by simp (rule at_read [OF p d], auto intro!: at_global [OF p d] at_heat returns_preturn)
      next
        case no: False
        with Value False h IH show ?thesis by simp (rule at_read [OF p d], auto)
      qed
    qed
  qed
qed

lemma entry_slot_covered:
  assumes s: "storage_ok digest (ri_storage x)" and c: "heat_covers x" and p: "p < length (tables (ri_storage x))"
    and i: "i < length (tables (ri_storage x) ! p)"
  shows "first_slot (pis_ranges (ri_storage x) ! p) + i < heat_capacity (ri_heat x)"
proof -
  have t: "tiles 0 0 0 (pis_ranges (ri_storage x)) (core_page_count (pis_core (ri_storage x))) (pis_slot_count (ri_storage x))"
    using s unfolding storage_ok_def by blast
  have "first_slot (pis_ranges (ri_storage x) ! p) + slot_count (pis_ranges (ri_storage x) ! p) \<le> pis_slot_count (ri_storage x)"
    using tiles_nth [OF t, of p] p by simp
  with c i p storage_ok_facts(5) [OF s, of p] show ?thesis by (simp add: heat_covers_def)
qed

lemma lookup_heat:
  assumes ok: "index_ok digest x" and c: "heat_covers x"
    and run: "lookup_raw digest (\<lambda>_. False) hash x = Some (Inr (Some e), x')"
  defines "tok \<equiv> token (index_shape x) hash"
  shows "temperature (ri_heat x') = (temperature (ri_heat x))(entry_slot x tok := min 2 (entry_heat x tok + 1))"
    "entry_bucket x tok \<noteq> None"
    "located digest (tables (ri_storage x)) (map first_slot (pis_ranges (ri_storage x))) (ri_heat x') x'"
proof -
  let ?t = "hash_table x hash" and ?fp = "index_fingerprint hash" and ?fs = "map first_slot (pis_ranges (ri_storage x))"
  let ?c = "candidate_slots hash (length ?t)" and ?p = "hash_partition x hash"
  have s: "storage_ok digest (ri_storage x)" and p: "?p < length (tables (ri_storage x))" and wf: "table_wf ?t"
    using ok partition_in_range [of digest x hash] by (simp_all add: index_ok_def list_all_length)
  have n: "0 < length ?t" using wf by (auto simp: table_wf_def)
  have c4: "[0..<INDEX_CANDIDATES] = [0..<4]" by (simp add: INDEX_CANDIDATES_def)
  have "returns (located digest (tables (ri_storage x)) ?fs (ri_heat x)) (lookup_loop digest ?p ?fp ?c [0..<4])
    (\<lambda>r x'. case find (hit ?t ?fp ?c) [0..<4] of
       None \<Rightarrow> located digest (tables (ri_storage x)) ?fs (ri_heat x) x'
     | Some d \<Rightarrow> located digest (tables (ri_storage x)) ?fs (heat_mark (?fs ! ?p + ?c ! d) (ri_heat x)) x')"
    by (rule lookup_loop_heat [OF p]) (use candidate_less [OF n] in simp)
  moreover have "lookup_loop digest ?p ?fp ?c [0..<4] x = Some (Inr (Some e), x')"
    using run by (simp add: lookup_raw_def pbind_def at_partition_start [OF s] c4 del: length_tables)
  ultimately have q: "case find (hit ?t ?fp ?c) [0..<4] of
       None \<Rightarrow> located digest (tables (ri_storage x)) ?fs (ri_heat x) x'
     | Some d \<Rightarrow> located digest (tables (ri_storage x)) ?fs (heat_mark (?fs ! ?p + ?c ! d) (ri_heat x)) x'"
    using located_self [OF s] unfolding returns_def by fastforce
  have "index_map x tok = Some e"
    using lookup_raw_map [OF ok, of "\<lambda>_. False" hash] run by (auto simp: tok_def)
  then obtain d where d: "find (hit ?t ?fp ?c) [0..<4] = Some d"
    using find_hit [OF wf, of hash] by (auto simp: tok_def token_parts(2) [OF s] split: option.splits)
  then have d4: "d < 4" "hit ?t ?fp ?c d" using find_upt_SomeD by blast+
  have b: "entry_bucket x tok = Some (?c ! d)" unfolding tok_def by (rule entry_bucket_hit [OF ok d4])
  then show "entry_bucket x tok \<noteq> None" by simp
  show "located digest (tables (ri_storage x)) ?fs (ri_heat x') x'" using q d by (simp add: located_def)
  have sl: "entry_slot x tok = ?fs ! ?p + ?c ! d"
    using p b by (simp add: entry_slot_def tok_def token_parts(1) [OF s])
  have "?fs ! ?p + ?c ! d < heat_capacity (ri_heat x)"
    using entry_slot_covered [OF s c p candidate_less [OF n d4(1), of hash]] p by simp
  from temperature_mark [OF this] q d show
    "temperature (ri_heat x') = (temperature (ri_heat x))(entry_slot x tok := min 2 (entry_heat x tok + 1))"
    using sl b by (simp add: entry_heat_def located_def)
qed

text \<open>The bucket of a token and its number depend on the tables and the directory only.\<close>

lemma entry_same:
  fixes x hash
  assumes s: "storage_ok digest (ri_storage x)"
    and l: "located digest (tables (ri_storage x)) (map first_slot (pis_ranges (ri_storage x))) h x'"
  defines "tok \<equiv> token (index_shape x) hash"
  shows "entry_bucket x' tok = entry_bucket x tok" "entry_slot x' tok = entry_slot x tok"
proof -
  have t: "tables (ri_storage x') = tables (ri_storage x)"
    and r: "map first_slot (pis_ranges (ri_storage x')) = map first_slot (pis_ranges (ri_storage x))"
    using l by (simp_all add: located_def holds_def)
  show b: "entry_bucket x' tok = entry_bucket x tok" using t by (simp add: entry_bucket_def)
  have "fst tok < length (pis_ranges (ri_storage x))"
    using partition_in_range [OF s, of hash] by (simp add: tok_def token_parts(1) [OF s])
  then have "first_slot (pis_ranges (ri_storage x') ! fst tok) = first_slot (pis_ranges (ri_storage x) ! fst tok)"
    using r by (metis length_map nth_map)
  with b show "entry_slot x' tok = entry_slot x tok" by (simp add: entry_slot_def)
qed

lemma entry_bucket_None:
  assumes "storage_ok digest (ri_storage x)" "index_map x (token (index_shape x) hash) = None"
  shows "entry_bucket x (token (index_shape x) hash) = None"
  using assms(2) [unfolded token_parts(2) [OF assms(1)] table_map_None]
  by (simp add: entry_bucket_def token_parts(1) [OF assms(1)] Let_def find_upt_None)

section \<open>The bitmaps keep their size\<close>

definition keeps_capacity :: "'a index_op \<Rightarrow> bool" where
  "keeps_capacity m \<longleftrightarrow> (\<forall>x r x'. m x = Some (r, x') \<longrightarrow> heat_capacity (ri_heat x') = heat_capacity (ri_heat x))"

named_theorems keeps_intros

lemma keeps_basic [keeps_intros]:
  "keeps_capacity (preturn a)" "keeps_capacity (pfail e)" "keeps_capacity (ppanic v)" "keeps_capacity (on_storage m)"
  "keeps_capacity (guard_slots p)" "keeps_capacity (on_heat (\<lambda>h. ((), heat_clear g h)))"
  "keeps_capacity (on_heat (\<lambda>h. ((), heat_mark g h)))" "keeps_capacity (on_heat (heat_take_hot g))"
  by (auto simp: keeps_capacity_def ppanic_def on_storage_def pzoom_def guard_slots_def pbind_def pget_def on_heat_def
      split: option.splits prod.splits sum.splits) (metis heat_capacity_kept(2) snd_conv)+

lemma keeps_bind [keeps_intros]: "keeps_capacity m \<Longrightarrow> (\<And>a. keeps_capacity (f a)) \<Longrightarrow> keeps_capacity (pbind m f)"
  unfolding keeps_capacity_def pbind_def by (fastforce split: option.splits prod.splits sum.splits)

lemma keeps_counted [keeps_intros]: "(\<And>x. ri_heat (bump x) = ri_heat x) \<Longrightarrow> keeps_capacity (counted bump)"
  by (simp add: keeps_capacity_def counted_def pmodify_def)

lemma keeps_replace_slot [keeps_intros]: "keeps_capacity (replace_slot digest p i prev new)"
  unfolding replace_slot_def by (intro keeps_intros)

lemma keeps_lookup_loop [keeps_intros]: "keeps_capacity (lookup_loop digest p fp candidates ds)"
  by (induction ds) (auto simp del: partial_op_simps intro!: keeps_intros split: index_slot_state.splits)

lemma keeps_reclaim_loop [keeps_intros]: "keeps_capacity (prepare_reclaim_loop digest p fp candidates old ds)"
  by (induction ds) (auto simp del: partial_op_simps intro!: keeps_intros)

lemma keeps_remove_loop [keeps_intros]: "keeps_capacity (remove_loop_index digest p fp candidates expected ds)"
  by (induction ds) (auto simp del: partial_op_simps intro!: keeps_intros)

lemma keeps_replace_loop [keeps_intros]: "keeps_capacity (replace_loop digest p fp candidates old replacement ds)"
  by (induction ds) (auto simp del: partial_op_simps intro!: keeps_intros)

lemma keeps_upsert_scan [keeps_intros]: "keeps_capacity (upsert_scan digest p fp candidates supplied ds observed first_empty)"
  by (induction ds arbitrary: observed first_empty) (auto simp: Let_def simp del: partial_op_simps intro!: keeps_intros split: index_slot_state.splits option.splits)

lemma keeps_one_hop_targets [keeps_intros]: "keeps_capacity (one_hop_targets digest p n fp supplied sd i st f d e h ds)"
  by (induction ds) (auto simp: Let_def simp del: partial_op_simps intro!: keeps_intros)

lemma keeps_one_hop [keeps_intros]: "keeps_capacity (one_hop digest p n fp supplied candidates observed ds)"
  by (induction ds) (auto simp: Let_def simp del: partial_op_simps intro!: keeps_intros split: index_slot_state.splits)

lemma keeps_two_hop_targets [keeps_intros]: "keeps_capacity (two_hop_targets digest p n fp supplied sd i st f e m j mst g c b h ds)"
  by (induction ds) (auto simp: Let_def simp del: partial_op_simps intro!: keeps_intros)

lemma keeps_two_hop_middles [keeps_intros]: "keeps_capacity (two_hop_middles digest p n fp supplied sd i st f d e h ds)"
  by (induction ds) (auto simp: Let_def simp del: partial_op_simps intro!: keeps_intros split: index_slot_state.splits)

lemma keeps_two_hop [keeps_intros]: "keeps_capacity (two_hop digest p n fp supplied candidates observed ds)"
  by (induction ds) (auto simp: Let_def simp del: partial_op_simps intro!: keeps_intros split: index_slot_state.splits)

lemma keeps_place_new [keeps_intros]: "keeps_capacity (place_new digest p n hash fp supplied candidates observed first_empty)"
  unfolding place_new_def evict_candidate_def by (auto simp del: partial_op_simps intro!: keeps_intros split: option.splits)

lemma keeps_operations:
  "keeps_capacity (lookup_raw digest contended hash)" "keeps_capacity (upsert digest hash e)"
  "keeps_capacity (remove_matching digest contended hash expected non_waiting)"
  "keeps_capacity (replace_if_match digest hash old e)" "keeps_capacity (prepare_reclaim digest hash old)"
  unfolding lookup_raw_def upsert_def remove_matching_def replace_if_match_def prepare_reclaim_def record_conditional_remove_miss_def Let_def
  by (auto simp del: partial_op_simps intro!: keeps_intros split: option.splits)

lemma index_exec_capacity: "index_exec digest c x = Some (r, x') \<Longrightarrow> heat_capacity (ri_heat x') = heat_capacity (ri_heat x)"
  using keeps_operations unfolding keeps_capacity_def
  by (cases c) (force simp: answer_def try_delete_def remove_if_match_def)+

lemma slots_of_shape: "storage_ok digest (ri_storage x) \<Longrightarrow> pis_slot_count (ri_storage x) = sum_list (index_shape x)"
proof -
  assume s: "storage_ok digest (ri_storage x)"
  then have t: "tiles 0 0 0 (pis_ranges (ri_storage x)) (core_page_count (pis_core (ri_storage x))) (pis_slot_count (ri_storage x))"
    unfolding storage_ok_def by blast
  have "index_shape x = map slot_count (pis_ranges (ri_storage x))"
    unfolding index_shape_def using storage_ok_facts(5) [OF s] by (intro nth_equalityI) simp_all
  with tiles_sum [OF t] show ?thesis by simp
qed

lemma index_exec_covers:
  assumes ok: "index_ok digest x" and c: "heat_covers x" and run: "index_exec digest c x = Some (r, x')"
  shows "heat_covers x'" "index_ok digest x'" "index_shape x' = index_shape x"
proof -
  have "index_at digest (index_shape x) x" using ok by (simp add: index_at_def)
  from index_exec_law [OF this, of c] run show o: "index_ok digest x'" "index_shape x' = index_shape x"
    by (auto simp: index_at_def)
  then have "pis_slot_count (ri_storage x') = pis_slot_count (ri_storage x)"
    using slots_of_shape [of digest x] slots_of_shape [of digest x'] ok by (simp add: index_ok_def)
  with index_exec_capacity [OF run] c show "heat_covers x'" by (simp add: heat_covers_def)
qed

lemma fresh_index_covers: "fresh_index alloc map_anonymous slots = Inr x \<Longrightarrow> heat_covers x"
proof -
  assume "fresh_index alloc map_anonymous slots = Inr x"
  then obtain s where "index_from_storage alloc s = Inr x" by (auto simp: fresh_index_def)
  then show ?thesis
    by (auto simp: index_from_storage_def heat_try_new_def heat_covers_def heat_capacity_def div_ceil_def
        REFERENCE_WORD_BITS_def Let_def split: if_splits)
qed

section \<open>Properties\<close>

text \<open>
  C28 (functional): reclaim classifies a record of the Region it empties exactly. The answer is
  missing when the index no longer points at the record; otherwise it is reinsert when the bucket of
  the entry is hot (its heat is two), and removed when it is not. Removed takes the entry out of the map and changes nothing else; reinsert leaves the map as it is
  and obliges the caller to move the record. Either way the heat of the bucket is back at zero and
  no other bucket's heat changes. Each lookup that finds the entry raises its heat by one, up to two,
  where the bitmaps cover the buckets, which a fresh index does and every operation keeps.
\<close>

theorem index_reclaim_exact:
  assumes "index_ok digest x"
  shows "\<exists>r x'. prepare_reclaim digest hash old x = Some (Inr r, x') \<and> index_ok digest x'
    \<and> r = (if \<exists>e. index_map x (token (index_shape x) hash) = Some e \<and> index_equivalent (location e) old
           then if entry_heat x (token (index_shape x) hash) = 2 then ReclaimReinsert else ReclaimRemoved
           else ReclaimMissing)
    \<and> index_map x' = (if r = ReclaimRemoved then (index_map x)(token (index_shape x) hash := None) else index_map x)
    \<and> temperature (ri_heat x') =
        (if r = ReclaimMissing then temperature (ri_heat x)
         else (temperature (ri_heat x))(entry_slot x (token (index_shape x) hash) := 0))
    \<and> (r \<noteq> ReclaimMissing \<longrightarrow> entry_heat x' (token (index_shape x) hash) = 0)
    \<and> (r \<noteq> ReclaimReinsert \<longrightarrow>
         \<not> (\<exists>e. index_map x' (token (index_shape x) hash) = Some e \<and> index_equivalent (location e) old))
    \<and> (\<forall>e. heat_covers x \<and> index_map x (token (index_shape x) hash) = Some e \<longrightarrow>
         (\<exists>y. lookup_raw digest (\<lambda>_. False) hash x = Some (Inr (Some e), y)
            \<and> entry_heat y (token (index_shape x) hash) = min 2 (entry_heat x (token (index_shape x) hash) + 1)))"
proof -
  let ?tok = "token (index_shape x) hash"
  let ?match = "\<exists>e. index_map x ?tok = Some e \<and> index_equivalent (location e) old"
  have s: "storage_ok digest (ri_storage x)" using assms by (simp add: index_ok_def)
  from prepare_reclaim_map [OF assms, of hash old] obtain r x' where
    r: "prepare_reclaim digest hash old x = Some (Inr r, x')" "index_ok digest x'" "index_shape x' = index_shape x"
    "(r \<noteq> ReclaimMissing) = ?match"
    "index_map x' = (if r = ReclaimRemoved then (index_map x)(?tok := None) else index_map x)" by blast
  note h = prepare_reclaim_heat [OF assms r(1)]
  have cold: "entry_heat x' ?tok = 0" if "r \<noteq> ReclaimMissing"
  proof (cases r)
    case ReclaimReinsert
    with h r(4) have l: "located digest (tables (ri_storage x)) (map first_slot (pis_ranges (ri_storage x))) (ri_heat x') x'"
      and t: "temperature (ri_heat x') = (temperature (ri_heat x))(entry_slot x ?tok := 0)" by (simp_all split: if_splits)
    from entry_same [OF s l, of hash] t show ?thesis by (simp add: entry_heat_def)
  next
    case ReclaimRemoved
    with r(2,3,5) entry_bucket_None [of digest x' hash] show ?thesis by (simp add: entry_heat_def index_ok_def)
  qed (use that in simp)
  have "\<exists>y. lookup_raw digest (\<lambda>_. False) hash x = Some (Inr (Some e), y)
      \<and> entry_heat y ?tok = min 2 (entry_heat x ?tok + 1)" if "heat_covers x" "index_map x ?tok = Some e" for e
  proof -
    from lookup_raw_map [OF assms, of "\<lambda>_. False" hash] that(2) obtain y where
      y: "lookup_raw digest (\<lambda>_. False) hash x = Some (Inr (Some e), y)" by auto
    note l = lookup_heat [OF assms that(1) y]
    from entry_same [OF s l(3), of hash] l(1,2) y show ?thesis by (simp add: entry_heat_def [of y])
  qed
  moreover have "r = (if ?match then if entry_heat x ?tok = 2 then ReclaimReinsert else ReclaimRemoved else ReclaimMissing)"
    "temperature (ri_heat x') = (if r = ReclaimMissing then temperature (ri_heat x) else (temperature (ri_heat x))(entry_slot x ?tok := 0))"
    using h r(4) by (auto split: if_splits)
  moreover have "r \<noteq> ReclaimReinsert \<longrightarrow> \<not> (\<exists>e. index_map x' ?tok = Some e \<and> index_equivalent (location e) old)"
    using r(4,5) by (cases r) auto
  ultimately show ?thesis using r(1,2,5) cold by blast
qed

text \<open>An entry looked up twice is kept by the first reclaim and, not looked up again, removed by the second.\<close>

theorem index_reclaim_exact_witness:
  "\<exists>x\<^sub>0 x\<^sub>1 x\<^sub>2 x\<^sub>3 x\<^sub>4 x\<^sub>5 x\<^sub>6. fresh_index (\<lambda>_. True) (\<lambda>_. None) 1300 = Inr x\<^sub>0
     \<and> upsert (\<lambda>_. 0) 7 \<lparr>location = PackedLocation 32\<rparr> x\<^sub>0 = Some (Inr True, x\<^sub>1)
     \<and> lookup_raw (\<lambda>_. 0) (\<lambda>_. False) 7 x\<^sub>1 = Some (Inr (Some (quantize_entry \<lparr>location = PackedLocation 32\<rparr>)), x\<^sub>2)
     \<and> lookup_raw (\<lambda>_. 0) (\<lambda>_. False) 7 x\<^sub>2 = Some (Inr (Some (quantize_entry \<lparr>location = PackedLocation 32\<rparr>)), x\<^sub>3)
     \<and> prepare_reclaim (\<lambda>_. 0) 7 (PackedLocation 32) x\<^sub>3 = Some (Inr ReclaimReinsert, x\<^sub>4)
     \<and> prepare_reclaim (\<lambda>_. 0) 7 (PackedLocation 32) x\<^sub>4 = Some (Inr ReclaimRemoved, x\<^sub>5)
     \<and> prepare_reclaim (\<lambda>_. 0) 7 (PackedLocation 32) x\<^sub>5 = Some (Inr ReclaimMissing, x\<^sub>6)"
proof -
  let ?d = "\<lambda>_. 0 :: u32" and ?loc = "PackedLocation 32"
  let ?e = "quantize_entry \<lparr>location = ?loc\<rparr>"
  have eq: "index_equivalent (location ?e) ?loc"
    using quantize_index_equivalent [of ?loc] by (simp add: quantize_entry_def index_equivalent_def)
  have "representable_slots 1300" by (simp add: representable_slots_def isize_max_def)
  from fresh_index_ok [OF this, of "\<lambda>_. True" "\<lambda>_. None" ?d] obtain x\<^sub>0 where
    x\<^sub>0: "fresh_index (\<lambda>_. True) (\<lambda>_. None) 1300 = Inr x\<^sub>0" "index_ok ?d x\<^sub>0" by auto
  let ?tok = "token (index_shape x\<^sub>0) 7"
  obtain x\<^sub>1 where x\<^sub>1: "upsert ?d 7 \<lparr>location = ?loc\<rparr> x\<^sub>0 = Some (Inr True, x\<^sub>1)" "index_map x\<^sub>1 ?tok = Some ?e"
    by (rule upsert_map [OF x\<^sub>0(2), of 7 "\<lparr>location = ?loc\<rparr>"]) auto
  have c\<^sub>1: "heat_covers x\<^sub>1" "index_ok ?d x\<^sub>1" "index_shape x\<^sub>1 = index_shape x\<^sub>0"
    using index_exec_covers [OF x\<^sub>0(2) fresh_index_covers [OF x\<^sub>0(1)], of "CallUpsert 7 \<lparr>location = ?loc\<rparr>" "Changed True" x\<^sub>1] x\<^sub>1 by simp_all
  have step: "\<exists>y. lookup_raw ?d (\<lambda>_. False) 7 x = Some (Inr (Some ?e), y) \<and> entry_heat y ?tok = min 2 (entry_heat x ?tok + 1)
      \<and> heat_covers y \<and> index_ok ?d y \<and> index_shape y = index_shape x\<^sub>0 \<and> index_map y ?tok = Some ?e"
    if "heat_covers x" "index_ok ?d x" "index_shape x = index_shape x\<^sub>0" "index_map x ?tok = Some ?e" for x
  proof -
    from index_reclaim_exact [OF that(2), of 7 ?loc] that obtain y where
      y: "lookup_raw ?d (\<lambda>_. False) 7 x = Some (Inr (Some ?e), y)" "entry_heat y ?tok = min 2 (entry_heat x ?tok + 1)" by metis
    moreover have "heat_covers y" "index_ok ?d y" "index_shape y = index_shape x\<^sub>0"
      using index_exec_covers [OF that(2,1), of "CallLookup (\<lambda>_. False) 7" "Found (Some ?e)" y] y(1) that(3) by simp_all
    moreover have "index_map y ?tok = Some ?e" using lookup_raw_map [OF that(2), of "\<lambda>_. False" 7] y(1) that(4) by auto
    ultimately show ?thesis by blast
  qed
  from step [OF c\<^sub>1 x\<^sub>1(2)] obtain x\<^sub>2 where x\<^sub>2: "lookup_raw ?d (\<lambda>_. False) 7 x\<^sub>1 = Some (Inr (Some ?e), x\<^sub>2)"
    "entry_heat x\<^sub>2 ?tok = min 2 (entry_heat x\<^sub>1 ?tok + 1)" "heat_covers x\<^sub>2" "index_ok ?d x\<^sub>2" "index_shape x\<^sub>2 = index_shape x\<^sub>0"
    "index_map x\<^sub>2 ?tok = Some ?e" by blast
  from step [OF x\<^sub>2(3-6)] obtain x\<^sub>3 where x\<^sub>3: "lookup_raw ?d (\<lambda>_. False) 7 x\<^sub>2 = Some (Inr (Some ?e), x\<^sub>3)"
    "entry_heat x\<^sub>3 ?tok = min 2 (entry_heat x\<^sub>2 ?tok + 1)" "index_ok ?d x\<^sub>3" "index_shape x\<^sub>3 = index_shape x\<^sub>0"
    "index_map x\<^sub>3 ?tok = Some ?e" by blast
  have "entry_heat x\<^sub>3 ?tok = 2" using x\<^sub>2(2) x\<^sub>3(2) by simp
  with index_reclaim_exact [OF x\<^sub>3(3), of 7 ?loc] x\<^sub>3(4,5) eq obtain x\<^sub>4 where
    x\<^sub>4: "prepare_reclaim ?d 7 ?loc x\<^sub>3 = Some (Inr ReclaimReinsert, x\<^sub>4)" "index_ok ?d x\<^sub>4" "index_map x\<^sub>4 ?tok = Some ?e"
      "entry_heat x\<^sub>4 ?tok = 0" by auto
  have sh: "index_shape x\<^sub>4 = index_shape x\<^sub>0"
    using prepare_reclaim_map [OF x\<^sub>3(3), of 7 ?loc] x\<^sub>4(1) x\<^sub>3(4) by auto
  from index_reclaim_exact [OF x\<^sub>4(2), of 7 ?loc] x\<^sub>4(3,4) sh eq obtain x\<^sub>5 where
    x\<^sub>5: "prepare_reclaim ?d 7 ?loc x\<^sub>4 = Some (Inr ReclaimRemoved, x\<^sub>5)" "index_ok ?d x\<^sub>5" "index_map x\<^sub>5 ?tok = None"
    by auto
  have "index_shape x\<^sub>5 = index_shape x\<^sub>0"
    using prepare_reclaim_map [OF x\<^sub>4(2), of 7 ?loc] x\<^sub>5(1) sh by auto
  with index_reclaim_exact [OF x\<^sub>5(2), of 7 ?loc] x\<^sub>5(3) obtain x\<^sub>6 where
    "prepare_reclaim ?d 7 ?loc x\<^sub>5 = Some (Inr ReclaimMissing, x\<^sub>6)" by auto
  with x\<^sub>0(1) x\<^sub>1(1) x\<^sub>2(1) x\<^sub>3(1) x\<^sub>4(1) x\<^sub>5(1) show ?thesis by blast
qed

text \<open>
  The two heat bitmaps implement, for every bucket they cover, a counter of its
  lookups that saturates at two: marking counts one up and touches no other bucket, and taking
  answers whether the bucket was hot and resets it, so that an entry is reinserted only after two
  lookups.
\<close>

theorem heat_counts_lookups:
  assumes "slot < heat_capacity h"
  shows "temperature (heat_mark slot h) = (temperature h)(slot := min 2 (temperature h slot + 1))
    \<and> fst (heat_take_hot slot h) = (temperature h slot = 2)
    \<and> temperature (snd (heat_take_hot slot h)) = (temperature h)(slot := 0)
    \<and> temperature (heat_clear slot h) = (temperature h)(slot := 0)"
  using temperature_mark [OF assms] temperature_take [of slot h] temperature_clear [of slot h] by simp

theorem heat_counts_lookups_witness:
  "temperature (heat_mark 70 \<lparr>heat_seen = [0, 0], heat_hot = [0, 0]\<rparr>) 70 = 1"
proof -
  let ?h = "\<lparr>heat_seen = [0, 0], heat_hot = [0, 0]\<rparr>"
  have "70 < heat_capacity ?h" by (simp add: heat_capacity_def)
  from heat_counts_lookups [OF this] have "temperature (heat_mark 70 ?h) 70 = min 2 (temperature ?h 70 + 1)" by simp
  then show ?thesis by (simp add: temperature_def bit_at_def)
qed

end
