(* ===== verification/Recovery_Pages.thy ===== *)
theory Recovery_Pages
  imports Region_Metadata Page_Format
begin

text \<open>
  The three single-page codecs of \<^verbatim>\<open>region/recovery/mod.rs\<close>: the data superblock, the recovery image
  header and the session state record. Each page is a sequence of fixed fields, zero up to the last
  four bytes, and a checksum. \<open>sealed\<close> is that shape; each probe accepts exactly the sealed pages of
  valid values, so that a page either reads back as what was encoded or is refused.
\<close>

unbundle bit_operations_syntax

section \<open>Pages of fields\<close>

fun fields_at :: "bytes \<Rightarrow> nat \<Rightarrow> bytes list \<Rightarrow> bool" where
  "fields_at page off [] \<longleftrightarrow> True"
| "fields_at page off (f # fs) \<longleftrightarrow> take (length f) (drop off page) = f \<and> fields_at page (off + length f) fs"

lemma fields_at_iff:
  "off + length (concat fs) \<le> length page \<Longrightarrow>
   fields_at page off fs \<longleftrightarrow> take (length (concat fs)) (drop off page) = concat fs"
proof (induction page off fs rule: fields_at.induct)
  case (2 page off f fs)
  then have IH: "fields_at page (off + length f) fs \<longleftrightarrow> take (length (concat fs)) (drop (off + length f) page) = concat fs"
    by simp
  have "take (length f + length (concat fs)) (drop off page)
      = take (length f) (drop off page) @ take (length (concat fs)) (drop (off + length f) page)"
    by (simp add: take_add add.commute)
  moreover have "length (take (length f) (drop off page)) = length f" using 2(2) by simp
  ultimately show ?case by (simp add: IH)
qed simp

definition PAGE_CRC_OFFSET :: nat where "PAGE_CRC_OFFSET = RECOVERY_PAGE_SIZE - 4"

definition page_crc :: "crc_stream \<Rightarrow> bytes \<Rightarrow> u32 option" where
  "page_crc digest page = do {
     head \<leftarrow> slice_at page 0 PAGE_CRC_OFFSET;
     Some (crc32c digest [head, replicate 4 0])
   }"

definition write_page_crc :: "crc_stream \<Rightarrow> bytes \<Rightarrow> bytes option" where
  "write_page_crc digest page = do {
     checksum \<leftarrow> page_crc digest page;
     put_u32 page PAGE_CRC_OFFSET checksum
   }"

definition page_crc_matches :: "crc_stream \<Rightarrow> bytes \<Rightarrow> bool" where
  "page_crc_matches digest page \<longleftrightarrow>
     length page = RECOVERY_PAGE_SIZE \<and> get_u32 page PAGE_CRC_OFFSET = page_crc digest page"

definition put_id :: "bytes \<Rightarrow> nat \<Rightarrow> persistent_id \<Rightarrow> bytes option" where
  "put_id output off value = write_range output off (persistent_id_to_bytes value)"

definition get_id :: "bytes \<Rightarrow> nat \<Rightarrow> persistent_id option" where
  "get_id input off = do {
     field \<leftarrow> slice_at input off (off + 16);
     persistent_id_from_bytes field
   }"

definition sealed :: "crc_stream \<Rightarrow> bytes list \<Rightarrow> bytes" where
  "sealed digest fs = concat fs @ to_le 4 (crc32c digest [concat fs, replicate 4 0])"

text \<open>An identity as its type keeps it: sixteen bytes, not all zero.\<close>

primrec id_ok :: "persistent_id \<Rightarrow> bool" where
  "id_ok (PersistentId bs) \<longleftrightarrow> length bs = 16 \<and> bs \<noteq> replicate 16 0"

lemma id_bytes: "id_ok i \<Longrightarrow> length (persistent_id_to_bytes i) = 16"
  by (cases i) simp

lemma get_id_iff:
  "off + 16 \<le> length page \<Longrightarrow>
   get_id page off = Some i \<longleftrightarrow> id_ok i \<and> take 16 (drop off page) = persistent_id_to_bytes i"
  by (cases i) (auto simp: get_id_def slice_at_def persistent_id_from_bytes_def split: if_splits)

lemma page_crc_eq: "length page = 4096 \<Longrightarrow> page_crc digest page = Some (crc32c digest [take 4092 page, replicate 4 0])"
  by (simp add: page_crc_def slice_at_def PAGE_CRC_OFFSET_def RECOVERY_PAGE_SIZE_def)

lemma write_page_crc_eq:
  assumes "length page = 4096" "length (concat fs) = 4092" "take 4092 page = concat fs"
  shows "write_page_crc digest page = Some (sealed digest fs)"
proof -
  have "drop 4096 page = []" using assms(1) by simp
  then show ?thesis
    using assms by (simp add: write_page_crc_def page_crc_eq PAGE_CRC_OFFSET_def RECOVERY_PAGE_SIZE_def f32.put_defined
        overwrite_def sealed_def)
qed

lemma sealed_iff:
  assumes "length page = 4096" "length (concat fs) = 4092"
  shows "page = sealed digest fs \<longleftrightarrow> fields_at page 0 fs \<and> page_crc_matches digest page"
proof -
  have crc: "page_crc_matches digest page \<longleftrightarrow> drop 4092 page = to_le 4 (crc32c digest [take 4092 page, replicate 4 0])"
    using assms(1) by (simp add: page_crc_matches_def page_crc_eq PAGE_CRC_OFFSET_def RECOVERY_PAGE_SIZE_def
        get_u32_take usize_max_def from_le_iff(2))
  have "page = sealed digest fs \<longleftrightarrow> take 4092 page = concat fs \<and> drop 4092 page = to_le 4 (crc32c digest [concat fs, replicate 4 0])"
    using assms unfolding sealed_def by (metis append_eq_conv_conj)
  then show ?thesis using crc fields_at_iff [of 0 fs page] assms by auto
qed

datatype 'a page_probe =
    ProbeEmpty
  | ProbeValid 'a
  | ProbeCorrupt
  | ProbeUnsupported u16
  | ProbeUnrecognized
  | ProbeTruncated

datatype codec_error = DataSuperblockError | RecoveryImageHeaderError | StateRecordError

text \<open>
  \<^verbatim>\<open>page[a..b].iter().any(|byte| *byte != 0)\<close> on a page whose length was checked: the constant
  ranges lie inside it.
\<close>

definition nonzero_between :: "bytes \<Rightarrow> nat \<Rightarrow> nat \<Rightarrow> bool" where
  "nonzero_between page a b = list_ex (\<lambda>byte. byte \<noteq> 0) (take (b - a) (drop a page))"

lemma nonzero_between_iff:
  "a \<le> b \<Longrightarrow> b \<le> length page \<Longrightarrow> nonzero_between page a b \<longleftrightarrow> take (b - a) (drop a page) \<noteq> replicate (b - a) 0"
  unfolding nonzero_between_def by (rule not_all_zero) simp

lemma get_iff:
  "length page = 4096 \<Longrightarrow> off + 2 \<le> 4096 \<Longrightarrow> get_u16 page off = Some v \<longleftrightarrow> take 2 (drop off page) = to_le 2 v"
  "length page = 4096 \<Longrightarrow> off + 4 \<le> 4096 \<Longrightarrow> get_u32 page off = Some w \<longleftrightarrow> take 4 (drop off page) = to_le 4 w"
  "length page = 4096 \<Longrightarrow> off + 8 \<le> 4096 \<Longrightarrow> get_u64 page off = Some x \<longleftrightarrow> take 8 (drop off page) = to_le 8 x"
  by (simp_all add: get_u16_take get_u32_take get_u64_take usize_max_def from_le_iff)

lemma get_total:
  "length page = 4096 \<Longrightarrow> off + 2 \<le> 4096 \<Longrightarrow> get_u16 page off \<noteq> None"
  "length page = 4096 \<Longrightarrow> off + 4 \<le> 4096 \<Longrightarrow> get_u32 page off \<noteq> None"
  "length page = 4096 \<Longrightarrow> off + 8 \<le> 4096 \<Longrightarrow> get_u64 page off \<noteq> None"
  by (simp_all add: get_u16_take get_u32_take get_u64_take usize_max_def)

text \<open>A sealed page is not blank: its magic is not.\<close>

lemma sealed_not_blank:
  assumes "fields_at page 0 fs" "fs = magic # rest" "magic \<noteq> []" "hd magic \<noteq> 0"
  shows "\<not> list_all (\<lambda>byte. byte = 0) page"
proof -
  have "take (length magic) page = magic" using assms(1,2) by simp
  then have "hd magic \<in> set page" using assms(3) by (metis hd_in_set in_set_takeD)
  with assms(4) show ?thesis by (auto simp: list_all_iff)
qed

section \<open>Data geometry and superblock\<close>

definition DATA_REGION_AREA_OFFSET :: nat where "DATA_REGION_AREA_OFFSET = RECOVERY_PAGE_SIZE"
definition RECOVERY_FORMAT_VERSION :: u16 where "RECOVERY_FORMAT_VERSION = 1"
definition KEY_HASH_ALGORITHM_XXH3_64 :: u32 where "KEY_HASH_ALGORITHM_XXH3_64 = 1"
definition DATA_MAGIC :: bytes where "DATA_MAGIC = [67, 82, 68, 65, 84, 65, 0, 0]"
definition DATA_HEADER_SIZE :: nat where "DATA_HEADER_SIZE = 112"

record data_geometry =
  dg_data_file_len :: nat
  dg_region_size :: nat
  dg_region_count :: nat

definition expected_file_len :: "nat \<Rightarrow> nat \<Rightarrow> nat option" where
  "expected_file_len rsize rcount = do {
     bytes \<leftarrow> checked_mul u64_max rsize rcount;
     checked_add u64_max bytes DATA_REGION_AREA_OFFSET
   }"

definition geometry_is_valid :: "data_geometry \<Rightarrow> bool" where
  "geometry_is_valid g \<longleftrightarrow>
     dg_region_count g \<noteq> 0 \<and> dg_region_count g \<le> MAX_PACKED_REGION_COUNT
     \<and> dg_region_size g \<ge> RECOVERY_PAGE_SIZE \<and> dg_region_size g \<le> MAX_PACKED_REGION_SIZE
     \<and> dg_region_size g mod RECOVERY_PAGE_SIZE = 0
     \<and> expected_file_len (dg_region_size g) (dg_region_count g) = Some (dg_data_file_len g)"

record data_superblock =
  sb_generation :: u64
  sb_cache_uuid :: persistent_id
  sb_data_identity :: persistent_id
  sb_geometry :: data_geometry
  sb_hash_seed :: u64
  sb_storage_fingerprint :: u64

definition superblock_is_valid :: "data_superblock \<Rightarrow> bool" where
  "superblock_is_valid s \<longleftrightarrow> sb_generation s \<noteq> 0 \<and> geometry_is_valid (sb_geometry s)"

definition superblock_encode :: "crc_stream \<Rightarrow> data_superblock \<Rightarrow> (codec_error + bytes) option" where
  "superblock_encode digest s =
     (if \<not> superblock_is_valid s then Some (Inl DataSuperblockError) else do {
     page \<leftarrow> write_range (replicate RECOVERY_PAGE_SIZE 0) 0 DATA_MAGIC;
     page \<leftarrow> put_u16 page 8 RECOVERY_FORMAT_VERSION;
     page \<leftarrow> put_u16 page 10 (of_nat DATA_HEADER_SIZE);
     page \<leftarrow> put_u32 page 12 KEY_HASH_ALGORITHM_XXH3_64;
     page \<leftarrow> put_u64 page 16 (sb_generation s);
     page \<leftarrow> put_id page 24 (sb_cache_uuid s);
     page \<leftarrow> put_id page 40 (sb_data_identity s);
     page \<leftarrow> put_u64 page 56 (of_nat (dg_data_file_len (sb_geometry s)));
     page \<leftarrow> put_u64 page 64 (of_nat (dg_region_size (sb_geometry s)));
     page \<leftarrow> put_u64 page 72 (of_nat DATA_REGION_AREA_OFFSET);
     page \<leftarrow> put_u32 page 80 (of_nat (dg_region_count (sb_geometry s)));
     page \<leftarrow> put_u32 page 84 (of_nat RECORD_ALIGNMENT);
     page \<leftarrow> put_u16 page 88 RECORD_FORMAT_VERSION;
     page \<leftarrow> put_u64 page 96 (sb_hash_seed s);
     page \<leftarrow> put_u64 page 104 (sb_storage_fingerprint s);
     page \<leftarrow> write_page_crc digest page;
     Some (Inr page)
     })"

definition superblock_fields_read :: "bytes \<Rightarrow> persistent_id \<Rightarrow> persistent_id \<Rightarrow> data_superblock option" where
  "superblock_fields_read page uuid ident = do {
     gen \<leftarrow> get_u64 page 16;
     file_len \<leftarrow> get_u64 page 56;
     rsize \<leftarrow> get_u64 page 64;
     rcount \<leftarrow> get_u32 page 80;
     seed \<leftarrow> get_u64 page 96;
     fprint \<leftarrow> get_u64 page 104;
     Some \<lparr>sb_generation = gen, sb_cache_uuid = uuid, sb_data_identity = ident,
           sb_geometry = \<lparr>dg_data_file_len = unat file_len, dg_region_size = unat rsize, dg_region_count = unat rcount\<rparr>,
           sb_hash_seed = seed, sb_storage_fingerprint = fprint\<rparr>
   }"

definition superblock_probe :: "crc_stream \<Rightarrow> bytes \<Rightarrow> data_superblock page_probe" where
  "superblock_probe digest page =
     (if length page \<noteq> RECOVERY_PAGE_SIZE then ProbeTruncated
      else if list_all (\<lambda>byte. byte = 0) page then ProbeEmpty
      else if take (length DATA_MAGIC) page \<noteq> DATA_MAGIC then ProbeUnrecognized
      else if \<not> page_crc_matches digest page then ProbeCorrupt
      else case get_u16 page 8 of
        None \<Rightarrow> ProbeCorrupt
      | Some version \<Rightarrow>
          if version \<noteq> RECOVERY_FORMAT_VERSION then ProbeUnsupported version
          else if get_u16 page 10 \<noteq> Some (of_nat DATA_HEADER_SIZE)
             \<or> get_u32 page 12 \<noteq> Some KEY_HASH_ALGORITHM_XXH3_64
             \<or> get_u64 page 72 \<noteq> Some (of_nat DATA_REGION_AREA_OFFSET)
             \<or> get_u32 page 84 \<noteq> Some (of_nat RECORD_ALIGNMENT)
             \<or> get_u16 page 88 \<noteq> Some RECORD_FORMAT_VERSION
             \<or> nonzero_between page 90 96
             \<or> nonzero_between page DATA_HEADER_SIZE PAGE_CRC_OFFSET
          then ProbeCorrupt
          else (case get_id page 24 of None \<Rightarrow> ProbeCorrupt | Some uuid \<Rightarrow>
               (case get_id page 40 of None \<Rightarrow> ProbeCorrupt | Some ident \<Rightarrow>
               (case superblock_fields_read page uuid ident of
                  None \<Rightarrow> ProbeCorrupt
                | Some s \<Rightarrow> if superblock_is_valid s then ProbeValid s else ProbeCorrupt))))"

definition superblock_fields :: "data_superblock \<Rightarrow> bytes list" where
  "superblock_fields s =
     [DATA_MAGIC, to_le 2 (1 :: u16), to_le 2 (112 :: u16), to_le 4 (1 :: u32), to_le 8 (sb_generation s),
      persistent_id_to_bytes (sb_cache_uuid s), persistent_id_to_bytes (sb_data_identity s),
      to_le 8 (of_nat (dg_data_file_len (sb_geometry s)) :: u64), to_le 8 (of_nat (dg_region_size (sb_geometry s)) :: u64),
      to_le 8 (4096 :: u64), to_le 4 (of_nat (dg_region_count (sb_geometry s)) :: u32), to_le 4 (32 :: u32),
      to_le 2 (1 :: u16), replicate 6 0, to_le 8 (sb_hash_seed s), to_le 8 (sb_storage_fingerprint s), replicate 3980 0]"

definition superblock_typed :: "data_superblock \<Rightarrow> bool" where
  "superblock_typed s \<longleftrightarrow> id_ok (sb_cache_uuid s) \<and> id_ok (sb_data_identity s)"

lemmas recovery_consts = RECOVERY_PAGE_SIZE_def PAGE_CRC_OFFSET_def DATA_REGION_AREA_OFFSET_def RECOVERY_FORMAT_VERSION_def
  KEY_HASH_ALGORITHM_XXH3_64_def DATA_HEADER_SIZE_def RECORD_ALIGNMENT_def RECORD_FORMAT_VERSION_def

lemma length_DATA_MAGIC [simp]: "length DATA_MAGIC = 8"
  by (simp add: DATA_MAGIC_def)

lemma geometry_bounds:
  assumes "geometry_is_valid g"
  shows "dg_data_file_len g \<le> u64_max" "dg_region_size g \<le> u64_max" "dg_region_count g \<le> u32_max"
  using assms by (auto simp: geometry_is_valid_def expected_file_len_def num_bounds packed_widths
      MAX_PACKED_REGION_COUNT_def MAX_PACKED_REGION_SIZE_def packed_limits Option.bind_eq_Some_conv)

lemma superblock_encode_eq:
  assumes "superblock_is_valid s" "superblock_typed s"
  shows "superblock_encode digest s = Some (Inr (sealed digest (superblock_fields s)))"
    "length (concat (superblock_fields s)) = 4092"
proof -
  have ids: "length (persistent_id_to_bytes (sb_cache_uuid s)) = 16" "length (persistent_id_to_bytes (sb_data_identity s)) = 16"
    using assms(2) by (auto simp: superblock_typed_def intro: id_bytes)
  show len: "length (concat (superblock_fields s)) = 4092" using ids by (simp add: superblock_fields_def)
  let ?page = "concat (superblock_fields s) @ replicate 4 0"
  have w: "write_page_crc digest ?page = Some (sealed digest (superblock_fields s))"
    by (rule write_page_crc_eq) (use len in simp_all)
  have z: "replicate 3980 0 @ replicate 4 0 = replicate 3984 (0 :: u8)" by (simp flip: replicate_add)
  have "superblock_encode digest s = Option.bind (write_page_crc digest ?page) (\<lambda>page. Some (Inr page))"
    using assms(1) ids z
    by (simp add: superblock_encode_def write_range_def put_id_def f16.put_defined f32.put_defined f64.put_defined recovery_consts
        overwrite_def superblock_fields_def)
  with w show "superblock_encode digest s = Some (Inr (sealed digest (superblock_fields s)))" by simp
qed

lemma superblock_read_iff:
  assumes "length page = 4096"
  shows "superblock_fields_read page uuid ident = Some s \<and> superblock_is_valid s \<longleftrightarrow>
    superblock_is_valid s \<and> sb_cache_uuid s = uuid \<and> sb_data_identity s = ident
    \<and> take 8 (drop 16 page) = to_le 8 (sb_generation s)
    \<and> take 8 (drop 56 page) = to_le 8 (of_nat (dg_data_file_len (sb_geometry s)) :: u64)
    \<and> take 8 (drop 64 page) = to_le 8 (of_nat (dg_region_size (sb_geometry s)) :: u64)
    \<and> take 4 (drop 80 page) = to_le 4 (of_nat (dg_region_count (sb_geometry s)) :: u32)
    \<and> take 8 (drop 96 page) = to_le 8 (sb_hash_seed s)
    \<and> take 8 (drop 104 page) = to_le 8 (sb_storage_fingerprint s)"
  (is "?L \<longleftrightarrow> ?R")
proof
  assume l: ?L
  then obtain gen file_len rsize rcount seed fprint where f:
    "get_u64 page 16 = Some gen" "get_u64 page 56 = Some file_len" "get_u64 page 64 = Some rsize" "get_u32 page 80 = Some rcount"
    "get_u64 page 96 = Some seed" "get_u64 page 104 = Some fprint"
    and s: "s = \<lparr>sb_generation = gen, sb_cache_uuid = uuid, sb_data_identity = ident,
           sb_geometry = \<lparr>dg_data_file_len = unat file_len, dg_region_size = unat rsize, dg_region_count = unat rcount\<rparr>,
           sb_hash_seed = seed, sb_storage_fingerprint = fprint\<rparr>"
    by (auto simp: superblock_fields_read_def Option.bind_eq_Some_conv)
  show ?R using l f assms by (simp add: s get_iff)
next
  assume r: ?R
  have b: "dg_data_file_len (sb_geometry s) < 2 ^ 64" "dg_region_size (sb_geometry s) < 2 ^ 64" "dg_region_count (sb_geometry s) < 2 ^ 32"
    using geometry_bounds [of "sb_geometry s"] r by (auto simp: superblock_is_valid_def num_bounds)
  have "get_u64 page 16 = Some (sb_generation s)" "get_u64 page 56 = Some (of_nat (dg_data_file_len (sb_geometry s)))"
    "get_u64 page 64 = Some (of_nat (dg_region_size (sb_geometry s)))" "get_u32 page 80 = Some (of_nat (dg_region_count (sb_geometry s)))"
    "get_u64 page 96 = Some (sb_hash_seed s)" "get_u64 page 104 = Some (sb_storage_fingerprint s)"
    using r assms by (simp_all add: get_iff)
  with b r show ?L by (simp add: superblock_fields_read_def unat_of_nat)
qed

lemma superblock_probe_iff:
  assumes "length page = 4096"
  shows "superblock_probe digest page = ProbeValid s \<longleftrightarrow>
    superblock_is_valid s \<and> superblock_typed s \<and> page = sealed digest (superblock_fields s)"
  (is "?L \<longleftrightarrow> ?R")
proof
  assume l: ?L
  then obtain uuid ident where p: "take 8 page = DATA_MAGIC" "page_crc_matches digest page" "get_u16 page 8 = Some 1"
    "get_u16 page 10 = Some 112" "get_u32 page 12 = Some 1" "get_u64 page 72 = Some 4096" "get_u32 page 84 = Some 32"
    "get_u16 page 88 = Some 1" "\<not> nonzero_between page 90 96" "\<not> nonzero_between page 112 4092"
    and i: "get_id page 24 = Some uuid" "get_id page 40 = Some ident"
    and r: "superblock_fields_read page uuid ident = Some s \<and> superblock_is_valid s"
    by (auto simp: superblock_probe_def recovery_consts split: if_splits option.splits)
  note ids = i [unfolded get_id_iff [of 24 page uuid, simplified assms, simplified] get_id_iff [of 40 page ident, simplified assms, simplified]]
  note r' = r [unfolded superblock_read_iff [OF assms]]
  have "fields_at page 0 (superblock_fields s)"
    using p ids r' assms by (simp add: superblock_fields_def get_iff nonzero_between_iff id_bytes)
  moreover have t: "superblock_is_valid s" "superblock_typed s" using r' ids by (simp_all add: superblock_typed_def)
  ultimately show ?R using p(2) sealed_iff [OF assms superblock_encode_eq(2) [OF t]] by blast
next
  assume r: ?R
  then have v: "superblock_is_valid s" and f: "fields_at page 0 (superblock_fields s)" and crc: "page_crc_matches digest page"
    and i: "id_ok (sb_cache_uuid s)" "id_ok (sb_data_identity s)"
    using sealed_iff [OF assms superblock_encode_eq(2)] by (auto simp: superblock_typed_def)
  have nb: "\<not> list_all (\<lambda>byte. byte = 0) page"
    by (rule sealed_not_blank [OF f superblock_fields_def]) (simp_all add: DATA_MAGIC_def)
  note f' = f [unfolded superblock_fields_def, simplified id_bytes [OF i(1)] id_bytes [OF i(2)], simplified id_bytes [OF i(1)] id_bytes [OF i(2)]]
  have rd: "superblock_fields_read page (sb_cache_uuid s) (sb_data_identity s) = Some s"
    using superblock_read_iff [OF assms, of "sb_cache_uuid s" "sb_data_identity s" s] v f' i by (simp add: id_bytes)
  have ids: "get_id page 24 = Some (sb_cache_uuid s)" "get_id page 40 = Some (sb_data_identity s)"
    using assms i f' by (simp_all add: get_id_iff id_bytes)
  have gets: "get_u16 page 8 = Some 1" "get_u16 page 10 = Some 112" "get_u32 page 12 = Some 1" "get_u64 page 72 = Some 4096"
    "get_u32 page 84 = Some 32" "get_u16 page 88 = Some 1" "\<not> nonzero_between page 90 96" "\<not> nonzero_between page 112 4092"
    "take 8 page = DATA_MAGIC"
    using assms f' i by (simp_all add: get_iff nonzero_between_iff id_bytes)
  show ?L using v crc nb rd ids gets assms by (simp add: superblock_probe_def recovery_consts)
qed

section \<open>Image bindings and the recovery image header\<close>

definition RECOVERY_IMAGE_INDEX_OFFSET :: nat where "RECOVERY_IMAGE_INDEX_OFFSET = INDEX_IMAGE_PAGE_SIZE"
definition RECOVERY_IMAGE_SLOTS_PER_PAGE :: nat where "RECOVERY_IMAGE_SLOTS_PER_PAGE = INDEX_IMAGE_SLOTS_PER_PAGE"
definition IMAGE_MAGIC :: bytes where "IMAGE_MAGIC = [67, 82, 73, 77, 65, 71, 69, 0]"
definition IMAGE_FORMAT_VERSION :: u16 where "IMAGE_FORMAT_VERSION = 1"
definition IMAGE_HEADER_SIZE :: nat where "IMAGE_HEADER_SIZE = 144"

record image_binding =
  ib_identity :: persistent_id
  ib_generation :: u64
  ib_file_len :: nat

definition image_binding_is_valid :: "image_binding \<Rightarrow> bool" where
  "image_binding_is_valid b \<longleftrightarrow> ib_generation b \<noteq> 0 \<and> ib_file_len b \<ge> RECOVERY_PAGE_SIZE"

record recovery_image_header =
  ih_cache_uuid :: persistent_id
  ih_data_identity :: persistent_id
  ih_data_superblock_generation :: u64
  ih_hash_seed :: u64
  ih_storage_fingerprint :: u64
  ih_image_identity :: persistent_id
  ih_image_generation :: u64
  ih_image_file_len :: nat
  ih_index_slots :: nat
  ih_index_offset :: nat
  ih_index_len :: nat
  ih_region_table_offset :: nat
  ih_region_table_len :: nat

definition recovery_image_index_len :: "nat \<Rightarrow> nat option" where
  "recovery_image_index_len slots =
     (if slots = 0 then None
      else do {
        pages \<leftarrow> checked_add u64_max (slots div RECOVERY_IMAGE_SLOTS_PER_PAGE)
                   (of_bool (slots mod RECOVERY_IMAGE_SLOTS_PER_PAGE \<noteq> 0));
        checked_mul u64_max pages RECOVERY_PAGE_SIZE
      })"

definition image_header_is_valid :: "recovery_image_header \<Rightarrow> bool" where
  "image_header_is_valid h =
     (case recovery_image_index_len (ih_index_slots h) of None \<Rightarrow> False | Some expected_index_len \<Rightarrow>
     (case checked_add u64_max (ih_index_offset h) (ih_index_len h) of None \<Rightarrow> False | Some index_end \<Rightarrow>
      let expected_file_len =
            (if ih_region_table_offset h = index_end \<and> ih_region_table_len h mod RECOVERY_PAGE_SIZE = 0
                \<and> ih_region_table_len h \<noteq> 0
             then checked_add u64_max (ih_region_table_offset h) (ih_region_table_len h) else None)
      in ih_data_superblock_generation h \<noteq> 0 \<and> ih_image_generation h \<noteq> 0 \<and> ih_index_slots h \<noteq> 0
         \<and> ih_index_offset h = RECOVERY_IMAGE_INDEX_OFFSET \<and> ih_index_len h = expected_index_len
         \<and> expected_file_len = Some (ih_image_file_len h)))"

definition header_image_binding :: "recovery_image_header \<Rightarrow> image_binding" where
  "header_image_binding h =
     \<lparr>ib_identity = ih_image_identity h, ib_generation = ih_image_generation h, ib_file_len = ih_image_file_len h\<rparr>"

definition header_matches_data :: "recovery_image_header \<Rightarrow> data_superblock \<Rightarrow> bool" where
  "header_matches_data h d \<longleftrightarrow>
     ih_cache_uuid h = sb_cache_uuid d \<and> ih_data_identity h = sb_data_identity d
     \<and> ih_data_superblock_generation h = sb_generation d \<and> ih_hash_seed h = sb_hash_seed d
     \<and> ih_storage_fingerprint h = sb_storage_fingerprint d"

definition image_header_encode :: "crc_stream \<Rightarrow> recovery_image_header \<Rightarrow> (codec_error + bytes) option" where
  "image_header_encode digest h =
     (if \<not> image_header_is_valid h then Some (Inl RecoveryImageHeaderError) else do {
     page \<leftarrow> write_range (replicate RECOVERY_PAGE_SIZE 0) 0 IMAGE_MAGIC;
     page \<leftarrow> put_u16 page 8 IMAGE_FORMAT_VERSION;
     page \<leftarrow> put_u16 page 10 (of_nat IMAGE_HEADER_SIZE);
     page \<leftarrow> put_u32 page 12 0;
     page \<leftarrow> put_id page 16 (ih_cache_uuid h);
     page \<leftarrow> put_id page 32 (ih_data_identity h);
     page \<leftarrow> put_u64 page 48 (ih_data_superblock_generation h);
     page \<leftarrow> put_u64 page 56 (ih_hash_seed h);
     page \<leftarrow> put_u64 page 64 (ih_storage_fingerprint h);
     page \<leftarrow> put_id page 72 (ih_image_identity h);
     page \<leftarrow> put_u64 page 88 (ih_image_generation h);
     page \<leftarrow> put_u64 page 96 (of_nat (ih_image_file_len h));
     page \<leftarrow> put_u64 page 104 (of_nat (ih_index_slots h));
     page \<leftarrow> put_u64 page 112 (of_nat (ih_index_offset h));
     page \<leftarrow> put_u64 page 120 (of_nat (ih_index_len h));
     page \<leftarrow> put_u64 page 128 (of_nat (ih_region_table_offset h));
     page \<leftarrow> put_u64 page 136 (of_nat (ih_region_table_len h));
     page \<leftarrow> write_page_crc digest page;
     Some (Inr page)
     })"

definition image_header_fields_read ::
    "bytes \<Rightarrow> persistent_id \<Rightarrow> persistent_id \<Rightarrow> persistent_id \<Rightarrow> recovery_image_header option" where
  "image_header_fields_read page uuid ident img = do {
     data_gen \<leftarrow> get_u64 page 48;
     seed \<leftarrow> get_u64 page 56;
     fprint \<leftarrow> get_u64 page 64;
     gen \<leftarrow> get_u64 page 88;
     file_len \<leftarrow> get_u64 page 96;
     slots \<leftarrow> get_u64 page 104;
     index_off \<leftarrow> get_u64 page 112;
     index_len \<leftarrow> get_u64 page 120;
     table_off \<leftarrow> get_u64 page 128;
     table_len \<leftarrow> get_u64 page 136;
     Some \<lparr>ih_cache_uuid = uuid, ih_data_identity = ident, ih_data_superblock_generation = data_gen, ih_hash_seed = seed,
           ih_storage_fingerprint = fprint, ih_image_identity = img, ih_image_generation = gen,
           ih_image_file_len = unat file_len, ih_index_slots = unat slots, ih_index_offset = unat index_off,
           ih_index_len = unat index_len, ih_region_table_offset = unat table_off, ih_region_table_len = unat table_len\<rparr>
   }"

definition image_header_probe :: "crc_stream \<Rightarrow> bytes \<Rightarrow> recovery_image_header page_probe" where
  "image_header_probe digest page =
     (if length page \<noteq> RECOVERY_PAGE_SIZE then ProbeTruncated
      else if list_all (\<lambda>byte. byte = 0) page then ProbeEmpty
      else if take (length IMAGE_MAGIC) page \<noteq> IMAGE_MAGIC then ProbeUnrecognized
      else if \<not> page_crc_matches digest page then ProbeCorrupt
      else case get_u16 page 8 of
        None \<Rightarrow> ProbeCorrupt
      | Some version \<Rightarrow>
          if version \<noteq> IMAGE_FORMAT_VERSION then ProbeUnsupported version
          else if get_u16 page 10 \<noteq> Some (of_nat IMAGE_HEADER_SIZE) \<or> get_u32 page 12 \<noteq> Some 0
             \<or> nonzero_between page IMAGE_HEADER_SIZE PAGE_CRC_OFFSET
          then ProbeCorrupt
          else (case get_id page 16 of None \<Rightarrow> ProbeCorrupt | Some uuid \<Rightarrow>
               (case get_id page 32 of None \<Rightarrow> ProbeCorrupt | Some ident \<Rightarrow>
               (case get_id page 72 of None \<Rightarrow> ProbeCorrupt | Some img \<Rightarrow>
               (case image_header_fields_read page uuid ident img of
                  None \<Rightarrow> ProbeCorrupt
                | Some h \<Rightarrow> if image_header_is_valid h then ProbeValid h else ProbeCorrupt)))))"

definition image_header_fields :: "recovery_image_header \<Rightarrow> bytes list" where
  "image_header_fields h =
     [IMAGE_MAGIC, to_le 2 (1 :: u16), to_le 2 (144 :: u16), to_le 4 (0 :: u32),
      persistent_id_to_bytes (ih_cache_uuid h), persistent_id_to_bytes (ih_data_identity h),
      to_le 8 (ih_data_superblock_generation h), to_le 8 (ih_hash_seed h), to_le 8 (ih_storage_fingerprint h),
      persistent_id_to_bytes (ih_image_identity h), to_le 8 (ih_image_generation h),
      to_le 8 (of_nat (ih_image_file_len h) :: u64), to_le 8 (of_nat (ih_index_slots h) :: u64),
      to_le 8 (of_nat (ih_index_offset h) :: u64), to_le 8 (of_nat (ih_index_len h) :: u64),
      to_le 8 (of_nat (ih_region_table_offset h) :: u64), to_le 8 (of_nat (ih_region_table_len h) :: u64), replicate 3948 0]"

definition image_header_typed :: "recovery_image_header \<Rightarrow> bool" where
  "image_header_typed h \<longleftrightarrow> id_ok (ih_cache_uuid h) \<and> id_ok (ih_data_identity h) \<and> id_ok (ih_image_identity h)"

lemma length_IMAGE_MAGIC [simp]: "length IMAGE_MAGIC = 8"
  by (simp add: IMAGE_MAGIC_def)

lemmas image_header_consts = RECOVERY_PAGE_SIZE_def PAGE_CRC_OFFSET_def IMAGE_FORMAT_VERSION_def IMAGE_HEADER_SIZE_def
  RECOVERY_IMAGE_INDEX_OFFSET_def RECOVERY_IMAGE_SLOTS_PER_PAGE_def image_sizes

lemma image_header_bounds:
  assumes "image_header_is_valid h"
  shows "ih_image_file_len h < 2 ^ 64" "ih_index_slots h < 2 ^ 64" "ih_index_offset h < 2 ^ 64" "ih_index_len h < 2 ^ 64"
    "ih_region_table_offset h < 2 ^ 64" "ih_region_table_len h < 2 ^ 64"
proof -
  from assms obtain n where n: "recovery_image_index_len (ih_index_slots h) = Some n" "ih_index_offset h = 4096"
    "ih_index_offset h + ih_index_len h \<le> u64_max" "ih_region_table_offset h = ih_index_offset h + ih_index_len h"
    "ih_region_table_offset h + ih_region_table_len h \<le> u64_max" "ih_image_file_len h = ih_region_table_offset h + ih_region_table_len h"
    by (auto simp: image_header_is_valid_def image_header_consts Let_def split: option.splits if_splits)
  then show "ih_image_file_len h < 2 ^ 64" "ih_index_offset h < 2 ^ 64" "ih_index_len h < 2 ^ 64"
    "ih_region_table_offset h < 2 ^ 64" "ih_region_table_len h < 2 ^ 64"
    by (simp_all add: num_bounds)
  from n(1) have "(ih_index_slots h div 504) * 4096 \<le> u64_max"
    by (auto simp: recovery_image_index_len_def image_header_consts Option.bind_eq_Some_conv split: if_splits)
  then show "ih_index_slots h < 2 ^ 64" by (simp add: num_bounds)
qed

lemma image_header_encode_eq:
  assumes "image_header_is_valid h" "image_header_typed h"
  shows "image_header_encode digest h = Some (Inr (sealed digest (image_header_fields h)))"
    "length (concat (image_header_fields h)) = 4092"
proof -
  have ids: "length (persistent_id_to_bytes (ih_cache_uuid h)) = 16" "length (persistent_id_to_bytes (ih_data_identity h)) = 16"
    "length (persistent_id_to_bytes (ih_image_identity h)) = 16"
    using assms(2) by (auto simp: image_header_typed_def intro: id_bytes)
  show len: "length (concat (image_header_fields h)) = 4092" using ids by (simp add: image_header_fields_def)
  let ?page = "concat (image_header_fields h) @ replicate 4 0"
  have w: "write_page_crc digest ?page = Some (sealed digest (image_header_fields h))"
    by (rule write_page_crc_eq) (use len in simp_all)
  have z: "replicate 3948 0 @ replicate 4 0 = replicate 3952 (0 :: u8)" by (simp flip: replicate_add)
  have "image_header_encode digest h = Option.bind (write_page_crc digest ?page) (\<lambda>page. Some (Inr page))"
    using assms(1) ids z
    by (simp add: image_header_encode_def write_range_def put_id_def f16.put_defined f32.put_defined f64.put_defined
        image_header_consts overwrite_def image_header_fields_def)
  with w show "image_header_encode digest h = Some (Inr (sealed digest (image_header_fields h)))" by simp
qed

lemma image_header_read_iff:
  assumes "length page = 4096"
  shows "image_header_fields_read page uuid ident img = Some h \<and> image_header_is_valid h \<longleftrightarrow>
    image_header_is_valid h \<and> ih_cache_uuid h = uuid \<and> ih_data_identity h = ident \<and> ih_image_identity h = img
    \<and> take 8 (drop 48 page) = to_le 8 (ih_data_superblock_generation h) \<and> take 8 (drop 56 page) = to_le 8 (ih_hash_seed h)
    \<and> take 8 (drop 64 page) = to_le 8 (ih_storage_fingerprint h) \<and> take 8 (drop 88 page) = to_le 8 (ih_image_generation h)
    \<and> take 8 (drop 96 page) = to_le 8 (of_nat (ih_image_file_len h) :: u64)
    \<and> take 8 (drop 104 page) = to_le 8 (of_nat (ih_index_slots h) :: u64)
    \<and> take 8 (drop 112 page) = to_le 8 (of_nat (ih_index_offset h) :: u64)
    \<and> take 8 (drop 120 page) = to_le 8 (of_nat (ih_index_len h) :: u64)
    \<and> take 8 (drop 128 page) = to_le 8 (of_nat (ih_region_table_offset h) :: u64)
    \<and> take 8 (drop 136 page) = to_le 8 (of_nat (ih_region_table_len h) :: u64)"
  (is "?L \<longleftrightarrow> ?R")
proof
  assume l: ?L
  then obtain dg seed fprint gen fl slots io il to tl where f:
    "get_u64 page 48 = Some dg" "get_u64 page 56 = Some seed" "get_u64 page 64 = Some fprint" "get_u64 page 88 = Some gen"
    "get_u64 page 96 = Some fl" "get_u64 page 104 = Some slots" "get_u64 page 112 = Some io" "get_u64 page 120 = Some il"
    "get_u64 page 128 = Some to" "get_u64 page 136 = Some tl"
    and h: "h = \<lparr>ih_cache_uuid = uuid, ih_data_identity = ident, ih_data_superblock_generation = dg, ih_hash_seed = seed,
           ih_storage_fingerprint = fprint, ih_image_identity = img, ih_image_generation = gen,
           ih_image_file_len = unat fl, ih_index_slots = unat slots, ih_index_offset = unat io,
           ih_index_len = unat il, ih_region_table_offset = unat to, ih_region_table_len = unat tl\<rparr>"
    by (auto simp: image_header_fields_read_def Option.bind_eq_Some_conv)
  show ?R using l f assms by (simp add: h get_iff)
next
  assume r: ?R
  then have b: "image_header_is_valid h" by blast
  have "get_u64 page 48 = Some (ih_data_superblock_generation h)" "get_u64 page 56 = Some (ih_hash_seed h)"
    "get_u64 page 64 = Some (ih_storage_fingerprint h)" "get_u64 page 88 = Some (ih_image_generation h)"
    "get_u64 page 96 = Some (of_nat (ih_image_file_len h))" "get_u64 page 104 = Some (of_nat (ih_index_slots h))"
    "get_u64 page 112 = Some (of_nat (ih_index_offset h))" "get_u64 page 120 = Some (of_nat (ih_index_len h))"
    "get_u64 page 128 = Some (of_nat (ih_region_table_offset h))" "get_u64 page 136 = Some (of_nat (ih_region_table_len h))"
    using r assms by (simp_all add: get_iff)
  with image_header_bounds [OF b] r show ?L by (simp add: image_header_fields_read_def unat_of_nat)
qed

lemma image_header_probe_iff:
  assumes "length page = 4096"
  shows "image_header_probe digest page = ProbeValid h \<longleftrightarrow>
    image_header_is_valid h \<and> image_header_typed h \<and> page = sealed digest (image_header_fields h)"
  (is "?L \<longleftrightarrow> ?R")
proof
  assume l: ?L
  then obtain uuid ident img where p: "take 8 page = IMAGE_MAGIC" "page_crc_matches digest page" "get_u16 page 8 = Some 1"
    "get_u16 page 10 = Some 144" "get_u32 page 12 = Some 0" "\<not> nonzero_between page 144 4092"
    and i: "get_id page 16 = Some uuid" "get_id page 32 = Some ident" "get_id page 72 = Some img"
    and r: "image_header_fields_read page uuid ident img = Some h \<and> image_header_is_valid h"
    by (auto simp: image_header_probe_def image_header_consts split: if_splits option.splits)
  have ids: "id_ok uuid \<and> take 16 (drop 16 page) = persistent_id_to_bytes uuid"
    "id_ok ident \<and> take 16 (drop 32 page) = persistent_id_to_bytes ident"
    "id_ok img \<and> take 16 (drop 72 page) = persistent_id_to_bytes img"
    using i get_id_iff [of 16 page uuid] get_id_iff [of 32 page ident] get_id_iff [of 72 page img] assms by simp_all
  note r' = r [unfolded image_header_read_iff [OF assms]]
  have "fields_at page 0 (image_header_fields h)"
    using p ids r' assms by (simp add: image_header_fields_def get_iff nonzero_between_iff id_bytes)
  moreover have t: "image_header_is_valid h" "image_header_typed h" using r' ids by (simp_all add: image_header_typed_def)
  ultimately show ?R using p(2) sealed_iff [OF assms image_header_encode_eq(2) [OF t]] by blast
next
  assume r: ?R
  then have v: "image_header_is_valid h" and f: "fields_at page 0 (image_header_fields h)" and crc: "page_crc_matches digest page"
    and i: "id_ok (ih_cache_uuid h)" "id_ok (ih_data_identity h)" "id_ok (ih_image_identity h)"
    using sealed_iff [OF assms image_header_encode_eq(2)] by (auto simp: image_header_typed_def)
  have nb: "\<not> list_all (\<lambda>byte. byte = 0) page"
    by (rule sealed_not_blank [OF f image_header_fields_def]) (simp_all add: IMAGE_MAGIC_def)
  note f' = f [unfolded image_header_fields_def, simplified id_bytes [OF i(1)] id_bytes [OF i(2)] id_bytes [OF i(3)]]
  have rd: "image_header_fields_read page (ih_cache_uuid h) (ih_data_identity h) (ih_image_identity h) = Some h"
    using image_header_read_iff [OF assms, of "ih_cache_uuid h" "ih_data_identity h" "ih_image_identity h" h] v f' i
    by (simp add: id_bytes)
  have ids: "get_id page 16 = Some (ih_cache_uuid h)" "get_id page 32 = Some (ih_data_identity h)"
    "get_id page 72 = Some (ih_image_identity h)"
    using assms i f' by (simp_all add: get_id_iff id_bytes)
  have gets: "get_u16 page 8 = Some 1" "get_u16 page 10 = Some 144" "get_u32 page 12 = Some 0"
    "\<not> nonzero_between page 144 4092" "take 8 page = IMAGE_MAGIC"
    using assms f' i by (simp_all add: get_iff nonzero_between_iff id_bytes)
  show ?L using v crc nb rd ids gets assms by (simp add: image_header_probe_def image_header_consts)
qed

section \<open>Session state records\<close>

definition STATE_MAGIC :: bytes where "STATE_MAGIC = [67, 82, 83, 84, 65, 84, 69, 0]"
definition STATE_HEADER_SIZE :: nat where "STATE_HEADER_SIZE = 120"
definition STATE_FLAG_HAS_IMAGE :: u8 where "STATE_FLAG_HAS_IMAGE = 1"

datatype session_state = SessionEmpty | SessionRunning | SessionClean

primrec session_state_byte :: "session_state \<Rightarrow> u8" where
  "session_state_byte SessionEmpty = 0"
| "session_state_byte SessionRunning = 1"
| "session_state_byte SessionClean = 2"

definition session_state_decode :: "u8 \<Rightarrow> session_state option" where
  "session_state_decode b =
     (if b = 0 then Some SessionEmpty else if b = 1 then Some SessionRunning
      else if b = 2 then Some SessionClean else None)"

record state_binding =
  bn_cache_uuid :: persistent_id
  bn_data_identity :: persistent_id
  bn_data_superblock_generation :: u64
  bn_data_file_len :: nat
  bn_hash_seed :: u64
  bn_storage_fingerprint :: u64
  bn_image :: "image_binding option"

definition binding_from_data :: "data_superblock \<Rightarrow> image_binding option \<Rightarrow> state_binding" where
  "binding_from_data d img =
     \<lparr>bn_cache_uuid = sb_cache_uuid d, bn_data_identity = sb_data_identity d,
      bn_data_superblock_generation = sb_generation d, bn_data_file_len = dg_data_file_len (sb_geometry d),
      bn_hash_seed = sb_hash_seed d, bn_storage_fingerprint = sb_storage_fingerprint d, bn_image = img\<rparr>"

definition binding_matches_data :: "state_binding \<Rightarrow> data_superblock \<Rightarrow> bool" where
  "binding_matches_data b d \<longleftrightarrow>
     bn_cache_uuid b = sb_cache_uuid d \<and> bn_data_identity b = sb_data_identity d
     \<and> bn_data_superblock_generation b = sb_generation d
     \<and> bn_data_file_len b = dg_data_file_len (sb_geometry d)
     \<and> bn_hash_seed b = sb_hash_seed d \<and> bn_storage_fingerprint b = sb_storage_fingerprint d"

definition state_binding_is_valid :: "state_binding \<Rightarrow> bool" where
  "state_binding_is_valid b \<longleftrightarrow>
     bn_data_superblock_generation b \<noteq> 0 \<and> bn_data_file_len b \<ge> RECOVERY_PAGE_SIZE
     \<and> (case bn_image b of None \<Rightarrow> True | Some img \<Rightarrow> image_binding_is_valid img)"

record state_record =
  sr_generation :: nat
  sr_state :: session_state
  sr_binding :: state_binding

definition state_record_is_valid :: "state_record \<Rightarrow> bool" where
  "state_record_is_valid r \<longleftrightarrow>
     sr_generation r \<noteq> 0 \<and> state_binding_is_valid (sr_binding r)
     \<and> (sr_state r \<noteq> SessionClean \<or> bn_image (sr_binding r) \<noteq> None)"

definition matches_clean :: "state_record \<Rightarrow> data_superblock \<Rightarrow> image_binding \<Rightarrow> bool" where
  "matches_clean r d img \<longleftrightarrow>
     sr_state r = SessionClean \<and> binding_matches_data (sr_binding r) d \<and> bn_image (sr_binding r) = Some img"

definition put_image :: "bytes \<Rightarrow> image_binding option \<Rightarrow> bytes option" where
  "put_image page img =
     (case img of None \<Rightarrow> Some page
      | Some b \<Rightarrow> do {
          page \<leftarrow> put_id page 88 (ib_identity b);
          page \<leftarrow> put_u64 page 104 (ib_generation b);
          put_u64 page 112 (of_nat (ib_file_len b))
        })"

definition state_record_encode :: "crc_stream \<Rightarrow> state_record \<Rightarrow> (codec_error + bytes) option" where
  "state_record_encode digest r =
     (if \<not> state_record_is_valid r then Some (Inl StateRecordError) else do {
     page \<leftarrow> write_range (replicate RECOVERY_PAGE_SIZE 0) 0 STATE_MAGIC;
     page \<leftarrow> put_u16 page 8 RECOVERY_FORMAT_VERSION;
     page \<leftarrow> put_u16 page 10 (of_nat STATE_HEADER_SIZE);
     page \<leftarrow> write_range page 12 [session_state_byte (sr_state r)];
     page \<leftarrow> write_range page 13 [of_bool (bn_image (sr_binding r) \<noteq> None) * STATE_FLAG_HAS_IMAGE];
     page \<leftarrow> put_u64 page 16 (of_nat (sr_generation r));
     page \<leftarrow> put_id page 24 (bn_cache_uuid (sr_binding r));
     page \<leftarrow> put_id page 40 (bn_data_identity (sr_binding r));
     page \<leftarrow> put_u64 page 56 (bn_data_superblock_generation (sr_binding r));
     page \<leftarrow> put_u64 page 64 (of_nat (bn_data_file_len (sr_binding r)));
     page \<leftarrow> put_u64 page 72 (bn_hash_seed (sr_binding r));
     page \<leftarrow> put_u64 page 80 (bn_storage_fingerprint (sr_binding r));
     page \<leftarrow> put_image page (bn_image (sr_binding r));
     page \<leftarrow> write_page_crc digest page;
     Some (Inr page)
     })"

text \<open>The image part of a state page: \<open>None\<close> when the page is corrupt.\<close>

definition probe_image :: "bytes \<Rightarrow> image_binding option option" where
  "probe_image page =
     (if page ! 13 AND STATE_FLAG_HAS_IMAGE \<noteq> 0
      then (case get_id page 88 of
          None \<Rightarrow> None
        | Some identity \<Rightarrow> Some (Some \<lparr>ib_identity = identity,
            ib_generation = (case get_u64 page 104 of None \<Rightarrow> 0 | Some g \<Rightarrow> g),
            ib_file_len = (case get_u64 page 112 of None \<Rightarrow> 0 | Some n \<Rightarrow> unat n)\<rparr>))
      else if nonzero_between page 88 STATE_HEADER_SIZE then None
      else Some None)"

definition state_fields_read ::
    "bytes \<Rightarrow> session_state \<Rightarrow> persistent_id \<Rightarrow> persistent_id \<Rightarrow> image_binding option \<Rightarrow> state_record option" where
  "state_fields_read page st uuid ident img = do {
     gen \<leftarrow> get_u64 page 16;
     data_gen \<leftarrow> get_u64 page 56;
     file_len \<leftarrow> get_u64 page 64;
     seed \<leftarrow> get_u64 page 72;
     fprint \<leftarrow> get_u64 page 80;
     Some \<lparr>sr_generation = unat gen, sr_state = st,
           sr_binding = \<lparr>bn_cache_uuid = uuid, bn_data_identity = ident, bn_data_superblock_generation = data_gen,
             bn_data_file_len = unat file_len, bn_hash_seed = seed, bn_storage_fingerprint = fprint, bn_image = img\<rparr>\<rparr>
   }"

definition state_record_probe :: "crc_stream \<Rightarrow> bytes \<Rightarrow> state_record page_probe" where
  "state_record_probe digest page =
     (if length page \<noteq> RECOVERY_PAGE_SIZE then ProbeTruncated
      else if list_all (\<lambda>byte. byte = 0) page then ProbeEmpty
      else if take (length STATE_MAGIC) page \<noteq> STATE_MAGIC then ProbeUnrecognized
      else if \<not> page_crc_matches digest page then ProbeCorrupt
      else case get_u16 page 8 of
        None \<Rightarrow> ProbeCorrupt
      | Some version \<Rightarrow>
          if version \<noteq> RECOVERY_FORMAT_VERSION then ProbeUnsupported version
          else if get_u16 page 10 \<noteq> Some (of_nat STATE_HEADER_SIZE)
             \<or> page ! 13 AND NOT STATE_FLAG_HAS_IMAGE \<noteq> 0
             \<or> nonzero_between page 14 16
             \<or> nonzero_between page STATE_HEADER_SIZE PAGE_CRC_OFFSET
          then ProbeCorrupt
          else (case session_state_decode (page ! 12) of None \<Rightarrow> ProbeCorrupt | Some st \<Rightarrow>
               (case get_id page 24 of None \<Rightarrow> ProbeCorrupt | Some uuid \<Rightarrow>
               (case get_id page 40 of None \<Rightarrow> ProbeCorrupt | Some ident \<Rightarrow>
               (case probe_image page of None \<Rightarrow> ProbeCorrupt | Some img \<Rightarrow>
               (case state_fields_read page st uuid ident img of
                  None \<Rightarrow> ProbeCorrupt
                | Some r \<Rightarrow> if state_record_is_valid r then ProbeValid r else ProbeCorrupt))))))"

definition state_record_decode :: "crc_stream \<Rightarrow> bytes \<Rightarrow> state_record option" where
  "state_record_decode digest page = (case state_record_probe digest page of ProbeValid r \<Rightarrow> Some r | _ \<Rightarrow> None)"

definition image_field :: "image_binding option \<Rightarrow> bytes" where
  "image_field img = (case img of None \<Rightarrow> replicate 32 0
     | Some b \<Rightarrow> persistent_id_to_bytes (ib_identity b) @ to_le 8 (ib_generation b) @ to_le 8 (of_nat (ib_file_len b) :: u64))"

definition state_fields :: "state_record \<Rightarrow> bytes list" where
  "state_fields r =
     [STATE_MAGIC, to_le 2 (1 :: u16), to_le 2 (120 :: u16), [session_state_byte (sr_state r)],
      [of_bool (bn_image (sr_binding r) \<noteq> None)], replicate 2 0, to_le 8 (of_nat (sr_generation r) :: u64),
      persistent_id_to_bytes (bn_cache_uuid (sr_binding r)), persistent_id_to_bytes (bn_data_identity (sr_binding r)),
      to_le 8 (bn_data_superblock_generation (sr_binding r)), to_le 8 (of_nat (bn_data_file_len (sr_binding r)) :: u64),
      to_le 8 (bn_hash_seed (sr_binding r)), to_le 8 (bn_storage_fingerprint (sr_binding r)),
      image_field (bn_image (sr_binding r)), replicate 3972 0]"

text \<open>What the types of the fields give: identities, and values of 64 bits.\<close>

definition image_typed :: "image_binding option \<Rightarrow> bool" where
  "image_typed img = (case img of None \<Rightarrow> True | Some b \<Rightarrow> id_ok (ib_identity b) \<and> ib_file_len b \<le> u64_max)"

definition state_typed :: "state_record \<Rightarrow> bool" where
  "state_typed r \<longleftrightarrow>
     sr_generation r \<le> u64_max \<and> id_ok (bn_cache_uuid (sr_binding r)) \<and> id_ok (bn_data_identity (sr_binding r))
     \<and> bn_data_file_len (sr_binding r) \<le> u64_max \<and> image_typed (bn_image (sr_binding r))"

lemma length_STATE_MAGIC [simp]: "length STATE_MAGIC = 8"
  by (simp add: STATE_MAGIC_def)

lemmas state_consts = RECOVERY_PAGE_SIZE_def PAGE_CRC_OFFSET_def RECOVERY_FORMAT_VERSION_def STATE_HEADER_SIZE_def
  STATE_FLAG_HAS_IMAGE_def

lemma length_image_field: "image_typed img \<Longrightarrow> length (image_field img) = 32"
  by (cases img) (simp_all add: image_field_def image_typed_def id_bytes)

lemma put_image_eq:
  assumes "image_typed img" "length front = 88"
  shows "put_image (front @ replicate 4008 0) img = Some (front @ image_field img @ replicate 3976 0)"
proof (cases img)
  case None
  have "replicate 4008 0 = replicate 32 0 @ replicate 3976 (0 :: u8)" by (simp flip: replicate_add)
  then show ?thesis by (simp add: None put_image_def image_field_def)
next
  case (Some b)
  then show ?thesis using assms id_bytes [of "ib_identity b"]
    by (simp add: put_image_def image_typed_def put_id_def write_range_def f64.put_defined overwrite_def image_field_def)
qed

lemma state_encode_eq:
  assumes "state_record_is_valid r" "state_typed r"
  shows "state_record_encode digest r = Some (Inr (sealed digest (state_fields r)))"
    "length (concat (state_fields r)) = 4092"
proof -
  have ids: "length (persistent_id_to_bytes (bn_cache_uuid (sr_binding r))) = 16"
    "length (persistent_id_to_bytes (bn_data_identity (sr_binding r))) = 16"
    and img: "image_typed (bn_image (sr_binding r))"
    using assms(2) by (auto simp: state_typed_def intro: id_bytes)
  note il = length_image_field [OF img]
  show len: "length (concat (state_fields r)) = 4092" using ids il by (simp add: state_fields_def)
  define front where "front = concat (take 13 (state_fields r))"
  have fl: "length front = 88" using ids by (simp add: front_def state_fields_def)
  have page: "concat (state_fields r) @ replicate 4 0 = front @ image_field (bn_image (sr_binding r)) @ replicate 3976 0"
  proof -
    have "replicate 3972 0 @ replicate 4 0 = replicate 3976 (0 :: u8)" by (simp flip: replicate_add)
    then show ?thesis by (simp add: front_def state_fields_def)
  qed
  have w: "write_page_crc digest (front @ image_field (bn_image (sr_binding r)) @ replicate 3976 0) = Some (sealed digest (state_fields r))"
    unfolding page [symmetric] by (rule write_page_crc_eq) (use len in simp_all)
  have z: "replicate 2 0 = [0, 0 :: u8]" by (simp add: numeral_2_eq_2)
  have "state_record_encode digest r = do {
      page \<leftarrow> put_image (front @ replicate 4008 0) (bn_image (sr_binding r));
      page \<leftarrow> write_page_crc digest page; Some (Inr page) }"
    using assms(1) ids
    by (simp add: state_record_encode_def write_range_def put_id_def f16.put_defined f64.put_defined state_consts
        overwrite_def front_def state_fields_def z)
  with w show "state_record_encode digest r = Some (Inr (sealed digest (state_fields r)))"
    by (simp add: put_image_eq [OF img fl])
qed

lemma unat_u64: "unat (w :: u64) < 2 ^ 64"
  using unsigned_less [of w] by simp

lemma flag_bit: "(b :: u8) AND NOT 1 = 0 \<longleftrightarrow> b = 0 \<or> b = 1"
proof
  assume a: "b AND NOT 1 = 0"
  have "b = (b AND 1) OR (b AND NOT 1)" by (rule bit_word_eqI) (auto simp: bit_simps)
  then have "b = b AND 1" using a by simp
  then show "b = 0 \<or> b = 1" by (metis and_one_eq parity_cases odd_iff_mod_2_eq_one even_iff_mod_2_eq_zero)
qed auto

lemma probe_image_iff:
  assumes len: "length page = 4096" and flag: "page ! 13 AND NOT STATE_FLAG_HAS_IMAGE = 0"
  shows "probe_image page = Some img \<longleftrightarrow>
    image_typed img \<and> page ! 13 = of_bool (img \<noteq> None) \<and> take 32 (drop 88 page) = image_field img"
proof -
  have fl: "page ! 13 = 0 \<or> page ! 13 = 1" using flag unfolding STATE_FLAG_HAS_IMAGE_def flag_bit .
  show ?thesis
  proof (cases img)
    case None
    then show ?thesis using fl len
      by (auto simp: probe_image_def state_consts image_typed_def image_field_def nonzero_between_iff split: option.splits)
  next
    case (Some b)
    have split: "take 32 (drop 88 page) = image_field img \<longleftrightarrow>
        take 16 (drop 88 page) = persistent_id_to_bytes (ib_identity b) \<and> take 8 (drop 104 page) = to_le 8 (ib_generation b)
        \<and> take 8 (drop 112 page) = to_le 8 (of_nat (ib_file_len b) :: u64)" if "id_ok (ib_identity b)"
      using fields_at_iff [of 88 "[persistent_id_to_bytes (ib_identity b), to_le 8 (ib_generation b), to_le 8 (of_nat (ib_file_len b) :: u64)]" page]
        len id_bytes [OF that] by (simp add: Some image_field_def)
    obtain g n where gn: "get_u64 page 104 = Some g" "get_u64 page 112 = Some n" using get_total(3) [OF len, of 104] get_total(3) [OF len, of 112] by auto
    have "n = of_nat (ib_file_len b) \<and> ib_file_len b \<le> u64_max \<longleftrightarrow> unat n = ib_file_len b"
    proof
      assume u: "unat n = ib_file_len b"
      show "n = of_nat (ib_file_len b) \<and> ib_file_len b \<le> u64_max"
        unfolding u [symmetric] using unat_u64 [of n] by (simp add: num_bounds)
    qed (auto simp: unat_of_nat num_bounds)
    moreover have "take 8 (drop 104 page) = to_le 8 g" "take 8 (drop 112 page) = to_le 8 n" using gn len by (simp_all add: get_iff)
    moreover have "to_le 8 (x :: u64) = to_le 8 y \<longleftrightarrow> x = y" for x y
      using from_le_iff(3) [of "to_le 8 x" y] from_le_to_le [of 8 x] by simp
    moreover have "get_id page 88 = Some (ib_identity b) \<longleftrightarrow>
        id_ok (ib_identity b) \<and> take 16 (drop 88 page) = persistent_id_to_bytes (ib_identity b)"
      by (rule get_id_iff) (simp add: len)
    ultimately show ?thesis using fl split gn
      by (cases b; cases "get_id page 88") (auto simp: Some probe_image_def state_consts image_typed_def)
  qed
qed

lemma byte_field: "off < length page \<Longrightarrow> take (Suc 0) (drop off page) = [page ! off]"
  by (simp add: take_Suc_conv_app_nth)

lemma session_state_decode_iff: "session_state_decode b = Some st \<longleftrightarrow> b = session_state_byte st"
  by (cases st) (auto simp: session_state_decode_def)

lemma state_read_iff:
  assumes "length page = 4096"
  shows "state_fields_read page st uuid ident img = Some r \<longleftrightarrow>
    sr_state r = st \<and> bn_cache_uuid (sr_binding r) = uuid \<and> bn_data_identity (sr_binding r) = ident \<and> bn_image (sr_binding r) = img
    \<and> sr_generation r \<le> u64_max \<and> bn_data_file_len (sr_binding r) \<le> u64_max
    \<and> take 8 (drop 16 page) = to_le 8 (of_nat (sr_generation r) :: u64)
    \<and> take 8 (drop 56 page) = to_le 8 (bn_data_superblock_generation (sr_binding r))
    \<and> take 8 (drop 64 page) = to_le 8 (of_nat (bn_data_file_len (sr_binding r)) :: u64)
    \<and> take 8 (drop 72 page) = to_le 8 (bn_hash_seed (sr_binding r))
    \<and> take 8 (drop 80 page) = to_le 8 (bn_storage_fingerprint (sr_binding r))"
  (is "?L \<longleftrightarrow> ?R")
proof
  assume ?L
  then obtain gen dg fl seed fprint where f:
    "get_u64 page 16 = Some gen" "get_u64 page 56 = Some dg" "get_u64 page 64 = Some fl" "get_u64 page 72 = Some seed"
    "get_u64 page 80 = Some fprint"
    and r: "r = \<lparr>sr_generation = unat gen, sr_state = st,
           sr_binding = \<lparr>bn_cache_uuid = uuid, bn_data_identity = ident, bn_data_superblock_generation = dg,
             bn_data_file_len = unat fl, bn_hash_seed = seed, bn_storage_fingerprint = fprint, bn_image = img\<rparr>\<rparr>"
    by (auto simp: state_fields_read_def Option.bind_eq_Some_conv)
  show ?R using f assms unat_u64 [of gen] unat_u64 [of fl] by (simp add: r get_iff num_bounds)
next
  assume r: ?R
  have "get_u64 page 16 = Some (of_nat (sr_generation r))" "get_u64 page 56 = Some (bn_data_superblock_generation (sr_binding r))"
    "get_u64 page 64 = Some (of_nat (bn_data_file_len (sr_binding r)))" "get_u64 page 72 = Some (bn_hash_seed (sr_binding r))"
    "get_u64 page 80 = Some (bn_storage_fingerprint (sr_binding r))"
    using r assms by (simp_all add: get_iff)
  moreover have "unat (of_nat (sr_generation r) :: u64) = sr_generation r"
    "unat (of_nat (bn_data_file_len (sr_binding r)) :: u64) = bn_data_file_len (sr_binding r)"
    using r by (simp_all add: unat_of_nat num_bounds)
  ultimately show ?L using r by (simp add: state_fields_read_def)
qed

lemma state_probe_iff:
  assumes "length page = 4096"
  shows "state_record_probe digest page = ProbeValid r \<longleftrightarrow>
    state_record_is_valid r \<and> state_typed r \<and> page = sealed digest (state_fields r)"
  (is "?L \<longleftrightarrow> ?R")
proof
  assume l: ?L
  then obtain st uuid ident img where p: "take 8 page = STATE_MAGIC" "page_crc_matches digest page" "get_u16 page 8 = Some 1"
    "get_u16 page 10 = Some 120" "page ! 13 AND NOT STATE_FLAG_HAS_IMAGE = 0" "\<not> nonzero_between page 14 16"
    "\<not> nonzero_between page 120 4092"
    and i: "session_state_decode (page ! 12) = Some st" "get_id page 24 = Some uuid" "get_id page 40 = Some ident"
    "probe_image page = Some img"
    and r: "state_fields_read page st uuid ident img = Some r" "state_record_is_valid r"
    by (auto simp: state_record_probe_def state_consts split: if_splits option.splits)
  have ids: "id_ok uuid \<and> take 16 (drop 24 page) = persistent_id_to_bytes uuid"
    "id_ok ident \<and> take 16 (drop 40 page) = persistent_id_to_bytes ident"
    using i get_id_iff [of 24 page uuid] get_id_iff [of 40 page ident] assms by simp_all
  note r' = r(1) [unfolded state_read_iff [OF assms]]
  note im = i(4) [unfolded probe_image_iff [OF assms p(5)]]
  have kind: "page ! 12 = session_state_byte (sr_state r)" using i(1) r' by (simp add: session_state_decode_iff)
  have "fields_at page 0 (state_fields r)"
    using p ids r' assms im kind
    by (simp add: state_fields_def get_iff nonzero_between_iff id_bytes byte_field length_image_field)
  moreover have t: "state_record_is_valid r" "state_typed r" using r r' ids im by (simp_all add: state_typed_def)
  ultimately show ?R using p(2) sealed_iff [OF assms state_encode_eq(2) [OF t]] by blast
next
  assume r: ?R
  then have v: "state_record_is_valid r" and f: "fields_at page 0 (state_fields r)" and crc: "page_crc_matches digest page"
    and i: "id_ok (bn_cache_uuid (sr_binding r))" "id_ok (bn_data_identity (sr_binding r))"
    and im: "image_typed (bn_image (sr_binding r))" and b: "sr_generation r \<le> u64_max" "bn_data_file_len (sr_binding r) \<le> u64_max"
    using sealed_iff [OF assms state_encode_eq(2)] by (auto simp: state_typed_def)
  have nb: "\<not> list_all (\<lambda>byte. byte = 0) page"
    by (rule sealed_not_blank [OF f state_fields_def]) (simp_all add: STATE_MAGIC_def)
  note f' = f [unfolded state_fields_def, simplified id_bytes [OF i(1)] id_bytes [OF i(2)] length_image_field [OF im]]
  have bytes: "page ! 12 = session_state_byte (sr_state r)" "page ! 13 = of_bool (bn_image (sr_binding r) \<noteq> None)"
    using f' i im assms by (simp_all add: id_bytes byte_field length_image_field)
  then have flag: "page ! 13 AND NOT STATE_FLAG_HAS_IMAGE = 0" by (simp add: STATE_FLAG_HAS_IMAGE_def)
  have rd: "state_fields_read page (sr_state r) (bn_cache_uuid (sr_binding r)) (bn_data_identity (sr_binding r)) (bn_image (sr_binding r)) = Some r"
    unfolding state_read_iff [OF assms] using b f' i im by (simp add: id_bytes length_image_field)
  have pi: "probe_image page = Some (bn_image (sr_binding r))"
    unfolding probe_image_iff [OF assms flag] using bytes im f' i by (simp add: id_bytes length_image_field)
  have ids: "get_id page 24 = Some (bn_cache_uuid (sr_binding r))" "get_id page 40 = Some (bn_data_identity (sr_binding r))"
    using assms i f' im by (simp_all add: get_id_iff id_bytes length_image_field)
  have gets: "get_u16 page 8 = Some 1" "get_u16 page 10 = Some 120" "\<not> nonzero_between page 14 16"
    "\<not> nonzero_between page 120 4092" "take 8 page = STATE_MAGIC"
    using assms f' i im by (simp_all add: get_iff nonzero_between_iff id_bytes length_image_field)
  have kind: "session_state_decode (page ! 12) = Some (sr_state r)" using bytes(1) by (simp add: session_state_decode_iff)
  show ?L unfolding state_record_probe_def state_consts
    using v crc nb rd ids gets assms kind pi flag by (simp add: state_consts)
qed

section \<open>The contract of a page codec\<close>

locale page_codec =
  fixes digest :: crc_stream
    and encode :: "'a \<Rightarrow> (codec_error + bytes) option"
    and probe :: "bytes \<Rightarrow> 'a page_probe"
    and valid typed :: "'a \<Rightarrow> bool"
    and fields :: "'a \<Rightarrow> bytes list"
  assumes encode_valid: "valid a \<Longrightarrow> typed a \<Longrightarrow> encode a = Some (Inr (sealed digest (fields a)))"
    and encode_invalid: "\<not> valid a \<Longrightarrow> \<exists>e. encode a = Some (Inl e)"
    and fields_length: "valid a \<Longrightarrow> typed a \<Longrightarrow> length (concat (fields a)) = 4092"
    and probe_page: "length page = 4096 \<Longrightarrow>
          probe page = ProbeValid a \<longleftrightarrow> valid a \<and> typed a \<and> page = sealed digest (fields a)"
    and probe_short: "length page \<noteq> 4096 \<Longrightarrow> probe page = ProbeTruncated"
begin

lemma sealed_length: "valid a \<Longrightarrow> typed a \<Longrightarrow> length (sealed digest (fields a)) = 4096"
  by (simp add: sealed_def fields_length)

lemma probe_iff: "probe page = ProbeValid a \<longleftrightarrow> valid a \<and> typed a \<and> page = sealed digest (fields a)"
proof (cases "length page = 4096")
  case False
  then show ?thesis using probe_short [of page] sealed_length by auto
qed (simp add: probe_page)

lemma probe_inverts_encode: "typed a \<Longrightarrow> encode a = Some (Inr page) \<longleftrightarrow> probe page = ProbeValid a"
  unfolding probe_iff using encode_valid [of a] encode_invalid [of a] by (cases "valid a") auto

lemma probe_typed: "probe page = ProbeValid a \<Longrightarrow> typed a \<and> valid a"
  by (simp add: probe_iff)

lemma encode_total: "typed a \<Longrightarrow> encode a \<noteq> None"
  using encode_valid [of a] encode_invalid [of a] by (cases "valid a") auto

end

interpretation superblock_page: page_codec digest "superblock_encode digest" "superblock_probe digest"
    superblock_is_valid superblock_typed superblock_fields for digest
  by unfold_locales
     (simp_all add: superblock_encode_eq superblock_probe_iff, simp_all add: superblock_encode_def superblock_probe_def RECOVERY_PAGE_SIZE_def)

interpretation image_header_page: page_codec digest "image_header_encode digest" "image_header_probe digest"
    image_header_is_valid image_header_typed image_header_fields for digest
  by unfold_locales
     (simp_all add: image_header_encode_eq image_header_probe_iff, simp_all add: image_header_encode_def image_header_probe_def RECOVERY_PAGE_SIZE_def)

interpretation state_page: page_codec digest "state_record_encode digest" "state_record_probe digest"
    state_record_is_valid state_typed state_fields for digest
  by unfold_locales
     (simp_all add: state_encode_eq state_probe_iff, simp_all add: state_record_encode_def state_record_probe_def RECOVERY_PAGE_SIZE_def)

section \<open>Properties\<close>

definition sample_id :: persistent_id where
  "sample_id = PersistentId (replicate 16 1)"

text \<open>
  C25 (roundtrip): the three recovery page codecs are exact. A page probes as a superblock, an image
  header or a state record exactly when encoding that value produces those very bytes, so every
  encoded page reads back unchanged and no other page is accepted as it; and the encoders never
  panic.
\<close>

theorem recovery_page_codecs:
  assumes "superblock_typed s" "image_header_typed h" "state_typed r"
  shows "(superblock_encode digest s = Some (Inr page) \<longleftrightarrow> superblock_probe digest page = ProbeValid s)
    \<and> (image_header_encode digest h = Some (Inr page) \<longleftrightarrow> image_header_probe digest page = ProbeValid h)
    \<and> (state_record_encode digest r = Some (Inr page) \<longleftrightarrow> state_record_probe digest page = ProbeValid r)
    \<and> superblock_encode digest s \<noteq> None \<and> image_header_encode digest h \<noteq> None \<and> state_record_encode digest r \<noteq> None"
  using assms superblock_page.probe_inverts_encode superblock_page.encode_total
    image_header_page.probe_inverts_encode image_header_page.encode_total
    state_page.probe_inverts_encode state_page.encode_total by blast

definition sample_superblock :: data_superblock where
  "sample_superblock = \<lparr>sb_generation = 1, sb_cache_uuid = sample_id, sb_data_identity = sample_id,
     sb_geometry = \<lparr>dg_data_file_len = 12288, dg_region_size = 4096, dg_region_count = 2\<rparr>,
     sb_hash_seed = 7, sb_storage_fingerprint = 9\<rparr>"

definition sample_header :: recovery_image_header where
  "sample_header = \<lparr>ih_cache_uuid = sample_id, ih_data_identity = sample_id, ih_data_superblock_generation = 1,
     ih_hash_seed = 7, ih_storage_fingerprint = 9, ih_image_identity = sample_id, ih_image_generation = 3,
     ih_image_file_len = 12288, ih_index_slots = 500, ih_index_offset = 4096, ih_index_len = 4096,
     ih_region_table_offset = 8192, ih_region_table_len = 4096\<rparr>"

definition sample_state :: state_record where
  "sample_state = \<lparr>sr_generation = 5, sr_state = SessionClean,
     sr_binding = binding_from_data sample_superblock (Some (header_image_binding sample_header))\<rparr>"

lemma sample_id_ok: "id_ok sample_id"
  by (simp add: sample_id_def)

lemma sample_typed: "superblock_typed sample_superblock" "image_header_typed sample_header" "state_typed sample_state"
  by (simp_all add: sample_superblock_def sample_header_def sample_state_def superblock_typed_def image_header_typed_def
      state_typed_def image_typed_def binding_from_data_def header_image_binding_def sample_id_ok num_bounds)

theorem recovery_page_codecs_witness:
  "\<exists>page. state_record_encode (\<lambda>_. 5) sample_state = Some (Inr page)
     \<and> state_record_probe (\<lambda>_. 5) page = ProbeValid sample_state"
proof -
  have "state_record_is_valid sample_state"
    by (simp add: sample_state_def sample_superblock_def sample_header_def state_record_is_valid_def state_binding_is_valid_def
        image_binding_is_valid_def binding_from_data_def header_image_binding_def RECOVERY_PAGE_SIZE_def)
  then obtain page where "state_record_encode (\<lambda>_. 5) sample_state = Some (Inr page)"
    using state_page.encode_valid sample_typed(3) by blast
  with recovery_page_codecs [OF sample_typed, of "\<lambda>_. 5" page] show ?thesis by blast
qed

end
