(* ===== verification/Recovery_Session.thy ===== *)
theory Recovery_Session
  imports Recovery_Pages
begin

text \<open>
  The session protocol of \<^verbatim>\<open>region/recovery/mod.rs\<close>: the two-slot state file, the selection of the
  latest state, the preparation of the next state and of the startup barrier, and the check that an
  image is the one a clean state names. A torn or lost page is one that probes neither as a valid
  nor as an unsupported record.
\<close>

section \<open>Selection\<close>

definition STATE_SLOT_COUNT :: nat where "STATE_SLOT_COUNT = 2"

record selected_state =
  sel_slot :: nat
  sel_record :: state_record

datatype state_selection_error =
    ConflictingGeneration nat
  | UnsupportedStateVersion nat u16

fun latest_state_loop :: "crc_stream \<Rightarrow> nat \<Rightarrow> bytes list \<Rightarrow> selected_state option \<Rightarrow> state_selection_error + selected_state option" where
  "latest_state_loop digest slot [] selected = Inr selected"
| "latest_state_loop digest slot (page # pages) selected =
     (case state_record_probe digest page of
        ProbeValid r \<Rightarrow>
          (let candidate = \<lparr>sel_slot = slot, sel_record = r\<rparr> in
           case selected of
             None \<Rightarrow> latest_state_loop digest (Suc slot) pages (Some candidate)
           | Some current \<Rightarrow>
               if sr_generation r > sr_generation (sel_record current)
               then latest_state_loop digest (Suc slot) pages (Some candidate)
               else if sr_generation r = sr_generation (sel_record current) \<and> r \<noteq> sel_record current
               then Inl (ConflictingGeneration (sr_generation r))
               else latest_state_loop digest (Suc slot) pages selected)
      | ProbeUnsupported version \<Rightarrow> Inl (UnsupportedStateVersion slot version)
      | _ \<Rightarrow> latest_state_loop digest (Suc slot) pages selected)"

definition latest_state :: "crc_stream \<Rightarrow> bytes list \<Rightarrow> state_selection_error + selected_state option" where
  "latest_state digest pages = latest_state_loop digest 0 pages None"

definition clean_image_matches ::
    "state_record \<Rightarrow> data_superblock \<Rightarrow> recovery_image_header \<Rightarrow> nat \<Rightarrow> nat \<Rightarrow> nat \<Rightarrow> bool" where
  "clean_image_matches st d header actual_file_len expected_slots expected_index_len \<longleftrightarrow>
     image_header_is_valid header
     \<and> recovery_image_index_len expected_slots = Some expected_index_len
     \<and> matches_clean st d (header_image_binding header)
     \<and> header_matches_data header d
     \<and> ih_image_file_len header = actual_file_len
     \<and> ih_index_slots header = expected_slots
     \<and> ih_index_offset header = RECOVERY_IMAGE_INDEX_OFFSET
     \<and> ih_index_len header = expected_index_len"

section \<open>Preparation\<close>

record state_page_write =
  spw_slot :: nat
  spw_record :: state_record
  spw_page :: bytes

definition write_offset :: "state_page_write \<Rightarrow> nat" where
  "write_offset w = spw_slot w * RECOVERY_PAGE_SIZE"

datatype prepare_state_error = GenerationExhausted | InvalidStateSlot nat | InvalidStateRecord

definition next_slot_generation :: "selected_state option \<Rightarrow> prepare_state_error + nat \<times> nat" where
  "next_slot_generation current =
     (case current of
        None \<Rightarrow> Inr (0, 1)
      | Some c \<Rightarrow>
          if sel_slot c \<ge> STATE_SLOT_COUNT then Inl (InvalidStateSlot (sel_slot c))
          else bind_result (ok_or GenerationExhausted (checked_add u64_max (sr_generation (sel_record c)) 1)) (\<lambda>gen.
               Inr (1 - sel_slot c, gen)))"

definition prepare_next_state ::
    "crc_stream \<Rightarrow> selected_state option \<Rightarrow> session_state \<Rightarrow> state_binding \<Rightarrow> (prepare_state_error + state_page_write) option" where
  "prepare_next_state digest current st binding =
     (case next_slot_generation current of
        Inl e \<Rightarrow> Some (Inl e)
      | Inr (slot, gen) \<Rightarrow>
          let r = \<lparr>sr_generation = gen, sr_state = st, sr_binding = binding\<rparr> in
          map_option (\<lambda>res. case res of
              Inl _ \<Rightarrow> Inl InvalidStateRecord
            | Inr page \<Rightarrow> Inr \<lparr>spw_slot = slot, spw_record = r, spw_page = page\<rparr>)
            (state_record_encode digest r))"

record running_barrier_write =
  rb_first :: state_page_write
  rb_second :: state_page_write

definition prepare_running_barrier ::
    "crc_stream \<Rightarrow> selected_state option \<Rightarrow> state_binding \<Rightarrow> (prepare_state_error + running_barrier_write) option" where
  "prepare_running_barrier digest current binding =
     (case prepare_next_state digest current SessionRunning binding of
        None \<Rightarrow> None
      | Some (Inl e) \<Rightarrow> Some (Inl e)
      | Some (Inr w1) \<Rightarrow>
     (case prepare_next_state digest (Some \<lparr>sel_slot = spw_slot w1, sel_record = spw_record w1\<rparr>) SessionRunning binding of
        None \<Rightarrow> None
      | Some (Inl e) \<Rightarrow> Some (Inl e)
      | Some (Inr w2) \<Rightarrow> Some (Inr \<lparr>rb_first = w1, rb_second = w2\<rparr>)))"

section \<open>The file after a write\<close>

text \<open>
  The state file is its two pages. A page write that was interrupted leaves some page that is not
  readable; \<open>unreadable\<close> says so of what a reader sees, since the checksum is a parameter here.
\<close>

definition put_page :: "state_page_write \<Rightarrow> bytes list \<Rightarrow> bytes list" where
  "put_page w pages = pages[spw_slot w := spw_page w]"

definition unreadable :: "crc_stream \<Rightarrow> bytes \<Rightarrow> bool" where
  "unreadable digest page \<longleftrightarrow>
     (\<forall>r. state_record_probe digest page \<noteq> ProbeValid r) \<and> (\<forall>v. state_record_probe digest page \<noteq> ProbeUnsupported v)"

definition binding_typed :: "state_binding \<Rightarrow> bool" where
  "binding_typed b \<longleftrightarrow> id_ok (bn_cache_uuid b) \<and> id_ok (bn_data_identity b)
     \<and> bn_data_file_len b \<le> u64_max \<and> image_typed (bn_image b)"

lemma unreadable_step:
  "unreadable digest page \<Longrightarrow> latest_state_loop digest slot (page # pages) selected = latest_state_loop digest (Suc slot) pages selected"
  by (cases "state_record_probe digest page") (auto simp: unreadable_def)

lemma readable_cases:
  obtains (valid) r where "state_record_probe digest page = ProbeValid r"
    | (unsupported) v where "state_record_probe digest page = ProbeUnsupported v"
    | (unreadable) "unreadable digest page"
  by (auto simp: unreadable_def)

lemma prepare_next_iff:
  assumes typed: "binding_typed binding"
  shows "prepare_next_state digest current st binding = Some (Inr w) \<longleftrightarrow>
    (\<exists>slot gen. next_slot_generation current = Inr (slot, gen) \<and> spw_slot w = slot
       \<and> spw_record w = \<lparr>sr_generation = gen, sr_state = st, sr_binding = binding\<rparr>
       \<and> state_record_probe digest (spw_page w) = ProbeValid (spw_record w))"
proof -
  have t: "state_typed \<lparr>sr_generation = gen, sr_state = st, sr_binding = binding\<rparr>"
    if "next_slot_generation current = Inr (slot, gen)" for slot gen
    using that typed by (auto simp: state_typed_def binding_typed_def next_slot_generation_def num_bounds split: option.splits if_splits)
  show ?thesis
  proof (cases "next_slot_generation current")
    case (Inr a)
    obtain slot gen where a: "a = (slot, gen)" by (cases a)
    note eq = state_page.probe_inverts_encode [OF t [OF Inr [unfolded a]], of digest "spw_page w"]
    let ?r = "\<lparr>sr_generation = gen, sr_state = st, sr_binding = binding\<rparr>"
    show ?thesis
    proof (cases "state_record_encode digest ?r")
      case None
      with eq show ?thesis by (auto simp: prepare_next_state_def Inr a)
    next
      case (Some res)
      with eq show ?thesis by (cases res; cases w) (auto simp: prepare_next_state_def Inr a)
    qed
  qed (simp add: prepare_next_state_def)
qed

lemma prepare_next_total: "binding_typed binding \<Longrightarrow> prepare_next_state digest current st binding \<noteq> None"
proof -
  assume typed: "binding_typed binding"
  have "state_typed \<lparr>sr_generation = gen, sr_state = st, sr_binding = binding\<rparr>"
    if "next_slot_generation current = Inr (slot, gen)" for slot gen
    using that typed by (auto simp: state_typed_def binding_typed_def next_slot_generation_def num_bounds split: option.splits if_splits)
  then show ?thesis using state_page.encode_total
    by (auto simp: prepare_next_state_def Let_def split: sum.splits)
qed

lemma latest_two:
  "latest_state digest [p, q] = Inr current \<longleftrightarrow>
     (case state_record_probe digest p of
        ProbeUnsupported v \<Rightarrow> False
      | ProbeValid r \<Rightarrow>
          (case state_record_probe digest q of
             ProbeUnsupported v \<Rightarrow> False
           | ProbeValid r' \<Rightarrow>
               if sr_generation r' > sr_generation r then current = Some \<lparr>sel_slot = 1, sel_record = r'\<rparr>
               else (sr_generation r' = sr_generation r \<longrightarrow> r' = r) \<and> current = Some \<lparr>sel_slot = 0, sel_record = r\<rparr>
           | _ \<Rightarrow> current = Some \<lparr>sel_slot = 0, sel_record = r\<rparr>)
      | _ \<Rightarrow>
          (case state_record_probe digest q of
             ProbeUnsupported v \<Rightarrow> False
           | ProbeValid r' \<Rightarrow> current = Some \<lparr>sel_slot = 1, sel_record = r'\<rparr>
           | _ \<Rightarrow> current = None))"
  by (auto simp: latest_state_def Let_def split: page_probe.splits)

lemma selected_cases:
  assumes "latest_state digest [p, q] = Inr current"
  shows "(case current of
      None \<Rightarrow> unreadable digest p \<and> unreadable digest q
    | Some c \<Rightarrow> sel_slot c < 2 \<and> state_record_probe digest ([p, q] ! sel_slot c) = ProbeValid (sel_record c)
        \<and> (unreadable digest ([p, q] ! (1 - sel_slot c))
           \<or> (\<exists>r. state_record_probe digest ([p, q] ! (1 - sel_slot c)) = ProbeValid r
                \<and> (sr_generation r < sr_generation (sel_record c) \<or> r = sel_record c))))"
  using assms by (auto simp: latest_two unreadable_def split: page_probe.splits if_splits)

lemma slot_choice: "n < 2 \<Longrightarrow> n = 0 \<or> n = (1 :: nat)"
  by auto

lemma next_state_selected:
  assumes cur: "latest_state digest [p, q] = Inr current" and typed: "binding_typed b"
    and w: "prepare_next_state digest current st b = Some (Inr w)"
  shows "latest_state digest (put_page w [p, q]) = Inr (Some \<lparr>sel_slot = spw_slot w, sel_record = spw_record w\<rparr>)"
    "unreadable digest torn \<Longrightarrow> latest_state digest ([p, q][spw_slot w := torn]) = Inr current"
proof -
  from w [unfolded prepare_next_iff [OF typed]] obtain slot gen where
    n: "next_slot_generation current = Inr (slot, gen)" "spw_slot w = slot"
    "spw_record w = \<lparr>sr_generation = gen, sr_state = st, sr_binding = b\<rparr>"
    "state_record_probe digest (spw_page w) = ProbeValid (spw_record w)" by blast
  note sel = selected_cases [OF cur]
  show "latest_state digest (put_page w [p, q]) = Inr (Some \<lparr>sel_slot = spw_slot w, sel_record = spw_record w\<rparr>)"
  proof (cases current)
    case None
    then show ?thesis using sel n
      by (auto simp: put_page_def next_slot_generation_def latest_two unreadable_def split: page_probe.splits)
  next
    case (Some c)
    then have c: "sel_slot c < 2" "slot = 1 - sel_slot c" "gen = sr_generation (sel_record c) + 1"
      "state_record_probe digest ([p, q] ! sel_slot c) = ProbeValid (sel_record c)"
      using sel n(1) by (auto simp: next_slot_generation_def STATE_SLOT_COUNT_def split: if_splits)
    from slot_choice [OF c(1)] show ?thesis
      using c n by (auto simp: put_page_def latest_two split: page_probe.splits)
  qed
  assume torn: "unreadable digest torn"
  show "latest_state digest ([p, q][spw_slot w := torn]) = Inr current"
  proof (cases current)
    case None
    then show ?thesis using sel n torn
      by (auto simp: next_slot_generation_def latest_two unreadable_def split: page_probe.splits)
  next
    case (Some c)
    then have c: "sel_slot c < 2" "slot = 1 - sel_slot c"
      "state_record_probe digest ([p, q] ! sel_slot c) = ProbeValid (sel_record c)"
      using sel n(1) by (auto simp: next_slot_generation_def STATE_SLOT_COUNT_def split: if_splits)
    from slot_choice [OF c(1)] show ?thesis
      using c n(2) torn Some by (cases c) (auto simp: latest_two unreadable_def split: page_probe.splits)
  qed
qed

lemma barrier_pages:
  assumes typed: "binding_typed b" and rb: "prepare_running_barrier digest current b = Some (Inr rb)"
  shows "spw_slot (rb_first rb) < 2" "spw_slot (rb_second rb) = 1 - spw_slot (rb_first rb)"
    "state_record_probe digest (spw_page (rb_first rb)) = ProbeValid (spw_record (rb_first rb))"
    "state_record_probe digest (spw_page (rb_second rb)) = ProbeValid (spw_record (rb_second rb))"
    "sr_state (spw_record (rb_first rb)) = SessionRunning" "sr_state (spw_record (rb_second rb)) = SessionRunning"
    "sr_generation (spw_record (rb_second rb)) = sr_generation (spw_record (rb_first rb)) + 1"
proof -
  from rb obtain w1 w2 where w: "prepare_next_state digest current SessionRunning b = Some (Inr w1)"
    "prepare_next_state digest (Some \<lparr>sel_slot = spw_slot w1, sel_record = spw_record w1\<rparr>) SessionRunning b = Some (Inr w2)"
    "rb = \<lparr>rb_first = w1, rb_second = w2\<rparr>"
    by (auto simp: prepare_running_barrier_def split: option.splits sum.splits)
  note n = w(1,2) [unfolded prepare_next_iff [OF typed]]
  show "spw_slot (rb_first rb) < 2" "spw_slot (rb_second rb) = 1 - spw_slot (rb_first rb)"
    "state_record_probe digest (spw_page (rb_first rb)) = ProbeValid (spw_record (rb_first rb))"
    "state_record_probe digest (spw_page (rb_second rb)) = ProbeValid (spw_record (rb_second rb))"
    "sr_state (spw_record (rb_first rb)) = SessionRunning" "sr_state (spw_record (rb_second rb)) = SessionRunning"
    "sr_generation (spw_record (rb_second rb)) = sr_generation (spw_record (rb_first rb)) + 1"
    using n w(3) by (auto simp: next_slot_generation_def STATE_SLOT_COUNT_def split: if_splits)
qed

section \<open>Properties\<close>

text \<open>
  C26 (safety): a state transition is atomic. Prepared from the state a reader selects, the next
  state is the one selected once its page is written; and if the write is torn or lost, the reader
  still selects the old state, because the write goes to the other slot.
\<close>

theorem state_transition_atomic:
  assumes "latest_state digest [p, q] = Inr current" "binding_typed b"
    and "prepare_next_state digest current st b = Some (Inr w)"
  shows "latest_state digest (put_page w [p, q]) = Inr (Some \<lparr>sel_slot = spw_slot w, sel_record = spw_record w\<rparr>)
    \<and> sr_state (spw_record w) = st \<and> sr_binding (spw_record w) = b
    \<and> (\<forall>torn. unreadable digest torn \<longrightarrow> latest_state digest ([p, q][spw_slot w := torn]) = Inr current)"
  using next_state_selected [OF assms] assms(3) [unfolded prepare_next_iff [OF assms(2)]] by auto

definition blank_page :: bytes where "blank_page = replicate 4096 0"

lemma blank_unreadable: "unreadable digest blank_page"
  by (simp add: unreadable_def blank_page_def state_record_probe_def RECOVERY_PAGE_SIZE_def list_all_iff)

lemma sample_binding: "binding_typed (sr_binding sample_state)"
  "state_record_is_valid \<lparr>sr_generation = Suc 0, sr_state = st, sr_binding = sr_binding sample_state\<rparr>"
  "state_record_is_valid \<lparr>sr_generation = 2, sr_state = st, sr_binding = sr_binding sample_state\<rparr>"
  using sample_typed(3)
  by (simp_all add: binding_typed_def state_typed_def sample_state_def sample_superblock_def sample_header_def state_record_is_valid_def
      state_binding_is_valid_def image_binding_is_valid_def binding_from_data_def header_image_binding_def RECOVERY_PAGE_SIZE_def)

lemma sample_next:
  "\<exists>w. prepare_next_state (\<lambda>_. 5) None st (sr_binding sample_state) = Some (Inr w)"
proof -
  let ?r = "\<lparr>sr_generation = Suc 0, sr_state = st, sr_binding = sr_binding sample_state\<rparr>"
  have "state_typed ?r" using sample_binding(1) by (simp add: state_typed_def binding_typed_def num_bounds)
  with sample_binding(2) have "state_record_encode (\<lambda>_. 5) ?r = Some (Inr (sealed (\<lambda>_. 5) (state_fields ?r)))"
    by (intro state_page.encode_valid)
  then show ?thesis by (simp add: prepare_next_state_def next_slot_generation_def Let_def)
qed

theorem state_transition_atomic_witness:
  "\<exists>w. latest_state (\<lambda>_. 5) (put_page w [blank_page, blank_page])
         = Inr (Some \<lparr>sel_slot = spw_slot w, sel_record = spw_record w\<rparr>)
       \<and> sr_state (spw_record w) = SessionClean"
proof -
  have cur: "latest_state (\<lambda>_. 5) [blank_page, blank_page] = Inr None"
    unfolding latest_state_def by (simp only: unreadable_step [OF blank_unreadable] latest_state_loop.simps(1))
  from sample_next obtain w where w: "prepare_next_state (\<lambda>_. 5) None SessionClean (sr_binding sample_state) = Some (Inr w)" by blast
  from state_transition_atomic [OF cur sample_binding(1) w] show ?thesis by blast
qed

text \<open>
  C11 (safety): the startup barrier fences every older clean state. Once both of its pages are
  written, a reader selects the second one; and whichever of the two pages later becomes
  unreadable, no reader selects a clean record any more, so an image that predates the session is
  never trusted after the session has changed data.
\<close>

theorem running_barrier_fences_clean:
  assumes "binding_typed b" "prepare_running_barrier digest current b = Some (Inr rb)"
    and "pages = put_page (rb_second rb) (put_page (rb_first rb) [p, q])"
  shows "latest_state digest pages = Inr (Some \<lparr>sel_slot = spw_slot (rb_second rb), sel_record = spw_record (rb_second rb)\<rparr>)
    \<and> (\<forall>p' q'. (p' = pages ! 0 \<or> unreadable digest p') \<and> (q' = pages ! 1 \<or> unreadable digest q') \<longrightarrow>
         (\<exists>selected. latest_state digest [p', q'] = Inr selected
            \<and> (\<forall>c. selected = Some c \<longrightarrow> sr_state (sel_record c) = SessionRunning)))"
proof -
  note b = barrier_pages [OF assms(1,2)]
  from slot_choice [OF b(1)] have pages: "pages = [spw_page (rb_first rb), spw_page (rb_second rb)] \<and> spw_slot (rb_first rb) = 0
    \<or> pages = [spw_page (rb_second rb), spw_page (rb_first rb)] \<and> spw_slot (rb_first rb) = 1"
    using b(2) by (auto simp: assms(3) put_page_def)
  have sel: "latest_state digest pages = Inr (Some \<lparr>sel_slot = spw_slot (rb_second rb), sel_record = spw_record (rb_second rb)\<rparr>)"
    using pages b by (auto simp: latest_two)
  have "\<exists>selected. latest_state digest [p', q'] = Inr selected \<and> (\<forall>c. selected = Some c \<longrightarrow> sr_state (sel_record c) = SessionRunning)"
    if "(p' = pages ! 0 \<or> unreadable digest p') \<and> (q' = pages ! 1 \<or> unreadable digest q')" for p' q'
    using that pages b
    by (auto simp: latest_state_def Let_def unreadable_def split: page_probe.splits)
  with sel show ?thesis by blast
qed

lemma sample_barrier:
  "\<exists>rb. prepare_running_barrier (\<lambda>_. 5) None (sr_binding sample_state) = Some (Inr rb)"
proof -
  from sample_next obtain w where w: "prepare_next_state (\<lambda>_. 5) None SessionRunning (sr_binding sample_state) = Some (Inr w)" by blast
  let ?r = "\<lparr>sr_generation = 2, sr_state = SessionRunning, sr_binding = sr_binding sample_state\<rparr>"
  have e: "state_record_encode (\<lambda>_. 5) ?r = Some (Inr (sealed (\<lambda>_. 5) (state_fields ?r)))"
    by (intro state_page.encode_valid sample_binding(3)) (use sample_binding(1) in \<open>simp add: state_typed_def binding_typed_def num_bounds\<close>)
  have "next_slot_generation (Some \<lparr>sel_slot = spw_slot w, sel_record = spw_record w\<rparr>) = Inr (1, 2)"
    using w [unfolded prepare_next_iff [OF sample_binding(1)]]
    by (auto simp: next_slot_generation_def STATE_SLOT_COUNT_def checked_add_def num_bounds)
  with e have "\<exists>w2. prepare_next_state (\<lambda>_. 5) (Some \<lparr>sel_slot = spw_slot w, sel_record = spw_record w\<rparr>) SessionRunning
      (sr_binding sample_state) = Some (Inr w2)"
    by (simp add: prepare_next_state_def Let_def)
  with w show ?thesis by (auto simp: prepare_running_barrier_def)
qed

theorem running_barrier_fences_clean_witness:
  "\<exists>rb selected. prepare_running_barrier (\<lambda>_. 5) None (sr_binding sample_state) = Some (Inr rb)
     \<and> latest_state (\<lambda>_. 5) [blank_page, put_page (rb_second rb) (put_page (rb_first rb) [blank_page, blank_page]) ! 1] = Inr selected
     \<and> (\<forall>c. selected = Some c \<longrightarrow> sr_state (sel_record c) = SessionRunning)"
proof -
  from sample_barrier obtain rb where rb: "prepare_running_barrier (\<lambda>_. 5) None (sr_binding sample_state) = Some (Inr rb)" by blast
  from running_barrier_fences_clean [OF sample_binding(1) rb refl, of blank_page blank_page] blank_unreadable [of "\<lambda>_. 5"] rb
  show ?thesis by blast
qed

lemma index_len_rounds:
  "recovery_image_index_len slots = Some n \<Longrightarrow> n = (slots + 503) div 504 * 4096 \<and> n \<le> u64_max"
proof -
  assume "recovery_image_index_len slots = Some n"
  then have n: "n = (slots div 504 + of_bool (slots mod 504 \<noteq> 0)) * 4096" "n \<le> u64_max"
    by (auto simp: recovery_image_index_len_def image_header_consts Option.bind_eq_Some_conv split: if_splits)
  have "(slots + 503) div 504 = slots div 504 + of_bool (slots mod 504 \<noteq> 0)"
    by (cases "slots mod 504 = 0") (auto simp: div_add1_eq [of slots 503] mod_less_divisor)
  with n show ?thesis by simp
qed

text \<open>
  An image accepted for a clean open has the layout the index storage maps: its index
  section starts on the second page, is exactly the image length the storage computes for that many
  buckets, lies inside the file, and is followed by whole pages of the Region table up to the end of
  the file; and its identity is the one the clean state and the data file name.
\<close>

theorem clean_image_layout:
  assumes "clean_image_matches st d h file_len slots index_len" "representable_slots slots"
  shows "image_layout_new slots = Inr \<lparr>layout_page_count = (slots + 503) div 504, layout_image_len = index_len\<rparr>
    \<and> RECOVERY_IMAGE_INDEX_OFFSET mod INDEX_IMAGE_PAGE_SIZE = 0
    \<and> ih_region_table_offset h = RECOVERY_IMAGE_INDEX_OFFSET + index_len
    \<and> ih_region_table_offset h + ih_region_table_len h = file_len
    \<and> 0 < ih_region_table_len h \<and> ih_region_table_len h mod RECOVERY_PAGE_SIZE = 0
    \<and> sr_state st = SessionClean \<and> bn_image (sr_binding st) = Some (header_image_binding h)
    \<and> ih_data_identity h = sb_data_identity d \<and> bn_data_identity (sr_binding st) = sb_data_identity d"
proof -
  have l: "image_layout_new slots = Inr \<lparr>layout_page_count = (slots + 503) div 504, layout_image_len = index_len\<rparr>"
    using assms index_len_rounds [of slots index_len] by (simp add: clean_image_matches_def image_layout_new_eq)
  moreover have "ih_region_table_offset h = RECOVERY_IMAGE_INDEX_OFFSET + index_len"
    "ih_region_table_offset h + ih_region_table_len h = file_len" "0 < ih_region_table_len h"
    "ih_region_table_len h mod RECOVERY_PAGE_SIZE = 0"
    using assms(1) by (auto simp: clean_image_matches_def image_header_is_valid_def Let_def split: option.splits if_splits)
  ultimately show ?thesis using assms(1)
    by (simp add: clean_image_matches_def matches_clean_def header_matches_data_def binding_matches_data_def image_header_consts)
qed

theorem clean_image_layout_witness:
  "clean_image_matches sample_state sample_superblock sample_header 12288 500 4096
   \<and> image_layout_new 500 = Inr \<lparr>layout_page_count = 1, layout_image_len = 4096\<rparr>"
proof -
  have m: "clean_image_matches sample_state sample_superblock sample_header 12288 500 4096"
    by (simp add: clean_image_matches_def sample_state_def sample_superblock_def sample_header_def image_header_is_valid_def
        recovery_image_index_len_def matches_clean_def binding_matches_data_def binding_from_data_def header_image_binding_def
        header_matches_data_def image_header_consts checked_add_def checked_mul_def num_bounds Let_def)
  have "representable_slots 500" by (simp add: representable_slots_def isize_max_def)
  from clean_image_layout [OF m this] m show ?thesis by simp
qed

end
