(* ===== verification/Record_Codec.thy ===== *)
theory Record_Codec
  imports Record_Header Region_Manager
begin

text \<open>
  \<^verbatim>\<open>cache2/src/region/record/codec.rs\<close>: the payload checksum, the size of a record and the encoding of
  one value into the range an append reservation gives it. XXH3 is a parameter of whoever calls
  \<^verbatim>\<open>hash_key\<close>; the encoder takes the hash.
\<close>

section \<open>Payloads\<close>

datatype record_encode_error =
    LengthOverflow
  | KeyTooLarge
  | RecordTooLarge
  | DestinationLengthMismatch nat nat
  | ReservationTooSmall nat nat
  | InvalidReservation
  | InvalidRecordLocation packed_location_error

record record_payload =
  pl_key :: bytes
  pl_value :: bytes
  pl_crc :: u32

definition payload_new :: "crc_stream \<Rightarrow> bytes \<Rightarrow> bytes \<Rightarrow> record_payload" where
  "payload_new digest key val = \<lparr>pl_key = key, pl_value = val, pl_crc = crc32c digest [key, val]\<rparr>"

definition payload_validate :: "crc_stream \<Rightarrow> bytes \<Rightarrow> bytes \<Rightarrow> u32 \<Rightarrow> record_payload option" where
  "payload_validate digest key val expected_crc =
     (let payload = payload_new digest key val in if pl_crc payload = expected_crc then Some payload else None)"

definition hash_key :: "(u64 \<Rightarrow> bytes \<Rightarrow> u64) \<Rightarrow> u64 \<Rightarrow> bytes \<Rightarrow> u64" where
  "hash_key xxh3 seed key = xxh3 seed key"

definition required_record_bytes :: "nat \<Rightarrow> nat \<Rightarrow> record_encode_error + nat" where
  "required_record_bytes key_len value_len =
     (if key_len > MAX_KEY_SIZE then Inl KeyTooLarge
      else bind_result (ok_or LengthOverflow (aligned_len key_len value_len)) (\<lambda>record_bytes.
        if record_bytes > MAX_RECORD_LEN then Inl RecordTooLarge else Inr record_bytes))"

section \<open>Encoding\<close>

text \<open>
  The result and the destination afterwards; \<open>None\<close> is a panic of a slice operation. The reservation
  carries \<^verbatim>\<open>u32\<close> and \<^verbatim>\<open>u64\<close> values as \<open>nat\<close>.
\<close>

definition u16_max :: nat where "u16_max = 2 ^ 16 - 1"

definition encode_value_into_hashed_with_seqno ::
    "crc_stream \<Rightarrow> bytes \<Rightarrow> append_reservation \<Rightarrow> u64 \<Rightarrow> nat \<Rightarrow> record_payload \<Rightarrow> nat
      \<Rightarrow> ((record_encode_error + index_entry) \<times> bytes) option" where
  "encode_value_into_hashed_with_seqno digest destination reservation hash required payload logical_seqno =
     (let key = pl_key payload; val = pl_value payload; destination_len = length destination in
      case try_from usize_max (ra_record_bytes reservation) of
        None \<Rightarrow> Some (Inl LengthOverflow, destination)
      | Some reserved_len \<Rightarrow>
      if destination_len \<noteq> reserved_len
      then Some (Inl (DestinationLengthMismatch (ra_record_bytes reservation) destination_len), destination)
      else if ra_record_bytes reservation < required
      then Some (Inl (ReservationTooSmall required (ra_record_bytes reservation)), destination)
      else if ra_region_created_seqno reservation = 0 \<or> ra_seqno reservation < ra_region_created_seqno reservation
         \<or> ra_offset reservation mod RECORD_ALIGNMENT \<noteq> 0
      then Some (Inl InvalidReservation, destination)
      else case location_new (of_nat (ra_region_id reservation)) (of_nat (ra_offset reservation)) (of_nat (ra_record_bytes reservation)) of
        Inl e \<Rightarrow> Some (Inl (InvalidRecordLocation e), destination)
      | Inr loc \<Rightarrow>
      case try_from u32_max (length val) of
        None \<Rightarrow> Some (Inl LengthOverflow, destination)
      | Some value_len \<Rightarrow>
      case try_from u16_max (length key) of
        None \<Rightarrow> Some (Inl KeyTooLarge, destination)
      | Some key_len \<Rightarrow>
      case Option.bind (checked_add usize_max RECORD_HEADER_SIZE (length key)) (\<lambda>e. checked_add usize_max e (length val)) of
        None \<Rightarrow> Some (Inl LengthOverflow, destination)
      | Some payload_end \<Rightarrow>
      if payload_end > destination_len
      then Some (Inl (ReservationTooSmall required (ra_record_bytes reservation)), destination)
      else do {
        output \<leftarrow> write_range destination payload_end (replicate (destination_len - payload_end) 0);
        case checked_add usize_max RECORD_HEADER_SIZE (length key) of
          None \<Rightarrow> Some (Inl LengthOverflow, output)
        | Some value_start \<Rightarrow> do {
            output \<leftarrow> write_range output RECORD_HEADER_SIZE key;
            output \<leftarrow> write_range output value_start val;
            header \<leftarrow> encode_header digest \<lparr>hdr_key_len = of_nat key_len, hdr_value_len = of_nat value_len,
                hdr_seqno = of_nat logical_seqno, hdr_key_hash = hash, hdr_payload_crc = pl_crc payload,
                hdr_region_generation = of_nat (ra_region_created_seqno reservation),
                hdr_record_len = of_nat (ra_record_bytes reservation)\<rparr>;
            output \<leftarrow> write_range output 0 header;
            Some (Inr \<lparr>location = loc\<rparr>, output)
          }
      })"

definition encode_value_into_hashed ::
    "crc_stream \<Rightarrow> bytes \<Rightarrow> append_reservation \<Rightarrow> u64 \<Rightarrow> nat \<Rightarrow> record_payload
      \<Rightarrow> ((record_encode_error + index_entry) \<times> bytes) option" where
  "encode_value_into_hashed digest destination reservation hash required payload =
     encode_value_into_hashed_with_seqno digest destination reservation hash required payload (ra_seqno reservation)"

definition encode_reinsert_into_hashed ::
    "crc_stream \<Rightarrow> bytes \<Rightarrow> append_reservation \<Rightarrow> u64 \<Rightarrow> nat \<Rightarrow> record_payload \<Rightarrow> nat
      \<Rightarrow> ((record_encode_error + index_entry) \<times> bytes) option" where
  "encode_reinsert_into_hashed digest destination reservation hash required payload logical_seqno =
     (if logical_seqno = 0 then Some (Inl InvalidReservation, destination)
      else encode_value_into_hashed_with_seqno digest destination reservation hash required payload logical_seqno)"

section \<open>The encoded record\<close>

definition record_header_of :: "append_reservation \<Rightarrow> u64 \<Rightarrow> record_payload \<Rightarrow> nat \<Rightarrow> record_header" where
  "record_header_of reservation hash payload seqno =
     \<lparr>hdr_key_len = of_nat (length (pl_key payload)), hdr_value_len = of_nat (length (pl_value payload)),
      hdr_seqno = of_nat seqno, hdr_key_hash = hash, hdr_payload_crc = pl_crc payload,
      hdr_region_generation = of_nat (ra_region_created_seqno reservation),
      hdr_record_len = of_nat (ra_record_bytes reservation)\<rparr>"

text \<open>Header, key, value and a zero tail.\<close>

definition record_image :: "crc_stream \<Rightarrow> record_header \<Rightarrow> bytes \<Rightarrow> bytes \<Rightarrow> nat \<Rightarrow> bytes" where
  "record_image digest h key val n =
     the (encode_header digest h) @ key @ val @ replicate (n - (48 + length key + length val)) 0"

lemma header_bytes: "\<exists>out. encode_header digest h = Some out \<and> length out = 48"
  by (simp add: encode_header_eq)

lemma length_record_image: "48 + length key + length val \<le> n \<Longrightarrow> length (record_image digest h key val n) = n"
  using header_bytes [of digest h] by (auto simp: record_image_def)

lemma record_image_parts:
  shows "take 48 (record_image digest h key val n) = the (encode_header digest h)"
    "take (length key) (drop 48 (record_image digest h key val n)) = key"
    "take (length val) (drop (48 + length key) (record_image digest h key val n)) = val"
    "take (length key + length val) (drop 48 (record_image digest h key val n)) = key @ val"
  using header_bytes [of digest h] by (auto simp: record_image_def)

lemma write_record:
  assumes "length destination = n" "48 + length key + length val \<le> n"
  shows "do {
      output \<leftarrow> write_range destination (48 + length key + length val) (replicate (n - (48 + length key + length val)) 0);
      output \<leftarrow> write_range output 48 key;
      output \<leftarrow> write_range output (48 + length key) val;
      header \<leftarrow> encode_header digest h;
      output \<leftarrow> write_range output 0 header;
      Some output } = Some (record_image digest h key val n)"
proof -
  obtain hb where hb: "encode_header digest h = Some hb" "length hb = 48" using header_bytes by blast
  show ?thesis using assms hb by (simp add: write_range_def overwrite_def record_image_def)
qed

lemma encode_ok:
  fixes digest destination reservation hash required payload seqno
  assumes "length destination \<le> usize_max" "length destination = ra_record_bytes reservation" "required \<le> ra_record_bytes reservation"
    "ra_region_created_seqno reservation \<noteq> 0" "ra_region_created_seqno reservation \<le> ra_seqno reservation"
    "ra_offset reservation mod RECORD_ALIGNMENT = 0" "length (pl_value payload) \<le> u32_max" "length (pl_key payload) \<le> u16_max"
    "48 + length (pl_key payload) + length (pl_value payload) \<le> length destination"
    "location_new (of_nat (ra_region_id reservation)) (of_nat (ra_offset reservation)) (of_nat (ra_record_bytes reservation)) = Inr loc"
  shows "encode_value_into_hashed_with_seqno digest destination reservation hash required payload seqno
    = Some (Inr \<lparr>location = loc\<rparr>,
        record_image digest (record_header_of reservation hash payload seqno) (pl_key payload) (pl_value payload) (length destination))"
proof -
  let ?h = "record_header_of reservation hash payload seqno"
  have "48 + length (pl_key payload) \<le> usize_max" "48 + length (pl_key payload) + length (pl_value payload) \<le> usize_max"
    "ra_record_bytes reservation \<le> usize_max"
    using assms by simp_all
  then show ?thesis
    using assms write_record [OF refl assms(9), of digest ?h] header_bytes [of digest ?h]
    by (auto simp: encode_value_into_hashed_with_seqno_def Let_def try_from_def checked_add_def RECORD_HEADER_SIZE_def
        record_header_of_def write_range_def)
qed

lemma encode_cases:
  fixes digest destination reservation hash required payload seqno
  assumes "length destination \<le> usize_max"
  defines "r \<equiv> encode_value_into_hashed_with_seqno digest destination reservation hash required payload seqno"
  shows "(\<exists>e. r = Some (Inl e, destination))
    \<or> (\<exists>loc. r = Some (Inr \<lparr>location = loc\<rparr>,
          record_image digest (record_header_of reservation hash payload seqno) (pl_key payload) (pl_value payload) (length destination))
        \<and> location_new (of_nat (ra_region_id reservation)) (of_nat (ra_offset reservation)) (of_nat (ra_record_bytes reservation)) = Inr loc
        \<and> length destination = ra_record_bytes reservation \<and> required \<le> ra_record_bytes reservation
        \<and> ra_region_created_seqno reservation \<noteq> 0 \<and> ra_region_created_seqno reservation \<le> ra_seqno reservation
        \<and> 48 + length (pl_key payload) + length (pl_value payload) \<le> length destination
        \<and> length (pl_key payload) \<le> u16_max \<and> length (pl_value payload) \<le> u32_max)"
proof -
  let ?k = "pl_key payload" and ?v = "pl_value payload"
  let ?loc = "location_new (of_nat (ra_region_id reservation)) (of_nat (ra_offset reservation)) (of_nat (ra_record_bytes reservation))"
  let ?guards = "length destination = ra_record_bytes reservation \<and> required \<le> ra_record_bytes reservation
    \<and> ra_region_created_seqno reservation \<noteq> 0 \<and> ra_region_created_seqno reservation \<le> ra_seqno reservation
    \<and> ra_offset reservation mod RECORD_ALIGNMENT = 0 \<and> length ?v \<le> u32_max \<and> length ?k \<le> u16_max
    \<and> 48 + length ?k + length ?v \<le> length destination"
  show ?thesis
  proof (cases "?guards \<and> (\<exists>loc. ?loc = Inr loc)")
    case True
    from True obtain loc where loc: "?loc = Inr loc" by (elim conjE exE)
    from True have g: ?guards by (rule conjunct1)
    with encode_ok [of destination reservation required payload loc digest hash seqno] loc assms(1)
    have "r = Some (Inr \<lparr>location = loc\<rparr>,
        record_image digest (record_header_of reservation hash payload seqno) ?k ?v (length destination))"
      unfolding r_def by simp
    with g loc show ?thesis by blast
  next
    case False
    then show ?thesis using assms(1)
      by (auto simp: r_def encode_value_into_hashed_with_seqno_def Let_def try_from_def checked_add_def RECORD_HEADER_SIZE_def
          split: sum.splits if_splits option.splits)
  qed
qed

section \<open>The encoded header is valid\<close>

text \<open>What the types of a reservation give, and what the manager's reservations satisfy.\<close>

definition reservation_typed :: "append_reservation \<Rightarrow> bool" where
  "reservation_typed r \<longleftrightarrow> ra_region_id r \<le> u32_max \<and> ra_offset r \<le> u32_max \<and> ra_record_bytes r \<le> u32_max
     \<and> ra_region_created_seqno r \<le> u64_max \<and> ra_seqno r \<le> u64_max"

lemma unat_u32_of_nat: "n \<le> u32_max \<Longrightarrow> unat (of_nat n :: u32) = n"
  by (simp add: unat_of_nat num_bounds)

lemma encoded_location:
  assumes "reservation_typed r"
    and "location_new (of_nat (ra_region_id r)) (of_nat (ra_offset r)) (of_nat (ra_record_bytes r)) = Inr loc"
  shows "unat (region_id loc) = ra_region_id r" "unat (offset loc) = ra_offset r" "unat (record_len loc) = ra_record_bytes r"
    "0 < ra_record_bytes r" "ra_record_bytes r mod 32 = 0" "ra_record_bytes r \<le> 2 ^ 25"
    "ra_region_id r < 2 ^ 20" "ra_offset r mod 32 = 0" "ra_offset r \<le> (2 ^ 20 - 1) * 32"
proof -
  have u: "unat (of_nat (ra_region_id r) :: u32) = ra_region_id r" "unat (of_nat (ra_offset r) :: u32) = ra_offset r"
    "unat (of_nat (ra_record_bytes r) :: u32) = ra_record_bytes r"
    using assms(1) by (simp_all add: reservation_typed_def unat_u32_of_nat)
  note o = location_new_ok [OF assms(2), unfolded u packed_limits] and rt = location_new_roundtrip [OF assms(2)]
  show "unat (region_id loc) = ra_region_id r" "unat (offset loc) = ra_offset r" "unat (record_len loc) = ra_record_bytes r"
    using rt u by simp_all
  show "0 < ra_record_bytes r" "ra_record_bytes r mod 32 = 0" "ra_record_bytes r \<le> 2 ^ 25"
    "ra_region_id r < 2 ^ 20" "ra_offset r mod 32 = 0" "ra_offset r \<le> (2 ^ 20 - 1) * 32"
    using o by simp_all
qed

lemma aligned_cover:
  fixes n m :: nat assumes "m \<le> n" "n mod 32 = 0" shows "(m + 31) div 32 * 32 \<le> n"
proof -
  have "(m + 31) div 32 * 32 < m + 32" by (rule align_32)
  then have "(m + 31) div 32 * 32 < n + 32" using assms(1) by simp
  moreover from assms(2) obtain j where "n = 32 * j" by auto
  ultimately show ?thesis by simp
qed

lemma header_valid:
  assumes typed: "reservation_typed r"
    and loc: "location_new (of_nat (ra_region_id r)) (of_nat (ra_offset r)) (of_nat (ra_record_bytes r)) = Inr loc"
    and len: "length (pl_key p) \<le> MAX_KEY_SIZE" "48 + length (pl_key p) + length (pl_value p) \<le> ra_record_bytes r"
    and seq: "seqno \<noteq> 0" "seqno \<le> u64_max" "ra_region_created_seqno r \<noteq> 0"
  shows "has_valid_lengths (record_header_of r hash p seqno)"
    "unat (hdr_key_len (record_header_of r hash p seqno)) = length (pl_key p)"
    "unat (hdr_value_len (record_header_of r hash p seqno)) = length (pl_value p)"
    "unat (hdr_record_len (record_header_of r hash p seqno)) = ra_record_bytes r"
proof -
  note l = encoded_location [OF typed loc]
  have k: "unat (of_nat (length (pl_key p)) :: u16) = length (pl_key p)" using len(1) by (simp add: unat_of_nat MAX_KEY_SIZE_def)
  have v: "unat (of_nat (length (pl_value p)) :: u32) = length (pl_value p)"
    using len(2) l(6) by (intro unat_u32_of_nat) (simp add: num_bounds)
  have n: "unat (of_nat (ra_record_bytes r) :: u32) = ra_record_bytes r" using typed by (simp add: reservation_typed_def unat_u32_of_nat)
  have nz: "of_nat (ra_region_created_seqno r) \<noteq> (0 :: u64)" "of_nat seqno \<noteq> (0 :: u64)" "of_nat (ra_record_bytes r) \<noteq> (0 :: u32)"
    using seq typed l(4) by (auto simp: reservation_typed_def num_bounds simp flip: unat_eq_zero simp: unat_of_nat)
  have "(48 + length (pl_key p) + length (pl_value p) + 31) div 32 * 32 \<le> ra_record_bytes r"
    by (rule aligned_cover [OF len(2) l(5)])
  moreover have "ra_record_bytes r \<le> u32_max" using typed by (simp add: reservation_typed_def)
  ultimately have "aligned_len (length (pl_key p)) (length (pl_value p)) = Some ((48 + length (pl_key p) + length (pl_value p) + 31) div 32 * 32)"
    "(48 + length (pl_key p) + length (pl_value p) + 31) div 32 * 32 \<le> ra_record_bytes r"
    unfolding aligned_len_eq_Some by simp_all
  then show "has_valid_lengths (record_header_of r hash p seqno)"
    using k v n nz len(1) l(5) by (simp add: has_valid_lengths_def record_header_of_def Let_def RECORD_ALIGNMENT_def)
  show "unat (hdr_key_len (record_header_of r hash p seqno)) = length (pl_key p)"
    "unat (hdr_value_len (record_header_of r hash p seqno)) = length (pl_value p)"
    "unat (hdr_record_len (record_header_of r hash p seqno)) = ra_record_bytes r"
    using k v n by (simp_all add: record_header_of_def)
qed

lemma decode_record_image:
  assumes "has_valid_lengths h" shows "decode_header digest (take 48 (record_image digest h key val n)) = Some h"
proof -
  obtain out where "encode_header digest h = Some out" using header_bytes by blast
  then show ?thesis using decode_encode_header [of digest h out] assms by (simp add: record_image_parts)
qed

section \<open>Properties\<close>

text \<open>
  C24 (functional): encoding a value for a reservation (\<^verbatim>\<open>encode_value_into_hashed_with_seqno\<close>, behind both the
  fresh append and the reinsertion) never panics. An error leaves the destination as it was. A success means
  that the destination is exactly the reserved bytes and holds a header that decodes to the reservation's
  generation, size and sequence number with the checksum of the payload, then the key, the value and zeros
  up to the end; the returned index entry addresses exactly the reserved range of the reserved Region.
\<close>
theorem record_encoding_exact:
  assumes typed: "reservation_typed r" and dest: "length destination \<le> usize_max"
    and key: "length key \<le> MAX_KEY_SIZE" and seq: "seqno \<noteq> 0" "seqno \<le> u64_max"
  shows "case encode_value_into_hashed_with_seqno digest destination r hash required (payload_new digest key val) seqno of
      None \<Rightarrow> False
    | Some (Inl _, out) \<Rightarrow> out = destination
    | Some (Inr entry, out) \<Rightarrow>
        length out = ra_record_bytes r \<and> required \<le> ra_record_bytes r
        \<and> decode_header digest (take RECORD_HEADER_SIZE out)
            = Some \<lparr>hdr_key_len = of_nat (length key), hdr_value_len = of_nat (length val), hdr_seqno = of_nat seqno,
                hdr_key_hash = hash, hdr_payload_crc = crc32c digest [key, val],
                hdr_region_generation = of_nat (ra_region_created_seqno r), hdr_record_len = of_nat (ra_record_bytes r)\<rparr>
        \<and> drop RECORD_HEADER_SIZE out = key @ val @ replicate (length out - (RECORD_HEADER_SIZE + length key + length val)) 0
        \<and> unat (region_id (location entry)) = ra_region_id r \<and> unat (offset (location entry)) = ra_offset r
        \<and> unat (record_len (location entry)) = ra_record_bytes r"
proof -
  let ?p = "payload_new digest key val"
  let ?h = "record_header_of r hash ?p seqno"
  have p: "pl_key ?p = key" "pl_value ?p = val" "pl_crc ?p = crc32c digest [key, val]" by (simp_all add: payload_new_def)
  from encode_cases [OF dest, of digest r hash required ?p seqno] show ?thesis
  proof (elim disjE exE conjE)
    fix loc
    assume r: "encode_value_into_hashed_with_seqno digest destination r hash required ?p seqno
        = Some (Inr \<lparr>location = loc\<rparr>, record_image digest ?h (pl_key ?p) (pl_value ?p) (length destination))"
      and loc: "location_new (of_nat (ra_region_id r)) (of_nat (ra_offset r)) (of_nat (ra_record_bytes r)) = Inr loc"
      and len: "length destination = ra_record_bytes r" "required \<le> ra_record_bytes r"
      and gen: "ra_region_created_seqno r \<noteq> 0"
      and fits: "48 + length (pl_key ?p) + length (pl_value ?p) \<le> length destination"
    have v: "has_valid_lengths ?h" using header_valid(1) [OF typed loc _ _ seq gen, of ?p hash] key fits len p by simp
    obtain hb where hb: "encode_header digest ?h = Some hb" "length hb = 48" using header_bytes by blast
    have "drop 48 (record_image digest ?h key val (length destination)) = key @ val @ replicate (length destination - (48 + length key + length val)) 0"
      using hb by (simp add: record_image_def)
    with r len encoded_location(1-3) [OF typed loc] fits p length_record_image [of key val "length destination" digest ?h]
      decode_record_image [OF v, of digest key val "length destination"]
    show ?thesis by (simp add: RECORD_HEADER_SIZE_def record_header_of_def)
  qed auto
qed

definition sample_reservation :: append_reservation where
  "sample_reservation = \<lparr>ra_shard_id = 0, ra_region_id = 1, ra_region_created_seqno = 3, ra_offset = 32, ra_record_bytes = 64, ra_seqno = 5\<rparr>"

lemma sample_encoding:
  "\<exists>entry out. encode_value_into_hashed_with_seqno (\<lambda>_. 0) (replicate 64 0) sample_reservation 7 64 (payload_new (\<lambda>_. 0) [1] [2, 3]) 5
     = Some (Inr entry, out) \<and> length out = 64"
proof -
  obtain loc where "location_new 1 32 64 = Inr loc"
    using location_new_total [of 1 32 64] by (auto simp: packed_limits OFFSET_ALIGNMENT_def RECORD_LEN_ALIGNMENT_def)
  then show ?thesis
    using encode_ok [of "replicate 64 0" sample_reservation 64 "payload_new (\<lambda>_. 0) [1] [2, 3]" loc "\<lambda>_. 0" 7 5]
    by (auto simp: sample_reservation_def payload_new_def num_bounds u16_max_def RECORD_ALIGNMENT_def length_record_image)
qed

theorem record_encoding_exact_witness:
  "\<exists>entry out. encode_value_into_hashed_with_seqno (\<lambda>_. 0) (replicate 64 0) sample_reservation 7 64 (payload_new (\<lambda>_. 0) [1] [2, 3]) 5
     = Some (Inr entry, out) \<and> length out = 64 \<and> drop RECORD_HEADER_SIZE out = [1, 2, 3] @ replicate 13 0
     \<and> unat (region_id (location entry)) = 1 \<and> unat (offset (location entry)) = 32 \<and> unat (record_len (location entry)) = 64"
proof -
  obtain entry out where "encode_value_into_hashed_with_seqno (\<lambda>_. 0) (replicate 64 0) sample_reservation 7 64 (payload_new (\<lambda>_. 0) [1] [2, 3]) 5
      = Some (Inr entry, out)" using sample_encoding by blast
  with record_encoding_exact [of sample_reservation "replicate 64 0" "[1]" 5, where digest = "\<lambda>_. 0" and hash = 7 and required = 64 and val = "[2, 3]"]
  show ?thesis by (simp add: sample_reservation_def reservation_typed_def num_bounds MAX_KEY_SIZE_def RECORD_HEADER_SIZE_def)
qed

end
