(* ===== verification/Managed_Memory.thy ===== *)
theory Managed_Memory
  imports Index_Layout Partial_Ops
begin

text \<open>
  \<^verbatim>\<open>managed_memory.rs\<close>: the cache-wide memory limit and the aligned buffers charged to it. The loops around
  compare-and-exchange are modelled with the values the failing attempts observe as a parameter, so
  a success under contention is one of the branches. A buffer is its capacity and the bytes of its
  initialized prefix; whether the system allocator succeeds is a parameter.
\<close>

section \<open>Compare-and-exchange loops\<close>

text \<open>
  \<open>cas_loop n observed f cur\<close>: at most \<open>n\<close> attempts to replace the current value by what \<open>f\<close> makes
  of it, where \<open>f\<close> may give up. An attempt fails when another thread (or a spurious failure) leads
  it to observe the next value of \<open>observed\<close>; when \<open>observed\<close> is used up the exchange succeeds.
\<close>

datatype 'v cas_result = Stored 'v 'v | GaveUp | Exhausted

fun cas_loop :: "nat \<Rightarrow> 'v list \<Rightarrow> ('v \<Rightarrow> 'v option) \<Rightarrow> 'v \<Rightarrow> 'v cas_result" where
  "cas_loop 0 observed f cur = Exhausted"
| "cas_loop (Suc n) observed f cur =
     (case f cur of
        None \<Rightarrow> GaveUp
      | Some new \<Rightarrow> (case observed of [] \<Rightarrow> Stored cur new | v # vs \<Rightarrow> cas_loop n vs f v))"

lemma cas_loop_Stored:
  "cas_loop n observed f cur = Stored old new \<Longrightarrow> f old = Some new \<and> old = last (cur # observed) \<and> length observed < n"
proof (induction n observed f cur rule: cas_loop.induct)
  case (2 n observed f cur)
  then show ?case by (cases observed) (auto split: option.splits)
qed simp

lemma cas_loop_alone: "0 < n \<Longrightarrow> cas_loop n [] f cur = (case f cur of None \<Rightarrow> GaveUp | Some new \<Rightarrow> Stored cur new)"
  by (cases n) (simp_all split: option.splits)

lemma cas_loop_again:
  "0 < n \<Longrightarrow> cas_loop n (v # vs) f cur = (case f cur of None \<Rightarrow> GaveUp | Some new \<Rightarrow> cas_loop (n - 1) vs f v)"
  by (cases n) (simp_all split: option.splits)

section \<open>The tracker\<close>

definition BUFFER_ALIGNMENT :: nat where "BUFFER_ALIGNMENT = 4096"
definition MAX_ATOMIC_UPDATE_ATTEMPTS :: nat where "MAX_ATOMIC_UPDATE_ATTEMPTS = 8"

datatype managed_memory_error = InvalidMemory string | AllocationFailed

record memory_tracker =
  mt_limit :: nat
  mt_current :: nat
  mt_peak :: nat

definition tracker_new :: "nat \<Rightarrow> nat \<Rightarrow> memory_tracker" where
  "tracker_new limit reserved = \<lparr>mt_limit = limit, mt_current = reserved, mt_peak = reserved\<rparr>"

definition update_peak :: "nat \<Rightarrow> nat \<Rightarrow> nat" where
  "update_peak peak candidate = (if candidate > peak then max peak candidate else peak)"

definition tracker_try_reserve :: "nat list \<Rightarrow> nat \<Rightarrow> memory_tracker \<Rightarrow> bool \<times> memory_tracker" where
  "tracker_try_reserve observed bytes t =
     (case cas_loop MAX_ATOMIC_UPDATE_ATTEMPTS observed
         (\<lambda>current. Option.bind (checked_add usize_max current bytes) (\<lambda>n. if n > mt_limit t then None else Some n)) (mt_current t) of
        Stored old new \<Rightarrow> (True, t\<lparr>mt_current := new, mt_peak := update_peak (mt_peak t) new\<rparr>)
      | GaveUp \<Rightarrow> (False, t)
      | Exhausted \<Rightarrow> (False, t))"

text \<open>\<^verbatim>\<open>fetch_sub\<close> wraps.\<close>

definition wrapping_sub :: "nat \<Rightarrow> nat \<Rightarrow> nat" where
  "wrapping_sub a b = (if b \<le> a then a - b else a + 2 ^ 64 - b)"

definition tracker_release :: "nat \<Rightarrow> memory_tracker \<Rightarrow> memory_tracker" where
  "tracker_release bytes t = (if bytes \<noteq> 0 then t\<lparr>mt_current := wrapping_sub (mt_current t) bytes\<rparr> else t)"

definition managed_memory_try_new :: "nat \<Rightarrow> nat \<Rightarrow> managed_memory_error + memory_tracker" where
  "managed_memory_try_new memory_limit_bytes reserved_memory_bytes =
     (if reserved_memory_bytes > memory_limit_bytes
      then Inl (InvalidMemory ''memory limit cannot hold the cache's reserved memory'')
      else Inr (tracker_new memory_limit_bytes reserved_memory_bytes))"

definition reserve_runtime_memory :: "nat list \<Rightarrow> nat \<Rightarrow> memory_tracker \<Rightarrow> (managed_memory_error + nat) \<times> memory_tracker" where
  "reserve_runtime_memory observed bytes t =
     (case tracker_try_reserve observed bytes t of (ok, t') \<Rightarrow> (if ok then Inr bytes else Inl AllocationFailed, t'))"

record managed_memory_snapshot =
  mms_limit_bytes :: nat
  mms_current_bytes :: nat
  mms_peak_bytes :: nat

definition tracker_snapshot :: "memory_tracker \<Rightarrow> managed_memory_snapshot" where
  "tracker_snapshot t = \<lparr>mms_limit_bytes = mt_limit t, mms_current_bytes = mt_current t,
     mms_peak_bytes = max (mt_peak t) (mt_current t)\<rparr>"

section \<open>Leases\<close>

record buffer_lease =
  bl_standalone :: bool
  bl_capacity :: nat
  bl_contents :: bytes

definition buffer_align_up :: "nat \<Rightarrow> nat \<Rightarrow> nat option" where
  "buffer_align_up v alignment = map_option (\<lambda>s. s div alignment * alignment) (checked_add usize_max v (alignment - 1))"

definition lease_try_fixed :: "allocator \<Rightarrow> nat \<Rightarrow> managed_memory_error + buffer_lease" where
  "lease_try_fixed alloc n =
     (if n = 0 \<or> n mod BUFFER_ALIGNMENT \<noteq> 0 \<or> n > isize_max
      then Inl (InvalidMemory ''fixed buffer size must be a non-zero 4096-byte multiple'')
      else if \<not> alloc n then Inl AllocationFailed
      else Inr \<lparr>bl_standalone = False, bl_capacity = n, bl_contents = replicate n 0\<rparr>)"

definition lease_try_standalone ::
    "allocator \<Rightarrow> nat list \<Rightarrow> nat \<Rightarrow> memory_tracker \<Rightarrow> buffer_lease option \<times> memory_tracker" where
  "lease_try_standalone alloc observed n t =
     (case buffer_align_up n BUFFER_ALIGNMENT of
        None \<Rightarrow> (None, t)
      | Some maximum \<Rightarrow>
          if maximum = 0 \<or> maximum > isize_max then (None, t)
          else (case tracker_try_reserve observed maximum t of
             (False, t') \<Rightarrow> (None, t')
           | (True, t') \<Rightarrow>
               if \<not> alloc maximum then (None, tracker_release maximum t')
               else (Some \<lparr>bl_standalone = True, bl_capacity = maximum, bl_contents = []\<rparr>, t')))"

text \<open>The prefix of a lease's initialized bytes; the mutable and the shared access have the same check.\<close>

definition prepared :: "bytes \<Rightarrow> nat \<Rightarrow> bytes option" where
  "prepared contents n = (if n > length contents then None else Some (take n contents))"

definition lease_has_capacity :: "buffer_lease \<Rightarrow> nat \<Rightarrow> bool" where
  "lease_has_capacity l n \<longleftrightarrow> n \<le> bl_capacity l"

text \<open>A read of \<open>n\<close> bytes into the lease: the engine fills the target and marks it initialized.\<close>

definition lease_mark_initialized :: "bytes \<Rightarrow> nat \<Rightarrow> buffer_lease \<Rightarrow> buffer_lease option" where
  "lease_mark_initialized filled n l =
     (if n > bl_capacity l then None
      else Some (l\<lparr>bl_contents := take n filled @ drop n (bl_contents l)\<rparr>))"

definition lease_drop :: "buffer_lease \<Rightarrow> memory_tracker \<Rightarrow> memory_tracker" where
  "lease_drop l t = (if bl_standalone l then tracker_release (bl_capacity l) t else t)"

section \<open>The limit\<close>

text \<open>
  Histories of the tracker, in the order in which their exchanges take effect: a runtime reservation
  or a read buffer is charged, and an outstanding charge is released. The last value an exchange
  observed is the value of the counter when it takes effect.
\<close>

datatype memory_event = ReserveRuntime "nat list" nat | ReadBuffer "nat list" nat bool | ReleaseCharge nat

definition observes :: "nat list \<Rightarrow> memory_tracker \<Rightarrow> bool" where
  "observes observed t \<longleftrightarrow> last (mt_current t # observed) = mt_current t"

fun memory_run :: "memory_event \<Rightarrow> memory_tracker \<times> nat list \<Rightarrow> memory_tracker \<times> nat list" where
  "memory_run (ReserveRuntime observed n) (t, charges) =
     (if observes observed t
      then (case reserve_runtime_memory observed n t of (Inr c, t') \<Rightarrow> (t', c # charges) | (Inl _, t') \<Rightarrow> (t', charges))
      else (t, charges))"
| "memory_run (ReadBuffer observed n granted) (t, charges) =
     (if observes observed t
      then (case lease_try_standalone (\<lambda>_. granted) observed n t of
              (Some l, t') \<Rightarrow> (t', bl_capacity l # charges) | (None, t') \<Rightarrow> (t', charges))
      else (t, charges))"
| "memory_run (ReleaseCharge i) (t, charges) =
     (if i < length charges then (tracker_release (charges ! i) t, take i charges @ drop (Suc i) charges) else (t, charges))"

definition memory_ok :: "nat \<Rightarrow> nat \<Rightarrow> memory_tracker \<times> nat list \<Rightarrow> bool" where
  "memory_ok limit reserved s \<longleftrightarrow> (case s of (t, charges) \<Rightarrow>
     mt_limit t = limit \<and> mt_current t = reserved + sum_list charges \<and> mt_current t \<le> limit
     \<and> mt_current t \<le> mt_peak t \<and> mt_peak t \<le> limit)"

lemma try_reserve_alone:
  assumes "tracker_try_reserve observed n t = (True, t')" "observes observed t"
  shows "t' = t\<lparr>mt_current := mt_current t + n, mt_peak := update_peak (mt_peak t) (mt_current t + n)\<rparr>" "mt_current t + n \<le> mt_limit t"
  using assms by (auto simp: tracker_try_reserve_def observes_def Option.bind_eq_Some_conv
      split: cas_result.splits if_splits dest!: cas_loop_Stored)

lemma try_reserve_fails: "tracker_try_reserve observed n t = (False, t') \<Longrightarrow> t' = t"
  by (auto simp: tracker_try_reserve_def split: cas_result.splits)

lemma reserve_ok:
  assumes "memory_ok limit reserved (t, charges)" "tracker_try_reserve observed n t = (True, t')" "observes observed t"
  shows "memory_ok limit reserved (t', n # charges)"
  using assms(1) try_reserve_alone [OF assms(2,3)] by (auto simp: memory_ok_def update_peak_def)

lemma sum_list_remove_nth:
  fixes xs :: "nat list" shows "i < length xs \<Longrightarrow> sum_list (take i xs @ drop (Suc i) xs) + xs ! i = sum_list xs"
proof -
  assume "i < length xs"
  then have "xs = take i xs @ xs ! i # drop (Suc i) xs" by (rule id_take_nth_drop)
  then have "sum_list xs = sum_list (take i xs @ xs ! i # drop (Suc i) xs)" by (rule arg_cong)
  then show ?thesis by simp
qed

lemma release_cancel:
  assumes "memory_ok limit reserved (t, n # charges)" shows "memory_ok limit reserved (tracker_release n t, charges)"
  using assms by (auto simp: memory_ok_def tracker_release_def wrapping_sub_def)

lemma memory_run_ok: "memory_ok limit reserved s \<Longrightarrow> memory_ok limit reserved (memory_run e s)"
proof (induction e s rule: memory_run.induct)
  case (1 observed n t charges)
  then show ?case using reserve_ok [of limit reserved t charges observed n]
    by (auto simp: reserve_runtime_memory_def split: prod.splits dest: try_reserve_fails)
next
  case (2 observed n granted t charges)
  show ?case
  proof (cases "observes observed t \<and> (\<exists>m t'. buffer_align_up n BUFFER_ALIGNMENT = Some m \<and> tracker_try_reserve observed m t = (True, t'))")
    case True
    then obtain m t' where m: "buffer_align_up n BUFFER_ALIGNMENT = Some m" "tracker_try_reserve observed m t = (True, t')" "observes observed t" by blast
    have "memory_ok limit reserved (t', m # charges)" by (rule reserve_ok [OF 2 m(2,3)])
    with 2 m release_cancel [of limit reserved t' m charges] show ?thesis by (auto simp: lease_try_standalone_def)
  next
    case False
    with 2 show ?thesis by (auto simp: lease_try_standalone_def split: option.splits prod.splits bool.splits dest: try_reserve_fails)
  qed
next
  case (3 i t charges)
  show ?case
  proof (cases "i < length charges")
    case True
    note s = sum_list_remove_nth [OF this]
    have "memory_ok limit reserved (t, charges ! i # (take i charges @ drop (Suc i) charges))"
      using 3 s by (simp add: memory_ok_def)
    from release_cancel [OF this] True show ?thesis by simp
  qed (use 3 in simp)
qed

interpretation memory_history: event_system memory_run "\<lambda>_. True" "memory_ok limit reserved" for limit reserved
  by unfold_locales (rule memory_run_ok)

subsection \<open>The peak\<close>

text \<open>
  The values the counter takes during a history. A read buffer is charged before the allocator is
  tried, so the counter holds the charge of a buffer whose allocation is then refused: the value
  the event leads to when the allocator grants the bytes.
\<close>

fun granted :: "memory_event \<Rightarrow> memory_event" where
  "granted (ReadBuffer observed n ok) = ReadBuffer observed n True"
| "granted e = e"

fun counter_trace :: "memory_event list \<Rightarrow> memory_tracker \<times> nat list \<Rightarrow> nat list" where
  "counter_trace [] s = [mt_current (fst s)]"
| "counter_trace (e # es) s =
     mt_current (fst s) # mt_current (fst (memory_run (granted e) s)) # counter_trace es (memory_run e s)"

lemma update_peak_max: "update_peak p c = max p c"
  by (simp add: update_peak_def)

lemma release_keeps_peak [simp]: "mt_peak (tracker_release n t) = mt_peak t"
  by (simp add: tracker_release_def)

lemma try_reserve_peak:
  assumes "tracker_try_reserve observed n t = (ok, t')" "mt_current t \<le> mt_peak t" "observes observed t"
  shows "mt_peak t' = max (mt_peak t) (mt_current t')"
  using assms try_reserve_alone [of observed n t t'] try_reserve_fails [of observed n t t']
  by (cases ok) (auto simp: update_peak_max)

lemma memory_run_peak:
  assumes "memory_ok limit reserved s"
  shows "mt_peak (fst (memory_run e s)) = max (mt_peak (fst s)) (mt_current (fst (memory_run (granted e) s)))"
proof -
  obtain t charges where s: "s = (t, charges)" by (cases s)
  have le: "mt_current t \<le> mt_peak t" using assms by (simp add: memory_ok_def s)
  show ?thesis
  proof (cases e)
    case (ReserveRuntime observed n)
    with le show ?thesis
      by (auto simp: s reserve_runtime_memory_def split: prod.splits dest: try_reserve_peak)
  next
    case (ReadBuffer observed n ok)
    with le show ?thesis
      by (auto simp: s lease_try_standalone_def split: prod.splits option.splits bool.splits dest: try_reserve_peak)
  next
    case (ReleaseCharge i)
    from memory_run_ok [OF assms, of e] ReleaseCharge show ?thesis
      by (auto simp: s memory_ok_def)
  qed
qed

lemma fold_memory_run_peak:
  "memory_ok limit reserved s \<Longrightarrow>
     mt_peak (fst (fold memory_run es s)) = Max (insert (mt_peak (fst s)) (set (counter_trace es s)))"
proof (induction es arbitrary: s)
  case Nil
  then show ?case by (auto simp: memory_ok_def)
next
  case (Cons e es)
  have le: "mt_current (fst s) \<le> mt_peak (fst s)" using Cons.prems by (auto simp: memory_ok_def)
  have ne: "counter_trace es (memory_run e s) \<noteq> []" by (cases es) simp_all
  show ?case
    using le ne by (simp add: Cons.IH [OF memory_run_ok [OF Cons.prems]] memory_run_peak [OF Cons.prems] max.assoc)
qed

lemma counter_trace_first: "\<exists>vs. counter_trace es s = mt_current (fst s) # vs"
  by (cases es) simp_all

text \<open>
  C39 (bounds): the hard memory limit holds. Whatever runtime reservations and read buffers are
  charged and released, with any contention on the counter and any failure of the allocator, the
  counter is at every moment the reserved memory plus the outstanding charges, it never wraps, and
  neither it nor the recorded peak exceeds the configured limit. The recorded peak, and the one a
  snapshot reports, is exact: it is the largest value the counter has had, with the charges of
  buffers whose allocation was refused while they were held.
\<close>
theorem memory_limit_respected:
  assumes "managed_memory_try_new limit reserved = Inr t\<^sub>0"
    and "fold memory_run events (t\<^sub>0, []) = (t, charges)"
  shows "mt_current t = reserved + sum_list charges \<and> mt_current t \<le> limit
    \<and> mms_peak_bytes (tracker_snapshot t) \<le> limit \<and> mt_current t \<le> mms_peak_bytes (tracker_snapshot t)
    \<and> mt_peak t = Max (set (counter_trace events (t\<^sub>0, [])))
    \<and> mms_peak_bytes (tracker_snapshot t) = Max (set (counter_trace events (t\<^sub>0, [])))"
proof -
  have ok\<^sub>0: "memory_ok limit reserved (t\<^sub>0, [])" and p: "mt_peak t\<^sub>0 = mt_current t\<^sub>0"
    using assms(1) by (auto simp: managed_memory_try_new_def tracker_new_def memory_ok_def split: if_splits)
  have ok: "memory_ok limit reserved (t, charges)"
    using memory_history.run_all_inv [OF _ ok\<^sub>0, of events] assms(2) by (simp add: list.pred_True)
  have "mt_peak t = Max (set (counter_trace events (t\<^sub>0, [])))"
    using fold_memory_run_peak [OF ok\<^sub>0, of events] counter_trace_first [of events "(t\<^sub>0, [])"] assms(2) p
    by auto
  with ok show ?thesis by (simp add: memory_ok_def tracker_snapshot_def)
qed

theorem memory_limit_respected_witness:
  "\<exists>t\<^sub>0 t charges. managed_memory_try_new 10000 100 = Inr t\<^sub>0
     \<and> fold memory_run [ReserveRuntime [] 500, ReadBuffer [600] 3000 True, ReadBuffer [] 4000 False, ReadBuffer [] 9000 True, ReleaseCharge 1] (t\<^sub>0, []) = (t, charges)
     \<and> charges = [4096] \<and> mt_current t = 4196 \<and> mms_peak_bytes (tracker_snapshot t) \<le> 10000
     \<and> mt_peak t = 8792
     \<and> Max (set (counter_trace [ReserveRuntime [] 500, ReadBuffer [600] 3000 True, ReadBuffer [] 4000 False, ReadBuffer [] 9000 True, ReleaseCharge 1] (t\<^sub>0, []))) = 8792"
proof -
  let ?t0 = "tracker_new 10000 100"
  have n: "managed_memory_try_new 10000 100 = Inr ?t0" by (simp add: managed_memory_try_new_def)
  define es where "es = [ReserveRuntime [] 500, ReadBuffer [600] 3000 True, ReadBuffer [] 4000 False, ReadBuffer [] 9000 True, ReleaseCharge 1]"
  note eval = observes_def reserve_runtime_memory_def tracker_try_reserve_def lease_try_standalone_def
    buffer_align_up_def BUFFER_ALIGNMENT_def MAX_ATOMIC_UPDATE_ATTEMPTS_def cas_loop_alone cas_loop_again
    tracker_new_def tracker_release_def wrapping_sub_def checked_add_def num_bounds update_peak_def
  have r: "fold memory_run es (?t0, []) = (\<lparr>mt_limit = 10000, mt_current = 4196, mt_peak = 8792\<rparr>, [4096])"
    by (simp add: es_def eval)
  have "mt_peak \<lparr>mt_limit = 10000, mt_current = 4196, mt_peak = 8792\<rparr> = Max (set (counter_trace es (?t0, [])))"
    using memory_limit_respected [OF n r] by blast
  then have "Max (set (counter_trace es (?t0, []))) = 8792" by simp
  moreover have "mms_peak_bytes (tracker_snapshot \<lparr>mt_limit = 10000, mt_current = 4196, mt_peak = 8792\<rparr>) \<le> 10000"
    using memory_limit_respected [OF n r] by blast
  ultimately show ?thesis using n r unfolding es_def [symmetric]
    by (intro exI [of _ ?t0] exI [of _ "\<lparr>mt_limit = 10000, mt_current = 4196, mt_peak = 8792\<rparr>"] exI [of _ "[4096]"] conjI)
       simp_all
qed

end
