(* ===== verification/Staging.thy ===== *)
theory Staging
  imports Record_Codec Managed_Memory Recovery_Pages
begin

text \<open>
  \<^verbatim>\<open>region/staging.rs\<close>: the fixed staging buffers between appends and span writes. Each shard has a
  fill buffer, in which records are enc_bytes one after the other, and a spare that takes its place
  while a sealed span is written. Every operation returns the Rust result and the staging it leaves;
  the shard mutex ignores poisoning, so a lock always succeeds. A fixed lease is its contents, all
  initialized. \<open>None\<close> is a panic.
\<close>

section \<open>Staged records\<close>

definition MAX_STAGING_RECORDS :: nat where "MAX_STAGING_RECORDS = 4096"
definition UPSERT_PUBLICATION :: u64 where "UPSERT_PUBLICATION = push_bit 63 1"

datatype stage_append = Appended nat nat | NeedsSeal

record shard_fill_snapshot =
  sfs_bytes :: nat
  sfs_records :: nat

record staged_record =
  stg_hash :: u64
  stg_entry :: index_entry
  stg_seqno :: nat
  stg_previous :: u64

definition staged_new :: "u64 \<Rightarrow> index_entry \<Rightarrow> nat \<Rightarrow> staged_record" where
  "staged_new hash entry seqno =
     \<lparr>stg_hash = hash, stg_entry = entry, stg_seqno = seqno, stg_previous = UPSERT_PUBLICATION\<rparr>"

definition staged_reinsert :: "u64 \<Rightarrow> index_entry \<Rightarrow> nat \<Rightarrow> packed_location \<Rightarrow> staged_record" where
  "staged_reinsert hash entry seqno previous =
     \<lparr>stg_hash = hash, stg_entry = entry, stg_seqno = seqno, stg_previous = raw previous\<rparr>"

definition staged_previous_location :: "staged_record \<Rightarrow> packed_location option" where
  "staged_previous_location r =
     (if stg_previous r = UPSERT_PUBLICATION then None else Some (PackedLocation (stg_previous r)))"

definition staged_set_location :: "packed_location \<Rightarrow> staged_record \<Rightarrow> staged_record" where
  "staged_set_location loc r = r\<lparr>stg_entry := (stg_entry r)\<lparr>location := loc\<rparr>\<rparr>"

datatype staging_error =
    StagingFailed
  | StagingClosed
  | StagingInvalidShard
  | StagingWouldBlock
  | StagingStaleReceipt
  | StagingInvariant string

datatype 'e staging_encode_error = StagingCause staging_error | EncodeCause 'e

text \<open>A \<^verbatim>\<open>Vec\<close> of staged records with its capacity.\<close>

record record_vec =
  vec_items :: "staged_record list"
  vec_capacity :: nat

definition vec_push :: "staged_record \<Rightarrow> record_vec \<Rightarrow> record_vec" where
  "vec_push r v = v\<lparr>vec_items := vec_items v @ [r], vec_capacity := max (vec_capacity v) (length (vec_items v) + 1)\<rparr>"

definition vec_clear :: "record_vec \<Rightarrow> record_vec" where
  "vec_clear v = v\<lparr>vec_items := []\<rparr>"

section \<open>State\<close>

record fill_chunk =
  fc_buffer :: "bytes option"
  fc_records :: record_vec
  fc_region_id :: nat
  fc_start_offset :: nat
  fc_end_offset :: nat
  fc_max_seqno :: nat

definition fill_new :: "bytes \<Rightarrow> record_vec \<Rightarrow> fill_chunk" where
  "fill_new buffer records =
     \<lparr>fc_buffer = Some buffer, fc_records = records, fc_region_id = 0, fc_start_offset = 0, fc_end_offset = 0, fc_max_seqno = 0\<rparr>"

definition fill_is_empty :: "fill_chunk \<Rightarrow> bool" where
  "fill_is_empty f \<longleftrightarrow> vec_items (fc_records f) = []"

definition fill_used :: "fill_chunk \<Rightarrow> nat option" where
  "fill_used f = Option.bind (checked_sub (fc_end_offset f) (fc_start_offset f)) (try_from usize_max)"

definition fill_reset :: "bytes \<Rightarrow> fill_chunk \<Rightarrow> fill_chunk" where
  "fill_reset buffer f =
     \<lparr>fc_buffer = Some buffer, fc_records = vec_clear (fc_records f), fc_region_id = 0, fc_start_offset = 0,
      fc_end_offset = 0, fc_max_seqno = 0\<rparr>"

record shard_state =
  fill :: fill_chunk
  spare_buffer :: "bytes option"
  spare_records :: "record_vec option"
  encoding :: "append_reservation option"
  submitted :: "write_span option"
  failed :: bool
  closed :: bool

record append_staging =
  as_shards :: "shard_state list"
  as_chunk_bytes :: nat
  as_region_size :: nat

definition update_staging :: "nat \<Rightarrow> (shard_state \<Rightarrow> shard_state) \<Rightarrow> append_staging \<Rightarrow> append_staging" where
  "update_staging k f a = a\<lparr>as_shards := (as_shards a)[k := f (as_shards a ! k)]\<rparr>"

definition ensure_open :: "shard_state \<Rightarrow> staging_error + unit" where
  "ensure_open st = (if failed st then Inl StagingFailed else if closed st then Inl StagingClosed else Inr ())"

section \<open>Construction\<close>

definition STAGED_RECORD_SIZE :: nat where "STAGED_RECORD_SIZE = 32"

definition reservation_bytes :: "nat \<Rightarrow> nat \<Rightarrow> nat option" where
  "reservation_bytes nshards chunk_bytes = do {
     buffers_per_shard \<leftarrow> checked_mul usize_max chunk_bytes 2;
     records \<leftarrow> checked_mul usize_max MAX_STAGING_RECORDS STAGED_RECORD_SIZE;
     records_per_shard \<leftarrow> checked_mul usize_max records 2;
     per_shard \<leftarrow> checked_add usize_max buffers_per_shard records_per_shard;
     checked_mul usize_max per_shard nshards
   }"

definition try_staged_records :: "allocator \<Rightarrow> managed_memory_error + record_vec" where
  "try_staged_records alloc =
     (if alloc MAX_STAGING_RECORDS then Inr \<lparr>vec_items = [], vec_capacity = MAX_STAGING_RECORDS\<rparr> else Inl AllocationFailed)"

definition fresh_shard :: "allocator \<Rightarrow> nat \<Rightarrow> managed_memory_error + shard_state" where
  "fresh_shard alloc chunk_bytes =
     bind_result (lease_try_fixed alloc chunk_bytes) (\<lambda>fill_buffer.
     bind_result (lease_try_fixed alloc chunk_bytes) (\<lambda>spare.
     bind_result (try_staged_records alloc) (\<lambda>fill_records.
     bind_result (try_staged_records alloc) (\<lambda>spare_recs.
     Inr \<lparr>fill = fill_new (bl_contents fill_buffer) fill_records, spare_buffer = Some (bl_contents spare),
          spare_records = Some spare_recs, encoding = None, submitted = None, failed = False, closed = False\<rparr>))))"

fun fresh_shards :: "allocator \<Rightarrow> nat \<Rightarrow> nat \<Rightarrow> managed_memory_error + shard_state list" where
  "fresh_shards alloc chunk_bytes 0 = Inr []"
| "fresh_shards alloc chunk_bytes (Suc n) =
     bind_result (fresh_shard alloc chunk_bytes) (\<lambda>st.
     bind_result (fresh_shards alloc chunk_bytes n) (\<lambda>rest. Inr (st # rest)))"

text \<open>An error drops the memory reservation again.\<close>

definition staging_try_new ::
    "allocator \<Rightarrow> nat list \<Rightarrow> nat \<Rightarrow> nat \<Rightarrow> nat \<Rightarrow> memory_tracker \<Rightarrow> (managed_memory_error + append_staging) \<times> memory_tracker" where
  "staging_try_new alloc observed nshards chunk_bytes rsize t =
     (if nshards = 0 then (Inl (InvalidMemory ''Region staging requires at least one shard''), t)
      else if rsize < RECOVERY_PAGE_SIZE \<or> rsize mod BUFFER_ALIGNMENT \<noteq> 0
      then (Inl (InvalidMemory ''Region staging Region size is invalid''), t)
      else case try_from usize_max rsize of
        None \<Rightarrow> (Inl (InvalidMemory ''Region staging Region size does not fit usize''), t)
      | Some region_bytes \<Rightarrow>
      if chunk_bytes = 0 \<or> chunk_bytes > region_bytes \<or> chunk_bytes mod BUFFER_ALIGNMENT \<noteq> 0
         \<or> chunk_bytes mod RECORD_ALIGNMENT \<noteq> 0
      then (Inl (InvalidMemory ''Region staging chunk must be a bounded aligned size''), t)
      else case reservation_bytes nshards chunk_bytes of
        None \<Rightarrow> (Inl AllocationFailed, t)
      | Some reserved \<Rightarrow>
     (case reserve_runtime_memory observed reserved t of
        (Inl e, t') \<Rightarrow> (Inl e, t')
      | (Inr charge, t') \<Rightarrow>
          if \<not> alloc nshards then (Inl AllocationFailed, tracker_release charge t')
          else (case fresh_shards alloc chunk_bytes nshards of
             Inl e \<Rightarrow> (Inl e, tracker_release charge t')
           | Inr shards \<Rightarrow> (Inr \<lparr>as_shards = shards, as_chunk_bytes = chunk_bytes, as_region_size = rsize\<rparr>, t'))))"

section \<open>Preflight\<close>

definition preflight_append :: "append_staging \<Rightarrow> nat \<Rightarrow> nat \<Rightarrow> staging_error + stage_append" where
  "preflight_append a k record_bytes =
     (if record_bytes = 0 \<or> record_bytes > as_chunk_bytes a \<or> record_bytes mod RECORD_ALIGNMENT \<noteq> 0
      then Inl (StagingInvariant ''staging preflight record length is invalid'')
      else
        bind_result (ok_or StagingInvalidShard (get_at (as_shards a) k)) (\<lambda>st.
        bind_result (ensure_open st) (\<lambda>_.
        if encoding st \<noteq> None then Inl StagingWouldBlock
        else
          bind_result (ok_or (StagingInvariant ''staging fill length overflow'') (fill_used (fill st))) (\<lambda>used.
          if length (vec_items (fc_records (fill st))) = MAX_STAGING_RECORDS
             \<or> (case checked_add usize_max used record_bytes of None \<Rightarrow> True | Some e \<Rightarrow> e > as_chunk_bytes a)
          then Inr NeedsSeal
          else Inr (Appended used (used + record_bytes))))))"

definition shard_fill_snapshot :: "append_staging \<Rightarrow> nat \<Rightarrow> staging_error + shard_fill_snapshot option" where
  "shard_fill_snapshot a k =
     bind_result (ok_or StagingInvalidShard (get_at (as_shards a) k)) (\<lambda>st.
     bind_result (ensure_open st) (\<lambda>_.
     if encoding st \<noteq> None then Inl StagingWouldBlock
     else if submitted st \<noteq> None then Inl StagingWouldBlock
     else if fill_is_empty (fill st) then Inr None
     else
       bind_result (ok_or (StagingInvariant ''staging fill snapshot has an invalid length'')
         (Option.bind (fill_used (fill st)) (\<lambda>n. if n \<noteq> 0 \<and> n \<le> as_chunk_bytes a then Some n else None))) (\<lambda>n.
       Inr (Some \<lparr>sfs_bytes = n, sfs_records = length (vec_items (fc_records (fill st)))\<rparr>))))"

section \<open>Encoding into the fill buffer\<close>

definition reservation_end :: "append_reservation \<Rightarrow> nat option" where
  "reservation_end r = checked_add u64_max (ra_offset r) (ra_record_bytes r)"

definition validate_reservation :: "append_staging \<Rightarrow> append_reservation \<Rightarrow> staging_error + unit" where
  "validate_reservation a r =
     bind_result (ok_or StagingStaleReceipt (reservation_end r)) (\<lambda>e.
     if ra_seqno r = 0 \<or> ra_record_bytes r = 0 \<or> ra_record_bytes r mod RECORD_ALIGNMENT \<noteq> 0
        \<or> ra_offset r mod RECORD_ALIGNMENT \<noteq> 0 \<or> e > as_region_size a
     then Inl StagingStaleReceipt else Inr ())"

definition validate_record :: "append_staging \<Rightarrow> append_reservation \<Rightarrow> staged_record \<Rightarrow> staging_error + unit" where
  "validate_record a r record =
     bind_result (validate_reservation a r) (\<lambda>_.
     let loc = location (stg_entry record) in
     if unat (region_id loc) \<noteq> ra_region_id r \<or> unat (offset loc) \<noteq> ra_offset r
        \<or> unat (record_len loc) \<noteq> ra_record_bytes r \<or> stg_seqno record \<noteq> ra_seqno r
     then Inl StagingStaleReceipt else Inr ())"

text \<open>The first critical section: it takes the buffer out of the shard and fences it with the receipt.\<close>

definition begin_encoding ::
    "append_staging \<Rightarrow> append_reservation \<Rightarrow> shard_state \<Rightarrow> (staging_error + (nat \<times> nat \<times> bytes) option) \<times> shard_state" where
  "begin_encoding a r st =
     (case ensure_open st of
        Inl e \<Rightarrow> (Inl e, st)
      | Inr _ \<Rightarrow>
     if encoding st \<noteq> None then (Inl StagingWouldBlock, st)
     else case fill_used (fill st) of
        None \<Rightarrow> (Inl (StagingInvariant ''staging fill length overflow''), st)
      | Some used \<Rightarrow>
     if ra_record_bytes r > as_chunk_bytes a then (Inl (StagingInvariant ''staging record exceeds one chunk''), st)
     else if length (vec_items (fc_records (fill st))) = MAX_STAGING_RECORDS
        \<or> (case checked_add usize_max used (ra_record_bytes r) of None \<Rightarrow> True | Some e \<Rightarrow> e > as_chunk_bytes a)
     then (Inr None, st)
     else if \<not> fill_is_empty (fill st)
        \<and> (fc_region_id (fill st) \<noteq> ra_region_id r \<or> fc_end_offset (fill st) \<noteq> ra_offset r \<or> ra_seqno r \<le> fc_max_seqno (fill st))
     then (Inl StagingStaleReceipt, st)
     else case checked_add usize_max used (ra_record_bytes r) of
        None \<Rightarrow> (Inl (StagingInvariant ''staging fill cursor overflow''), st)
      | Some e \<Rightarrow>
     case fc_buffer (fill st) of
        None \<Rightarrow> (Inl (StagingInvariant ''staging fill lost its buffer''), st)
      | Some buffer \<Rightarrow>
          (Inr (Some (used, e, buffer)), st\<lparr>fill := (fill st)\<lparr>fc_buffer := None\<rparr>, encoding := Some r\<rparr>))"

text \<open>\<^verbatim>\<open>EncodingBuffer::drop\<close>, when the guard still owns the buffer.\<close>

definition drop_encoding_buffer :: "append_reservation \<Rightarrow> bytes \<Rightarrow> shard_state \<Rightarrow> shard_state" where
  "drop_encoding_buffer r buffer st =
     (if encoding st = Some r \<and> fc_buffer (fill st) = None
      then st\<lparr>fill := (fill st)\<lparr>fc_buffer := Some buffer\<rparr>, encoding := None\<rparr>
      else st\<lparr>failed := True\<rparr>)"

text \<open>The second critical section: the record joins the fill chunk.\<close>

definition finish_encoding ::
    "append_reservation \<Rightarrow> nat \<Rightarrow> nat \<Rightarrow> bytes \<Rightarrow> staged_record \<Rightarrow> shard_state \<Rightarrow> (staging_error + stage_append) \<times> shard_state" where
  "finish_encoding r start0 end0 buffer record st =
     (if encoding st \<noteq> Some r \<or> fc_buffer (fill st) \<noteq> None
      then (Inl StagingStaleReceipt, drop_encoding_buffer r buffer (st\<lparr>failed := True\<rparr>))
      else case ensure_open st of
        Inl e \<Rightarrow> (Inl e, drop_encoding_buffer r buffer st)
      | Inr _ \<Rightarrow>
     let f = (if fill_is_empty (fill st)
              then (fill st)\<lparr>fc_region_id := ra_region_id r, fc_start_offset := ra_offset r\<rparr> else fill st) in
     case reservation_end r of
        None \<Rightarrow> (Inl (StagingInvariant ''staging reservation end overflow''), st\<lparr>fill := f\<rparr>)
      | Some e \<Rightarrow>
          (Inr (Appended start0 end0),
           st\<lparr>fill := f\<lparr>fc_end_offset := e, fc_max_seqno := max (fc_max_seqno f) (ra_seqno r),
                       fc_records := vec_push record (fc_records f), fc_buffer := Some buffer\<rparr>,
              encoding := None\<rparr>))"

text \<open>The encoder gets the reserved slice of the buffer and gives it back with its result.\<close>

definition encode_reserved ::
    "append_reservation \<Rightarrow> (bytes \<Rightarrow> (('e + staged_record) \<times> bytes) option) \<Rightarrow> append_staging
      \<Rightarrow> (('e staging_encode_error + stage_append) \<times> append_staging) option" where
  "encode_reserved r encode a =
     (case validate_reservation a r of
        Inl e \<Rightarrow> Some (Inl (StagingCause e), a)
      | Inr _ \<Rightarrow>
     case get_at (as_shards a) (ra_shard_id r) of
        None \<Rightarrow> Some (Inl (StagingCause StagingInvalidShard), a)
      | Some st \<Rightarrow>
     case begin_encoding a r st of
        (Inl e, st') \<Rightarrow> Some (Inl (StagingCause e), update_staging (ra_shard_id r) (\<lambda>_. st') a)
      | (Inr None, st') \<Rightarrow> Some (Inr NeedsSeal, update_staging (ra_shard_id r) (\<lambda>_. st') a)
      | (Inr (Some (start0, end0, buffer)), st') \<Rightarrow>
     case prepared buffer end0 of
        None \<Rightarrow> Some (Inl (StagingCause (StagingInvariant ''staging fill buffer is undersized'')),
                      update_staging (ra_shard_id r) (\<lambda>_. drop_encoding_buffer r buffer st') a)
      | Some enc_bytes \<Rightarrow>
     case Option.bind (slice_at enc_bytes start0 end0) encode of
        None \<Rightarrow> None
      | Some (Inl e, out) \<Rightarrow>
          Some (Inl (EncodeCause e),
                update_staging (ra_shard_id r) (\<lambda>_. drop_encoding_buffer r (overwrite buffer start0 out) st') a)
      | Some (Inr record, out) \<Rightarrow>
     case validate_record a r record of
        Inl e \<Rightarrow> Some (Inl (StagingCause e),
                        update_staging (ra_shard_id r) (\<lambda>_. drop_encoding_buffer r (overwrite buffer start0 out) st') a)
      | Inr _ \<Rightarrow>
     case finish_encoding r start0 end0 (overwrite buffer start0 out) record st' of
        (Inl e, st'') \<Rightarrow> Some (Inl (StagingCause e), update_staging (ra_shard_id r) (\<lambda>_. st'') a)
      | (Inr ok, st'') \<Rightarrow> Some (Inr ok, update_staging (ra_shard_id r) (\<lambda>_. st'') a))"

section \<open>Padding\<close>

text \<open>
  The body of \<^verbatim>\<open>apply_write_padding\<close> on the fill chunk: its result and the chunk it leaves. The added bytes
  are zeroed before the header of the last record is read back.
\<close>

definition pad_last_record ::
    "crc_stream \<Rightarrow> append_staging \<Rightarrow> padding_receipt \<Rightarrow> nat \<Rightarrow> nat \<Rightarrow> nat \<Rightarrow> staged_record \<Rightarrow> fill_chunk
      \<Rightarrow> ((staging_error + unit) \<times> fill_chunk) option" where
  "pad_last_record digest a p padding used padded_used lst f =
     (let loc = location (stg_entry lst); old_record_len = unat (record_len loc) in
      case Option.bind (checked_add u32_max old_record_len padding) (\<lambda>n. if n \<le> MAX_RECORD_LEN then Some n else None) of
        None \<Rightarrow> Some (Inl (StagingInvariant ''padded record exceeds the record-format limit''), f)
      | Some new_record_len \<Rightarrow>
      case checked_add u64_max (unat (offset loc)) old_record_len of
        None \<Rightarrow> Some (Inl StagingStaleReceipt, f)
      | Some record_end \<Rightarrow>
      if unat (region_id loc) \<noteq> rp_region_id p \<or> stg_seqno lst \<noteq> rp_max_seqno p \<or> record_end \<noteq> rp_unpadded_end_offset p
      then Some (Inl StagingStaleReceipt, f)
      else case fc_buffer f of
        None \<Rightarrow> Some (Inl (StagingInvariant ''staging fill lost its buffer''), f)
      | Some buffer \<Rightarrow>
      case prepared buffer padded_used of
        None \<Rightarrow> Some (Inl (StagingInvariant ''staging buffer is undersized''), f)
      | Some _ \<Rightarrow>
      case location_new (of_nat (rp_region_id p)) (offset loc) (of_nat new_record_len) of
        Inl _ \<Rightarrow> Some (Inl (StagingInvariant ''padded location is invalid''), f)
      | Inr padded_location \<Rightarrow> do {
      buffer \<leftarrow> (if used \<le> padded_used then write_range buffer used (replicate (padded_used - used) 0) else None);
      case checked_sub used old_record_len of
        None \<Rightarrow> Some (Inl (StagingInvariant ''staging record start underflow''), f\<lparr>fc_buffer := Some buffer\<rparr>)
      | Some record_start \<Rightarrow>
      case checked_add usize_max record_start RECORD_HEADER_SIZE of
        None \<Rightarrow> Some (Inl (StagingInvariant ''staging header range overflow''), f\<lparr>fc_buffer := Some buffer\<rparr>)
      | Some header_end \<Rightarrow>
      case slice_at (take padded_used buffer) record_start header_end of
        None \<Rightarrow> Some (Inl (StagingInvariant ''staging header is out of bounds''), f\<lparr>fc_buffer := Some buffer\<rparr>)
      | Some header_bytes \<Rightarrow>
      case decode_header digest header_bytes of
        None \<Rightarrow> Some (Inl (StagingInvariant ''staging final record header is invalid''), f\<lparr>fc_buffer := Some buffer\<rparr>)
      | Some header \<Rightarrow> do {
      enc_bytes \<leftarrow> encode_header digest (header\<lparr>hdr_record_len := of_nat new_record_len\<rparr>);
      buffer \<leftarrow> write_range buffer record_start enc_bytes;
      Some (Inr (), f\<lparr>fc_buffer := Some buffer,
          fc_records := (fc_records f)\<lparr>vec_items := butlast (vec_items (fc_records f)) @ [staged_set_location padded_location lst]\<rparr>,
          fc_end_offset := rp_padded_end_offset p\<rparr>)
      }})"

definition pad_fill ::
    "crc_stream \<Rightarrow> append_staging \<Rightarrow> padding_receipt \<Rightarrow> fill_chunk \<Rightarrow> ((staging_error + unit) \<times> fill_chunk) option" where
  "pad_fill digest a p f =
     (case Option.bind (padding_bytes p)
         (\<lambda>n. if n \<noteq> 0 \<and> n < DIRECT_IO_ALIGNMENT \<and> n mod RECORD_ALIGNMENT = 0 then Some n else None) of
        None \<Rightarrow> Some (Inl StagingStaleReceipt, f)
      | Some padding \<Rightarrow>
     if rp_span_start_offset p \<ge> rp_unpadded_end_offset p
        \<or> rp_span_start_offset p mod DIRECT_IO_ALIGNMENT \<noteq> 0
        \<or> rp_unpadded_end_offset p mod RECORD_ALIGNMENT \<noteq> 0
        \<or> rp_padded_end_offset p mod DIRECT_IO_ALIGNMENT \<noteq> 0
        \<or> rp_padded_end_offset p > as_region_size a
        \<or> fill_is_empty f \<or> fc_region_id f \<noteq> rp_region_id p
        \<or> fc_start_offset f \<noteq> rp_span_start_offset p \<or> fc_end_offset f \<noteq> rp_unpadded_end_offset p
        \<or> length (vec_items (fc_records f)) \<noteq> rp_record_count p \<or> fc_max_seqno f \<noteq> rp_max_seqno p
     then Some (Inl StagingStaleReceipt, f)
     else case fill_used f of
        None \<Rightarrow> Some (Inl (StagingInvariant ''staging fill length overflow''), f)
      | Some used \<Rightarrow>
     case Option.bind (checked_add usize_max used padding) (\<lambda>n. if n \<le> as_chunk_bytes a then Some n else None) of
        None \<Rightarrow> Some (Inl (StagingInvariant ''staging padding exceeds its fixed chunk''), f)
      | Some padded_used \<Rightarrow>
     case Option.bind (checked_sub (rp_padded_end_offset p) (rp_span_start_offset p)) (try_from usize_max) of
        None \<Rightarrow> Some (Inl StagingStaleReceipt, f)
      | Some expected_padded_used \<Rightarrow>
     if padded_used \<noteq> expected_padded_used then Some (Inl StagingStaleReceipt, f)
     else if vec_items (fc_records f) = [] then Some (Inl StagingStaleReceipt, f)
     else pad_last_record digest a p padding used padded_used (last (vec_items (fc_records f))) f)"

definition apply_write_padding ::
    "crc_stream \<Rightarrow> padding_receipt \<Rightarrow> append_staging \<Rightarrow> ((staging_error + unit) \<times> append_staging) option" where
  "apply_write_padding digest p a =
     (case get_at (as_shards a) (rp_shard_id p) of
        None \<Rightarrow> Some (Inl StagingInvalidShard, a)
      | Some st \<Rightarrow>
     case ensure_open st of
        Inl e \<Rightarrow> Some (Inl e, a)
      | Inr _ \<Rightarrow>
     case (if encoding st \<noteq> None \<or> submitted st \<noteq> None then Some (Inl StagingWouldBlock, fill st)
           else pad_fill digest a p (fill st)) of
        None \<Rightarrow> None
      | Some (Inl e, f) \<Rightarrow> Some (Inl e, update_staging (rp_shard_id p) (\<lambda>_. st\<lparr>fill := f, failed := True\<rparr>) a)
      | Some (Inr _, f) \<Rightarrow> Some (Inr (), update_staging (rp_shard_id p) (\<lambda>_. st\<lparr>fill := f\<rparr>) a))"

section \<open>Sealing and completion\<close>

record io_buffer =
  ib_lease :: bytes
  ib_length :: nat

definition io_buffer_for_write :: "bytes \<Rightarrow> nat \<Rightarrow> bytes + io_buffer" where
  "io_buffer_for_write lease n =
     (if n > u32_max then Inl lease
      else if prepared lease n = None then Inl lease
      else Inr \<lparr>ib_lease = lease, ib_length = n\<rparr>)"

record staged_write =
  sw_span :: write_span
  sw_buffer :: io_buffer
  sw_absolute :: nat
  sw_records :: record_vec

fun records_in_span :: "nat \<Rightarrow> nat \<Rightarrow> nat \<Rightarrow> staged_record list \<Rightarrow> (nat \<times> nat) option" where
  "records_in_span rid off high [] = Some (off, high)"
| "records_in_span rid off high (r # rs) =
     (let loc = location (stg_entry r) in
      if unat (region_id loc) \<noteq> rid \<or> unat (offset loc) \<noteq> off \<or> stg_seqno r = 0 \<or> stg_seqno r \<le> high then None
      else case checked_add u64_max off (unat (record_len loc)) of
        None \<Rightarrow> None
      | Some e \<Rightarrow> records_in_span rid e (stg_seqno r) rs)"

definition span_matches_records :: "write_span \<Rightarrow> staged_record list \<Rightarrow> bool" where
  "span_matches_records span rs =
     (if ws_record_count span = 0 \<or> ws_record_count span \<noteq> length rs then False
      else case records_in_span (ws_region_id span) (ws_start_offset span) 0 rs of
        None \<Rightarrow> False
      | Some (off, high) \<Rightarrow> off = ws_end_offset span \<and> high = ws_max_seqno span)"

definition span_absolute :: "append_staging \<Rightarrow> write_span \<Rightarrow> staging_error + nat" where
  "span_absolute a span =
     (if ws_end_offset span > as_region_size a then Inl StagingStaleReceipt
      else
        bind_result (ok_or (StagingInvariant ''staging Region offset overflow'') (checked_mul u64_max (ws_region_id span) (as_region_size a))) (\<lambda>base.
        ok_or (StagingInvariant ''staging absolute offset overflow'')
          (Option.bind (checked_add u64_max DATA_REGION_AREA_OFFSET base) (\<lambda>b. checked_add u64_max b (ws_start_offset span)))))"

definition take_sealed :: "write_span \<Rightarrow> append_staging \<Rightarrow> (staging_error + staged_write option) \<times> append_staging" where
  "take_sealed span a =
     (case get_at (as_shards a) (ws_shard_id span) of
        None \<Rightarrow> (Inl StagingInvalidShard, a)
      | Some st \<Rightarrow>
     let put = (\<lambda>st'. update_staging (ws_shard_id span) (\<lambda>_. st') a) in
     case ensure_open st of
        Inl e \<Rightarrow> (Inl e, a)
      | Inr _ \<Rightarrow>
     if encoding st \<noteq> None \<or> submitted st \<noteq> None then (Inl StagingWouldBlock, a)
     else if fill_is_empty (fill st) then (Inr None, a)
     else if \<not> span_matches_records span (vec_items (fc_records (fill st))) \<or> fc_region_id (fill st) \<noteq> ws_region_id span
        \<or> fc_start_offset (fill st) \<noteq> ws_start_offset span \<or> fc_end_offset (fill st) \<noteq> ws_end_offset span
        \<or> fc_max_seqno (fill st) \<noteq> ws_max_seqno span
     then (Inl StagingStaleReceipt, put (st\<lparr>failed := True\<rparr>))
     else case Option.bind (checked_sub (ws_end_offset span) (ws_start_offset span)) (try_from usize_max) of
        None \<Rightarrow> (Inl StagingStaleReceipt, a)
      | Some n \<Rightarrow>
     if n = 0 \<or> n > as_chunk_bytes a then (Inl StagingStaleReceipt, put (st\<lparr>failed := True\<rparr>))
     else case span_absolute a span of
        Inl e \<Rightarrow> (Inl e, a)
      | Inr absolute \<Rightarrow>
     case fc_buffer (fill st) of
        None \<Rightarrow> (Inl (StagingInvariant ''staging fill lost its buffer''), put (st\<lparr>failed := True\<rparr>))
      | Some fill_buffer \<Rightarrow>
     case io_buffer_for_write fill_buffer n of
        Inl lease \<Rightarrow> (Inl (StagingInvariant ''staging could not expose its fill lease''),
                      put (st\<lparr>fill := (fill st)\<lparr>fc_buffer := Some lease\<rparr>, failed := True\<rparr>))
      | Inr buffer \<Rightarrow>
     case spare_buffer st of
        None \<Rightarrow> (Inl (StagingInvariant ''staging lost its second fixed buffer''),
                 put (st\<lparr>fill := (fill st)\<lparr>fc_buffer := None\<rparr>, failed := True\<rparr>))
      | Some replacement_buffer \<Rightarrow>
     case spare_records st of
        None \<Rightarrow> (Inl (StagingInvariant ''staging lost its second record vector''),
                 put (st\<lparr>fill := (fill st)\<lparr>fc_buffer := None\<rparr>, spare_buffer := None, failed := True\<rparr>))
      | Some replacement_records \<Rightarrow>
          (Inr (Some \<lparr>sw_span = span, sw_buffer = buffer, sw_absolute = absolute, sw_records = fc_records (fill st)\<rparr>),
           put (st\<lparr>fill := fill_reset replacement_buffer ((fill st)\<lparr>fc_records := replacement_records\<rparr>),
                   spare_buffer := None, spare_records := None, submitted := Some span\<rparr>)))"

definition finish_span :: "write_span \<Rightarrow> io_buffer option \<Rightarrow> record_vec \<Rightarrow> bool \<Rightarrow> append_staging \<Rightarrow> (staging_error + unit) \<times> append_staging" where
  "finish_span span buffer records write_failed a =
     (case get_at (as_shards a) (ws_shard_id span) of
        None \<Rightarrow> (Inl StagingInvalidShard, a)
      | Some st \<Rightarrow>
     let put = (\<lambda>st'. update_staging (ws_shard_id span) (\<lambda>_. st') a);
         expected_len = Option.bind (checked_sub (ws_end_offset span) (ws_start_offset span)) (try_from usize_max);
         buffer_valid = (case buffer of None \<Rightarrow> write_failed | Some b \<Rightarrow> expected_len = Some (ib_length b));
         completion_valid = (buffer_valid \<and> vec_capacity records \<ge> MAX_STAGING_RECORDS
            \<and> span_matches_records span (vec_items records)) in
     if submitted st \<noteq> Some span \<or> \<not> completion_valid then (Inl StagingStaleReceipt, put (st\<lparr>failed := True\<rparr>))
     else if spare_buffer st \<noteq> None \<or> spare_records st \<noteq> None
     then (Inl (StagingInvariant ''staging completion found occupied spare resources''), put (st\<lparr>failed := True\<rparr>))
     else
       let st' = st\<lparr>spare_buffer := map_option ib_lease buffer, spare_records := Some (vec_clear records),
                    submitted := None, failed := (failed st \<or> write_failed)\<rparr> in
       (if write_failed then Inr () else if failed st' then Inl StagingFailed else if closed st' then Inl StagingClosed else Inr (),
        put st'))"

definition finish_success :: "write_span \<Rightarrow> io_buffer \<Rightarrow> record_vec \<Rightarrow> append_staging \<Rightarrow> (staging_error + unit) \<times> append_staging" where
  "finish_success span buffer records a = finish_span span (Some buffer) records False a"

definition finish_failure :: "write_span \<Rightarrow> io_buffer option \<Rightarrow> record_vec \<Rightarrow> append_staging \<Rightarrow> (staging_error + unit) \<times> append_staging" where
  "finish_failure span buffer records a = finish_span span buffer records True a"

definition staging_close :: "append_staging \<Rightarrow> append_staging" where
  "staging_close a = a\<lparr>as_shards := map (\<lambda>st. st\<lparr>closed := True\<rparr>) (as_shards a)\<rparr>"

end
