(* ===== verification/Record_Read.thy ===== *)
theory Record_Read
  imports Record_Codec Recovery_Pages Managed_Memory
begin

text \<open>
  The data path between the index and the device: where a write span and a record lie in the data
  file (\<^verbatim>\<open>region/appender.rs\<close>, \<^verbatim>\<open>region/reader.rs\<close>), and the validation of the bytes a read returned
  (\<^verbatim>\<open>finish_value_read\<close> of \<^verbatim>\<open>region/mod.rs\<close>). The device is a byte list; what the engine does between
  submission and completion is not modelled. A completion carries the bytes the engine read.
\<close>

section \<open>Write spans\<close>

definition invalid_input :: "string \<Rightarrow> io_error" where
  "invalid_input message = IoError InvalidInput message"

definition validate_span :: "data_geometry \<Rightarrow> write_span \<Rightarrow> io_error + nat \<times> nat" where
  "validate_span geometry span =
     (if \<not> geometry_is_valid geometry \<or> ws_region_id span \<ge> dg_region_count geometry
         \<or> ws_start_offset span mod DIRECT_IO_ALIGNMENT \<noteq> 0 \<or> ws_end_offset span mod DIRECT_IO_ALIGNMENT \<noteq> 0
         \<or> ws_end_offset span \<le> ws_start_offset span \<or> ws_end_offset span > dg_region_size geometry
         \<or> ws_record_count span = 0
      then Inl (invalid_input ''invalid Region write span'')
      else
        bind_result (ok_or (invalid_input ''Region write span length is invalid'')
          (Option.bind (Option.bind (checked_sub (ws_end_offset span) (ws_start_offset span)) (try_from usize_max))
             (\<lambda>n. if n \<noteq> 0 \<and> n mod DIRECT_IO_ALIGNMENT = 0 then Some n else None))) (\<lambda>n.
        bind_result (ok_or (invalid_input ''write offset overflow'')
          (Option.bind (Option.bind (checked_mul u64_max (ws_region_id span) (dg_region_size geometry))
             (\<lambda>off. checked_add u64_max off DATA_REGION_AREA_OFFSET))
             (\<lambda>off. checked_add u64_max off (ws_start_offset span)))) (\<lambda>absolute.
        bind_result (ok_or (invalid_input ''write end overflow'') (checked_add u64_max absolute n)) (\<lambda>absolute_end.
        if absolute mod DIRECT_IO_ALIGNMENT \<noteq> 0 \<or> absolute_end > dg_data_file_len geometry
        then Inl (invalid_input ''Region write span exceeds the data file'')
        else Inr (n, absolute)))))"

section \<open>Reads\<close>

definition MAX_READ_ALIGNMENT_OVERHEAD :: nat where "MAX_READ_ALIGNMENT_OVERHEAD = 2 * DIRECT_IO_ALIGNMENT"

record read_candidate =
  cand_entry :: index_entry
  cand_region_generation :: nat

record read_desc =
  desc_hash :: u64
  desc_entry :: index_entry
  desc_region_generation :: nat
  desc_absolute :: nat
  desc_read_len :: nat
  desc_record_start :: nat
  desc_record_end :: nat

definition align_up :: "nat \<Rightarrow> nat \<Rightarrow> nat option" where
  "align_up v alignment =
     Option.bind (checked_sub alignment 1) (\<lambda>below.
     map_option (\<lambda>e. e div alignment * alignment) (checked_add u64_max v below))"

definition describe_read :: "data_geometry \<Rightarrow> u64 \<Rightarrow> read_candidate \<Rightarrow> bool \<Rightarrow> io_error + read_desc" where
  "describe_read geometry hash candidate align_for_direct_io =
     (let loc = location (cand_entry candidate); off = unat (offset loc) in
      bind_result (ok_or (invalid_input ''Region record length does not fit this platform'')
        (try_from usize_max (unat (record_len loc)))) (\<lambda>record_len_upper.
      if \<not> geometry_is_valid geometry \<or> cand_region_generation candidate = 0
         \<or> unat (region_id loc) \<ge> dg_region_count geometry \<or> off mod RECORD_ALIGNMENT \<noteq> 0
         \<or> off \<ge> dg_region_size geometry \<or> record_len_upper = 0 \<or> record_len_upper mod RECORD_ALIGNMENT \<noteq> 0
      then Inl (invalid_input ''invalid durable Region record location'')
      else
        let bounded_len = min record_len_upper (dg_region_size geometry - off) in
        bind_result (ok_or (invalid_input ''bounded Region record length does not fit this platform'')
          (try_from usize_max bounded_len)) (\<lambda>rlen.
        bind_result (ok_or (invalid_input ''read offset overflow'')
          (Option.bind (Option.bind (checked_mul u64_max (unat (region_id loc)) (dg_region_size geometry))
             (\<lambda>base. checked_add u64_max DATA_REGION_AREA_OFFSET base))
             (\<lambda>base. checked_add u64_max base off))) (\<lambda>record_absolute.
        bind_result (ok_or (invalid_input ''Region record exceeds the data file'')
          (Option.bind (checked_add u64_max record_absolute bounded_len)
             (\<lambda>e. if e \<le> dg_data_file_len geometry then Some e else None))) (\<lambda>record_absolute_end.
        bind_result
          (if align_for_direct_io
           then bind_result (ok_or (invalid_input ''aligned read overflow'') (align_up record_absolute_end DIRECT_IO_ALIGNMENT))
                  (\<lambda>e. Inr (record_absolute div DIRECT_IO_ALIGNMENT * DIRECT_IO_ALIGNMENT, e))
           else Inr (record_absolute, record_absolute_end)) (\<lambda>(absolute, io_end).
        bind_result (ok_or (invalid_input ''invalid Region record read'')
          (Option.bind (Option.bind (checked_sub io_end absolute) (try_from usize_max))
             (\<lambda>n. if n \<noteq> 0 \<and> (\<not> align_for_direct_io \<or> n mod DIRECT_IO_ALIGNMENT = 0) then Some n else None))) (\<lambda>read_len.
        bind_result (ok_or (invalid_input ''record slice overflow'')
          (Option.bind (checked_sub record_absolute absolute) (try_from usize_max))) (\<lambda>record_start.
        bind_result (ok_or (invalid_input ''record slice end overflow'') (checked_add usize_max record_start rlen)) (\<lambda>record_end.
        bind_result (ok_or (invalid_input ''Region read is shorter than its candidate range'') (checked_sub read_len rlen)) (\<lambda>overhead.
        if record_end > read_len
           \<or> align_for_direct_io \<and> (absolute mod DIRECT_IO_ALIGNMENT \<noteq> 0 \<or> overhead \<ge> MAX_READ_ALIGNMENT_OVERHEAD)
           \<or> io_end > dg_data_file_len geometry
        then Inl (invalid_input ''Region read exceeds its bounds'')
        else Inr \<lparr>desc_hash = hash, desc_entry = cand_entry candidate,
               desc_region_generation = cand_region_generation candidate, desc_absolute = absolute,
               desc_read_len = read_len, desc_record_start = record_start, desc_record_end = record_end\<rparr>))))))))))"

section \<open>Completions\<close>

record read_completion =
  rcp_desc :: read_desc
  rcp_result :: "io_error + unit"
  rcp_buffer :: "bytes option"

definition record_bytes :: "read_completion \<Rightarrow> bytes option" where
  "record_bytes c =
     (case rcp_result c of Inl _ \<Rightarrow> None
      | Inr _ \<Rightarrow>
          Option.bind (rcp_buffer c) (\<lambda>lease.
          Option.bind (prepared lease (desc_read_len (rcp_desc c))) (\<lambda>bytes.
          slice_at bytes (desc_record_start (rcp_desc c)) (desc_record_end (rcp_desc c)))))"

record region_value =
  rv_buffer :: bytes
  rv_buffer_len :: nat
  rv_start :: nat
  rv_end :: nat
  rv_seqno :: u64

definition region_value_bytes :: "region_value \<Rightarrow> bytes option" where
  "region_value_bytes v =
     Option.bind (prepared (rv_buffer v) (rv_buffer_len v)) (\<lambda>bytes. slice_at bytes (rv_start v) (rv_end v))"

primrec is_read_pressure :: "io_error_kind \<Rightarrow> bool" where
  "is_read_pressure OutOfMemory = True"
| "is_read_pressure WouldBlockKind = True"
| "is_read_pressure TimedOut = True"
| "is_read_pressure Interrupted = True"
| "is_read_pressure BrokenPipe = True"
| "is_read_pressure InvalidInput = False"
| "is_read_pressure InvalidData = False"
| "is_read_pressure UnexpectedEof = False"
| "is_read_pressure OtherIo = False"

primrec error_kind :: "io_error \<Rightarrow> io_error_kind" where
  "error_kind (IoError k m) = k"

text \<open>
  \<^verbatim>\<open>finish_value_read\<close>: the answer and whether the store is still healthy. The checks are in the
  order of the code; \<open>None\<close> is a panic of a slice.
\<close>

definition finish_value_read ::
    "crc_stream \<Rightarrow> read_completion \<Rightarrow> bytes \<Rightarrow> bool \<Rightarrow> ((io_error + region_value option) \<times> bool) option" where
  "finish_value_read digest c key healthy =
     (case rcp_result c of
        Inl e \<Rightarrow> Some (Inl e, if is_read_pressure (error_kind e) then healthy else False)
      | Inr _ \<Rightarrow>
     case record_bytes c of
        None \<Rightarrow> Some (Inl (IoError InvalidData ''record completion lost its bounded candidate range''), False)
      | Some rbytes \<Rightarrow>
     case Option.bind (slice_at rbytes 0 RECORD_HEADER_SIZE) (decode_header digest) of
        None \<Rightarrow> Some (Inr None, healthy)
      | Some header \<Rightarrow>
     if hdr_region_generation header \<noteq> of_nat (desc_region_generation (rcp_desc c)) \<or> hdr_key_hash header \<noteq> desc_hash (rcp_desc c)
     then Some (Inr None, healthy)
     else
     case location_new (region_id (location (desc_entry (rcp_desc c)))) (offset (location (desc_entry (rcp_desc c)))) (hdr_record_len header) of
        Inl _ \<Rightarrow> Some (Inr None, healthy)
      | Inr exact \<Rightarrow>
     if \<not> index_equivalent (location (desc_entry (rcp_desc c))) exact then Some (Inr None, healthy)
     else
     case Option.bind (try_from usize_max (unat (hdr_record_len header))) (\<lambda>n. slice_at rbytes 0 n) of
        None \<Rightarrow> Some (Inr None, healthy)
      | Some rbytes \<Rightarrow>
     let key_len = unat (hdr_key_len header); value_len = unat (hdr_value_len header) in
     case Option.bind (Option.bind (checked_add usize_max RECORD_HEADER_SIZE key_len) (\<lambda>e. checked_add usize_max e value_len))
            (\<lambda>e. if e \<le> length rbytes then Some e else None) of
        None \<Rightarrow> Some (Inr None, healthy)
      | Some payload_end \<Rightarrow> do {
     encoded_key \<leftarrow> slice_at rbytes RECORD_HEADER_SIZE (RECORD_HEADER_SIZE + key_len);
     payload \<leftarrow> slice_at rbytes RECORD_HEADER_SIZE payload_end;
     if encoded_key \<noteq> key then Some (Inr None, healthy)
     else if crc32c digest [payload] \<noteq> hdr_payload_crc header then Some (Inr None, healthy)
     else
       let value_start = desc_record_start (rcp_desc c) + RECORD_HEADER_SIZE + key_len in
       case checked_add usize_max value_start value_len of
         None \<Rightarrow> Some (Inr None, healthy)
       | Some value_end \<Rightarrow>
           (case rcp_buffer c of
              None \<Rightarrow> Some (Inl (IoError InvalidData ''validated Region read lost its owned buffer''), False)
            | Some lease \<Rightarrow> Some (Inr (Some \<lparr>rv_buffer = lease, rv_buffer_len = desc_read_len (rcp_desc c),
                rv_start = value_start, rv_end = value_end, rv_seqno = hdr_seqno header\<rparr>), healthy))
     })"

section \<open>Where a read lies\<close>

lemma geometry_extent:
  assumes "geometry_is_valid g" "rid < dg_region_count g"
  shows "4096 + rid * dg_region_size g + dg_region_size g \<le> dg_data_file_len g" "dg_data_file_len g \<le> 2 ^ 46"
    "dg_data_file_len g mod 4096 = 0" "dg_region_size g mod 4096 = 0" "dg_region_size g \<le> 2 ^ 25"
proof -
  have v: "dg_region_count g \<le> 2 ^ 20" "dg_region_size g \<le> 2 ^ 25" "dg_region_size g mod 4096 = 0"
    "dg_data_file_len g = dg_region_size g * dg_region_count g + 4096"
    using assms(1)
    by (auto simp: geometry_is_valid_def expected_file_len_def packed_widths MAX_PACKED_REGION_COUNT_def
        MAX_PACKED_REGION_SIZE_def packed_limits RECOVERY_PAGE_SIZE_def DATA_REGION_AREA_OFFSET_def Option.bind_eq_Some_conv)
  have "(rid + 1) * dg_region_size g \<le> dg_region_count g * dg_region_size g" by (rule mult_le_mono1) (use assms(2) in simp)
  then show "4096 + rid * dg_region_size g + dg_region_size g \<le> dg_data_file_len g" by (simp add: v(4) algebra_simps)
  have "dg_region_size g * dg_region_count g \<le> 2 ^ 25 * 2 ^ 20" by (rule mult_le_mono) (use v in simp_all)
  then show "dg_data_file_len g \<le> 2 ^ 46" by (simp add: v(4))
  show "dg_data_file_len g mod 4096 = 0" "dg_region_size g mod 4096 = 0" using v(3) by (auto simp: v(4))
  show "dg_region_size g \<le> 2 ^ 25" by (rule v(2))
qed

lemma align_window:
  fixes a e n :: nat assumes "a < e" "e \<le> n" "n mod 4096 = 0"
  shows "a div 4096 * 4096 \<le> a" "e \<le> (e + 4095) div 4096 * 4096" "(e + 4095) div 4096 * 4096 \<le> n"
    "((e + 4095) div 4096 * 4096 - a div 4096 * 4096) mod 4096 = 0"
    "(e + 4095) div 4096 * 4096 - a div 4096 * 4096 < (e - a) + 8192"
proof -
  show "a div 4096 * 4096 \<le> a" "e \<le> (e + 4095) div 4096 * 4096" by linarith+
  from assms(3) obtain j where "n = 4096 * j" by auto
  moreover from this assms(2) have "(e + 4095) div 4096 < j + 1" by (intro less_mult_imp_div_less) simp
  ultimately show "(e + 4095) div 4096 * 4096 \<le> n" by simp
  show "((e + 4095) div 4096 * 4096 - a div 4096 * 4096) mod 4096 = 0" by (simp flip: diff_mult_distrib)
  show "(e + 4095) div 4096 * 4096 - a div 4096 * 4096 < (e - a) + 8192" using assms(1) by linarith
qed

definition read_window :: "data_geometry \<Rightarrow> packed_location \<Rightarrow> bool \<Rightarrow> nat \<times> nat \<times> nat \<times> nat" where
  "read_window g loc direct =
     (let start = 4096 + unat (region_id loc) * dg_region_size g + unat (offset loc);
          stop = start + min (unat (record_len loc)) (dg_region_size g - unat (offset loc)) in
      (start, stop, if direct then start div 4096 * 4096 else start, if direct then (stop + 4095) div 4096 * 4096 else stop))"

lemma read_window_bounds:
  assumes win: "read_window g loc direct = (start, stop, first, lim)"
    and ok: "geometry_is_valid g" "unat (region_id loc) < dg_region_count g" "unat (offset loc) < dg_region_size g"
  defines "base \<equiv> 4096 + unat (region_id loc) * dg_region_size g"
  shows "start = base + unat (offset loc)"
    "stop = start + min (unat (record_len loc)) (dg_region_size g - unat (offset loc))"
    "first = (if direct then start div 4096 * 4096 else start)" "lim = (if direct then (stop + 4095) div 4096 * 4096 else stop)"
    "start < stop" "base \<le> first" "first \<le> start" "stop \<le> lim" "lim \<le> base + dg_region_size g"
    "base + dg_region_size g \<le> dg_data_file_len g"
    "direct \<Longrightarrow> first mod 4096 = 0 \<and> (lim - first) mod 4096 = 0 \<and> lim - first < stop - start + 8192"
proof -
  note gb = geometry_extent [OF ok(1,2)]
  show start: "start = base + unat (offset loc)" and stop: "stop = start + min (unat (record_len loc)) (dg_region_size g - unat (offset loc))"
    and f: "first = (if direct then start div 4096 * 4096 else start)" and l: "lim = (if direct then (stop + 4095) div 4096 * 4096 else stop)"
    using win unfolding read_window_def Let_def base_def by auto
  show lt: "start < stop" using location_bounds(4) [of loc] ok(3) by (simp add: stop)
  have le: "stop \<le> base + dg_region_size g" using ok(3) by (simp add: start stop)
  have md: "(base + dg_region_size g) mod 4096 = 0" "base mod 4096 = 0" using gb(4) by (auto simp: base_def)
  note aw = align_window [OF lt le md(1)]
  from md(2) obtain k where "base = 4096 * k" by auto
  then have "base \<le> start div 4096 * 4096" by (simp add: start)
  then show "base \<le> first" by (simp add: f start)
  show "first \<le> start" "stop \<le> lim" "lim \<le> base + dg_region_size g" using aw(1-3) le by (auto simp: f l)
  show "base + dg_region_size g \<le> dg_data_file_len g" using gb(1) by (simp add: base_def)
  show "direct \<Longrightarrow> first mod 4096 = 0 \<and> (lim - first) mod 4096 = 0 \<and> lim - first < stop - start + 8192"
    using aw(4,5) by (simp add: f l)
qed

lemma describe_read_exact:
  assumes win: "read_window g (location (cand_entry c)) direct = (start, stop, first, lim)"
  shows "describe_read g hash c direct =
    (if geometry_is_valid g \<and> cand_region_generation c \<noteq> 0 \<and> unat (region_id (location (cand_entry c))) < dg_region_count g
        \<and> unat (offset (location (cand_entry c))) < dg_region_size g
     then Inr \<lparr>desc_hash = hash, desc_entry = cand_entry c, desc_region_generation = cand_region_generation c,
          desc_absolute = first, desc_read_len = lim - first, desc_record_start = start - first, desc_record_end = stop - first\<rparr>
     else Inl (invalid_input ''invalid durable Region record location''))"
proof -
  define loc where "loc = location (cand_entry c)"
  note lb = location_bounds [of loc, unfolded OFFSET_ALIGNMENT_def RECORD_LEN_ALIGNMENT_def packed_limits]
  have us: "unat (record_len loc) \<le> usize_max" using lb(5) by (simp add: num_bounds)
  show ?thesis
  proof (cases "geometry_is_valid g \<and> cand_region_generation c \<noteq> 0 \<and> unat (region_id loc) < dg_region_count g \<and> unat (offset loc) < dg_region_size g")
    case False
    then show ?thesis using us unfolding describe_read_def loc_def [symmetric] Let_def by (auto simp: try_from_def)
  next
    case True
    then have ok: "geometry_is_valid g" "unat (region_id loc) < dg_region_count g" "unat (offset loc) < dg_region_size g" by simp_all
    define n where "n = min (unat (record_len loc)) (dg_region_size g - unat (offset loc))"
    define a where "a = 4096 + unat (region_id loc) * dg_region_size g + unat (offset loc)"
    note wb = read_window_bounds [OF win [folded loc_def] ok] and gb = geometry_extent [OF ok(1,2)]
    have w: "start = a" "stop = a + n" "first = (if direct then a div 4096 * 4096 else a)"
      "lim = (if direct then (a + n + 4095) div 4096 * 4096 else a + n)"
      using wb(1-4) by (simp_all add: a_def n_def)
    have f: "first \<le> a" "a + n \<le> lim" "lim \<le> dg_data_file_len g" "0 < n"
      "direct \<longrightarrow> (lim - first) mod 4096 = 0 \<and> lim - first < n + 8192 \<and> first mod 4096 = 0"
      using wb(5-11) unfolding w(1,2) by simp_all
    have n: "0 < n" "n \<le> unat (record_len loc)" using f(4) by (simp_all add: n_def)
    have b: "a + n \<le> dg_data_file_len g" "unat (region_id loc) * dg_region_size g + 4096 \<le> dg_data_file_len g"
      using f gb(1) by simp_all
    have m: "u64_max = 18446744073709551615" "usize_max = 18446744073709551615" by (simp_all add: num_bounds)
    have fl: "dg_data_file_len g \<le> 70368744177664" using gb(2) by simp
    have c1: "try_from usize_max (unat (record_len loc)) = Some (unat (record_len loc))" "try_from usize_max n = Some n"
      using us n(2) by (simp_all add: try_from_def)
    have c2: "checked_mul u64_max (unat (region_id loc)) (dg_region_size g) = Some (unat (region_id loc) * dg_region_size g)"
      "checked_add u64_max DATA_REGION_AREA_OFFSET (unat (region_id loc) * dg_region_size g) = Some (4096 + unat (region_id loc) * dg_region_size g)"
      "checked_add u64_max (4096 + unat (region_id loc) * dg_region_size g) (unat (offset loc)) = Some a"
      "checked_add u64_max a n = Some (a + n)"
      using b fl by (simp_all add: m checked_mul_def checked_add_def DATA_REGION_AREA_OFFSET_def RECOVERY_PAGE_SIZE_def a_def)
    have c3: "align_up (a + n) 4096 = Some ((a + n + 4095) div 4096 * 4096)"
      using b fl by (simp add: align_up_def m checked_add_def checked_sub_def)
    have c4: "checked_sub lim first = Some (lim - first)" "try_from usize_max (lim - first) = Some (lim - first)"
      "checked_sub a first = Some (a - first)" "try_from usize_max (a - first) = Some (a - first)"
      "checked_add usize_max (a - first) n = Some (a + n - first)" "checked_sub (lim - first) n = Some (lim - first - n)"
      using f(1-3) n(1) b fl by (simp_all add: m checked_sub_def checked_add_def try_from_def)
    have nz: "lim - first \<noteq> 0" "\<not> lim < a + n" "lim - first - n < 8192 \<or> \<not> direct" using f n(1) by auto
    note c = n_def [symmetric] c1 c2 RECORD_ALIGNMENT_def DIRECT_IO_ALIGNMENT_def MAX_READ_ALIGNMENT_OVERHEAD_def
    show ?thesis
    proof (cases direct)
      case direct: True
      have "(a + n + 4095) div 4096 * 4096 = lim" "a div 4096 * 4096 = first" using w direct by simp_all
      then show ?thesis
        unfolding describe_read_def loc_def [symmetric] Let_def
        using True lb b(1) f nz w(1,2) n(1) direct by (simp add: c c3 c4 del: bind_result_eq_Inr)
    next
      case False
      then have e: "first = a" "lim = a + n" using w by simp_all
      have c5: "checked_sub (a + n) a = Some n" "checked_sub a a = Some 0" "try_from usize_max 0 = Some 0"
        "checked_add usize_max 0 n = Some n" "checked_sub n n = Some 0"
        using n(2) us by (simp_all add: checked_sub_def try_from_def checked_add_def)
      show ?thesis
        unfolding describe_read_def loc_def [symmetric] Let_def
        using True lb b(1) w(1,2) n(1) False by (simp add: c e c5 del: bind_result_eq_Inr)
    qed
  qed
qed

section \<open>What a completion may answer\<close>

lemma record_bytes_slice:
  assumes "record_bytes c = Some rb"
  obtains lease where "rcp_buffer c = Some lease" "rcp_result c = Inr ()"
    "desc_record_start (rcp_desc c) \<le> desc_record_end (rcp_desc c)" "desc_record_end (rcp_desc c) \<le> desc_read_len (rcp_desc c)"
    "desc_read_len (rcp_desc c) \<le> length lease"
    "rb = take (desc_record_end (rcp_desc c) - desc_record_start (rcp_desc c)) (drop (desc_record_start (rcp_desc c)) lease)"
proof -
  from assms obtain lease where "rcp_buffer c = Some lease" "rcp_result c = Inr ()"
    "prepared lease (desc_read_len (rcp_desc c)) = Some (take (desc_read_len (rcp_desc c)) lease)"
    "desc_read_len (rcp_desc c) \<le> length lease"
    "slice_at (take (desc_read_len (rcp_desc c)) lease) (desc_record_start (rcp_desc c)) (desc_record_end (rcp_desc c)) = Some rb"
    by (auto simp: record_bytes_def prepared_def Option.bind_eq_Some_conv split: sum.splits if_splits)
  then show ?thesis by (intro that [of lease]) (auto simp: slice_at_def drop_take split: if_splits)
qed

text \<open>A read that answers with a value went through every check.\<close>

lemma finish_value_read_Some:
  assumes "finish_value_read digest c key healthy = Some (Inr (Some v), healthy')"
  obtains rb header lease exact where "record_bytes c = Some rb" "decode_header digest (take 48 rb) = Some header" "48 \<le> length rb"
    "hdr_region_generation header = of_nat (desc_region_generation (rcp_desc c))" "hdr_key_hash header = desc_hash (rcp_desc c)"
    "location_new (region_id (location (desc_entry (rcp_desc c)))) (offset (location (desc_entry (rcp_desc c)))) (hdr_record_len header) = Inr exact"
    "index_equivalent (location (desc_entry (rcp_desc c))) exact"
    "48 + unat (hdr_key_len header) + unat (hdr_value_len header) \<le> unat (hdr_record_len header)"
    "unat (hdr_record_len header) \<le> length rb"
    "take (unat (hdr_key_len header)) (drop 48 rb) = key"
    "crc32c digest [take (unat (hdr_key_len header) + unat (hdr_value_len header)) (drop 48 rb)] = hdr_payload_crc header"
    "rcp_buffer c = Some lease" "healthy' = healthy"
    "v = \<lparr>rv_buffer = lease, rv_buffer_len = desc_read_len (rcp_desc c),
          rv_start = desc_record_start (rcp_desc c) + 48 + unat (hdr_key_len header),
          rv_end = desc_record_start (rcp_desc c) + 48 + unat (hdr_key_len header) + unat (hdr_value_len header),
          rv_seqno = hdr_seqno header\<rparr>"
proof -
  from assms obtain rb where rb: "record_bytes c = Some rb"
    by (auto simp: finish_value_read_def split: sum.splits option.splits)
  from record_bytes_slice [OF this] obtain lease where lease: "rcp_buffer c = Some lease" "rcp_result c = Inr ()" by metis
  from assms rb lease obtain header where h: "slice_at rb 0 RECORD_HEADER_SIZE \<bind> decode_header digest = Some header"
    by (auto simp: finish_value_read_def split: option.splits)
  then have h': "decode_header digest (take 48 rb) = Some header" "48 \<le> length rb"
    by (auto simp: slice_at_def RECORD_HEADER_SIZE_def Option.bind_eq_Some_conv split: if_splits)
  have k: "take k (drop 48 (take n rb)) = take k (drop 48 rb)" if "48 + k \<le> n" for k n
    using that by (simp add: drop_take min_def)
  show ?thesis
    using assms rb lease h' unfolding finish_value_read_def rb h
    by (auto simp: Let_def slice_at_def RECORD_HEADER_SIZE_def Option.bind_eq_Some_conv k
        split: sum.splits if_splits option.splits intro!: that [OF rb h'])
qed

lemma finish_value_read_total: "finish_value_read digest c key healthy \<noteq> None"
  by (auto simp: finish_value_read_def Let_def slice_at_def RECORD_HEADER_SIZE_def Option.bind_eq_Some_conv
      split: sum.splits if_splits option.splits)

text \<open>The bytes of a complete record answer with its value.\<close>

lemma finish_value_read_record:
  assumes c: "rcp_result c = Inr ()" "rcp_buffer c = Some lease" "record_bytes c = Some rb"
    and rec: "take n rb = record_image digest h key val n" "n \<le> length rb" "48 + length key + length val \<le> n"
    and h: "has_valid_lengths h" "unat (hdr_key_len h) = length key" "unat (hdr_value_len h) = length val" "unat (hdr_record_len h) = n"
    and m: "hdr_region_generation h = of_nat (desc_region_generation (rcp_desc c))" "hdr_key_hash h = desc_hash (rcp_desc c)"
    and loc: "location_new (region_id (location (desc_entry (rcp_desc c)))) (offset (location (desc_entry (rcp_desc c)))) (hdr_record_len h) = Inr exact"
      "index_equivalent (location (desc_entry (rcp_desc c))) exact"
    and crc: "crc32c digest [key @ val] = hdr_payload_crc h"
    and fits: "desc_record_start (rcp_desc c) + n \<le> usize_max"
  shows "finish_value_read digest c key healthy
    = Some (Inr (Some \<lparr>rv_buffer = lease, rv_buffer_len = desc_read_len (rcp_desc c),
          rv_start = desc_record_start (rcp_desc c) + 48 + length key,
          rv_end = desc_record_start (rcp_desc c) + 48 + length key + length val, rv_seqno = hdr_seqno h\<rparr>), healthy)"
proof -
  have "take 48 rb = take 48 (take n rb)" using rec(3) by simp
  then have dh: "slice_at rb 0 48 \<bind> decode_header digest = Some h"
    using decode_record_image [OF h(1), of digest key val n] rec by (simp add: slice_at_def)
  have sn: "slice_at rb 0 n = Some (record_image digest h key val n)" using rec(1,2) by (simp add: slice_at_def)
  have len: "length (record_image digest h key val n) = n" by (rule length_record_image) (rule rec(3))
  have bounds: "n \<le> usize_max" "48 + length key \<le> usize_max" "48 + length key + length val \<le> usize_max"
    "desc_record_start (rcp_desc c) + 48 + length key + length val \<le> usize_max" using fits rec(3) by simp_all
  let ?img = "record_image digest h key val n"
  have parts: "slice_at ?img 48 (48 + length key) = Some key" "slice_at ?img 48 (48 + length key + length val) = Some (key @ val)"
    using rec(3) len by (simp_all add: slice_at_def record_image_parts)
  have arith: "try_from usize_max n = Some n" "checked_add usize_max 48 (length key) = Some (48 + length key)"
    "checked_add usize_max (48 + length key) (length val) = Some (48 + length key + length val)"
    "checked_add usize_max (desc_record_start (rcp_desc c) + 48 + length key) (length val)
      = Some (desc_record_start (rcp_desc c) + 48 + length key + length val)"
    using bounds by (simp_all add: try_from_def checked_add_def)
  show ?thesis
    using m loc rec(3) crc
    by (simp add: finish_value_read_def c dh h sn len parts arith RECORD_HEADER_SIZE_def Let_def
        del: try_from_eq_Some checked_add_eq_Some)
qed

lemma region_value_bytes_record:
  assumes rb: "record_bytes c = Some rb" "rcp_buffer c = Some lease" and k: "48 + k + n \<le> length rb"
  shows "region_value_bytes \<lparr>rv_buffer = lease, rv_buffer_len = desc_read_len (rcp_desc c),
      rv_start = desc_record_start (rcp_desc c) + 48 + k, rv_end = desc_record_start (rcp_desc c) + 48 + k + n, rv_seqno = s\<rparr>
    = Some (take n (drop (48 + k) rb))"
proof -
  obtain s e m where d: "desc_record_start (rcp_desc c) = s" "desc_record_end (rcp_desc c) = e" "desc_read_len (rcp_desc c) = m" by blast
  from record_bytes_slice [OF rb(1)] rb(2) have r: "s \<le> e" "e \<le> m" "m \<le> length lease" "rb = take (e - s) (drop s lease)"
    unfolding d by auto
  then have l: "48 + k + n \<le> e - s" using k by simp
  have "take n (drop (48 + k) rb) = take n (drop (s + 48 + k) lease)"
    using l by (simp add: r(4) drop_take add.commute add.left_commute)
  then show ?thesis using l r(1-3) unfolding region_value_bytes_def d by (simp add: prepared_def slice_at_def drop_take)
qed

text \<open>The read of a location brings in the bytes of its record.\<close>

definition device_completion :: "bytes \<Rightarrow> read_desc \<Rightarrow> read_completion" where
  "device_completion dev desc = \<lparr>rcp_desc = desc, rcp_result = Inr (),
     rcp_buffer = Some (take (desc_read_len desc) (drop (desc_absolute desc) dev))\<rparr>"

lemma read_device:
  assumes geometry: "geometry_is_valid g" "unat (region_id loc) < dg_region_count g"
      "unat (offset loc) + unat (record_len loc) \<le> dg_region_size g"
    and dev: "length dev = dg_data_file_len g" and gen: "gen \<noteq> 0"
  obtains desc rb where
    "describe_read g hash \<lparr>cand_entry = \<lparr>location = quantize_location loc\<rparr>, cand_region_generation = gen\<rparr> direct = Inr desc"
    "desc_hash desc = hash" "desc_entry desc = \<lparr>location = quantize_location loc\<rparr>" "desc_region_generation desc = gen"
    "desc_record_start desc + unat (record_len loc) \<le> usize_max"
    "record_bytes (device_completion dev desc) = Some rb" "unat (record_len loc) \<le> length rb"
    "take (unat (record_len loc)) rb
      = take (unat (record_len loc)) (drop (DATA_REGION_AREA_OFFSET + unat (region_id loc) * dg_region_size g + unat (offset loc)) dev)"
proof -
  let ?q = "quantize_location loc" and ?n = "unat (record_len loc)"
  note q = quantize_location_fields [of loc]
  obtain start stop first lim where w: "read_window g ?q direct = (start, stop, first, lim)" by (metis surj_pair)
  define a where "a = 4096 + unat (region_id loc) * dg_region_size g + unat (offset loc)"
  define m where "m = min (unat (record_len ?q)) (dg_region_size g - unat (offset loc))"
  have m: "?n \<le> m" "0 < ?n" using geometry(3) q(4) location_bounds(4) [of loc] by (simp_all add: m_def)
  have s: "start = a" "stop = a + m" using w by (auto simp: read_window_def Let_def a_def m_def q(1,2))
  have ok: "unat (region_id ?q) < dg_region_count g" "unat (offset ?q) < dg_region_size g" using geometry m(2) by (simp_all add: q)
  note wb = read_window_bounds [OF w geometry(1) ok] and gb = geometry_extent [OF geometry(1,2)]
  have win: "first \<le> a" "a + m \<le> lim" "lim \<le> dg_data_file_len g" using wb(7-10) unfolding s by simp_all
  let ?d = "\<lparr>desc_hash = hash, desc_entry = \<lparr>location = ?q\<rparr>, desc_region_generation = gen,
      desc_absolute = first, desc_read_len = lim - first, desc_record_start = a - first, desc_record_end = a + m - first\<rparr>"
  have d: "describe_read g hash \<lparr>cand_entry = \<lparr>location = ?q\<rparr>, cand_region_generation = gen\<rparr> direct = Inr ?d"
    using describe_read_exact [of g _ direct start stop first lim hash] w geometry m(2) gen by (simp add: s q(1,2))
  have rb: "record_bytes (device_completion dev ?d) = Some (take m (drop a dev))"
    using win dev by (auto simp: device_completion_def record_bytes_def prepared_def slice_at_def drop_take min_def)
  show ?thesis
    by (rule that [OF d _ _ _ _ rb]) (use m win gb(2) dev in \<open>auto simp: num_bounds a_def DATA_REGION_AREA_OFFSET_def RECOVERY_PAGE_SIZE_def min_def\<close>)
qed

section \<open>Properties\<close>

text \<open>
  C10 (roundtrip): what the encoder wrote is what a read returns. When a record was encoded into a reservation
  that lies in its Region and its bytes are on the device at the Region's place, then a lookup through the
  index entry (whose size class may round the length up) produces a valid read, for direct and for buffered
  I/O, whose completion is accepted by \<^verbatim>\<open>finish_value_read\<close> and yields exactly the value and the sequence
  number that were written, and the store stays as healthy as it was. The checksum is any function that depends
  only on the concatenation of what it is fed.
\<close>
theorem write_then_read:
  assumes enc: "encode_value_into_hashed_with_seqno digest destination r hash required (payload_new digest key val) seqno
      = Some (Inr entry, out)"
    and typed: "reservation_typed r" "length destination \<le> usize_max" "length key \<le> MAX_KEY_SIZE"
      "seqno \<noteq> 0" "seqno \<le> u64_max"
    and streaming: "\<And>parts. digest parts = digest [concat parts]"
    and geometry: "geometry_is_valid g" "ra_region_id r < dg_region_count g" "ra_offset r + ra_record_bytes r \<le> dg_region_size g"
    and dev: "length dev = dg_data_file_len g"
      "take (length out) (drop (DATA_REGION_AREA_OFFSET + ra_region_id r * dg_region_size g + ra_offset r) dev) = out"
    and cand: "candidate = \<lparr>cand_entry = \<lparr>location = quantize_location (location entry)\<rparr>,
        cand_region_generation = ra_region_created_seqno r\<rparr>"
  shows "\<exists>desc v. describe_read g hash candidate direct = Inr desc
    \<and> finish_value_read digest (device_completion dev desc) key healthy = Some (Inr (Some v), healthy)
    \<and> region_value_bytes v = Some val \<and> rv_seqno v = of_nat seqno"
proof -
  let ?p = "payload_new digest key val" and ?h = "record_header_of r hash (payload_new digest key val) seqno"
  let ?n = "ra_record_bytes r"
  have p: "pl_key ?p = key" "pl_value ?p = val" "pl_crc ?p = crc32c digest [key, val]" by (simp_all add: payload_new_def)
  from encode_cases [OF typed(2), of digest r hash required ?p seqno] enc obtain loc where
    loc: "location_new (of_nat (ra_region_id r)) (of_nat (ra_offset r)) (of_nat ?n) = Inr loc" and entry: "entry = \<lparr>location = loc\<rparr>"
    and out: "out = record_image digest ?h key val ?n" and gen: "ra_region_created_seqno r \<noteq> 0"
    and fits: "48 + length key + length val \<le> ?n" and len: "length destination = ?n"
    unfolding p by auto
  note l = encoded_location [OF typed(1) loc] and q = quantize_location_fields [of loc]
  note v = header_valid [OF typed(1) loc _ _ typed(4,5) gen, of ?p hash, unfolded p, OF typed(3) fits]
  have outlen: "length out = ?n" unfolding out by (rule length_record_image) (rule fits)
  obtain desc rb where d: "describe_read g hash candidate direct = Inr desc"
      "desc_hash desc = hash" "desc_entry desc = \<lparr>location = quantize_location loc\<rparr>"
      "desc_region_generation desc = ra_region_created_seqno r" "desc_record_start desc + ?n \<le> usize_max"
    and rb: "record_bytes (device_completion dev desc) = Some rb" "?n \<le> length rb" and tk: "take ?n rb = out"
    using read_device [OF geometry(1) _ _ dev(1) gen, of loc hash direct] geometry(2,3) dev(2) outlen
    unfolding l(1-3) cand entry by (auto simp: entry)
  let ?c = "device_completion dev desc" and ?lease = "take (desc_read_len desc) (drop (desc_absolute desc) dev)"
  have c: "rcp_desc ?c = desc" "rcp_result ?c = Inr ()" "rcp_buffer ?c = Some ?lease" by (simp_all add: device_completion_def)
  have crc: "crc32c digest [key @ val] = hdr_payload_crc ?h"
    using streaming [of "[key, val]"] by (simp add: record_header_of_def p crc32c_eq)
  have ex: "location_new (region_id (quantize_location loc)) (offset (quantize_location loc)) (hdr_record_len ?h) = Inr loc"
    using loc location_new_roundtrip [OF loc] by (simp add: q record_header_of_def)
  note fin = finish_value_read_record [of ?c ?lease rb ?n digest ?h key val loc healthy, OF c(2,3) rb(1) tk [unfolded out] rb(2) fits v]
  have "finish_value_read digest ?c key healthy = Some (Inr (Some \<lparr>rv_buffer = ?lease, rv_buffer_len = desc_read_len desc,
      rv_start = desc_record_start desc + 48 + length key, rv_end = desc_record_start desc + 48 + length key + length val,
      rv_seqno = hdr_seqno ?h\<rparr>), healthy)"
    using fin ex crc d by (simp add: c index_equivalent_def q record_header_of_def)
  moreover have "take (length val) (drop (48 + length key) rb) = val"
    using arg_cong [OF tk, of "\<lambda>x. take (length val) (drop (48 + length key) x)"] fits
    by (simp add: out record_image_parts drop_take min_def split: if_splits)
  moreover note region_value_bytes_record [OF rb(1) c(3), of "length key" "length val" "hdr_seqno ?h", unfolded c(1)]
  ultimately show ?thesis using d(1) fits rb(2) by (auto simp: record_header_of_def intro!: exI [of _ desc])
qed

definition sample_geometry :: data_geometry where
  "sample_geometry = \<lparr>dg_data_file_len = 12288, dg_region_size = 4096, dg_region_count = 2\<rparr>"

lemma sample_geometry_valid: "geometry_is_valid sample_geometry"
  by (simp add: geometry_is_valid_def sample_geometry_def expected_file_len_def packed_widths MAX_PACKED_REGION_COUNT_def
      MAX_PACKED_REGION_SIZE_def packed_limits RECOVERY_PAGE_SIZE_def DATA_REGION_AREA_OFFSET_def checked_mul_def checked_add_def num_bounds)

theorem write_then_read_witness:
  "\<exists>entry out dev desc v.
     encode_value_into_hashed_with_seqno (\<lambda>_. 0) (replicate 64 0) sample_reservation 7 64 (payload_new (\<lambda>_. 0) [1] [2, 3]) 5
       = Some (Inr entry, out)
     \<and> length dev = 12288 \<and> take 64 (drop 8224 dev) = out
     \<and> describe_read sample_geometry 7 \<lparr>cand_entry = \<lparr>location = quantize_location (location entry)\<rparr>, cand_region_generation = 3\<rparr> True = Inr desc
     \<and> finish_value_read (\<lambda>_. 0) (device_completion dev desc) [1] True = Some (Inr (Some v), True)
     \<and> region_value_bytes v = Some [2, 3] \<and> rv_seqno v = 5"
proof -
  obtain entry out where e: "encode_value_into_hashed_with_seqno (\<lambda>_. 0) (replicate 64 0) sample_reservation 7 64 (payload_new (\<lambda>_. 0) [1] [2, 3]) 5
      = Some (Inr entry, out)" "length out = 64" using sample_encoding by blast
  let ?dev = "replicate 8224 0 @ out @ replicate 4000 0"
  have d: "length ?dev = 12288" "take 64 (drop 8224 ?dev) = out" using e(2) by simp_all
  have "\<exists>desc v. describe_read sample_geometry 7 \<lparr>cand_entry = \<lparr>location = quantize_location (location entry)\<rparr>, cand_region_generation = 3\<rparr> True = Inr desc
      \<and> finish_value_read (\<lambda>_. 0) (device_completion ?dev desc) [1] True = Some (Inr (Some v), True)
      \<and> region_value_bytes v = Some [2, 3] \<and> rv_seqno v = of_nat 5"
    by (rule write_then_read [OF e(1) _ _ _ _ _ _ sample_geometry_valid])
       (use e(2) in \<open>simp_all add: sample_reservation_def sample_geometry_def reservation_typed_def num_bounds MAX_KEY_SIZE_def
          DATA_REGION_AREA_OFFSET_def RECOVERY_PAGE_SIZE_def\<close>)
  with e(1) d show ?thesis by (metis (no_types, lifting) of_nat_numeral)
qed

text \<open>
  C23 (safety): a read answers with a value only when the bytes it read are a record for the key asked for.
  \<^verbatim>\<open>finish_value_read\<close> never panics, and when it returns a value, the bytes read for the record begin with a header that
  decodes and carries the generation and the hash of the lookup and a size of the class of the index entry, the
  key is byte for byte the key asked for, the checksum of key and value is the one in the header, and the value
  is the range after the key; the health of the store is left alone. A failed read keeps the store healthy
  exactly when it was healthy and the error is one of resource pressure.
\<close>
theorem read_accepts_only_matching:
  "case finish_value_read digest c key healthy of
      None \<Rightarrow> False
    | Some (Inl e, healthy') \<Rightarrow> healthy' = (healthy \<and> rcp_result c = Inl e \<and> is_read_pressure (error_kind e))
    | Some (Inr None, healthy') \<Rightarrow> healthy' = healthy
    | Some (Inr (Some v), healthy') \<Rightarrow> healthy' = healthy
        \<and> (\<exists>rb header exact.
            record_bytes c = Some rb \<and> decode_header digest (take RECORD_HEADER_SIZE rb) = Some header
            \<and> hdr_region_generation header = of_nat (desc_region_generation (rcp_desc c))
            \<and> hdr_key_hash header = desc_hash (rcp_desc c)
            \<and> location_new (region_id (location (desc_entry (rcp_desc c)))) (offset (location (desc_entry (rcp_desc c))))
                (hdr_record_len header) = Inr exact
            \<and> index_equivalent (location (desc_entry (rcp_desc c))) exact
            \<and> unat (hdr_key_len header) = length key
            \<and> take (length key) (drop RECORD_HEADER_SIZE rb) = key
            \<and> crc32c digest [take (length key + unat (hdr_value_len header)) (drop RECORD_HEADER_SIZE rb)] = hdr_payload_crc header
            \<and> region_value_bytes v = Some (take (unat (hdr_value_len header)) (drop (RECORD_HEADER_SIZE + length key) rb))
            \<and> rv_seqno v = hdr_seqno header)"
proof (cases "\<exists>v h. finish_value_read digest c key healthy = Some (Inr (Some v), h)")
  case False
  then show ?thesis using finish_value_read_total [of digest c key healthy]
    by (auto simp: finish_value_read_def Let_def Option.bind_eq_Some_conv split: sum.splits option.splits if_splits)
next
  case True
  then obtain v h where v: "finish_value_read digest c key healthy = Some (Inr (Some v), h)" by blast
  from finish_value_read_Some [OF v] show ?thesis
  proof cases
    case (1 rb header lease exact)
    have "unat (hdr_key_len header) = length key" using 1(8,9) arg_cong [OF 1(10), of length] by simp
    with 1 region_value_bytes_record [OF 1(1,12), of "length key" "unat (hdr_value_len header)" "hdr_seqno header"]
    show ?thesis unfolding v by (simp add: RECORD_HEADER_SIZE_def)
  qed
qed

text \<open>
  C27 (bounds): the read that \<^verbatim>\<open>describe_read\<close> builds for a candidate stays inside the Region the candidate names:
  it starts at or after the first byte of the Region, ends at or before its last byte and inside the data
  file, and the record lies at its offset inside the bytes read. For direct I/O the position and the length are
  multiples of 4096 and less than 8192 bytes are read beside the record. It succeeds exactly when
  geometry, generation, Region number and offset are valid.
\<close>
theorem read_stays_in_region:
  fixes g candidate direct
  defines "loc \<equiv> location (cand_entry candidate)"
  defines "base \<equiv> DATA_REGION_AREA_OFFSET + unat (region_id loc) * dg_region_size g"
  shows "case describe_read g hash candidate direct of
      Inl _ \<Rightarrow> \<not> (geometry_is_valid g \<and> cand_region_generation candidate \<noteq> 0 \<and> unat (region_id loc) < dg_region_count g
          \<and> unat (offset loc) < dg_region_size g)
    | Inr d \<Rightarrow> geometry_is_valid g \<and> unat (region_id loc) < dg_region_count g \<and> unat (offset loc) < dg_region_size g
        \<and> base \<le> desc_absolute d \<and> desc_absolute d + desc_read_len d \<le> base + dg_region_size g
        \<and> base + dg_region_size g \<le> dg_data_file_len g
        \<and> desc_absolute d + desc_record_start d = base + unat (offset loc)
        \<and> desc_record_end d = desc_record_start d + min (unat (record_len loc)) (dg_region_size g - unat (offset loc))
        \<and> desc_record_start d < desc_record_end d \<and> desc_record_end d \<le> desc_read_len d
        \<and> (if direct then desc_absolute d mod DIRECT_IO_ALIGNMENT = 0 \<and> desc_read_len d mod DIRECT_IO_ALIGNMENT = 0
              \<and> desc_read_len d < (desc_record_end d - desc_record_start d) + MAX_READ_ALIGNMENT_OVERHEAD
           else desc_record_start d = 0 \<and> desc_record_end d = desc_read_len d)"
proof -
  obtain start stop first lim where w: "read_window g loc direct = (start, stop, first, lim)" by (metis surj_pair)
  note ex = describe_read_exact [OF w [unfolded loc_def], folded loc_def]
  show ?thesis
  proof (cases "geometry_is_valid g \<and> cand_region_generation candidate \<noteq> 0 \<and> unat (region_id loc) < dg_region_count g \<and> unat (offset loc) < dg_region_size g")
    case True
    then have ok: "geometry_is_valid g" "unat (region_id loc) < dg_region_count g" "unat (offset loc) < dg_region_size g" by simp_all
    have base: "base = 4096 + unat (region_id loc) * dg_region_size g" by (simp add: base_def DATA_REGION_AREA_OFFSET_def RECOVERY_PAGE_SIZE_def)
    note wb = read_window_bounds [OF w ok, folded base]
    have d: "describe_read g hash candidate direct = Inr \<lparr>desc_hash = hash, desc_entry = cand_entry candidate,
        desc_region_generation = cand_region_generation candidate, desc_absolute = first, desc_read_len = lim - first,
        desc_record_start = start - first, desc_record_end = stop - first\<rparr>" using ex True by simp
    define n where "n = min (unat (record_len loc)) (dg_region_size g - unat (offset loc))"
    have f: "first + (lim - first) = lim" "first + (start - first) = start" "stop - first = start - first + n"
      "start - first < stop - first" "stop - first \<le> lim - first" "stop - first - (start - first) = stop - start"
      using wb(2,5,7,8) unfolding n_def [symmetric] by linarith+
    have "\<not> direct \<Longrightarrow> first = start \<and> lim = stop" using wb(3,4) by simp
    then show ?thesis
      unfolding d sum.case read_desc.simps n_def [symmetric] f(1,2,6) DIRECT_IO_ALIGNMENT_def MAX_READ_ALIGNMENT_OVERHEAD_def
      using True wb(1,6,9,10,11) f(3-5) by simp
  qed (auto simp: ex)
qed

end
