(* ===== verification/Region_Store.thy ===== *)
theory Region_Store
  imports Staging Record_Read Region_Index
begin

text \<open>
  \<^verbatim>\<open>region/mod.rs\<close>: the store that joins the index, the Region manager and the staging buffers, with the
  completions of \<^verbatim>\<open>region/appender.rs\<close> and \<^verbatim>\<open>region/reader.rs\<close>. An operation of the store is a partial
  operation on one record that holds the store and the staging its workers share. A mutex is its
  poison flag; whether a try-lock finds it held is a parameter. What the I/O engine answers to a write
  is a parameter too.
\<close>

section \<open>Errors\<close>

datatype store_error =
    StoreIo io_error
  | MetadataFault region_metadata_error
  | MutationFault string region_mutation_error
  | EncodeFault record_encode_error
  | StagingFault staging_error
  | IndexFault index_storage_error
  | LocationFault packed_location_error

definition region_metadata_io_error :: "region_metadata_error \<Rightarrow> store_error" where
  "region_metadata_io_error e = MetadataFault e"

definition region_mutation_io_error :: "region_mutation_error \<Rightarrow> store_error" where
  "region_mutation_io_error e = MutationFault ''state mutation'' e"

definition region_mutation_context :: "string \<Rightarrow> region_mutation_error \<Rightarrow> store_error" where
  "region_mutation_context ctx e = MutationFault ctx e"

definition record_encode_io_error :: "record_encode_error \<Rightarrow> store_error" where
  "record_encode_io_error e = EncodeFault e"

definition staging_io_error :: "staging_error \<Rightarrow> store_error" where
  "staging_io_error e = StagingFault e"

fun index_storage_io_error :: "index_storage_error \<Rightarrow> store_error" where
  "index_storage_io_error (Io e) = StoreIo e"
| "index_storage_io_error e = IndexFault e"

fun store_error_kind :: "store_error \<Rightarrow> io_error_kind" where
  "store_error_kind (StoreIo e) = error_kind e"
| "store_error_kind (MetadataFault Allocation) = OutOfMemory"
| "store_error_kind (MetadataFault e) = InvalidData"
| "store_error_kind (MutationFault ctx e) = InvalidData"
| "store_error_kind (EncodeFault e) = InvalidInput"
| "store_error_kind (StagingFault StagingClosed) = BrokenPipe"
| "store_error_kind (StagingFault StagingWouldBlock) = WouldBlockKind"
| "store_error_kind (StagingFault StagingInvalidShard) = InvalidInput"
| "store_error_kind (StagingFault e) = InvalidData"
| "store_error_kind (IndexFault e) = InvalidData"
| "store_error_kind (LocationFault e) = InvalidData"

definition invalid_data :: "string \<Rightarrow> store_error" where
  "invalid_data message = StoreIo (IoError InvalidData message)"

section \<open>State and locks\<close>

record region_store =
  rs_index :: region_index
  rs_manager :: region_manager
  rs_manager_poisoned :: bool
  rs_append_gates :: "bool list"
  rs_region_generations :: "nat list"
  rs_rotation_poisoned :: bool
  rs_healthy :: bool

record region_runtime = region_store +
  rt_staging :: append_staging

type_synonym 'a store_op = "(region_runtime, store_error, 'a) partial_op"

definition enter_miss_only :: "unit store_op" where
  "enter_miss_only = pmodify (\<lambda>s. s\<lparr>rs_healthy := False\<rparr>)"

definition fail_miss_only :: "store_error \<Rightarrow> 'a store_op" where
  "fail_miss_only e = pbind enter_miss_only (\<lambda>_. pfail e)"

definition close_staging :: "unit store_op" where
  "close_staging = pmodify (\<lambda>s. s\<lparr>rt_staging := staging_close (rt_staging s)\<rparr>)"

definition fail_closing :: "store_error \<Rightarrow> 'a store_op" where
  "fail_closing e = pbind enter_miss_only (\<lambda>_. pbind close_staging (\<lambda>_. pfail e))"

definition require_healthy :: "unit store_op" where
  "require_healthy =
     pbind (pget rs_healthy) (\<lambda>healthy.
     if healthy then preturn ()
     else pfail (invalid_data ''Region store is miss-only and cannot publish CLEAN''))"

definition manager_lock :: "unit store_op" where
  "manager_lock =
     pbind require_healthy (\<lambda>_.
     pbind (pget rs_manager_poisoned) (\<lambda>poisoned.
     if poisoned then fail_miss_only (invalid_data ''Region manager is poisoned'') else preturn ()))"

text \<open>The answer is whether the lock was taken.\<close>

definition manager_try_lock :: "bool \<Rightarrow> bool store_op" where
  "manager_try_lock busy =
     pbind require_healthy (\<lambda>_.
     if busy then preturn False
     else pbind (pget rs_manager_poisoned) (\<lambda>poisoned.
       if poisoned then fail_miss_only (invalid_data ''Region manager is poisoned'') else preturn True))"

definition append_gate :: "nat \<Rightarrow> bool store_op" where
  "append_gate k =
     pbind (pget (\<lambda>s. get_at (rs_append_gates s) k)) (\<lambda>gate.
     plift (ok_or (StoreIo (IoError InvalidInput ''data shard is out of bounds'')) gate))"

definition gate_poisoned :: store_error where
  "gate_poisoned = invalid_data ''append shard gate is poisoned''"

definition lock_shard_mutation :: "nat \<Rightarrow> unit store_op" where
  "lock_shard_mutation k =
     pbind (append_gate k) (\<lambda>poisoned.
     pbind require_healthy (\<lambda>_.
     if poisoned then fail_miss_only gate_poisoned else preturn ()))"

text \<open>Calls into the three parts: their result becomes the value of the call.\<close>

definition with_manager :: "'a manager_op \<Rightarrow> (region_mutation_error + 'a) store_op" where
  "with_manager op s = (case op (rs_manager s) of (r, m) \<Rightarrow> Some (Inr r, s\<lparr>rs_manager := m\<rparr>))"

definition with_index :: "'a index_op \<Rightarrow> (index_storage_error + 'a) store_op" where
  "with_index op s = (case op (rs_index s) of None \<Rightarrow> None | Some (r, x) \<Rightarrow> Some (Inr r, s\<lparr>rs_index := x\<rparr>))"

definition with_staging :: "(append_staging \<Rightarrow> 'r \<times> append_staging) \<Rightarrow> 'r store_op" where
  "with_staging op s = (case op (rt_staging s) of (r, a) \<Rightarrow> Some (Inr r, s\<lparr>rt_staging := a\<rparr>))"

definition with_staging_partial :: "(append_staging \<Rightarrow> ('r \<times> append_staging) option) \<Rightarrow> 'r store_op" where
  "with_staging_partial op s =
     (case op (rt_staging s) of None \<Rightarrow> None | Some (r, a) \<Rightarrow> Some (Inr r, s\<lparr>rt_staging := a\<rparr>))"

definition index_busy :: "index_storage_error \<Rightarrow> bool" where
  "index_busy e = (case e of PageBusy _ \<Rightarrow> True | PartitionBusy _ \<Rightarrow> True | _ \<Rightarrow> False)"

section \<open>Opening and freezing\<close>

definition metadata_partition_stats_match :: "region_metadata \<Rightarrow> index_physical_stats list \<Rightarrow> bool" where
  "metadata_partition_stats_match md stats \<longleftrightarrow>
     length (md_partitions md) = length stats
     \<and> list_all (\<lambda>(p, actual). physical_value_slots p = stat_value actual \<and> physical_deleted_slots p = stat_deleted actual)
         (zip (md_partitions md) stats)"

definition metadata_partition_stats :: "allocator \<Rightarrow> region_metadata \<Rightarrow> store_error + index_physical_stats list" where
  "metadata_partition_stats alloc md =
     (if \<not> alloc (length (md_partitions md))
      then Inl (StoreIo (IoError OutOfMemory ''cannot allocate index partition statistics''))
      else Inr (map (\<lambda>p. \<lparr>stat_value = physical_value_slots p, stat_deleted = physical_deleted_slots p\<rparr>) (md_partitions md)))"

definition from_recovery :: "allocator \<Rightarrow> partitioned_index_storage \<Rightarrow> region_metadata \<Rightarrow> store_error + region_store" where
  "from_recovery alloc index md =
     bind_result (map_err index_storage_io_error (partition_stats alloc index)) (\<lambda>stats.
     bind_result (ok_or (invalid_data ''index capacity is too large'') (try_from u64_max (pis_slot_count index))) (\<lambda>slots.
     if index_slots (md_root md) \<noteq> slots \<or> partition_count (md_root md) \<noteq> length (pis_partitions index)
        \<or> \<not> metadata_partition_stats_match md stats
     then Inl (invalid_data ''index and Region metadata do not describe one authority'')
     else
       bind_result (map_err region_metadata_io_error (from_metadata alloc md)) (\<lambda>manager.
       if \<not> alloc (length (active_regions manager))
       then Inl (StoreIo (IoError OutOfMemory ''cannot allocate append shard gates''))
       else if \<not> alloc (length (regions manager))
       then Inl (StoreIo (IoError OutOfMemory ''cannot allocate Region generations''))
       else
         bind_result (map_err index_storage_io_error (index_from_storage alloc index)) (\<lambda>x.
         Inr \<lparr>rs_index = x, rs_manager = manager, rs_manager_poisoned = False,
              rs_append_gates = replicate (length (active_regions manager)) False,
              rs_region_generations = map d_created_seqno (regions manager),
              rs_rotation_poisoned = False, rs_healthy = True\<rparr>))))"

definition partition_record :: "index_partition_range \<times> index_physical_stats \<Rightarrow> store_error + partition_metadata_record" where
  "partition_record = (\<lambda>(r, stats).
     bind_result (ok_or (StoreIo (IoError InvalidInput ''partition id is too large'')) (try_from u32_max (partition_id r))) (\<lambda>pid.
     bind_result (ok_or (StoreIo (IoError InvalidInput ''partition page offset is too large'')) (try_from u64_max (first_page r))) (\<lambda>page.
     bind_result (ok_or (StoreIo (IoError InvalidInput ''partition page count is too large'')) (try_from u64_max (page_count r))) (\<lambda>pages.
     bind_result (ok_or (StoreIo (IoError InvalidInput ''partition slot offset is too large'')) (try_from u64_max (first_slot r))) (\<lambda>slot.
     bind_result (ok_or (StoreIo (IoError InvalidInput ''partition slot count is too large'')) (try_from u64_max (slot_count r))) (\<lambda>slots.
     Inr \<lparr>part_id = pid, part_first_index_page = page, part_index_page_count = pages, part_first_slot = slot,
          part_slot_count = slots, physical_value_slots = stat_value stats, physical_deleted_slots = stat_deleted stats\<rparr>))))))"

fun partition_records :: "(index_partition_range \<times> index_physical_stats) list \<Rightarrow> store_error + partition_metadata_record list" where
  "partition_records [] = Inr []"
| "partition_records (p # ps) =
     bind_result (partition_record p) (\<lambda>r. bind_result (partition_records ps) (\<lambda>rs. Inr (r # rs)))"

definition partition_metadata_from_stats ::
    "allocator \<Rightarrow> index_partition_range list \<Rightarrow> index_physical_stats list \<Rightarrow> store_error + partition_metadata_record list" where
  "partition_metadata_from_stats alloc ranges stats =
     (if length ranges \<noteq> length stats then Inl (invalid_data ''index partition ranges and statistics disagree'')
      else if \<not> alloc (length ranges) then Inl (StoreIo (IoError OutOfMemory ''cannot allocate index partition directory''))
      else partition_records (zip ranges stats))"

definition empty_partition_metadata :: "allocator \<Rightarrow> index_partition_range list \<Rightarrow> store_error + partition_metadata_record list" where
  "empty_partition_metadata alloc ranges =
     (if \<not> alloc (length ranges) then Inl (StoreIo (IoError OutOfMemory ''cannot allocate index partition statistics''))
      else partition_metadata_from_stats alloc ranges (replicate (length ranges) default_stats))"

definition index_partition_metadata :: "allocator \<Rightarrow> partition_metadata_record list store_op" where
  "index_partition_metadata alloc =
     pbind (pget (\<lambda>s. ri_storage (rs_index s))) (\<lambda>index.
     case partition_stats alloc index of
       Inl e \<Rightarrow> fail_miss_only (index_storage_io_error e)
     | Inr stats \<Rightarrow> plift (partition_metadata_from_stats alloc (pis_ranges index) stats))"

text \<open>\<^verbatim>\<open>freeze\<close> consumes the store; the metadata it freezes is the value.\<close>

definition freeze :: "allocator \<Rightarrow> region_metadata store_op" where
  "freeze alloc =
     pbind require_healthy (\<lambda>_.
     pbind (pget (\<lambda>s. list_ex (\<lambda>p. p) (rs_append_gates s) \<or> rs_rotation_poisoned s)) (\<lambda>poisoned.
     if poisoned then fail_miss_only gate_poisoned
     else
       pbind (index_partition_metadata alloc) (\<lambda>partitions.
       pbind manager_lock (\<lambda>_.
       pbind (pget rs_manager) (\<lambda>m.
       pbind (plift (map_err region_metadata_io_error (freeze_metadata alloc partitions m))) (\<lambda>md.
       pbind require_healthy (\<lambda>_. preturn md)))))))"

section \<open>Queries\<close>

definition store_shard_count :: "region_runtime \<Rightarrow> nat" where
  "store_shard_count s = length (rs_append_gates s)"

definition index_slot_count :: "region_runtime \<Rightarrow> nat" where
  "index_slot_count s = pis_slot_count (ri_storage (rs_index s))"

definition store_region_count :: "nat store_op" where
  "store_region_count = pbind manager_lock (\<lambda>_. pget (\<lambda>s. length (regions (rs_manager s))))"

definition store_configure_reclaim_workers :: "allocator \<Rightarrow> nat \<Rightarrow> nat \<Rightarrow> unit store_op" where
  "store_configure_reclaim_workers alloc capacity workers =
     pbind manager_lock (\<lambda>_ s.
     case configure_reclaim_workers alloc capacity workers (rs_manager s) of
       (r, m) \<Rightarrow> Some (map_err region_metadata_io_error r, s\<lparr>rs_manager := m\<rparr>))"

definition append_shard :: "u64 \<Rightarrow> region_runtime \<Rightarrow> nat" where
  "append_shard hash s = route_hash hash (length (rs_append_gates s))"

definition store_region_snapshot :: "region_snapshot store_op" where
  "store_region_snapshot =
     pbind manager_lock (\<lambda>_. pbind (pget rs_manager) (\<lambda>m. plift (map_err region_metadata_io_error (take_region_snapshot m))))"

definition store_index_snapshot :: "cache_index_snapshot store_op" where
  "store_index_snapshot = pbind (pget rs_index) (\<lambda>x. plift (map_err index_storage_io_error (index_snapshot x)))"

definition store_reclaim_needed :: "bool store_op" where
  "store_reclaim_needed = pbind manager_lock (\<lambda>_. pget (\<lambda>s. reclaim_needed (rs_manager s)))"

definition store_reclaim_can_reinsert :: "bool store_op" where
  "store_reclaim_can_reinsert = pbind manager_lock (\<lambda>_. pget (\<lambda>s. reclaim_can_reinsert (rs_manager s)))"

section \<open>Reads\<close>

text \<open>\<^verbatim>\<open>Option\<close> results: the error type is unused.\<close>

definition begin_point_read :: "crc_stream \<Rightarrow> (nat \<Rightarrow> bool) \<Rightarrow> u64 \<Rightarrow> read_candidate option store_op" where
  "begin_point_read digest contended hash =
     pbind (pget rs_healthy) (\<lambda>healthy.
     if \<not> healthy then preturn None
     else
       pbind (with_index (lookup_raw digest contended hash)) (\<lambda>found.
       case found of
         Inl e \<Rightarrow> if index_busy e then preturn None else pbind enter_miss_only (\<lambda>_. preturn None)
       | Inr None \<Rightarrow> preturn None
       | Inr (Some entry) \<Rightarrow>
           pbind (pget (\<lambda>s. get_at (rs_region_generations s) (unat (region_id (location entry))))) (\<lambda>generation.
           preturn (case generation of
               None \<Rightarrow> None
             | Some g \<Rightarrow> if g = 0 then None else Some \<lparr>cand_entry = entry, cand_region_generation = g\<rparr>))))"

datatype 'b io_completion =
    IoTimeout io_error "'b option"
  | IoDone bool "io_error + nat" nat "'b option"

text \<open>
  \<^verbatim>\<open>PendingRead::finish\<close>. \<open>IoDone\<close> carries whether the request id and the operation kind are those of
  the request, the I/O result, the byte count, and the buffer.
\<close>

definition pending_read_finish :: "read_desc \<Rightarrow> bytes io_completion \<Rightarrow> read_completion" where
  "pending_read_finish desc completion =
     (case completion of
        IoTimeout e buffer \<Rightarrow> \<lparr>rcp_desc = desc, rcp_result = Inl e, rcp_buffer = buffer\<rparr>
      | IoDone identity_valid io_result transferred buffer \<Rightarrow>
          \<lparr>rcp_desc = desc,
           rcp_result =
             (if \<not> identity_valid
              then Inl (IoError InvalidData ''Region record completion identity does not match its request'')
              else case buffer of
                None \<Rightarrow> Inl (IoError InvalidData ''Region record completion did not return its owned buffer'')
              | Some lease \<Rightarrow>
                  if prepared lease (desc_read_len desc) = None
                  then Inl (IoError InvalidData ''Region record completion returned a short buffer'')
                  else bind_result io_result (\<lambda>completed.
                    if completed \<noteq> desc_read_len desc \<or> transferred \<noteq> desc_read_len desc
                    then Inl (IoError UnexpectedEof ''Region record read completed with the wrong byte count'')
                    else Inr ())),
           rcp_buffer = buffer\<rparr>)"

text \<open>A refused submission.\<close>

definition submit_value_read_failed :: "io_error \<Rightarrow> 'a store_op" where
  "submit_value_read_failed e =
     (if is_read_pressure (error_kind e) then pfail (StoreIo e) else fail_miss_only (StoreIo e))"

definition store_finish_value_read :: "crc_stream \<Rightarrow> read_completion \<Rightarrow> bytes \<Rightarrow> region_value option store_op" where
  "store_finish_value_read digest completion key s =
     (case finish_value_read digest completion key (rs_healthy s) of
        None \<Rightarrow> None
      | Some (r, healthy) \<Rightarrow> Some (map_err StoreIo r, s\<lparr>rs_healthy := healthy\<rparr>))"

section \<open>Staging a record\<close>

record region_reinsert_record =
  rir_hash :: u64
  rir_previous_location :: packed_location
  rir_logical_seqno :: nat
  rir_record_bytes :: nat
  rir_payload :: record_payload

datatype region_stage_value = Staged nat nat nat | Contended | NeedsFlush | NeedsRotation

definition validate_stage :: "nat \<Rightarrow> unit store_op" where
  "validate_stage rec_bytes =
     pbind require_healthy (\<lambda>_.
     pbind (pget (\<lambda>s. as_chunk_bytes (rt_staging s))) (\<lambda>chunk_bytes.
     if rec_bytes > chunk_bytes then pfail (StoreIo (IoError InvalidInput ''value exceeds one Region staging buffer''))
     else preturn ()))"

definition stage_encoder ::
    "crc_stream \<Rightarrow> append_reservation \<Rightarrow> u64 \<Rightarrow> nat \<Rightarrow> record_payload \<Rightarrow> (nat \<times> packed_location) option
      \<Rightarrow> bytes \<Rightarrow> ((record_encode_error + staged_record) \<times> bytes) option" where
  "stage_encoder digest receipt hash rec_bytes payload reinsert destination =
     (case (case reinsert of
              Some (logical_seqno, _) \<Rightarrow> encode_reinsert_into_hashed digest destination receipt hash rec_bytes payload logical_seqno
            | None \<Rightarrow> encode_value_into_hashed digest destination receipt hash rec_bytes payload) of
        None \<Rightarrow> None
      | Some (Inl e, out) \<Rightarrow> Some (Inl e, out)
      | Some (Inr entry, out) \<Rightarrow>
          Some (Inr (case reinsert of
              Some (_, previous) \<Rightarrow> staged_reinsert hash entry (ra_seqno receipt) previous
            | None \<Rightarrow> staged_new hash entry (ra_seqno receipt)), out))"

definition fail_preflighted_stage :: "string \<Rightarrow> region_stage_value store_op" where
  "fail_preflighted_stage message = fail_closing (invalid_data message)"

text \<open>The reservation, under one manager guard; \<open>Inl\<close> is the answer that ends the attempt.\<close>

definition reserve_and_stage :: "nat \<Rightarrow> nat \<Rightarrow> (region_stage_value + append_reservation) store_op" where
  "reserve_and_stage k rec_bytes =
     pbind (with_manager (reserve_append k rec_bytes)) (\<lambda>reserved.
     case reserved of
       Inl WouldBlock \<Rightarrow> preturn (Inl NeedsFlush)
     | Inl FlushBeforeRotation \<Rightarrow> preturn (Inl NeedsRotation)
     | Inl RegionFull \<Rightarrow> preturn (Inl NeedsRotation)
     | Inl e \<Rightarrow> fail_miss_only (region_mutation_io_error e)
     | Inr receipt \<Rightarrow>
         pbind (with_manager (stage_reservation receipt)) (\<lambda>staged.
         case staged of
           Inl e \<Rightarrow> fail_closing (region_mutation_io_error e)
         | Inr _ \<Rightarrow> preturn (Inr receipt)))"

definition encode_staged ::
    "crc_stream \<Rightarrow> append_reservation \<Rightarrow> u64 \<Rightarrow> nat \<Rightarrow> record_payload \<Rightarrow> (nat \<times> packed_location) option
      \<Rightarrow> region_stage_value store_op" where
  "encode_staged digest receipt hash rec_bytes payload reinsert =
     pbind (with_staging_partial (encode_reserved receipt (stage_encoder digest receipt hash rec_bytes payload reinsert))) (\<lambda>staged.
     case staged of
       Inr (Appended previous_bytes current_bytes) \<Rightarrow> preturn (Staged (ra_seqno receipt) previous_bytes current_bytes)
     | Inr NeedsSeal \<Rightarrow> fail_preflighted_stage ''staging capacity changed after successful preflight''
     | Inl (EncodeCause e) \<Rightarrow> fail_closing (record_encode_io_error e)
     | Inl (StagingCause StagingWouldBlock) \<Rightarrow> fail_preflighted_stage ''staging became busy after preflight''
     | Inl (StagingCause e) \<Rightarrow> fail_closing (staging_io_error e))"

definition try_stage_record ::
    "crc_stream \<Rightarrow> bool \<Rightarrow> bool \<Rightarrow> nat \<Rightarrow> u64 \<Rightarrow> nat \<Rightarrow> record_payload \<Rightarrow> (nat \<times> packed_location) option
      \<Rightarrow> region_stage_value store_op" where
  "try_stage_record digest gate_busy manager_busy k hash rec_bytes payload reinsert =
     pbind (append_gate k) (\<lambda>poisoned.
     if gate_busy then preturn Contended
     else if poisoned then fail_miss_only gate_poisoned
     else
     pbind (pget rt_staging) (\<lambda>staging.
     case preflight_append staging k rec_bytes of
       Inl StagingWouldBlock \<Rightarrow> preturn Contended
     | Inl e \<Rightarrow> fail_closing (staging_io_error e)
     | Inr preflight \<Rightarrow>
     pbind (manager_try_lock manager_busy) (\<lambda>locked.
     if \<not> locked then preturn Contended
     else case preflight of
       NeedsSeal \<Rightarrow>
         pbind (with_manager (request_rotation_for_append k rec_bytes)) (\<lambda>requested.
         case requested of
           Inl e \<Rightarrow> fail_miss_only (region_mutation_io_error e)
         | Inr needs_rotation \<Rightarrow> preturn (if needs_rotation then NeedsRotation else NeedsFlush))
     | Appended _ _ \<Rightarrow>
         pbind (reserve_and_stage k rec_bytes) (\<lambda>reserved.
         case reserved of
           Inl answer \<Rightarrow> preturn answer
         | Inr receipt \<Rightarrow> encode_staged digest receipt hash rec_bytes payload reinsert))))"

definition try_stage_value ::
    "crc_stream \<Rightarrow> bool \<Rightarrow> bool \<Rightarrow> nat \<Rightarrow> u64 \<Rightarrow> nat \<Rightarrow> bytes \<Rightarrow> bytes \<Rightarrow> region_stage_value store_op" where
  "try_stage_value digest gate_busy manager_busy k hash rec_bytes key val =
     pbind (validate_stage rec_bytes) (\<lambda>_.
     try_stage_record digest gate_busy manager_busy k hash rec_bytes (payload_new digest key val) None)"

definition try_stage_reinsert ::
    "crc_stream \<Rightarrow> bool \<Rightarrow> bool \<Rightarrow> nat \<Rightarrow> region_reinsert_record \<Rightarrow> region_stage_value store_op" where
  "try_stage_reinsert digest gate_busy manager_busy k r =
     pbind (validate_stage (rir_record_bytes r)) (\<lambda>_.
     try_stage_record digest gate_busy manager_busy k (rir_hash r) (rir_record_bytes r) (rir_payload r)
       (Some (rir_logical_seqno r, rir_previous_location r)))"

definition try_delete_value :: "crc_stream \<Rightarrow> bool \<Rightarrow> (nat \<Rightarrow> bool) \<Rightarrow> u64 \<Rightarrow> nat option store_op" where
  "try_delete_value digest manager_busy contended hash =
     pbind require_healthy (\<lambda>_.
     pbind (manager_try_lock manager_busy) (\<lambda>locked.
     if \<not> locked then preturn None
     else
     pbind (with_manager allocate_seqno) (\<lambda>allocated.
     case allocated of
       Inl e \<Rightarrow> fail_miss_only (region_mutation_io_error e)
     | Inr seqno \<Rightarrow>
     pbind (with_index (try_delete digest contended hash)) (\<lambda>deleted.
     case deleted of
       Inr _ \<Rightarrow> preturn (Some seqno)
     | Inl e \<Rightarrow> if index_busy e then preturn None else fail_miss_only (index_storage_io_error e)))))"

section \<open>Flushing a shard\<close>

definition geometry_for :: "data_geometry store_op" where
  "geometry_for =
     pbind (pget rs_manager) (\<lambda>m.
     case try_from u32_max (length (regions m)) of
       None \<Rightarrow> fail_miss_only (invalid_data ''Region count is too large'')
     | Some n \<Rightarrow>
     case expected_file_len (rm_region_size m) n of
       None \<Rightarrow> fail_miss_only (invalid_data ''data geometry overflow'')
     | Some len \<Rightarrow> preturn \<lparr>dg_data_file_len = len, dg_region_size = rm_region_size m, dg_region_count = n\<rparr>)"

definition seal_aligned :: "nat \<Rightarrow> (write_span \<times> data_geometry) store_op" where
  "seal_aligned k =
     pbind (with_manager (seal_write_span k)) (\<lambda>sealed.
     case sealed of
       Inl e \<Rightarrow> fail_miss_only (region_mutation_io_error e)
     | Inr span \<Rightarrow> pbind geometry_for (\<lambda>geometry. preturn (span, geometry)))"

definition pad_and_seal :: "crc_stream \<Rightarrow> padding_receipt \<Rightarrow> (write_span \<times> data_geometry) store_op" where
  "pad_and_seal digest padding =
     pbind (with_staging_partial (apply_write_padding digest padding)) (\<lambda>padded.
     case padded of
       Inl e \<Rightarrow> fail_closing (staging_io_error e)
     | Inr _ \<Rightarrow>
     pbind manager_lock (\<lambda>_.
     pbind (with_manager (seal_write_span_with_padding padding)) (\<lambda>sealed.
     case sealed of
       Inl e \<Rightarrow> fail_closing (region_mutation_io_error e)
     | Inr span \<Rightarrow> pbind geometry_for (\<lambda>geometry. preturn (span, geometry)))))"

text \<open>
  \<^verbatim>\<open>flush_staging_shard\<close> in two halves: up to the submission, under the shard gate, and from the completion
  on. The first half answers \<open>None\<close> where the manager would block.
\<close>

definition flush_begin :: "crc_stream \<Rightarrow> nat \<Rightarrow> (staged_write \<times> data_geometry) option store_op" where
  "flush_begin digest k =
     pbind (lock_shard_mutation k) (\<lambda>_.
     pbind manager_lock (\<lambda>_.
     pbind (with_manager (reserve_write_padding k)) (\<lambda>reserved.
     case reserved of
       Inl WouldBlock \<Rightarrow> preturn None
     | Inl e \<Rightarrow> fail_miss_only (region_mutation_io_error e)
     | Inr padding \<Rightarrow>
     pbind (case padding of None \<Rightarrow> seal_aligned k | Some p \<Rightarrow> pad_and_seal digest p) (\<lambda>(span, geometry).
     pbind (with_staging (take_sealed span)) (\<lambda>taken.
     case taken of
       Inl e \<Rightarrow> fail_miss_only (staging_io_error e)
     | Inr None \<Rightarrow> fail_miss_only (invalid_data ''manager sealed a span with no staging bytes'')
     | Inr (Some job) \<Rightarrow> preturn (Some (job, geometry)))))))"

text \<open>
  \<^verbatim>\<open>submit_write\<close>: the checks before the engine is asked, with the span length and the buffer returned.
  Leases are aligned to \<open>BUFFER_ALIGNMENT\<close>, so only the length of the buffer is checked here.
\<close>

definition submit_write_checks :: "data_geometry \<Rightarrow> write_span \<Rightarrow> io_buffer \<Rightarrow> nat \<Rightarrow> io_error + nat" where
  "submit_write_checks geometry span buffer absolute =
     bind_result (validate_span geometry span) (\<lambda>(expected_len, expected_absolute).
     if ib_length buffer \<noteq> expected_len \<or> absolute \<noteq> expected_absolute
     then Inl (invalid_input ''staging job does not match its Region span'')
     else if ib_length buffer mod DIRECT_IO_ALIGNMENT \<noteq> 0
     then Inl (invalid_input ''Region span buffer is not direct-I/O aligned'')
     else Inr expected_len)"

record write_completion =
  wc_span :: write_span
  wc_result :: "io_error + unit"
  wc_buffer :: "io_buffer option"

datatype write_outcome = SubmitRefused io_error "io_buffer option" | Submitted "io_buffer io_completion"

definition pending_write_wait :: "write_span \<Rightarrow> nat \<Rightarrow> io_buffer io_completion \<Rightarrow> write_completion" where
  "pending_write_wait span expected_len completion =
     (case completion of
        IoTimeout e buffer \<Rightarrow> \<lparr>wc_span = span, wc_result = Inl e, wc_buffer = buffer\<rparr>
      | IoDone identity_valid io_result transferred buffer \<Rightarrow>
          \<lparr>wc_span = span,
           wc_result = bind_result io_result (\<lambda>completed.
             if \<not> identity_valid
             then Inl (IoError InvalidData ''Region span completion identity does not match its request'')
             else if completed \<noteq> expected_len \<or> transferred \<noteq> expected_len
             then Inl (IoError UnexpectedEof ''Region span write completed with the wrong byte count'')
             else case buffer of
               None \<Rightarrow> Inl (IoError InvalidData ''Region span completion did not return its owned buffer'')
             | Some b \<Rightarrow>
                 if ib_length b \<noteq> expected_len
                 then Inl (IoError InvalidData ''Region span completion returned a buffer with the wrong length'')
                 else Inr ()),
           wc_buffer = buffer\<rparr>)"

definition submit_and_wait :: "data_geometry \<Rightarrow> staged_write \<Rightarrow> write_outcome \<Rightarrow> write_completion" where
  "submit_and_wait geometry job outcome =
     (case submit_write_checks geometry (sw_span job) (sw_buffer job) (sw_absolute job) of
        Inl e \<Rightarrow> \<lparr>wc_span = sw_span job, wc_result = Inl e, wc_buffer = Some (sw_buffer job)\<rparr>
      | Inr expected_len \<Rightarrow>
     case outcome of
        SubmitRefused e buffer \<Rightarrow> \<lparr>wc_span = sw_span job, wc_result = Inl e, wc_buffer = buffer\<rparr>
      | Submitted completion \<Rightarrow> pending_write_wait (sw_span job) expected_len completion)"

fun publish_completed_records :: "crc_stream \<Rightarrow> staged_record list \<Rightarrow> unit store_op" where
  "publish_completed_records digest [] = preturn ()"
| "publish_completed_records digest (r # rs) =
     pbind (with_index (case staged_previous_location r of
         Some previous \<Rightarrow> replace_if_match digest (stg_hash r) previous (stg_entry r)
       | None \<Rightarrow> upsert digest (stg_hash r) (stg_entry r))) (\<lambda>published.
     case published of
       Inl e \<Rightarrow> fail_miss_only (index_storage_io_error e)
     | Inr _ \<Rightarrow> publish_completed_records digest rs)"

definition fail_staged_span :: "write_span \<Rightarrow> io_buffer option \<Rightarrow> record_vec \<Rightarrow> store_error \<Rightarrow> 'a store_op" where
  "fail_staged_span span buffer records e =
     pbind enter_miss_only (\<lambda>_. pbind (with_staging (finish_failure span buffer records)) (\<lambda>_. pfail e))"

text \<open>Every error of a callee that fails the span first.\<close>

definition or_fail_span :: "write_span \<Rightarrow> io_buffer option \<Rightarrow> record_vec \<Rightarrow> 'a store_op \<Rightarrow> 'a store_op" where
  "or_fail_span span buffer records m s =
     (case m s of
        Some (Inl e, s') \<Rightarrow> fail_staged_span span buffer records e s'
      | r \<Rightarrow> r)"

definition flush_complete :: "crc_stream \<Rightarrow> record_vec \<Rightarrow> write_completion \<Rightarrow> write_span option store_op" where
  "flush_complete digest records completion =
     (case wc_result completion of
        Inl e \<Rightarrow> fail_staged_span (wc_span completion) (wc_buffer completion) records (StoreIo e)
      | Inr _ \<Rightarrow>
     case wc_buffer completion of
        None \<Rightarrow> fail_staged_span (wc_span completion) None records (invalid_data ''span completion lost its owned buffer'')
      | Some buffer \<Rightarrow>
     pbind (or_fail_span (wc_span completion) (Some buffer) records
       (pbind manager_lock (\<lambda>_.
        pbind (with_manager (complete_write_span (wc_span completion))) (\<lambda>completed.
        case completed of Inl e \<Rightarrow> fail_miss_only (region_mutation_io_error e) | Inr _ \<Rightarrow> preturn ())))) (\<lambda>_.
     pbind (or_fail_span (wc_span completion) (Some buffer) records (publish_completed_records digest (vec_items records))) (\<lambda>_.
     pbind (with_staging (finish_success (wc_span completion) buffer records)) (\<lambda>finished.
     case finished of
       Inl e \<Rightarrow> fail_miss_only (staging_io_error e)
     | Inr _ \<Rightarrow> preturn (Some (wc_span completion))))))"

definition flush_staging_shard :: "crc_stream \<Rightarrow> write_outcome \<Rightarrow> nat \<Rightarrow> write_span option store_op" where
  "flush_staging_shard digest outcome k =
     pbind (flush_begin digest k) (\<lambda>begun.
     case begun of
       None \<Rightarrow> preturn None
     | Some (job, geometry) \<Rightarrow> flush_complete digest (sw_records job) (submit_and_wait geometry job outcome))"

section \<open>Rotation\<close>

datatype region_rotation = RotationIdle | RotationPending | Rotated

definition begin_store_rotation :: "rotation_candidate \<Rightarrow> rotation_receipt store_op" where
  "begin_store_rotation candidate =
     pbind manager_lock (\<lambda>_.
     pbind (with_manager (begin_rotation candidate)) (\<lambda>begun.
     case begun of
       Inl e \<Rightarrow> pfail (region_mutation_context ''rotation begin'' e)
     | Inr receipt \<Rightarrow>
     pbind (pget (\<lambda>s. length (rs_region_generations s))) (\<lambda>n.
     if rr_activated_region_id receipt \<ge> n then fail_miss_only (invalid_data ''rotation activated an untracked Region'')
     else
     pbind (pmodify (\<lambda>s. s\<lparr>rs_region_generations :=
         (rs_region_generations s)[rr_activated_region_id receipt := rr_activated_created_seqno receipt]\<rparr>)) (\<lambda>_.
     preturn receipt))))"

definition rotate_shard :: "nat \<Rightarrow> region_rotation store_op" where
  "rotate_shard k =
     pbind require_healthy (\<lambda>_.
     pbind (lock_shard_mutation k) (\<lambda>_.
     pbind (pget rs_rotation_poisoned) (\<lambda>poisoned.
     if poisoned then fail_miss_only (invalid_data ''Region rotation gate is poisoned'')
     else
     pbind manager_lock (\<lambda>_.
     pbind (pget rs_manager) (\<lambda>m.
     case rotation_is_requested m k of
       Inl e \<Rightarrow> pfail (region_mutation_context ''rotation selection'' e)
     | Inr False \<Rightarrow> preturn RotationIdle
     | Inr True \<Rightarrow>
     case get_rotation_candidate m k of
       Inl WouldBlock \<Rightarrow> preturn RotationPending
     | Inl e \<Rightarrow> pfail (region_mutation_context ''rotation selection'' e)
     | Inr candidate \<Rightarrow>
     pbind (begin_store_rotation candidate) (\<lambda>receipt.
     pbind manager_lock (\<lambda>_.
     pbind (with_manager (finish_rotation receipt)) (\<lambda>finished.
     case finished of
       Inl e \<Rightarrow> fail_miss_only (region_mutation_context ''rotation completion'' e)
     | Inr _ \<Rightarrow> preturn Rotated))))))))"

section \<open>Reclaim\<close>

record region_reclaim_stats =
  rst_records_scanned :: nat
  rst_records_removed :: nat
  rst_bytes_read :: nat
  rst_reinsert_records :: nat
  rst_reinsert_bytes :: nat
  rst_reinsert_skipped :: nat
  rst_reinsert_budget_skipped :: nat

definition store_begin_reclaim :: "reclaim_receipt option store_op" where
  "store_begin_reclaim =
     pbind require_healthy (\<lambda>_.
     pbind manager_lock (\<lambda>_.
     pbind (with_manager begin_reclaim) (\<lambda>begun. plift (map_err (region_mutation_context ''reclaim begin'') begun))))"

definition reclaim_absolute :: "reclaim_receipt \<Rightarrow> nat store_op" where
  "reclaim_absolute receipt =
     pbind manager_lock (\<lambda>_.
     pbind (pget rs_manager) (\<lambda>m.
     pbind (plift (ok_or (invalid_data ''reclaim offset overflow'') (checked_mul u64_max (rc_region_id receipt) (rm_region_size m)))) (\<lambda>base.
     plift (ok_or (invalid_data ''reclaim offset overflow'') (checked_add u64_max DATA_REGION_AREA_OFFSET base)))))"

text \<open>One record of the sealed prefix: its header, where it ends, and its location.\<close>

record scanned_record =
  scr_header :: record_header
  scr_header_end :: nat
  scr_record_end :: nat
  scr_payload_end :: nat
  scr_location :: packed_location

definition scan_record :: "crc_stream \<Rightarrow> reclaim_receipt \<Rightarrow> bytes \<Rightarrow> nat \<Rightarrow> store_error + scanned_record" where
  "scan_record digest receipt bs off =
     bind_result (ok_or (invalid_data ''reclaim header offset overflow'') (checked_add usize_max off RECORD_HEADER_SIZE)) (\<lambda>header_end.
     bind_result (ok_or (invalid_data ''reclaim found an invalid record header'')
       (Option.bind (slice_at bs off header_end) (decode_header digest))) (\<lambda>header.
     bind_result (ok_or (invalid_data ''reclaim record length is too large'') (try_from usize_max (unat (hdr_record_len header)))) (\<lambda>n.
     bind_result (ok_or (invalid_data ''reclaim record crosses the sealed prefix'')
       (Option.bind (checked_add usize_max off n) (\<lambda>e. if e \<le> length bs then Some e else None))) (\<lambda>record_end.
     bind_result (ok_or (invalid_data ''reclaim record payload is out of bounds'')
       (Option.bind (Option.bind (checked_add usize_max header_end (unat (hdr_key_len header)))
           (\<lambda>e. checked_add usize_max e (unat (hdr_value_len header))))
         (\<lambda>e. if e \<le> record_end then Some e else None))) (\<lambda>payload_end.
     if hdr_region_generation header \<noteq> of_nat (rc_created_seqno receipt) \<or> payload_end > record_end
     then Inl (invalid_data ''reclaim record belongs to another Region generation'')
     else
       bind_result (ok_or (invalid_data ''reclaim record offset is too large'') (try_from u32_max off)) (\<lambda>off32.
       bind_result (map_err LocationFault
         (location_new (of_nat (rc_region_id receipt)) (of_nat off32) (hdr_record_len header))) (\<lambda>loc.
       Inr \<lparr>scr_header = header, scr_header_end = header_end, scr_record_end = record_end,
            scr_payload_end = payload_end, scr_location = loc\<rparr>)))))))"

record scan_progress =
  sp_offset :: nat
  sp_stats :: region_reclaim_stats
  sp_budget :: nat
  sp_accepting :: bool

type_synonym reinsert_sink = "region_reinsert_record \<Rightarrow> bool store_op"

definition count_removed :: "region_reclaim_stats \<Rightarrow> region_reclaim_stats" where
  "count_removed st = st\<lparr>rst_records_removed := saturating_add u64_max (rst_records_removed st) 1\<rparr>"

text \<open>A hot current record: offered to the sink, or removed.\<close>

definition reinsert_or_remove ::
    "crc_stream \<Rightarrow> reinsert_sink \<Rightarrow> bytes \<Rightarrow> scanned_record \<Rightarrow> scan_progress \<Rightarrow> scan_progress store_op" where
  "reinsert_or_remove digest try_reinsert bs r p =
     pbind (plift (ok_or (invalid_data ''reclaim key range overflow'')
       (checked_add usize_max (scr_header_end r) (unat (hdr_key_len (scr_header r)))))) (\<lambda>key_end.
     pbind (ppanic (slice_at bs (scr_header_end r) key_end)) (\<lambda>key.
     pbind (ppanic (slice_at bs key_end (scr_payload_end r))) (\<lambda>val.
     pbind (plift (ok_or (invalid_data ''reclaim replacement record is too large'') (aligned_len (length key) (length val)))) (\<lambda>rewrite_bytes.
     let within_budget = (rewrite_bytes \<le> sp_budget p);
         payload = (if sp_accepting p \<or> \<not> within_budget then payload_validate digest key val (hdr_payload_crc (scr_header r)) else None) in
     pbind (case payload of
         None \<Rightarrow> preturn (False, p)
       | Some payload \<Rightarrow>
           if within_budget then
             pbind (try_reinsert \<lparr>rir_hash = hdr_key_hash (scr_header r), rir_previous_location = scr_location r,
               rir_logical_seqno = unat (hdr_seqno (scr_header r)), rir_record_bytes = rewrite_bytes, rir_payload = payload\<rparr>) (\<lambda>reinserted.
             preturn (reinserted, p\<lparr>sp_accepting := reinserted\<rparr>))
           else preturn (False, p\<lparr>sp_stats := (sp_stats p)\<lparr>rst_reinsert_budget_skipped :=
             saturating_add u64_max (rst_reinsert_budget_skipped (sp_stats p)) 1\<rparr>\<rparr>)) (\<lambda>(reinserted, p).
     if reinserted then
       preturn (p\<lparr>sp_budget := sp_budget p - rewrite_bytes,
         sp_stats := (sp_stats p)\<lparr>rst_reinsert_records := saturating_add u64_max (rst_reinsert_records (sp_stats p)) 1,
           rst_reinsert_bytes := saturating_add u64_max (rst_reinsert_bytes (sp_stats p)) (rewrite_bytes)\<rparr>\<rparr>)
     else
       pbind (with_index (remove_if_match digest (hdr_key_hash (scr_header r)) (scr_location r))) (\<lambda>removed.
       case removed of
         Inl e \<Rightarrow> pfail (index_storage_io_error e)
       | Inr b \<Rightarrow>
           (let st = (if b then count_removed (sp_stats p) else sp_stats p) in
            preturn (p\<lparr>sp_stats := st\<lparr>rst_reinsert_skipped := saturating_add u64_max (rst_reinsert_skipped st) 1\<rparr>\<rparr>))))))))"

definition scan_action ::
    "crc_stream \<Rightarrow> reinsert_sink \<Rightarrow> bytes \<Rightarrow> scanned_record \<Rightarrow> scan_progress \<Rightarrow> scan_progress store_op" where
  "scan_action digest try_reinsert bs r p =
     pbind (with_index (prepare_reclaim digest (hdr_key_hash (scr_header r)) (scr_location r))) (\<lambda>action.
     case action of
       Inl e \<Rightarrow> pfail (index_storage_io_error e)
     | Inr ReclaimMissing \<Rightarrow> preturn p
     | Inr ReclaimRemoved \<Rightarrow> preturn (p\<lparr>sp_stats := count_removed (sp_stats p)\<rparr>)
     | Inr ReclaimReinsert \<Rightarrow> reinsert_or_remove digest try_reinsert bs r p)"

definition scan_advance :: "scanned_record \<Rightarrow> scan_progress \<Rightarrow> scan_progress" where
  "scan_advance r p = p\<lparr>sp_offset := scr_record_end r,
     sp_stats := (sp_stats p)\<lparr>rst_records_scanned := saturating_add u64_max (rst_records_scanned (sp_stats p)) 1\<rparr>\<rparr>"

text \<open>The loop ends because a decoded header has a positive record length.\<close>

lemma scan_record_advances:
  assumes "scan_record digest receipt bs off = Inr r" shows "off < scr_record_end r" "scr_record_end r \<le> length bs"
proof -
  from assms obtain header where "decode_header digest (take RECORD_HEADER_SIZE (drop off bs)) = Some header"
    and e: "scr_record_end r = off + unat (hdr_record_len header)" "scr_record_end r \<le> length bs"
    by (auto simp: scan_record_def Option.bind_eq_Some_conv slice_at_def split: if_splits)
  then have "has_valid_lengths header" by (simp add: decode_header_fields(12))
  then have "0 < unat (hdr_record_len header)" by (auto simp: has_valid_lengths_def Let_def unat_gt_0 split: option.splits if_splits)
  with e show "off < scr_record_end r" "scr_record_end r \<le> length bs" by simp_all
qed

function scan_loop ::
    "crc_stream \<Rightarrow> reinsert_sink \<Rightarrow> reclaim_receipt \<Rightarrow> bytes \<Rightarrow> nat \<Rightarrow> scan_progress \<Rightarrow> region_runtime
      \<Rightarrow> ((store_error + scan_progress) \<times> region_runtime) option" where
  "scan_loop digest try_reinsert receipt bs off p s =
     (if off < length bs then
        (case scan_record digest receipt bs off of
           Inl e \<Rightarrow> Some (Inl e, s)
         | Inr r \<Rightarrow>
        case scan_action digest try_reinsert bs r p s of
           None \<Rightarrow> None
         | Some (Inl e, s') \<Rightarrow> Some (Inl e, s')
         | Some (Inr p', s') \<Rightarrow> scan_loop digest try_reinsert receipt bs (scr_record_end r) (scan_advance r p') s')
      else Some (Inr p, s))"
  by pat_completeness auto
termination
  by (relation "measure (\<lambda>(digest, try_reinsert, receipt, bs, off, p, s). length bs - off)")
    (auto intro!: diff_less_mono2 dest: scan_record_advances(1))

declare scan_loop.simps [simp del]

definition reinsert_budget :: "reclaim_receipt \<Rightarrow> nat" where
  "reinsert_budget receipt =
     (let raw_budget = rc_used_offset receipt div 8 - DIRECT_IO_ALIGNMENT in raw_budget - raw_budget mod RECORD_ALIGNMENT)"

definition scan_start :: "reclaim_receipt \<Rightarrow> bool \<Rightarrow> scan_progress" where
  "scan_start receipt accepting_reinserts =
     \<lparr>sp_offset = 0,
      sp_stats = \<lparr>rst_records_scanned = 0, rst_records_removed = 0, rst_bytes_read = rc_used_offset receipt,
        rst_reinsert_records = 0, rst_reinsert_bytes = 0, rst_reinsert_skipped = 0, rst_reinsert_budget_skipped = 0\<rparr>,
      sp_budget = reinsert_budget receipt, sp_accepting = accepting_reinserts\<rparr>"

definition scan_reclaim ::
    "crc_stream \<Rightarrow> reclaim_receipt \<Rightarrow> bytes \<Rightarrow> bool \<Rightarrow> reinsert_sink \<Rightarrow> region_reclaim_stats store_op" where
  "scan_reclaim digest receipt bs accepting_reinserts try_reinsert =
     (if length bs \<noteq> rc_used_offset receipt
      then pfail (invalid_data ''reclaim read does not match the sealed Region prefix'')
      else
        pbind (scan_loop digest try_reinsert receipt bs 0 (scan_start receipt accepting_reinserts)) (\<lambda>p.
        if rst_records_scanned (sp_stats p) \<noteq> rc_physical_record_count receipt
        then pfail (invalid_data ''reclaim record count does not match Region metadata'')
        else preturn (sp_stats p)))"

definition complete_reclaim :: "reclaim_receipt \<Rightarrow> unit store_op" where
  "complete_reclaim receipt =
     pbind (pget (\<lambda>s. length (rs_region_generations s))) (\<lambda>n.
     if rc_region_id receipt \<ge> n then pfail (invalid_data ''reclaim Region id is out of bounds'')
     else
       pbind (pmodify (\<lambda>s. s\<lparr>rs_region_generations := (rs_region_generations s)[rc_region_id receipt := 0]\<rparr>)) (\<lambda>_.
       pbind manager_lock (\<lambda>_.
       pbind (with_manager (finish_reclaim receipt)) (\<lambda>finished.
       plift (map_err (region_mutation_context ''reclaim completion'') finished)))))"

section \<open>Fixed memory\<close>

definition runtime_fixed_memory_bytes :: "allocator \<Rightarrow> nat \<Rightarrow> nat \<Rightarrow> store_error + nat" where
  "runtime_fixed_memory_bytes alloc slot_total region_total =
     (let oversize = (\<lambda>message. StoreIo (IoError InvalidInput message)) in
      bind_result (ok_or (oversize ''index capacity is too large'') (try_from u64_max slot_total)) (\<lambda>slots.
      bind_result (ok_or (oversize ''index memory does not fit the platform'')
        (Option.bind (recovery_image_index_len slots) (try_from usize_max))) (\<lambda>index_bytes.
      bind_result (ok_or (oversize ''index page-state memory does not fit the platform'')
        (checked_mul usize_max (index_bytes div INDEX_IMAGE_PAGE_SIZE) 1)) (\<lambda>index_page_state_bytes.
      bind_result (ok_or (oversize ''Region count is too large'') (try_from usize_max region_total)) (\<lambda>regions.
      bind_result (ok_or (oversize ''memory size overflow'') (checked_mul usize_max regions 256)) (\<lambda>region_bytes.
      bind_result (map_err index_storage_io_error (canonical_index_partition_ranges alloc slot_total)) (\<lambda>ranges.
      bind_result (ok_or (oversize ''metadata size overflow'')
        (Option.bind (checked_add usize_max 1 (div_ceil regions REGION_METADATA_REGIONS_PER_PAGE))
          (\<lambda>pages. checked_add usize_max pages (div_ceil (length ranges) REGION_METADATA_PARTITIONS_PER_PAGE)))) (\<lambda>metadata_pages.
      bind_result (ok_or (oversize ''metadata size overflow'') (checked_mul usize_max metadata_pages REGION_METADATA_PAGE_SIZE)) (\<lambda>metadata_bytes.
      bind_result (ok_or (oversize ''recovery memory overflow'')
        (Option.bind (checked_mul usize_max metadata_bytes 2) (\<lambda>b. checked_add usize_max b WARM_IMAGE_WRITE_BATCH_BYTES))) (\<lambda>recovery_scratch.
      bind_result (ok_or (oversize ''index heat memory does not fit the platform'') (heat_memory_bytes slot_total)) (\<lambda>heat_bytes.
      ok_or (oversize ''memory size overflow'')
        (Option.bind (Option.bind (Option.bind (checked_add usize_max index_bytes index_page_state_bytes)
          (\<lambda>b. checked_add usize_max b heat_bytes)) (\<lambda>b. checked_add usize_max b region_bytes))
          (\<lambda>b. checked_add usize_max b recovery_scratch)))))))))))))"

end
