(* ===== verification/Record_Log.thy ===== *)
theory Record_Log
  imports Region_Store Index_Properties Region_Lifecycle
begin

text \<open>
  A Region as a log of records. A log record is the header, key and value that were encoded; its image
  is what the encoder writes. The lemmas say how a scan and a read see a log on the device, and how the
  staged records of a chunk describe the log records encoded in it.
\<close>

section \<open>Log records\<close>

record log_record =
  lr_header :: record_header
  lr_key :: bytes
  lr_value :: bytes

definition lr_len :: "log_record \<Rightarrow> nat" where
  "lr_len l = unat (hdr_record_len (lr_header l))"

definition lr_hash :: "log_record \<Rightarrow> u64" where
  "lr_hash l = hdr_key_hash (lr_header l)"

definition log_record_ok :: "nat \<Rightarrow> log_record \<Rightarrow> bool" where
  "log_record_ok gen l \<longleftrightarrow>
     has_valid_lengths (lr_header l) \<and> hdr_region_generation (lr_header l) = of_nat gen
     \<and> unat (hdr_key_len (lr_header l)) = length (lr_key l) \<and> unat (hdr_value_len (lr_header l)) = length (lr_value l)
     \<and> 48 + length (lr_key l) + length (lr_value l) \<le> lr_len l \<and> length (lr_key l) \<le> MAX_KEY_SIZE
     \<and> lr_len l mod 32 = 0 \<and> 64 \<le> lr_len l"

definition log_image :: "crc_stream \<Rightarrow> log_record \<Rightarrow> bytes" where
  "log_image digest l = record_image digest (lr_header l) (lr_key l) (lr_value l) (lr_len l)"

definition log_bytes :: "crc_stream \<Rightarrow> log_record list \<Rightarrow> bytes" where
  "log_bytes digest ls = concat (map (log_image digest) ls)"

definition log_len :: "log_record list \<Rightarrow> nat" where
  "log_len ls = sum_list (map lr_len ls)"

lemma log_simps [simp]:
  "log_bytes digest [] = []" "log_bytes digest (l # ls) = log_image digest l @ log_bytes digest ls"
  "log_bytes digest (xs @ ys) = log_bytes digest xs @ log_bytes digest ys"
  "log_len [] = 0" "log_len (l # ls) = lr_len l + log_len ls" "log_len (xs @ ys) = log_len xs + log_len ys"
  by (simp_all add: log_bytes_def log_len_def)

lemma length_log_image: "log_record_ok gen l \<Longrightarrow> length (log_image digest l) = lr_len l"
  by (simp add: log_image_def log_record_ok_def length_record_image)

lemma length_log_bytes: "\<forall>l \<in> set ls. log_record_ok gen l \<Longrightarrow> length (log_bytes digest ls) = log_len ls"
  by (induction ls) (auto simp: length_log_image)

lemma log_len_mod: "\<forall>l \<in> set ls. log_record_ok gen l \<Longrightarrow> log_len ls mod 32 = 0"
  by (induction ls) (auto simp: log_record_ok_def mod_add_eq [symmetric])

lemma log_len_pos: "\<forall>l \<in> set ls. log_record_ok gen l \<Longrightarrow> 64 * length ls \<le> log_len ls"
  by (induction ls) (auto simp: log_record_ok_def)

text \<open>The location a record has at an offset of a Region.\<close>

definition exact_location :: "nat \<Rightarrow> nat \<Rightarrow> log_record \<Rightarrow> packed_location" where
  "exact_location rid off l = (case location_new (of_nat rid) (of_nat off) (hdr_record_len (lr_header l)) of Inr loc \<Rightarrow> loc)"

lemma exact_location:
  assumes ok: "log_record_ok gen l" and b: "rid < 2 ^ 20" "off mod 32 = 0" "off + lr_len l \<le> 2 ^ 25"
  shows "location_new (of_nat rid) (of_nat off) (hdr_record_len (lr_header l)) = Inr (exact_location rid off l)"
    "unat (region_id (exact_location rid off l)) = rid" "unat (offset (exact_location rid off l)) = off"
    "unat (record_len (exact_location rid off l)) = lr_len l" "record_len (exact_location rid off l) = hdr_record_len (lr_header l)"
    "region_id (exact_location rid off l) = of_nat rid" "offset (exact_location rid off l) = of_nat off"
proof -
  have l: "lr_len l mod 32 = 0" "64 \<le> lr_len l" using ok by (simp_all add: log_record_ok_def)
  have u: "unat (of_nat rid :: u32) = rid" "unat (of_nat off :: u32) = off"
    using b l by (auto intro!: unat_u32_of_nat simp: num_bounds)
  have "off \<le> (2 ^ 20 - 1) * 32"
  proof -
    from b(2) obtain j where "off = 32 * j" by auto
    with b(3) l(2) show ?thesis by simp
  qed
  then obtain loc where loc: "location_new (of_nat rid) (of_nat off) (hdr_record_len (lr_header l)) = Inr loc"
    using location_new_total [of "of_nat rid" "of_nat off" "hdr_record_len (lr_header l)"] b l u
    by (auto simp: packed_limits lr_len_def OFFSET_ALIGNMENT_def RECORD_LEN_ALIGNMENT_def)
  then have e: "exact_location rid off l = loc" by (simp add: exact_location_def)
  note r = location_new_roundtrip [OF loc]
  show "location_new (of_nat rid) (of_nat off) (hdr_record_len (lr_header l)) = Inr (exact_location rid off l)"
    "unat (region_id (exact_location rid off l)) = rid" "unat (offset (exact_location rid off l)) = off"
    "unat (record_len (exact_location rid off l)) = lr_len l" "record_len (exact_location rid off l) = hdr_record_len (lr_header l)"
    "region_id (exact_location rid off l) = of_nat rid" "offset (exact_location rid off l) = of_nat off"
    unfolding e using loc r u by (simp_all add: lr_len_def)
qed

text \<open>The record number \<open>i\<close> of a log, the offset it starts at, and the index entry that designates it.\<close>

definition log_offset :: "log_record list \<Rightarrow> nat \<Rightarrow> nat" where
  "log_offset ls i = log_len (take i ls)"

definition log_entry :: "nat \<Rightarrow> log_record list \<Rightarrow> nat \<Rightarrow> index_entry" where
  "log_entry rid ls i = quantize_entry \<lparr>location = exact_location rid (log_offset ls i) (ls ! i)\<rparr>"

lemma log_offset_Suc: "i < length ls \<Longrightarrow> log_offset ls (Suc i) = log_offset ls i + lr_len (ls ! i)"
  by (simp add: log_offset_def take_Suc_conv_app_nth)

lemma log_offset_le: "i \<le> length ls \<Longrightarrow> log_offset ls i \<le> log_len ls"
  by (metis append_take_drop_id le_add1 log_offset_def log_simps(6))

lemma log_offset_end: "i < length ls \<Longrightarrow> log_offset ls i + lr_len (ls ! i) \<le> log_len ls"
  using log_offset_le [of "Suc i" ls] by (simp add: log_offset_Suc)

lemma log_offset_append [simp]: "i \<le> length ls \<Longrightarrow> log_offset (ls @ ls') i = log_offset ls i"
  by (simp add: log_offset_def)

lemma log_offset_mono:
  assumes "i < j" "j \<le> length ls" "\<forall>l \<in> set ls. log_record_ok gen l" shows "log_offset ls i < log_offset ls j"
  using assms(1,2)
proof (induction j)
  case (Suc j)
  have "64 \<le> lr_len (ls ! j)" using assms(3) Suc.prems(2) by (auto simp: log_record_ok_def)
  then show ?case using Suc by (cases "i = j") (simp_all add: log_offset_Suc)
qed simp

lemma log_offset_inj:
  assumes "log_offset ls i = log_offset ls j" "i < length ls" "j < length ls" "\<forall>l \<in> set ls. log_record_ok gen l" shows "i = j"
  using assms log_offset_mono [of i j ls gen] log_offset_mono [of j i ls gen] by (metis less_imp_le_nat linorder_neqE_nat nat_less_le)

lemma log_offset_mod: "\<forall>l \<in> set ls. log_record_ok gen l \<Longrightarrow> log_offset ls i mod 32 = 0"
  unfolding log_offset_def by (rule log_len_mod) (auto dest: in_set_takeD)

lemma log_entry_append [simp]: "i < length ls \<Longrightarrow> log_entry rid (ls @ ls') i = log_entry rid ls i"
  by (simp add: log_entry_def nth_append)

lemma log_bytes_at:
  assumes ok: "\<forall>l \<in> set ls. log_record_ok gen l" and i: "i < length ls"
  shows "take (lr_len (ls ! i)) (drop (log_offset ls i) (log_bytes digest ls)) = log_image digest (ls ! i)"
proof -
  have "log_bytes digest ls = log_bytes digest (take i ls @ ls ! i # drop (Suc i) ls)" using i by (simp add: id_take_nth_drop [symmetric])
  moreover have "length (log_bytes digest (take i ls)) = log_offset ls i"
    unfolding log_offset_def by (rule length_log_bytes) (use ok in \<open>auto dest: in_set_takeD\<close>)
  moreover have "length (log_image digest (ls ! i)) = lr_len (ls ! i)" using ok i by (auto intro!: length_log_image)
  ultimately show ?thesis by simp
qed

section \<open>Scanning and reading a log\<close>

lemma log_image_parts:
  assumes "log_record_ok gen l"
  shows "decode_header digest (take 48 (log_image digest l)) = Some (lr_header l)"
    "take (length (lr_key l)) (drop 48 (log_image digest l)) = lr_key l"
    "take (length (lr_value l)) (drop (48 + length (lr_key l)) (log_image digest l)) = lr_value l"
proof -
  have "has_valid_lengths (lr_header l)" using assms by (simp add: log_record_ok_def)
  from decode_record_image [OF this] show "decode_header digest (take 48 (log_image digest l)) = Some (lr_header l)"
    unfolding log_image_def .
  show "take (length (lr_key l)) (drop 48 (log_image digest l)) = lr_key l"
    "take (length (lr_value l)) (drop (48 + length (lr_key l)) (log_image digest l)) = lr_value l"
    by (simp_all add: log_image_def record_image_parts)
qed

text \<open>A slice inside a record is a slice of its image.\<close>

lemma slice_in_record:
  assumes at: "take n (drop off bs) = img" and len: "off + n \<le> length bs" and k: "a \<le> b" "b \<le> n"
  shows "slice_at bs (off + a) (off + b) = Some (take (b - a) (drop a img))"
proof -
  have "drop a img = take (n - a) (drop (off + a) bs)" using at by (auto simp: drop_take add.commute)
  then show ?thesis using k len by (simp add: slice_at_def min_def)
qed

lemma log_slice:
  assumes "\<forall>l \<in> set ls. log_record_ok gen l" "i < length ls" "a \<le> b" "b \<le> lr_len (ls ! i)"
  shows "slice_at (log_bytes digest ls) (log_offset ls i + a) (log_offset ls i + b)
    = Some (take (b - a) (drop a (log_image digest (ls ! i))))"
  by (rule slice_in_record [OF log_bytes_at [OF assms(1,2)] _ assms(3,4)])
    (use log_offset_end [OF assms(2)] in \<open>simp add: length_log_bytes [OF assms(1)]\<close>)

lemma scan_record_log:
  fixes ls i receipt
  defines "l \<equiv> ls ! i" and "off \<equiv> log_offset ls i"
  assumes ok: "\<forall>l \<in> set ls. log_record_ok (rc_created_seqno receipt) l" and i: "i < length ls"
    and b: "log_len ls \<le> 2 ^ 25" "rc_region_id receipt < 2 ^ 20"
  shows "scan_record digest receipt (log_bytes digest ls) off =
    Inr \<lparr>scr_header = lr_header l, scr_header_end = off + 48, scr_record_end = off + lr_len l,
         scr_payload_end = off + 48 + length (lr_key l) + length (lr_value l),
         scr_location = exact_location (rc_region_id receipt) off l\<rparr>"
proof -
  have l: "log_record_ok (rc_created_seqno receipt) l" using ok i by (simp add: l_def)
  then have f: "48 + length (lr_key l) + length (lr_value l) \<le> lr_len l" "unat (hdr_record_len (lr_header l)) = lr_len l"
    "unat (hdr_key_len (lr_header l)) = length (lr_key l)" "unat (hdr_value_len (lr_header l)) = length (lr_value l)"
    "hdr_region_generation (lr_header l) = of_nat (rc_created_seqno receipt)"
    by (simp_all add: log_record_ok_def lr_len_def)
  have e: "off + lr_len l \<le> log_len ls" using log_offset_end [OF i] by (simp add: l_def off_def)
  have len: "length (log_bytes digest ls) = log_len ls" by (rule length_log_bytes [OF ok])
  have sl: "slice_at (log_bytes digest ls) off (off + 48) \<bind> decode_header digest = Some (lr_header l)"
    using log_slice [OF ok i, of 0 48 digest] f(1) log_image_parts(1) [OF l] by (simp add: l_def off_def)
  have loc: "location_new (of_nat (rc_region_id receipt)) (of_nat off) (hdr_record_len (lr_header l))
      = Inr (exact_location (rc_region_id receipt) off l)"
    by (rule exact_location(1) [OF l b(2)]) (use log_offset_mod [OF ok] e b in \<open>simp_all add: off_def\<close>)
  have arith: "checked_add usize_max off 48 = Some (off + 48)" "try_from usize_max (lr_len l) = Some (lr_len l)"
    "checked_add usize_max off (lr_len l) = Some (off + lr_len l)"
    "checked_add usize_max (off + 48) (length (lr_key l)) = Some (off + 48 + length (lr_key l))"
    "checked_add usize_max (off + 48 + length (lr_key l)) (length (lr_value l)) = Some (off + 48 + length (lr_key l) + length (lr_value l))"
    "try_from u32_max off = Some off"
    using e b(1) f(1) by (simp_all add: checked_add_def try_from_def num_bounds)
  show ?thesis
    using e f(1,5)
    by (simp add: scan_record_def sl loc arith f(2-4) len RECORD_HEADER_SIZE_def
        del: bind_result_eq_Inr try_from_eq_Some checked_add_eq_Some)
qed

text \<open>
  Reading through the entry of a record: the answer is the value of the record when the key and the hash
  are its own, and a miss otherwise.
\<close>

definition region_holds :: "crc_stream \<Rightarrow> data_geometry \<Rightarrow> bytes \<Rightarrow> nat \<Rightarrow> log_record list \<Rightarrow> bool" where
  "region_holds digest g dev rid ls \<longleftrightarrow>
     take (log_len ls) (drop (DATA_REGION_AREA_OFFSET + rid * dg_region_size g) dev) = log_bytes digest ls"

lemma finish_value_read_answers:
  assumes "record_bytes c = Some rb" "rcp_buffer c = Some lease" "rcp_result c = Inr ()"
  shows "\<exists>v. finish_value_read digest c key healthy = Some (Inr v, healthy)"
  using assms
  by (auto simp: finish_value_read_def Let_def slice_at_def RECORD_HEADER_SIZE_def Option.bind_eq_Some_conv
      split: sum.splits if_splits option.splits)

lemma finish_value_read_miss:
  assumes c: "record_bytes c = Some rb" and img: "take (lr_len l) rb = log_image digest l" "lr_len l \<le> length rb"
    and ok: "log_record_ok gen l" and no: "lr_hash l \<noteq> desc_hash (rcp_desc c) \<or> lr_key l \<noteq> key"
  shows "finish_value_read digest c key healthy = Some (Inr None, healthy)"
proof -
  from record_bytes_slice [OF c] obtain lease where lease: "rcp_buffer c = Some lease" "rcp_result c = Inr ()" by metis
  have f: "48 + length (lr_key l) + length (lr_value l) \<le> lr_len l" "unat (hdr_record_len (lr_header l)) = lr_len l"
    "unat (hdr_key_len (lr_header l)) = length (lr_key l)" "unat (hdr_value_len (lr_header l)) = length (lr_value l)"
    using ok by (simp_all add: log_record_ok_def lr_len_def)
  obtain v where v: "finish_value_read digest c key healthy = Some (Inr v, healthy)"
    using finish_value_read_answers [OF c lease] by blast
  have False if "v = Some val" for val
  proof -
    from finish_value_read_Some [OF v [unfolded that]] c obtain header where
      h: "decode_header digest (take 48 rb) = Some header" "hdr_key_hash header = desc_hash (rcp_desc c)"
        "take (unat (hdr_key_len header)) (drop 48 rb) = key" by (metis option.inject)
    have "take 48 rb = take 48 (log_image digest l)" using f(1) by (simp flip: img(1))
    with h(1) log_image_parts(1) [OF ok, of digest] have "header = lr_header l" by simp
    moreover have "take (length (lr_key l)) (drop 48 rb) = lr_key l"
      using log_image_parts(2) [OF ok, of digest] f(1) unfolding img(1) [symmetric] by (simp add: drop_take min_absorb1)
    ultimately show False using h(2,3) no by (simp add: f lr_hash_def)
  qed
  then show ?thesis using v by (cases v) auto
qed

lemma read_log_record:
  fixes ls i rid g gen direct hash
  defines "l \<equiv> ls ! i" and "off \<equiv> log_offset ls i"
  assumes ok: "\<forall>l \<in> set ls. log_record_ok gen l" and i: "i < length ls" and gen: "0 < gen"
    and g: "geometry_is_valid g" "rid < dg_region_count g" "log_len ls \<le> dg_region_size g"
    and dev: "length dev = dg_data_file_len g" "region_holds digest g dev rid ls"
    and crc: "crc32c digest [lr_key l @ lr_value l] = hdr_payload_crc (lr_header l)"
  obtains desc where "describe_read g hash \<lparr>cand_entry = log_entry rid ls i, cand_region_generation = gen\<rparr> direct = Inr desc"
    "hash = lr_hash l \<and> key = lr_key l \<Longrightarrow>
       \<exists>v. finish_value_read digest (device_completion dev desc) key healthy = Some (Inr (Some v), healthy)
         \<and> region_value_bytes v = Some (lr_value l) \<and> rv_seqno v = hdr_seqno (lr_header l)"
    "\<not> (hash = lr_hash l \<and> key = lr_key l) \<Longrightarrow>
       finish_value_read digest (device_completion dev desc) key healthy = Some (Inr None, healthy)"
proof -
  have l: "log_record_ok gen l" using ok i by (simp add: l_def)
  then have f: "48 + length (lr_key l) + length (lr_value l) \<le> lr_len l" "unat (hdr_record_len (lr_header l)) = lr_len l"
    "unat (hdr_key_len (lr_header l)) = length (lr_key l)" "unat (hdr_value_len (lr_header l)) = length (lr_value l)"
    "hdr_region_generation (lr_header l) = of_nat gen" "has_valid_lengths (lr_header l)"
    by (simp_all add: log_record_ok_def lr_len_def)
  have e: "off + lr_len l \<le> log_len ls" using log_offset_end [OF i] by (simp add: l_def off_def)
  have gb: "dg_region_count g \<le> 2 ^ 20" "dg_region_size g \<le> 2 ^ 25"
    using g(1) by (auto simp: geometry_is_valid_def packed_widths MAX_PACKED_REGION_COUNT_def MAX_PACKED_REGION_SIZE_def packed_limits)
  let ?loc = "exact_location rid off l"
  have x: "location_new (of_nat rid) (of_nat off) (hdr_record_len (lr_header l)) = Inr ?loc"
    "unat (region_id ?loc) = rid" "unat (offset ?loc) = off" "unat (record_len ?loc) = lr_len l"
    "region_id ?loc = of_nat rid" "offset ?loc = of_nat off"
    by (rule exact_location [OF l]; use log_offset_mod [OF ok] e g gb in \<open>simp add: off_def\<close>)+
  have q: "log_entry rid ls i = \<lparr>location = quantize_location ?loc\<rparr>"
    by (simp add: log_entry_def quantize_entry_def l_def off_def)
  have img: "take (lr_len l) (drop (DATA_REGION_AREA_OFFSET + rid * dg_region_size g + off) dev) = log_image digest l"
  proof -
    have "take (lr_len l) (drop off (take (log_len ls) (drop (DATA_REGION_AREA_OFFSET + rid * dg_region_size g) dev))) = log_image digest l"
      using log_bytes_at [OF ok i, of digest] dev(2) by (simp add: region_holds_def l_def off_def)
    moreover have "lr_len l \<le> log_len ls - off" using e by simp
    ultimately show ?thesis by (simp add: drop_take min_absorb1 add.commute)
  qed
  obtain desc rb where d: "describe_read g hash \<lparr>cand_entry = log_entry rid ls i, cand_region_generation = gen\<rparr> direct = Inr desc"
      "desc_hash desc = hash" "desc_entry desc = \<lparr>location = quantize_location ?loc\<rparr>" "desc_region_generation desc = gen"
      "desc_record_start desc + lr_len l \<le> usize_max"
    and rb: "record_bytes (device_completion dev desc) = Some rb" "lr_len l \<le> length rb" and tk: "take (lr_len l) rb = log_image digest l"
    using read_device [OF g(1) _ _ dev(1), of ?loc gen hash direct] gen g(2,3) e img unfolding x(2-4) q by auto
  let ?c = "device_completion dev desc" and ?lease = "take (desc_read_len desc) (drop (desc_absolute desc) dev)"
  have c: "rcp_desc ?c = desc" "rcp_result ?c = Inr ()" "rcp_buffer ?c = Some ?lease" by (simp_all add: device_completion_def)
  show ?thesis
  proof (rule that [OF d(1)])
    assume hk: "hash = lr_hash l \<and> key = lr_key l"
    note fin = finish_value_read_record [of ?c ?lease rb "lr_len l" digest "lr_header l" key "lr_value l" ?loc healthy,
        OF c(2,3) rb(1) _ rb(2)]
    have qf: "region_id (quantize_location ?loc) = of_nat rid" "offset (quantize_location ?loc) = of_nat off"
      "index_equivalent (quantize_location ?loc) ?loc"
      by (simp_all add: quantize_location_fields x index_equivalent_def)
    have "finish_value_read digest ?c key healthy = Some (Inr (Some \<lparr>rv_buffer = ?lease, rv_buffer_len = desc_read_len desc,
        rv_start = desc_record_start desc + 48 + length key, rv_end = desc_record_start desc + 48 + length key + length (lr_value l),
        rv_seqno = hdr_seqno (lr_header l)\<rparr>), healthy)"
      using fin tk [unfolded log_image_def] f hk crc d x(1) qf by (simp add: c lr_hash_def)
    moreover have "take (length (lr_value l)) (drop (48 + length (lr_key l)) rb) = lr_value l"
      using log_image_parts(3) [OF l, of digest] f(1) unfolding tk [symmetric] by (simp add: drop_take min_absorb1)
    moreover note region_value_bytes_record [OF rb(1) c(3), of "length key" "length (lr_value l)" "hdr_seqno (lr_header l)", unfolded c(1)]
    ultimately show "\<exists>v. finish_value_read digest ?c key healthy = Some (Inr (Some v), healthy)
        \<and> region_value_bytes v = Some (lr_value l) \<and> rv_seqno v = hdr_seqno (lr_header l)"
      using f(1) rb(2) hk by auto
  next
    assume "\<not> (hash = lr_hash l \<and> key = lr_key l)"
    then show "finish_value_read digest ?c key healthy = Some (Inr None, healthy)"
      using finish_value_read_miss [OF rb(1) tk rb(2) l] d(2) by (auto simp: c)
  qed
qed

end
