(* ===== verification/Staging_Log.thy ===== *)
theory Staging_Log
  imports Record_Log
begin

text \<open>
  What a staging chunk holds: the images of a run of log records, one after the other, and one staged
  record for each. Encoding appends a record to the run, padding lengthens the last record of it, and
  sealing hands the run over to the write of exactly one span.
\<close>

section \<open>Staged records and log records\<close>

fun staged_as :: "nat \<Rightarrow> nat \<Rightarrow> log_record list \<Rightarrow> staged_record list \<Rightarrow> bool" where
  "staged_as rid off [] [] = True"
| "staged_as rid off (l # ls) (s # ss) \<longleftrightarrow>
     location (stg_entry s) = exact_location rid off l \<and> stg_hash s = lr_hash l \<and> staged_as rid (off + lr_len l) ls ss"
| "staged_as rid off _ _ = False"

lemma staged_as_length: "staged_as rid off ls ss \<Longrightarrow> length ss = length ls"
  by (induction rid off ls ss rule: staged_as.induct) simp_all

lemma staged_as_append:
  "length ss = length ls \<Longrightarrow> staged_as rid off (ls @ ls') (ss @ ss') \<longleftrightarrow> staged_as rid off ls ss \<and> staged_as rid (off + log_len ls) ls' ss'"
  by (induction rid off ls ss rule: staged_as.induct) (auto simp: add.assoc)

lemma staged_as_nth:
  "staged_as rid off ls ss \<Longrightarrow> i < length ls \<Longrightarrow>
     location (stg_entry (ss ! i)) = exact_location rid (off + log_offset ls i) (ls ! i) \<and> stg_hash (ss ! i) = lr_hash (ls ! i)"
  by (induction rid off ls ss arbitrary: i rule: staged_as.induct)
    (auto simp: nth_Cons log_offset_def add.assoc split: nat.splits)

lemma records_in_span_append:
  "records_in_span rid off high (ss @ ss') =
     (case records_in_span rid off high ss of None \<Rightarrow> None | Some (off', high') \<Rightarrow> records_in_span rid off' high' ss')"
  by (induction rid off high ss rule: records_in_span.induct) (auto simp: Let_def split: option.splits)

lemma records_in_span_one:
  assumes "unat (region_id (location (stg_entry s))) = rid" "unat (offset (location (stg_entry s))) = off" "high < stg_seqno s"
    "unat (record_len (location (stg_entry s))) = n" "off + n \<le> u64_max"
  shows "records_in_span rid off high [s] = Some (off + n, stg_seqno s)"
  using assms by (simp add: Let_def checked_add_def)

section \<open>What a chunk holds\<close>

definition chunk_holds ::
    "crc_stream \<Rightarrow> nat \<Rightarrow> nat \<Rightarrow> nat \<Rightarrow> log_record list \<Rightarrow> bytes \<Rightarrow> record_vec \<Rightarrow> nat \<Rightarrow> bool" where
  "chunk_holds digest chunk rid start ls buffer v high \<longleftrightarrow>
     length buffer = chunk \<and> log_len ls \<le> chunk \<and> take (log_len ls) buffer = log_bytes digest ls
     \<and> staged_as rid start ls (vec_items v) \<and> MAX_STAGING_RECORDS \<le> vec_capacity v
     \<and> records_in_span rid start 0 (vec_items v) = Some (start + log_len ls, high)"

definition fill_holds :: "crc_stream \<Rightarrow> nat \<Rightarrow> nat \<Rightarrow> log_record list \<Rightarrow> fill_chunk \<Rightarrow> bool" where
  "fill_holds digest chunk rid ls f \<longleftrightarrow>
     (\<exists>buffer. fc_buffer f = Some buffer
        \<and> chunk_holds digest chunk rid (fc_start_offset f) ls buffer (fc_records f) (fc_max_seqno f))
     \<and> fc_end_offset f = fc_start_offset f + log_len ls \<and> (ls \<noteq> [] \<longrightarrow> fc_region_id f = rid)"

definition shard_open :: "shard_state \<Rightarrow> bool" where
  "shard_open st \<longleftrightarrow> encoding st = None \<and> \<not> failed st \<and> \<not> closed st"

lemma shard_open_ensure: "shard_open st \<Longrightarrow> ensure_open st = Inr ()"
  by (simp add: shard_open_def ensure_open_def)

lemma fill_holds_used:
  assumes "fill_holds digest chunk rid ls f" "chunk \<le> usize_max" shows "fill_used f = Some (log_len ls)"
  using assms by (auto simp: fill_holds_def chunk_holds_def fill_used_def checked_sub_def try_from_def)

lemma fill_holds_length: "fill_holds digest chunk rid ls f \<Longrightarrow> length (vec_items (fc_records f)) = length ls"
  by (auto simp: fill_holds_def chunk_holds_def dest: staged_as_length)

lemma fill_holds_empty: "fill_holds digest chunk rid ls f \<Longrightarrow> fill_is_empty f \<longleftrightarrow> ls = []"
  using fill_holds_length by (fastforce simp: fill_is_empty_def)

section \<open>Encoding\<close>

definition stage_record_of :: "append_reservation \<Rightarrow> u64 \<Rightarrow> record_payload \<Rightarrow> (nat \<times> packed_location) option \<Rightarrow> log_record" where
  "stage_record_of t hash payload reinsert =
     \<lparr>lr_header = record_header_of t hash payload (case reinsert of None \<Rightarrow> ra_seqno t | Some (seqno, _) \<Rightarrow> seqno),
      lr_key = pl_key payload, lr_value = pl_value payload\<rparr>"

definition staged_of :: "append_reservation \<Rightarrow> u64 \<Rightarrow> record_payload \<Rightarrow> (nat \<times> packed_location) option \<Rightarrow> staged_record" where
  "staged_of t hash payload reinsert =
     \<lparr>stg_hash = hash,
      stg_entry = \<lparr>location = exact_location (ra_region_id t) (ra_offset t) (stage_record_of t hash payload reinsert)\<rparr>,
      stg_seqno = ra_seqno t,
      stg_previous = (case reinsert of None \<Rightarrow> UPSERT_PUBLICATION | Some (_, previous) \<Rightarrow> raw previous)\<rparr>"

text \<open>What a reservation for a payload satisfies when it comes from the manager.\<close>

definition reservation_for :: "append_reservation \<Rightarrow> record_payload \<Rightarrow> (nat \<times> packed_location) option \<Rightarrow> bool" where
  "reservation_for t payload reinsert \<longleftrightarrow>
     ra_region_id t < 2 ^ 20 \<and> ra_offset t mod 32 = 0 \<and> ra_offset t + ra_record_bytes t \<le> 2 ^ 25
     \<and> ra_record_bytes t mod 32 = 0 \<and> 48 + length (pl_key payload) + length (pl_value payload) \<le> ra_record_bytes t
     \<and> length (pl_key payload) \<le> MAX_KEY_SIZE
     \<and> 0 < ra_region_created_seqno t \<and> ra_region_created_seqno t \<le> ra_seqno t \<and> ra_seqno t \<le> u64_max
     \<and> (case reinsert of None \<Rightarrow> True | Some (seqno, _) \<Rightarrow> 0 < seqno \<and> seqno \<le> u64_max)"

lemma reservation_record:
  fixes t hash payload reinsert
  assumes "reservation_for t payload reinsert"
  defines "l \<equiv> stage_record_of t hash payload reinsert"
  shows "log_record_ok (ra_region_created_seqno t) l" "lr_len l = ra_record_bytes t" "lr_hash l = hash"
    "hdr_record_len (lr_header l) = of_nat (ra_record_bytes t)"
proof -
  note a = assms(1) [unfolded reservation_for_def]
  define seqno where "seqno = (case reinsert of None \<Rightarrow> ra_seqno t | Some (s, _) \<Rightarrow> s)"
  have seq: "seqno \<noteq> 0" "seqno \<le> u64_max" "ra_region_created_seqno t \<noteq> 0" using a by (auto simp: seqno_def split: option.splits)
  have typed: "reservation_typed t" using a by (auto simp: reservation_typed_def num_bounds)
  have u: "unat (of_nat (ra_region_id t) :: u32) = ra_region_id t" "unat (of_nat (ra_offset t) :: u32) = ra_offset t"
    "unat (of_nat (ra_record_bytes t) :: u32) = ra_record_bytes t"
    using typed by (simp_all add: reservation_typed_def unat_u32_of_nat)
  have "ra_offset t \<le> (2 ^ 20 - 1) * 32"
  proof -
    obtain j where "ra_offset t = 32 * j" using a by auto
    with a show ?thesis by simp
  qed
  then obtain loc where loc: "location_new (of_nat (ra_region_id t)) (of_nat (ra_offset t)) (of_nat (ra_record_bytes t)) = Inr loc"
    using location_new_total [of "of_nat (ra_region_id t)" "of_nat (ra_offset t)" "of_nat (ra_record_bytes t)"] a u
    by (auto simp: packed_limits OFFSET_ALIGNMENT_def RECORD_LEN_ALIGNMENT_def)
  have fits: "length (pl_key payload) \<le> MAX_KEY_SIZE" "48 + length (pl_key payload) + length (pl_value payload) \<le> ra_record_bytes t"
    using a by simp_all
  note v = header_valid [OF typed loc fits seq, of hash]
  have e: "lr_header l = record_header_of t hash payload seqno" "lr_key l = pl_key payload" "lr_value l = pl_value payload"
    by (simp_all add: l_def stage_record_of_def seqno_def)
  show len: "lr_len l = ra_record_bytes t" using v(4) by (simp add: lr_len_def e)
  have "64 \<le> ra_record_bytes t"
  proof -
    obtain j where "ra_record_bytes t = 32 * j" using a by auto
    with a show ?thesis by simp
  qed
  then show "log_record_ok (ra_region_created_seqno t) l"
    using v fits a unfolding log_record_ok_def len by (simp add: e record_header_of_def)
  show "lr_hash l = hash" "hdr_record_len (lr_header l) = of_nat (ra_record_bytes t)"
    by (simp_all add: lr_hash_def e record_header_of_def)
qed

lemma reservation_location:
  fixes t hash payload reinsert
  assumes "reservation_for t payload reinsert"
  defines "l \<equiv> stage_record_of t hash payload reinsert"
  defines "loc \<equiv> exact_location (ra_region_id t) (ra_offset t) l"
  shows "location_new (of_nat (ra_region_id t)) (of_nat (ra_offset t)) (of_nat (ra_record_bytes t)) = Inr loc"
    "unat (region_id loc) = ra_region_id t" "unat (offset loc) = ra_offset t" "unat (record_len loc) = ra_record_bytes t"
proof -
  note r = reservation_record [OF assms(1), where hash = hash, folded l_def]
  have b: "ra_region_id t < 2 ^ 20" "ra_offset t mod 32 = 0" "ra_offset t + lr_len l \<le> 2 ^ 25"
    using assms(1) by (simp_all add: reservation_for_def r(2))
  note x = exact_location [OF r(1) b, folded loc_def]
  show "location_new (of_nat (ra_region_id t)) (of_nat (ra_offset t)) (of_nat (ra_record_bytes t)) = Inr loc"
    "unat (region_id loc) = ra_region_id t" "unat (offset loc) = ra_offset t" "unat (record_len loc) = ra_record_bytes t"
    using x r by simp_all
qed

lemma stage_encoder_writes:
  assumes r: "reservation_for t payload reinsert" and n: "n \<le> ra_record_bytes t" and dest: "length destination = ra_record_bytes t"
  shows "stage_encoder digest t hash n payload reinsert destination
    = Some (Inr (staged_of t hash payload reinsert), log_image digest (stage_record_of t hash payload reinsert))"
proof -
  note a = r [unfolded reservation_for_def]
  define seqno where "seqno = (case reinsert of None \<Rightarrow> ra_seqno t | Some (s, _) \<Rightarrow> s)"
  let ?l = "stage_record_of t hash payload reinsert"
  note loc = reservation_location [OF r, where hash = hash]
  have big: "2 ^ 25 \<le> u32_max" "2 ^ 25 \<le> usize_max" "MAX_KEY_SIZE \<le> u16_max" by (simp_all add: num_bounds MAX_KEY_SIZE_def u16_max_def)
  have enc: "encode_value_into_hashed_with_seqno digest destination t hash n payload seqno
    = Some (Inr \<lparr>location = exact_location (ra_region_id t) (ra_offset t) ?l\<rparr>, log_image digest ?l)"
    using encode_ok [of destination t n payload _ digest hash seqno, OF _ _ _ _ _ _ _ _ _ loc(1)] a n dest big
    by (simp add: log_image_def reservation_record(2) [OF r] RECORD_ALIGNMENT_def) (simp add: stage_record_of_def seqno_def)
  show ?thesis
  proof (cases reinsert)
    case None
    then show ?thesis using enc
      by (simp add: stage_encoder_def encode_value_into_hashed_def staged_new_def staged_of_def seqno_def)
  next
    case (Some p)
    obtain s prev where p: "p = (s, prev)" by force
    then show ?thesis using enc a Some
      by (simp add: stage_encoder_def encode_reinsert_into_hashed_def staged_reinsert_def staged_of_def seqno_def)
  qed
qed

text \<open>Appending the image of one more record to a chunk.\<close>

lemma chunk_append:
  assumes c: "chunk_holds digest chunk rid start ls buffer v high" and gen: "\<forall>l \<in> set ls. log_record_ok gen l"
    and l: "log_record_ok gen l" "log_len ls + lr_len l \<le> chunk"
    and s: "location (stg_entry s) = exact_location rid (start + log_len ls) l" "stg_hash s = lr_hash l" "high < stg_seqno s"
    and b: "rid < 2 ^ 20" "start mod 32 = 0" "start + log_len ls + lr_len l \<le> 2 ^ 25"
  shows "chunk_holds digest chunk rid start (ls @ [l]) (overwrite buffer (log_len ls) (log_image digest l)) (vec_push s v) (stg_seqno s)"
proof -
  note c' = c [unfolded chunk_holds_def]
  have len: "length (log_image digest l) = lr_len l" "length (log_bytes digest ls) = log_len ls"
    by (rule length_log_image [OF l(1)], rule length_log_bytes [OF gen])
  have "take (log_len ls + lr_len l) (overwrite buffer (log_len ls) (log_image digest l)) = log_bytes digest ls @ log_image digest l"
    using c' l(2) len by (simp add: overwrite_def)
  moreover have "staged_as rid start (ls @ [l]) (vec_items v @ [s])"
    using c' s staged_as_append [OF staged_as_length, of rid start ls "vec_items v" rid start "[l]" "[s]"] by simp
  moreover have "(start + log_len ls) mod 32 = 0" using b(2) log_len_mod [OF gen] by (simp add: mod_add_eq [symmetric])
  then have "records_in_span rid (start + log_len ls) high [s] = Some (start + log_len ls + lr_len l, stg_seqno s)"
    using exact_location [OF l(1) b(1), of "start + log_len ls"] b(3) s(3) unfolding s(1) [symmetric]
    by (intro records_in_span_one) (simp_all add: num_bounds)
  then have "records_in_span rid start 0 (vec_items v @ [s]) = Some (start + (log_len ls + lr_len l), stg_seqno s)"
    using c' by (simp add: records_in_span_append add.assoc)
  ultimately show ?thesis using c' l(2) len by (simp add: chunk_holds_def vec_push_def max_def)
qed

definition fill_append :: "crc_stream \<Rightarrow> append_reservation \<Rightarrow> log_record \<Rightarrow> staged_record \<Rightarrow> nat \<Rightarrow> fill_chunk \<Rightarrow> fill_chunk" where
  "fill_append digest t l s used f =
     (if fill_is_empty f then f\<lparr>fc_region_id := ra_region_id t, fc_start_offset := ra_offset t\<rparr> else f)
       \<lparr>fc_end_offset := ra_offset t + ra_record_bytes t, fc_max_seqno := max (fc_max_seqno f) (ra_seqno t),
        fc_records := vec_push s (fc_records f), fc_buffer := Some (overwrite (the (fc_buffer f)) used (log_image digest l))\<rparr>"

lemma encode_reserved_appends:
  fixes t hash payload reinsert
  assumes k: "k < length (as_shards a)" "ra_shard_id t = k" and st: "shard_open (as_shards a ! k)"
    and f: "fill_holds digest (as_chunk_bytes a) (ra_region_id t) ls (fill (as_shards a ! k))"
    and gen: "\<forall>l \<in> set ls. log_record_ok (ra_region_created_seqno t) l"
    and r: "reservation_for t payload reinsert" and n: "n \<le> ra_record_bytes t"
    and room: "log_len ls + ra_record_bytes t \<le> as_chunk_bytes a" "length ls \<noteq> MAX_STAGING_RECORDS"
    and region: "ra_offset t + ra_record_bytes t \<le> as_region_size a" "as_chunk_bytes a \<le> 2 ^ 25"
    and next_to: "ls \<noteq> [] \<longrightarrow> ra_offset t = fc_end_offset (fill (as_shards a ! k))"
      "fc_max_seqno (fill (as_shards a ! k)) < ra_seqno t"
    and start: "ls \<noteq> [] \<longrightarrow> fc_start_offset (fill (as_shards a ! k)) mod 32 = 0"
  defines "l \<equiv> stage_record_of t hash payload reinsert" and "s \<equiv> staged_of t hash payload reinsert"
  defines "f' \<equiv> fill_append digest t l s (log_len ls) (fill (as_shards a ! k))"
  shows "encode_reserved t (stage_encoder digest t hash n payload reinsert) a
      = Some (Inr (Appended (log_len ls) (log_len ls + ra_record_bytes t)), update_staging k (\<lambda>st. st\<lparr>fill := f'\<rparr>) a)"
    and "fill_holds digest (as_chunk_bytes a) (ra_region_id t) (ls @ [l]) f'"
    and "vec_items (fc_records f') = vec_items (fc_records (fill (as_shards a ! k))) @ [s]" "fc_max_seqno f' = ra_seqno t"
      "fc_start_offset f' = (if ls = [] then ra_offset t else fc_start_offset (fill (as_shards a ! k)))"
      "fc_end_offset f' = ra_offset t + ra_record_bytes t"
proof -
  let ?st = "as_shards a ! k" let ?f = "fill ?st"
  obtain buffer where b: "fc_buffer ?f = Some buffer"
    "chunk_holds digest (as_chunk_bytes a) (ra_region_id t) (fc_start_offset ?f) ls buffer (fc_records ?f) (fc_max_seqno ?f)"
    using f by (auto simp: fill_holds_def)
  note rr = reservation_record [OF r, where hash = hash, folded l_def] and rl = reservation_location [OF r, where hash = hash, folded l_def]
  note a = r [unfolded reservation_for_def]
  have big: "2 ^ 25 \<le> usize_max" "2 ^ 25 \<le> u64_max" by (simp_all add: num_bounds)
  have len: "length buffer = as_chunk_bytes a" using b(2) by (simp add: chunk_holds_def)
  have used: "fill_used ?f = Some (log_len ls)" using region(2) big by (intro fill_holds_used [OF f]) simp
  have empty: "fill_is_empty ?f \<longleftrightarrow> ls = []" by (rule fill_holds_empty [OF f])
  have arith: "checked_add usize_max (log_len ls) (ra_record_bytes t) = Some (log_len ls + ra_record_bytes t)"
    "reservation_end t = Some (ra_offset t + ra_record_bytes t)"
    using room region a big by (simp_all add: checked_add_def reservation_end_def)
  have vr: "validate_reservation a t = Inr ()"
    using a region(1) arith(2) unfolding validate_reservation_def by (auto simp: RECORD_ALIGNMENT_def)
  have rid: "ls \<noteq> [] \<longrightarrow> fc_region_id ?f = ra_region_id t" using f by (simp add: fill_holds_def)
  have beg: "begin_encoding a t ?st = (Inr (Some (log_len ls, log_len ls + ra_record_bytes t, buffer)),
      ?st\<lparr>fill := ?f\<lparr>fc_buffer := None\<rparr>, encoding := Some t\<rparr>)"
    using st rid next_to room fill_holds_length [OF f] empty
    by (simp add: begin_encoding_def shard_open_ensure [OF st] used b(1) arith(1) shard_open_def) auto
  have enc: "slice_at buffer (log_len ls) (log_len ls + ra_record_bytes t) \<bind> stage_encoder digest t hash n payload reinsert
      = Some (Inr s, log_image digest l)"
    using stage_encoder_writes [OF r n, of "take (ra_record_bytes t) (drop (log_len ls) buffer)" digest hash] room(1) len
    by (simp add: slice_at_def l_def s_def)
  have prep: "prepared buffer (log_len ls + ra_record_bytes t) = Some (take (log_len ls + ra_record_bytes t) buffer)"
    using room(1) len by (simp add: prepared_def)
  have sl: "slice_at (take (log_len ls + ra_record_bytes t) buffer) (log_len ls) (log_len ls + ra_record_bytes t)
      = slice_at buffer (log_len ls) (log_len ls + ra_record_bytes t)" using room(1) len by (simp add: slice_at_def drop_take)
  have vrec: "validate_record a t s = Inr ()"
    using rl by (simp add: validate_record_def vr s_def staged_of_def l_def [symmetric] Let_def)
  have ov: "the (fc_buffer ?f) = buffer" using b(1) by simp
  have fin: "finish_encoding t (log_len ls) (log_len ls + ra_record_bytes t) (overwrite buffer (log_len ls) (log_image digest l)) s
      (?st\<lparr>fill := ?f\<lparr>fc_buffer := None\<rparr>, encoding := Some t\<rparr>)
    = (Inr (Appended (log_len ls) (log_len ls + ra_record_bytes t)), ?st\<lparr>fill := f'\<rparr>)"
    using st by (simp add: finish_encoding_def ensure_open_def arith(2) f'_def fill_append_def fill_is_empty_def ov shard_open_def Let_def)
  show "encode_reserved t (stage_encoder digest t hash n payload reinsert) a
      = Some (Inr (Appended (log_len ls) (log_len ls + ra_record_bytes t)), update_staging k (\<lambda>st. st\<lparr>fill := f'\<rparr>) a)"
    using k by (simp add: encode_reserved_def vr get_at_def beg prep sl enc vrec fin update_staging_def)
  have start': "(if ls = [] then ra_offset t else fc_start_offset ?f) + log_len ls = ra_offset t"
    using f next_to(1) by (auto simp: fill_holds_def)
  have c0: "chunk_holds digest (as_chunk_bytes a) (ra_region_id t) (if ls = [] then ra_offset t else fc_start_offset ?f) ls buffer
      (fc_records ?f) (fc_max_seqno ?f)"
    using b(2) by (cases "ls = []") (auto simp: chunk_holds_def fill_holds_def dest!: staged_as_length)
  have "chunk_holds digest (as_chunk_bytes a) (ra_region_id t) (if ls = [] then ra_offset t else fc_start_offset ?f) (ls @ [l])
      (overwrite buffer (log_len ls) (log_image digest l)) (vec_push s (fc_records ?f)) (stg_seqno s)"
    by (rule chunk_append [OF c0 gen rr(1)])
      (use start' start a next_to rr room in \<open>auto simp: s_def staged_of_def l_def [symmetric] rr(2)\<close>)
  then show "fill_holds digest (as_chunk_bytes a) (ra_region_id t) (ls @ [l]) f'"
    using start' next_to(2) rr(2)
    by (auto simp: fill_holds_def f'_def fill_append_def empty ov s_def staged_of_def max_def rid)
  show "vec_items (fc_records f') = vec_items (fc_records (fill (as_shards a ! k))) @ [s]" "fc_max_seqno f' = ra_seqno t"
    "fc_start_offset f' = (if ls = [] then ra_offset t else fc_start_offset (fill (as_shards a ! k)))"
    "fc_end_offset f' = ra_offset t + ra_record_bytes t"
    using next_to(2) by (simp_all add: f'_def fill_append_def vec_push_def empty)
qed

section \<open>Padding\<close>

lemma mod_4096_32: "x mod 4096 = 0 \<Longrightarrow> x mod 32 = (0 :: nat)"
  using mod_mod_cancel [of 32 4096 x] by simp

lemma padded_fits:
  fixes u n c :: nat
  assumes "u \<le> c" "(u + n) mod 4096 = 0" "c mod 4096 = 0" "n < 4096" shows "u + n \<le> c"
proof -
  obtain i j where "u + n = 4096 * i" "c = 4096 * j" using assms(2,3) by (meson dvdE dvd_eq_mod_eq_0)
  with assms(1,4) show ?thesis by (cases "i \<le> j") linarith+
qed

definition pad_record :: "nat \<Rightarrow> log_record \<Rightarrow> log_record" where
  "pad_record n l = l\<lparr>lr_header := (lr_header l)\<lparr>hdr_record_len := of_nat (lr_len l + n)\<rparr>\<rparr>"

lemma pad_record_ok:
  assumes "log_record_ok gen l" "n mod 32 = 0" "lr_len l + n \<le> 2 ^ 25"
  shows "log_record_ok gen (pad_record n l)" "lr_len (pad_record n l) = lr_len l + n" "lr_hash (pad_record n l) = lr_hash l"
    "lr_key (pad_record n l) = lr_key l" "lr_value (pad_record n l) = lr_value l"
    "hdr_payload_crc (lr_header (pad_record n l)) = hdr_payload_crc (lr_header l)"
proof -
  note a = assms(1) [unfolded log_record_ok_def]
  have u: "unat (of_nat (lr_len l + n) :: u32) = lr_len l + n" using assms(3) by (intro unat_u32_of_nat) (simp add: num_bounds)
  show len: "lr_len (pad_record n l) = lr_len l + n" using u by (simp add: pad_record_def lr_len_def)
  have m: "(lr_len l + n) mod 32 = 0" using a assms(2) by (simp add: mod_add_eq [symmetric])
  have "of_nat (lr_len l + n) \<noteq> (0 :: u32)" using u a by (metis add_is_0 not_numeral_le_zero unat_0)
  moreover have "has_valid_lengths (lr_header l)" using a by simp
  ultimately have "has_valid_lengths (lr_header (pad_record n l))"
    using m u by (auto simp: has_valid_lengths_def pad_record_def Let_def RECORD_ALIGNMENT_def lr_len_def split: option.splits if_splits)
  then show "log_record_ok gen (pad_record n l)"
    using a m unfolding log_record_ok_def len by (simp add: pad_record_def)
  show "lr_hash (pad_record n l) = lr_hash l" "lr_key (pad_record n l) = lr_key l" "lr_value (pad_record n l) = lr_value l"
    "hdr_payload_crc (lr_header (pad_record n l)) = hdr_payload_crc (lr_header l)"
    by (simp_all add: pad_record_def lr_hash_def)
qed

lemma pad_image:
  assumes ok: "log_record_ok gen l" "n mod 32 = 0" "lr_len l + n \<le> 2 ^ 25"
    and h: "encode_header digest (lr_header (pad_record n l)) = Some h"
  shows "h @ drop 48 (log_image digest l) @ replicate n 0 = log_image digest (pad_record n l)" "length h = 48"
proof -
  obtain h0 where h0: "encode_header digest (lr_header l) = Some h0" "length h0 = 48" using header_bytes by blast
  note p = pad_record_ok [OF ok]
  have "48 + length (lr_key l) + length (lr_value l) \<le> lr_len l" using ok(1) by (simp add: log_record_ok_def)
  then show "h @ drop 48 (log_image digest l) @ replicate n 0 = log_image digest (pad_record n l)"
    by (simp add: log_image_def record_image_def h h0 p replicate_add [symmetric])
  show "length h = 48" using h header_bytes [of digest "lr_header (pad_record n l)"] by auto
qed

text \<open>Zeroing the tail and rewriting the header turn the image of the last record into the padded image.\<close>

lemma pad_buffer:
  assumes c: "take (log_len ls + lr_len l) buffer = log_bytes digest (ls @ [l])" "log_len ls + lr_len l + n \<le> length buffer"
    and gen: "\<forall>l \<in> set ls. log_record_ok gen l" and ok: "log_record_ok gen l" "n mod 32 = 0" "lr_len l + n \<le> 2 ^ 25"
    and h: "encode_header digest (lr_header (pad_record n l)) = Some h"
  defines "zeroed \<equiv> overwrite buffer (log_len ls + lr_len l) (replicate n 0)"
  shows "slice_at (take (log_len ls + lr_len l + n) zeroed) (log_len ls) (log_len ls + 48) = Some (take 48 (log_image digest l))"
    "take (log_len ls + lr_len l + n) (overwrite zeroed (log_len ls) h) = log_bytes digest (ls @ [pad_record n l])"
    "length (overwrite zeroed (log_len ls) h) = length buffer"
proof -
  have len: "length (log_bytes digest ls) = log_len ls" "length (log_image digest l) = lr_len l" "64 \<le> lr_len l"
    using length_log_bytes [OF gen] length_log_image [OF ok(1)] ok(1) by (simp_all add: log_record_ok_def)
  define rest where "rest = drop (log_len ls + lr_len l + n) buffer"
  have z: "zeroed = log_bytes digest ls @ log_image digest l @ replicate n 0 @ rest"
    using c by (simp add: zeroed_def overwrite_def rest_def)
  note pi = pad_image [OF ok h]
  have "overwrite zeroed (log_len ls) h = log_bytes digest ls @ (h @ drop 48 (log_image digest l) @ replicate n 0) @ rest"
    using len pi(2) by (simp add: z overwrite_def)
  then have o: "overwrite zeroed (log_len ls) h = log_bytes digest ls @ log_image digest (pad_record n l) @ rest"
    unfolding pi(1) .
  note p = pad_record_ok [OF ok]
  have il: "length (log_image digest (pad_record n l)) = lr_len l + n" using length_log_image [OF p(1)] p(2) by simp
  show "slice_at (take (log_len ls + lr_len l + n) zeroed) (log_len ls) (log_len ls + 48) = Some (take 48 (log_image digest l))"
    using len by (simp add: z slice_at_def)
  show "take (log_len ls + lr_len l + n) (overwrite zeroed (log_len ls) h) = log_bytes digest (ls @ [pad_record n l])"
    unfolding o using len il by simp
  show "length (overwrite zeroed (log_len ls) h) = length buffer" unfolding o using len il c(2) by (simp add: rest_def)
qed

definition pad_staged :: "nat \<Rightarrow> nat \<Rightarrow> log_record \<Rightarrow> staged_record list \<Rightarrow> staged_record list" where
  "pad_staged rid off l ss = butlast ss @ [staged_set_location (exact_location rid off l) (last ss)]"

lemma chunk_pad:
  assumes c: "chunk_holds digest chunk rid start (ls @ [l]) buffer v high" and gen: "\<forall>l \<in> set ls. log_record_ok gen l"
    and ok: "log_record_ok gen l" "n mod 32 = 0" "log_len ls + lr_len l + n \<le> chunk"
    and h: "encode_header digest (lr_header (pad_record n l)) = Some h"
    and b: "rid < 2 ^ 20" "start mod 32 = 0" "start + log_len ls + lr_len l + n \<le> 2 ^ 25"
  shows "chunk_holds digest chunk rid start (ls @ [pad_record n l])
      (overwrite (overwrite buffer (log_len ls + lr_len l) (replicate n 0)) (log_len ls) h)
      (v\<lparr>vec_items := pad_staged rid (start + log_len ls) (pad_record n l) (vec_items v)\<rparr>) high"
    and "vec_items v \<noteq> []" "location (stg_entry (last (vec_items v))) = exact_location rid (start + log_len ls) l"
      "stg_seqno (last (vec_items v)) = high"
proof -
  note c' = c [unfolded chunk_holds_def]
  obtain ss s where ss: "vec_items v = ss @ [s]" "length ss = length ls"
    using c' staged_as_length [of rid start "ls @ [l]" "vec_items v"] by (metis length_append_singleton length_Suc_conv_rev)
  have st: "staged_as rid start ls ss" "location (stg_entry s) = exact_location rid (start + log_len ls) l" "stg_hash s = lr_hash l"
    using c' staged_as_append [OF ss(2), of rid start "[l]" "[s]"] by (simp_all add: ss(1))
  have small: "lr_len l + n \<le> 2 ^ 25" using b(3) by simp
  note p = pad_record_ok [OF ok(1,2) small]
  have m: "(start + log_len ls) mod 32 = 0" using b(2) log_len_mod [OF gen] by (simp add: mod_add_eq [symmetric])
  have in1: "unat (region_id (exact_location rid (start + log_len ls) l)) = rid"
    "unat (offset (exact_location rid (start + log_len ls) l)) = start + log_len ls"
    "unat (record_len (exact_location rid (start + log_len ls) l)) = lr_len l"
    by (rule exact_location [OF ok(1) b(1) m]; use b(3) in simp)+
  have in2: "unat (region_id (exact_location rid (start + log_len ls) (pad_record n l))) = rid"
    "unat (offset (exact_location rid (start + log_len ls) (pad_record n l))) = start + log_len ls"
    "unat (record_len (exact_location rid (start + log_len ls) (pad_record n l))) = lr_len l + n"
    using exact_location(2-4) [OF p(1) b(1) m] b(3) unfolding p(2) by simp_all
  obtain off' high' where pre: "records_in_span rid start 0 ss = Some (off', high')"
    "records_in_span rid off' high' [s] = Some (start + (log_len ls + lr_len l), high)"
    using c' by (auto simp: ss(1) records_in_span_append split: option.splits)
  then have o: "off' = start + log_len ls" "high' < stg_seqno s" "stg_seqno s = high"
    using in1 by (auto simp: Let_def st(2) split: if_splits option.splits)
  let ?s = "staged_set_location (exact_location rid (start + log_len ls) (pad_record n l)) s"
  have "records_in_span rid off' high' [?s] = Some (start + log_len ls + (lr_len l + n), stg_seqno ?s)"
    by (simp only: o(1), rule records_in_span_one) (use in2 o b(3) in \<open>simp_all add: staged_set_location_def num_bounds\<close>)
  then have "records_in_span rid start 0 (ss @ [?s]) = Some (start + log_len ls + (lr_len l + n), high)"
    using pre(1) o(3) by (simp add: records_in_span_append staged_set_location_def)
  moreover have "staged_as rid start (ls @ [pad_record n l]) (ss @ [?s])"
    using st by (simp add: staged_as_append ss(2) staged_set_location_def p)
  moreover note pad_buffer [of ls l buffer digest n gen h, OF _ _ gen ok(1,2) small h]
  ultimately show "chunk_holds digest chunk rid start (ls @ [pad_record n l])
      (overwrite (overwrite buffer (log_len ls + lr_len l) (replicate n 0)) (log_len ls) h)
      (v\<lparr>vec_items := pad_staged rid (start + log_len ls) (pad_record n l) (vec_items v)\<rparr>) high"
    using c' ok(3) by (simp add: chunk_holds_def pad_staged_def ss(1) p(2) add.assoc)
  show "vec_items v \<noteq> []" "location (stg_entry (last (vec_items v))) = exact_location rid (start + log_len ls) l"
    "stg_seqno (last (vec_items v)) = high"
    using st(2) o(3) by (simp_all add: ss(1))
qed

lemma apply_write_padding_pads:
  fixes p a
  defines "k \<equiv> rp_shard_id p" and "n \<equiv> rp_padded_end_offset p - rp_unpadded_end_offset p"
  defines "f \<equiv> fill (as_shards a ! k)"
  assumes k: "k < length (as_shards a)" and st: "shard_open (as_shards a ! k)" "submitted (as_shards a ! k) = None"
    and f: "fill_holds digest (as_chunk_bytes a) (rp_region_id p) (ls @ [l]) f"
    and gen: "\<forall>l \<in> set ls. log_record_ok gen l" "log_record_ok gen l"
    and p: "rp_span_start_offset p = fc_start_offset f" "rp_unpadded_end_offset p = fc_end_offset f"
      "rp_record_count p = length (ls @ [l])" "rp_max_seqno p = fc_max_seqno f"
      "rp_padded_end_offset p mod 4096 = 0" "rp_unpadded_end_offset p < rp_padded_end_offset p" "n < 4096"
    and b: "rp_region_id p < 2 ^ 20" "fc_start_offset f mod 4096 = 0" "rp_padded_end_offset p \<le> as_region_size a"
      "as_region_size a \<le> 2 ^ 25" "as_chunk_bytes a mod 4096 = 0" "as_chunk_bytes a \<le> 2 ^ 25"
  obtains f' where "apply_write_padding digest p a = Some (Inr (), update_staging k (\<lambda>st. st\<lparr>fill := f'\<rparr>) a)"
    "fill_holds digest (as_chunk_bytes a) (rp_region_id p) (ls @ [pad_record n l]) f'"
    "vec_items (fc_records f') = pad_staged (rp_region_id p) (fc_start_offset f + log_len ls) (pad_record n l) (vec_items (fc_records f))"
    "fc_start_offset f' = fc_start_offset f" "fc_end_offset f' = rp_padded_end_offset p" "fc_max_seqno f' = fc_max_seqno f"
    "n mod 32 = 0" "lr_len l + n \<le> 2 ^ 25"
proof -
  obtain buffer where bf: "fc_buffer f = Some buffer"
    "chunk_holds digest (as_chunk_bytes a) (rp_region_id p) (fc_start_offset f) (ls @ [l]) buffer (fc_records f) (fc_max_seqno f)"
    using f by (auto simp: fill_holds_def)
  have fe: "fc_end_offset f = fc_start_offset f + (log_len ls + lr_len l)" "fc_region_id f = rp_region_id p"
    using f by (simp_all add: fill_holds_def)
  have pe: "rp_padded_end_offset p = fc_start_offset f + (log_len ls + lr_len l) + n" using p(2,6) fe(1) by (simp add: n_def)
  have m32: "(log_len ls + lr_len l) mod 32 = 0"
    using log_len_mod [OF gen(1)] gen(2) by (simp add: log_record_ok_def mod_add_eq [symmetric])
  have used: "log_len ls + lr_len l \<le> as_chunk_bytes a" using bf(2) by (simp add: chunk_holds_def)
  have s32: "fc_start_offset f mod 32 = 0" using b(2) by (rule mod_4096_32)
  have m4096: "(log_len ls + lr_len l + n) mod 4096 = 0" using p(5) b(2) mod_add_left_eq [of "fc_start_offset f" 4096 "log_len ls + lr_len l + n"]
    unfolding pe by (simp add: add.assoc)
  have n32: "n mod 32 = 0" using mod_4096_32 [OF m4096] m32 mod_add_left_eq [of "log_len ls + lr_len l" 32 n] by simp
  have fits: "log_len ls + lr_len l + n \<le> as_chunk_bytes a" by (rule padded_fits [OF used m4096 b(5) p(7)])
  have npos: "0 < n" using p(6) by (simp add: n_def)
  have small: "fc_start_offset f + log_len ls + lr_len l + n \<le> 2 ^ 25" "lr_len l + n \<le> 2 ^ 25" using b(3,4) pe by simp_all
  obtain h where h: "encode_header digest (lr_header (pad_record n l)) = Some h" "length h = 48" using header_bytes by blast
  note cp = chunk_pad [OF bf(2) gen n32 fits h(1) b(1) s32 small(1)]
  let ?v = "fc_records f" let ?z = "overwrite buffer (log_len ls + lr_len l) (replicate n 0)"
  let ?items = "pad_staged (rp_region_id p) (fc_start_offset f + log_len ls) (pad_record n l) (vec_items ?v)"
  define f' where "f' = f\<lparr>fc_buffer := Some (overwrite ?z (log_len ls) h), fc_records := ?v\<lparr>vec_items := ?items\<rparr>,
      fc_end_offset := rp_padded_end_offset p\<rparr>"
  have blen: "length buffer = as_chunk_bytes a" using bf(2) by (simp add: chunk_holds_def)
  have big: "2 ^ 25 \<le> usize_max" "2 ^ 25 \<le> u64_max" "2 ^ 25 \<le> u32_max" "MAX_RECORD_LEN = 2 ^ 25" by (simp_all add: num_bounds packed_limits)
  have l64: "64 \<le> lr_len l" using gen(2) by (simp add: log_record_ok_def)
  have lst: "location (stg_entry (last (vec_items ?v))) = exact_location (rp_region_id p) (fc_start_offset f + log_len ls) l"
    "stg_seqno (last (vec_items ?v)) = fc_max_seqno f" "vec_items ?v \<noteq> []" using cp by simp_all
  have m0: "(fc_start_offset f + log_len ls) mod 32 = 0" using s32 log_len_mod [OF gen(1)] by (simp add: mod_add_eq [symmetric])
  have x1: "unat (region_id (location (stg_entry (last (vec_items ?v))))) = rp_region_id p"
    "unat (offset (location (stg_entry (last (vec_items ?v))))) = fc_start_offset f + log_len ls"
    "unat (record_len (location (stg_entry (last (vec_items ?v))))) = lr_len l"
    "offset (location (stg_entry (last (vec_items ?v)))) = of_nat (fc_start_offset f + log_len ls)"
    unfolding lst(1) by (rule exact_location [OF gen(2) b(1) m0]; use small in simp)+
  have x2: "location_new (of_nat (rp_region_id p)) (of_nat (fc_start_offset f + log_len ls)) (of_nat (lr_len l + n))
      = Inr (exact_location (rp_region_id p) (fc_start_offset f + log_len ls) (pad_record n l))"
    using exact_location(1) [OF pad_record_ok(1) [OF gen(2) n32 small(2)] b(1) m0] small pad_record_ok(2) [OF gen(2) n32 small(2)]
    by (simp add: pad_record_def)
  note pb = pad_buffer [of ls l buffer digest n gen h, OF _ _ gen n32 small(2) h(1)]
  have pb1: "slice_at (take (log_len ls + lr_len l + n) ?z) (log_len ls) (log_len ls + 48) = Some (take 48 (log_image digest l))"
    using pb(1) bf(2) fits blen by (simp add: chunk_holds_def)
  have arith: "checked_add u32_max (lr_len l) n = Some (lr_len l + n)"
    "checked_add u64_max (fc_start_offset f + log_len ls) (lr_len l) = Some (fc_start_offset f + log_len ls + lr_len l)"
    "checked_sub (log_len ls + lr_len l) (lr_len l) = Some (log_len ls)"
    "checked_add usize_max (log_len ls) 48 = Some (log_len ls + 48)"
    "padding_bytes p = Some n" "checked_add usize_max (log_len ls + lr_len l) n = Some (log_len ls + lr_len l + n)"
    "checked_sub (rp_padded_end_offset p) (rp_span_start_offset p) = Some (log_len ls + lr_len l + n)"
    "try_from usize_max (log_len ls + lr_len l + n) = Some (log_len ls + lr_len l + n)"
    using small big(1-3) p(6,7) fits b(6) l64 unfolding padding_bytes_def
    by (simp_all add: checked_add_def checked_sub_def try_from_def p(1,2) fe pe)
  have u: "fill_used f = Some (log_len ls + lr_len l)" using fill_holds_used [OF f] b(6) big by simp
  have w1: "write_range buffer (log_len ls + lr_len l) (replicate n 0) = Some ?z" using fits blen by (simp add: write_range_def)
  have "length ?z = as_chunk_bytes a" using fits blen by simp
  then have w2: "write_range ?z (log_len ls) h = Some (overwrite ?z (log_len ls) h)"
    using h(2) gen(2) used by (simp add: write_range_def log_record_ok_def)
  have dec: "decode_header digest (take 48 (log_image digest l)) = Some (lr_header l)" by (rule log_image_parts(1) [OF gen(2)])
  have h1: "encode_header digest (lr_header l\<lparr>hdr_record_len := of_nat (lr_len l + n)\<rparr>) = Some h"
    using h(1) by (simp add: pad_record_def)
  have x3: "unat (of_nat (fc_start_offset f + log_len ls) :: u32) = fc_start_offset f + log_len ls"
    using small by (intro unat_u32_of_nat) (simp add: num_bounds)
  have last_ok: "pad_last_record digest a p n (log_len ls + lr_len l) (log_len ls + lr_len l + n) (last (vec_items ?v)) f = Some (Inr (), f')"
    using p(2,4) fe lst(2) small big fits blen h1 x2 pb1 dec arith(1-4) bf(1)
    by (simp add: pad_last_record_def w1 w2 x1 x3 prepared_def RECORD_HEADER_SIZE_def f'_def pad_staged_def Let_def
        del: checked_add_eq_Some checked_sub_eq_Some of_nat_add)
  have e32: "(fc_start_offset f + (log_len ls + lr_len l)) mod 32 = 0" using s32 m32 by (simp flip: dvd_eq_mod_eq_0)
  have guard: "\<not> (rp_span_start_offset p \<ge> rp_unpadded_end_offset p \<or> rp_span_start_offset p mod DIRECT_IO_ALIGNMENT \<noteq> 0
      \<or> rp_unpadded_end_offset p mod RECORD_ALIGNMENT \<noteq> 0 \<or> rp_padded_end_offset p mod DIRECT_IO_ALIGNMENT \<noteq> 0
      \<or> rp_padded_end_offset p > as_region_size a \<or> fill_is_empty f \<or> fc_region_id f \<noteq> rp_region_id p
      \<or> fc_start_offset f \<noteq> rp_span_start_offset p \<or> fc_end_offset f \<noteq> rp_unpadded_end_offset p
      \<or> length (vec_items (fc_records f)) \<noteq> rp_record_count p \<or> fc_max_seqno f \<noteq> rp_max_seqno p)"
    unfolding DIRECT_IO_ALIGNMENT_def RECORD_ALIGNMENT_def fill_holds_empty [OF f] fill_holds_length [OF f] p(1-4)
    using p(5) b(2,3) e32 l64 fe by simp
  have n_ok: "n \<noteq> 0 \<and> n < DIRECT_IO_ALIGNMENT \<and> n mod RECORD_ALIGNMENT = 0"
    using npos n32 p(7) by (simp add: DIRECT_IO_ALIGNMENT_def RECORD_ALIGNMENT_def)
  have "pad_fill digest a p f = Some (Inr (), f')"
    unfolding pad_fill_def arith(5,7) u if_not_P [OF guard]
    using n_ok last_ok arith(6,8) fits lst(3) by (simp del: checked_add_eq_Some try_from_eq_Some)
  then have "apply_write_padding digest p a = Some (Inr (), update_staging k (\<lambda>st. st\<lparr>fill := f'\<rparr>) a)"
    using k st by (simp add: apply_write_padding_def get_at_def k_def [symmetric] shard_open_ensure f_def [symmetric] update_staging_def shard_open_def)
  moreover have "fill_holds digest (as_chunk_bytes a) (rp_region_id p) (ls @ [pad_record n l]) f'"
    using cp(1) fe(2) pe pad_record_ok(2) [OF gen(2) n32 small(2)] by (simp add: fill_holds_def f'_def)
  ultimately show ?thesis by (rule that) (use n32 small in \<open>simp_all add: f'_def\<close>)
qed

section \<open>Sealing and completing\<close>

text \<open>A span that covers exactly what a chunk holds.\<close>

definition span_covers :: "write_span \<Rightarrow> nat \<Rightarrow> nat \<Rightarrow> nat \<Rightarrow> log_record list \<Rightarrow> nat \<Rightarrow> bool" where
  "span_covers w k rid start ls high \<longleftrightarrow>
     w = \<lparr>ws_shard_id = k, ws_region_id = rid, ws_start_offset = start, ws_end_offset = start + log_len ls,
          ws_record_count = length ls, ws_max_seqno = high\<rparr> \<and> ls \<noteq> []"

lemma span_matches:
  assumes "chunk_holds digest chunk rid start ls buffer v high" "span_covers w k rid start ls high"
  shows "span_matches_records w (vec_items v)"
  using assms staged_as_length [of rid start ls "vec_items v"]
  by (auto simp: span_matches_records_def chunk_holds_def span_covers_def)

definition spare_ready :: "nat \<Rightarrow> shard_state \<Rightarrow> bool" where
  "spare_ready chunk st \<longleftrightarrow> (\<exists>buffer v. spare_buffer st = Some buffer \<and> length buffer = chunk
     \<and> spare_records st = Some v \<and> vec_items v = [] \<and> MAX_STAGING_RECORDS \<le> vec_capacity v)"

lemma reset_holds:
  assumes "length buffer = chunk" "MAX_STAGING_RECORDS \<le> vec_capacity (fc_records f)"
  shows "fill_holds digest chunk rid [] (fill_reset buffer f)"
  using assms by (simp add: fill_holds_def chunk_holds_def fill_reset_def vec_clear_def)

text \<open>The write job of a sealed run.\<close>

definition job_holds :: "crc_stream \<Rightarrow> append_staging \<Rightarrow> nat \<Rightarrow> nat \<Rightarrow> log_record list \<Rightarrow> staged_write \<Rightarrow> bool" where
  "job_holds digest a k rid ls job \<longleftrightarrow>
     (\<exists>start high. span_covers (sw_span job) k rid start ls high
        \<and> chunk_holds digest (as_chunk_bytes a) rid start ls (ib_lease (sw_buffer job)) (sw_records job) high
        \<and> ib_length (sw_buffer job) = log_len ls
        \<and> sw_absolute job = DATA_REGION_AREA_OFFSET + rid * as_region_size a + start)"

lemma take_sealed_hands_over:
  fixes a k
  defines "st \<equiv> as_shards a ! k"
  assumes k: "k < length (as_shards a)" and st: "shard_open st" "submitted st = None" "spare_ready (as_chunk_bytes a) st"
    and f: "fill_holds digest (as_chunk_bytes a) rid ls (fill st)" and gen: "\<forall>l \<in> set ls. log_record_ok gen l"
    and w: "span_covers w k rid (fc_start_offset (fill st)) ls (fc_max_seqno (fill st))"
    and b: "rid < 2 ^ 20" "ws_end_offset w \<le> as_region_size a" "as_region_size a \<le> 2 ^ 25" "as_chunk_bytes a \<le> 2 ^ 25"
  obtains job st' where "take_sealed w a = (Inr (Some job), update_staging k (\<lambda>_. st') a)" "sw_span job = w"
    "job_holds digest a k rid ls job" "vec_items (sw_records job) = vec_items (fc_records (fill st))"
    "shard_open st'" "submitted st' = Some w" "spare_buffer st' = None" "spare_records st' = None"
    "\<And>rid'. fill_holds digest (as_chunk_bytes a) rid' [] (fill st')" "vec_items (fc_records (fill st')) = []"
proof -
  let ?f = "fill st"
  obtain buffer where bf: "fc_buffer ?f = Some buffer"
    "chunk_holds digest (as_chunk_bytes a) rid (fc_start_offset ?f) ls buffer (fc_records ?f) (fc_max_seqno ?f)"
    using f by (auto simp: fill_holds_def)
  obtain sb sv where sp: "spare_buffer st = Some sb" "length sb = as_chunk_bytes a" "spare_records st = Some sv"
    "vec_items sv = []" "MAX_STAGING_RECORDS \<le> vec_capacity sv" using st(3) by (auto simp: spare_ready_def)
  have wf: "ws_shard_id w = k" "ws_region_id w = rid" "ws_start_offset w = fc_start_offset ?f" "ws_end_offset w = fc_start_offset ?f + log_len ls"
    "ws_max_seqno w = fc_max_seqno ?f" "ls \<noteq> []" using w by (auto simp: span_covers_def)
  have fe: "fc_region_id ?f = rid" "fc_end_offset ?f = fc_start_offset ?f + log_len ls" using f wf(6) by (simp_all add: fill_holds_def)
  have pos: "0 < log_len ls" using log_len_pos [OF gen] wf(6) by (cases ls) auto
  have len: "log_len ls \<le> as_chunk_bytes a" "length buffer = as_chunk_bytes a" using bf(2) by (simp_all add: chunk_holds_def)
  have big: "2 ^ 25 \<le> usize_max" "2 ^ 25 \<le> u32_max" "2 ^ 46 \<le> u64_max" by (simp_all add: num_bounds)
  have n: "checked_sub (ws_end_offset w) (ws_start_offset w) \<bind> try_from usize_max = Some (log_len ls)"
    using len b(4) big by (simp add: wf checked_sub_def try_from_def)
  have m: "rid * as_region_size a \<le> 2 ^ 20 * 2 ^ 25" by (rule mult_le_mono) (use b in simp_all)
  have "rid * as_region_size a \<le> u64_max" "DATA_REGION_AREA_OFFSET + rid * as_region_size a \<le> u64_max"
    "DATA_REGION_AREA_OFFSET + rid * as_region_size a + fc_start_offset ?f \<le> u64_max"
    using m b wf(4) big by (simp_all add: DATA_REGION_AREA_OFFSET_def RECOVERY_PAGE_SIZE_def)
  then have ab: "span_absolute a w = Inr (DATA_REGION_AREA_OFFSET + rid * as_region_size a + fc_start_offset ?f)"
    using b(2) by (simp add: span_absolute_def wf checked_mul_def checked_add_def)
  have io: "io_buffer_for_write buffer (log_len ls) = Inr \<lparr>ib_lease = buffer, ib_length = log_len ls\<rparr>"
    using len b(4) big by (simp add: io_buffer_for_write_def prepared_def)
  let ?job = "\<lparr>sw_span = w, sw_buffer = \<lparr>ib_lease = buffer, ib_length = log_len ls\<rparr>,
      sw_absolute = DATA_REGION_AREA_OFFSET + rid * as_region_size a + fc_start_offset ?f, sw_records = fc_records ?f\<rparr>"
  define st' where "st' = st\<lparr>fill := fill_reset sb (?f\<lparr>fc_records := sv\<rparr>), spare_buffer := None, spare_records := None, submitted := Some w\<rparr>"
  show ?thesis
  proof (rule that [of ?job st'])
    show "take_sealed w a = (Inr (Some ?job), update_staging k (\<lambda>_. st') a)"
      using k st(1,2) pos len(1) fill_holds_empty [OF f] wf(6)
      by (simp add: take_sealed_def get_at_def wf(1) st_def [symmetric] shard_open_ensure span_matches [OF bf(2) w] n [unfolded wf(3,4)] ab bf(1) io sp(1,3)
          fe wf(2-5) shard_open_def Let_def st'_def del: bind_eq_Some_conv)
    show "job_holds digest a k rid ls ?job" using w bf(2) by (auto simp: job_holds_def)
    show "shard_open st'" using st(1) by (simp add: st'_def shard_open_def)
    show "fill_holds digest (as_chunk_bytes a) rid' [] (fill st')" for rid'
      using sp by (simp add: st'_def reset_holds)
  qed (simp_all add: st'_def fill_reset_def vec_clear_def)
qed

lemma finish_success_returns:
  fixes a k
  defines "st \<equiv> as_shards a ! k"
  assumes k: "k < length (as_shards a)" and st: "shard_open st" "submitted st = Some (sw_span job)" "spare_buffer st = None" "spare_records st = None"
    and job: "job_holds digest a k rid ls job" and b: "as_chunk_bytes a \<le> 2 ^ 25"
  obtains st' where "finish_success (sw_span job) (sw_buffer job) (sw_records job) a = (Inr (), update_staging k (\<lambda>_. st') a)"
    "shard_open st'" "submitted st' = None" "spare_ready (as_chunk_bytes a) st'" "fill st' = fill st"
proof -
  obtain start high where j: "span_covers (sw_span job) k rid start ls high"
    "chunk_holds digest (as_chunk_bytes a) rid start ls (ib_lease (sw_buffer job)) (sw_records job) high"
    "ib_length (sw_buffer job) = log_len ls" using job by (auto simp: job_holds_def)
  have wf: "ws_shard_id (sw_span job) = k" "ws_start_offset (sw_span job) = start" "ws_end_offset (sw_span job) = start + log_len ls"
    using j(1) by (auto simp: span_covers_def)
  have cap: "MAX_STAGING_RECORDS \<le> vec_capacity (sw_records job)" "length (ib_lease (sw_buffer job)) = as_chunk_bytes a"
    "log_len ls \<le> as_chunk_bytes a" using j(2) by (simp_all add: chunk_holds_def)
  have "2 ^ 25 \<le> usize_max" by (simp add: num_bounds)
  then have n: "checked_sub (start + log_len ls) start \<bind> try_from usize_max = Some (log_len ls)"
    using cap(3) b by (simp add: checked_sub_def try_from_def)
  let ?st = "st\<lparr>spare_buffer := Some (ib_lease (sw_buffer job)), spare_records := Some (vec_clear (sw_records job)),
      submitted := None, failed := False\<rparr>"
  show ?thesis
  proof (rule that [of ?st])
    show "finish_success (sw_span job) (sw_buffer job) (sw_records job) a = (Inr (), update_staging k (\<lambda>_. ?st) a)"
      using k st cap(1) span_matches [OF j(2,1)]
      by (simp add: finish_success_def finish_span_def get_at_def wf st_def [symmetric] n j(3) shard_open_def Let_def del: bind_eq_Some_conv)
  qed (use st cap in \<open>simp_all add: shard_open_def spare_ready_def vec_clear_def\<close>)
qed

end
