(* ===== verification/Store_Invariant.thy ===== *)
theory Store_Invariant
  imports Staging_Log
begin

text \<open>
  The invariant of a healthy store with its device. Every live Region is a log of records that were put
  into the store; its completed prefix is on the device, the rest is in the write job and the fill chunk of
  its append shard, in order. Every index entry designates a completed record of a live Region under the
  token of its hash. While a scanned Region waits to be freed, each entry that still designates it has a
  replacement on its way.
\<close>

section \<open>The store and its environment\<close>

text \<open>
  The runtime around the store: the data file, the write each shard worker has in flight, the puts that were
  accepted (hash, key and value), and the reclaim receipts whose scan is complete.
\<close>

record store_world =
  w_store :: region_runtime
  w_device :: bytes
  w_jobs :: "nat \<Rightarrow> (staged_write \<times> data_geometry) option"
  w_puts :: "(u64 \<times> bytes \<times> bytes) set"
  w_scanned :: "reclaim_receipt set"

type_synonym region_logs = "nat \<Rightarrow> log_record list"

definition store_frame :: "crc_stream \<Rightarrow> data_geometry \<Rightarrow> region_runtime \<Rightarrow> bool" where
  "store_frame digest g s \<longleftrightarrow>
     rs_healthy s \<and> \<not> rs_manager_poisoned s \<and> \<not> rs_rotation_poisoned s
     \<and> rs_append_gates s = replicate (length (active_regions (rs_manager s))) False
     \<and> manager_wf (rs_manager s) \<and> index_ok digest (rs_index s)
     \<and> rs_region_generations s = map d_created_seqno (regions (rs_manager s))
     \<and> geometry_is_valid g \<and> dg_region_size g = rm_region_size (rs_manager s)
     \<and> dg_region_count g = length (regions (rs_manager s))
     \<and> length (as_shards (rt_staging s)) = length (active_regions (rs_manager s))
     \<and> as_region_size (rt_staging s) = rm_region_size (rs_manager s)
     \<and> as_chunk_bytes (rt_staging s) mod 4096 = 0 \<and> as_chunk_bytes (rt_staging s) \<le> rm_region_size (rs_manager s)"

definition known_record :: "crc_stream \<Rightarrow> (u64 \<times> bytes \<times> bytes) set \<Rightarrow> nat \<Rightarrow> log_record \<Rightarrow> bool" where
  "known_record digest puts gen l \<longleftrightarrow>
     log_record_ok gen l \<and> crc32c digest [lr_key l @ lr_value l] = hdr_payload_crc (lr_header l)
     \<and> (lr_hash l, lr_key l, lr_value l) \<in> puts"

definition region_log_ok ::
    "crc_stream \<Rightarrow> data_geometry \<Rightarrow> bytes \<Rightarrow> (u64 \<times> bytes \<times> bytes) set \<Rightarrow> nat \<Rightarrow> region_desc \<Rightarrow> log_record list \<Rightarrow> bool" where
  "region_log_ok digest g dev puts rid d ls \<longleftrightarrow>
     (\<forall>l \<in> set ls. known_record digest puts (d_created_seqno d) l)
     \<and> d_physical_record_count d \<le> length ls
     \<and> completed_used d = log_len (take (d_physical_record_count d) ls)
     \<and> region_holds digest g dev rid (take (d_physical_record_count d) ls)
     \<and> (d_state d \<noteq> Active \<longrightarrow> d_physical_record_count d = length ls)"

definition job_log_ok ::
    "crc_stream \<Rightarrow> data_geometry \<Rightarrow> append_staging \<Rightarrow> nat \<Rightarrow> nat \<Rightarrow> write_span option \<Rightarrow> shard_state
      \<Rightarrow> (staged_write \<times> data_geometry) option \<Rightarrow> log_record list \<Rightarrow> bool" where
  "job_log_ok digest g a k rid span st job jl =
     (case job of
        None \<Rightarrow> jl = [] \<and> span = None \<and> submitted st = None \<and> spare_ready (as_chunk_bytes a) st
      | Some (j, geometry) \<Rightarrow>
          span = Some (sw_span j) \<and> submitted st = Some (sw_span j) \<and> spare_buffer st = None \<and> spare_records st = None
          \<and> job_holds digest a k rid jl j \<and> geometry = g)"

definition open_log_ok :: "open_write_span option \<Rightarrow> fill_chunk \<Rightarrow> log_record list \<Rightarrow> bool" where
  "open_log_ok span f fl =
     (case span of
        None \<Rightarrow> fl = []
      | Some sp \<Rightarrow> fl \<noteq> [] \<and> os_record_count sp = length fl \<and> os_start_offset sp = fc_start_offset f
          \<and> os_end_offset sp = fc_end_offset f \<and> os_max_seqno sp = fc_max_seqno f)"

definition shard_log_ok ::
    "crc_stream \<Rightarrow> data_geometry \<Rightarrow> append_staging \<Rightarrow> nat \<Rightarrow> nat \<Rightarrow> region_desc \<Rightarrow> append_shard_state \<Rightarrow> shard_state
      \<Rightarrow> (staged_write \<times> data_geometry) option \<Rightarrow> log_record list \<Rightarrow> bool" where
  "shard_log_ok digest g a k rid d sh st job ls \<longleftrightarrow>
     tail sh = None \<and> pending_padding sh = None \<and> rotation sh = None \<and> shard_open st
     \<and> (\<exists>jl fl. drop (d_physical_record_count d) ls = jl @ fl
          \<and> job_log_ok digest g a k rid (submitted_span sh) st job jl
          \<and> fill_holds digest (as_chunk_bytes a) rid fl (fill st) \<and> open_log_ok (open_span sh) (fill st) fl)"

definition index_log_ok :: "region_index \<Rightarrow> region_desc list \<Rightarrow> region_logs \<Rightarrow> bool" where
  "index_log_ok x ds logs \<longleftrightarrow>
     (\<forall>t e. index_map x t = Some e \<longrightarrow>
        (\<exists>rid < length ds. \<exists>i < d_physical_record_count (ds ! rid).
           e = log_entry rid (logs rid) i \<and> t = token (index_shape x) (lr_hash (logs rid ! i))))"

text \<open>The replacements in a batch of staged records: hash and location that is replaced.\<close>

definition replacements :: "staged_record list \<Rightarrow> (u64 \<times> packed_location) set" where
  "replacements ss = {(stg_hash s, p) | s p. s \<in> set ss \<and> staged_previous_location s = Some p}"

definition shard_replacements :: "shard_state \<Rightarrow> (staged_write \<times> data_geometry) option \<Rightarrow> (u64 \<times> packed_location) set" where
  "shard_replacements st job =
     replacements (vec_items (fc_records (fill st)))
     \<union> (case job of None \<Rightarrow> {} | Some (j, _) \<Rightarrow> replacements (vec_items (sw_records j)))"

definition pending_replacements :: "store_world \<Rightarrow> (u64 \<times> packed_location) set" where
  "pending_replacements w =
     (\<Union>k < length (as_shards (rt_staging (w_store w))). shard_replacements (as_shards (rt_staging (w_store w)) ! k) (w_jobs w k))"

definition covered :: "region_index \<Rightarrow> (u64 \<times> packed_location) set \<Rightarrow> nat \<Rightarrow> bool" where
  "covered x pending rid \<longleftrightarrow>
     (\<forall>t e. index_map x t = Some e \<longrightarrow> unat (region_id (location e)) = rid \<longrightarrow>
        (\<exists>(h, p) \<in> pending. index_equivalent (location e) p \<and> token (index_shape x) h = t))"

text \<open>Every record that was put fits a staging chunk, so it can be staged again.\<close>

definition puts_fit :: "nat \<Rightarrow> (u64 \<times> bytes \<times> bytes) set \<Rightarrow> bool" where
  "puts_fit chunk puts \<longleftrightarrow> (\<forall>(h, key, val) \<in> puts. \<forall>n. aligned_len (length key) (length val) = Some n \<longrightarrow> n \<le> chunk)"

definition store_inv :: "crc_stream \<Rightarrow> data_geometry \<Rightarrow> region_logs \<Rightarrow> store_world \<Rightarrow> bool" where
  "store_inv digest g logs w \<longleftrightarrow>
     (let s = w_store w; m = rs_manager s; a = rt_staging s in
      store_frame digest g s \<and> length (w_device w) = dg_data_file_len g
      \<and> (\<forall>rid < length (regions m). region_log_ok digest g (w_device w) (w_puts w) rid (regions m ! rid) (logs rid))
      \<and> (\<forall>k < length (active_regions m).
           shard_log_ok digest g a k (active_regions m ! k) (regions m ! (active_regions m ! k)) (append_states m ! k)
             (as_shards a ! k) (w_jobs w k) (logs (active_regions m ! k)))
      \<and> index_log_ok (rs_index s) (regions m) logs
      \<and> (\<forall>q \<in> w_scanned w. q \<in> set (reclaiming m) \<and> covered (rs_index s) (pending_replacements w) (rc_region_id q))
      \<and> puts_fit (as_chunk_bytes a) (w_puts w))"

section \<open>Consequences\<close>

lemma update_staging_simps [simp]:
  "as_chunk_bytes (update_staging k f a) = as_chunk_bytes a" "as_region_size (update_staging k f a) = as_region_size a"
  "length (as_shards (update_staging k f a)) = length (as_shards a)"
  "as_shards (update_staging k f a) = (as_shards a)[k := f (as_shards a ! k)]"
  by (simp_all add: update_staging_def)

lemma shard_log_ok_config:
  assumes "as_chunk_bytes a' = as_chunk_bytes a" "as_region_size a' = as_region_size a"
  shows "shard_log_ok digest g a' k rid d sh st job ls = shard_log_ok digest g a k rid d sh st job ls"
  by (simp add: shard_log_ok_def job_log_ok_def job_holds_def assms split: option.splits)

lemma shard_log_okI:
  assumes "tail sh = None" "pending_padding sh = None" "rotation sh = None" "shard_open st"
    and "drop (d_physical_record_count d) ls = jl @ fl" "job_log_ok digest g a k rid (submitted_span sh) st job jl"
    and "fill_holds digest (as_chunk_bytes a) rid fl (fill st)" "open_log_ok (open_span sh) (fill st) fl"
  shows "shard_log_ok digest g a k rid d sh st job ls"
  using assms unfolding shard_log_ok_def by blast

lemma fill_update_simps [simp]:
  "job_log_ok digest g a k rid span (st\<lparr>fill := f\<rparr>) job jl = job_log_ok digest g a k rid span st job jl"
  "shard_open (st\<lparr>fill := f\<rparr>) = shard_open st"
  by (simp_all add: job_log_ok_def spare_ready_def shard_open_def split: option.splits)

lemma store_invD:
  assumes "store_inv digest g logs w"
  defines "s \<equiv> w_store w"
  defines "m \<equiv> rs_manager s" and "a \<equiv> rt_staging s"
  shows "store_frame digest g s" "length (w_device w) = dg_data_file_len g"
    "rid < length (regions m) \<Longrightarrow> region_log_ok digest g (w_device w) (w_puts w) rid (regions m ! rid) (logs rid)"
    "k < length (active_regions m) \<Longrightarrow>
       shard_log_ok digest g a k (active_regions m ! k) (regions m ! (active_regions m ! k)) (append_states m ! k)
         (as_shards a ! k) (w_jobs w k) (logs (active_regions m ! k))"
    "index_log_ok (rs_index s) (regions m) logs"
    "q \<in> w_scanned w \<Longrightarrow> q \<in> set (reclaiming m) \<and> covered (rs_index s) (pending_replacements w) (rc_region_id q)"
    "puts_fit (as_chunk_bytes a) (w_puts w)"
  using assms(1) by (simp_all add: store_inv_def Let_def s_def m_def a_def)

lemma store_invI:
  assumes "store_frame digest g (w_store w)" "length (w_device w) = dg_data_file_len g"
    "\<And>rid. rid < length (regions (rs_manager (w_store w))) \<Longrightarrow>
       region_log_ok digest g (w_device w) (w_puts w) rid (regions (rs_manager (w_store w)) ! rid) (logs rid)"
    "\<And>k. k < length (active_regions (rs_manager (w_store w))) \<Longrightarrow>
       shard_log_ok digest g (rt_staging (w_store w)) k (active_regions (rs_manager (w_store w)) ! k)
         (regions (rs_manager (w_store w)) ! (active_regions (rs_manager (w_store w)) ! k)) (append_states (rs_manager (w_store w)) ! k)
         (as_shards (rt_staging (w_store w)) ! k) (w_jobs w k) (logs (active_regions (rs_manager (w_store w)) ! k))"
    "index_log_ok (rs_index (w_store w)) (regions (rs_manager (w_store w))) logs"
    "\<And>q. q \<in> w_scanned w \<Longrightarrow> q \<in> set (reclaiming (rs_manager (w_store w)))
       \<and> covered (rs_index (w_store w)) (pending_replacements w) (rc_region_id q)"
    "puts_fit (as_chunk_bytes (rt_staging (w_store w))) (w_puts w)"
  shows "store_inv digest g logs w"
  using assms by (simp add: store_inv_def Let_def)

lemma frameD:
  assumes "store_frame digest g s"
  defines "m \<equiv> rs_manager s" and "a \<equiv> rt_staging s"
  shows "rs_healthy s" "\<not> rs_manager_poisoned s" "\<not> rs_rotation_poisoned s" "manager_wf m" "index_ok digest (rs_index s)"
    "rs_append_gates s = replicate (length (active_regions m)) False"
    "rs_region_generations s = map d_created_seqno (regions m)"
    "geometry_is_valid g" "dg_region_size g = rm_region_size m" "dg_region_count g = length (regions m)"
    "length (as_shards a) = length (active_regions m)" "as_region_size a = rm_region_size m"
    "as_chunk_bytes a mod 4096 = 0" "as_chunk_bytes a \<le> rm_region_size m"
    "length (append_states m) = length (active_regions m)" "rm_region_size m \<le> 2 ^ 25" "length (regions m) \<le> 2 ^ 20"
proof -
  have "manager_shape m" using assms by (simp add: store_frame_def manager_wf_def)
  then show "length (append_states m) = length (active_regions m)" "rm_region_size m \<le> 2 ^ 25" "length (regions m) \<le> 2 ^ 20"
    by (simp_all add: manager_shape_def)
qed (use assms in \<open>simp_all add: store_frame_def\<close>)

lemma region_logD:
  assumes "region_log_ok digest g dev puts rid d ls"
  shows "\<forall>l \<in> set ls. log_record_ok (d_created_seqno d) l" "d_physical_record_count d \<le> length ls"
    "completed_used d = log_offset ls (d_physical_record_count d)"
    "region_holds digest g dev rid (take (d_physical_record_count d) ls)"
    "l \<in> set ls \<Longrightarrow> known_record digest puts (d_created_seqno d) l"
  using assms by (auto simp: region_log_ok_def known_record_def log_offset_def)

text \<open>The Region of an index entry that designates a record.\<close>

lemma log_entry_region:
  assumes "\<forall>l \<in> set ls. log_record_ok gen l" "i < length ls" "rid < 2 ^ 20" "log_offset ls (Suc i) \<le> 2 ^ 25"
  shows "unat (region_id (location (log_entry rid ls i))) = rid"
    "index_equivalent (location (log_entry rid ls i)) (exact_location rid (log_offset ls i) (ls ! i))"
    "unat (offset (location (log_entry rid ls i))) = log_offset ls i"
proof -
  have l: "log_record_ok gen (ls ! i)" using assms(1,2) by simp
  have "log_offset ls i + lr_len (ls ! i) \<le> 2 ^ 25" using assms(4) log_offset_Suc [OF assms(2)] by simp
  note x = exact_location [OF l assms(3) log_offset_mod [OF assms(1)] this]
  show "unat (region_id (location (log_entry rid ls i))) = rid"
    "index_equivalent (location (log_entry rid ls i)) (exact_location rid (log_offset ls i) (ls ! i))"
    "unat (offset (location (log_entry rid ls i))) = log_offset ls i"
    using x(2,3) by (simp_all add: log_entry_def quantize_entry_def quantize_location_fields index_equivalent_def)
qed

lemma region_log_mono: "region_log_ok digest g dev puts rid d ls \<Longrightarrow> puts \<subseteq> puts' \<Longrightarrow> region_log_ok digest g dev puts' rid d ls"
  by (auto simp: region_log_ok_def known_record_def)

lemma covered_mono:
  assumes "covered x pending rid" "pending \<subseteq> pending'" shows "covered x pending' rid"
  using assms unfolding covered_def by blast

section \<open>Steps inside one shard\<close>

text \<open>The entry of a completed record depends only on the completed prefix.\<close>

lemma log_entry_prefix:
  assumes "take n ls = take n ls'" "i < n" "n \<le> length ls" "n \<le> length ls'"
  shows "log_entry rid ls i = log_entry rid ls' i" "ls ! i = ls' ! i"
proof -
  have "log_entry rid xs i = log_entry rid (take n xs) i" if "n \<le> length xs" for xs
    using log_entry_append [of i "take n xs" rid "drop n xs"] that assms(2) by simp
  then show "log_entry rid ls i = log_entry rid ls' i" using assms by metis
  show "ls ! i = ls' ! i" by (metis assms(1,2) nth_take)
qed

lemma index_log_update:
  assumes "index_log_ok x ds logs" "rid < length ds" "d_physical_record_count d' = d_physical_record_count (ds ! rid)"
    and t: "take (d_physical_record_count d') ls' = take (d_physical_record_count d') (logs rid)"
      "d_physical_record_count d' \<le> length ls'" "d_physical_record_count d' \<le> length (logs rid)"
  shows "index_log_ok x (ds[rid := d']) (logs(rid := ls'))"
  unfolding index_log_ok_def
proof (intro allI impI)
  fix tk e assume "index_map x tk = Some e"
  with assms(1) obtain r i where r: "r < length ds" "i < d_physical_record_count (ds ! r)" "e = log_entry r (logs r) i"
    "tk = token (index_shape x) (lr_hash (logs r ! i))" unfolding index_log_ok_def by blast
  show "\<exists>r < length (ds[rid := d']). \<exists>i < d_physical_record_count (ds[rid := d'] ! r).
      e = log_entry r ((logs(rid := ls')) r) i \<and> tk = token (index_shape x) (lr_hash ((logs(rid := ls')) r ! i))"
  proof (cases "r = rid")
    case True
    with r(2) assms(3) have i: "i < d_physical_record_count d'" by simp
    from log_entry_prefix [OF t(1) i t(2,3)] r True i assms(2) show ?thesis
      by (intro exI [of _ rid] conjI exI [of _ i]) simp_all
  next
    case False
    with r show ?thesis by (intro exI [of _ r] conjI exI [of _ i]) simp_all
  qed
qed

lemma inv_shard_update:
  fixes w k
  defines "s \<equiv> w_store w"
  defines "m \<equiv> rs_manager s" and "a \<equiv> rt_staging s"
  defines "rid \<equiv> active_regions m ! k"
  defines "d \<equiv> regions m ! rid"
  assumes inv: "store_inv digest g logs w" and k: "k < length (active_regions m)"
    and m': "manager_wf m'" "regions m' = (regions m)[rid := d']" "append_states m' = (append_states m)[k := sh']"
      "active_regions m' = active_regions m" "reclaiming m' = reclaiming m" "rm_region_size m' = rm_region_size m"
    and d': "d_created_seqno d' = d_created_seqno d" "d_physical_record_count d' = d_physical_record_count d"
    and log: "region_log_ok digest g (w_device w) puts' rid d' ls'" "take (d_physical_record_count d) ls' = take (d_physical_record_count d) (logs rid)"
    and shard: "shard_log_ok digest g a k rid d' sh' st' job' ls'"
    and more: "shard_replacements (as_shards a ! k) (w_jobs w k) \<subseteq> shard_replacements st' job'" "w_puts w \<subseteq> puts'"
      "puts_fit (as_chunk_bytes a) puts'"
  shows "store_inv digest g (logs(rid := ls'))
    (w\<lparr>w_store := s\<lparr>rs_manager := m', rt_staging := update_staging k (\<lambda>_. st') a\<rparr>, w_jobs := (w_jobs w)(k := job'), w_puts := puts'\<rparr>)"
proof -
  let ?s = "s\<lparr>rs_manager := m', rt_staging := update_staging k (\<lambda>_. st') a\<rparr>"
  let ?w = "w\<lparr>w_store := ?s, w_jobs := (w_jobs w)(k := job'), w_puts := puts'\<rparr>"
  note D = store_invD [OF inv, folded s_def, folded m_def a_def]
  note F = frameD [OF D(1), folded m_def a_def]
  note al = active_lookup [OF F(4) k, folded rid_def]
  have gens: "map d_created_seqno (regions m') = map d_created_seqno (regions m)"
    using al(1) d'(1) by (simp add: m'(2) map_update list_update_same_conv d_def)
  have frame: "store_frame digest g ?s"
    using F m' gens by (simp add: store_frame_def)
  have regs: "region_log_ok digest g (w_device w) puts' r (regions m' ! r) ((logs(rid := ls')) r)" if "r < length (regions m')" for r
    using that log(1) al(1) D(3) [of r] region_log_mono [OF _ more(2)] by (cases "r = rid") (simp_all add: m'(2))
  have len: "length (as_shards a) = length (active_regions m)" "length (append_states m) = length (active_regions m)" using F by simp_all
  have shards: "shard_log_ok digest g (update_staging k (\<lambda>_. st') a) j (active_regions m' ! j) (regions m' ! (active_regions m' ! j))
      (append_states m' ! j) (as_shards (update_staging k (\<lambda>_. st') a) ! j) (((w_jobs w)(k := job')) j) ((logs(rid := ls')) (active_regions m' ! j))"
    if j: "j < length (active_regions m')" for j
  proof (cases "j = k")
    case True
    then show ?thesis using shard k len al(1)
      by (simp add: m' rid_def [symmetric] shard_log_ok_config [where a' = "update_staging k (\<lambda>_. st') a" and a = a])
  next
    case False
    then have "active_regions m ! j \<noteq> rid" using al(4) [of j] j m'(4) by simp
    then show ?thesis using D(4) [of j] False j
      by (simp add: m' shard_log_ok_config [where a' = "update_staging k (\<lambda>_. st') a" and a = a])
  qed
  have c: "d_physical_record_count d \<le> length (logs rid)" using region_logD(2) [OF D(3) [OF al(1)]] by (simp add: d_def)
  have "index_log_ok (rs_index s) ((regions m)[rid := d']) (logs(rid := ls'))"
    by (rule index_log_update [OF D(5) al(1)]) (use d'(2) log c region_logD(2) [OF log(1)] in \<open>simp_all add: d_def\<close>)
  then have idx: "index_log_ok (rs_index s) (regions m') (logs(rid := ls'))" by (simp add: m'(2))
  have "pending_replacements w \<subseteq> pending_replacements ?w"
  proof -
    have "shard_replacements (as_shards a ! j) (w_jobs w j)
        \<subseteq> shard_replacements ((as_shards a)[k := st'] ! j) (((w_jobs w)(k := job')) j)" if "j < length (as_shards a)" for j
      using that more(1) by (cases "j = k") simp_all
    then show ?thesis by (force simp: pending_replacements_def s_def [symmetric] a_def [symmetric])
  qed
  then have "q \<in> set (reclaiming m') \<and> covered (rs_index s) (pending_replacements ?w) (rc_region_id q)" if "q \<in> w_scanned w" for q
    using D(6) [OF that] covered_mono m'(5) by auto
  then show ?thesis using frame regs shards idx D(2) more(3) by (intro store_invI) (simp_all split del: if_split)
qed

end
