(* ===== verification/Store_Stage.thy ===== *)
theory Store_Stage
  imports Store_Invariant
begin

text \<open>
  Staging a record keeps the store invariant: either nothing but a rotation request changes, or the record
  joins the log of the shard's active Region, or the sequence numbers are exhausted.
\<close>

lemma update_staging_triv: "update_staging k (\<lambda>_. as_shards a ! k) a = a"
  by (simp add: update_staging_def)

lemma with_manager_eq: "op (rs_manager s) = (r, m) \<Longrightarrow> with_manager op s = Some (Inr r, s\<lparr>rs_manager := m\<rparr>)"
  by (simp add: with_manager_def)

lemma store_op_simps [simp, result_simps]:
  "enter_miss_only s = Some (Inr (), s\<lparr>rs_healthy := False\<rparr>)"
  "fail_miss_only e s = Some (Inl e, s\<lparr>rs_healthy := False\<rparr>)"
  "fail_closing e s = Some (Inl e, s\<lparr>rs_healthy := False, rt_staging := staging_close (rt_staging s)\<rparr>)"
  by (simp_all add: enter_miss_only_def fail_miss_only_def fail_closing_def close_staging_def)

lemma healthy_locks:
  assumes "rs_healthy s" "\<not> rs_manager_poisoned s"
  shows "require_healthy s = Some (Inr (), s)" "manager_lock s = Some (Inr (), s)" "manager_try_lock busy s = Some (Inr (\<not> busy), s)"
  using assms by (simp_all add: require_healthy_def manager_lock_def manager_try_lock_def pbind_def)

lemma frame_locks:
  assumes "store_frame digest g s"
  shows "require_healthy s = Some (Inr (), s)" "manager_lock s = Some (Inr (), s)" "manager_try_lock busy s = Some (Inr (\<not> busy), s)"
    "k < length (active_regions (rs_manager s)) \<Longrightarrow> append_gate k s = Some (Inr False, s)"
    "k < length (active_regions (rs_manager s)) \<Longrightarrow> lock_shard_mutation k s = Some (Inr (), s)"
  using healthy_locks [OF frameD(1,2) [OF assms]] frameD(6) [OF assms]
  by (simp_all add: append_gate_def lock_shard_mutation_def get_at_def pbind_def)

section \<open>The manager's part\<close>

lemma request_rotation_total:
  assumes wf: "manager_wf m" and k: "k < length (append_states m)" and n: "n \<le> 2 ^ 32"
  shows "\<exists>b m'. request_rotation_for_append k n m = (Inr b, m')
    \<and> (m' = m \<or> m' = update_shard k (\<lambda>sh. sh\<lparr>rotation_requested := True\<rparr>) m)"
proof -
  note l = wf_lookup [OF wf k]
  have "align_padding (reserved_used (regions m ! (active_regions m ! k))) < 4096" by (rule align_padding_less)
  then have "reserved_used (regions m ! (active_regions m ! k)) + align_padding (reserved_used (regions m ! (active_regions m ! k))) \<le> u64_max"
    "reserved_used (regions m ! (active_regions m ! k)) + align_padding (reserved_used (regions m ! (active_regions m ! k))) + n \<le> u64_max"
    using l n by (simp_all add: num_bounds)
  then show ?thesis using l k
    by (auto simp: request_rotation_for_append_def get_at_def checked_add_def split: if_splits)
qed

lemma reserve_append_errors:
  assumes wf: "manager_wf m" and k: "k < length (append_states m)" and n: "0 < n" "n mod 32 = 0" "n \<le> 2 ^ 32"
    and e: "reserve_append k n m = (Inl e, m')"
  shows "e = WouldBlock \<or> e = FlushBeforeRotation \<or> e = RegionFull \<or> e = SequenceExhausted \<and> next_seqno m = u64_max"
proof -
  note l = wf_lookup [OF wf k]
  have "reserved_used (regions m ! (active_regions m ! k)) \<le> u32_max" "reserved_used (regions m ! (active_regions m ! k)) + n \<le> u64_max"
    using l n(3) by (simp_all add: num_bounds)
  then show ?thesis using e l k n
    by (auto simp: reserve_append_def get_at_def checked_add_def try_from_def RECORD_ALIGNMENT_def allocate_seqno_def Let_def split: if_splits)
qed

definition extended_span :: "append_reservation \<Rightarrow> open_write_span option \<Rightarrow> open_write_span" where
  "extended_span t sp =
     (case sp of
        None \<Rightarrow> \<lparr>os_region_id = ra_region_id t, os_start_offset = ra_offset t, os_end_offset = ra_offset t + ra_record_bytes t,
                 os_record_count = 1, os_max_seqno = ra_seqno t\<rparr>
      | Some sp \<Rightarrow> sp\<lparr>os_end_offset := ra_offset t + ra_record_bytes t, os_record_count := os_record_count sp + 1, os_max_seqno := ra_seqno t\<rparr>)"

lemma stage_reservation_exact:
  assumes wf: "manager_wf m" and k: "ra_shard_id t < length (append_states m)" and t: "tail (append_states m ! ra_shard_id t) = Some t"
  shows "stage_reservation t m = (Inr (),
    update_shard (ra_shard_id t) (\<lambda>sh. sh\<lparr>open_span := Some (extended_span t (open_span sh)), tail := None\<rparr>) m)"
proof -
  from stage_reservation_ok [OF assms] obtain sp where
    "stage_reservation t m = (Inr (), update_shard (ra_shard_id t) (\<lambda>sh. sh\<lparr>open_span := Some sp, tail := None\<rparr>) m)" by blast
  then show ?thesis using k t
    by (auto simp: stage_reservation_def get_at_def reservation_end_offset_def checked_add_def extend_open_span_def extended_span_def
        update_shard_def max_def split: option.splits if_splits)
qed

text \<open>Reserving and staging on one shard: the cursors advance and the open span grows by the record.\<close>

lemma reserve_and_stage_appends:
  fixes m k
  defines "rid \<equiv> active_regions m ! k"
  defines "d \<equiv> regions m ! rid" and "sh \<equiv> append_states m ! k"
  assumes wf: "manager_wf m" and n: "64 \<le> n" and ok: "reserve_append k n m = (Inr t, m1)"
  shows "\<exists>m2. stage_reservation t m1 = (Inr (), m2) \<and> manager_wf m2
    \<and> regions m2 = (regions m)[rid := d\<lparr>reserved_used := reserved_used d + n\<rparr>]
    \<and> append_states m2 = (append_states m)[k := sh\<lparr>open_span := Some (extended_span t (open_span sh))\<rparr>]
    \<and> active_regions m2 = active_regions m \<and> reclaiming m2 = reclaiming m \<and> rm_region_size m2 = rm_region_size m"
proof -
  note r = reserve_append_success [OF ok wf, folded rid_def, folded d_def sh_def]
  have wf1: "manager_wf m1" using reserve_append_wf [OF wf, of n k] n ok by (simp add: MIN_ENCODED_RECORD_SIZE_def)
  have t: "ra_shard_id t = k" "k < length (append_states m1)" "tail (append_states m1 ! k) = Some t"
    using r by simp_all
  note e = stage_reservation_exact [OF wf1, of t, unfolded t(1), OF t(2,3)]
  have "manager_wf (snd (stage_reservation t m1))" by (rule stage_reservation_wf [OF wf1])
  moreover have "sh\<lparr>open_span := sp, tail := None\<rparr> = sh\<lparr>open_span := sp\<rparr>" for sp using r(4) by (cases sh) simp
  ultimately show ?thesis using e r(1,10) by (simp add: update_shard_def)
qed

section \<open>The open end of a shard's log\<close>

text \<open>Where the next record of a shard goes, by the manager's cursors and by the fill chunk.\<close>

lemma shard_cursor:
  fixes w k
  defines "s \<equiv> w_store w"
  defines "m \<equiv> rs_manager s" and "a \<equiv> rt_staging s"
  defines "rid \<equiv> active_regions m ! k"
  defines "d \<equiv> regions m ! rid" and "sh \<equiv> append_states m ! k" and "f \<equiv> fill (as_shards a ! k)"
  assumes inv: "store_inv digest g logs w" and k: "k < length (active_regions m)"
  obtains jl fl where "drop (d_physical_record_count d) (logs rid) = jl @ fl"
    "job_log_ok digest g a k rid (submitted_span sh) (as_shards a ! k) (w_jobs w k) jl"
    "fill_holds digest (as_chunk_bytes a) rid fl f" "open_log_ok (open_span sh) f fl" "shard_open (as_shards a ! k)"
    "tail sh = None" "pending_padding sh = None" "rotation sh = None"
    "\<forall>l \<in> set (logs rid). log_record_ok (d_created_seqno d) l"
    "fl \<noteq> [] \<longrightarrow> fc_end_offset f = reserved_used d" "fl \<noteq> [] \<longrightarrow> fc_start_offset f mod 4096 = 0"
    "fc_max_seqno f < next_seqno m" "rid < 2 ^ 20" "d_created_seqno d \<noteq> 0" "d_created_seqno d < next_seqno m"
    "reserved_used d mod 32 = 0" "reserved_used d \<le> rm_region_size m"
    "fl \<noteq> [] \<longrightarrow> fc_start_offset f = submitted_end d sh" "fl = [] \<longrightarrow> submitted_end d sh = reserved_used d" "d_state d = Active"
proof -
  note D = store_invD [OF inv, folded s_def, folded m_def a_def]
  note F = frameD [OF D(1), folded m_def a_def]
  have k': "k < length (append_states m)" using k F(15) by simp
  note al = active_lookup [OF F(4) k, folded rid_def]
  obtain jl fl where L: "drop (d_physical_record_count d) (logs rid) = jl @ fl"
    "job_log_ok digest g a k rid (submitted_span sh) (as_shards a ! k) (w_jobs w k) jl"
    "fill_holds digest (as_chunk_bytes a) rid fl f" "open_log_ok (open_span sh) f fl"
    "shard_open (as_shards a ! k)" "tail sh = None" "pending_padding sh = None" "rotation sh = None"
    using D(4) [OF k] unfolding shard_log_ok_def f_def sh_def d_def rid_def [symmetric] by blast
  note sl = shard_lookup [OF F(4)]
  have so: "shard_ok (next_seqno m) k rid d sh" using sl(2) [OF k] by (simp add: rid_def d_def sh_def)
  have dok: "desc_ok (rm_region_size m) (next_seqno m) d" using sl(3) [OF al(1)] by (simp add: d_def)
  have oe: "reserved_used d = open_end d sh" using so L(6,7) by (simp add: shard_ok_def)
  have act: "d_state d = Active" using so by (simp add: shard_ok_def)
  have open_some: "\<exists>sp. open_span sh = Some sp \<and> open_ok (next_seqno m) (submitted_end d sh) rid d sp" if "fl \<noteq> []"
    using L(4) that so by (auto simp: open_log_ok_def shard_ok_def split: option.splits)
  have e1: "fc_end_offset f = reserved_used d" "fc_start_offset f = submitted_end d sh" "fc_max_seqno f < next_seqno m" if "fl \<noteq> []"
    using open_some [OF that] L(4) oe by (auto simp: open_log_ok_def open_end_def open_ok_def)
  have sub: "submitted_end d sh mod 4096 = 0"
    using so by (auto simp: shard_ok_def submitted_end_def submitted_ok_def DIRECT_IO_ALIGNMENT_def split: option.splits)
  have e0: "fc_max_seqno f < next_seqno m" if "fl = []"
    using L(3) that next_seqno_pos [OF F(4)] by (auto simp: fill_holds_def chunk_holds_def dest!: staged_as_length)
  show ?thesis
  proof (rule that [OF L])
    show "\<forall>l \<in> set (logs rid). log_record_ok (d_created_seqno d) l" using region_logD(1) [OF D(3) [OF al(1)]] by (simp add: d_def)
    show "fl \<noteq> [] \<longrightarrow> fc_end_offset f = reserved_used d" "fl \<noteq> [] \<longrightarrow> fc_start_offset f = submitted_end d sh" using e1 by blast+
    show "fl \<noteq> [] \<longrightarrow> fc_start_offset f mod 4096 = 0" using e1(2) sub by simp
    show "fc_max_seqno f < next_seqno m" using e1(3) e0 by blast
    show "rid < 2 ^ 20" using al(1) F(17) by simp
    show "d_created_seqno d \<noteq> 0" "d_created_seqno d < next_seqno m" "reserved_used d mod 32 = 0" "reserved_used d \<le> rm_region_size m"
      using dok act by (auto simp: desc_ok_def)
    show "fl = [] \<longrightarrow> submitted_end d sh = reserved_used d"
      using L(4) oe by (auto simp: open_log_ok_def open_end_def split: option.splits)
    show "d_state d = Active" by (rule act)
  qed
qed

text \<open>What the preflight saw.\<close>

lemma preflight_cases:
  assumes "k < length (as_shards a)" "shard_open (as_shards a ! k)" "fill_holds digest (as_chunk_bytes a) rid fl (fill (as_shards a ! k))"
    and n: "0 < n" "n mod 32 = 0" "n \<le> as_chunk_bytes a" "as_chunk_bytes a \<le> 2 ^ 25"
  shows "preflight_append a k n = Inr NeedsSeal
    \<or> preflight_append a k n = Inr (Appended (log_len fl) (log_len fl + n)) \<and> log_len fl + n \<le> as_chunk_bytes a \<and> length fl \<noteq> MAX_STAGING_RECORDS"
proof -
  have "2 ^ 25 \<le> usize_max" by (simp add: num_bounds)
  then have u: "fill_used (fill (as_shards a ! k)) = Some (log_len fl)" using fill_holds_used [OF assms(3)] n(4) by simp
  have "log_len fl \<le> as_chunk_bytes a" using assms(3) by (auto simp: fill_holds_def chunk_holds_def)
  then have "log_len fl + n \<le> usize_max" using n(3,4) by (simp add: num_bounds)
  then show ?thesis using assms(1,2) n u fill_holds_length [OF assms(3)] shard_open_ensure [OF assms(2)]
    by (auto simp: preflight_append_def get_at_def shard_open_def checked_add_def RECORD_ALIGNMENT_def)
qed

section \<open>Staging one record\<close>

text \<open>What the callers give: an aligned length that holds the payload, its checksum, and a put it came from.\<close>

definition payload_known ::
    "crc_stream \<Rightarrow> (u64 \<times> bytes \<times> bytes) set \<Rightarrow> u64 \<Rightarrow> nat \<Rightarrow> record_payload \<Rightarrow> (nat \<times> packed_location) option \<Rightarrow> bool" where
  "payload_known digest puts hash n payload reinsert \<longleftrightarrow>
     n mod 32 = 0 \<and> 64 \<le> n \<and> 48 + length (pl_key payload) + length (pl_value payload) \<le> n
     \<and> length (pl_key payload) \<le> MAX_KEY_SIZE \<and> pl_crc payload = crc32c digest [pl_key payload @ pl_value payload]
     \<and> (hash, pl_key payload, pl_value payload) \<in> puts
     \<and> (case reinsert of None \<Rightarrow> True | Some (seqno, previous) \<Rightarrow> 0 < seqno \<and> seqno \<le> u64_max \<and> raw previous \<noteq> UPSERT_PUBLICATION)"

lemma replacements_snoc:
  "replacements (ss @ [r]) = replacements ss \<union> (case staged_previous_location r of None \<Rightarrow> {} | Some p \<Rightarrow> {(stg_hash r, p)})"
  by (auto simp: replacements_def split: option.splits)

lemma staged_of_previous:
  "staged_previous_location (staged_of t hash payload None) = None"
  "raw previous \<noteq> UPSERT_PUBLICATION \<Longrightarrow> staged_previous_location (staged_of t hash payload (Some (seqno, previous))) = Some previous"
  "stg_hash (staged_of t hash payload reinsert) = hash"
  by (simp_all add: staged_previous_location_def staged_of_def)

text \<open>What staging leaves alone: the Regions' owners, and the replacements that were already on their way.\<close>

definition stage_keeps :: "region_runtime \<Rightarrow> region_runtime \<Rightarrow> bool" where
  "stage_keeps s s' \<longleftrightarrow>
     active_regions (rs_manager s') = active_regions (rs_manager s) \<and> reclaiming (rs_manager s') = reclaiming (rs_manager s)
     \<and> rs_index s' = rs_index s \<and> length (as_shards (rt_staging s')) = length (as_shards (rt_staging s))
     \<and> (\<forall>k job. shard_replacements (as_shards (rt_staging s) ! k) job \<subseteq> shard_replacements (as_shards (rt_staging s') ! k) job)"

lemma stage_keeps_pending:
  "stage_keeps (w_store w) s' \<Longrightarrow> pending_replacements w \<subseteq> pending_replacements (w\<lparr>w_store := s'\<rparr>)"
  by (force simp: stage_keeps_def pending_replacements_def)

lemma stage_keeps_request:
  assumes "m' = rs_manager s \<or> m' = update_shard k (\<lambda>sh. sh\<lparr>rotation_requested := True\<rparr>) (rs_manager s)"
  shows "stage_keeps s s" "stage_keeps s (s\<lparr>rs_manager := m'\<rparr>)" "stage_keeps s (s\<lparr>rs_manager := m', rs_healthy := h\<rparr>)"
  using assms by (auto simp: stage_keeps_def update_shard_def)

text \<open>The publications a fill chunk holds: the hash, and the location that is replaced for a staged reinsert.\<close>

definition publication :: "staged_record \<Rightarrow> u64 \<times> packed_location option" where
  "publication r = (stg_hash r, staged_previous_location r)"

definition staged_tail :: "region_runtime \<Rightarrow> nat \<Rightarrow> (u64 \<times> packed_location option) list" where
  "staged_tail s k = map publication (vec_items (fc_records (fill (as_shards (rt_staging s) ! k))))"

lemma stage_record_inv:
  fixes w k
  defines "s \<equiv> w_store w"
  defines "m \<equiv> rs_manager s" and "a \<equiv> rt_staging s"
  defines "rid \<equiv> active_regions m ! k"
  assumes inv: "store_inv digest g logs w" and k: "k < length (active_regions m)"
    and known: "payload_known digest puts' hash n payload reinsert" "w_puts w \<subseteq> puts'" "puts_fit (as_chunk_bytes a) puts'"
    and n: "n \<le> as_chunk_bytes a"
    and pre: "preflight_append a k n = Inr (Appended before after)" and ok: "reserve_append k n m = (Inr t, m1)"
  obtains s' l where "pbind (reserve_and_stage k n) (\<lambda>r. case r of Inl early \<Rightarrow> preturn early
      | Inr t \<Rightarrow> encode_staged digest t hash n payload reinsert) s = Some (Inr (Staged (ra_seqno t) before after), s')"
    "store_inv digest g (logs(rid := logs rid @ [l])) (w\<lparr>w_store := s', w_puts := puts'\<rparr>)"
    "stage_keeps s s'" "lr_hash l = hash" "lr_key l = pl_key payload" "lr_value l = pl_value payload"
    "case reinsert of None \<Rightarrow> True | Some (_, previous) \<Rightarrow> (hash, previous) \<in> pending_replacements (w\<lparr>w_store := s', w_puts := puts'\<rparr>)"
    "staged_tail s' k = staged_tail s k @ [(hash, map_option snd reinsert)]"
proof -
  define d where "d = regions m ! rid"
  define sh where "sh = append_states m ! k"
  define st where "st = as_shards a ! k"
  note D = store_invD [OF inv, folded s_def, folded m_def a_def]
  note F = frameD [OF D(1), folded m_def a_def]
  have k': "k < length (append_states m)" "k < length (as_shards a)" using k F(11,15) by simp_all
  note al = active_lookup [OF F(4) k, folded rid_def]
  obtain jl fl where c: "drop (d_physical_record_count d) (logs rid) = jl @ fl"
    "job_log_ok digest g a k rid (submitted_span sh) st (w_jobs w k) jl"
    "fill_holds digest (as_chunk_bytes a) rid fl (fill st)" "open_log_ok (open_span sh) (fill st) fl" "shard_open st"
    "tail sh = None" "pending_padding sh = None" "rotation sh = None"
    "\<forall>l \<in> set (logs rid). log_record_ok (d_created_seqno d) l"
    "fl \<noteq> [] \<longrightarrow> fc_end_offset (fill st) = reserved_used d" "fl \<noteq> [] \<longrightarrow> fc_start_offset (fill st) mod 4096 = 0"
    "fc_max_seqno (fill st) < next_seqno m" "rid < 2 ^ 20" "d_created_seqno d \<noteq> 0" "d_created_seqno d < next_seqno m"
    "reserved_used d mod 32 = 0" "reserved_used d \<le> rm_region_size m"
    "fl \<noteq> [] \<longrightarrow> fc_start_offset (fill st) = submitted_end d sh" "fl = [] \<longrightarrow> submitted_end d sh = reserved_used d" "d_state d = Active"
    by (rule shard_cursor [OF inv k [unfolded m_def s_def], folded s_def, folded m_def a_def, folded rid_def, folded d_def sh_def st_def])
  note kn = known(1) [unfolded payload_known_def]
  have small: "as_chunk_bytes a \<le> 2 ^ 25" using F(14,16) by simp
  have "0 < n" "n mod 32 = 0" using kn by simp_all
  from preflight_cases [OF k'(2) c(5) [unfolded st_def] c(3) [unfolded st_def] this n small] pre
  have room: "before = log_len fl" "after = log_len fl + n" "log_len fl + n \<le> as_chunk_bytes a" "length fl \<noteq> MAX_STAGING_RECORDS" by auto
  note r = reserve_append_success [OF ok F(4), folded rid_def, folded d_def sh_def]
  obtain m2 where m2: "stage_reservation t m1 = (Inr (), m2)" "manager_wf m2"
    "regions m2 = (regions m)[rid := d\<lparr>reserved_used := reserved_used d + n\<rparr>]"
    "append_states m2 = (append_states m)[k := sh\<lparr>open_span := Some (extended_span t (open_span sh))\<rparr>]"
    "active_regions m2 = active_regions m" "reclaiming m2 = reclaiming m" "rm_region_size m2 = rm_region_size m"
    using reserve_and_stage_appends [OF F(4) _ ok] kn unfolding rid_def d_def sh_def by blast
  have tf: "ra_shard_id t = k" "ra_region_id t = rid" "ra_region_created_seqno t = d_created_seqno d" "ra_offset t = reserved_used d"
    "ra_record_bytes t = n" "ra_seqno t = next_seqno m" using r(7) by simp_all
  have res: "reservation_for t payload reinsert"
    using kn r(8,9) c(13-17) F(16) by (auto simp: reservation_for_def tf split: option.splits)
  let ?l = "stage_record_of t hash payload reinsert" and ?s = "staged_of t hash payload reinsert"
  let ?f = "fill_append digest t ?l ?s (log_len fl) (fill st)" let ?st = "st\<lparr>fill := ?f\<rparr>"
  have flgen: "\<forall>l \<in> set fl. log_record_ok (ra_region_created_seqno t) l"
    using c(1,9) in_set_dropD [of _ "d_physical_record_count d" "logs rid"] by (simp add: tf)
  note enc = encode_reserved_appends [of k a t digest fl payload reinsert n hash, OF k'(2) tf(1), folded st_def, OF c(5) _ flgen res]
  have enc': "encode_reserved t (stage_encoder digest t hash n payload reinsert) a
      = Some (Inr (Appended (log_len fl) (log_len fl + n)), update_staging k (\<lambda>_. ?st) a)"
    "fill_holds digest (as_chunk_bytes a) rid (fl @ [?l]) ?f"
    "vec_items (fc_records ?f) = vec_items (fc_records (fill st)) @ [?s]" "fc_max_seqno ?f = next_seqno m"
    "fc_start_offset ?f = (if fl = [] then reserved_used d else fc_start_offset (fill st))" "fc_end_offset ?f = reserved_used d + n"
    using enc c(3,10,11,12) room r(8) small F(12) mod_4096_32
    by (simp_all add: tf update_staging_def st_def)
  note rec = reservation_record [OF res, where hash = hash]
  define s' where "s' = s\<lparr>rs_manager := m2, rt_staging := update_staging k (\<lambda>_. ?st) a\<rparr>"
  have run: "pbind (reserve_and_stage k n) (\<lambda>r. case r of Inl early \<Rightarrow> preturn early
      | Inr t \<Rightarrow> encode_staged digest t hash n payload reinsert) s = Some (Inr (Staged (ra_seqno t) before after), s')"
    using ok m2(1) enc'(1) room(1,2)
    by (simp add: reserve_and_stage_def encode_staged_def with_staging_partial_def with_manager_def pbind_def m_def a_def s'_def)
  have kr: "known_record digest puts' (d_created_seqno d) ?l"
    using rec kn by (simp add: known_record_def tf stage_record_of_def record_header_of_def lr_hash_def)
  have rl: "region_log_ok digest g (w_device w) puts' rid (d\<lparr>reserved_used := reserved_used d + n\<rparr>) (logs rid @ [?l])"
    using region_log_mono [OF D(3) [OF al(1)] known(2)] kr shard_lookup(2) [OF F(4) k]
    by (auto simp: region_log_ok_def d_def shard_ok_def rid_def [symmetric])
  have cnt: "d_physical_record_count d \<le> length (logs rid)" using region_logD(2) [OF D(3) [OF al(1)]] by (simp add: d_def)
  have ol: "open_log_ok (Some (extended_span t (open_span sh))) ?f (fl @ [?l])"
    using c(4) enc'(4-6) by (auto simp: open_log_ok_def extended_span_def tf split: option.splits)
  have sl: "shard_log_ok digest g a k rid (d\<lparr>reserved_used := reserved_used d + n\<rparr>)
      (sh\<lparr>open_span := Some (extended_span t (open_span sh))\<rparr>) ?st (w_jobs w k) (logs rid @ [?l])"
    by (rule shard_log_okI [where jl = jl and fl = "fl @ [?l]"]) (use c(1,2,5-8) cnt enc'(2) ol in simp_all)
  have rep: "shard_replacements st (w_jobs w k) \<subseteq> shard_replacements ?st (w_jobs w k)"
    using enc'(3) by (auto simp: shard_replacements_def replacements_snoc)
  have new: "(hash, previous) \<in> shard_replacements ?st (w_jobs w k)" if "reinsert = Some (seqno, previous)" for seqno previous
    using enc'(3) that kn by (simp add: shard_replacements_def replacements_snoc staged_of_previous)
  have "store_inv digest g (logs(rid := logs rid @ [?l])) (w\<lparr>w_store := s', w_jobs := (w_jobs w)(k := w_jobs w k), w_puts := puts'\<rparr>)"
    unfolding s'_def
    by (rule inv_shard_update [where k = k, OF inv, folded s_def, folded m_def a_def, folded rid_def, folded d_def, OF k m2(2-7) _ _ rl _ sl _ known(2,3)])
      (use cnt rep in \<open>auto simp: st_def\<close>)
  then have inv': "store_inv digest g (logs(rid := logs rid @ [?l])) (w\<lparr>w_store := s', w_puts := puts'\<rparr>)" by simp
  have "(hash, previous) \<in> pending_replacements (w\<lparr>w_store := s', w_puts := puts'\<rparr>)" if "reinsert = Some (seqno, previous)" for seqno previous
    using new [OF that] k'(2) by (auto simp: pending_replacements_def s'_def intro!: bexI [of _ k])
  moreover have "shard_replacements (as_shards a ! j) job \<subseteq> shard_replacements ((as_shards a)[k := ?st] ! j) job" for j job
    using enc'(3) k'(2) by (cases "j = k") (auto simp: shard_replacements_def replacements_snoc st_def)
  then have "stage_keeps s s'" using m2 by (simp add: stage_keeps_def s'_def m_def [symmetric] a_def [symmetric])
  moreover have "staged_tail s' k = staged_tail s k @ [(hash, map_option snd reinsert)]"
    using enc'(3) k'(2) kn staged_of_previous [where t = t and hash = hash and payload = payload]
    by (auto simp: staged_tail_def s'_def publication_def st_def a_def split: option.splits)
  ultimately show ?thesis
    by (intro that [OF run inv']) (auto simp: stage_record_of_def lr_hash_def record_header_of_def split: option.splits)
qed

lemma inv_request:
  assumes inv: "store_inv digest g logs w" and k: "k < length (active_regions (rs_manager (w_store w)))"
  shows "store_inv digest g logs
    (w\<lparr>w_store := (w_store w)\<lparr>rs_manager := update_shard k (\<lambda>sh. sh\<lparr>rotation_requested := True\<rparr>) (rs_manager (w_store w))\<rparr>\<rparr>)"
proof -
  define m where "m = rs_manager (w_store w)"
  define rid where "rid = active_regions m ! k"
  note D = store_invD [OF inv, folded m_def]
  note F = frameD [OF D(1), folded m_def]
  have k': "k < length (active_regions m)" "k < length (append_states m)" using k F(15) by (simp_all add: m_def)
  note al = active_lookup [OF F(4) k'(1), folded rid_def]
  let ?a = "rt_staging (w_store w)"
  have "store_inv digest g (logs(rid := logs rid))
    (w\<lparr>w_store := (w_store w)\<lparr>rs_manager := update_shard k (\<lambda>sh. sh\<lparr>rotation_requested := True\<rparr>) m,
        rt_staging := update_staging k (\<lambda>_. as_shards ?a ! k) ?a\<rparr>, w_jobs := (w_jobs w)(k := w_jobs w k), w_puts := w_puts w\<rparr>)"
    by (rule inv_shard_update [where k = k, OF inv, folded m_def, folded rid_def,
          where d' = "regions m ! rid" and sh' = "(append_states m ! k)\<lparr>rotation_requested := True\<rparr>"])
      (use k' wf_request [OF F(4) k'(2)] D(3) [OF al(1)] D(4) [OF k'(1)] D(7) in
        \<open>auto simp: update_shard_def rid_def [symmetric] shard_log_ok_def\<close>)
  then show ?thesis by (simp add: m_def update_staging_triv)
qed

lemma try_stage_record_inv:
  fixes w k
  defines "s \<equiv> w_store w"
  defines "m \<equiv> rs_manager s" and "rid \<equiv> active_regions (rs_manager s) ! k"
  assumes inv: "store_inv digest g logs w" and k: "k < length (active_regions m)"
    and known: "payload_known digest puts' hash n payload reinsert" "w_puts w \<subseteq> puts'" "puts_fit (as_chunk_bytes (rt_staging s)) puts'"
    and n: "n \<le> as_chunk_bytes (rt_staging s)"
  shows "\<exists>r s'. try_stage_record digest gate_busy manager_busy k hash n payload reinsert s = Some (r, s') \<and> stage_keeps s s'
    \<and> ((\<exists>e. r = Inl e) \<and> \<not> rs_healthy s' \<and> next_seqno (rs_manager s') = u64_max
       \<or> (\<exists>c. r = Inr c \<and> (\<forall>x y z. c \<noteq> Staged x y z) \<and> store_inv digest g logs (w\<lparr>w_store := s'\<rparr>))
       \<or> (\<exists>x y z l. r = Inr (Staged x y z) \<and> store_inv digest g (logs(rid := logs rid @ [l])) (w\<lparr>w_store := s', w_puts := puts'\<rparr>)
            \<and> lr_hash l = hash \<and> lr_key l = pl_key payload \<and> lr_value l = pl_value payload
            \<and> (case reinsert of None \<Rightarrow> True | Some (_, previous) \<Rightarrow> (hash, previous) \<in> pending_replacements (w\<lparr>w_store := s', w_puts := puts'\<rparr>))
            \<and> staged_tail s' k = staged_tail s k @ [(hash, map_option snd reinsert)]))"
proof -
  define a where "a = rt_staging s"
  note D = store_invD [OF inv, folded s_def, folded m_def a_def]
  note F = frameD [OF D(1), folded m_def a_def] and L = frame_locks [OF D(1), folded m_def]
  have k': "k < length (append_states m)" "k < length (as_shards a)" using k F(11,15) by simp_all
  note kn = known(1) [unfolded payload_known_def]
  have n': "0 < n" "n mod 32 = 0" "n \<le> 2 ^ 25" "n \<le> 2 ^ 32" "64 \<le> n" using kn n F(14,16) by (simp_all add: a_def)
  have same: "w\<lparr>w_store := s\<rparr> = w" "s\<lparr>rs_manager := m\<rparr> = s" by (simp_all add: s_def m_def)
  obtain jl fl where c: "fill_holds digest (as_chunk_bytes a) (active_regions m ! k) fl (fill (as_shards a ! k))" "shard_open (as_shards a ! k)"
    using D(4) [OF k] unfolding shard_log_ok_def by blast
  have small: "as_chunk_bytes a \<le> 2 ^ 25" using F(14,16) by simp
  note pf = preflight_cases [OF k'(2) c(2,1) n'(1,2) n [folded a_def] small]
  note run = try_stage_record_def L(4) [OF k]
  have requested: "store_inv digest g logs (w\<lparr>w_store := s\<lparr>rs_manager := m'\<rparr>\<rparr>)"
    if "m' = m \<or> m' = update_shard k (\<lambda>sh. sh\<lparr>rotation_requested := True\<rparr>) m" for m'
    using that inv inv_request [OF inv, of k] k same by (auto simp: s_def m_def)
  consider (contended) "gate_busy \<or> manager_busy" | (seal) "\<not> gate_busy" "\<not> manager_busy" "preflight_append a k n = Inr NeedsSeal"
    | (room) "\<not> gate_busy" "\<not> manager_busy" "preflight_append a k n = Inr (Appended (log_len fl) (log_len fl + n))"
    using pf by blast
  then show ?thesis
  proof cases
    case contended
    then have "try_stage_record digest gate_busy manager_busy k hash n payload reinsert s = Some (Inr Contended, s)"
      using pf L by (auto simp: run pbind_def a_def [symmetric])
    then show ?thesis using inv same stage_keeps_request(1) by auto
  next
    case seal
    obtain b m' where b: "request_rotation_for_append k n m = (Inr b, m')"
      "m' = m \<or> m' = update_shard k (\<lambda>sh. sh\<lparr>rotation_requested := True\<rparr>) m"
      using request_rotation_total [OF F(4) k'(1) n'(4)] by blast
    have "try_stage_record digest gate_busy manager_busy k hash n payload reinsert s
        = Some (Inr (if b then NeedsRotation else NeedsFlush), s\<lparr>rs_manager := m'\<rparr>)"
      using seal L b(1) by (simp add: run pbind_def a_def [symmetric] with_manager_def m_def [symmetric])
    then show ?thesis using requested [OF b(2)] stage_keeps_request(2) [OF b(2) [unfolded m_def]] by auto
  next
    case room
    have steps: "try_stage_record digest gate_busy manager_busy k hash n payload reinsert s =
        pbind (reserve_and_stage k n) (\<lambda>r. case r of Inl early \<Rightarrow> preturn early
          | Inr t \<Rightarrow> encode_staged digest t hash n payload reinsert) s"
      using room L by (simp add: run pbind_def a_def [symmetric])
    show ?thesis
    proof (cases "reserve_append k n m")
      case (Pair r m')
      show ?thesis
      proof (cases r)
        case (Inl e)
        note e = Pair [unfolded Inl]
        have m': "m' = m \<or> m' = update_shard k (\<lambda>sh. sh\<lparr>rotation_requested := True\<rparr>) m"
          using reserve_append_failure [OF e F(4)] by blast
        have w: "with_manager (reserve_append k n) s = Some (Inr (Inl e), s\<lparr>rs_manager := m'\<rparr>)"
          using e by (simp add: with_manager_def m_def)
        from reserve_append_errors [OF F(4) k'(1) n'(1,2,4) e] consider
          (c) early where "reserve_and_stage k n s = Some (Inr (Inl early), s\<lparr>rs_manager := m'\<rparr>)" "early = NeedsFlush \<or> early = NeedsRotation"
          | (x) "e = SequenceExhausted" "next_seqno m = u64_max"
          by (elim disjE conjE) (simp_all add: reserve_and_stage_def pbind_def w)
        then show ?thesis
        proof cases
          case c
          then have "try_stage_record digest gate_busy manager_busy k hash n payload reinsert s = Some (Inr early, s\<lparr>rs_manager := m'\<rparr>)"
            by (simp add: steps pbind_def)
          then show ?thesis using requested [OF m'] c(2) stage_keeps_request(2) [OF m' [unfolded m_def]] by auto
        next
          case x
          then show ?thesis using m' stage_keeps_request(3) [OF m' [unfolded m_def]]
            by (auto simp: steps pbind_def reserve_and_stage_def w update_shard_def)
        qed
      next
        case (Inr t)
        obtain s' l where r: "try_stage_record digest gate_busy manager_busy k hash n payload reinsert s
              = Some (Inr (Staged (ra_seqno t) (log_len fl) (log_len fl + n)), s')"
            "store_inv digest g (logs(rid := logs rid @ [l])) (w\<lparr>w_store := s', w_puts := puts'\<rparr>)"
            "stage_keeps s s'" "lr_hash l = hash" "lr_key l = pl_key payload" "lr_value l = pl_value payload"
            "case reinsert of None \<Rightarrow> True | Some (_, previous) \<Rightarrow> (hash, previous) \<in> pending_replacements (w\<lparr>w_store := s', w_puts := puts'\<rparr>)"
            "staged_tail s' k = staged_tail s k @ [(hash, map_option snd reinsert)]"
          unfolding steps rid_def
          by (rule stage_record_inv [OF inv _ known(1,2), folded s_def, folded m_def a_def, OF k known(3) [folded a_def] n [folded a_def] room(3)])
            (use Pair Inr in \<open>simp_all add: m_def\<close>)
        then show ?thesis by blast
      qed
    qed
  qed
qed

end
