(* ===== verification/Store_Flush.thy ===== *)
theory Store_Flush
  imports Store_Stage
begin

text \<open>
  Flushing a shard keeps the store invariant: the fill chunk is padded and sealed into one write job, and a
  successful write turns the records of the job into completed records of the Region and publishes them.
\<close>

section \<open>Sealing in the manager\<close>

definition span_of :: "nat \<Rightarrow> open_write_span \<Rightarrow> nat \<Rightarrow> write_span" where
  "span_of k sp e = \<lparr>ws_shard_id = k, ws_region_id = os_region_id sp, ws_start_offset = os_start_offset sp, ws_end_offset = e,
     ws_record_count = os_record_count sp, ws_max_seqno = os_max_seqno sp\<rparr>"

definition padding_of :: "nat \<Rightarrow> open_write_span \<Rightarrow> padding_receipt" where
  "padding_of k sp = \<lparr>rp_shard_id = k, rp_region_id = os_region_id sp, rp_span_start_offset = os_start_offset sp,
     rp_unpadded_end_offset = os_end_offset sp, rp_padded_end_offset = os_end_offset sp + align_padding (os_end_offset sp),
     rp_record_count = os_record_count sp, rp_max_seqno = os_max_seqno sp\<rparr>"

definition submit_span :: "write_span \<Rightarrow> append_shard_state \<Rightarrow> append_shard_state" where
  "submit_span w = (\<lambda>sh. sh\<lparr>open_span := None, pending_padding := None, submitted_span := Some w\<rparr>)"

lemma submit_open_span_exact:
  assumes wf: "manager_wf m" and k: "k < length (append_states m)"
    and sh: "tail (append_states m ! k) = None" "submitted_span (append_states m ! k) = None"
      "rotation (append_states m ! k) = None" "open_span (append_states m ! k) = Some sp"
    and e: "e = reserved_used (regions m ! (active_regions m ! k))" "os_end_offset sp \<le> e" "e mod 4096 = 0"
  shows "submit_open_span k e m = (Inr (span_of k sp e), update_shard k (submit_span (span_of k sp e)) m)"
    "manager_wf (update_shard k (submit_span (span_of k sp e)) m)"
proof -
  note s = submit_open_span_wf [OF wf k sh e(1,2)]
  from s(2) [OF e(3)] obtain w where "fst (submit_open_span k e m) = Inr w" by blast
  then show eq: "submit_open_span k e m = (Inr (span_of k sp e), update_shard k (submit_span (span_of k sp e)) m)"
    using k sh(4) by (simp add: submit_open_span_def get_at_def span_of_def submit_span_def Let_def split: if_splits)
  show "manager_wf (update_shard k (submit_span (span_of k sp e)) m)" using s(1) by (simp add: eq)
qed

lemma seal_plain:
  assumes wf: "manager_wf m" and k: "k < length (append_states m)"
    and sh: "tail (append_states m ! k) = None" "pending_padding (append_states m ! k) = None"
      "submitted_span (append_states m ! k) = None" "rotation (append_states m ! k) = None"
      "open_span (append_states m ! k) = Some sp"
    and pad: "align_padding (os_end_offset sp) = 0"
  shows "reserve_write_padding k m = (Inr None, m)"
    "seal_write_span k m = (Inr (span_of k sp (os_end_offset sp)), update_shard k (submit_span (span_of k sp (os_end_offset sp))) m)"
    "manager_wf (update_shard k (submit_span (span_of k sp (os_end_offset sp))) m)"
proof -
  note r = reserve_write_padding_ok [OF wf k sh]
  have "os_end_offset sp mod 4096 = 0" using align_padding_sum [of "os_end_offset sp"] pad by simp
  note e = submit_open_span_exact [OF wf k sh(1,3-5) r(3) [symmetric] _ this]
  show "reserve_write_padding k m = (Inr None, m)" using r(1) pad by simp
  show "seal_write_span k m = (Inr (span_of k sp (os_end_offset sp)), update_shard k (submit_span (span_of k sp (os_end_offset sp))) m)"
    using e(1) k sh by (simp add: seal_write_span_def get_at_def)
  show "manager_wf (update_shard k (submit_span (span_of k sp (os_end_offset sp))) m)" using e(2) by simp
qed

lemma seal_padded:
  fixes m k sp
  defines "rid \<equiv> active_regions m ! k" and "e \<equiv> os_end_offset sp + align_padding (os_end_offset sp)"
  assumes wf: "manager_wf m" and k: "k < length (append_states m)"
    and sh: "tail (append_states m ! k) = None" "pending_padding (append_states m ! k) = None"
      "submitted_span (append_states m ! k) = None" "rotation (append_states m ! k) = None"
      "open_span (append_states m ! k) = Some sp"
    and pad: "align_padding (os_end_offset sp) \<noteq> 0"
  obtains m1 where "reserve_write_padding k m = (Inr (Some (padding_of k sp)), m1)"
    "seal_write_span_with_padding (padding_of k sp) m1 = (Inr (span_of k sp e), update_shard k (submit_span (span_of k sp e)) m1)"
    "manager_wf (update_shard k (submit_span (span_of k sp e)) m1)"
    "update_shard k (submit_span (span_of k sp e)) m1
      = update_shard k (submit_span (span_of k sp e)) (update_region rid (\<lambda>d. d\<lparr>reserved_used := e\<rparr>) m)"
proof -
  note r = reserve_write_padding_ok [OF wf k sh]
  define m1 where "m1 = update_shard k (\<lambda>sh. sh\<lparr>pending_padding := Some (padding_of k sp)\<rparr>)
      (update_region rid (\<lambda>d. d\<lparr>reserved_used := e\<rparr>) m)"
  have res: "reserve_write_padding k m = (Inr (Some (padding_of k sp)), m1)"
    using r(1,2) pad by (simp add: m1_def padding_of_def e_def rid_def)
  have wf1: "manager_wf m1" using reserve_write_padding_wf [OF wf, of k] res by simp
  note l = wf_lookup [OF wf k]
  have k1: "k < length (append_states m1)" "append_states m1 ! k = (append_states m ! k)\<lparr>pending_padding := Some (padding_of k sp)\<rparr>"
    using k by (simp_all add: m1_def update_shard_def update_region_def)
  have e1: "e = reserved_used (regions m1 ! (active_regions m1 ! k))"
    using l(2) by (simp add: m1_def update_shard_def update_region_def rid_def)
  have e3: "e mod 4096 = 0" by (simp add: e_def align_padding_sum)
  note s = submit_open_span_exact [OF wf1 k1(1), of sp e] and p = seal_with_padding_ok [OF wf1, of "padding_of k sp"]
  have st: "submit_open_span k e m1 = (Inr (span_of k sp e), update_shard k (submit_span (span_of k sp e)) m1)"
    "manager_wf (update_shard k (submit_span (span_of k sp e)) m1)"
    using s sh k1(2) e1 e3 by (simp_all add: e_def)
  have "seal_write_span_with_padding (padding_of k sp) m1 = (Inr (span_of k sp e), update_shard k (submit_span (span_of k sp e)) m1)"
    using p(1) k1 st(1) by (simp add: padding_of_def e_def)
  moreover have "update_shard k (submit_span (span_of k sp e)) m1
      = update_shard k (submit_span (span_of k sp e)) (update_region rid (\<lambda>d. d\<lparr>reserved_used := e\<rparr>) m)"
    using k by (simp add: m1_def update_shard_def update_region_def submit_span_def)
  ultimately show ?thesis by (rule that [OF res _ st(2)])
qed

lemma geometry_for_eq:
  assumes "geometry_is_valid g" "dg_region_size g = rm_region_size (rs_manager s)" "dg_region_count g = length (regions (rs_manager s))"
  shows "geometry_for s = Some (Inr g, s)"
proof -
  have "expected_file_len (dg_region_size g) (dg_region_count g) = Some (dg_data_file_len g)" "dg_region_count g \<le> u32_max"
    using assms(1) by (auto simp: geometry_is_valid_def MAX_PACKED_REGION_COUNT_def packed_limits packed_widths num_bounds)
  then show ?thesis using assms(2,3) by (simp add: geometry_for_def pbind_def try_from_def)
qed

section \<open>Handing the fill chunk over\<close>

lemma replacements_pad:
  assumes "ss \<noteq> []" shows "replacements (pad_staged rid off l ss) = replacements ss"
proof -
  have "replacements (butlast ss @ [staged_set_location loc (last ss)]) = replacements (butlast ss @ [last ss])" for loc
    by (simp only: replacements_snoc) (simp add: staged_set_location_def staged_previous_location_def)
  with assms show ?thesis by (simp add: pad_staged_def)
qed

lemma publications_pad:
  assumes "ss \<noteq> []" shows "map publication (pad_staged rid off l ss) = map publication ss"
proof -
  have "map publication (butlast ss @ [staged_set_location loc (last ss)]) = map publication (butlast ss @ [last ss])" for loc
    by (simp add: publication_def staged_set_location_def staged_previous_location_def)
  with assms show ?thesis by (simp add: pad_staged_def)
qed

text \<open>What a record says, apart from its place and its padding.\<close>

definition log_content :: "log_record \<Rightarrow> u64 \<times> bytes \<times> bytes" where
  "log_content l = (lr_hash l, lr_key l, lr_value l)"

lemma sealed_inv:
  fixes w k
  defines "s \<equiv> w_store w"
  defines "m \<equiv> rs_manager s" and "a \<equiv> rt_staging s"
  defines "rid \<equiv> active_regions m ! k"
  defines "d \<equiv> regions m ! rid" and "sh \<equiv> append_states m ! k" and "st \<equiv> as_shards a ! k"
  assumes inv: "store_inv digest g logs w" and k: "k < length (active_regions m)"
    and idle: "shard_open st" "submitted st = None" "spare_ready (as_chunk_bytes a) st" "w_jobs w k = None" "tail sh = None" "rotation sh = None"
    and m': "manager_wf m'" "m' = update_shard k (submit_span span) (update_region rid (\<lambda>d. d\<lparr>reserved_used := e\<rparr>) m)"
    and f: "fill_holds digest (as_chunk_bytes a) rid fl f" "replacements (vec_items (fc_records f)) = replacements (vec_items (fc_records (fill st)))"
    and ls: "drop (d_physical_record_count d) ls' = fl" "take (d_physical_record_count d) ls' = take (d_physical_record_count d) (logs rid)"
      "\<forall>l \<in> set fl. known_record digest (w_puts w) (d_created_seqno d) l" "d_physical_record_count d \<le> length ls'"
    and span: "span_covers span k rid (fc_start_offset f) fl (fc_max_seqno f)" "ws_end_offset span \<le> rm_region_size m"
  obtains job st' where "take_sealed span (update_staging k (\<lambda>st. st\<lparr>fill := f\<rparr>) a) = (Inr (Some job), update_staging k (\<lambda>_. st') a)"
    "sw_span job = span"
    "store_inv digest g (logs(rid := ls')) (w\<lparr>w_store := s\<lparr>rs_manager := m', rt_staging := update_staging k (\<lambda>_. st') a\<rparr>,
        w_jobs := (w_jobs w)(k := Some (job, g))\<rparr>)"
    "vec_items (sw_records job) = vec_items (fc_records f)" "vec_items (fc_records (fill st')) = []"
proof -
  note D = store_invD [OF inv, folded s_def, folded m_def a_def]
  note F = frameD [OF D(1), folded m_def a_def]
  have k': "k < length (append_states m)" "k < length (as_shards a)" using k F(11,15) by simp_all
  note al = active_lookup [OF F(4) k, folded rid_def]
  let ?a = "update_staging k (\<lambda>st. st\<lparr>fill := f\<rparr>) a" let ?st = "st\<lparr>fill := f\<rparr>"
  have shard: "as_shards ?a ! k = ?st" using k'(2) by (simp add: st_def)
  have idle': "shard_open ?st" "submitted ?st = None" "spare_ready (as_chunk_bytes ?a) ?st"
    using idle by (simp_all add: spare_ready_def)
  have small: "as_region_size ?a \<le> 2 ^ 25" "as_chunk_bytes ?a \<le> 2 ^ 25" "rid < 2 ^ 20" "ws_end_offset span \<le> as_region_size ?a"
    using F al(1) span(2) by simp_all
  have gen: "\<forall>l \<in> set fl. log_record_ok (d_created_seqno d) l" using ls(3) by (simp add: known_record_def)
  have k2: "k < length (as_shards ?a)" using k'(2) by simp
  have f2: "fill_holds digest (as_chunk_bytes ?a) rid fl (fill ?st)" using f(1) by simp
  have s2: "span_covers span k rid (fc_start_offset (fill ?st)) fl (fc_max_seqno (fill ?st))" using span(1) by simp
  obtain job st' where j: "take_sealed span ?a = (Inr (Some job), update_staging k (\<lambda>_. st') ?a)" "sw_span job = span"
    "job_holds digest ?a k rid fl job" "vec_items (sw_records job) = vec_items (fc_records f)"
    "shard_open st'" "submitted st' = Some span" "spare_buffer st' = None" "spare_records st' = None"
    "fill_holds digest (as_chunk_bytes ?a) rid [] (fill st')" "vec_items (fc_records (fill st')) = []"
    by (rule take_sealed_hands_over [where a = ?a and k = k, unfolded shard, OF k2 idle' f2 gen s2 small(3,4,1,2)]) simp
  have job: "job_holds digest a k rid fl job" using j(3) by (simp add: job_holds_def)
  have same: "update_staging k (\<lambda>_. st') ?a = update_staging k (\<lambda>_. st') a" by (simp add: update_staging_def)
  have regs: "regions m' = (regions m)[rid := d\<lparr>reserved_used := e\<rparr>]" "append_states m' = (append_states m)[k := submit_span span sh]"
    "active_regions m' = active_regions m" "reclaiming m' = reclaiming m" "rm_region_size m' = rm_region_size m"
    by (simp_all add: m'(2) update_shard_def update_region_def d_def sh_def)
  have split: "ls' = take (d_physical_record_count d) (logs rid) @ fl"
    using append_take_drop_id [of "d_physical_record_count d" ls'] ls(1,2) by simp
  note rl0 = D(3) [OF al(1), folded d_def]
  have act: "d_state d = Active" using shard_lookup(2) [OF F(4) k] by (simp add: shard_ok_def d_def rid_def)
  have rl: "region_log_ok digest g (w_device w) (w_puts w) rid (d\<lparr>reserved_used := e\<rparr>) ls'"
    using rl0 ls(2-4) act unfolding region_log_ok_def
    by (auto simp: split dest: in_set_takeD)
  have sl: "shard_log_ok digest g a k rid (d\<lparr>reserved_used := e\<rparr>) (submit_span span sh) st' (Some (job, g)) ls'"
    by (rule shard_log_okI [where jl = fl and fl = "[]"])
      (use idle j job ls(1) in \<open>simp_all add: submit_span_def job_log_ok_def open_log_ok_def\<close>)
  have rep: "shard_replacements st (w_jobs w k) \<subseteq> shard_replacements st' (Some (job, g))"
    using f(2) j(4,10) idle(4) by (simp add: shard_replacements_def)
  have "store_inv digest g (logs(rid := ls')) (w\<lparr>w_store := s\<lparr>rs_manager := m', rt_staging := update_staging k (\<lambda>_. st') a\<rparr>,
        w_jobs := (w_jobs w)(k := Some (job, g)), w_puts := w_puts w\<rparr>)"
    by (rule inv_shard_update [where k = k, OF inv, folded s_def, folded m_def a_def, folded rid_def, folded d_def,
          OF k m'(1) regs _ _ rl _ sl]) (use ls(2) rep D(7) in \<open>simp_all add: st_def\<close>)
  then have "store_inv digest g (logs(rid := ls')) (w\<lparr>w_store := s\<lparr>rs_manager := m', rt_staging := update_staging k (\<lambda>_. st') a\<rparr>,
        w_jobs := (w_jobs w)(k := Some (job, g))\<rparr>)" by simp
  then show ?thesis by (rule that [OF j(1) [unfolded same] j(2) _ j(4,10)])
qed

section \<open>Beginning a flush\<close>

lemma update_region_same: "update_region rid (\<lambda>d. d\<lparr>reserved_used := reserved_used (regions m ! rid)\<rparr>) m = m"
  by (simp add: update_region_def)

lemma pad_log:
  assumes known: "\<forall>l \<in> set (fl0 @ [l]). known_record digest puts gen l" and n: "n mod 32 = 0" "lr_len l + n \<le> 2 ^ 25"
  shows "\<forall>l \<in> set (fl0 @ [pad_record n l]). known_record digest puts gen l"
proof -
  have "log_record_ok gen l" using known by (simp add: known_record_def)
  note p = pad_record_ok [OF this n]
  have "known_record digest puts gen (pad_record n l)" using known by (simp add: known_record_def p)
  then show ?thesis using known by simp
qed

lemma store_updates_swap: "s\<lparr>rt_staging := a, rs_manager := m\<rparr> = s\<lparr>rs_manager := m, rt_staging := a\<rparr>"
  for s :: region_runtime
  by (cases s) simp

text \<open>
  With a write in flight a flush is turned away. Without staged records it makes the store miss-only, so
  callers look at the fill snapshot first. Otherwise the fill chunk becomes the write job.
\<close>

lemma flush_begin_inv:
  fixes w k
  defines "s \<equiv> w_store w"
  defines "m \<equiv> rs_manager s"
  defines "rid \<equiv> active_regions m ! k"
  assumes inv: "store_inv digest g logs w" and k: "k < length (active_regions m)"
  shows "w_jobs w k \<noteq> None \<Longrightarrow> flush_begin digest k s = Some (Inr None, s)"
    and "w_jobs w k = None \<Longrightarrow> open_span (append_states m ! k) \<noteq> None \<Longrightarrow>
      \<exists>job s' ls'. flush_begin digest k s = Some (Inr (Some (job, g)), s') \<and> rs_index s' = rs_index s
        \<and> store_inv digest g (logs(rid := ls')) (w\<lparr>w_store := s', w_jobs := (w_jobs w)(k := Some (job, g))\<rparr>)
        \<and> map log_content ls' = map log_content (logs rid)
        \<and> map publication (vec_items (sw_records job)) = staged_tail s k \<and> staged_tail s' k = []
        \<and> active_regions (rs_manager s') = active_regions m"
proof -
  define a where "a = rt_staging s"
  define d where "d = regions m ! rid"
  define sh where "sh = append_states m ! k"
  define st where "st = as_shards a ! k"
  note D = store_invD [OF inv, folded s_def, folded m_def a_def]
  note F = frameD [OF D(1), folded m_def a_def] and L = frame_locks [OF D(1), folded m_def]
  have k': "k < length (append_states m)" "k < length (as_shards a)" using k F(11,15) by simp_all
  note al = active_lookup [OF F(4) k, folded rid_def]
  obtain jl fl where c: "drop (d_physical_record_count d) (logs rid) = jl @ fl"
    "job_log_ok digest g a k rid (submitted_span sh) st (w_jobs w k) jl"
    "fill_holds digest (as_chunk_bytes a) rid fl (fill st)" "open_log_ok (open_span sh) (fill st) fl" "shard_open st"
    "tail sh = None" "pending_padding sh = None" "rotation sh = None"
    "\<forall>l \<in> set (logs rid). log_record_ok (d_created_seqno d) l"
    "fl \<noteq> [] \<longrightarrow> fc_end_offset (fill st) = reserved_used d" "fl \<noteq> [] \<longrightarrow> fc_start_offset (fill st) mod 4096 = 0"
    "fc_max_seqno (fill st) < next_seqno m" "rid < 2 ^ 20" "d_created_seqno d \<noteq> 0" "d_created_seqno d < next_seqno m"
    "reserved_used d mod 32 = 0" "reserved_used d \<le> rm_region_size m"
    "fl \<noteq> [] \<longrightarrow> fc_start_offset (fill st) = submitted_end d sh" "fl = [] \<longrightarrow> submitted_end d sh = reserved_used d" "d_state d = Active"
    by (rule shard_cursor [OF inv k [unfolded m_def s_def], folded s_def, folded m_def a_def, folded rid_def, folded d_def sh_def st_def])
  have rl: "region_log_ok digest g (w_device w) (w_puts w) rid d (logs rid)" using D(3) [OF al(1)] by (simp add: d_def)
  have cnt: "d_physical_record_count d \<le> length (logs rid)" by (rule region_logD(2) [OF rl])
  have known: "\<forall>l \<in> set fl. known_record digest (w_puts w) (d_created_seqno d) l"
    using region_logD(5) [OF rl] c(1) in_set_dropD [of _ "d_physical_record_count d" "logs rid"] by auto
  note run = flush_begin_def pbind_def L(2) L(5) [OF k] with_manager_def m_def [symmetric]
  show "flush_begin digest k s = Some (Inr None, s)" if job: "w_jobs w k \<noteq> None"
  proof -
    have "submitted_span sh \<noteq> None" using c(2) job by (auto simp: job_log_ok_def)
    then have "reserve_write_padding k m = (Inl WouldBlock, m)"
      using k'(1) by (simp add: reserve_write_padding_def get_at_def sh_def)
    moreover have "s\<lparr>rs_manager := m\<rparr> = s" by (simp add: m_def)
    ultimately show ?thesis by (simp add: run)
  qed
  show "\<exists>job s' ls'. flush_begin digest k s = Some (Inr (Some (job, g)), s') \<and> rs_index s' = rs_index s
      \<and> store_inv digest g (logs(rid := ls')) (w\<lparr>w_store := s', w_jobs := (w_jobs w)(k := Some (job, g))\<rparr>)
      \<and> map log_content ls' = map log_content (logs rid)
      \<and> map publication (vec_items (sw_records job)) = staged_tail s k \<and> staged_tail s' k = []
      \<and> active_regions (rs_manager s') = active_regions m"
    if job: "w_jobs w k = None" and op: "open_span (append_states m ! k) \<noteq> None"
  proof -
    obtain sp where sp: "open_span sh = Some sp" using op by (auto simp: sh_def)
    have jl: "jl = []" "submitted_span sh = None" "submitted st = None" "spare_ready (as_chunk_bytes a) st"
      using c(2) by (auto simp: job_log_ok_def job)
    have o: "fl \<noteq> []" "os_record_count sp = length fl" "os_start_offset sp = fc_start_offset (fill st)"
      "os_end_offset sp = fc_end_offset (fill st)" "os_max_seqno sp = fc_max_seqno (fill st)"
      using c(4) by (simp_all add: open_log_ok_def sp)
    have quiet: "tail (append_states m ! k) = None" "pending_padding (append_states m ! k) = None"
      "submitted_span (append_states m ! k) = None" "rotation (append_states m ! k) = None" "open_span (append_states m ! k) = Some sp"
      using c(6-8) jl sp by (simp_all add: sh_def)
    note rp = reserve_write_padding_ok [OF F(4) k'(1) quiet, folded rid_def]
    have fe: "fc_end_offset (fill st) = fc_start_offset (fill st) + log_len fl" using c(3) by (simp add: fill_holds_def)
    note handed = sealed_inv [where k = k and w = w, OF inv, folded s_def, folded m_def a_def, folded rid_def, folded d_def sh_def st_def,
        OF k c(5) jl(3,4) job c(6,8)]
    have handed_tail: "map publication (vec_items (sw_records job)) = staged_tail s k
        \<and> staged_tail (s\<lparr>rs_manager := m', rt_staging := update_staging k (\<lambda>_. st') a\<rparr>) k = []"
      if "vec_items (sw_records job) = vec_items (fc_records f)"
        "map publication (vec_items (fc_records f)) = map publication (vec_items (fc_records (fill (as_shards a ! k))))"
        "vec_items (fc_records (fill st')) = []" for job f st' m'
      using that k'(2) by (simp add: staged_tail_def a_def)
    have geo: "geometry_for (s\<lparr>rs_manager := m', rt_staging := a'\<rparr>) = Some (Inr g, s\<lparr>rs_manager := m', rt_staging := a'\<rparr>)"
      if "m' = update_shard k (submit_span span) (update_region rid fd m)" for m' a' span fd
      by (rule geometry_for_eq) (use F(8-10) in \<open>simp_all add: that update_shard_def update_region_def\<close>)
    show ?thesis
    proof (cases "align_padding (os_end_offset sp) = 0")
      case True
      define span where "span = span_of k sp (os_end_offset sp)"
      define m' where "m' = update_shard k (submit_span span) m"
      note seal = seal_plain [OF F(4) k'(1) quiet True, folded span_def, folded m'_def]
      have m'': "m' = update_shard k (submit_span span) (update_region rid (\<lambda>d. d\<lparr>reserved_used := reserved_used (regions m ! rid)\<rparr>) m)"
        by (simp add: m'_def update_region_same)
      have cov: "span_covers span k rid (fc_start_offset (fill st)) fl (fc_max_seqno (fill st))" "ws_end_offset span \<le> rm_region_size m"
        using o rp(2,4) True fe by (simp_all add: span_covers_def span_def span_of_def)
      obtain job st' where j: "take_sealed span (update_staging k (\<lambda>st. st\<lparr>fill := fill (as_shards a ! k)\<rparr>) a) = (Inr (Some job), update_staging k (\<lambda>_. st') a)"
        "store_inv digest g (logs(rid := logs rid)) (w\<lparr>w_store := s\<lparr>rs_manager := m', rt_staging := update_staging k (\<lambda>_. st') a\<rparr>,
          w_jobs := (w_jobs w)(k := Some (job, g))\<rparr>)"
        "vec_items (sw_records job) = vec_items (fc_records (fill (as_shards a ! k)))" "vec_items (fc_records (fill st')) = []"
        by (rule handed [OF seal(3) m'' c(3) refl _ refl known cnt cov]) (use c(1) jl(1) in \<open>simp_all add: st_def\<close>)
      have sa: "update_staging k (\<lambda>st. st\<lparr>fill := fill (as_shards a ! k)\<rparr>) a = a" by (simp add: update_staging_def)
      have s1: "geometry_for (s\<lparr>rs_manager := m'\<rparr>) = Some (Inr g, s\<lparr>rs_manager := m'\<rparr>)" using geo [OF m'', of a] by (simp add: a_def)
      have "flush_begin digest k s = Some (Inr (Some (job, g)), s\<lparr>rs_manager := m', rt_staging := update_staging k (\<lambda>_. st') a\<rparr>)"
        using seal(1,2) j(1) unfolding sa
        by (simp add: run seal_aligned_def with_staging_def a_def [symmetric] s1)
      moreover have "active_regions m' = active_regions m" by (simp add: m'_def update_shard_def)
      ultimately show ?thesis using j(2) handed_tail [OF j(3) refl j(4)] by (intro exI conjI) (assumption | simp)+
    next
      case False
      define n where "n = align_padding (os_end_offset sp)"
      define e where "e = os_end_offset sp + n"
      define span where "span = span_of k sp e"
      define p where "p = padding_of k sp"
      obtain m1 where seal: "reserve_write_padding k m = (Inr (Some p), m1)"
        "seal_write_span_with_padding p m1 = (Inr span, update_shard k (submit_span span) m1)"
        "manager_wf (update_shard k (submit_span span) m1)"
        "update_shard k (submit_span span) m1 = update_shard k (submit_span span) (update_region rid (\<lambda>d. d\<lparr>reserved_used := e\<rparr>) m)"
        unfolding p_def span_def e_def n_def rid_def by (rule seal_padded [OF F(4) k'(1) quiet False])
      define m' where "m' = update_shard k (submit_span span) m1"
      obtain fl0 l where fl: "fl = fl0 @ [l]" using o(1) by (metis rev_exhaust)
      have pf: "rp_shard_id p = k" "rp_region_id p = rid" "rp_span_start_offset p = fc_start_offset (fill st)"
        "rp_unpadded_end_offset p = fc_end_offset (fill st)" "rp_padded_end_offset p = e" "rp_record_count p = length fl"
        "rp_max_seqno p = fc_max_seqno (fill st)" "rp_padded_end_offset p - rp_unpadded_end_offset p = n"
        using o rp(2) by (simp_all add: p_def padding_of_def e_def n_def)
      have en: "e mod 4096 = 0" "fc_end_offset (fill st) < e" "n < 4096" "e \<le> rm_region_size m"
        using align_padding_sum align_padding_less False o(4) rp(4) by (simp_all add: e_def n_def)
      have gen: "\<forall>l \<in> set fl0. log_record_ok (d_created_seqno d) l" "log_record_ok (d_created_seqno d) l"
        using known by (simp_all add: fl known_record_def)
      note pads = apply_write_padding_pads [of p a digest fl0 l "d_created_seqno d", unfolded pf(1,2) pf(8), folded st_def,
          OF k'(2) c(5) jl(3) c(3) [unfolded fl] gen pf(3,4) pf(6) [unfolded fl] pf(7), unfolded pf(4,5), OF en(1-3) c(13)]
      obtain f' where f': "apply_write_padding digest p a = Some (Inr (), update_staging k (\<lambda>st. st\<lparr>fill := f'\<rparr>) a)"
        "fill_holds digest (as_chunk_bytes a) rid (fl0 @ [pad_record n l]) f'"
        "vec_items (fc_records f') = pad_staged rid (fc_start_offset (fill st) + log_len fl0) (pad_record n l) (vec_items (fc_records (fill st)))"
        "fc_start_offset f' = fc_start_offset (fill st)" "fc_end_offset f' = e" "fc_max_seqno f' = fc_max_seqno (fill st)"
        "n mod 32 = 0" "lr_len l + n \<le> 2 ^ 25"
        by (rule pads) (use c(11) o(1) en(4) F in simp_all)
      define ls' where "ls' = take (d_physical_record_count d) (logs rid) @ fl0 @ [pad_record n l]"
      have ls: "drop (d_physical_record_count d) ls' = fl0 @ [pad_record n l]"
        "take (d_physical_record_count d) ls' = take (d_physical_record_count d) (logs rid)" "d_physical_record_count d \<le> length ls'"
        using cnt by (simp_all add: ls'_def)
      have rep: "replacements (vec_items (fc_records f')) = replacements (vec_items (fc_records (fill st)))"
        unfolding f'(3) using fill_holds_empty [OF c(3)] o(1) by (intro replacements_pad) (simp add: fill_is_empty_def)
      have cov: "span_covers span k rid (fc_start_offset f') (fl0 @ [pad_record n l]) (fc_max_seqno f')" "ws_end_offset span \<le> rm_region_size m"
        using o rp(2) en(4) f' fl by (simp_all add: span_covers_def span_def span_of_def fill_holds_def)
      obtain job st' where j: "take_sealed span (update_staging k (\<lambda>st. st\<lparr>fill := f'\<rparr>) a) = (Inr (Some job), update_staging k (\<lambda>_. st') a)"
        "store_inv digest g (logs(rid := ls')) (w\<lparr>w_store := s\<lparr>rs_manager := m', rt_staging := update_staging k (\<lambda>_. st') a\<rparr>,
          w_jobs := (w_jobs w)(k := Some (job, g))\<rparr>)"
        "vec_items (sw_records job) = vec_items (fc_records f')" "vec_items (fc_records (fill st')) = []"
        by (rule handed [OF seal(3) [folded m'_def] seal(4) [folded m'_def] f'(2) rep ls(1,2) _ ls(3) cov])
          (use pad_log [OF known [unfolded fl] f'(7,8)] in simp_all)
      have lock: "manager_lock (s\<lparr>rs_manager := x, rt_staging := y\<rparr>) = Some (Inr (), s\<lparr>rs_manager := x, rt_staging := y\<rparr>)" for x y
        by (rule healthy_locks) (use F(1,2) in simp_all)
      have "flush_begin digest k s = Some (Inr (Some (job, g)), s\<lparr>rs_manager := m', rt_staging := update_staging k (\<lambda>_. st') a\<rparr>)"
        using seal(1,2) f'(1) j(1)
        by (simp add: run pad_and_seal_def with_staging_partial_def with_staging_def a_def [symmetric] store_updates_swap lock m'_def [symmetric]
            geo [OF seal(4) [folded m'_def]])
      moreover have "map publication (vec_items (fc_records f')) = map publication (vec_items (fc_records (fill (as_shards a ! k))))"
        unfolding f'(3) st_def using fill_holds_empty [OF c(3)] o(1) by (intro publications_pad) (simp add: fill_is_empty_def st_def)
      note handed_tail [OF j(3) this j(4)]
      moreover have "active_regions m' = active_regions m" unfolding m'_def seal(4) by (simp add: update_shard_def update_region_def)
      moreover have "map log_content ls' = map log_content (logs rid)"
        using arg_cong [OF append_take_drop_id [of "d_physical_record_count d" "logs rid"], of "map log_content"] pad_record_ok [OF gen(2) f'(7,8)]
        unfolding ls'_def c(1) jl(1) fl by (simp add: log_content_def)
      ultimately show ?thesis using j(2) by (intro exI conjI) (assumption | simp)+
    qed
  qed
qed

section \<open>The write on the device\<close>

text \<open>The data file after a write job has reached it.\<close>

definition written :: "bytes \<Rightarrow> staged_write \<Rightarrow> bytes" where
  "written dev job = overwrite dev (sw_absolute job) (take (ib_length (sw_buffer job)) (ib_lease (sw_buffer job)))"

lemma write_own_region:
  assumes "region_holds digest g dev rid ls" "\<forall>l \<in> set ls. log_record_ok gen l" "length bs = log_len jl" "bs = log_bytes digest jl"
    "DATA_REGION_AREA_OFFSET + rid * dg_region_size g + log_len ls + log_len jl \<le> length dev"
  shows "region_holds digest g (overwrite dev (DATA_REGION_AREA_OFFSET + rid * dg_region_size g + log_len ls) bs) rid (ls @ jl)"
proof -
  let ?base = "DATA_REGION_AREA_OFFSET + rid * dg_region_size g"
  have "drop ?base (overwrite dev (?base + log_len ls) bs) = take (log_len ls) (drop ?base dev) @ bs @ drop (?base + log_len ls + length bs) dev"
    using assms(5) by (simp add: overwrite_def drop_take)
  then show ?thesis
    using assms length_log_bytes [OF assms(2), of digest] by (simp add: region_holds_def)
qed

lemma write_other_region:
  assumes "region_holds digest g dev r ls" "r \<noteq> rid" "log_len ls \<le> dg_region_size g" "start + length bs \<le> dg_region_size g"
    "DATA_REGION_AREA_OFFSET + rid * dg_region_size g + start + length bs \<le> length dev"
  shows "region_holds digest g (overwrite dev (DATA_REGION_AREA_OFFSET + rid * dg_region_size g + start) bs) r ls"
proof -
  let ?b = "\<lambda>r. DATA_REGION_AREA_OFFSET + r * dg_region_size g"
  have "(r + 1) * dg_region_size g \<le> rid * dg_region_size g \<or> (rid + 1) * dg_region_size g \<le> r * dg_region_size g"
    using assms(2) by (metis Suc_eq_plus1 Suc_leI linorder_neqE_nat mult_le_mono1)
  then have "?b r + log_len ls \<le> ?b rid + start \<or> ?b rid + start + length bs \<le> ?b r"
    using assms(3,4) by (simp add: add_mult_distrib) linarith
  then have "take (log_len ls) (drop (?b r) (overwrite dev (?b rid + start) bs)) = take (log_len ls) (drop (?b r) dev)"
  proof
    assume a: "?b r + log_len ls \<le> ?b rid + start"
    have "take (log_len ls) (drop (?b r) (overwrite dev (?b rid + start) bs)) = drop (?b r) (take (?b r + log_len ls) (overwrite dev (?b rid + start) bs))"
      by (simp add: drop_take)
    also have "take (?b r + log_len ls) (overwrite dev (?b rid + start) bs) = take (?b r + log_len ls) dev"
      using a assms(5) by (simp add: overwrite_def min_absorb1)
    finally show ?thesis by (simp add: drop_take)
  next
    assume "?b rid + start + length bs \<le> ?b r"
    then have "drop (?b r) (overwrite dev (?b rid + start) bs) = drop (?b r) dev"
      using assms(5) by (simp add: overwrite_def add.commute)
    then show ?thesis by simp
  qed
  then show ?thesis using assms(1) by (simp add: region_holds_def)
qed

section \<open>Publishing the completed records\<close>

text \<open>A staged record whose entry designates a completed record of the log under its hash.\<close>

definition publishes :: "region_desc list \<Rightarrow> region_logs \<Rightarrow> nat \<Rightarrow> staged_record \<Rightarrow> bool" where
  "publishes ds logs rid r \<longleftrightarrow>
     (\<exists>i < d_physical_record_count (ds ! rid). quantize_entry (stg_entry r) = log_entry rid (logs rid) i
        \<and> stg_hash r = lr_hash (logs rid ! i) \<and> unat (region_id (location (quantize_entry (stg_entry r)))) = rid)"

lemma index_log_put:
  assumes "index_log_ok x ds logs" "publishes ds logs rid r" "rid < length ds" "index_shape x' = index_shape x"
    "\<And>t e. index_map x' t = Some e \<Longrightarrow> index_map x t = Some e \<or> t = token (index_shape x) (stg_hash r) \<and> e = quantize_entry (stg_entry r)"
  shows "index_log_ok x' ds logs"
  unfolding index_log_ok_def assms(4)
proof (intro allI impI)
  fix t e assume "index_map x' t = Some e"
  from assms(5) [OF this] show "\<exists>rid<length ds. \<exists>i<d_physical_record_count (ds ! rid).
      e = log_entry rid (logs rid) i \<and> t = token (index_shape x) (lr_hash (logs rid ! i))"
  proof
    assume "index_map x t = Some e"
    with assms(1) show ?thesis unfolding index_log_ok_def by blast
  next
    assume "t = token (index_shape x) (stg_hash r) \<and> e = quantize_entry (stg_entry r)"
    with assms(2,3) show ?thesis unfolding publishes_def by metis
  qed
qed

lemma index_log_drop:
  assumes "index_log_ok x ds logs" "index_shape x' = index_shape x" "index_map x' \<subseteq>\<^sub>m index_map x"
  shows "index_log_ok x' ds logs"
  using assms unfolding index_log_ok_def map_le_def by (metis domI)

lemma publish_one:
  assumes ok: "index_ok digest x" and log: "index_log_ok x ds logs" and r: "publishes ds logs rid r" "rid < length ds"
    and cov: "\<And>q. q \<in> Q \<Longrightarrow> q \<noteq> rid \<and> covered x (P \<union> replacements (r # rs)) q"
  shows "\<exists>b x'. (case staged_previous_location r of Some previous \<Rightarrow> replace_if_match digest (stg_hash r) previous (stg_entry r)
       | None \<Rightarrow> upsert digest (stg_hash r) (stg_entry r)) x = Some (Inr b, x')
    \<and> index_ok digest x' \<and> index_shape x' = index_shape x \<and> index_log_ok x' ds logs
    \<and> (\<forall>q \<in> Q. q \<noteq> rid \<and> covered x' (P \<union> replacements rs) q)"
proof -
  let ?t = "token (index_shape x) (stg_hash r)" and ?e = "quantize_entry (stg_entry r)"
  have reg: "unat (region_id (location ?e)) = rid" using r(1) by (auto simp: publishes_def)
  show ?thesis
  proof (cases "staged_previous_location r")
    case None
    then have rep: "replacements (r # rs) = replacements rs" by (auto simp: replacements_def)
    show ?thesis
    proof (rule upsert_map [OF ok, of "stg_hash r" "stg_entry r"])
      fix x' victim
      assume u: "upsert digest (stg_hash r) (stg_entry r) x = Some (Inr True, x')" "index_ok digest x'" "index_shape x' = index_shape x"
        "index_map x' = (drop_key victim (index_map x))(?t \<mapsto> ?e)"
      have sub: "index_map x t = Some e \<or> t = ?t \<and> e = ?e" if "index_map x' t = Some e" for t e
        using that drop_key_le [of victim "index_map x"] unfolding u(4) map_le_def by (metis domI fun_upd_apply option.inject)
      have "covered x' (P \<union> replacements rs) q" if "q \<in> Q" for q
        unfolding covered_def u(3)
      proof (intro allI impI)
        fix t e assume e: "index_map x' t = Some e" "unat (region_id (location e)) = q"
        then have "index_map x t = Some e" using sub [OF e(1)] reg cov [OF that] by auto
        with cov [OF that] e(2) show "\<exists>(h, p) \<in> P \<union> replacements rs. index_equivalent (location e) p \<and> token (index_shape x) h = t"
          unfolding covered_def rep by blast
      qed
      then show ?thesis using u index_log_put [OF log r u(3) sub] cov None by auto
    qed
  next
    case (Some previous)
    then have rep: "replacements (r # rs) = insert (stg_hash r, previous) (replacements rs)" by (auto simp: replacements_def)
    obtain b x' where u: "replace_if_match digest (stg_hash r) previous (stg_entry r) x = Some (Inr b, x')"
      "b = (\<exists>e. index_map x ?t = Some e \<and> index_equivalent (location e) previous)" "index_ok digest x'" "index_shape x' = index_shape x"
      "index_map x' = (if b then (index_map x)(?t \<mapsto> ?e) else index_map x)"
      using replace_if_match_map [OF ok, of "stg_hash r" previous "stg_entry r"] by blast
    have sub: "index_map x t = Some e \<or> t = ?t \<and> e = ?e" if "index_map x' t = Some e" for t e
      using that by (auto simp: u(5) split: if_splits)
    have "covered x' (P \<union> replacements rs) q" if q: "q \<in> Q" for q
      unfolding covered_def u(4)
    proof (intro allI impI)
      fix t e assume e: "index_map x' t = Some e" "unat (region_id (location e)) = q"
      then have old: "index_map x t = Some e" "\<not> (b \<and> t = ?t)" using sub [OF e(1)] reg cov [OF q] by (auto simp: u(5) split: if_splits)
      with cov [OF q] e(2) obtain h p where p: "(h, p) \<in> P \<union> replacements (r # rs)" "index_equivalent (location e) p" "token (index_shape x) h = t"
        unfolding covered_def by blast
      have "(h, p) \<noteq> (stg_hash r, previous)" using p(2,3) old by (auto simp: u(2))
      with p show "\<exists>(h, p) \<in> P \<union> replacements rs. index_equivalent (location e) p \<and> token (index_shape x) h = t"
        unfolding rep by blast
    qed
    then show ?thesis using u(1,3,4) index_log_put [OF log r u(4) sub] cov Some by simp
  qed
qed

lemma publish_all:
  assumes "index_ok digest (rs_index s)" "index_log_ok (rs_index s) ds logs" "rid < length ds" "\<forall>r \<in> set rs. publishes ds logs rid r"
    and "\<forall>q \<in> Q. q \<noteq> rid \<and> covered (rs_index s) (P \<union> replacements rs) q"
  shows "\<exists>x'. publish_completed_records digest rs s = Some (Inr (), s\<lparr>rs_index := x'\<rparr>)
    \<and> index_ok digest x' \<and> index_shape x' = index_shape (rs_index s) \<and> index_log_ok x' ds logs \<and> (\<forall>q \<in> Q. covered x' P q)"
  using assms
proof (induction rs arbitrary: s)
  case Nil
  then show ?case by (intro exI [of _ "rs_index s"]) (simp add: replacements_def)
next
  case (Cons r rs)
  obtain b x' where one: "(case staged_previous_location r of Some previous \<Rightarrow> replace_if_match digest (stg_hash r) previous (stg_entry r)
       | None \<Rightarrow> upsert digest (stg_hash r) (stg_entry r)) (rs_index s) = Some (Inr b, x')"
    "index_ok digest x'" "index_shape x' = index_shape (rs_index s)" "index_log_ok x' ds logs"
    "\<forall>q \<in> Q. q \<noteq> rid \<and> covered x' (P \<union> replacements rs) q"
    using publish_one [OF Cons.prems(1,2) _ Cons.prems(3), of r Q P rs] Cons.prems(4,5) by auto
  have run: "publish_completed_records digest (r # rs) s = publish_completed_records digest rs (s\<lparr>rs_index := x'\<rparr>)"
    using one(1) by (simp add: pbind_def with_index_def)
  from Cons.IH [of "s\<lparr>rs_index := x'\<rparr>"] one Cons.prems obtain x'' where
    "publish_completed_records digest rs (s\<lparr>rs_index := x'\<rparr>) = Some (Inr (), s\<lparr>rs_index := x'\<rparr>\<lparr>rs_index := x''\<rparr>)"
    "index_ok digest x''" "index_shape x'' = index_shape x'" "index_log_ok x'' ds logs" "\<forall>q \<in> Q. covered x'' P q"
    by auto
  then show ?case unfolding run using one(3) by (intro exI [of _ x'']) simp
qed

lemma publish_append:
  "publish_completed_records digest (xs @ ys) s = pbind (publish_completed_records digest xs) (\<lambda>_. publish_completed_records digest ys) s"
  by (induction xs arbitrary: s) (auto simp: pbind_def split: option.splits sum.splits)

text \<open>The last publication stands: a put is found under its hash.\<close>

lemma publish_last:
  assumes "index_ok digest (rs_index s)" "index_log_ok (rs_index s) ds logs" "rid < length ds" "\<forall>r \<in> set (rs @ [r]). publishes ds logs rid r"
    and r: "staged_previous_location r = None"
    and run: "publish_completed_records digest (rs @ [r]) s = Some (res, s')"
  shows "index_map (rs_index s') (token (index_shape (rs_index s)) (stg_hash r)) = Some (quantize_entry (stg_entry r))"
proof -
  obtain x where x: "publish_completed_records digest rs s = Some (Inr (), s\<lparr>rs_index := x\<rparr>)" "index_ok digest x"
    "index_shape x = index_shape (rs_index s)"
    using publish_all [OF assms(1-3), of rs "{}" "{}"] assms(4) by auto
  show ?thesis
  proof (rule upsert_map [OF x(2), of "stg_hash r" "stg_entry r"])
    fix x' victim
    assume u: "upsert digest (stg_hash r) (stg_entry r) x = Some (Inr True, x')"
      "index_map x' = (drop_key victim (index_map x))(token (index_shape x) (stg_hash r) \<mapsto> quantize_entry (stg_entry r))"
    have "publish_completed_records digest (rs @ [r]) s = Some (Inr (), s\<lparr>rs_index := x'\<rparr>)"
      using x(1) u(1) r by (simp add: publish_append pbind_def with_index_def)
    then have "s' = s\<lparr>rs_index := x'\<rparr>" using run by simp
    then show ?thesis using u(2) x(3) by simp
  qed
qed

section \<open>Completing a flush\<close>

text \<open>The submission checks of a write job pass.\<close>

lemma job_checks:
  assumes g: "geometry_is_valid g" "dg_region_size g = as_region_size a" "rid < dg_region_count g" "as_chunk_bytes a \<le> 2 ^ 25"
    and job: "job_holds digest a k rid jl j" and gen: "\<forall>l \<in> set jl. log_record_ok gen l"
    and span: "ws_start_offset (sw_span j) mod 4096 = 0" "ws_end_offset (sw_span j) mod 4096 = 0"
      "ws_start_offset (sw_span j) < ws_end_offset (sw_span j)" "ws_end_offset (sw_span j) \<le> as_region_size a"
  shows "submit_write_checks g (sw_span j) (sw_buffer j) (sw_absolute j) = Inr (log_len jl)"
    "sw_absolute j + log_len jl \<le> dg_data_file_len g"
proof -
  obtain start high where j: "span_covers (sw_span j) k rid start jl high" "ib_length (sw_buffer j) = log_len jl"
    "sw_absolute j = DATA_REGION_AREA_OFFSET + rid * as_region_size a + start" "log_len jl \<le> as_chunk_bytes a"
    using job by (auto simp: job_holds_def chunk_holds_def)
  then have w: "ws_start_offset (sw_span j) = start" "ws_end_offset (sw_span j) = start + log_len jl" "ws_region_id (sw_span j) = rid"
    "ws_record_count (sw_span j) = length jl" "jl \<noteq> []" by (auto simp: span_covers_def)
  note b = geometry_extent [OF g(1,3)]
  have area: "DATA_REGION_AREA_OFFSET = 4096" by (simp add: DATA_REGION_AREA_OFFSET_def RECOVERY_PAGE_SIZE_def)
  have fits: "4096 + rid * dg_region_size g + start + log_len jl \<le> dg_data_file_len g" using b(1) span(4) w(2) g(2) by linarith
  then show "sw_absolute j + log_len jl \<le> dg_data_file_len g" using j(3) g(2) area by simp
  have m1: "log_len jl mod 4096 = 0" using span(1,2) mod_add_left_eq [of start 4096 "log_len jl"] unfolding w by simp
  have m2: "(4096 + rid * dg_region_size g + start) mod 4096 = 0"
    unfolding dvd_eq_mod_eq_0 [symmetric]
    by (intro dvd_add dvd_mult) (use span(1) b(4) in \<open>simp_all add: w dvd_eq_mod_eq_0\<close>)
  note m = m1 m2
  have big: "2 ^ 46 \<le> u64_max" "2 ^ 25 \<le> usize_max" by (simp_all add: num_bounds)
  have arith: "checked_sub (start + log_len jl) start \<bind> try_from usize_max = Some (log_len jl)"
    "checked_mul u64_max rid (dg_region_size g) = Some (rid * dg_region_size g)"
    "checked_add u64_max (rid * dg_region_size g) 4096 = Some (rid * dg_region_size g + 4096)"
    "checked_add u64_max (rid * dg_region_size g + 4096) start = Some (4096 + rid * dg_region_size g + start)"
    "checked_add u64_max (4096 + rid * dg_region_size g + start) (log_len jl) = Some (4096 + rid * dg_region_size g + start + log_len jl)"
    using fits b(2) big j(4) g(4) by (simp_all add: checked_sub_def try_from_def checked_mul_def checked_add_def)
  have "validate_span g (sw_span j) = Inr (log_len jl, 4096 + rid * dg_region_size g + start)"
    using g span m fits arith w(5)
    by (simp add: validate_span_def w DIRECT_IO_ALIGNMENT_def area
        del: checked_add_eq_Some checked_mul_eq_Some bind_result_eq_Inr bind_eq_Some_conv)
  then show "submit_write_checks g (sw_span j) (sw_buffer j) (sw_absolute j) = Inr (log_len jl)"
    using j(2,3) m(1) g(2) by (simp add: submit_write_checks_def DIRECT_IO_ALIGNMENT_def area)
qed

lemma job_facts:
  fixes w k
  defines "s \<equiv> w_store w"
  defines "m \<equiv> rs_manager s" and "a \<equiv> rt_staging s"
  defines "rid \<equiv> active_regions m ! k"
  defines "d \<equiv> regions m ! rid" and "sh \<equiv> append_states m ! k" and "st \<equiv> as_shards a ! k"
  assumes inv: "store_inv digest g logs w" and k: "k < length (active_regions m)" and job: "w_jobs w k = Some (j, g')"
  obtains jl fl where "g' = g" "drop (d_physical_record_count d) (logs rid) = jl @ fl" "job_holds digest a k rid jl j"
    "fill_holds digest (as_chunk_bytes a) rid fl (fill st)" "open_log_ok (open_span sh) (fill st) fl" "shard_open st"
    "submitted st = Some (sw_span j)" "spare_buffer st = None" "spare_records st = None" "submitted_span sh = Some (sw_span j)"
    "tail sh = None" "pending_padding sh = None" "rotation sh = None"
    "span_covers (sw_span j) k rid (completed_used d) jl (ws_max_seqno (sw_span j))"
    "sw_absolute j = DATA_REGION_AREA_OFFSET + rid * dg_region_size g + completed_used d"
    "take (ib_length (sw_buffer j)) (ib_lease (sw_buffer j)) = log_bytes digest jl"
    "submit_write_checks g (sw_span j) (sw_buffer j) (sw_absolute j) = Inr (log_len jl)"
    "sw_absolute j + log_len jl \<le> length (w_device w)" "completed_used d + log_len jl \<le> dg_region_size g"
    "staged_as rid (completed_used d) jl (vec_items (sw_records j))"
    "\<forall>l \<in> set jl. log_record_ok (d_created_seqno d) l"
proof -
  note D = store_invD [OF inv, folded s_def, folded m_def a_def]
  note F = frameD [OF D(1), folded m_def a_def]
  note al = active_lookup [OF F(4) k, folded rid_def]
  obtain jl fl where c: "drop (d_physical_record_count d) (logs rid) = jl @ fl"
    "job_log_ok digest g a k rid (submitted_span sh) st (w_jobs w k) jl"
    "fill_holds digest (as_chunk_bytes a) rid fl (fill st)" "open_log_ok (open_span sh) (fill st) fl" "shard_open st"
    "tail sh = None" "pending_padding sh = None" "rotation sh = None"
    using D(4) [OF k] unfolding shard_log_ok_def d_def sh_def st_def rid_def by blast
  have jj: "g' = g" "submitted_span sh = Some (sw_span j)" "submitted st = Some (sw_span j)" "spare_buffer st = None" "spare_records st = None"
    "job_holds digest a k rid jl j" using c(2) by (simp_all add: job_log_ok_def job)
  have so: "shard_ok (next_seqno m) k rid d sh" using shard_lookup(2) [OF F(4) k] by (simp add: rid_def d_def sh_def)
  have sub: "submitted_ok (next_seqno m) k rid d (sw_span j)" using so jj(2) by (simp add: shard_ok_def)
  have com: "completed_used d mod 4096 = 0" using so by (simp add: shard_ok_def DIRECT_IO_ALIGNMENT_def)
  have "ws_end_offset (sw_span j) \<le> open_end d sh"
    using so jj(2) by (auto simp: shard_ok_def open_end_def submitted_end_def open_ok_def split: option.splits)
  moreover have "open_end d sh \<le> reserved_used d" by (rule shard_open_end [OF so])
  moreover have "reserved_used d \<le> rm_region_size m" using shard_lookup(3) [OF F(4) al(1)] by (simp add: d_def desc_ok_def)
  ultimately have e: "ws_end_offset (sw_span j) \<le> as_region_size a" using F(12) by simp
  obtain start high where j: "span_covers (sw_span j) k rid start jl high"
    "chunk_holds digest (as_chunk_bytes a) rid start jl (ib_lease (sw_buffer j)) (sw_records j) high"
    "ib_length (sw_buffer j) = log_len jl" "sw_absolute j = DATA_REGION_AREA_OFFSET + rid * as_region_size a + start"
    using jj(6) by (auto simp: job_holds_def)
  have w: "start = completed_used d" "high = ws_max_seqno (sw_span j)" "ws_end_offset (sw_span j) = completed_used d + log_len jl"
    using j(1) sub by (auto simp: span_covers_def submitted_ok_def)
  have "\<forall>l \<in> set (logs rid). log_record_ok (d_created_seqno d) l" using region_logD(1) [OF D(3) [OF al(1)]] by (simp add: d_def)
  then have gen: "\<forall>l \<in> set jl. log_record_ok (d_created_seqno d) l"
    using c(1) in_set_dropD [of _ "d_physical_record_count d" "logs rid"] by auto
  have chk: "submit_write_checks g (sw_span j) (sw_buffer j) (sw_absolute j) = Inr (log_len jl)"
    "sw_absolute j + log_len jl \<le> dg_data_file_len g"
    by (rule job_checks [OF F(8) _ _ _ jj(6) gen]; use F al(1) sub com e in \<open>simp add: submitted_ok_def DIRECT_IO_ALIGNMENT_def\<close>)+
  show ?thesis
    by (rule that [OF jj(1) c(1) jj(6) c(3-5) jj(3-5,2) c(6-8) _ _ _ chk(1)])
      (use j w chk(2) e F D(2) gen in \<open>simp_all add: chunk_holds_def\<close>)
qed

lemma span_covers_fields:
  assumes "span_covers w k rid start ls high"
  shows "ws_shard_id w = k" "ws_region_id w = rid" "ws_start_offset w = start" "ws_end_offset w = start + log_len ls"
    "ws_record_count w = length ls"
  using assms by (auto simp: span_covers_def)

text \<open>The staged records of a job name the records of the log behind the completed prefix.\<close>

lemma job_entry:
  assumes split: "drop n ls = jl @ fl" "n \<le> length ls" and st: "staged_as rid (log_len (take n ls)) jl ss" and i: "i < length jl"
  shows "quantize_entry (stg_entry (ss ! i)) = log_entry rid ls (n + i)" "stg_hash (ss ! i) = lr_hash (ls ! (n + i))" "n + i < length ls"
    "ls ! (n + i) = jl ! i" "log_offset ls (n + i) = log_len (take n ls) + log_offset jl i"
proof -
  have "length jl \<le> length ls - n" using arg_cong [OF split(1), of length] by simp
  then show "n + i < length ls" using i split(2) by linarith
  show li: "ls ! (n + i) = jl ! i" using i split by (metis add.commute drop_drop hd_drop_conv_nth length_append nth_append nth_drop)
  show off: "log_offset ls (n + i) = log_len (take n ls) + log_offset jl i"
    using i split by (simp add: log_offset_def take_add)
  note s = staged_as_nth [OF st i]
  have "stg_entry (ss ! i) = \<lparr>location = exact_location rid (log_offset ls (n + i)) (ls ! (n + i))\<rparr>"
    using s by (simp add: off li)
  then show "quantize_entry (stg_entry (ss ! i)) = log_entry rid ls (n + i)" by (simp add: log_entry_def)
  show "stg_hash (ss ! i) = lr_hash (ls ! (n + i))" using s by (simp add: li)
qed

lemma publishes_job:
  assumes gen: "\<forall>l \<in> set ls. log_record_ok gen l" and b: "rid < 2 ^ 20" "log_len (take n ls) + log_len jl \<le> 2 ^ 25"
    and split: "drop n ls = jl @ fl" "n \<le> length ls" and ds: "d_physical_record_count (ds ! rid) = n + length jl" and logs: "logs rid = ls"
    and st: "staged_as rid (log_len (take n ls)) jl ss"
  shows "\<forall>r \<in> set ss. publishes ds logs rid r"
proof
  fix r assume "r \<in> set ss"
  then obtain i where i: "i < length jl" "r = ss ! i" using staged_as_length [OF st] by (auto simp: in_set_conv_nth)
  note e = job_entry [OF split st i(1)]
  have "log_offset ls (Suc (n + i)) \<le> 2 ^ 25"
    using log_offset_Suc [OF e(3)] log_offset_end [OF i(1)] b(2) by (simp add: e(4,5))
  note x = log_entry_region(1) [OF gen e(3) b(1) this]
  show "publishes ds logs rid r"
    unfolding publishes_def by (intro exI [of _ "n + i"]) (use i e x ds logs in simp)
qed

lemma flush_success_inv:
  fixes w k
  defines "s \<equiv> w_store w"
  defines "m \<equiv> rs_manager s"
  defines "rid \<equiv> active_regions m ! k"
  assumes inv: "store_inv digest g logs w" and k: "k < length (active_regions m)" and job: "w_jobs w k = Some (j, g')"
    and c: "wc_result c = Inr ()" "wc_span c = sw_span j" "wc_buffer c = Some (sw_buffer j)"
  shows "\<exists>s'. flush_complete digest (sw_records j) c s = Some (Inr (Some (sw_span j)), s')
    \<and> store_inv digest g logs (w\<lparr>w_store := s', w_device := written (w_device w) j, w_jobs := (w_jobs w)(k := None)\<rparr>)
    \<and> index_shape (rs_index s') = index_shape (rs_index s)
    \<and> (\<forall>rs r. vec_items (sw_records j) = rs @ [r] \<longrightarrow> staged_previous_location r = None \<longrightarrow> staged_tail s k = [] \<longrightarrow>
         index_map (rs_index s') (token (index_shape (rs_index s)) (stg_hash r)) = Some (log_entry rid (logs rid) (length (logs rid) - 1))
         \<and> logs rid \<noteq> [] \<and> rid < length (regions (rs_manager s')) \<and> d_physical_record_count (regions (rs_manager s') ! rid) = length (logs rid))"
proof -
  define a where "a = rt_staging s"
  define d where "d = regions m ! rid"
  define sh where "sh = append_states m ! k"
  define st where "st = as_shards a ! k"
  let ?n = "d_physical_record_count d" and ?ls = "logs rid"
  note D = store_invD [OF inv, folded s_def, folded m_def a_def]
  note F = frameD [OF D(1), folded m_def a_def] and L = frame_locks [OF D(1), folded m_def]
  have k': "k < length (append_states m)" "k < length (as_shards a)" using k F(11,15) by simp_all
  note al = active_lookup [OF F(4) k, folded rid_def]
  obtain jl fl where jf: "g' = g" "drop ?n ?ls = jl @ fl" "job_holds digest a k rid jl j"
    "fill_holds digest (as_chunk_bytes a) rid fl (fill st)" "open_log_ok (open_span sh) (fill st) fl" "shard_open st"
    "submitted st = Some (sw_span j)" "spare_buffer st = None" "spare_records st = None" "submitted_span sh = Some (sw_span j)"
    "tail sh = None" "pending_padding sh = None" "rotation sh = None"
    "span_covers (sw_span j) k rid (completed_used d) jl (ws_max_seqno (sw_span j))"
    "sw_absolute j = DATA_REGION_AREA_OFFSET + rid * dg_region_size g + completed_used d"
    "take (ib_length (sw_buffer j)) (ib_lease (sw_buffer j)) = log_bytes digest jl"
    "submit_write_checks g (sw_span j) (sw_buffer j) (sw_absolute j) = Inr (log_len jl)"
    "sw_absolute j + log_len jl \<le> length (w_device w)" "completed_used d + log_len jl \<le> dg_region_size g"
    "staged_as rid (completed_used d) jl (vec_items (sw_records j))"
    "\<forall>l \<in> set jl. log_record_ok (d_created_seqno d) l"
    by (rule job_facts [OF inv k [unfolded m_def s_def] job, folded s_def, folded m_def a_def, folded rid_def, folded d_def sh_def st_def])
  have sp: "ws_shard_id (sw_span j) = k" "ws_region_id (sw_span j) = rid" "ws_end_offset (sw_span j) = completed_used d + log_len jl"
    "ws_record_count (sw_span j) = length jl" using span_covers_fields [OF jf(14)] by simp_all
  have sub: "submitted_span (append_states m ! ws_shard_id (sw_span j)) = Some (sw_span j)" using jf(10) by (simp add: sp sh_def)
  define d' where "d' = d\<lparr>completed_used := completed_used d + log_len jl, d_physical_record_count := ?n + length jl\<rparr>"
  define m' where "m' = update_shard k (\<lambda>sh. sh\<lparr>submitted_span := None\<rparr>)
      (update_region rid (\<lambda>d. d\<lparr>completed_used := ws_end_offset (sw_span j),
         d_physical_record_count := d_physical_record_count d + ws_record_count (sw_span j)\<rparr>) m)"
  have cw: "complete_write_span (sw_span j) m = (Inr (), m')" "manager_wf m'"
    using complete_write_span_ok [OF F(4) _ sub] k'(1) by (simp_all add: sp m'_def)
  have mf: "regions m' = (regions m)[rid := d']" "append_states m' = (append_states m)[k := sh\<lparr>submitted_span := None\<rparr>]"
    "active_regions m' = active_regions m" "reclaiming m' = reclaiming m" "rm_region_size m' = rm_region_size m"
    by (simp_all add: m'_def update_shard_def update_region_def d_def sh_def d'_def sp)
  note rl = D(3) [OF al(1), folded d_def]
  note rld = region_logD [OF rl]
  have comp: "completed_used d = log_len (take ?n ?ls)" using rld(3) by (simp add: log_offset_def)
  have ln: "?n + length jl \<le> length ?ls" using rld(2) arg_cong [OF jf(2), of length] by simp
  have tk: "take (?n + length jl) ?ls = take ?n ?ls @ jl" using jf(2) by (simp add: take_add)
  define dev where "dev = written (w_device w) j"
  have dev_eq: "dev = overwrite (w_device w) (DATA_REGION_AREA_OFFSET + rid * dg_region_size g + completed_used d) (log_bytes digest jl)"
    by (simp add: dev_def written_def jf(15,16))
  note jlen = length_log_bytes [OF jf(21), of digest]
  have fit: "DATA_REGION_AREA_OFFSET + rid * dg_region_size g + completed_used d + log_len jl \<le> length (w_device w)" using jf(15,18) by simp
  have gt: "\<forall>l \<in> set (take ?n ?ls). log_record_ok (d_created_seqno d) l" using rld(1) by (auto dest: in_set_takeD)
  have own: "region_log_ok digest g dev (w_puts w) rid d' ?ls"
  proof -
    have "region_holds digest g dev rid (take ?n ?ls @ jl)"
      unfolding dev_eq comp by (rule write_own_region [OF rld(4) gt]) (use jlen fit comp in simp_all)
    moreover have "d_state d = Active" using shard_lookup(2) [OF F(4) k] by (simp add: shard_ok_def d_def rid_def)
    ultimately show ?thesis using rl ln comp by (simp add: region_log_ok_def d'_def tk)
  qed
  have others: "region_log_ok digest g dev (w_puts w) r (regions m ! r) (logs r)" if r: "r < length (regions m)" "r \<noteq> rid" for r
  proof -
    have "completed_used (regions m ! r) \<le> dg_region_size g"
      using shard_lookup(3) [OF F(4) r(1)] F(9) by (simp add: desc_ok_def)
    moreover note D(3) [OF r(1)]
    ultimately have "region_holds digest g dev r (take (d_physical_record_count (regions m ! r)) (logs r))"
      unfolding dev_eq by (intro write_other_region) (use r(2) jf(19) fit jlen in \<open>auto simp: region_log_ok_def\<close>)
    then show ?thesis using D(3) [OF r(1)] by (simp add: region_log_ok_def)
  qed
  have regs: "region_log_ok digest g dev (w_puts w) r (regions m' ! r) (logs r)" if "r < length (regions m')" for r
    using that own others al(1) by (cases "r = rid") (simp_all add: mf(1))
  have pub: "\<forall>r \<in> set (vec_items (sw_records j)). publishes (regions m') logs rid r"
    by (rule publishes_job [OF rld(1) _ _ jf(2) rld(2)])
      (use al(1) F jf(19,20) comp in \<open>simp_all add: mf(1) d'_def\<close>)
  have idx0: "index_log_ok (rs_index s) (regions m') logs"
    using D(5) unfolding index_log_ok_def mf(1)
  proof (intro allI impI)
    fix t e assume a: "\<forall>t e. index_map (rs_index s) t = Some e \<longrightarrow> (\<exists>rid<length (regions m). \<exists>i<d_physical_record_count (regions m ! rid).
        e = log_entry rid (logs rid) i \<and> t = token (index_shape (rs_index s)) (lr_hash (logs rid ! i)))" "index_map (rs_index s) t = Some e"
    then obtain r i where r: "r < length (regions m)" "i < d_physical_record_count (regions m ! r)" "e = log_entry r (logs r) i"
      "t = token (index_shape (rs_index s)) (lr_hash (logs r ! i))" by blast
    then have "i < d_physical_record_count ((regions m)[rid := d'] ! r)" by (cases "r = rid") (simp_all add: d'_def d_def)
    with r show "\<exists>rid'<length ((regions m)[rid := d']). \<exists>i<d_physical_record_count ((regions m)[rid := d'] ! rid').
        e = log_entry rid' (logs rid') i \<and> t = token (index_shape (rs_index s)) (lr_hash (logs rid' ! i))" by auto
  qed
  obtain st' where fin: "finish_success (sw_span j) (sw_buffer j) (sw_records j) a = (Inr (), update_staging k (\<lambda>_. st') a)"
    "shard_open st'" "submitted st' = None" "spare_ready (as_chunk_bytes a) st'" "fill st' = fill st"
    by (rule finish_success_returns [of k a j digest rid jl, folded st_def, OF k'(2) jf(6-9,3)]) (use F in simp_all)
  let ?w = "\<lambda>s'. w\<lparr>w_store := s', w_device := dev, w_jobs := (w_jobs w)(k := None)\<rparr>"
  let ?s = "\<lambda>x'. s\<lparr>rs_manager := m', rs_index := x', rt_staging := update_staging k (\<lambda>_. st') a\<rparr>"
  have pend: "pending_replacements w \<subseteq> pending_replacements (?w (?s x')) \<union> replacements (vec_items (sw_records j))" for x'
  proof -
    have "shard_replacements (as_shards a ! i) (w_jobs w i) \<subseteq>
        shard_replacements ((as_shards a)[k := st'] ! i) (((w_jobs w)(k := None)) i) \<union> replacements (vec_items (sw_records j))"
      if "i < length (as_shards a)" for i
      using that fin(5) by (cases "i = k") (auto simp: shard_replacements_def job st_def)
    then show ?thesis by (force simp: pending_replacements_def s_def [symmetric] a_def [symmetric])
  qed
  have same: "pending_replacements (?w (?s x')) = pending_replacements (?w (?s y'))" for x' y' by (simp add: pending_replacements_def)
  define P where "P = pending_replacements (?w (?s (rs_index s)))"
  have cov: "\<forall>q \<in> rc_region_id ` w_scanned w. q \<noteq> rid \<and> covered (rs_index s) (P \<union> replacements (vec_items (sw_records j))) q"
  proof (intro ballI conjI)
    fix q assume "q \<in> rc_region_id ` w_scanned w"
    then obtain rc where rc: "rc \<in> w_scanned w" "q = rc_region_id rc" by blast
    with D(6) have "rc \<in> set (reclaiming m)" by blast
    then have "q \<in> set (idle_regions m)" by (simp add: idle_regions_def rc(2))
    then show "q \<noteq> rid" using al(3) by blast
    show "covered (rs_index s) (P \<union> replacements (vec_items (sw_records j))) q"
      using covered_mono [OF D(6) [OF rc(1), THEN conjunct2] pend [of "rs_index s"]] unfolding rc(2) P_def .
  qed
  define s1 where "s1 = s\<lparr>rs_manager := m'\<rparr>"
  obtain x' where x: "publish_completed_records digest (vec_items (sw_records j)) s1 = Some (Inr (), s1\<lparr>rs_index := x'\<rparr>)"
    "index_ok digest x'" "index_shape x' = index_shape (rs_index s)" "index_log_ok x' (regions m') logs"
    "\<forall>q \<in> rc_region_id ` w_scanned w. covered x' P q"
    using publish_all [of digest s1 "regions m'" logs rid "vec_items (sw_records j)" "rc_region_id ` w_scanned w" P]
      F(5) idx0 pub cov al(1) by (auto simp: s1_def mf(1))
  have run: "flush_complete digest (sw_records j) c s = Some (Inr (Some (sw_span j)), ?s x')"
    using cw(1) x(1) fin(1)
    by (simp add: flush_complete_def c or_fail_span_def pbind_def L(2) with_manager_def with_staging_def m_def [symmetric]
        s1_def [symmetric]) (simp add: s1_def a_def)
  have gens: "map d_created_seqno ((regions m)[rid := d']) = map d_created_seqno (regions m)"
    using al(1) by (simp add: map_update list_update_same_conv d'_def d_def)
  have frame: "store_frame digest g (?s x')"
    using F cw(2) mf(2-5) gens x(2) by (simp add: store_frame_def mf(1))
  have shards: "shard_log_ok digest g (update_staging k (\<lambda>_. st') a) i (active_regions m' ! i) (regions m' ! (active_regions m' ! i))
      (append_states m' ! i) (as_shards (update_staging k (\<lambda>_. st') a) ! i) (((w_jobs w)(k := None)) i) (logs (active_regions m' ! i))"
    if i: "i < length (active_regions m')" for i
  proof (cases "i = k")
    case True
    have "shard_log_ok digest g a k rid d' (sh\<lparr>submitted_span := None\<rparr>) st' None ?ls"
      by (rule shard_log_okI [where jl = "[]" and fl = fl])
        (use jf fin ln in \<open>simp_all add: d'_def job_log_ok_def add.commute [of ?n] flip: drop_drop\<close>)
    then show ?thesis using True k' al(1) by (simp add: mf rid_def [symmetric] shard_log_ok_config [where a' = "update_staging k (\<lambda>_. st') a" and a = a])
  next
    case False
    then have "active_regions m ! i \<noteq> rid" using al(4) [of i] i mf(3) by simp
    then show ?thesis using D(4) [of i] False i
      by (simp add: mf shard_log_ok_config [where a' = "update_staging k (\<lambda>_. st') a" and a = a])
  qed
  have scanned: "q \<in> set (reclaiming m') \<and> covered x' (pending_replacements (?w (?s x'))) (rc_region_id q)" if "q \<in> w_scanned w" for q
    using x(5) D(6) [OF that] that same [of x' "rs_index s"] by (simp add: mf(4) P_def)
  have "store_inv digest g logs (?w (?s x'))"
    by (rule store_invI)
      (use frame regs shards x(4) scanned D(2,7) jf(18) in \<open>simp_all add: dev_def written_def jf(16) jlen split del: if_split\<close>)
  moreover have "index_map x' (token (index_shape (rs_index s)) (stg_hash r)) = Some (log_entry rid (logs rid) (length (logs rid) - 1))
      \<and> logs rid \<noteq> [] \<and> rid < length (regions m') \<and> d_physical_record_count (regions m' ! rid) = length (logs rid)"
    if recs: "vec_items (sw_records j) = rs @ [r]" and put: "staged_previous_location r = None" and empty: "staged_tail s k = []" for rs r
  proof -
    have "fl = []" using fill_holds_length [OF jf(4)] empty by (simp add: staged_tail_def st_def a_def)
    then have len: "length ?ls = ?n + length jl" using arg_cong [OF jf(2), of length] rld(2) by simp
    have j: "length jl = Suc (length rs)" using staged_as_length [OF jf(20)] recs by simp
    have "index_map x' (token (index_shape (rs_index s1)) (stg_hash r)) = Some (quantize_entry (stg_entry r))"
      using publish_last [of digest s1 "regions m'" logs rid rs r] F(5) idx0 pub al(1) put x(1) by (simp add: recs s1_def mf(1))
    moreover note e = job_entry [OF jf(2) rld(2) jf(20) [unfolded comp] , of "length rs"]
    moreover have ne: "?ls \<noteq> []" using len j by auto
    moreover have "rid < length (regions m')" "d_physical_record_count (regions m' ! rid) = length ?ls"
      using al(1) len by (simp_all add: mf(1) d'_def)
    ultimately show ?thesis
      using e(1-3) len j by (simp add: recs nth_append s1_def)
  qed
  ultimately show ?thesis using run x(3) by (auto simp: dev_def)
qed

end
