(* ===== verification/Store_Reclaim.thy ===== *)
theory Store_Reclaim
  imports Store_Flush
begin

text \<open>
  Lookups, deletions, rotation and reclaim keep the store invariant. The scan of a sealed Region sees exactly
  the records of its log and leaves each index entry of the Region removed or with a replacement on its way.
\<close>

section \<open>Changes of the index or the manager alone\<close>

lemma covered_shrink:
  assumes "covered x P q" "index_shape x' = index_shape x" "index_map x' \<subseteq>\<^sub>m index_map x" shows "covered x' P q"
  unfolding covered_def assms(2)
proof (intro allI impI)
  fix t e assume e: "index_map x' t = Some e" "unat (region_id (location e)) = q"
  then have "index_map x t = Some e" using assms(3) unfolding map_le_def by (metis domI)
  then show "\<exists>(h, p) \<in> P. index_equivalent (location e) p \<and> token (index_shape x) h = t"
    using assms(1) e(2) unfolding covered_def by blast
qed

lemma inv_index_shrink:
  assumes inv: "store_inv digest g logs w"
    and x': "index_ok digest x'" "index_shape x' = index_shape (rs_index (w_store w))" "index_map x' \<subseteq>\<^sub>m index_map (rs_index (w_store w))"
  shows "store_inv digest g logs (w\<lparr>w_store := (w_store w)\<lparr>rs_index := x'\<rparr>\<rparr>)"
proof -
  note D = store_invD [OF inv] and F = frameD [OF store_invD(1) [OF inv]]
  have pend: "pending_replacements (w\<lparr>w_store := (w_store w)\<lparr>rs_index := x'\<rparr>\<rparr>) = pending_replacements w"
    by (simp add: pending_replacements_def)
  show ?thesis
  proof (rule store_invI)
    show "store_frame digest g (w_store (w\<lparr>w_store := (w_store w)\<lparr>rs_index := x'\<rparr>\<rparr>))"
      using F x'(1) by (simp add: store_frame_def)
  qed (use D index_log_drop [OF D(5) x'(2,3)] covered_shrink [OF _ x'(2,3)] in \<open>simp_all add: pend\<close>)
qed

lemma inv_manager_change:
  fixes w
  defines "m \<equiv> rs_manager (w_store w)"
  assumes inv: "store_inv digest g logs w"
    and m': "manager_wf m'" "regions m' = regions m" "append_states m' = append_states m" "active_regions m' = active_regions m"
      "rm_region_size m' = rm_region_size m" "set (reclaiming m) \<subseteq> set (reclaiming m')"
  shows "store_inv digest g logs (w\<lparr>w_store := (w_store w)\<lparr>rs_manager := m'\<rparr>\<rparr>)"
proof -
  note D = store_invD [OF inv, folded m_def] and F = frameD [OF store_invD(1) [OF inv], folded m_def]
  have pend: "pending_replacements (w\<lparr>w_store := (w_store w)\<lparr>rs_manager := m'\<rparr>\<rparr>) = pending_replacements w"
    by (simp add: pending_replacements_def)
  show ?thesis
  proof (rule store_invI)
    show "store_frame digest g (w_store (w\<lparr>w_store := (w_store w)\<lparr>rs_manager := m'\<rparr>\<rparr>))"
      using F m' by (simp add: store_frame_def)
  qed (use D m' in \<open>auto simp: pend\<close>)
qed

section \<open>Lookups and deletions\<close>

text \<open>A Region with completed records is not free.\<close>

lemma live_region:
  assumes wf: "manager_wf m" and r: "rid < length (regions m)" and n: "0 < d_physical_record_count (regions m ! rid)"
  shows "rid \<notin> set (free_regions m)" "0 < d_created_seqno (regions m ! rid)"
proof -
  show free: "rid \<notin> set (free_regions m)" using wf_owned(1) [OF wf, of rid] n by (auto simp: free_desc_def)
  have "rid \<in> set (owners m)" using owners_facts(2) [OF wf] r by simp
  then have "rid \<in> set (active_regions m) \<or> rid \<in> set (idle_regions m)" using free by (simp add: owners_def)
  moreover have "d_state (regions m ! rid) = Active" if "rid \<in> set (active_regions m)"
    using that shard_lookup(2) [OF wf] by (metis in_set_conv_nth shard_ok_def)
  ultimately have "d_state (regions m ! rid) \<noteq> Free" using wf_owned(2) [OF wf, of rid] by force
  then show "0 < d_created_seqno (regions m ! rid)" using shard_lookup(3) [OF wf r] by (auto simp: desc_ok_def)
qed

text \<open>The Region an entry of a completed record names.\<close>

lemma index_entry_region:
  fixes w
  defines "m \<equiv> rs_manager (w_store w)"
  assumes inv: "store_inv digest g logs w" and r: "rid < length (regions m)" "i < d_physical_record_count (regions m ! rid)"
  shows "unat (region_id (location (log_entry rid (logs rid) i))) = rid"
    "index_equivalent (location (log_entry rid (logs rid) i)) (exact_location rid (log_offset (logs rid) i) (logs rid ! i))"
    "unat (offset (location (log_entry rid (logs rid) i))) = log_offset (logs rid) i"
proof -
  note D = store_invD [OF inv, folded m_def] and F = frameD [OF store_invD(1) [OF inv], folded m_def]
  note rl = region_logD [OF D(3) [OF r(1)]]
  have i: "i < length (logs rid)" using r(2) rl(2) by simp
  have dok: "desc_ok (rm_region_size m) (next_seqno m) (regions m ! rid)" by (rule shard_lookup(3) [OF F(4) r(1)])
  have "log_offset (logs rid) (Suc i) \<le> completed_used (regions m ! rid)"
    unfolding rl(3) using log_offset_mono [OF _ rl(2,1), of "Suc i"] r(2) by (cases "Suc i = d_physical_record_count (regions m ! rid)") auto
  moreover have "completed_used (regions m ! rid) \<le> 2 ^ 25" using dok F(16) by (simp add: desc_ok_def)
  ultimately have b: "log_offset (logs rid) (Suc i) \<le> 2 ^ 25" "rid < 2 ^ 20" using r(1) F(17) by simp_all
  show "unat (region_id (location (log_entry rid (logs rid) i))) = rid"
    "index_equivalent (location (log_entry rid (logs rid) i)) (exact_location rid (log_offset (logs rid) i) (logs rid ! i))"
    "unat (offset (location (log_entry rid (logs rid) i))) = log_offset (logs rid) i"
    by (rule log_entry_region [OF rl(1) i b(2,1)])+
qed

lemma begin_point_read_inv:
  fixes w hash
  defines "s \<equiv> w_store w"
  defines "t \<equiv> token (index_shape (rs_index s)) hash"
  assumes inv: "store_inv digest g logs w"
  shows "\<exists>c s'. begin_point_read digest contended hash s = Some (Inr c, s') \<and> store_inv digest g logs (w\<lparr>w_store := s'\<rparr>)
    \<and> index_map (rs_index s') = index_map (rs_index s) \<and> index_shape (rs_index s') = index_shape (rs_index s)
    \<and> c = (if contended (hash_partition (rs_index s) hash) then None
           else map_option (\<lambda>e. \<lparr>cand_entry = e,
             cand_region_generation = d_created_seqno (regions (rs_manager s) ! unat (region_id (location e)))\<rparr>) (index_map (rs_index s) t))"
proof -
  define m where "m = rs_manager s"
  note D = store_invD [OF inv, folded s_def, folded m_def] and F = frameD [OF store_invD(1) [OF inv], folded s_def, folded m_def]
  show ?thesis
  proof (cases "contended (hash_partition (rs_index s) hash)")
    case True
    then have "begin_point_read digest contended hash s = Some (Inr None, s)"
      using busy_calls(1) [OF F(5), of contended hash] F(1)
      by (simp add: begin_point_read_def with_index_def pbind_def index_busy_def)
    then show ?thesis using True inv by (simp add: s_def)
  next
    case False
    obtain x' where x: "lookup_raw digest contended hash (rs_index s) = Some (Inr (index_map (rs_index s) t), x')"
      "index_ok digest x'" "index_shape x' = index_shape (rs_index s)" "index_map x' = index_map (rs_index s)"
      using lookup_raw_map [where contended = contended, OF F(5) False] by (auto simp: t_def)
    have inv': "store_inv digest g logs (w\<lparr>w_store := s\<lparr>rs_index := x'\<rparr>\<rparr>)"
      using inv_index_shrink [OF inv x(2)] x(3,4) by (simp add: s_def)
    have gen: "get_at (rs_region_generations s) (unat (region_id (location e)))
        = Some (d_created_seqno (regions m ! unat (region_id (location e)))) \<and> 0 < d_created_seqno (regions m ! unat (region_id (location e)))"
      if "index_map (rs_index s) t = Some e" for e
    proof -
      from D(5) that obtain rid i where r: "rid < length (regions m)" "i < d_physical_record_count (regions m ! rid)" "e = log_entry rid (logs rid) i"
        unfolding index_log_ok_def by blast
      have "unat (region_id (location e)) = rid"
        using index_entry_region [OF inv, folded s_def, folded m_def, OF r(1,2)] by (simp add: r(3))
      moreover have "0 < d_created_seqno (regions m ! rid)" using live_region [OF F(4) r(1)] r(2) by simp
      ultimately show ?thesis using r(1) F(7) by (simp add: get_at_def)
    qed
    have "begin_point_read digest contended hash s = Some (Inr (map_option (\<lambda>e. \<lparr>cand_entry = e,
             cand_region_generation = d_created_seqno (regions m ! unat (region_id (location e)))\<rparr>) (index_map (rs_index s) t)), s\<lparr>rs_index := x'\<rparr>)"
      using x(1) F(1) gen
      by (cases "index_map (rs_index s) t") (auto simp: begin_point_read_def with_index_def pbind_def get_at_def split: if_splits)
    then show ?thesis using inv' x False by (simp add: m_def)
  qed
qed

lemma try_delete_inv:
  fixes w hash
  defines "s \<equiv> w_store w"
  defines "t \<equiv> token (index_shape (rs_index s)) hash"
  assumes inv: "store_inv digest g logs w"
  shows "\<exists>r s'. try_delete_value digest manager_busy contended hash s = Some (r, s')
    \<and> (\<not> rs_healthy s' \<and> next_seqno (rs_manager s) = u64_max \<and> next_seqno (rs_manager s') = u64_max
       \<or> store_inv digest g logs (w\<lparr>w_store := s'\<rparr>) \<and> index_shape (rs_index s') = index_shape (rs_index s)
         \<and> (r = Inr None \<and> (manager_busy \<or> contended (hash_partition (rs_index s) hash)) \<and> index_map (rs_index s') = index_map (rs_index s)
            \<or> r = Inr (Some (next_seqno (rs_manager s))) \<and> index_map (rs_index s') = (index_map (rs_index s))(t := None)))"
proof -
  define m where "m = rs_manager s"
  note D = store_invD [OF inv, folded s_def, folded m_def] and F = frameD [OF store_invD(1) [OF inv], folded s_def, folded m_def]
  note L = frame_locks [OF D(1)]
  have w: "w\<lparr>w_store := s\<rparr> = w" by (simp add: s_def)
  note run = try_delete_value_def pbind_def L(1,3) with_manager_def m_def [symmetric]
  show ?thesis
  proof (cases "manager_busy \<or> next_seqno m = u64_max")
    case True
    then have "\<exists>r s'. try_delete_value digest manager_busy contended hash s = Some (r, s')
        \<and> (r = Inr None \<and> manager_busy \<and> s' = s \<or> \<not> rs_healthy s' \<and> next_seqno m = u64_max \<and> next_seqno (rs_manager s') = u64_max)"
      by (cases manager_busy) (simp_all add: run allocate_seqno_def)
    then show ?thesis using inv w by (fastforce simp: m_def)
  next
    case False
    define m' where "m' = m\<lparr>next_seqno := next_seqno m + 1\<rparr>"
    define s1 where "s1 = s\<lparr>rs_manager := m'\<rparr>"
    have al: "allocate_seqno m = (Inr (next_seqno m), m')" using False next_seqno_bound [OF F(4)] by (simp add: allocate_seqno_def m'_def)
    have "manager_wf m'" using allocate_seqno_wf [OF F(4)] al by simp
    then have inv1: "store_inv digest g logs (w\<lparr>w_store := s1\<rparr>)"
      unfolding s1_def s_def by (intro inv_manager_change [OF inv]) (simp_all add: m'_def m_def s_def)
    have steps: "try_delete_value digest manager_busy contended hash s = (case try_delete digest contended hash (rs_index s) of
        Some (Inr _, x') \<Rightarrow> Some (Inr (Some (next_seqno m)), s1\<lparr>rs_index := x'\<rparr>)
      | Some (Inl e, x') \<Rightarrow> (if index_busy e then preturn None else fail_miss_only (index_storage_io_error e)) (s1\<lparr>rs_index := x'\<rparr>)
      | None \<Rightarrow> None)"
      using False al by (simp add: run s1_def with_index_def split: option.splits sum.splits)
    have x1: "rs_index s1 = rs_index s" by (simp add: s1_def)
    show ?thesis
    proof (cases "contended (hash_partition (rs_index s) hash)")
      case True
      then have "try_delete digest contended hash (rs_index s) = Some (Inl (PartitionBusy (hash_partition (rs_index s) hash)), rs_index s)"
        using busy_calls(2) [OF F(5), of contended hash None] by (simp add: try_delete_def)
      then have "try_delete_value digest manager_busy contended hash s = Some (Inr None, s1)"
        by (simp add: steps index_busy_def s1_def)
      then show ?thesis using inv1 x1 True by simp
    next
      case False
      obtain b x' where x: "try_delete digest contended hash (rs_index s) = Some (Inr b, x')"
        "b = (\<exists>e. index_map (rs_index s) t = Some e \<and> expected_ok None e)"
        "index_ok digest x'" "index_shape x' = index_shape (rs_index s)"
        "index_map x' = (if b then (index_map (rs_index s))(t := None) else index_map (rs_index s))"
        using remove_matching_map [OF F(5), where hash = hash and contended = contended and non_waiting = True and expected = None] False
        unfolding try_delete_def t_def by blast
      have im: "index_map x' = (index_map (rs_index s))(t := None)"
        using x(2,5) by (cases "index_map (rs_index s) t") (auto simp: expected_ok_def fun_eq_iff)
      have "index_map x' \<subseteq>\<^sub>m index_map (rs_index (w_store (w\<lparr>w_store := s1\<rparr>)))" by (auto simp: im map_le_def x1)
      then have "store_inv digest g logs (w\<lparr>w_store := s1\<lparr>rs_index := x'\<rparr>\<rparr>)"
        using inv_index_shrink [OF inv1 x(3)] x(4) x1 by simp
      then show ?thesis using im x(4) by (simp add: steps x(1) m_def)
    qed
  qed
qed

section \<open>Rotation\<close>

lemma fill_holds_nil: "fill_holds digest chunk rid [] f \<Longrightarrow> fill_holds digest chunk rid' [] f"
  by (auto simp: fill_holds_def chunk_holds_def dest!: staged_as_length)

definition fresh_desc :: "nat \<Rightarrow> region_desc" where
  "fresh_desc seqno = \<lparr>d_state = Active, d_created_seqno = seqno, completed_used = 0, reserved_used = 0, d_physical_record_count = 0\<rparr>"

text \<open>The manager's part: the oldest free Region takes the place of the shard's Region, which is sealed.\<close>

lemma rotate_manager:
  fixes m k
  defines "a \<equiv> active_regions m ! k" and "v \<equiv> hd (free_regions m)" and "sh \<equiv> append_states m ! k"
  assumes wf: "manager_wf m" and ok: "begin_rotation c m = (Inr r, m1)" and c: "cand_shard_id c = k"
  obtains m2 where "finish_rotation r m1 = (Inr (), m2)" "manager_wf m2"
    "regions m2 = (regions m)[a := (regions m ! a)\<lparr>d_state := Sealed\<rparr>, v := fresh_desc (next_seqno m)]"
    "active_regions m2 = (active_regions m)[k := v]"
    "append_states m2 = (append_states m)[k := sh\<lparr>rotation_requested := False\<rparr>]" "reclaiming m2 = reclaiming m" "rm_region_size m2 = rm_region_size m"
    "rr_activated_region_id r = v" "rr_activated_created_seqno r = next_seqno m"
    "is_quiescent sh" "k < length (append_states m)" "v \<in> set (free_regions m)"
proof -
  note b = begin_rotation_success [OF ok wf, unfolded c, folded a_def v_def sh_def]
  have wf1: "manager_wf m1" using begin_rotation_wf [OF wf, of c] ok by simp
  have k1: "rr_shard_id r < length (append_states m1)" "rotation (append_states m1 ! rr_shard_id r) = Some r"
    using b(1,6,7) by simp_all
  note f = finish_rotation_ok [OF wf1 k1]
  have v: "v \<in> set (free_regions m)" unfolding v_def by (rule hd_in_set [OF b(4)])
  let ?m2 = "update_shard (rr_shard_id r) (\<lambda>sh. sh\<lparr>rotation := None\<rparr>)
      (m1\<lparr>sealed_regions := sealed_regions m1 @ [rr_sealed_region_id r], rotations := saturating_add u64_max (rotations m1) 1\<rparr>)"
  have q: "sh\<lparr>rotation_requested := False, rotation := None\<rparr> = sh\<lparr>rotation_requested := False\<rparr>"
    using b(2) by (cases sh) (simp add: is_quiescent_def)
  show ?thesis
  proof (rule that [OF f(1)])
    show "manager_wf ?m2" using f by simp
    show "append_states ?m2 = (append_states m)[k := sh\<lparr>rotation_requested := False\<rparr>]"
      using b(1,6,7) q by (simp add: update_shard_def)
  qed (use b v in \<open>simp_all add: update_shard_def fresh_desc_def\<close>)
qed

lemma rotated_inv:
  fixes w k
  defines "s \<equiv> w_store w"
  defines "m \<equiv> rs_manager s"
  defines "a \<equiv> active_regions m ! k" and "v \<equiv> hd (free_regions m)" and "sh \<equiv> append_states m ! k"
  assumes inv: "store_inv digest g logs w" and k: "k < length (active_regions m)"
    and m2: "manager_wf m2" "regions m2 = (regions m)[a := (regions m ! a)\<lparr>d_state := Sealed\<rparr>, v := fresh_desc (next_seqno m)]"
    "active_regions m2 = (active_regions m)[k := v]"
    "append_states m2 = (append_states m)[k := sh\<lparr>rotation_requested := False\<rparr>]" "reclaiming m2 = reclaiming m" "rm_region_size m2 = rm_region_size m"
    and q: "is_quiescent sh" "v \<in> set (free_regions m)"
  shows "store_inv digest g (logs(v := [])) (w\<lparr>w_store := s\<lparr>rs_manager := m2,
    rs_region_generations := (rs_region_generations s)[v := next_seqno m]\<rparr>\<rparr>)" (is "store_inv digest g ?logs ?w")
proof -
  define st where "st = rt_staging s"
  note D = store_invD [OF inv, folded s_def, folded m_def st_def] and F = frameD [OF store_invD(1) [OF inv], folded s_def, folded m_def st_def]
  note al = active_lookup [OF F(4) k, folded a_def]
  have k': "k < length (append_states m)" using k F(15) by simp
  note fr = wf_owned(1) [OF F(4) q(2)]
  have va: "v \<noteq> a" using fr al(2) q(2) by blast
  have vj: "active_regions m ! j \<noteq> v" if "j < length (active_regions m)" for j using fr that nth_mem by metis
  obtain jl fl where c: "drop (d_physical_record_count (regions m ! a)) (logs a) = jl @ fl"
    "job_log_ok digest g st k a (submitted_span sh) (as_shards st ! k) (w_jobs w k) jl"
    "fill_holds digest (as_chunk_bytes st) a fl (fill (as_shards st ! k))" "open_log_ok (open_span sh) (fill (as_shards st ! k)) fl" "shard_open (as_shards st ! k)"
    using D(4) [OF k] unfolding shard_log_ok_def a_def sh_def by blast
  have none: "fl = []" "jl = []" "w_jobs w k = None" "submitted (as_shards st ! k) = None" "spare_ready (as_chunk_bytes st) (as_shards st ! k)"
    using c(2,4) q(1) by (auto simp: is_quiescent_def open_log_ok_def job_log_ok_def split: option.splits)
  have regs: "region_log_ok digest g (w_device w) (w_puts w) r (regions m2 ! r) (?logs r)" if r: "r < length (regions m2)" for r
  proof -
    consider "r = v" | "r = a" | "r \<noteq> v" "r \<noteq> a" by blast
    then show ?thesis
    proof cases
      case 1
      then show ?thesis using fr va by (simp add: m2(2) region_log_ok_def fresh_desc_def region_holds_def)
    next
      case 2
      have "d_physical_record_count (regions m ! a) = length (logs a)"
        using region_logD(2) [OF D(3) [OF al(1)]] c(1) none by simp
      then show ?thesis using D(3) [OF al(1)] 2 va al(1) by (simp add: m2(2) region_log_ok_def)
    next
      case 3
      then show ?thesis using D(3) [of r] r by (simp add: m2(2))
    qed
  qed
  have shard_k: "shard_log_ok digest g st k v (fresh_desc (next_seqno m)) (sh\<lparr>rotation_requested := False\<rparr>) (as_shards st ! k) (w_jobs w k) []"
    by (rule shard_log_okI [where jl = "[]" and fl = "[]"])
      (use c(5) fill_holds_nil [OF c(3) [unfolded none]] none q(1) in \<open>simp_all add: is_quiescent_def job_log_ok_def open_log_ok_def\<close>)
  have shards: "shard_log_ok digest g st j (active_regions m2 ! j) (regions m2 ! (active_regions m2 ! j)) (append_states m2 ! j)
      (as_shards st ! j) (w_jobs w j) (?logs (active_regions m2 ! j))" if j: "j < length (active_regions m2)" for j
  proof (cases "j = k")
    case True
    then show ?thesis using shard_k k k' fr by (simp add: m2)
  next
    case False
    then have "active_regions m ! j \<noteq> a" "active_regions m ! j \<noteq> v" using al(4) [of j] vj [of j] j by (simp_all add: m2(3))
    then show ?thesis using D(4) [of j] False j by (simp add: m2)
  qed
  have idx: "index_log_ok (rs_index s) (regions m2) ?logs"
    unfolding index_log_ok_def
  proof (intro allI impI)
    fix t e assume "index_map (rs_index s) t = Some e"
    with D(5) obtain r i where r: "r < length (regions m)" "i < d_physical_record_count (regions m ! r)" "e = log_entry r (logs r) i"
      "t = token (index_shape (rs_index s)) (lr_hash (logs r ! i))" unfolding index_log_ok_def by blast
    have "r \<noteq> v" using r(2) fr by (auto simp: free_desc_def)
    moreover have "i < d_physical_record_count (regions m2 ! r)" using r(1,2) \<open>r \<noteq> v\<close> by (cases "r = a") (simp_all add: m2(2))
    ultimately show "\<exists>rid<length (regions m2). \<exists>i<d_physical_record_count (regions m2 ! rid).
        e = log_entry rid (?logs rid) i \<and> t = token (index_shape (rs_index s)) (lr_hash (?logs rid ! i))"
      using r by (intro exI [of _ r] conjI exI [of _ i]) (simp_all add: m2(2))
  qed
  have gens: "(map d_created_seqno (regions m))[v := next_seqno m] = map d_created_seqno (regions m2)"
    using al(1) by (simp add: m2(2) map_update fresh_desc_def list_update_same_conv [THEN iffD2])
  have pend: "pending_replacements ?w = pending_replacements w" by (simp add: pending_replacements_def s_def)
  show ?thesis
  proof (rule store_invI)
    show "store_frame digest g (w_store ?w)" using F m2 gens by (simp add: store_frame_def st_def)
  qed (use D(2,6,7) regs shards idx m2(5) in \<open>simp_all add: pend st_def split del: if_split\<close>)
qed

lemma rotate_shard_inv:
  fixes w k
  defines "s \<equiv> w_store w"
  defines "m \<equiv> rs_manager s"
  assumes inv: "store_inv digest g logs w" and k: "k < length (active_regions m)"
  shows "\<exists>r s' logs'. rotate_shard k s = Some (r, s') \<and> store_inv digest g logs' (w\<lparr>w_store := s'\<rparr>) \<and> rs_index s' = rs_index s
    \<and> (r = Inr RotationIdle \<or> r = Inr RotationPending \<or> r = Inr Rotated \<or> next_seqno m = u64_max)"
proof -
  note D = store_invD [OF inv, folded s_def, folded m_def] and F = frameD [OF store_invD(1) [OF inv], folded s_def, folded m_def]
  note L = frame_locks [OF D(1), folded m_def]
  have k': "k < length (append_states m)" using k F(15) by simp
  have w: "w\<lparr>w_store := s\<rparr> = w" "s\<lparr>rs_manager := m\<rparr> = s" by (simp_all add: s_def m_def)
  note run = rotate_shard_def pbind_def L(1,2) L(5) [OF k] with_manager_def m_def [symmetric]
  obtain b where b: "rotation_is_requested m k = Inr b" using k' by (simp add: rotation_is_requested_def get_at_def)
  show ?thesis
  proof (cases "\<not> b \<or> (\<exists>e. select_rotation m k = Inl e)")
    case True
    have "e = WouldBlock" if "select_rotation m k = Inl e" for e using select_rotation_Inl [OF F(4) that] k' by auto
    with True have "\<exists>r. rotate_shard k s = Some (Inr r, s) \<and> (r = RotationIdle \<or> r = RotationPending)"
      using F(3) b by (cases b) (auto simp: run get_rotation_candidate_def)
    then show ?thesis using inv w by auto
  next
    case False
    then obtain sel where sel: "select_rotation m k = Inr sel" "b = True" by (cases "select_rotation m k") auto
    define c where "c = sel_candidate sel"
    have c: "cand_shard_id c = k" using select_rotation_Inr(7) [OF sel(1) F(4)] by (simp add: c_def)
    have steps: "rotate_shard k s = pbind (begin_store_rotation c) (\<lambda>receipt. pbind manager_lock (\<lambda>_.
       pbind (with_manager (finish_rotation receipt)) (\<lambda>finished.
       case finished of Inl e \<Rightarrow> fail_miss_only (region_mutation_context ''rotation completion'' e) | Inr _ \<Rightarrow> preturn Rotated))) s"
      using F(3) b sel by (simp add: run get_rotation_candidate_def c_def)
    show ?thesis
    proof (cases "begin_rotation c m")
      case (Pair r m1)
      show ?thesis
      proof (cases r)
        case (Inl e)
        note f = begin_rotation_failure [OF Pair [unfolded Inl] F(4)]
        have "next_seqno m = u64_max"
        proof (rule ccontr)
          assume "next_seqno m \<noteq> u64_max"
          then show False using Pair Inl sel(1) c select_rotation_Inr [OF sel(1) F(4)] next_seqno_bound [OF F(4)]
            wf_lookup(2) [OF F(4) k'] F(17)
            by (auto simp: begin_rotation_def allocate_seqno_def c_def [symmetric] get_at_def hd_conv_nth try_from_def num_bounds
                update_region_def Let_def split: if_splits)
        qed
        then have "rotate_shard k s = Some (Inl (region_mutation_context ''rotation begin'' e), s)"
          using Pair Inl f(1) w(2) by (simp add: steps begin_store_rotation_def pbind_def L(2) with_manager_def m_def [symmetric])
        then show ?thesis using inv w \<open>next_seqno m = u64_max\<close> by auto
      next
        case (Inr receipt)
        obtain m2 where m2: "finish_rotation receipt m1 = (Inr (), m2)" "manager_wf m2"
          "regions m2 = (regions m)[active_regions m ! k := (regions m ! (active_regions m ! k))\<lparr>d_state := Sealed\<rparr>, hd (free_regions m) := fresh_desc (next_seqno m)]"
          "active_regions m2 = (active_regions m)[k := hd (free_regions m)]"
          "append_states m2 = (append_states m)[k := (append_states m ! k)\<lparr>rotation_requested := False\<rparr>]" "reclaiming m2 = reclaiming m" "rm_region_size m2 = rm_region_size m"
          "rr_activated_region_id receipt = hd (free_regions m)" "rr_activated_created_seqno receipt = next_seqno m"
          "is_quiescent (append_states m ! k)" "k < length (append_states m)" "hd (free_regions m) \<in> set (free_regions m)"
          by (rule rotate_manager [OF F(4) Pair [unfolded Inr] c])
        have v: "hd (free_regions m) < length (regions m)" using wf_owned(1) [OF F(4) m2(12)] by simp
        have lock: "manager_lock (s\<lparr>rs_manager := x, rs_region_generations := y\<rparr>) = Some (Inr (), s\<lparr>rs_manager := x, rs_region_generations := y\<rparr>)" for x y
          by (rule healthy_locks) (use F(1,2) in simp_all)
        have "rotate_shard k s = Some (Inr Rotated, s\<lparr>rs_manager := m2, rs_region_generations := (rs_region_generations s)[hd (free_regions m) := next_seqno m]\<rparr>)"
          using Pair Inr m2(1,8,9) v F(7)
          by (simp add: steps begin_store_rotation_def pbind_def L(2) with_manager_def m_def [symmetric] lock)
        then show ?thesis
          using rotated_inv [OF inv _ m2(2-7) [unfolded m_def s_def] m2(10) [unfolded m_def s_def] m2(12) [unfolded m_def s_def]] k
          by (auto simp: m_def s_def)
      qed
    qed
  qed
qed

end
