(* ===== verification/Store_Scan.thy ===== *)
theory Store_Scan
  imports Store_Reclaim
begin

text \<open>
  The scan of a sealed Region during reclaim. The bytes read back are the log of the Region, so the scan meets
  every record once; after record number \<open>i\<close> each index entry that still designates the Region belongs
  to a later record or has a replacement staged.
\<close>

section \<open>The sink of the reclaim worker\<close>

text \<open>
  The closure the reclaim worker of \<^verbatim>\<open>cache/runtime/mod.rs\<close> passes to the scan: whether the record was staged
  again. The gate and the manager may be contended for some records.
\<close>

definition is_staged :: "region_stage_value \<Rightarrow> bool" where
  "is_staged v = (case v of Staged _ _ _ \<Rightarrow> True | _ \<Rightarrow> False)"

definition reinsert_sink :: "crc_stream \<Rightarrow> (region_reinsert_record \<Rightarrow> bool \<times> bool) \<Rightarrow> nat \<Rightarrow> reinsert_sink" where
  "reinsert_sink digest busy k r =
     pbind (try_stage_reinsert digest (fst (busy r)) (snd (busy r)) k r) (\<lambda>staged. preturn (is_staged staged))"

section \<open>What is left of a Region in the index\<close>

definition remains :: "region_index \<Rightarrow> (u64 \<times> packed_location) set \<Rightarrow> nat \<Rightarrow> log_record list \<Rightarrow> nat \<Rightarrow> bool" where
  "remains x pending rid ls i \<longleftrightarrow>
     (\<forall>t e. index_map x t = Some e \<longrightarrow> unat (region_id (location e)) = rid \<longrightarrow>
        (\<exists>j. i \<le> j \<and> j < length ls \<and> e = log_entry rid ls j \<and> t = token (index_shape x) (lr_hash (ls ! j)))
        \<or> (\<exists>(h, p) \<in> pending. index_equivalent (location e) p \<and> token (index_shape x) h = t))"

lemma remains_all: "i \<ge> length ls \<Longrightarrow> remains x pending rid ls i \<longleftrightarrow> covered x pending rid"
proof -
  assume "length ls \<le> i"
  then have no: "(\<exists>j. i \<le> j \<and> j < length ls \<and> Q j) = False" for Q by auto
  show ?thesis unfolding remains_def covered_def by (simp only: no simp_thms)
qed

lemma remains_step:
  assumes r: "remains x P rid ls i" and x': "index_shape x' = index_shape x" "index_map x' \<subseteq>\<^sub>m index_map x" and P: "P \<subseteq> P'"
    and gone: "\<And>e. index_map x' (token (index_shape x) (lr_hash (ls ! i))) = Some e \<Longrightarrow> e = log_entry rid ls i \<Longrightarrow> i < length ls \<Longrightarrow>
      \<exists>(h, p) \<in> P'. index_equivalent (location e) p \<and> token (index_shape x) h = token (index_shape x) (lr_hash (ls ! i))"
  shows "remains x' P' rid ls (Suc i)"
  unfolding remains_def x'(1)
proof (intro allI impI)
  fix t e assume e: "index_map x' t = Some e" "unat (region_id (location e)) = rid"
  then have "index_map x t = Some e" using x'(2) unfolding map_le_def by (metis domI)
  with r e(2) consider (later) j where "i \<le> j" "j < length ls" "e = log_entry rid ls j" "t = token (index_shape x) (lr_hash (ls ! j))"
    | (pending) "\<exists>(h, p) \<in> P. index_equivalent (location e) p \<and> token (index_shape x) h = t"
    unfolding remains_def by blast
  then show "(\<exists>j\<ge>Suc i. j < length ls \<and> e = log_entry rid ls j \<and> t = token (index_shape x) (lr_hash (ls ! j)))
      \<or> (\<exists>(h, p) \<in> P'. index_equivalent (location e) p \<and> token (index_shape x) h = t)"
  proof cases
    case later
    show ?thesis
    proof (cases "j = i")
      case True
      then show ?thesis using gone [of e] e(1) later by simp
    next
      case False
      then have "Suc i \<le> j" using later(1) by simp
      then show ?thesis using later by blast
    qed
  next
    case pending
    then show ?thesis using P by blast
  qed
qed

section \<open>A Region under reclaim\<close>

text \<open>A world in which the Region of the receipt is being reclaimed and is the log \<open>ls\<close>.\<close>

definition reclaiming_log :: "crc_stream \<Rightarrow> data_geometry \<Rightarrow> reclaim_receipt \<Rightarrow> log_record list \<Rightarrow> store_world \<Rightarrow> bool" where
  "reclaiming_log digest g q ls w \<longleftrightarrow>
     (\<exists>logs. store_inv digest g logs w \<and> logs (rc_region_id q) = ls) \<and> q \<in> set (reclaiming (rs_manager (w_store w)))"

lemma reclaiming_facts:
  fixes w q
  defines "m \<equiv> rs_manager (w_store w)" and "rid \<equiv> rc_region_id q"
  assumes "reclaiming_log digest g q ls w"
  shows "rid < length (regions m)" "rid < 2 ^ 20" "rc_created_seqno q = d_created_seqno (regions m ! rid)"
    "rc_physical_record_count q = length ls" "rc_used_offset q = log_len ls" "log_len ls \<le> 2 ^ 25"
    "\<forall>l \<in> set ls. known_record digest (w_puts w) (rc_created_seqno q) l" "\<forall>l \<in> set ls. log_record_ok (rc_created_seqno q) l"
    "region_holds digest g (w_device w) rid ls" "rid \<notin> set (active_regions m)" "puts_fit (as_chunk_bytes (rt_staging (w_store w))) (w_puts w)"
    "index_ok digest (rs_index (w_store w))"
    "remains (rs_index (w_store w)) P rid ls 0"
proof -
  obtain logs where inv: "store_inv digest g logs w" and ls: "logs rid = ls" and q: "q \<in> set (reclaiming m)"
    using assms(3) by (auto simp: reclaiming_log_def m_def rid_def)
  note D = store_invD [OF inv, folded m_def] and F = frameD [OF store_invD(1) [OF inv], folded m_def]
  have o: "receipt_ok (regions m) q" "rid \<in> set (idle_regions m)" using wf_owned(3) [OF F(4) q] by (simp_all add: rid_def)
  note i = wf_owned(2) [OF F(4) o(2)]
  show "rid < length (regions m)" "rid < 2 ^ 20" "rid \<notin> set (active_regions m)" using i F(17) by simp_all
  have rl: "region_log_ok digest g (w_device w) (w_puts w) rid (regions m ! rid) ls" using D(3) [of rid] i ls by simp
  then have n: "d_physical_record_count (regions m ! rid) = length ls" using i by (simp add: region_log_ok_def)
  show cr: "rc_created_seqno q = d_created_seqno (regions m ! rid)" using o(1) by (simp add: receipt_ok_def rid_def)
  show "rc_physical_record_count q = length ls" using o(1) n by (simp add: receipt_ok_def rid_def)
  show u: "rc_used_offset q = log_len ls" using o(1) rl n by (simp add: receipt_ok_def rid_def region_log_ok_def)
  show "log_len ls \<le> 2 ^ 25" using shard_lookup(3) [OF F(4), of rid] i o(1) u F(16) by (simp add: desc_ok_def receipt_ok_def rid_def)
  show "\<forall>l \<in> set ls. known_record digest (w_puts w) (rc_created_seqno q) l" "region_holds digest g (w_device w) rid ls"
    using rl n cr by (simp_all add: region_log_ok_def)
  then show ok: "\<forall>l \<in> set ls. log_record_ok (rc_created_seqno q) l" by (simp add: known_record_def)
  show "puts_fit (as_chunk_bytes (rt_staging (w_store w))) (w_puts w)" "index_ok digest (rs_index (w_store w))" using D(7) F(5) by simp_all
  show "remains (rs_index (w_store w)) P rid ls 0"
    unfolding remains_def
  proof (intro allI impI disjI1)
    fix t e assume e: "index_map (rs_index (w_store w)) t = Some e" "unat (region_id (location e)) = rid"
    with D(5) obtain r j where r: "r < length (regions m)" "j < d_physical_record_count (regions m ! r)" "e = log_entry r (logs r) j"
      "t = token (index_shape (rs_index (w_store w))) (lr_hash (logs r ! j))" unfolding index_log_ok_def by blast
    note rr = region_logD [OF D(3) [OF r(1)]]
    have "r = rid" using index_entry_region [OF inv r(1) [unfolded m_def] r(2) [unfolded m_def]] e(2) r(3) by simp
    then show "\<exists>j\<ge>0. j < length ls \<and> e = log_entry rid ls j \<and> t = token (index_shape (rs_index (w_store w))) (lr_hash (ls ! j))"
      using r ls n by auto
  qed
qed

section \<open>One record\<close>

lemma upsert_location:
  assumes "raw loc = UPSERT_PUBLICATION" shows "unat (record_len loc) = 32"
proof -
  have "take_bit 20 (drop_bit 40 (push_bit 63 1 :: u64)) = 0"
    by (rule bit_word_eqI) (auto simp: bit_simps)
  then show ?thesis using assms by (simp add: unat_record_len UPSERT_PUBLICATION_def)
qed

text \<open>Staging a record of the Region again.\<close>

lemma reinsert_sink_inv:
  assumes rec: "reclaiming_log digest g q ls w" and k: "k < length (active_regions (rs_manager (w_store w)))"
    and i: "i < length ls" and n: "aligned_len (length (lr_key (ls ! i))) (length (lr_value (ls ! i))) = Some n"
    and r: "r = \<lparr>rir_hash = lr_hash (ls ! i), rir_previous_location = exact_location (rc_region_id q) (log_offset ls i) (ls ! i),
      rir_logical_seqno = unat (hdr_seqno (lr_header (ls ! i))), rir_record_bytes = n,
      rir_payload = \<lparr>pl_key = lr_key (ls ! i), pl_value = lr_value (ls ! i), pl_crc = hdr_payload_crc (lr_header (ls ! i))\<rparr>\<rparr>"
  shows "\<exists>res s'. reinsert_sink digest busy k r (w_store w) = Some (res, s') \<and> rs_index s' = rs_index (w_store w)
    \<and> ((\<exists>e. res = Inl e) \<and> \<not> rs_healthy s' \<and> next_seqno (rs_manager s') = u64_max
       \<or> (\<exists>b. res = Inr b \<and> reclaiming_log digest g q ls (w\<lparr>w_store := s'\<rparr>)
            \<and> active_regions (rs_manager s') = active_regions (rs_manager (w_store w))
            \<and> pending_replacements w \<subseteq> pending_replacements (w\<lparr>w_store := s'\<rparr>)
            \<and> (b \<longrightarrow> (rir_hash r, rir_previous_location r) \<in> pending_replacements (w\<lparr>w_store := s'\<rparr>))))"
proof -
  let ?l = "ls ! i" let ?prev = "exact_location (rc_region_id q) (log_offset ls i) ?l"
  note R = reclaiming_facts [OF rec]
  obtain logs where inv: "store_inv digest g logs w" and ls: "logs (rc_region_id q) = ls" and q: "q \<in> set (reclaiming (rs_manager (w_store w)))"
    using rec by (auto simp: reclaiming_log_def)
  note F = frameD [OF store_invD(1) [OF inv]] and L = frame_locks [OF store_invD(1) [OF inv]]
  have l: "known_record digest (w_puts w) (rc_created_seqno q) ?l" "log_record_ok (rc_created_seqno q) ?l" using R(7,8) i by simp_all
  have n': "n = (48 + length (lr_key ?l) + length (lr_value ?l) + 31) div 32 * 32" using n by (simp only: aligned_len_eq_Some)
  have n32: "n mod 32 = 0" "64 \<le> n" "48 + length (lr_key ?l) + length (lr_value ?l) \<le> n"
    using div_mult_mod_eq [of "48 + length (lr_key ?l) + length (lr_value ?l) + 31" 32] by (simp_all add: n')
  have put: "(lr_hash ?l, lr_key ?l, lr_value ?l) \<in> w_puts w" using l(1) by (simp add: known_record_def)
  have fits: "n \<le> as_chunk_bytes (rt_staging (w_store w))" using R(11) put n unfolding puts_fit_def by blast
  have "has_valid_lengths (lr_header ?l)" using l(2) by (simp add: log_record_ok_def)
  moreover have "unat (hdr_seqno (lr_header ?l)) < 2 ^ 64" using unsigned_less [of "hdr_seqno (lr_header ?l)"] by simp
  ultimately have seq: "0 < unat (hdr_seqno (lr_header ?l))" "unat (hdr_seqno (lr_header ?l)) \<le> u64_max"
    by (auto simp: has_valid_lengths_def Let_def unat_gt_0 num_bounds split: if_splits)
  have "log_offset ls i + lr_len ?l \<le> 2 ^ 25" using log_offset_end [OF i] R(6) by simp
  then have "unat (record_len ?prev) = lr_len ?l" by (intro exact_location(4) [OF l(2) R(2) log_offset_mod [OF R(8)]])
  then have up: "raw ?prev \<noteq> UPSERT_PUBLICATION" using upsert_location [of ?prev] l(2) by (auto simp: log_record_ok_def)
  have known: "payload_known digest (w_puts w) (rir_hash r) n (rir_payload r) (Some (rir_logical_seqno r, rir_previous_location r))"
    using n32 put seq up l by (simp add: payload_known_def r known_record_def log_record_ok_def)
  have other: "active_regions (rs_manager (w_store w)) ! k \<noteq> rc_region_id q" using R(10) k nth_mem by metis
  obtain res s' where run: "try_stage_record digest (fst (busy r)) (snd (busy r)) k (rir_hash r) n (rir_payload r)
        (Some (rir_logical_seqno r, rir_previous_location r)) (w_store w) = Some (res, s')" "stage_keeps (w_store w) s'"
    and res: "(\<exists>e. res = Inl e) \<and> \<not> rs_healthy s' \<and> next_seqno (rs_manager s') = u64_max
       \<or> (\<exists>c. res = Inr c \<and> (\<forall>x y z. c \<noteq> Staged x y z) \<and> store_inv digest g logs (w\<lparr>w_store := s'\<rparr>))
       \<or> (\<exists>x y z l. res = Inr (Staged x y z)
            \<and> store_inv digest g (logs(active_regions (rs_manager (w_store w)) ! k := logs (active_regions (rs_manager (w_store w)) ! k) @ [l]))
                (w\<lparr>w_store := s', w_puts := w_puts w\<rparr>)
            \<and> (rir_hash r, rir_previous_location r) \<in> pending_replacements (w\<lparr>w_store := s', w_puts := w_puts w\<rparr>))"
    using try_stage_record_inv [OF inv k known subset_refl R(11) fits, of "fst (busy r)" "snd (busy r)"]
    by (elim exE conjE) (force intro: that)
  have sink: "reinsert_sink digest busy k r (w_store w) = Some (case res of Inl e \<Rightarrow> Inl e | Inr c \<Rightarrow> Inr (is_staged c), s')"
  proof -
    have "validate_stage n (w_store w) = Some (Inr (), w_store w)" using fits L(1) by (simp add: validate_stage_def pbind_def)
    then show ?thesis using run(1)
      by (simp add: reinsert_sink_def try_stage_reinsert_def pbind_def r split: sum.splits)
  qed
  have kept: "rs_index s' = rs_index (w_store w)" "active_regions (rs_manager s') = active_regions (rs_manager (w_store w))"
    "q \<in> set (reclaiming (rs_manager s'))" using run(2) q by (simp_all add: stage_keeps_def)
  have pend: "pending_replacements w \<subseteq> pending_replacements (w\<lparr>w_store := s'\<rparr>)" by (rule stage_keeps_pending [OF run(2)])
  from res show ?thesis
  proof (elim disjE exE conjE)
    fix e assume "res = Inl e" "\<not> rs_healthy s'" "next_seqno (rs_manager s') = u64_max"
    then show ?thesis using sink kept by auto
  next
    fix c assume c: "res = Inr c" "\<forall>x y z. c \<noteq> Staged x y z" "store_inv digest g logs (w\<lparr>w_store := s'\<rparr>)"
    have "\<not> is_staged c" using c(2) by (simp add: is_staged_def split: region_stage_value.split)
    moreover have "reclaiming_log digest g q ls (w\<lparr>w_store := s'\<rparr>)" using c(3) ls kept by (auto simp: reclaiming_log_def)
    ultimately show ?thesis using sink kept pend c(1) by auto
  next
    fix x y z l assume c: "res = Inr (Staged x y z)"
      "store_inv digest g (logs(active_regions (rs_manager (w_store w)) ! k := logs (active_regions (rs_manager (w_store w)) ! k) @ [l]))
        (w\<lparr>w_store := s', w_puts := w_puts w\<rparr>)"
      "(rir_hash r, rir_previous_location r) \<in> pending_replacements (w\<lparr>w_store := s', w_puts := w_puts w\<rparr>)"
    have same: "w\<lparr>w_store := s', w_puts := w_puts w\<rparr> = w\<lparr>w_store := s'\<rparr>" by simp
    have "reclaiming_log digest g q ls (w\<lparr>w_store := s'\<rparr>)" unfolding reclaiming_log_def
      by (intro conjI exI) (rule c(2) [unfolded same], use ls other kept in simp_all)
    then show ?thesis using sink kept pend c(1) c(3) [unfolded same] by auto
  qed
qed

text \<open>A record the reclaim removed from the index, under its hash and location.\<close>

definition scanned_as :: "reclaim_receipt \<Rightarrow> log_record list \<Rightarrow> nat \<Rightarrow> scanned_record" where
  "scanned_as q ls i =
     \<lparr>scr_header = lr_header (ls ! i), scr_header_end = log_offset ls i + 48, scr_record_end = log_offset ls i + lr_len (ls ! i),
      scr_payload_end = log_offset ls i + 48 + length (lr_key (ls ! i)) + length (lr_value (ls ! i)),
      scr_location = exact_location (rc_region_id q) (log_offset ls i) (ls ! i)\<rparr>"

text \<open>The state a scan step leaves: exhausted sequence numbers, or one record further.\<close>

definition scan_left ::
    "crc_stream \<Rightarrow> data_geometry \<Rightarrow> reclaim_receipt \<Rightarrow> log_record list \<Rightarrow> nat \<Rightarrow> store_world \<Rightarrow> region_runtime \<Rightarrow> bool" where
  "scan_left digest g q ls i w s' \<longleftrightarrow>
     reclaiming_log digest g q ls (w\<lparr>w_store := s'\<rparr>) \<and> active_regions (rs_manager s') = active_regions (rs_manager (w_store w))
     \<and> remains (rs_index s') (pending_replacements (w\<lparr>w_store := s'\<rparr>)) (rc_region_id q) ls i"

lemma remove_post:
  assumes rec: "reclaiming_log digest g q ls w" and i: "i < length ls"
    and rem: "remains (rs_index (w_store w)) (pending_replacements w) (rc_region_id q) ls i"
    and x': "index_ok digest x'" "index_shape x' = index_shape (rs_index (w_store w))"
      "index_map x' = (if b then (index_map (rs_index (w_store w)))(token (index_shape (rs_index (w_store w))) (lr_hash (ls ! i)) := None)
         else index_map (rs_index (w_store w)))"
    and b: "\<not> b \<longrightarrow> (\<forall>e. index_map (rs_index (w_store w)) (token (index_shape (rs_index (w_store w))) (lr_hash (ls ! i))) = Some e
      \<longrightarrow> \<not> index_equivalent (location e) (exact_location (rc_region_id q) (log_offset ls i) (ls ! i)))"
  shows "scan_left digest g q ls (Suc i) w ((w_store w)\<lparr>rs_index := x'\<rparr>)"
proof -
  note R = reclaiming_facts [OF rec]
  obtain logs where inv: "store_inv digest g logs w" and ls: "logs (rc_region_id q) = ls" and q: "q \<in> set (reclaiming (rs_manager (w_store w)))"
    using rec by (auto simp: reclaiming_log_def)
  have sub: "index_map x' \<subseteq>\<^sub>m index_map (rs_index (w_store w))" by (auto simp: x'(3) map_le_def)
  have "store_inv digest g logs (w\<lparr>w_store := (w_store w)\<lparr>rs_index := x'\<rparr>\<rparr>)" by (rule inv_index_shrink [OF inv x'(1,2) sub])
  then have "reclaiming_log digest g q ls (w\<lparr>w_store := (w_store w)\<lparr>rs_index := x'\<rparr>\<rparr>)"
    using ls q by (auto simp: reclaiming_log_def)
  moreover have "remains x' (pending_replacements w) (rc_region_id q) ls (Suc i)"
  proof (rule remains_step [OF rem x'(2) sub subset_refl])
    fix e assume e: "index_map x' (token (index_shape (rs_index (w_store w))) (lr_hash (ls ! i))) = Some e" "e = log_entry (rc_region_id q) ls i"
    have off: "log_offset ls (Suc i) \<le> 2 ^ 25" using log_offset_le [of "Suc i" ls] i R(6) by simp
    have "index_equivalent (location e) (exact_location (rc_region_id q) (log_offset ls i) (ls ! i))"
      unfolding e(2) by (rule log_entry_region(2) [OF R(8) i R(2) off])
    then have False using e(1) b by (auto simp: x'(3) split: if_splits)
    then show "\<exists>(h, p) \<in> pending_replacements w. index_equivalent (location e) p
        \<and> token (index_shape (rs_index (w_store w))) h = token (index_shape (rs_index (w_store w))) (lr_hash (ls ! i))" ..
  qed
  ultimately show ?thesis by (simp add: scan_left_def pending_replacements_def)
qed

text \<open>The last branch of the scan: the record is removed from the index.\<close>

definition drop_record :: "crc_stream \<Rightarrow> u64 \<Rightarrow> packed_location \<Rightarrow> scan_progress \<Rightarrow> scan_progress store_op" where
  "drop_record digest hash loc p =
     pbind (with_index (remove_if_match digest hash loc)) (\<lambda>removed.
     case removed of
       Inl e \<Rightarrow> pfail (index_storage_io_error e)
     | Inr b \<Rightarrow>
         (let st = (if b then count_removed (sp_stats p) else sp_stats p) in
          preturn (p\<lparr>sp_stats := st\<lparr>rst_reinsert_skipped := saturating_add u64_max (rst_reinsert_skipped st) 1\<rparr>\<rparr>)))"

lemma drop_record_inv:
  assumes rec: "reclaiming_log digest g q ls w" and i: "i < length ls"
    and rem: "remains (rs_index (w_store w)) (pending_replacements w) (rc_region_id q) ls i"
  shows "\<exists>p' s'. drop_record digest (lr_hash (ls ! i)) (exact_location (rc_region_id q) (log_offset ls i) (ls ! i)) p (w_store w) = Some (Inr p', s')
    \<and> rst_records_scanned (sp_stats p') = rst_records_scanned (sp_stats p) \<and> scan_left digest g q ls (Suc i) w s'"
proof -
  let ?x = "rs_index (w_store w)" and ?loc = "exact_location (rc_region_id q) (log_offset ls i) (ls ! i)"
  have "index_ok digest ?x" by (rule reclaiming_facts(12) [OF rec])
  from remove_matching_map [OF this, where hash = "lr_hash (ls ! i)" and expected = "Some ?loc" and non_waiting = False and contended = "\<lambda>_. False"]
  obtain b x' where x: "remove_if_match digest (lr_hash (ls ! i)) ?loc ?x = Some (Inr b, x')"
    "b = (\<exists>e. index_map ?x (token (index_shape ?x) (lr_hash (ls ! i))) = Some e \<and> index_equivalent (location e) ?loc)"
    "index_ok digest x'" "index_shape x' = index_shape ?x"
    "index_map x' = (if b then (index_map ?x)(token (index_shape ?x) (lr_hash (ls ! i)) := None) else index_map ?x)"
    unfolding remove_if_match_def expected_location by blast
  have "scan_left digest g q ls (Suc i) w ((w_store w)\<lparr>rs_index := x'\<rparr>)"
    by (rule remove_post [OF rec i rem x(3,4,5)]) (use x(2) in blast)
  then show ?thesis by (simp add: drop_record_def pbind_def with_index_def x(1) Let_def count_removed_def)
qed

definition reinsert_record :: "reclaim_receipt \<Rightarrow> log_record list \<Rightarrow> nat \<Rightarrow> nat \<Rightarrow> region_reinsert_record" where
  "reinsert_record q ls i n =
     \<lparr>rir_hash = lr_hash (ls ! i), rir_previous_location = exact_location (rc_region_id q) (log_offset ls i) (ls ! i),
      rir_logical_seqno = unat (hdr_seqno (lr_header (ls ! i))), rir_record_bytes = n,
      rir_payload = \<lparr>pl_key = lr_key (ls ! i), pl_value = lr_value (ls ! i), pl_crc = hdr_payload_crc (lr_header (ls ! i))\<rparr>\<rparr>"

definition count_budget_skipped :: "scan_progress \<Rightarrow> scan_progress" where
  "count_budget_skipped p = p\<lparr>sp_stats := (sp_stats p)\<lparr>rst_reinsert_budget_skipped :=
     saturating_add u64_max (rst_reinsert_budget_skipped (sp_stats p)) 1\<rparr>\<rparr>"

definition count_reinserted :: "nat \<Rightarrow> scan_progress \<Rightarrow> scan_progress" where
  "count_reinserted n p = p\<lparr>sp_budget := sp_budget p - n,
     sp_stats := (sp_stats p)\<lparr>rst_reinsert_records := saturating_add u64_max (rst_reinsert_records (sp_stats p)) 1,
       rst_reinsert_bytes := saturating_add u64_max (rst_reinsert_bytes (sp_stats p)) n\<rparr>\<rparr>"

lemma reinsert_or_remove_alt:
  "reinsert_or_remove digest try_reinsert bs r p =
     pbind (plift (ok_or (invalid_data ''reclaim key range overflow'')
       (checked_add usize_max (scr_header_end r) (unat (hdr_key_len (scr_header r)))))) (\<lambda>key_end.
     pbind (ppanic (slice_at bs (scr_header_end r) key_end)) (\<lambda>key.
     pbind (ppanic (slice_at bs key_end (scr_payload_end r))) (\<lambda>val.
     pbind (plift (ok_or (invalid_data ''reclaim replacement record is too large'') (aligned_len (length key) (length val)))) (\<lambda>n.
     pbind (case (if sp_accepting p \<or> \<not> n \<le> sp_budget p then payload_validate digest key val (hdr_payload_crc (scr_header r)) else None) of
         None \<Rightarrow> preturn (False, p)
       | Some payload \<Rightarrow>
           if n \<le> sp_budget p then
             pbind (try_reinsert \<lparr>rir_hash = hdr_key_hash (scr_header r), rir_previous_location = scr_location r,
               rir_logical_seqno = unat (hdr_seqno (scr_header r)), rir_record_bytes = n, rir_payload = payload\<rparr>) (\<lambda>reinserted.
             preturn (reinserted, p\<lparr>sp_accepting := reinserted\<rparr>))
           else preturn (False, count_budget_skipped p)) (\<lambda>(reinserted, p).
     if reinserted then preturn (count_reinserted n p)
     else drop_record digest (hdr_key_hash (scr_header r)) (scr_location r) p)))))"
  unfolding reinsert_or_remove_def drop_record_def count_reinserted_def count_budget_skipped_def Let_def ..

text \<open>A hot record of the log is offered to the sink with its own key and value, or dropped.\<close>

lemma reinsert_or_remove_cases:
  fixes ls i q
  defines "l \<equiv> ls ! i"
  defines "loc \<equiv> exact_location (rc_region_id q) (log_offset ls i) l"
  assumes ok: "\<forall>l \<in> set ls. log_record_ok (rc_created_seqno q) l" and i: "i < length ls" and b: "log_len ls \<le> 2 ^ 25"
  obtains n where "aligned_len (length (lr_key l)) (length (lr_value l)) = Some n"
    "reinsert_or_remove digest sink (log_bytes digest ls) (scanned_as q ls i) p s = drop_record digest (lr_hash l) loc p s
     \<or> reinsert_or_remove digest sink (log_bytes digest ls) (scanned_as q ls i) p s = drop_record digest (lr_hash l) loc (count_budget_skipped p) s
     \<or> reinsert_or_remove digest sink (log_bytes digest ls) (scanned_as q ls i) p s =
        pbind (sink (reinsert_record q ls i n)) (\<lambda>b. if b then preturn (count_reinserted n (p\<lparr>sp_accepting := b\<rparr>))
          else drop_record digest (lr_hash l) loc (p\<lparr>sp_accepting := b\<rparr>)) s"
proof -
  have l: "log_record_ok (rc_created_seqno q) l" using ok i by (simp add: l_def)
  have f: "48 + length (lr_key l) + length (lr_value l) \<le> lr_len l" "unat (hdr_key_len (lr_header l)) = length (lr_key l)"
    "unat (hdr_value_len (lr_header l)) = length (lr_value l)" using l by (simp_all add: log_record_ok_def)
  have e: "log_offset ls i + lr_len l \<le> log_len ls" using log_offset_end [OF i] by (simp add: l_def)
  obtain n where n: "aligned_len (length (lr_key l)) (length (lr_value l)) = Some n"
    using l f by (auto simp: log_record_ok_def has_valid_lengths_def Let_def split: if_splits option.splits)
  have key: "slice_at (log_bytes digest ls) (log_offset ls i + 48) (log_offset ls i + 48 + length (lr_key l)) = Some (lr_key l)"
    using log_slice [OF ok i, of 48 "48 + length (lr_key l)" digest] f(1) log_image_parts(2) [OF l, of digest] by (simp add: add.assoc l_def)
  have val: "slice_at (log_bytes digest ls) (log_offset ls i + 48 + length (lr_key l))
      (log_offset ls i + 48 + length (lr_key l) + length (lr_value l)) = Some (lr_value l)"
    using log_slice [OF ok i, of "48 + length (lr_key l)" "48 + length (lr_key l) + length (lr_value l)" digest] f(1)
      log_image_parts(3) [OF l, of digest] by (simp add: add.assoc l_def)
  have add: "checked_add usize_max (log_offset ls i + 48) (length (lr_key l)) = Some (log_offset ls i + 48 + length (lr_key l))"
    using e f(1) b by (simp add: checked_add_def num_bounds)
  note run = reinsert_or_remove_alt scanned_as_def l_def [symmetric] f(2) add key val n loc_def [symmetric] pbind_def lr_hash_def [symmetric]
  consider (none) "payload_validate digest (lr_key l) (lr_value l) (hdr_payload_crc (lr_header l)) = None \<or> \<not> sp_accepting p \<and> n \<le> sp_budget p"
    | (skip) "payload_validate digest (lr_key l) (lr_value l) (hdr_payload_crc (lr_header l)) \<noteq> None" "\<not> n \<le> sp_budget p"
    | (offer) "payload_validate digest (lr_key l) (lr_value l) (hdr_payload_crc (lr_header l)) \<noteq> None" "n \<le> sp_budget p" "sp_accepting p"
    by blast
  then show ?thesis
  proof cases
    case none
    then have "reinsert_or_remove digest sink (log_bytes digest ls) (scanned_as q ls i) p s = drop_record digest (lr_hash l) loc p s"
      by (auto simp add: run simp del: checked_add_eq_Some)
    then show ?thesis using that [OF n] by blast
  next
    case skip
    then have "reinsert_or_remove digest sink (log_bytes digest ls) (scanned_as q ls i) p s = drop_record digest (lr_hash l) loc (count_budget_skipped p) s"
      by (auto simp add: run simp del: checked_add_eq_Some)
    then show ?thesis using that [OF n] by blast
  next
    case offer
    then have pv: "payload_validate digest (lr_key l) (lr_value l) (hdr_payload_crc (lr_header l))
        = Some \<lparr>pl_key = lr_key l, pl_value = lr_value l, pl_crc = hdr_payload_crc (lr_header l)\<rparr>"
      by (auto simp: payload_validate_def payload_new_def Let_def split: if_splits)
    have "reinsert_or_remove digest sink (log_bytes digest ls) (scanned_as q ls i) p s =
        pbind (sink (reinsert_record q ls i n)) (\<lambda>b. if b then preturn (count_reinserted n (p\<lparr>sp_accepting := b\<rparr>))
          else drop_record digest (lr_hash l) loc (p\<lparr>sp_accepting := b\<rparr>)) s"
      using offer(2,3) pv
      by (simp add: run reinsert_record_def del: checked_add_eq_Some split: option.splits sum.splits prod.splits)
    then show ?thesis using that [OF n] by blast
  qed
qed

lemma scan_left_through:
  assumes "scan_left digest g q ls i (w\<lparr>w_store := s1\<rparr>) s'" "active_regions (rs_manager s1) = active_regions (rs_manager (w_store w))"
  shows "scan_left digest g q ls i w s'"
  using assms by (simp add: scan_left_def)

text \<open>Offering the record to the sink, and dropping it when the sink does not take it.\<close>

lemma offer_record_inv:
  fixes ls i q
  defines "l \<equiv> ls ! i"
  defines "loc \<equiv> exact_location (rc_region_id q) (log_offset ls i) l"
  assumes rec: "reclaiming_log digest g q ls w" and k: "k < length (active_regions (rs_manager (w_store w)))"
    and i: "i < length ls" and rem: "remains (rs_index (w_store w)) (pending_replacements w) (rc_region_id q) ls i"
    and n: "aligned_len (length (lr_key l)) (length (lr_value l)) = Some n"
  shows "\<exists>res s'. pbind (reinsert_sink digest busy k (reinsert_record q ls i n)) (\<lambda>b. if b then preturn (count_reinserted n (p\<lparr>sp_accepting := b\<rparr>))
          else drop_record digest (lr_hash l) loc (p\<lparr>sp_accepting := b\<rparr>)) (w_store w) = Some (res, s')
    \<and> ((\<exists>e. res = Inl e) \<and> \<not> rs_healthy s' \<and> next_seqno (rs_manager s') = u64_max
       \<or> (\<exists>p'. res = Inr p' \<and> rst_records_scanned (sp_stats p') = rst_records_scanned (sp_stats p) \<and> scan_left digest g q ls (Suc i) w s'))"
proof -
  note R = reclaiming_facts [OF rec]
  obtain res s2 where sink: "reinsert_sink digest busy k (reinsert_record q ls i n) (w_store w) = Some (res, s2)" "rs_index s2 = rs_index (w_store w)"
    and res: "(\<exists>e. res = Inl e) \<and> \<not> rs_healthy s2 \<and> next_seqno (rs_manager s2) = u64_max
       \<or> (\<exists>b. res = Inr b \<and> reclaiming_log digest g q ls (w\<lparr>w_store := s2\<rparr>)
            \<and> active_regions (rs_manager s2) = active_regions (rs_manager (w_store w))
            \<and> pending_replacements w \<subseteq> pending_replacements (w\<lparr>w_store := s2\<rparr>)
            \<and> (b \<longrightarrow> (lr_hash l, loc) \<in> pending_replacements (w\<lparr>w_store := s2\<rparr>)))"
    using reinsert_sink_inv [OF rec k i n [unfolded l_def] refl, of busy] by (auto simp: reinsert_record_def l_def loc_def)
  show ?thesis
  proof (cases "\<exists>b. res = Inr b \<and> reclaiming_log digest g q ls (w\<lparr>w_store := s2\<rparr>)")
    case False
    then obtain e where "res = Inl e" "\<not> rs_healthy s2" "next_seqno (rs_manager s2) = u64_max" using res by blast
    then show ?thesis using sink(1) by (simp add: pbind_def)
  next
    case True
    then obtain b where b: "res = Inr b" and rec2: "reclaiming_log digest g q ls (w\<lparr>w_store := s2\<rparr>)" by blast
    then have kept: "active_regions (rs_manager s2) = active_regions (rs_manager (w_store w))"
        "pending_replacements w \<subseteq> pending_replacements (w\<lparr>w_store := s2\<rparr>)"
        "b \<Longrightarrow> (lr_hash l, loc) \<in> pending_replacements (w\<lparr>w_store := s2\<rparr>)" using res b by auto
      show ?thesis
      proof (cases b)
        case True
        have off: "log_offset ls (Suc i) \<le> 2 ^ 25" using log_offset_le [of "Suc i" ls] i R(6) by simp
        have "remains (rs_index s2) (pending_replacements (w\<lparr>w_store := s2\<rparr>)) (rc_region_id q) ls (Suc i)"
          unfolding sink(2)
          by (rule remains_step [OF rem refl map_le_refl kept(2)])
            (use kept(3) [OF True] log_entry_region(2) [OF R(8) i R(2) off] in \<open>auto simp: loc_def l_def intro!: bexI [of _ "(lr_hash l, loc)"]\<close>)
        then show ?thesis using sink(1) b True rec2 kept(1) by (simp add: pbind_def scan_left_def count_reinserted_def)
      next
        case False
        have rem2: "remains (rs_index (w_store (w\<lparr>w_store := s2\<rparr>))) (pending_replacements (w\<lparr>w_store := s2\<rparr>)) (rc_region_id q) ls i"
          using rem kept(2) unfolding remains_def by (simp add: sink(2)) blast
        from drop_record_inv [OF rec2 i rem2, of "p\<lparr>sp_accepting := False\<rparr>"] scan_left_through [OF _ kept(1)]
        show ?thesis using sink(1) b False by (auto simp: pbind_def l_def loc_def)
      qed
  qed
qed

lemma scan_action_inv:
  assumes rec: "reclaiming_log digest g q ls w" and k: "k < length (active_regions (rs_manager (w_store w)))"
    and i: "i < length ls" and rem: "remains (rs_index (w_store w)) (pending_replacements w) (rc_region_id q) ls i"
  shows "\<exists>res s'. scan_action digest (reinsert_sink digest busy k) (log_bytes digest ls) (scanned_as q ls i) p (w_store w) = Some (res, s')
    \<and> ((\<exists>e. res = Inl e) \<and> \<not> rs_healthy s' \<and> next_seqno (rs_manager s') = u64_max
       \<or> (\<exists>p'. res = Inr p' \<and> rst_records_scanned (sp_stats p') = rst_records_scanned (sp_stats p) \<and> scan_left digest g q ls (Suc i) w s'))"
proof -
  let ?s = "w_store w" let ?x = "rs_index ?s" let ?l = "ls ! i"
  let ?loc = "exact_location (rc_region_id q) (log_offset ls i) ?l" let ?t = "token (index_shape ?x) (lr_hash ?l)"
  note R = reclaiming_facts [OF rec]
  obtain res x1 where pr: "prepare_reclaim digest (lr_hash ?l) ?loc ?x = Some (Inr res, x1)"
    "(res \<noteq> ReclaimMissing) = (\<exists>e. index_map ?x ?t = Some e \<and> index_equivalent (location e) ?loc)"
    "index_ok digest x1" "index_shape x1 = index_shape ?x"
    "index_map x1 = (if res = ReclaimRemoved then (index_map ?x)(?t := None) else index_map ?x)"
    using prepare_reclaim_map [OF R(12)] by blast
  have hl: "hdr_key_hash (scr_header (scanned_as q ls i)) = lr_hash ?l" "scr_location (scanned_as q ls i) = ?loc"
    by (simp_all add: scanned_as_def lr_hash_def)
  note run = scan_action_def pbind_def with_index_def hl pr(1)
  show ?thesis
  proof (cases "res = ReclaimReinsert")
    case False
    have "scan_left digest g q ls (Suc i) w (?s\<lparr>rs_index := x1\<rparr>)"
      by (rule remove_post [OF rec i rem pr(3,4,5)]) (use pr(2) False in \<open>cases res; auto\<close>)
    then show ?thesis using False by (cases res) (simp_all add: run count_removed_def)
  next
    case True
    define s1 where "s1 = ?s\<lparr>rs_index := x1\<rparr>"
    let ?w = "w\<lparr>w_store := s1\<rparr>"
    have same: "index_map x1 = index_map ?x" using pr(5) True by simp
    have rec1: "reclaiming_log digest g q ls ?w"
    proof -
      obtain logs where "store_inv digest g logs w" "logs (rc_region_id q) = ls" "q \<in> set (reclaiming (rs_manager ?s))"
        using rec by (auto simp: reclaiming_log_def)
      then show ?thesis using inv_index_shrink [of digest g logs w x1] pr(3,4) same by (auto simp: reclaiming_log_def s1_def)
    qed
    have act: "active_regions (rs_manager s1) = active_regions (rs_manager ?s)" by (simp add: s1_def)
    have pend1: "pending_replacements ?w = pending_replacements w" by (simp add: pending_replacements_def s1_def)
    have rem1: "remains (rs_index (w_store ?w)) (pending_replacements ?w) (rc_region_id q) ls i"
      unfolding pend1 using rem same pr(4) by (simp add: remains_def s1_def)
    have k1: "k < length (active_regions (rs_manager (w_store ?w)))" using k act by simp
    have steps: "scan_action digest (reinsert_sink digest busy k) (log_bytes digest ls) (scanned_as q ls i) p ?s
        = reinsert_or_remove digest (reinsert_sink digest busy k) (log_bytes digest ls) (scanned_as q ls i) p s1"
      using True by (simp add: run s1_def)
    note drop = drop_record_inv [OF rec1 i rem1]
    show ?thesis
    proof (rule reinsert_or_remove_cases [OF R(8) i R(6), of digest "reinsert_sink digest busy k" p s1], elim disjE)
      fix n
      assume n: "aligned_len (length (lr_key ?l)) (length (lr_value ?l)) = Some n"
        and "reinsert_or_remove digest (reinsert_sink digest busy k) (log_bytes digest ls) (scanned_as q ls i) p s1 =
          pbind (reinsert_sink digest busy k (reinsert_record q ls i n)) (\<lambda>b. if b then preturn (count_reinserted n (p\<lparr>sp_accepting := b\<rparr>))
            else drop_record digest (lr_hash ?l) ?loc (p\<lparr>sp_accepting := b\<rparr>)) s1"
      then show ?thesis using offer_record_inv [OF rec1 k1 i rem1 n, of busy p] scan_left_through [OF _ act] by (auto simp: steps)
    qed (use drop [of p] drop [of "count_budget_skipped p"] scan_left_through [OF _ act] in \<open>auto simp: steps count_budget_skipped_def\<close>)
  qed
qed

section \<open>The whole scan\<close>

lemma scan_loop_inv:
  assumes "reclaiming_log digest g q ls w" "k < length (active_regions (rs_manager (w_store w)))" "i \<le> length ls"
    "remains (rs_index (w_store w)) (pending_replacements w) (rc_region_id q) ls i" "rst_records_scanned (sp_stats p) = i"
  shows "\<exists>res s'. scan_loop digest (reinsert_sink digest busy k) q (log_bytes digest ls) (log_offset ls i) p (w_store w) = Some (res, s')
    \<and> ((\<exists>e. res = Inl e) \<and> \<not> rs_healthy s' \<and> next_seqno (rs_manager s') = u64_max
       \<or> (\<exists>p'. res = Inr p' \<and> rst_records_scanned (sp_stats p') = length ls \<and> scan_left digest g q ls (length ls) w s'))"
  using assms
proof (induction "length ls - i" arbitrary: i p w)
  case 0
  note R = reclaiming_facts [OF 0(2)]
  from 0 have i: "i = length ls" by simp
  then have "log_offset ls i = length (log_bytes digest ls)" using length_log_bytes [OF R(8)] by (simp add: log_offset_def)
  then have "scan_loop digest (reinsert_sink digest busy k) q (log_bytes digest ls) (log_offset ls i) p (w_store w) = Some (Inr p, w_store w)"
    by (subst scan_loop.simps) simp
  moreover have "scan_left digest g q ls (length ls) w (w_store w)" using 0 i by (simp add: scan_left_def)
  ultimately show ?case using 0(6) i by blast
next
  case (Suc d)
  note R = reclaiming_facts [OF Suc.prems(1)]
  have i: "i < length ls" using Suc.hyps(2) by simp
  have l64: "64 \<le> lr_len (ls ! i)" using R(8) i by (auto simp: log_record_ok_def)
  have lt: "log_offset ls i < length (log_bytes digest ls)"
    using log_offset_end [OF i] l64 length_log_bytes [OF R(8)] by simp
  have sc: "scan_record digest q (log_bytes digest ls) (log_offset ls i) = Inr (scanned_as q ls i)"
    using scan_record_log [OF R(8) i R(6,2)] by (simp add: scanned_as_def)
  obtain res s1 where act: "scan_action digest (reinsert_sink digest busy k) (log_bytes digest ls) (scanned_as q ls i) p (w_store w) = Some (res, s1)"
    and res: "(\<exists>e. res = Inl e) \<and> \<not> rs_healthy s1 \<and> next_seqno (rs_manager s1) = u64_max
       \<or> (\<exists>p'. res = Inr p' \<and> rst_records_scanned (sp_stats p') = rst_records_scanned (sp_stats p) \<and> scan_left digest g q ls (Suc i) w s1)"
    using scan_action_inv [OF Suc.prems(1,2) i Suc.prems(4), of busy p] by (elim exE conjE) (rule that)
  have nxt: "scr_record_end (scanned_as q ls i) = log_offset ls (Suc i)" by (simp add: scanned_as_def log_offset_Suc [OF i])
  have run: "scan_loop digest (reinsert_sink digest busy k) q (log_bytes digest ls) (log_offset ls i) p (w_store w) =
      (case res of Inl e \<Rightarrow> Some (Inl e, s1)
       | Inr p' \<Rightarrow> scan_loop digest (reinsert_sink digest busy k) q (log_bytes digest ls) (log_offset ls (Suc i)) (scan_advance (scanned_as q ls i) p') s1)"
    by (cases res; subst scan_loop.simps) (simp_all add: lt sc act nxt)
  show ?case
  proof (cases "\<exists>p'. res = Inr p' \<and> rst_records_scanned (sp_stats p') = rst_records_scanned (sp_stats p) \<and> scan_left digest g q ls (Suc i) w s1")
    case True
    then obtain p' where p': "res = Inr p'" "rst_records_scanned (sp_stats p') = i" "scan_left digest g q ls (Suc i) w s1" using Suc.prems(5) by auto
    let ?w = "w\<lparr>w_store := s1\<rparr>" and ?p = "scan_advance (scanned_as q ls i) p'"
    have act1: "active_regions (rs_manager s1) = active_regions (rs_manager (w_store w))" using p'(3) by (simp add: scan_left_def)
    have "i + 1 \<le> u64_max" using log_len_pos [OF R(8)] R(6) i by (simp add: num_bounds)
    then have cnt: "rst_records_scanned (sp_stats ?p) = Suc i" using p'(2) by (simp add: scan_advance_def saturating_add_def)
    have IH: "\<exists>res s'. scan_loop digest (reinsert_sink digest busy k) q (log_bytes digest ls) (log_offset ls (Suc i)) ?p (w_store ?w) = Some (res, s')
      \<and> ((\<exists>e. res = Inl e) \<and> \<not> rs_healthy s' \<and> next_seqno (rs_manager s') = u64_max
         \<or> (\<exists>p'. res = Inr p' \<and> rst_records_scanned (sp_stats p') = length ls \<and> scan_left digest g q ls (length ls) ?w s'))"
      by (rule Suc.hyps(1)) (use Suc.hyps(2) Suc.prems(2) p'(3) i act1 cnt in \<open>simp_all add: scan_left_def\<close>)
    have "scan_loop digest (reinsert_sink digest busy k) q (log_bytes digest ls) (log_offset ls i) p (w_store w)
        = scan_loop digest (reinsert_sink digest busy k) q (log_bytes digest ls) (log_offset ls (Suc i)) ?p (w_store ?w)"
      by (simp add: run p'(1))
    then show ?thesis using IH scan_left_through [OF _ act1] by metis
  next
    case False
    then obtain e where "res = Inl e" "\<not> rs_healthy s1" "next_seqno (rs_manager s1) = u64_max" using res by blast
    then show ?thesis unfolding run by auto
  qed
qed

section \<open>Reclaiming a Region\<close>

lemma begin_reclaim_inv:
  assumes inv: "store_inv digest g logs w"
  shows "\<exists>r s'. store_begin_reclaim (w_store w) = Some (Inr r, s') \<and> store_inv digest g logs (w\<lparr>w_store := s'\<rparr>)
    \<and> rs_index s' = rs_index (w_store w) \<and> (\<forall>q. r = Some q \<longrightarrow> q \<in> set (reclaiming (rs_manager s')))"
proof -
  define m where "m = rs_manager (w_store w)"
  note D = store_invD [OF inv, folded m_def] and F = frameD [OF store_invD(1) [OF inv], folded m_def] and L = frame_locks [OF store_invD(1) [OF inv]]
  obtain r m' where b: "begin_reclaim m = (Inr r, m')" "regions m' = regions m" "append_states m' = append_states m"
    "active_regions m' = active_regions m" "rm_region_size m' = rm_region_size m" "set (reclaiming m) \<subseteq> set (reclaiming m')"
    "\<forall>q. r = Some q \<longrightarrow> q \<in> set (reclaiming m')"
    by (rule that [of "case fst (begin_reclaim m) of Inr r \<Rightarrow> r | Inl _ \<Rightarrow> None" "snd (begin_reclaim m)"])
      (auto simp: begin_reclaim_eq [OF F(4)] Let_def)
  have "manager_wf m'" using begin_reclaim_wf [OF F(4)] b(1) by simp
  from inv_manager_change [OF inv this] b(2-6)
  have "store_inv digest g logs (w\<lparr>w_store := (w_store w)\<lparr>rs_manager := m'\<rparr>\<rparr>)" by (simp add: m_def)
  moreover have "store_begin_reclaim (w_store w) = Some (Inr r, (w_store w)\<lparr>rs_manager := m'\<rparr>)"
    using b(1) by (simp add: store_begin_reclaim_def pbind_def L(1,2) with_manager_def m_def)
  ultimately show ?thesis using b(7) by simp
qed

text \<open>The bytes the worker reads back: the sealed prefix at the absolute offset of the Region.\<close>

lemma reclaim_bytes:
  assumes rec: "reclaiming_log digest g q ls w"
  shows "\<exists>at. reclaim_absolute q (w_store w) = Some (Inr at, w_store w)
    \<and> take (rc_used_offset q) (drop at (w_device w)) = log_bytes digest ls"
proof -
  note R = reclaiming_facts [OF rec]
  obtain logs where inv: "store_inv digest g logs w" using rec by (auto simp: reclaiming_log_def)
  note F = frameD [OF store_invD(1) [OF inv]] and L = frame_locks [OF store_invD(1) [OF inv]]
  have g: "rc_region_id q < dg_region_count g" using R(1) F(10) by simp
  note e = geometry_extent [OF F(8) g]
  have "rc_region_id q * rm_region_size (rs_manager (w_store w)) \<le> u64_max"
    "DATA_REGION_AREA_OFFSET + rc_region_id q * rm_region_size (rs_manager (w_store w)) \<le> u64_max"
    using e(1,2) F(9) by (simp_all add: num_bounds DATA_REGION_AREA_OFFSET_def RECOVERY_PAGE_SIZE_def)
  then have "reclaim_absolute q (w_store w)
      = Some (Inr (DATA_REGION_AREA_OFFSET + rc_region_id q * rm_region_size (rs_manager (w_store w))), w_store w)"
    by (simp add: reclaim_absolute_def pbind_def L(2) checked_mul_def checked_add_def)
  then show ?thesis using R(5,9) F(9) by (simp add: region_holds_def)
qed

lemma scan_reclaim_inv:
  assumes rec: "reclaiming_log digest g q ls w" and k: "k < length (active_regions (rs_manager (w_store w)))"
  shows "\<exists>res s'. scan_reclaim digest q (log_bytes digest ls) accepting (reinsert_sink digest busy k) (w_store w) = Some (res, s')
    \<and> ((\<exists>e. res = Inl e) \<and> \<not> rs_healthy s' \<and> next_seqno (rs_manager s') = u64_max
       \<or> (\<exists>stats. res = Inr stats \<and> rst_records_scanned stats = length ls
            \<and> (\<exists>logs. store_inv digest g logs (w\<lparr>w_store := s', w_scanned := insert q (w_scanned w)\<rparr>))))"
proof -
  note R = reclaiming_facts [OF rec]
  let ?loop = "scan_loop digest (reinsert_sink digest busy k) q (log_bytes digest ls) 0 (scan_start q accepting) (w_store w)"
  have z: "log_offset ls 0 = 0" by (simp add: log_offset_def)
  obtain res s' where loop: "?loop = Some (res, s')"
    and res: "(\<exists>e. res = Inl e) \<and> \<not> rs_healthy s' \<and> next_seqno (rs_manager s') = u64_max
      \<or> (\<exists>p'. res = Inr p' \<and> rst_records_scanned (sp_stats p') = length ls \<and> scan_left digest g q ls (length ls) w s')"
    using scan_loop_inv [OF rec k le0 R(13), of "scan_start q accepting" busy] unfolding z
    by (auto simp: scan_start_def)
  have len: "length (log_bytes digest ls) = rc_used_offset q" using length_log_bytes [OF R(8)] R(5) by simp
  from res show ?thesis
  proof (elim disjE exE conjE)
    fix e assume "res = Inl e" "\<not> rs_healthy s'" "next_seqno (rs_manager s') = u64_max"
    then show ?thesis using loop len by (simp add: scan_reclaim_def pbind_def)
  next
    fix p' assume p': "res = Inr p'" "rst_records_scanned (sp_stats p') = length ls" "scan_left digest g q ls (length ls) w s'"
    let ?w = "w\<lparr>w_store := s'\<rparr>"
    obtain logs where inv: "store_inv digest g logs ?w" and q: "q \<in> set (reclaiming (rs_manager s'))"
      and cov: "covered (rs_index s') (pending_replacements ?w) (rc_region_id q)"
      using p'(3) remains_all [OF le_refl] by (auto simp: scan_left_def reclaiming_log_def)
    note D = store_invD [OF inv]
    have "pending_replacements (w\<lparr>w_store := s', w_scanned := insert q (w_scanned w)\<rparr>) = pending_replacements ?w"
      by (simp add: pending_replacements_def)
    then have "store_inv digest g logs (w\<lparr>w_store := s', w_scanned := insert q (w_scanned w)\<rparr>)"
      using D q cov by (intro store_invI) auto
    then show ?thesis using loop len p'(1,2) R(4) by (auto simp: scan_reclaim_def pbind_def)
  qed
qed

lemma complete_reclaim_inv:
  assumes inv: "store_inv digest g logs w" and q: "q \<in> w_scanned w"
    and settled: "\<forall>(h, p) \<in> pending_replacements w. unat (region_id p) \<noteq> rc_region_id q"
  shows "\<exists>s'. complete_reclaim q (w_store w) = Some (Inr (), s') \<and> rs_index s' = rs_index (w_store w)
    \<and> store_inv digest g (logs(rc_region_id q := [])) (w\<lparr>w_store := s', w_scanned := w_scanned w - {q}\<rparr>)"
proof -
  define s where "s = w_store w"
  define m where "m = rs_manager s"
  define rid where "rid = rc_region_id q"
  note D = store_invD [OF inv, folded s_def, folded m_def] and F = frameD [OF store_invD(1) [OF inv], folded s_def, folded m_def]
  have sq: "q \<in> set (reclaiming m)" "covered (rs_index s) (pending_replacements w) rid" using D(6) [OF q] by (simp_all add: rid_def)
  obtain i where i: "i < length (reclaiming m)" "reclaiming m ! i = q"
    and fin: "finish_reclaim q m = (Inr (), (update_region rid (\<lambda>_. free_desc) m)\<lparr>free_regions := free_regions m @ [rid], reclaiming := swap_remove (reclaiming m) i\<rparr>)"
    unfolding rid_def by (rule finish_reclaim_ok [OF F(4) sq(1)])
  define m' where "m' = (update_region rid (\<lambda>_. free_desc) m)\<lparr>free_regions := free_regions m @ [rid], reclaiming := swap_remove (reclaiming m) i\<rparr>"
  have wf: "manager_wf m'" using finish_reclaim_wf [OF F(4), of q] fin by (simp add: m'_def)
  note o = wf_owned(3) [OF F(4) sq(1), folded rid_def] and oo = wf_owned(2) [OF F(4), of rid]
  have rid: "rid < length (regions m)" "rid \<notin> set (active_regions m)" using o oo by simp_all
  have mf: "regions m' = (regions m)[rid := free_desc]" "append_states m' = append_states m" "active_regions m' = active_regions m"
    "rm_region_size m' = rm_region_size m" "reclaiming m' = swap_remove (reclaiming m) i"
    by (simp_all add: m'_def update_region_def)
  define s' where "s' = s\<lparr>rs_region_generations := (rs_region_generations s)[rid := 0], rs_manager := m'\<rparr>"
  have lock: "manager_lock (s\<lparr>rs_region_generations := y\<rparr>) = Some (Inr (), s\<lparr>rs_region_generations := y\<rparr>)" for y
    by (rule healthy_locks) (use F(1,2) in simp_all)
  have run: "complete_reclaim q s = Some (Inr (), s')"
    using rid(1) F(7) fin by (simp add: complete_reclaim_def pbind_def lock with_manager_def rid_def [symmetric] m_def [symmetric] s'_def m'_def)
  have none: "unat (region_id (location e)) \<noteq> rid" if "index_map (rs_index s) t = Some e" for t e
  proof
    assume "unat (region_id (location e)) = rid"
    from sq(2) [unfolded covered_def, rule_format, OF that this]
    obtain h p where p: "(h, p) \<in> pending_replacements w" "index_equivalent (location e) p" by blast
    then have "unat (region_id p) = rid" using \<open>unat (region_id (location e)) = rid\<close> by (simp add: index_equivalent_def)
    with settled p(1) show False by (auto simp: rid_def)
  qed
  let ?w = "w\<lparr>w_store := s', w_scanned := w_scanned w - {q}\<rparr>"
  have regs: "region_log_ok digest g (w_device w) (w_puts w) r (regions m' ! r) ((logs(rid := [])) r)" if r: "r < length (regions m')" for r
    using r rid(1) D(3) [of r] by (cases "r = rid") (simp_all add: mf(1) region_log_ok_def free_desc_def region_holds_def)
  have shards: "shard_log_ok digest g (rt_staging s) k (active_regions m' ! k) (regions m' ! (active_regions m' ! k)) (append_states m' ! k)
      (as_shards (rt_staging s) ! k) (w_jobs w k) ((logs(rid := [])) (active_regions m' ! k))" if k: "k < length (active_regions m')" for k
  proof -
    have "active_regions m ! k \<noteq> rid" using rid(2) k nth_mem mf(3) by metis
    then show ?thesis using D(4) [of k] k by (simp add: mf)
  qed
  have idx: "index_log_ok (rs_index s) (regions m') (logs(rid := []))"
    unfolding index_log_ok_def
  proof (intro allI impI)
    fix t e assume e: "index_map (rs_index s) t = Some e"
    with D(5) obtain r j where r: "r < length (regions m)" "j < d_physical_record_count (regions m ! r)" "e = log_entry r (logs r) j"
      "t = token (index_shape (rs_index s)) (lr_hash (logs r ! j))" unfolding index_log_ok_def by blast
    have "r \<noteq> rid" using none [OF e] index_entry_region(1) [OF inv, folded s_def, folded m_def, OF r(1,2)] r(3) by auto
    then show "\<exists>rid'<length (regions m'). \<exists>i<d_physical_record_count (regions m' ! rid').
        e = log_entry rid' ((logs(rid := [])) rid') i \<and> t = token (index_shape (rs_index s)) (lr_hash ((logs(rid := [])) rid' ! i))"
      using r by (intro exI [of _ r] conjI exI [of _ j]) (simp_all add: mf(1))
  qed
  have gens: "(map d_created_seqno (regions m))[rid := 0] = map d_created_seqno (regions m')" by (simp add: mf(1) map_update free_desc_def)
  have pend: "pending_replacements ?w = pending_replacements w" by (simp add: pending_replacements_def s'_def s_def)
  have scanned: "c \<in> set (reclaiming m') \<and> covered (rs_index s) (pending_replacements w) (rc_region_id c)" if "c \<in> w_scanned w - {q}" for c
  proof -
    have "mset (reclaiming m) = add_mset q (mset (reclaiming m'))" using mset_swap_remove [OF i(1)] i(2) by (simp add: mf(5))
    then have "set (reclaiming m) = insert q (set (reclaiming m'))" by (metis set_mset_add_mset_insert set_mset_mset)
    then show ?thesis using D(6) [of c] that by auto
  qed
  have sf: "rs_manager s' = m'" "rs_index s' = rs_index s" "rt_staging s' = rt_staging s" by (simp_all add: s'_def)
  have "store_inv digest g (logs(rid := [])) ?w"
  proof (rule store_invI)
    show "store_frame digest g (w_store ?w)" using F wf mf(2-4) gens by (simp add: store_frame_def s'_def mf(1))
  qed (use D(2,7) regs shards idx scanned in \<open>simp_all add: pend sf split del: if_split\<close>)
  with run show ?thesis by (auto simp: rid_def s'_def s_def)
qed

end
