(* ===== verification/Store_World.thy ===== *)
theory Store_World
  imports Store_Scan
begin

text \<open>
  The store with its environment as a labelled transition system. One step is one operation of the runtime:
  a put, a deletion, a lookup, the two halves of a flush, a rotation, and the three parts of a reclaim. Steps of
  different threads interleave in any order; what the locks make atomic is one step.
\<close>

section \<open>Miss-only is permanent\<close>

text \<open>An operation that never sets the health flag again.\<close>

definition latched :: "'a store_op \<Rightarrow> bool" where
  "latched m \<longleftrightarrow> (\<forall>s r s'. m s = Some (r, s') \<longrightarrow> rs_healthy s' \<longrightarrow> rs_healthy s)"

named_theorems latched_rules

lemma latched_simple [latched_rules]:
  "latched (preturn a)" "latched (pfail e)" "latched (plift r)" "latched (pget f)" "latched (ppanic b)"
  "latched enter_miss_only" "latched (fail_miss_only e)" "latched (fail_closing e)"
  "latched (with_manager op)" "latched (with_index x)" "latched (with_staging y)" "latched (with_staging_partial z)"
  by (auto simp: latched_def with_manager_def with_index_def with_staging_def with_staging_partial_def ppanic_def
      split: prod.splits option.splits)

lemma latched_pmodify [latched_rules]: "(\<And>s. rs_healthy (f s) = rs_healthy s) \<Longrightarrow> latched (pmodify f)"
  by (auto simp: latched_def)

lemma latched_pbind [latched_rules]: "latched m \<Longrightarrow> (\<And>a. latched (f a)) \<Longrightarrow> latched (pbind m f)"
  unfolding latched_def by (auto simp: pbind_def split: option.splits sum.splits)

lemma latched_split [latched_rules]:
  "(b \<Longrightarrow> latched m) \<Longrightarrow> (\<not> b \<Longrightarrow> latched m') \<Longrightarrow> latched (if b then m else m')"
  "latched m \<Longrightarrow> (\<And>x. latched (f x)) \<Longrightarrow> latched (case opt of None \<Rightarrow> m | Some x \<Rightarrow> f x)"
  "(\<And>e. latched (h e)) \<Longrightarrow> (\<And>x. latched (k x)) \<Longrightarrow> latched (case r of Inl e \<Rightarrow> h e | Inr x \<Rightarrow> k x)"
  "(\<And>x y. latched (p x y)) \<Longrightarrow> latched (case q of (x, y) \<Rightarrow> p x y)"
  by (auto split: option.split sum.split prod.split)

lemma latchedD: "latched m \<Longrightarrow> m s = Some (r, s') \<Longrightarrow> rs_healthy s' \<Longrightarrow> rs_healthy s"
  by (auto simp: latched_def)

lemma latched_locks [latched_rules]:
  "latched require_healthy" "latched manager_lock" "latched (manager_try_lock busy)" "latched (append_gate k)" "latched (lock_shard_mutation k)"
  unfolding require_healthy_def manager_lock_def manager_try_lock_def append_gate_def lock_shard_mutation_def
  by (intro latched_rules)+

lemma latched_cases [latched_rules]:
  "latched a1 \<Longrightarrow> latched a2 \<Longrightarrow> latched a3 \<Longrightarrow> latched a4 \<Longrightarrow> latched a5 \<Longrightarrow> latched a6 \<Longrightarrow> latched a7 \<Longrightarrow> latched a8
     \<Longrightarrow> (\<And>x. latched (a9 x)) \<Longrightarrow> latched (case_region_mutation_error a1 a2 a3 a4 a5 a6 a7 a8 a9 e)"
  "latched b1 \<Longrightarrow> latched b2 \<Longrightarrow> latched b3 \<Longrightarrow> latched b4 \<Longrightarrow> latched b5 \<Longrightarrow> (\<And>x. latched (b6 x))
     \<Longrightarrow> latched (case_staging_error b1 b2 b3 b4 b5 b6 e')"
  "(\<And>x. latched (c1 x)) \<Longrightarrow> (\<And>x. latched (c2 x)) \<Longrightarrow> latched (case_staging_encode_error c1 c2 e'')"
  "(\<And>x y. latched (d1 x y)) \<Longrightarrow> latched d2 \<Longrightarrow> latched (case_stage_append d1 d2 v)"
  "latched f1 \<Longrightarrow> latched f2 \<Longrightarrow> latched f3 \<Longrightarrow> latched (case_reclaim_index_action f1 f2 f3 c)"
  "latched g1 \<Longrightarrow> latched g2 \<Longrightarrow> latched (case_bool g1 g2 b)"
  by (auto split: region_mutation_error.split staging_error.split staging_encode_error.split stage_append.split reclaim_index_action.split bool.split)

lemma latched_try_stage_record [latched_rules]: "latched (try_stage_record digest gate_busy manager_busy k hash n payload reinsert)"
  unfolding try_stage_record_def reserve_and_stage_def encode_staged_def fail_preflighted_stage_def
  by (intro latched_rules)

lemma latched_stage [latched_rules]:
  "latched (validate_stage n)" "latched (try_stage_value digest gb mb k hash n key val)" "latched (try_stage_reinsert digest gb mb k r)"
  "latched (try_delete_value digest mb contended hash)" "latched (reinsert_sink digest busy k r)"
  unfolding validate_stage_def try_stage_value_def try_stage_reinsert_def try_delete_value_def reinsert_sink_def
  by (intro latched_rules)+

lemma latched_flush_begin [latched_rules]: "latched (flush_begin digest k)"
  unfolding flush_begin_def seal_aligned_def pad_and_seal_def geometry_for_def by (intro latched_rules)

lemma latched_publish [latched_rules]: "latched (publish_completed_records digest rs)"
  by (induction rs) (auto simp only: publish_completed_records.simps intro!: latched_rules)

lemma latched_fail_span [latched_rules]: "latched (fail_staged_span span buffer records e)"
  unfolding fail_staged_span_def by (intro latched_rules)

lemma latched_or_fail_span [latched_rules]: "latched m \<Longrightarrow> latched (or_fail_span span buffer records m)"
  using latched_fail_span [of span buffer records]
  unfolding latched_def or_fail_span_def by (auto split: option.splits sum.splits) blast+

lemma latched_flush_complete [latched_rules]: "latched (flush_complete digest records completion)"
  unfolding flush_complete_def by (intro latched_rules)

lemma latched_rotate [latched_rules]: "latched (rotate_shard k)"
  unfolding rotate_shard_def begin_store_rotation_def by (intro latched_rules) simp

lemma latched_scan_action [latched_rules]: "(\<And>r. latched (sink r)) \<Longrightarrow> latched (scan_action digest sink bs r p)"
  unfolding scan_action_def reinsert_or_remove_alt drop_record_def Let_def by (intro latched_rules)

lemma scan_loop_latched:
  "scan_loop digest sink q bs off p s = Some (r, s') \<Longrightarrow> (\<And>x. latched (sink x)) \<Longrightarrow> rs_healthy s' \<Longrightarrow> rs_healthy s"
proof (induction digest sink q bs off p s rule: scan_loop.induct)
  case (1 digest sink q bs off p s)
  note run = 1(2) [unfolded scan_loop.simps [of digest sink q bs off p s]] and IH = 1(1) and sink = 1(3) and healthy = 1(4)
  have step: "rs_healthy s1 \<Longrightarrow> rs_healthy s" if "scan_action digest sink bs x p s = Some (r1, s1)" for x r1 s1
    using latchedD [OF latched_scan_action [where sink = sink, OF sink] that] .
  show ?case
  proof (cases "off < length bs")
    case True
    show ?thesis
    proof (cases "scan_record digest q bs off")
      case (Inl e) with run healthy True show ?thesis by simp
    next
      case (Inr x)
      note scanned = this
      show ?thesis
      proof (cases "scan_action digest sink bs x p s")
        case None with run True scanned show ?thesis by simp
      next
        case (Some y)
        obtain r1 s1 where y: "y = (r1, s1)" by (cases y)
        have "rs_healthy s1"
        proof (cases r1)
          case (Inl e) with run healthy True scanned Some y show ?thesis by simp
        next
          case (Inr p')
          have "scan_loop digest sink q bs (scr_record_end x) (scan_advance x p') s1 = Some (r, s')"
            using run True scanned Some y Inr by simp
          then show ?thesis using IH [OF True scanned Some y [symmetric] Inr] sink healthy by blast
        qed
        then show ?thesis using step [of x r1 s1] Some y by simp
      qed
    qed
  next
    case False with run healthy show ?thesis by simp
  qed
qed

lemma latched_scan_loop [latched_rules]:
  "(\<And>r. latched (sink r)) \<Longrightarrow> latched (scan_loop digest sink q bs off p)"
  using scan_loop_latched unfolding latched_def by blast

lemma latched_reclaim [latched_rules]:
  "(\<And>r. latched (sink r)) \<Longrightarrow> latched (scan_reclaim digest q bs accepting sink)" "latched store_begin_reclaim" "latched (complete_reclaim q)"
  unfolding scan_reclaim_def store_begin_reclaim_def complete_reclaim_def
  by (intro latched_rules; simp)+

lemma latched_absolute [latched_rules]: "latched (reclaim_absolute q)"
  unfolding reclaim_absolute_def by (intro latched_rules)

lemma latched_point_read [latched_rules]: "latched (begin_point_read digest contended hash)"
  unfolding begin_point_read_def by (intro latched_rules)

section \<open>A lookup with its read\<close>

text \<open>
  A lookup through the index and the data file: \<^verbatim>\<open>prepare_get\<close>, \<^verbatim>\<open>submit_reserved_get\<close>, \<^verbatim>\<open>finish_get\<close> and
  \<^verbatim>\<open>get_async\<close> of \<^verbatim>\<open>cache/runtime/mod.rs\<close> from the point where the memory tier has missed, without the activity
  counters and the promotion into that tier. What the engine, the read lanes, the waiter queue and the memory limit
  answer to one lookup is its environment: which lanes refuse a slot, whether a queued read gets its permit and its slot, whether
  there is a buffer, whether the submission is refused, and how the read of a descriptor completes.
\<close>

record read_env =
  re_waits :: bool
  re_lane_count :: nat
  re_lane :: "nat \<Rightarrow> io_error option"
  re_cursor :: nat
  re_permit :: bool
  re_slot_wait :: "io_error option"
  re_buffer :: bool
  re_submit :: "io_error option"
  re_completion :: "read_desc \<Rightarrow> bytes io_completion"

text \<open>\<^verbatim>\<open>match ... { Err(error) => ... }\<close>: what follows a failed operation.\<close>

definition pcatch :: "('s, 'e, 'a) partial_op \<Rightarrow> ('e \<Rightarrow> ('s, 'e, 'a) partial_op) \<Rightarrow> ('s, 'e, 'a) partial_op" where
  "pcatch m handler s = (case m s of None \<Rightarrow> None | Some (Inl e, s') \<Rightarrow> handler e s' | Some (Inr a, s') \<Rightarrow> Some (Inr a, s'))"

definition try_reserve_read_lane :: "nat \<Rightarrow> (nat \<Rightarrow> io_error option) \<Rightarrow> nat \<Rightarrow> u64 \<Rightarrow> io_error + nat" where
  "try_reserve_read_lane lane_count lane cursor route =
     (let primary = route_hash route lane_count in
      case lane primary of
        None \<Rightarrow> Inr primary
      | Some primary_error \<Rightarrow>
          if lane_count = 1 \<or> \<not> is_read_pressure (error_kind primary_error) then Inl primary_error
          else
            let alternate = (primary + (1 + cursor mod (lane_count - 1))) mod lane_count in
            case lane alternate of
              None \<Rightarrow> Inr alternate
            | Some e \<Rightarrow> if \<not> is_read_pressure (error_kind e) then Inl e else Inl primary_error)"

definition submit_value_read :: "read_env \<Rightarrow> read_desc \<Rightarrow> read_desc store_op" where
  "submit_value_read env desc =
     (case re_submit env of None \<Rightarrow> preturn desc | Some e \<Rightarrow> submit_value_read_failed e)"

definition store_read_pressure :: "store_error \<Rightarrow> bool" where
  "store_read_pressure e = (case e of StoreIo e \<Rightarrow> is_read_pressure (error_kind e) | _ \<Rightarrow> False)"

text \<open>The three error arms that \<^verbatim>\<open>prepare_get\<close> and \<^verbatim>\<open>finish_get\<close> share: a miss once the store is miss-only, pressure a miss unless reads wait.\<close>

definition l2_read_failed :: "read_env \<Rightarrow> store_error \<Rightarrow> 'a option store_op" where
  "l2_read_failed env e =
     pbind (pget rs_healthy) (\<lambda>healthy.
     if \<not> healthy then preturn None
     else if store_read_pressure e then (if re_waits env then pfail e else preturn None)
     else pfail e)"

datatype prepared_get = GetComplete "region_value option" | GetPending read_desc | GetWaiting read_desc

definition reserve_get :: "read_env \<Rightarrow> u64 \<Rightarrow> read_desc \<Rightarrow> prepared_get store_op" where
  "reserve_get env hash desc =
     (case try_reserve_read_lane (re_lane_count env) (re_lane env) (re_cursor env) hash of
        Inl e \<Rightarrow>
          if error_kind e = WouldBlockKind \<and> re_waits env
          then (if re_permit env then preturn (GetWaiting desc)
                else pfail (StoreIo (IoError WouldBlockKind ''L2 read wait queue is full'')))
          else if is_read_pressure (error_kind e) then preturn (GetComplete None)
          else pbind enter_miss_only (\<lambda>_. preturn (GetComplete None))
      | Inr lane \<Rightarrow>
          if \<not> re_buffer env
          then (if re_waits env then pfail (StoreIo (IoError OutOfMemory ''L2 read could not reserve its bounded buffer''))
                else preturn (GetComplete None))
          else
            pbind (pcatch (pbind (submit_value_read env desc) (\<lambda>read. preturn (Some read))) (l2_read_failed env)) (\<lambda>read.
            preturn (case read of Some read \<Rightarrow> GetPending read | None \<Rightarrow> GetComplete None)))"

definition prepare_l2_get ::
    "crc_stream \<Rightarrow> data_geometry \<Rightarrow> (nat \<Rightarrow> bool) \<Rightarrow> bool \<Rightarrow> read_env \<Rightarrow> u64 \<Rightarrow> prepared_get store_op" where
  "prepare_l2_get digest g contended direct env hash =
     pbind (begin_point_read digest contended hash) (\<lambda>found.
     case found of
       None \<Rightarrow> preturn (GetComplete None)
     | Some candidate \<Rightarrow>
     case describe_read g hash candidate direct of
       Inl e \<Rightarrow> pbind enter_miss_only (\<lambda>_. preturn (GetComplete None))
     | Inr desc \<Rightarrow> reserve_get env hash desc)"

definition prepare_get ::
    "crc_stream \<Rightarrow> data_geometry \<Rightarrow> (nat \<Rightarrow> bool) \<Rightarrow> bool \<Rightarrow> read_env \<Rightarrow> u64 \<Rightarrow> bytes \<Rightarrow> prepared_get store_op" where
  "prepare_get digest g contended direct env hash key =
     (if length key > MAX_KEY_SIZE then preturn (GetComplete None)
      else
        pbind (pget rs_healthy) (\<lambda>healthy.
        if \<not> healthy then preturn (GetComplete None)
        else prepare_l2_get digest g contended direct env hash))"

definition submit_reserved_get :: "read_env \<Rightarrow> read_desc \<Rightarrow> read_desc option store_op" where
  "submit_reserved_get env desc =
     (if \<not> re_buffer env
      then pfail (StoreIo (IoError OutOfMemory ''L2 read could not reserve its bounded buffer after waiting''))
      else
        pcatch (pbind (submit_value_read env desc) (\<lambda>read. preturn (Some read))) (\<lambda>e.
          pbind (pget rs_healthy) (\<lambda>healthy. if \<not> healthy then preturn None else pfail e)))"

definition finish_get :: "crc_stream \<Rightarrow> read_env \<Rightarrow> bytes \<Rightarrow> read_desc \<Rightarrow> region_value option store_op" where
  "finish_get digest env key desc =
     pcatch (store_finish_value_read digest (pending_read_finish desc (re_completion env desc)) key) (l2_read_failed env)"

definition complete_get :: "crc_stream \<Rightarrow> read_env \<Rightarrow> bytes \<Rightarrow> prepared_get \<Rightarrow> region_value option store_op" where
  "complete_get digest env key phase =
     (case phase of
        GetComplete v \<Rightarrow> preturn v
      | GetPending desc \<Rightarrow> finish_get digest env key desc
      | GetWaiting desc \<Rightarrow>
          (case re_slot_wait env of
             Some e \<Rightarrow> pfail (StoreIo e)
           | None \<Rightarrow>
               pbind (submit_reserved_get env desc) (\<lambda>pending.
               case pending of None \<Rightarrow> preturn None | Some read \<Rightarrow> finish_get digest env key read)))"

definition store_get ::
    "crc_stream \<Rightarrow> data_geometry \<Rightarrow> (nat \<Rightarrow> bool) \<Rightarrow> bool \<Rightarrow> read_env \<Rightarrow> u64 \<Rightarrow> bytes \<Rightarrow> region_value option store_op" where
  "store_get digest g contended direct env hash key =
     pbind (prepare_get digest g contended direct env hash key) (complete_get digest env key)"

subsection \<open>The environment of a read\<close>

text \<open>The completion the store sees for a descriptor.\<close>

abbreviation env_completion :: "read_env \<Rightarrow> read_desc \<Rightarrow> read_completion" where
  "env_completion env desc \<equiv> pending_read_finish desc (re_completion env desc)"

text \<open>An honest engine: a read it reports as complete has the bytes that are on the device.\<close>

definition read_honest :: "bytes \<Rightarrow> read_env \<Rightarrow> bool" where
  "read_honest dev env \<longleftrightarrow> (\<forall>desc. rcp_result (env_completion env desc) = Inr () \<longrightarrow> env_completion env desc = device_completion dev desc)"

text \<open>A read that nothing stops: a lane, a buffer, a submission, and the bytes of the device where it has them.\<close>

definition on_device :: "bytes \<Rightarrow> read_desc \<Rightarrow> bool" where
  "on_device dev desc \<longleftrightarrow> desc_read_len desc \<le> length dev - desc_absolute desc"

definition read_delivers :: "bytes \<Rightarrow> read_env \<Rightarrow> u64 \<Rightarrow> bool" where
  "read_delivers dev env hash \<longleftrightarrow>
     (\<exists>lane. try_reserve_read_lane (re_lane_count env) (re_lane env) (re_cursor env) hash = Inr lane) \<and> re_buffer env \<and> re_submit env = None
     \<and> read_honest dev env \<and> (\<forall>desc. on_device dev desc \<longrightarrow> env_completion env desc = device_completion dev desc)"

text \<open>A read that fails for another reason than pressure on the lanes, the memory or the deadline.\<close>

definition read_faulty :: "read_env \<Rightarrow> u64 \<Rightarrow> bool" where
  "read_faulty env hash \<longleftrightarrow>
     (\<exists>e. \<not> is_read_pressure (error_kind e)
        \<and> (try_reserve_read_lane (re_lane_count env) (re_lane env) (re_cursor env) hash = Inl e
           \<or> re_submit env = Some e \<or> (\<exists>desc. rcp_result (env_completion env desc) = Inl e)))"

lemma read_delivers_honest: "read_delivers dev env hash \<Longrightarrow> read_honest dev env"
  by (simp add: read_delivers_def)

lemma latched_pcatch [latched_rules]: "latched m \<Longrightarrow> (\<And>e. latched (handler e)) \<Longrightarrow> latched (pcatch m handler)"
  unfolding latched_def pcatch_def by (fastforce split: option.splits sum.splits)

lemma latched_finish_read [latched_rules]: "latched (store_finish_value_read digest c key)"
  unfolding latched_def store_finish_value_read_def finish_value_read_def
  by (auto simp: Let_def Option.bind_eq_Some_conv split: option.splits prod.splits sum.splits if_splits)

lemma latched_read_parts [latched_rules]:
  "latched (submit_value_read env desc)" "latched (l2_read_failed env e)" "latched (finish_get digest env key desc)"
  unfolding submit_value_read_def submit_value_read_failed_def l2_read_failed_def finish_get_def by (intro latched_rules)+

lemma latched_get [latched_rules]: "latched (store_get digest g contended direct env hash key)"
proof -
  have "latched (complete_get digest env key phase)" for phase
    unfolding complete_get_def submit_reserved_get_def by (cases phase) (simp_all only: prepared_get.case, (intro latched_rules)+)
  then show ?thesis
    unfolding store_get_def prepare_get_def prepare_l2_get_def reserve_get_def l2_read_failed_def by (intro latched_rules)
qed

text \<open>The record an index entry stands for, and what a lookup makes of it.\<close>

definition answer_of :: "region_index \<Rightarrow> region_desc list \<Rightarrow> region_logs \<Rightarrow> u64 \<Rightarrow> bytes \<Rightarrow> (bytes \<times> u64) option \<Rightarrow> bool" where
  "answer_of x ds logs hash key r \<longleftrightarrow>
     (case index_map x (token (index_shape x) hash) of
        None \<Rightarrow> r = None
      | Some e \<Rightarrow> \<exists>rid < length ds. \<exists>i < d_physical_record_count (ds ! rid). e = log_entry rid (logs rid) i
          \<and> r = (if lr_hash (logs rid ! i) = hash \<and> lr_key (logs rid ! i) = key
                 then Some (lr_value (logs rid ! i), hdr_seqno (lr_header (logs rid ! i))) else None))"

definition read_as :: "region_value option \<Rightarrow> (bytes \<times> u64) option" where
  "read_as v = (case v of None \<Rightarrow> None | Some v \<Rightarrow> map_option (\<lambda>bs. (bs, rv_seqno v)) (region_value_bytes v))"

lemma answer_ofI:
  "index_map x (token (index_shape x) hash) = Some (log_entry rid (logs rid) i) \<Longrightarrow> rid < length ds
    \<Longrightarrow> i < d_physical_record_count (ds ! rid) \<Longrightarrow> r = (if lr_hash (logs rid ! i) = hash \<and> lr_key (logs rid ! i) = key
             then Some (lr_value (logs rid ! i), hdr_seqno (lr_header (logs rid ! i))) else None) \<Longrightarrow> answer_of x ds logs hash key r"
  unfolding answer_of_def by auto

text \<open>From the descriptor on, a lookup changes nothing but the health of the store.\<close>

lemma finish_get_outcome:
  fixes desc env
  defines "c \<equiv> env_completion env desc"
  assumes h: "rs_healthy s" and fin: "rcp_result c = Inr () \<longrightarrow> (\<exists>a. finish_value_read digest c key True = Some (Inr a, True))"
  shows "\<exists>r s'. finish_get digest env key desc s = Some (r, s')
    \<and> (s' = s \<or> s' = s\<lparr>rs_healthy := False\<rparr> \<and> r = Inr None \<and> (\<exists>e. \<not> is_read_pressure (error_kind e) \<and> rcp_result c = Inl e))
    \<and> (\<forall>v. r = Inr (Some v) \<longrightarrow> s' = s \<and> finish_value_read digest c key True = Some (Inr (Some v), True))
    \<and> (rcp_result c = Inr () \<longrightarrow> s' = s \<and> (\<exists>a. r = Inr a \<and> finish_value_read digest c key True = Some (Inr a, True)))"
proof (cases "rcp_result c")
  case (Inl e)
  then have f: "finish_value_read digest c key True = Some (Inl e, is_read_pressure (error_kind e))"
    by (simp add: finish_value_read_def)
  have same: "s\<lparr>rs_healthy := True\<rparr> = s" using h by simp
  show ?thesis
  proof (cases "is_read_pressure (error_kind e)")
    case True
    with f h same Inl show ?thesis
      by (simp add: finish_get_def pcatch_def store_finish_value_read_def c_def [symmetric] map_err_def l2_read_failed_def store_read_pressure_def pbind_def)
  next
    case False
    with f h same Inl show ?thesis
      by (simp add: finish_get_def pcatch_def store_finish_value_read_def c_def [symmetric] map_err_def l2_read_failed_def pbind_def)
  qed
next
  case (Inr u)
  then obtain a where a: "finish_value_read digest c key True = Some (Inr a, True)" using fin by auto
  have same: "s\<lparr>rs_healthy := True\<rparr> = s" using h by simp
  show ?thesis using a h same Inr
    by (simp add: finish_get_def pcatch_def store_finish_value_read_def c_def [symmetric] map_err_def)
qed

lemma described_get_outcome:
  fixes desc env
  defines "c \<equiv> env_completion env desc"
  assumes h: "rs_healthy s" and fin: "rcp_result c = Inr () \<longrightarrow> (\<exists>a. finish_value_read digest c key True = Some (Inr a, True))"
  shows "\<exists>r s'. pbind (reserve_get env hash desc) (complete_get digest env key) s = Some (r, s')
    \<and> (s' = s \<or> s' = s\<lparr>rs_healthy := False\<rparr> \<and> r = Inr None \<and> read_faulty env hash)
    \<and> (\<forall>v. r = Inr (Some v) \<longrightarrow> s' = s \<and> finish_value_read digest c key True = Some (Inr (Some v), True))
    \<and> (read_delivers dev env hash \<and> on_device dev desc \<longrightarrow> s' = s \<and> (\<exists>a. r = Inr a \<and> finish_value_read digest c key True = Some (Inr a, True)))"
proof -
  define Q :: "store_error + region_value option \<Rightarrow> region_runtime \<Rightarrow> bool" where "Q = (\<lambda>r s'. (s' = s \<or> s' = s\<lparr>rs_healthy := False\<rparr> \<and> r = Inr None \<and> read_faulty env hash)
    \<and> (\<forall>v. r = Inr (Some v) \<longrightarrow> s' = s \<and> finish_value_read digest c key True = Some (Inr (Some v), True))
    \<and> (read_delivers dev env hash \<and> on_device dev desc \<longrightarrow> s' = s \<and> (\<exists>a. r = Inr a \<and> finish_value_read digest c key True = Some (Inr a, True))))"
  let ?lane = "try_reserve_read_lane (re_lane_count env) (re_lane env) (re_cursor env) hash"
  obtain r\<^sub>f s\<^sub>f where f: "finish_get digest env key desc s = Some (r\<^sub>f, s\<^sub>f)"
    "s\<^sub>f = s \<or> s\<^sub>f = s\<lparr>rs_healthy := False\<rparr> \<and> r\<^sub>f = Inr None \<and> (\<exists>e. \<not> is_read_pressure (error_kind e) \<and> rcp_result c = Inl e)"
    "\<forall>v. r\<^sub>f = Inr (Some v) \<longrightarrow> s\<^sub>f = s \<and> finish_value_read digest c key True = Some (Inr (Some v), True)"
    "rcp_result c = Inr () \<longrightarrow> s\<^sub>f = s \<and> (\<exists>a. r\<^sub>f = Inr a \<and> finish_value_read digest c key True = Some (Inr a, True))"
    using finish_get_outcome [where env = env and desc = desc and digest = digest and key = key, OF h fin [unfolded c_def]] unfolding c_def [symmetric] by (elim exE conjE) (rule that)
  have q: "Q r\<^sub>f s\<^sub>f"
    unfolding Q_def
  proof (intro conjI impI)
    show "s\<^sub>f = s \<or> s\<^sub>f = s\<lparr>rs_healthy := False\<rparr> \<and> r\<^sub>f = Inr None \<and> read_faulty env hash"
      using f(2) unfolding read_faulty_def c_def by blast
  qed (use f(3,4) in \<open>auto simp: read_delivers_def c_def device_completion_def\<close>)
  have submitted: "pcatch (pbind (submit_value_read env desc) (\<lambda>read. preturn (Some read))) handler s =
      (case re_submit env of None \<Rightarrow> Some (Inr (Some desc), s)
       | Some e \<Rightarrow> handler (StoreIo e) (if is_read_pressure (error_kind e) then s else s\<lparr>rs_healthy := False\<rparr>))" for handler
    by (simp add: pcatch_def submit_value_read_def submit_value_read_failed_def pbind_def split: option.split)
  have refused: "Q (Inr None) (s\<lparr>rs_healthy := False\<rparr>)" if "re_submit env = Some e" "\<not> is_read_pressure (error_kind e)" for e
    using that by (auto simp: Q_def read_faulty_def read_delivers_def)
  have none: "Q r s" if "\<not> read_delivers dev env hash" "\<forall>v. r \<noteq> Inr (Some v)" for r using that by (simp add: Q_def)
  have "\<exists>r s'. pbind (reserve_get env hash desc) (complete_get digest env key) s = Some (r, s') \<and> Q r s'"
  proof (cases ?lane)
    case (Inl e)
    then have nd: "\<not> read_delivers dev env hash" by (simp add: read_delivers_def)
    consider (wait) "error_kind e = WouldBlockKind \<and> re_waits env \<and> re_permit env"
      | (full) "error_kind e = WouldBlockKind \<and> re_waits env \<and> \<not> re_permit env"
      | (busy) "\<not> (error_kind e = WouldBlockKind \<and> re_waits env)" "is_read_pressure (error_kind e)"
      | (fault) "\<not> is_read_pressure (error_kind e)" by blast
    then show ?thesis
    proof cases
      case wait
      have run: "pbind (reserve_get env hash desc) (complete_get digest env key) s = complete_get digest env key (GetWaiting desc) s"
        using wait Inl by (simp add: reserve_get_def pbind_def)
      show ?thesis unfolding run using h f(1) q none [OF nd] refused
        by (cases "re_slot_wait env"; cases "re_buffer env"; cases "re_submit env")
           (simp_all add: complete_get_def submit_reserved_get_def submitted pbind_def)
    next
      case full
      then show ?thesis using Inl none [OF nd] by (simp add: reserve_get_def pbind_def)
    next
      case busy
      then show ?thesis using Inl none [OF nd] by (auto simp: reserve_get_def complete_get_def pbind_def)
    next
      case fault
      then have "error_kind e \<noteq> WouldBlockKind" by auto
      moreover have "read_faulty env hash" using fault Inl by (auto simp: read_faulty_def)
      ultimately show ?thesis using fault Inl nd by (simp add: Q_def reserve_get_def complete_get_def pbind_def enter_miss_only_def)
    qed
  next
    case (Inr lane)
    show ?thesis
    proof (cases "re_buffer env")
      case False
      then have nd: "\<not> read_delivers dev env hash" by (simp add: read_delivers_def)
      show ?thesis using False Inr none [OF nd] by (simp add: reserve_get_def complete_get_def pbind_def)
    next
      case buffer: True
      show ?thesis
      proof (cases "re_submit env")
        case None
        have "pbind (reserve_get env hash desc) (complete_get digest env key) s = finish_get digest env key desc s"
          using Inr buffer None by (simp add: reserve_get_def complete_get_def pbind_def submitted)
        with f(1) q show ?thesis by simp
      next
        case (Some e)
        then have nd: "\<not> read_delivers dev env hash" by (simp add: read_delivers_def)
        show ?thesis
        proof (cases "is_read_pressure (error_kind e)")
          case True
          then show ?thesis using Inr buffer Some h none [OF nd]
            by (simp add: reserve_get_def complete_get_def pbind_def submitted l2_read_failed_def store_read_pressure_def)
        next
          case False
          then show ?thesis using Inr buffer Some h refused [OF Some]
            by (simp add: reserve_get_def complete_get_def pbind_def submitted l2_read_failed_def)
        qed
      qed
    qed
  qed
  then show ?thesis unfolding Q_def .
qed

text \<open>The record of a candidate is readable: what an uninterrupted read of its descriptor answers.\<close>

lemma candidate_read:
  fixes w
  defines "s \<equiv> w_store w"
  assumes inv: "store_inv digest g logs w"
    and e: "index_map (rs_index s) (token (index_shape (rs_index s)) hash) = Some e"
  shows "\<exists>desc ans. describe_read g hash \<lparr>cand_entry = e,
        cand_region_generation = d_created_seqno (regions (rs_manager s) ! unat (region_id (location e)))\<rparr> direct = Inr desc
    \<and> finish_value_read digest (device_completion (w_device w) desc) key True = Some (Inr ans, True)
    \<and> (ans \<noteq> None \<longrightarrow> region_value_bytes (the ans) \<noteq> None)
    \<and> answer_of (rs_index s) (regions (rs_manager s)) logs hash key (read_as ans)"
proof -
  define m where "m = rs_manager s"
  note D = store_invD [OF inv, folded s_def, folded m_def] and F = frameD [OF store_invD(1) [OF inv], folded s_def, folded m_def]
  from e D(5) obtain rid i where r: "rid < length (regions m)" "i < d_physical_record_count (regions m ! rid)" "e = log_entry rid (logs rid) i"
    unfolding index_log_ok_def by blast
  let ?n = "d_physical_record_count (regions m ! rid)" and ?l = "logs rid ! i" and ?gen = "d_created_seqno (regions m ! rid)"
  note rl = D(3) [OF r(1)]
  note rld = region_logD [OF rl]
  have region: "unat (region_id (location e)) = rid"
    using index_entry_region [OF inv, folded s_def, folded m_def, OF r(1,2)] by (simp add: r(3))
  have i: "i < length (logs rid)" "i < length (take ?n (logs rid))" using r(2) rld(2) by simp_all
  have known: "known_record digest (w_puts w) ?gen ?l" using rl i(1) by (simp add: region_log_ok_def)
  have entry: "log_entry rid (take ?n (logs rid)) i = e"
    using r(2) by (simp add: r(3) log_entry_def log_offset_def min_absorb1)
  have ok: "\<forall>l \<in> set (take ?n (logs rid)). log_record_ok ?gen l" using rld(1) by (auto dest: in_set_takeD)
  have size: "log_len (take ?n (logs rid)) \<le> dg_region_size g"
    using shard_lookup(3) [OF F(4) r(1)] rl F(9) by (simp add: desc_ok_def region_log_ok_def)
  have pos: "0 < ?gen" using live_region [OF F(4) r(1)] r(2) by simp
  have crc: "crc32c digest [lr_key (take ?n (logs rid) ! i) @ lr_value (take ?n (logs rid) ! i)] = hdr_payload_crc (lr_header (take ?n (logs rid) ! i))"
    using known r(2) by (simp add: known_record_def)
  obtain desc where desc: "describe_read g hash \<lparr>cand_entry = e, cand_region_generation = ?gen\<rparr> direct = Inr desc"
    "hash = lr_hash ?l \<and> key = lr_key ?l \<Longrightarrow>
       \<exists>v. finish_value_read digest (device_completion (w_device w) desc) key True = Some (Inr (Some v), True)
         \<and> region_value_bytes v = Some (lr_value ?l) \<and> rv_seqno v = hdr_seqno (lr_header ?l)"
    "\<not> (hash = lr_hash ?l \<and> key = lr_key ?l) \<Longrightarrow>
       finish_value_read digest (device_completion (w_device w) desc) key True = Some (Inr None, True)"
    using read_log_record [OF ok i(2) pos F(8) _ size D(2) rld(4) crc, of hash direct key True] r(1,2) F(10)
    by (auto simp: entry)
  note ans = answer_ofI [where logs = logs, OF e [unfolded r(3)] r(1,2) [unfolded m_def]]
  show ?thesis
  proof (cases "hash = lr_hash ?l \<and> key = lr_key ?l")
    case True
    obtain v where v: "finish_value_read digest (device_completion (w_device w) desc) key True = Some (Inr (Some v), True)"
      "region_value_bytes v = Some (lr_value ?l)" "rv_seqno v = hdr_seqno (lr_header ?l)" using desc(2) [OF True] by blast
    have "answer_of (rs_index s) (regions (rs_manager s)) logs hash key (read_as (Some v))"
      by (rule ans) (use True in \<open>simp add: read_as_def v\<close>)
    then show ?thesis using desc(1) v(1,2) by (intro exI [of _ desc] exI [of _ "Some v"]) (simp add: region m_def)
  next
    case False
    have "answer_of (rs_index s) (regions (rs_manager s)) logs hash key (read_as None)"
      by (rule ans) (use False in \<open>auto simp: read_as_def\<close>)
    then show ?thesis using desc(1) desc(3) [OF False] by (intro exI [of _ desc] exI [of _ None]) (simp add: region m_def)
  qed
qed

lemma finished_on_device:
  "finish_value_read digest (device_completion dev desc) key True = Some (Inr a, True) \<Longrightarrow> on_device dev desc"
  by (auto simp: finish_value_read_def device_completion_def record_bytes_def prepared_def on_device_def split: option.splits if_splits)

lemma store_get_inv:
  fixes w
  defines "s \<equiv> w_store w"
  assumes inv: "store_inv digest g logs w" and honest: "read_honest (w_device w) env"
  shows "\<exists>r s'. store_get digest g contended direct env hash key s = Some (r, s')
    \<and> (store_inv digest g logs (w\<lparr>w_store := s'\<rparr>) \<or> \<not> rs_healthy s' \<and> r = Inr None \<and> read_faulty env hash)
    \<and> index_map (rs_index s') = index_map (rs_index s) \<and> index_shape (rs_index s') = index_shape (rs_index s)
    \<and> (\<forall>v. r = Inr (Some v) \<longrightarrow> region_value_bytes v \<noteq> None
         \<and> answer_of (rs_index s) (regions (rs_manager s)) logs hash key (read_as (Some v)))
    \<and> (index_map (rs_index s) (token (index_shape (rs_index s)) hash) = None \<longrightarrow> r = Inr None)
    \<and> (read_delivers (w_device w) env hash \<and> length key \<le> MAX_KEY_SIZE \<and> \<not> contended (hash_partition (rs_index s) hash) \<longrightarrow>
         (\<exists>v. r = Inr v \<and> answer_of (rs_index s) (regions (rs_manager s)) logs hash key (read_as v)))"
proof -
  let ?t = "token (index_shape (rs_index s)) hash"
  have h: "rs_healthy s" using frameD(1) [OF store_invD(1) [OF inv]] by (simp add: s_def)
  obtain c s' where b: "begin_point_read digest contended hash s = Some (Inr c, s')" "store_inv digest g logs (w\<lparr>w_store := s'\<rparr>)"
    "index_map (rs_index s') = index_map (rs_index s)" "index_shape (rs_index s') = index_shape (rs_index s)"
    "c = (if contended (hash_partition (rs_index s) hash) then None
          else map_option (\<lambda>e. \<lparr>cand_entry = e,
             cand_region_generation = d_created_seqno (regions (rs_manager s) ! unat (region_id (location e)))\<rparr>) (index_map (rs_index s) ?t))"
    using begin_point_read_inv [OF inv, of contended hash, folded s_def] by (elim exE conjE) (rule that)
  have h': "rs_healthy s'" using frameD(1) [OF store_invD(1) [OF b(2)]] by simp
  have "\<exists>r s''. store_get digest g contended direct env hash key s = Some (r, s'') \<and> s'' = s \<and> r = Inr None" if "length key > MAX_KEY_SIZE"
    using that by (simp add: store_get_def prepare_get_def complete_get_def pbind_def)
  moreover have "store_inv digest g logs (w\<lparr>w_store := s\<rparr>)" using inv by (simp add: s_def)
  moreover have run: "store_get digest g contended direct env hash key s = (case c of None \<Rightarrow> Some (Inr None, s')
     | Some cand \<Rightarrow> (case describe_read g hash cand direct of
          Inl e \<Rightarrow> Some (Inr None, s'\<lparr>rs_healthy := False\<rparr>)
        | Inr desc \<Rightarrow> pbind (reserve_get env hash desc) (complete_get digest env key) s'))" if "length key \<le> MAX_KEY_SIZE"
    using that h b(1) by (simp add: store_get_def prepare_get_def prepare_l2_get_def complete_get_def pbind_def enter_miss_only_def
        split: option.split sum.split)
  ultimately show ?thesis
  proof (cases "length key > MAX_KEY_SIZE")
    case long: False
    note run = run [OF long [unfolded not_less]]
    show ?thesis
    proof (cases c)
      case None
      then show ?thesis using b run by (auto simp: answer_of_def read_as_def split: option.splits if_splits)
    next
      case (Some cand)
      then have free: "\<not> contended (hash_partition (rs_index s) hash)" using b(5) by (auto split: if_splits)
      then obtain e where e: "index_map (rs_index s) ?t = Some e"
        "cand = \<lparr>cand_entry = e, cand_region_generation = d_created_seqno (regions (rs_manager s) ! unat (region_id (location e)))\<rparr>"
        using Some b(5) by auto
      obtain desc ans where a: "describe_read g hash cand direct = Inr desc"
        "finish_value_read digest (device_completion (w_device w) desc) key True = Some (Inr ans, True)"
        "ans \<noteq> None \<longrightarrow> region_value_bytes (the ans) \<noteq> None"
        "answer_of (rs_index s) (regions (rs_manager s)) logs hash key (read_as ans)"
        using candidate_read [OF inv, folded s_def, OF e(1), of direct key] unfolding e(2) [symmetric] by (elim exE conjE) (rule that)
      have dev: "env_completion env desc = device_completion (w_device w) desc" if "rcp_result (env_completion env desc) = Inr ()"
        using honest that unfolding read_honest_def by blast
      have fin: "rcp_result (env_completion env desc) = Inr () \<longrightarrow> (\<exists>a. finish_value_read digest (env_completion env desc) key True = Some (Inr a, True))"
        using dev a(2) by auto
      obtain r s'' where o: "pbind (reserve_get env hash desc) (complete_get digest env key) s' = Some (r, s'')"
        "s'' = s' \<or> s'' = s'\<lparr>rs_healthy := False\<rparr> \<and> r = Inr None \<and> read_faulty env hash"
        "\<forall>v. r = Inr (Some v) \<longrightarrow> s'' = s' \<and> finish_value_read digest (env_completion env desc) key True = Some (Inr (Some v), True)"
        "read_delivers (w_device w) env hash \<and> on_device (w_device w) desc \<longrightarrow> s'' = s' \<and> (\<exists>a. r = Inr a \<and> finish_value_read digest (env_completion env desc) key True = Some (Inr a, True))"
        using described_get_outcome [where dev = "w_device w" and env = env and desc = desc and digest = digest and key = key and hash = hash, OF h' fin]
        by (elim exE conjE) (rule that)
      have answers: "v = ans" if "finish_value_read digest (env_completion env desc) key True = Some (Inr v, True)"
        "rcp_result (env_completion env desc) = Inr ()" for v using that(1) dev [OF that(2)] a(2) by simp
      have completed: "rcp_result (env_completion env desc) = Inr ()" if "finish_value_read digest (env_completion env desc) key True = Some (Inr v, True)" for v
        using that by (cases "rcp_result (env_completion env desc)") (simp_all add: finish_value_read_def)
      have "store_get digest g contended direct env hash key s = Some (r, s'')" using run Some a(1) o(1) by simp
      moreover have "region_value_bytes v \<noteq> None \<and> answer_of (rs_index s) (regions (rs_manager s)) logs hash key (read_as (Some v))"
        if "r = Inr (Some v)" for v
      proof -
        have "finish_value_read digest (env_completion env desc) key True = Some (Inr (Some v), True)" using o(3) that by blast
        then have "Some v = ans" using answers completed by blast
        then show ?thesis using a(3,4) by auto
      qed
      moreover have "\<exists>v. r = Inr v \<and> answer_of (rs_index s) (regions (rs_manager s)) logs hash key (read_as v)" if "read_delivers (w_device w) env hash"
      proof -
        have "on_device (w_device w) desc" by (rule finished_on_device [OF a(2)])
        with o(4) that obtain x where x: "r = Inr x" "finish_value_read digest (env_completion env desc) key True = Some (Inr x, True)" by blast
        then have "x = ans" using answers completed by blast
        then show ?thesis using x(1) a(4) by blast
      qed
      moreover have "rs_index s'' = rs_index s'" using o(2) by auto
      moreover have "store_inv digest g logs (w\<lparr>w_store := s''\<rparr>) \<or> \<not> rs_healthy s'' \<and> r = Inr None \<and> read_faulty env hash"
        using o(2) b(2) by auto
      ultimately show ?thesis using b(3,4) e(1) by (intro exI [of _ r] exI [of _ s'']) simp
    qed
  qed auto
qed

text \<open>Whatever the engine does, honest or not, a lookup returns.\<close>

definition total_op :: "'a store_op \<Rightarrow> bool" where
  "total_op m \<longleftrightarrow> (\<forall>s. m s \<noteq> None)"

named_theorems total_rules

lemma total_simple [total_rules]:
  "total_op (preturn a)" "total_op (pfail e)" "total_op (pget f)" "total_op enter_miss_only" "total_op (fail_miss_only e)"
  by (simp_all add: total_op_def)

lemma total_bind [total_rules]: "total_op m \<Longrightarrow> (\<And>a. total_op (f a)) \<Longrightarrow> total_op (pbind m f)"
  unfolding total_op_def by (auto simp: pbind_def split: option.splits sum.splits)

lemma total_catch [total_rules]: "total_op m \<Longrightarrow> (\<And>e. total_op (handler e)) \<Longrightarrow> total_op (pcatch m handler)"
  unfolding total_op_def by (auto simp: pcatch_def split: option.splits sum.splits)

lemma total_split [total_rules]:
  "(b \<Longrightarrow> total_op m) \<Longrightarrow> (\<not> b \<Longrightarrow> total_op m') \<Longrightarrow> total_op (if b then m else m')"
  "total_op m \<Longrightarrow> (\<And>x. total_op (f x)) \<Longrightarrow> total_op (case opt of None \<Rightarrow> m | Some x \<Rightarrow> f x)"
  "(\<And>e. total_op (h e)) \<Longrightarrow> (\<And>x. total_op (k x)) \<Longrightarrow> total_op (case r of Inl e \<Rightarrow> h e | Inr x \<Rightarrow> k x)"
  by (auto split: option.split sum.split)

lemma total_finish_read [total_rules]: "total_op (store_finish_value_read digest c key)"
  using finish_value_read_total [of digest c key] by (auto simp: total_op_def store_finish_value_read_def split: option.splits)

lemma total_get_parts [total_rules]:
  "total_op (reserve_get env hash desc)" "total_op (finish_get digest env key desc)" "total_op (submit_reserved_get env desc)"
  unfolding reserve_get_def finish_get_def submit_reserved_get_def submit_value_read_def submit_value_read_failed_def l2_read_failed_def
  by (intro total_rules)+

lemma total_complete_get [total_rules]: "total_op (complete_get digest env key phase)"
  unfolding complete_get_def by (cases phase) (simp_all only: prepared_get.case, (intro total_rules)+)

lemma bind_returns: "m s \<noteq> None \<Longrightarrow> (\<And>a. total_op (f a)) \<Longrightarrow> pbind m f s \<noteq> None"
  unfolding total_op_def by (auto simp: pbind_def split: option.splits sum.splits)

lemma store_get_total:
  assumes inv: "store_inv digest g logs w"
  shows "store_get digest g contended direct env hash key (w_store w) \<noteq> None"
proof -
  have "begin_point_read digest contended hash (w_store w) \<noteq> None"
    using begin_point_read_inv [OF inv, of contended hash] by auto
  then have "prepare_l2_get digest g contended direct env hash (w_store w) \<noteq> None"
    unfolding prepare_l2_get_def by (rule bind_returns) (intro total_rules)
  then have "prepare_get digest g contended direct env hash key (w_store w) \<noteq> None" by (simp add: prepare_get_def pbind_def)
  then show ?thesis unfolding store_get_def by (rule bind_returns) (rule total_complete_get)
qed

end
