(* ===== verification/Store_Steps.thy ===== *)
theory Store_Steps
  imports Store_World
begin

text \<open>
  The store with its environment as a labelled transition system. A step is one operation of the runtime of
  \<^verbatim>\<open>cache/runtime/mod.rs\<close> on the store: a put, a deletion, a lookup, the two halves of a flush, a rotation, the
  three parts of a reclaim, the configuration of the reclaim workers, and the failure of a write or of a worker. The steps of the threads interleave in any
  order; each operation is one step.
\<close>

section \<open>Steps\<close>

datatype store_event =
    PutEvent u64 bytes bytes bool
  | DeleteEvent u64
  | GetEvent u64 bytes read_env "store_error + region_value option"
  | SealEvent nat
  | WriteEvent nat
  | WriteFailedEvent nat
  | RotateEvent nat
  | ReclaimEvent
  | ScanEvent reclaim_receipt
  | FreeEvent reclaim_receipt
  | WorkerFailedEvent
  | ConfigureEvent nat

text \<open>The completion of a write of which the engine transferred every byte.\<close>

definition write_done :: "data_geometry \<Rightarrow> staged_write \<Rightarrow> write_completion" where
  "write_done geometry j =
     submit_and_wait geometry j
       (Submitted (IoDone True (Inr (ib_length (sw_buffer j))) (ib_length (sw_buffer j)) (Some (sw_buffer j))))"

definition put_accepted :: "store_error + region_stage_value \<Rightarrow> bool" where
  "put_accepted r = (case r of Inl _ \<Rightarrow> False | Inr v \<Rightarrow> is_staged v)"

text \<open>
  A flush starts only where the append worker saw a filled chunk; a write job completes with all of its bytes
  on the device, or fails with any content there. The reclaim worker frees a Region it has scanned once the
  shard it staged replacements into is drained, so that no replacement into the Region is on its way. A lookup runs in
  any environment whose engine is honest: it may refuse, fail or delay the read, but the bytes of a read it reports as
  complete are those of the device. Opening configures the number of reclaim workers; the step may come at any time.
\<close>

inductive store_step :: "crc_stream \<Rightarrow> data_geometry \<Rightarrow> store_event \<Rightarrow> store_world \<Rightarrow> store_world \<Rightarrow> bool"
  for digest g where
  put: "required_record_bytes (length key) (length val) = Inr n
    \<Longrightarrow> try_stage_value digest gb mb (append_shard hash (w_store w)) hash n key val (w_store w) = Some (r, s')
    \<Longrightarrow> store_step digest g (PutEvent hash key val (put_accepted r)) w
          (w\<lparr>w_store := s', w_puts := (if put_accepted r then insert (hash, key, val) (w_puts w) else w_puts w)\<rparr>)"
| delete: "try_delete_value digest mb contended hash (w_store w) = Some (r, s')
    \<Longrightarrow> store_step digest g (DeleteEvent hash) w (w\<lparr>w_store := s'\<rparr>)"
| get: "read_honest (w_device w) env
    \<Longrightarrow> store_get digest g contended direct env hash key (w_store w) = Some (r, s')
    \<Longrightarrow> store_step digest g (GetEvent hash key env r) w (w\<lparr>w_store := s'\<rparr>)"
| seal: "shard_fill_snapshot (rt_staging (w_store w)) k = Inr (Some f)
    \<Longrightarrow> flush_begin digest k (w_store w) = Some (r, s')
    \<Longrightarrow> store_step digest g (SealEvent k) w
          (w\<lparr>w_store := s', w_jobs := (w_jobs w)(k := (case r of Inr (Some job) \<Rightarrow> Some job | _ \<Rightarrow> w_jobs w k))\<rparr>)"
| write_ok: "k < store_shard_count (w_store w) \<Longrightarrow> w_jobs w k = Some (j, geometry)
    \<Longrightarrow> flush_complete digest (sw_records j) (write_done geometry j) (w_store w) = Some (r, s')
    \<Longrightarrow> store_step digest g (WriteEvent k) w
          (w\<lparr>w_store := s', w_device := written (w_device w) j, w_jobs := (w_jobs w)(k := None)\<rparr>)"
| write_failed: "w_jobs w k = Some (j, geometry) \<Longrightarrow> wc_result (submit_and_wait geometry j outcome) = Inl e
    \<Longrightarrow> flush_complete digest (sw_records j) (submit_and_wait geometry j outcome) (w_store w) = Some (r, s')
    \<Longrightarrow> length dev = length (w_device w)
    \<Longrightarrow> store_step digest g (WriteFailedEvent k) w (w\<lparr>w_store := s', w_device := dev, w_jobs := (w_jobs w)(k := None)\<rparr>)"
| rotate: "k < store_shard_count (w_store w) \<Longrightarrow> rotate_shard k (w_store w) = Some (r, s')
    \<Longrightarrow> store_step digest g (RotateEvent k) w (w\<lparr>w_store := s'\<rparr>)"
| reclaim: "store_begin_reclaim (w_store w) = Some (r, s') \<Longrightarrow> store_step digest g ReclaimEvent w (w\<lparr>w_store := s'\<rparr>)"
| scan: "q \<in> set (reclaiming (rs_manager (w_store w))) \<Longrightarrow> k < store_shard_count (w_store w)
    \<Longrightarrow> reclaim_absolute q (w_store w) = Some (Inr at, s)
    \<Longrightarrow> scan_reclaim digest q (take (rc_used_offset q) (drop at (w_device w))) accepting (reinsert_sink digest busy k) s = Some (r, s')
    \<Longrightarrow> store_step digest g (ScanEvent q) w
          (w\<lparr>w_store := s', w_scanned := (if isl r then w_scanned w else insert q (w_scanned w))\<rparr>)"
| free: "q \<in> w_scanned w \<Longrightarrow> \<forall>(h, p) \<in> pending_replacements w. unat (region_id p) \<noteq> rc_region_id q
    \<Longrightarrow> complete_reclaim q (w_store w) = Some (r, s')
    \<Longrightarrow> store_step digest g (FreeEvent q) w (w\<lparr>w_store := s', w_scanned := w_scanned w - {q}\<rparr>)"
| worker_failed: "enter_miss_only (w_store w) = Some (r, s') \<Longrightarrow> store_step digest g WorkerFailedEvent w (w\<lparr>w_store := s'\<rparr>)"
| configure: "store_configure_reclaim_workers alloc capacity workers (w_store w) = Some (r, s')
    \<Longrightarrow> store_step digest g (ConfigureEvent workers) w (w\<lparr>w_store := s'\<rparr>)"

inductive_cases store_step_getE: "store_step digest g (GetEvent hash key env r) w w'"
inductive_cases store_step_putE: "store_step digest g (PutEvent hash key val True) w w'"

inductive_cases store_step_sealE: "store_step digest g (SealEvent k) w w'"
inductive_cases store_step_writeE: "store_step digest g (WriteEvent k) w w'"

inductive store_reach :: "crc_stream \<Rightarrow> data_geometry \<Rightarrow> store_world \<Rightarrow> store_world \<Rightarrow> bool"
  for digest g w0 where
  start: "store_reach digest g w0 w0"
| further: "store_reach digest g w0 w \<Longrightarrow> store_step digest g ev w w' \<Longrightarrow> store_reach digest g w0 w'"

section \<open>Each step keeps the invariant or ends in miss-only\<close>

lemma frame_shards:
  assumes "store_frame digest g s"
  shows "store_shard_count s = length (active_regions (rs_manager s))" "append_shard hash s < length (active_regions (rs_manager s))"
proof -
  note F = frameD [OF assms]
  have "0 < length (active_regions (rs_manager s))" using F(4) by (simp add: manager_wf_def manager_shape_def)
  then show "store_shard_count s = length (active_regions (rs_manager s))" "append_shard hash s < length (active_regions (rs_manager s))"
    using F(6) route_hash_mod(2) by (simp_all add: store_shard_count_def append_shard_def)
qed

lemma put_known:
  assumes n: "required_record_bytes (length key) (length val) = Inr n" and streaming: "\<And>parts. digest parts = digest [concat parts]"
  shows "payload_known digest (insert (hash, key, val) puts) hash n (payload_new digest key val) None"
    "puts_fit chunk puts \<Longrightarrow> n \<le> chunk \<Longrightarrow> puts_fit chunk (insert (hash, key, val) puts)"
proof -
  have a: "aligned_len (length key) (length val) = Some n" "length key \<le> MAX_KEY_SIZE"
    using n by (auto simp: required_record_bytes_def ok_or_def split: option.splits if_splits)
  then have len: "n = (48 + length key + length val + 31) div 32 * 32" by (simp only: aligned_len_eq_Some)
  have "(2::nat) \<le> (48 + length key + length val + 31) div 32" by simp
  then have "64 \<le> n" unfolding len by linarith
  moreover have "48 + length key + length val \<le> n" unfolding len by (rule align_32)
  moreover have "n mod 32 = 0" by (simp add: len)
  moreover have "digest [key, val] = digest [key @ val]" using streaming [of "[key, val]"] by simp
  ultimately show "payload_known digest (insert (hash, key, val) puts) hash n (payload_new digest key val) None"
    using a(2) by (simp add: payload_known_def payload_new_def crc32c_eq)
  show "puts_fit chunk (insert (hash, key, val) puts)" if "puts_fit chunk puts" "n \<le> chunk"
    using that a(1) unfolding puts_fit_def by auto
qed

lemma put_inv:
  fixes w hash
  defines "s \<equiv> w_store w"
  assumes inv: "store_inv digest g logs w" and n: "required_record_bytes (length key) (length val) = Inr n"
    and streaming: "\<And>parts. digest parts = digest [concat parts]"
  shows "\<exists>r s'. try_stage_value digest gb mb (append_shard hash s) hash n key val s = Some (r, s')
    \<and> (\<not> rs_healthy s' \<and> next_seqno (rs_manager s') = u64_max \<and> \<not> put_accepted r
       \<or> \<not> put_accepted r \<and> store_inv digest g logs (w\<lparr>w_store := s'\<rparr>)
       \<or> put_accepted r \<and> (\<exists>rid l. store_inv digest g (logs(rid := logs rid @ [l])) (w\<lparr>w_store := s', w_puts := insert (hash, key, val) (w_puts w)\<rparr>)
            \<and> rid = active_regions (rs_manager s) ! append_shard hash s \<and> log_content l = (hash, key, val)
            \<and> staged_tail s' (append_shard hash s) = staged_tail s (append_shard hash s) @ [(hash, None)]
            \<and> active_regions (rs_manager s') = active_regions (rs_manager s)))"
proof -
  note D = store_invD [OF inv, folded s_def]
  note L = frame_locks [OF D(1)] and sh = frame_shards(1) [OF D(1)] frame_shards(2) [OF D(1), of hash]
  show ?thesis
  proof (cases "n \<le> as_chunk_bytes (rt_staging s)")
    case False
    then have "try_stage_value digest gb mb (append_shard hash s) hash n key val s
        = Some (Inl (StoreIo (IoError InvalidInput ''value exceeds one Region staging buffer'')), s)"
      by (simp add: try_stage_value_def validate_stage_def pbind_def L)
    then show ?thesis using inv by (simp add: put_accepted_def s_def)
  next
    case True
    then have run: "try_stage_value digest gb mb (append_shard hash s) hash n key val s
        = try_stage_record digest gb mb (append_shard hash s) hash n (payload_new digest key val) None s"
      by (simp add: try_stage_value_def validate_stage_def pbind_def L)
    have pl: "pl_key (payload_new digest key val) = key" "pl_value (payload_new digest key val) = val" by (simp_all add: payload_new_def)
    note st = try_stage_record_inv [OF inv, folded s_def, OF sh(2) put_known(1) [where digest = digest and hash = hash, OF n streaming] subset_insertI
        put_known(2) [where digest = digest and hash = hash, OF n streaming D(7) True] True, of gb mb]
    then obtain r s' where r: "try_stage_record digest gb mb (append_shard hash s) hash n (payload_new digest key val) None s = Some (r, s')"
      "(\<exists>e. r = Inl e) \<and> \<not> rs_healthy s' \<and> next_seqno (rs_manager s') = u64_max
       \<or> (\<exists>c. r = Inr c \<and> (\<forall>x y z. c \<noteq> Staged x y z) \<and> store_inv digest g logs (w\<lparr>w_store := s'\<rparr>))
       \<or> (\<exists>x y z l. r = Inr (Staged x y z) \<and> store_inv digest g (logs(active_regions (rs_manager s) ! append_shard hash s := logs (active_regions (rs_manager s) ! append_shard hash s) @ [l]))
              (w\<lparr>w_store := s', w_puts := insert (hash, key, val) (w_puts w)\<rparr>)
            \<and> log_content l = (hash, key, val)
            \<and> staged_tail s' (append_shard hash s) = staged_tail s (append_shard hash s) @ [(hash, None)]
            \<and> active_regions (rs_manager s') = active_regions (rs_manager s))"
      unfolding pl by (elim exE conjE) (rule that, assumption, simp add: log_content_def stage_keeps_def)
    have no: "\<not> is_staged c" if "\<forall>x y z. c \<noteq> Staged x y z" for c using that by (cases c) (auto simp: is_staged_def)
    from r(2) show ?thesis
    proof (elim disjE exE conjE)
      fix e assume "r = Inl e" "\<not> rs_healthy s'" "next_seqno (rs_manager s') = u64_max"
      then show ?thesis unfolding run using r(1) by (simp add: put_accepted_def)
    next
      fix c assume "r = Inr c" "\<forall>x y z. c \<noteq> Staged x y z" "store_inv digest g logs (w\<lparr>w_store := s'\<rparr>)"
      then show ?thesis unfolding run using r(1) no by (simp add: put_accepted_def)
    next
      fix x y z l assume "r = Inr (Staged x y z)" "store_inv digest g (logs(active_regions (rs_manager s) ! append_shard hash s := logs (active_regions (rs_manager s) ! append_shard hash s) @ [l]))
              (w\<lparr>w_store := s', w_puts := insert (hash, key, val) (w_puts w)\<rparr>)" "log_content l = (hash, key, val)"
        "staged_tail s' (append_shard hash s) = staged_tail s (append_shard hash s) @ [(hash, None)]"
        "active_regions (rs_manager s') = active_regions (rs_manager s)"
      then show ?thesis unfolding run using r(1) by (auto simp: put_accepted_def is_staged_def)
    qed
  qed
qed

text \<open>A filled chunk means an open span and no write in flight.\<close>

lemma filled_shard:
  fixes w k
  defines "s \<equiv> w_store w"
  assumes inv: "store_inv digest g logs w" and f: "shard_fill_snapshot (rt_staging s) k = Inr (Some f)"
  shows "k < length (active_regions (rs_manager s))" "w_jobs w k = None" "open_span (append_states (rs_manager s) ! k) \<noteq> None"
proof -
  note D = store_invD [OF inv, folded s_def] and F = frameD [OF store_invD(1) [OF inv], folded s_def]
  have st: "get_at (as_shards (rt_staging s)) k \<noteq> None" "submitted (as_shards (rt_staging s) ! k) = None"
    "\<not> fill_is_empty (fill (as_shards (rt_staging s) ! k))"
    using f by (auto simp: shard_fill_snapshot_def ok_or_def get_at_def split: option.splits if_splits)
  show k: "k < length (active_regions (rs_manager s))" using st(1) F(11) by (auto simp: get_at_def split: if_splits)
  from D(4) [OF k] obtain jl fl where c:
    "job_log_ok digest g (rt_staging s) k (active_regions (rs_manager s) ! k) (submitted_span (append_states (rs_manager s) ! k)) (as_shards (rt_staging s) ! k) (w_jobs w k) jl"
    "fill_holds digest (as_chunk_bytes (rt_staging s)) (active_regions (rs_manager s) ! k) fl (fill (as_shards (rt_staging s) ! k))"
    "open_log_ok (open_span (append_states (rs_manager s) ! k)) (fill (as_shards (rt_staging s) ! k)) fl"
    unfolding shard_log_ok_def by blast
  show "w_jobs w k = None" using c(1) st(2) by (auto simp: job_log_ok_def split: option.splits)
  show "open_span (append_states (rs_manager s) ! k) \<noteq> None"
    using c(3) fill_holds_empty [OF c(2)] st(3) by (auto simp: open_log_ok_def split: option.splits)
qed

lemma seal_inv:
  fixes w k
  defines "s \<equiv> w_store w"
  assumes inv: "store_inv digest g logs w" and f: "shard_fill_snapshot (rt_staging s) k = Inr (Some f)"
  shows "\<exists>job s' ls'. flush_begin digest k s = Some (Inr (Some (job, g)), s') \<and> rs_index s' = rs_index s
        \<and> store_inv digest g (logs(active_regions (rs_manager s) ! k := ls')) (w\<lparr>w_store := s', w_jobs := (w_jobs w)(k := Some (job, g))\<rparr>)
        \<and> map log_content ls' = map log_content (logs (active_regions (rs_manager s) ! k))
        \<and> map publication (vec_items (sw_records job)) = staged_tail s k \<and> staged_tail s' k = []
        \<and> active_regions (rs_manager s') = active_regions (rs_manager s)"
  using flush_begin_inv(2) [OF inv] filled_shard [OF inv] f by (simp add: s_def)

text \<open>The completion of a full write of a job.\<close>

lemma write_done_ok:
  fixes w k
  assumes inv: "store_inv digest g logs w" and k: "k < length (active_regions (rs_manager (w_store w)))" and job: "w_jobs w k = Some (j, g')"
  shows "wc_result (write_done g' j) = Inr ()" "wc_span (write_done g' j) = sw_span j" "wc_buffer (write_done g' j) = Some (sw_buffer j)"
proof -
  from job_facts [OF inv k job] obtain jl where j: "g' = g" "submit_write_checks g (sw_span j) (sw_buffer j) (sw_absolute j) = Inr (log_len jl)"
    "job_holds digest (rt_staging (w_store w)) k (active_regions (rs_manager (w_store w)) ! k) jl j" by metis
  then have "ib_length (sw_buffer j) = log_len jl" by (auto simp: job_holds_def)
  then show "wc_result (write_done g' j) = Inr ()" "wc_span (write_done g' j) = sw_span j" "wc_buffer (write_done g' j) = Some (sw_buffer j)"
    using j(1,2) by (simp_all add: write_done_def submit_and_wait_def pending_write_wait_def)
qed

lemma write_inv:
  assumes inv: "store_inv digest g logs w" and k: "k < length (active_regions (rs_manager (w_store w)))" and job: "w_jobs w k = Some (j, g')"
  shows "\<exists>s'. flush_complete digest (sw_records j) (write_done g' j) (w_store w) = Some (Inr (Some (sw_span j)), s')
    \<and> store_inv digest g logs (w\<lparr>w_store := s', w_device := written (w_device w) j, w_jobs := (w_jobs w)(k := None)\<rparr>)"
  using flush_success_inv [OF inv k job write_done_ok [OF inv k job]] by blast

lemma write_failed_miss_only:
  assumes "wc_result c = Inl e" "flush_complete digest records c s = Some (r, s')"
  shows "\<not> rs_healthy s' \<and> r = Inl (StoreIo e)"
  using assms by (auto simp: flush_complete_def fail_staged_span_def pbind_def enter_miss_only_def with_staging_def split: prod.splits)

text \<open>The scan of a Region that is being reclaimed, on the bytes that are on the device.\<close>

lemma scan_inv:
  assumes inv: "store_inv digest g logs w" and q: "q \<in> set (reclaiming (rs_manager (w_store w)))"
    and k: "k < length (active_regions (rs_manager (w_store w)))"
  shows "\<exists>at res s'. reclaim_absolute q (w_store w) = Some (Inr at, w_store w)
    \<and> scan_reclaim digest q (take (rc_used_offset q) (drop at (w_device w))) accepting (reinsert_sink digest busy k) (w_store w) = Some (res, s')
    \<and> (isl res \<and> \<not> rs_healthy s' \<and> next_seqno (rs_manager s') = u64_max
       \<or> (\<exists>stats. res = Inr stats \<and> rst_records_scanned stats = rc_physical_record_count q
            \<and> (\<exists>logs. store_inv digest g logs (w\<lparr>w_store := s', w_scanned := insert q (w_scanned w)\<rparr>))))"
proof -
  have rec: "reclaiming_log digest g q (logs (rc_region_id q)) w" using inv q by (auto simp: reclaiming_log_def)
  obtain at where at: "reclaim_absolute q (w_store w) = Some (Inr at, w_store w)"
    "take (rc_used_offset q) (drop at (w_device w)) = log_bytes digest (logs (rc_region_id q))"
    using reclaim_bytes [OF rec] by blast
  then show ?thesis
    using scan_reclaim_inv [OF rec k, of accepting busy] reclaiming_facts(4) [OF rec] unfolding at(2) [symmetric]
    by (intro exI [of _ at]) fastforce
qed

text \<open>The number of reclaim workers.\<close>

lemma configure_inv:
  assumes inv: "store_inv digest g logs w" and run: "store_configure_reclaim_workers alloc capacity workers (w_store w) = Some (r, s')"
  shows "store_inv digest g logs (w\<lparr>w_store := s'\<rparr>)"
proof -
  define m where "m = rs_manager (w_store w)"
  note F = frameD [OF store_invD(1) [OF inv]]
  have s': "s' = (w_store w)\<lparr>rs_manager := snd (configure_reclaim_workers alloc capacity workers m)\<rparr>"
    using run frame_locks(2) [OF store_invD(1) [OF inv]]
    by (auto simp: store_configure_reclaim_workers_def m_def pbind_def split: prod.splits)
  have wf: "manager_wf (snd (configure_reclaim_workers alloc capacity workers m))"
    using configure_reclaim_workers_wf F(4) by (simp add: m_def)
  obtain n where n: "snd (configure_reclaim_workers alloc capacity workers m) = m\<lparr>reclaim_limit := n\<rparr>"
    by (rule that [of "reclaim_limit (snd (configure_reclaim_workers alloc capacity workers m))"])
       (simp add: configure_reclaim_workers_def)
  have "pending_replacements (w\<lparr>w_store := s'\<rparr>) = pending_replacements w"
    unfolding pending_replacements_def s' n by (simp add: m_def)
  then show ?thesis using inv wf unfolding store_inv_def store_frame_def s' n
    by (simp add: Let_def m_def [symmetric])
qed

lemma store_step_inv:
  assumes "store_step digest g ev w w'" and streaming: "\<And>parts. digest parts = digest [concat parts]" and inv: "store_inv digest g logs w"
  shows "(\<exists>logs'. store_inv digest g logs' w')
    \<or> \<not> rs_healthy (w_store w')
      \<and> (next_seqno (rs_manager (w_store w')) = u64_max \<or> (\<exists>k. ev = WriteFailedEvent k) \<or> ev = WorkerFailedEvent
         \<or> (\<exists>hash key env. ev = GetEvent hash key env (Inr None) \<and> read_faulty env hash))"
  using assms(1)
proof cases
  case (put key val n gb mb hash r s')
  from put_inv [OF inv put(3) streaming, of gb mb hash] put(4) show ?thesis by (auto simp: put(1,2))
next
  case (delete mb contended hash r s')
  from try_delete_inv [OF inv, of mb contended hash] delete(3) show ?thesis by (auto simp: delete(1,2))
next
  case (get env contended direct hash key r s')
  from store_get_inv [OF inv get(3), of contended direct hash key] get(4) show ?thesis by (auto simp: get(1,2))
next
  case (seal k f r s')
  from seal_inv [OF inv seal(3)] seal(4) show ?thesis by (auto simp: seal(1,2))
next
  case (write_ok k j geometry r s')
  from write_inv [OF inv _ write_ok(4)] write_ok(3,5) frame_shards(1) [OF store_invD(1) [OF inv]] show ?thesis by (auto simp: write_ok(1,2))
next
  case (write_failed k j geometry outcome e r s' dev)
  from write_failed_miss_only [OF write_failed(4,5)] show ?thesis by (auto simp: write_failed(1,2))
next
  case (rotate k r s')
  from rotate_shard_inv [OF inv, of k] rotate(3,4) frame_shards(1) [OF store_invD(1) [OF inv]] show ?thesis by (auto simp: rotate(1,2))
next
  case (reclaim r s')
  from begin_reclaim_inv [OF inv] reclaim(3) show ?thesis by (auto simp: reclaim(1,2))
next
  case (scan q k at s accepting busy r s')
  from scan_inv [OF inv scan(3), of k accepting busy] scan(4-6) frame_shards(1) [OF store_invD(1) [OF inv]]
  show ?thesis by (auto simp: scan(1,2))
next
  case (free q r s')
  from complete_reclaim_inv [OF inv free(3,4)] free(5) show ?thesis by (auto simp: free(1,2))
next
  case (worker_failed r s')
  then show ?thesis by (auto simp: enter_miss_only_def)
next
  case (configure alloc capacity workers r s')
  from configure_inv [OF inv configure(3)] show ?thesis by (auto simp: configure(2))
qed

lemma store_step_latched:
  assumes "store_step digest g ev w w'" "rs_healthy (w_store w')" shows "rs_healthy (w_store w)"
  using assms
proof cases
  case (put key val n gb mb hash r s')
  then show ?thesis using latchedD [OF latched_stage(2) put(4)] assms(2) by simp
next
  case (delete mb contended hash r s')
  then show ?thesis using latchedD [OF latched_stage(4) delete(3)] assms(2) by simp
next
  case (get env contended direct hash key r s')
  then show ?thesis using latchedD [OF latched_get get(4)] assms(2) by simp
next
  case (seal k f r s')
  then show ?thesis using latchedD [OF latched_flush_begin seal(4)] assms(2) by simp
next
  case (write_ok k j geometry r s')
  then show ?thesis using latchedD [OF latched_flush_complete write_ok(5)] assms(2) by simp
next
  case (write_failed k j geometry outcome e r s' dev)
  then show ?thesis using latchedD [OF latched_flush_complete write_failed(5)] assms(2) by simp
next
  case (rotate k r s')
  then show ?thesis using latchedD [OF latched_rotate rotate(4)] assms(2) by simp
next
  case (reclaim r s')
  then show ?thesis using latchedD [OF latched_reclaim(2) reclaim(3)] assms(2) by simp
next
  case (scan q k at s accepting busy r s')
  have "rs_healthy s" using latchedD [OF latched_reclaim(1) scan(6)] assms(2) latched_stage(5) scan(2) by simp
  then show ?thesis using latchedD [OF latched_absolute scan(5)] by simp
next
  case (free q r s')
  then show ?thesis using latchedD [OF latched_reclaim(3) free(5)] assms(2) by simp
next
  case (worker_failed r s')
  then show ?thesis using assms(2) by (auto simp: enter_miss_only_def)
next
  case (configure alloc capacity workers r s')
  have "latched (store_configure_reclaim_workers alloc capacity workers)"
    unfolding store_configure_reclaim_workers_def by (intro latched_rules) (auto simp: latched_def split: prod.splits)
  from latchedD [OF this configure(3)] configure(2) assms(2) show ?thesis by simp
qed

end
