(* ===== verification/Store_Open.thy ===== *)
theory Store_Open
  imports Store_Steps Region_Freeze
begin

text \<open>
  Opening an empty cache: \<^verbatim>\<open>empty_region_metadata\<close> and the construction part of \<^verbatim>\<open>cold_regions\<close> of
  \<^verbatim>\<open>region/persistence/mod.rs\<close>. For every valid geometry the table that is built passes the eager validation, and
  the store over it satisfies the invariant of the running store.
\<close>

section \<open>The empty Region table\<close>

text \<open>The loop over the Region ids; the ordinals of free Regions are counted with a checked addition.\<close>

fun empty_region_records :: "nat \<Rightarrow> nat \<Rightarrow> nat list \<Rightarrow> store_error + region_metadata_record list" where
  "empty_region_records append_shards free_ordinal [] = Inr []"
| "empty_region_records append_shards free_ordinal (rid # rest) =
     (let active = rid < append_shards in
      bind_result (if active then Inr (rid, free_ordinal)
                   else bind_result (ok_or (StoreIo (IoError OtherIo ''free Region ordinal overflow'')) (checked_add u32_max free_ordinal 1))
                          (\<lambda>next_free. Inr (free_ordinal, next_free))) (\<lambda>(ordinal, free_ordinal').
      bind_result (empty_region_records append_shards free_ordinal' rest) (\<lambda>records.
      Inr (\<lparr>rec_state = (if active then Active else Free), queue_ordinal = ordinal,
            rec_created_seqno = (if active then rid + 1 else 0), durable_used_offset = 0, rec_physical_record_count = 0\<rparr> # records))))"

definition empty_region_metadata :: "allocator \<Rightarrow> data_superblock \<Rightarrow> nat \<Rightarrow> nat \<Rightarrow> store_error + region_metadata" where
  "empty_region_metadata alloc data slots append_shards =
     (if append_shards = 0 \<or> dg_region_count (sb_geometry data) \<le> append_shards
      then Inl (StoreIo (IoError InvalidInput ''cache requires one Active Region per shard plus one spare''))
      else
      bind_result (map_err index_storage_io_error (canonical_index_partition_ranges alloc slots)) (\<lambda>partition_ranges.
      bind_result (ok_or (StoreIo (IoError InvalidInput ''index is too large'')) (try_from u64_max slots)) (\<lambda>slots64.
      bind_result (ok_or (StoreIo (IoError InvalidInput ''invalid index length'')) (recovery_image_index_len slots64)) (\<lambda>index_len.
      if \<not> alloc (dg_region_count (sb_geometry data)) then Inl (StoreIo (IoError OutOfMemory ''cannot allocate Region table''))
      else
      bind_result (empty_region_records append_shards 0 [0..<dg_region_count (sb_geometry data)]) (\<lambda>records.
      bind_result (empty_partition_metadata alloc partition_ranges) (\<lambda>partitions.
      bind_result (ok_or (StoreIo (IoError InvalidInput ''too many index partitions'')) (try_from u32_max (length partition_ranges))) (\<lambda>partition_count.
      let md = \<lparr>md_root = \<lparr>cache_uuid = sb_cache_uuid data, data_identity = sb_data_identity data,
              data_superblock_generation = unat (sb_generation data), image_identity = sb_data_identity data, image_generation = 1,
              storage_fingerprint = unat (sb_storage_fingerprint data), index_slots = slots64,
              index_page_count = index_len div RECOVERY_PAGE_SIZE, region_size = dg_region_size (sb_geometry data),
              region_count = dg_region_count (sb_geometry data), partition_count = partition_count, shard_count = append_shards,
              max_seqno = append_shards, free_region_count = dg_region_count (sb_geometry data) - append_shards,
              active_region_count = append_shards, sealed_region_count = 0\<rparr>,
            md_regions = records, md_partitions = partitions\<rparr>
      in bind_result (map_err region_metadata_io_error (validate_metadata alloc md)) (\<lambda>_. Inr md))))))))"

text \<open>\<^verbatim>\<open>cold_regions\<close> after the stale files are gone: the store over the empty table.\<close>

definition cold_store :: "allocator \<Rightarrow> (nat \<Rightarrow> io_error option) \<Rightarrow> data_superblock \<Rightarrow> nat \<Rightarrow> nat \<Rightarrow> store_error + region_store" where
  "cold_store alloc map_anonymous data slots append_shards =
     bind_result (empty_region_metadata alloc data slots append_shards) (\<lambda>metadata.
     bind_result (map_err index_storage_io_error (storage_anonymous alloc map_anonymous slots)) (\<lambda>index.
     from_recovery alloc index metadata))"

section \<open>The table is valid\<close>

definition empty_record :: "nat \<Rightarrow> nat \<Rightarrow> region_metadata_record" where
  "empty_record shards rid =
     \<lparr>rec_state = (if rid < shards then Active else Free), queue_ordinal = (if rid < shards then rid else rid - shards),
      rec_created_seqno = (if rid < shards then rid + 1 else 0), durable_used_offset = 0, rec_physical_record_count = 0\<rparr>"

lemma empty_region_records_eq:
  "n \<le> u32_max \<Longrightarrow> empty_region_records shards (a - shards) [a..<n] = Inr (map (empty_record shards) [a..<n])"
proof (induction "n - a" arbitrary: a)
  case (Suc d)
  then have a: "a < n" by simp
  have "empty_region_records shards (Suc a - shards) [Suc a..<n] = Inr (map (empty_record shards) [Suc a..<n])"
    by (rule Suc.hyps(1)) (use Suc.hyps(2) Suc.prems in simp_all)
  then show ?case using a Suc.prems
    by (cases "a < shards") (simp_all add: upt_conv_Cons checked_add_def empty_record_def Let_def Suc_diff_le)
qed simp

text \<open>The directory entry of an empty partition.\<close>

definition empty_partition :: "index_partition_range \<Rightarrow> partition_metadata_record" where
  "empty_partition r = \<lparr>part_id = partition_id r, part_first_index_page = first_page r, part_index_page_count = page_count r,
     part_first_slot = first_slot r, part_slot_count = slot_count r, physical_value_slots = 0, physical_deleted_slots = 0\<rparr>"

definition range_fits :: "index_partition_range \<Rightarrow> bool" where
  "range_fits r \<longleftrightarrow> partition_id r \<le> u32_max \<and> first_page r \<le> u64_max \<and> page_count r \<le> u64_max \<and> first_slot r \<le> u64_max
     \<and> slot_count r \<le> u64_max"

lemma partition_records_eq:
  "\<forall>r \<in> set rs. range_fits r \<Longrightarrow> partition_records (zip rs (replicate (length rs) default_stats)) = Inr (map empty_partition rs)"
  by (induction rs) (simp_all add: partition_record_def range_fits_def try_from_def empty_partition_def default_stats_def)

lemma validate_empty_partitions:
  "\<forall>r \<in> set rs. range_fits r \<Longrightarrow> validate_partition_records (map empty_partition rs) rs = Inr ()"
  by (induction rs) (simp_all add: range_fits_def try_from_def empty_partition_def)

lemma tiles_fit:
  assumes t: "tiles 0 0 0 rs pages slots" and b: "pages \<le> u64_max" "slots \<le> u64_max" "length rs \<le> u32_max"
  shows "\<forall>r \<in> set rs. range_fits r"
proof
  fix r assume "r \<in> set rs"
  then obtain i where i: "i < length rs" "r = rs ! i" by (auto simp: in_set_conv_nth)
  then show "range_fits r" using tiles_nth(1,6,8) [OF t i(1)] b by (simp add: range_fits_def)
qed

lemma empty_records_permuted:
  assumes "0 < shards" "shards < n" "free_region_count root = n - shards" "active_region_count root = shards" "sealed_region_count root = 0"
  shows "queues_permuted root (map (empty_record shards) [0..<n])"
proof -
  have "distinct (map (\<lambda>rid. queue_key (empty_record shards rid)) [0..<n])"
    unfolding distinct_map
    by (auto simp: inj_on_def queue_key_def empty_record_def split: if_splits)
  moreover have "queue_key ` empty_record shards ` {0..<n} = {(s, j). j < (case s of Free \<Rightarrow> n - shards | Active \<Rightarrow> shards | Sealed \<Rightarrow> 0)}"
  proof (intro equalityI subsetI)
    fix x assume "x \<in> {(s, j). j < (case s of Free \<Rightarrow> n - shards | Active \<Rightarrow> shards | Sealed \<Rightarrow> 0)}"
    then obtain s j where x: "x = (s, j)" "j < (case s of Free \<Rightarrow> n - shards | Active \<Rightarrow> shards | Sealed \<Rightarrow> 0)" by blast
    show "x \<in> queue_key ` empty_record shards ` {0..<n}"
    proof (cases s)
      case Active
      then have "x = queue_key (empty_record shards j)" "j \<in> {0..<n}" using x assms by (simp_all add: queue_key_def empty_record_def)
      then show ?thesis by blast
    next
      case Free
      then have "x = queue_key (empty_record shards (j + shards))" "j + shards \<in> {0..<n}" using x assms by (simp_all add: queue_key_def empty_record_def)
      then show ?thesis by blast
    qed (use x in simp)
  qed (use assms in \<open>auto simp: queue_key_def empty_record_def\<close>)
  ultimately show ?thesis
    by (simp add: queues_permuted_def queue_positions_def state_count_def image_image comp_def assms(3-5) cong: region_state.case_cong)
qed

lemma pages_of_slots:
  "slots div 504 + of_bool (slots mod 504 \<noteq> 0) = (slots + 503) div 504" for slots :: nat
  by (cases "slots mod 504 = 0") (auto simp: div_add1_eq [of slots 503] mod_less_divisor)

lemma div_ceil_pages: "div_ceil slots INDEX_IMAGE_SLOTS_PER_PAGE = (slots + 503) div 504"
  using pages_of_slots [of slots] by (cases "slots mod 504 = 0") (simp_all add: div_ceil_def slots_per_page)

text \<open>What the configuration guarantees of an index size and of a shard count.\<close>

definition openable :: "data_superblock \<Rightarrow> nat \<Rightarrow> nat \<Rightarrow> bool" where
  "openable data slots shards \<longleftrightarrow>
     superblock_is_valid data \<and> 8 \<le> slots \<and> slots \<le> u32_max \<and> 0 < shards \<and> shards \<le> MAX_SHARDS
     \<and> shards < dg_region_count (sb_geometry data)"

definition empty_metadata_of :: "data_superblock \<Rightarrow> nat \<Rightarrow> nat \<Rightarrow> index_partition_range list \<Rightarrow> region_metadata" where
  "empty_metadata_of data slots shards rs =
     \<lparr>md_root = \<lparr>cache_uuid = sb_cache_uuid data, data_identity = sb_data_identity data,
        data_superblock_generation = unat (sb_generation data), image_identity = sb_data_identity data, image_generation = 1,
        storage_fingerprint = unat (sb_storage_fingerprint data), index_slots = slots, index_page_count = (slots + 503) div 504,
        region_size = dg_region_size (sb_geometry data), region_count = dg_region_count (sb_geometry data),
        partition_count = length rs, shard_count = shards, max_seqno = shards,
        free_region_count = dg_region_count (sb_geometry data) - shards, active_region_count = shards, sealed_region_count = 0\<rparr>,
      md_regions = map (empty_record shards) [0..<dg_region_count (sb_geometry data)], md_partitions = map empty_partition rs\<rparr>"

lemma empty_metadata_valid:
  assumes op: "openable data slots shards" and alloc: "\<And>n. alloc n"
    and rs: "canonical_index_partition_ranges alloc slots = Inr rs" "tiles 0 0 0 rs ((slots + 503) div 504) slots"
      "is_power_of_two (length rs)" "length rs \<le> MAX_INDEX_PARTITIONS" "length rs \<le> (slots + 503) div 504"
  shows "validate_metadata alloc (empty_metadata_of data slots shards rs) = Inr ()" "\<forall>r \<in> set rs. range_fits r"
    "active_aligned (empty_metadata_of data slots shards rs)"
proof -
  let ?md = "empty_metadata_of data slots shards rs" and ?n = "dg_region_count (sb_geometry data)"
  have al: "allocates alloc" using alloc by (simp add: allocates_def)
  have o: "sb_generation data \<noteq> 0" "geometry_is_valid (sb_geometry data)" "8 \<le> slots" "slots \<le> u32_max" "0 < shards" "shards \<le> 256" "shards < ?n"
    using op by (auto simp: openable_def superblock_is_valid_def MAX_SHARDS_def)
  have g: "?n \<le> 2 ^ 20" "4096 \<le> dg_region_size (sb_geometry data)" "dg_region_size (sb_geometry data) \<le> 2 ^ 25"
    "dg_region_size (sb_geometry data) mod 4096 = 0"
    using o(2) by (auto simp: geometry_is_valid_def region_limits)
  have len: "0 < length rs" using rs(3) by (auto simp: is_power_of_two_def)
  show fit: "\<forall>r \<in> set rs. range_fits r"
    by (rule tiles_fit [OF rs(2)]) (use o(4) rs(4) in \<open>simp_all add: num_bounds MAX_INDEX_PARTITIONS_def\<close>)
  have small: "\<forall>r \<in> set rs. slot_count r \<le> u32_max"
    using tiles_nth(6) [OF rs(2)] o(4) by (auto simp: in_set_conv_nth) (metis add_leD2 le_trans)
  have "is_ok (validated_index_partition_ranges alloc slots)"
    using rs(1) small by (auto simp: validated_index_partition_ranges_def list_ex_iff is_ok_def)
  moreover have "validate_partitions alloc (md_root ?md) (md_partitions ?md) = Inr ()"
    using rs(1) validate_empty_partitions [OF fit] o(4)
    by (simp add: validate_partitions_def empty_metadata_of_def num_bounds)
  ultimately have "index_directory_valid alloc (md_root ?md) (md_partitions ?md)"
    using o(3,4) by (simp add: index_directory_valid_def empty_metadata_of_def num_bounds)
  moreover have "\<not> root_fields_invalid (md_root ?md)"
    using o g rs(3-5) len div_ceil_pages [of slots]
    by (auto simp: root_fields_invalid_def empty_metadata_of_def region_limits checked_add_def num_bounds unat_eq_0)
  moreover have "\<forall>r \<in> set (md_regions ?md). region_record_ok (md_root ?md) r"
    using o by (auto simp: empty_metadata_of_def region_record_ok_def empty_record_def)
  moreover have "queues_permuted (md_root ?md) (md_regions ?md)"
    using empty_records_permuted [OF o(5,7), of "md_root ?md"] by (simp add: empty_metadata_of_def)
  ultimately show "validate_metadata alloc ?md = Inr ()"
    unfolding validate_metadata_iff [OF al] by (simp add: empty_metadata_of_def)
  show "active_aligned ?md" by (auto simp: active_aligned_def empty_metadata_of_def empty_record_def)
qed

lemma empty_region_metadata_eq:
  assumes op: "openable data slots shards" and alloc: "\<And>n. alloc n"
    and rs: "canonical_index_partition_ranges alloc slots = Inr rs" "tiles 0 0 0 rs ((slots + 503) div 504) slots"
      "is_power_of_two (length rs)" "length rs \<le> MAX_INDEX_PARTITIONS" "length rs \<le> (slots + 503) div 504"
  shows "empty_region_metadata alloc data slots shards = Inr (empty_metadata_of data slots shards rs)"
proof -
  note v = empty_metadata_valid [OF assms]
  let ?n = "dg_region_count (sb_geometry data)"
  have o: "geometry_is_valid (sb_geometry data)" "8 \<le> slots" "slots \<le> u32_max" "0 < shards" "shards < ?n"
    using op by (auto simp: openable_def superblock_is_valid_def)
  have g: "?n \<le> u32_max" using o(1) by (auto simp: geometry_is_valid_def region_limits num_bounds)
  note pages_of_slots [of slots]
  moreover have "(slots + 503) div 504 * 4096 \<le> u64_max" "(slots + 503) div 504 \<le> u64_max"
    using o(3) div_le_dividend [of "slots + 503" 504] by (simp_all add: num_bounds)
  ultimately have il: "recovery_image_index_len slots = Some ((slots + 503) div 504 * 4096)"
    using o(2) by (simp add: recovery_image_index_len_def image_header_consts
        checked_add_def checked_mul_def)
  have parts: "empty_partition_metadata alloc rs = Inr (map empty_partition rs)"
    using partition_records_eq [OF v(2)] alloc by (simp add: empty_partition_metadata_def partition_metadata_from_stats_def)
  have "empty_region_records shards 0 [0..<?n] = Inr (map (empty_record shards) [0..<?n])"
    using empty_region_records_eq [OF g, of shards 0] by simp
  then show ?thesis
    using o rs(1,4) alloc il parts v(1)
    by (simp add: empty_region_metadata_def num_bounds MAX_INDEX_PARTITIONS_def RECOVERY_PAGE_SIZE_def Let_def
        empty_metadata_of_def)
qed

section \<open>The cold store\<close>

lemma read_partitions_map:
  "\<forall>p \<in> set parts. \<not> part_poisoned p \<Longrightarrow> read_partitions n parts = Inr (map part_stats parts)"
  by (induction parts arbitrary: n) simp_all

lemma anonymous_parts:
  assumes rep: "representable_slots slots" and alloc: "\<And>n. alloc n" and mm: "\<And>n. map_anonymous n = None"
    and rs: "canonical_index_partition_ranges alloc slots = Inr rs"
  obtains s where "storage_anonymous alloc map_anonymous slots = Inr s" "storage_ok digest s" "pis_slot_count s = slots"
    "\<forall>table \<in> set (tables s). \<forall>st \<in> set table. st = Empty" "length (pis_partitions s) = length rs"
    "partition_stats alloc s = Inr (replicate (length rs) default_stats)"
proof -
  obtain s where s: "storage_anonymous alloc map_anonymous slots = Inr s" "storage_ok digest s" "pis_slot_count s = slots"
    "\<forall>table \<in> set (tables s). \<forall>st \<in> set table. st = Empty"
    using anonymous_ok [where digest = digest and alloc = alloc and map_anonymous = map_anonymous, OF rep alloc mm] by blast
  obtain c where "from_core alloc slots rs c None = Inr s" using s(1) rs by (auto simp: storage_anonymous_def)
  note f = from_core_fields [OF this]
  have ps: "\<forall>p \<in> set (pis_partitions s). \<not> part_poisoned p \<and> part_stats p = default_stats"
    using f(6,7) by (auto simp: in_set_conv_nth)
  then have "map part_stats (pis_partitions s) = replicate (length rs) default_stats"
    using f(6) by (auto intro!: nth_equalityI)
  then have "partition_stats alloc s = Inr (replicate (length rs) default_stats)"
    using ps alloc by (simp add: partition_stats_def read_partitions_map)
  moreover have "length (pis_partitions s) = length rs" using f(5) by (metis length_map)
  ultimately show ?thesis using that s by blast
qed

lemma cold_store_ok:
  assumes op: "openable data slots shards" and alloc: "\<And>n. alloc n" and mm: "\<And>n. map_anonymous n = None"
  obtains x m where "cold_store alloc map_anonymous data slots shards = Inr \<lparr>rs_index = x, rs_manager = m, rs_manager_poisoned = False,
      rs_append_gates = replicate shards False, rs_region_generations = map d_created_seqno (regions m), rs_rotation_poisoned = False, rs_healthy = True\<rparr>"
    "index_ok digest x" "index_map x = Map.empty" "manager_wf m" "length (active_regions m) = shards" "reclaiming m = []"
    "rm_region_size m = dg_region_size (sb_geometry data)" "length (regions m) = dg_region_count (sb_geometry data)"
    "append_states m = replicate shards default_shard_state" "next_seqno m = shards + 1"
    "\<forall>d \<in> set (regions m). completed_used d = 0 \<and> reserved_used d = 0 \<and> d_physical_record_count d = 0"
    "length (free_regions m) + shards = dg_region_count (sb_geometry data)"
proof -
  have sl: "8 \<le> slots" "slots \<le> u32_max" "shards < u64_max" using op by (auto simp: openable_def MAX_SHARDS_def num_bounds)
  have "(slots + 503) div 504 * 4096 \<le> isize_max"
    using sl(2) div_le_dividend [of "slots + 503" 504] by (simp add: num_bounds)
  then have rep: "representable_slots slots" using sl(1) by (simp add: representable_slots_def)
  obtain rs where rs: "canonical_index_partition_ranges alloc slots = Inr rs" "tiles 0 0 0 rs ((slots + 503) div 504) slots"
    "is_power_of_two (length rs)" "length rs \<le> MAX_INDEX_PARTITIONS" "length rs \<le> (slots + 503) div 504"
    using canonical_ranges_ok [OF rep, of alloc] alloc by blast
  let ?md = "empty_metadata_of data slots shards rs"
  note v = empty_metadata_valid [OF op alloc rs] and eq = empty_region_metadata_eq [OF op alloc rs]
  have al: "allocates alloc" using alloc by (simp add: allocates_def)
  have seq: "max_seqno (md_root ?md) < u64_max" using sl(3) by (simp add: empty_metadata_of_def)
  obtain q where q: "from_metadata alloc ?md = Inr (recovered_manager ?md q)" "\<And>s. length (q s) = state_count (md_root ?md) s"
    "queues_index (map queue_key (md_regions ?md)) q"
    by (rule from_metadata_ok [OF v(1) al seq]) (rule that)
  define m where "m = recovered_manager ?md q"
  have wf: "manager_wf m" unfolding m_def by (rule recovered_wf [OF v(1) al seq v(3) q(2,3)])
  have mf: "length (active_regions m) = shards" "reclaiming m = []" "rm_region_size m = dg_region_size (sb_geometry data)"
    "length (regions m) = dg_region_count (sb_geometry data)" "append_states m = replicate shards default_shard_state" "next_seqno m = shards + 1"
    "length (free_regions m) + shards = dg_region_count (sb_geometry data)"
    using q(2) [of Active] q(2) [of Free] op by (simp_all add: m_def recovered_manager_def empty_metadata_of_def Let_def state_count_def openable_def)
  have ds: "\<forall>d \<in> set (regions m). completed_used d = 0 \<and> reserved_used d = 0 \<and> d_physical_record_count d = 0"
    by (auto simp: m_def recovered_manager_def empty_metadata_of_def Let_def recovered_desc_def empty_record_def)
  obtain s where s: "storage_anonymous alloc map_anonymous slots = Inr s" "storage_ok digest s" "pis_slot_count s = slots"
    "\<forall>table \<in> set (tables s). \<forall>st \<in> set table. st = Empty" "length (pis_partitions s) = length rs"
    "partition_stats alloc s = Inr (replicate (length rs) default_stats)"
    by (rule anonymous_parts [OF rep alloc mm rs(1)])
  obtain x where x: "index_from_storage alloc s = Inr x" "index_ok digest x" "index_map x = Map.empty"
    by (rule index_of_empty_storage [OF s(2,4) alloc])
  have stats: "metadata_partition_stats_match ?md (replicate (length rs) default_stats)"
    by (auto simp: metadata_partition_stats_match_def empty_metadata_of_def list_all_length empty_partition_def default_stats_def)
  have "index_slots (md_root ?md) = slots" "partition_count (md_root ?md) = length rs" by (simp_all add: empty_metadata_of_def)
  then have "cold_store alloc map_anonymous data slots shards = Inr \<lparr>rs_index = x, rs_manager = m, rs_manager_poisoned = False,
      rs_append_gates = replicate shards False, rs_region_generations = map d_created_seqno (regions m), rs_rotation_poisoned = False, rs_healthy = True\<rparr>"
    using eq s(1,3,5,6) stats q(1) x(1) alloc sl(2) mf(1)
    by (simp add: cold_store_def from_recovery_def num_bounds m_def [symmetric])
  then show ?thesis by (rule that) (use x wf mf ds in simp_all)
qed

section \<open>The staging memory\<close>

definition empty_shard :: "nat \<Rightarrow> shard_state" where
  "empty_shard chunk =
     \<lparr>fill = fill_new (replicate chunk 0) \<lparr>vec_items = [], vec_capacity = MAX_STAGING_RECORDS\<rparr>, spare_buffer = Some (replicate chunk 0),
      spare_records = Some \<lparr>vec_items = [], vec_capacity = MAX_STAGING_RECORDS\<rparr>, encoding = None, submitted = None,
      failed = False, closed = False\<rparr>"

lemma fresh_shards_eq: "fresh_shards alloc chunk n = Inr sts \<Longrightarrow> sts = replicate n (empty_shard chunk)"
  by (induction n arbitrary: sts)
    (auto simp: fresh_shard_def lease_try_fixed_def try_staged_records_def empty_shard_def split: if_splits)

lemma staging_fresh:
  assumes "staging_try_new alloc observed n chunk rsize t = (Inr a, t')"
  shows "as_shards a = replicate n (empty_shard chunk)" "as_chunk_bytes a = chunk" "as_region_size a = rsize"
    "chunk mod 4096 = 0" "chunk \<le> rsize"
  using assms fresh_shards_eq
  by (auto simp: staging_try_new_def BUFFER_ALIGNMENT_def split: if_splits option.splits prod.splits sum.splits)

definition runtime_of :: "region_store \<Rightarrow> append_staging \<Rightarrow> region_runtime" where
  "runtime_of s a = region_store.extend s (region_runtime.fields a)"

definition cold_world :: "region_store \<Rightarrow> append_staging \<Rightarrow> bytes \<Rightarrow> store_world" where
  "cold_world s a dev = \<lparr>w_store = runtime_of s a, w_device = dev, w_jobs = (\<lambda>_. None), w_puts = {}, w_scanned = {}\<rparr>"

lemma runtime_of_simps [simp]:
  "rs_index (runtime_of s a) = rs_index s" "rs_manager (runtime_of s a) = rs_manager s"
  "rs_manager_poisoned (runtime_of s a) = rs_manager_poisoned s" "rs_append_gates (runtime_of s a) = rs_append_gates s"
  "rs_region_generations (runtime_of s a) = rs_region_generations s" "rs_rotation_poisoned (runtime_of s a) = rs_rotation_poisoned s"
  "rs_healthy (runtime_of s a) = rs_healthy s" "rt_staging (runtime_of s a) = a"
  by (simp_all add: runtime_of_def region_store.extend_def region_runtime.fields_def)

lemma cold_world_inv:
  assumes cold: "cold_store alloc map_anonymous data slots shards = Inr s" and op: "openable data slots shards" and alloc: "\<And>n. alloc n"
    and mm: "\<And>n. map_anonymous n = None"
    and staging: "staging_try_new alloc observed shards chunk (dg_region_size (sb_geometry data)) t = (Inr a, t')"
    and dev: "length dev = dg_data_file_len (sb_geometry data)"
  shows "store_inv digest (sb_geometry data) (\<lambda>_. []) (cold_world s a dev)"
proof -
  note st = staging_fresh [OF staging]
  obtain x m where s: "s = \<lparr>rs_index = x, rs_manager = m, rs_manager_poisoned = False,
      rs_append_gates = replicate shards False, rs_region_generations = map d_created_seqno (regions m), rs_rotation_poisoned = False, rs_healthy = True\<rparr>"
    "index_ok digest x" "index_map x = Map.empty" "manager_wf m" "length (active_regions m) = shards" "reclaiming m = []"
    "rm_region_size m = dg_region_size (sb_geometry data)" "length (regions m) = dg_region_count (sb_geometry data)"
    "append_states m = replicate shards default_shard_state" "next_seqno m = shards + 1"
    "\<forall>d \<in> set (regions m). completed_used d = 0 \<and> reserved_used d = 0 \<and> d_physical_record_count d = 0"
    by (rule cold_store_ok [where digest = digest and map_anonymous = map_anonymous and alloc = alloc, OF op alloc mm]) (use cold in simp)
  show ?thesis
  proof (rule store_invI)
    show "store_frame digest (sb_geometry data) (w_store (cold_world s a dev))"
      using s st op by (simp add: store_frame_def cold_world_def openable_def superblock_is_valid_def)
    show "region_log_ok digest (sb_geometry data) (w_device (cold_world s a dev)) (w_puts (cold_world s a dev)) rid
        (regions (rs_manager (w_store (cold_world s a dev))) ! rid) []"
      if "rid < length (regions (rs_manager (w_store (cold_world s a dev))))" for rid
      using that s(11) nth_mem [of rid "regions m"]
      by (simp add: cold_world_def s(1) region_log_ok_def region_holds_def log_len_def log_bytes_def)
    show "shard_log_ok digest (sb_geometry data) (rt_staging (w_store (cold_world s a dev))) k
        (active_regions (rs_manager (w_store (cold_world s a dev))) ! k)
        (regions (rs_manager (w_store (cold_world s a dev))) ! (active_regions (rs_manager (w_store (cold_world s a dev))) ! k))
        (append_states (rs_manager (w_store (cold_world s a dev))) ! k) (as_shards (rt_staging (w_store (cold_world s a dev))) ! k)
        (w_jobs (cold_world s a dev) k) []"
      if "k < length (active_regions (rs_manager (w_store (cold_world s a dev))))" for k
      using that s(1,5,9) st(1)
      by (intro shard_log_okI [where jl = "[]" and fl = "[]"])
        (simp_all add: cold_world_def default_shard_state_def empty_shard_def shard_open_def job_log_ok_def spare_ready_def fill_holds_def
          chunk_holds_def fill_new_def log_len_def log_bytes_def open_log_ok_def st(2))
  qed (use dev s(1,3) in \<open>simp_all add: cold_world_def index_log_ok_def puts_fit_def\<close>)
qed

end
