(* ===== verification/Store_Properties.thy ===== *)
theory Store_Properties
  imports Store_Open
begin

text \<open>
  The properties of the running store: the invariant of every reachable world, that reads return what was
  put, that a flushed put is readable and a deleted key is not, that a reclaim ends, that operations answer, and
  what makes a store miss-only.
\<close>

section \<open>Reachable worlds\<close>

lemma reach_inv:
  assumes "store_reach digest g w0 w" and streaming: "\<And>parts. digest parts = digest [concat parts]" and "store_inv digest g logs w0"
  shows "rs_healthy (w_store w) \<Longrightarrow> \<exists>logs. store_inv digest g logs w"
  using assms
proof (induction rule: store_reach.induct)
  case start
  then show ?case by blast
next
  case (further w ev w')
  then have "rs_healthy (w_store w)" using store_step_latched by blast
  then obtain l where "store_inv digest g l w" using further by blast
  from store_step_inv [OF further.hyps(2) streaming this] further.prems(1) show ?case by blast
qed

lemma reach_latched:
  "store_reach digest g w w' \<Longrightarrow> rs_healthy (w_store w') \<Longrightarrow> rs_healthy (w_store w)"
  by (induction rule: store_reach.induct) (use store_step_latched in blast)+

text \<open>The worlds that a freshly opened cache can come to.\<close>

definition cache_world :: "crc_stream \<Rightarrow> data_superblock \<Rightarrow> store_world \<Rightarrow> bool" where
  "cache_world digest data w \<longleftrightarrow>
     (\<exists>alloc map_anonymous slots shards s observed chunk t a t' dev.
        openable data slots shards \<and> (\<forall>n. alloc n) \<and> (\<forall>n. map_anonymous n = None)
        \<and> cold_store alloc map_anonymous data slots shards = Inr s
        \<and> staging_try_new alloc observed shards chunk (dg_region_size (sb_geometry data)) t = (Inr a, t')
        \<and> length dev = dg_data_file_len (sb_geometry data)
        \<and> store_reach digest (sb_geometry data) (cold_world s a dev) w)"

lemma cache_worldI:
  assumes "openable data slots shards" "\<forall>n. alloc n" "\<forall>n. map_anonymous n = None" "cold_store alloc map_anonymous data slots shards = Inr s"
    "staging_try_new alloc observed shards chunk (dg_region_size (sb_geometry data)) t = (Inr a, t')"
    "length dev = dg_data_file_len (sb_geometry data)" "store_reach digest (sb_geometry data) (cold_world s a dev) w"
  shows "cache_world digest data w"
  unfolding cache_world_def by (intro exI conjI) (rule assms)+

lemma cache_world_inv:
  assumes "cache_world digest data w" "rs_healthy (w_store w)" and streaming: "\<And>parts. digest parts = digest [concat parts]"
  obtains logs where "store_inv digest (sb_geometry data) logs w"
proof -
  obtain alloc map_anonymous slots shards s observed chunk t a t' dev where
    c: "openable data slots shards" "\<And>n. alloc n" "\<And>n. map_anonymous n = None" "cold_store alloc map_anonymous data slots shards = Inr s"
      "staging_try_new alloc observed shards chunk (dg_region_size (sb_geometry data)) t = (Inr a, t')"
      "length dev = dg_data_file_len (sb_geometry data)" "store_reach digest (sb_geometry data) (cold_world s a dev) w"
    using assms(1) unfolding cache_world_def by blast
  from reach_inv [OF c(7) streaming cold_world_inv [OF c(4,1,2,3,5,6)] assms(2)] that show ?thesis by blast
qed

lemma cache_world_step:
  "cache_world digest data w \<Longrightarrow> store_step digest (sb_geometry data) ev w w' \<Longrightarrow> cache_world digest data w'"
  unfolding cache_world_def by (meson store_reach.further)

text \<open>
  C6 (functional): a cold start succeeds and is empty. For every valid superblock, index size and shard count that
  leaves a spare Region, and when memory can be had, \<^verbatim>\<open>cold_regions\<close> builds a table that passes the eager
  validation and returns a healthy store whose Region manager is well-formed, with one active Region for each
  shard, every other Region free, and an index that maps nothing.
\<close>
theorem cold_start_opens:
  assumes op: "openable data slots shards" and alloc: "\<And>n. alloc n" and mm: "\<And>n. map_anonymous n = None"
  shows "\<exists>s. cold_store alloc map_anonymous data slots shards = Inr s \<and> rs_healthy s \<and> manager_wf (rs_manager s)
    \<and> index_ok digest (rs_index s) \<and> index_map (rs_index s) = Map.empty
    \<and> length (active_regions (rs_manager s)) = shards
    \<and> length (free_regions (rs_manager s)) + shards = dg_region_count (sb_geometry data)
    \<and> (\<forall>d \<in> set (regions (rs_manager s)). completed_used d = 0 \<and> reserved_used d = 0 \<and> d_physical_record_count d = 0)"
  by (rule cold_store_ok [where digest = digest and alloc = alloc and map_anonymous = map_anonymous, OF op alloc mm]) auto

section \<open>Reads\<close>

lemma unhealthy_get:
  "\<not> rs_healthy s \<Longrightarrow> store_get digest g contended direct env hash key s = Some (Inr None, s)"
  by (simp add: store_get_def prepare_get_def complete_get_def pbind_def)

lemma absent_get:
  assumes inv: "store_inv digest g logs w"
    and absent: "index_map (rs_index (w_store w)) (token (index_shape (rs_index (w_store w))) hash) = None"
  shows "\<exists>s'. store_get digest g contended direct env hash key (w_store w) = Some (Inr None, s')"
proof -
  obtain s' where "begin_point_read digest contended hash (w_store w) = Some (Inr None, s')"
    using begin_point_read_inv [OF inv, of contended hash] absent by (auto split: if_splits)
  moreover have "rs_healthy (w_store w)" using frameD(1) [OF store_invD(1) [OF inv]] .
  ultimately show ?thesis by (simp add: store_get_def prepare_get_def prepare_l2_get_def complete_get_def pbind_def)
qed

lemma answer_of_known:
  assumes inv: "store_inv digest g logs w"
    and "answer_of (rs_index (w_store w)) (regions (rs_manager (w_store w))) logs hash key (Some (val, seqno))"
  shows "(hash, key, val) \<in> w_puts w"
proof -
  from assms(2) obtain rid i where r: "rid < length (regions (rs_manager (w_store w)))"
    "i < d_physical_record_count (regions (rs_manager (w_store w)) ! rid)"
    "lr_hash (logs rid ! i) = hash" "lr_key (logs rid ! i) = key" "lr_value (logs rid ! i) = val"
    by (auto simp: answer_of_def split: option.splits if_splits)
  note rl = region_logD [OF store_invD(3) [OF inv r(1)]]
  have "logs rid ! i \<in> set (logs rid)" using r(2) rl(2) by simp
  then show ?thesis using rl(5) r(3-5) by (auto simp: known_record_def)
qed

text \<open>
  C1 (safety): reads never fabricate. In every world a freshly opened cache can come to, through any
  interleaving of puts, deletions, lookups, flushes, rotations, reclaims and failures, a lookup of the Region store
  (one step: the index, the read and its validation) that answers a value answers bytes that an accepted put stored under exactly this hash and key. The checksum is any
  function of the concatenation of what it is fed.
\<close>
theorem get_returns_what_was_put:
  assumes w: "cache_world digest data w" and streaming: "\<And>parts. digest parts = digest [concat parts]"
    and step: "store_step digest (sb_geometry data) (GetEvent hash key env (Inr (Some v))) w w'"
  shows "\<exists>val. region_value_bytes v = Some val \<and> (hash, key, val) \<in> w_puts w"
proof -
  from step obtain contended direct s' where honest: "read_honest (w_device w) env"
    and run: "store_get digest (sb_geometry data) contended direct env hash key (w_store w) = Some (Inr (Some v), s')"
    by (cases rule: store_step_getE) auto
  then have h: "rs_healthy (w_store w)" using unhealthy_get by fastforce
  obtain logs where inv: "store_inv digest (sb_geometry data) logs w" by (rule cache_world_inv [OF w h streaming])
  have b: "region_value_bytes v \<noteq> None" and a: "answer_of (rs_index (w_store w)) (regions (rs_manager (w_store w))) logs hash key (read_as (Some v))"
    using store_get_inv [OF inv honest, of contended direct hash key] run by auto
  then obtain val where val: "region_value_bytes v = Some val" by blast
  then have "read_as (Some v) = Some (val, rv_seqno v)" by (simp add: read_as_def)
  then show ?thesis using answer_of_known [OF inv] a val by auto
qed

lemma freed_region_unreferenced:
  assumes inv: "store_inv digest g logs w" and q: "q \<in> w_scanned w"
    and settled: "\<forall>(h, p) \<in> pending_replacements w. unat (region_id p) \<noteq> rc_region_id q"
  shows "\<exists>s'. complete_reclaim q (w_store w) = Some (Inr (), s') \<and> rs_healthy s'
    \<and> (\<forall>t e. index_map (rs_index s') t = Some e \<longrightarrow> unat (region_id (location e)) \<noteq> rc_region_id q)"
proof -
  obtain s' where s': "complete_reclaim q (w_store w) = Some (Inr (), s')" "rs_index s' = rs_index (w_store w)"
    "store_inv digest g (logs(rc_region_id q := [])) (w\<lparr>w_store := s', w_scanned := w_scanned w - {q}\<rparr>)"
    using complete_reclaim_inv [OF inv q settled] by (elim exE conjE) (rule that)
  have cov: "covered (rs_index (w_store w)) (pending_replacements w) (rc_region_id q)" using store_invD(6) [OF inv q] by blast
  have "unat (region_id (location e)) \<noteq> rc_region_id q" if e: "index_map (rs_index s') t = Some e" for t e
  proof
    assume r: "unat (region_id (location e)) = rc_region_id q"
    from cov e r obtain h p where p: "(h, p) \<in> pending_replacements w" "index_equivalent (location e) p"
      unfolding covered_def s'(2) by blast
    then have "unat (region_id p) = rc_region_id q" using r by (simp add: index_equivalent_def)
    with settled p(1) show False by blast
  qed
  then show ?thesis using s'(1) frameD(1) [OF store_invD(1) [OF s'(3)]] by auto
qed

text \<open>
  C3 (liveness): a healthy store answers. In every healthy world a freshly opened cache can come to,
  each operation of the runtime returns a result; none panics, whatever locks are contended: a put of a record
  that encodes, a deletion, a lookup whatever becomes of the read it makes, the flush of a filled chunk and the completion of its
  write, a rotation, the start of a reclaim, the scan of a Region that is being reclaimed, and the freeing of a
  scanned one. The scan visits every record of the Region, unless the sequence numbers are exhausted; and when
  no replacement of a record of a scanned Region is on its way, freeing it leaves no index entry that designates it.
\<close>
theorem healthy_store_answers:
  assumes w: "cache_world digest data w" and h: "rs_healthy (w_store w)" and streaming: "\<And>parts. digest parts = digest [concat parts]"
  shows "(\<forall>gb mb hash key val n. required_record_bytes (length key) (length val) = Inr n \<longrightarrow>
           try_stage_value digest gb mb (append_shard hash (w_store w)) hash n key val (w_store w) \<noteq> None)
    \<and> (\<forall>mb contended hash. try_delete_value digest mb contended hash (w_store w) \<noteq> None)
    \<and> (\<forall>contended direct env hash key. store_get digest (sb_geometry data) contended direct env hash key (w_store w) \<noteq> None)
    \<and> (\<forall>k f. shard_fill_snapshot (rt_staging (w_store w)) k = Inr (Some f) \<longrightarrow>
           (\<exists>job s'. flush_begin digest k (w_store w) = Some (Inr (Some (job, sb_geometry data)), s')))
    \<and> (\<forall>k < store_shard_count (w_store w). \<forall>j geometry. w_jobs w k = Some (j, geometry) \<longrightarrow>
           (\<exists>s'. flush_complete digest (sw_records j) (write_done geometry j) (w_store w) = Some (Inr (Some (sw_span j)), s')))
    \<and> (\<forall>k < store_shard_count (w_store w). rotate_shard k (w_store w) \<noteq> None)
    \<and> (\<exists>r s'. store_begin_reclaim (w_store w) = Some (Inr r, s'))
    \<and> (\<forall>q \<in> set (reclaiming (rs_manager (w_store w))). \<forall>k < store_shard_count (w_store w). \<forall>accepting busy.
         \<exists>at r s'. reclaim_absolute q (w_store w) = Some (Inr at, w_store w)
           \<and> scan_reclaim digest q (take (rc_used_offset q) (drop at (w_device w))) accepting (reinsert_sink digest busy k) (w_store w) = Some (r, s')
           \<and> (next_seqno (rs_manager s') = u64_max \<or> (\<exists>stats. r = Inr stats \<and> rst_records_scanned stats = rc_physical_record_count q)))
    \<and> (\<forall>q \<in> w_scanned w. (\<forall>(h, p) \<in> pending_replacements w. unat (region_id p) \<noteq> rc_region_id q) \<longrightarrow>
         (\<exists>s'. complete_reclaim q (w_store w) = Some (Inr (), s') \<and> rs_healthy s'
            \<and> (\<forall>t e. index_map (rs_index s') t = Some e \<longrightarrow> unat (region_id (location e)) \<noteq> rc_region_id q)))"
proof -
  obtain logs where inv: "store_inv digest (sb_geometry data) logs w" by (rule cache_world_inv [OF w h streaming])
  note sh = frame_shards(1) [OF store_invD(1) [OF inv]]
  show ?thesis
  proof (intro conjI allI impI ballI)
    fix gb mb hash n and key val :: bytes assume n: "required_record_bytes (length key) (length val) = Inr n"
    show "try_stage_value digest gb mb (append_shard hash (w_store w)) hash n key val (w_store w) \<noteq> None"
      using put_inv [OF inv n streaming, of gb mb hash] by (elim exE conjE) simp
  next
    fix q k accepting busy
    assume q: "q \<in> set (reclaiming (rs_manager (w_store w)))" and k: "k < store_shard_count (w_store w)"
    show "\<exists>at r s'. reclaim_absolute q (w_store w) = Some (Inr at, w_store w)
           \<and> scan_reclaim digest q (take (rc_used_offset q) (drop at (w_device w))) accepting (reinsert_sink digest busy k) (w_store w) = Some (r, s')
           \<and> (next_seqno (rs_manager s') = u64_max \<or> (\<exists>stats. r = Inr stats \<and> rst_records_scanned stats = rc_physical_record_count q))"
      using scan_inv [OF inv q k [unfolded sh], of accepting busy] by (elim exE conjE) auto
  next
    fix mb contended hash
    show "try_delete_value digest mb contended hash (w_store w) \<noteq> None" using try_delete_inv [OF inv, of mb contended hash] by (elim exE conjE) simp
  next
    fix contended direct env hash key
    show "store_get digest (sb_geometry data) contended direct env hash key (w_store w) \<noteq> None"
      by (rule store_get_total [OF inv])
  next
    fix k f assume "shard_fill_snapshot (rt_staging (w_store w)) k = Inr (Some f)"
    then show "\<exists>job s'. flush_begin digest k (w_store w) = Some (Inr (Some (job, sb_geometry data)), s')"
      using seal_inv [OF inv] by blast
  next
    fix k j geometry assume "k < store_shard_count (w_store w)" and job: "w_jobs w k = Some (j, geometry)"
    then show "\<exists>s'. flush_complete digest (sw_records j) (write_done geometry j) (w_store w) = Some (Inr (Some (sw_span j)), s')"
      using write_inv [OF inv _ job] sh by auto
  next
    fix k assume "k < store_shard_count (w_store w)"
    then show "rotate_shard k (w_store w) \<noteq> None" using rotate_shard_inv [OF inv, of k] sh by auto
  next
    show "\<exists>r s'. store_begin_reclaim (w_store w) = Some (Inr r, s')" using begin_reclaim_inv [OF inv] by blast
  next
    fix q assume "q \<in> w_scanned w" "\<forall>(h, p) \<in> pending_replacements w. unat (region_id p) \<noteq> rc_region_id q"
    then show "\<exists>s'. complete_reclaim q (w_store w) = Some (Inr (), s') \<and> rs_healthy s'
        \<and> (\<forall>t e. index_map (rs_index s') t = Some e \<longrightarrow> unat (region_id (location e)) \<noteq> rc_region_id q)"
      by (rule freed_region_unreferenced [OF inv])
  qed
qed

text \<open>
  C4 (invariant): a healthy cache is consistent with its device. In every healthy world a freshly opened cache
  can come to there is one log per Region such that the completed records of the log are on the device at the
  Region's place, the rest of an active Region's log is in the write job and the fill chunk of its shard in order,
  every record of a log is a put that was accepted, every index entry names a completed record under the token of
  its hash, and each entry into a scanned Region has its replacement staged.
\<close>
theorem cache_world_consistent:
  assumes "cache_world digest data w" "rs_healthy (w_store w)" and streaming: "\<And>parts. digest parts = digest [concat parts]"
  shows "\<exists>logs. store_inv digest (sb_geometry data) logs w"
  using cache_world_inv [OF assms] by blast

text \<open>
  C8 (error): what ends the health of a cache. A step of a healthy cache after which the store is miss-only is
  a failed write, the failure of a worker, the exhaustion of the sequence numbers, or a lookup that answered a miss because
  reserving its read, submitting it or completing it failed for another reason than resource pressure; every
  other operation, with any contention, and every other lookup, under pressure too, keeps the store healthy. And miss-only
  is final: a miss-only cache stays so, and its lookups miss.
\<close>
theorem health_lost_only_by_failure:
  assumes w: "cache_world digest data w" and streaming: "\<And>parts. digest parts = digest [concat parts]"
  shows "(rs_healthy (w_store w) \<longrightarrow> (\<forall>ev w'. store_step digest (sb_geometry data) ev w w' \<longrightarrow> rs_healthy (w_store w')
        \<or> next_seqno (rs_manager (w_store w')) = u64_max \<or> (\<exists>k. ev = WriteFailedEvent k) \<or> ev = WorkerFailedEvent
        \<or> (\<exists>hash key env. ev = GetEvent hash key env (Inr None) \<and> read_faulty env hash)))
    \<and> (\<not> rs_healthy (w_store w) \<longrightarrow> (\<forall>w'. store_reach digest (sb_geometry data) w w' \<longrightarrow> \<not> rs_healthy (w_store w')
        \<and> (\<forall>contended direct env hash key. store_get digest (sb_geometry data) contended direct env hash key (w_store w')
              = Some (Inr None, w_store w'))))"
proof (intro conjI impI allI)
  fix ev w' assume h: "rs_healthy (w_store w)" and step: "store_step digest (sb_geometry data) ev w w'"
  obtain logs where inv: "store_inv digest (sb_geometry data) logs w" by (rule cache_world_inv [OF w h streaming])
  from store_step_inv [OF step streaming inv] show "rs_healthy (w_store w')
      \<or> next_seqno (rs_manager (w_store w')) = u64_max \<or> (\<exists>k. ev = WriteFailedEvent k) \<or> ev = WorkerFailedEvent
      \<or> (\<exists>hash key env. ev = GetEvent hash key env (Inr None) \<and> read_faulty env hash)"
    using frameD(1) [OF store_invD(1)] by blast
qed (use reach_latched unhealthy_get in blast)+

text \<open>
  C5 (safety): an accepted deletion removes the key. In every world a freshly opened cache can come to, when
  a deletion is answered with a sequence number, a lookup of the Region store for any key with that hash that follows
  at once misses, whatever its read would have met.
\<close>
theorem delete_then_get_misses:
  assumes w: "cache_world digest data w" and streaming: "\<And>parts. digest parts = digest [concat parts]"
    and del: "try_delete_value digest mb contended hash (w_store w) = Some (Inr (Some seqno), s')"
  shows "\<exists>s''. store_get digest (sb_geometry data) contended' direct env hash key s' = Some (Inr None, s'')"
proof (cases "rs_healthy s'")
  case False
  then show ?thesis using unhealthy_get by blast
next
  case True
  then have "rs_healthy (w_store w)" using latchedD [OF latched_stage(4) del] by blast
  then obtain logs where inv: "store_inv digest (sb_geometry data) logs w" by (rule cache_world_inv [OF w _ streaming])
  let ?t = "token (index_shape (rs_index (w_store w))) hash"
  from try_delete_inv [OF inv, of mb contended hash] del True
  have inv': "store_inv digest (sb_geometry data) logs (w\<lparr>w_store := s'\<rparr>)" and m: "index_map (rs_index s') = (index_map (rs_index (w_store w)))(?t := None)"
    and sh: "index_shape (rs_index s') = index_shape (rs_index (w_store w))"
    by auto
  then show ?thesis using absent_get [OF inv', of hash contended' direct env key] by simp
qed

section \<open>Put, flush, get\<close>

lemma entry_unique:
  assumes inv: "store_inv digest g logs w"
    and "r < length (regions (rs_manager (w_store w)))" "i < d_physical_record_count (regions (rs_manager (w_store w)) ! r)"
    and "r' < length (regions (rs_manager (w_store w)))" "i' < d_physical_record_count (regions (rs_manager (w_store w)) ! r')"
    and e: "log_entry r (logs r) i = log_entry r' (logs r') i'"
  shows "r' = r \<and> i' = i"
proof -
  have same: "r' = r" using index_entry_region(1) [OF inv] assms(2-5) e by metis
  note rl = region_logD [OF store_invD(3) [OF inv assms(2)]]
  have b: "i < length (logs r)" "i' < length (logs r)" using rl(2) assms(3,5) same by simp_all
  have "log_offset (logs r) i = log_offset (logs r) i'"
    using index_entry_region(3) [OF inv] assms(2-5) e same by metis
  then have "i' = i" using log_offset_mono [OF _ _ rl(1), of i i'] log_offset_mono [OF _ _ rl(1), of i' i] b
    by (cases i i' rule: linorder_cases) auto
  with same show ?thesis by simp
qed

lemma found_answer:
  assumes inv: "store_inv digest g logs w"
    and found: "index_map (rs_index (w_store w)) (token (index_shape (rs_index (w_store w))) hash) = Some (log_entry r (logs r) i)"
    and r: "r < length (regions (rs_manager (w_store w)))" "i < d_physical_record_count (regions (rs_manager (w_store w)) ! r)"
    and free: "\<not> contended (hash_partition (rs_index (w_store w)) hash)" and l: "lr_hash (logs r ! i) = hash" "lr_key (logs r ! i) = key"
    and delivered: "read_delivers (w_device w) env hash" "length key \<le> MAX_KEY_SIZE"
  shows "\<exists>v s'. store_get digest g contended direct env hash key (w_store w) = Some (Inr (Some v), s')
    \<and> region_value_bytes v = Some (lr_value (logs r ! i))"
proof -
  from store_get_inv [OF inv read_delivers_honest [OF delivered(1)], of contended direct hash key] free delivered obtain v s' where
    v: "store_get digest g contended direct env hash key (w_store w) = Some (Inr v, s')"
      "answer_of (rs_index (w_store w)) (regions (rs_manager (w_store w))) logs hash key (read_as v)" by auto
  then obtain r' i' where i': "r' < length (regions (rs_manager (w_store w)))" "i' < d_physical_record_count (regions (rs_manager (w_store w)) ! r')"
    "log_entry r (logs r) i = log_entry r' (logs r') i'"
    "read_as v = (if lr_hash (logs r' ! i') = hash \<and> lr_key (logs r' ! i') = key
        then Some (lr_value (logs r' ! i'), hdr_seqno (lr_header (logs r' ! i'))) else None)"
    unfolding answer_of_def found by auto
  have "r' = r \<and> i' = i" by (rule entry_unique [OF inv r i'(1-3)])
  then have "read_as v = Some (lr_value (logs r ! i), hdr_seqno (lr_header (logs r ! i)))" using i'(4) l by simp
  then obtain x where "v = Some x" "region_value_bytes x = Some (lr_value (logs r ! i))" by (auto simp: read_as_def split: option.splits)
  then show ?thesis using v(1) by auto
qed

lemma tail_job:
  assumes "map publication xs = ys @ [(hash, None)]"
  obtains rs r where "xs = rs @ [r]" "stg_hash r = hash" "staged_previous_location r = None"
proof -
  obtain rs zs where "xs = rs @ zs" "map publication zs = [(hash, None)]" using assms by (metis map_eq_append_conv)
  then show ?thesis using that by (auto simp: publication_def)
qed

lemma put_flush_found:
  assumes inv: "store_inv digest g logs w" and streaming: "\<And>parts. digest parts = digest [concat parts]"
    and put: "store_step digest g (PutEvent hash key val True) w w1"
    and seal: "store_step digest g (SealEvent (append_shard hash (w_store w))) w1 w2"
    and wr: "store_step digest g (WriteEvent (append_shard hash (w_store w))) w2 w3"
    and free: "\<not> contended (hash_partition (rs_index (w_store w3)) hash)" and delivered: "read_delivers (w_device w3) env hash"
  shows "\<exists>v s'. store_get digest g contended direct env hash key (w_store w3) = Some (Inr (Some v), s')
    \<and> region_value_bytes v = Some val"
proof -
  define k where "k = append_shard hash (w_store w)"
  define rid where "rid = active_regions (rs_manager (w_store w)) ! k"
  from put obtain n gb mb r1 s1 where p: "required_record_bytes (length key) (length val) = Inr n"
    "try_stage_value digest gb mb k hash n key val (w_store w) = Some (r1, s1)" "put_accepted r1"
    "w1 = w\<lparr>w_store := s1, w_puts := insert (hash, key, val) (w_puts w)\<rparr>"
    by (cases rule: store_step_putE) (auto simp: k_def)
  from put_inv [OF inv p(1) streaming, of gb mb hash, folded k_def] p(2,3) obtain l where
    l: "store_inv digest g (logs(rid := logs rid @ [l])) w1" "log_content l = (hash, key, val)"
      "staged_tail s1 k = staged_tail (w_store w) k @ [(hash, None)]" "active_regions (rs_manager s1) = active_regions (rs_manager (w_store w))"
    by (auto simp: p(4) rid_def)
  have s1: "w_store w1 = s1" by (simp add: p(4))
  from seal [folded k_def] obtain f r2 s2 where f: "shard_fill_snapshot (rt_staging s1) k = Inr (Some f)" "flush_begin digest k s1 = Some (r2, s2)"
    "w2 = w1\<lparr>w_store := s2, w_jobs := (w_jobs w1)(k := (case r2 of Inr (Some job) \<Rightarrow> Some job | _ \<Rightarrow> w_jobs w1 k))\<rparr>"
    by (rule store_step_sealE) (rule that; simp add: s1)
  from seal_inv [OF l(1), of k f] f(1,2) obtain job ls' where
    j: "r2 = Inr (Some (job, g))" "store_inv digest g (logs(rid := ls')) w2" "map log_content ls' = map log_content (logs rid @ [l])"
      "map publication (vec_items (sw_records job)) = staged_tail s1 k" "staged_tail s2 k = []" "active_regions (rs_manager s2) = active_regions (rs_manager s1)"
    by (auto simp: f(3) p(4) l(4) rid_def)
  obtain rs r where r: "vec_items (sw_records job) = rs @ [r]" "stg_hash r = hash" "staged_previous_location r = None"
    by (rule tail_job [OF j(4) [unfolded l(3)]])
  have s2: "w_store w2 = s2" "w_jobs w2 k = Some (job, g)" using f(3) j(1) by simp_all
  have k: "k < length (active_regions (rs_manager (w_store w2)))"
    using frame_shards(2) [OF store_invD(1) [OF inv], of hash] j(6) l(4) s2(1) by (simp add: k_def)
  from wr [folded k_def] obtain r3 s3 where wr': "flush_complete digest (sw_records job) (write_done g job) s2 = Some (r3, s3)"
    "w3 = w2\<lparr>w_store := s3, w_device := written (w_device w2) job, w_jobs := (w_jobs w2)(k := None)\<rparr>"
    by (rule store_step_writeE) (rule that; simp add: s2)
  have rid2: "active_regions (rs_manager (w_store w2)) ! k = rid" using j(6) l(4) s2(1) by (simp add: rid_def)
  from flush_success_inv [OF j(2) k s2(2) write_done_ok [OF j(2) k s2(2)]] wr' r j(5) s2(1)
  have fin: "store_inv digest g (logs(rid := ls')) w3" "index_shape (rs_index s3) = index_shape (rs_index s2)"
    "index_map (rs_index s3) (token (index_shape (rs_index s2)) hash) = Some (log_entry rid ls' (length ls' - 1))" "ls' \<noteq> []"
    "rid < length (regions (rs_manager s3))" "d_physical_record_count (regions (rs_manager s3) ! rid) = length ls'"
    by (auto simp: rid2)
  have "log_content (last ls') = log_content l" using arg_cong [OF j(3), of last] fin(4) by (simp add: last_map)
  then have "log_content (ls' ! (length ls' - 1)) = (hash, key, val)" using last_conv_nth [OF fin(4)] l(2) by simp
  then have c: "lr_hash (ls' ! (length ls' - 1)) = hash" "lr_key (ls' ! (length ls' - 1)) = key" "lr_value (ls' ! (length ls' - 1)) = val"
    by (simp_all add: log_content_def)
  have s3: "w_store w3 = s3" by (simp add: wr'(2))
  have len: "length key \<le> MAX_KEY_SIZE" using p(1) by (auto simp: required_record_bytes_def ok_or_def split: option.splits if_splits)
  show ?thesis
    using found_answer [OF fin(1), where hash = hash and r = rid and i = "length ls' - 1" and contended = contended and key = key and direct = direct and env = env, unfolded s3] fin(2-6) c free delivered len s3
    by simp
qed

text \<open>
  C2 (roundtrip): a put that was flushed is readable. In every world a freshly opened cache can come to: when
  a put is accepted, the fill chunk of its shard is sealed, and its write completes, then a lookup of that
  key in the Region store that is not turned away by contention, and whose read finds a lane, a buffer and the bytes of the
  device, answers exactly the value of the put, whatever else the chunk held and
  whatever the key mapped to before.
\<close>
theorem put_flush_get:
  assumes w: "cache_world digest data w" and h: "rs_healthy (w_store w)" and streaming: "\<And>parts. digest parts = digest [concat parts]"
    and put: "store_step digest (sb_geometry data) (PutEvent hash key val True) w w1"
    and seal: "store_step digest (sb_geometry data) (SealEvent (append_shard hash (w_store w))) w1 w2"
    and wr: "store_step digest (sb_geometry data) (WriteEvent (append_shard hash (w_store w))) w2 w3"
    and free: "\<not> contended (hash_partition (rs_index (w_store w3)) hash)" and delivered: "read_delivers (w_device w3) env hash"
  shows "\<exists>v s'. store_get digest (sb_geometry data) contended direct env hash key (w_store w3) = Some (Inr (Some v), s')
    \<and> region_value_bytes v = Some val"
proof -
  obtain logs where inv: "store_inv digest (sb_geometry data) logs w" by (rule cache_world_inv [OF w h streaming])
  show ?thesis by (rule put_flush_found [where contended = contended, OF inv streaming put seal wr free delivered])
qed

section \<open>Admission\<close>

lemma reserve_with_room:
  assumes inv: "store_inv digest g logs w" and k: "k < length (active_regions (rs_manager (w_store w)))" and n: "0 < n" "n mod 32 = 0"
    and room: "reserved_used (regions (rs_manager (w_store w)) ! (active_regions (rs_manager (w_store w)) ! k)) + n \<le> rm_region_size (rs_manager (w_store w))"
    and seq: "next_seqno (rs_manager (w_store w)) < u64_max"
  obtains t m' where "reserve_append k n (rs_manager (w_store w)) = (Inr t, m')"
proof -
  define m where "m = rs_manager (w_store w)"
  note D = store_invD [OF inv, folded m_def] and F = frameD [OF store_invD(1) [OF inv], folded m_def]
  have k': "k < length (append_states m)" "k < length (active_regions m)" using k F(15) by (simp_all add: m_def)
  have quiet: "tail (append_states m ! k) = None" "pending_padding (append_states m ! k) = None" "rotation (append_states m ! k) = None"
    using D(4) [OF k'(2)] by (auto simp: shard_log_ok_def)
  note al = active_lookup [OF F(4) k'(2)]
  have act: "d_state (regions m ! (active_regions m ! k)) = Active" using shard_lookup(2) [OF F(4) k'(2)] by (simp add: shard_ok_def)
  have "reserved_used (regions m ! (active_regions m ! k)) + n \<le> 2 ^ 25" using room F(16) by (simp add: m_def)
  then have b: "checked_add u64_max (reserved_used (regions m ! (active_regions m ! k))) n = Some (reserved_used (regions m ! (active_regions m ! k)) + n)"
    "try_from u32_max (reserved_used (regions m ! (active_regions m ! k))) = Some (reserved_used (regions m ! (active_regions m ! k)))"
    by (simp_all add: checked_add_def try_from_def num_bounds)
  have "\<exists>t m'. reserve_append k n m = (Inr t, m')"
    using k' quiet al act b room [folded m_def] seq [folded m_def] n
    by (simp add: reserve_append_def RECORD_ALIGNMENT_def get_at_def allocate_seqno_def Let_def
        del: checked_add_eq_Some try_from_eq_Some)
  then show ?thesis using that by (auto simp: m_def)
qed

lemma put_with_room:
  fixes w hash
  defines "s \<equiv> w_store w" and "k \<equiv> append_shard hash (w_store w)"
  assumes inv: "store_inv digest g logs w" and streaming: "\<And>parts. digest parts = digest [concat parts]"
    and n: "required_record_bytes (length key) (length val) = Inr n"
    and fill: "preflight_append (rt_staging s) k n = Inr (Appended used used')"
    and region: "reserved_used (regions (rs_manager s) ! (active_regions (rs_manager s) ! k)) + n \<le> rm_region_size (rs_manager s)"
    and seq: "next_seqno (rs_manager s) < u64_max"
  shows "\<exists>seqno s'. try_stage_value digest False False k hash n key val s = Some (Inr (Staged seqno used used'), s') \<and> rs_healthy s'"
proof -
  note D = store_invD [OF inv, folded s_def] and L = frame_locks [OF store_invD(1) [OF inv], folded s_def]
  have k: "k < length (active_regions (rs_manager s))" using frame_shards(2) [OF D(1), of hash] by (simp add: k_def s_def)
  have chunk: "n \<le> as_chunk_bytes (rt_staging s)" "0 < n" "n mod 32 = 0"
    using fill by (auto simp: preflight_append_def RECORD_ALIGNMENT_def split: if_splits)
  obtain t m' where t: "reserve_append k n (rs_manager s) = (Inr t, m')"
    using reserve_with_room [OF inv, of k n] k chunk region seq by (auto simp: s_def)
  note known = put_known [where digest = digest and hash = hash, OF n streaming]
  note st = stage_record_inv [OF inv _ known(1) subset_insertI, folded s_def, OF k known(2) [OF D(7) chunk(1)] chunk(1) fill t]
  show ?thesis
  proof (rule st)
    fix s' l
    assume run: "pbind (reserve_and_stage k n) (\<lambda>r. case r of Inl early \<Rightarrow> preturn early
        | Inr t \<Rightarrow> encode_staged digest t hash n (payload_new digest key val) None) s = Some (Inr (Staged (ra_seqno t) used used'), s')"
      and inv': "store_inv digest g (logs(active_regions (rs_manager s) ! k := logs (active_regions (rs_manager s) ! k) @ [l]))
        (w\<lparr>w_store := s', w_puts := insert (hash, key, val) (w_puts w)\<rparr>)"
    have "try_stage_value digest False False k hash n key val s = Some (Inr (Staged (ra_seqno t) used used'), s')"
      using run L k chunk(1) fill
      by (simp add: try_stage_value_def validate_stage_def try_stage_record_def pbind_def)
    moreover have "rs_healthy s'" using frameD(1) [OF store_invD(1) [OF inv']] by simp
    ultimately show ?thesis by blast
  qed
qed

text \<open>
  C7 (liveness): a put with room is accepted. In every healthy world a freshly opened cache can come to, a
  put that finds its gate and the manager free, whose record fits the chunk its shard is filling and the rest of
  its active Region, is staged as long as sequence numbers are left; and the store stays healthy.
\<close>
theorem put_with_room_accepted:
  fixes w hash
  defines "s \<equiv> w_store w" and "k \<equiv> append_shard hash (w_store w)"
  assumes w: "cache_world digest data w" and h: "rs_healthy s" and streaming: "\<And>parts. digest parts = digest [concat parts]"
    and n: "required_record_bytes (length key) (length val) = Inr n"
    and fill: "preflight_append (rt_staging s) k n = Inr (Appended used used')"
    and region: "reserved_used (regions (rs_manager s) ! (active_regions (rs_manager s) ! k)) + n \<le> rm_region_size (rs_manager s)"
    and seq: "next_seqno (rs_manager s) < u64_max"
  shows "\<exists>seqno s'. try_stage_value digest False False k hash n key val s = Some (Inr (Staged seqno used used'), s') \<and> rs_healthy s'"
proof -
  obtain logs where inv: "store_inv digest (sb_geometry data) logs w" by (rule cache_world_inv [OF w h [unfolded s_def] streaming])
  show ?thesis using put_with_room [OF inv streaming n] fill region seq unfolding s_def k_def by blast
qed

section \<open>A sample run\<close>

definition sample_data :: data_superblock where
  "sample_data = \<lparr>sb_generation = 1, sb_cache_uuid = PersistentId (replicate 16 1), sb_data_identity = PersistentId (replicate 16 2),
     sb_geometry = \<lparr>dg_data_file_len = 28672, dg_region_size = 8192, dg_region_count = 3\<rparr>, sb_hash_seed = 7, sb_storage_fingerprint = 9\<rparr>"

definition sample_digest :: crc_stream where "sample_digest = (\<lambda>_. 5)"

lemma sample_openable: "openable sample_data 8 1"
  by (simp add: openable_def sample_data_def superblock_is_valid_def geometry_is_valid_def region_limits expected_file_len_def
      checked_mul_def checked_add_def num_bounds DATA_REGION_AREA_OFFSET_def MAX_SHARDS_def)

definition sample_staging :: append_staging where
  "sample_staging = \<lparr>as_shards = [empty_shard 4096], as_chunk_bytes = 4096, as_region_size = 8192\<rparr>"

lemma sample_staging_new:
  "\<exists>t'. staging_try_new (\<lambda>_. True) [] 1 4096 (dg_region_size (sb_geometry sample_data)) (tracker_new 1000000 0) = (Inr sample_staging, t')"
  by (simp add: staging_try_new_def sample_data_def RECOVERY_PAGE_SIZE_def BUFFER_ALIGNMENT_def RECORD_ALIGNMENT_def try_from_def num_bounds
      reservation_bytes_def checked_mul_def checked_add_def MAX_STAGING_RECORDS_def STAGED_RECORD_SIZE_def reserve_runtime_memory_def
      tracker_try_reserve_def MAX_ATOMIC_UPDATE_ATTEMPTS_def cas_loop_alone tracker_new_def sample_staging_def fresh_shard_def lease_try_fixed_def try_staged_records_def empty_shard_def)

lemma filled_snapshot:
  assumes inv: "store_inv digest g logs w" and k: "k < length (active_regions (rs_manager (w_store w)))" "w_jobs w k = None"
    and ne: "staged_tail (w_store w) k \<noteq> []"
  shows "\<exists>f. shard_fill_snapshot (rt_staging (w_store w)) k = Inr (Some f)"
proof -
  define a where "a = rt_staging (w_store w)"
  define st where "st = as_shards a ! k"
  define rid where "rid = active_regions (rs_manager (w_store w)) ! k"
  note F = frameD [OF store_invD(1) [OF inv], folded a_def]
  define d where "d = regions (rs_manager (w_store w)) ! rid"
  obtain jl fl where c: "drop (d_physical_record_count d) (logs rid) = jl @ fl"
    "job_log_ok digest g a k rid (submitted_span (append_states (rs_manager (w_store w)) ! k)) st None jl"
    "fill_holds digest (as_chunk_bytes a) rid fl (fill st)" "shard_open st" "\<forall>l \<in> set (logs rid). log_record_ok (d_created_seqno d) l"
    by (rule shard_cursor [OF inv k(1), folded a_def, folded st_def rid_def, folded d_def, unfolded k(2)]) (rule that)
  have gen: "\<forall>l \<in> set fl. log_record_ok (d_created_seqno d) l" using c(1,5) in_set_dropD [of _ "d_physical_record_count d" "logs rid"] by auto
  have fl: "fl \<noteq> []" using fill_holds_length [OF c(3)] ne by (auto simp: staged_tail_def st_def a_def)
  then have pos: "0 < log_len fl" using log_len_pos [OF gen] by (cases fl) auto
  have "log_len fl \<le> as_chunk_bytes a" using c(3) by (auto simp: fill_holds_def chunk_holds_def)
  moreover have "as_chunk_bytes a \<le> usize_max" using F(14,16) by (simp add: num_bounds)
  then have "fill_used (fill st) = Some (log_len fl)" by (rule fill_holds_used [OF c(3)])
  moreover have "\<not> fill_is_empty (fill st)" using fill_holds_empty [OF c(3)] fl by simp
  moreover have "submitted st = None" "ensure_open st = Inr ()" "encoding st = None"
    using c(2,4) shard_open_ensure by (simp_all add: job_log_ok_def shard_open_def)
  moreover have "get_at (as_shards a) k = Some st" using k(1) F(11) by (simp add: get_at_def st_def)
  ultimately show ?thesis using pos by (simp add: shard_fill_snapshot_def a_def [symmetric])
qed

definition sample_device :: bytes where "sample_device = replicate 28672 0"

lemma sample_streaming: "sample_digest parts = sample_digest [concat parts]"
  by (simp add: sample_digest_def)

lemma sample_record: "required_record_bytes (length [1 :: 8 word, 2]) (length [3 :: 8 word, 4, 5]) = Inr 64"
proof -
  have "aligned_len (Suc (Suc 0)) (Suc (Suc (Suc 0))) = Some 64" by (simp add: aligned_len_eq_Some num_bounds)
  moreover have "64 \<le> MAX_RECORD_LEN" by (simp add: packed_limits)
  ultimately show ?thesis by (simp add: required_record_bytes_def MAX_KEY_SIZE_def ok_or_def)
qed

text \<open>The fresh cache.\<close>

lemma sample_cold:
  obtains w where "cache_world sample_digest sample_data w" "store_inv sample_digest (sb_geometry sample_data) (\<lambda>_. []) w"
    "w_jobs w = (\<lambda>_. None)" "append_shard 42 (w_store w) = 0" "length (active_regions (rs_manager (w_store w))) = 1"
    "preflight_append (rt_staging (w_store w)) (append_shard 42 (w_store w)) 64 = Inr (Appended 0 64)"
    "reserved_used (regions (rs_manager (w_store w)) ! (active_regions (rs_manager (w_store w)) ! append_shard 42 (w_store w))) + 64
      \<le> rm_region_size (rs_manager (w_store w))"
    "next_seqno (rs_manager (w_store w)) < u64_max"
proof -
  let ?g = "sb_geometry sample_data"
  obtain t' where st: "staging_try_new (\<lambda>_. True) [] 1 4096 (dg_region_size ?g) (tracker_new 1000000 0) = (Inr sample_staging, t')"
    using sample_staging_new by blast
  obtain x m where c: "cold_store (\<lambda>_. True) (\<lambda>_. None) sample_data 8 1 = Inr \<lparr>rs_index = x, rs_manager = m, rs_manager_poisoned = False,
      rs_append_gates = replicate 1 False, rs_region_generations = map d_created_seqno (regions m), rs_rotation_poisoned = False, rs_healthy = True\<rparr>"
    "manager_wf m" "length (active_regions m) = 1" "rm_region_size m = dg_region_size ?g" "next_seqno m = 1 + 1"
    "\<forall>d \<in> set (regions m). completed_used d = 0 \<and> reserved_used d = 0 \<and> d_physical_record_count d = 0"
    by (rule cold_store_ok [where digest = sample_digest and alloc = "\<lambda>_. True" and map_anonymous = "\<lambda>_. None", OF sample_openable TrueI refl])
      (rule that)
  define s where "s = \<lparr>rs_index = x, rs_manager = m, rs_manager_poisoned = False,
      rs_append_gates = replicate 1 False, rs_region_generations = map d_created_seqno (regions m), rs_rotation_poisoned = False, rs_healthy = True\<rparr>"
  define w where "w = cold_world s sample_staging sample_device"
  have dev: "length sample_device = dg_data_file_len ?g" by (simp add: sample_device_def sample_data_def)
  have cold: "cold_store (\<lambda>_. True) (\<lambda>_. None) sample_data 8 1 = Inr s" using c(1) by (simp add: s_def)
  have ws: "w_store w = runtime_of s sample_staging" "w_jobs w = (\<lambda>_. None)" by (simp_all add: w_def cold_world_def)
  have k: "append_shard 42 (w_store w) = 0" by (simp add: ws append_shard_def s_def route_hash_mod)
  show ?thesis
  proof (rule that)
    show "store_inv sample_digest ?g (\<lambda>_. []) w"
      unfolding w_def by (rule cold_world_inv [OF cold sample_openable _ _ st dev]) simp_all
    show "cache_world sample_digest sample_data w"
      unfolding w_def by (rule cache_worldI [OF sample_openable _ _ cold st dev store_reach.start]) simp_all
    show "preflight_append (rt_staging (w_store w)) (append_shard 42 (w_store w)) 64 = Inr (Appended 0 64)"
      unfolding k by (simp add: ws preflight_append_def sample_staging_def RECORD_ALIGNMENT_def get_at_def empty_shard_def ensure_open_def fill_new_def
          fill_used_def checked_sub_def try_from_def MAX_STAGING_RECORDS_def checked_add_def num_bounds ok_or_def)
    show "reserved_used (regions (rs_manager (w_store w)) ! (active_regions (rs_manager (w_store w)) ! append_shard 42 (w_store w))) + 64
        \<le> rm_region_size (rs_manager (w_store w))"
      using active_lookup(1) [OF c(2), of 0] c(3,4,6) unfolding k by (simp add: ws s_def sample_data_def)
  qed (use ws k c in \<open>simp_all add: s_def num_bounds\<close>)
qed

text \<open>A put into the fresh cache, its flush, and a lookup of the key.\<close>

definition sample_env :: "bytes \<Rightarrow> read_env" where
  "sample_env dev = \<lparr>re_waits = True, re_lane_count = 2, re_lane = (\<lambda>_. None), re_cursor = 0, re_permit = True, re_slot_wait = None,
     re_buffer = True, re_submit = None,
     re_completion = (\<lambda>desc. IoDone True (Inr (desc_read_len desc)) (desc_read_len desc)
        (Some (take (desc_read_len desc) (drop (desc_absolute desc) dev))))\<rparr>"

lemma sample_env_delivers: "read_delivers dev (sample_env dev) 42"
  by (auto simp: read_delivers_def read_honest_def sample_env_def try_reserve_read_lane_def Let_def pending_read_finish_def device_completion_def
      on_device_def prepared_def split: if_splits)

lemma sample_run:
  obtains w w1 w2 w3 v w4 env where "cache_world sample_digest sample_data w" "rs_healthy (w_store w)"
    "store_step sample_digest (sb_geometry sample_data) (PutEvent 42 [1, 2] [3, 4, 5] True) w w1"
    "store_step sample_digest (sb_geometry sample_data) (SealEvent (append_shard 42 (w_store w))) w1 w2"
    "store_step sample_digest (sb_geometry sample_data) (WriteEvent (append_shard 42 (w_store w))) w2 w3"
    "cache_world sample_digest sample_data w3" "rs_healthy (w_store w3)"
    "store_step sample_digest (sb_geometry sample_data) (GetEvent 42 [1, 2] env (Inr (Some v))) w3 w4"
proof -
  let ?g = "sb_geometry sample_data"
  obtain w where c: "cache_world sample_digest sample_data w" "store_inv sample_digest ?g (\<lambda>_. []) w"
    "w_jobs w = (\<lambda>_. None)" "append_shard 42 (w_store w) = 0" "length (active_regions (rs_manager (w_store w))) = 1"
    "preflight_append (rt_staging (w_store w)) (append_shard 42 (w_store w)) 64 = Inr (Appended 0 64)"
    "reserved_used (regions (rs_manager (w_store w)) ! (active_regions (rs_manager (w_store w)) ! append_shard 42 (w_store w))) + 64
      \<le> rm_region_size (rs_manager (w_store w))"
    "next_seqno (rs_manager (w_store w)) < u64_max" by (rule sample_cold)
  note n = sample_record
  obtain seqno s1 where s1: "try_stage_value sample_digest False False (append_shard 42 (w_store w)) 42 64 [1, 2] [3, 4, 5] (w_store w)
      = Some (Inr (Staged seqno 0 64), s1)" "rs_healthy s1"
    using put_with_room [OF c(2) sample_streaming n c(6-8)] by blast
  define w1 where "w1 = w\<lparr>w_store := s1, w_puts := insert (42, [1, 2], [3, 4, 5]) (w_puts w)\<rparr>"
  have acc: "put_accepted (Inr (Staged seqno 0 64))" by (simp add: put_accepted_def is_staged_def)
  have step1: "store_step sample_digest ?g (PutEvent 42 [1, 2] [3, 4, 5] True) w w1"
    using store_step.put [OF n s1(1), of ?g] acc by (simp add: w1_def)
  from put_inv [OF c(2) n sample_streaming, of False False 42] s1 acc obtain logs1 where
    i1: "store_inv sample_digest ?g logs1 w1" "staged_tail s1 (append_shard 42 (w_store w)) \<noteq> []" "length (active_regions (rs_manager s1)) = 1"
    using c(5) by (auto simp: w1_def)
  have w1s: "w_store w1 = s1" "w_jobs w1 = (\<lambda>_. None)" by (simp_all add: w1_def c(3))
  obtain f where f: "shard_fill_snapshot (rt_staging (w_store w1)) 0 = Inr (Some f)"
    using filled_snapshot [OF i1(1), of 0] i1(2,3) w1s c(4) by auto
  obtain job s2 logs2 where s2: "flush_begin sample_digest 0 (w_store w1) = Some (Inr (Some (job, ?g)), s2)"
    "store_inv sample_digest ?g logs2 (w1\<lparr>w_store := s2, w_jobs := (w_jobs w1)(0 := Some (job, ?g))\<rparr>)"
    "active_regions (rs_manager s2) = active_regions (rs_manager s1)"
    using seal_inv [OF i1(1) f] w1s(1) by auto
  define w2 where "w2 = w1\<lparr>w_store := s2, w_jobs := (w_jobs w1)(0 := Some (job, ?g))\<rparr>"
  have step2: "store_step sample_digest ?g (SealEvent 0) w1 w2"
    using store_step.seal [OF f s2(1), of ?g] by (simp add: w2_def)
  have i2: "store_inv sample_digest ?g logs2 w2" "w_jobs w2 0 = Some (job, ?g)" "0 < length (active_regions (rs_manager (w_store w2)))"
    using s2(2,3) i1(3) by (simp_all add: w2_def)
  obtain s3 where s3: "flush_complete sample_digest (sw_records job) (write_done ?g job) (w_store w2) = Some (Inr (Some (sw_span job)), s3)"
    "store_inv sample_digest ?g logs2 (w2\<lparr>w_store := s3, w_device := written (w_device w2) job, w_jobs := (w_jobs w2)(0 := None)\<rparr>)"
    using write_inv [OF i2(1,3,2)] by blast
  define w3 where "w3 = w2\<lparr>w_store := s3, w_device := written (w_device w2) job, w_jobs := (w_jobs w2)(0 := None)\<rparr>"
  have step3: "store_step sample_digest ?g (WriteEvent 0) w2 w3"
    using store_step.write_ok [OF _ i2(2) s3(1), of ?g] i2(3) frame_shards(1) [OF store_invD(1) [OF i2(1)]] by (simp add: w3_def)
  note steps = step1 step2 [folded c(4)] step3 [folded c(4)]
  have cw3: "cache_world sample_digest sample_data w3" using c(1) steps cache_world_step by blast
  have h3: "rs_healthy (w_store w3)" using frameD(1) [OF store_invD(1) [OF s3(2)]] by (simp add: w3_def)
  note delivered = sample_env_delivers [of "w_device w3"]
  obtain v s4 where v: "store_get sample_digest ?g (\<lambda>_. False) False (sample_env (w_device w3)) 42 [1, 2] (w_store w3) = Some (Inr (Some v), s4)"
    using put_flush_found [where contended = "\<lambda>_. False" and direct = False, OF c(2) sample_streaming steps _ delivered] by blast
  show ?thesis
    by (rule that [OF c(1) frameD(1) [OF store_invD(1) [OF c(2)]] steps cw3 h3 store_step.get [OF read_delivers_honest [OF delivered] v]])
qed

text \<open>A lookup that would have found its value, with every lane broken.\<close>

definition lane_fault :: "read_env \<Rightarrow> read_env" where
  "lane_fault env = env\<lparr>re_lane := (\<lambda>_. Some (IoError OtherIo ''read lane failed''))\<rparr>"

lemma lane_fault_get:
  assumes "store_get digest g contended direct env hash key s = Some (Inr (Some v), s1)"
  shows "\<exists>s2. store_get digest g contended direct (lane_fault env') hash key s = Some (Inr None, s2) \<and> \<not> rs_healthy s2"
proof -
  have k: "\<not> MAX_KEY_SIZE < length key" "rs_healthy s"
    using assms by (auto simp: store_get_def prepare_get_def complete_get_def pbind_def split: if_splits)
  then obtain cand s' where c: "begin_point_read digest contended hash s = Some (Inr (Some cand), s')"
    using assms by (auto simp: store_get_def prepare_get_def prepare_l2_get_def complete_get_def pbind_def split: option.splits sum.splits)
  obtain desc where d: "describe_read g hash cand direct = Inr desc"
    using assms k c by (cases "describe_read g hash cand direct")
      (auto simp: store_get_def prepare_get_def prepare_l2_get_def complete_get_def pbind_def enter_miss_only_def)
  show ?thesis using k c d
    by (simp add: store_get_def prepare_get_def prepare_l2_get_def reserve_get_def complete_get_def pbind_def enter_miss_only_def
        lane_fault_def try_reserve_read_lane_def Let_def)
qed

section \<open>Witnesses\<close>

theorem cold_start_opens_witness:
  "\<exists>s. cold_store (\<lambda>_. True) (\<lambda>_. None) sample_data 8 1 = Inr s \<and> rs_healthy s \<and> index_map (rs_index s) = Map.empty
    \<and> length (free_regions (rs_manager s)) = 2"
proof -
  have "dg_region_count (sb_geometry sample_data) = 3" by (simp add: sample_data_def)
  then show ?thesis
    using cold_start_opens [where digest = sample_digest and alloc = "\<lambda>_. True" and map_anonymous = "\<lambda>_. None", OF sample_openable TrueI refl]
    by auto
qed

theorem get_returns_what_was_put_witness:
  "\<exists>w w' env v val. cache_world sample_digest sample_data w
    \<and> store_step sample_digest (sb_geometry sample_data) (GetEvent 42 [1, 2] env (Inr (Some v))) w w'
    \<and> region_value_bytes v = Some val \<and> (42, [1, 2], val) \<in> w_puts w"
proof -
  obtain w v w' env where w: "cache_world sample_digest sample_data w"
    "store_step sample_digest (sb_geometry sample_data) (GetEvent 42 [1, 2] env (Inr (Some v))) w w'" by (rule sample_run) (rule that)
  from get_returns_what_was_put [OF w(1) sample_streaming w(2)] w show ?thesis by blast
qed

theorem put_flush_get_witness:
  "\<exists>w w1 w2 w3 v s'. cache_world sample_digest sample_data w
    \<and> store_step sample_digest (sb_geometry sample_data) (PutEvent 42 [1, 2] [3, 4, 5] True) w w1
    \<and> store_step sample_digest (sb_geometry sample_data) (SealEvent (append_shard 42 (w_store w))) w1 w2
    \<and> store_step sample_digest (sb_geometry sample_data) (WriteEvent (append_shard 42 (w_store w))) w2 w3
    \<and> store_get sample_digest (sb_geometry sample_data) (\<lambda>_. False) True (sample_env (w_device w3)) 42 [1, 2] (w_store w3) = Some (Inr (Some v), s')
    \<and> region_value_bytes v = Some [3, 4, 5]"
proof -
  obtain w w1 w2 w3 where w: "cache_world sample_digest sample_data w" "rs_healthy (w_store w)"
    "store_step sample_digest (sb_geometry sample_data) (PutEvent 42 [1, 2] [3, 4, 5] True) w w1"
    "store_step sample_digest (sb_geometry sample_data) (SealEvent (append_shard 42 (w_store w))) w1 w2"
    "store_step sample_digest (sb_geometry sample_data) (WriteEvent (append_shard 42 (w_store w))) w2 w3"
    by (rule sample_run) (rule that)
  from put_flush_get [where contended = "\<lambda>_. False" and direct = True, OF w(1,2) sample_streaming w(3-5) _ sample_env_delivers] w show ?thesis by blast
qed

theorem cache_world_consistent_witness:
  "\<exists>w logs. cache_world sample_digest sample_data w \<and> w_puts w \<noteq> {} \<and> store_inv sample_digest (sb_geometry sample_data) logs w"
proof -
  obtain w v w' env where w: "cache_world sample_digest sample_data w" "rs_healthy (w_store w)"
    "store_step sample_digest (sb_geometry sample_data) (GetEvent 42 [1, 2] env (Inr (Some v))) w w'" by (rule sample_run) (rule that)
  obtain logs where inv: "store_inv sample_digest (sb_geometry sample_data) logs w"
    using cache_world_consistent [OF w(1,2) sample_streaming] by blast
  from w(3) obtain contended direct s' where honest: "read_honest (w_device w) env" and
    "store_get sample_digest (sb_geometry sample_data) contended direct env 42 [1, 2] (w_store w) = Some (Inr (Some v), s')"
    by (cases rule: store_step_getE) auto
  with store_get_inv [OF inv honest, of contended direct 42 "[1, 2]"] have "w_puts w \<noteq> {}"
    using answer_of_known [OF inv] by (fastforce simp: read_as_def split: if_splits)
  with w inv show ?thesis by blast
qed

theorem healthy_store_answers_witness:
  "\<exists>w. cache_world sample_digest sample_data w \<and> rs_healthy (w_store w)
    \<and> (\<forall>gb mb. try_stage_value sample_digest gb mb (append_shard 7 (w_store w)) 7 64 [1, 2] [3, 4, 5] (w_store w) \<noteq> None)
    \<and> (\<forall>mb contended. try_delete_value sample_digest mb contended 42 (w_store w) \<noteq> None)
    \<and> (\<exists>r s'. store_begin_reclaim (w_store w) = Some (Inr r, s'))"
proof -
  obtain w v w' env where w: "cache_world sample_digest sample_data w" "rs_healthy (w_store w)"
    "store_step sample_digest (sb_geometry sample_data) (GetEvent 42 [1, 2] env (Inr (Some v))) w w'" by (rule sample_run) (rule that)
  note a = healthy_store_answers [OF w(1,2) sample_streaming]
  have "\<forall>gb mb. try_stage_value sample_digest gb mb (append_shard 7 (w_store w)) 7 64 [1, 2] [3, 4, 5] (w_store w) \<noteq> None"
    using conjunct1 [OF a] sample_record by (intro allI) (elim allE impE, assumption+)
  with a w(1,2) show ?thesis by (intro exI [of _ w] conjI) simp_all
qed

theorem health_lost_only_by_failure_witness:
  "\<exists>w env w'. cache_world sample_digest sample_data w \<and> rs_healthy (w_store w)
    \<and> store_step sample_digest (sb_geometry sample_data) (GetEvent 42 [1, 2] env (Inr None)) w w'
    \<and> \<not> rs_healthy (w_store w') \<and> (next_seqno (rs_manager (w_store w')) = u64_max \<or> read_faulty env 42)
    \<and> (\<forall>env. store_get sample_digest (sb_geometry sample_data) (\<lambda>_. False) True env 42 [1, 2] (w_store w') = Some (Inr None, w_store w'))"
proof -
  let ?g = "sb_geometry sample_data"
  obtain w v w1 env where w: "cache_world sample_digest sample_data w" "rs_healthy (w_store w)"
    "store_step sample_digest ?g (GetEvent 42 [1, 2] env (Inr (Some v))) w w1" by (rule sample_run) (rule that)
  then obtain contended direct s1 where "store_get sample_digest ?g contended direct env 42 [1, 2] (w_store w) = Some (Inr (Some v), s1)"
    by (cases rule: store_step_getE) auto
  from lane_fault_get [OF this, of "sample_env (w_device w)"] obtain s2 where
    s2: "store_get sample_digest ?g contended direct (lane_fault (sample_env (w_device w))) 42 [1, 2] (w_store w) = Some (Inr None, s2)"
      "\<not> rs_healthy s2" by blast
  have "read_honest (w_device w) (lane_fault (sample_env (w_device w)))"
    using sample_env_delivers [of "w_device w"] by (simp add: read_delivers_def read_honest_def lane_fault_def)
  note step = store_step.get [where g = ?g, OF this s2(1)]
  let ?w' = "w\<lparr>w_store := s2\<rparr>"
  have w': "cache_world sample_digest sample_data ?w'" using cache_world_step [OF w(1) step] .
  have "next_seqno (rs_manager (w_store ?w')) = u64_max \<or> read_faulty (lane_fault (sample_env (w_device w))) 42"
    using health_lost_only_by_failure [OF w(1) sample_streaming] w(2) step s2(2) by fastforce
  moreover have "\<forall>env. store_get sample_digest ?g (\<lambda>_. False) True env 42 [1, 2] (w_store ?w') = Some (Inr None, w_store ?w')"
    using health_lost_only_by_failure [OF w' sample_streaming] s2(2) store_reach.start by fastforce
  ultimately show ?thesis using w(1,2) step s2(2)
    by (intro exI [of _ w] exI [of _ "lane_fault (sample_env (w_device w))"] exI [of _ ?w']) simp
qed

theorem delete_then_get_misses_witness:
  "\<exists>w seqno s' s''. cache_world sample_digest sample_data w
    \<and> try_delete_value sample_digest False (\<lambda>_. False) 42 (w_store w) = Some (Inr (Some seqno), s')
    \<and> store_get sample_digest (sb_geometry sample_data) (\<lambda>_. False) True (sample_env (w_device w)) 42 [1, 2] s' = Some (Inr None, s'')"
proof -
  obtain w where c: "cache_world sample_digest sample_data w" "store_inv sample_digest (sb_geometry sample_data) (\<lambda>_. []) w"
    "next_seqno (rs_manager (w_store w)) < u64_max" by (rule sample_cold) (rule that)
  obtain seqno s' where d: "try_delete_value sample_digest False (\<lambda>_. False) 42 (w_store w) = Some (Inr (Some seqno), s')"
    using try_delete_inv [OF c(2), of False "\<lambda>_. False" 42] c(3) by auto
  from delete_then_get_misses [where contended' = "\<lambda>_. False" and direct = True and env = "sample_env (w_device w)" and key = "[1, 2]", OF c(1) sample_streaming d] d c(1)
  show ?thesis by blast
qed

theorem put_with_room_accepted_witness:
  "\<exists>w seqno s'. cache_world sample_digest sample_data w
    \<and> try_stage_value sample_digest False False (append_shard 42 (w_store w)) 42 64 [1, 2] [3, 4, 5] (w_store w) = Some (Inr (Staged seqno 0 64), s')
    \<and> rs_healthy s'"
proof -
  obtain w where c: "cache_world sample_digest sample_data w" "store_inv sample_digest (sb_geometry sample_data) (\<lambda>_. []) w"
    "preflight_append (rt_staging (w_store w)) (append_shard 42 (w_store w)) 64 = Inr (Appended 0 64)"
    "reserved_used (regions (rs_manager (w_store w)) ! (active_regions (rs_manager (w_store w)) ! append_shard 42 (w_store w))) + 64
      \<le> rm_region_size (rs_manager (w_store w))"
    "next_seqno (rs_manager (w_store w)) < u64_max" by (rule sample_cold) (rule that)
  from put_with_room_accepted [OF c(1) frameD(1) [OF store_invD(1) [OF c(2)]] sample_streaming sample_record c(3-5)] c(1)
  show ?thesis by blast
qed

end
