(* ===== verification/Policy_Slot.thy ===== *)
theory Policy_Slot
  imports Fixed_Map
begin

unbundle bit_operations_syntax

text \<open>
  The eviction metadata of one entry slot of the memory tier (\<^verbatim>\<open>memory/eviction.rs\<close>): a hash, a position that
  doubles as the link of the free list, and a byte of flags. The lemmas read each flag after each writer, so
  that the policies can treat a slot as its residency, its visited bit, its queue and its frequency.
\<close>

section \<open>The code\<close>

definition MAX_POLICY_SCAN_STEPS :: nat where "MAX_POLICY_SCAN_STEPS = 64"
definition MAX_POLICY_SLOT_INDEX :: nat where "MAX_POLICY_SLOT_INDEX = u32_max - 1"
definition NO_POLICY_SLOT :: nat where "NO_POLICY_SLOT = u32_max"
definition RESIDENT_BIT :: u8 where "RESIDENT_BIT = push_bit 0 1"
definition CLOCK_VISITED_BIT :: u8 where "CLOCK_VISITED_BIT = push_bit 1 1"
definition S3FIFO_FREQUENCY_SHIFT :: nat where "S3FIFO_FREQUENCY_SHIFT = 1"
definition S3FIFO_FREQUENCY_MASK :: u8 where "S3FIFO_FREQUENCY_MASK = push_bit S3FIFO_FREQUENCY_SHIFT 3"
definition S3FIFO_MAIN_BIT :: u8 where "S3FIFO_MAIN_BIT = push_bit 3 1"
definition S3FIFO_MAX_FREQUENCY :: u8 where "S3FIFO_MAX_FREQUENCY = 3"
definition S3FIFO_MOVE_TO_MAIN_THRESHOLD :: u8 where "S3FIFO_MOVE_TO_MAIN_THRESHOLD = 2"

record policy_slot =
  ps_hash :: u64
  ps_clock_position :: nat
  ps_flags :: u8

datatype queue_kind = SmallQueue | MainQueue

definition u8_from_bool :: "bool \<Rightarrow> u8" where
  "u8_from_bool b = (if b then 1 else 0)"

definition default_policy_slot :: policy_slot where
  "default_policy_slot = \<lparr>ps_hash = 0, ps_clock_position = 0, ps_flags = 0\<rparr>"

definition new_free :: "nat \<Rightarrow> policy_slot" where
  "new_free nxt = \<lparr>ps_hash = 0, ps_clock_position = nxt, ps_flags = 0\<rparr>"

definition new_clock :: "u64 \<Rightarrow> bool \<Rightarrow> nat \<Rightarrow> policy_slot" where
  "new_clock hash visited position =
     \<lparr>ps_hash = hash, ps_clock_position = position, ps_flags = RESIDENT_BIT OR (u8_from_bool visited * CLOCK_VISITED_BIT)\<rparr>"

definition new_s3fifo :: "u64 \<Rightarrow> queue_kind \<Rightarrow> u8 \<Rightarrow> policy_slot" where
  "new_s3fifo hash queue frequency =
     \<lparr>ps_hash = hash, ps_clock_position = 0,
      ps_flags = RESIDENT_BIT OR (push_bit S3FIFO_FREQUENCY_SHIFT frequency AND S3FIFO_FREQUENCY_MASK)
        OR (u8_from_bool (queue = MainQueue) * S3FIFO_MAIN_BIT)\<rparr>"

definition is_resident :: "policy_slot \<Rightarrow> bool" where
  "is_resident s \<longleftrightarrow> ps_flags s AND RESIDENT_BIT \<noteq> 0"

definition clock_visited :: "policy_slot \<Rightarrow> bool" where
  "clock_visited s \<longleftrightarrow> ps_flags s AND CLOCK_VISITED_BIT \<noteq> 0"

definition set_clock_visited :: "bool \<Rightarrow> policy_slot \<Rightarrow> policy_slot" where
  "set_clock_visited visited s = s\<lparr>ps_flags := (ps_flags s AND NOT CLOCK_VISITED_BIT) OR (u8_from_bool visited * CLOCK_VISITED_BIT)\<rparr>"

definition set_clock_position :: "nat \<Rightarrow> policy_slot \<Rightarrow> policy_slot" where
  "set_clock_position position s = s\<lparr>ps_clock_position := position\<rparr>"

definition s3fifo_queue :: "policy_slot \<Rightarrow> queue_kind" where
  "s3fifo_queue s = (if ps_flags s AND S3FIFO_MAIN_BIT = 0 then SmallQueue else MainQueue)"

definition s3fifo_frequency :: "policy_slot \<Rightarrow> u8" where
  "s3fifo_frequency s = drop_bit S3FIFO_FREQUENCY_SHIFT (ps_flags s AND S3FIFO_FREQUENCY_MASK)"

definition set_s3fifo_frequency :: "u8 \<Rightarrow> policy_slot \<Rightarrow> policy_slot" where
  "set_s3fifo_frequency frequency s =
     s\<lparr>ps_flags := (ps_flags s AND NOT S3FIFO_FREQUENCY_MASK) OR (push_bit S3FIFO_FREQUENCY_SHIFT frequency AND S3FIFO_FREQUENCY_MASK)\<rparr>"

definition increment_s3fifo_frequency :: "policy_slot \<Rightarrow> policy_slot" where
  "increment_s3fifo_frequency s =
     (let frequency = ps_flags s AND S3FIFO_FREQUENCY_MASK in
      s\<lparr>ps_flags := ps_flags s + push_bit S3FIFO_FREQUENCY_SHIFT (u8_from_bool (frequency \<noteq> S3FIFO_FREQUENCY_MASK))\<rparr>)"

definition set_s3fifo_queue :: "queue_kind \<Rightarrow> policy_slot \<Rightarrow> policy_slot" where
  "set_s3fifo_queue queue s =
     s\<lparr>ps_flags := (ps_flags s AND NOT S3FIFO_MAIN_BIT) OR (u8_from_bool (queue = MainQueue) * S3FIFO_MAIN_BIT)\<rparr>"

lemma nth_update: "xs[i := v] ! j = (if i = j \<and> j < length xs then v else xs ! j)"
  by (cases "i < length xs") (auto simp: nth_list_update list_update_beyond)

section \<open>Reading the flags\<close>

named_theorems policy_flags \<open>the flags of a policy slot after each writer\<close>

lemmas flag_defs = RESIDENT_BIT_def CLOCK_VISITED_BIT_def S3FIFO_FREQUENCY_SHIFT_def S3FIFO_FREQUENCY_MASK_def S3FIFO_MAIN_BIT_def

lemma and_bit_nonzero: "w AND push_bit n 1 \<noteq> 0 \<longleftrightarrow> bit (w :: u8) n" if "n < 8"
  using that by (metis and_exp_eq_0_iff_not_bit mult_1 push_bit_eq_mult)

lemma flags_bits:
  "is_resident s \<longleftrightarrow> bit (ps_flags s) 0" "clock_visited s \<longleftrightarrow> bit (ps_flags s) 1"
  "s3fifo_queue s = (if bit (ps_flags s) 3 then MainQueue else SmallQueue)"
  by (simp_all only: is_resident_def clock_visited_def s3fifo_queue_def flag_defs and_bit_nonzero [unfolded not_not [symmetric]])
     (use and_bit_nonzero [of 3 "ps_flags s"] in auto)

lemma bit_flags:
  "bit RESIDENT_BIT i \<longleftrightarrow> i = 0" "bit CLOCK_VISITED_BIT i \<longleftrightarrow> i = 1" "bit S3FIFO_MAIN_BIT i \<longleftrightarrow> i = 3"
  "bit S3FIFO_FREQUENCY_MASK i \<longleftrightarrow> i = 1 \<or> i = 2"
  "bit (push_bit S3FIFO_FREQUENCY_SHIFT (f :: u8)) i \<longleftrightarrow> 1 \<le> i \<and> i < 8 \<and> bit f (i - 1)"
proof -
  have m: "S3FIFO_FREQUENCY_MASK = push_bit 1 (mask 2)" by (simp add: flag_defs mask_eq_exp_minus_1)
  show "bit S3FIFO_FREQUENCY_MASK i \<longleftrightarrow> i = 1 \<or> i = 2"
    unfolding m by (simp only: bit_push_bit_iff) (auto simp: bit_mask_iff)
  show "bit RESIDENT_BIT i \<longleftrightarrow> i = 0" "bit CLOCK_VISITED_BIT i \<longleftrightarrow> i = 1" "bit S3FIFO_MAIN_BIT i \<longleftrightarrow> i = 3"
    unfolding flag_defs by (simp_all only: bit_push_bit_iff) (auto simp: bit_1_iff)
  show "bit (push_bit S3FIFO_FREQUENCY_SHIFT f) i \<longleftrightarrow> 1 \<le> i \<and> i < 8 \<and> bit f (i - 1)"
    unfolding flag_defs by (simp only: bit_push_bit_iff) (auto dest: bit_imp_le_length)
qed

lemma bit_flag: "bit (u8_from_bool b * w) i \<longleftrightarrow> b \<and> bit w i"
  by (simp add: u8_from_bool_def)

lemma frequency_take_bit: "s3fifo_frequency s = take_bit 2 (drop_bit 1 (ps_flags s))"
  unfolding s3fifo_frequency_def by (rule bit_word_eqI) (auto simp: S3FIFO_FREQUENCY_SHIFT_def bit_flags bit_simps)

lemma frequency_le: "s3fifo_frequency s \<le> 3"
proof -
  have "unat (s3fifo_frequency s) < 2 ^ 2" unfolding frequency_take_bit by (rule unat_take_bit_less) simp
  then show ?thesis by (simp add: word_le_nat_alt)
qed

lemma take_bit_2: "(f :: u8) \<le> 3 \<Longrightarrow> take_bit 2 f = f"
  by (rule take_bit_self_unat) (simp add: word_le_nat_alt)

lemma new_slot_flags [policy_flags]:
  "is_resident (new_clock hash v p)" "clock_visited (new_clock hash v p) = v" "ps_hash (new_clock hash v p) = hash"
  "ps_clock_position (new_clock hash v p) = p"
  "is_resident (new_s3fifo hash q f)" "s3fifo_queue (new_s3fifo hash q f) = q" "ps_hash (new_s3fifo hash q f) = hash"
  "f \<le> 3 \<Longrightarrow> s3fifo_frequency (new_s3fifo hash q f) = f"
  "\<not> is_resident default_policy_slot" "\<not> is_resident (new_free p)" "ps_clock_position (new_free p) = p"
proof -
  show "s3fifo_frequency (new_s3fifo hash q f) = f" if "f \<le> 3"
  proof -
    have "take_bit 2 (drop_bit 1 (ps_flags (new_s3fifo hash q f))) = take_bit 2 f"
      by (rule bit_word_eqI)
        (auto simp: new_s3fifo_def bit_or_iff bit_and_iff bit_take_bit_iff bit_drop_bit_eq bit_flags bit_flag less_2_cases_iff)
    then show ?thesis by (simp add: frequency_take_bit take_bit_2 [OF that])
  qed
  show "s3fifo_queue (new_s3fifo hash q f) = q"
    by (cases q) (simp_all add: flags_bits new_s3fifo_def bit_simps bit_flags bit_flag)
qed (simp_all add: flags_bits new_clock_def new_s3fifo_def default_policy_slot_def new_free_def bit_simps bit_flag bit_flags)

lemma set_clock_flags [policy_flags]:
  "is_resident (set_clock_visited v s) = is_resident s" "clock_visited (set_clock_visited v s) = v"
  "ps_hash (set_clock_visited v s) = ps_hash s" "ps_clock_position (set_clock_visited v s) = ps_clock_position s"
  "is_resident (set_clock_position p s) = is_resident s" "clock_visited (set_clock_position p s) = clock_visited s"
  "ps_hash (set_clock_position p s) = ps_hash s" "ps_clock_position (set_clock_position p s) = p"
  by (simp_all add: flags_bits set_clock_visited_def set_clock_position_def bit_simps bit_flag bit_flags)

lemma set_s3fifo_flags [policy_flags]:
  "is_resident (set_s3fifo_queue q s) = is_resident s" "s3fifo_queue (set_s3fifo_queue q s) = q"
  "ps_hash (set_s3fifo_queue q s) = ps_hash s" "s3fifo_frequency (set_s3fifo_queue q s) = s3fifo_frequency s"
  "is_resident (set_s3fifo_frequency f s) = is_resident s" "s3fifo_queue (set_s3fifo_frequency f s) = s3fifo_queue s"
  "ps_hash (set_s3fifo_frequency f s) = ps_hash s" "f \<le> 3 \<Longrightarrow> s3fifo_frequency (set_s3fifo_frequency f s) = f"
proof -
  show "s3fifo_queue (set_s3fifo_queue q s) = q"
    by (cases q) (simp_all add: flags_bits set_s3fifo_queue_def bit_simps bit_flag bit_flags)
  show "s3fifo_frequency (set_s3fifo_queue q s) = s3fifo_frequency s"
    unfolding frequency_take_bit
    by (rule bit_word_eqI) (auto simp: set_s3fifo_queue_def bit_simps bit_flag bit_flags)
  show "s3fifo_frequency (set_s3fifo_frequency f s) = f" if "f \<le> 3"
  proof -
    have "take_bit 2 (drop_bit 1 (ps_flags (set_s3fifo_frequency f s))) = take_bit 2 f"
      by (rule bit_word_eqI)
        (auto simp: set_s3fifo_frequency_def bit_or_iff bit_and_iff bit_take_bit_iff bit_drop_bit_eq bit_not_iff bit_flags less_2_cases_iff)
    then show ?thesis by (simp add: frequency_take_bit take_bit_2 [OF that])
  qed
qed (simp_all add: flags_bits set_s3fifo_queue_def set_s3fifo_frequency_def bit_simps bit_flag bit_flags)

text \<open>A hit raises the frequency by one up to three, and touches neither the residency nor the queue.\<close>

lemma frequency_field:
  "ps_flags (set_s3fifo_frequency f s) = (ps_flags s AND NOT S3FIFO_FREQUENCY_MASK) + push_bit S3FIFO_FREQUENCY_SHIFT f" if "f \<le> 3"
proof -
  have "push_bit S3FIFO_FREQUENCY_SHIFT f AND S3FIFO_FREQUENCY_MASK = push_bit S3FIFO_FREQUENCY_SHIFT f"
  proof (rule bit_word_eqI)
    fix n
    have "bit f k \<Longrightarrow> k < 2" for k using take_bit_2 [OF that] by (metis bit_take_bit_iff)
    then show "bit (push_bit S3FIFO_FREQUENCY_SHIFT f AND S3FIFO_FREQUENCY_MASK) n = bit (push_bit S3FIFO_FREQUENCY_SHIFT f) n"
      by (auto simp: bit_and_iff bit_flags) (fastforce simp: less_2_cases_iff)
  qed
  moreover have "(ps_flags s AND NOT S3FIFO_FREQUENCY_MASK) + (v AND S3FIFO_FREQUENCY_MASK)
      = (ps_flags s AND NOT S3FIFO_FREQUENCY_MASK) OR (v AND S3FIFO_FREQUENCY_MASK)" for v
    by (subst disjunctive_add) (auto simp: bit_simps)
  ultimately show ?thesis by (metis (no_types) set_s3fifo_frequency_def policy_slot.select_convs(3) policy_slot.surjective policy_slot.update_convs(3))
qed

lemma set_same_frequency: "set_s3fifo_frequency (s3fifo_frequency s) s = s"
proof -
  have "ps_flags (set_s3fifo_frequency (s3fifo_frequency s) s) = ps_flags s"
    by (rule bit_word_eqI)
      (auto simp: set_s3fifo_frequency_def frequency_take_bit bit_or_iff bit_and_iff bit_take_bit_iff bit_drop_bit_eq bit_not_iff bit_flags numeral_2_eq_2)
  then show ?thesis by (simp add: set_s3fifo_frequency_def)
qed

lemma frequency_cases: "s3fifo_frequency s = 0 \<or> s3fifo_frequency s = 1 \<or> s3fifo_frequency s = 2 \<or> s3fifo_frequency s = 3"
proof -
  have "unat (s3fifo_frequency s) \<le> 3" using frequency_le [of s] by (simp add: word_le_nat_alt)
  then have "unat (s3fifo_frequency s) \<in> {0, 1, 2, 3}" by auto
  then show ?thesis by (auto simp: word_unat_eq_iff)
qed

lemma increment_is_set: "increment_s3fifo_frequency s = set_s3fifo_frequency (min 3 (s3fifo_frequency s + 1)) s"
proof -
  let ?f = "s3fifo_frequency s"
  have full: "ps_flags s AND S3FIFO_FREQUENCY_MASK = S3FIFO_FREQUENCY_MASK \<longleftrightarrow> ?f = 3"
  proof
    assume "ps_flags s AND S3FIFO_FREQUENCY_MASK = S3FIFO_FREQUENCY_MASK"
    then show "?f = 3" by (simp add: s3fifo_frequency_def) (simp add: flag_defs)
  next
    assume "?f = 3"
    moreover have "ps_flags s AND S3FIFO_FREQUENCY_MASK = push_bit S3FIFO_FREQUENCY_SHIFT ?f"
      by (rule bit_word_eqI)
        (auto simp: frequency_take_bit bit_and_iff bit_take_bit_iff bit_drop_bit_eq bit_flags numeral_2_eq_2)
    ultimately show "ps_flags s AND S3FIFO_FREQUENCY_MASK = S3FIFO_FREQUENCY_MASK" by (simp only: S3FIFO_FREQUENCY_MASK_def)
  qed
  show ?thesis
  proof (cases "?f = 3")
    case True
    then show ?thesis using full set_same_frequency [of s] by (simp add: increment_s3fifo_frequency_def u8_from_bool_def)
  next
    case False
    then have f: "min 3 (?f + 1) = ?f + 1" "?f + 1 \<le> 3" using frequency_cases [of s] by auto
    have "ps_flags s = (ps_flags s AND NOT S3FIFO_FREQUENCY_MASK) + push_bit S3FIFO_FREQUENCY_SHIFT ?f"
      using frequency_field [OF frequency_le, of s s] set_same_frequency [of s] by simp
    then have "ps_flags s + push_bit S3FIFO_FREQUENCY_SHIFT 1 = ps_flags (set_s3fifo_frequency (?f + 1) s)"
      unfolding frequency_field [OF f(2)] by (simp add: push_bit_add)
    then show ?thesis using False full f(1)
      by (simp add: increment_s3fifo_frequency_def u8_from_bool_def set_s3fifo_frequency_def)
  qed
qed

lemma increment_flags [policy_flags]:
  "is_resident (increment_s3fifo_frequency s) = is_resident s" "s3fifo_queue (increment_s3fifo_frequency s) = s3fifo_queue s"
  "ps_hash (increment_s3fifo_frequency s) = ps_hash s"
  "s3fifo_frequency (increment_s3fifo_frequency s) = min 3 (s3fifo_frequency s + 1)"
  by (simp_all add: increment_is_set policy_flags)

end
