(* ===== verification/Policy_Queue.thy ===== *)
theory Policy_Queue
  imports Policy_Slot
begin

text \<open>
  The intrusive queues of \<^verbatim>\<open>memory/eviction.rs\<close>: a doubly linked list threaded through an array of links by
  32-bit indices, with a byte total. A chain of links is described once, by a path through a successor
  function, and used for both directions of a queue, for free lists and for hash chains. The queue
  operations refine appending to, removing from and rotating a list.
\<close>

section \<open>The code\<close>

text \<open>\<open>update_at xs i f\<close> is an assignment to \<^verbatim>\<open>xs[i]\<close>, with \<open>None\<close> for the panic out of bounds.\<close>

definition update_at :: "'a list \<Rightarrow> nat \<Rightarrow> ('a \<Rightarrow> 'a) \<Rightarrow> 'a list option" where
  "update_at xs i f = (if i < length xs then Some (xs[i := f (xs ! i)]) else None)"

record s3fifo_link =
  lk_previous :: nat
  lk_next :: nat
  lk_weight :: nat

definition default_link :: s3fifo_link where
  "default_link = \<lparr>lk_previous = NO_POLICY_SLOT, lk_next = NO_POLICY_SLOT, lk_weight = 0\<rparr>"

record policy_queue =
  pq_head :: nat
  pq_tail :: nat
  pq_bytes :: nat

definition queue_empty :: policy_queue where
  "queue_empty = \<lparr>pq_head = NO_POLICY_SLOT, pq_tail = NO_POLICY_SLOT, pq_bytes = 0\<rparr>"

definition queue_is_empty :: "policy_queue \<Rightarrow> bool" where
  "queue_is_empty q \<longleftrightarrow> pq_head q = NO_POLICY_SLOT"

definition queue_front :: "policy_queue \<Rightarrow> nat option" where
  "queue_front q = (if pq_head q \<noteq> NO_POLICY_SLOT then Some (pq_head q) else None)"

definition queue_push_back :: "nat \<Rightarrow> nat \<Rightarrow> policy_queue \<Rightarrow> s3fifo_link list \<Rightarrow> (policy_queue \<times> s3fifo_link list) option" where
  "queue_push_back index weight q links = do {
     packed \<leftarrow> try_from u32_max index;
     packed_weight \<leftarrow> try_from u32_max weight;
     links \<leftarrow> update_at links index (\<lambda>_. \<lparr>lk_previous = pq_tail q, lk_next = NO_POLICY_SLOT, lk_weight = packed_weight\<rparr>);
     (head, links) \<leftarrow> (if pq_tail q = NO_POLICY_SLOT then Some (packed, links)
       else map_option (Pair (pq_head q)) (update_at links (pq_tail q) (\<lambda>l. l\<lparr>lk_next := packed\<rparr>)));
     Some (\<lparr>pq_head = head, pq_tail = packed, pq_bytes = saturating_add usize_max (pq_bytes q) weight\<rparr>, links)
   }"

definition queue_remove :: "nat \<Rightarrow> policy_queue \<Rightarrow> s3fifo_link list \<Rightarrow> (nat \<times> policy_queue \<times> s3fifo_link list) option" where
  "queue_remove index q links = do {
     packed \<leftarrow> try_from u32_max index;
     link \<leftarrow> get_at links index;
     (q, links) \<leftarrow> (if lk_previous link = NO_POLICY_SLOT then Some (q\<lparr>pq_head := lk_next link\<rparr>, links)
       else map_option (Pair q) (update_at links (lk_previous link) (\<lambda>l. l\<lparr>lk_next := lk_next link\<rparr>)));
     (q, links) \<leftarrow> (if lk_next link = NO_POLICY_SLOT then Some (q\<lparr>pq_tail := lk_previous link\<rparr>, links)
       else map_option (Pair q) (update_at links (lk_next link) (\<lambda>l. l\<lparr>lk_previous := lk_previous link\<rparr>)));
     links \<leftarrow> update_at links index (\<lambda>_. default_link);
     Some (lk_weight link, q\<lparr>pq_bytes := pq_bytes q - lk_weight link\<rparr>, links)
   }"

definition queue_move_to_back :: "nat \<Rightarrow> policy_queue \<Rightarrow> s3fifo_link list \<Rightarrow> (policy_queue \<times> s3fifo_link list) option" where
  "queue_move_to_back index q links = do {
     packed \<leftarrow> try_from u32_max index;
     if pq_tail q = packed then Some (q, links)
     else do {
       (weight, q, links) \<leftarrow> queue_remove index q links;
       queue_push_back index weight q links
     }
   }"

lemma update_at_eq_Some [simp]: "update_at xs i f = Some ys \<longleftrightarrow> i < length xs \<and> ys = xs[i := f (xs ! i)]"
  by (auto simp: update_at_def)

section \<open>Chains of indices\<close>

text \<open>\<open>path f xs e\<close>: following \<open>f\<close> from the first of \<open>xs\<close> visits \<open>xs\<close> in order and ends in \<open>e\<close>.\<close>

fun path :: "('i \<Rightarrow> 'i) \<Rightarrow> 'i list \<Rightarrow> 'i \<Rightarrow> bool" where
  "path f [] e = True"
| "path f (x # xs) e = (f x = hd (xs @ [e]) \<and> path f xs e)"

lemma path_append: "path f (xs @ ys) e \<longleftrightarrow> path f xs (hd (ys @ [e])) \<and> path f ys e"
  by (induction xs) (auto simp: hd_append)

lemma path_snoc: "path f (xs @ [x]) e \<longleftrightarrow> path f xs x \<and> f x = e"
  by (simp add: path_append)

lemma path_cong: "(\<And>x. x \<in> set xs \<Longrightarrow> f x = g x) \<Longrightarrow> path f xs e = path g xs e"
  by (induction xs) auto

lemma path_end: "path f xs e \<Longrightarrow> xs \<noteq> [] \<Longrightarrow> f (last xs) = e"
  by (induction xs rule: rev_induct) (auto simp: path_snoc)

text \<open>Appending an element redirects the last one; removing one redirects its predecessor.\<close>

lemma path_push:
  assumes "path f xs e" "x \<notin> set xs" "distinct xs" "f' x = e"
    and "\<And>y. y \<in> set xs \<Longrightarrow> f' y = (if y = last xs then x else f y)"
  shows "path f' (xs @ [x]) e"
proof (cases xs rule: rev_cases)
  case (snoc ys y)
  have "path f ys y" using assms(1) by (simp add: snoc path_snoc)
  then have "path f' ys y" using assms(3,5) by (subst path_cong [of _ f' f]) (auto simp: snoc)
  then show ?thesis using assms(4,5) by (simp add: snoc path_append)
qed (use assms(4) in simp)

lemma path_drop:
  assumes "path f (ys @ x # zs) e" "distinct (ys @ x # zs)"
    and "\<And>y. y \<in> set ys \<Longrightarrow> f' y = (if y = last ys then f x else f y)" "\<And>y. y \<in> set zs \<Longrightarrow> f' y = f y"
  shows "path f' (ys @ zs) e"
proof -
  have x: "f x = hd (zs @ [e])" and p: "path f ys x" "path f zs e" using assms(1) by (auto simp: path_append)
  have "path f' zs e" using p(2) assms(4) path_cong [of zs f' f] by simp
  moreover have "path f' ys (hd (zs @ [e]))"
  proof (cases ys rule: rev_cases)
    case (snoc us u)
    have "path f us u" using p(1) by (simp add: snoc path_snoc)
    then have "path f' us u" using assms(2,3) by (subst path_cong [of _ f' f]) (auto simp: snoc)
    then show ?thesis using assms(3) x by (simp add: snoc path_snoc)
  qed simp
  ultimately show ?thesis by (simp add: path_append)
qed

lemma path_hd: "path f (ys @ x # zs) e \<Longrightarrow> f x = hd (zs @ [e])"
  by (simp add: path_append)

section \<open>Doubly linked lists of indices\<close>

definition linked :: "s3fifo_link list \<Rightarrow> nat list \<Rightarrow> bool" where
  "linked L xs \<longleftrightarrow> distinct xs
     \<and> (\<forall>x \<in> set xs. x < length L \<and> x < NO_POLICY_SLOT \<and> 0 < lk_weight (L ! x) \<and> lk_weight (L ! x) \<le> u32_max)
     \<and> path (\<lambda>i. lk_next (L ! i)) xs NO_POLICY_SLOT \<and> path (\<lambda>i. lk_previous (L ! i)) (rev xs) NO_POLICY_SLOT"

definition first_of :: "nat list \<Rightarrow> nat" where
  "first_of xs = hd (xs @ [NO_POLICY_SLOT])"

definition last_of :: "nat list \<Rightarrow> nat" where
  "last_of xs = hd (rev xs @ [NO_POLICY_SLOT])"

lemma first_of_simps [simp]: "first_of [] = NO_POLICY_SLOT" "first_of (x # xs) = x"
  by (simp_all add: first_of_def)

lemma first_of_prefix: "first_of (xs @ y # ys) = first_of (xs @ [y])"
  by (simp add: first_of_def hd_append)

lemma last_of_simps [simp]: "last_of [] = NO_POLICY_SLOT" "last_of (xs @ [x]) = x" "last_of [x] = x" "last_of (xs @ y # ys) = last_of (y # ys)"
  by (simp_all add: last_of_def hd_append)

lemma last_of_last: "xs \<noteq> [] \<Longrightarrow> last_of xs = last xs"
  by (simp add: last_of_def hd_rev)

lemma linkedD:
  assumes "linked L xs"
  shows "distinct xs" "\<And>x. x \<in> set xs \<Longrightarrow> x < length L \<and> x < NO_POLICY_SLOT \<and> 0 < lk_weight (L ! x) \<and> lk_weight (L ! x) \<le> u32_max"
    "path (\<lambda>i. lk_next (L ! i)) xs NO_POLICY_SLOT" "path (\<lambda>i. lk_previous (L ! i)) (rev xs) NO_POLICY_SLOT"
  using assms by (auto simp: linked_def)

lemma bounded_ends:
  assumes "\<And>x. x \<in> set xs \<Longrightarrow> x < NO_POLICY_SLOT"
  shows "first_of xs = NO_POLICY_SLOT \<longleftrightarrow> xs = []" "last_of xs = NO_POLICY_SLOT \<longleftrightarrow> xs = []"
proof -
  show "first_of xs = NO_POLICY_SLOT \<longleftrightarrow> xs = []" using assms [of "hd xs"] by (cases xs) auto
  show "last_of xs = NO_POLICY_SLOT \<longleftrightarrow> xs = []" using assms [of "last xs"] by (cases "xs = []") (auto simp: last_of_last)
qed

lemma linked_ends:
  assumes "linked L xs"
  shows "first_of xs = NO_POLICY_SLOT \<longleftrightarrow> xs = []" "last_of xs = NO_POLICY_SLOT \<longleftrightarrow> xs = []"
  by (rule bounded_ends; use linkedD(2) [OF assms] in blast)+

lemma linked_cong:
  "linked L xs \<Longrightarrow> length L' = length L \<Longrightarrow> (\<And>x. x \<in> set xs \<Longrightarrow> L' ! x = L ! x) \<Longrightarrow> linked L' xs"
  using path_cong [of xs "\<lambda>i. lk_next (L' ! i)" "\<lambda>i. lk_next (L ! i)" NO_POLICY_SLOT]
    path_cong [of "rev xs" "\<lambda>i. lk_previous (L' ! i)" "\<lambda>i. lk_previous (L ! i)" NO_POLICY_SLOT]
  by (simp add: linked_def)

lemma linked_Nil [simp]: "linked L []"
  by (simp add: linked_def)

text \<open>The links an element inside a list has.\<close>

lemma linked_at:
  assumes "linked L (ys @ x # zs)"
  shows "lk_next (L ! x) = first_of zs" "lk_previous (L ! x) = last_of ys"
  using path_hd [OF linkedD(3) [OF assms]] path_hd [of "\<lambda>i. lk_previous (L ! i)" "rev zs" x "rev ys"] linkedD(4) [OF assms]
  by (simp_all add: first_of_def last_of_def)

text \<open>The two ways the code rewires links.\<close>

definition push_link :: "s3fifo_link list \<Rightarrow> nat \<Rightarrow> nat \<Rightarrow> nat \<Rightarrow> s3fifo_link list" where
  "push_link L tail i w =
     (let L = L[i := \<lparr>lk_previous = tail, lk_next = NO_POLICY_SLOT, lk_weight = w\<rparr>]
      in if tail = NO_POLICY_SLOT then L else L[tail := (L ! tail)\<lparr>lk_next := i\<rparr>])"

definition cut_link :: "s3fifo_link list \<Rightarrow> nat \<Rightarrow> s3fifo_link list" where
  "cut_link L i =
     (let l = L ! i;
          L = (if lk_previous l = NO_POLICY_SLOT then L else L[lk_previous l := (L ! lk_previous l)\<lparr>lk_next := lk_next l\<rparr>])
      in if lk_next l = NO_POLICY_SLOT then L else L[lk_next l := (L ! lk_next l)\<lparr>lk_previous := lk_previous l\<rparr>])"

lemma length_links [simp]: "length (push_link L tail i w) = length L" "length (cut_link L i) = length L"
  by (simp_all add: push_link_def cut_link_def Let_def)

lemma linked_push:
  assumes l: "linked L xs" and i: "i < length L" "i < NO_POLICY_SLOT" "i \<notin> set xs" and w: "0 < w" "w \<le> u32_max"
  defines "L' \<equiv> push_link L (last_of xs) i w"
  shows "linked L' (xs @ [i])" "L' ! i = \<lparr>lk_previous = last_of xs, lk_next = NO_POLICY_SLOT, lk_weight = w\<rparr>"
    "\<And>j. j \<noteq> i \<Longrightarrow> lk_weight (L' ! j) = lk_weight (L ! j)" "\<And>j. j \<notin> set (xs @ [i]) \<Longrightarrow> L' ! j = L ! j"
proof -
  have tail: "xs \<noteq> [] \<Longrightarrow> last_of xs = last xs \<and> last xs \<in> set xs \<and> last xs < length L \<and> last xs \<noteq> i \<and> last xs \<noteq> NO_POLICY_SLOT"
    using linkedD(2) [OF l] i(3) last_in_set [of xs] last_of_last [of xs] by fastforce
  have nth: "L' ! j = (if j = i then \<lparr>lk_previous = last_of xs, lk_next = NO_POLICY_SLOT, lk_weight = w\<rparr>
      else if xs \<noteq> [] \<and> j = last xs then (L ! j)\<lparr>lk_next := i\<rparr> else L ! j)" for j
    using i(1) tail by (cases "xs = []") (auto simp: L'_def push_link_def Let_def nth_list_update)
  show "L' ! i = \<lparr>lk_previous = last_of xs, lk_next = NO_POLICY_SLOT, lk_weight = w\<rparr>" by (simp add: nth)
  show "lk_weight (L' ! j) = lk_weight (L ! j)" if "j \<noteq> i" for j using that by (simp add: nth)
  show "L' ! j = L ! j" if "j \<notin> set (xs @ [i])" for j using that tail by (auto simp: nth)
  have "path (\<lambda>k. lk_next (L' ! k)) (xs @ [i]) NO_POLICY_SLOT"
    by (rule path_push [OF linkedD(3) [OF l] i(3) linkedD(1) [OF l]]) (use i(3) in \<open>auto simp: nth\<close>)
  moreover have "path (\<lambda>k. lk_previous (L' ! k)) (rev xs) NO_POLICY_SLOT"
    using linkedD(4) [OF l] i(3) by (subst path_cong [of _ _ "\<lambda>k. lk_previous (L ! k)"]) (auto simp: nth)
  moreover have "length L' = length L" by (simp add: L'_def)
  ultimately show "linked L' (xs @ [i])"
    using linkedD(1,2) [OF l] i w by (auto simp: linked_def nth last_of_def)
qed

lemma linked_cut:
  assumes l: "linked L (ys @ i # zs)"
  defines "L' \<equiv> cut_link L i"
  shows "linked (L'[i := d]) (ys @ zs)" "\<And>j. lk_weight (L' ! j) = lk_weight (L ! j)" "\<And>j. j \<notin> set (ys @ zs) \<Longrightarrow> L' ! j = L ! j"
proof -
  note at = linked_at [OF l]
  note dis = linkedD(1) [OF l]
  have lt: "x \<in> set (ys @ i # zs) \<Longrightarrow> x < length L \<and> x \<noteq> NO_POLICY_SLOT" for x using linkedD(2) [OF l, of x] by auto
  have p: "ys \<noteq> [] \<Longrightarrow> last_of ys = last ys \<and> last ys \<in> set ys \<and> last ys \<noteq> NO_POLICY_SLOT \<and> last ys < length L"
    using lt [of "last ys"] last_of_last [of ys] by auto
  have n: "zs \<noteq> [] \<Longrightarrow> first_of zs = hd zs \<and> hd zs \<in> set zs \<and> hd zs \<noteq> NO_POLICY_SLOT \<and> hd zs < length L"
    using lt [of "hd zs"] by (cases zs) auto
  have ne: "ys \<noteq> [] \<Longrightarrow> zs \<noteq> [] \<Longrightarrow> last ys \<noteq> hd zs" using p n dis unfolding distinct_append by (metis disjoint_iff list.set_intros(2))
  have nth: "L' ! j = (if ys \<noteq> [] \<and> j = last ys then (L ! j)\<lparr>lk_next := first_of zs\<rparr>
      else if zs \<noteq> [] \<and> j = hd zs then (L ! j)\<lparr>lk_previous := last_of ys\<rparr> else L ! j)" for j
    using p n ne by (cases "ys = []"; cases "zs = []") (auto simp: L'_def cut_link_def Let_def at nth_list_update)
  have sep: "ys \<noteq> [] \<Longrightarrow> last ys \<notin> set zs" "zs \<noteq> [] \<Longrightarrow> hd zs \<notin> set ys"
    using p n dis unfolding distinct_append by (metis disjoint_iff list.set_intros(2))+
  show "lk_weight (L' ! j) = lk_weight (L ! j)" for j by (simp add: nth)
  show "L' ! j = L ! j" if "j \<notin> set (ys @ zs)" for j using that p n by (auto simp: nth)
  have i: "i < length L'" "i \<notin> set ys" "i \<notin> set zs" using lt [of i] dis by (auto simp: L'_def)
  have nth': "L'[i := d] ! j = L' ! j" if "j \<in> set ys \<union> set zs" for j using that i by (auto simp: nth_list_update)
  have "path (\<lambda>k. lk_next (L'[i := d] ! k)) (ys @ zs) NO_POLICY_SLOT"
    by (rule path_drop [OF linkedD(3) [OF l] dis]) (use nth' sep in \<open>auto simp: nth at\<close>)
  moreover have "path (\<lambda>k. lk_previous (L'[i := d] ! k)) (rev zs @ rev ys) NO_POLICY_SLOT"
    by (rule path_drop [of "\<lambda>k. lk_previous (L ! k)" _ i])
      (use linkedD(4) [OF l] dis nth' sep in \<open>auto simp: nth at last_rev\<close>)
  moreover have "length L' = length L" by (simp add: L'_def)
  ultimately show "linked (L'[i := d]) (ys @ zs)"
    using dis linkedD(2) [OF l] nth' by (auto simp: linked_def nth)
qed

section \<open>The queue is a list\<close>

definition weights :: "s3fifo_link list \<Rightarrow> nat list \<Rightarrow> nat" where
  "weights L xs = sum_list (map (\<lambda>x. lk_weight (L ! x)) xs)"

definition queue_wf :: "s3fifo_link list \<Rightarrow> policy_queue \<Rightarrow> nat list \<Rightarrow> bool" where
  "queue_wf L q xs \<longleftrightarrow> linked L xs \<and> pq_head q = first_of xs \<and> pq_tail q = last_of xs \<and> pq_bytes q = weights L xs"

lemma weights_simps [simp]:
  "weights L [] = 0" "weights L (x # xs) = lk_weight (L ! x) + weights L xs" "weights L (xs @ ys) = weights L xs + weights L ys"
  by (simp_all add: weights_def)

lemma weights_cong: "(\<And>x. x \<in> set xs \<Longrightarrow> lk_weight (L' ! x) = lk_weight (L ! x)) \<Longrightarrow> weights L' xs = weights L xs"
  unfolding weights_def by (rule arg_cong [where f = sum_list]) simp

lemma distinct_bounded_length: "distinct xs \<Longrightarrow> (\<And>x. x \<in> set xs \<Longrightarrow> x < n) \<Longrightarrow> length xs \<le> (n :: nat)"
  by (metis card_mono distinct_card finite_lessThan lessThan_iff subsetI card_lessThan)

lemma linked_weights_bound:
  assumes "linked L xs" "w \<le> u32_max" shows "weights L xs + w \<le> usize_max"
proof -
  have "weights L xs \<le> sum_list (map (\<lambda>_. u32_max) xs)"
    unfolding weights_def by (rule sum_list_mono) (use linkedD(2) [OF assms(1)] in blast)
  also have "\<dots> = length xs * u32_max" by (simp add: sum_list_triv)
  also have "\<dots> \<le> u32_max * u32_max"
    using distinct_bounded_length [OF linkedD(1) [OF assms(1)], of NO_POLICY_SLOT] linkedD(2) [OF assms(1)]
    by (auto simp: NO_POLICY_SLOT_def)
  finally show ?thesis using assms(2) by (simp add: num_bounds)
qed

lemma queue_empty_wf: "queue_wf L queue_empty []"
  by (simp add: queue_wf_def queue_empty_def)

lemma queue_wf_cong:
  "queue_wf L q xs \<Longrightarrow> length L' = length L \<Longrightarrow> (\<And>x. x \<in> set xs \<Longrightarrow> L' ! x = L ! x) \<Longrightarrow> queue_wf L' q xs"
  unfolding queue_wf_def using linked_cong weights_cong [of xs L' L] by auto

lemma queue_front_wf:
  assumes "queue_wf L q xs"
  shows "queue_front q = (case xs of [] \<Rightarrow> None | x # _ \<Rightarrow> Some x)" "queue_is_empty q \<longleftrightarrow> xs = []"
  using assms linked_ends(1) [of L xs] by (cases xs; auto simp: queue_wf_def queue_front_def queue_is_empty_def)+

lemma queue_push_back_ok:
  assumes q: "queue_wf L q xs" and i: "i < length L" "i < NO_POLICY_SLOT" "i \<notin> set xs" and w: "0 < w" "w \<le> u32_max"
  obtains q' L' where "queue_push_back i w q L = Some (q', L')" "queue_wf L' q' (xs @ [i])" "lk_weight (L' ! i) = w" "length L' = length L"
    "\<And>j. j \<noteq> i \<Longrightarrow> lk_weight (L' ! j) = lk_weight (L ! j)" "\<And>j. j \<notin> set (xs @ [i]) \<Longrightarrow> L' ! j = L ! j"
proof -
  have l: "linked L xs" and t: "pq_head q = first_of xs" "pq_tail q = last_of xs" "pq_bytes q = weights L xs"
    using q by (auto simp: queue_wf_def)
  note p = linked_push [OF l i w]
  let ?L = "push_link L (last_of xs) i w"
  have e: "last_of xs = NO_POLICY_SLOT \<longleftrightarrow> xs = []" by (rule linked_ends(2) [OF l])
  have tl: "xs \<noteq> [] \<Longrightarrow> last_of xs < length L" using linkedD(2) [OF l, of "last xs"] by (simp add: last_of_last)
  have b: "saturating_add usize_max (weights L xs) w = weights L xs + w"
    using linked_weights_bound [OF l w(2)] by (simp add: saturating_add_def)
  have tf: "try_from u32_max i = Some i" "try_from u32_max w = Some w" using i(2) w(2) by (simp_all add: NO_POLICY_SLOT_def)
  have wt: "weights ?L xs = weights L xs" by (rule weights_cong, rule p(3)) (use i(3) in blast)
  have "queue_push_back i w q L = Some (\<lparr>pq_head = first_of (xs @ [i]), pq_tail = i, pq_bytes = weights L xs + w\<rparr>, ?L)"
    using i w(2) tl using b by (cases "xs = []")
      (simp_all add: queue_push_back_def t e tf push_link_def Let_def update_at_def first_of_def hd_append)
  moreover have "queue_wf ?L \<lparr>pq_head = first_of (xs @ [i]), pq_tail = i, pq_bytes = weights L xs + w\<rparr> (xs @ [i])"
    using p(1,2) wt by (simp add: queue_wf_def)
  ultimately show ?thesis using that p by simp
qed

lemma queue_remove_ok:
  assumes q: "queue_wf L q (ys @ i # zs)"
  obtains q' L' where "queue_remove i q L = Some (lk_weight (L ! i), q', L')" "queue_wf L' q' (ys @ zs)" "L' ! i = default_link" "length L' = length L"
    "\<And>j. j \<noteq> i \<Longrightarrow> lk_weight (L' ! j) = lk_weight (L ! j)" "\<And>j. j \<notin> set (ys @ i # zs) \<Longrightarrow> L' ! j = L ! j"
proof -
  have l: "linked L (ys @ i # zs)" and t: "pq_head q = first_of (ys @ [i])" "pq_tail q = last_of (i # zs)" "pq_bytes q = weights L (ys @ i # zs)"
    using q first_of_prefix [of ys i zs] by (auto simp: queue_wf_def)
  note at = linked_at [OF l]
  let ?L = "(cut_link L i)[i := default_link]"
  note c = linked_cut [OF l]
  have i: "i < length L" "i \<le> u32_max" using linkedD(2) [OF l, of i] by (auto simp: NO_POLICY_SLOT_def)
  have lt: "x \<in> set ys \<union> set zs \<Longrightarrow> x < NO_POLICY_SLOT \<and> x < length L" for x using linkedD(2) [OF l, of x] by auto
  have e: "first_of zs = NO_POLICY_SLOT \<longleftrightarrow> zs = []" "last_of ys = NO_POLICY_SLOT \<longleftrightarrow> ys = []"
    by (rule bounded_ends; use lt in auto)+
  have lens: "zs \<noteq> [] \<Longrightarrow> first_of zs < length L" "ys \<noteq> [] \<Longrightarrow> last_of ys < length L"
    using lt [of "hd zs"] lt [of "last ys"] by (auto simp: first_of_def last_of_last)
  let ?q = "\<lparr>pq_head = first_of (ys @ zs), pq_tail = last_of (ys @ zs), pq_bytes = weights L (ys @ zs)\<rparr>"
  have hd: "(if ys = [] then first_of zs else first_of (ys @ [i])) = first_of (ys @ zs)"
    "(if zs = [] then last_of ys else last_of (i # zs)) = last_of (ys @ zs)"
    by (auto simp: first_of_def last_of_def hd_append)
  have "queue_remove i q L = Some (lk_weight (L ! i), ?q, ?L)"
    using i lens hd by (cases "ys = []"; cases "zs = []")
      (simp_all add: queue_remove_def at t e cut_link_def Let_def update_at_def get_at_def try_from_def)
  moreover have "weights ?L (ys @ zs) = weights L (ys @ zs)"
    using c(2) linkedD(1) [OF l] i(1) by (intro weights_cong) (auto simp: nth_list_update)
  then have "queue_wf ?L ?q (ys @ zs)" using c(1) by (simp add: queue_wf_def)
  ultimately show ?thesis
  proof (rule that)
    show "?L ! i = default_link" "length ?L = length L" using i(1) by simp_all
    show "lk_weight (?L ! j) = lk_weight (L ! j)" if "j \<noteq> i" for j using that c(2) by simp
    show "?L ! j = L ! j" if "j \<notin> set (ys @ i # zs)" for j using that c(3) [of j] by simp
  qed
qed

lemma queue_move_to_back_ok:
  assumes q: "queue_wf L q (ys @ i # zs)"
  obtains q' L' where "queue_move_to_back i q L = Some (q', L')" "queue_wf L' q' (ys @ zs @ [i])" "length L' = length L"
    "\<And>j. lk_weight (L' ! j) = lk_weight (L ! j)" "\<And>j. j \<notin> set (ys @ i # zs) \<Longrightarrow> L' ! j = L ! j"
proof -
  have l: "linked L (ys @ i # zs)" and t: "pq_tail q = last_of (i # zs)" using q by (auto simp: queue_wf_def)
  have i: "i < length L" "i < NO_POLICY_SLOT" "i \<le> u32_max" "i \<notin> set (ys @ zs)" "0 < lk_weight (L ! i)" "lk_weight (L ! i) \<le> u32_max"
    using linkedD(1) [OF l] linkedD(2) [OF l, of i] by (auto simp: NO_POLICY_SLOT_def)
  show ?thesis
  proof (cases zs rule: rev_cases)
    case Nil
    then show ?thesis using i(3) q by (intro that [of q L]) (simp_all add: queue_move_to_back_def t last_of_def try_from_def)
  next
    case (snoc us u)
    then have ne: "pq_tail q \<noteq> i" using i(4) by (simp add: t last_of_def)
    obtain q1 L1 where r: "queue_remove i q L = Some (lk_weight (L ! i), q1, L1)" "queue_wf L1 q1 (ys @ zs)" "L1 ! i = default_link" "length L1 = length L"
      "\<And>j. j \<noteq> i \<Longrightarrow> lk_weight (L1 ! j) = lk_weight (L ! j)" "\<And>j. j \<notin> set (ys @ i # zs) \<Longrightarrow> L1 ! j = L ! j"
      by (rule queue_remove_ok [OF q]) (rule that)
    obtain q2 L2 where p: "queue_push_back i (lk_weight (L ! i)) q1 L1 = Some (q2, L2)" "queue_wf L2 q2 ((ys @ zs) @ [i])" "lk_weight (L2 ! i) = lk_weight (L ! i)"
      "length L2 = length L1" "\<And>j. j \<noteq> i \<Longrightarrow> lk_weight (L2 ! j) = lk_weight (L1 ! j)" "\<And>j. j \<notin> set ((ys @ zs) @ [i]) \<Longrightarrow> L2 ! j = L1 ! j"
      by (rule queue_push_back_ok [OF r(2) _ i(2,4,5,6)]) (use r(4) i(1) in \<open>auto intro: that\<close>)
    show ?thesis
    proof (rule that)
      show "queue_move_to_back i q L = Some (q2, L2)" using ne i(3) r(1) p(1) by (simp add: queue_move_to_back_def try_from_def)
      show "lk_weight (L2 ! j) = lk_weight (L ! j)" for j using p(3,5) r(5) by (cases "j = i") auto
    qed (use p r in auto)
  qed
qed

end
