(* ===== verification/Clock_Policy.thy ===== *)
theory Clock_Policy
  imports Policy_Queue Index_Layout
begin

text \<open>
  The CLOCK policy of \<^verbatim>\<open>memory/eviction.rs\<close>: a dense array of resident slot indices, each slot knowing its
  position, and a hand that clears visited bits. The invariant is that the array and the positions are
  inverse to each other and list exactly the resident slots.
\<close>

section \<open>The code\<close>

text \<open>One step of the scan budget of an admission.\<close>

definition maximum_scan_steps :: "nat \<Rightarrow> nat" where
  "maximum_scan_steps slots = min (saturating_add usize_max (min usize_max (slots * 2)) 1) MAX_POLICY_SCAN_STEPS"

definition take_scan_step :: "nat \<Rightarrow> bool \<times> nat" where
  "take_scan_step remaining = (if remaining = 0 then (False, remaining) else (True, remaining - 1))"

record clock_state =
  ck_hand :: nat
  ck_residents :: "nat list"
  ck_capacity :: nat

definition clock_new :: "allocator \<Rightarrow> nat \<Rightarrow> io_error + clock_state" where
  "clock_new alloc maximum_entries =
     (if \<not> alloc maximum_entries then Inl (IoError OutOfMemory ''cannot allocate CLOCK resident positions'')
      else Inr \<lparr>ck_hand = 0, ck_residents = [], ck_capacity = maximum_entries\<rparr>)"

definition clock_allocation_bytes :: "nat \<Rightarrow> io_error + nat" where
  "clock_allocation_bytes maximum_entries =
     ok_or (IoError InvalidInput ''CLOCK is too large'') (checked_mul usize_max maximum_entries 4)"

definition clock_insert :: "nat \<Rightarrow> u64 \<Rightarrow> bool \<Rightarrow> clock_state \<Rightarrow> policy_slot list \<Rightarrow> (clock_state \<times> policy_slot list) option" where
  "clock_insert index hash visited st slots =
     (if \<not> (length (ck_residents st) < length slots \<and> length (ck_residents st) < ck_capacity st) then None
      else do {
        position \<leftarrow> try_from u32_max (length (ck_residents st));
        packed_index \<leftarrow> try_from u32_max index;
        slots \<leftarrow> update_at slots index (\<lambda>_. new_clock hash visited position);
        Some (st\<lparr>ck_residents := ck_residents st @ [packed_index]\<rparr>, slots)
      })"

definition clock_remove :: "nat \<Rightarrow> clock_state \<Rightarrow> policy_slot list \<Rightarrow> (clock_state \<times> policy_slot list) option" where
  "clock_remove index st slots = do {
     slot \<leftarrow> get_at slots index;
     let position = ps_clock_position slot;
     _ \<leftarrow> get_at (ck_residents st) position;
     let residents = swap_remove (ck_residents st) position;
     slots \<leftarrow> (if position < length residents then do {
                  packed \<leftarrow> try_from u32_max position;
                  update_at slots (residents ! position) (set_clock_position packed)
                } else Some slots);
     slots \<leftarrow> update_at slots index (\<lambda>_. default_policy_slot);
     Some (st\<lparr>ck_residents := residents, ck_hand := (if ck_hand st \<ge> length residents then 0 else ck_hand st)\<rparr>, slots)
   }"

fun clock_scan ::
    "nat \<Rightarrow> (nat \<Rightarrow> bool option) \<Rightarrow> nat \<Rightarrow> clock_state \<Rightarrow> policy_slot list \<Rightarrow> (nat option \<times> nat \<times> clock_state \<times> policy_slot list) option" where
  "clock_scan 0 can_reclaim remaining st slots = Some (None, remaining, st, slots)"
| "clock_scan (Suc n) can_reclaim remaining st slots =
     (if ck_residents st = [] then Some (None, remaining, st, slots)
      else case take_scan_step remaining of
        (False, remaining) \<Rightarrow> Some (None, remaining, st, slots)
      | (True, remaining) \<Rightarrow> do {
          let position = (if ck_hand st < length (ck_residents st) then ck_hand st else 0);
          let st = st\<lparr>ck_hand := (if position + 1 = length (ck_residents st) then 0 else position + 1)\<rparr>;
          index \<leftarrow> get_at (ck_residents st) position;
          slot \<leftarrow> get_at slots index;
          if clock_visited slot then clock_scan n can_reclaim remaining st (slots[index := set_clock_visited False slot])
          else do {
            reclaim \<leftarrow> can_reclaim index;
            if reclaim then Some (Some index, remaining, st, slots)
            else clock_scan n can_reclaim remaining st slots
          }
        })"

definition clock_select_victim ::
    "(nat \<Rightarrow> bool option) \<Rightarrow> nat \<Rightarrow> clock_state \<Rightarrow> policy_slot list \<Rightarrow> (nat option \<times> nat \<times> clock_state \<times> policy_slot list) option" where
  "clock_select_victim can_reclaim remaining st slots =
     clock_scan (maximum_scan_steps (length (ck_residents st))) can_reclaim remaining st slots"

section \<open>The invariant\<close>


text \<open>
  \<open>entry_map\<close>: the resident slots, each with the hash and the weight of its entry. \<open>holds_entries\<close> is what every
  policy keeps of the shared slot array.
\<close>

type_synonym entry_map = "nat \<rightharpoonup> u64 \<times> nat"

definition weight_ok :: "nat \<Rightarrow> bool" where
  "weight_ok w \<longleftrightarrow> 0 < w \<and> w \<le> u32_max"

definition holds_entries :: "policy_slot list \<Rightarrow> entry_map \<Rightarrow> bool" where
  "holds_entries slots R \<longleftrightarrow> length slots < NO_POLICY_SLOT \<and> dom R \<subseteq> {..< length slots}
     \<and> (\<forall>i < length slots. is_resident (slots ! i) \<longleftrightarrow> i \<in> dom R)
     \<and> (\<forall>i h w. R i = Some (h, w) \<longrightarrow> ps_hash (slots ! i) = h \<and> weight_ok w)"

lemma holds_entriesD:
  assumes "holds_entries slots R"
  shows "length slots < NO_POLICY_SLOT" "i \<in> dom R \<Longrightarrow> i < length slots" "i < length slots \<Longrightarrow> is_resident (slots ! i) \<longleftrightarrow> i \<in> dom R"
    "R i = Some (h, w) \<Longrightarrow> ps_hash (slots ! i) = h \<and> weight_ok w"
  using assms by (auto simp: holds_entries_def)

text \<open>Two slot arrays that differ at most on the residents.\<close>

definition same_outside :: "nat set \<Rightarrow> policy_slot list \<Rightarrow> policy_slot list \<Rightarrow> bool" where
  "same_outside A slots slots' \<longleftrightarrow> length slots' = length slots \<and> (\<forall>i. i \<notin> A \<longrightarrow> slots' ! i = slots ! i)"

lemma same_outside_refl [simp]: "same_outside A slots slots"
  by (simp add: same_outside_def)

lemma same_outside_trans: "same_outside A s t \<Longrightarrow> same_outside A t u \<Longrightarrow> same_outside A s u"
  by (simp add: same_outside_def)

lemma same_outside_mono: "same_outside A s t \<Longrightarrow> A \<subseteq> B \<Longrightarrow> same_outside B s t"
  by (auto simp: same_outside_def)

lemma same_outside_update: "i \<in> A \<Longrightarrow> same_outside A s (s[i := v])"
  unfolding same_outside_def by (metis length_list_update nth_list_update_neq)

lemma holds_entries_update:
  "holds_entries slots R \<Longrightarrow> R i = Some (h, w) \<Longrightarrow> is_resident s \<Longrightarrow> ps_hash s = h \<Longrightarrow> holds_entries (slots[i := s]) R"
  by (auto simp: holds_entries_def nth_update)

lemma holds_entries_add:
  "holds_entries slots R \<Longrightarrow> i < length slots \<Longrightarrow> is_resident s \<Longrightarrow> ps_hash s = h \<Longrightarrow> weight_ok w \<Longrightarrow>
     holds_entries (slots[i := s]) (R(i \<mapsto> (h, w)))"
  by (auto simp: holds_entries_def nth_update)

lemma holds_entries_del:
  "holds_entries slots R \<Longrightarrow> i < length slots \<Longrightarrow> \<not> is_resident s \<Longrightarrow> holds_entries (slots[i := s]) (R(i := None))"
  by (auto simp: holds_entries_def nth_update split: if_splits)

definition clock_wf :: "clock_state \<Rightarrow> policy_slot list \<Rightarrow> entry_map \<Rightarrow> bool" where
  "clock_wf st slots R \<longleftrightarrow> holds_entries slots R \<and> ck_capacity st = length slots
     \<and> distinct (ck_residents st) \<and> set (ck_residents st) = dom R
     \<and> (\<forall>p < length (ck_residents st). ps_clock_position (slots ! (ck_residents st ! p)) = p)"

lemma clock_wfD:
  assumes "clock_wf st slots R"
  shows "holds_entries slots R" "ck_capacity st = length slots" "distinct (ck_residents st)" "set (ck_residents st) = dom R"
    "\<And>p. p < length (ck_residents st) \<Longrightarrow> ps_clock_position (slots ! (ck_residents st ! p)) = p"
  using assms by (auto simp: clock_wf_def)

section \<open>Every operation keeps it\<close>

lemma clock_insert_ok:
  assumes wf: "clock_wf st slots R" and i: "i < length slots" "R i = None" and w: "weight_ok w"
  obtains st' slots' where "clock_insert i hash visited st slots = Some (st', slots')" "clock_wf st' slots' (R(i \<mapsto> (hash, w)))"
    "same_outside {i} slots slots'"
proof -
  note h = clock_wfD [OF wf]
  have sub: "set (ck_residents st) \<subseteq> {..< length slots} - {i}" using h(4) holds_entriesD(2) [OF h(1)] i(2) by fastforce
  have "length (ck_residents st) = card (set (ck_residents st))" using h(3) by (simp add: distinct_card)
  also have "\<dots> \<le> card ({..< length slots} - {i})" using sub by (intro card_mono) auto
  also have "\<dots> < length slots" using i(1) by (simp add: card_Diff_subset)
  finally have len: "length (ck_residents st) < length slots" .
  have bound: "length slots < u32_max" using holds_entriesD(1) [OF h(1)] by (simp add: NO_POLICY_SLOT_def)
  have ne: "ck_residents st ! p \<noteq> i" if "p < length (ck_residents st)" for p using nth_mem [OF that] sub by auto
  let ?slots = "slots[i := new_clock hash visited (length (ck_residents st))]"
  let ?st = "st\<lparr>ck_residents := ck_residents st @ [i]\<rparr>"
  have "clock_insert i hash visited st slots = Some (?st, ?slots)"
    using len i bound by (simp add: clock_insert_def h(2) try_from_def update_at_def)
  moreover have "clock_wf ?st ?slots (R(i \<mapsto> (hash, w)))"
    unfolding clock_wf_def using h holds_entries_add [OF h(1) i(1) _ _ w] ne [THEN not_sym] i
    by (auto simp: policy_flags nth_append nth_update less_Suc_eq)
  ultimately show ?thesis by (rule that) (simp add: same_outside_update)
qed

lemma clock_remove_ok:
  assumes wf: "clock_wf st slots R" and i: "i \<in> dom R"
  obtains st' slots' where "clock_remove i st slots = Some (st', slots')" "clock_wf st' slots' (R(i := None))"
    "same_outside (dom R) slots slots'"
proof -
  note h = clock_wfD [OF wf]
  let ?rs = "ck_residents st"
  obtain p where p: "p < length ?rs" "?rs ! p = i" using i h(4) by (metis in_set_conv_nth)
  have pos: "ps_clock_position (slots ! i) = p" using h(5) [OF p(1)] p(2) by simp
  have il: "i < length slots" using holds_entriesD(2) [OF h(1) i] .
  let ?r = "swap_remove ?rs p"
  note sr = swap_remove_nth [OF p(1)]
  note sd = set_swap_remove_distinct [OF p(1) h(3), unfolded p(2)]
  have in_dom: "?r ! k \<in> dom R" "?r ! k < length slots" "?r ! k \<noteq> i" if "k < length ?r" for k
    using nth_mem [OF that] sd(2) h(4) holds_entriesD(2) [OF h(1)] by auto
  have "length ?rs \<le> NO_POLICY_SLOT"
    using distinct_bounded_length [OF h(3), of "length slots"] holds_entriesD(1,2) [OF h(1)] h(4) by (auto intro: order.trans)
  then have pu: "p \<le> u32_max" using p(1) by (simp add: NO_POLICY_SLOT_def)
  let ?s1 = "if p < length ?r then slots[?r ! p := set_clock_position p (slots ! (?r ! p))] else slots"
  let ?st = "st\<lparr>ck_residents := ?r, ck_hand := (if ck_hand st \<ge> length ?r then 0 else ck_hand st)\<rparr>"
  have run: "clock_remove i st slots = Some (?st, ?s1[i := default_policy_slot])"
    using il p(1) pu in_dom(2) [of p] by (simp add: clock_remove_def pos get_at_def update_at_def try_from_def Let_def)
  have s1: "holds_entries ?s1 R"
  proof (cases "p < length ?r")
    case True
    then obtain h' w' where "R (?r ! p) = Some (h', w')" using in_dom(1) [of p] by auto
    then show ?thesis using True holds_entries_update [OF h(1)] holds_entriesD(3,4) [OF h(1)] in_dom(1,2) [of p]
      by (simp add: policy_flags)
  qed (use h(1) in simp)
  have len1: "length ?s1 = length slots" by simp
  have "ps_clock_position (?s1[i := default_policy_slot] ! (?r ! k)) = k" if k: "k < length ?r" for k
  proof -
    have ne: "?r ! k \<noteq> i" by (rule in_dom(3) [OF k])
    show ?thesis
    proof (cases "k = p")
      case True
      then show ?thesis using k ne in_dom(2) [OF k] by (simp add: policy_flags)
    next
      case False
      have "?r ! k \<noteq> ?r ! p" if "p < length ?r" using False k that sd(1) by (simp add: nth_eq_iff_index_eq)
      then show ?thesis using h(5) [of k] k False sr ne by (auto simp: nth_update)
    qed
  qed
  then have "clock_wf ?st (?s1[i := default_policy_slot]) (R(i := None))"
    unfolding clock_wf_def using holds_entries_del [OF s1, of i default_policy_slot] il h(2,4) sd
    by (auto simp: policy_flags len1)
  moreover have "same_outside (dom R) slots (?s1[i := default_policy_slot])"
    using in_dom(1) [of p] i by (auto simp: same_outside_def nth_update)
  ultimately show ?thesis by (rule that [OF run])
qed

lemma clock_scan_ok:
  assumes "clock_wf st slots R" and can: "\<forall>i \<in> dom R. can i \<noteq> None"
  shows "\<exists>r m st' slots'. clock_scan n can remaining st slots = Some (r, m, st', slots') \<and> clock_wf st' slots' R
    \<and> same_outside (dom R) slots slots' \<and> m \<le> remaining \<and> (\<forall>i. r = Some i \<longrightarrow> i \<in> dom R \<and> can i = Some True)"
  using assms(1)
proof (induction n arbitrary: remaining st slots)
  case (Suc n)
  note h = clock_wfD [OF Suc.prems]
  show ?case
  proof (cases "ck_residents st = [] \<or> remaining = 0")
    case True
    then show ?thesis using Suc.prems by (auto simp: take_scan_step_def)
  next
    case False
    let ?p = "if ck_hand st < length (ck_residents st) then ck_hand st else 0"
    let ?st = "st\<lparr>ck_hand := (if ?p + 1 = length (ck_residents st) then 0 else ?p + 1)\<rparr>"
    let ?i = "ck_residents st ! ?p"
    have p: "?p < length (ck_residents st)" using False by auto
    then have i: "?i \<in> dom R" using h(4) by (metis nth_mem)
    then have il: "?i < length slots" using holds_entriesD(2) [OF h(1)] by blast
    obtain b where b: "can ?i = Some b" using bspec [OF can i] by auto
    have wf: "clock_wf ?st slots R" using Suc.prems by (simp add: clock_wf_def)
    have wf': "clock_wf ?st (slots[?i := set_clock_visited False (slots ! ?i)]) R"
    proof -
      obtain h' w' where R: "R ?i = Some (h', w')" using i by auto
      have "holds_entries (slots[?i := set_clock_visited False (slots ! ?i)]) R"
        using holds_entries_update [OF h(1) R] holds_entriesD(3) [OF h(1) il] holds_entriesD(4) [OF h(1) R] i by (simp add: policy_flags)
      then show ?thesis using wf by (auto simp: clock_wf_def nth_update policy_flags)
    qed
    have step: "clock_scan (Suc n) can remaining st slots =
        (if clock_visited (slots ! ?i) then clock_scan n can (remaining - 1) ?st (slots[?i := set_clock_visited False (slots ! ?i)])
         else if b then Some (Some ?i, remaining - 1, ?st, slots) else clock_scan n can (remaining - 1) ?st slots)"
      using False p il b by (auto simp: take_scan_step_def get_at_def Let_def)
    let ?slots = "slots[?i := set_clock_visited False (slots ! ?i)]"
    have le: "m \<le> remaining" if "m \<le> remaining - 1" for m using that by simp
    consider "clock_visited (slots ! ?i)" | "\<not> clock_visited (slots ! ?i)" "b" | "\<not> clock_visited (slots ! ?i)" "\<not> b" by blast
    then show ?thesis
    proof cases
      case 1
      obtain r m st' slots' where "clock_scan n can (remaining - 1) ?st ?slots = Some (r, m, st', slots')" "clock_wf st' slots' R"
        "same_outside (dom R) ?slots slots'" "m \<le> remaining - 1" "\<forall>i. r = Some i \<longrightarrow> i \<in> dom R \<and> can i = Some True"
        using Suc.IH [OF wf', of "remaining - 1"] by (elim exE conjE) (rule that)
      with 1 le same_outside_trans [OF same_outside_update [OF i]] show ?thesis unfolding step by simp
    next
      case 2
      with i b wf show ?thesis unfolding step by simp
    next
      case 3
      obtain r m st' slots' where "clock_scan n can (remaining - 1) ?st slots = Some (r, m, st', slots')" "clock_wf st' slots' R"
        "same_outside (dom R) slots slots'" "m \<le> remaining - 1" "\<forall>i. r = Some i \<longrightarrow> i \<in> dom R \<and> can i = Some True"
        using Suc.IH [OF wf, of "remaining - 1"] by (elim exE conjE) (rule that)
      with 3 le show ?thesis unfolding step by simp
    qed
  qed
qed simp

end
