(* ===== verification/Ghost_Queue.thy ===== *)
theory Ghost_Queue
  imports Policy_Queue Index_Layout
begin

text \<open>
  The ghost queue of S3-FIFO (\<^verbatim>\<open>memory/eviction.rs\<close>): the hashes of entries recently evicted from the small
  queue, in a fixed array with a free list, a FIFO threaded through links, a byte bound, and the fixed
  directory from fingerprints to positions. It never answers a hit for a hash that was not inserted.
\<close>

section \<open>The code\<close>

definition fixed_map_io_error :: "fixed_map_error \<Rightarrow> io_error" where
  "fixed_map_io_error e = (case e of
     FixedMapTooLarge \<Rightarrow> IoError InvalidInput ''fixed map is too large''
   | FixedMapOutOfMemory \<Rightarrow> IoError OutOfMemory ''cannot allocate fixed prehashed map'')"

record ghost_queue =
  gq_directory :: fixed_map
  gq_hashes :: "u64 list"
  gq_links :: "s3fifo_link list"
  gq_free_head :: nat
  gq_free_count :: nat
  gq_head :: nat
  gq_tail :: nat
  gq_bytes :: nat
  gq_capacity_bytes :: nat

text \<open>The links of a free list in index order; \<open>None\<close> is the panic of an index that does not fit.\<close>

definition free_next_links :: "nat \<Rightarrow> nat list option" where
  "free_next_links maximum_entries =
     those (map (\<lambda>index. if index + 1 = maximum_entries then Some NO_POLICY_SLOT else try_from u32_max (index + 1)) [0..<maximum_entries])"

definition ghost_new :: "allocator \<Rightarrow> nat \<Rightarrow> nat \<Rightarrow> (io_error + ghost_queue) option" where
  "ghost_new alloc maximum_entries capacity_bytes =
     (case map_err fixed_map_io_error (fixed_map_try_new alloc maximum_entries) of
        Inl e \<Rightarrow> Some (Inl e)
      | Inr dir \<Rightarrow>
          if \<not> alloc maximum_entries then Some (Inl (IoError OutOfMemory ''cannot allocate S3-FIFO ghost hashes''))
          else if \<not> alloc maximum_entries then Some (Inl (IoError OutOfMemory ''cannot allocate S3-FIFO ghost links''))
          else do {
            nexts \<leftarrow> free_next_links maximum_entries;
            Some (Inr \<lparr>gq_directory = dir, gq_hashes = replicate maximum_entries 0,
              gq_links = map (\<lambda>n. default_link\<lparr>lk_next := n\<rparr>) nexts,
              gq_free_head = (if maximum_entries = 0 then NO_POLICY_SLOT else 0), gq_free_count = maximum_entries,
              gq_head = NO_POLICY_SLOT, gq_tail = NO_POLICY_SLOT, gq_bytes = 0, gq_capacity_bytes = capacity_bytes\<rparr>)
          })"

definition ghost_allocation_bytes :: "nat \<Rightarrow> io_error + nat" where
  "ghost_allocation_bytes maximum_entries =
     bind_result (ok_or (IoError InvalidInput ''ghost queue is too large'') (checked_mul usize_max maximum_entries 8)) (\<lambda>hashes.
     bind_result (ok_or (IoError InvalidInput ''ghost queue is too large'') (checked_mul usize_max maximum_entries 12)) (\<lambda>links.
     bind_result (map_err fixed_map_io_error (fixed_map_allocation_bytes maximum_entries)) (\<lambda>dir.
     ok_or (IoError InvalidInput ''ghost queue is too large'')
       (Option.bind (checked_add usize_max dir hashes) (\<lambda>b. checked_add usize_max b links)))))"

definition ghost_head_index :: "ghost_queue \<Rightarrow> nat option" where
  "ghost_head_index g = (if gq_head g \<noteq> NO_POLICY_SLOT then Some (gq_head g) else None)"

definition ghost_unlink :: "nat \<Rightarrow> ghost_queue \<Rightarrow> ghost_queue option" where
  "ghost_unlink index g = do {
     packed \<leftarrow> try_from u32_max index;
     link \<leftarrow> get_at (gq_links g) index;
     g \<leftarrow> (if lk_previous link = NO_POLICY_SLOT then Some (g\<lparr>gq_head := lk_next link\<rparr>)
            else map_option (\<lambda>ls. g\<lparr>gq_links := ls\<rparr>) (update_at (gq_links g) (lk_previous link) (\<lambda>l. l\<lparr>lk_next := lk_next link\<rparr>)));
     g \<leftarrow> (if lk_next link = NO_POLICY_SLOT then Some (g\<lparr>gq_tail := lk_previous link\<rparr>)
            else map_option (\<lambda>ls. g\<lparr>gq_links := ls\<rparr>) (update_at (gq_links g) (lk_next link) (\<lambda>l. l\<lparr>lk_previous := lk_previous link\<rparr>)));
     hashes \<leftarrow> update_at (gq_hashes g) index (\<lambda>_. 0);
     links \<leftarrow> update_at (gq_links g) index (\<lambda>_. default_link\<lparr>lk_next := gq_free_head g\<rparr>);
     Some (g\<lparr>gq_bytes := gq_bytes g - lk_weight link, gq_hashes := hashes, gq_links := links,
       gq_free_head := packed, gq_free_count := gq_free_count g + 1\<rparr>)
   }"

definition ghost_take :: "u64 \<Rightarrow> ghost_queue \<Rightarrow> (bool \<times> ghost_queue) option" where
  "ghost_take hash g =
     (case fixed_map_remove hash (gq_directory g) of
        (None, dir) \<Rightarrow> Some (False, g\<lparr>gq_directory := dir\<rparr>)
      | (Some packed, dir) \<Rightarrow> do {
          stored \<leftarrow> get_at (gq_hashes g) (unat packed);
          g \<leftarrow> ghost_unlink (unat packed) (g\<lparr>gq_directory := dir\<rparr>);
          Some (stored = hash, g)
        })"

definition ghost_remove_head :: "ghost_queue \<Rightarrow> (bool \<times> ghost_queue) option" where
  "ghost_remove_head g =
     (case ghost_head_index g of
        None \<Rightarrow> Some (False, g)
      | Some index \<Rightarrow> do {
          hash \<leftarrow> get_at (gq_hashes g) index;
          g \<leftarrow> ghost_unlink index (g\<lparr>gq_directory := snd (fixed_map_remove hash (gq_directory g))\<rparr>);
          Some (True, g)
        })"

text \<open>
  The insertion: the guards, the room that one removal at the head can make (\<open>None\<close> inside the result when the
  insertion is skipped), and the link and directory entry of the new position.
\<close>

definition ghost_make_room :: "nat \<Rightarrow> ghost_queue \<Rightarrow> (ghost_queue option) option" where
  "ghost_make_room weight g =
     (if gq_free_head g = NO_POLICY_SLOT \<or> saturating_add usize_max (gq_bytes g) weight > gq_capacity_bytes g then
        (case ghost_head_index g of
           None \<Rightarrow> Some None
         | Some head \<Rightarrow> do {
             link \<leftarrow> get_at (gq_links g) head;
             if saturating_add usize_max (gq_bytes g - lk_weight link) weight > gq_capacity_bytes g then Some None
             else do { (_, g) \<leftarrow> ghost_remove_head g; Some (Some g) }
           })
      else Some (Some g))"

definition ghost_append :: "u64 \<Rightarrow> nat \<Rightarrow> ghost_queue \<Rightarrow> (nat \<times> ghost_queue) option" where
  "ghost_append hash weight g = do {
     let index = gq_free_head g;
     link \<leftarrow> get_at (gq_links g) index;
     hashes \<leftarrow> update_at (gq_hashes g) index (\<lambda>_. hash);
     links \<leftarrow> update_at (gq_links g) index (\<lambda>_. \<lparr>lk_previous = gq_tail g, lk_next = NO_POLICY_SLOT, lk_weight = weight\<rparr>);
     (head, links) \<leftarrow> (if gq_tail g = NO_POLICY_SLOT then Some (index, links)
       else map_option (Pair (gq_head g)) (update_at links (gq_tail g) (\<lambda>l. l\<lparr>lk_next := index\<rparr>)));
     Some (index, g\<lparr>gq_free_head := lk_next link, gq_free_count := gq_free_count g - 1, gq_hashes := hashes, gq_links := links,
       gq_head := head, gq_tail := index, gq_bytes := saturating_add usize_max (gq_bytes g) weight\<rparr>)
   }"

text \<open>The directory entry of an appended position, in the three outcomes of the directory.\<close>

definition ghost_publish :: "u64 \<Rightarrow> nat \<Rightarrow> ghost_queue \<Rightarrow> ghost_queue option" where
  "ghost_publish hash index g =
     (case fixed_map_insert hash (of_nat index) (gq_directory g) of
        (Some (Some previous), dir) \<Rightarrow> ghost_unlink (unat previous) (g\<lparr>gq_directory := dir\<rparr>)
      | (Some None, dir) \<Rightarrow> Some (g\<lparr>gq_directory := dir\<rparr>)
      | (None, dir) \<Rightarrow> ghost_unlink index (g\<lparr>gq_directory := dir\<rparr>))"

definition ghost_insert :: "u64 \<Rightarrow> nat \<Rightarrow> ghost_queue \<Rightarrow> ghost_queue option" where
  "ghost_insert hash weight g =
     (case try_from u32_max weight of
        None \<Rightarrow> Some g
      | Some packed_weight \<Rightarrow>
          if packed_weight = 0 \<or> weight > gq_capacity_bytes g \<or> gq_links g = [] \<or> gq_capacity_bytes g = 0 then Some g
          else do {
            room \<leftarrow> ghost_make_room weight g;
            case room of
              None \<Rightarrow> Some g
            | Some g \<Rightarrow> do {
                (index, g) \<leftarrow> ghost_append hash weight g;
                ghost_publish hash index g
              }
          })"

section \<open>The invariant\<close>

text \<open>\<open>ghost_lists\<close>: the queue and the free list share the positions; \<open>ghost_directory\<close>: the directory lists the queue.\<close>

definition ghost_lists :: "ghost_queue \<Rightarrow> nat list \<Rightarrow> nat list \<Rightarrow> bool" where
  "ghost_lists g xs fs \<longleftrightarrow> length (gq_hashes g) = length (gq_links g) \<and> length (gq_links g) < NO_POLICY_SLOT
     \<and> linked (gq_links g) xs \<and> gq_head g = first_of xs \<and> gq_tail g = last_of xs
     \<and> gq_bytes g = weights (gq_links g) xs
     \<and> path (\<lambda>i. lk_next (gq_links g ! i)) fs NO_POLICY_SLOT \<and> distinct fs \<and> gq_free_head g = first_of fs
     \<and> gq_free_count g = length fs \<and> set fs = {..< length (gq_links g)} - set xs"

definition ghost_directory :: "fixed_map \<Rightarrow> u64 list \<Rightarrow> nat set \<Rightarrow> bool" where
  "ghost_directory dir hashes A \<longleftrightarrow> map_wf dir
     \<and> (\<forall>fp v. directory dir fp = Some v \<longleftrightarrow> unat v \<in> A \<and> fixed_map_fingerprint (hashes ! unat v) = fp)"

definition ghost_wf :: "ghost_queue \<Rightarrow> nat list \<Rightarrow> nat list \<Rightarrow> bool" where
  "ghost_wf g xs fs \<longleftrightarrow> ghost_lists g xs fs \<and> ghost_directory (gq_directory g) (gq_hashes g) (set xs) \<and> gq_bytes g \<le> gq_capacity_bytes g"

lemma ghost_listsD:
  assumes "ghost_lists g xs fs"
  shows "length (gq_hashes g) = length (gq_links g)" "length (gq_links g) < NO_POLICY_SLOT"
    "linked (gq_links g) xs" "gq_head g = first_of xs" "gq_tail g = last_of xs" "gq_bytes g = weights (gq_links g) xs"
    "path (\<lambda>i. lk_next (gq_links g ! i)) fs NO_POLICY_SLOT" "distinct fs" "gq_free_head g = first_of fs"
    "gq_free_count g = length fs" "set fs = {..< length (gq_links g)} - set xs"
  using assms by (simp_all add: ghost_lists_def)

lemma ghost_unlink_ok:
  assumes g: "ghost_lists g (ys @ i # zs) fs"
  obtains g' where "ghost_unlink i g = Some g'" "ghost_lists g' (ys @ zs) (i # fs)" "gq_hashes g' = (gq_hashes g)[i := 0]"
    "gq_directory g' = gq_directory g" "gq_capacity_bytes g' = gq_capacity_bytes g" "gq_bytes g' = gq_bytes g - lk_weight (gq_links g ! i)"
    "length (gq_links g') = length (gq_links g)"
proof -
  note h = ghost_listsD [OF g]
  note l = h(3)
  let ?L = "gq_links g"
  note at = linked_at [OF l] and c = linked_cut [OF l]
  have lt: "x \<in> set (ys @ i # zs) \<Longrightarrow> x < NO_POLICY_SLOT \<and> x < length ?L" for x using linkedD(2) [OF l, of x] by auto
  have i: "i < length ?L" "try_from u32_max i = Some i" using lt [of i] by (auto simp: NO_POLICY_SLOT_def try_from_def)
  have e: "first_of zs = NO_POLICY_SLOT \<longleftrightarrow> zs = []" "last_of ys = NO_POLICY_SLOT \<longleftrightarrow> ys = []"
    by (rule bounded_ends; use lt in auto)+
  have lens: "zs \<noteq> [] \<Longrightarrow> first_of zs < length ?L" "ys \<noteq> [] \<Longrightarrow> last_of ys < length ?L"
    using lt [of "hd zs"] lt [of "last ys"] by (auto simp: first_of_def last_of_last)
  let ?N = "(cut_link ?L i)[i := default_link\<lparr>lk_next := gq_free_head g\<rparr>]"
  let ?g = "g\<lparr>gq_head := first_of (ys @ zs), gq_tail := last_of (ys @ zs), gq_bytes := gq_bytes g - lk_weight (?L ! i),
      gq_hashes := (gq_hashes g)[i := 0], gq_links := ?N, gq_free_head := i, gq_free_count := gq_free_count g + 1\<rparr>"
  have hd: "(if ys = [] then first_of zs else first_of (ys @ i # zs)) = first_of (ys @ zs)"
    "(if zs = [] then last_of ys else last_of (ys @ i # zs)) = last_of (ys @ zs)"
    by (auto simp: first_of_def last_of_def hd_append)
  have run: "ghost_unlink i g = Some ?g"
    using i(1) lens hd h(1,4,5) at by (cases g; cases "ys = []"; cases "zs = []")
      (simp_all add: ghost_unlink_def e i(2) cut_link_def Let_def update_at_def get_at_def)
  have N: "?N ! j = (if j = i then default_link\<lparr>lk_next := gq_free_head g\<rparr> else cut_link ?L i ! j)" for j
    using i(1) by (auto simp: nth_list_update)
  have "weights ?N (ys @ zs) = weights ?L (ys @ zs)"
    using c(2) linkedD(1) [OF l] by (intro weights_cong) (auto simp: N)
  moreover have "path (\<lambda>j. lk_next (?N ! j)) fs NO_POLICY_SLOT"
    using h(7,11) c(3) by (subst path_cong [of _ _ "\<lambda>j. lk_next (?L ! j)"]) (auto simp: N)
  ultimately have "ghost_lists ?g (ys @ zs) (i # fs)"
    using h c(1) i(1) linkedD(1) [OF l] N [of i] first_of_def [of fs]
    by (auto simp: ghost_lists_def lt)
  with run show ?thesis by (rule that) simp_all
qed

lemma position_value: "i < n \<Longrightarrow> n < NO_POLICY_SLOT \<Longrightarrow> unat (of_nat i :: u32) = i \<and> (of_nat i :: u32) < DELETED_VALUE"
  by (simp add: NO_POLICY_SLOT_def u32_max_def DELETED_VALUE_def unat_of_nat word_less_nat_alt)

lemma ghost_directory_cong:
  "ghost_directory dir hashes A \<Longrightarrow> (\<And>i. i \<in> A \<Longrightarrow> hashes' ! i = hashes ! i) \<Longrightarrow> ghost_directory dir hashes' A"
  unfolding ghost_directory_def by metis

lemma ghost_directory_at:
  assumes "ghost_directory dir hashes A" "i \<in> A" "i < NO_POLICY_SLOT"
  shows "directory dir (fixed_map_fingerprint (hashes ! i)) = Some (of_nat i)"
proof -
  have "unat (of_nat i :: u32) = i" using assms(3) by (simp add: NO_POLICY_SLOT_def u32_max_def unat_of_nat)
  then show ?thesis using assms(1,2) unfolding ghost_directory_def by simp
qed

lemma ghost_directory_remove:
  assumes d: "ghost_directory dir hashes A" and r: "fixed_map_remove hash dir = (p, dir')"
  shows "p = directory dir (fixed_map_fingerprint hash)"
    "p = None \<Longrightarrow> ghost_directory dir' hashes A" "p = Some v \<Longrightarrow> unat v \<in> A \<and> ghost_directory dir' hashes (A - {unat v})"
proof -
  let ?fp = "fixed_map_fingerprint hash"
  have wf: "map_wf dir" using d by (simp add: ghost_directory_def)
  note l = fixed_map.remove_law [OF wf r]
  show p: "p = directory dir ?fp" using l by simp
  show "ghost_directory dir' hashes A" if "p = None"
    using d l that by (metis fun_upd_triv ghost_directory_def)
  show "unat v \<in> A \<and> ghost_directory dir' hashes (A - {unat v})" if v: "p = Some v"
  proof -
    have "unat v \<in> A" "fixed_map_fingerprint (hashes ! unat v) = ?fp" using d p v unfolding ghost_directory_def by metis+
    moreover have iff: "directory dir fp = Some u \<longleftrightarrow> unat u \<in> A \<and> fixed_map_fingerprint (hashes ! unat u) = fp" for fp u
      using d by (simp add: ghost_directory_def)
    have fp: "directory dir ?fp = Some v" using p v by simp
    have "directory dir' fp = Some u \<longleftrightarrow> unat u \<in> A - {unat v} \<and> fixed_map_fingerprint (hashes ! unat u) = fp" for fp u
    proof (cases "fp = ?fp")
      case True
      then show ?thesis using l fp iff [of ?fp u] by auto
    next
      case False
      then have "directory dir' fp = directory dir fp" using l by simp
      then show ?thesis using iff [of fp u] iff [of ?fp v] fp False by (auto simp: word_unat_eq_iff)
    qed
    ultimately show ?thesis using l by (simp add: ghost_directory_def)
  qed
qed

lemma ghost_directory_insert:
  assumes d: "ghost_directory dir hashes A" and i: "i \<notin> A" "i < n" "n < NO_POLICY_SLOT" "A \<subseteq> {..< n}" and h: "hashes ! i = hash"
    and r: "fixed_map_insert hash (of_nat i) dir = (p, dir')"
  shows "p = None \<Longrightarrow> ghost_directory dir' hashes A" "p = Some None \<Longrightarrow> ghost_directory dir' hashes (insert i A)"
    "p = Some (Some v) \<Longrightarrow> unat v \<in> A \<and> ghost_directory dir' hashes (insert i (A - {unat v}))"
proof -
  let ?fp = "fixed_map_fingerprint hash"
  have wf: "map_wf dir" using d by (simp add: ghost_directory_def)
  note pv = position_value [OF i(2,3)]
  show "ghost_directory dir' hashes A" if "p = None" using d fixed_map.refuse_law [OF wf, of hash "of_nat i" dir'] r that by simp
  have ins: "map_wf dir' \<and> q = directory dir ?fp \<and> directory dir' = (directory dir)(?fp \<mapsto> of_nat i)" if "p = Some q" for q
    using fixed_map.insert_law [OF wf, of "of_nat i" hash q dir'] pv r that by simp
  have iff: "directory dir fp = Some u \<longleftrightarrow> unat u \<in> A \<and> fixed_map_fingerprint (hashes ! unat u) = fp" for fp u
    using d by (simp add: ghost_directory_def)
  have eq: "u = of_nat i \<longleftrightarrow> unat u = i" for u :: u32 using pv by (metis word_unat_eq_iff)
  have new: "ghost_directory dir' hashes (insert i {x \<in> A. fixed_map_fingerprint (hashes ! x) \<noteq> ?fp})" if "p = Some q" for q
  proof -
    have "directory dir' fp = Some u \<longleftrightarrow> unat u \<in> insert i {x \<in> A. fixed_map_fingerprint (hashes ! x) \<noteq> ?fp}
        \<and> fixed_map_fingerprint (hashes ! unat u) = fp" for fp u
      using ins [OF that] iff eq [of u] h i(1) by (cases "fp = ?fp") auto
    then show ?thesis using ins [OF that] by (simp add: ghost_directory_def)
  qed
  have at: "directory dir (fixed_map_fingerprint (hashes ! x)) = Some (of_nat x)" "unat (of_nat x :: u32) = x" if "x \<in> A" for x
    using ghost_directory_at [OF d that] position_value [of x n] i(3,4) that by auto
  show "ghost_directory dir' hashes (insert i A)" if "p = Some None"
  proof -
    have "{x \<in> A. fixed_map_fingerprint (hashes ! x) \<noteq> ?fp} = A" using ins [OF that] at(1) by fastforce
    then show ?thesis using new [OF that] by simp
  qed
  show "unat v \<in> A \<and> ghost_directory dir' hashes (insert i (A - {unat v}))" if "p = Some (Some v)"
  proof -
    have v: "unat v \<in> A" "fixed_map_fingerprint (hashes ! unat v) = ?fp" using ins [OF that] iff [of ?fp v] by simp_all
    have "{x \<in> A. fixed_map_fingerprint (hashes ! x) \<noteq> ?fp} = A - {unat v}"
    proof (intro equalityI subsetI)
      fix x assume x: "x \<in> A - {unat v}"
      then have "fixed_map_fingerprint (hashes ! x) \<noteq> ?fp" using at [of x] ins [OF that] by auto
      then show "x \<in> {x \<in> A. fixed_map_fingerprint (hashes ! x) \<noteq> ?fp}" using x by simp
    qed (use v in auto)
    then show ?thesis using new [OF that] v(1) by simp
  qed
qed

section \<open>The operations\<close>

definition remembered :: "ghost_queue \<Rightarrow> nat list \<Rightarrow> u64 set" where
  "remembered g xs = (\<lambda>x. gq_hashes g ! x) ` set xs"

lemma ghost_positions: "ghost_lists g xs fs \<Longrightarrow> set xs \<subseteq> {..< length (gq_links g)}"
  using linkedD(2) [OF ghost_listsD(3)] by fastforce

lemma unlinked_wf:
  assumes l: "ghost_lists g xs fs" and i: "i \<in> set xs" and d: "ghost_directory (gq_directory g) (gq_hashes g) (set xs - {i})"
    and b: "gq_bytes g \<le> gq_capacity_bytes g"
  obtains g' xs' where "ghost_unlink i g = Some g'" "ghost_wf g' xs' (i # fs)" "set xs' = set xs - {i}" "gq_capacity_bytes g' = gq_capacity_bytes g"
    "length (gq_links g') = length (gq_links g)" "remembered g' xs' \<subseteq> remembered g xs" "gq_bytes g' = gq_bytes g - lk_weight (gq_links g ! i)"
    "\<And>x. x \<noteq> i \<Longrightarrow> gq_hashes g' ! x = gq_hashes g ! x"
proof -
  obtain ys zs where xs: "xs = ys @ i # zs" using i by (meson split_list)
  obtain g' where g': "ghost_unlink i g = Some g'" "ghost_lists g' (ys @ zs) (i # fs)" "gq_hashes g' = (gq_hashes g)[i := 0]"
    "gq_directory g' = gq_directory g" "gq_capacity_bytes g' = gq_capacity_bytes g" "gq_bytes g' = gq_bytes g - lk_weight (gq_links g ! i)"
    "length (gq_links g') = length (gq_links g)"
    using l unfolding xs by (rule ghost_unlink_ok) (rule that)
  have s: "set (ys @ zs) = set xs - {i}" using linkedD(1) [OF ghost_listsD(3) [OF l]] by (auto simp: xs)
  have "ghost_directory (gq_directory g') (gq_hashes g') (set (ys @ zs))"
    unfolding g'(3,4) s using d by (rule ghost_directory_cong) simp
  then have "ghost_wf g' (ys @ zs) (i # fs)" using g' b by (simp add: ghost_wf_def)
  moreover have "remembered g' (ys @ zs) \<subseteq> remembered g xs" unfolding remembered_def s g'(3) by auto
  ultimately show ?thesis using that [OF g'(1)] s g'(3,5,6,7) by simp
qed

lemma ghost_take_ok:
  assumes wf: "ghost_wf g xs fs"
  obtains g' xs' fs' where "ghost_take hash g = Some (hash \<in> remembered g xs, g')" "ghost_wf g' xs' fs'"
    "remembered g' xs' \<subseteq> remembered g xs - {hash}" "length (gq_links g') = length (gq_links g)" "gq_capacity_bytes g' = gq_capacity_bytes g"
proof -
  have l: "ghost_lists g xs fs" and d: "ghost_directory (gq_directory g) (gq_hashes g) (set xs)" and b: "gq_bytes g \<le> gq_capacity_bytes g"
    using wf by (auto simp: ghost_wf_def)
  have lt: "x < length (gq_links g)" "x < NO_POLICY_SLOT" "unat (of_nat x :: u32) = x" if "x \<in> set xs" for x
    using ghost_positions [OF l] ghost_listsD(2) [OF l] position_value [of x "length (gq_links g)"] that by fastforce+
  obtain p dir where r: "fixed_map_remove hash (gq_directory g) = (p, dir)" by (cases "fixed_map_remove hash (gq_directory g)")
  note rm = ghost_directory_remove [OF d r]
  have mem: "hash \<in> remembered g xs \<longleftrightarrow> (\<exists>v. p = Some v \<and> gq_hashes g ! unat v = hash)"
  proof
    assume "hash \<in> remembered g xs"
    then obtain x where x: "x \<in> set xs" "gq_hashes g ! x = hash" by (auto simp: remembered_def)
    then have "p = Some (of_nat x)" using rm(1) ghost_directory_at [OF d x(1)] lt(2) by auto
    then show "\<exists>v. p = Some v \<and> gq_hashes g ! unat v = hash" using x lt(3) by auto
  qed (use rm(3) in \<open>auto simp: remembered_def\<close>)
  show ?thesis
  proof (cases p)
    case None
    have "ghost_take hash g = Some (hash \<in> remembered g xs, g\<lparr>gq_directory := dir\<rparr>)" using None r mem by (simp add: ghost_take_def)
    moreover have "ghost_wf (g\<lparr>gq_directory := dir\<rparr>) xs fs" using l rm(2) [OF None] b by (simp add: ghost_wf_def ghost_lists_def)
    moreover have "remembered (g\<lparr>gq_directory := dir\<rparr>) xs \<subseteq> remembered g xs - {hash}" using None mem by (auto simp: remembered_def)
    ultimately show ?thesis by (rule that) simp_all
  next
    case (Some v)
    have v: "unat v \<in> set xs" "ghost_directory dir (gq_hashes g) (set xs - {unat v})" using rm(3) [OF Some] by auto
    let ?g = "g\<lparr>gq_directory := dir\<rparr>"
    have "ghost_lists ?g xs fs" using l by (simp add: ghost_lists_def)
    then obtain g' xs' where u: "ghost_unlink (unat v) ?g = Some g'" "ghost_wf g' xs' (unat v # fs)" "set xs' = set xs - {unat v}"
      "gq_capacity_bytes g' = gq_capacity_bytes g" "length (gq_links g') = length (gq_links g)" "remembered g' xs' \<subseteq> remembered g xs"
      "\<And>x. x \<noteq> unat v \<Longrightarrow> gq_hashes g' ! x = gq_hashes g ! x"
      by (rule unlinked_wf [OF _ v(1)]) (use v(2) b that in \<open>auto simp: remembered_def\<close>)
    have "ghost_take hash g = Some (hash \<in> remembered g xs, g')"
      using Some r mem u(1) lt(1) [OF v(1)] ghost_listsD(1) [OF l] by (simp add: ghost_take_def get_at_def)
    moreover have "remembered g' xs' \<subseteq> remembered g xs - {hash}"
    proof -
      have "gq_hashes g' ! x \<noteq> hash" if x: "x \<in> set xs'" for x
      proof
        assume "gq_hashes g' ! x = hash"
        then have "gq_hashes g ! x = hash" using u(3,7) x by auto
        then have "p = Some (of_nat x)" using rm(1) ghost_directory_at [OF d, of x] lt(2) [of x] u(3) x by auto
        then show False using Some x u(3) lt(3) [of x] by auto
      qed
      then show ?thesis using u(6) by (auto simp: remembered_def)
    qed
    ultimately show ?thesis using that u by blast
  qed
qed

lemma ghost_make_room_ok:
  assumes wf: "ghost_wf g xs fs" and w: "w \<le> u32_max"
  shows "\<exists>r. ghost_make_room w g = Some r \<and> (\<forall>g'. r = Some g' \<longrightarrow> (\<exists>xs' fs'. ghost_wf g' xs' fs' \<and> fs' \<noteq> []
    \<and> gq_bytes g' + w \<le> gq_capacity_bytes g' \<and> remembered g' xs' \<subseteq> remembered g xs
    \<and> length (gq_links g') = length (gq_links g) \<and> gq_capacity_bytes g' = gq_capacity_bytes g))"
proof -
  have l: "ghost_lists g xs fs" and d: "ghost_directory (gq_directory g) (gq_hashes g) (set xs)" and b: "gq_bytes g \<le> gq_capacity_bytes g"
    using wf by (auto simp: ghost_wf_def)
  note h = ghost_listsD [OF l]
  have fe: "gq_free_head g = NO_POLICY_SLOT \<longleftrightarrow> fs = []" unfolding h(9) by (rule bounded_ends) (use h(2,11) in auto)
  have sat: "saturating_add usize_max (gq_bytes g - k) w = gq_bytes g - k + w" for k
    using linked_weights_bound [OF h(3) w] h(6) by (simp add: saturating_add_def)
  show ?thesis
  proof (cases "fs = [] \<or> gq_bytes g + w > gq_capacity_bytes g")
    case False
    then have "ghost_make_room w g = Some (Some g)" using fe sat [of 0] by (simp add: ghost_make_room_def)
    then show ?thesis using wf False by fastforce
  next
    case True
    show ?thesis
    proof (cases xs)
      case Nil
      then have "ghost_make_room w g = Some None" using True fe sat [of 0] h(4) by (auto simp: ghost_make_room_def ghost_head_index_def)
      then show ?thesis by simp
    next
      case (Cons x ys)
      have x: "x < length (gq_links g)" "x < NO_POLICY_SLOT" "x \<in> set xs" using linkedD(2) [OF h(3), of x] Cons by auto
      have hd: "ghost_head_index g = Some x" using x(2) Cons h(4) by (simp add: ghost_head_index_def)
      let ?w = "lk_weight (gq_links g ! x)"
      show ?thesis
      proof (cases "gq_bytes g - ?w + w > gq_capacity_bytes g")
        case big: True
        then have "ghost_make_room w g = Some None"
          using True fe sat [of 0] sat [of ?w] hd x(1) by (auto simp: ghost_make_room_def get_at_def)
        then show ?thesis by simp
      next
        case fits: False
        let ?hash = "gq_hashes g ! x"
        obtain p dir where r: "fixed_map_remove ?hash (gq_directory g) = (p, dir)" by (cases "fixed_map_remove ?hash (gq_directory g)")
        have "p = Some (of_nat x)" using ghost_directory_remove(1) [OF d r] ghost_directory_at [OF d x(3,2)] by simp
        then have dir: "ghost_directory dir (gq_hashes g) (set xs - {x})"
          using ghost_directory_remove(3) [OF d r] position_value [OF x(1) h(2)] by simp
        let ?g = "g\<lparr>gq_directory := dir\<rparr>"
        have "ghost_lists ?g xs fs" using l by (simp add: ghost_lists_def)
        then obtain g' xs' where u: "ghost_unlink x ?g = Some g'" "ghost_wf g' xs' (x # fs)"
          "gq_capacity_bytes g' = gq_capacity_bytes g" "length (gq_links g') = length (gq_links g)" "remembered g' xs' \<subseteq> remembered g xs"
          "gq_bytes g' = gq_bytes g - ?w"
          by (rule unlinked_wf [OF _ x(3)]) (use dir b that in \<open>auto simp: remembered_def\<close>)
        have "ghost_remove_head g = Some (True, g')"
          using hd x(1) h(1) r u(1) by (simp add: ghost_remove_head_def get_at_def)
        then have "ghost_make_room w g = Some (Some g')"
          using True fits fe sat [of 0] sat [of ?w] hd x(1) by (auto simp: ghost_make_room_def get_at_def)
        then show ?thesis using u fits by fastforce
      qed
    qed
  qed
qed

lemma ghost_append_ok:
  assumes l: "ghost_lists g xs (i # fs)" and w: "0 < w" "w \<le> u32_max"
  obtains g' where "ghost_append hash w g = Some (i, g')" "ghost_lists g' (xs @ [i]) fs" "gq_hashes g' = (gq_hashes g)[i := hash]"
    "gq_directory g' = gq_directory g" "gq_capacity_bytes g' = gq_capacity_bytes g" "gq_bytes g' = gq_bytes g + w"
    "length (gq_links g') = length (gq_links g)"
proof -
  note h = ghost_listsD [OF l]
  let ?L = "gq_links g"
  have i: "i < length ?L" "i \<notin> set xs" "i \<notin> set fs" "gq_free_head g = i" using h(8,9,11) by auto
  have iN: "i < NO_POLICY_SLOT" using i(1) h(2) by simp
  note p = linked_push [OF h(3) i(1) iN i(2) w]
  let ?N = "push_link ?L (last_of xs) i w"
  have e: "last_of xs = NO_POLICY_SLOT \<longleftrightarrow> xs = []" by (rule linked_ends(2) [OF h(3)])
  have tl: "xs \<noteq> [] \<Longrightarrow> last_of xs < length ?L" using linkedD(2) [OF h(3), of "last xs"] by (simp add: last_of_last)
  have b: "saturating_add usize_max (weights ?L xs) w = weights ?L xs + w"
    using linked_weights_bound [OF h(3) w(2)] by (simp add: saturating_add_def)
  have wt: "weights ?N xs = weights ?L xs" by (rule weights_cong, rule p(3)) (use i(2) in blast)
  have nx: "lk_next (?L ! i) = first_of fs" using h(7) by (simp add: first_of_def)
  let ?g = "g\<lparr>gq_free_head := first_of fs, gq_free_count := gq_free_count g - 1, gq_hashes := (gq_hashes g)[i := hash], gq_links := ?N,
       gq_head := first_of (xs @ [i]), gq_tail := i, gq_bytes := gq_bytes g + w\<rparr>"
  have run: "ghost_append hash w g = Some (i, ?g)"
    using i tl nx b h(1,4,5,6) by (cases "xs = []")
      (simp_all add: ghost_append_def e push_link_def Let_def update_at_def get_at_def first_of_def hd_append)
  have "path (\<lambda>j. lk_next (?N ! j)) fs NO_POLICY_SLOT"
  proof -
    have "path (\<lambda>j. lk_next (?L ! j)) fs NO_POLICY_SLOT" using h(7) by simp
    moreover have "?N ! j = ?L ! j" if "j \<in> set fs" for j using p(4) [of j] h(11) i(3) that by auto
    ultimately show ?thesis using path_cong [of fs "\<lambda>j. lk_next (?N ! j)" "\<lambda>j. lk_next (?L ! j)"] by simp
  qed
  then have "ghost_lists ?g (xs @ [i]) fs"
    using h p(1,2) wt i by (auto simp: ghost_lists_def)
  with run show ?thesis by (rule that) simp_all
qed

lemma ghost_publish_ok:
  assumes l: "ghost_lists g (xs @ [i]) fs" and d: "ghost_directory (gq_directory g) (gq_hashes g) (set xs)"
    and h: "gq_hashes g ! i = hash" and b: "gq_bytes g \<le> gq_capacity_bytes g"
  shows "\<exists>g' xs' fs'. ghost_publish hash i g = Some g' \<and> ghost_wf g' xs' fs' \<and> remembered g' xs' \<subseteq> remembered g (xs @ [i])
    \<and> length (gq_links g') = length (gq_links g) \<and> gq_capacity_bytes g' = gq_capacity_bytes g"
proof -
  have pos: "set (xs @ [i]) \<subseteq> {..< length (gq_links g)}" by (rule ghost_positions [OF l])
  have i: "i \<notin> set xs" "i < length (gq_links g)" "set xs \<subseteq> {..< length (gq_links g)}"
    using linkedD(1) [OF ghost_listsD(3) [OF l]] pos by auto
  obtain p dir where r: "fixed_map_insert hash (of_nat i) (gq_directory g) = (p, dir)"
    by (cases "fixed_map_insert hash (of_nat i) (gq_directory g)")
  note ins = ghost_directory_insert [OF d i(1,2) ghost_listsD(2) [OF l] i(3) h r]
  let ?g = "g\<lparr>gq_directory := dir\<rparr>"
  have lists: "ghost_lists ?g (xs @ [i]) fs" using l by (simp add: ghost_lists_def)
  have unlink: ?thesis if j: "j \<in> set (xs @ [i])" "ghost_directory dir (gq_hashes g) (set (xs @ [i]) - {j})" and "ghost_publish hash i g = ghost_unlink j ?g" for j
  proof -
    obtain g' xs' where "ghost_unlink j ?g = Some g'" "ghost_wf g' xs' (j # fs)" "gq_capacity_bytes g' = gq_capacity_bytes g"
      "length (gq_links g') = length (gq_links g)" "remembered g' xs' \<subseteq> remembered g (xs @ [i])"
      by (rule unlinked_wf [OF lists j(1)]) (use j(2) b that in \<open>auto simp: remembered_def\<close>)
    with that(3) show ?thesis by auto
  qed
  consider "p = None" | "p = Some None" | v where "p = Some (Some v)" by (cases p) auto
  then show ?thesis
  proof cases
    case 1
    have "set (xs @ [i]) - {i} = set xs" using i(1) by auto
    with 1 r ins(1) show ?thesis by (intro unlink [of i]) (simp_all add: ghost_publish_def)
  next
    case 2
    then have "ghost_publish hash i g = Some ?g" using r by (simp add: ghost_publish_def)
    moreover have "ghost_wf ?g (xs @ [i]) fs" using lists ins(2) [OF 2] b by (simp add: ghost_wf_def)
    ultimately show ?thesis by (intro exI [of _ ?g] exI [of _ "xs @ [i]"] exI [of _ fs]) (simp add: remembered_def)
  next
    case (3 v)
    have v: "unat v \<in> set xs" "ghost_directory dir (gq_hashes g) (insert i (set xs - {unat v}))" using ins(3) [OF 3] by auto
    have "set (xs @ [i]) - {unat v} = insert i (set xs - {unat v})" using v(1) i(1) by auto
    with 3 r v show ?thesis by (intro unlink [of "unat v"]) (simp_all add: ghost_publish_def)
  qed
qed

lemma ghost_insert_ok:
  assumes wf: "ghost_wf g xs fs"
  shows "\<exists>g' xs' fs'. ghost_insert hash w g = Some g' \<and> ghost_wf g' xs' fs' \<and> remembered g' xs' \<subseteq> insert hash (remembered g xs)
    \<and> length (gq_links g') = length (gq_links g) \<and> gq_capacity_bytes g' = gq_capacity_bytes g"
proof (cases "w \<le> u32_max \<and> w \<noteq> 0 \<and> w \<le> gq_capacity_bytes g \<and> gq_links g \<noteq> [] \<and> gq_capacity_bytes g \<noteq> 0")
  case False
  then have "ghost_insert hash w g = Some g" by (auto simp: ghost_insert_def try_from_def)
  then show ?thesis using wf by auto
next
  case True
  then have w: "0 < w" "w \<le> u32_max" by auto
  obtain r where r: "ghost_make_room w g = Some r" and room: "\<forall>g'. r = Some g' \<longrightarrow> (\<exists>xs' fs'. ghost_wf g' xs' fs' \<and> fs' \<noteq> []
    \<and> gq_bytes g' + w \<le> gq_capacity_bytes g' \<and> remembered g' xs' \<subseteq> remembered g xs
    \<and> length (gq_links g') = length (gq_links g) \<and> gq_capacity_bytes g' = gq_capacity_bytes g)"
    using ghost_make_room_ok [OF wf w(2)] by (elim exE conjE) (rule that)
  have step: "ghost_insert hash w g = (case r of None \<Rightarrow> Some g | Some g \<Rightarrow> Option.bind (ghost_append hash w g) (\<lambda>(i, g). ghost_publish hash i g))"
    using True r by (auto simp: ghost_insert_def try_from_def split: option.splits)
  show ?thesis
  proof (cases r)
    case None
    then show ?thesis using step wf by auto
  next
    case (Some g1)
    then obtain xs1 i fs1 where g1: "ghost_wf g1 xs1 (i # fs1)" "gq_bytes g1 + w \<le> gq_capacity_bytes g1"
      "remembered g1 xs1 \<subseteq> remembered g xs" "length (gq_links g1) = length (gq_links g)" "gq_capacity_bytes g1 = gq_capacity_bytes g"
      using room by (metis neq_Nil_conv)
    have l1: "ghost_lists g1 xs1 (i # fs1)" using g1(1) by (simp add: ghost_wf_def)
    obtain g2 where g2: "ghost_append hash w g1 = Some (i, g2)" "ghost_lists g2 (xs1 @ [i]) fs1" "gq_hashes g2 = (gq_hashes g1)[i := hash]"
      "gq_directory g2 = gq_directory g1" "gq_capacity_bytes g2 = gq_capacity_bytes g1" "gq_bytes g2 = gq_bytes g1 + w"
      "length (gq_links g2) = length (gq_links g1)"
      by (rule ghost_append_ok [OF l1 w]) (rule that)
    have i: "i \<notin> set xs1" "i < length (gq_hashes g1)" using ghost_listsD(1,11) [OF l1] by auto
    have d2: "ghost_directory (gq_directory g2) (gq_hashes g2) (set xs1)"
      unfolding g2(3,4) by (rule ghost_directory_cong [of _ "gq_hashes g1"]) (use g1(1) i in \<open>auto simp: ghost_wf_def nth_list_update\<close>)
    have at: "gq_hashes g2 ! i = hash" using i(2) by (simp add: g2(3))
    have b2: "gq_bytes g2 \<le> gq_capacity_bytes g2" using g1(2) g2(5,6) by simp
    obtain g3 xs3 fs3 where g3: "ghost_publish hash i g2 = Some g3" "ghost_wf g3 xs3 fs3" "remembered g3 xs3 \<subseteq> remembered g2 (xs1 @ [i])"
      "length (gq_links g3) = length (gq_links g2)" "gq_capacity_bytes g3 = gq_capacity_bytes g2"
      using ghost_publish_ok [OF g2(2) d2 at b2] by (elim exE conjE) (rule that)
    have "remembered g2 (xs1 @ [i]) \<subseteq> insert hash (remembered g1 xs1)"
      using i by (auto simp: remembered_def g2(3) nth_list_update)
    then have "remembered g3 xs3 \<subseteq> insert hash (remembered g xs)" using g3(3) g1(3) by blast
    moreover have "ghost_insert hash w g = Some g3" using step Some g2(1) g3(1) by simp
    ultimately show ?thesis using g3(2,4,5) g2(5,7) g1(4,5)
      by (intro exI [of _ g3] exI [of _ xs3] exI [of _ fs3]) simp
  qed
qed

section \<open>A new queue\<close>

lemma free_next_links_ok:
  assumes "n < NO_POLICY_SLOT"
  shows "free_next_links n = Some (map (\<lambda>i. if i + 1 = n then NO_POLICY_SLOT else i + 1) [0..<n])"
proof -
  have those: "(\<And>x. x \<in> set xs \<Longrightarrow> f x = Some (g x)) \<Longrightarrow> those (map f xs) = Some (map g xs)" for f :: "nat \<Rightarrow> nat option" and g xs
    by (induction xs) simp_all
  show ?thesis unfolding free_next_links_def
    by (rule those) (use assms in \<open>auto simp: try_from_def NO_POLICY_SLOT_def\<close>)
qed

lemma path_upt: "(\<And>i. i < n \<Longrightarrow> f i = (if i + 1 = n then e else i + 1)) \<Longrightarrow> k \<le> n \<Longrightarrow> path f [k..<n] e"
proof (induction "n - k" arbitrary: k)
  case (Suc m)
  then have k: "[k..<n] = k # [Suc k..<n]" by (simp add: upt_conv_Cons)
  have "path f [Suc k..<n] e" using Suc by (intro Suc.hyps) auto
  then show ?case using Suc.prems(1) [of k] Suc.hyps(2) by (cases "Suc k = n") (auto simp: k upt_conv_Cons)
qed simp

lemma first_of_upt: "0 < n \<Longrightarrow> first_of [0..<n] = 0"
  by (simp add: first_of_def upt_conv_Cons)

lemma ghost_new_ok:
  assumes n: "n < NO_POLICY_SLOT" and a: "\<And>m. alloc m"
  obtains g where "ghost_new alloc n cap = Some (Inr g)" "ghost_wf g [] [0..<n]" "length (gq_links g) = n" "gq_capacity_bytes g = cap"
proof -
  have "n * 2 \<le> usize_max" using n by (simp add: NO_POLICY_SLOT_def num_bounds)
  then have "fixed_map_slot_count n = Inr (n * 2)" by (simp add: fixed_map_slot_count_def checked_mul_def)
  then obtain dir where dir: "fixed_map_try_new alloc n = Inr dir"
    using a by (simp add: fixed_map_try_new_def)
  let ?g = "\<lparr>gq_directory = dir, gq_hashes = replicate n 0, gq_links = map (\<lambda>m. default_link\<lparr>lk_next := m\<rparr>) (map (\<lambda>i. if i + 1 = n then NO_POLICY_SLOT else i + 1) [0..<n]),
              gq_free_head = (if n = 0 then NO_POLICY_SLOT else 0), gq_free_count = n,
              gq_head = NO_POLICY_SLOT, gq_tail = NO_POLICY_SLOT, gq_bytes = 0, gq_capacity_bytes = cap\<rparr>"
  have "ghost_new alloc n cap = Some (Inr ?g)" using dir a by (simp add: ghost_new_def free_next_links_ok [OF n])
  moreover have "path (\<lambda>i. lk_next (gq_links ?g ! i)) [0..<n] NO_POLICY_SLOT" by (rule path_upt) simp_all
  then have "ghost_lists ?g [] [0..<n]" using n first_of_upt [of n] by (auto simp: ghost_lists_def)
  then have "ghost_wf ?g [] [0..<n]" using try_new_empty(1,2) [OF dir] by (simp add: ghost_wf_def ghost_directory_def)
  ultimately show ?thesis by (rule that) simp_all
qed

end
