(* ===== verification/S3_Fifo.thy ===== *)
theory S3_Fifo
  imports Clock_Policy Ghost_Queue
begin

text \<open>
  The S3-FIFO policy of \<^verbatim>\<open>memory/eviction.rs\<close>: a small and a main queue over one array of links, and the
  ghost queue. The invariant is that the two queues split the resident slots, each slot's flag says which
  queue it is in, and the links carry the weights of the entries.
\<close>

section \<open>The code\<close>

record s3fifo_state =
  s3_links :: "s3fifo_link list"
  s3_small :: policy_queue
  s3_main :: policy_queue
  s3_main_capacity_bytes :: nat
  s3_ghost :: ghost_queue

definition s3fifo_new :: "allocator \<Rightarrow> nat \<Rightarrow> nat \<Rightarrow> (io_error + s3fifo_state) option" where
  "s3fifo_new alloc capacity_bytes maximum_entries =
     (if \<not> alloc maximum_entries then Some (Inl (IoError OutOfMemory ''cannot allocate S3-FIFO resident links''))
      else let small_capacity_bytes = capacity_bytes div 10; main_capacity_bytes = capacity_bytes - small_capacity_bytes in do {
        ghost \<leftarrow> ghost_new alloc maximum_entries main_capacity_bytes;
        Some (bind_result ghost (\<lambda>ghost. Inr \<lparr>s3_links = replicate maximum_entries default_link, s3_small = queue_empty,
          s3_main = queue_empty, s3_main_capacity_bytes = main_capacity_bytes, s3_ghost = ghost\<rparr>))
      })"

definition s3fifo_allocation_bytes :: "nat \<Rightarrow> io_error + nat" where
  "s3fifo_allocation_bytes maximum_entries =
     bind_result (ok_or (IoError InvalidInput ''S3-FIFO is too large'') (checked_mul usize_max maximum_entries 12)) (\<lambda>links.
     bind_result (ghost_allocation_bytes maximum_entries) (\<lambda>ghost.
     ok_or (IoError InvalidInput ''S3-FIFO is too large'') (checked_add usize_max links ghost)))"

definition s3_queue :: "queue_kind \<Rightarrow> s3fifo_state \<Rightarrow> policy_queue" where
  "s3_queue k st = (case k of SmallQueue \<Rightarrow> s3_small st | MainQueue \<Rightarrow> s3_main st)"

definition s3_set_queue :: "queue_kind \<Rightarrow> policy_queue \<Rightarrow> s3fifo_state \<Rightarrow> s3fifo_state" where
  "s3_set_queue k q st = (case k of SmallQueue \<Rightarrow> st\<lparr>s3_small := q\<rparr> | MainQueue \<Rightarrow> st\<lparr>s3_main := q\<rparr>)"

definition s3_push_back :: "queue_kind \<Rightarrow> nat \<Rightarrow> nat \<Rightarrow> s3fifo_state \<Rightarrow> s3fifo_state option" where
  "s3_push_back k index weight st = do {
     (q, links) \<leftarrow> queue_push_back index weight (s3_queue k st) (s3_links st);
     Some (s3_set_queue k q (st\<lparr>s3_links := links\<rparr>))
   }"

definition s3_remove_from :: "queue_kind \<Rightarrow> nat \<Rightarrow> s3fifo_state \<Rightarrow> (nat \<times> s3fifo_state) option" where
  "s3_remove_from k index st = do {
     (weight, q, links) \<leftarrow> queue_remove index (s3_queue k st) (s3_links st);
     Some (weight, s3_set_queue k q (st\<lparr>s3_links := links\<rparr>))
   }"

definition s3fifo_insert :: "nat \<Rightarrow> u64 \<Rightarrow> nat \<Rightarrow> s3fifo_state \<Rightarrow> policy_slot list \<Rightarrow> (s3fifo_state \<times> policy_slot list) option" where
  "s3fifo_insert index hash weight st slots = do {
     (taken, ghost) \<leftarrow> ghost_take hash (s3_ghost st);
     let st = st\<lparr>s3_ghost := ghost\<rparr>;
     let queue = (if taken then MainQueue else SmallQueue);
     slots \<leftarrow> update_at slots index (\<lambda>_. new_s3fifo hash queue 0);
     st \<leftarrow> s3_push_back queue index weight st;
     Some (st, slots)
   }"

definition s3fifo_remove :: "nat \<Rightarrow> s3fifo_state \<Rightarrow> policy_slot list \<Rightarrow> (s3fifo_state \<times> policy_slot list) option" where
  "s3fifo_remove index st slots = do {
     slot \<leftarrow> get_at slots index;
     (_, st) \<leftarrow> s3_remove_from (s3fifo_queue slot) index st;
     slots \<leftarrow> update_at slots index (\<lambda>_. default_policy_slot);
     Some (st, slots)
   }"

datatype detached_policy_kind = DetachedClock | DetachedS3Fifo queue_kind u8

record detached_policy =
  dp_hash :: u64
  dp_weight :: nat
  dp_kind :: detached_policy_kind

definition s3fifo_detach :: "nat \<Rightarrow> s3fifo_state \<Rightarrow> policy_slot list \<Rightarrow> (detached_policy \<times> s3fifo_state \<times> policy_slot list) option" where
  "s3fifo_detach index st slots = do {
     slot \<leftarrow> get_at slots index;
     let queue = s3fifo_queue slot;
     let frequency = s3fifo_frequency slot;
     (weight, st) \<leftarrow> s3_remove_from queue index st;
     slots \<leftarrow> update_at slots index (\<lambda>_. default_policy_slot);
     Some (\<lparr>dp_hash = ps_hash slot, dp_weight = weight, dp_kind = DetachedS3Fifo queue frequency\<rparr>, st, slots)
   }"

definition s3fifo_restore ::
    "nat \<Rightarrow> u64 \<Rightarrow> nat \<Rightarrow> queue_kind \<Rightarrow> u8 \<Rightarrow> s3fifo_state \<Rightarrow> policy_slot list \<Rightarrow> (s3fifo_state \<times> policy_slot list) option" where
  "s3fifo_restore index hash weight queue frequency st slots = do {
     slots \<leftarrow> update_at slots index (\<lambda>_. new_s3fifo hash queue frequency);
     st \<leftarrow> s3_push_back queue index weight st;
     Some (st, slots)
   }"

text \<open>The move of an entry from the head of the small queue to the back of the main queue.\<close>

definition s3_promote :: "nat \<Rightarrow> s3fifo_state \<Rightarrow> policy_slot list \<Rightarrow> (s3fifo_state \<times> policy_slot list) option" where
  "s3_promote index st slots = do {
     (weight, small, links) \<leftarrow> queue_remove index (s3_small st) (s3_links st);
     slots \<leftarrow> update_at slots index (set_s3fifo_queue MainQueue);
     (main, links) \<leftarrow> queue_push_back index weight (s3_main st) links;
     Some (st\<lparr>s3_small := small, s3_main := main, s3_links := links\<rparr>, slots)
   }"

definition s3_rotate_main :: "nat \<Rightarrow> s3fifo_state \<Rightarrow> s3fifo_state option" where
  "s3_rotate_main index st = do {
     (main, links) \<leftarrow> queue_move_to_back index (s3_main st) (s3_links st);
     Some (st\<lparr>s3_main := main, s3_links := links\<rparr>)
   }"

definition s3_choose_queue :: "bool \<Rightarrow> s3fifo_state \<Rightarrow> queue_kind \<times> bool" where
  "s3_choose_queue prefer_small st =
     (if prefer_small \<and> \<not> queue_is_empty (s3_small st) then (SmallQueue, False)
      else if pq_bytes (s3_main st) > s3_main_capacity_bytes st \<or> queue_is_empty (s3_small st) then (MainQueue, prefer_small)
      else (SmallQueue, prefer_small))"

fun s3_scan ::
    "nat \<Rightarrow> (nat \<Rightarrow> bool option) \<Rightarrow> bool \<Rightarrow> nat \<Rightarrow> s3fifo_state \<Rightarrow> policy_slot list \<Rightarrow> (nat option \<times> nat \<times> s3fifo_state \<times> policy_slot list) option" where
  "s3_scan 0 can_reclaim prefer_small remaining st slots = Some (None, remaining, st, slots)"
| "s3_scan (Suc n) can_reclaim prefer_small remaining st slots =
     (case take_scan_step remaining of
        (False, remaining) \<Rightarrow> Some (None, remaining, st, slots)
      | (True, remaining) \<Rightarrow>
     case s3_choose_queue prefer_small st of (queue, prefer_small) \<Rightarrow>
     case queue_front (s3_queue queue st) of
        None \<Rightarrow> Some (None, remaining, st, slots)
      | Some index \<Rightarrow> do {
          slot \<leftarrow> get_at slots index;
          let frequency = s3fifo_frequency slot;
          if queue = SmallQueue \<and> frequency \<ge> S3FIFO_MOVE_TO_MAIN_THRESHOLD then do {
            (st, slots) \<leftarrow> s3_promote index st slots;
            s3_scan n can_reclaim prefer_small remaining st slots
          } else if queue = MainQueue \<and> frequency > 0 then do {
            let slots = slots[index := set_s3fifo_frequency (frequency - 1) slot];
            st \<leftarrow> s3_rotate_main index st;
            s3_scan n can_reclaim prefer_small remaining st slots
          } else do {
            reclaim \<leftarrow> can_reclaim index;
            if reclaim then Some (Some index, remaining, st, slots)
            else if queue = SmallQueue then do {
              (st, slots) \<leftarrow> s3_promote index st slots;
              s3_scan n can_reclaim prefer_small remaining st slots
            } else do {
              st \<leftarrow> s3_rotate_main index st;
              s3_scan n can_reclaim True remaining st slots
            }
          }
        })"

definition s3fifo_select_victim ::
    "(nat \<Rightarrow> bool option) \<Rightarrow> nat \<Rightarrow> s3fifo_state \<Rightarrow> policy_slot list \<Rightarrow> (nat option \<times> nat \<times> s3fifo_state \<times> policy_slot list) option" where
  "s3fifo_select_victim can_reclaim remaining st slots =
     s3_scan (maximum_scan_steps (length slots)) can_reclaim False remaining st slots"

section \<open>The invariant\<close>

definition s3_lists :: "s3fifo_state \<Rightarrow> (queue_kind \<Rightarrow> nat list) \<Rightarrow> policy_slot list \<Rightarrow> entry_map \<Rightarrow> bool" where
  "s3_lists st Q slots R \<longleftrightarrow> holds_entries slots R \<and> length (s3_links st) = length slots
     \<and> (\<forall>k. queue_wf (s3_links st) (s3_queue k st) (Q k)) \<and> set (Q SmallQueue) \<inter> set (Q MainQueue) = {}
     \<and> dom R = set (Q SmallQueue) \<union> set (Q MainQueue)
     \<and> (\<forall>k. \<forall>i \<in> set (Q k). s3fifo_queue (slots ! i) = k)
     \<and> (\<forall>i h w. R i = Some (h, w) \<longrightarrow> lk_weight (s3_links st ! i) = w)"

definition s3_wf :: "s3fifo_state \<Rightarrow> policy_slot list \<Rightarrow> entry_map \<Rightarrow> bool" where
  "s3_wf st slots R \<longleftrightarrow> (\<exists>Q. s3_lists st Q slots R) \<and> (\<exists>xs fs. ghost_wf (s3_ghost st) xs fs)"

lemma s3_listsD:
  assumes "s3_lists st Q slots R"
  shows "holds_entries slots R" "length (s3_links st) = length slots" "queue_wf (s3_links st) (s3_queue k st) (Q k)"
    "set (Q SmallQueue) \<inter> set (Q MainQueue) = {}" "dom R = set (Q SmallQueue) \<union> set (Q MainQueue)"
    "i \<in> set (Q k) \<Longrightarrow> s3fifo_queue (slots ! i) = k" "R i = Some (h, w) \<Longrightarrow> lk_weight (s3_links st ! i) = w"
  using assms by (auto simp: s3_lists_def)

definition other_queue :: "queue_kind \<Rightarrow> queue_kind" where
  "other_queue k = (case k of SmallQueue \<Rightarrow> MainQueue | MainQueue \<Rightarrow> SmallQueue)"

lemma queue_kind_other: "k' \<noteq> k \<longleftrightarrow> k' = other_queue k"
  by (cases k; cases k') (simp_all add: other_queue_def)

lemma s3_queue_set [simp]:
  "s3_queue k (s3_set_queue k' q st) = (if k = k' then q else s3_queue k st)" "s3_links (s3_set_queue k q st) = s3_links st"
  "s3_ghost (s3_set_queue k q st) = s3_ghost st" "s3_queue k (st\<lparr>s3_links := L\<rparr>) = s3_queue k st" "s3_queue k (st\<lparr>s3_ghost := g\<rparr>) = s3_queue k st"
  by (cases k; cases k'; simp add: s3_queue_def s3_set_queue_def)+

text \<open>
  A slot joins a queue and a slot leaves its queue. Both leave the other queue, the ghost queue and the slots
  outside alone.
\<close>

lemma s3_push_ok:
  assumes l: "s3_lists st Q slots R" and i: "i < length slots" "R i = None" and w: "weight_ok w"
    and s: "is_resident s" "ps_hash s = h" "s3fifo_queue s = k"
  obtains st' where "s3_push_back k i w st = Some st'" "s3_lists st' (Q(k := Q k @ [i])) (slots[i := s]) (R(i \<mapsto> (h, w)))"
    "s3_ghost st' = s3_ghost st"
proof -
  note d = s3_listsD [OF l]
  have ni: "i \<notin> set (Q k')" for k' using d(5) i(2) by (cases k') auto
  have iN: "i < length (s3_links st)" "i < NO_POLICY_SLOT" using i(1) d(2) holds_entriesD(1) [OF d(1)] by auto
  obtain q' L' where p: "queue_push_back i w (s3_queue k st) (s3_links st) = Some (q', L')" "queue_wf L' q' (Q k @ [i])" "lk_weight (L' ! i) = w"
    "length L' = length (s3_links st)" "\<And>j. j \<noteq> i \<Longrightarrow> lk_weight (L' ! j) = lk_weight (s3_links st ! j)"
    "\<And>j. j \<notin> set (Q k @ [i]) \<Longrightarrow> L' ! j = s3_links st ! j"
    by (rule queue_push_back_ok [OF d(3) iN ni]) (use w that in \<open>auto simp: weight_ok_def\<close>)
  have other: "queue_wf L' (s3_queue k' st) (Q k')" if "k' \<noteq> k" for k'
    by (rule queue_wf_cong [OF d(3) p(4)], rule p(6)) (use d(4) ni that in \<open>cases k; cases k'; auto\<close>)
  have "s3_lists (s3_set_queue k q' (st\<lparr>s3_links := L'\<rparr>)) (Q(k := Q k @ [i])) (slots[i := s]) (R(i \<mapsto> (h, w)))"
    unfolding s3_lists_def
  proof (intro conjI allI ballI impI)
    show "holds_entries (slots[i := s]) (R(i \<mapsto> (h, w)))" by (rule holds_entries_add [OF d(1) i(1) s(1,2) w])
    show "length (s3_links (s3_set_queue k q' (st\<lparr>s3_links := L'\<rparr>))) = length (slots[i := s])" using p(4) d(2) by simp
    show "queue_wf (s3_links (s3_set_queue k q' (st\<lparr>s3_links := L'\<rparr>))) (s3_queue k' (s3_set_queue k q' (st\<lparr>s3_links := L'\<rparr>))) ((Q(k := Q k @ [i])) k')" for k'
      using p(2) other by auto
    show "set ((Q(k := Q k @ [i])) SmallQueue) \<inter> set ((Q(k := Q k @ [i])) MainQueue) = {}" using d(4) ni by (cases k) auto
    show "dom (R(i \<mapsto> (h, w))) = set ((Q(k := Q k @ [i])) SmallQueue) \<union> set ((Q(k := Q k @ [i])) MainQueue)" using d(5) by (cases k) auto
    show "s3fifo_queue (slots[i := s] ! j) = k'" if "j \<in> set ((Q(k := Q k @ [i])) k')" for j k'
      using that d(6) [of j k'] s(3) ni i(1) by (auto simp: nth_update split: if_splits)
    show "lk_weight (s3_links (s3_set_queue k q' (st\<lparr>s3_links := L'\<rparr>)) ! j) = w'" if "(R(i \<mapsto> (h, w))) j = Some (h', w')" for j h' w'
      using that p(3,5) d(7) by (auto split: if_splits)
  qed
  then show ?thesis using p(1) by (intro that [of "s3_set_queue k q' (st\<lparr>s3_links := L'\<rparr>)"]) (simp_all add: s3_push_back_def)
qed

lemma s3_drop_ok:
  assumes l: "s3_lists st Q slots R" and Q: "Q k = ys @ i # zs" and s: "\<not> is_resident s"
  obtains st' where "s3_remove_from k i st = Some (lk_weight (s3_links st ! i), st')" "s3_lists st' (Q(k := ys @ zs)) (slots[i := s]) (R(i := None))"
    "s3_ghost st' = s3_ghost st"
proof -
  note d = s3_listsD [OF l]
  have dis: "distinct (ys @ i # zs)" using linkedD(1) [of "s3_links st" "Q k"] d(3) [of k] by (simp add: queue_wf_def Q)
  have i: "i \<in> dom R" "i < length slots" using d(5) Q holds_entriesD(2) [OF d(1), of i] by (cases k; auto)+
  obtain q' L' where p: "queue_remove i (s3_queue k st) (s3_links st) = Some (lk_weight (s3_links st ! i), q', L')" "queue_wf L' q' (ys @ zs)"
    "length L' = length (s3_links st)" "\<And>j. j \<noteq> i \<Longrightarrow> lk_weight (L' ! j) = lk_weight (s3_links st ! j)"
    "\<And>j. j \<notin> set (ys @ i # zs) \<Longrightarrow> L' ! j = s3_links st ! j"
    by (rule queue_remove_ok [OF d(3) [of k, unfolded Q]]) (rule that)
  have ni: "i \<notin> set (Q k')" if "k' \<noteq> k" for k' using d(4) Q that by (cases k; cases k') auto
  have other: "queue_wf L' (s3_queue k' st) (Q k')" if "k' \<noteq> k" for k'
    by (rule queue_wf_cong [OF d(3) p(3)], rule p(5)) (use d(4) Q that in \<open>cases k; cases k'; auto\<close>)
  have "s3_lists (s3_set_queue k q' (st\<lparr>s3_links := L'\<rparr>)) (Q(k := ys @ zs)) (slots[i := s]) (R(i := None))"
    unfolding s3_lists_def
  proof (intro conjI allI ballI impI)
    show "holds_entries (slots[i := s]) (R(i := None))" by (rule holds_entries_del [OF d(1) i(2) s])
    show "length (s3_links (s3_set_queue k q' (st\<lparr>s3_links := L'\<rparr>))) = length (slots[i := s])" using p(3) d(2) by simp
    show "queue_wf (s3_links (s3_set_queue k q' (st\<lparr>s3_links := L'\<rparr>))) (s3_queue k' (s3_set_queue k q' (st\<lparr>s3_links := L'\<rparr>))) ((Q(k := ys @ zs)) k')" for k'
      using p(2) other by auto
    show "set ((Q(k := ys @ zs)) SmallQueue) \<inter> set ((Q(k := ys @ zs)) MainQueue) = {}" using d(4) Q by (cases k) auto
    show "dom (R(i := None)) = set ((Q(k := ys @ zs)) SmallQueue) \<union> set ((Q(k := ys @ zs)) MainQueue)"
      using d(5) dis Q ni [of "other_queue k"] by (cases k) (auto simp: other_queue_def)
    show "s3fifo_queue (slots[i := s] ! j) = k'" if "j \<in> set ((Q(k := ys @ zs)) k')" for j k'
      using that d(6) [of j k'] dis ni [of k'] Q by (auto simp: nth_update split: if_splits)
    show "lk_weight (s3_links (s3_set_queue k q' (st\<lparr>s3_links := L'\<rparr>)) ! j) = w'" if "(R(i := None)) j = Some (h', w')" for j h' w'
      using that p(4) d(7) by (auto split: if_splits)
  qed
  then show ?thesis using p(1) by (intro that [of "s3_set_queue k q' (st\<lparr>s3_links := L'\<rparr>)"]) (simp_all add: s3_remove_from_def)
qed

text \<open>Where a resident slot is.\<close>

lemma s3_member:
  assumes l: "s3_lists st Q slots R" and i: "i \<in> dom R"
  obtains ys zs where "Q (s3fifo_queue (slots ! i)) = ys @ i # zs"
proof -
  obtain k where "i \<in> set (Q k)" using i s3_listsD(5) [OF l] by auto
  then show ?thesis using s3_listsD(6) [OF l, of i k] that by (metis split_list)
qed

section \<open>Every operation keeps it\<close>

lemma s3fifo_insert_ok:
  assumes wf: "s3_wf st slots R" and i: "i < length slots" "R i = None" and w: "weight_ok w"
  obtains st' slots' where "s3fifo_insert i h w st slots = Some (st', slots')" "s3_wf st' slots' (R(i \<mapsto> (h, w)))" "same_outside {i} slots slots'"
proof -
  obtain Q xs fs where l: "s3_lists st Q slots R" and g: "ghost_wf (s3_ghost st) xs fs" using wf by (auto simp: s3_wf_def)
  obtain g' xs' fs' where t: "ghost_take h (s3_ghost st) = Some (h \<in> remembered (s3_ghost st) xs, g')" "ghost_wf g' xs' fs'"
    by (rule ghost_take_ok [OF g, of h]) (rule that)
  let ?k = "if h \<in> remembered (s3_ghost st) xs then MainQueue else SmallQueue"
  let ?s = "new_s3fifo h ?k 0"
  have l': "s3_lists (st\<lparr>s3_ghost := g'\<rparr>) Q slots R" using l by (simp add: s3_lists_def)
  obtain st' where st': "s3_push_back ?k i w (st\<lparr>s3_ghost := g'\<rparr>) = Some st'" "s3_lists st' (Q(?k := Q ?k @ [i])) (slots[i := ?s]) (R(i \<mapsto> (h, w)))"
    "s3_ghost st' = s3_ghost (st\<lparr>s3_ghost := g'\<rparr>)"
    by (rule s3_push_ok [OF l' i w, of ?s h ?k]) (use that in \<open>auto simp: policy_flags\<close>)
  have "s3_wf st' (slots[i := ?s]) (R(i \<mapsto> (h, w)))" unfolding s3_wf_def using st'(2,3) t(2) by auto
  then show ?thesis using st'(1) t(1) i(1) by (intro that [of st' "slots[i := ?s]"]) (simp_all add: s3fifo_insert_def update_at_def same_outside_update Let_def)
qed

lemma s3fifo_restore_ok:
  assumes wf: "s3_wf st slots R" and i: "i < length slots" "R i = None" and w: "weight_ok w"
  obtains st' slots' where "s3fifo_restore i h w k f st slots = Some (st', slots')" "s3_wf st' slots' (R(i \<mapsto> (h, w)))" "same_outside {i} slots slots'"
proof -
  obtain Q xs fs where l: "s3_lists st Q slots R" and g: "ghost_wf (s3_ghost st) xs fs" using wf by (auto simp: s3_wf_def)
  let ?s = "new_s3fifo h k f"
  obtain st' where st': "s3_push_back k i w st = Some st'" "s3_lists st' (Q(k := Q k @ [i])) (slots[i := ?s]) (R(i \<mapsto> (h, w)))" "s3_ghost st' = s3_ghost st"
    by (rule s3_push_ok [OF l i w, of ?s h k]) (use that in \<open>auto simp: policy_flags\<close>)
  have "s3_wf st' (slots[i := ?s]) (R(i \<mapsto> (h, w)))" unfolding s3_wf_def using st'(2,3) g by auto
  then show ?thesis using st'(1) i(1) by (intro that [of st' "slots[i := ?s]"]) (simp_all add: s3fifo_restore_def update_at_def same_outside_update)
qed

lemma s3_leave_ok:
  assumes wf: "s3_wf st slots R" and R: "R i = Some (h, w)"
  obtains st' where "s3_remove_from (s3fifo_queue (slots ! i)) i st = Some (w, st')" "s3_wf st' (slots[i := default_policy_slot]) (R(i := None))"
    "i < length slots"
proof -
  obtain Q xs fs where l: "s3_lists st Q slots R" and g: "ghost_wf (s3_ghost st) xs fs" using wf by (auto simp: s3_wf_def)
  have i: "i \<in> dom R" using R by auto
  let ?k = "s3fifo_queue (slots ! i)"
  obtain ys zs where Q: "Q ?k = ys @ i # zs" by (rule s3_member [OF l i])
  obtain st' where st': "s3_remove_from ?k i st = Some (lk_weight (s3_links st ! i), st')"
      "s3_lists st' (Q(?k := ys @ zs)) (slots[i := default_policy_slot]) (R(i := None))" "s3_ghost st' = s3_ghost st"
    by (rule s3_drop_ok [OF l Q, of default_policy_slot]) (use that in \<open>auto simp: policy_flags\<close>)
  have "s3_wf st' (slots[i := default_policy_slot]) (R(i := None))" unfolding s3_wf_def using st'(2,3) g by auto
  then show ?thesis using st'(1) s3_listsD(7) [OF l R] holds_entriesD(2) [OF s3_listsD(1) [OF l] i] by (intro that) auto
qed

lemma s3fifo_remove_ok:
  assumes wf: "s3_wf st slots R" and R: "R i = Some (h, w)"
  obtains st' slots' where "s3fifo_remove i st slots = Some (st', slots')" "s3_wf st' slots' (R(i := None))" "same_outside (dom R) slots slots'"
proof -
  obtain st' where st': "s3_remove_from (s3fifo_queue (slots ! i)) i st = Some (w, st')" "s3_wf st' (slots[i := default_policy_slot]) (R(i := None))" "i < length slots"
    by (rule s3_leave_ok [OF wf R]) (rule that)
  then show ?thesis using R by (intro that [OF _ st'(2)]) (auto simp: s3fifo_remove_def get_at_def update_at_def intro: same_outside_update)
qed

lemma s3fifo_detach_ok:
  assumes wf: "s3_wf st slots R" and R: "R i = Some (h, w)"
  obtains st' slots' where "s3fifo_detach i st slots = Some (\<lparr>dp_hash = h, dp_weight = w, dp_kind = DetachedS3Fifo (s3fifo_queue (slots ! i)) (s3fifo_frequency (slots ! i))\<rparr>, st', slots')"
    "s3_wf st' slots' (R(i := None))" "same_outside (dom R) slots slots'"
proof -
  obtain st' where st': "s3_remove_from (s3fifo_queue (slots ! i)) i st = Some (w, st')" "s3_wf st' (slots[i := default_policy_slot]) (R(i := None))" "i < length slots"
    by (rule s3_leave_ok [OF wf R]) (rule that)
  have "ps_hash (slots ! i) = h" using wf R holds_entriesD(4) s3_listsD(1) by (fastforce simp: s3_wf_def)
  then show ?thesis using st'(1,3) R
    by (intro that [OF _ st'(2)]) (auto simp: s3fifo_detach_def get_at_def update_at_def Let_def intro: same_outside_update)
qed

lemma s3_promote_ok:
  assumes l: "s3_lists st Q slots R" and Q: "Q SmallQueue = i # zs"
  obtains st' slots' Q' where "s3_promote i st slots = Some (st', slots')" "s3_lists st' Q' slots' R" "s3_ghost st' = s3_ghost st" "same_outside (dom R) slots slots'"
proof -
  note d = s3_listsD [OF l]
  have i: "i \<in> dom R" using d(5) Q by auto
  then have il: "i < length slots" using holds_entriesD(2) [OF d(1)] by blast
  obtain h w where R: "R i = Some (h, w)" using i by auto
  have hw: "ps_hash (slots ! i) = h" "weight_ok w" "is_resident (slots ! i)" "lk_weight (s3_links st ! i) = w"
    using holds_entriesD(3,4) [OF d(1)] R il d(7) by auto
  obtain st1 where st1: "s3_remove_from SmallQueue i st = Some (w, st1)"
      "s3_lists st1 (Q(SmallQueue := [] @ zs)) (slots[i := default_policy_slot]) (R(i := None))" "s3_ghost st1 = s3_ghost st"
    by (rule s3_drop_ok [OF l, of SmallQueue "[]" i zs default_policy_slot]) (use that Q hw in \<open>auto simp: policy_flags\<close>)
  let ?s = "set_s3fifo_queue MainQueue (slots ! i)"
  obtain st2 where st2: "s3_push_back MainQueue i w st1 = Some st2"
      "s3_lists st2 ((Q(SmallQueue := [] @ zs))(MainQueue := (Q(SmallQueue := [] @ zs)) MainQueue @ [i])) (slots[i := default_policy_slot, i := ?s]) ((R(i := None))(i \<mapsto> (h, w)))"
      "s3_ghost st2 = s3_ghost st1"
    by (rule s3_push_ok [OF st1(2), of i w ?s h MainQueue]) (use that il hw in \<open>auto simp: policy_flags\<close>)
  have "s3_promote i st slots = Some (st2, slots[i := ?s])"
    using st1(1) st2(1) il by (auto simp: s3_promote_def s3_remove_from_def s3_push_back_def s3_queue_def s3_set_queue_def update_at_def
        bind_eq_Some_conv split: prod.splits)
  then show ?thesis using st2(2,3) st1(3) R il i by (intro that [of st2 "slots[i := ?s]"]) (auto simp: fun_upd_idem same_outside_update)
qed

lemma s3_rotate_ok:
  assumes l: "s3_lists st Q slots R" and Q: "Q MainQueue = i # zs"
  obtains st' Q' where "s3_rotate_main i st = Some st'" "s3_lists st' Q' slots R" "s3_ghost st' = s3_ghost st"
proof -
  note d = s3_listsD [OF l]
  have main: "queue_wf (s3_links st) (s3_main st) ([] @ i # zs)" using d(3) [of MainQueue] by (simp add: s3_queue_def Q)
  obtain q' L' where p: "queue_move_to_back i (s3_main st) (s3_links st) = Some (q', L')" "queue_wf L' q' ([] @ zs @ [i])" "length L' = length (s3_links st)"
    "\<And>j. lk_weight (L' ! j) = lk_weight (s3_links st ! j)" "\<And>j. j \<notin> set ([] @ i # zs) \<Longrightarrow> L' ! j = s3_links st ! j"
    by (rule queue_move_to_back_ok [OF main]) (rule that)
  have small: "queue_wf L' (s3_small st) (Q SmallQueue)"
    using queue_wf_cong [OF d(3) [of SmallQueue] p(3), OF p(5)] d(4) Q by (fastforce simp: s3_queue_def)
  have "s3_lists (st\<lparr>s3_main := q', s3_links := L'\<rparr>) (Q(MainQueue := zs @ [i])) slots R"
    unfolding s3_lists_def
  proof (intro conjI allI ballI impI)
    show "queue_wf (s3_links (st\<lparr>s3_main := q', s3_links := L'\<rparr>)) (s3_queue k (st\<lparr>s3_main := q', s3_links := L'\<rparr>)) ((Q(MainQueue := zs @ [i])) k)" for k
      using p(2) small by (cases k) (simp_all add: s3_queue_def)
    show "s3fifo_queue (slots ! j) = k" if "j \<in> set ((Q(MainQueue := zs @ [i])) k)" for j k
      using that d(6) [of j k] Q by (auto split: if_splits)
  qed (use d p(3,4) Q in auto)
  then show ?thesis using p(1) by (intro that [of "st\<lparr>s3_main := q', s3_links := L'\<rparr>"]) (simp_all add: s3_rotate_main_def)
qed

lemma s3_same_queue_ok:
  assumes l: "s3_lists st Q slots R" and i: "i \<in> dom R" and s: "is_resident s" "ps_hash s = ps_hash (slots ! i)" "s3fifo_queue s = s3fifo_queue (slots ! i)"
  shows "s3_lists st Q (slots[i := s]) R"
proof -
  note d = s3_listsD [OF l]
  obtain h w where R: "R i = Some (h, w)" using i by auto
  have "holds_entries (slots[i := s]) R" using holds_entries_update [OF d(1) R s(1)] s(2) holds_entriesD(4) [OF d(1) R] by simp
  then show ?thesis using l s(3) by (auto simp: s3_lists_def nth_update)
qed

lemma s3_hit_ok:
  assumes wf: "s3_wf st slots R" and i: "i \<in> dom R"
  shows "s3_wf st (slots[i := increment_s3fifo_frequency (slots ! i)]) R"
proof -
  obtain Q xs fs where l: "s3_lists st Q slots R" and g: "ghost_wf (s3_ghost st) xs fs" using wf by (auto simp: s3_wf_def)
  have "is_resident (slots ! i)" using holds_entriesD(2,3) [OF s3_listsD(1) [OF l]] i by blast
  then have "s3_lists st Q (slots[i := increment_s3fifo_frequency (slots ! i)]) R"
    by (intro s3_same_queue_ok [OF l i]) (simp_all add: policy_flags)
  with g show ?thesis by (auto simp: s3_wf_def)
qed

lemma s3_scan_ok:
  assumes "s3_lists st Q slots R" and can: "\<forall>i \<in> dom R. can i \<noteq> None"
  shows "\<exists>r m st' slots' Q'. s3_scan n can pref remaining st slots = Some (r, m, st', slots') \<and> s3_lists st' Q' slots' R
    \<and> s3_ghost st' = s3_ghost st \<and> same_outside (dom R) slots slots' \<and> m \<le> remaining \<and> (\<forall>i. r = Some i \<longrightarrow> i \<in> dom R \<and> can i = Some True)"
  using assms(1)
proof (induction n arbitrary: pref remaining st slots Q)
  case (Suc n)
  note l = Suc.prems
  note d = s3_listsD [OF l]
  let ?goal = "\<lambda>x. \<exists>r m st' slots' Q'. x = Some (r, m, st', slots') \<and> s3_lists st' Q' slots' R
    \<and> s3_ghost st' = s3_ghost st \<and> same_outside (dom R) slots slots' \<and> m \<le> remaining \<and> (\<forall>i. r = Some i \<longrightarrow> i \<in> dom R \<and> can i = Some True)"
  have again: "?goal (s3_scan n can pref' (remaining - 1) st1 slots1)"
    if s1: "s3_lists st1 Q1 slots1 R" "s3_ghost st1 = s3_ghost st" "same_outside (dom R) slots slots1" for pref' st1 slots1 Q1
  proof -
    obtain r m st' slots' Q' where "s3_scan n can pref' (remaining - 1) st1 slots1 = Some (r, m, st', slots')" "s3_lists st' Q' slots' R"
      "s3_ghost st' = s3_ghost st1" "same_outside (dom R) slots1 slots'" "m \<le> remaining - 1" "\<forall>i. r = Some i \<longrightarrow> i \<in> dom R \<and> can i = Some True"
      using Suc.IH [OF s1(1), of pref' "remaining - 1"] by (elim exE conjE) (rule that)
    with s1(2) same_outside_trans [OF s1(3)] show ?thesis
      by (intro exI [of _ r] exI [of _ m] exI [of _ st'] exI [of _ slots'] exI [of _ Q']) auto
  qed
  show ?case
  proof (cases "remaining = 0")
    case True
    then show ?thesis using l by (auto simp: take_scan_step_def)
  next
    case False
    obtain k pref' where k: "s3_choose_queue pref st = (k, pref')" by (cases "s3_choose_queue pref st")
    show ?thesis
    proof (cases "Q k")
      case Nil
      then have "queue_front (s3_queue k st) = None" using queue_front_wf(1) [OF d(3) [of k]] by simp
      then show ?thesis using l False k by (auto simp: take_scan_step_def)
    next
      case (Cons i zs)
      have fr: "queue_front (s3_queue k st) = Some i" using queue_front_wf(1) [OF d(3) [of k]] Cons by simp
      have i: "i \<in> dom R" using d(5) Cons by (cases k) auto
      then have il: "i < length slots" and res: "is_resident (slots ! i)" using holds_entriesD(2,3) [OF d(1)] by blast+
      obtain b where b: "can i = Some b" using bspec [OF can i] by auto
      let ?f = "s3fifo_frequency (slots ! i)"
      have step: "s3_scan (Suc n) can pref remaining st slots =
        (if k = SmallQueue \<and> ?f \<ge> S3FIFO_MOVE_TO_MAIN_THRESHOLD then
           Option.bind (s3_promote i st slots) (\<lambda>(st, slots). s3_scan n can pref' (remaining - 1) st slots)
         else if k = MainQueue \<and> ?f > 0 then
           Option.bind (s3_rotate_main i st) (\<lambda>st. s3_scan n can pref' (remaining - 1) st (slots[i := set_s3fifo_frequency (?f - 1) (slots ! i)]))
         else if b then Some (Some i, remaining - 1, st, slots)
         else if k = SmallQueue then Option.bind (s3_promote i st slots) (\<lambda>(st, slots). s3_scan n can pref' (remaining - 1) st slots)
         else Option.bind (s3_rotate_main i st) (\<lambda>st. s3_scan n can True (remaining - 1) st slots))"
        using False k fr il b by (simp add: take_scan_step_def get_at_def Let_def)
      have promote: "?goal (Option.bind (s3_promote i st slots) (\<lambda>(st, slots). s3_scan n can pref' (remaining - 1) st slots))" if kS: "k = SmallQueue"
      proof -
        obtain st' slots' Q' where "s3_promote i st slots = Some (st', slots')" "s3_lists st' Q' slots' R" "s3_ghost st' = s3_ghost st" "same_outside (dom R) slots slots'"
          by (rule s3_promote_ok [OF l Cons [unfolded kS]]) (rule that)
        with again [of st' Q' slots' pref'] show ?thesis by simp
      qed
      have rotate: "?goal (Option.bind (s3_rotate_main i st) (\<lambda>st. s3_scan n can pref'' (remaining - 1) st slots1))"
        if kM: "k = MainQueue" and s1: "s3_lists st Q slots1 R" "same_outside (dom R) slots slots1" for pref'' slots1
      proof -
        obtain st' Q' where "s3_rotate_main i st = Some st'" "s3_lists st' Q' slots1 R" "s3_ghost st' = s3_ghost st"
          by (rule s3_rotate_ok [OF s1(1) Cons [unfolded kM]]) (rule that)
        with again [of st' Q' slots1 pref''] s1(2) show ?thesis by simp
      qed
      have cooled: "s3_lists st Q (slots[i := set_s3fifo_frequency (?f - 1) (slots ! i)]) R"
        by (rule s3_same_queue_ok [OF l i]) (use res in \<open>simp_all add: policy_flags\<close>)
      have stay: "?goal (Some (Some i, remaining - 1, st, slots))" if b using l i b that by auto
      show ?thesis unfolding step
        using promote rotate [of "slots[i := set_s3fifo_frequency (?f - 1) (slots ! i)]" pref'] rotate [of slots True] stay l cooled
          same_outside_update [OF i] by (cases k) auto
    qed
  qed
qed auto

end
