(* ===== verification/Eviction.thy ===== *)
theory Eviction
  imports S3_Fifo
begin

text \<open>
  \<^verbatim>\<open>EvictionState\<close> of \<^verbatim>\<open>memory/eviction.rs\<close>, the choice between the two policies, and the contract the memory tier
  relies on: a policy tracks a set of resident slots with their hashes and weights, entries join and leave it,
  a detached entry can be put back, and a victim is a resident that may be reclaimed, found within the scan
  budget. The contract is a locale, interpreted on \<^verbatim>\<open>EvictionState\<close>.
\<close>

section \<open>The code\<close>

datatype l1_eviction_policy = ClockPolicy | S3FifoPolicy

datatype eviction_state = EvictClock clock_state | EvictS3Fifo s3fifo_state

definition eviction_new :: "allocator \<Rightarrow> l1_eviction_policy \<Rightarrow> nat \<Rightarrow> nat \<Rightarrow> (io_error + eviction_state) option" where
  "eviction_new alloc policy capacity_bytes maximum_entries =
     (case policy of
        ClockPolicy \<Rightarrow> Some (bind_result (clock_new alloc maximum_entries) (\<lambda>st. Inr (EvictClock st)))
      | S3FifoPolicy \<Rightarrow> map_option (\<lambda>r. bind_result r (\<lambda>st. Inr (EvictS3Fifo st))) (s3fifo_new alloc capacity_bytes maximum_entries))"

definition eviction_allocation_bytes :: "l1_eviction_policy \<Rightarrow> nat \<Rightarrow> io_error + nat" where
  "eviction_allocation_bytes policy maximum_entries =
     (case policy of ClockPolicy \<Rightarrow> clock_allocation_bytes maximum_entries | S3FifoPolicy \<Rightarrow> s3fifo_allocation_bytes maximum_entries)"

definition eviction_insert :: "nat \<Rightarrow> u64 \<Rightarrow> nat \<Rightarrow> eviction_state \<Rightarrow> policy_slot list \<Rightarrow> (eviction_state \<times> policy_slot list) option" where
  "eviction_insert index hash weight st slots =
     (case st of
        EvictClock c \<Rightarrow> map_option (apfst EvictClock) (clock_insert index hash False c slots)
      | EvictS3Fifo s \<Rightarrow> map_option (apfst EvictS3Fifo) (s3fifo_insert index hash weight s slots))"

definition eviction_record_hit :: "nat \<Rightarrow> eviction_state \<Rightarrow> policy_slot list \<Rightarrow> (eviction_state \<times> policy_slot list) option" where
  "eviction_record_hit index st slots =
     map_option (Pair st) (update_at slots index
       (case st of EvictClock c \<Rightarrow> set_clock_visited True | EvictS3Fifo s \<Rightarrow> increment_s3fifo_frequency))"

definition eviction_remove :: "nat \<Rightarrow> eviction_state \<Rightarrow> policy_slot list \<Rightarrow> (eviction_state \<times> policy_slot list) option" where
  "eviction_remove index st slots =
     (if \<not> (index < length slots \<and> is_resident (slots ! index)) then Some (st, slots)
      else case st of
        EvictClock c \<Rightarrow> map_option (apfst EvictClock) (clock_remove index c slots)
      | EvictS3Fifo s \<Rightarrow> map_option (apfst EvictS3Fifo) (s3fifo_remove index s slots))"

definition eviction_detach :: "nat \<Rightarrow> nat \<Rightarrow> eviction_state \<Rightarrow> policy_slot list \<Rightarrow> (detached_policy \<times> eviction_state \<times> policy_slot list) option" where
  "eviction_detach index weight st slots =
     (case st of
        EvictClock c \<Rightarrow> do {
          slot \<leftarrow> get_at slots index;
          (c, slots) \<leftarrow> clock_remove index c slots;
          Some (\<lparr>dp_hash = ps_hash slot, dp_weight = weight, dp_kind = DetachedClock\<rparr>, EvictClock c, slots)
        }
      | EvictS3Fifo s \<Rightarrow> map_option (apsnd (apfst EvictS3Fifo)) (s3fifo_detach index s slots))"

definition eviction_restore :: "nat \<Rightarrow> detached_policy \<Rightarrow> eviction_state \<Rightarrow> policy_slot list \<Rightarrow> (eviction_state \<times> policy_slot list) option" where
  "eviction_restore index detached st slots =
     (case (st, dp_kind detached) of
        (EvictClock c, DetachedClock) \<Rightarrow> map_option (apfst EvictClock) (clock_insert index (dp_hash detached) True c slots)
      | (EvictS3Fifo s, DetachedS3Fifo queue frequency) \<Rightarrow>
          map_option (apfst EvictS3Fifo) (s3fifo_restore index (dp_hash detached) (dp_weight detached) queue frequency s slots)
      | _ \<Rightarrow> None)"

definition eviction_commit :: "detached_policy \<Rightarrow> eviction_state \<Rightarrow> eviction_state option" where
  "eviction_commit detached st =
     (case (st, dp_kind detached) of
        (EvictClock c, DetachedClock) \<Rightarrow> Some st
      | (EvictS3Fifo s, DetachedS3Fifo queue frequency) \<Rightarrow>
          if queue = SmallQueue
          then map_option (\<lambda>g. EvictS3Fifo (s\<lparr>s3_ghost := g\<rparr>)) (ghost_insert (dp_hash detached) (dp_weight detached) (s3_ghost s))
          else Some st
      | _ \<Rightarrow> None)"

definition eviction_select_victim ::
    "(nat \<Rightarrow> bool option) \<Rightarrow> nat \<Rightarrow> eviction_state \<Rightarrow> policy_slot list \<Rightarrow> (nat option \<times> nat \<times> eviction_state \<times> policy_slot list) option" where
  "eviction_select_victim can_reclaim remaining st slots =
     (case st of
        EvictClock c \<Rightarrow> map_option (apsnd (apsnd (apfst EvictClock))) (clock_select_victim can_reclaim remaining c slots)
      | EvictS3Fifo s \<Rightarrow> map_option (apsnd (apsnd (apfst EvictS3Fifo))) (s3fifo_select_victim can_reclaim remaining s slots))"

section \<open>The contract\<close>

locale eviction_policy =
  fixes wf :: "'st \<Rightarrow> policy_slot list \<Rightarrow> entry_map \<Rightarrow> bool" and kind :: "'st \<Rightarrow> 'k" and stands_for :: "'d \<Rightarrow> 'k \<Rightarrow> u64 \<times> nat \<Rightarrow> bool"
    and ins :: "nat \<Rightarrow> u64 \<Rightarrow> nat \<Rightarrow> 'st \<Rightarrow> policy_slot list \<Rightarrow> ('st \<times> policy_slot list) option"
    and hit :: "nat \<Rightarrow> 'st \<Rightarrow> policy_slot list \<Rightarrow> ('st \<times> policy_slot list) option"
    and rem :: "nat \<Rightarrow> 'st \<Rightarrow> policy_slot list \<Rightarrow> ('st \<times> policy_slot list) option"
    and detach :: "nat \<Rightarrow> nat \<Rightarrow> 'st \<Rightarrow> policy_slot list \<Rightarrow> ('d \<times> 'st \<times> policy_slot list) option"
    and restore :: "nat \<Rightarrow> 'd \<Rightarrow> 'st \<Rightarrow> policy_slot list \<Rightarrow> ('st \<times> policy_slot list) option"
    and commit :: "'d \<Rightarrow> 'st \<Rightarrow> 'st option"
    and select :: "(nat \<Rightarrow> bool option) \<Rightarrow> nat \<Rightarrow> 'st \<Rightarrow> policy_slot list \<Rightarrow> (nat option \<times> nat \<times> 'st \<times> policy_slot list) option"
  assumes entries_law: "wf st slots R \<Longrightarrow> holds_entries slots R"
    and insert_law: "wf st slots R \<Longrightarrow> i < length slots \<Longrightarrow> R i = None \<Longrightarrow> weight_ok w \<Longrightarrow>
      \<exists>st' slots'. ins i h w st slots = Some (st', slots') \<and> wf st' slots' (R(i \<mapsto> (h, w))) \<and> same_outside {i} slots slots' \<and> kind st' = kind st"
    and hit_law: "wf st slots R \<Longrightarrow> i \<in> dom R \<Longrightarrow>
      \<exists>st' slots'. hit i st slots = Some (st', slots') \<and> wf st' slots' R \<and> same_outside (dom R) slots slots' \<and> kind st' = kind st"
    and remove_law: "wf st slots R \<Longrightarrow> i \<in> dom R \<Longrightarrow>
      \<exists>st' slots'. rem i st slots = Some (st', slots') \<and> wf st' slots' (R(i := None)) \<and> same_outside (dom R) slots slots' \<and> kind st' = kind st"
    and detach_law: "wf st slots R \<Longrightarrow> R i = Some (h, w) \<Longrightarrow>
      \<exists>d st' slots'. detach i w st slots = Some (d, st', slots') \<and> stands_for d (kind st) (h, w) \<and> wf st' slots' (R(i := None))
        \<and> same_outside (dom R) slots slots' \<and> kind st' = kind st"
    and restore_law: "wf st slots R \<Longrightarrow> i < length slots \<Longrightarrow> R i = None \<Longrightarrow> stands_for d (kind st) (h, w) \<Longrightarrow> weight_ok w \<Longrightarrow>
      \<exists>st' slots'. restore i d st slots = Some (st', slots') \<and> wf st' slots' (R(i \<mapsto> (h, w))) \<and> same_outside {i} slots slots' \<and> kind st' = kind st"
    and commit_law: "wf st slots R \<Longrightarrow> stands_for d (kind st) e \<Longrightarrow> \<exists>st'. commit d st = Some st' \<and> wf st' slots R \<and> kind st' = kind st"
    and select_law: "wf st slots R \<Longrightarrow> \<forall>i \<in> dom R. can i \<noteq> None \<Longrightarrow>
      \<exists>r m st' slots'. select can remaining st slots = Some (r, m, st', slots') \<and> wf st' slots' R \<and> same_outside (dom R) slots slots'
        \<and> kind st' = kind st \<and> m \<le> remaining \<and> (\<forall>i. r = Some i \<longrightarrow> i \<in> dom R \<and> can i = Some True)"
begin

text \<open>
  What an admission does: select a victim and detach it, and put it back when the admission fails. After the
  pair of steps the policy tracks the same entries as before.
\<close>

lemma select_and_detach:
  assumes "wf st slots R" "\<forall>i \<in> dom R. can i \<noteq> None" "\<And>i h w. R i = Some (h, w) \<Longrightarrow> weight i = w"
  shows "\<exists>r m st1 slots1. select can remaining st slots = Some (r, m, st1, slots1) \<and> m \<le> remaining \<and>
    (case r of
       None \<Rightarrow> wf st1 slots1 R \<and> same_outside (dom R) slots slots1 \<and> kind st1 = kind st
     | Some i \<Rightarrow> i \<in> dom R \<and> can i = Some True \<and> (\<exists>d st2 slots2. detach i (weight i) st1 slots1 = Some (d, st2, slots2)
         \<and> wf st2 slots2 (R(i := None)) \<and> stands_for d (kind st2) (the (R i)) \<and> same_outside (dom R) slots slots2 \<and> kind st2 = kind st))"
proof -
  obtain r m st1 slots1 where s: "select can remaining st slots = Some (r, m, st1, slots1)" "wf st1 slots1 R" "same_outside (dom R) slots slots1"
    "kind st1 = kind st" "m \<le> remaining" "\<forall>i. r = Some i \<longrightarrow> i \<in> dom R \<and> can i = Some True"
    using select_law [OF assms(1,2), of remaining] by (elim exE conjE) (rule that)
  show ?thesis
  proof (cases r)
    case None
    then show ?thesis using s by simp
  next
    case (Some i)
    then obtain h w where R: "R i = Some (h, w)" using s(6) by auto
    obtain d st2 slots2 where "detach i w st1 slots1 = Some (d, st2, slots2)" "stands_for d (kind st1) (h, w)" "wf st2 slots2 (R(i := None))"
      "same_outside (dom R) slots1 slots2" "kind st2 = kind st1"
      using detach_law [OF s(2) R] by (elim exE conjE) (rule that)
    with same_outside_trans [OF s(3)] Some s R assms(3) [OF R] show ?thesis by auto
  qed
qed

end

section \<open>The code keeps the contract\<close>

definition eviction_wf :: "eviction_state \<Rightarrow> policy_slot list \<Rightarrow> entry_map \<Rightarrow> bool" where
  "eviction_wf st slots R \<longleftrightarrow> (case st of EvictClock c \<Rightarrow> clock_wf c slots R | EvictS3Fifo s \<Rightarrow> s3_wf s slots R)"

definition eviction_kind :: "eviction_state \<Rightarrow> l1_eviction_policy" where
  "eviction_kind st = (case st of EvictClock _ \<Rightarrow> ClockPolicy | EvictS3Fifo _ \<Rightarrow> S3FifoPolicy)"

definition detached_for :: "detached_policy \<Rightarrow> l1_eviction_policy \<Rightarrow> u64 \<times> nat \<Rightarrow> bool" where
  "detached_for d policy e \<longleftrightarrow> dp_hash d = fst e \<and> dp_weight d = snd e \<and> (case dp_kind d of DetachedClock \<Rightarrow> policy = ClockPolicy | DetachedS3Fifo _ _ \<Rightarrow> policy = S3FifoPolicy)"

lemma s3_wf_entries: "s3_wf s slots R \<Longrightarrow> holds_entries slots R"
  using s3_listsD(1) by (auto simp: s3_wf_def)

lemma eviction_resident:
  assumes "eviction_wf st slots R" "R i = Some (h, w)"
  shows "i < length slots" "is_resident (slots ! i)" "ps_hash (slots ! i) = h"
proof -
  have e: "holds_entries slots R" using assms(1) clock_wfD(1) s3_wf_entries by (auto simp: eviction_wf_def split: eviction_state.splits)
  show "i < length slots" "is_resident (slots ! i)" "ps_hash (slots ! i) = h"
    using holds_entriesD(2,3,4) [OF e] assms(2) by auto
qed

interpretation eviction: eviction_policy eviction_wf eviction_kind detached_for eviction_insert eviction_record_hit eviction_remove
  eviction_detach eviction_restore eviction_commit eviction_select_victim
proof (unfold_locales, goal_cases)
  case (1 st slots R)
  then show ?case using clock_wfD(1) s3_wf_entries by (auto simp: eviction_wf_def split: eviction_state.splits)
next
  case (2 st slots R i w h)
  show ?case
  proof (cases st)
    case (EvictClock c)
    then obtain c' slots' where "clock_insert i h False c slots = Some (c', slots')" "clock_wf c' slots' (R(i \<mapsto> (h, w)))" "same_outside {i} slots slots'"
      using clock_insert_ok [of c slots R i w h False] 2 by (auto simp: eviction_wf_def)
    with EvictClock show ?thesis by (simp add: eviction_insert_def eviction_wf_def eviction_kind_def)
  next
    case (EvictS3Fifo s)
    then obtain s' slots' where "s3fifo_insert i h w s slots = Some (s', slots')" "s3_wf s' slots' (R(i \<mapsto> (h, w)))" "same_outside {i} slots slots'"
      using s3fifo_insert_ok [of s slots R i w h] 2 by (auto simp: eviction_wf_def)
    with EvictS3Fifo show ?thesis by (simp add: eviction_insert_def eviction_wf_def eviction_kind_def)
  qed
next
  case (3 st slots R i)
  then obtain h w where R: "R i = Some (h, w)" by auto
  note r = eviction_resident [OF 3(1) R]
  show ?case
  proof (cases st)
    case (EvictClock c)
    then have c: "clock_wf c slots R" using 3(1) by (simp add: eviction_wf_def)
    have "clock_wf c (slots[i := set_clock_visited True (slots ! i)]) R"
      using c r holds_entries_update [OF clock_wfD(1) [OF c] R] by (auto simp: clock_wf_def nth_update policy_flags)
    with EvictClock r(1) 3(2) show ?thesis by (auto simp: eviction_record_hit_def eviction_wf_def update_at_def intro: same_outside_update)
  next
    case (EvictS3Fifo s)
    with 3 have "s3_wf s (slots[i := increment_s3fifo_frequency (slots ! i)]) R" using s3_hit_ok by (simp add: eviction_wf_def)
    with EvictS3Fifo r(1) 3(2) show ?thesis by (auto simp: eviction_record_hit_def eviction_wf_def update_at_def intro: same_outside_update)
  qed
next
  case (4 st slots R i)
  then obtain h w where R: "R i = Some (h, w)" by auto
  note r = eviction_resident [OF 4(1) R]
  show ?case
  proof (cases st)
    case (EvictClock c)
    then obtain c' slots' where "clock_remove i c slots = Some (c', slots')" "clock_wf c' slots' (R(i := None))" "same_outside (dom R) slots slots'"
      using clock_remove_ok [of c slots R i] 4 by (auto simp: eviction_wf_def)
    with EvictClock r show ?thesis by (simp add: eviction_remove_def eviction_wf_def eviction_kind_def)
  next
    case (EvictS3Fifo s)
    then obtain s' slots' where "s3fifo_remove i s slots = Some (s', slots')" "s3_wf s' slots' (R(i := None))" "same_outside (dom R) slots slots'"
      using s3fifo_remove_ok [of s slots R i] 4 R by (auto simp: eviction_wf_def)
    with EvictS3Fifo r show ?thesis by (simp add: eviction_remove_def eviction_wf_def eviction_kind_def)
  qed
next
  case (5 st slots R i h w)
  note r = eviction_resident [OF 5(1,2)]
  show ?case
  proof (cases st)
    case (EvictClock c)
    then obtain c' slots' where "clock_remove i c slots = Some (c', slots')" "clock_wf c' slots' (R(i := None))" "same_outside (dom R) slots slots'"
      using clock_remove_ok [of c slots R i] 5 by (auto simp: eviction_wf_def)
    with EvictClock r show ?thesis by (simp add: eviction_detach_def eviction_wf_def eviction_kind_def get_at_def detached_for_def)
  next
    case (EvictS3Fifo s)
    then obtain s' slots' where "s3fifo_detach i s slots = Some (\<lparr>dp_hash = h, dp_weight = w, dp_kind = DetachedS3Fifo (s3fifo_queue (slots ! i)) (s3fifo_frequency (slots ! i))\<rparr>, s', slots')"
      "s3_wf s' slots' (R(i := None))" "same_outside (dom R) slots slots'"
      using s3fifo_detach_ok [of s slots R i h w] 5 by (auto simp: eviction_wf_def)
    with EvictS3Fifo r show ?thesis by (simp add: eviction_detach_def eviction_wf_def eviction_kind_def detached_for_def)
  qed
next
  case (6 st slots R i d h w)
  show ?case
  proof (cases st)
    case (EvictClock c)
    then obtain c' slots' where "clock_insert i h True c slots = Some (c', slots')" "clock_wf c' slots' (R(i \<mapsto> (h, w)))" "same_outside {i} slots slots'"
      using clock_insert_ok [of c slots R i w h True] 6 by (auto simp: eviction_wf_def)
    with EvictClock 6(4) show ?thesis
      by (auto simp: eviction_restore_def eviction_wf_def eviction_kind_def detached_for_def split: detached_policy_kind.splits)
  next
    case (EvictS3Fifo s)
    then obtain k f where k: "dp_kind d = DetachedS3Fifo k f" using 6(4) by (auto simp: eviction_kind_def detached_for_def split: detached_policy_kind.splits)
    obtain s' slots' where "s3fifo_restore i h w k f s slots = Some (s', slots')" "s3_wf s' slots' (R(i \<mapsto> (h, w)))" "same_outside {i} slots slots'"
      using s3fifo_restore_ok [of s slots R i w h k f] 6 EvictS3Fifo by (auto simp: eviction_wf_def)
    with EvictS3Fifo k 6(4) show ?thesis by (auto simp: eviction_restore_def eviction_wf_def eviction_kind_def detached_for_def)
  qed
next
  case (7 st slots R d e)
  show ?case
  proof (cases st)
    case (EvictClock c)
    with 7 show ?thesis by (auto simp: eviction_commit_def eviction_kind_def detached_for_def split: detached_policy_kind.splits)
  next
    case (EvictS3Fifo s)
    then obtain k f where k: "dp_kind d = DetachedS3Fifo k f" using 7(2) by (auto simp: eviction_kind_def detached_for_def split: detached_policy_kind.splits)
    obtain Q xs fs where l: "s3_lists s Q slots R" and g: "ghost_wf (s3_ghost s) xs fs" using 7(1) EvictS3Fifo by (auto simp: s3_wf_def eviction_wf_def)
    obtain g' xs' fs' where g': "ghost_insert (dp_hash d) (dp_weight d) (s3_ghost s) = Some g'" "ghost_wf g' xs' fs'"
      using ghost_insert_ok [OF g, of "dp_hash d" "dp_weight d"] by (elim exE conjE) (rule that)
    have "s3_lists (s\<lparr>s3_ghost := g'\<rparr>) Q slots R" using l by (simp add: s3_lists_def)
    then have "s3_wf (s\<lparr>s3_ghost := g'\<rparr>) slots R" using g'(2) by (auto simp: s3_wf_def)
    then show ?thesis using EvictS3Fifo k g'(1) 7(1) by (auto simp: eviction_commit_def eviction_wf_def eviction_kind_def)
  qed
next
  case (8 st slots R can remaining)
  show ?case
  proof (cases st)
    case (EvictClock c)
    then have "clock_wf c slots R" using 8(1) by (simp add: eviction_wf_def)
    from clock_scan_ok [OF this 8(2), of "maximum_scan_steps (length (ck_residents c))" remaining] EvictClock show ?thesis
      by (auto simp: eviction_select_victim_def clock_select_victim_def eviction_wf_def eviction_kind_def)
  next
    case (EvictS3Fifo s)
    then obtain Q xs fs where l: "s3_lists s Q slots R" and g: "ghost_wf (s3_ghost s) xs fs" using 8(1) by (auto simp: s3_wf_def eviction_wf_def)
    obtain r m s' slots' Q' where "s3_scan (maximum_scan_steps (length slots)) can False remaining s slots = Some (r, m, s', slots')" "s3_lists s' Q' slots' R"
      "s3_ghost s' = s3_ghost s" "same_outside (dom R) slots slots'" "m \<le> remaining" "\<forall>i. r = Some i \<longrightarrow> i \<in> dom R \<and> can i = Some True"
      using s3_scan_ok [OF l 8(2), of "maximum_scan_steps (length slots)" False remaining] by (elim exE conjE) (rule that)
    with EvictS3Fifo g show ?thesis
      by (auto simp: eviction_select_victim_def s3fifo_select_victim_def eviction_wf_def eviction_kind_def s3_wf_def)
  qed
qed

lemma eviction_new_ok:
  assumes n: "length slots < NO_POLICY_SLOT" and a: "\<And>m. alloc m" and free: "\<And>i. i < length slots \<Longrightarrow> \<not> is_resident (slots ! i)"
  obtains st where "eviction_new alloc policy cap (length slots) = Some (Inr st)" "eviction_wf st slots Map.empty" "eviction_kind st = policy"
proof -
  have e: "holds_entries slots Map.empty" using n free by (simp add: holds_entries_def)
  show ?thesis
  proof (cases policy)
    case ClockPolicy
    then show ?thesis using a e by (intro that [of "EvictClock \<lparr>ck_hand = 0, ck_residents = [], ck_capacity = length slots\<rparr>"])
      (simp_all add: eviction_new_def clock_new_def eviction_wf_def clock_wf_def eviction_kind_def)
  next
    case S3FifoPolicy
    obtain g where g: "ghost_new alloc (length slots) (cap - cap div 10) = Some (Inr g)" "ghost_wf g [] [0..<length slots]"
      by (rule ghost_new_ok [where alloc = alloc and cap = "cap - cap div 10", OF n a]) (rule that)
    let ?s = "\<lparr>s3_links = replicate (length slots) default_link, s3_small = queue_empty, s3_main = queue_empty, s3_main_capacity_bytes = cap - cap div 10, s3_ghost = g\<rparr>"
    have "s3_lists ?s (\<lambda>_. []) slots Map.empty" using e by (auto simp: s3_lists_def s3_queue_def queue_empty_wf split: queue_kind.splits)
    then have "s3_wf ?s slots Map.empty" using g(2) by (auto simp: s3_wf_def)
    then show ?thesis using S3FifoPolicy a g(1)
      by (intro that [of "EvictS3Fifo ?s"]) (auto simp: eviction_new_def s3fifo_new_def eviction_wf_def eviction_kind_def Let_def)
  qed
qed

end
