(* ===== verification/Directory_Preflight.thy ===== *)
theory Directory_Preflight
  imports Policy_Slot
begin

unbundle bit_operations_syntax

text \<open>
  What the fixed directory of \<^verbatim>\<open>hashing.rs\<close> promises to a caller that asks \<^verbatim>\<open>can_upsert\<close> first and inserts later, as the
  memory tier does. As long as a probe window has a free slot it keeps one, because a removal never occupies a
  new slot; but a window can be full and pass the preflight only because it holds the key itself, and then
  removing that key can move another entry into its place and free a slot outside the window.
\<close>

section \<open>Room in a probe window\<close>

definition window_room :: "fixed_map \<Rightarrow> u64 \<Rightarrow> bool" where
  "window_room slots hash \<longleftrightarrow> slots \<noteq> []
     \<and> (\<exists>step < probe_limit slots. \<not> live (slots ! probe_index (fixed_map_start hash (length slots)) step (length slots)))"

lemma window_room_upsert: "window_room slots hash \<Longrightarrow> can_upsert slots hash"
  unfolding window_room_def can_upsert_def find_upsert_slot_def by (auto simp: upsert_loop_None)

definition occupies :: "fixed_map \<Rightarrow> nat set" where
  "occupies slots = {i. i < length slots \<and> live (slots ! i)}"

lemma window_room_mono:
  assumes "window_room slots hash" "length slots' = length slots" "occupies slots' \<subseteq> occupies slots"
  shows "window_room slots' hash"
proof -
  let ?n = "length slots"
  obtain step where s: "step < probe_limit slots" "\<not> live (slots ! probe_index (fixed_map_start hash ?n) step ?n)" and ne: "slots \<noteq> []"
    using assms(1) by (auto simp: window_room_def)
  have "probe_index (fixed_map_start hash ?n) step ?n < ?n"
    using ne s(1) start_less [of ?n "fixed_map_fingerprint hash"] by (intro probe_index_less) (auto simp: fixed_map_start_def probe_limit_def)
  then have "\<not> live (slots' ! probe_index (fixed_map_start hash ?n) step ?n)" using s(2) assms(2,3) by (auto simp: occupies_def)
  then show ?thesis using s(1) ne assms(2) unfolding window_room_def probe_limit_def by (metis length_0_conv)
qed

lemma compact_loop_occupies:
  assumes "hole < length slots" "cursor < length slots" "occupies slots \<subseteq> A" "hole \<in> A"
  shows "occupies (compact_loop budget hole cursor slots) \<subseteq> A \<and> length (compact_loop budget hole cursor slots) = length slots"
  using assms
proof (induction budget arbitrary: hole cursor slots)
  case (Suc budget)
  let ?n = "length slots" and ?c = "slots ! cursor"
  have nx: "next_probe_index cursor ?n < ?n" using Suc.prems(2) by (auto simp: next_probe_index_def)
  let ?moved = "slots[hole := ?c, cursor := ?c\<lparr>slot_value := DELETED_VALUE\<rparr>]"
  have dead: "\<not> live (?c\<lparr>slot_value := DELETED_VALUE\<rparr>)" "\<not> live default_slot" by (simp_all add: live_def default_slot_def)
  have emptied: "occupies (slots[hole := default_slot]) \<subseteq> A" using Suc.prems(3) dead(2) by (auto simp: occupies_def nth_update)
  have moved: "occupies ?moved \<subseteq> A" using Suc.prems dead(1) by (auto simp: occupies_def nth_update)
  have cA: "cursor \<in> A" if "slot_value ?c \<noteq> EMPTY_VALUE" "slot_value ?c \<noteq> DELETED_VALUE"
    using that Suc.prems(2,3) by (auto simp: occupies_def live_def)
  have "cursor < length ?moved" "next_probe_index cursor ?n < length ?moved" using Suc.prems(2) nx by simp_all
  note IH1 = Suc.IH [OF this moved] and IH2 = Suc.IH [OF Suc.prems(1) nx Suc.prems(3,4)]
  show ?case using emptied IH1 IH2 cA by (auto simp: Let_def)
qed simp

lemma remove_occupies:
  "occupies (snd (fixed_map_remove hash slots)) \<subseteq> occupies slots" "length (snd (fixed_map_remove hash slots)) = length slots"
proof -
  have loop: "occupies (snd (remove_loop slots fp start steps)) \<subseteq> occupies slots \<and> length (snd (remove_loop slots fp start steps)) = length slots"
    if "slots \<noteq> []" "start < length slots" "\<forall>s \<in> set steps. s < length slots" for fp start steps
    using that(3)
  proof (induction steps)
    case (Cons step steps)
    let ?i = "probe_index start step (length slots)"
    let ?s = "slots[?i := (slots ! ?i)\<lparr>slot_value := DELETED_VALUE\<rparr>]"
    have i: "?i < length slots" using Cons.prems that(2) by (intro probe_index_less) auto
    have occ: "occupies ?s \<subseteq> occupies slots" by (auto simp: occupies_def nth_update live_def)
    have nx: "next_probe_index ?i (length ?s) < length ?s" using i by (auto simp: next_probe_index_def)
    have "?i \<in> occupies slots" if "slot_value (slots ! ?i) \<noteq> EMPTY_VALUE" "slot_value (slots ! ?i) \<noteq> DELETED_VALUE"
      using that i by (simp add: occupies_def live_def)
    then have "occupies (compact_deleted ?i ?s) \<subseteq> occupies slots \<and> length (compact_deleted ?i ?s) = length slots"
      if "slot_value (slots ! ?i) \<noteq> EMPTY_VALUE" "slot_value (slots ! ?i) \<noteq> DELETED_VALUE"
      using compact_loop_occupies [of ?i ?s, OF _ nx occ] i that by (simp add: compact_deleted_def)
    then show ?case using Cons by (auto simp: Let_def)
  qed simp
  show "occupies (snd (fixed_map_remove hash slots)) \<subseteq> occupies slots" "length (snd (fixed_map_remove hash slots)) = length slots"
  proof (atomize (full), cases "slots = []")
    case False
    have "\<forall>s \<in> set [0..<probe_limit slots]. s < length slots" by (simp add: probe_limit_def)
    from loop [OF False _ this, of "fixed_map_start hash (length slots)" "fixed_map_fingerprint hash"] False start_less
    show "occupies (snd (fixed_map_remove hash slots)) \<subseteq> occupies slots \<and> length (snd (fixed_map_remove hash slots)) = length slots"
      by (simp add: fixed_map_remove_def fixed_map_start_def)
  qed (simp add: fixed_map_remove_def)
qed

section \<open>A preflight that does not last\<close>

text \<open>
  A table for 128 entries with 65 of them: the entries 0 to 62 lie at their homes, entry 63 has home 0 and entry
  64 has home 1, so that they end up at the positions 63 and 64. The number 340573321 is the inverse of the
  multiplier of the home function.
\<close>

definition crowd_mixed :: "nat \<Rightarrow> nat" where
  "crowd_mixed k = (if k = 63 then 1 else if k = 64 then 2 ^ 24 + 1 else k * 2 ^ 24)"

definition crowd_home :: "nat \<Rightarrow> nat" where
  "crowd_home k = (if k = 63 then 0 else if k = 64 then 1 else k)"

definition crowd_fp :: "nat \<Rightarrow> u32" where
  "crowd_fp k = of_nat (crowd_mixed k) * 340573321"

definition crowd_hash :: "nat \<Rightarrow> u64" where
  "crowd_hash k = push_bit 32 (ucast (crowd_fp k))"

definition crowd_slot :: "nat \<Rightarrow> fixed_map_slot" where
  "crowd_slot k = \<lparr>slot_fingerprint = crowd_fp k, slot_value = of_nat k\<rparr>"

definition crowd :: "nat \<Rightarrow> fixed_map" where
  "crowd k = map (\<lambda>j. if j < k then crowd_slot j else default_slot) [0..<256]"

lemma crowd_mix: "crowd_fp k * 0x9e3779b9 = of_nat (crowd_mixed k)"
proof -
  have "340573321 * (0x9e3779b9 :: u32) = 1" by simp
  then show ?thesis by (simp only: crowd_fp_def mult.assoc mult_1_right)
qed

lemma crowd_unat: "k \<le> 64 \<Longrightarrow> unat (of_nat (crowd_mixed k) :: u32) = crowd_mixed k"
  by (simp add: unat_of_nat crowd_mixed_def)

lemma crowd_start: "k \<le> 64 \<Longrightarrow> fixed_map_fingerprint_start (crowd_fp k) 256 = crowd_home k"
  unfolding fixed_map_fingerprint_start_def crowd_mix by (simp add: crowd_unat) (simp add: crowd_mixed_def crowd_home_def)

lemma crowd_fp_inj: "j \<le> 64 \<Longrightarrow> k \<le> 64 \<Longrightarrow> crowd_fp j = crowd_fp k \<longleftrightarrow> j = k"
proof
  assume jk: "j \<le> 64" "k \<le> 64" and "crowd_fp j = crowd_fp k"
  then have "unat (of_nat (crowd_mixed j) :: u32) = unat (of_nat (crowd_mixed k) :: u32)" using crowd_mix by metis
  then have "crowd_mixed j = crowd_mixed k" using jk by (simp add: crowd_unat)
  then have "crowd_mixed j div 2 ^ 24 = crowd_mixed k div 2 ^ 24" "crowd_mixed j mod 2 ^ 24 = crowd_mixed k mod 2 ^ 24" by simp_all
  moreover have "crowd_mixed i div 2 ^ 24 = crowd_home i" "crowd_mixed i mod 2 ^ 24 = (if i = 63 \<or> i = 64 then 1 else 0)" for i
    by (simp_all add: crowd_mixed_def crowd_home_def)
  ultimately have "crowd_home j = crowd_home k" "(j = 63 \<or> j = 64) = (k = 63 \<or> k = 64)" by (simp_all split: if_splits)
  then show "j = k" by (auto simp: crowd_home_def split: if_splits)
qed simp

lemma crowd_fingerprint: "fixed_map_fingerprint (crowd_hash k) = crowd_fp k"
proof -
  have "(ucast (push_bit 32 (ucast (crowd_fp k) :: u64)) :: u32) = 0" by (rule bit_word_eqI) (auto simp: bit_simps)
  moreover have "(ucast (drop_bit 32 (push_bit 32 (ucast (crowd_fp k) :: u64))) :: u32) = crowd_fp k"
    by (rule bit_word_eqI) (auto simp: bit_simps)
  ultimately show ?thesis by (simp add: fixed_map_fingerprint_def crowd_hash_def)
qed

lemma crowd_live: "k \<le> 64 \<Longrightarrow> live (crowd_slot k)"
proof -
  assume k: "k \<le> 64"
  have "unat (of_nat k :: u32) = k" using k by (simp add: unat_of_nat)
  moreover have "unat EMPTY_VALUE = 4294967295" "unat DELETED_VALUE = 4294967294"
    by (simp_all add: EMPTY_VALUE_def DELETED_VALUE_def unsigned_minus_1_eq_mask mask_eq_exp_minus_1)
  ultimately show ?thesis using k by (auto simp: live_def crowd_slot_def)
qed

lemma crowd_nth: "j < 256 \<Longrightarrow> crowd k ! j = (if j < k then crowd_slot j else default_slot)" "length (crowd k) = 256"
  by (simp_all add: crowd_def)

declare crowd_nth(2) [simp]

lemma upsert_loop_skip:
  assumes "\<forall>step \<in> set xs. live (slots ! probe_index start step (length slots)) \<and> slot_fingerprint (slots ! probe_index start step (length slots)) \<noteq> fp"
  shows "upsert_loop slots fp start deleted (xs @ ys) = upsert_loop slots fp start deleted ys"
  using assms by (induction xs) (auto simp: Let_def live_def)

lemma crowd_insert:
  assumes k: "k \<le> 64" shows "fixed_map_insert (crowd_hash k) (of_nat k) (crowd k) = (Some None, crowd (Suc k))"
proof -
  let ?h = "crowd_home k" and ?s = "crowd k"
  define d where "d = k - ?h"
  have d: "d < 64" "?h + d = k" "k < 256" using k by (auto simp: d_def crowd_home_def)
  have at: "probe_index ?h step 256 = ?h + step" if "step \<le> d" for step using that d by (auto simp: probe_index_def Let_def)
  have split: "[0..<64] = [0..<d] @ d # [Suc d..<64]" 
    using d(1) upt_add_eq_append [of 0 d "64 - d"] upt_conv_Cons [of d 64] by simp
  have "upsert_loop ?s (crowd_fp k) ?h None ([0..<d] @ d # [Suc d..<64]) = upsert_loop ?s (crowd_fp k) ?h None (d # [Suc d..<64])"
  proof (rule upsert_loop_skip, intro ballI)
    fix step assume "step \<in> set [0..<d]"
    then have s: "step < d" by simp
    then have j: "?h + step < k" "?h + step < 256" "?h + step \<le> 64" using d k by auto
    then show "live (?s ! probe_index ?h step (length ?s)) \<and> slot_fingerprint (?s ! probe_index ?h step (length ?s)) \<noteq> crowd_fp k"
      using at [of step] s crowd_live [OF j(3)] crowd_fp_inj [OF j(3) k] by (simp add: crowd_nth crowd_slot_def)
  qed
  also have "\<dots> = Some (k, None)" using at [of d] d(2,3) by (simp add: crowd_nth default_slot_def Let_def)
  finally have "find_upsert_slot ?s (crowd_hash k) = Some (k, None)"
    using split by (simp add: find_upsert_slot_def probe_limit_def MAX_FIXED_MAP_PROBES_def crowd_nth crowd_fingerprint fixed_map_start_def crowd_start [OF k] crowd_def)
  moreover have "?s[k := crowd_slot k] = crowd (Suc k)" by (rule nth_equalityI) (auto simp: crowd_nth nth_list_update less_Suc_eq)
  ultimately show ?thesis by (simp add: fixed_map_insert_def crowd_fingerprint crowd_slot_def)
qed

lemma crowd_run:
  "j \<le> k \<Longrightarrow> k \<le> 65 \<Longrightarrow> snd (fixed_map_run (map (\<lambda>i. DirInsert (crowd_hash i) (of_nat i)) [j..<k]) (crowd j)) = crowd k"
proof (induction "k - j" arbitrary: j)
  case (Suc n)
  then have "snd (fixed_map_run (map (\<lambda>i. DirInsert (crowd_hash i) (of_nat i)) [Suc j..<k]) (crowd (Suc j))) = crowd k" by (intro Suc.hyps(1)) auto
  moreover have "[j..<k] = j # [Suc j..<k]" using Suc.hyps(2) by (simp add: upt_conv_Cons)
  ultimately show ?case using crowd_insert [of j] Suc.hyps(2) Suc.prems by (auto split: prod.splits)
qed simp

lemma compact_loop_skip:
  assumes "\<forall>j < k. live (slots ! (cursor + j)) \<and> \<not> probe_distance (fixed_map_fingerprint_start (slot_fingerprint (slots ! (cursor + j))) (length slots)) hole (length slots)
      < probe_distance (fixed_map_fingerprint_start (slot_fingerprint (slots ! (cursor + j))) (length slots)) (cursor + j) (length slots)"
    "cursor + k < length slots"
  shows "compact_loop (k + b) hole cursor slots = compact_loop b hole (cursor + k) slots"
  using assms
proof (induction k arbitrary: cursor)
  case (Suc k)
  have "compact_loop (Suc k + b) hole cursor slots = compact_loop (k + b) hole (Suc cursor) slots"
    using Suc.prems(1) [rule_format, of 0] Suc.prems(2) by (simp add: Let_def live_def next_probe_index_def)
  also have "\<dots> = compact_loop b hole (Suc cursor + k) slots"
    using Suc.prems by (intro Suc.IH) (auto dest: spec [of _ "Suc _"])
  finally show ?case by simp
qed simp

definition crowd_after :: fixed_map where
  "crowd_after = (crowd 65)[0 := crowd_slot 63, 63 := crowd_slot 64, 64 := (crowd_slot 64)\<lparr>slot_value := DELETED_VALUE\<rparr>]"

lemma crowd_remove: "snd (fixed_map_remove (crowd_hash 0) (crowd 65)) = crowd_after"
proof -
  let ?s = "(crowd 65)[0 := (crowd_slot 0)\<lparr>slot_value := DELETED_VALUE\<rparr>]"
  have len: "length ?s = 256" by (simp add: crowd_nth)
  have at: "?s ! j = crowd_slot j" if "0 < j" "j \<le> 64" for j using that by (simp add: crowd_nth nth_list_update)
  have lv: "slot_value (crowd_slot j) \<noteq> EMPTY_VALUE \<and> slot_value (crowd_slot j) \<noteq> DELETED_VALUE" if "j \<le> 64" for j
    using crowd_live [OF that] by (simp add: live_def)
  have skip: "compact_loop (62 + 2) 0 1 ?s = compact_loop 2 0 (1 + 62) ?s"
  proof (rule compact_loop_skip)
    show "\<forall>j < 62. live (?s ! (1 + j)) \<and> \<not> probe_distance (fixed_map_fingerprint_start (slot_fingerprint (?s ! (1 + j))) (length ?s)) 0 (length ?s)
      < probe_distance (fixed_map_fingerprint_start (slot_fingerprint (?s ! (1 + j))) (length ?s)) (1 + j) (length ?s)"
    proof (intro allI impI)
      fix j :: nat assume j: "j < 62"
      have "fixed_map_fingerprint_start (slot_fingerprint (?s ! (1 + j))) (length ?s) = 1 + j"
        using at [of "1 + j"] crowd_start [of "1 + j"] j by (simp add: len crowd_slot_def crowd_home_def)
      then show "live (?s ! (1 + j)) \<and> \<not> probe_distance (fixed_map_fingerprint_start (slot_fingerprint (?s ! (1 + j))) (length ?s)) 0 (length ?s)
      < probe_distance (fixed_map_fingerprint_start (slot_fingerprint (?s ! (1 + j))) (length ?s)) (1 + j) (length ?s)"
        using at [of "1 + j"] crowd_live [of "1 + j"] j by (simp add: probe_distance_def)
    qed
  qed (simp add: len)
  have h: "fixed_map_fingerprint_start (slot_fingerprint (crowd_slot 63)) 256 = 0" "fixed_map_fingerprint_start (slot_fingerprint (crowd_slot 64)) 256 = 1"
    using crowd_start [of 63] crowd_start [of 64] by (simp_all add: crowd_slot_def crowd_home_def)
  have "compact_loop 2 0 63 ?s = crowd_after"
    using at [of 63] at [of 64] lv [of 63] lv [of 64] h len
    by (simp add: numeral_2_eq_2 Let_def probe_distance_def next_probe_index_def crowd_after_def)
  then have "compact_deleted 0 ?s = crowd_after"
    using skip by (simp add: compact_deleted_def len MAX_FIXED_MAP_PROBES_def next_probe_index_def)
  moreover have "crowd 65 \<noteq> []" "[0..<probe_limit (crowd 65)] = 0 # [1..<64]"
    by (simp_all add: crowd_def probe_limit_def MAX_FIXED_MAP_PROBES_def upt_conv_Cons)
  moreover have "crowd 65 ! 0 = crowd_slot 0" by (simp add: crowd_nth)
  ultimately show ?thesis using lv [of 0] crowd_start [of 0]
    by (simp add: fixed_map_remove_def crowd_fingerprint fixed_map_start_def crowd_nth crowd_home_def probe_index_def Let_def crowd_slot_def)
qed

lemma crowd_refuses: "\<not> can_upsert crowd_after (crowd_hash 0)"
proof -
  have len: "length crowd_after = 256" by (simp add: crowd_after_def crowd_nth)
  have "live (crowd_after ! step) \<and> slot_fingerprint (crowd_after ! step) \<noteq> crowd_fp 0" if "step < 64" for step
  proof -
    let ?k = "if step = 0 then 63 else if step = 63 then 64 else step"
    have "0 < ?k \<and> ?k \<le> 64 \<and> crowd_after ! step = crowd_slot ?k"
      using that by (auto simp: crowd_after_def crowd_nth nth_list_update)
    then obtain k where k: "0 < k" "k \<le> 64" "crowd_after ! step = crowd_slot k" by blast
    then show ?thesis using crowd_live [of k] crowd_fp_inj [of k 0] by (simp add: crowd_slot_def)
  qed
  then have "upsert_loop crowd_after (crowd_fp 0) 0 None [0..<64] = None"
    using len by (simp add: upsert_loop_None probe_index_def Let_def)
  then show ?thesis
    using len crowd_start [of 0]
    by (simp add: can_upsert_def find_upsert_slot_def crowd_fingerprint fixed_map_start_def crowd_home_def probe_limit_def MAX_FIXED_MAP_PROBES_def)
qed

text \<open>
  C40 (error): the preflight of an insertion does not survive a removal. There is a table, built by insertions
  alone into a new one, in which \<^verbatim>\<open>can_upsert\<close> answers yes for a hash, and after the removal of just that hash it
  answers no: compaction moved other entries into the window and freed a slot outside of it. The memory tier asks
  \<^verbatim>\<open>can_upsert\<close>, then removes the entry it replaces, and then inserts with \<^verbatim>\<open>expect\<close>, so this table makes the
  replacement of a resident key panic. When the window has a slot that is not occupied, the answer does survive.
\<close>
theorem directory_preflight_lost:
  "(\<exists>ops slots hash. (\<forall>op \<in> set ops. \<exists>h v. op = DirInsert h v \<and> v < DELETED_VALUE)
      \<and> fixed_map_try_new (\<lambda>_. True) 128 = Inr (crowd 0) \<and> slots = snd (fixed_map_run ops (crowd 0)) \<and> can_upsert slots hash
      \<and> (\<forall>v. fixed_map_insert hash v (snd (fixed_map_remove hash slots)) = (None, snd (fixed_map_remove hash slots))))
   \<and> (\<forall>slots hash hash'. window_room slots hash \<longrightarrow> can_upsert (snd (fixed_map_remove hash' slots)) hash)"
proof (intro conjI allI impI)
  let ?ops = "map (\<lambda>i. DirInsert (crowd_hash i) (of_nat i)) [0..<65]"
  have "crowd 0 = replicate 256 default_slot" by (simp add: crowd_def map_replicate_const)
  then have new: "fixed_map_try_new (\<lambda>_. True) 128 = Inr (crowd 0)"
    by (simp add: fixed_map_try_new_def fixed_map_slot_count_def checked_mul_def usize_max_def)
  have vals: "\<forall>op \<in> set ?ops. \<exists>h v. op = DirInsert h v \<and> v < DELETED_VALUE"
    by (auto simp: word_less_nat_alt unat_of_nat DELETED_VALUE_def)
  have "crowd 65 \<noteq> []" "[0..<probe_limit (crowd 65)] = 0 # [1..<64]" "crowd 65 ! 0 = crowd_slot 0"
    by (simp_all add: crowd_def probe_limit_def MAX_FIXED_MAP_PROBES_def upt_conv_Cons)
  then have "can_upsert (crowd 65) (crowd_hash 0)"
    using crowd_start [of 0] crowd_live [of 0]
    by (simp add: can_upsert_def find_upsert_slot_def crowd_fingerprint fixed_map_start_def crowd_home_def probe_index_def Let_def live_def crowd_slot_def)
  moreover have "fixed_map_insert (crowd_hash 0) v crowd_after = (None, crowd_after)" for v
    using crowd_refuses unfolding fixed_map_insert_def can_upsert_def by (metis option.simps(4))
  ultimately show "\<exists>ops slots hash. (\<forall>op \<in> set ops. \<exists>h v. op = DirInsert h v \<and> v < DELETED_VALUE)
      \<and> fixed_map_try_new (\<lambda>_. True) 128 = Inr (crowd 0) \<and> slots = snd (fixed_map_run ops (crowd 0)) \<and> can_upsert slots hash
      \<and> (\<forall>v. fixed_map_insert hash v (snd (fixed_map_remove hash slots)) = (None, snd (fixed_map_remove hash slots)))"
    using new vals crowd_run [of 0 65] crowd_remove by (intro exI [of _ ?ops] exI [of _ "crowd 65"] exI [of _ "crowd_hash 0"]) auto
  fix slots hash hash' assume "window_room slots hash"
  then show "can_upsert (snd (fixed_map_remove hash' slots)) hash"
    using window_room_mono [OF _ remove_occupies(2,1)] window_room_upsert by blast
qed

theorem directory_preflight_lost_witness:
  "window_room (crowd 0) 5 \<and> can_upsert (snd (fixed_map_remove 7 (crowd 0))) 5"
proof -
  have "crowd 0 = replicate 256 default_slot" by (simp add: crowd_def map_replicate_const)
  moreover have "fixed_map_start 5 256 < 256" by (simp add: fixed_map_start_def start_less)
  ultimately have "window_room (crowd 0) 5"
    unfolding window_room_def
    by (intro conjI exI [of _ 0]) (simp_all add: probe_limit_def MAX_FIXED_MAP_PROBES_def probe_index_def Let_def live_def default_slot_def)
  then show ?thesis using directory_preflight_lost by blast
qed

section \<open>The largest slot index\<close>

text \<open>
  The slots of a shard are indexed up to \<^verbatim>\<open>MAX_POLICY_SLOT_INDEX\<close>, which is the marker of a deleted directory slot:
  an entry stored there is not found again.
\<close>

lemma largest_slot_index_lost:
  assumes "fixed_map_try_new alloc n = Inr slots" "0 < n"
  shows "fst (fixed_map_insert hash (of_nat MAX_POLICY_SLOT_INDEX) slots) = Some None
    \<and> fixed_map_get (snd (fixed_map_insert hash (of_nat MAX_POLICY_SLOT_INDEX) slots)) hash = None"
proof -
  have len: "length slots = 2 * n" and all: "\<And>i. i < 2 * n \<Longrightarrow> slots ! i = default_slot"
    using try_new_empty(3,4) [OF assms(1)] by (auto simp: list_all_length)
  let ?h = "fixed_map_start hash (2 * n)"
  have h: "?h < 2 * n" using assms(2) by (simp add: fixed_map_start_def start_less)
  have steps: "[0..<probe_limit slots] = 0 # 1 # [2..<probe_limit slots]"
    using assms(2) by (simp add: probe_limit_def len MAX_FIXED_MAP_PROBES_def upt_conv_Cons numeral_2_eq_2)
  have p0: "probe_index ?h 0 (2 * n) = ?h" using h by (simp add: probe_index_def Let_def)
  have p1: "probe_index ?h 1 (2 * n) < 2 * n" "probe_index ?h 1 (2 * n) \<noteq> ?h" 
    using h assms(2) unfolding probe_index_def Let_def by (cases "?h = 0"; simp; linarith)+
  have v: "(of_nat MAX_POLICY_SLOT_INDEX :: u32) = DELETED_VALUE" by (simp add: MAX_POLICY_SLOT_INDEX_def u32_max_def DELETED_VALUE_def)
  let ?t = "slots[?h := \<lparr>slot_fingerprint = fixed_map_fingerprint hash, slot_value = DELETED_VALUE\<rparr>]"
  have ne: "slots \<noteq> []" using len assms(2) by auto
  have "find_upsert_slot slots hash = Some (?h, None)"
    using ne len p0 all [OF h] by (simp add: find_upsert_slot_def steps fixed_map_start_def default_slot_def)
  moreover have "fixed_map_get ?t hash = None"
    using ne len h p0 p1 all [OF p1(1)] steps
    by (simp add: fixed_map_get_def probe_limit_def fixed_map_start_def Let_def default_slot_def EMPTY_VALUE_def DELETED_VALUE_def)
  ultimately show ?thesis by (simp add: fixed_map_insert_def v)
qed

end
