(* ===== verification/Eviction_Properties.thy ===== *)
theory Eviction_Properties
  imports Eviction Directory_Preflight
begin

text \<open>
  Histories of the eviction metadata of the memory tier, from its construction: the policy tracks exactly the
  entries that were inserted and not removed, no operation panics, and every victim is a resident that may be
  reclaimed; the ghost queue stays within its bytes and has no false hits.
\<close>

section \<open>Histories of a policy\<close>

text \<open>
  What the memory tier does with a policy: an entry joins at a free slot, is hit, is removed; a victim is
  selected; a resident (a victim, or the entry that is to be replaced) is detached; and of the entries
  that are detached, any number at a time, each is evicted for good or put back because the admission failed. \<open>R\<close> holds
  the resident entries and \<open>D\<close> the detached ones, by slot.
\<close>

type_synonym detached_map = "nat \<rightharpoonup> detached_policy"

inductive policy_reach ::
    "allocator \<Rightarrow> l1_eviction_policy \<Rightarrow> nat \<Rightarrow> eviction_state \<Rightarrow> policy_slot list \<Rightarrow> entry_map \<Rightarrow> detached_map \<Rightarrow> bool"
  for alloc :: allocator and policy :: l1_eviction_policy and cap :: nat where
  started: "length slots < NO_POLICY_SLOT \<Longrightarrow> (\<forall>i < length slots. \<not> is_resident (slots ! i)) \<Longrightarrow>
    eviction_new alloc policy cap (length slots) = Some (Inr st) \<Longrightarrow> policy_reach alloc policy cap st slots Map.empty Map.empty"
| inserted: "policy_reach alloc policy cap st slots R D \<Longrightarrow> i < length slots \<Longrightarrow> R i = None \<Longrightarrow> D i = None \<Longrightarrow> weight_ok w \<Longrightarrow>
    eviction_insert i h w st slots = Some (st', slots') \<Longrightarrow> policy_reach alloc policy cap st' slots' (R(i \<mapsto> (h, w))) D"
| was_hit: "policy_reach alloc policy cap st slots R D \<Longrightarrow> i \<in> dom R \<Longrightarrow>
    eviction_record_hit i st slots = Some (st', slots') \<Longrightarrow> policy_reach alloc policy cap st' slots' R D"
| removed: "policy_reach alloc policy cap st slots R D \<Longrightarrow> i \<in> dom R \<Longrightarrow>
    eviction_remove i st slots = Some (st', slots') \<Longrightarrow> policy_reach alloc policy cap st' slots' (R(i := None)) D"
| selected: "policy_reach alloc policy cap st slots R D \<Longrightarrow> \<forall>i \<in> dom R. can i \<noteq> None \<Longrightarrow>
    eviction_select_victim can remaining st slots = Some (victim, m, st', slots') \<Longrightarrow> policy_reach alloc policy cap st' slots' R D"
| detached: "policy_reach alloc policy cap st slots R D \<Longrightarrow> R i = Some (h, w) \<Longrightarrow>
    eviction_detach i w st slots = Some (d, st', slots') \<Longrightarrow> policy_reach alloc policy cap st' slots' (R(i := None)) (D(i \<mapsto> d))"
| evicted: "policy_reach alloc policy cap st slots R D \<Longrightarrow> D i = Some d \<Longrightarrow> eviction_commit d st = Some st' \<Longrightarrow>
    policy_reach alloc policy cap st' slots R (D(i := None))"
| put_back: "policy_reach alloc policy cap st slots R D \<Longrightarrow> D i = Some d \<Longrightarrow> eviction_restore i d st slots = Some (st', slots') \<Longrightarrow>
    policy_reach alloc policy cap st' slots' (R(i \<mapsto> (dp_hash d, dp_weight d))) (D(i := None))"

text \<open>The detached entries: off the slot array, and what the policy handed out for them.\<close>

definition detached_ok :: "eviction_state \<Rightarrow> policy_slot list \<Rightarrow> entry_map \<Rightarrow> detached_map \<Rightarrow> bool" where
  "detached_ok st slots R D \<longleftrightarrow> (\<forall>i d. D i = Some d \<longrightarrow> i < length slots \<and> R i = None \<and> weight_ok (dp_weight d)
     \<and> detached_for d (eviction_kind st) (dp_hash d, dp_weight d))"

lemma detached_ok_step:
  assumes "detached_ok st slots R D" "length slots' = length slots" "eviction_kind st' = eviction_kind st"
    and "\<And>i d. D' i = Some d \<Longrightarrow> D i = Some d" "\<And>i. i \<in> dom R' \<Longrightarrow> i \<in> dom R \<or> D' i = None"
  shows "detached_ok st' slots' R' D'"
  using assms unfolding detached_ok_def by (metis domI domIff)

lemma policy_reach_wf:
  assumes "policy_reach alloc policy cap st slots R D" and alloc: "\<And>m. alloc m"
  shows "eviction_wf st slots R \<and> detached_ok st slots R D"
  using assms(1)
proof induction
  case (started slots st)
  from eviction_new_ok [where alloc = alloc and policy = policy and cap = cap, OF started(1) alloc] started(2,3)
  show ?case by (force simp: detached_ok_def)
next
  case (inserted st slots R D i w h st' slots')
  note IH = conjunct1 [OF inserted(7)] conjunct2 [OF inserted(7)]
  from eviction.insert_law [OF IH(1) inserted(2,3,5), of h] inserted(6)
  have l: "eviction_wf st' slots' (R(i \<mapsto> (h, w)))" "length slots' = length slots" "eviction_kind st' = eviction_kind st"
    by (auto simp: same_outside_def simp del: fun_upd_apply)
  have "detached_ok st' slots' (R(i \<mapsto> (h, w))) D" by (rule detached_ok_step [OF IH(2) l(2,3)]) (use inserted(4) in auto)
  with l(1) show ?case by blast
next
  case (was_hit st slots R D i st' slots')
  note IH = conjunct1 [OF was_hit(4)] conjunct2 [OF was_hit(4)]
  from eviction.hit_law [OF IH(1) was_hit(2)] was_hit(3)
  have l: "eviction_wf st' slots' R" "length slots' = length slots" "eviction_kind st' = eviction_kind st" by (auto simp: same_outside_def)
  have "detached_ok st' slots' R D" by (rule detached_ok_step [OF IH(2) l(2,3)]) auto
  with l(1) show ?case by blast
next
  case (removed st slots R D i st' slots')
  note IH = conjunct1 [OF removed(4)] conjunct2 [OF removed(4)]
  from eviction.remove_law [OF IH(1) removed(2)] removed(3)
  have l: "eviction_wf st' slots' (R(i := None))" "length slots' = length slots" "eviction_kind st' = eviction_kind st"
    by (auto simp: same_outside_def simp del: fun_upd_apply)
  have "detached_ok st' slots' (R(i := None)) D" by (rule detached_ok_step [OF IH(2) l(2,3)]) (auto split: if_splits)
  with l(1) show ?case by blast
next
  case (selected st slots R D can remaining victim m st' slots')
  note IH = conjunct1 [OF selected(4)] conjunct2 [OF selected(4)]
  from eviction.select_law [OF IH(1) selected(2), of remaining] selected(3)
  have l: "eviction_wf st' slots' R" "length slots' = length slots" "eviction_kind st' = eviction_kind st" by (auto simp: same_outside_def)
  have "detached_ok st' slots' R D" by (rule detached_ok_step [OF IH(2) l(2,3)]) auto
  with l(1) show ?case by blast
next
  case (detached st slots R D i h w d st' slots')
  note IH = conjunct1 [OF detached(4)] conjunct2 [OF detached(4)]
  from eviction.detach_law [OF IH(1) detached(2)] detached(3)
  have l: "eviction_wf st' slots' (R(i := None))" "detached_for d (eviction_kind st) (h, w)" "length slots' = length slots" "eviction_kind st' = eviction_kind st"
    by (auto simp: same_outside_def simp del: fun_upd_apply)
  have "i < length slots" "weight_ok w"
    using eviction_resident(1) [OF IH(1) detached(2)] holds_entriesD(4) [OF eviction.entries_law [OF IH(1)] detached(2)] by auto
  then have "detached_ok st' slots' (R(i := None)) (D(i \<mapsto> d))"
    using IH(2) l(2-4) unfolding detached_ok_def detached_for_def by (auto split: detached_policy_kind.splits)
  with l(1) show ?case by blast
next
  case (evicted st slots R D i d st')
  note IH = conjunct1 [OF evicted(4)] conjunct2 [OF evicted(4)]
  have d: "detached_for d (eviction_kind st) (dp_hash d, dp_weight d)" using IH(2) evicted(2) by (auto simp: detached_ok_def)
  from eviction.commit_law [OF IH(1) d] evicted(3) have l: "eviction_wf st' slots R" "eviction_kind st' = eviction_kind st" by auto
  have "detached_ok st' slots R (D(i := None))" by (rule detached_ok_step [OF IH(2) refl l(2)]) (auto split: if_splits)
  with l(1) show ?case by blast
next
  case (put_back st slots R D i d st' slots')
  note IH = conjunct1 [OF put_back(4)] conjunct2 [OF put_back(4)]
  have d: "i < length slots" "R i = None" "detached_for d (eviction_kind st) (dp_hash d, dp_weight d)" "weight_ok (dp_weight d)"
    using IH(2) put_back(2) by (auto simp: detached_ok_def)
  from eviction.restore_law [OF IH(1) d] put_back(3)
  have l: "eviction_wf st' slots' (R(i \<mapsto> (dp_hash d, dp_weight d)))" "length slots' = length slots" "eviction_kind st' = eviction_kind st"
    by (auto simp: same_outside_def simp del: fun_upd_apply)
  have "detached_ok st' slots' (R(i \<mapsto> (dp_hash d, dp_weight d))) (D(i := None))"
    by (rule detached_ok_step [OF IH(2) l(2,3)]) (auto split: if_splits)
  with l(1) show ?case by blast
qed

text \<open>
  C15 (invariant): an eviction policy tracks exactly the resident entries. After any history of a CLOCK or S3-FIFO
  policy over a slot array, the slots flagged resident are exactly the entries that were inserted and neither
  removed nor detached, each with its hash; an admission may detach any number of residents, its victims and the entry it
  replaces, before it evicts or puts back each of them, and putting one back makes it resident again with its hash. Every next operation returns: nothing panics, no position, link or queue is out of step; and a victim
  selection spends at most its steps and answers only a resident that may be reclaimed.
\<close>
theorem policy_tracks_entries:
  assumes "policy_reach alloc policy cap st slots R D" and "\<And>m. alloc m"
  shows "(\<forall>i < length slots. is_resident (slots ! i) \<longleftrightarrow> i \<in> dom R)
    \<and> (\<forall>i h w. R i = Some (h, w) \<longrightarrow> i < length slots \<and> ps_hash (slots ! i) = h)
    \<and> (\<forall>i h w. i < length slots \<longrightarrow> R i = None \<longrightarrow> weight_ok w \<longrightarrow> eviction_insert i h w st slots \<noteq> None)
    \<and> (\<forall>i \<in> dom R. eviction_record_hit i st slots \<noteq> None \<and> eviction_remove i st slots \<noteq> None)
    \<and> (\<forall>i h w. R i = Some (h, w) \<longrightarrow> (\<exists>d st' slots'. eviction_detach i w st slots = Some (d, st', slots') \<and> dp_hash d = h \<and> dp_weight d = w))
    \<and> (\<forall>i d. D i = Some d \<longrightarrow> i < length slots \<and> \<not> is_resident (slots ! i) \<and> eviction_commit d st \<noteq> None \<and> eviction_restore i d st slots \<noteq> None)
    \<and> (\<forall>can remaining. (\<forall>i \<in> dom R. can i \<noteq> None) \<longrightarrow>
        (\<exists>r m st1 slots1. eviction_select_victim can remaining st slots = Some (r, m, st1, slots1) \<and> m \<le> remaining
          \<and> (\<forall>i. r = Some i \<longrightarrow> can i = Some True \<and> (\<exists>h w d st2 slots2. R i = Some (h, w)
              \<and> eviction_detach i w st1 slots1 = Some (d, st2, slots2) \<and> dp_hash d = h \<and> dp_weight d = w
              \<and> eviction_commit d st2 \<noteq> None \<and> eviction_restore i d st2 slots2 \<noteq> None))))"
proof -
  have wf: "eviction_wf st slots R" and off: "detached_ok st slots R D" using policy_reach_wf [OF assms] by blast+
  note e = eviction.entries_law [OF wf]
  have victim: "\<exists>r m st1 slots1. eviction_select_victim can remaining st slots = Some (r, m, st1, slots1) \<and> m \<le> remaining
          \<and> (\<forall>i. r = Some i \<longrightarrow> can i = Some True \<and> (\<exists>h w d st2 slots2. R i = Some (h, w)
              \<and> eviction_detach i w st1 slots1 = Some (d, st2, slots2) \<and> dp_hash d = h \<and> dp_weight d = w
              \<and> eviction_commit d st2 \<noteq> None \<and> eviction_restore i d st2 slots2 \<noteq> None))"
    if can: "\<forall>i \<in> dom R. can i \<noteq> None" for can remaining
  proof -
    obtain r m st1 slots1 where s: "eviction_select_victim can remaining st slots = Some (r, m, st1, slots1)" "eviction_wf st1 slots1 R" "m \<le> remaining"
      "\<forall>i. r = Some i \<longrightarrow> i \<in> dom R \<and> can i = Some True"
      using eviction.select_law [OF wf can, of remaining] by (elim exE conjE) (rule that)
    have "can i = Some True \<and> (\<exists>h w d st2 slots2. R i = Some (h, w) \<and> eviction_detach i w st1 slots1 = Some (d, st2, slots2)
        \<and> dp_hash d = h \<and> dp_weight d = w \<and> eviction_commit d st2 \<noteq> None \<and> eviction_restore i d st2 slots2 \<noteq> None)" if r: "r = Some i" for i
    proof -
      obtain h w where R: "R i = Some (h, w)" and c: "can i = Some True" using s(4) r by auto
      obtain d st2 slots2 where d: "eviction_detach i w st1 slots1 = Some (d, st2, slots2)" "detached_for d (eviction_kind st1) (h, w)"
        "eviction_wf st2 slots2 (R(i := None))" "same_outside (dom R) slots1 slots2" "eviction_kind st2 = eviction_kind st1"
        using eviction.detach_law [OF s(2) R] by (elim exE conjE) (rule that)
      have k: "detached_for d (eviction_kind st2) (h, w)" using d(2,5) by simp
      have "i < length slots2" "weight_ok w" using eviction_resident(1) [OF s(2) R] d(4) holds_entriesD(4) [OF eviction.entries_law [OF s(2)] R]
        by (auto simp: same_outside_def)
      from eviction.restore_law [OF d(3) this(1) _ k this(2)] eviction.commit_law [OF d(3) k] R c d(1) k
      show ?thesis by (auto simp: detached_for_def)
    qed
    with s show ?thesis by auto
  qed
  have out: "\<exists>d st' slots'. eviction_detach i w st slots = Some (d, st', slots') \<and> dp_hash d = h \<and> dp_weight d = w" if "R i = Some (h, w)" for i h w
    using eviction.detach_law [OF wf that] by (auto simp: detached_for_def)
  have held: "i < length slots" "\<not> is_resident (slots ! i)" "eviction_commit d st \<noteq> None" "eviction_restore i d st slots \<noteq> None" if "D i = Some d" for i d
  proof -
    have d: "i < length slots" "R i = None" "detached_for d (eviction_kind st) (dp_hash d, dp_weight d)" "weight_ok (dp_weight d)"
      using off that by (auto simp: detached_ok_def)
    show "i < length slots" by (rule d(1))
    show "\<not> is_resident (slots ! i)" using holds_entriesD(2,3,4) [OF e] d(1,2) by blast
    show "eviction_commit d st \<noteq> None" using eviction.commit_law [OF wf d(3)] by auto
    show "eviction_restore i d st slots \<noteq> None" using eviction.restore_law [OF wf d] by auto
  qed
  show ?thesis
  proof (intro conjI)
    show "\<forall>i d. D i = Some d \<longrightarrow> i < length slots \<and> \<not> is_resident (slots ! i) \<and> eviction_commit d st \<noteq> None \<and> eviction_restore i d st slots \<noteq> None"
      using held by blast
    show "\<forall>i h w. R i = Some (h, w) \<longrightarrow> (\<exists>d st' slots'. eviction_detach i w st slots = Some (d, st', slots') \<and> dp_hash d = h \<and> dp_weight d = w)"
      using out by blast
    show "\<forall>i < length slots. is_resident (slots ! i) \<longleftrightarrow> i \<in> dom R" using holds_entriesD(3) [OF e] by blast
    show "\<forall>i h w. R i = Some (h, w) \<longrightarrow> i < length slots \<and> ps_hash (slots ! i) = h" using holds_entriesD(2,4) [OF e] by blast
    show "\<forall>i h w. i < length slots \<longrightarrow> R i = None \<longrightarrow> weight_ok w \<longrightarrow> eviction_insert i h w st slots \<noteq> None"
      using eviction.insert_law [OF wf] by (intro allI impI) force
    show "\<forall>i \<in> dom R. eviction_record_hit i st slots \<noteq> None \<and> eviction_remove i st slots \<noteq> None"
      using eviction.hit_law [OF wf] eviction.remove_law [OF wf] by (intro ballI conjI) force+
  qed (use victim in blast)
qed

text \<open>
  The witness: a CLOCK policy over two slots whose slot 1 holds an entry, which is the victim of a selection; with an
  entry at slot 0 too, both are detached at once, and each can be put back.
\<close>

theorem policy_tracks_entries_witness:
  "\<exists>st slots st' slots' d\<^sub>0 d\<^sub>1. policy_reach (\<lambda>_. True) ClockPolicy 100 st slots [1 \<mapsto> (7, 5)] Map.empty
     \<and> is_resident (slots ! 1) \<and> \<not> is_resident (slots ! 0)
     \<and> ps_hash (slots ! 1) = 7 \<and> eviction_remove 1 st slots \<noteq> None
     \<and> (\<exists>r m st1 slots1. eviction_select_victim (\<lambda>_. Some True) 3 st slots = Some (r, m, st1, slots1) \<and> m \<le> 3)
     \<and> policy_reach (\<lambda>_. True) ClockPolicy 100 st' slots' Map.empty [0 \<mapsto> d\<^sub>0, 1 \<mapsto> d\<^sub>1]
     \<and> dp_hash d\<^sub>0 = 9 \<and> dp_hash d\<^sub>1 = 7 \<and> eviction_restore 0 d\<^sub>0 st' slots' \<noteq> None \<and> eviction_restore 1 d\<^sub>1 st' slots' \<noteq> None"
proof -
  let ?free = "[new_free 1, new_free NO_POLICY_SLOT]"
  let ?st = "EvictClock \<lparr>ck_hand = 0, ck_residents = [], ck_capacity = 2\<rparr>"
  let ?st' = "EvictClock \<lparr>ck_hand = 0, ck_residents = [1], ck_capacity = 2\<rparr>"
  let ?slots = "[new_free 1, new_clock 7 False 0]"
  have s: "policy_reach (\<lambda>_. True) ClockPolicy 100 ?st ?free Map.empty Map.empty"
    by (rule started) (auto simp: NO_POLICY_SLOT_def u32_max_def is_resident_def new_free_def eviction_new_def clock_new_def nth_Cons' less_2_cases_iff)
  have i: "eviction_insert 1 7 5 ?st ?free = Some (?st', ?slots)"
    by (simp add: eviction_insert_def clock_insert_def try_from_def update_at_def get_at_def u32_max_def)
  have r: "policy_reach (\<lambda>_. True) ClockPolicy 100 ?st' ?slots [1 \<mapsto> (7, 5)] Map.empty"
    by (rule inserted [OF s _ _ _ _ i]) (simp_all add: weight_ok_def u32_max_def)
  note p = policy_tracks_entries [OF r TrueI]
  have a: "is_resident (?slots ! 1)" "\<not> is_resident (?slots ! 0)"
    using p [THEN conjunct1, rule_format, of 1] p [THEN conjunct1, rule_format, of 0] by simp_all
  have b: "ps_hash (?slots ! 1) = 7" using p [THEN conjunct2, THEN conjunct1, rule_format, of 1 7 5] by simp
  have "eviction_insert 0 9 3 ?st' ?slots \<noteq> None"
    by (rule p [THEN conjunct2, THEN conjunct2, THEN conjunct1, rule_format]) (simp_all add: weight_ok_def u32_max_def)
  then obtain st\<^sub>2 slots\<^sub>2 where i\<^sub>2: "eviction_insert 0 9 3 ?st' ?slots = Some (st\<^sub>2, slots\<^sub>2)" by auto
  have c: "eviction_remove 1 ?st' ?slots \<noteq> None"
    using p [THEN conjunct2, THEN conjunct2, THEN conjunct2, THEN conjunct1] by simp
  have e: "\<exists>r m st1 slots1. eviction_select_victim (\<lambda>_. Some True) 3 ?st' ?slots = Some (r, m, st1, slots1) \<and> m \<le> 3"
    using p [THEN conjunct2, THEN conjunct2, THEN conjunct2, THEN conjunct2, THEN conjunct2, THEN conjunct2,
        THEN spec [of _ "\<lambda>_. Some True"], THEN spec [of _ 3]] by blast
  have r\<^sub>2: "policy_reach (\<lambda>_. True) ClockPolicy 100 st\<^sub>2 slots\<^sub>2 [1 \<mapsto> (7, 5), 0 \<mapsto> (9, 3)] Map.empty"
    by (rule inserted [OF r _ _ _ _ i\<^sub>2]) (simp_all add: weight_ok_def u32_max_def)
  note detach = policy_tracks_entries [OF _ TrueI, THEN conjunct2, THEN conjunct2, THEN conjunct2, THEN conjunct2, THEN conjunct1]
  from detach [OF r\<^sub>2, THEN spec [of _ 0], THEN spec [of _ 9], THEN spec [of _ 3]] obtain d\<^sub>0 st\<^sub>3 slots\<^sub>3 where d\<^sub>0: "eviction_detach 0 3 st\<^sub>2 slots\<^sub>2 = Some (d\<^sub>0, st\<^sub>3, slots\<^sub>3)" "dp_hash d\<^sub>0 = 9" by auto
  have "[1 \<mapsto> (7, 5), 0 \<mapsto> (9, 3)](0 := None) = ([1 \<mapsto> (7, 5)] :: entry_map)" by (simp add: fun_eq_iff)
  with policy_reach.detached [OF r\<^sub>2 _ d\<^sub>0(1)] have r\<^sub>3: "policy_reach (\<lambda>_. True) ClockPolicy 100 st\<^sub>3 slots\<^sub>3 [1 \<mapsto> (7, 5)] [0 \<mapsto> d\<^sub>0]" by simp
  from detach [OF r\<^sub>3, THEN spec [of _ 1], THEN spec [of _ 7], THEN spec [of _ 5]] obtain d\<^sub>1 st\<^sub>4 slots\<^sub>4 where d\<^sub>1: "eviction_detach 1 5 st\<^sub>3 slots\<^sub>3 = Some (d\<^sub>1, st\<^sub>4, slots\<^sub>4)" "dp_hash d\<^sub>1 = 7" by auto
  from policy_reach.detached [OF r\<^sub>3 _ d\<^sub>1(1)] have r\<^sub>4: "policy_reach (\<lambda>_. True) ClockPolicy 100 st\<^sub>4 slots\<^sub>4 Map.empty [0 \<mapsto> d\<^sub>0, 1 \<mapsto> d\<^sub>1]" by simp
  have "eviction_restore 0 d\<^sub>0 st\<^sub>4 slots\<^sub>4 \<noteq> None" "eviction_restore 1 d\<^sub>1 st\<^sub>4 slots\<^sub>4 \<noteq> None"
    using policy_tracks_entries [OF r\<^sub>4 TrueI, THEN conjunct2, THEN conjunct2, THEN conjunct2, THEN conjunct2, THEN conjunct2, THEN conjunct1] by simp_all
  then show ?thesis using r a b c e r\<^sub>4 d\<^sub>0(2) d\<^sub>1(2)
    by (intro exI [of _ ?st'] exI [of _ ?slots] exI [of _ st\<^sub>4] exI [of _ slots\<^sub>4] exI [of _ d\<^sub>0] exI [of _ d\<^sub>1] conjI)
qed

section \<open>Histories of the ghost queue\<close>

inductive ghost_reach :: "allocator \<Rightarrow> nat \<Rightarrow> nat \<Rightarrow> ghost_queue \<Rightarrow> u64 set \<Rightarrow> bool" for alloc :: allocator and n :: nat and cap :: nat where
  created: "ghost_new alloc n cap = Some (Inr g) \<Longrightarrow> ghost_reach alloc n cap g {}"
| remembered: "ghost_reach alloc n cap g S \<Longrightarrow> ghost_insert hash w g = Some g' \<Longrightarrow> ghost_reach alloc n cap g' (insert hash S)"
| taken: "ghost_reach alloc n cap g S \<Longrightarrow> ghost_take hash g = Some (b, g') \<Longrightarrow> ghost_reach alloc n cap g' (S - {hash})"

lemma ghost_reach_wf:
  assumes "ghost_reach alloc n cap g S" and n: "n < NO_POLICY_SLOT" and alloc: "\<And>m. alloc m"
  shows "\<exists>xs fs. ghost_wf g xs fs \<and> Ghost_Queue.remembered g xs \<subseteq> S \<and> gq_capacity_bytes g = cap"
  using assms(1)
proof induction
  case (created g)
  obtain g' where "ghost_new alloc n cap = Some (Inr g')" "ghost_wf g' [] [0..<n]" "gq_capacity_bytes g' = cap"
    by (rule ghost_new_ok [where alloc = alloc and cap = cap, OF n alloc]) (rule that)
  with created have "ghost_wf g [] [0..<n]" "gq_capacity_bytes g = cap" by auto
  then show ?case by (intro exI [of _ "[]"] exI [of _ "[0..<n]"]) (simp add: remembered_def)
next
  case (remembered g S hash w g')
  then obtain xs fs where wf: "ghost_wf g xs fs" and m: "Ghost_Queue.remembered g xs \<subseteq> S" "gq_capacity_bytes g = cap" by blast
  obtain g2 xs2 fs2 where "ghost_insert hash w g = Some g2" "ghost_wf g2 xs2 fs2" "Ghost_Queue.remembered g2 xs2 \<subseteq> insert hash (Ghost_Queue.remembered g xs)"
    "gq_capacity_bytes g2 = gq_capacity_bytes g"
    using ghost_insert_ok [OF wf, of hash w] by (elim exE conjE) (rule that)
  with remembered(2) m show ?case by (intro exI [of _ xs2] exI [of _ fs2]) auto
next
  case (taken g S hash b g')
  then obtain xs fs where wf: "ghost_wf g xs fs" and m: "Ghost_Queue.remembered g xs \<subseteq> S" "gq_capacity_bytes g = cap" by blast
  obtain g2 xs2 fs2 where "ghost_take hash g = Some (hash \<in> Ghost_Queue.remembered g xs, g2)" "ghost_wf g2 xs2 fs2"
    "Ghost_Queue.remembered g2 xs2 \<subseteq> Ghost_Queue.remembered g xs - {hash}" "gq_capacity_bytes g2 = gq_capacity_bytes g"
    by (rule ghost_take_ok [OF wf, of hash]) (rule that)
  with taken(2) m show ?case by (intro exI [of _ xs2] exI [of _ fs2]) auto
qed

text \<open>
  C16 (safety): the ghost queue of S3-FIFO is bounded and has no false hits. After any history of insertions and
  takes of a ghost queue for fewer than \<open>2 ^ 32 - 1\<close> entries, the bytes it remembers are within its capacity, every
  next insertion and take returns, and a take answers yes only for a hash that was inserted and not taken since,
  whatever fingerprints collide and whatever the directory refuses.
\<close>
theorem ghost_queue_no_false_hit:
  assumes "ghost_reach alloc n cap g S" and "n < NO_POLICY_SLOT" and "\<And>m. alloc m"
  shows "gq_bytes g \<le> cap \<and> (\<forall>hash w. ghost_insert hash w g \<noteq> None)
    \<and> (\<forall>hash. \<exists>b g'. ghost_take hash g = Some (b, g') \<and> (b \<longrightarrow> hash \<in> S))"
proof -
  obtain xs fs where wf: "ghost_wf g xs fs" and m: "Ghost_Queue.remembered g xs \<subseteq> S" "gq_capacity_bytes g = cap"
    using ghost_reach_wf [OF assms] by blast
  have "gq_bytes g \<le> cap" using wf m(2) by (simp add: ghost_wf_def)
  moreover have "ghost_insert hash w g \<noteq> None" for hash w using ghost_insert_ok [OF wf, of hash w] by auto
  moreover have "\<exists>b g'. ghost_take hash g = Some (b, g') \<and> (b \<longrightarrow> hash \<in> S)" for hash
    by (rule ghost_take_ok [OF wf, of hash]) (use m(1) in auto)
  ultimately show ?thesis by blast
qed

text \<open>The witness: a queue for two entries that remembers the hash 5 and not the hash 7.\<close>

theorem ghost_queue_no_false_hit_witness:
  "\<exists>g. ghost_reach (\<lambda>_. True) 2 10 g {5} \<and> gq_bytes g \<le> 10 \<and> ghost_insert 7 4 g \<noteq> None \<and> (\<exists>g'. ghost_take 7 g = Some (False, g'))"
proof -
  have n: "(2::nat) < NO_POLICY_SLOT" by (simp add: NO_POLICY_SLOT_def u32_max_def)
  obtain g where g: "ghost_new (\<lambda>_. True) 2 10 = Some (Inr g)"
    by (rule ghost_new_ok [where alloc = "\<lambda>_. True" and cap = 10, OF n TrueI]) (rule that)
  have c: "ghost_reach (\<lambda>_. True) 2 10 g {}" by (rule created [OF g])
  obtain g' where i: "ghost_insert 5 3 g = Some g'" using ghost_queue_no_false_hit [OF c n TrueI] by blast
  have r: "ghost_reach (\<lambda>_. True) 2 10 g' {5}" using ghost_reach.remembered [OF c i] by simp
  from ghost_queue_no_false_hit [OF r n TrueI] have p: "gq_bytes g' \<le> 10" "ghost_insert 7 4 g' \<noteq> None"
    "\<exists>b g''. ghost_take 7 g' = Some (b, g'') \<and> (b \<longrightarrow> 7 \<in> ({5} :: u64 set))" by blast+
  from p(3) have "\<exists>g''. ghost_take 7 g' = Some (False, g'')" by auto
  with r p(1,2) show ?thesis by blast
qed

end
