(* ===== verification/Memory_Shard.thy ===== *)
theory Memory_Shard
  imports Eviction Managed_Memory Codec
begin

text \<open>
  One shard of the level-one memory tier (\<^verbatim>\<open>memory/mod.rs\<close>): the byte budget, reference-counted values, the entry
  slots with their free list and hash chains, and the admission of an entry with bounded eviction.

  A \<^verbatim>\<open>MemoryValue\<close> is a handle into a heap of reference-counted cells, so that a value a caller still holds and
  a value only the shard holds are told apart the way \<^verbatim>\<open>Arc::strong_count\<close> and \<^verbatim>\<open>Arc::get_mut\<close> do; clones and
  drops are explicit. All values of a shard are charged to its budget, which is a field of the shard. \<open>None\<close> is a
  panic: a failed \<^verbatim>\<open>expect\<close>, an index out of bounds, or a handle without a cell.
\<close>

section \<open>Constants\<close>

definition MEMORY_ENTRY_OVERHEAD_BYTES :: nat where "MEMORY_ENTRY_OVERHEAD_BYTES = 64"
definition MAX_L1_ENTRY_BYTES :: nat where "MAX_L1_ENTRY_BYTES = 256 * 1024"
definition MEMORY_VALUE_SEQNO_BYTES :: nat where "MEMORY_VALUE_SEQNO_BYTES = 8"
definition MAX_SAME_HASH_ENTRIES :: nat where "MAX_SAME_HASH_ENTRIES = 8"
definition NO_SLOT_INDEX :: nat where "NO_SLOT_INDEX = u32_max"
definition MAX_EVICTIONS_PER_INSERT :: nat where "MAX_EVICTIONS_PER_INSERT = 16"
definition MAX_BUDGET_CAS_ATTEMPTS :: nat where "MAX_BUDGET_CAS_ATTEMPTS = 8"

section \<open>State\<close>

record memory_charge =
  mc_armed :: bool
  mc_bytes :: nat

record memory_value_inner =
  mv_bytes :: bytes
  mv_key_length :: nat
  mv_charge :: memory_charge

record memory_arc =
  arc_inner :: memory_value_inner
  arc_strong :: nat

type_synonym memory_value = nat

record memory_entry =
  me_value :: memory_value
  me_hash_next :: nat

record memory_shard =
  ms_capacity_bytes :: nat
  ms_used_bytes :: nat
  ms_arcs :: "memory_value \<rightharpoonup> memory_arc"
  ms_next_arc :: memory_value
  ms_eviction :: eviction_state
  ms_directory :: fixed_map
  ms_slots :: "memory_entry option list"
  ms_policy_slots :: "policy_slot list"
  ms_free_head :: nat
  ms_free_count :: nat
  ms_resident_bytes :: nat

section \<open>The budget\<close>

text \<open>
  The compare-and-exchange loops; \<open>lost\<close> is the number of attempts that fail, each observing the value the
  counter has.
\<close>

datatype memory_charge_attempt = Charged memory_charge | ChargeFull | ChargeContended

definition try_charge :: "nat \<Rightarrow> nat \<Rightarrow> memory_shard \<Rightarrow> memory_charge_attempt \<times> memory_shard" where
  "try_charge lost n s =
     (case cas_loop MAX_BUDGET_CAS_ATTEMPTS (replicate lost (ms_used_bytes s))
         (\<lambda>used. Option.bind (checked_add usize_max used n) (\<lambda>new. if new > ms_capacity_bytes s then None else Some new)) (ms_used_bytes s) of
        Stored old new \<Rightarrow> (Charged \<lparr>mc_armed = True, mc_bytes = n\<rparr>, s\<lparr>ms_used_bytes := new\<rparr>)
      | GaveUp \<Rightarrow> (ChargeFull, s)
      | Exhausted \<Rightarrow> (ChargeContended, s))"

definition available_bytes :: "memory_shard \<Rightarrow> nat" where
  "available_bytes s = ms_capacity_bytes s - ms_used_bytes s"

text \<open>A transfer that leaves the counter as it is needs no exchange, and cannot lose one.\<close>

definition try_transfer_charge :: "nat \<Rightarrow> nat \<Rightarrow> nat \<Rightarrow> memory_shard \<Rightarrow> memory_charge_attempt \<times> memory_shard" where
  "try_transfer_charge lost released required s =
     (let used = ms_used_bytes s;
          target = (\<lambda>used. Option.bind (checked_sub used released) (\<lambda>retained. Option.bind (checked_add usize_max retained required)
            (\<lambda>new. if new > ms_capacity_bytes s then None else Some new)))
      in case cas_loop MAX_BUDGET_CAS_ATTEMPTS (if target used = Some used then [] else replicate lost used) target used of
        Stored old new \<Rightarrow> (Charged \<lparr>mc_armed = True, mc_bytes = required\<rparr>, s\<lparr>ms_used_bytes := new\<rparr>)
      | GaveUp \<Rightarrow> (ChargeFull, s)
      | Exhausted \<Rightarrow> (ChargeContended, s))"

definition drop_charge :: "memory_charge \<Rightarrow> memory_shard \<Rightarrow> memory_shard" where
  "drop_charge c s = (if mc_armed c then s\<lparr>ms_used_bytes := wrapping_sub (ms_used_bytes s) (mc_bytes c)\<rparr> else s)"

section \<open>Values\<close>

definition clone_value :: "memory_value \<Rightarrow> memory_shard \<Rightarrow> memory_shard option" where
  "clone_value v s = do {
     a \<leftarrow> ms_arcs s v;
     Some (s\<lparr>ms_arcs := (ms_arcs s)(v \<mapsto> a\<lparr>arc_strong := arc_strong a + 1\<rparr>)\<rparr>)
   }"

definition drop_value :: "memory_value \<Rightarrow> memory_shard \<Rightarrow> memory_shard option" where
  "drop_value v s = do {
     a \<leftarrow> ms_arcs s v;
     if arc_strong a = 1 then Some (drop_charge (mv_charge (arc_inner a)) (s\<lparr>ms_arcs := (ms_arcs s)(v := None)\<rparr>))
     else Some (s\<lparr>ms_arcs := (ms_arcs s)(v \<mapsto> a\<lparr>arc_strong := arc_strong a - 1\<rparr>)\<rparr>)
   }"

definition drop_value_option :: "memory_value option \<Rightarrow> memory_shard \<Rightarrow> memory_shard option" where
  "drop_value_option v s = (case v of None \<Rightarrow> Some s | Some v \<Rightarrow> drop_value v s)"

definition inner_charged_bytes :: "memory_value_inner \<Rightarrow> nat" where
  "inner_charged_bytes m = MEMORY_ENTRY_OVERHEAD_BYTES + length (mv_bytes m) - MEMORY_VALUE_SEQNO_BYTES"

definition inner_key :: "memory_value_inner \<Rightarrow> bytes option" where
  "inner_key m = slice_at (mv_bytes m) 0 (mv_key_length m)"

definition inner_seqno :: "memory_value_inner \<Rightarrow> u64 option" where
  "inner_seqno m = (if length (mv_bytes m) < MEMORY_VALUE_SEQNO_BYTES then None
     else map_option from_le (slice_at (mv_bytes m) (length (mv_bytes m) - MEMORY_VALUE_SEQNO_BYTES) (length (mv_bytes m))))"

definition inner_value :: "memory_value_inner \<Rightarrow> bytes option" where
  "inner_value m = (if length (mv_bytes m) < MEMORY_VALUE_SEQNO_BYTES then None
     else slice_at (mv_bytes m) (mv_key_length m) (length (mv_bytes m) - MEMORY_VALUE_SEQNO_BYTES))"

definition value_inner :: "memory_shard \<Rightarrow> memory_value \<Rightarrow> memory_value_inner option" where
  "value_inner s v = map_option arc_inner (ms_arcs s v)"

definition charged_bytes :: "memory_shard \<Rightarrow> memory_value \<Rightarrow> nat option" where
  "charged_bytes s v = map_option inner_charged_bytes (value_inner s v)"

definition releases_charge_on_remove :: "memory_shard \<Rightarrow> memory_value \<Rightarrow> bool option" where
  "releases_charge_on_remove s v = map_option (\<lambda>a. arc_strong a = 1) (ms_arcs s v)"

definition disarm_exclusive_charge :: "memory_value \<Rightarrow> memory_shard \<Rightarrow> (nat \<times> memory_shard) option" where
  "disarm_exclusive_charge v s = do {
     a \<leftarrow> ms_arcs s v;
     if arc_strong a \<noteq> 1 then None
     else let m = arc_inner a in
       Some (mc_bytes (mv_charge m), s\<lparr>ms_arcs := (ms_arcs s)(v \<mapsto> a\<lparr>arc_inner := m\<lparr>mv_charge := (mv_charge m)\<lparr>mc_armed := False\<rparr>\<rparr>\<rparr>)\<rparr>)
   }"

text \<open>
  \<^verbatim>\<open>MemoryValue::try_new\<close>: the reuse of a recycled allocation that nobody else owns and that has the right size, or
  a new allocation after the recycled one is dropped. Assigning the charge of a reused value drops its old charge.
\<close>

definition reuse_value :: "bytes \<Rightarrow> bytes \<Rightarrow> u64 \<Rightarrow> memory_charge \<Rightarrow> memory_value \<Rightarrow> memory_arc \<Rightarrow> nat \<Rightarrow> memory_shard \<Rightarrow> memory_shard option" where
  "reuse_value key val seqno charge v a n s = do {
     let m = arc_inner a;
     bs \<leftarrow> write_range (mv_bytes m) 0 key;
     bs \<leftarrow> write_range bs (length key) val;
     bs \<leftarrow> write_range bs (n - MEMORY_VALUE_SEQNO_BYTES) (to_le 8 seqno);
     let s = drop_charge (mv_charge m) s;
     Some (s\<lparr>ms_arcs := (ms_arcs s)(v \<mapsto> a\<lparr>arc_inner := \<lparr>mv_bytes = bs, mv_key_length = length key, mv_charge = charge\<rparr>\<rparr>)\<rparr>)
   }"

definition allocate_value :: "allocator \<Rightarrow> bytes \<Rightarrow> bytes \<Rightarrow> u64 \<Rightarrow> memory_charge \<Rightarrow> nat \<Rightarrow> memory_shard \<Rightarrow> (memory_charge + memory_value) \<times> memory_shard" where
  "allocate_value alloc key val seqno charge n s =
     (if \<not> alloc n then (Inl charge, s)
      else (Inr (ms_next_arc s), s\<lparr>ms_next_arc := ms_next_arc s + 1, ms_arcs := (ms_arcs s)(ms_next_arc s \<mapsto>
        \<lparr>arc_inner = \<lparr>mv_bytes = key @ val @ to_le 8 seqno, mv_key_length = length key, mv_charge = charge\<rparr>, arc_strong = 1\<rparr>)\<rparr>))"

definition memory_value_try_new ::
    "allocator \<Rightarrow> bytes \<Rightarrow> bytes \<Rightarrow> u64 \<Rightarrow> memory_charge \<Rightarrow> memory_value option \<Rightarrow> memory_shard \<Rightarrow> ((memory_charge + memory_value) \<times> memory_shard) option" where
  "memory_value_try_new alloc key val seqno charge recycled s =
     (case Option.bind (checked_add usize_max (length key) (length val)) (\<lambda>n. checked_add usize_max n MEMORY_VALUE_SEQNO_BYTES) of
        None \<Rightarrow> map_option (Pair (Inl charge)) (drop_value_option recycled s)
      | Some n \<Rightarrow>
     case recycled of
        None \<Rightarrow> Some (allocate_value alloc key val seqno charge n s)
      | Some v \<Rightarrow> do {
          a \<leftarrow> ms_arcs s v;
          if arc_strong a = 1 \<and> length (mv_bytes (arc_inner a)) = n
          then map_option (Pair (Inr v)) (reuse_value key val seqno charge v a n s)
          else map_option (allocate_value alloc key val seqno charge n) (drop_value v s)
        })"

section \<open>The directory and the hash chains\<close>

definition directory_head :: "memory_shard \<Rightarrow> u64 \<Rightarrow> nat option" where
  "directory_head s hash = map_option unat (fixed_map_get (ms_directory s) hash)"

definition directory_can_upsert :: "memory_shard \<Rightarrow> u64 \<Rightarrow> bool" where
  "directory_can_upsert s hash = can_upsert (ms_directory s) hash"

definition directory_upsert :: "u64 \<Rightarrow> nat \<Rightarrow> memory_shard \<Rightarrow> (nat option \<times> memory_shard) option" where
  "directory_upsert hash head s =
     (case fixed_map_insert hash (of_nat head) (ms_directory s) of
        (None, dir) \<Rightarrow> None
      | (Some previous, dir) \<Rightarrow> Some (map_option unat previous, s\<lparr>ms_directory := dir\<rparr>))"

definition directory_remove :: "u64 \<Rightarrow> memory_shard \<Rightarrow> nat option \<times> memory_shard" where
  "directory_remove hash s = (case fixed_map_remove hash (ms_directory s) of (previous, dir) \<Rightarrow> (map_option unat previous, s\<lparr>ms_directory := dir\<rparr>))"

definition entry_at :: "memory_shard \<Rightarrow> nat \<Rightarrow> memory_entry option" where
  "entry_at s i = Option.bind (get_at (ms_slots s) i) id"

fun find_loop :: "nat \<Rightarrow> memory_shard \<Rightarrow> u64 \<Rightarrow> bytes \<Rightarrow> nat \<Rightarrow> nat option option" where
  "find_loop 0 s hash key cursor = Some None"
| "find_loop (Suc n) s hash key cursor =
     (case entry_at s cursor of
        None \<Rightarrow> Some None
      | Some entry \<Rightarrow> do {
          matches \<leftarrow> (if map_option ps_hash (get_at (ms_policy_slots s) cursor) = Some hash then do {
                         m \<leftarrow> value_inner s (me_value entry);
                         k \<leftarrow> inner_key m;
                         Some (k = key)
                       } else Some False);
          if matches then Some (Some cursor)
          else if me_hash_next entry = NO_SLOT_INDEX then Some None
          else find_loop n s hash key (me_hash_next entry)
        })"

definition shard_find :: "memory_shard \<Rightarrow> u64 \<Rightarrow> bytes \<Rightarrow> nat option option" where
  "shard_find s hash key =
     (case directory_head s hash of
        None \<Rightarrow> Some None
      | Some cursor \<Rightarrow> find_loop MAX_SAME_HASH_ENTRIES s hash key cursor)"

text \<open>The loop runs over the depths \<^verbatim>\<open>0..MAX_SAME_HASH_ENTRIES\<close>.\<close>

fun full_loop :: "nat list \<Rightarrow> memory_shard \<Rightarrow> nat \<Rightarrow> bool" where
  "full_loop [] s cursor = True"
| "full_loop (depth # depths) s cursor =
     (case entry_at s cursor of
        None \<Rightarrow> True
      | Some entry \<Rightarrow>
          if me_hash_next entry = NO_SLOT_INDEX then depth + 1 = MAX_SAME_HASH_ENTRIES
          else full_loop depths s (me_hash_next entry))"

definition hash_chain_is_full :: "memory_shard \<Rightarrow> u64 \<Rightarrow> bool" where
  "hash_chain_is_full s hash =
     (case directory_head s hash of None \<Rightarrow> False | Some cursor \<Rightarrow> full_loop [0..<MAX_SAME_HASH_ENTRIES] s cursor)"

section \<open>Removing an entry\<close>

text \<open>The search for the predecessor of a slot in its chain; \<open>None\<close> when the slot is not found.\<close>

fun chain_search :: "nat \<Rightarrow> memory_shard \<Rightarrow> nat \<Rightarrow> nat \<Rightarrow> nat option \<Rightarrow> nat option option" where
  "chain_search 0 s index cursor predecessor = None"
| "chain_search (Suc n) s index cursor predecessor =
     (if cursor = index then Some predecessor
      else case entry_at s cursor of
        None \<Rightarrow> None
      | Some entry \<Rightarrow>
          if me_hash_next entry = NO_SLOT_INDEX then None
          else chain_search n s index (me_hash_next entry) (Some cursor))"

definition unchain :: "nat \<Rightarrow> u64 \<Rightarrow> nat option \<Rightarrow> memory_shard \<Rightarrow> memory_shard option" where
  "unchain index hash predecessor s = do {
     entry \<leftarrow> entry_at s index;
     case predecessor of
       Some p \<Rightarrow> do {
         pe \<leftarrow> entry_at s p;
         Some (s\<lparr>ms_slots := (ms_slots s)[p := Some (pe\<lparr>me_hash_next := me_hash_next entry\<rparr>)]\<rparr>)
       }
     | None \<Rightarrow>
         if me_hash_next entry = NO_SLOT_INDEX then Some (snd (directory_remove hash s))
         else map_option snd (directory_upsert hash (me_hash_next entry) s)
   }"

definition release_slot :: "nat \<Rightarrow> bool \<Rightarrow> memory_shard \<Rightarrow> (memory_value \<times> memory_shard) option" where
  "release_slot index transfer_charge s = do {
     entry \<leftarrow> entry_at s index;
     resident_bytes \<leftarrow> charged_bytes s (me_value entry);
     s \<leftarrow> (if transfer_charge then map_option snd (disarm_exclusive_charge (me_value entry) s) else Some s);
     packed \<leftarrow> try_from u32_max index;
     policy_slots \<leftarrow> update_at (ms_policy_slots s) index (\<lambda>_. new_free (ms_free_head s));
     Some (me_value entry, s\<lparr>ms_slots := (ms_slots s)[index := None], ms_resident_bytes := ms_resident_bytes s - resident_bytes,
       ms_policy_slots := policy_slots, ms_free_head := packed, ms_free_count := ms_free_count s + 1\<rparr>)
   }"

definition remove_slot_after_policy :: "nat \<Rightarrow> u64 \<Rightarrow> bool \<Rightarrow> memory_shard \<Rightarrow> (memory_value option \<times> memory_shard) option" where
  "remove_slot_after_policy index hash transfer_charge s =
     (case directory_head s hash of
        None \<Rightarrow> Some (None, s)
      | Some cursor \<Rightarrow>
     case chain_search MAX_SAME_HASH_ENTRIES s index cursor None of
        None \<Rightarrow> Some (None, s)
      | Some predecessor \<Rightarrow> do {
          s \<leftarrow> unchain index hash predecessor s;
          (v, s) \<leftarrow> release_slot index transfer_charge s;
          Some (Some v, s)
        })"

text \<open>The eviction policy works on the policy slots.\<close>

definition with_eviction :: "(eviction_state \<Rightarrow> policy_slot list \<Rightarrow> (eviction_state \<times> policy_slot list) option) \<Rightarrow> memory_shard \<Rightarrow> memory_shard option" where
  "with_eviction f s = map_option (\<lambda>(e, slots). s\<lparr>ms_eviction := e, ms_policy_slots := slots\<rparr>) (f (ms_eviction s) (ms_policy_slots s))"

definition take_slot :: "nat \<Rightarrow> memory_shard \<Rightarrow> (memory_value option \<times> memory_shard) option" where
  "take_slot index s =
     (case (entry_at s index, get_at (ms_policy_slots s) index) of
        (Some _, Some slot) \<Rightarrow> do {
          s \<leftarrow> with_eviction (eviction_remove index) s;
          remove_slot_after_policy index (ps_hash slot) False s
        }
      | _ \<Rightarrow> Some (None, s))"

definition remove_slot :: "nat \<Rightarrow> memory_shard \<Rightarrow> memory_shard option" where
  "remove_slot index s = do { (v, s) \<leftarrow> take_slot index s; drop_value_option v s }"

section \<open>Admission\<close>

record detached_admission_entry =
  dae_index :: nat
  dae_policy :: detached_policy
  dae_weight :: nat
  dae_transfers_charge :: bool

definition detach_for_admission :: "nat \<Rightarrow> memory_shard \<Rightarrow> (detached_admission_entry \<times> memory_shard) option" where
  "detach_for_admission index s = do {
     entry \<leftarrow> entry_at s index;
     weight \<leftarrow> charged_bytes s (me_value entry);
     transfers_charge \<leftarrow> releases_charge_on_remove s (me_value entry);
     (policy, e, slots) \<leftarrow> eviction_detach index weight (ms_eviction s) (ms_policy_slots s);
     Some (\<lparr>dae_index = index, dae_policy = policy, dae_weight = weight, dae_transfers_charge = transfers_charge\<rparr>,
       s\<lparr>ms_eviction := e, ms_policy_slots := slots\<rparr>)
   }"

definition restore_detached :: "detached_admission_entry \<Rightarrow> memory_shard \<Rightarrow> memory_shard option" where
  "restore_detached entry s = with_eviction (eviction_restore (dae_index entry) (dae_policy entry)) s"

definition commit_detached :: "detached_admission_entry \<Rightarrow> bool \<Rightarrow> memory_shard \<Rightarrow> (memory_value option \<times> memory_shard) option" where
  "commit_detached entry record_eviction s = do {
     (v, s) \<leftarrow> remove_slot_after_policy (dae_index entry) (dp_hash (dae_policy entry)) (dae_transfers_charge entry) s;
     if record_eviction then do {
       e \<leftarrow> eviction_commit (dae_policy entry) (ms_eviction s);
       Some (v, s\<lparr>ms_eviction := e\<rparr>)
     } else Some (v, s)
   }"

fun restore_list :: "detached_admission_entry list \<Rightarrow> memory_shard \<Rightarrow> memory_shard option" where
  "restore_list [] s = Some s"
| "restore_list (e # es) s = Option.bind (restore_detached e s) (restore_list es)"

definition restore_admission :: "detached_admission_entry option \<Rightarrow> detached_admission_entry list \<Rightarrow> memory_shard \<Rightarrow> memory_shard option" where
  "restore_admission replacement victims s = do {
     s \<leftarrow> restore_list (rev victims) s;
     case replacement of None \<Rightarrow> Some s | Some entry \<Rightarrow> restore_detached entry s
   }"

datatype charge_result = ChargeAccepted memory_charge nat "memory_value option" | ChargeRejected nat

text \<open>
  The victims of an admission, oldest first. \<open>budget\<close> is the number of victims the fixed array has room for; the
  loop ends when enough bytes are gathered, the array is full, or the scan finds no victim in its steps.
\<close>

definition released_bytes :: "detached_admission_entry list \<Rightarrow> nat" where
  "released_bytes victims = fold (\<lambda>v total. saturating_add usize_max total (dae_weight v)) victims 0"

definition victim_reclaimable :: "memory_shard \<Rightarrow> nat \<Rightarrow> bool option" where
  "victim_reclaimable s index = do { entry \<leftarrow> entry_at s index; releases_charge_on_remove s (me_value entry) }"

fun gather_victims ::
    "nat \<Rightarrow> nat \<Rightarrow> nat \<Rightarrow> detached_admission_entry list \<Rightarrow> nat \<Rightarrow> memory_shard \<Rightarrow> (detached_admission_entry list \<times> memory_shard) option" where
  "gather_victims 0 required replacement_bytes victims remaining_steps s = Some (victims, s)"
| "gather_victims (Suc budget) required replacement_bytes victims remaining_steps s =
     (if saturating_add usize_max replacement_bytes (released_bytes victims) < required - available_bytes s \<and> remaining_steps > 0
      then do {
        (candidate, remaining_steps, e, slots) \<leftarrow> eviction_select_victim (victim_reclaimable s) remaining_steps (ms_eviction s) (ms_policy_slots s);
        let s = s\<lparr>ms_eviction := e, ms_policy_slots := slots\<rparr>;
        case candidate of
          None \<Rightarrow> Some (victims, s)
        | Some index \<Rightarrow> do {
            (detached, s) \<leftarrow> detach_for_admission index s;
            gather_victims budget required replacement_bytes (victims @ [detached]) remaining_steps s
          }
      }
      else Some (victims, s))"

fun commit_victims :: "nat \<Rightarrow> detached_admission_entry list \<Rightarrow> memory_value option \<Rightarrow> memory_shard \<Rightarrow> (memory_value option \<times> memory_shard) option" where
  "commit_victims required [] recycled s = Some (recycled, s)"
| "commit_victims required (victim # victims) recycled s = do {
     (v, s) \<leftarrow> commit_detached victim True s;
     unfit \<leftarrow> (case recycled of
        None \<Rightarrow> Some True
      | Some r \<Rightarrow> do {
          n \<leftarrow> charged_bytes s r;
          exclusive \<leftarrow> releases_charge_on_remove s r;
          Some (n \<noteq> required \<or> \<not> exclusive)
        });
     (recycled, s) \<leftarrow> (if unfit then map_option (Pair v) (drop_value_option recycled s) else map_option (Pair recycled) (drop_value_option v s));
     commit_victims required victims recycled s
   }"

definition charge_with_slot_eviction :: "memory_charge \<Rightarrow> memory_shard \<Rightarrow> (charge_result \<times> memory_shard) option" where
  "charge_with_slot_eviction charge s = do {
     (candidate, _, e, slots) \<leftarrow> eviction_select_victim (\<lambda>_. Some True) MAX_POLICY_SCAN_STEPS (ms_eviction s) (ms_policy_slots s);
     let s = s\<lparr>ms_eviction := e, ms_policy_slots := slots\<rparr>;
     case candidate of
       None \<Rightarrow> Some (ChargeRejected 0, drop_charge charge s)
     | Some index \<Rightarrow> do {
         (victim, s) \<leftarrow> detach_for_admission index s;
         (recycled, s) \<leftarrow> commit_detached (victim\<lparr>dae_transfers_charge := False\<rparr>) True s;
         Some (ChargeAccepted charge 1 recycled, s)
       }
   }"

definition evict_and_transfer :: "nat \<Rightarrow> nat \<Rightarrow> nat option \<Rightarrow> memory_shard \<Rightarrow> (charge_result \<times> memory_shard) option" where
  "evict_and_transfer lost required replacement s = do {
     (replacement, s) \<leftarrow> (case replacement of
        None \<Rightarrow> Some (None, s)
      | Some index \<Rightarrow> map_option (apfst Some) (detach_for_admission index s));
     let replacement_bytes = (case replacement of None \<Rightarrow> 0 | Some e \<Rightarrow> if dae_transfers_charge e then dae_weight e else 0);
     (victims, s) \<leftarrow> gather_victims MAX_EVICTIONS_PER_INSERT required replacement_bytes [] MAX_POLICY_SCAN_STEPS s;
     let released = saturating_add usize_max replacement_bytes (released_bytes victims);
     let required_release = required - available_bytes s;
     if released < required_release then map_option (Pair (ChargeRejected 0)) (restore_admission replacement victims s)
     else case try_transfer_charge lost released required s of
       (Charged charge, s) \<Rightarrow> do {
         (recycled, s) \<leftarrow> (case replacement of None \<Rightarrow> Some (None, s) | Some e \<Rightarrow> commit_detached e False s);
         (recycled, s) \<leftarrow> commit_victims required victims recycled s;
         Some (ChargeAccepted charge (length victims) recycled, s)
       }
     | (_, s) \<Rightarrow> map_option (Pair (ChargeRejected 0)) (restore_admission replacement victims s)
   }"

definition charge_with_eviction :: "nat \<Rightarrow> nat \<Rightarrow> nat \<Rightarrow> nat option \<Rightarrow> memory_shard \<Rightarrow> (charge_result \<times> memory_shard) option" where
  "charge_with_eviction lost lost' required replacement s =
     (if required > ms_capacity_bytes s then Some (ChargeRejected 0, s)
      else let needs_slot = (replacement = None \<and> ms_free_head s = NO_SLOT_INDEX) in
      case try_charge lost required s of
        (Charged charge, s) \<Rightarrow>
          if needs_slot then charge_with_slot_eviction charge s
          else do {
            (recycled, s) \<leftarrow> (case replacement of None \<Rightarrow> Some (None, s) | Some index \<Rightarrow> take_slot index s);
            Some (ChargeAccepted charge 0 recycled, s)
          }
      | (ChargeContended, s) \<Rightarrow> Some (ChargeRejected 0, s)
      | (ChargeFull, s) \<Rightarrow> evict_and_transfer lost' required replacement s)"

record memory_insert_result =
  mir_slot :: "nat option"
  mir_evictions :: nat

definition bypassed :: memory_insert_result where
  "bypassed = \<lparr>mir_slot = None, mir_evictions = 0\<rparr>"

definition rejected :: "nat \<Rightarrow> memory_insert_result" where
  "rejected evictions = \<lparr>mir_slot = None, mir_evictions = evictions\<rparr>"

definition result_inserted :: "memory_insert_result \<Rightarrow> bool" where
  "result_inserted r \<longleftrightarrow> mir_slot r \<noteq> None"

text \<open>The new entry at the head of the free list.\<close>

definition place_entry :: "u64 \<Rightarrow> nat \<Rightarrow> memory_value \<Rightarrow> nat \<Rightarrow> memory_shard \<Rightarrow> memory_shard option" where
  "place_entry hash index v charged s = do {
     (previous_head, s) \<leftarrow> directory_upsert hash index s;
     let entry = \<lparr>me_value = v, me_hash_next = (case previous_head of None \<Rightarrow> NO_SLOT_INDEX | Some p \<Rightarrow> p)\<rparr>;
     slot \<leftarrow> get_at (ms_policy_slots s) index;
     slots \<leftarrow> update_at (ms_slots s) index (\<lambda>_. Some entry);
     with_eviction (eviction_insert index hash charged)
       (s\<lparr>ms_free_head := ps_clock_position slot, ms_free_count := ms_free_count s - 1, ms_slots := slots,
          ms_resident_bytes := saturating_add usize_max (ms_resident_bytes s) charged\<rparr>)
   }"

definition shard_insert ::
    "allocator \<Rightarrow> nat \<Rightarrow> nat \<Rightarrow> u64 \<Rightarrow> bytes \<Rightarrow> bytes \<Rightarrow> u64 \<Rightarrow> nat \<Rightarrow> nat option \<Rightarrow> memory_shard \<Rightarrow> (memory_insert_result \<times> memory_shard) option" where
  "shard_insert alloc lost lost' hash key val seqno charged replacement s =
     (if (replacement = None \<and> hash_chain_is_full s hash) \<or> \<not> directory_can_upsert s hash then Some (bypassed, s)
      else do {
        (result, s) \<leftarrow> charge_with_eviction lost lost' charged replacement s;
        case result of
          ChargeRejected evictions \<Rightarrow> Some (rejected evictions, s)
        | ChargeAccepted charge evictions recycled \<Rightarrow>
            let index = ms_free_head s in
            if index = NO_SLOT_INDEX
            then map_option (\<lambda>s. (rejected evictions, drop_charge charge s)) (drop_value_option recycled s)
            else do {
              (made, s) \<leftarrow> memory_value_try_new alloc key val seqno charge recycled s;
              case made of
                Inl charge \<Rightarrow> Some (rejected evictions, drop_charge charge s)
              | Inr v \<Rightarrow> map_option (Pair \<lparr>mir_slot = Some index, mir_evictions = evictions\<rparr>) (place_entry hash index v charged s)
            }
      })"

end
