(* ===== verification/Memory_Heap.thy ===== *)
theory Memory_Heap
  imports Memory_Shard
begin

text \<open>
  The reference-counted values of a shard and their charges. \<open>heap_ok\<close> relates the cells to their owners: the entry
  slots, the callers (\<open>K\<close> counts the handles they hold) and the handles that are local to a running operation
  (\<open>L\<close>, with whether their charge is still armed); and it relates the budget to the charges: \<open>x\<close> bytes are charged
  and not yet attached to a value, \<open>y\<close> bytes are already given back by a transfer and still attached to one.
\<close>

section \<open>Definitions\<close>

type_synonym memory_slots = "memory_entry option list"
type_synonym arc_heap = "memory_value \<rightharpoonup> memory_arc"

definition entry_in :: "memory_slots \<Rightarrow> nat \<Rightarrow> memory_entry option" where
  "entry_in slots i = Option.bind (get_at slots i) id"

definition handles :: "memory_slots \<Rightarrow> memory_value set" where
  "handles slots = {me_value e |i e. entry_in slots i = Some e}"

definition arc_shape :: "memory_arc \<Rightarrow> bool" where
  "arc_shape a \<longleftrightarrow> 1 \<le> arc_strong a \<and> mv_key_length (arc_inner a) + 8 \<le> length (mv_bytes (arc_inner a))
     \<and> mc_bytes (mv_charge (arc_inner a)) = inner_charged_bytes (arc_inner a) \<and> inner_charged_bytes (arc_inner a) \<le> MAX_L1_ENTRY_BYTES"

definition armed_bytes :: "memory_arc option \<Rightarrow> nat" where
  "armed_bytes a = (case a of None \<Rightarrow> 0 | Some a \<Rightarrow> if mc_armed (mv_charge (arc_inner a)) then mc_bytes (mv_charge (arc_inner a)) else 0)"

definition armed_sum :: "arc_heap \<Rightarrow> nat" where
  "armed_sum arcs = (\<Sum>v \<in> dom arcs. armed_bytes (arcs v))"

definition strong_of :: "memory_arc option \<Rightarrow> nat" where
  "strong_of a = (case a of None \<Rightarrow> 0 | Some a \<Rightarrow> arc_strong a)"

definition owners :: "memory_slots \<Rightarrow> (memory_value \<Rightarrow> nat) \<Rightarrow> (memory_value \<rightharpoonup> bool) \<Rightarrow> memory_value \<Rightarrow> nat" where
  "owners slots K L v = K v + (if v \<in> handles slots then 1 else 0) + (if L v = None then 0 else 1)"

definition arcs_ok :: "arc_heap \<Rightarrow> memory_value \<Rightarrow> memory_slots \<Rightarrow> (memory_value \<Rightarrow> nat) \<Rightarrow> (memory_value \<rightharpoonup> bool) \<Rightarrow> bool" where
  "arcs_ok arcs nxt slots K L \<longleftrightarrow> finite (dom arcs)
     \<and> (\<forall>v a. arcs v = Some a \<longrightarrow> v < nxt \<and> arc_shape a \<and> (mc_armed (mv_charge (arc_inner a)) \<longleftrightarrow> L v \<noteq> Some False))
     \<and> (\<forall>v. strong_of (arcs v) = owners slots K L v)
     \<and> (\<forall>v. L v = Some False \<longrightarrow> K v = 0) \<and> (\<forall>v. L v \<noteq> None \<longrightarrow> v \<notin> handles slots)"

definition budget_ok :: "arc_heap \<Rightarrow> nat \<Rightarrow> nat \<Rightarrow> nat \<Rightarrow> nat \<Rightarrow> bool" where
  "budget_ok arcs used cap x y \<longleftrightarrow> used + y = armed_sum arcs + x \<and> used \<le> cap \<and> cap \<le> usize_max"

text \<open>The part of a value that a caller can see.\<close>

definition value_data :: "arc_heap \<Rightarrow> memory_value \<Rightarrow> (bytes \<times> nat) option" where
  "value_data arcs v = map_option (\<lambda>a. (mv_bytes (arc_inner a), mv_key_length (arc_inner a))) (arcs v)"

definition same_data :: "memory_value set \<Rightarrow> arc_heap \<Rightarrow> arc_heap \<Rightarrow> bool" where
  "same_data A arcs arcs' \<longleftrightarrow> (\<forall>v \<in> A. value_data arcs' v = value_data arcs v)"

lemma same_data_refl [simp]: "same_data A arcs arcs"
  by (simp add: same_data_def)

lemma same_data_trans: "same_data A a b \<Longrightarrow> same_data A b c \<Longrightarrow> same_data A a c"
  by (simp add: same_data_def)

lemma same_data_mono: "same_data A a b \<Longrightarrow> B \<subseteq> A \<Longrightarrow> same_data B a b"
  by (auto simp: same_data_def)

lemma arcs_okD:
  assumes "arcs_ok arcs nxt slots K L"
  shows "finite (dom arcs)" "arcs v = Some a \<Longrightarrow> v < nxt" "arcs v = Some a \<Longrightarrow> arc_shape a"
    "arcs v = Some a \<Longrightarrow> mc_armed (mv_charge (arc_inner a)) \<longleftrightarrow> L v \<noteq> Some False" "strong_of (arcs v) = owners slots K L v"
    "L v = Some False \<Longrightarrow> K v = 0" "L v \<noteq> None \<Longrightarrow> v \<notin> handles slots"
  using assms unfolding arcs_ok_def by blast+

lemma budget_okD:
  assumes "budget_ok arcs used cap x y"
  shows "used + y = armed_sum arcs + x" "used \<le> cap" "cap \<le> usize_max"
  using assms by (simp_all add: budget_ok_def)

lemma strong_of_simps [simp]: "strong_of None = 0" "strong_of (Some a) = arc_strong a"
  by (simp_all add: strong_of_def)

lemma armed_bytes_simps [simp]:
  "armed_bytes None = 0" "armed_bytes (Some a) = (if mc_armed (mv_charge (arc_inner a)) then mc_bytes (mv_charge (arc_inner a)) else 0)"
  by (simp_all add: armed_bytes_def)

lemma armed_sum_update:
  assumes "finite (dom arcs)" shows "armed_sum (arcs(v := a)) + armed_bytes (arcs v) = armed_sum arcs + armed_bytes a"
proof -
  have "armed_sum arcs = armed_bytes (arcs v) + (\<Sum>u \<in> dom arcs - {v}. armed_bytes (arcs u))" if "finite (dom arcs)" for arcs :: arc_heap
    unfolding armed_sum_def by (cases "v \<in> dom arcs") (use that in \<open>auto simp: sum.remove domIff armed_bytes_def\<close>)
  from this [of arcs] this [of "arcs(v := a)"] assms
  have "armed_sum arcs = armed_bytes (arcs v) + (\<Sum>u \<in> dom arcs - {v}. armed_bytes (arcs u))"
    "armed_sum (arcs(v := a)) = armed_bytes a + (\<Sum>u \<in> dom (arcs(v := a)) - {v}. armed_bytes ((arcs(v := a)) u))" by auto
  moreover have "dom (arcs(v := a)) - {v} = dom arcs - {v}" by auto
  moreover have "(\<Sum>u \<in> dom arcs - {v}. armed_bytes ((arcs(v := a)) u)) = (\<Sum>u \<in> dom arcs - {v}. armed_bytes (arcs u))"
    by (rule sum.cong) auto
  ultimately show ?thesis by simp
qed

lemma armed_bytes_le_sum: "finite (dom arcs) \<Longrightarrow> armed_bytes (arcs v) \<le> armed_sum arcs"
  using armed_sum_update [of arcs v None] by simp

section \<open>Owners come and go\<close>

lemma owned_cell:
  assumes "arcs_ok arcs nxt slots K L" "0 < owners slots K L v"
  obtains a where "arcs v = Some a" "arc_strong a = owners slots K L v"
  using assms arcs_okD(5) [OF assms(1), of v] by (cases "arcs v") auto

lemma local_cell:
  assumes "arcs_ok arcs nxt slots K L" "L v = Some b"
  obtains a where "arcs v = Some a" "arc_strong a = K v + 1" "mc_armed (mv_charge (arc_inner a)) = b" "arc_shape a"
proof -
  have n: "v \<notin> handles slots" using arcs_okD(7) [OF assms(1)] assms(2) by simp
  then have o: "owners slots K L v = K v + 1" using assms(2) by (simp add: owners_def)
  then obtain a where a: "arcs v = Some a" "arc_strong a = K v + 1" using owned_cell [OF assms(1), of v] by auto
  show ?thesis using that [OF a] arcs_okD(3,4) [OF assms(1) a(1)] assms(2) by (cases b) auto
qed

lemma resident_cell:
  assumes "arcs_ok arcs nxt slots K L" "v \<in> handles slots"
  obtains a where "arcs v = Some a" "arc_strong a = K v + 1" "mc_armed (mv_charge (arc_inner a))" "arc_shape a"
proof -
  have n: "L v = None" using arcs_okD(7) [OF assms(1), of v] assms(2) by blast
  then have o: "owners slots K L v = K v + 1" using assms(2) by (simp add: owners_def)
  then obtain a where a: "arcs v = Some a" "arc_strong a = K v + 1" using owned_cell [OF assms(1), of v] by auto
  show ?thesis using that [OF a] arcs_okD(3,4) [OF assms(1) a(1)] n by auto
qed

text \<open>A cell is replaced by one for the same owners, or its owners change with its count.\<close>

lemma arcs_ok_update:
  assumes ok: "arcs_ok arcs nxt slots K L"
    and a: "\<And>b. a = Some b \<Longrightarrow> v < nxt \<and> arc_shape b \<and> (mc_armed (mv_charge (arc_inner b)) \<longleftrightarrow> L' v \<noteq> Some False)"
    and s: "strong_of a = owners slots' K' L' v"
    and same: "\<And>u. u \<noteq> v \<Longrightarrow> K' u = K u \<and> L' u = L u \<and> (u \<in> handles slots' \<longleftrightarrow> u \<in> handles slots)"
    and L: "L' v = Some False \<Longrightarrow> K' v = 0" "L' v \<noteq> None \<Longrightarrow> v \<notin> handles slots'"
  shows "arcs_ok (arcs(v := a)) nxt slots' K' L'"
  unfolding arcs_ok_def
proof (intro conjI allI impI)
  show "finite (dom (arcs(v := a)))" using arcs_okD(1) [OF ok] by (cases a) auto
  show "strong_of ((arcs(v := a)) u) = owners slots' K' L' u" for u
    using s arcs_okD(5) [OF ok, of u] same [of u] by (cases "u = v") (auto simp: owners_def)
  show "K' u = 0" if "L' u = Some False" for u using that L(1) arcs_okD(6) [OF ok, of u] same [of u] by (cases "u = v") auto
  show "u \<notin> handles slots'" if "L' u \<noteq> None" for u using that L(2) arcs_okD(7) [OF ok, of u] same [of u] by (cases "u = v") auto
  fix u b assume u: "(arcs(v := a)) u = Some b"
  show "u < nxt" using u a arcs_okD(2) [OF ok, of u b] by (cases "u = v") auto
  show "arc_shape b" using u a arcs_okD(3) [OF ok, of u b] by (cases "u = v") auto
  show "mc_armed (mv_charge (arc_inner b)) \<longleftrightarrow> L' u \<noteq> Some False" using u a arcs_okD(4) [OF ok, of u b] same [of u] by (cases "u = v") auto
qed

lemma budget_update:
  assumes "arcs_ok arcs nxt slots K L" "budget_ok arcs used cap x y"
    and "used' + y' + armed_bytes (arcs v) + x = used + y + armed_bytes a + x'" "used' \<le> cap"
  shows "budget_ok (arcs(v := a)) used' cap x' y'"
  using armed_sum_update [OF arcs_okD(1) [OF assms(1)], of v a] budget_okD [OF assms(2)] assms(3,4) by (simp add: budget_ok_def)

lemma value_data_update: "v \<notin> A \<Longrightarrow> same_data A arcs (arcs(v := a))"
  by (auto simp: same_data_def value_data_def)

lemma same_data_update:
  "arcs v = Some a \<Longrightarrow> mv_bytes (arc_inner b) = mv_bytes (arc_inner a) \<Longrightarrow> mv_key_length (arc_inner b) = mv_key_length (arc_inner a)
    \<Longrightarrow> same_data A arcs (arcs(v \<mapsto> b))"
  by (auto simp: same_data_def value_data_def)

lemma armed_in_budget:
  assumes "arcs_ok arcs nxt slots K L" "budget_ok arcs used cap x y" "arcs v = Some a" "mc_armed (mv_charge (arc_inner a))" "y = 0"
  shows "mc_bytes (mv_charge (arc_inner a)) \<le> used"
  using armed_bytes_le_sum [OF arcs_okD(1) [OF assms(1)], of v] budget_okD(1) [OF assms(2)] assms(3-5) by simp

end
