(* ===== verification/Spec2Isabelle.thy ===== *)
theory Spec2Isabelle
  imports Record_Header Region_Steps Index_Heat Recovery_Session Store_Properties Eviction_Properties Memory_Heap
begin

text \<open>
  \<^bold>\<open>The program.\<close> cache2 is an embedded two-level cache. Level one is an in-memory store; level two
  is a log-structured store on a device, cut into fixed-size Regions. Records are appended to the
  active Region of one of several append shards, written in aligned spans, and the Region is sealed
  when it is full; sealed Regions are reclaimed oldest first, and records that were read at least
  twice are reinserted. A hash index in memory maps a key hash to the packed location of its record.
  On a clean close the index is written as a checksummed page image and the Region table as a
  metadata file; on open both are validated and mapped again.

  \<^bold>\<open>The theories\<close> (paths under \<^verbatim>\<open>src/cache2/src\<close>).

  \<^item> \<open>Prelude\<close>: results as sums, checked arithmetic of \<^verbatim>\<open>usize\<close> and \<^verbatim>\<open>u64\<close> on \<open>nat\<close>, bounded loops,
    list and word lemmas, the named theorem collections. \<open>Partial_Ops\<close>: fallible operations that may
    also panic, with total-correctness rules.
  \<^item> \<open>Codec\<close> (\<^verbatim>\<open>codec.rs\<close>, \<^verbatim>\<open>checksum.rs\<close>): little-endian fields and the checksum wrapper.
  \<^item> \<open>Packed\<close> (\<^verbatim>\<open>region/index/packed.rs\<close>): packed locations, size classes, partition routing.
  \<^item> \<open>Record_Header\<close> (\<^verbatim>\<open>region/record/mod.rs\<close>): the record header codec.
  \<^item> \<open>Fixed_Map\<close> (\<^verbatim>\<open>hashing.rs\<close>): the open-addressing directory of level one and hash routing.
  \<^item> \<open>Index_Layout\<close>, \<open>Index_Slot\<close>, \<open>Index_Storage\<close>, \<open>Index_Table\<close> (\<^verbatim>\<open>region/index/storage/mod.rs\<close>) and
    \<open>Page_Format\<close> (\<^verbatim>\<open>page_format.rs\<close>): geometry and partition directory, the bucket codec, page
    headers, and the runtime: lazily validated pages, sticky image rejection, partition locks,
    physical counters.
  \<^item> \<open>Region_Index\<close>, \<open>Index_Map\<close>, \<open>Index_Upsert\<close>, \<open>Index_Ops\<close>, \<open>Index_Properties\<close>, \<open>Index_Heat\<close>
    (\<^verbatim>\<open>region/index/mod.rs\<close>): the four-candidate index, its operations and their correctness, and the heat of its buckets.
  \<^item> \<open>Region_Metadata\<close> (\<^verbatim>\<open>region/recovery/metadata.rs\<close>): the Region table of a clean image, its
    validation and the rebinding of append shards.
  \<^item> \<open>Region_Manager\<close>, \<open>Region_Invariant\<close>, \<open>Region_Lifecycle\<close>, \<open>Region_Freeze\<close>, \<open>Region_Steps\<close>
    (\<^verbatim>\<open>region/manager.rs\<close>): the Region state machine, its operations, invariant, and histories.
  \<^item> \<open>Recovery_Pages\<close>, \<open>Recovery_Session\<close> (\<^verbatim>\<open>region/recovery/mod.rs\<close>): the superblock, image header and
    session state pages, the two-slot state file and the startup barrier.
  \<^item> \<open>Record_Codec\<close> (\<^verbatim>\<open>region/record/codec.rs\<close>): the encoding of a record into its reservation.
  \<^item> \<open>Record_Read\<close> (\<^verbatim>\<open>region/appender.rs\<close>, \<^verbatim>\<open>region/reader.rs\<close>, \<^verbatim>\<open>finish_value_read\<close> of \<^verbatim>\<open>region/mod.rs\<close>): where
    spans and records lie in the data file, and the checks a read completion goes through.
  \<^item> \<open>Managed_Memory\<close> (\<^verbatim>\<open>managed_memory.rs\<close>): the tracked memory limit, reservations and buffer leases.
  \<^item> \<open>Staging\<close> (\<^verbatim>\<open>region/staging.rs\<close>): the double-buffered staging shards between appends and span writes.
  \<^item> \<open>Region_Store\<close> (\<^verbatim>\<open>region/mod.rs\<close>): the store that joins the index, the manager and the staging: opening,
    reads, staging of puts and reinsertions, deletes, flushes, rotation, reclaim, freezing.
  \<^item> \<open>Record_Log\<close>, \<open>Staging_Log\<close>, \<open>Store_Invariant\<close>, \<open>Store_Stage\<close>, \<open>Store_Flush\<close>, \<open>Store_Reclaim\<close>, \<open>Store_Scan\<close>:
    a Region as a log of records, what the staging holds of it, the invariant of the store with its device, and
    that every operation keeps it.
  \<^item> \<open>Store_World\<close>, \<open>Store_Steps\<close>, \<open>Store_Open\<close>, \<open>Store_Properties\<close> (\<^verbatim>\<open>cache/runtime/mod.rs\<close>,
    \<^verbatim>\<open>region/persistence/mod.rs\<close>): the running store as a transition system from a cold start, and its properties.
  \<^item> \<open>Policy_Slot\<close>, \<open>Policy_Queue\<close>, \<open>Clock_Policy\<close>, \<open>Ghost_Queue\<close>, \<open>S3_Fifo\<close>, \<open>Eviction\<close>, \<open>Eviction_Properties\<close>
    (\<^verbatim>\<open>memory/eviction.rs\<close>): the eviction metadata of the memory tier, its two policies and their histories.
  \<^item> \<open>Directory_Preflight\<close>: what \<^verbatim>\<open>can_upsert\<close> of \<^verbatim>\<open>hashing.rs\<close> promises to the memory tier.
  \<^item> \<open>Memory_Shard\<close>, \<open>Memory_Heap\<close> (\<^verbatim>\<open>memory/mod.rs\<close>): one shard of the memory tier, with its byte budget and
    reference-counted values, and the accounting of the values.

  \<^bold>\<open>What is shown.\<close>

  \<^item> Store: in every history from a cold start, with failing reads and writes anywhere, a get answers only with a value that
    was put under that hash and key; a put that is flushed is found; a deleted key is not; no
    operation of a healthy store panics, a reclaim scan visits every record of its Region, and only a failed write,
    a failed worker, exhausted sequence numbers, or a read that fails for another reason than resource pressure make the
    store miss-only; under pressure a get answers a miss or an error and the store stays healthy.
  \<^item> Region manager: an invariant (every Region has one owner; cursors ordered; queues free of
    duplicates) kept by every sequence of operations from a recovered image; receipts are consumed
    exactly once; reservations are exclusive and in bounds; no operation reports an internal error;
    freezing and recovering are inverse.
  \<^item> Index: the storage refines a table of buckets (locale \<open>bucket_table\<close>, interpreted on the
    partitioned storage); the operations refine a finite map that forgets at most one entry per
    insertion (locale \<open>lossy_map\<close>, interpreted on the index), so no lookup is ever stale; a reclaim keeps
    exactly the entries whose bucket is hot, which two lookups make it; a corrupt page rejects the image.
  \<^item> Directory: the probing directory refines a finite map (locale \<open>bounded_directory\<close>).
  \<^item> Records: encoding is exact and never panics; a record on the device is read back through its
    quantized index entry; a read answers only with bytes that are a checked record for the key; a read
    never leaves its Region.
  \<^item> Session state: a state transition is atomic under a torn page; the startup barrier fences every
    older clean state; the three page codecs are exact (locale \<open>page_codec\<close>, interpreted three times).
  \<^item> Memory: the tracked bytes never exceed the limit and the peak is their largest value (locale \<open>event_system\<close>).
  \<^item> Eviction: CLOCK and S3-FIFO keep one contract (locale \<open>eviction_policy\<close>, interpreted on \<^verbatim>\<open>EvictionState\<close>): they
    track exactly the resident entries, with any number of victims detached at a time, never panic, and select only victims that may
    be reclaimed, within their steps; the ghost queue is bounded and has no false hits.
  \<^item> Directory preflight: the answer of \<^verbatim>\<open>can_upsert\<close> survives removals when the probe window has an unoccupied slot,
    and need not survive the removal of the key it was asked for otherwise.
  \<^item> Codecs: page headers, record headers, buckets and packed locations decode exactly what they encode.

  \<^bold>\<open>Conventions.\<close> \<^verbatim>\<open>usize\<close> and \<^verbatim>\<open>u64\<close> counters are \<open>nat\<close> with the checks of the source written out;
  values the source treats as bit fields, and counters that wrap, are words of their width. A
  fallible method on \<^verbatim>\<open>&mut self\<close> returns the Rust result and the state it leaves; a panic or an
  access outside memory is \<open>None\<close>. Parameters stand for code outside the repository or the machine:
  the CRC and XXH3 functions, whether an allocation succeeds, whether a mapping succeeds and what the
  mapped file holds, and which partition locks are contended.

  Assertions of debug builds are not modelled: the release build is.

  \<^bold>\<open>Bounds.\<close> No fuel is used: every loop of the source is a structural recursion over the list it iterates
  or over a bound the source fixes (four candidates, at most \<open>MAX_FIXED_MAP_PROBES\<close> probes, at most
  \<open>MAX_POLICY_SCAN_STEPS\<close> steps of a victim scan), except the reclaim scan, which is a \<open>function\<close> with a termination
  measure, the bytes left in the Region.

  \<^bold>\<open>Not modelled.\<close> Interleavings inside one operation: atomics and locks are sequential, justified by the partition
  guard and the mutexes that the source holds for the whole operation; a flush is split at its I/O submission and a
  reclaim at its scan, and a whole scan is one step of the transition system, as is a lookup with the read it makes, although
  the source holds no lock between the index and the device. What the engine answers to that read is arbitrary, except that a
  read it reports as complete has the bytes of the device. Thread scheduling, the io_uring and
  POSIX engines, files and directories, background workers, the configuration builders, the metadata page
  codec, the warm-image writer, and the sharded memory store around the modelled shard (its locks and its publish,
  delete, lookup and promote) are outside the model.
\<close>

end
